(* ===== verification/Prelude.thy ===== *)
theory Prelude
  imports Main "HOL-Library.Word" "HOL-Library.Monad_Syntax"
begin

text \<open>
  Shared vocabulary of the development: the machine types of the C code, the fault monad
  (an \<open>option\<close> whose \<open>None\<close> is a failed \<open>ASSERT\<close>, a fatal error or an access outside an
  allocated block), network byte order, and generic facts on lists and words.
\<close>

unbundle bit_operations_syntax

type_synonym byte = "8 word"
type_synonym u16 = "16 word"
type_synonym u32 = "32 word"
type_synonym time_t = int

subsection \<open>Fault monad\<close>

text \<open>
  \<open>ASSERT\<close> of error.h and \<open>msg (M_FATAL, ...)\<close> end the process. Both, and any access outside
  an allocated block, are the value \<open>None\<close>.
\<close>

definition c_assert :: "bool \<Rightarrow> unit option" where
  "c_assert P = (if P then Some () else None)"

lemma c_assert_simps [simp]:
  "c_assert True = Some ()" "c_assert False = None"
  "(c_assert P = Some u) = P" "(c_assert P = None) = (\<not> P)"
  by (simp_all add: c_assert_def)

lemma c_assert_bind_Some [simp]:
  "(c_assert P \<bind> f = Some x) = (P \<and> f () = Some x)"
  by (simp add: c_assert_def)

lemma c_assert_bind_True [simp]: "(c_assert True \<bind> f) = f ()"
  by simp

subsection \<open>Memory blocks\<close>

text \<open>
  An allocated block is the list of its bytes. \<open>mem_read m i n\<close> and \<open>mem_write m i bs\<close> are
  \<open>memcpy\<close> from and to displacement \<open>i\<close>; an access that leaves the block is a fault.
\<close>

definition mem_read :: "byte list \<Rightarrow> int \<Rightarrow> int \<Rightarrow> byte list option" where
  "mem_read m i n =
     (if 0 \<le> i \<and> 0 \<le> n \<and> i + n \<le> int (length m)
      then Some (take (nat n) (drop (nat i) m)) else None)"

definition mem_write :: "byte list \<Rightarrow> int \<Rightarrow> byte list \<Rightarrow> byte list option" where
  "mem_write m i bs =
     (if 0 \<le> i \<and> i + int (length bs) \<le> int (length m)
      then Some (take (nat i) m @ bs @ drop (nat i + length bs) m) else None)"

lemma mem_write_length: "mem_write m i bs = Some m' \<Longrightarrow> length m' = length m"
  by (auto simp: mem_write_def split: if_splits)

lemma mem_read_length: "mem_read m i n = Some bs \<Longrightarrow> length bs = nat n"
  by (auto simp: mem_read_def split: if_splits)

lemma mem_read_write: "mem_write m i bs = Some m' \<Longrightarrow> mem_read m' i (int (length bs)) = Some bs"
  by (auto simp: mem_write_def mem_read_def split: if_splits)

subsection \<open>Network byte order\<close>

text \<open>
  The bytes in memory of \<open>htonl x\<close> and \<open>htons x\<close>: most significant first, on any host.
\<close>

definition be32 :: "u32 \<Rightarrow> byte list" where
  "be32 x = [ucast (drop_bit 24 x), ucast (drop_bit 16 x), ucast (drop_bit 8 x), ucast x]"

fun be32_dec :: "byte list \<Rightarrow> u32" where
  "be32_dec [a, b, c, d] =
     push_bit 24 (ucast a) OR push_bit 16 (ucast b) OR push_bit 8 (ucast c) OR ucast d"
| "be32_dec _ = 0"

definition be16 :: "u16 \<Rightarrow> byte list" where
  "be16 x = [ucast (drop_bit 8 x), ucast x]"

fun be16_dec :: "byte list \<Rightarrow> u16" where
  "be16_dec [a, b] = push_bit 8 (ucast a) OR ucast b"
| "be16_dec _ = 0"

lemma length_be32 [simp]: "length (be32 x) = 4"
  by (simp add: be32_def)

lemma length_be16 [simp]: "length (be16 x) = 2"
  by (simp add: be16_def)

lemma be32_dec_be32 [simp]: "be32_dec (be32 x) = x"
proof (rule bit_word_eqI)
  fix n assume n: "n < LENGTH(32)"
  have eq: "bit (be32_dec (be32 x)) n =
      (24 \<le> n \<and> n - 24 < 32 \<and> n - 24 < 8 \<and> bit x (24 + (n - 24)) \<or>
       16 \<le> n \<and> n - 16 < 32 \<and> n - 16 < 8 \<and> bit x (16 + (n - 16)) \<or>
       8 \<le> n \<and> n - 8 < 32 \<and> n - 8 < 8 \<and> bit x (8 + (n - 8)) \<or> n < 8 \<and> bit x n)"
    using n by (simp add: be32_def bit_simps)
  show "bit (be32_dec (be32 x)) n \<longleftrightarrow> bit x n"
    unfolding eq using n
    by (cases "n < 8"; cases "n < 16"; cases "n < 24"; simp add: less_diff_conv2)
qed

lemma bit_byte_beyond [simp]: "8 \<le> n \<Longrightarrow> \<not> bit (b :: byte) n"
  using bit_imp_le_length [of b n] by auto

lemma be32_be32_dec: "length bs = 4 \<Longrightarrow> be32 (be32_dec bs) = bs"
proof -
  assume "length bs = 4"
  then obtain a b c d where "bs = [a, b, c, d]"
    by (auto simp: length_Suc_conv eval_nat_numeral)
  moreover have "be32 (be32_dec [a, b, c, d]) = [a, b, c, d]"
    by (auto simp: be32_def bit_simps intro!: bit_word_eqI)
  ultimately show ?thesis by simp
qed

lemma be16_dec_be16 [simp]: "be16_dec (be16 x) = x"
  by (rule bit_word_eqI) (auto simp: be16_def bit_simps)

subsection \<open>Words\<close>

lemma sint_eq_uint_u32: "uint (w :: u32) < 2 ^ 31 \<Longrightarrow> sint w = uint w"
proof -
  assume "uint w < 2 ^ 31"
  moreover have "- (2 ^ 31) \<le> uint w"
    by (rule order_trans [OF _ uint_ge_0]) simp
  ultimately show ?thesis
    by (simp add: sint_uint signed_take_bit_int_eq_self)
qed

lemma uint_and_FF: "uint ((x :: u32) AND 0xFF) = uint x mod 256"
proof -
  have "(0xFF :: u32) = mask 8" by (simp add: mask_eq_exp_minus_1)
  then have "x AND 0xFF = take_bit 8 x" by (simp add: take_bit_eq_mask)
  then show ?thesis by (simp add: take_bit_eq_mod uint_mod)
qed

end
