(* ===== verification/Integer_Util.thy ===== *)
theory Integer_Util
  imports Prelude
begin

text \<open>
  integer.h: the \<open>int\<close> helpers of the code base. \<open>int\<close> values stay far from the limits of
  the type, so they are modelled on \<open>int\<close>; \<open>adjust_power_of_2\<close>, whose loop is about the
  overflow of a \<open>size_t\<close>, works on words.
\<close>

definition max_int :: "int \<Rightarrow> int \<Rightarrow> int" where
  "max_int x y = (if x > y then x else y)"

definition min_int :: "int \<Rightarrow> int \<Rightarrow> int" where
  "min_int x y = (if x < y then x else y)"

definition constrain_int :: "int \<Rightarrow> int \<Rightarrow> int \<Rightarrow> int" where
  "constrain_int x lo hi =
     (if lo > hi then lo else if x < lo then lo else if x > hi then hi else x)"

definition modulo_subtract :: "int \<Rightarrow> int \<Rightarrow> int \<Rightarrow> int option" where
  "modulo_subtract x y m =
     (let d1 = x - y; d2 = (if x > y then - m else m) + d1 in do {
        c_assert (0 \<le> x \<and> x < m \<and> 0 \<le> y \<and> y < m);
        Some (if \<bar>d1\<bar> > \<bar>d2\<bar> then d2 else d1)
      })"

definition modulo_add :: "int \<Rightarrow> int \<Rightarrow> int \<Rightarrow> int option" where
  "modulo_add x y m =
     (let sum = x + y in do {
        c_assert (0 \<le> x \<and> x < m \<and> - m \<le> y \<and> y \<le> m);
        let sum = (if sum \<ge> m then sum - m else sum);
        Some (if sum < 0 then sum + m else sum)
      })"

text \<open>\<open>fuel\<close> bounds the number of doublings; 64 of them shift every bit out of a \<open>size_t\<close>.\<close>

fun adjust_power_of_2_loop :: "nat \<Rightarrow> 64 word \<Rightarrow> 64 word \<Rightarrow> 64 word option" where
  "adjust_power_of_2_loop fuel u ret =
     (if ret < u then
        (case fuel of
           0 \<Rightarrow> None
         | Suc f \<Rightarrow> (let ret' = push_bit 1 ret in
             if ret' > 0 then adjust_power_of_2_loop f u ret' else None))
      else Some ret)"

definition adjust_power_of_2 :: "64 word \<Rightarrow> 64 word option" where
  "adjust_power_of_2 u = adjust_power_of_2_loop 64 u 1"

definition index_verify :: "int \<Rightarrow> int \<Rightarrow> int option" where
  "index_verify i n = (if i < 0 \<or> i \<ge> n then None else Some i)"

subsection \<open>Facts\<close>

lemma min_int_min [simp]: "min_int x y = min x y"
  by (simp add: min_int_def)

lemma max_int_max [simp]: "max_int x y = max x y"
  by (simp add: max_int_def)

lemma constrain_int_range: "lo \<le> hi \<Longrightarrow> lo \<le> constrain_int x lo hi \<and> constrain_int x lo hi \<le> hi"
  by (simp add: constrain_int_def)

lemma modulo_add_mod:
  assumes "0 \<le> x" "x < m" "- m \<le> y" "y \<le> m"
  shows "modulo_add x y m = Some ((x + y) mod m)"
proof -
  consider "x + y \<ge> m" | "x + y < 0" | "0 \<le> x + y" "x + y < m" by linarith
  then show ?thesis
  proof cases
    case 1
    have "(x + y) mod m = (x + y - m) mod m" by simp
    also have "\<dots> = x + y - m"
      using 1 assms by (intro mod_pos_pos_trivial) auto
    finally have "(x + y) mod m = x + y - m" .
    with 1 assms show ?thesis by (simp add: modulo_add_def)
  next
    case 2
    have "(x + y) mod m = (x + y + m) mod m" by simp
    also have "\<dots> = x + y + m"
      using 2 assms by (intro mod_pos_pos_trivial) auto
    finally have "(x + y) mod m = x + y + m" .
    with 2 assms show ?thesis by (simp add: modulo_add_def)
  next
    case 3
    with assms show ?thesis by (simp add: modulo_add_def)
  qed
qed

lemma modulo_subtract_cong:
  "modulo_subtract x y m = Some d \<Longrightarrow> (y + d) mod m = x"
  by (auto simp: modulo_subtract_def Let_def split: if_splits)

lemma modulo_subtract_shortest:
  "modulo_subtract x y m = Some d \<Longrightarrow> 2 * \<bar>d\<bar> \<le> m"
  by (auto simp: modulo_subtract_def Let_def split: if_splits)

lemma index_verify_Some [simp]: "(index_verify i n = Some j) = (0 \<le> i \<and> i < n \<and> j = i)"
  by (auto simp: index_verify_def)

declare adjust_power_of_2_loop.simps [simp del]

lemma adjust_loop_from:
  assumes "u \<le> 2 ^ 63" "k \<le> 63" "64 \<le> k + fuel"
    "\<forall>j < k. (2 :: 64 word) ^ j < u"
  shows "\<exists>n \<le> 63. adjust_power_of_2_loop fuel u (2 ^ k) = Some (2 ^ n) \<and> u \<le> 2 ^ n \<and>
     (\<forall>j < n. (2 :: 64 word) ^ j < u)"
  using assms
proof (induction fuel arbitrary: k)
  case 0
  then show ?case by simp
next
  case (Suc fuel)
  show ?case
  proof (cases "(2 :: 64 word) ^ k < u")
    case True
    with Suc.prems have k: "k < 63"
      by (metis leD le_neq_implies_less)
    have "push_bit 1 ((2 :: 64 word) ^ k) = 2 ^ Suc k"
      by (simp add: push_bit_eq_mult)
    moreover have "(2 :: 64 word) ^ Suc k > 0"
      using k by (simp add: word_gt_0 exp_eq_zero_iff del: power_Suc)
    moreover have "\<forall>j < Suc k. (2 :: 64 word) ^ j < u"
      using True Suc.prems less_Suc_eq by auto
    ultimately show ?thesis
      using Suc.IH [of "Suc k"] Suc.prems k True
      by (simp add: adjust_power_of_2_loop.simps [of "Suc fuel"] del: power_Suc)
  next
    case False
    with Suc.prems show ?thesis
      by (auto simp: adjust_power_of_2_loop.simps [of "Suc fuel"] intro!: exI [of _ k])
  qed
qed

end
