(* ===== verification/Circ_List.thy ===== *)
theory Circ_List
  imports Integer_Util
begin

text \<open>
  circ_list.h: the \<open>CIRC_LIST\<close> macros, a ring of \<open>x_cap\<close> slots in which the newest element
  is at \<open>x_head\<close>. The contract of the macros is the locale \<open>bounded_memory\<close>: a list, newest
  first, that forgets what exceeds the capacity; it is interpreted on the macros here.
\<close>

record 'a circ_list =
  x_head :: int
  x_size :: int
  x_cap :: int
  x_list :: "'a list"

definition circ_list_push :: "'a circ_list \<Rightarrow> 'a \<Rightarrow> 'a circ_list option" where
  "circ_list_push obj item = do {
     h \<leftarrow> modulo_add (x_head obj) (-1) (x_cap obj);
     c_assert (h < int (length (x_list obj)));
     Some (obj\<lparr>x_head := h, x_list := (x_list obj)[nat h := item],
               x_size := min_int (x_size obj + 1) (x_cap obj)\<rparr>)
   }"

definition circ_list_index :: "'a circ_list \<Rightarrow> int \<Rightarrow> int option" where
  "circ_list_index obj i = do {
     i' \<leftarrow> index_verify i (x_size obj);
     modulo_add (x_head obj) i' (x_cap obj)
   }"

definition circ_list_item :: "'a circ_list \<Rightarrow> int \<Rightarrow> 'a option" where
  "circ_list_item obj i = do {
     j \<leftarrow> circ_list_index obj i;
     c_assert (j < int (length (x_list obj)));
     Some (x_list obj ! nat j)
   }"

definition circ_list_put :: "'a circ_list \<Rightarrow> int \<Rightarrow> 'a \<Rightarrow> 'a circ_list option" where
  \<comment> \<open>\<open>CIRC_LIST_ITEM\<close> on the left of an assignment\<close>
  "circ_list_put obj i v = do {
     j \<leftarrow> circ_list_index obj i;
     c_assert (j < int (length (x_list obj)));
     Some (obj\<lparr>x_list := (x_list obj)[nat j := v]\<rparr>)
   }"

definition circ_list_reset :: "'a circ_list \<Rightarrow> 'a circ_list" where
  "circ_list_reset obj = obj\<lparr>x_head := 0, x_size := 0\<rparr>"

definition circ_list_alloc :: "'a \<Rightarrow> int \<Rightarrow> 'a circ_list" where
  \<comment> \<open>\<open>memset\<close> clears the slots to the zero of the element type\<close>
  "circ_list_alloc zero n =
     \<lparr>x_head = 0, x_size = 0, x_cap = n, x_list = replicate (nat n) zero\<rparr>"

subsection \<open>The contract\<close>

locale bounded_memory =
  fixes inv :: "'m \<Rightarrow> bool"
    and abs :: "'m \<Rightarrow> 'a list"
    and cap :: "'m \<Rightarrow> nat"
    and push :: "'m \<Rightarrow> 'a \<Rightarrow> 'm option"
    and item :: "'m \<Rightarrow> int \<Rightarrow> 'a option"
    and put :: "'m \<Rightarrow> int \<Rightarrow> 'a \<Rightarrow> 'm option"
    and reset :: "'m \<Rightarrow> 'm"
  assumes abs_bound: "inv m \<Longrightarrow> length (abs m) \<le> cap m"
    and cap_pos: "inv m \<Longrightarrow> 0 < cap m"
    and push_spec: "inv m \<Longrightarrow>
      \<exists>m'. push m x = Some m' \<and> inv m' \<and> abs m' = take (cap m) (x # abs m) \<and> cap m' = cap m"
    and item_spec: "inv m \<Longrightarrow>
      item m i = (if 0 \<le> i \<and> i < int (length (abs m)) then Some (abs m ! nat i) else None)"
    and put_spec: "inv m \<Longrightarrow> 0 \<le> i \<Longrightarrow> i < int (length (abs m)) \<Longrightarrow>
      \<exists>m'. put m i v = Some m' \<and> inv m' \<and> abs m' = (abs m)[nat i := v] \<and> cap m' = cap m"
    and reset_spec: "inv m \<Longrightarrow> inv (reset m) \<and> abs (reset m) = [] \<and> cap (reset m) = cap m"
begin

fun push_n :: "nat \<Rightarrow> 'a \<Rightarrow> 'm \<Rightarrow> 'm option" where
  "push_n 0 x m = Some m"
| "push_n (Suc n) x m = push m x \<bind> push_n n x"

lemma push_n_spec:
  "inv m \<Longrightarrow> \<exists>m'. push_n n x m = Some m' \<and> inv m' \<and> cap m' = cap m \<and>
     abs m' = take (cap m) (replicate n x @ abs m)"
proof (induction n arbitrary: m)
  case 0
  then show ?case using abs_bound [of m] by simp
next
  case (Suc n)
  obtain m1 where m1: "push m x = Some m1" "inv m1" "abs m1 = take (cap m) (x # abs m)"
    "cap m1 = cap m"
    using push_spec [OF Suc.prems] by blast
  obtain m' where m': "push_n n x m1 = Some m'" "inv m'" "cap m' = cap m1"
    "abs m' = take (cap m1) (replicate n x @ abs m1)"
    using Suc.IH [OF m1(2)] by blast
  have "take (cap m) (replicate n x @ take (cap m) (x # abs m)) =
      take (cap m) (replicate n x @ x # abs m)"
    by (simp add: min_def)
  also have "replicate n x @ x # abs m = replicate (Suc n) x @ abs m"
    by (simp add: replicate_app_Cons_same)
  finally show ?case using m1 m' by simp
qed

lemma item_in_range: "inv m \<Longrightarrow> 0 \<le> i \<Longrightarrow> i < int (length (abs m)) \<Longrightarrow> item m i = Some (abs m ! nat i)"
  by (simp add: item_spec)

end

subsection \<open>The macros keep it\<close>

definition circ_inv :: "'a circ_list \<Rightarrow> bool" where
  "circ_inv c \<longleftrightarrow> 0 < x_cap c \<and> int (length (x_list c)) = x_cap c \<and>
     0 \<le> x_head c \<and> x_head c < x_cap c \<and> 0 \<le> x_size c \<and> x_size c \<le> x_cap c"

definition circ_abs :: "'a circ_list \<Rightarrow> 'a list" where
  "circ_abs c = map (\<lambda>i. x_list c ! nat ((x_head c + int i) mod x_cap c)) [0..<nat (x_size c)]"

definition circ_cap :: "'a circ_list \<Rightarrow> nat" where
  "circ_cap c = nat (x_cap c)"

lemma length_circ_abs [simp]: "length (circ_abs c) = nat (x_size c)"
  by (simp add: circ_abs_def)

lemma circ_abs_nth:
  "i < nat (x_size c) \<Longrightarrow> circ_abs c ! i = x_list c ! nat ((x_head c + int i) mod x_cap c)"
  by (simp add: circ_abs_def)

lemma circ_inv_alloc: "0 < n \<Longrightarrow> circ_inv (circ_list_alloc z n)"
  by (simp add: circ_inv_def circ_list_alloc_def)

lemma circ_abs_alloc: "circ_abs (circ_list_alloc z n) = []"
  by (simp add: circ_abs_def circ_list_alloc_def)

lemma circ_index_mod:
  "circ_inv c \<Longrightarrow> circ_list_index c i =
     (if 0 \<le> i \<and> i < x_size c then Some ((x_head c + i) mod x_cap c) else None)"
  by (auto simp: circ_list_index_def circ_inv_def index_verify_def modulo_add_mod)

lemma mod_shift_one:
  "0 \<le> (h::int) \<Longrightarrow> h < n \<Longrightarrow> ((h - 1) mod n + (1 + i)) mod n = (h + i) mod n"
  by (metis (no_types, opaque_lifting) add.assoc add_diff_cancel_left' diff_add_cancel mod_add_left_eq
      uminus_add_conv_diff add.commute)

lemma mod_distinct:
  "0 < (n::int) \<Longrightarrow> 0 < i \<Longrightarrow> i < n \<Longrightarrow> (h + i) mod n \<noteq> h mod n"
  by (metis add_diff_cancel_left' mod_0_imp_dvd mod_eq_dvd_iff zdvd_not_zless)

lemma circ_push_spec:
  assumes "circ_inv c"
  shows "\<exists>c'. circ_list_push c x = Some c' \<and> circ_inv c' \<and>
    circ_abs c' = take (circ_cap c) (x # circ_abs c) \<and> circ_cap c' = circ_cap c"
proof -
  define h where "h = (x_head c - 1) mod x_cap c"
  define c' where "c' = c\<lparr>x_head := h, x_list := (x_list c)[nat h := x],
     x_size := min (x_size c + 1) (x_cap c)\<rparr>"
  have h: "0 \<le> h" "h < x_cap c"
    using assms by (simp_all add: h_def circ_inv_def)
  have push: "circ_list_push c x = Some c'"
    using assms h
    by (simp add: circ_list_push_def circ_inv_def modulo_add_mod c'_def flip: h_def)
  have "circ_abs c' = take (circ_cap c) (x # circ_abs c)"
  proof (rule nth_equalityI)
    show "length (circ_abs c') = length (take (circ_cap c) (x # circ_abs c))"
      using assms by (auto simp: c'_def circ_cap_def circ_inv_def)
  next
    fix i assume "i < length (circ_abs c')"
    then have i: "int i < x_size c + 1" "int i < x_cap c" by (simp_all add: c'_def)
    show "circ_abs c' ! i = take (circ_cap c) (x # circ_abs c) ! i"
    proof (cases i)
      case 0
      have "nat h < length (x_list c)"
        using h assms unfolding circ_inv_def by linarith
      with 0 show ?thesis using i h assms
        by (simp add: circ_abs_def c'_def circ_cap_def circ_inv_def)
    next
      case (Suc j)
      have "(h + (1 + int j)) mod x_cap c = (x_head c + int j) mod x_cap c"
        unfolding h_def using assms by (intro mod_shift_one) (simp_all add: circ_inv_def)
      moreover have "(h + (1 + int j)) mod x_cap c \<noteq> h mod x_cap c"
        using i Suc by (intro mod_distinct) auto
      moreover have "0 \<le> (h + (1 + int j)) mod x_cap c"
        using assms by (simp add: circ_inv_def)
      ultimately have "nat ((h + int i) mod x_cap c) \<noteq> nat h"
        "nat ((h + int i) mod x_cap c) = nat ((x_head c + int j) mod x_cap c)"
        using h Suc by (simp_all add: nat_eq_iff2)
      then show ?thesis using i h Suc
        by (simp add: circ_abs_nth c'_def circ_cap_def)
    qed
  qed
  moreover have "circ_inv c'" "circ_cap c' = circ_cap c"
    using assms h by (auto simp: circ_inv_def c'_def circ_cap_def)
  ultimately show ?thesis using push by blast
qed

lemma circ_item_spec:
  "circ_inv c \<Longrightarrow> circ_list_item c i =
     (if 0 \<le> i \<and> i < int (length (circ_abs c)) then Some (circ_abs c ! nat i) else None)"
  by (auto simp: circ_list_item_def circ_index_mod circ_abs_def circ_inv_def)

lemma circ_put_spec:
  assumes "circ_inv c" "0 \<le> i" "i < int (length (circ_abs c))"
  shows "\<exists>c'. circ_list_put c i v = Some c' \<and> circ_inv c' \<and>
    circ_abs c' = (circ_abs c)[nat i := v] \<and> circ_cap c' = circ_cap c"
proof -
  define j where "j = (x_head c + i) mod x_cap c"
  define c' where "c' = c\<lparr>x_list := (x_list c)[nat j := v]\<rparr>"
  have i: "i < x_size c" "0 < x_cap c" "i < x_cap c" and j: "0 \<le> j" "j < x_cap c"
    using assms by (auto simp: circ_inv_def j_def)
  have put: "circ_list_put c i v = Some c'"
    using assms i j
    by (simp add: circ_list_put_def circ_index_mod c'_def circ_inv_def flip: j_def)
  have "circ_abs c' = (circ_abs c)[nat i := v]"
  proof (rule nth_equalityI)
    show "length (circ_abs c') = length ((circ_abs c)[nat i := v])"
      by (simp add: c'_def)
  next
    fix k assume "k < length (circ_abs c')"
    then have k: "int k < x_size c" by (simp add: c'_def)
    then have kc: "int k < x_cap c" using assms by (simp add: circ_inv_def)
    show "circ_abs c' ! k = (circ_abs c)[nat i := v] ! k"
    proof (cases "int k = i")
      case True
      have "nat j < length (x_list c)"
        using j assms unfolding circ_inv_def by linarith
      with True show ?thesis using k i assms
        by (auto simp: circ_abs_def c'_def circ_inv_def j_def)
    next
      case False
      have "(x_head c + int k) mod x_cap c \<noteq> (x_head c + i) mod x_cap c"
      proof
        assume "(x_head c + int k) mod x_cap c = (x_head c + i) mod x_cap c"
        then have "int k mod x_cap c = i mod x_cap c"
          by (metis add_diff_cancel_left' mod_diff_left_eq)
        then show False using False kc i assms by simp
      qed
      then have "nat ((x_head c + int k) mod x_cap c) \<noteq> nat j"
        using assms(1) j by (simp add: j_def circ_inv_def nat_eq_iff2)
      moreover have "nat i \<noteq> k" using False assms(2) by auto
      ultimately show ?thesis using k
        by (simp add: circ_abs_nth c'_def)
    qed
  qed
  moreover have "circ_inv c'" "circ_cap c' = circ_cap c"
    using assms by (auto simp: circ_inv_def c'_def circ_cap_def)
  ultimately show ?thesis using put by blast
qed

interpretation ring: bounded_memory circ_inv circ_abs circ_cap circ_list_push circ_list_item
  circ_list_put circ_list_reset
proof unfold_locales
  fix c :: "'a circ_list" and x :: 'a and i :: int
  assume c: "circ_inv c"
  show "length (circ_abs c) \<le> circ_cap c" "0 < circ_cap c"
    using c by (auto simp: circ_inv_def circ_cap_def)
  show "\<exists>m'. circ_list_push c x = Some m' \<and> circ_inv m' \<and>
      circ_abs m' = take (circ_cap c) (x # circ_abs c) \<and> circ_cap m' = circ_cap c"
    using c by (rule circ_push_spec)
  show "circ_list_item c i =
      (if 0 \<le> i \<and> i < int (length (circ_abs c)) then Some (circ_abs c ! nat i) else None)"
    using c by (rule circ_item_spec)
  show "circ_inv (circ_list_reset c) \<and> circ_abs (circ_list_reset c) = [] \<and>
      circ_cap (circ_list_reset c) = circ_cap c"
    using c by (simp add: circ_inv_def circ_abs_def circ_cap_def circ_list_reset_def)
  assume "0 \<le> i" "i < int (length (circ_abs c))"
  with c show "\<exists>m'. circ_list_put c i x = Some m' \<and> circ_inv m' \<and>
      circ_abs m' = (circ_abs c)[nat i := x] \<and> circ_cap m' = circ_cap c"
    by (rule circ_put_spec)
qed

text \<open>The length of the abstraction stays opaque from here on.\<close>

declare length_circ_abs [simp del]

end
