(* ===== verification/Buffer.thy ===== *)
theory Buffer
  imports Prelude
begin

text \<open>
  buffer.h and buffer.c: \<open>struct buffer\<close>, a window of \<open>len\<close> bytes at \<open>offset\<close> in an
  allocated block of \<open>capacity\<close> bytes. The block is the list \<open>b_data\<close> (\<open>None\<close> is the null
  pointer); a pointer into it is its displacement. Each operation keeps the tests and the
  order of the C code; a \<open>memcpy\<close> outside the block is a fault (\<open>None\<close>), so the lemmas that
  an operation of a well-formed buffer is \<open>Some\<close> are memory-safety facts. The lengths stay
  below \<open>BUF_SIZE_MAX\<close>, so the C \<open>int\<close> arithmetic is exact and is modelled on \<open>int\<close>.
\<close>

subsection \<open>The structure\<close>

record buffer =
  b_capacity :: int
  b_offset :: int
  b_len :: int
  b_data :: "byte list option"

definition BUF_SIZE_MAX :: int where
  "BUF_SIZE_MAX = 1000000"

definition clear_buf :: buffer where
  "clear_buf = \<lparr>b_capacity = 0, b_offset = 0, b_len = 0, b_data = None\<rparr>"

definition buf_defined :: "buffer \<Rightarrow> bool" where
  "buf_defined b \<longleftrightarrow> b_data b \<noteq> None"

definition buf_valid :: "buffer \<Rightarrow> bool" where
  "buf_valid b \<longleftrightarrow> b_data b \<noteq> None \<and> b_len b \<ge> 0"

definition buf_bptr :: "buffer \<Rightarrow> int option" where
  "buf_bptr b = (if buf_valid b then Some (b_offset b) else None)"

definition buf_len :: "buffer \<Rightarrow> int" where
  "buf_len b = (if buf_valid b then b_len b else 0)"

definition buf_blast :: "buffer \<Rightarrow> int option" where
  "buf_blast b =
     (if buf_len b > 0 then map_option (\<lambda>p. p + buf_len b - 1) (buf_bptr b) else None)"

text \<open>The argument is a \<open>size_t\<close>: a negative \<open>int\<close> converts to a huge value.\<close>

definition buf_size_valid :: "int \<Rightarrow> bool" where
  "buf_size_valid sz \<longleftrightarrow> 0 \<le> sz \<and> sz < BUF_SIZE_MAX"

definition buf_size_valid_signed :: "int \<Rightarrow> bool" where
  "buf_size_valid_signed sz \<longleftrightarrow> sz \<ge> - BUF_SIZE_MAX \<and> sz < BUF_SIZE_MAX"

definition buf_reset :: "buffer \<Rightarrow> buffer" where
  "buf_reset b = b\<lparr>b_capacity := 0, b_offset := 0, b_len := 0, b_data := None\<rparr>"

definition buf_reset_len :: "buffer \<Rightarrow> buffer" where
  "buf_reset_len b = b\<lparr>b_len := 0, b_offset := 0\<rparr>"

definition buf_init :: "buffer \<Rightarrow> int \<Rightarrow> buffer \<times> bool" where
  "buf_init b off =
     (if off < 0 \<or> off > b_capacity b \<or> b_data b = None then (b, False)
      else (b\<lparr>b_len := 0, b_offset := off\<rparr>, True))"

definition buf_set_write :: "byte list option \<Rightarrow> int \<Rightarrow> buffer option" where
  "buf_set_write d sz = do {
     c_assert (buf_size_valid sz);
     d' \<leftarrow> (case d of
            None \<Rightarrow> Some None
          | Some m \<Rightarrow> if sz > 0 then map_option Some (mem_write m 0 [0]) else Some (Some m));
     Some \<lparr>b_capacity = sz, b_offset = 0, b_len = 0, b_data = d'\<rparr>
   }"

definition buf_set_read :: "byte list option \<Rightarrow> int \<Rightarrow> buffer option" where
  "buf_set_read d sz = do {
     c_assert (buf_size_valid sz);
     Some \<lparr>b_capacity = sz, b_offset = 0, b_len = sz, b_data = d\<rparr>
   }"

text \<open>\<open>calloc\<close> clears the block; a failed allocation ends the process and is not modelled.\<close>

definition alloc_buf :: "int \<Rightarrow> buffer option" where
  "alloc_buf sz = do {
     c_assert (buf_size_valid sz);
     Some \<lparr>b_capacity = sz, b_offset = 0, b_len = 0, b_data = Some (replicate (nat sz) 0)\<rparr>
   }"

subsection \<open>Capacity tests\<close>

definition buf_safe :: "buffer \<Rightarrow> int \<Rightarrow> bool" where
  "buf_safe b n \<longleftrightarrow>
     buf_valid b \<and> buf_size_valid n \<and> b_offset b + b_len b + n \<le> b_capacity b"

definition buf_safe_bidir :: "buffer \<Rightarrow> int \<Rightarrow> bool" where
  "buf_safe_bidir b n =
     (if buf_valid b \<and> buf_size_valid_signed n then
        (let newlen = b_len b + n in newlen \<ge> 0 \<and> b_offset b + newlen \<le> b_capacity b)
      else False)"

definition buf_forward_capacity :: "buffer \<Rightarrow> int" where
  "buf_forward_capacity b =
     (if buf_valid b then
        (let ret = b_capacity b - (b_offset b + b_len b) in if ret < 0 then 0 else ret)
      else 0)"

definition buf_forward_capacity_total :: "buffer \<Rightarrow> int" where
  "buf_forward_capacity_total b =
     (if buf_valid b then
        (let ret = b_capacity b - b_offset b in if ret < 0 then 0 else ret)
      else 0)"

definition buf_reverse_capacity :: "buffer \<Rightarrow> int" where
  "buf_reverse_capacity b = (if buf_valid b then b_offset b else 0)"

subsection \<open>Moving the window\<close>

definition buf_inc_len :: "buffer \<Rightarrow> int \<Rightarrow> buffer \<times> bool" where
  "buf_inc_len b inc =
     (if \<not> buf_safe_bidir b inc then (b, False) else (b\<lparr>b_len := b_len b + inc\<rparr>, True))"

definition buf_prepend :: "buffer \<Rightarrow> int \<Rightarrow> buffer \<times> int option" where
  "buf_prepend b sz =
     (if \<not> buf_valid b \<or> sz < 0 \<or> sz > b_offset b then (b, None)
      else (let b' = b\<lparr>b_offset := b_offset b - sz, b_len := b_len b + sz\<rparr>
            in (b', buf_bptr b')))"

definition buf_advance :: "buffer \<Rightarrow> int \<Rightarrow> buffer \<times> bool" where
  "buf_advance b sz =
     (if \<not> buf_valid b \<or> sz < 0 \<or> b_len b < sz then (b, False)
      else (b\<lparr>b_offset := b_offset b + sz, b_len := b_len b - sz\<rparr>, True))"

definition buf_write_alloc :: "buffer \<Rightarrow> int \<Rightarrow> buffer \<times> int option" where
  "buf_write_alloc b sz =
     (if \<not> buf_safe b sz then (b, None)
      else (b\<lparr>b_len := b_len b + sz\<rparr>, map_option (\<lambda>p. p + b_len b) (buf_bptr b)))"

definition buf_write_alloc_prepend :: "buffer \<Rightarrow> int \<Rightarrow> bool \<Rightarrow> buffer \<times> int option" where
  "buf_write_alloc_prepend b sz prepend =
     (if prepend then buf_prepend b sz else buf_write_alloc b sz)"

text \<open>\<open>buf_read_alloc\<close> moves the window even when the data pointer is null.\<close>

definition buf_read_alloc :: "buffer \<Rightarrow> int \<Rightarrow> buffer \<times> int option" where
  "buf_read_alloc b sz =
     (if sz < 0 \<or> b_len b < sz then (b, None)
      else (b\<lparr>b_offset := b_offset b + sz, b_len := b_len b - sz\<rparr>, buf_bptr b))"

subsection \<open>Copying in and out\<close>

text \<open>\<open>store_at b p bs\<close> is \<open>memcpy (p, bs, n)\<close> through a pointer into the block of \<open>b\<close>.\<close>

definition store_at :: "buffer \<Rightarrow> int \<Rightarrow> byte list \<Rightarrow> buffer option" where
  "store_at b p bs = do {
     m \<leftarrow> b_data b;
     m' \<leftarrow> mem_write m p bs;
     Some (b\<lparr>b_data := Some m'\<rparr>)
   }"

definition load_at :: "buffer \<Rightarrow> int \<Rightarrow> int \<Rightarrow> byte list option" where
  "load_at b p n = do { m \<leftarrow> b_data b; mem_read m p n }"

definition buf_write :: "buffer \<Rightarrow> byte list \<Rightarrow> (buffer \<times> bool) option" where
  "buf_write dest src =
     (case buf_write_alloc dest (int (length src)) of
        (b, None) \<Rightarrow> Some (b, False)
      | (b, Some cp) \<Rightarrow> map_option (\<lambda>b'. (b', True)) (store_at b cp src))"

definition buf_write_prepend :: "buffer \<Rightarrow> byte list \<Rightarrow> (buffer \<times> bool) option" where
  "buf_write_prepend dest src =
     (case buf_prepend dest (int (length src)) of
        (b, None) \<Rightarrow> Some (b, False)
      | (b, Some cp) \<Rightarrow> map_option (\<lambda>b'. (b', True)) (store_at b cp src))"

text \<open>
  The \<open>int\<close> argument of the three writers below is truncated to the width written.
\<close>

definition buf_write_u8 :: "buffer \<Rightarrow> int \<Rightarrow> (buffer \<times> bool) option" where
  "buf_write_u8 dest d = buf_write dest [word_of_int d]"

definition buf_write_u16 :: "buffer \<Rightarrow> int \<Rightarrow> (buffer \<times> bool) option" where
  "buf_write_u16 dest d = buf_write dest (be16 (word_of_int d))"

definition buf_write_u32 :: "buffer \<Rightarrow> int \<Rightarrow> (buffer \<times> bool) option" where
  "buf_write_u32 dest d = buf_write dest (be32 (word_of_int d))"

text \<open>\<open>buf_read\<close> yields \<open>(b, None)\<close> when it returns false, else the bytes copied out.\<close>

definition buf_read :: "buffer \<Rightarrow> int \<Rightarrow> (buffer \<times> byte list option) option" where
  "buf_read src sz =
     (case buf_read_alloc src sz of
        (b, None) \<Rightarrow> Some (b, None)
      | (b, Some cp) \<Rightarrow> map_option (\<lambda>bs. (b, Some bs)) (load_at b cp sz))"

definition buf_read_u8 :: "buffer \<Rightarrow> (buffer \<times> int) option" where
  "buf_read_u8 b =
     (if buf_len b < 1 then Some (b, -1)
      else do {
        p \<leftarrow> buf_bptr b;
        bs \<leftarrow> load_at b p 1;
        Some (fst (buf_advance b 1), uint (hd bs))
      })"

definition buf_read_u16 :: "buffer \<Rightarrow> (buffer \<times> int) option" where
  "buf_read_u16 b = do {
     (b', r) \<leftarrow> buf_read b 2;
     Some (b', case r of None \<Rightarrow> -1 | Some bs \<Rightarrow> uint (be16_dec bs))
   }"

text \<open>The second component is the flag stored through \<open>good\<close>.\<close>

definition buf_read_u32 :: "buffer \<Rightarrow> (buffer \<times> u32 \<times> bool) option" where
  "buf_read_u32 b = do {
     (b', r) \<leftarrow> buf_read b 4;
     Some (b', case r of None \<Rightarrow> (0, False) | Some bs \<Rightarrow> (be32_dec bs, True))
   }"

text \<open>The bytes \<open>BPTR (b)\<close>, \<open>BLEN (b)\<close> passed to a copy.\<close>

definition buf_bytes :: "buffer \<Rightarrow> byte list option" where
  "buf_bytes b =
     (case buf_bptr b of None \<Rightarrow> Some [] | Some p \<Rightarrow> load_at b p (buf_len b))"

definition buf_copy :: "buffer \<Rightarrow> buffer \<Rightarrow> (buffer \<times> bool) option" where
  "buf_copy dest src = do { bs \<leftarrow> buf_bytes src; buf_write dest bs }"

definition buf_copy_n :: "buffer \<Rightarrow> buffer \<Rightarrow> int \<Rightarrow> (buffer \<times> buffer \<times> bool) option" where
  "buf_copy_n dest src n =
     (case buf_read_alloc src n of
        (s, None) \<Rightarrow> Some (dest, s, False)
      | (s, Some cp) \<Rightarrow> do {
          bs \<leftarrow> load_at s cp n;
          (d, ok) \<leftarrow> buf_write dest bs;
          Some (d, s, ok)
        })"

definition buf_copy_range ::
  "buffer \<Rightarrow> int \<Rightarrow> buffer \<Rightarrow> int \<Rightarrow> int \<Rightarrow> (buffer \<times> bool) option" where
  "buf_copy_range dest dest_index src src_index src_len =
     (if src_index < 0 \<or> src_len < 0 \<or> src_index + src_len > b_len src \<or> dest_index < 0
         \<or> b_offset dest + dest_index + src_len > b_capacity dest
      then Some (dest, False)
      else do {
        bs \<leftarrow> load_at src (b_offset src + src_index) src_len;
        d \<leftarrow> store_at dest (b_offset dest + dest_index) bs;
        Some (if dest_index + src_len > b_len d then d\<lparr>b_len := dest_index + src_len\<rparr> else d,
              True)
      })"

definition buf_copy_excess :: "buffer \<Rightarrow> buffer \<Rightarrow> int \<Rightarrow> (buffer \<times> buffer \<times> bool) option" where
  "buf_copy_excess dest src n =
     (if n < 0 then Some (dest, src, False)
      else if b_len src > n then
        (let src' = src\<lparr>b_len := n\<rparr> in
         case buf_advance src n of
           (_, False) \<Rightarrow> Some (dest, src', False)
         | (b, True) \<Rightarrow> do { (d, ok) \<leftarrow> buf_copy dest b; Some (d, src', ok) })
      else Some (dest, src, True))"

definition buf_assign :: "buffer \<Rightarrow> buffer \<Rightarrow> (buffer \<times> bool) option" where
  "buf_assign dest src =
     (case buf_init dest (b_offset src) of
        (d, False) \<Rightarrow> Some (d, False)
      | (d, True) \<Rightarrow> buf_copy d src)"

definition clone_buf :: "byte list \<Rightarrow> buffer \<Rightarrow> buffer option" where
  \<comment> \<open>the first argument is the fresh block of \<open>malloc\<close>, whose bytes are arbitrary\<close>
  "clone_buf fresh b = do {
     bs \<leftarrow> buf_bytes b;
     let ret = b\<lparr>b_data := Some fresh\<rparr>;
     store_at ret (b_offset b) bs
   }"

definition buf_clear :: "buffer \<Rightarrow> buffer option" where
  "buf_clear b = do {
     b' \<leftarrow> (if b_capacity b > 0 then store_at b 0 (replicate (nat (b_capacity b)) 0) else Some b);
     Some (b'\<lparr>b_len := 0, b_offset := 0\<rparr>)
   }"

definition free_buf :: "buffer \<Rightarrow> buffer" where
  "free_buf b = clear_buf"

subsection \<open>Sub-buffers\<close>

text \<open>
  \<open>buf_sub\<close> carves \<open>size\<close> bytes out of a buffer and returns a buffer whose data pointer
  aliases them. The model returns the pointer as the displacement \<open>p\<close> in the parent's block
  beside a view that starts with the bytes there; \<open>buf_sub_put\<close> is the parent after writes
  through the view.
\<close>

definition buf_sub :: "buffer \<Rightarrow> int \<Rightarrow> bool \<Rightarrow> (buffer \<times> buffer \<times> int) option" where
  "buf_sub b sz prepend =
     (case (if prepend then buf_prepend b sz else buf_write_alloc b sz) of
        (b', None) \<Rightarrow> Some (b', clear_buf, 0)
      | (b', Some p) \<Rightarrow> do {
          bs \<leftarrow> load_at b' p sz;
          Some (b', clear_buf\<lparr>b_capacity := sz, b_data := Some bs\<rparr>, p)
        })"

definition buf_sub_put :: "buffer \<Rightarrow> int \<Rightarrow> buffer \<Rightarrow> buffer option" where
  "buf_sub_put b p sub = do { bs \<leftarrow> b_data sub; store_at b p bs }"

subsection \<open>Comparing\<close>

definition buf_string_match :: "buffer \<Rightarrow> byte list \<Rightarrow> bool option" where
  "buf_string_match src pat =
     (if int (length pat) \<noteq> b_len src then Some False
      else if pat = [] then Some True
      else do { p \<leftarrow> buf_bptr src; bs \<leftarrow> load_at src p (int (length pat)); Some (bs = pat) })"

definition buf_string_match_head :: "buffer \<Rightarrow> byte list \<Rightarrow> bool option" where
  "buf_string_match_head src pat =
     (if int (length pat) > b_len src then Some False
      else if pat = [] then Some True
      else do { p \<leftarrow> buf_bptr src; bs \<leftarrow> load_at src p (int (length pat)); Some (bs = pat) })"

definition buf_string_compare_advance :: "buffer \<Rightarrow> byte list \<Rightarrow> (buffer \<times> bool) option" where
  "buf_string_compare_advance src pat = do {
     r \<leftarrow> buf_string_match_head src pat;
     Some (if r then (fst (buf_advance src (int (length pat))), True) else (src, False))
   }"

subsection \<open>Well-formed buffers and their contents\<close>

definition buf_ok :: "buffer \<Rightarrow> bool" where
  "buf_ok b \<longleftrightarrow>
     (case b_data b of
        None \<Rightarrow> False
      | Some m \<Rightarrow> b_capacity b = int (length m) \<and> b_capacity b < BUF_SIZE_MAX \<and>
          0 \<le> b_offset b \<and> 0 \<le> b_len b \<and> b_offset b + b_len b \<le> b_capacity b)"

definition content :: "buffer \<Rightarrow> byte list" where
  "content b = (case b_data b of None \<Rightarrow> []
     | Some m \<Rightarrow> take (nat (b_len b)) (drop (nat (b_offset b)) m))"

abbreviation headroom :: "buffer \<Rightarrow> nat" where
  "headroom b \<equiv> nat (b_offset b)"

definition tailroom :: "buffer \<Rightarrow> nat" where
  "tailroom b = nat (b_capacity b - (b_offset b + b_len b))"

lemma buf_ok_cases:
  assumes "buf_ok b"
  obtains pre body post where
    "b_data b = Some (pre @ body @ post)" "b_offset b = int (length pre)"
    "b_len b = int (length body)" "b_capacity b = int (length pre + length body + length post)"
    "content b = body" "b_capacity b < BUF_SIZE_MAX"
proof -
  from assms obtain m where m: "b_data b = Some m" "b_capacity b = int (length m)"
    "b_capacity b < BUF_SIZE_MAX" "0 \<le> b_offset b" "0 \<le> b_len b"
    "b_offset b + b_len b \<le> b_capacity b"
    by (auto simp: buf_ok_def split: option.splits)
  define pre where "pre = take (nat (b_offset b)) m"
  define body where "body = take (nat (b_len b)) (drop (nat (b_offset b)) m)"
  define post where "post = drop (nat (b_len b)) (drop (nat (b_offset b)) m)"
  have "m = pre @ body @ post"
    by (simp add: pre_def body_def post_def del: drop_drop)
  moreover have "length pre = nat (b_offset b)" "length body = nat (b_len b)"
    "length post = length m - nat (b_offset b) - nat (b_len b)"
    using m by (auto simp: pre_def body_def post_def)
  ultimately show thesis
    using m by (intro that [of pre body post]) (simp_all add: content_def body_def)
qed

lemma buf_okI:
  assumes "b_data b = Some (pre @ body @ post)" "b_offset b = int (length pre)"
    "b_len b = int (length body)" "b_capacity b = int (length pre + length body + length post)"
    "b_capacity b < BUF_SIZE_MAX"
  shows "buf_ok b" "content b = body" "headroom b = length pre" "tailroom b = length post"
  using assms by (auto simp: buf_ok_def content_def tailroom_def)

lemma buf_ok_valid [simp]: "buf_ok b \<Longrightarrow> buf_valid b"
  by (auto simp: buf_ok_def buf_valid_def split: option.splits)

lemma buf_ok_len: "buf_ok b \<Longrightarrow> b_len b = int (length (content b))"
  by (auto elim: buf_ok_cases)

lemma buf_len_content: "buf_ok b \<Longrightarrow> buf_len b = int (length (content b))"
  by (simp add: buf_len_def buf_ok_len)

lemma buf_ok_offset: "buf_ok b \<Longrightarrow> 0 \<le> b_offset b"
  by (auto elim: buf_ok_cases)

lemma buf_ok_tail_bound: "buf_ok b \<Longrightarrow> int (tailroom b) < BUF_SIZE_MAX"
  by (erule buf_ok_cases) (auto simp: tailroom_def)

lemma buf_safe_iff: "buf_ok b \<Longrightarrow> buf_safe b n \<longleftrightarrow> 0 \<le> n \<and> n \<le> int (tailroom b)"
  by (erule buf_ok_cases) (auto simp: buf_safe_def buf_valid_def buf_size_valid_def tailroom_def)

lemma buf_forward_capacity_tailroom: "buf_ok b \<Longrightarrow> buf_forward_capacity b = int (tailroom b)"
  by (auto simp: buf_forward_capacity_def tailroom_def Let_def)

lemma split_append_at:
  "n \<le> length xs \<Longrightarrow> \<exists>us vs. xs = us @ vs \<and> length us = n"
  by (metis append_take_drop_id length_take min.absorb2)

text \<open>Writing at the end.\<close>

lemma buf_write_full:
  "buf_ok b \<Longrightarrow> tailroom b < length bs \<Longrightarrow> buf_write b bs = Some (b, False)"
  by (simp add: buf_write_def buf_write_alloc_def buf_safe_iff)

lemma buf_write_room:
  assumes "buf_ok b" "length bs \<le> tailroom b"
  obtains b' where "buf_write b bs = Some (b', True)" "buf_ok b'" "content b' = content b @ bs"
    "tailroom b' = tailroom b - length bs" "headroom b' = headroom b"
    "b_capacity b' = b_capacity b"
proof -
  from assms(1) obtain pre body post where b:
    "b_data b = Some (pre @ body @ post)" "b_offset b = int (length pre)"
    "b_len b = int (length body)" "b_capacity b = int (length pre + length body + length post)"
    "content b = body" "b_capacity b < BUF_SIZE_MAX"
    by (rule buf_ok_cases)
  from assms(2) b have "length bs \<le> length post"
    by (simp add: tailroom_def)
  then obtain us vs where post: "post = us @ vs" "length us = length bs"
    using split_append_at by blast
  define b' where "b' = b\<lparr>b_len := int (length (body @ bs)),
    b_data := Some (pre @ (body @ bs) @ vs)\<rparr>"
  have "buf_write b bs = Some (b', True)"
    using b post assms
    by (simp add: buf_write_def buf_write_alloc_def buf_safe_iff buf_bptr_def store_at_def
        mem_write_def b'_def nat_add_distrib)
  moreover have "b_capacity b' = int (length pre + length (body @ bs) + length vs)"
    "b_capacity b' < BUF_SIZE_MAX"
    using b post by (simp_all add: b'_def)
  then have "buf_ok b'" "content b' = body @ bs" "headroom b' = length pre" "tailroom b' = length vs"
    using b by (intro buf_okI [where pre = pre and body = "body @ bs" and post = vs]; simp add: b'_def)+
  ultimately show thesis
    using that [of b'] b post by (simp add: b'_def tailroom_def)
qed

text \<open>Writing before the start.\<close>

lemma buf_write_prepend_full:
  "buf_ok b \<Longrightarrow> headroom b < length bs \<Longrightarrow> buf_write_prepend b bs = Some (b, False)"
  by (auto simp: buf_write_prepend_def buf_prepend_def dest: buf_ok_offset)

lemma buf_write_prepend_room:
  assumes "buf_ok b" "length bs \<le> headroom b"
  obtains b' where "buf_write_prepend b bs = Some (b', True)" "buf_ok b'"
    "content b' = bs @ content b" "headroom b' = headroom b - length bs"
    "tailroom b' = tailroom b" "b_capacity b' = b_capacity b"
proof -
  from assms(1) obtain pre body post where b:
    "b_data b = Some (pre @ body @ post)" "b_offset b = int (length pre)"
    "b_len b = int (length body)" "b_capacity b = int (length pre + length body + length post)"
    "content b = body" "b_capacity b < BUF_SIZE_MAX"
    by (rule buf_ok_cases)
  define us where "us = take (length pre - length bs) pre"
  define vs where "vs = drop (length pre - length bs) pre"
  have pre: "pre = us @ vs" "length vs = length bs" "nat (b_offset b) = length us + length bs"
    using assms(2) b by (simp_all add: us_def vs_def)
  define b' where "b' = b\<lparr>b_offset := int (length us), b_len := int (length (bs @ body)),
    b_data := Some (us @ (bs @ body) @ post)\<rparr>"
  have "buf_write_prepend b bs = Some (b', True)"
    using b pre assms
    by (simp add: buf_write_prepend_def buf_prepend_def buf_bptr_def store_at_def Let_def
        mem_write_def b'_def buf_valid_def)
  moreover have "b_capacity b' = int (length us + length (bs @ body) + length post)"
    "b_capacity b' < BUF_SIZE_MAX"
    using b pre by (simp_all add: b'_def)
  then have "buf_ok b'" "content b' = bs @ body" "headroom b' = length us" "tailroom b' = length post"
    by (intro buf_okI [where pre = us and body = "bs @ body" and post = post]; simp add: b'_def)+
  ultimately show thesis
    using that [of b'] b pre by (simp add: b'_def tailroom_def)
qed

text \<open>Reading from the front.\<close>

lemma buf_read_short:
  "buf_ok b \<Longrightarrow> length (content b) < nat n \<or> n < 0 \<Longrightarrow> buf_read b n = Some (b, None)"
  by (auto simp: buf_read_def buf_read_alloc_def buf_ok_len)

lemma buf_read_enough:
  assumes "buf_ok b" "0 \<le> n" "nat n \<le> length (content b)"
  obtains b' where "buf_read b n = Some (b', Some (take (nat n) (content b)))" "buf_ok b'"
    "content b' = drop (nat n) (content b)" "headroom b' = headroom b + nat n"
    "tailroom b' = tailroom b" "b_capacity b' = b_capacity b"
    "b' = b\<lparr>b_offset := b_offset b + n, b_len := b_len b - n\<rparr>"
proof -
  from assms(1) obtain pre body post where b:
    "b_data b = Some (pre @ body @ post)" "b_offset b = int (length pre)"
    "b_len b = int (length body)" "b_capacity b = int (length pre + length body + length post)"
    "content b = body" "b_capacity b < BUF_SIZE_MAX"
    by (rule buf_ok_cases)
  from assms b obtain us vs where body: "body = us @ vs" "length us = nat n"
    using split_append_at [of "nat n" body] by auto
  define b' where "b' = b\<lparr>b_offset := b_offset b + n, b_len := b_len b - n\<rparr>"
  have "buf_read b n = Some (b', Some us)"
    using b body assms
    by (simp add: buf_read_def buf_read_alloc_def buf_bptr_def load_at_def Let_def
        mem_read_def b'_def buf_valid_def)
  moreover have "b_data b' = Some ((pre @ us) @ vs @ post)" "b_offset b' = int (length (pre @ us))"
     "b_len b' = int (length vs)" "b_capacity b' = int (length (pre @ us) + length vs + length post)"
     "b_capacity b' < BUF_SIZE_MAX"
    using b body assms by (simp_all add: b'_def)
  note buf_okI [OF this]
  ultimately show thesis
    using that [of b'] b body by (simp add: b'_def tailroom_def)
qed

lemma buf_advance_content:
  assumes "buf_ok b" "0 \<le> n" "nat n \<le> length (content b)"
  shows "buf_advance b n = (b\<lparr>b_offset := b_offset b + n, b_len := b_len b - n\<rparr>, True)"
    and "content (b\<lparr>b_offset := b_offset b + n, b_len := b_len b - n\<rparr>) = drop (nat n) (content b)"
    and "buf_ok (b\<lparr>b_offset := b_offset b + n, b_len := b_len b - n\<rparr>)"
proof -
  show "buf_advance b n = (b\<lparr>b_offset := b_offset b + n, b_len := b_len b - n\<rparr>, True)"
    using assms by (auto simp: buf_advance_def buf_ok_len)
  obtain b' where "b' = b\<lparr>b_offset := b_offset b + n, b_len := b_len b - n\<rparr>" "buf_ok b'"
    "content b' = drop (nat n) (content b)"
    using assms by (rule buf_read_enough)
  then show "content (b\<lparr>b_offset := b_offset b + n, b_len := b_len b - n\<rparr>) = drop (nat n) (content b)"
    and "buf_ok (b\<lparr>b_offset := b_offset b + n, b_len := b_len b - n\<rparr>)"
    by simp_all
qed

lemma buf_bytes_content: "buf_ok b \<Longrightarrow> buf_bytes b = Some (content b)"
  by (erule buf_ok_cases)
    (simp add: buf_bytes_def buf_bptr_def buf_valid_def load_at_def buf_len_def mem_read_def)

lemma buf_read_u8_content:
  assumes "buf_ok b"
  shows "buf_read_u8 b = (case content b of [] \<Rightarrow> Some (b, -1)
     | c # cs \<Rightarrow> Some (b\<lparr>b_offset := b_offset b + 1, b_len := b_len b - 1\<rparr>, uint c))"
  using assms
  by (rule buf_ok_cases)
    (auto simp: buf_read_u8_def buf_len_def buf_bptr_def buf_valid_def load_at_def mem_read_def
      buf_advance_def split: list.splits)

lemma alloc_buf_ok:
  assumes "0 \<le> n" "n < BUF_SIZE_MAX"
  obtains b where "alloc_buf n = Some b" "buf_ok b" "content b = []" "headroom b = 0"
    "tailroom b = nat n" "b_capacity b = n"
  using assms
  by (auto simp: alloc_buf_def buf_size_valid_def buf_ok_def content_def tailroom_def)

lemma buf_init_ok:
  assumes "buf_ok b" "0 \<le> off" "off \<le> b_capacity b"
  obtains b' where "buf_init b off = (b', True)" "buf_ok b'" "content b' = []"
    "headroom b' = nat off" "tailroom b' = nat (b_capacity b - off)" "b_capacity b' = b_capacity b"
proof -
  have "b_data b \<noteq> None" using assms(1) by (auto simp: buf_ok_def split: option.splits)
  then show thesis
    using assms that [of "b\<lparr>b_len := 0, b_offset := off\<rparr>"]
    by (auto simp: buf_init_def buf_ok_def content_def tailroom_def split: option.splits)
qed

text \<open>A buffer that holds a received packet and nothing else.\<close>

definition packet_buf :: "byte list \<Rightarrow> buffer" where
  "packet_buf bs = \<lparr>b_capacity = int (length bs), b_offset = 0, b_len = int (length bs), b_data = Some bs\<rparr>"

lemma packet_buf_ok: "int (length bs) < BUF_SIZE_MAX \<Longrightarrow> buf_ok (packet_buf bs) \<and> content (packet_buf bs) = bs"
  by (simp add: packet_buf_def buf_ok_def content_def)

lemma empty_ok: "buf_ok b \<Longrightarrow> buf_ok (b\<lparr>b_len := 0\<rparr>)"
  by (auto simp: buf_ok_def split: option.splits)

lemma empty_content [simp]: "content (b\<lparr>b_len := 0\<rparr>) = []"
  by (simp add: content_def split: option.split)

subsection \<open>The contract of a byte window\<close>

text \<open>
  What the clients of a buffer rely on: bytes go in at either end while there is room, come out
  at the front, and an operation that does not fit changes nothing and says so.
\<close>

locale byte_window =
  fixes ok :: "'b \<Rightarrow> bool"
    and bytes :: "'b \<Rightarrow> byte list"
    and head :: "'b \<Rightarrow> nat"
    and tail :: "'b \<Rightarrow> nat"
    and put :: "'b \<Rightarrow> byte list \<Rightarrow> ('b \<times> bool) option"
    and push :: "'b \<Rightarrow> byte list \<Rightarrow> ('b \<times> bool) option"
    and get :: "'b \<Rightarrow> int \<Rightarrow> ('b \<times> byte list option) option"
  assumes put_law: "ok b \<Longrightarrow>
      \<exists>b'. put b bs = Some (b', length bs \<le> tail b) \<and> ok b' \<and> head b' = head b \<and>
        (if length bs \<le> tail b then bytes b' = bytes b @ bs \<and> tail b' = tail b - length bs
         else b' = b)"
    and push_law: "ok b \<Longrightarrow>
      \<exists>b'. push b bs = Some (b', length bs \<le> head b) \<and> ok b' \<and> tail b' = tail b \<and>
        (if length bs \<le> head b then bytes b' = bs @ bytes b \<and> head b' = head b - length bs
         else b' = b)"
    and get_law: "ok b \<Longrightarrow>
      \<exists>b'. get b n = Some (b', if 0 \<le> n \<and> nat n \<le> length (bytes b)
          then Some (take (nat n) (bytes b)) else None) \<and> ok b' \<and> tail b' = tail b \<and>
        (if 0 \<le> n \<and> nat n \<le> length (bytes b)
         then bytes b' = drop (nat n) (bytes b) \<and> head b' = head b + nat n else b' = b)"
begin

lemma put_fits:
  assumes "ok b" "length bs \<le> tail b"
  obtains b' where "put b bs = Some (b', True)" "ok b'" "bytes b' = bytes b @ bs"
    "tail b' = tail b - length bs" "head b' = head b"
  using put_law [OF assms(1), of bs] assms(2) by auto

lemma push_fits:
  assumes "ok b" "length bs \<le> head b"
  obtains b' where "push b bs = Some (b', True)" "ok b'" "bytes b' = bs @ bytes b"
    "tail b' = tail b" "head b' = head b - length bs"
  using push_law [OF assms(1), of bs] assms(2) by auto

lemma get_front:
  assumes "ok b" "bytes b = xs @ ys" "n = int (length xs)"
  obtains b' where "get b n = Some (b', Some xs)" "ok b'" "bytes b' = ys" "tail b' = tail b"
    "head b' = head b + length xs"
  using get_law [OF assms(1), of n] assms(2,3) by auto

lemma get_short: "ok b \<Longrightarrow> int (length (bytes b)) < n \<Longrightarrow> get b n = Some (b, None)"
  using get_law [of b n] by auto

text \<open>A record of several fields written one after the other is read back field by field.\<close>

fun put_list :: "'b \<Rightarrow> byte list list \<Rightarrow> ('b \<times> bool) option" where
  "put_list b [] = Some (b, True)"
| "put_list b (f # fs) = do {
     (b, r) \<leftarrow> put b f;
     if r then put_list b fs else Some (b, False)
   }"

fun get_list :: "'b \<Rightarrow> nat list \<Rightarrow> ('b \<times> byte list list) option" where
  "get_list b [] = Some (b, [])"
| "get_list b (n # ns) = do {
     (b, r) \<leftarrow> get b (int n);
     f \<leftarrow> r;
     (b, fs) \<leftarrow> get_list b ns;
     Some (b, f # fs)
   }"

lemma put_list_spec:
  "ok b \<Longrightarrow> length (concat fs) \<le> tail b \<Longrightarrow>
   \<exists>b'. put_list b fs = Some (b', True) \<and> ok b' \<and> bytes b' = bytes b @ concat fs \<and>
     tail b' = tail b - length (concat fs) \<and> head b' = head b"
proof (induction fs arbitrary: b)
  case (Cons f fs)
  then have "length f \<le> tail b" by simp
  with Cons.prems(1) obtain b1 where b1: "put b f = Some (b1, True)" "ok b1"
    "bytes b1 = bytes b @ f" "tail b1 = tail b - length f" "head b1 = head b"
    by (rule put_fits)
  with Cons.IH [of b1] Cons.prems show ?case by auto
qed simp

lemma get_list_spec:
  "ok b \<Longrightarrow> bytes b = concat fs @ ys \<Longrightarrow>
   \<exists>b'. get_list b (map length fs) = Some (b', fs) \<and> ok b' \<and> bytes b' = ys"
proof (induction fs arbitrary: b)
  case (Cons f fs)
  have "bytes b = f @ concat fs @ ys" using Cons.prems(2) by simp
  with Cons.prems(1) obtain b1 where b1: "get b (int (length f)) = Some (b1, Some f)" "ok b1"
    "bytes b1 = concat fs @ ys" "tail b1 = tail b" "head b1 = head b + length f"
    by (rule get_front) simp
  with Cons.IH [OF b1(2,3)] show ?case by auto
qed simp

lemma fields_roundtrip:
  assumes "ok b" "bytes b = []" "length (concat fs) \<le> tail b"
  shows "\<exists>b1 b2. put_list b fs = Some (b1, True) \<and> get_list b1 (map length fs) = Some (b2, fs) \<and>
    ok b2 \<and> bytes b2 = []"
proof -
  obtain b1 where b1: "put_list b fs = Some (b1, True)" "ok b1" "bytes b1 = concat fs @ []"
    using put_list_spec [OF assms(1,3)] assms(2) by auto
  with get_list_spec [OF b1(2,3)] show ?thesis by blast
qed

end

interpretation buf: byte_window buf_ok content headroom tailroom buf_write buf_write_prepend buf_read
proof unfold_locales
  fix b :: buffer and bs
  assume ok: "buf_ok b"
  show "\<exists>b'. buf_write b bs = Some (b', length bs \<le> tailroom b) \<and> buf_ok b' \<and> headroom b' = headroom b \<and>
      (if length bs \<le> tailroom b then content b' = content b @ bs \<and> tailroom b' = tailroom b - length bs
       else b' = b)"
  proof (cases "length bs \<le> tailroom b")
    case True
    with ok show ?thesis by (rule buf_write_room) (simp add: True)
  qed (simp add: buf_write_full ok)
  show "\<exists>b'. buf_write_prepend b bs = Some (b', length bs \<le> headroom b) \<and> buf_ok b' \<and>
      tailroom b' = tailroom b \<and>
      (if length bs \<le> headroom b then content b' = bs @ content b \<and> headroom b' = headroom b - length bs
       else b' = b)"
  proof (cases "length bs \<le> headroom b")
    case True
    with ok show ?thesis by (rule buf_write_prepend_room) (simp add: True)
  qed (simp add: buf_write_prepend_full ok)
next
  fix b :: buffer and n :: int
  assume ok: "buf_ok b"
  show "\<exists>b'. buf_read b n = Some (b', if 0 \<le> n \<and> nat n \<le> length (content b)
          then Some (take (nat n) (content b)) else None) \<and> buf_ok b' \<and> tailroom b' = tailroom b \<and>
      (if 0 \<le> n \<and> nat n \<le> length (content b)
       then content b' = drop (nat n) (content b) \<and> headroom b' = headroom b + nat n else b' = b)"
  proof (cases "0 \<le> n \<and> nat n \<le> length (content b)")
    case True
    then have "0 \<le> n" "nat n \<le> length (content b)" by simp_all
    with ok show ?thesis by (rule buf_read_enough) (simp add: True)
  next
    case False
    then have "length (content b) < nat n \<or> n < 0" by auto
    with False show ?thesis using buf_read_short [OF ok] ok by simp
  qed
qed

subsection \<open>Any sequence of operations\<close>

datatype buf_op =
    Op_write "byte list"
  | Op_prepend "byte list"
  | Op_read int
  | Op_advance int
  | Op_inc_len int

text \<open>Each step reports whether the operation succeeded and the bytes it delivered.\<close>

fun buf_exec :: "buf_op \<Rightarrow> buffer \<Rightarrow> (buffer \<times> bool \<times> byte list) option" where
  "buf_exec (Op_write bs) b = do { (b, r) \<leftarrow> buf_write b bs; Some (b, r, []) }"
| "buf_exec (Op_prepend bs) b = do { (b, r) \<leftarrow> buf_write_prepend b bs; Some (b, r, []) }"
| "buf_exec (Op_read n) b = do {
     (b, r) \<leftarrow> buf_read b n;
     Some (b, r \<noteq> None, case r of None \<Rightarrow> [] | Some bs \<Rightarrow> bs)
   }"
| "buf_exec (Op_advance n) b = (case buf_advance b n of (b, r) \<Rightarrow> Some (b, r, []))"
| "buf_exec (Op_inc_len n) b =
     (case buf_inc_len b n of (b, r) \<Rightarrow> Some (b, r, []))"

text \<open>
  The abstract window is its room in front, its bytes and the bytes of the room behind
  (which \<open>buf_inc_len\<close> can expose).
\<close>

fun win_exec ::
  "buf_op \<Rightarrow> nat \<times> byte list \<times> byte list \<Rightarrow> (nat \<times> byte list \<times> byte list) \<times> bool \<times> byte list" where
  "win_exec (Op_write bs) (h, xs, t) =
     (if length bs \<le> length t then ((h, xs @ bs, drop (length bs) t), True, [])
      else ((h, xs, t), False, []))"
| "win_exec (Op_prepend bs) (h, xs, t) =
     (if length bs \<le> h then ((h - length bs, bs @ xs, t), True, []) else ((h, xs, t), False, []))"
| "win_exec (Op_read n) (h, xs, t) =
     (if 0 \<le> n \<and> nat n \<le> length xs
      then ((h + nat n, drop (nat n) xs, t), True, take (nat n) xs) else ((h, xs, t), False, []))"
| "win_exec (Op_advance n) (h, xs, t) =
     (if 0 \<le> n \<and> nat n \<le> length xs then ((h + nat n, drop (nat n) xs, t), True, [])
      else ((h, xs, t), False, []))"
| "win_exec (Op_inc_len n) (h, xs, t) =
     (if - int (length xs) \<le> n \<and> n \<le> int (length t)
      then ((h, take (nat (int (length xs) + n)) (xs @ t), drop (nat (int (length xs) + n)) (xs @ t)),
            True, [])
      else ((h, xs, t), False, []))"

definition after :: "buffer \<Rightarrow> byte list" where
  "after b = (case b_data b of None \<Rightarrow> [] | Some m \<Rightarrow> drop (nat (b_offset b + b_len b)) m)"

definition win_of :: "buffer \<Rightarrow> nat \<times> byte list \<times> byte list" where
  "win_of b = (headroom b, content b, after b)"

lemma win_ofI:
  assumes "b_data b = Some (pre @ body @ post)" "b_offset b = int (length pre)"
    "b_len b = int (length body)" "b_capacity b = int (length pre + length body + length post)"
    "b_capacity b < BUF_SIZE_MAX"
  shows "buf_ok b" "win_of b = (length pre, body, post)"
  using buf_okI [OF assms] assms
  by (auto simp: win_of_def after_def simp flip: of_nat_add)

lemma win_ofE:
  assumes "buf_ok b"
  obtains pre body post where
    "b = \<lparr>b_capacity = int (length pre + length body + length post), b_offset = int (length pre),
          b_len = int (length body), b_data = Some (pre @ body @ post)\<rparr>"
    "length pre + length body + length post < nat BUF_SIZE_MAX"
    "win_of b = (length pre, body, post)"
proof -
  from assms obtain pre body post where b:
    "b_data b = Some (pre @ body @ post)" "b_offset b = int (length pre)"
    "b_len b = int (length body)" "b_capacity b = int (length pre + length body + length post)"
    "content b = body" "b_capacity b < BUF_SIZE_MAX"
    by (rule buf_ok_cases)
  then have "b = \<lparr>b_capacity = int (length pre + length body + length post), b_offset = int (length pre),
          b_len = int (length body), b_data = Some (pre @ body @ post)\<rparr>"
    by (cases b) simp
  moreover have "win_of b = (length pre, body, post)"
    using b(1-4,6) by (rule win_ofI)
  ultimately show thesis using b(4,6) by (intro that) simp_all
qed

lemma buf_exec_refines:
  assumes "buf_ok b"
  shows "\<exists>b' r. buf_exec op b = Some (b', r) \<and> buf_ok b' \<and> win_exec op (win_of b) = (win_of b', r)"
proof -
  from assms obtain pre body post where
    b: "b = \<lparr>b_capacity = int (length pre + length body + length post), b_offset = int (length pre),
          b_len = int (length body), b_data = Some (pre @ body @ post)\<rparr>"
    and cap: "length pre + length body + length post < nat BUF_SIZE_MAX"
    and w: "win_of b = (length pre, body, post)"
    by (rule win_ofE)
  have step: "buf_ok b' \<and> win_of b' = (length pre', body', post')"
    if "b_data b' = Some (pre' @ body' @ post')" "b_offset b' = int (length pre')"
      "b_len b' = int (length body')" "b_capacity b' = b_capacity b"
      "length pre' + length body' + length post' = length pre + length body + length post"
    for b' pre' body' post'
  proof -
    have "b_capacity b' = int (length pre' + length body' + length post')" "b_capacity b' < BUF_SIZE_MAX"
      using that(4) cap unfolding that(5) by (simp_all add: b)
    from win_ofI [OF that(1-3) this] show ?thesis by blast
  qed
  show ?thesis
  proof (cases op)
    case (Op_write bs)
    show ?thesis
    proof (cases "length bs \<le> length post")
      case True
      define b' where "b' = b\<lparr>b_len := int (length (body @ bs)),
        b_data := Some (pre @ (body @ bs) @ drop (length bs) post)\<rparr>"
      have "buf_exec op b = Some (b', True, [])"
        using True cap assms
        by (simp add: Op_write buf_write_def buf_write_alloc_def buf_safe_iff buf_bptr_def
          store_at_def mem_write_def b'_def nat_add_distrib tailroom_def b buf_valid_def)
      moreover have "buf_ok b' \<and> win_of b' = (length pre, body @ bs, drop (length bs) post)"
        using True by (intro step) (simp_all add: b'_def b)
      ultimately show ?thesis using True by (simp add: Op_write w)
    next
      case False
      then have "tailroom b < length bs" by (simp add: tailroom_def b)
      then have "buf_exec op b = Some (b, False, [])"
        by (simp add: Op_write buf_write_full [OF assms])
      then show ?thesis using False assms by (simp add: Op_write w)
    qed
  next
    case (Op_prepend bs)
    show ?thesis
    proof (cases "length bs \<le> length pre")
      case True
      define us where "us = take (length pre - length bs) pre"
      define vs where "vs = drop (length pre - length bs) pre"
      have pre: "pre = us @ vs" "length vs = length bs" using True by (simp_all add: us_def vs_def)
      define b' where "b' = b\<lparr>b_offset := int (length us), b_len := int (length (bs @ body)),
        b_data := Some (us @ (bs @ body) @ post)\<rparr>"
      have "buf_exec op b = Some (b', True, [])"
        using pre
        by (simp add: Op_prepend buf_write_prepend_def buf_prepend_def buf_bptr_def store_at_def
          Let_def mem_write_def b'_def buf_valid_def b)
      moreover have "buf_ok b' \<and> win_of b' = (length us, bs @ body, post)"
        using pre by (intro step) (simp_all add: b'_def b)
      ultimately show ?thesis using True pre by (simp add: Op_prepend w)
    next
      case False
      then have "headroom b < length bs" by (simp add: b)
      then have "buf_exec op b = Some (b, False, [])"
        by (simp add: Op_prepend buf_write_prepend_full [OF assms])
      then show ?thesis using False assms by (simp add: Op_prepend w)
    qed
  next
    case (Op_read n)
    show ?thesis
    proof (cases "0 \<le> n \<and> nat n \<le> length body")
      case True
      define us where "us = take (nat n) body"
      define vs where "vs = drop (nat n) body"
      have body: "body = us @ vs" "length us = nat n" using True by (simp_all add: us_def vs_def)
      define b' where "b' = b\<lparr>b_offset := int (length (pre @ us)), b_len := int (length vs)\<rparr>"
      have "buf_exec op b = Some (b', True, us)"
        using True body
        by (simp add: Op_read buf_read_def buf_read_alloc_def buf_bptr_def load_at_def Let_def
          mem_read_def b'_def buf_valid_def b)
      moreover have "buf_ok b' \<and> win_of b' = (length (pre @ us), vs, post)"
        using body by (intro step) (simp_all add: b'_def b)
      ultimately show ?thesis using True body by (simp add: Op_read w)
    next
      case False
      then have "buf_exec op b = Some (b, False, [])"
        by (auto simp: Op_read buf_read_def buf_read_alloc_def b)
      then show ?thesis using False assms by (simp add: Op_read w)
    qed
  next
    case (Op_advance n)
    show ?thesis
    proof (cases "0 \<le> n \<and> nat n \<le> length body")
      case True
      define us where "us = take (nat n) body"
      define vs where "vs = drop (nat n) body"
      have body: "body = us @ vs" "length us = nat n" using True by (simp_all add: us_def vs_def)
      define b' where "b' = b\<lparr>b_offset := int (length (pre @ us)), b_len := int (length vs)\<rparr>"
      have "buf_exec op b = Some (b', True, [])"
        using True body by (simp add: Op_advance buf_advance_def b'_def buf_valid_def b)
      moreover have "buf_ok b' \<and> win_of b' = (length (pre @ us), vs, post)"
        using body by (intro step) (simp_all add: b'_def b)
      ultimately show ?thesis using True body by (simp add: Op_advance w)
    next
      case False
      then have "buf_exec op b = Some (b, False, [])"
        by (auto simp: Op_advance buf_advance_def b)
      then show ?thesis using False assms by (simp add: Op_advance w)
    qed
  next
    case (Op_inc_len n)
    show ?thesis
    proof (cases "- int (length body) \<le> n \<and> n \<le> int (length post)")
      case True
      define k where "k = nat (int (length body) + n)"
      define b' where "b' = b\<lparr>b_len := int k\<rparr>"
      have k: "k \<le> length body + length post" "int (length body) + n = int k"
        using True by (auto simp: k_def)
      have "buf_exec op b = Some (b', True, [])"
        using True cap k(2)
        by (auto simp: Op_inc_len buf_inc_len_def buf_safe_bidir_def b'_def buf_valid_def b
          buf_size_valid_signed_def Let_def)
      moreover have "buf_ok b' \<and> win_of b' = (length pre, take k (body @ post), drop k (body @ post))"
        using k(1) by (intro step) (simp_all add: b'_def b del: take_append drop_append)
      ultimately show ?thesis using True by (simp add: Op_inc_len w k_def del: take_append drop_append)
    next
      case False
      then have "buf_exec op b = Some (b, False, [])"
        by (auto simp: Op_inc_len buf_inc_len_def buf_safe_bidir_def Let_def b)
      then show ?thesis using False assms by (simp add: Op_inc_len w)
    qed
  qed
qed

fun buf_exec_all :: "buf_op list \<Rightarrow> buffer \<Rightarrow> (buffer \<times> (bool \<times> byte list) list) option" where
  "buf_exec_all [] b = Some (b, [])"
| "buf_exec_all (op # ops) b = do {
     (b, r) \<leftarrow> buf_exec op b;
     (b, rs) \<leftarrow> buf_exec_all ops b;
     Some (b, r # rs)
   }"

fun win_exec_all :: "buf_op list \<Rightarrow> nat \<times> byte list \<times> byte list \<Rightarrow>
   (nat \<times> byte list \<times> byte list) \<times> (bool \<times> byte list) list" where
  "win_exec_all [] w = (w, [])"
| "win_exec_all (op # ops) w =
     (case win_exec op w of (w, r) \<Rightarrow> case win_exec_all ops w of (w, rs) \<Rightarrow> (w, r # rs))"

text \<open>
  C3. Memory safety and functional correctness of buffer.h: on a well-formed buffer, any
  sequence of writes, prepends, reads, advances and length changes runs without an access
  outside the block, keeps the buffer well-formed, and answers exactly like the abstract window
  of (room in front, content, room behind).
\<close>

theorem buffer_refines_window:
  assumes "buf_ok b"
  shows "\<exists>b'. buf_exec_all ops b = Some (b', snd (win_exec_all ops (win_of b))) \<and> buf_ok b' \<and>
    win_of b' = fst (win_exec_all ops (win_of b))"
  using assms
proof (induction ops arbitrary: b)
  case (Cons op ops)
  obtain b1 r where b1: "buf_exec op b = Some (b1, r)" "buf_ok b1" "win_exec op (win_of b) = (win_of b1, r)"
    using buf_exec_refines [OF Cons.prems] by blast
  with Cons.IH [OF b1(2)] show ?case by (auto split: prod.splits)
qed simp

theorem buffer_refines_window_witness:
  "\<exists>b'. buf_exec_all [Op_inc_len 2, Op_write [7, 8], Op_read 3, Op_prepend [9], Op_write [1, 2]]
      \<lparr>b_capacity = 4, b_offset = 0, b_len = 0, b_data = Some [5, 6, 0, 0]\<rparr> =
    Some (b', [(True, []), (True, []), (True, [5, 6, 7]), (True, []), (False, [])])"
  using buffer_refines_window [of "\<lparr>b_capacity = 4, b_offset = 0, b_len = 0, b_data = Some [5, 6, 0, 0]\<rparr>"
      "[Op_inc_len 2, Op_write [7, 8], Op_read 3, Op_prepend [9], Op_write [1, 2]]"]
  by (auto simp: buf_ok_def BUF_SIZE_MAX_def win_of_def content_def after_def)

text \<open>
  Integers written to a buffer in network order are read back: the \<open>int\<close> arguments of
  \<open>buf_write_u8\<close>, \<open>buf_write_u16\<close> and \<open>buf_write_u32\<close> come back from \<open>buf_read_u8\<close>,
  \<open>buf_read_u16\<close> and \<open>buf_read_u32\<close> truncated to their width.
\<close>

theorem buffer_int_roundtrip:
  assumes "buf_ok b" "content b = []" "7 \<le> tailroom b"
  shows "\<exists>b'. do {
      (b, _) \<leftarrow> buf_write_u8 b x;
      (b, _) \<leftarrow> buf_write_u16 b y;
      (b, _) \<leftarrow> buf_write_u32 b z;
      (b, x') \<leftarrow> buf_read_u8 b;
      (b, y') \<leftarrow> buf_read_u16 b;
      (b, z', g) \<leftarrow> buf_read_u32 b;
      Some (b, x', y', z', g)
    } = Some (b', x mod 256, y mod 65536, word_of_int z, True) \<and> buf_ok b' \<and> content b' = []"
proof -
  have "length [word_of_int x :: byte] \<le> tailroom b" using assms(3) by simp
  with assms(1) obtain b1 where b1: "buf_write b [word_of_int x] = Some (b1, True)" "buf_ok b1"
    "content b1 = content b @ [word_of_int x]" "tailroom b1 = tailroom b - length [word_of_int x :: byte]"
    "headroom b1 = headroom b"
    by (rule buf.put_fits)
  have "length (be16 (word_of_int y)) \<le> tailroom b1" using assms(3) b1(4) by simp
  with b1(2) obtain b2 where b2: "buf_write b1 (be16 (word_of_int y)) = Some (b2, True)" "buf_ok b2"
    "content b2 = content b1 @ be16 (word_of_int y)"
    "tailroom b2 = tailroom b1 - length (be16 (word_of_int y))" "headroom b2 = headroom b1"
    by (rule buf.put_fits)
  have "length (be32 (word_of_int z)) \<le> tailroom b2" using assms(3) b1(4) b2(4) by simp
  with b2(2) obtain b3 where b3: "buf_write b2 (be32 (word_of_int z)) = Some (b3, True)" "buf_ok b3"
    "content b3 = content b2 @ be32 (word_of_int z)"
    "tailroom b3 = tailroom b2 - length (be32 (word_of_int z))" "headroom b3 = headroom b2"
    by (rule buf.put_fits)
  have c3: "content b3 = word_of_int x # be16 (word_of_int y) @ be32 (word_of_int z)"
    using assms(2) b1(3) b2(3) b3(3) by simp
  define b4 where "b4 = b3\<lparr>b_offset := b_offset b3 + 1, b_len := b_len b3 - 1\<rparr>"
  have r4: "buf_read_u8 b3 = Some (b4, x mod 256)"
    using buf_read_u8_content [OF b3(2)] by (simp add: c3 b4_def uint_word_of_int)
  have b4: "buf_ok b4" "content b4 = be16 (word_of_int y) @ be32 (word_of_int z)"
    using buf_advance_content(2,3) [OF b3(2), of 1] by (simp_all add: c3 b4_def)
  have "2 = int (length (be16 (word_of_int y)))" by simp
  with b4 obtain b5 where b5: "buf_read b4 2 = Some (b5, Some (be16 (word_of_int y)))" "buf_ok b5"
    "content b5 = be32 (word_of_int z)" "tailroom b5 = tailroom b4"
    "headroom b5 = headroom b4 + length (be16 (word_of_int y))"
    by (rule buf.get_front)
  have "content b5 = be32 (word_of_int z) @ []" "4 = int (length (be32 (word_of_int z)))"
    using b5(3) by simp_all
  with b5(2) obtain b6 where b6: "buf_read b5 4 = Some (b6, Some (be32 (word_of_int z)))" "buf_ok b6"
    "content b6 = []" "tailroom b6 = tailroom b5"
    "headroom b6 = headroom b5 + length (be32 (word_of_int z))"
    by (rule buf.get_front)
  show ?thesis
    using b1(1) b2(1) b3(1) r4 b5(1) b6(1-3)
    by (simp add: buf_write_u8_def buf_write_u16_def buf_write_u32_def buf_read_u16_def
        buf_read_u32_def uint_word_of_int)
qed

definition sample_buffer :: buffer where
  "sample_buffer = \<lparr>b_capacity = 8, b_offset = 0, b_len = 0, b_data = Some (replicate 8 0)\<rparr>"

theorem buffer_int_roundtrip_witness:
  "map_option snd (do {
      (b, _) \<leftarrow> buf_write_u8 sample_buffer (-1);
      (b, _) \<leftarrow> buf_write_u16 b 65538;
      (b, _) \<leftarrow> buf_write_u32 b 7;
      (b, x') \<leftarrow> buf_read_u8 b;
      (b, y') \<leftarrow> buf_read_u16 b;
      (b, z', g) \<leftarrow> buf_read_u32 b;
      Some (b, x', y', z', g)
    }) = Some (255, 2, 7, True)"
proof -
  have "buf_ok sample_buffer" "content sample_buffer = []" "7 \<le> tailroom sample_buffer"
    by (simp_all add: sample_buffer_def buf_ok_def BUF_SIZE_MAX_def content_def tailroom_def)
  from buffer_int_roundtrip [OF this, of "-1" 65538 7] show ?thesis by fastforce
qed

end
