(* ===== verification/Packet_Id.thy ===== *)
theory Packet_Id
  imports Circ_List Buffer
begin

text \<open>
  packet_id.h and packet_id.c: sequence numbers of the sender and the replay check of the
  receiver, with \<open>crypto_check_replay\<close> of crypto.c, the routine that drives it for every
  authenticated packet. \<open>time_t\<close> is modelled on \<open>int\<close>; packet ids are 32-bit words; the
  global clock \<open>now\<close> is an argument. Log messages are not modelled.
\<close>

subsection \<open>State\<close>

record packet_id_rec =
  last_reap :: time_t
  rec_time :: time_t
  rec_id :: u32
  seq_backtrack :: int
  time_backtrack :: int
  max_backtrack_stat :: int
  initialized :: bool
  seq_list :: "time_t circ_list option"

record packet_id_send =
  send_id :: u32
  send_time :: time_t

record packet_id_net =
  net_id :: u32
  net_time :: time_t

record packet_id =
  pid_send :: packet_id_send
  pid_rec :: packet_id_rec

record packet_id_persist =
  pp_fd :: int
  pp_time :: time_t
  pp_id :: u32
  time_last_written :: time_t
  id_last_written :: u32

definition SEQ_UNSEEN :: time_t where "SEQ_UNSEEN = 0"
definition SEQ_EXPIRED :: time_t where "SEQ_EXPIRED = 1"
definition PACKET_ID_MAX :: u32 where "PACKET_ID_MAX = 0xFFFFFFFF"
definition PACKET_ID_WRAP_TRIGGER :: u32 where "PACKET_ID_WRAP_TRIGGER = 0xFF000000"
definition MIN_SEQ_BACKTRACK :: int where "MIN_SEQ_BACKTRACK = 0"
definition MAX_SEQ_BACKTRACK :: int where "MAX_SEQ_BACKTRACK = 65536"
definition MIN_TIME_BACKTRACK :: int where "MIN_TIME_BACKTRACK = 0"
definition MAX_TIME_BACKTRACK :: int where "MAX_TIME_BACKTRACK = 600"
definition SEQ_REAP_INTERVAL :: time_t where "SEQ_REAP_INTERVAL = 5"

definition packet_id_clear :: packet_id where
  "packet_id_clear =
     \<lparr>pid_send = \<lparr>send_id = 0, send_time = 0\<rparr>,
      pid_rec = \<lparr>last_reap = 0, rec_time = 0, rec_id = 0, seq_backtrack = 0, time_backtrack = 0,
                 max_backtrack_stat = 0, initialized = False, seq_list = None\<rparr>\<rparr>"

definition packet_id_init :: "int \<Rightarrow> int \<Rightarrow> packet_id option" where
  "packet_id_init sb tb =
     (let p = packet_id_clear; r = pid_rec p in do {
        r \<leftarrow> (if sb \<noteq> 0 then do {
                 c_assert (MIN_SEQ_BACKTRACK \<le> sb \<and> sb \<le> MAX_SEQ_BACKTRACK);
                 c_assert (MIN_TIME_BACKTRACK \<le> tb \<and> tb \<le> MAX_TIME_BACKTRACK);
                 Some (r\<lparr>seq_list := Some (circ_list_alloc 0 sb),
                         seq_backtrack := sb, time_backtrack := tb\<rparr>)
               } else Some r);
        Some (p\<lparr>pid_rec := r\<lparr>initialized := True\<rparr>\<rparr>)
      })"

definition packet_id_free :: "packet_id \<Rightarrow> packet_id" where
  "packet_id_free p = packet_id_clear"

subsection \<open>Receiving: record an accepted id\<close>

lemma word_step_measure: "i < n \<Longrightarrow> unat (n - (i + 1)) < unat (n - (i :: u32))"
proof -
  assume "i < n"
  then have "unat (n - i - 1) < unat (n - i)"
    by (intro measure_unat) auto
  then show ?thesis by (simp add: diff_diff_eq)
qed

text \<open>The \<open>while\<close> loop of \<open>packet_id_add\<close>: push an unseen slot for each id passed over.\<close>

function catch_up :: "u32 \<Rightarrow> u32 \<Rightarrow> time_t circ_list \<Rightarrow> (u32 \<times> time_t circ_list) option" where
  "catch_up target i c =
     (if i < target then do {
        c' \<leftarrow> circ_list_push c SEQ_UNSEEN;
        catch_up target (i + 1) c'
      } else Some (i, c))"
  by pat_completeness auto
termination
  by (relation "measure (\<lambda>(target, i, c). unat (target - i))") (auto simp: word_step_measure)

declare catch_up.simps [simp del]

definition packet_id_add :: "time_t \<Rightarrow> packet_id_rec \<Rightarrow> packet_id_net \<Rightarrow> packet_id_rec option" where
  "packet_id_add now p pin =
     (case seq_list p of
        Some c \<Rightarrow>
          (let sb = (word_of_int (seq_backtrack p) :: u32);
               restart = x_size c = 0 \<or> net_time pin > rec_time p
                 \<or> (net_id pin \<ge> sb \<and> net_id pin - sb > rec_id p);
               t = (if restart then net_time pin else rec_time p);
               i = (if restart then (if net_id pin > sb then net_id pin - sb else 0)
                    else rec_id p);
               c = (if restart then circ_list_reset c else c)
           in do {
             (i, c) \<leftarrow> catch_up (net_id pin) i c;
             let diff = i - net_id pin;
             c \<leftarrow> (if diff < word_of_int (x_size c) \<and> now > SEQ_EXPIRED
                  then circ_list_put c (sint diff) now else Some c);
             Some (p\<lparr>rec_time := t, rec_id := i, seq_list := Some c\<rparr>)
           })
      | None \<Rightarrow> Some (p\<lparr>rec_time := net_time pin, rec_id := net_id pin\<rparr>))"

subsection \<open>Receiving: expire old slots\<close>

lemma circ_list_put_size: "circ_list_put c i v = Some c' \<Longrightarrow> x_size c' = x_size c"
  by (auto simp: circ_list_put_def split: Option.bind_splits)

function reap_loop ::
  "time_t \<Rightarrow> int \<Rightarrow> int \<Rightarrow> bool \<Rightarrow> time_t circ_list \<Rightarrow> time_t circ_list option" where
  "reap_loop now tb i expire c =
     (if i < x_size c then do {
        t \<leftarrow> circ_list_item c i;
        if t = SEQ_EXPIRED then Some c
        else if expire \<or> t \<noteq> 0 \<and> t + tb < now then do {
          c' \<leftarrow> circ_list_put c i SEQ_EXPIRED;
          reap_loop now tb (i + 1) True c'
        } else reap_loop now tb (i + 1) False c
      } else Some c)"
  by pat_completeness auto
termination
  by (relation "measure (\<lambda>(now, tb, i, expire, c). nat (x_size c - i))")
    (auto simp: circ_list_put_size)

declare reap_loop.simps [simp del]

definition packet_id_reap :: "time_t \<Rightarrow> packet_id_rec \<Rightarrow> packet_id_rec option" where
  "packet_id_reap now p = do {
     l \<leftarrow> (if time_backtrack p \<noteq> 0 then do {
             c \<leftarrow> seq_list p;
             c' \<leftarrow> reap_loop now (time_backtrack p) 0 False c;
             Some (Some c')
           } else Some (seq_list p));
     Some (p\<lparr>seq_list := l, last_reap := now\<rparr>)
   }"

definition packet_id_reap_test :: "time_t \<Rightarrow> packet_id_rec \<Rightarrow> packet_id_rec option" where
  "packet_id_reap_test now p =
     (if last_reap p + SEQ_REAP_INTERVAL \<le> now then packet_id_reap now p else Some p)"

subsection \<open>Receiving: the test\<close>

definition packet_id_test ::
  "packet_id_rec \<Rightarrow> packet_id_net \<Rightarrow> (packet_id_rec \<times> bool) option" where
  "packet_id_test p pin = do {
     c_assert (initialized p);
     if net_id pin = 0 then Some (p, False)
     else if seq_backtrack p \<noteq> 0 then
       (if net_time pin = rec_time p then
          (if net_id pin > rec_id p then Some (p, True)
           else
             (let diff = rec_id p - net_id pin;
                  p = (if sint diff > max_backtrack_stat p
                       then p\<lparr>max_backtrack_stat := sint diff\<rparr> else p)
              in do {
                c \<leftarrow> seq_list p;
                if diff \<ge> word_of_int (x_size c) then Some (p, False)
                else do {
                  v \<leftarrow> circ_list_item c (sint diff);
                  Some (p, v = 0)
                }
              }))
        else if net_time pin < rec_time p then Some (p, False)
        else Some (p, True))
     else
       (if net_time pin = rec_time p then
          Some (p, rec_id p = 0 \<or> net_id pin = rec_id p + 1)
        else if net_time pin < rec_time p then Some (p, False)
        else Some (p, net_id pin = 1))
   }"

subsection \<open>Sending\<close>

definition packet_id_send_update ::
  "time_t \<Rightarrow> packet_id_send \<Rightarrow> bool \<Rightarrow> packet_id_send \<times> bool" where
  "packet_id_send_update now p long_form =
     (let p = (if send_time p = 0 then p\<lparr>send_time := now\<rparr> else p) in
      if send_id p = PACKET_ID_MAX then
        (if \<not> long_form \<or> now \<le> send_time p then (p, False)
         else (p\<lparr>send_time := now, send_id := 0 + 1\<rparr>, True))
      else (p\<lparr>send_id := send_id p + 1\<rparr>, True))"

definition packet_id_write ::
  "time_t \<Rightarrow> packet_id_send \<Rightarrow> buffer \<Rightarrow> bool \<Rightarrow> bool \<Rightarrow>
   (packet_id_send \<times> buffer \<times> bool) option" where
  "packet_id_write now p buf long_form prepend =
     (case packet_id_send_update now p long_form of
        (p, False) \<Rightarrow> Some (p, buf, False)
      | (p, True) \<Rightarrow>
          (let wire_id = be32 (send_id p); wire_time = be32 (word_of_int (send_time p)) in
           if prepend then do {
             (buf, ok) \<leftarrow> (if long_form then buf_write_prepend buf wire_time else Some (buf, True));
             if \<not> ok then Some (p, buf, False)
             else do {
               (buf, ok) \<leftarrow> buf_write_prepend buf wire_id;
               Some (p, buf, ok)
             }
           } else do {
             (buf, ok) \<leftarrow> buf_write buf wire_id;
             if \<not> ok then Some (p, buf, False)
             else if long_form then do {
               (buf, ok) \<leftarrow> buf_write buf wire_time;
               Some (p, buf, ok)
             } else Some (p, buf, True)
           }))"

definition packet_id_read :: "buffer \<Rightarrow> bool \<Rightarrow> (packet_id_net \<times> buffer \<times> bool) option" where
  "packet_id_read buf long_form =
     (let pin = \<lparr>net_id = 0, net_time = 0\<rparr> in do {
        (buf, r) \<leftarrow> buf_read buf 4;
        case r of
          None \<Rightarrow> Some (pin, buf, False)
        | Some bs \<Rightarrow>
            (let pin = pin\<lparr>net_id := be32_dec bs\<rparr> in
             if long_form then do {
               (buf, r) \<leftarrow> buf_read buf 4;
               case r of
                 None \<Rightarrow> Some (pin, buf, False)
               | Some bs \<Rightarrow> Some (pin\<lparr>net_time := uint (be32_dec bs)\<rparr>, buf, True)
             } else Some (pin, buf, True))
      })"

definition packet_id_size :: "bool \<Rightarrow> int" where
  "packet_id_size long_form = 4 + (if long_form then 4 else 0)"

definition packet_id_close_to_wrapping :: "packet_id_send \<Rightarrow> bool" where
  "packet_id_close_to_wrapping p \<longleftrightarrow> send_id p \<ge> PACKET_ID_WRAP_TRIGGER"

text \<open>The difference of two \<open>time_t\<close> is stored in an \<open>unsigned int\<close>.\<close>

definition check_timestamp_delta :: "time_t \<Rightarrow> time_t \<Rightarrow> u32 \<Rightarrow> bool" where
  "check_timestamp_delta now remote max_delta =
     (let d = (if now \<ge> remote then word_of_int (now - remote) else word_of_int (remote - now))
      in d \<le> max_delta)"

subsection \<open>Persistence across sessions\<close>

definition packet_id_persist_init :: packet_id_persist where
  "packet_id_persist_init =
     \<lparr>pp_fd = -1, pp_time = 0, pp_id = 0, time_last_written = 0, id_last_written = 0\<rparr>"

definition packet_id_persist_enabled :: "packet_id_persist \<Rightarrow> bool" where
  "packet_id_persist_enabled p \<longleftrightarrow> pp_fd p \<ge> 0"

definition packet_id_persist_save_obj ::
  "packet_id_persist \<Rightarrow> packet_id \<Rightarrow> packet_id_persist" where
  "packet_id_persist_save_obj p pid =
     (if packet_id_persist_enabled p \<and> rec_time (pid_rec pid) \<noteq> 0
      then p\<lparr>pp_time := rec_time (pid_rec pid), pp_id := rec_id (pid_rec pid)\<rparr> else p)"

definition packet_id_persist_load_obj ::
  "packet_id_persist option \<Rightarrow> packet_id \<Rightarrow> packet_id" where
  "packet_id_persist_load_obj p pid =
     (case p of
        None \<Rightarrow> pid
      | Some p \<Rightarrow>
          if packet_id_persist_enabled p \<and> pp_time p \<noteq> 0
          then pid\<lparr>pid_rec := (pid_rec pid)\<lparr>rec_time := pp_time p, rec_id := pp_id p\<rparr>\<rparr>
          else pid)"

subsection \<open>The replay check of the data channel\<close>

text \<open>The members of \<open>struct crypto_options\<close> that \<open>crypto_check_replay\<close> reads and writes.\<close>

record crypto_options =
  co_packet_id :: packet_id
  co_pid_persist :: "packet_id_persist option"
  co_flags :: u32

definition CO_PACKET_ID_LONG_FORM :: u32 where "CO_PACKET_ID_LONG_FORM = 1"

definition crypto_check_replay ::
  "time_t \<Rightarrow> crypto_options \<Rightarrow> packet_id_net \<Rightarrow> (crypto_options \<times> bool) option" where
  "crypto_check_replay now opt pin =
     (let pid = co_packet_id opt in do {
        r \<leftarrow> packet_id_reap_test now (pid_rec pid);
        (r, ok) \<leftarrow> packet_id_test r pin;
        if ok then do {
          r \<leftarrow> packet_id_add now r pin;
          let pid = pid\<lparr>pid_rec := r\<rparr>;
          let pp = (case co_pid_persist opt of
                      None \<Rightarrow> None
                    | Some pp \<Rightarrow>
                        if co_flags opt AND CO_PACKET_ID_LONG_FORM \<noteq> 0
                        then Some (packet_id_persist_save_obj pp pid) else Some pp);
          Some (opt\<lparr>co_packet_id := pid, co_pid_persist := pp\<rparr>, True)
        } else Some (opt\<lparr>co_packet_id := pid\<lparr>pid_rec := r\<rparr>\<rparr>, False)
      })"

end
