(* ===== verification/Replay_Protection.thy ===== *)
theory Replay_Protection
  imports Packet_Id
begin

text \<open>
  What the replay check of packet_id.c and crypto.c promises. The contract of a replay filter
  is the locale \<open>replay_filter\<close>: whatever a step accepts is dead from then on. It is
  interpreted on \<open>crypto_check_replay\<close> twice, for the sliding window of UDP and for the
  gap-free sequence of TCP. The last parts give the invariants of a state that is resumed from an
  earlier session and of a fresh one; the refinement and the properties follow in
  Replay_Refinement.
\<close>

subsection \<open>Facts on 32-bit sequence numbers\<close>

lemma unat_diff_le: "(i :: u32) \<le> n \<Longrightarrow> unat (n - i) = unat n - unat i"
  by (rule unat_sub)

lemma sint_small: "(d :: u32) < word_of_int k \<Longrightarrow> 0 \<le> k \<Longrightarrow> k \<le> 65536 \<Longrightarrow> sint d = int (unat d) \<and> int (unat d) < k"
proof -
  assume d: "d < word_of_int k" and k: "0 \<le> k" "k \<le> 65536"
  have "uint (word_of_int k :: u32) = k"
    using k by (simp add: uint_word_of_int)
  then have lt: "uint d < k"
    using d by (simp add: word_less_def)
  then have "sint d = uint d"
    using k by (intro sint_eq_uint_u32) simp
  with lt show ?thesis by simp
qed

lemma word_less_of_int_iff:
  "0 \<le> k \<Longrightarrow> k \<le> 65536 \<Longrightarrow> (d :: u32) < word_of_int k \<longleftrightarrow> int (unat d) < k"
  by (simp add: word_less_def uint_word_of_int)

lemma unat_of_int_small: "0 \<le> k \<Longrightarrow> k \<le> 65536 \<Longrightarrow> unat (word_of_int k :: u32) = nat k"
  by (simp add: unat_eq_nat_uint uint_word_of_int)

lemma unat_step_down: "(i :: u32) < n \<Longrightarrow> unat (n - i) = Suc (unat (n - (i + 1)))"
proof -
  assume "i < n"
  then have "n - i \<noteq> 0" by auto
  then have "unat (n - i - 1) = unat (n - i) - 1" "0 < unat (n - i)"
    by (simp_all add: unat_minus_one unat_gt_0)
  then show ?thesis by (simp add: diff_diff_eq)
qed

subsection \<open>The loops over the ring\<close>

lemma catch_up_push_n:
  "i \<le> target \<Longrightarrow>
   catch_up target i c = map_option (Pair target) (ring.push_n (unat (target - i)) SEQ_UNSEEN c)"
proof (induction target i c rule: catch_up.induct)
  case (1 target i c)
  show ?case
  proof (cases "i < target")
    case True
    then have le: "i + 1 \<le> target" by (rule inc_le)
    have "unat (target - i) = Suc (unat (target - (i + 1)))"
      using unat_step_down [OF True] .
    then show ?thesis
      using "1.IH" [OF True] le True
      by (subst catch_up.simps) (auto split: bind_splits simp: bind_eq_None_conv)
  next
    case False
    with "1.prems" show ?thesis by (subst catch_up.simps) simp
  qed
qed

lemma catch_up_spec:
  assumes "circ_inv c" "i \<le> target"
  obtains c' where "catch_up target i c = Some (target, c')" "circ_inv c'"
    "circ_cap c' = circ_cap c"
    "circ_abs c' = take (circ_cap c) (replicate (unat (target - i)) 0 @ circ_abs c)"
  using ring.push_n_spec [OF assms(1), of "unat (target - i)" SEQ_UNSEEN] assms(2) that
  by (auto simp: catch_up_push_n SEQ_UNSEEN_def)

lemma catch_up_past: "target \<le> i \<Longrightarrow> catch_up target i c = Some (i, c)"
  by (subst catch_up.simps) (auto dest: leD)

lemma reap_loop_spec:
  "circ_inv c \<Longrightarrow> 0 \<le> i \<Longrightarrow> \<exists>c'. reap_loop now tb i ex c = Some c' \<and> circ_inv c' \<and>
     circ_cap c' = circ_cap c \<and> length (circ_abs c') = length (circ_abs c) \<and>
     (\<forall>k < length (circ_abs c). circ_abs c ! k \<noteq> 0 \<longrightarrow> circ_abs c' ! k \<noteq> 0)"
proof (induction now tb i ex c rule: reap_loop.induct)
  case (1 now tb i ex c)
  show ?case
  proof (cases "i < x_size c")
    case False
    with "1.prems" show ?thesis by (subst reap_loop.simps) auto
  next
    case True
    with "1.prems" have idx: "0 \<le> i" "i < int (length (circ_abs c))"
      by (auto simp: length_circ_abs)
    define t where "t = circ_abs c ! nat i"
    have item: "circ_list_item c i = Some t"
      using ring.item_in_range [OF "1.prems"(1) idx] by (simp add: t_def)
    consider "t = SEQ_EXPIRED" | "t \<noteq> SEQ_EXPIRED" "\<not> (ex \<or> t \<noteq> 0 \<and> t + tb < now)"
      | "t \<noteq> SEQ_EXPIRED" "ex \<or> t \<noteq> 0 \<and> t + tb < now" by blast
    then show ?thesis
    proof cases
      case 1
      with item True "1.prems" show ?thesis by (subst reap_loop.simps) auto
    next
      case 2
      with "1.IH"(2) [OF True item 2] "1.prems" item True show ?thesis
        by (subst reap_loop.simps) auto
    next
      case 3
      obtain c1 where c1: "circ_list_put c i SEQ_EXPIRED = Some c1" "circ_inv c1"
        "circ_abs c1 = (circ_abs c)[nat i := SEQ_EXPIRED]" "circ_cap c1 = circ_cap c"
        using ring.put_spec [OF "1.prems"(1) idx] by blast
      have keep: "circ_abs c1 ! k \<noteq> 0" if "k < length (circ_abs c)" "circ_abs c ! k \<noteq> 0" for k
        using that by (cases "k = nat i") (simp_all add: c1(3) SEQ_EXPIRED_def)
      have "length (circ_abs c1) = length (circ_abs c)" using c1(3) by simp
      with "1.IH"(1) [OF True item 3 c1(1) c1(2)] "1.prems"(2) c1 keep item True 3 show ?thesis
        by (subst reap_loop.simps) auto
    qed
  qed
qed

text \<open>
  The exact effect of the loop: a slot whose arrival has expired is marked, and so is every slot
  behind it. The marked slots are a tail of the ring, so stopping at the first of them is right.
\<close>

definition slot_old :: "time_t \<Rightarrow> int \<Rightarrow> time_t \<Rightarrow> bool" where
  "slot_old ts tb v \<longleftrightarrow> v \<noteq> 0 \<and> v \<noteq> SEQ_EXPIRED \<and> v + tb < ts"

lemma ex_from_Suc:
  "\<not> P n \<Longrightarrow> (\<exists>m. n \<le> m \<and> m \<le> k \<and> P m) \<longleftrightarrow> (\<exists>m. Suc n \<le> m \<and> m \<le> (k :: nat) \<and> P m)"
  by (metis Suc_leD Suc_leI le_neq_implies_less)

lemma reap_loop_marks:
  "circ_inv c \<Longrightarrow> 0 \<le> i \<Longrightarrow>
   \<forall>k1 k2. nat i \<le> k1 \<longrightarrow> k1 \<le> k2 \<longrightarrow> k2 < length (circ_abs c) \<longrightarrow>
     circ_abs c ! k1 = SEQ_EXPIRED \<longrightarrow> circ_abs c ! k2 = SEQ_EXPIRED \<Longrightarrow>
   reap_loop ts tb i ex c = Some c' \<Longrightarrow> k < length (circ_abs c) \<Longrightarrow>
   circ_abs c' ! k =
     (if nat i \<le> k \<and> (ex \<or> (\<exists>k0. nat i \<le> k0 \<and> k0 \<le> k \<and> slot_old ts tb (circ_abs c ! k0)))
      then SEQ_EXPIRED else circ_abs c ! k)"
proof (induction ts tb i ex c arbitrary: c' rule: reap_loop.induct)
  case (1 ts tb i ex c)
  show ?case
  proof (cases "i < x_size c")
    case False
    then have "length (circ_abs c) \<le> nat i" using "1.prems"(1) by (simp add: length_circ_abs)
    moreover have "c' = c" using "1.prems"(4) False by (subst (asm) reap_loop.simps) simp
    ultimately show ?thesis using "1.prems"(5) by simp
  next
    case True
    with "1.prems" have idx: "0 \<le> i" "i < int (length (circ_abs c))"
      by (auto simp: length_circ_abs)
    define v where "v = circ_abs c ! nat i"
    have item: "circ_list_item c i = Some v"
      using ring.item_in_range [OF "1.prems"(1) idx] by (simp add: v_def)
    have suc: "nat (i + 1) = Suc (nat i)" using idx by simp
    consider "v = SEQ_EXPIRED" | "v \<noteq> SEQ_EXPIRED" "\<not> (ex \<or> v \<noteq> 0 \<and> v + tb < ts)"
      | "v \<noteq> SEQ_EXPIRED" "ex \<or> v \<noteq> 0 \<and> v + tb < ts" by blast
    then show ?thesis
    proof cases
      case 1
      then have "c' = c" using item True "1.prems"(4) by (subst (asm) reap_loop.simps) simp
      moreover have tail: "circ_abs c ! k2 = SEQ_EXPIRED" if "nat i \<le> k2" "k2 < length (circ_abs c)" for k2
        using "1.prems"(3) 1 that unfolding v_def by blast
      moreover have "\<not> slot_old ts tb (circ_abs c ! k0)" if "nat i \<le> k0" "k0 \<le> k" for k0
        using tail [of k0] that "1.prems"(5) by (simp add: slot_old_def)
      ultimately show ?thesis using "1.prems"(5) by auto
    next
      case 2
      then have run: "reap_loop ts tb (i + 1) False c = Some c'"
        using item True "1.prems"(4) by (subst (asm) reap_loop.simps) (auto split: if_splits)
      have tl: "\<forall>k1 k2. nat (i + 1) \<le> k1 \<longrightarrow> k1 \<le> k2 \<longrightarrow> k2 < length (circ_abs c) \<longrightarrow>
          circ_abs c ! k1 = SEQ_EXPIRED \<longrightarrow> circ_abs c ! k2 = SEQ_EXPIRED"
        using "1.prems"(3) suc by (metis Suc_leD)
      have IH: "circ_abs c' ! k =
         (if nat (i + 1) \<le> k \<and> (\<exists>k0. nat (i + 1) \<le> k0 \<and> k0 \<le> k \<and> slot_old ts tb (circ_abs c ! k0))
          then SEQ_EXPIRED else circ_abs c ! k)"
        using "1.IH"(2) [OF True item 2 "1.prems"(1) _ tl run "1.prems"(5)] idx by simp
      have "\<not> slot_old ts tb (circ_abs c ! nat i)" using 2 by (simp add: slot_old_def v_def)
      then have "(\<exists>k0. nat i \<le> k0 \<and> k0 \<le> k \<and> slot_old ts tb (circ_abs c ! k0)) \<longleftrightarrow>
         (\<exists>k0. Suc (nat i) \<le> k0 \<and> k0 \<le> k \<and> slot_old ts tb (circ_abs c ! k0))"
        by (rule ex_from_Suc)
      then have "(\<exists>k0. nat i \<le> k0 \<and> k0 \<le> k \<and> slot_old ts tb (circ_abs c ! k0)) \<longleftrightarrow>
         nat (i + 1) \<le> k \<and> (\<exists>k0. nat (i + 1) \<le> k0 \<and> k0 \<le> k \<and> slot_old ts tb (circ_abs c ! k0))"
        unfolding suc by (meson le_trans)
      then show ?thesis using IH 2 by auto
    next
      case 3
      obtain c1 where c1: "circ_list_put c i SEQ_EXPIRED = Some c1" "circ_inv c1"
        "circ_abs c1 = (circ_abs c)[nat i := SEQ_EXPIRED]" "circ_cap c1 = circ_cap c"
        using ring.put_spec [OF "1.prems"(1) idx] by blast
      have nth: "circ_abs c1 ! k1 = circ_abs c ! k1" if "nat (i + 1) \<le> k1" for k1
        using that by (simp add: c1(3) suc)
      have len: "length (circ_abs c1) = length (circ_abs c)" by (simp add: c1(3))
      have run: "reap_loop ts tb (i + 1) True c1 = Some c'"
        using item True 3 c1(1) "1.prems"(4) by (subst (asm) reap_loop.simps) simp
      have tl: "\<forall>k1 k2. nat (i + 1) \<le> k1 \<longrightarrow> k1 \<le> k2 \<longrightarrow> k2 < length (circ_abs c1) \<longrightarrow>
          circ_abs c1 ! k1 = SEQ_EXPIRED \<longrightarrow> circ_abs c1 ! k2 = SEQ_EXPIRED"
        using "1.prems"(3) nth len suc by (metis Suc_leD le_trans)
      have kc1: "k < length (circ_abs c1)" using "1.prems"(5) by (simp add: len)
      have IH: "circ_abs c' ! k = (if nat (i + 1) \<le> k then SEQ_EXPIRED else circ_abs c1 ! k)"
        using "1.IH"(1) [OF True item 3 c1(1) c1(2) _ tl run kc1] idx by simp
      have "circ_abs c' ! k = (if nat i \<le> k then SEQ_EXPIRED else circ_abs c ! k)"
        using IH "1.prems"(5) by (cases "k = nat i") (auto simp: c1(3) suc)
      moreover have "ex \<or> slot_old ts tb (circ_abs c ! nat i)"
        using 3 by (auto simp: slot_old_def v_def)
      ultimately show ?thesis by auto
    qed
  qed
qed

subsection \<open>The sliding window (UDP)\<close>

definition window :: "packet_id_rec \<Rightarrow> time_t list" where
  "window p = (case seq_list p of None \<Rightarrow> [] | Some c \<Rightarrow> circ_abs c)"

definition win_inv :: "packet_id_rec \<Rightarrow> bool" where
  "win_inv p \<longleftrightarrow> initialized p \<and> 0 < seq_backtrack p \<and> seq_backtrack p \<le> 65536 \<and>
     (case seq_list p of None \<Rightarrow> False
      | Some c \<Rightarrow> circ_inv c \<and> circ_cap c = nat (seq_backtrack p)) \<and>
     length (window p) = min (nat (seq_backtrack p)) (unat (rec_id p))"

abbreviation pin_key :: "packet_id_net \<Rightarrow> time_t \<times> u32" where
  "pin_key pin \<equiv> (net_time pin, net_id pin)"

text \<open>The keys that the window will never accept again.\<close>

definition win_dead :: "packet_id_rec \<Rightarrow> time_t \<times> u32 \<Rightarrow> bool" where
  "win_dead p k = (case k of (t, i) \<Rightarrow>
     i = 0 \<or> t < rec_time p \<or>
     t = rec_time p \<and> i \<le> rec_id p \<and>
       (length (window p) \<le> unat (rec_id p - i) \<or> window p ! unat (rec_id p - i) \<noteq> 0))"

lemma win_invE:
  assumes "win_inv p"
  obtains c where "seq_list p = Some c" "circ_inv c" "circ_cap c = nat (seq_backtrack p)"
    "window p = circ_abs c" "x_size c = int (length (window p))"
    "length (window p) = min (nat (seq_backtrack p)) (unat (rec_id p))"
    "0 < seq_backtrack p" "seq_backtrack p \<le> 65536" "initialized p"
proof -
  obtain c where c: "seq_list p = Some c" "circ_inv c" "circ_cap c = nat (seq_backtrack p)"
    using assms by (cases "seq_list p") (simp_all add: win_inv_def)
  then have w: "window p = circ_abs c" by (simp add: window_def)
  have "0 \<le> x_size c" using c(2) by (simp add: circ_inv_def)
  then have "x_size c = int (length (window p))" by (simp add: w length_circ_abs)
  moreover have "length (window p) = min (nat (seq_backtrack p)) (unat (rec_id p))"
    "0 < seq_backtrack p" "seq_backtrack p \<le> 65536" "initialized p"
    using assms by (simp_all add: win_inv_def)
  ultimately show thesis using that c w by blast
qed

lemma word_less_of_nat_iff:
  "n \<le> 65536 \<Longrightarrow> (d :: u32) < word_of_nat n \<longleftrightarrow> unat d < n"
  by (simp add: word_less_nat_alt unsigned_of_nat take_bit_nat_eq_self)

lemma max_stat_id [simp]: "p\<lparr>max_backtrack_stat := max_backtrack_stat p\<rparr> = p"
  by (cases p) simp

lemma packet_id_test_window:
  assumes "win_inv p"
  obtains m where "packet_id_test p pin =
    Some (p\<lparr>max_backtrack_stat := m\<rparr>, \<not> win_dead p (pin_key pin))"
proof -
  obtain c where c: "seq_list p = Some c" "circ_inv c" "window p = circ_abs c"
    "x_size c = int (length (window p))"
    and sb: "0 < seq_backtrack p" "initialized p"
    and len: "length (window p) \<le> 65536"
  proof (rule win_invE [OF assms])
    fix c assume "seq_list p = Some c" "circ_inv c" "window p = circ_abs c"
      "x_size c = int (length (window p))" "0 < seq_backtrack p" "initialized p"
      "seq_backtrack p \<le> 65536"
      "length (window p) = min (nat (seq_backtrack p)) (unat (rec_id p))"
    moreover from this(7,8) have "length (window p) \<le> 65536" by linarith
    ultimately show thesis by (intro that)
  qed
  show thesis
  proof (cases "net_id pin = 0 \<or> net_time pin \<noteq> rec_time p \<or> net_id pin > rec_id p")
    case True
    have "packet_id_test p pin = Some (p, net_id pin \<noteq> 0 \<and> net_time pin \<ge> rec_time p)"
    proof -
      consider "net_id pin = 0" | "net_id pin \<noteq> 0" "net_time pin \<noteq> rec_time p"
        | "net_id pin \<noteq> 0" "net_time pin = rec_time p" "net_id pin > rec_id p"
        using True by blast
      then show ?thesis
        by cases (use sb in \<open>auto simp: packet_id_test_def\<close>)
    qed
    moreover have "\<not> win_dead p (pin_key pin) \<longleftrightarrow> net_id pin \<noteq> 0 \<and> net_time pin \<ge> rec_time p"
      using True by (auto simp: win_dead_def)
    ultimately show thesis using that [of "max_backtrack_stat p"] by simp
  next
    case False
    then have id: "net_id pin \<noteq> 0" "net_time pin = rec_time p" "\<not> net_id pin > rec_id p"
      by auto
    define d where "d = rec_id p - net_id pin"
    define p' where "p' = p\<lparr>max_backtrack_stat := max (sint d) (max_backtrack_stat p)\<rparr>"
    have p': "(if sint d > max_backtrack_stat p then p\<lparr>max_backtrack_stat := sint d\<rparr> else p) = p'"
      "seq_list p' = Some c"
      using c(1) by (auto simp: p'_def max_def)
    have "d \<ge> word_of_int (x_size c) \<longleftrightarrow> \<not> unat d < length (window p)"
      using c(4) len by (simp add: word_less_of_nat_iff flip: not_less)
    moreover have "circ_list_item c (sint d) = Some (window p ! unat d)"
      if "unat d < length (window p)"
    proof -
      have "sint d = int (unat d)"
        using sint_small [of d "int (length (window p))"] len that
        by (simp add: word_less_of_nat_iff)
      then show ?thesis
        using ring.item_in_range [OF c(2), of "int (unat d)"] that
        by (simp only: c(3) nat_int of_nat_less_iff of_nat_0_le_iff)
    qed
    ultimately have "packet_id_test p pin = Some (p', unat d < length (window p) \<and> window p ! unat d = 0)"
      using id sb p' by (simp add: packet_id_test_def Let_def flip: d_def)
    moreover have "\<not> win_dead p (pin_key pin) \<longleftrightarrow> unat d < length (window p) \<and> window p ! unat d = 0"
      using id by (auto simp: win_dead_def d_def)
    ultimately show thesis using that p'_def by simp
  qed
qed

lemma packet_id_add_mark:
  assumes "circ_inv c" "unat d < length (circ_abs c)" "circ_cap c \<le> 65536" "1 < now"
  obtains c' where "(if (d :: u32) < word_of_int (x_size c) \<and> now > SEQ_EXPIRED
      then circ_list_put c (sint d) now else Some c) = Some c'" "circ_inv c'"
    "circ_abs c' = (circ_abs c)[unat d := now]" "circ_cap c' = circ_cap c"
proof -
  have sz: "x_size c = int (length (circ_abs c))"
    using assms(1) by (simp add: circ_inv_def length_circ_abs)
  have len: "length (circ_abs c) \<le> 65536"
    using ring.abs_bound [OF assms(1)] assms(3) by linarith
  then have d: "d < word_of_nat (length (circ_abs c))"
    using assms(2) by (simp only: word_less_of_nat_iff)
  then have "sint d = int (unat d)"
    using sint_small [of d "int (length (circ_abs c))"] len by simp
  moreover have "(d < word_of_int (x_size c)) = True"
    unfolding sz using d by simp
  moreover obtain c' where "circ_list_put c (int (unat d)) now = Some c'" "circ_inv c'"
    "circ_abs c' = (circ_abs c)[unat d := now]" "circ_cap c' = circ_cap c"
    using ring.put_spec [OF assms(1), of "int (unat d)" now] assms(2)
    by (auto simp only: nat_int of_nat_less_iff of_nat_0_le_iff)
  ultimately show thesis
    using that assms(4) by (simp only: SEQ_EXPIRED_def if_True simp_thms)
qed

text \<open>What an accepted packet does to the window, in the three cases of the code.\<close>

definition win_restarts :: "packet_id_rec \<Rightarrow> packet_id_net \<Rightarrow> bool" where
  "win_restarts p pin \<longleftrightarrow> window p = [] \<or> net_time pin > rec_time p \<or>
     unat (net_id pin) > unat (rec_id p) + nat (seq_backtrack p)"

definition win_after :: "time_t \<Rightarrow> packet_id_rec \<Rightarrow> packet_id_net \<Rightarrow> time_t list" where
  "win_after now p pin =
     (if win_restarts p pin
      then (replicate (min (nat (seq_backtrack p)) (unat (net_id pin))) 0)[0 := now]
      else (take (nat (seq_backtrack p)) (replicate (unat (net_id pin) - unat (rec_id p)) 0 @ window p))
             [unat (rec_id p) - unat (net_id pin) := now])"

definition top_after :: "packet_id_rec \<Rightarrow> packet_id_net \<Rightarrow> u32" where
  "top_after p pin = (if win_restarts p pin then net_id pin else max (rec_id p) (net_id pin))"

lemma win_catch_up:
  assumes inv: "win_inv p" and acc: "\<not> win_dead p (pin_key pin)"
    and i0: "i0 = (if win_restarts p pin then (if net_id pin > sb then net_id pin - sb else 0) else rec_id p)"
    and sb: "unat sb = nat (seq_backtrack p)"
    and c0: "circ_inv c0" "circ_cap c0 = nat (seq_backtrack p)"
      "circ_abs c0 = (if win_restarts p pin then [] else window p)"
  shows "\<exists>c1. catch_up (net_id pin) i0 c0 = Some (top_after p pin, c1) \<and> circ_inv c1 \<and>
     circ_cap c1 = circ_cap c0 \<and>
     (circ_abs c1)[unat (top_after p pin - net_id pin) := now] = win_after now p pin \<and>
     unat (top_after p pin - net_id pin) < length (circ_abs c1) \<and>
     length (circ_abs c1) = min (nat (seq_backtrack p)) (unat (top_after p pin))"
proof -
  have id: "net_id pin \<noteq> 0" "0 < unat (net_id pin)"
    using acc by (auto simp: win_dead_def unat_gt_0)
  have pos: "0 < nat (seq_backtrack p)" and len: "length (window p) = min (nat (seq_backtrack p)) (unat (rec_id p))"
    using inv by (simp_all add: win_inv_def)
  consider "win_restarts p pin" | "\<not> win_restarts p pin" "rec_id p < net_id pin"
    | "\<not> win_restarts p pin" "net_id pin \<le> rec_id p" by fastforce
  then show ?thesis
  proof cases
    case 1
    have i0: "i0 \<le> net_id pin" "unat (net_id pin - i0) = min (nat (seq_backtrack p)) (unat (net_id pin))"
      using 1 sb by (auto simp: i0 word_less_nat_alt word_le_nat_alt unat_sub)
    obtain c1 where "catch_up (net_id pin) i0 c0 = Some (net_id pin, c1)" "circ_inv c1"
      "circ_cap c1 = circ_cap c0"
      "circ_abs c1 = take (circ_cap c0) (replicate (unat (net_id pin - i0)) 0 @ circ_abs c0)"
      using c0(1) i0(1) by (rule catch_up_spec)
    then show ?thesis
      using 1 c0 i0 id pos by (intro exI [of _ c1]) (simp add: win_after_def top_after_def min_def)
  next
    case 2
    then have le: "rec_id p \<le> net_id pin" by simp
    obtain c1 where "catch_up (net_id pin) (rec_id p) c0 = Some (net_id pin, c1)" "circ_inv c1"
      "circ_cap c1 = circ_cap c0"
      "circ_abs c1 = take (circ_cap c0) (replicate (unat (net_id pin - rec_id p)) 0 @ circ_abs c0)"
      using c0(1) le by (rule catch_up_spec)
    moreover have "unat (net_id pin - rec_id p) = unat (net_id pin) - unat (rec_id p)"
      "unat (rec_id p) < unat (net_id pin)" "max (rec_id p) (net_id pin) = net_id pin"
      using 2 le by (simp_all add: unat_sub word_less_nat_alt)
    moreover have "min sbn (r - q) + min (min sbn q) (sbn + q - r) = min sbn r"
      if "q < r" for sbn q r :: nat using that by (auto simp: min_def)
    ultimately show ?thesis
      using 2 c0 pos len by (intro exI [of _ c1]) (auto simp: win_after_def top_after_def i0)
  next
    case 3
    have t: "net_time pin = rec_time p"
      using 3 acc by (auto simp: win_restarts_def win_dead_def)
    have d: "unat (rec_id p - net_id pin) = unat (rec_id p) - unat (net_id pin)"
      "unat (net_id pin) \<le> unat (rec_id p)"
      using 3 by (simp_all add: unat_sub word_le_nat_alt)
    have mx: "max (rec_id p) (net_id pin) = rec_id p"
      using 3 by (simp add: max.absorb1)
    have "unat (rec_id p - net_id pin) < length (window p)"
      using acc 3 t by (auto simp: win_dead_def)
    then show ?thesis
      using 3 c0 len d mx by (intro exI [of _ c0]) (simp add: win_after_def top_after_def i0 catch_up_past)
  qed
qed

lemma packet_id_add_window:
  assumes inv: "win_inv p" and acc: "\<not> win_dead p (pin_key pin)" and now: "1 < now"
  obtains p' where "packet_id_add now p pin = Some p'" "win_inv p'"
    "rec_time p' = net_time pin" "rec_id p' = top_after p pin" "window p' = win_after now p pin"
    "seq_backtrack p' = seq_backtrack p" "time_backtrack p' = time_backtrack p"
    "last_reap p' = last_reap p" "win_restarts p pin \<or> net_time pin = rec_time p"
proof (rule win_invE [OF inv])
  fix c assume c: "seq_list p = Some c" "circ_inv c" "circ_cap c = nat (seq_backtrack p)"
    "window p = circ_abs c" "x_size c = int (length (window p))"
    "length (window p) = min (nat (seq_backtrack p)) (unat (rec_id p))"
    "0 < seq_backtrack p" "seq_backtrack p \<le> 65536" "initialized p"
  define sb where "sb = (word_of_int (seq_backtrack p) :: u32)"
  have sb: "unat sb = nat (seq_backtrack p)"
    using c(7,8) by (simp only: sb_def unat_of_int_small)
  have id: "net_id pin \<noteq> 0" "rec_time p \<le> net_time pin"
    using acc by (auto simp: win_dead_def)
  have restart: "(x_size c = 0 \<or> net_time pin > rec_time p
      \<or> (net_id pin \<ge> sb \<and> net_id pin - sb > rec_id p)) = win_restarts p pin"
  proof -
    have "(net_id pin \<ge> sb \<and> net_id pin - sb > rec_id p) \<longleftrightarrow>
      unat (net_id pin) > unat (rec_id p) + nat (seq_backtrack p)"
      using sb by (auto simp: word_le_nat_alt word_less_nat_alt unat_sub)
    moreover have "x_size c = 0 \<longleftrightarrow> window p = []"
      using c(5) by (simp only: of_nat_eq_0_iff length_0_conv)
    ultimately show ?thesis by (simp only: win_restarts_def)
  qed
  define i0 where "i0 = (if win_restarts p pin then (if net_id pin > sb then net_id pin - sb else 0) else rec_id p)"
  define c0 where "c0 = (if win_restarts p pin then circ_list_reset c else c)"
  have c0: "circ_inv c0" "circ_cap c0 = nat (seq_backtrack p)"
    "circ_abs c0 = (if win_restarts p pin then [] else window p)"
    using ring.reset_spec [OF c(2)] c(2,3,4) by (auto simp: c0_def)
  have "\<exists>c1. catch_up (net_id pin) i0 c0 = Some (top_after p pin, c1) \<and> circ_inv c1 \<and>
     circ_cap c1 = circ_cap c0 \<and> (circ_abs c1)[unat (top_after p pin - net_id pin) := now] = win_after now p pin \<and>
     unat (top_after p pin - net_id pin) < length (circ_abs c1) \<and>
     length (circ_abs c1) = min (nat (seq_backtrack p)) (unat (top_after p pin))"
    using win_catch_up [OF inv acc, of i0 sb c0] c0 sb by (simp only: i0_def)
  then obtain c1 where c1: "catch_up (net_id pin) i0 c0 = Some (top_after p pin, c1)" "circ_inv c1"
     "circ_cap c1 = circ_cap c0" "(circ_abs c1)[unat (top_after p pin - net_id pin) := now] = win_after now p pin"
     "unat (top_after p pin - net_id pin) < length (circ_abs c1)"
     "length (circ_abs c1) = min (nat (seq_backtrack p)) (unat (top_after p pin))" by blast
  obtain c2 where c2: "(if top_after p pin - net_id pin < word_of_int (x_size c1) \<and> now > SEQ_EXPIRED
      then circ_list_put c1 (sint (top_after p pin - net_id pin)) now else Some c1) = Some c2" "circ_inv c2"
    "circ_abs c2 = win_after now p pin" "circ_cap c2 = circ_cap c1"
  proof -
    have "circ_cap c1 \<le> 65536" using c0(2) c1(3) c(8) by simp
    then show thesis
      using packet_id_add_mark [OF c1(2) c1(5) _ now, of thesis] that c1(4) by simp
  qed
  define p' where "p' = p\<lparr>rec_time := net_time pin, rec_id := top_after p pin, seq_list := Some c2\<rparr>"
  have time: "(if win_restarts p pin then net_time pin else rec_time p) = net_time pin"
    using id(2) by (auto simp: win_restarts_def)
  have "packet_id_add now p pin = Some p'"
    using c1(1) c2(1)
    by (simp add: packet_id_add_def c(1) restart time p'_def flip: sb_def i0_def c0_def)
  moreover have "length (win_after now p pin) = length (circ_abs c1)"
    using c1(4) by (metis length_list_update)
  then have "window p' = win_after now p pin" "win_inv p'"
    using c2 c1 c0 c by (auto simp: window_def p'_def win_inv_def)
  ultimately show thesis
    using that [of p'] time by (auto simp: p'_def split: if_splits)
qed

lemma win_after_value:
  assumes "win_inv p" "\<not> win_dead p (pin_key pin)" "1 < now"
    and "i \<le> top_after p pin" "unat (top_after p pin - i) < length (win_after now p pin)"
  shows "win_after now p pin ! unat (top_after p pin - i) =
    (if i = net_id pin then now
     else if \<not> win_restarts p pin \<and> i \<le> rec_id p \<and> unat (rec_id p - i) < length (window p)
     then window p ! unat (rec_id p - i) else 0)"
proof -
  define q where "q = unat (rec_id p)"
  define r where "r = unat (net_id pin)"
  define k where "k = unat i"
  define n where "n = nat (seq_backtrack p)"
  have eqs: "i = net_id pin \<longleftrightarrow> k = r" "i \<le> rec_id p \<longleftrightarrow> k \<le> q"
    by (simp_all add: k_def r_def q_def word_le_nat_alt word_unat_eq_iff)
  have d: "unat (top_after p pin - i) = unat (top_after p pin) - k"
    using assms(4) by (simp add: k_def unat_sub)
  show ?thesis
  proof (cases "win_restarts p pin")
    case True
    then have top: "top_after p pin = net_id pin" by (simp add: top_after_def)
    with assms(4) have "k \<le> r" by (simp add: k_def r_def word_le_nat_alt)
    have W: "win_after now p pin = (replicate (min n r) 0)[0 := now]"
      using True by (simp add: win_after_def n_def r_def)
    have e: "unat (top_after p pin - i) = r - k"
      using d top by (simp add: r_def)
    have "r - k < min n r" using assms(5) by (simp add: W e)
    then show ?thesis
      using True assms(3) \<open>k \<le> r\<close> by (cases "k = r") (simp_all add: W e eqs)
  next
    case False
    have top: "unat (top_after p pin) = max q r"
      using False by (simp add: top_after_def q_def r_def max_def word_le_nat_alt)
    have kle: "k \<le> max q r" using assms(4) top by (simp add: k_def word_le_nat_alt)
    have dq: "i \<le> rec_id p \<Longrightarrow> unat (rec_id p - i) = q - k"
      by (simp add: q_def k_def unat_sub)
    have W: "win_after now p pin = (take n (replicate (r - q) 0 @ window p))[q - r := now]"
      using False by (simp add: win_after_def n_def q_def r_def)
    have bound: "max q r - k < min n (r - q + length (window p))"
      using assms(5) d top by (simp add: W) linarith
    show ?thesis
    proof (cases "k = r")
      case True
      then have "max q r - k = q - r" by simp
      moreover from this bound True
      have "win_after now p pin ! (q - r) = now"
        unfolding W by (intro nth_list_update_eq) (simp del: take_append)
      ultimately show ?thesis using True assms(3) by (simp add: d top eqs)
    next
      case False
      then have "max q r - k \<noteq> q - r" using kle by (auto simp: max_def)
      then have v: "win_after now p pin ! unat (top_after p pin - i) =
          (replicate (r - q) 0 @ window p) ! (max q r - k)"
        using bound by (simp add: d top W del: take_append)
      show ?thesis
      proof (cases "k \<le> q")
        case True
        then have e: "max q r - k = (r - q) + (q - k)" by (auto simp: max_def)
        have "(replicate (r - q) 0 @ window p) ! ((r - q) + (q - k)) = window p ! (q - k)"
          using nth_append_length_plus [of "replicate (r - q) 0" "window p" "q - k"] by simp
        moreover have "q - k < length (window p)" using bound e by simp
        ultimately show ?thesis
          using True False \<open>\<not> win_restarts p pin\<close> dq v e by (simp add: eqs)
      next
        case F: False
        then have "max q r - k < r - q" using kle by (auto simp: max_def split: if_splits)
        then have "(replicate (r - q) 0 @ window p) ! (max q r - k) = 0"
          by (subst nth_append) (simp only: length_replicate if_True nth_replicate)
        then show ?thesis using F False v by (simp only: eqs) simp
      qed
    qed
  qed
qed

lemma win_after_nth:
  assumes "win_inv p" "\<not> win_dead p (pin_key pin)" "1 < now"
    and "i \<le> top_after p pin" "unat (top_after p pin - i) < length (win_after now p pin)"
  shows "win_after now p pin ! unat (top_after p pin - i) \<noteq> 0 \<longleftrightarrow>
    i = net_id pin \<or> (\<not> win_restarts p pin \<and> i \<le> rec_id p \<and>
      unat (rec_id p - i) < length (window p) \<and> window p ! unat (rec_id p - i) \<noteq> 0)"
  using win_after_value [OF assms] assms(3) by auto

lemma win_dead_after:
  assumes inv: "win_inv p" "\<not> win_dead p (pin_key pin)" "1 < now"
    and p': "win_inv p'" "rec_time p' = net_time pin" "rec_id p' = top_after p pin"
      "window p' = win_after now p pin" "seq_backtrack p' = seq_backtrack p"
      "win_restarts p pin \<or> net_time pin = rec_time p"
  shows "win_dead p' (pin_key pin)" and "win_dead p k \<Longrightarrow> win_dead p' k"
proof -
  have top: "net_id pin \<le> top_after p pin"
    by (simp add: top_after_def)
  show "win_dead p' (pin_key pin)"
    using win_after_nth [OF inv top] top by (simp add: win_dead_def p' not_less) linarith
next
  assume dead: "win_dead p k"
  obtain t i where k: "k = (t, i)" by (cases k)
  have time: "rec_time p \<le> net_time pin" "net_id pin \<noteq> 0"
    using inv(2) by (auto simp: win_dead_def)
  have len: "length (window p) = min (nat (seq_backtrack p)) (unat (rec_id p))"
    "length (window p') = min (nat (seq_backtrack p)) (unat (top_after p pin))" "0 < seq_backtrack p"
    using inv(1) p'(1,3,5) by (simp_all add: win_inv_def)
  show "win_dead p' k"
  proof (cases "i = 0 \<or> t < net_time pin")
    case True
    then show ?thesis by (auto simp: win_dead_def k p')
  next
    case False
    with dead time have t: "t = rec_time p" "net_time pin = rec_time p" "i \<le> rec_id p" "i \<noteq> 0"
      and slot: "length (window p) \<le> unat (rec_id p - i) \<or> window p ! unat (rec_id p - i) \<noteq> 0"
      by (auto simp: win_dead_def k)
    have ge: "rec_id p \<le> top_after p pin"
    proof (cases "window p = []")
      case True
      then have "unat (rec_id p) = 0" using len by auto
      then show ?thesis by (simp add: unat_eq_zero)
    next
      case False
      show ?thesis
      proof (cases "win_restarts p pin")
        case True
        with False t(2) have "unat (rec_id p) \<le> unat (net_id pin)"
          by (simp add: win_restarts_def)
        with True show ?thesis by (simp add: top_after_def word_le_nat_alt)
      qed (simp add: top_after_def)
    qed
    then have ige: "i \<le> top_after p pin" using t(3) by simp
    have "length (window p') \<le> unat (top_after p pin - i)
        \<or> window p' ! unat (top_after p pin - i) \<noteq> 0"
    proof (rule ccontr)
      assume neg: "\<not> ?thesis"
      then have lt: "unat (top_after p pin - i) < length (win_after now p pin)"
        by (simp add: p'(4))
      have "unat (rec_id p - i) \<le> unat (top_after p pin - i)"
        using ge t(3) ige by (simp add: unat_sub word_le_nat_alt)
      moreover have "unat (rec_id p - i) < unat (rec_id p)"
      proof -
        have "0 < unat i" "unat i \<le> unat (rec_id p)"
          using t(3,4) by (simp_all add: unat_gt_0 word_le_nat_alt)
        then show ?thesis using t(3) by (simp add: unat_sub)
      qed
      ultimately have in_win: "unat (rec_id p - i) < length (window p)"
        using lt len p'(4) by simp
      moreover have "\<not> win_restarts p pin"
      proof
        assume "win_restarts p pin"
        then have "unat (net_id pin) > unat (rec_id p) + nat (seq_backtrack p)"
          using t(2) in_win by (auto simp: win_restarts_def)
        moreover have "unat (top_after p pin - i) = unat (net_id pin) - unat i"
          using \<open>win_restarts p pin\<close> ige by (simp add: top_after_def unat_sub)
        ultimately show False
          using lt len(2) p'(4) t(3) by (simp add: word_le_nat_alt) linarith
      qed
      ultimately show False
        using win_after_nth [OF inv ige lt] slot neg t(3) by (simp add: p'(4))
    qed
    then show ?thesis using t ige by (simp add: win_dead_def k p'(2,3))
  qed
qed

subsection \<open>Expiry keeps the window\<close>

lemma packet_id_reap_test_window:
  assumes "win_inv p"
  obtains p' where "packet_id_reap_test now p = Some p'" "win_inv p'"
    "rec_time p' = rec_time p" "rec_id p' = rec_id p" "seq_backtrack p' = seq_backtrack p"
    "time_backtrack p' = time_backtrack p" "length (window p') = length (window p)"
    "\<forall>k < length (window p). window p ! k \<noteq> 0 \<longrightarrow> window p' ! k \<noteq> 0"
    "time_backtrack p = 0 \<Longrightarrow> window p' = window p"
proof (rule win_invE [OF assms])
  fix c assume c: "seq_list p = Some c" "circ_inv c" "circ_cap c = nat (seq_backtrack p)"
    "window p = circ_abs c" "length (window p) = min (nat (seq_backtrack p)) (unat (rec_id p))"
    "0 < seq_backtrack p" "seq_backtrack p \<le> 65536" "initialized p"
  show thesis
  proof (cases "last_reap p + SEQ_REAP_INTERVAL \<le> now")
    case False
    then show thesis using assms by (intro that [of p]) (simp_all add: packet_id_reap_test_def)
  next
    case True
    show thesis
    proof (cases "time_backtrack p = 0")
      case True
      define p' where "p' = p\<lparr>last_reap := now\<rparr>"
      have w: "window p' = window p" by (simp add: window_def p'_def)
      then have "win_inv p'" using assms c(1) by (simp add: win_inv_def p'_def)
      moreover have "packet_id_reap_test now p = Some p'"
        using True \<open>last_reap p + SEQ_REAP_INTERVAL \<le> now\<close>
        by (simp add: packet_id_reap_test_def packet_id_reap_def p'_def)
      ultimately show thesis using w by (intro that [of p']) (simp_all add: p'_def)
    next
      case False
      obtain c' where c': "reap_loop now (time_backtrack p) 0 False c = Some c'" "circ_inv c'"
        "circ_cap c' = circ_cap c" "length (circ_abs c') = length (circ_abs c)"
        "\<forall>k < length (circ_abs c). circ_abs c ! k \<noteq> 0 \<longrightarrow> circ_abs c' ! k \<noteq> 0"
        using reap_loop_spec [OF c(2), of 0 now "time_backtrack p" False] by auto
      define p' where "p' = p\<lparr>seq_list := Some c', last_reap := now\<rparr>"
      have w: "window p' = circ_abs c'" by (simp add: window_def p'_def)
      have "win_inv p'" using c c' w by (simp add: win_inv_def p'_def)
      moreover have "packet_id_reap_test now p = Some p'"
        using False True c(1) c'(1) by (simp add: packet_id_reap_test_def packet_id_reap_def p'_def)
      ultimately show thesis using w c' c(4) False by (intro that [of p']) (simp_all add: p'_def)
    qed
  qed
qed

lemma win_dead_reap:
  assumes "rec_time p' = rec_time p" "rec_id p' = rec_id p" "length (window p') = length (window p)"
    "\<forall>k < length (window p). window p ! k \<noteq> 0 \<longrightarrow> window p' ! k \<noteq> 0" "win_dead p k"
  shows "win_dead p' k"
  using assms by (cases k) (auto simp: win_dead_def not_le)

lemma win_dead_stat [simp]:
  "win_dead (p\<lparr>max_backtrack_stat := m\<rparr>) k = win_dead p k"
  "win_inv (p\<lparr>max_backtrack_stat := m\<rparr>) = win_inv p"
  "window (p\<lparr>max_backtrack_stat := m\<rparr>) = window p"
  by (cases "seq_list p"; simp add: win_dead_def win_inv_def window_def)+

subsection \<open>The contract of a replay filter\<close>

locale replay_filter =
  fixes inv :: "'s \<Rightarrow> bool"
    and ok :: "'e \<Rightarrow> bool"
    and key :: "'e \<Rightarrow> 'k"
    and dead :: "'s \<Rightarrow> 'k \<Rightarrow> bool"
    and step :: "'s \<Rightarrow> 'e \<Rightarrow> ('s \<times> bool) option"
    and run :: "'s \<Rightarrow> 'e list \<Rightarrow> ('s \<times> 'k list) option"
  assumes step_spec: "inv s \<Longrightarrow> ok e \<Longrightarrow> \<exists>s' b. step s e = Some (s', b) \<and> inv s' \<and>
      (b \<longrightarrow> \<not> dead s (key e) \<and> dead s' (key e)) \<and> (\<forall>k. dead s k \<longrightarrow> dead s' k)"
    and run_Nil: "run s [] = Some (s, [])"
    and run_Cons: "run s (e # es) = do {
        (s, b) \<leftarrow> step s e;
        (s, ks) \<leftarrow> run s es;
        Some (s, if b then key e # ks else ks)
      }"
begin

lemma run_spec:
  "inv s \<Longrightarrow> \<forall>e \<in> set es. ok e \<Longrightarrow>
   \<exists>s' ks. run s es = Some (s', ks) \<and> inv s' \<and> distinct ks \<and>
     (\<forall>k \<in> set ks. \<not> dead s k \<and> dead s' k) \<and> (\<forall>k. dead s k \<longrightarrow> dead s' k)"
proof (induction es arbitrary: s)
  case Nil
  then show ?case by (simp add: run_Nil)
next
  case (Cons e es)
  from Cons.prems have "ok e" by simp
  then obtain s1 b where s1: "step s e = Some (s1, b)" "inv s1"
    "b \<longrightarrow> \<not> dead s (key e) \<and> dead s1 (key e)" "\<forall>k. dead s k \<longrightarrow> dead s1 k"
    using step_spec [OF Cons.prems(1)] by blast
  obtain s2 ks where s2: "run s1 es = Some (s2, ks)" "inv s2" "distinct ks"
    "\<forall>k \<in> set ks. \<not> dead s1 k \<and> dead s2 k" "\<forall>k. dead s1 k \<longrightarrow> dead s2 k"
    using Cons.IH [OF s1(2)] Cons.prems by auto
  with s1 show ?case by (auto simp: run_Cons)
qed

lemma no_replay: "inv s \<Longrightarrow> \<forall>e \<in> set es. ok e \<Longrightarrow> \<exists>s' ks. run s es = Some (s', ks) \<and> distinct ks"
  using run_spec by blast

end

text \<open>
  A history of a session: each packet that passed authentication arrives with the clock at
  that moment; the result lists the keys of the accepted ones.
\<close>

fun replay_run ::
  "crypto_options \<Rightarrow> (time_t \<times> packet_id_net) list \<Rightarrow> (crypto_options \<times> (time_t \<times> u32) list) option" where
  "replay_run opt [] = Some (opt, [])"
| "replay_run opt ((now, pin) # evs) = do {
     (opt, b) \<leftarrow> crypto_check_replay now opt pin;
     (opt, ks) \<leftarrow> replay_run opt evs;
     Some (opt, if b then pin_key pin # ks else ks)
   }"

abbreviation opt_rec :: "crypto_options \<Rightarrow> packet_id_rec" where
  "opt_rec opt \<equiv> pid_rec (co_packet_id opt)"

lemma crypto_check_replay_window:
  assumes inv: "win_inv (opt_rec opt)" and now: "1 < now"
  shows "\<exists>opt' b. crypto_check_replay now opt pin = Some (opt', b) \<and> win_inv (opt_rec opt') \<and>
    (b \<longrightarrow> \<not> win_dead (opt_rec opt) (pin_key pin) \<and> win_dead (opt_rec opt') (pin_key pin)) \<and>
    (\<forall>k. win_dead (opt_rec opt) k \<longrightarrow> win_dead (opt_rec opt') k)"
proof -
  obtain p1 where p1: "packet_id_reap_test now (opt_rec opt) = Some p1" "win_inv p1"
    "\<forall>k. win_dead (opt_rec opt) k \<longrightarrow> win_dead p1 k"
    using packet_id_reap_test_window [OF inv, of now] win_dead_reap by metis
  obtain m where t: "packet_id_test p1 pin = Some (p1\<lparr>max_backtrack_stat := m\<rparr>, \<not> win_dead p1 (pin_key pin))"
    using p1(2) by (rule packet_id_test_window)
  define p2 where "p2 = p1\<lparr>max_backtrack_stat := m\<rparr>"
  have p2: "win_inv p2" "\<And>k. win_dead p2 k = win_dead p1 k"
    using p1(2) by (simp_all add: p2_def)
  show ?thesis
  proof (cases "win_dead p1 (pin_key pin)")
    case True
    then show ?thesis
      using p1 t p2 by (auto simp: crypto_check_replay_def p2_def)
  next
    case False
    then have acc: "\<not> win_dead p2 (pin_key pin)" by (simp add: p2)
    obtain p3 where p3: "packet_id_add now p2 pin = Some p3" "win_inv p3"
      "rec_time p3 = net_time pin" "rec_id p3 = top_after p2 pin" "window p3 = win_after now p2 pin"
      "seq_backtrack p3 = seq_backtrack p2" "win_restarts p2 pin \<or> net_time pin = rec_time p2"
      using p2(1) acc now by (rule packet_id_add_window)
    note dead = win_dead_after [OF p2(1) acc now p3(2-7)]
    have "\<not> win_dead (opt_rec opt) (pin_key pin)" using False p1(3) by blast
    then show ?thesis
      using p1 t p2 p3(1,2) dead False by (auto simp: crypto_check_replay_def p2_def Let_def)
  qed
qed

interpretation udp: replay_filter "\<lambda>opt. win_inv (opt_rec opt)" "\<lambda>(now, pin). 1 < now"
  "\<lambda>(now, pin). pin_key pin" "\<lambda>opt. win_dead (opt_rec opt)"
  "\<lambda>opt (now, pin). crypto_check_replay now opt pin" replay_run
proof unfold_locales
  fix opt and e :: "time_t \<times> packet_id_net"
  assume "win_inv (opt_rec opt)" "case e of (now, pin) \<Rightarrow> 1 < now"
  then show "\<exists>opt' b. (case e of (now, pin) \<Rightarrow> crypto_check_replay now opt pin) = Some (opt', b) \<and>
      win_inv (opt_rec opt') \<and>
      (b \<longrightarrow> \<not> win_dead (opt_rec opt) (case e of (now, pin) \<Rightarrow> pin_key pin) \<and>
        win_dead (opt_rec opt') (case e of (now, pin) \<Rightarrow> pin_key pin)) \<and>
      (\<forall>k. win_dead (opt_rec opt) k \<longrightarrow> win_dead (opt_rec opt') k)"
    using crypto_check_replay_window [of opt "fst e" "snd e"] by (cases e) simp
qed (auto split: prod.splits)

subsection \<open>The gap-free sequence (TCP)\<close>

definition lin_inv :: "packet_id_rec \<Rightarrow> bool" where
  "lin_inv p \<longleftrightarrow> initialized p \<and> seq_backtrack p = 0 \<and> time_backtrack p = 0 \<and> seq_list p = None"

definition lin_dead :: "packet_id_rec \<Rightarrow> time_t \<times> u32 \<Rightarrow> bool" where
  "lin_dead p k = (case k of (t, i) \<Rightarrow>
     i = 0 \<or> t < rec_time p \<or> t = rec_time p \<and> i \<le> rec_id p)"

lemma linear_accept_above:
  "(i :: u32) \<noteq> 0 \<Longrightarrow> q = 0 \<or> i = q + 1 \<Longrightarrow> q < i"
proof -
  assume i: "i \<noteq> 0" and d: "q = 0 \<or> i = q + 1"
  from d show ?thesis
  proof
    assume "q = 0"
    with i show ?thesis by (simp add: word_gt_0)
  next
    assume e: "i = q + 1"
    with i have "unat i = Suc (unat q)" by (simp add: add.commute unatSuc)
    then show ?thesis by (simp add: word_less_nat_alt)
  qed
qed

lemma crypto_check_replay_linear:
  assumes inv: "lin_inv (opt_rec opt)"
  shows "\<exists>opt' b. crypto_check_replay now opt pin = Some (opt', b) \<and> lin_inv (opt_rec opt') \<and>
    (b \<longrightarrow> \<not> lin_dead (opt_rec opt) (pin_key pin) \<and> lin_dead (opt_rec opt') (pin_key pin)) \<and>
    (\<forall>k. lin_dead (opt_rec opt) k \<longrightarrow> lin_dead (opt_rec opt') k)"
proof -
  define p where "p = opt_rec opt"
  define p1 where "p1 = (if last_reap p + SEQ_REAP_INTERVAL \<le> now then p\<lparr>last_reap := now\<rparr> else p)"
  have p1: "packet_id_reap_test now p = Some p1" "lin_inv p1"
    "rec_time p1 = rec_time p" "rec_id p1 = rec_id p"
    using inv by (simp_all add: packet_id_reap_test_def packet_id_reap_def lin_inv_def p1_def
        flip: p_def)
  define b where "b = (net_id pin \<noteq> 0 \<and>
    (if net_time pin = rec_time p then rec_id p = 0 \<or> net_id pin = rec_id p + 1
     else \<not> net_time pin < rec_time p \<and> net_id pin = 1))"
  have t: "packet_id_test p1 pin = Some (p1, b)"
    using p1 by (auto simp: packet_id_test_def lin_inv_def b_def)
  have above: "b \<Longrightarrow> net_time pin = rec_time p \<Longrightarrow> rec_id p < net_id pin"
    by (auto simp: b_def dest: linear_accept_above)
  have later: "b \<Longrightarrow> rec_time p \<le> net_time pin \<and> net_id pin \<noteq> 0"
    by (auto simp: b_def split: if_splits)
  define p2 where "p2 = p1\<lparr>rec_time := net_time pin, rec_id := net_id pin\<rparr>"
  have add: "packet_id_add now p1 pin = Some p2" "lin_inv p2"
    using p1(2) by (simp_all add: packet_id_add_def lin_inv_def p2_def)
  show ?thesis
  proof (cases b)
    case True
    have "\<not> lin_dead p (pin_key pin)" "lin_dead p2 (pin_key pin)"
      "lin_dead p k \<Longrightarrow> lin_dead p2 k" for k
      using above [OF True] later [OF True]
      by (auto simp: lin_dead_def p2_def split: prod.splits)
    then show ?thesis
      using True t add p1 by (auto simp: crypto_check_replay_def Let_def simp flip: p_def)
  next
    case False
    moreover have "lin_dead p1 k = lin_dead p k" for k
      by (simp add: lin_dead_def p1)
    ultimately show ?thesis
      using t p1 by (auto simp: crypto_check_replay_def Let_def simp flip: p_def)
  qed
qed

interpretation tcp: replay_filter "\<lambda>opt. lin_inv (opt_rec opt)" "\<lambda>_. True"
  "\<lambda>(now, pin). pin_key pin" "\<lambda>opt. lin_dead (opt_rec opt)"
  "\<lambda>opt (now, pin). crypto_check_replay now opt pin" replay_run
proof unfold_locales
  fix opt and e :: "time_t \<times> packet_id_net"
  assume "lin_inv (opt_rec opt)"
  then show "\<exists>opt' b. (case e of (now, pin) \<Rightarrow> crypto_check_replay now opt pin) = Some (opt', b) \<and>
      lin_inv (opt_rec opt') \<and>
      (b \<longrightarrow> \<not> lin_dead (opt_rec opt) (case e of (now, pin) \<Rightarrow> pin_key pin) \<and>
        lin_dead (opt_rec opt') (case e of (now, pin) \<Rightarrow> pin_key pin)) \<and>
      (\<forall>k. lin_dead (opt_rec opt) k \<longrightarrow> lin_dead (opt_rec opt') k)"
    using crypto_check_replay_linear [of opt "fst e" "snd e"] by (cases e) simp
qed (auto split: prod.splits)

subsection \<open>A resumed state\<close>

text \<open>
  After \<open>packet_id_persist_load_obj\<close> the record of a UDP session has the time and id of the last
  packet of the earlier session, but an empty ring. Until the first acceptance it keeps both and
  refuses all that is not newer; the first acceptance opens the window as on a fresh record.
\<close>

definition res_inv :: "packet_id_rec \<Rightarrow> bool" where
  "res_inv p \<longleftrightarrow> initialized p \<and> 0 < seq_backtrack p \<and> seq_backtrack p \<le> 65536 \<and>
     (case seq_list p of None \<Rightarrow> False
      | Some c \<Rightarrow> circ_inv c \<and> circ_cap c = nat (seq_backtrack p) \<and> x_size c = 0)"

definition newer :: "time_t \<times> u32 \<Rightarrow> time_t \<times> u32 \<Rightarrow> bool" where
  "newer old k \<longleftrightarrow> fst old < fst k \<or> fst old = fst k \<and> snd old < snd k"

abbreviation rec_key :: "packet_id_rec \<Rightarrow> time_t \<times> u32" where
  "rec_key p \<equiv> (rec_time p, rec_id p)"

lemma res_invE:
  assumes "res_inv p"
  obtains c where "seq_list p = Some c" "circ_inv c" "circ_cap c = nat (seq_backtrack p)"
    "x_size c = 0" "initialized p" "0 < seq_backtrack p" "seq_backtrack p \<le> 65536"
  using assms by (auto simp: res_inv_def split: option.splits)

lemma res_inv_frame [simp]:
  "res_inv (p\<lparr>max_backtrack_stat := m\<rparr>) = res_inv p" "res_inv (p\<lparr>last_reap := l\<rparr>) = res_inv p"
  by (cases "seq_list p"; simp add: res_inv_def)+

lemma packet_id_add_resumed:
  assumes "res_inv p" "net_id pin \<noteq> 0" "1 < now"
  obtains p' where "packet_id_add now p pin = Some p'" "win_inv p'" "win_dead p' (pin_key pin)"
proof (rule res_invE [OF assms(1)])
  fix c assume c: "seq_list p = Some c" "circ_inv c" "circ_cap c = nat (seq_backtrack p)"
    "x_size c = 0" "initialized p" "0 < seq_backtrack p" "seq_backtrack p \<le> 65536"
  define q where "q = p\<lparr>rec_time := net_time pin, rec_id := 0\<rparr>"
  have w: "window q = []"
    using c(1,4) length_circ_abs [of c] by (simp add: window_def q_def)
  have inv: "win_inv q" unfolding win_inv_def w using c by (simp add: q_def)
  have acc: "\<not> win_dead q (pin_key pin)" using assms(2) by (simp add: win_dead_def q_def)
  have same: "packet_id_add now p pin = packet_id_add now q pin"
    using c(1,4) by (simp add: packet_id_add_def q_def Let_def)
  obtain p' where p': "packet_id_add now q pin = Some p'" "win_inv p'"
    "rec_time p' = net_time pin" "rec_id p' = top_after q pin" "window p' = win_after now q pin"
    "seq_backtrack p' = seq_backtrack q" "win_restarts q pin \<or> net_time pin = rec_time q"
    using inv acc assms(3) by (rule packet_id_add_window)
  then show thesis
    using that [of p'] same win_dead_after(1) [OF inv acc assms(3) p'(2-7)] by simp
qed

lemma crypto_check_replay_resumed:
  assumes inv: "res_inv (opt_rec opt)" and now: "1 < now"
    and b: "b = (net_id pin \<noteq> 0 \<and> newer (rec_key (opt_rec opt)) (pin_key pin))"
  shows "\<exists>opt'. crypto_check_replay now opt pin = Some (opt', b) \<and>
    (if b then win_inv (opt_rec opt') \<and> win_dead (opt_rec opt') (pin_key pin)
     else res_inv (opt_rec opt') \<and> rec_key (opt_rec opt') = rec_key (opt_rec opt))"
proof -
  define p where "p = opt_rec opt"
  define p1 where "p1 = (if last_reap p + SEQ_REAP_INTERVAL \<le> now then p\<lparr>last_reap := now\<rparr> else p)"
  obtain c where c: "seq_list p = Some c" "x_size c = 0" "initialized p" "0 < seq_backtrack p"
    using res_invE [OF inv] by (auto simp: p_def)
  have p1: "packet_id_reap_test now p = Some p1" "res_inv p1" "rec_key p1 = rec_key p"
    "seq_list p1 = Some c" "initialized p1" "seq_backtrack p1 \<noteq> 0"
    using inv c by (simp_all add: packet_id_reap_test_def packet_id_reap_def p1_def reap_loop.simps
        flip: p_def)
  define d where "d = rec_id p1 - net_id pin"
  define p2 where "p2 = (if net_id pin \<noteq> 0 \<and> net_time pin = rec_time p1 \<and> \<not> net_id pin > rec_id p1 \<and>
      sint d > max_backtrack_stat p1 then p1\<lparr>max_backtrack_stat := sint d\<rparr> else p1)"
  have p2: "res_inv p2" "rec_key p2 = rec_key p" using p1(2,3) by (simp_all add: p2_def)
  have "packet_id_test p1 pin = Some (p2, b)"
    using p1(3-6) c(2) by (auto simp: packet_id_test_def b newer_def p2_def d_def p_def Let_def not_less)
  then have t: "crypto_check_replay now opt pin = (if b then do {
      r \<leftarrow> packet_id_add now p2 pin;
      let pid = (co_packet_id opt)\<lparr>pid_rec := r\<rparr>;
      let pp = (case co_pid_persist opt of None \<Rightarrow> None
                | Some pp \<Rightarrow> if co_flags opt AND CO_PACKET_ID_LONG_FORM \<noteq> 0
                    then Some (packet_id_persist_save_obj pp pid) else Some pp);
      Some (opt\<lparr>co_packet_id := pid, co_pid_persist := pp\<rparr>, True)
    } else Some (opt\<lparr>co_packet_id := (co_packet_id opt)\<lparr>pid_rec := p2\<rparr>\<rparr>, False))"
    using p1(1) by (simp add: crypto_check_replay_def Let_def flip: p_def)
  show ?thesis
  proof (cases b)
    case False
    then show ?thesis using t p2 by (simp add: p_def)
  next
    case True
    then have "net_id pin \<noteq> 0" by (simp add: b)
    then obtain p3 where "packet_id_add now p2 pin = Some p3" "win_inv p3" "win_dead p3 (pin_key pin)"
      using packet_id_add_resumed [OF p2(1) _ now] by blast
    then show ?thesis using t True by (simp add: Let_def)
  qed
qed

lemma replay_run_resumed:
  "res_inv (opt_rec opt) \<Longrightarrow> list_all (\<lambda>(now, pin). 1 < now) evs \<Longrightarrow>
   \<exists>opt' ks. replay_run opt evs = Some (opt', ks) \<and> distinct ks \<and>
     (ks \<noteq> [] \<longrightarrow> newer (rec_key (opt_rec opt)) (hd ks))"
proof (induction evs arbitrary: opt)
  case (Cons e evs)
  obtain now pin where e: "e = (now, pin)" by (cases e)
  define b where "b = (net_id pin \<noteq> 0 \<and> newer (rec_key (opt_rec opt)) (pin_key pin))"
  have now: "1 < now" and evs: "list_all (\<lambda>(now, pin). 1 < now) evs"
    using Cons.prems(2) by (simp_all add: e)
  obtain opt1 where o1: "crypto_check_replay now opt pin = Some (opt1, b)"
    "if b then win_inv (opt_rec opt1) \<and> win_dead (opt_rec opt1) (pin_key pin)
     else res_inv (opt_rec opt1) \<and> rec_key (opt_rec opt1) = rec_key (opt_rec opt)"
    using crypto_check_replay_resumed [OF Cons.prems(1) now b_def] by blast
  show ?case
  proof (cases b)
    case True
    have "\<exists>opt' ks. replay_run opt1 evs = Some (opt', ks) \<and> win_inv (opt_rec opt') \<and> distinct ks \<and>
        (\<forall>k \<in> set ks. \<not> win_dead (opt_rec opt1) k \<and> win_dead (opt_rec opt') k) \<and>
        (\<forall>k. win_dead (opt_rec opt1) k \<longrightarrow> win_dead (opt_rec opt') k)"
      using udp.run_spec [of opt1 evs] o1(2) True evs by (simp add: list_all_iff)
    moreover have "win_dead (opt_rec opt1) (pin_key pin)" using o1(2) True by simp
    ultimately obtain opt' ks where "replay_run opt1 evs = Some (opt', ks)" "distinct ks"
      "pin_key pin \<notin> set ks" by blast
    then show ?thesis using True o1(1) by (simp add: e b_def)
  next
    case False
    then obtain opt' ks where "replay_run opt1 evs = Some (opt', ks)" "distinct ks"
      "ks \<noteq> [] \<longrightarrow> newer (rec_key (opt_rec opt)) (hd ks)"
      using Cons.IH [OF _ evs, of opt1] o1(2) by auto
    then show ?thesis using False o1(1) by (simp add: e)
  qed
qed simp

lemma replay_run_linear:
  assumes "lin_inv (opt_rec opt)"
  shows "\<exists>opt' ks. replay_run opt evs = Some (opt', ks) \<and> distinct ks \<and>
    list_all (newer (rec_key (opt_rec opt))) ks"
proof -
  obtain opt' ks where r: "replay_run opt evs = Some (opt', ks)" "distinct ks"
    "\<forall>k \<in> set ks. \<not> lin_dead (opt_rec opt) k"
    using tcp.run_spec [OF assms, of evs] by blast
  moreover have "newer (rec_key (opt_rec opt)) k" if "\<not> lin_dead (opt_rec opt) k" for k
    using that by (cases k) (auto simp: lin_dead_def newer_def)
  ultimately show ?thesis by (auto simp: list_all_iff)
qed

subsection \<open>A fresh state\<close>

lemma packet_id_init_window:
  "packet_id_init sb tb = Some pid \<Longrightarrow> sb \<noteq> 0 \<Longrightarrow> win_inv (pid_rec pid) \<and> 0 < sb"
  by (auto simp: packet_id_init_def packet_id_clear_def win_inv_def window_def Let_def
      circ_inv_alloc circ_abs_alloc MIN_SEQ_BACKTRACK_def MAX_SEQ_BACKTRACK_def circ_cap_def
      circ_list_alloc_def circ_inv_def split: Option.bind_splits)
    (simp_all add: circ_abs_def)

lemma packet_id_init_linear:
  "packet_id_init 0 tb = Some pid \<Longrightarrow> lin_inv (pid_rec pid)"
  by (auto simp: packet_id_init_def packet_id_clear_def lin_inv_def Let_def)

lemma packet_id_init_resumed:
  assumes "packet_id_init sb tb = Some pid" "sb \<noteq> 0"
  shows "res_inv ((pid_rec pid)\<lparr>rec_time := t, rec_id := i\<rparr>)"
proof -
  have inv: "win_inv (pid_rec pid)" using packet_id_init_window [OF assms] by simp
  moreover have "rec_id (pid_rec pid) = 0"
    using assms by (auto simp: packet_id_init_def packet_id_clear_def Let_def)
  ultimately have "length (window (pid_rec pid)) = 0" by (simp add: win_inv_def)
  with inv show ?thesis
    by (rule_tac win_invE [OF inv]) (simp add: res_inv_def)
qed

end
