(* ===== verification/Replay_Refinement.thy ===== *)
theory Replay_Refinement
  imports Replay_Protection
begin

text \<open>
  The sliding window of packet_id.c refines a filter over lists of accepted and expired keys, and
  the properties of the whole packet id component: no replay on the receiver, unique ids on the
  sender, the wire format between them, and what persistence does to the window.
\<close>

subsection \<open>The window against its specification\<close>

text \<open>
  The abstract filter keeps what it has accepted, each key with its arrival, the keys that have
  expired, and the time of its last look at the expiry. A key is acceptable when its id is not
  0, no accepted packet carries a later time stamp, it has not been accepted before, and it is
  less than \<open>sb\<close> behind every accepted id of the same time stamp; moreover it must not be at or
  below an expired key of its time stamp. At most every \<open>SEQ_REAP_INTERVAL\<close> seconds, and if \<open>tb\<close>
  is not 0, the keys accepted more than \<open>tb\<close> seconds ago expire.
\<close>

record replay_spec =
  sp_acc :: "(time_t \<times> time_t \<times> u32) list"
  sp_dead :: "(time_t \<times> u32) list"
  sp_reaped :: time_t

definition acceptable :: "int \<Rightarrow> (time_t \<times> u32) list \<Rightarrow> time_t \<times> u32 \<Rightarrow> bool" where
  "acceptable sb acc k = (case k of (t, i) \<Rightarrow>
     i \<noteq> 0 \<and> k \<notin> set acc \<and>
     list_all (\<lambda>(t', i'). t' \<le> t \<and> (t' = t \<longrightarrow> uint i' - uint i < sb)) acc)"

definition expired :: "(time_t \<times> u32) list \<Rightarrow> time_t \<times> u32 \<Rightarrow> bool" where
  "expired dead k = list_ex (\<lambda>(t, j). t = fst k \<and> snd k \<le> j) dead"

definition spec_reap :: "int \<Rightarrow> time_t \<Rightarrow> replay_spec \<Rightarrow> replay_spec" where
  "spec_reap tb ts s =
     (if sp_reaped s + SEQ_REAP_INTERVAL \<le> ts
      then s\<lparr>sp_dead := (if tb \<noteq> 0 then map snd (filter (\<lambda>(a, k). a + tb < ts) (sp_acc s)) else []) @
               sp_dead s, sp_reaped := ts\<rparr>
      else s)"

definition spec_accepts :: "int \<Rightarrow> replay_spec \<Rightarrow> time_t \<times> u32 \<Rightarrow> bool" where
  "spec_accepts sb s k \<longleftrightarrow> acceptable sb (map snd (sp_acc s)) k \<and> \<not> expired (sp_dead s) k"

definition spec_file :: "time_t \<Rightarrow> time_t \<times> u32 \<Rightarrow> replay_spec \<Rightarrow> replay_spec" where
  "spec_file ts k s = s\<lparr>sp_acc := (ts, k) # sp_acc s\<rparr>"

fun spec_run :: "int \<Rightarrow> int \<Rightarrow> replay_spec \<Rightarrow> (time_t \<times> time_t \<times> u32) list \<Rightarrow> (time_t \<times> u32) list" where
  "spec_run sb tb s [] = []"
| "spec_run sb tb s ((ts, k) # evs) =
     (let s = spec_reap tb ts s
      in if spec_accepts sb s k then k # spec_run sb tb (spec_file ts k s) evs
         else spec_run sb tb s evs)"

definition spec_start :: replay_spec where
  "spec_start = \<lparr>sp_acc = [], sp_dead = [], sp_reaped = 0\<rparr>"

lemma acceptable_iff:
  "acceptable sb acc (t, i) \<longleftrightarrow> i \<noteq> 0 \<and> (t, i) \<notin> set acc \<and>
     (\<forall>(t', i') \<in> set acc. t' \<le> t \<and> (t' = t \<longrightarrow> uint i' - uint i < sb))"
  by (simp add: acceptable_def list_all_iff)

lemma expired_iff: "expired dead (t, i) \<longleftrightarrow> (\<exists>j. (t, j) \<in> set dead \<and> i \<le> j)"
  by (auto simp: expired_def list_ex_iff)

text \<open>What the ring holds for a key: the mark of an expired one, else its arrival, else 0.\<close>

definition slot_of :: "replay_spec \<Rightarrow> time_t \<times> u32 \<Rightarrow> time_t" where
  "slot_of s k = (if expired (sp_dead s) k then SEQ_EXPIRED
     else case map_of (map prod.swap (sp_acc s)) k of None \<Rightarrow> SEQ_UNSEEN | Some a \<Rightarrow> a)"

definition win_history :: "packet_id_rec \<Rightarrow> replay_spec \<Rightarrow> bool" where
  "win_history p s \<longleftrightarrow> win_inv p \<and> last_reap p = sp_reaped s \<and>
     (sp_acc s = [] \<and> rec_time p = 0 \<and> rec_id p = 0 \<or>
      (rec_time p, rec_id p) \<in> snd ` set (sp_acc s) \<and> rec_id p \<noteq> 0) \<and>
     (\<forall>(t, i) \<in> snd ` set (sp_acc s). t \<le> rec_time p \<and> (t = rec_time p \<longrightarrow> i \<le> rec_id p)) \<and>
     distinct (map snd (sp_acc s)) \<and> (\<forall>a \<in> fst ` set (sp_acc s). 1 < a) \<and>
     set (sp_dead s) \<subseteq> snd ` set (sp_acc s) \<and>
     (\<forall>i. i \<noteq> 0 \<longrightarrow> i \<le> rec_id p \<longrightarrow> unat (rec_id p - i) < length (window p) \<longrightarrow>
        window p ! unat (rec_id p - i) = slot_of s (rec_time p, i))"

lemma win_historyI:
  assumes "win_inv p" "last_reap p = sp_reaped s"
    "sp_acc s = [] \<and> rec_time p = 0 \<and> rec_id p = 0 \<or>
     (rec_time p, rec_id p) \<in> snd ` set (sp_acc s) \<and> rec_id p \<noteq> 0"
    "\<And>t i. (t, i) \<in> snd ` set (sp_acc s) \<Longrightarrow> t \<le> rec_time p \<and> (t = rec_time p \<longrightarrow> i \<le> rec_id p)"
    "distinct (map snd (sp_acc s))" "\<And>a k. (a, k) \<in> set (sp_acc s) \<Longrightarrow> 1 < a"
    "set (sp_dead s) \<subseteq> snd ` set (sp_acc s)"
    "\<And>i. i \<noteq> 0 \<Longrightarrow> i \<le> rec_id p \<Longrightarrow> unat (rec_id p - i) < length (window p) \<Longrightarrow>
       window p ! unat (rec_id p - i) = slot_of s (rec_time p, i)"
  shows "win_history p s"
proof -
  have "\<forall>(t, i) \<in> snd ` set (sp_acc s). t \<le> rec_time p \<and> (t = rec_time p \<longrightarrow> i \<le> rec_id p)"
    using assms(4) by blast
  moreover have "\<forall>a \<in> fst ` set (sp_acc s). 1 < a" using assms(6) by force
  ultimately show ?thesis unfolding win_history_def using assms(1-3,5,7,8) by blast
qed

lemma win_historyD:
  assumes "win_history p s"
  shows "win_inv p" "last_reap p = sp_reaped s"
    "sp_acc s = [] \<and> rec_time p = 0 \<and> rec_id p = 0 \<or>
     (rec_time p, rec_id p) \<in> snd ` set (sp_acc s) \<and> rec_id p \<noteq> 0"
    "(t, i) \<in> snd ` set (sp_acc s) \<Longrightarrow> t \<le> rec_time p \<and> (t = rec_time p \<longrightarrow> i \<le> rec_id p)"
    "distinct (map snd (sp_acc s))" "(a, k) \<in> set (sp_acc s) \<Longrightarrow> 1 < a"
    "set (sp_dead s) \<subseteq> snd ` set (sp_acc s)"
    "i \<noteq> 0 \<Longrightarrow> i \<le> rec_id p \<Longrightarrow> unat (rec_id p - i) < length (window p) \<Longrightarrow>
       window p ! unat (rec_id p - i) = slot_of s (rec_time p, i)"
    "length (window p) = min (nat (seq_backtrack p)) (unat (rec_id p))" "0 < seq_backtrack p"
proof -
  show "win_inv p" "last_reap p = sp_reaped s" "distinct (map snd (sp_acc s))"
    "set (sp_dead s) \<subseteq> snd ` set (sp_acc s)"
    "sp_acc s = [] \<and> rec_time p = 0 \<and> rec_id p = 0 \<or>
     (rec_time p, rec_id p) \<in> snd ` set (sp_acc s) \<and> rec_id p \<noteq> 0"
    using assms unfolding win_history_def by blast+
  then show "length (window p) = min (nat (seq_backtrack p)) (unat (rec_id p))" "0 < seq_backtrack p"
    by (simp_all add: win_inv_def)
  show "(t, i) \<in> snd ` set (sp_acc s) \<Longrightarrow> t \<le> rec_time p \<and> (t = rec_time p \<longrightarrow> i \<le> rec_id p)"
    using assms unfolding win_history_def by blast
  show "(a, k) \<in> set (sp_acc s) \<Longrightarrow> 1 < a" using assms unfolding win_history_def by force
  show "i \<noteq> 0 \<Longrightarrow> i \<le> rec_id p \<Longrightarrow> unat (rec_id p - i) < length (window p) \<Longrightarrow>
       window p ! unat (rec_id p - i) = slot_of s (rec_time p, i)"
    using assms unfolding win_history_def by blast
qed

lemma map_of_swap:
  assumes "distinct (map snd xs)"
  shows "map_of (map prod.swap xs) k = Some a \<longleftrightarrow> (a, k) \<in> set xs"
    and "map_of (map prod.swap xs) k = None \<longleftrightarrow> k \<notin> snd ` set xs"
proof -
  have "map fst (map prod.swap xs) = map snd xs" by (simp add: comp_def)
  then have "map_of (map prod.swap xs) k = Some a \<longleftrightarrow> (k, a) \<in> set (map prod.swap xs)"
    using assms by (intro map_of_eq_Some_iff) (simp only:)
  then show "map_of (map prod.swap xs) k = Some a \<longleftrightarrow> (a, k) \<in> set xs" by force
  show "map_of (map prod.swap xs) k = None \<longleftrightarrow> k \<notin> snd ` set xs"
    by (simp add: map_of_eq_None_iff image_image)
qed

lemma slot_of_zero:
  assumes "distinct (map snd (sp_acc s))" "\<And>a k. (a, k) \<in> set (sp_acc s) \<Longrightarrow> 1 < a"
  shows "slot_of s k = 0 \<longleftrightarrow> \<not> expired (sp_dead s) k \<and> k \<notin> snd ` set (sp_acc s)"
    and "slot_of s k = SEQ_EXPIRED \<longleftrightarrow> expired (sp_dead s) k"
proof -
  have a: "map_of (map prod.swap (sp_acc s)) k = Some a \<Longrightarrow> 1 < a" for a
    using map_of_swap(1) [OF assms(1)] assms(2) by blast
  note none = map_of_swap(2) [OF assms(1), of k]
  have "(slot_of s k = 0 \<longleftrightarrow> \<not> expired (sp_dead s) k \<and> k \<notin> snd ` set (sp_acc s)) \<and>
    (slot_of s k = SEQ_EXPIRED \<longleftrightarrow> expired (sp_dead s) k)"
  proof (cases "map_of (map prod.swap (sp_acc s)) k")
    case None
    with none show ?thesis by (simp add: slot_of_def SEQ_EXPIRED_def SEQ_UNSEEN_def)
  next
    case (Some a)
    with none have "k \<in> snd ` set (sp_acc s)" by simp
    with Some a [OF Some] show ?thesis by (simp add: slot_of_def SEQ_EXPIRED_def)
  qed
  then show "slot_of s k = 0 \<longleftrightarrow> \<not> expired (sp_dead s) k \<and> k \<notin> snd ` set (sp_acc s)"
    "slot_of s k = SEQ_EXPIRED \<longleftrightarrow> expired (sp_dead s) k" by blast+
qed

lemma win_history_test:
  assumes h: "win_history p s" and t0: "0 \<le> t"
  shows "\<not> win_dead p (t, i) \<longleftrightarrow> spec_accepts (seq_backtrack p) s (t, i)"
proof -
  define acc where "acc = map snd (sp_acc s)"
  have keys: "snd ` set (sp_acc s) = set acc" by (simp add: acc_def)
  note h' = win_historyD [OF h, unfolded keys]
  note inv = h'(9,10)
  have top: "acc = [] \<and> rec_time p = 0 \<and> rec_id p = 0 \<or>
      (rec_time p, rec_id p) \<in> set acc \<and> rec_id p \<noteq> 0"
    using h'(3) by (auto simp: acc_def)
  have bnd: "\<forall>(t, i) \<in> set acc. t \<le> rec_time p \<and> (t = rec_time p \<longrightarrow> i \<le> rec_id p)"
    using h'(4) by blast
  have late: "rec_time p < t \<or> t = rec_time p \<and> rec_id p < i \<Longrightarrow> \<not> expired (sp_dead s) (t, i)"
    using h'(7) bnd by (fastforce simp: expired_iff)
  have acc: "spec_accepts (seq_backtrack p) s (t, i) \<longleftrightarrow> i \<noteq> 0 \<and> (t, i) \<notin> set acc \<and>
      (\<forall>(t', i') \<in> set acc. t' \<le> t \<and> (t' = t \<longrightarrow> uint i' - uint i < seq_backtrack p)) \<and>
      \<not> expired (sp_dead s) (t, i)"
    by (simp add: spec_accepts_def acceptable_iff flip: acc_def)
  consider "i = 0" | "i \<noteq> 0" "t < rec_time p" | "i \<noteq> 0" "rec_time p < t"
    | "i \<noteq> 0" "t = rec_time p" "rec_id p < i" | "i \<noteq> 0" "t = rec_time p" "i \<le> rec_id p"
    by fastforce
  then show ?thesis
  proof cases
    case 1
    then show ?thesis using acc by (simp add: win_dead_def)
  next
    case 2
    then have "win_dead p (t, i)" "(rec_time p, rec_id p) \<in> set acc"
      using top t0 by (auto simp: win_dead_def)
    then show ?thesis using 2 by (fastforce simp: acc)
  next
    case 3
    then show ?thesis using bnd late by (force simp: win_dead_def acc)
  next
    case 4
    have "uint i' - uint i < seq_backtrack p" if "(t, i') \<in> set acc" for i'
    proof -
      have "i' \<le> rec_id p" using bnd that 4 by auto
      then have "uint i' < uint i" using 4(3) by (simp add: word_le_def word_less_def)
      then show ?thesis using inv(2) by simp
    qed
    moreover have "(t, i) \<notin> set acc" using bnd 4 by (auto simp: not_le)
    ultimately have "spec_accepts (seq_backtrack p) s (t, i)"
      unfolding acc using bnd late 4 by auto
    then show ?thesis using 4 by (auto simp: win_dead_def)
  next
    case 5
    have pos: "0 < unat i" "unat i \<le> unat (rec_id p)"
      using 5 by (simp_all add: unat_gt_0 word_le_nat_alt)
    have d: "unat (rec_id p - i) = unat (rec_id p) - unat i" using 5 by (simp add: unat_sub)
    have "rec_id p \<noteq> 0" using pos by auto
    then have mem: "(rec_time p, rec_id p) \<in> set acc" using top by blast
    have near: "(\<forall>(t', i') \<in> set acc. t' \<le> t \<and> (t' = t \<longrightarrow> uint i' - uint i < seq_backtrack p)) \<longleftrightarrow>
        int (unat (rec_id p)) - int (unat i) < seq_backtrack p"
    proof
      assume "\<forall>(t', i') \<in> set acc. t' \<le> t \<and> (t' = t \<longrightarrow> uint i' - uint i < seq_backtrack p)"
      then show "int (unat (rec_id p)) - int (unat i) < seq_backtrack p"
        using mem 5 by auto
    next
      assume l: "int (unat (rec_id p)) - int (unat i) < seq_backtrack p"
      have "uint i' - uint i < seq_backtrack p" if "(t, i') \<in> set acc" for i'
      proof -
        have "uint i' \<le> uint (rec_id p)" using bnd that 5 by (auto simp: word_le_def)
        then show ?thesis using l by simp
      qed
      then show "\<forall>(t', i') \<in> set acc. t' \<le> t \<and> (t' = t \<longrightarrow> uint i' - uint i < seq_backtrack p)"
        using bnd 5 by auto
    qed
    have len: "unat (rec_id p - i) < length (window p) \<longleftrightarrow>
        int (unat (rec_id p)) - int (unat i) < seq_backtrack p"
      using pos inv(2) unfolding d inv(1) by linarith
    have slot: "window p ! unat (rec_id p - i) = 0 \<longleftrightarrow>
        \<not> expired (sp_dead s) (rec_time p, i) \<and> (rec_time p, i) \<notin> set acc"
      if "unat (rec_id p - i) < length (window p)"
      using h'(8) [OF 5(1,3) that] slot_of_zero(1) [OF h'(5,6), unfolded keys] by simp
    have "spec_accepts (seq_backtrack p) s (t, i) \<longleftrightarrow> (rec_time p, i) \<notin> set acc \<and>
        unat (rec_id p - i) < length (window p) \<and> \<not> expired (sp_dead s) (rec_time p, i)"
      unfolding acc near len using 5 by auto
    moreover have "win_dead p (t, i) \<longleftrightarrow> \<not> unat (rec_id p - i) < length (window p) \<or>
        window p ! unat (rec_id p - i) \<noteq> 0"
      using 5 by (auto simp: win_dead_def)
    ultimately show ?thesis using slot by blast
  qed
qed

lemma top_after_ge:
  assumes "win_inv p" "win_restarts p pin \<longrightarrow> net_time pin = rec_time p"
  shows "rec_id p \<le> top_after p pin"
proof (cases "window p = []")
  case True
  then have "unat (rec_id p) = 0" using assms(1) by (auto simp: win_inv_def)
  then show ?thesis by (simp add: unat_eq_zero)
next
  case False
  then show ?thesis
    using assms(2) by (auto simp: top_after_def win_restarts_def word_le_nat_alt max_def)
qed

lemma win_history_accept:
  assumes h: "win_history p s" and acc: "\<not> win_dead p (pin_key pin)"
    and new: "spec_accepts (seq_backtrack p) s (pin_key pin)"
    and now: "1 < now"
    and p': "win_inv p'" "rec_time p' = net_time pin" "rec_id p' = top_after p pin"
      "window p' = win_after now p pin" "seq_backtrack p' = seq_backtrack p"
      "last_reap p' = last_reap p" "win_restarts p pin \<or> net_time pin = rec_time p"
  shows "win_history p' (spec_file now (pin_key pin) s)"
proof -
  note h' = win_historyD [OF h]
  define ks where "ks = snd ` set (sp_acc s)"
  have fresh: "pin_key pin \<notin> ks" "\<not> expired (sp_dead s) (pin_key pin)"
    using new by (auto simp: spec_accepts_def acceptable_iff ks_def)
  have id: "net_id pin \<noteq> 0" "rec_time p \<le> net_time pin"
    using acc by (auto simp: win_dead_def)
  have bnd: "t \<le> rec_time p \<and> (t = rec_time p \<longrightarrow> i \<le> rec_id p)" if "(t, i) \<in> ks" for t i
    using h'(4) that by (simp add: ks_def)
  have top_ge: "net_time pin = rec_time p \<Longrightarrow> rec_id p \<le> top_after p pin"
    using top_after_ge [OF h'(1)] by simp
  have len': "length (win_after now p pin) = min (nat (seq_backtrack p)) (unat (top_after p pin))"
    using p'(1,3,4,5) by (simp add: win_inv_def)
  have top_in: "top_after p pin = net_id pin \<or> (net_time pin, top_after p pin) \<in> ks \<and> top_after p pin \<noteq> 0"
  proof (cases "top_after p pin = net_id pin")
    case False
    then have "\<not> win_restarts p pin" "top_after p pin = rec_id p"
      by (auto simp: top_after_def max_def split: if_splits)
    moreover from this h'(9) have "rec_id p \<noteq> 0" by (auto simp: win_restarts_def)
    ultimately show ?thesis using h'(3) p'(7) by (auto simp: ks_def)
  qed simp
  have bnd': "t \<le> net_time pin \<and> (t = net_time pin \<longrightarrow> i \<le> top_after p pin)"
    if "(t, i) \<in> ks" for t i
    using bnd [OF that] id(2) top_ge by auto
  have top: "net_id pin \<le> top_after p pin" by (simp add: top_after_def)
  have slots: "win_after now p pin ! unat (top_after p pin - i) =
      slot_of (spec_file now (pin_key pin) s) (net_time pin, i)"
    if i: "i \<noteq> 0" "i \<le> top_after p pin" "unat (top_after p pin - i) < length (win_after now p pin)" for i
  proof (cases "i = net_id pin")
    case True
    then show ?thesis
      using win_after_value [OF h'(1) acc now i(2,3)] fresh by (simp add: slot_of_def spec_file_def)
  next
    case ne: False
    then have same: "slot_of (spec_file now (pin_key pin) s) (net_time pin, i) = slot_of s (net_time pin, i)"
      by (simp add: slot_of_def spec_file_def)
    note v = win_after_value [OF h'(1) acc now i(2,3), simplified ne if_False]
    show ?thesis
    proof (cases "\<not> win_restarts p pin \<and> i \<le> rec_id p")
      case True
      then have t: "net_time pin = rec_time p" using p'(7) by simp
      have "unat (rec_id p - i) \<le> unat (top_after p pin - i)"
        using top_ge [OF t] True i(2) by (simp add: unat_sub word_le_nat_alt)
      moreover have "unat (rec_id p - i) < unat (rec_id p)"
      proof -
        have "0 < unat i" "unat i \<le> unat (rec_id p)"
          using i True by (simp_all add: unat_gt_0 word_le_nat_alt)
        then show ?thesis using True by (simp add: unat_sub)
      qed
      ultimately have "unat (rec_id p - i) < length (window p)"
        using i(3) len' h'(9) by simp
      then show ?thesis using h'(8) [OF i(1)] True t v same by simp
    next
      case False
      have none: "\<not> i \<le> j" if m: "(net_time pin, j) \<in> ks" for j
      proof
        assume ij: "i \<le> j"
        have t: "net_time pin = rec_time p" and jle: "j \<le> rec_id p" using bnd [OF m] id(2) by auto
        then have ile: "i \<le> rec_id p" using ij by simp
        then have r: "win_restarts p pin" using False by blast
        have "rec_id p \<noteq> 0" using ile i(1) by auto
        then have "0 < unat (rec_id p)" by (simp add: unat_gt_0)
        then have "window p \<noteq> []" using h'(9,10) by auto
        with r t have "unat (net_id pin) > unat (rec_id p) + nat (seq_backtrack p)"
          by (simp add: win_restarts_def)
        moreover have "unat (net_id pin - i) < nat (seq_backtrack p)"
          using i(3) len' r by (simp add: top_after_def)
        moreover have "unat (net_id pin - i) = unat (net_id pin) - unat i"
          using i(2) r by (simp add: top_after_def unat_sub)
        ultimately show False using ile by (simp add: word_le_nat_alt)
      qed
      then have "(net_time pin, i) \<notin> ks" "\<not> expired (sp_dead s) (net_time pin, i)"
        using h'(7) none unfolding expired_iff ks_def by blast+
      then have "slot_of s (net_time pin, i) = 0"
        using slot_of_zero(1) [OF h'(5,6)] by (simp add: ks_def)
      then show ?thesis using False v same by (auto split: if_splits)
    qed
  qed
  have acc': "sp_acc (spec_file now (pin_key pin) s) = (now, pin_key pin) # sp_acc s"
    "sp_dead (spec_file now (pin_key pin) s) = sp_dead s"
    "sp_reaped (spec_file now (pin_key pin) s) = sp_reaped s"
    by (simp_all add: spec_file_def)
  show ?thesis
  proof (rule win_historyI)
    show "sp_acc (spec_file now (pin_key pin) s) = [] \<and> rec_time p' = 0 \<and> rec_id p' = 0 \<or>
      (rec_time p', rec_id p') \<in> snd ` set (sp_acc (spec_file now (pin_key pin) s)) \<and> rec_id p' \<noteq> 0"
      using top_in id(1) unfolding acc' p'(2,3) by (auto simp: ks_def)
    show "t \<le> rec_time p' \<and> (t = rec_time p' \<longrightarrow> i \<le> rec_id p')"
      if "(t, i) \<in> snd ` set (sp_acc (spec_file now (pin_key pin) s))" for t i
      using that bnd' [of t i] top unfolding acc' p'(2,3) by (auto simp: ks_def)
    show "distinct (map snd (sp_acc (spec_file now (pin_key pin) s)))"
      using h'(5) fresh(1) unfolding acc' by (simp add: ks_def)
    show "1 < a" if "(a, k) \<in> set (sp_acc (spec_file now (pin_key pin) s))" for a k
      using that h'(6) [of a k] now unfolding acc' by auto
    show "set (sp_dead (spec_file now (pin_key pin) s)) \<subseteq> snd ` set (sp_acc (spec_file now (pin_key pin) s))"
      using h'(7) unfolding acc' by auto
    show "window p' ! unat (rec_id p' - i) = slot_of (spec_file now (pin_key pin) s) (rec_time p', i)"
      if "i \<noteq> 0" "i \<le> rec_id p'" "unat (rec_id p' - i) < length (window p')" for i
      using slots that unfolding p'(2-4) by blast
  qed (use p'(1,6) h'(2) acc'(3) in simp_all)
qed

lemma packet_id_add_config:
  "packet_id_add now p pin = Some p' \<Longrightarrow> time_backtrack p' = time_backtrack p"
  by (auto simp: packet_id_add_def Let_def split: option.splits bind_splits)

lemma ring_index:
  assumes "k < length (window p)" "length (window p) = min (nat (seq_backtrack p)) (unat (rec_id p))"
  defines "i \<equiv> rec_id p - of_nat k"
  shows "i \<noteq> 0" "i \<le> rec_id p" "unat (rec_id p - i) = k" "unat i = unat (rec_id p) - k"
proof -
  have lt: "k < unat (rec_id p)" using assms(1,2) by simp
  then have k: "unat (of_nat k :: u32) = k"
    using unsigned_less [of "rec_id p", where ?'a = nat] by (simp add: unsigned_of_nat take_bit_nat_eq_self)
  then have le: "of_nat k \<le> rec_id p" using lt by (simp add: word_le_nat_alt)
  then show "unat i = unat (rec_id p) - k" by (simp add: i_def unat_sub k)
  then show "i \<noteq> 0" using lt by auto
  show "i \<le> rec_id p" using \<open>unat i = unat (rec_id p) - k\<close> by (simp add: word_le_nat_alt)
  show "unat (rec_id p - i) = k" by (simp add: i_def k)
qed

lemma packet_id_reap_test_marks:
  assumes "win_inv p" "packet_id_reap_test ts p = Some p'"
    and tail: "\<forall>k1 k2. k1 \<le> k2 \<longrightarrow> k2 < length (window p) \<longrightarrow>
      window p ! k1 = SEQ_EXPIRED \<longrightarrow> window p ! k2 = SEQ_EXPIRED"
  shows "last_reap p' = (if last_reap p + SEQ_REAP_INTERVAL \<le> ts then ts else last_reap p)"
    and "k < length (window p) \<Longrightarrow> window p' ! k =
      (if last_reap p + SEQ_REAP_INTERVAL \<le> ts \<and> time_backtrack p \<noteq> 0 \<and>
         (\<exists>k0 \<le> k. slot_old ts (time_backtrack p) (window p ! k0))
       then SEQ_EXPIRED else window p ! k)"
proof -
  obtain c where c: "seq_list p = Some c" "circ_inv c" "window p = circ_abs c"
    using win_invE [OF assms(1)] by blast
  show "last_reap p' = (if last_reap p + SEQ_REAP_INTERVAL \<le> ts then ts else last_reap p)"
    using assms(2) c(1)
    by (auto simp: packet_id_reap_test_def packet_id_reap_def split: if_splits bind_splits)
  assume k: "k < length (window p)"
  show "window p' ! k =
      (if last_reap p + SEQ_REAP_INTERVAL \<le> ts \<and> time_backtrack p \<noteq> 0 \<and>
         (\<exists>k0 \<le> k. slot_old ts (time_backtrack p) (window p ! k0))
       then SEQ_EXPIRED else window p ! k)"
  proof (cases "last_reap p + SEQ_REAP_INTERVAL \<le> ts \<and> time_backtrack p \<noteq> 0")
    case False
    then have "seq_list p' = seq_list p"
      using assms(2) by (auto simp: packet_id_reap_test_def packet_id_reap_def split: if_splits)
    then show ?thesis using False by (auto simp: window_def)
  next
    case True
    then obtain c' where c': "reap_loop ts (time_backtrack p) 0 False c = Some c'"
      "seq_list p' = Some c'"
      using assms(2) c(1)
      by (auto simp: packet_id_reap_test_def packet_id_reap_def split: bind_splits)
    have "circ_abs c' ! k =
      (if nat 0 \<le> k \<and> (False \<or> (\<exists>k0. nat 0 \<le> k0 \<and> k0 \<le> k \<and>
          slot_old ts (time_backtrack p) (circ_abs c ! k0))) then SEQ_EXPIRED else circ_abs c ! k)"
      using c(2) _ _ c'(1) by (rule reap_loop_marks) (use tail k c(3) in auto)
    moreover have "window p' = circ_abs c'" using c'(2) by (simp add: window_def)
    ultimately show ?thesis using True unfolding c(3) by auto
  qed
qed

lemma win_history_reap:
  assumes h: "win_history p s" and r: "packet_id_reap_test ts p = Some p'" and inv': "win_inv p'"
    and same: "rec_time p' = rec_time p" "rec_id p' = rec_id p" "length (window p') = length (window p)"
  shows "win_history p' (spec_reap (time_backtrack p) ts s)"
proof -
  note h' = win_historyD [OF h]
  note zero = slot_of_zero [OF h'(5,6)]
  define tb where "tb = time_backtrack p"
  define due where "due \<longleftrightarrow> last_reap p + SEQ_REAP_INTERVAL \<le> ts"
  define s' where "s' = spec_reap tb ts s"
  have s': "sp_acc s' = sp_acc s" "sp_reaped s' = (if due then ts else last_reap p)"
    "set (sp_dead s') = set (sp_dead s) \<union>
      (if due \<and> tb \<noteq> 0 then {k. \<exists>a. (a, k) \<in> set (sp_acc s) \<and> a + tb < ts} else {})"
    using h'(2) by (auto simp: s'_def spec_reap_def due_def image_iff)
  have idx: "window p ! k = slot_of s (rec_time p, rec_id p - of_nat k)" if "k < length (window p)" for k
    using h'(8) ring_index [OF that h'(9)] that by metis
  have tail: "\<forall>k1 k2. k1 \<le> k2 \<longrightarrow> k2 < length (window p) \<longrightarrow>
      window p ! k1 = SEQ_EXPIRED \<longrightarrow> window p ! k2 = SEQ_EXPIRED"
  proof (intro allI impI)
    fix k1 k2 assume k: "k1 \<le> k2" "k2 < length (window p)" "window p ! k1 = SEQ_EXPIRED"
    then have k1: "k1 < length (window p)" by simp
    have "rec_id p - of_nat k2 \<le> (rec_id p - of_nat k1 :: u32)"
      using ring_index(4) [OF k1 h'(9)] ring_index(4) [OF k(2) h'(9)] k(1)
      by (simp add: word_le_nat_alt)
    moreover have "expired (sp_dead s) (rec_time p, rec_id p - of_nat k1)"
      using k(3) idx [OF k1] zero(2) by simp
    ultimately show "window p ! k2 = SEQ_EXPIRED"
      using idx [OF k(2)] zero(2) by (auto simp: expired_iff intro: order_trans)
  qed
  note marks = packet_id_reap_test_marks [OF h'(1) r tail]
  have slot: "window p' ! unat (rec_id p - i) = slot_of s' (rec_time p, i)"
    if i: "i \<noteq> 0" "i \<le> rec_id p" "unat (rec_id p - i) < length (window p)" for i
  proof -
    define k where "k = unat (rec_id p - i)"
    have old: "(\<exists>k0 \<le> k. slot_old ts tb (window p ! k0)) \<longleftrightarrow>
      (\<exists>j a. i \<le> j \<and> (a, rec_time p, j) \<in> set (sp_acc s) \<and> a + tb < ts \<and>
        \<not> expired (sp_dead s) (rec_time p, j))" (is "?L \<longleftrightarrow> ?R")
    proof
      assume ?L
      then obtain k0 where k0: "k0 \<le> k" "slot_old ts tb (window p ! k0)" by blast
      define j where "j = rec_id p - of_nat k0"
      have lt: "k0 < length (window p)" using k0 i(3) by (simp add: k_def)
      note j = ring_index [OF lt h'(9), folded j_def]
      have "unat i \<le> unat j"
        using k0(1) j(4) i(2) by (simp add: k_def unat_sub)
           (metis diff_diff_cancel diff_le_mono2 word_le_nat_alt)
      then have ij: "i \<le> j" by (simp add: word_le_nat_alt)
      have w: "slot_old ts tb (slot_of s (rec_time p, j))" using k0(2) idx [OF lt] by (simp add: j_def)
      then have ne: "\<not> expired (sp_dead s) (rec_time p, j)" using zero(2) by (simp add: slot_old_def)
      with w obtain a where a: "map_of (map prod.swap (sp_acc s)) (rec_time p, j) = Some a" "a + tb < ts"
        by (auto simp: slot_of_def slot_old_def SEQ_UNSEEN_def split: option.splits)
      then have "(a, rec_time p, j) \<in> set (sp_acc s)" using map_of_swap(1) [OF h'(5)] by blast
      with ij ne a(2) show ?R by blast
    next
      assume ?R
      then obtain j a where j: "i \<le> j" "(a, rec_time p, j) \<in> set (sp_acc s)" "a + tb < ts"
        "\<not> expired (sp_dead s) (rec_time p, j)" by blast
      have jr: "j \<le> rec_id p" using h'(4) [of "rec_time p" j] j(2) by force
      have le: "unat (rec_id p - j) \<le> k" using j(1) jr i(2) by (simp add: k_def unat_sub word_le_nat_alt)
      then have "window p ! unat (rec_id p - j) = slot_of s (rec_time p, j)"
        using i j(1) jr by (intro h'(8)) (auto simp: k_def)
      also have "map_of (map prod.swap (sp_acc s)) (rec_time p, j) = Some a"
        using map_of_swap(1) [OF h'(5)] j(2) by blast
      then have "slot_of s (rec_time p, j) = a" using j(4) by (simp add: slot_of_def)
      finally have "slot_old ts tb (window p ! unat (rec_id p - j))"
        using h'(6) [OF j(2)] j(3) by (simp add: slot_old_def SEQ_EXPIRED_def)
      with le show ?L by blast
    qed
    have "expired (sp_dead s') (rec_time p, i) \<longleftrightarrow> expired (sp_dead s) (rec_time p, i) \<or>
        due \<and> tb \<noteq> 0 \<and> (\<exists>j a. i \<le> j \<and> (a, rec_time p, j) \<in> set (sp_acc s) \<and> a + tb < ts)"
      by (auto simp: expired_iff s'(3))
    also have "\<dots> \<longleftrightarrow> expired (sp_dead s) (rec_time p, i) \<or> due \<and> tb \<noteq> 0 \<and> (\<exists>k0 \<le> k. slot_old ts tb (window p ! k0))"
      unfolding old by (auto simp: expired_iff intro: order_trans)
    finally have "expired (sp_dead s') (rec_time p, i) \<longleftrightarrow> expired (sp_dead s) (rec_time p, i) \<or>
        due \<and> tb \<noteq> 0 \<and> (\<exists>k0 \<le> k. slot_old ts tb (window p ! k0))" .
    moreover have "window p ! k = slot_of s (rec_time p, i)" using h'(8) [OF i] by (simp add: k_def)
    ultimately show ?thesis
      using marks(2) [OF i(3)] s'(1) by (auto simp: slot_of_def k_def tb_def due_def)
  qed
  have sp_dead_ok: "set (sp_dead s') \<subseteq> snd ` set (sp_acc s)"
    using h'(7) s'(3) by (force split: if_splits)
  have "win_history p' s'"
  proof (rule win_historyI)
    show "last_reap p' = sp_reaped s'" using marks(1) s'(2) by (simp add: due_def)
    show "t \<le> rec_time p' \<and> (t = rec_time p' \<longrightarrow> i \<le> rec_id p')"
      if "(t, i) \<in> snd ` set (sp_acc s')" for t i
      using h'(4) that unfolding s'(1) same by blast
  qed (use inv' h'(3,5,6) slot sp_dead_ok in \<open>simp_all only: s'(1) same\<close>)
  then show ?thesis by (simp add: s'_def tb_def)
qed

lemma win_history_frame [simp]:
  "win_history (p\<lparr>max_backtrack_stat := m\<rparr>) s = win_history p s"
  by (cases "seq_list p"; simp add: win_history_def win_inv_def window_def)

lemma crypto_check_replay_history:
  assumes h: "win_history (opt_rec opt) s" and now: "1 < now" and t: "0 \<le> net_time pin"
    and s1: "s1 = spec_reap (time_backtrack (opt_rec opt)) now s"
    and b: "b = spec_accepts (seq_backtrack (opt_rec opt)) s1 (pin_key pin)"
  shows "\<exists>opt'. crypto_check_replay now opt pin = Some (opt', b) \<and>
    win_history (opt_rec opt') (if b then spec_file now (pin_key pin) s1 else s1) \<and>
    seq_backtrack (opt_rec opt') = seq_backtrack (opt_rec opt) \<and>
    time_backtrack (opt_rec opt') = time_backtrack (opt_rec opt)"
proof -
  define p where "p = opt_rec opt"
  have inv: "win_inv p" using h by (simp add: win_history_def p_def)
  obtain p1 where l: "packet_id_reap_test now p = Some p1" and p1: "win_inv p1"
    "rec_time p1 = rec_time p" "rec_id p1 = rec_id p" "seq_backtrack p1 = seq_backtrack p"
    "time_backtrack p1 = time_backtrack p" "length (window p1) = length (window p)"
    using packet_id_reap_test_window [OF inv] by metis
  have h1: "win_history p1 s1"
    using win_history_reap [OF h [folded p_def] l p1(1-3,6)] by (simp add: s1 p_def)
  have dead: "b \<longleftrightarrow> \<not> win_dead p1 (pin_key pin)"
    using win_history_test [OF h1 t] p1(4) by (simp add: b p_def)
  obtain m where m: "packet_id_test p1 pin = Some (p1\<lparr>max_backtrack_stat := m\<rparr>, b)"
    using p1(1) dead by (auto elim: packet_id_test_window)
  define p2 where "p2 = p1\<lparr>max_backtrack_stat := m\<rparr>"
  have p2: "win_inv p2" "win_history p2 s1" "seq_backtrack p2 = seq_backtrack p"
    "time_backtrack p2 = time_backtrack p" "b \<longleftrightarrow> \<not> win_dead p2 (pin_key pin)"
    using p1 h1 dead by (simp_all add: p2_def)
  show ?thesis
  proof (cases b)
    case False
    then show ?thesis
      using l m p2 by (simp add: crypto_check_replay_def p2_def [symmetric] p_def [symmetric])
  next
    case True
    then have acc: "\<not> win_dead p2 (pin_key pin)" using p2 by simp
    obtain p3 where p3: "packet_id_add now p2 pin = Some p3" "win_inv p3"
      "rec_time p3 = net_time pin" "rec_id p3 = top_after p2 pin" "window p3 = win_after now p2 pin"
      "seq_backtrack p3 = seq_backtrack p2" "last_reap p3 = last_reap p2"
      "win_restarts p2 pin \<or> net_time pin = rec_time p2"
      using p2(1) acc now by (rule packet_id_add_window)
    have "win_history p3 (spec_file now (pin_key pin) s1)"
      using p2(2) acc _ now p3(2-8) by (rule win_history_accept) (use True b p2(3) p_def in simp)
    then show ?thesis
      using True l m p2 p3(1,6) packet_id_add_config [OF p3(1)]
      by (simp add: crypto_check_replay_def p2_def [symmetric] p_def [symmetric] Let_def)
  qed
qed

lemma replay_run_history:
  "win_history (opt_rec opt) s \<Longrightarrow> \<forall>(now, pin) \<in> set evs. 1 < now \<and> 0 \<le> net_time pin \<Longrightarrow>
   \<exists>opt'. replay_run opt evs = Some (opt', spec_run (seq_backtrack (opt_rec opt))
     (time_backtrack (opt_rec opt)) s (map (\<lambda>(now, pin). (now, pin_key pin)) evs))"
proof (induction evs arbitrary: opt s)
  case (Cons e evs)
  obtain now pin where e: "e = (now, pin)" by (cases e)
  define s1 where "s1 = spec_reap (time_backtrack (opt_rec opt)) now s"
  define b where "b = spec_accepts (seq_backtrack (opt_rec opt)) s1 (pin_key pin)"
  have ev: "1 < now" "0 \<le> net_time pin" using Cons.prems(2) by (auto simp: e)
  obtain opt1 where o1: "crypto_check_replay now opt pin = Some (opt1, b)"
    "win_history (opt_rec opt1) (if b then spec_file now (pin_key pin) s1 else s1)"
    "seq_backtrack (opt_rec opt1) = seq_backtrack (opt_rec opt)"
    "time_backtrack (opt_rec opt1) = time_backtrack (opt_rec opt)"
    using crypto_check_replay_history [OF Cons.prems(1) ev s1_def b_def] by blast
  obtain opt2 where "replay_run opt1 evs = Some (opt2, spec_run (seq_backtrack (opt_rec opt))
      (time_backtrack (opt_rec opt)) (if b then spec_file now (pin_key pin) s1 else s1)
      (map (\<lambda>(now, pin). (now, pin_key pin)) evs))"
    using Cons.IH [OF o1(2)] Cons.prems(2) o1(3,4) by auto
  then show ?case
    using o1(1) by (simp add: e Let_def flip: s1_def b_def)
qed simp

lemma packet_id_init_history:
  assumes "packet_id_init sb tb = Some pid" "sb \<noteq> 0"
  shows "win_history (pid_rec pid) spec_start" "seq_backtrack (pid_rec pid) = sb"
    "time_backtrack (pid_rec pid) = tb"
proof -
  have z: "rec_time (pid_rec pid) = 0" "rec_id (pid_rec pid) = 0" "last_reap (pid_rec pid) = 0"
    "seq_backtrack (pid_rec pid) = sb" "time_backtrack (pid_rec pid) = tb"
    using assms by (auto simp: packet_id_init_def packet_id_clear_def Let_def)
  moreover have inv: "win_inv (pid_rec pid)" using packet_id_init_window [OF assms] by simp
  moreover have "window (pid_rec pid) = []" using inv z by (simp add: win_inv_def)
  ultimately show "win_history (pid_rec pid) spec_start" "seq_backtrack (pid_rec pid) = sb"
    "time_backtrack (pid_rec pid) = tb"
    by (simp_all add: win_history_def spec_start_def)
qed

subsection \<open>Properties\<close>

text \<open>
  C1. For any session parameters (both the UDP window and the gap-free TCP mode, for which
  \<open>sb = 0\<close>), any history of authenticated packets under any clock later than 1 is processed
  without a failed assertion or an access outside the ring, and no (time, id) pair is accepted
  twice: the replay check of the data channel admits no replays.
\<close>

theorem replay_never_accepted:
  assumes "packet_id_init sb tb = Some pid" "co_packet_id opt = pid"
    and "list_all (\<lambda>(now, pin). 1 < now) evs"
  shows "\<exists>opt' ks. replay_run opt evs = Some (opt', ks) \<and> distinct ks"
proof (cases "sb = 0")
  case True
  then show ?thesis
    using tcp.no_replay [of opt evs] packet_id_init_linear assms by auto
next
  case False
  then show ?thesis
    using udp.no_replay [of opt evs] packet_id_init_window [OF assms(1)] assms
    by (auto simp: list_all_iff)
qed

definition sample_options :: "int \<Rightarrow> int \<Rightarrow> crypto_options" where
  "sample_options sb tb = \<lparr>co_packet_id = the (packet_id_init sb tb), co_pid_persist = None, co_flags = 0\<rparr>"

definition sample_pins :: "(time_t \<times> packet_id_net) list" where
  "sample_pins = [(10, \<lparr>net_id = 3, net_time = 0\<rparr>), (11, \<lparr>net_id = 2, net_time = 0\<rparr>),
     (12, \<lparr>net_id = 3, net_time = 0\<rparr>), (12, \<lparr>net_id = 9, net_time = 0\<rparr>), (13, \<lparr>net_id = 4, net_time = 0\<rparr>)]"

lemma sample_init: "packet_id_init 4 15 = Some (co_packet_id (sample_options 4 15))"
  by (simp add: packet_id_init_def sample_options_def Let_def MIN_SEQ_BACKTRACK_def
      MAX_SEQ_BACKTRACK_def MIN_TIME_BACKTRACK_def MAX_TIME_BACKTRACK_def)

theorem replay_never_accepted_witness:
  "\<exists>opt' ks. replay_run (sample_options 4 15) sample_pins = Some (opt', ks) \<and> distinct ks"
  using replay_never_accepted [OF sample_init refl, of sample_pins] by (simp add: sample_pins_def)

text \<open>
  C2. In a UDP session (a window of \<open>sb\<close> slots, \<open>sb\<close> not 0) the keys that \<open>crypto_check_replay\<close>
  accepts are exactly those that the abstract filter over the lists of accepted and expired keys
  accepts: for every history of packets, with the expiry of \<open>packet_id_reap\<close> at any moment the
  clock makes it due (the clock may even go back; it only has to be later than 1), ring buffer,
  wrap-around arithmetic and window restarts included. Time stamps are unsigned on the wire.
\<close>

theorem replay_window_refines:
  assumes "packet_id_init sb tb = Some pid" "sb \<noteq> 0" "co_packet_id opt = pid"
    and "list_all (\<lambda>(now, pin). 1 < now \<and> 0 \<le> net_time pin) evs"
  shows "\<exists>opt'. replay_run opt evs =
    Some (opt', spec_run sb tb spec_start (map (\<lambda>(now, pin). (now, pin_key pin)) evs))"
  using replay_run_history [of opt spec_start evs] packet_id_init_history [OF assms(1,2)] assms(3,4)
  by (auto simp: list_all_iff)

text \<open>The sample history again, and after it id 8, which comes 17 seconds after id 9 and is
  refused although it was never seen: id 9 has expired.\<close>

definition late_pins :: "(time_t \<times> packet_id_net) list" where
  "late_pins = sample_pins @ [(30, \<lparr>net_id = 8, net_time = 0\<rparr>), (30, \<lparr>net_id = 10, net_time = 0\<rparr>)]"

theorem replay_window_refines_witness:
  "map_option snd (replay_run (sample_options 4 15) late_pins) = Some [(0, 3), (0, 2), (0, 9), (0, 10)]"
proof -
  have "list_all (\<lambda>(now, pin). 1 < now \<and> 0 \<le> net_time pin) late_pins"
    by (simp add: sample_pins_def late_pins_def)
  then obtain opt' where "replay_run (sample_options 4 15) late_pins =
      Some (opt', spec_run 4 15 spec_start (map (\<lambda>(now, pin). (now, pin_key pin)) late_pins))"
    using replay_window_refines [OF sample_init _ refl, of late_pins] by auto
  moreover have "spec_run 4 15 spec_start (map (\<lambda>(now, pin). (now, pin_key pin)) late_pins) =
      [(0, 3), (0, 2), (0, 9), (0, 10)]"
    by (simp add: sample_pins_def late_pins_def spec_start_def spec_reap_def spec_accepts_def
        spec_file_def acceptable_def expired_def SEQ_REAP_INTERVAL_def)
  ultimately show ?thesis by simp
qed

lemma uint_plus_one: "(w :: u32) + 1 \<noteq> 0 \<Longrightarrow> uint (w + 1) = uint w + 1"
proof -
  assume "w + 1 \<noteq> 0"
  then have "unat (w + 1) = Suc (unat w)" by (simp add: add.commute unatSuc)
  then have "int (unat (w + 1)) = int (unat w) + 1" by simp
  then show ?thesis by simp
qed

subsection \<open>Sending\<close>

text \<open>
  A sender numbering its packets: each element of the list is the clock at the moment of one
  packet; the result lists the (time, id) pairs as they go on the wire. A packet whose id could
  not be allocated is not sent.
\<close>

fun send_run :: "bool \<Rightarrow> packet_id_send \<Rightarrow> time_t list \<Rightarrow> (u32 \<times> u32) list" where
  "send_run long_form p [] = []"
| "send_run long_form p (now # clocks) =
     (case packet_id_send_update now p long_form of
        (p, True) \<Rightarrow> (word_of_int (send_time p), send_id p) # send_run long_form p clocks
      | (p, False) \<Rightarrow> send_run long_form p clocks)"

definition send_rank :: "packet_id_send \<Rightarrow> int" where
  "send_rank p = send_time p * 2 ^ 32 + uint (send_id p)"

definition wire_rank :: "u32 \<times> u32 \<Rightarrow> int" where
  "wire_rank k = uint (fst k) * 2 ^ 32 + uint (snd k)"

lemma send_update_rank:
  assumes "packet_id_send_update now p lf = (p', ok)" "0 \<le> send_time p" "0 \<le> now"
  shows "(if ok then send_rank p < send_rank p' else send_rank p \<le> send_rank p')"
    and "0 \<le> send_time p'" "send_time p' = send_time p \<or> send_time p' = now"
proof -
  define q where "q = (if send_time p = 0 then p\<lparr>send_time := now\<rparr> else p)"
  have q: "send_id q = send_id p" "send_time p \<le> send_time q" "0 \<le> send_time q"
    "send_time q = send_time p \<or> send_time q = now"
    using assms(2,3) by (auto simp: q_def)
  then have r: "send_rank p \<le> send_rank q" by (simp add: send_rank_def)
  have upd: "(p', ok) = (if send_id q = PACKET_ID_MAX then
        (if \<not> lf \<or> now \<le> send_time q then (q, False)
         else (q\<lparr>send_time := now, send_id := 0 + 1\<rparr>, True))
      else (q\<lparr>send_id := send_id q + 1\<rparr>, True))"
    using assms(1) by (simp add: packet_id_send_update_def Let_def flip: q_def)
  show "0 \<le> send_time p'" "send_time p' = send_time p \<or> send_time p' = now"
    using upd q assms(3) by (auto split: if_splits)
  show "if ok then send_rank p < send_rank p' else send_rank p \<le> send_rank p'"
  proof (cases "send_id q = PACKET_ID_MAX")
    case True
    have "send_rank q < send_rank (q\<lparr>send_time := now, send_id := 0 + 1\<rparr>)" if "send_time q < now"
      using True that by (simp add: send_rank_def PACKET_ID_MAX_def)
    then show ?thesis using upd True r by (auto split: if_splits)
  next
    case False
    have nz: "send_id q + 1 \<noteq> 0"
    proof
      assume "send_id q + 1 = 0"
      then have "send_id q = - 1" by (simp only: eq_neg_iff_add_eq_0)
      with False show False by (simp add: PACKET_ID_MAX_def)
    qed
    then have "uint (send_id q + 1) = uint (send_id q) + 1"
      by (rule uint_plus_one)
    then show ?thesis using upd False r by (auto simp: send_rank_def)
  qed
qed

lemma send_run_sorted:
  "0 \<le> send_time p \<Longrightarrow> send_time p < 2 ^ 32 \<Longrightarrow> \<forall>t \<in> set clocks. 0 \<le> t \<and> t < 2 ^ 32 \<Longrightarrow>
   sorted_wrt (<) (map wire_rank (send_run lf p clocks)) \<and>
   (\<forall>k \<in> set (send_run lf p clocks). send_rank p < wire_rank k)"
proof (induction clocks arbitrary: p)
  case (Cons now clocks)
  obtain p' ok where u: "packet_id_send_update now p lf = (p', ok)" by fastforce
  have now: "0 \<le> now" "now < 2 ^ 32" using Cons.prems by simp_all
  note r = send_update_rank [OF u Cons.prems(1) now(1)]
  have t': "0 \<le> send_time p'" "send_time p' < 2 ^ 32" using r(2,3) now Cons.prems by auto
  have IH: "sorted_wrt (<) (map wire_rank (send_run lf p' clocks)) \<and>
    (\<forall>k \<in> set (send_run lf p' clocks). send_rank p' < wire_rank k)"
    using Cons.IH [OF t'] Cons.prems by simp
  have "wire_rank (word_of_int (send_time p'), send_id p') = send_rank p'"
    using t' by (simp add: wire_rank_def send_rank_def uint_word_of_int)
  then show ?case
    using IH r(1) u by (cases ok) fastforce+
qed simp

text \<open>
  C4. The sender never uses a (time, id) pair twice, in either form and for any sequence of
  clock values that fit the 32-bit time stamp (the clock may even go back): the pairs it
  allocates are strictly increasing, also across the wrap of the id.
\<close>

theorem sender_ids_unique:
  assumes "list_all (\<lambda>t. 0 \<le> t \<and> t < 2 ^ 32) clocks"
  shows "distinct (send_run long_form (pid_send packet_id_clear) clocks) \<and>
    sorted_wrt (<) (map wire_rank (send_run long_form (pid_send packet_id_clear) clocks))"
proof -
  have s: "sorted_wrt (<) (map wire_rank (send_run long_form (pid_send packet_id_clear) clocks))"
    using send_run_sorted [of "pid_send packet_id_clear" clocks long_form] assms
    by (simp add: list_all_iff packet_id_clear_def)
  then have "distinct (map wire_rank (send_run long_form (pid_send packet_id_clear) clocks))"
    by (simp add: strict_sorted_iff)
  with s show ?thesis by (simp add: distinct_map)
qed

theorem sender_ids_unique_witness:
  "distinct (send_run True (pid_send packet_id_clear) [5, 3, 7])"
  using sender_ids_unique [of "[5, 3, 7]" True] by simp

subsection \<open>The wire format\<close>

lemma uint_wire_time: "0 \<le> t \<Longrightarrow> t < 2 ^ 32 \<Longrightarrow> uint (word_of_int t :: u32) = t"
  by (simp add: uint_word_of_int)

lemma packet_id_read_content:
  assumes "buf_ok b" "content b = be32 i @ (if lf then be32 t else []) @ rest"
  shows "\<exists>b'. packet_id_read b lf =
      Some (\<lparr>net_id = i, net_time = if lf then uint t else 0\<rparr>, b', True) \<and> buf_ok b' \<and> content b' = rest"
proof -
  have "4 = int (length (be32 i))" by simp
  with assms obtain b1 where b1: "buf_read b 4 = Some (b1, Some (be32 i))" "buf_ok b1"
    "content b1 = (if lf then be32 t else []) @ rest" "tailroom b1 = tailroom b"
    "headroom b1 = headroom b + length (be32 i)"
    by (rule buf.get_front)
  show ?thesis
  proof (cases lf)
    case False
    then show ?thesis using b1 by (simp add: packet_id_read_def Let_def)
  next
    case True
    have "content b1 = be32 t @ rest" "4 = int (length (be32 t))" using True b1(3) by simp_all
    with b1(2) obtain b2 where b2: "buf_read b1 4 = Some (b2, Some (be32 t))" "buf_ok b2"
      "content b2 = rest" "tailroom b2 = tailroom b1" "headroom b2 = headroom b1 + length (be32 t)"
      by (rule buf.get_front)
    then show ?thesis using True b1(1) by (simp add: packet_id_read_def Let_def)
  qed
qed

lemma packet_id_write_content:
  assumes "buf_ok b" "packet_id_send_update now p lf = (p', True)"
    and "packet_id_size lf \<le> int (if pre then headroom b else tailroom b)"
  defines "wire \<equiv> be32 (send_id p') @ (if lf then be32 (word_of_int (send_time p')) else [])"
  shows "\<exists>b'. packet_id_write now p b lf pre = Some (p', b', True) \<and> buf_ok b' \<and>
    content b' = (if pre then wire @ content b else content b @ wire)"
proof (cases pre)
  case True
  define t where "t = be32 (word_of_int (send_time p'))"
  have room: "4 + (if lf then 4 else 0) \<le> headroom b" "length t = 4"
    using assms(3) True by (auto simp: packet_id_size_def t_def split: if_splits)
  have "\<exists>b1. (if lf then buf_write_prepend b t else Some (b, True)) = Some (b1, True) \<and> buf_ok b1 \<and>
     content b1 = (if lf then t @ content b else content b) \<and> 4 \<le> headroom b1"
    using buf.push_law [OF assms(1), of t] room assms(1) by auto
  then obtain b1 where b1: "(if lf then buf_write_prepend b t else Some (b, True)) = Some (b1, True)"
    "buf_ok b1" "content b1 = (if lf then t @ content b else content b)" "4 \<le> headroom b1" by blast
  have "length (be32 (send_id p')) \<le> headroom b1" using b1(4) by simp
  with b1(2) obtain b2 where b2: "buf_write_prepend b1 (be32 (send_id p')) = Some (b2, True)" "buf_ok b2"
    "content b2 = be32 (send_id p') @ content b1" "tailroom b2 = tailroom b1"
    "headroom b2 = headroom b1 - length (be32 (send_id p'))"
    by (rule buf.push_fits)
  have "packet_id_write now p b lf pre = Some (p', b2, True)"
    using b1(1) b2(1) True by (simp add: packet_id_write_def assms(2) Let_def flip: t_def)
  then show ?thesis using b1(3) b2(2,3) True by (simp add: wire_def t_def)
next
  case False
  define t where "t = be32 (word_of_int (send_time p'))"
  have room: "4 + (if lf then 4 else 0) \<le> tailroom b" "length t = 4"
    using assms(3) False by (auto simp: packet_id_size_def t_def split: if_splits)
  have "length (be32 (send_id p')) \<le> tailroom b" using room by simp
  with assms(1) obtain b1 where b1: "buf_write b (be32 (send_id p')) = Some (b1, True)" "buf_ok b1"
    "content b1 = content b @ be32 (send_id p')" "tailroom b1 = tailroom b - length (be32 (send_id p'))"
    "headroom b1 = headroom b"
    by (rule buf.put_fits)
  have "\<exists>b2. (if lf then buf_write b1 t else Some (b1, True)) = Some (b2, True) \<and> buf_ok b2 \<and>
      content b2 = content b1 @ (if lf then t else [])"
    using buf.put_law [OF b1(2), of t] room b1 by auto
  then obtain b2 where b2: "(if lf then buf_write b1 t else Some (b1, True)) = Some (b2, True)" "buf_ok b2"
      "content b2 = content b1 @ (if lf then t else [])" by blast
  have "packet_id_write now p b lf pre = Some (p', b2, True)"
    using b1(1) b2(1) False by (auto simp: packet_id_write_def assms(2) Let_def simp flip: t_def)
  then show ?thesis using b1(3) b2(2,3) False by (simp add: wire_def t_def)
qed

text \<open>
  C16. A packet id written into a packet is read back: \<open>packet_id_read\<close> inverts
  \<open>packet_id_write\<close>, in the short and the long form, whether the id is put in front of the packet
  (\<open>prepend\<close>, which the control channel and CBC use) or behind what the buffer holds (AEAD,
  tls-crypt, OFB and CFB); there the reader first skips what was before it. What was in the
  buffer is left as it was.
\<close>

theorem packet_id_roundtrip:
  assumes "buf_ok b" "packet_id_send_update now p lf = (p', True)"
    and "packet_id_size lf \<le> int (if pre then headroom b else tailroom b)"
    and "0 \<le> send_time p'" "send_time p' < 2 ^ 32"
  shows "\<exists>b1 b2 b3. packet_id_write now p b lf pre = Some (p', b1, True) \<and>
    (if pre then b2 = b1 else buf_read b1 (int (length (content b))) = Some (b2, Some (content b))) \<and>
    packet_id_read b2 lf =
      Some (\<lparr>net_id = send_id p', net_time = if lf then send_time p' else 0\<rparr>, b3, True) \<and>
    buf_ok b3 \<and> content b3 = (if pre then content b else [])"
proof -
  define ids where "ids = be32 (send_id p') @ (if lf then be32 (word_of_int (send_time p')) else [])"
  obtain b1 where b1: "packet_id_write now p b lf pre = Some (p', b1, True)" "buf_ok b1"
    "content b1 = (if pre then ids @ content b else content b @ ids)"
    using packet_id_write_content [OF assms(1-3)] by (auto simp: ids_def)
  define rest where "rest = (if pre then content b else [])"
  have "\<exists>b2. (if pre then b2 = b1 else buf_read b1 (int (length (content b))) = Some (b2, Some (content b))) \<and>
      buf_ok b2 \<and> content b2 = ids @ rest"
  proof (cases pre)
    case True
    then show ?thesis using b1 by (simp add: rest_def)
  next
    case False
    then have "content b1 = content b @ ids" using b1(3) by simp
    with b1(2) obtain b2 where "buf_read b1 (int (length (content b))) = Some (b2, Some (content b))"
      "buf_ok b2" "content b2 = ids" "tailroom b2 = tailroom b1"
      "headroom b2 = headroom b1 + length (content b)"
      using buf.get_front by metis
    then show ?thesis using False by (simp add: rest_def)
  qed
  then obtain b2 where b2:
    "if pre then b2 = b1 else buf_read b1 (int (length (content b))) = Some (b2, Some (content b))"
    "buf_ok b2" "content b2 = be32 (send_id p') @ (if lf then be32 (word_of_int (send_time p')) else []) @ rest"
    by (auto simp: ids_def)
  obtain b3 where "packet_id_read b2 lf = Some (\<lparr>net_id = send_id p',
      net_time = if lf then uint (word_of_int (send_time p') :: u32) else 0\<rparr>, b3, True)"
    "buf_ok b3" "content b3 = rest"
    using packet_id_read_content [OF b2(2,3)] by blast
  then show ?thesis using b1(1) b2(1) unfolding uint_wire_time [OF assms(4,5)] rest_def by blast
qed

theorem packet_id_roundtrip_witness:
  "(\<exists>b1 b2. packet_id_write 77 \<lparr>send_id = 4, send_time = 0\<rparr>
      \<lparr>b_capacity = 17, b_offset = 8, b_len = 1, b_data = Some (replicate 17 6)\<rparr> True True =
      Some (\<lparr>send_id = 5, send_time = 77\<rparr>, b1, True) \<and>
    packet_id_read b1 True = Some (\<lparr>net_id = 5, net_time = 77\<rparr>, b2, True) \<and> content b2 = [6]) \<and>
   (\<exists>b1 b2 b3. packet_id_write 77 \<lparr>send_id = 4, send_time = 0\<rparr>
      \<lparr>b_capacity = 17, b_offset = 8, b_len = 1, b_data = Some (replicate 17 6)\<rparr> True False =
      Some (\<lparr>send_id = 5, send_time = 77\<rparr>, b1, True) \<and> buf_read b1 1 = Some (b2, Some [6]) \<and>
    packet_id_read b2 True = Some (\<lparr>net_id = 5, net_time = 77\<rparr>, b3, True) \<and> content b3 = [])"
proof -
  define b where "b = \<lparr>b_capacity = 17, b_offset = 8, b_len = 1, b_data = Some (replicate 17 (6 :: byte))\<rparr>"
  have ok: "buf_ok b" by (simp add: buf_ok_def BUF_SIZE_MAX_def b_def)
  have up: "packet_id_send_update 77 \<lparr>send_id = 4, send_time = 0\<rparr> True =
      (\<lparr>send_id = 5, send_time = 77\<rparr>, True)"
    by (simp add: packet_id_send_update_def PACKET_ID_MAX_def)
  have con: "content b = [6]" by (simp add: content_def b_def)
  have room: "packet_id_size True \<le> int (if pre then headroom b else tailroom b)" for pre
    by (simp add: packet_id_size_def b_def tailroom_def)
  note rt = packet_id_roundtrip [OF ok up room]
  show ?thesis unfolding b_def [symmetric]
    using rt [of True] rt [of False] by (simp add: con) blast
qed

subsection \<open>Persistence\<close>

text \<open>A session that starts from the replay state of an earlier one, as tls_init or static-key
  set-up does: a fresh \<open>packet_id\<close>, then \<open>packet_id_persist_load_obj\<close>.\<close>

definition resumed :: "int \<Rightarrow> int \<Rightarrow> packet_id_persist \<Rightarrow> crypto_options option" where
  "resumed sb tb pp = do {
     pid \<leftarrow> packet_id_init sb tb;
     Some \<lparr>co_packet_id = packet_id_persist_load_obj (Some pp) pid, co_pid_persist = Some pp,
           co_flags = CO_PACKET_ID_LONG_FORM\<rparr>
   }"

text \<open>
  C17. A session resumed from the replay state of an earlier one, in UDP and in TCP mode: every
  history of packets is processed without a fault and without accepting a key twice, and until
  its first acceptance, whatever it has rejected before, the session rejects everything that is
  not newer than the last packet of the earlier session; in TCP mode also after it.
\<close>

theorem resumed_rejects_old:
  assumes "resumed sb tb pp = Some opt" "pp_fd pp \<ge> 0" "pp_time pp \<noteq> 0"
    and "list_all (\<lambda>(now, pin). 1 < now) evs"
  shows "\<exists>opt' ks. replay_run opt evs = Some (opt', ks) \<and> distinct ks \<and>
    (ks \<noteq> [] \<longrightarrow> newer (pp_time pp, pp_id pp) (hd ks)) \<and>
    (sb = 0 \<longrightarrow> list_all (newer (pp_time pp, pp_id pp)) ks)"
proof -
  obtain pid where pid: "packet_id_init sb tb = Some pid"
    "opt_rec opt = (pid_rec pid)\<lparr>rec_time := pp_time pp, rec_id := pp_id pp\<rparr>"
    using assms(1-3) by (auto simp: resumed_def packet_id_persist_load_obj_def
        packet_id_persist_enabled_def split: bind_splits)
  have key: "rec_key (opt_rec opt) = (pp_time pp, pp_id pp)" by (simp add: pid(2))
  show ?thesis
  proof (cases "sb = 0")
    case True
    then have "lin_inv (opt_rec opt)"
      using packet_id_init_linear [of tb pid] pid by (simp add: lin_inv_def)
    then obtain opt' ks where "replay_run opt evs = Some (opt', ks)" "distinct ks"
      "list_all (newer (pp_time pp, pp_id pp)) ks"
      using replay_run_linear [of opt evs] by (auto simp only: key)
    then show ?thesis by (cases ks) simp_all
  next
    case False
    then have "res_inv (opt_rec opt)" using packet_id_init_resumed [OF pid(1)] pid(2) by simp
    then obtain opt' ks where "replay_run opt evs = Some (opt', ks)" "distinct ks"
      "ks \<noteq> [] \<longrightarrow> newer (pp_time pp, pp_id pp) (hd ks)"
      using replay_run_resumed [OF _ assms(4), of opt] by (auto simp only: key)
    then show ?thesis using False by blast
  qed
qed

theorem resumed_rejects_old_witness:
  "\<exists>opt opt' ks. resumed 4 15 \<lparr>pp_fd = 3, pp_time = 1000, pp_id = 100, time_last_written = 0,
      id_last_written = 0\<rparr> = Some opt \<and>
    replay_run opt [(1001, \<lparr>net_id = 99, net_time = 1000\<rparr>), (1002, \<lparr>net_id = 100, net_time = 1000\<rparr>)] =
      Some (opt', ks) \<and> distinct ks \<and> \<not> (ks \<noteq> [] \<and> \<not> newer (1000, 100) (hd ks))"
proof -
  obtain opt where "resumed 4 15 \<lparr>pp_fd = 3, pp_time = 1000, pp_id = 100, time_last_written = 0,
      id_last_written = 0\<rparr> = Some opt"
    by (simp add: resumed_def sample_init)
  with resumed_rejects_old [OF this, of "[(1001, \<lparr>net_id = 99, net_time = 1000\<rparr>),
      (1002, \<lparr>net_id = 100, net_time = 1000\<rparr>)]"]
  show ?thesis by simp blast
qed

definition fresh_persist :: packet_id_persist where
  "fresh_persist = \<lparr>pp_fd = 3, pp_time = 0, pp_id = 0, time_last_written = 0, id_last_written = 0\<rparr>"

text \<open>
  Once it accepts a packet, a resumed session forgets what the earlier one had seen: the
  first acceptance re-opens the window below the persisted id, and a packet that the earlier
  session had accepted (here id 100 of time 1000) is accepted again.
\<close>

theorem persist_window_forgotten:
  "do {
     opt \<leftarrow> resumed 4 15 fresh_persist;
     (opt, ks) \<leftarrow> replay_run opt [(1000, \<lparr>net_id = 100, net_time = 1000\<rparr>)];
     pp \<leftarrow> co_pid_persist opt;
     opt \<leftarrow> resumed 4 15 pp;
     (opt, ks') \<leftarrow> replay_run opt [(1001, \<lparr>net_id = 100, net_time = 1000\<rparr>),
       (1002, \<lparr>net_id = 101, net_time = 1000\<rparr>), (1003, \<lparr>net_id = 100, net_time = 1000\<rparr>)];
     Some (ks, ks')
   } = Some ([(1000, 100)], [(1000, 101), (1000, 100)])"
  by code_simp

end
