(* ===== verification/Session_Id.thy ===== *)
theory Session_Id
  imports Buffer
begin

text \<open>
  session_id.h: the 8-byte identifier of a TLS session and its transfer to and from a buffer.
\<close>

record session_id =
  sid_id :: "byte list"

definition SID_SIZE :: int where "SID_SIZE = 8"

definition x_session_id_zero :: session_id where
  "x_session_id_zero = \<lparr>sid_id = replicate 8 0\<rparr>"

definition session_id_equal :: "session_id \<Rightarrow> session_id \<Rightarrow> bool" where
  "session_id_equal sid1 sid2 \<longleftrightarrow> sid_id sid1 = sid_id sid2"

definition session_id_defined :: "session_id \<Rightarrow> bool" where
  "session_id_defined sid1 \<longleftrightarrow> sid_id sid1 \<noteq> sid_id x_session_id_zero"

definition session_id_read :: "session_id \<Rightarrow> buffer \<Rightarrow> (session_id \<times> buffer \<times> bool) option" where
  "session_id_read sid buf = do {
     (buf, r) \<leftarrow> buf_read buf SID_SIZE;
     Some (case r of None \<Rightarrow> (sid, buf, False) | Some bs \<Rightarrow> (sid\<lparr>sid_id := bs\<rparr>, buf, True))
   }"

definition session_id_write_prepend :: "session_id \<Rightarrow> buffer \<Rightarrow> (buffer \<times> bool) option" where
  "session_id_write_prepend sid buf = buf_write_prepend buf (sid_id sid)"

definition session_id_write :: "session_id \<Rightarrow> buffer \<Rightarrow> (buffer \<times> bool) option" where
  "session_id_write sid buf = buf_write buf (sid_id sid)"

definition sid_ok :: "session_id \<Rightarrow> bool" where
  "sid_ok sid \<longleftrightarrow> length (sid_id sid) = 8"

end
