(* ===== verification/Reliable.thy ===== *)
theory Reliable
  imports Session_Id Integer_Util
begin

text \<open>
  reliable.h and reliable.c: the reliability layer of the control channel. \<open>struct reliable_ack\<close>
  collects packet ids to acknowledge, \<open>struct reliable\<close> holds the packets that wait for an
  acknowledgement (sender) or for their turn (receiver). A pointer to the buffer of an entry is
  the index of the entry. The last part is the use that ssl.c makes of the layer. The clock
  \<open>now\<close> is an argument; log messages are not modelled.
\<close>

subsection \<open>State\<close>

definition RELIABLE_ACK_SIZE :: int where "RELIABLE_ACK_SIZE = 8"
definition RELIABLE_CAPACITY :: int where "RELIABLE_CAPACITY = 8"
definition BIG_TIMEOUT :: int where "BIG_TIMEOUT = 60 * 60 * 24 * 7"

record reliable_ack =
  ra_len :: int
  ra_packet_id :: "u32 list"

record reliable_entry =
  e_active :: bool
  e_timeout :: int
  e_next_try :: time_t
  e_packet_id :: u32
  e_opcode :: int
  e_buf :: buffer

record reliable =
  r_size :: int
  r_initial_timeout :: int
  r_packet_id :: u32
  r_offset :: int
  r_hold :: bool
  r_array :: "reliable_entry list"

definition clear_entry :: reliable_entry where
  "clear_entry = \<lparr>e_active = False, e_timeout = 0, e_next_try = 0, e_packet_id = 0, e_opcode = 0,
     e_buf = clear_buf\<rparr>"

text \<open>The entries that the loops visit, and the update of one of them.\<close>

definition rel_entries :: "reliable \<Rightarrow> reliable_entry list" where
  "rel_entries rel = take (nat (r_size rel)) (r_array rel)"

definition rel_upd :: "reliable \<Rightarrow> nat \<Rightarrow> (reliable_entry \<Rightarrow> reliable_entry) \<Rightarrow> reliable" where
  "rel_upd rel i f = rel\<lparr>r_array := (r_array rel)[i := f (r_array rel ! i)]\<rparr>"

text \<open>The loops that stop at the first entry with a property return its index.\<close>

fun first_entry :: "(reliable_entry \<Rightarrow> bool) \<Rightarrow> reliable_entry list \<Rightarrow> nat option" where
  "first_entry P [] = None"
| "first_entry P (e # es) = (if P e then Some 0 else map_option Suc (first_entry P es))"

subsection \<open>Comparing packet ids\<close>

definition reliable_pid_in_range1 :: "u32 \<Rightarrow> u32 \<Rightarrow> u32 \<Rightarrow> bool" where
  "reliable_pid_in_range1 test base extent =
     (if test \<ge> base then test - base < extent
      else (test + 0x80000000) - (base + 0x80000000) < extent)"

definition reliable_pid_in_range2 :: "u32 \<Rightarrow> u32 \<Rightarrow> u32 \<Rightarrow> bool" where
  "reliable_pid_in_range2 test base extent =
     (if base + extent \<ge> base then test < base + extent
      else test + 0x80000000 < (base + 0x80000000) + extent)"

definition reliable_pid_min :: "u32 \<Rightarrow> u32 \<Rightarrow> bool" where
  "reliable_pid_min p1 p2 \<longleftrightarrow> \<not> reliable_pid_in_range1 p1 p2 0x80000000"

subsection \<open>Acknowledgement records\<close>

definition reliable_ack_packet_id_present :: "reliable_ack \<Rightarrow> u32 \<Rightarrow> bool" where
  "reliable_ack_packet_id_present ack pid \<longleftrightarrow>
     list_ex (\<lambda>p. p = pid) (take (nat (ra_len ack)) (ra_packet_id ack))"

definition reliable_ack_empty :: "reliable_ack \<Rightarrow> bool" where
  "reliable_ack_empty ack \<longleftrightarrow> ra_len ack = 0"

definition reliable_ack_read_packet_id ::
  "buffer \<Rightarrow> u32 \<Rightarrow> (buffer \<times> u32 \<times> bool) option" where
  "reliable_ack_read_packet_id buf pid = do {
     (buf, r) \<leftarrow> buf_read buf 4;
     Some (case r of None \<Rightarrow> (buf, pid, False) | Some bs \<Rightarrow> (buf, be32_dec bs, True))
   }"

text \<open>\<open>ack->packet_id[ack->len++] = pid\<close>\<close>

definition ack_push :: "reliable_ack \<Rightarrow> u32 \<Rightarrow> reliable_ack option" where
  "ack_push ack pid = do {
     c_assert (0 \<le> ra_len ack \<and> ra_len ack < int (length (ra_packet_id ack)));
     Some (ack\<lparr>ra_packet_id := (ra_packet_id ack)[nat (ra_len ack) := pid], ra_len := ra_len ack + 1\<rparr>)
   }"

definition reliable_ack_acknowledge_packet_id ::
  "reliable_ack \<Rightarrow> u32 \<Rightarrow> (reliable_ack \<times> bool) option" where
  "reliable_ack_acknowledge_packet_id ack pid =
     (if \<not> reliable_ack_packet_id_present ack pid \<and> ra_len ack < RELIABLE_ACK_SIZE
      then do { ack \<leftarrow> ack_push ack pid; Some (ack, True) }
      else Some (ack, False))"

fun ack_read_ids :: "nat \<Rightarrow> reliable_ack \<Rightarrow> buffer \<Rightarrow> (reliable_ack \<times> buffer \<times> bool) option" where
  "ack_read_ids 0 ack buf = Some (ack, buf, True)"
| "ack_read_ids (Suc n) ack buf = do {
     (buf, r) \<leftarrow> buf_read buf 4;
     case r of
       None \<Rightarrow> Some (ack, buf, False)
     | Some net_pid \<Rightarrow>
         if ra_len ack \<ge> RELIABLE_ACK_SIZE then Some (ack, buf, False)
         else do {
           ack \<leftarrow> ack_push ack (be32_dec net_pid);
           ack_read_ids n ack buf
         }
   }"

definition reliable_ack_read ::
  "reliable_ack \<Rightarrow> buffer \<Rightarrow> session_id \<Rightarrow> (reliable_ack \<times> buffer \<times> bool) option" where
  "reliable_ack_read ack buf sid = do {
     (buf, r) \<leftarrow> buf_read buf 1;
     case r of
       None \<Rightarrow> Some (ack, buf, False)
     | Some bs \<Rightarrow>
         (let count = hd bs in do {
            (ack, buf, ok) \<leftarrow> ack_read_ids (unat count) ack buf;
            if \<not> ok then Some (ack, buf, False)
            else if count \<noteq> 0 then do {
              (remote, buf, ok) \<leftarrow> session_id_read x_session_id_zero buf;
              if \<not> ok then Some (ack, buf, False)
              else if \<not> session_id_defined remote \<or> \<not> session_id_equal remote sid
              then Some (ack, buf, False)
              else Some (ack, buf, True)
            } else Some (ack, buf, True)
          })
   }"

definition ACK_SIZE :: "int \<Rightarrow> int" where
  "ACK_SIZE n = 1 + (if n \<noteq> 0 then SID_SIZE else 0) + 4 * n"

text \<open>The first loop of \<open>reliable_ack_write\<close>: the ids \<open>i\<close> to \<open>n - 1\<close> into the sub-buffer.\<close>

function ack_write_ids :: "nat \<Rightarrow> nat \<Rightarrow> u32 list \<Rightarrow> buffer \<Rightarrow> buffer option" where
  "ack_write_ids i n ids sub =
     (if i < n then do {
        c_assert (i < length ids);
        (sub, ok) \<leftarrow> buf_write sub (be32 (ids ! i));
        c_assert ok;
        ack_write_ids (Suc i) n ids sub
      } else Some sub)"
  by pat_completeness auto
termination by (relation "measure (\<lambda>(i, n, ids, sub). n - i)") auto

declare ack_write_ids.simps [simp del]

text \<open>The second loop: move what was not written to the front. It returns the new length.\<close>

function ack_shift :: "nat \<Rightarrow> nat \<Rightarrow> nat \<Rightarrow> u32 list \<Rightarrow> (nat \<times> u32 list) option" where
  "ack_shift i j len ids =
     (if j < len then do {
        c_assert (j < length ids);
        ack_shift (Suc i) (Suc j) len (ids[i := ids ! j])
      } else Some (i, ids))"
  by pat_completeness auto
termination by (relation "measure (\<lambda>(i, j, len, ids). len - j)") auto

declare ack_shift.simps [simp del]

definition reliable_ack_write ::
  "reliable_ack \<Rightarrow> buffer \<Rightarrow> session_id \<Rightarrow> int \<Rightarrow> bool \<Rightarrow> (reliable_ack \<times> buffer \<times> bool) option" where
  "reliable_ack_write ack buf sid max_n prepend =
     (let n = (word_of_int (ra_len ack) :: byte);
          n = (if uint n > max_n then word_of_int max_n else n) in do {
        (buf, sub, p) \<leftarrow> buf_sub buf (ACK_SIZE (uint n)) prepend;
        if \<not> buf_defined sub then Some (ack, buf, False)
        else do {
          (sub, ok) \<leftarrow> buf_write sub [n];
          c_assert ok;
          sub \<leftarrow> ack_write_ids 0 (unat n) (ra_packet_id ack) sub;
          (ack, sub) \<leftarrow>
            (if n \<noteq> 0 then do {
               c_assert (session_id_defined sid);
               (sub, ok) \<leftarrow> session_id_write sid sub;
               c_assert ok;
               (i, ids) \<leftarrow> ack_shift 0 (unat n) (nat (ra_len ack)) (ra_packet_id ack);
               Some (ack\<lparr>ra_packet_id := ids, ra_len := int i\<rparr>, sub)
             } else Some (ack, sub));
          buf \<leftarrow> buf_sub_put buf p sub;
          Some (ack, buf, True)
        }
      })"

subsection \<open>Set-up and tests\<close>

definition reliable_init :: "int \<Rightarrow> int \<Rightarrow> int \<Rightarrow> bool \<Rightarrow> reliable option" where
  "reliable_init buf_size offset array_size hold = do {
     c_assert (array_size > 0 \<and> array_size \<le> RELIABLE_CAPACITY);
     b \<leftarrow> alloc_buf buf_size;
     let (b, ok) = buf_init b offset;
     c_assert ok;
     let used = replicate (nat array_size) (clear_entry\<lparr>e_buf := b\<rparr>);
     Some \<lparr>r_size = array_size, r_initial_timeout = 0, r_packet_id = 0, r_offset = offset,
           r_hold = hold,
           r_array = used @ replicate (nat (RELIABLE_CAPACITY - array_size)) clear_entry\<rparr>
   }"

definition reliable_free :: "reliable \<Rightarrow> reliable" where
  "reliable_free rel = rel\<lparr>r_array :=
     map (\<lambda>e. e\<lparr>e_buf := free_buf (e_buf e)\<rparr>) (rel_entries rel) @ drop (nat (r_size rel)) (r_array rel)\<rparr>"

definition reliable_set_timeout :: "reliable \<Rightarrow> int \<Rightarrow> reliable" where
  "reliable_set_timeout rel timeout = rel\<lparr>r_initial_timeout := timeout\<rparr>"

definition reliable_empty :: "reliable \<Rightarrow> bool" where
  "reliable_empty rel \<longleftrightarrow> first_entry e_active (rel_entries rel) = None"

definition reliable_can_get :: "reliable \<Rightarrow> bool" where
  "reliable_can_get rel \<longleftrightarrow> first_entry (\<lambda>e. \<not> e_active e) (rel_entries rel) \<noteq> None"

definition reliable_not_replay :: "reliable \<Rightarrow> u32 \<Rightarrow> bool" where
  "reliable_not_replay rel i =
     (if reliable_pid_min i (r_packet_id rel) then False
      else first_entry (\<lambda>e. e_active e \<and> e_packet_id e = i) (rel_entries rel) = None)"

definition reliable_wont_break_sequentiality :: "reliable \<Rightarrow> u32 \<Rightarrow> bool" where
  "reliable_wont_break_sequentiality rel i =
     reliable_pid_in_range2 i (r_packet_id rel) (word_of_int (r_size rel))"

subsection \<open>Purging what was acknowledged\<close>

fun purge_ids :: "reliable \<Rightarrow> u32 list \<Rightarrow> reliable" where
  "purge_ids rel [] = rel"
| "purge_ids rel (pid # pids) =
     (case first_entry (\<lambda>e. e_active e \<and> e_packet_id e = pid) (rel_entries rel) of
        None \<Rightarrow> purge_ids rel pids
      | Some j \<Rightarrow> purge_ids (rel_upd rel j (\<lambda>e. e\<lparr>e_active := False\<rparr>)) pids)"

definition reliable_send_purge :: "reliable \<Rightarrow> reliable_ack \<Rightarrow> reliable" where
  "reliable_send_purge rel ack = purge_ids rel (take (nat (ra_len ack)) (ra_packet_id ack))"

subsection \<open>Getting buffers\<close>

definition reliable_get_buf :: "reliable \<Rightarrow> (reliable \<times> nat option) option" where
  "reliable_get_buf rel =
     (case first_entry (\<lambda>e. \<not> e_active e) (rel_entries rel) of
        None \<Rightarrow> Some (rel, None)
      | Some i \<Rightarrow>
          (let (b, ok) = buf_init (e_buf (r_array rel ! i)) (r_offset rel) in do {
             c_assert ok;
             Some (rel_upd rel i (\<lambda>e. e\<lparr>e_buf := b\<rparr>), Some i)
           }))"

fun min_active :: "reliable_entry list \<Rightarrow> u32 option \<Rightarrow> u32 option" where
  "min_active [] m = m"
| "min_active (e # es) m =
     min_active es
       (if e_active e \<and> (m = None \<or> reliable_pid_min (e_packet_id e) (the m))
        then Some (e_packet_id e) else m)"

definition reliable_get_buf_output_sequenced :: "reliable \<Rightarrow> (reliable \<times> nat option) option" where
  "reliable_get_buf_output_sequenced rel =
     (let min_id = min_active (rel_entries rel) None in
      if min_id = None
         \<or> reliable_pid_in_range1 (r_packet_id rel) (the min_id) (word_of_int (r_size rel))
      then reliable_get_buf rel else Some (rel, None))"

definition reliable_get_buf_sequenced :: "reliable \<Rightarrow> nat option" where
  "reliable_get_buf_sequenced rel =
     first_entry (\<lambda>e. e_active e \<and> e_packet_id e = r_packet_id rel) (rel_entries rel)"

subsection \<open>Sending and resending\<close>

fun count_due :: "time_t \<Rightarrow> reliable_entry list \<Rightarrow> int \<times> int" where
  "count_due now [] = (0, 0)"
| "count_due now (e # es) =
     (case count_due now es of (n_active, n_current) \<Rightarrow>
        if e_active e
        then (n_active + 1, if now \<ge> e_next_try e then n_current + 1 else n_current)
        else (n_active, n_current))"

definition reliable_can_send :: "time_t \<Rightarrow> reliable \<Rightarrow> bool" where
  "reliable_can_send now rel =
     (case count_due now (rel_entries rel) of (n_active, n_current) \<Rightarrow>
        n_current > 0 \<and> \<not> r_hold rel)"

fun best_due :: "time_t \<Rightarrow> nat \<Rightarrow> reliable_entry list \<Rightarrow> (nat \<times> u32) option \<Rightarrow> (nat \<times> u32) option" where
  "best_due now i [] best = best"
| "best_due now i (e # es) best =
     best_due now (Suc i) es
       (if e_active e \<and> now \<ge> e_next_try e
           \<and> (best = None \<or> reliable_pid_min (e_packet_id e) (snd (the best)))
        then Some (i, e_packet_id e) else best)"

text \<open>The result is the entry to send and its opcode. \<open>EXPONENTIAL_BACKOFF\<close> is defined.\<close>

definition reliable_send :: "time_t \<Rightarrow> reliable \<Rightarrow> reliable \<times> (nat \<times> int) option" where
  "reliable_send now rel =
     (case best_due now 0 (rel_entries rel) None of
        None \<Rightarrow> (rel, None)
      | Some (i, _) \<Rightarrow>
          (rel_upd rel i (\<lambda>e. e\<lparr>e_next_try := now + e_timeout e, e_timeout := e_timeout e * 2\<rparr>),
           Some (i, e_opcode (r_array rel ! i))))"

definition reliable_schedule_now :: "time_t \<Rightarrow> reliable \<Rightarrow> reliable" where
  "reliable_schedule_now now rel = rel\<lparr>r_hold := False, r_array :=
     map (\<lambda>e. if e_active e then e\<lparr>e_next_try := now, e_timeout := r_initial_timeout rel\<rparr> else e)
       (rel_entries rel) @ drop (nat (r_size rel)) (r_array rel)\<rparr>"

fun send_timeout :: "time_t \<Rightarrow> reliable_entry list \<Rightarrow> int \<Rightarrow> int" where
  "send_timeout now [] ret = ret"
| "send_timeout now (e # es) ret =
     (if e_active e
      then (if e_next_try e \<le> now then 0
            else send_timeout now es (min_int ret (e_next_try e - now)))
      else send_timeout now es ret)"

definition reliable_send_timeout :: "time_t \<Rightarrow> reliable \<Rightarrow> int" where
  "reliable_send_timeout now rel = send_timeout now (rel_entries rel) BIG_TIMEOUT"

subsection \<open>Marking entries\<close>

definition reliable_mark_active_incoming ::
  "reliable \<Rightarrow> nat \<Rightarrow> u32 \<Rightarrow> int \<Rightarrow> reliable option" where
  "reliable_mark_active_incoming rel i pid opcode = do {
     c_assert (i < length (rel_entries rel));
     c_assert (\<not> reliable_pid_min pid (r_packet_id rel));
     Some (rel_upd rel i (\<lambda>e. e\<lparr>e_active := True, e_packet_id := pid, e_opcode := opcode,
       e_next_try := 0, e_timeout := 0\<rparr>))
   }"

definition reliable_mark_active_outgoing :: "reliable \<Rightarrow> nat \<Rightarrow> int \<Rightarrow> reliable option" where
  "reliable_mark_active_outgoing rel i opcode = do {
     c_assert (i < length (rel_entries rel));
     let pid = r_packet_id rel;
     (b, ok) \<leftarrow> buf_write_prepend (e_buf (r_array rel ! i)) (be32 pid);
     c_assert ok;
     Some (rel_upd (rel\<lparr>r_packet_id := pid + 1\<rparr>) i
       (\<lambda>e. e\<lparr>e_packet_id := pid, e_buf := b, e_active := True, e_opcode := opcode,
           e_next_try := 0, e_timeout := r_initial_timeout rel\<rparr>))
   }"

definition reliable_mark_deleted :: "reliable \<Rightarrow> nat \<Rightarrow> bool \<Rightarrow> reliable option" where
  "reliable_mark_deleted rel i inc_pid = do {
     c_assert (i < length (rel_entries rel));
     let rel' = rel_upd rel i (\<lambda>e. e\<lparr>e_active := False\<rparr>);
     Some (if inc_pid then rel'\<lparr>r_packet_id := e_packet_id (r_array rel ! i) + 1\<rparr> else rel')
   }"

subsection \<open>Use by the control channel of ssl.c\<close>

text \<open>
  The part of \<open>tls_pre_decrypt\<close> that files an incoming control packet: \<open>buf\<close> starts with the
  packet id. The flag is false when the packet is dropped as too big.
\<close>

definition P_ACK_V1 :: int where "P_ACK_V1 = 5"
definition P_CONTROL_V1 :: int where "P_CONTROL_V1 = 4"

definition tls_incoming_control ::
  "reliable \<Rightarrow> reliable_ack \<Rightarrow> buffer \<Rightarrow> int \<Rightarrow> (reliable \<times> reliable_ack \<times> buffer \<times> bool) option" where
  "tls_incoming_control rec_rel rec_ack buf opcode =
     (if opcode \<noteq> P_ACK_V1 \<and> reliable_can_get rec_rel then do {
        (buf, i, ok) \<leftarrow> reliable_ack_read_packet_id buf 0;
        if ok \<and> reliable_wont_break_sequentiality rec_rel i then do {
          (rec_rel, fits) \<leftarrow>
            (if reliable_not_replay rec_rel i then do {
               (rec_rel, r) \<leftarrow> reliable_get_buf rec_rel;
               inp \<leftarrow> r;
               (b, ok) \<leftarrow> buf_copy (e_buf (r_array rec_rel ! inp)) buf;
               let rec_rel = rel_upd rec_rel inp (\<lambda>e. e\<lparr>e_buf := b\<rparr>);
               if \<not> ok then Some (rec_rel, False)
               else do {
                 rec_rel \<leftarrow> reliable_mark_active_incoming rec_rel inp i opcode;
                 Some (rec_rel, True)
               }
             } else Some (rec_rel, True));
          if \<not> fits then Some (rec_rel, rec_ack, buf, False)
          else do {
            (rec_ack, _) \<leftarrow> reliable_ack_acknowledge_packet_id rec_ack i;
            Some (rec_rel, rec_ack, buf, True)
          }
        } else Some (rec_rel, rec_ack, buf, True)
      } else Some (rec_rel, rec_ack, buf, True))"

text \<open>
  \<open>bio_read\<close> of ssl_openssl.c takes ciphertext from a BIO of OpenSSL, which is a parameter: what
  \<open>BIO_read\<close> answers to a request for a number of bytes.
\<close>

datatype bio_result = Bio_retry | Bio_error | Bio_data "byte list"

definition bio_read :: "(int \<Rightarrow> bio_result) \<Rightarrow> buffer \<Rightarrow> int \<Rightarrow> (buffer \<times> int) option" where
  "bio_read bio buf maxlen = do {
     c_assert (b_len buf \<ge> 0);
     if b_len buf \<noteq> 0 then Some (buf, 0)
     else
       (let len = buf_forward_capacity buf; len = (if maxlen < len then maxlen else len) in
        case bio len of
          Bio_retry \<Rightarrow> Some (buf, 0)
        | Bio_error \<Rightarrow> Some (buf\<lparr>b_len := 0\<rparr>, -1)
        | Bio_data bs \<Rightarrow>
            if bs = [] then Some (buf\<lparr>b_len := 0\<rparr>, 0)
            else do {
              p \<leftarrow> buf_bptr buf;
              buf \<leftarrow> store_at buf p bs;
              Some (buf\<lparr>b_len := int (length bs)\<rparr>, 1)
            })
   }"

text \<open>The step of \<open>tls_process\<close> that queues ciphertext of the TLS object; the result is its status.\<close>

definition tls_outgoing_ciphertext ::
  "reliable \<Rightarrow> (int \<Rightarrow> bio_result) \<Rightarrow> int \<Rightarrow> (reliable \<times> int) option" where
  "tls_outgoing_ciphertext send_rel bio maxlen = do {
     (send_rel, r) \<leftarrow> reliable_get_buf_output_sequenced send_rel;
     case r of
       None \<Rightarrow> Some (send_rel, 0)
     | Some i \<Rightarrow> do {
         (b, status) \<leftarrow> bio_read bio (e_buf (r_array send_rel ! i)) maxlen;
         let send_rel = rel_upd send_rel i (\<lambda>e. e\<lparr>e_buf := b\<rparr>);
         if status = 1 then do {
           send_rel \<leftarrow> reliable_mark_active_outgoing send_rel i P_CONTROL_V1;
           Some (send_rel, status)
         } else Some (send_rel, status)
       }
   }"

text \<open>
  The step of \<open>tls_process\<close> that hands the next packet in sequence to the TLS object; \<open>accept\<close> is
  what \<open>key_state_write_ciphertext\<close> answers (1 when it took the packet). The result lists the
  bytes handed over.
\<close>

definition tls_incoming_ciphertext ::
  "reliable \<Rightarrow> (byte list \<Rightarrow> int) \<Rightarrow> (reliable \<times> byte list option) option" where
  "tls_incoming_ciphertext rec_rel accept =
     (case reliable_get_buf_sequenced rec_rel of
        None \<Rightarrow> Some (rec_rel, None)
      | Some i \<Rightarrow> do {
          bs \<leftarrow> buf_bytes (e_buf (r_array rec_rel ! i));
          let status = (if b_len (e_buf (r_array rec_rel ! i)) \<noteq> 0 then accept bs else 1);
          if status = 1 then do {
            rec_rel \<leftarrow> reliable_mark_deleted rec_rel i True;
            Some (rec_rel, Some bs)
          } else Some (rec_rel, None)
        })"

end
