(* ===== verification/Reliable_Inv.thy ===== *)
theory Reliable_Inv
  imports Reliable
begin

text \<open>
  Invariants of the reliability layer. Packet ids are compared as numbers while fewer than
  2^31 packets have been sent; the operations of reliable.c and their use in ssl.c keep the
  invariants of a sender (\<open>send_inv\<close>) and of a receiver (\<open>rec_inv\<close>).
\<close>

subsection \<open>Packet ids as numbers\<close>

abbreviation pid_of :: "nat \<Rightarrow> u32" where
  "pid_of n \<equiv> word_of_nat n"

lemma unat_pid: "n < 2 ^ 32 \<Longrightarrow> unat (pid_of n) = n"
  by (simp add: unsigned_of_nat take_bit_nat_eq_self)

lemma pid_eq: "m < 2 ^ 32 \<Longrightarrow> n < 2 ^ 32 \<Longrightarrow> pid_of m = pid_of n \<longleftrightarrow> m = n"
  by (metis unat_pid)

text \<open>The first comparison is modular, whichever of the two ids has wrapped.\<close>

lemma in_range1_mod: "reliable_pid_in_range1 test base extent \<longleftrightarrow> test - base < extent"
  by (simp add: reliable_pid_in_range1_def)

lemma unat_pid_diff:
  assumes "m < 2 ^ 31" "n < 2 ^ 31"
  shows "unat (pid_of m - pid_of n) < 2 ^ 31 \<longleftrightarrow> n \<le> m"
proof -
  have "unat (pid_of m) = m" "unat (pid_of n) = n" using assms by (simp_all add: unat_pid)
  then show ?thesis
    using assms by (simp add: unat_sub_if_size word_size) linarith
qed

lemma pid_min_iff:
  "m < 2 ^ 31 \<Longrightarrow> n < 2 ^ 31 \<Longrightarrow> reliable_pid_min (pid_of m) (pid_of n) \<longleftrightarrow> m < n"
  using unat_pid_diff [of m n]
  by (simp add: reliable_pid_min_def in_range1_mod word_less_nat_alt not_le [symmetric])

lemma in_range2_iff:
  assumes "m < 2 ^ 32" "n + k < 2 ^ 32"
  shows "reliable_pid_in_range2 (pid_of m) (pid_of n) (pid_of k) \<longleftrightarrow> m < n + k"
proof -
  have "pid_of n + pid_of k = pid_of (n + k)" by simp
  moreover have "pid_of n \<le> pid_of (n + k)"
    using assms by (simp add: word_le_nat_alt unat_pid del: of_nat_add)
  ultimately show ?thesis
    using assms by (simp add: reliable_pid_in_range2_def word_less_nat_alt unat_pid del: of_nat_add)
qed

subsection \<open>Scans and updates of the entries\<close>

lemma first_entry_Some:
  "first_entry P es = Some i \<Longrightarrow> i < length es \<and> P (es ! i)"
  by (induction es arbitrary: i) (auto split: if_splits)

lemma first_entry_None: "first_entry P es = None \<longleftrightarrow> (\<forall>e \<in> set es. \<not> P e)"
  by (induction es) auto

definition rel_wf :: "int \<Rightarrow> reliable \<Rightarrow> bool" where
  "rel_wf cap rel \<longleftrightarrow> 0 < r_size rel \<and> r_size rel \<le> RELIABLE_CAPACITY \<and>
     int (length (r_array rel)) = RELIABLE_CAPACITY \<and> 4 \<le> r_offset rel \<and> r_offset rel \<le> cap \<and>
     (\<forall>e \<in> set (rel_entries rel). buf_ok (e_buf e) \<and> b_capacity (e_buf e) = cap)"

lemma rel_wf_length:
  "rel_wf cap rel \<Longrightarrow> length (rel_entries rel) = nat (r_size rel)"
  by (auto simp: rel_wf_def rel_entries_def)

lemma rel_entries_nth [simp]:
  "i < length (rel_entries rel) \<Longrightarrow> rel_entries rel ! i = r_array rel ! i"
  by (simp add: rel_entries_def)

lemma rel_entries_upd:
  "i < length (rel_entries rel) \<Longrightarrow>
   rel_entries (rel_upd rel i f) = (rel_entries rel)[i := f (r_array rel ! i)]"
  by (simp add: rel_entries_def rel_upd_def take_update_swap)

lemma rel_entries_pid [simp]: "rel_entries (rel\<lparr>r_packet_id := p\<rparr>) = rel_entries rel"
  by (simp add: rel_entries_def)

lemma rel_upd_fields [simp]:
  "r_size (rel_upd rel i f) = r_size rel" "r_packet_id (rel_upd rel i f) = r_packet_id rel"
  "r_offset (rel_upd rel i f) = r_offset rel" "r_hold (rel_upd rel i f) = r_hold rel"
  "r_initial_timeout (rel_upd rel i f) = r_initial_timeout rel"
  "length (r_array (rel_upd rel i f)) = length (r_array rel)"
  by (simp_all add: rel_upd_def)

lemma length_entries_upd [simp]: "length (rel_entries (rel_upd rel i f)) = length (rel_entries rel)"
  by (simp add: rel_entries_def)

lemma rel_upd_nth [simp]:
  "i < length (rel_entries rel) \<Longrightarrow> r_array (rel_upd rel i f) ! i = f (r_array rel ! i)"
  by (simp add: rel_upd_def rel_entries_def)

lemma rel_upd_upd [simp]:
  "i < length (rel_entries rel) \<Longrightarrow> rel_upd (rel_upd rel i f) i g = rel_upd rel i (g \<circ> f)"
  by (simp add: rel_upd_def rel_entries_def)

lemma rel_wf_upd:
  assumes "rel_wf cap rel" "i < length (rel_entries rel)"
    "buf_ok (e_buf (f (r_array rel ! i)))" "b_capacity (e_buf (f (r_array rel ! i))) = cap"
  shows "rel_wf cap (rel_upd rel i f)"
  using assms set_update_subset_insert [of "rel_entries rel" i "f (r_array rel ! i)"]
  by (auto simp: rel_wf_def rel_entries_upd)

lemma rel_wf_pid [simp]: "rel_wf cap (rel\<lparr>r_packet_id := p\<rparr>) = rel_wf cap rel"
  by (simp add: rel_wf_def)

definition active_at :: "reliable \<Rightarrow> nat \<Rightarrow> bool" where
  "active_at rel i \<longleftrightarrow> i < length (rel_entries rel) \<and> e_active (r_array rel ! i)"

lemma active_upd:
  "i < length (rel_entries rel) \<Longrightarrow>
   active_at (rel_upd rel i f) j = (if j = i then e_active (f (r_array rel ! i)) else active_at rel j)"
  by (simp add: active_at_def) (simp add: rel_upd_def)

lemma array_upd_other [simp]: "j \<noteq> i \<Longrightarrow> r_array (rel_upd rel i f) ! j = r_array rel ! j"
  by (simp add: rel_upd_def)

lemma active_pid [simp]: "active_at (rel\<lparr>r_packet_id := p\<rparr>) i = active_at rel i"
  by (simp add: active_at_def)

lemma rel_wf_entry:
  "rel_wf cap rel \<Longrightarrow> i < length (rel_entries rel) \<Longrightarrow>
   buf_ok (e_buf (r_array rel ! i)) \<and> b_capacity (e_buf (r_array rel ! i)) = cap"
  using nth_mem [of i "rel_entries rel"] by (simp add: rel_wf_def)

subsection \<open>The operations on a well-formed layer\<close>

lemma reliable_get_buf_wf:
  assumes "rel_wf cap rel"
  obtains (full) "reliable_get_buf rel = Some (rel, None)" "\<forall>i < length (rel_entries rel). active_at rel i"
  | (free) i b where "reliable_get_buf rel = Some (rel_upd rel i (\<lambda>e. e\<lparr>e_buf := b\<rparr>), Some i)"
      "i < length (rel_entries rel)" "\<not> active_at rel i" "buf_ok b" "content b = []"
      "headroom b = nat (r_offset rel)" "tailroom b = nat (cap - r_offset rel)" "b_capacity b = cap"
proof (cases "first_entry (\<lambda>e. \<not> e_active e) (rel_entries rel)")
  case None
  then have "\<forall>i < length (rel_entries rel). active_at rel i"
    by (metis active_at_def first_entry_None nth_mem rel_entries_nth)
  with None show thesis by (intro full) (simp_all add: reliable_get_buf_def)
next
  case (Some i)
  then have i: "i < length (rel_entries rel)" "\<not> active_at rel i"
    using first_entry_Some [OF Some] by (auto simp: active_at_def)
  have e: "buf_ok (e_buf (r_array rel ! i))" "b_capacity (e_buf (r_array rel ! i)) = cap"
    "0 \<le> r_offset rel" "r_offset rel \<le> b_capacity (e_buf (r_array rel ! i))"
    using assms rel_wf_entry [OF assms i(1)] by (auto simp: rel_wf_def)
  obtain b where b: "buf_init (e_buf (r_array rel ! i)) (r_offset rel) = (b, True)" "buf_ok b"
    "content b = []" "headroom b = nat (r_offset rel)"
    "tailroom b = nat (b_capacity (e_buf (r_array rel ! i)) - r_offset rel)"
    "b_capacity b = b_capacity (e_buf (r_array rel ! i))"
    using e(1,3,4) by (rule buf_init_ok)
  show thesis
    using Some b i e by (intro free [of i b]) (simp_all add: reliable_get_buf_def)
qed

lemma reliable_init_wf:
  assumes "reliable_init cap off n hold = Some rel" "4 \<le> off"
  shows "rel_wf cap rel" "r_packet_id rel = 0" "\<not> active_at rel i" "r_offset rel = off" "r_size rel = n"
proof -
  have n: "0 < n" "n \<le> 8" using assms(1) by (auto simp: reliable_init_def RELIABLE_CAPACITY_def)
  have cap: "0 \<le> cap" "cap < BUF_SIZE_MAX"
    using assms(1) by (auto simp: reliable_init_def alloc_buf_def buf_size_valid_def)
  obtain b0 where b0: "alloc_buf cap = Some b0" "buf_ok b0" "content b0 = []" "headroom b0 = 0"
    "tailroom b0 = nat cap" "b_capacity b0 = cap"
    using cap by (rule alloc_buf_ok)
  obtain b ok where b: "buf_init b0 off = (b, ok)" by fastforce
  have "off \<le> b_capacity b0" "0 \<le> off"
    using assms b0 b by (auto simp: reliable_init_def buf_init_def Let_def split: if_splits)
  with b0(2) obtain b' where b': "buf_init b0 off = (b', True)" "buf_ok b'" "content b' = []"
    "headroom b' = nat off" "tailroom b' = nat (b_capacity b0 - off)" "b_capacity b' = b_capacity b0"
    using buf_init_ok by blast
  have rel: "rel = \<lparr>r_size = n, r_initial_timeout = 0, r_packet_id = 0, r_offset = off, r_hold = hold,
      r_array = replicate (nat n) (clear_entry\<lparr>e_buf := b'\<rparr>) @ replicate (nat (8 - n)) clear_entry\<rparr>"
    using assms(1) b0(1) b'(1) n by (simp add: reliable_init_def RELIABLE_CAPACITY_def Let_def)
  have ent: "rel_entries rel = replicate (nat n) (clear_entry\<lparr>e_buf := b'\<rparr>)"
    by (simp add: rel rel_entries_def)
  have "rel_wf cap rel \<longleftrightarrow> 0 < n \<and> n \<le> 8 \<and> int (nat n + nat (8 - n)) = 8 \<and> 4 \<le> off \<and> off \<le> cap"
    using b'(2,6) b0(6) by (auto simp: rel_wf_def ent RELIABLE_CAPACITY_def) (auto simp: rel)
  then show "rel_wf cap rel" using n assms(2) \<open>off \<le> b_capacity b0\<close> b0(6) by simp
  show "r_packet_id rel = 0" "r_offset rel = off" "r_size rel = n" by (simp_all add: rel)
  show "\<not> active_at rel i"
    by (auto simp: active_at_def ent) (simp add: rel nth_append clear_entry_def)
qed

lemma nth_update_if: "j < length xs \<Longrightarrow> xs[i := v] ! j = (if j = i then v else xs ! j)"
  by (cases "j = i") simp_all

lemma entries_all:
  "(\<forall>e \<in> set (rel_entries rel). P e) \<longleftrightarrow> (\<forall>i < length (rel_entries rel). P (r_array rel ! i))"
  by (auto simp: all_set_conv_all_nth)

subsection \<open>The sender\<close>

definition held :: "reliable \<Rightarrow> nat \<Rightarrow> bool" where
  "held rel n \<longleftrightarrow> (\<exists>i. active_at rel i \<and> e_packet_id (r_array rel ! i) = pid_of n)"

definition send_inv :: "int \<Rightarrow> int \<Rightarrow> reliable \<Rightarrow> byte list list \<Rightarrow> bool" where
  "send_inv cap off S sent \<longleftrightarrow> rel_wf cap S \<and> r_offset S = off \<and>
     r_packet_id S = pid_of (length sent) \<and>
     (\<forall>i. active_at S i \<longrightarrow> (\<exists>n < length sent. e_packet_id (r_array S ! i) = pid_of n \<and>
        content (e_buf (r_array S ! i)) = be32 (pid_of n) @ sent ! n))"

lemma bio_read_fresh:
  assumes "buf_ok b" "content b = []" "bs \<noteq> []" "length bs \<le> tailroom b" "int (length bs) \<le> maxlen"
  obtains b' where "bio_read (\<lambda>_. Bio_data bs) b maxlen = Some (b', 1)" "buf_ok b'" "content b' = bs"
    "headroom b' = headroom b" "b_capacity b' = b_capacity b"
proof -
  from assms(1,4) obtain b' where b': "buf_write b bs = Some (b', True)" "buf_ok b'" "content b' = content b @ bs"
    "tailroom b' = tailroom b - length bs" "headroom b' = headroom b" "b_capacity b' = b_capacity b"
    by (rule buf_write_room)
  have len: "b_len b = 0" using assms(1,2) by (simp add: buf_ok_len)
  have "buf_safe b (int (length bs))" using assms by (simp add: buf_safe_iff)
  then obtain m where "store_at (b\<lparr>b_len := int (length bs)\<rparr>) (b_offset b) bs = Some b'"
    using b'(1) assms(1) len by (auto simp: buf_write_def buf_write_alloc_def buf_bptr_def)
  then have "\<exists>b2. store_at b (b_offset b) bs = Some b2 \<and> b2\<lparr>b_len := int (length bs)\<rparr> = b'"
    by (auto simp: store_at_def split: bind_splits)
  then have "bio_read (\<lambda>_. Bio_data bs) b maxlen = Some (b', 1)"
    using len assms by (auto simp: bio_read_def buf_bptr_def Let_def)
  with b' assms(2) show thesis by (intro that [of b']) simp_all
qed

lemma send_inv_none:
  "send_inv cap off S sent \<Longrightarrow> reliable_get_buf_output_sequenced S = Some (S, None) \<Longrightarrow>
   tls_outgoing_ciphertext S bio maxlen = Some (S, 0)"
  by (simp add: tls_outgoing_ciphertext_def)

lemma reliable_mark_active_outgoing_wf:
  assumes "rel_wf cap S" "i < length (rel_entries S)" "4 \<le> headroom (e_buf (r_array S ! i))"
  obtains b where "reliable_mark_active_outgoing S i op =
      Some (rel_upd (S\<lparr>r_packet_id := r_packet_id S + 1\<rparr>) i
        (\<lambda>e. e\<lparr>e_packet_id := r_packet_id S, e_buf := b, e_active := True, e_opcode := op,
             e_next_try := 0, e_timeout := r_initial_timeout S\<rparr>))"
    "buf_ok b" "b_capacity b = cap" "content b = be32 (r_packet_id S) @ content (e_buf (r_array S ! i))"
proof -
  have "buf_ok (e_buf (r_array S ! i))" "length (be32 (r_packet_id S)) \<le> headroom (e_buf (r_array S ! i))"
    using rel_wf_entry [OF assms(1,2)] assms(3) by simp_all
  then obtain b where "buf_write_prepend (e_buf (r_array S ! i)) (be32 (r_packet_id S)) = Some (b, True)"
    "buf_ok b" "content b = be32 (r_packet_id S) @ content (e_buf (r_array S ! i))"
    "headroom b = headroom (e_buf (r_array S ! i)) - length (be32 (r_packet_id S))"
    "tailroom b = tailroom (e_buf (r_array S ! i))" "b_capacity b = b_capacity (e_buf (r_array S ! i))"
    by (rule buf_write_prepend_room)
  then show thesis
    using assms(2) rel_wf_entry [OF assms(1,2)]
    by (intro that [of b]) (simp_all add: reliable_mark_active_outgoing_def Let_def)
qed

lemma tls_outgoing_sent:
  assumes inv: "send_inv cap off S sent" and bs: "bs \<noteq> []" "int (length bs) \<le> maxlen"
      "int (length bs) \<le> cap - off"
  shows "\<exists>S' st. tls_outgoing_ciphertext S (\<lambda>_. Bio_data bs) maxlen = Some (S', st) \<and>
    send_inv cap off S' (sent @ (if st = 1 then [bs] else [])) \<and>
    (\<forall>n. held S n \<longrightarrow> held S' n) \<and> (st = 1 \<longrightarrow> held S' (length sent))"
proof -
  have wf: "rel_wf cap S" "r_offset S = off" "r_packet_id S = pid_of (length sent)" "4 \<le> off"
    and act: "\<And>i. active_at S i \<Longrightarrow> \<exists>n < length sent. e_packet_id (r_array S ! i) = pid_of n \<and>
        content (e_buf (r_array S ! i)) = be32 (pid_of n) @ sent ! n"
    using inv by (auto simp: send_inv_def rel_wf_def)
  have cases: "reliable_get_buf_output_sequenced S \<in> {Some (S, None), reliable_get_buf S}"
    by (auto simp: reliable_get_buf_output_sequenced_def Let_def)
  from wf(1) show ?thesis
  proof (cases rule: reliable_get_buf_wf)
    case full
    with cases have "reliable_get_buf_output_sequenced S = Some (S, None)" by auto
    then show ?thesis using send_inv_none [OF inv] inv by auto
  next
    case (free i b)
    show ?thesis
    proof (cases "reliable_get_buf_output_sequenced S = Some (S, None)")
      case True
      then show ?thesis using send_inv_none [OF inv] inv by auto
    next
      case False
      with cases have get: "reliable_get_buf_output_sequenced S = reliable_get_buf S" by auto
      have "length bs \<le> tailroom b" using free(7) bs(3) wf(2) by simp
      with free(4,5) bs(1) obtain b1 where b1: "bio_read (\<lambda>_. Bio_data bs) b maxlen = Some (b1, 1)" "buf_ok b1"
        "content b1 = bs" "headroom b1 = headroom b" "b_capacity b1 = b_capacity b"
        using bs(2) by (rule bio_read_fresh)
      define S1 where "S1 = rel_upd S i (\<lambda>e. e\<lparr>e_buf := b1\<rparr>)"
      have S1: "rel_wf cap S1" "i < length (rel_entries S1)" "4 \<le> headroom (e_buf (r_array S1 ! i))"
        "e_buf (r_array S1 ! i) = b1" "r_packet_id S1 = r_packet_id S"
        using free b1 wf rel_wf_upd [OF wf(1) free(2)] by (simp_all add: S1_def)
      obtain b2 where b2: "reliable_mark_active_outgoing S1 i P_CONTROL_V1 =
          Some (rel_upd (S1\<lparr>r_packet_id := r_packet_id S1 + 1\<rparr>) i
            (\<lambda>e. e\<lparr>e_packet_id := r_packet_id S1, e_buf := b2, e_active := True, e_opcode := P_CONTROL_V1,
                 e_next_try := 0, e_timeout := r_initial_timeout S1\<rparr>))"
        "buf_ok b2" "b_capacity b2 = cap"
        "content b2 = be32 (r_packet_id S1) @ content (e_buf (r_array S1 ! i))"
        using S1(1-3) by (rule reliable_mark_active_outgoing_wf)
      define S2 where "S2 = rel_upd (S1\<lparr>r_packet_id := r_packet_id S1 + 1\<rparr>) i
            (\<lambda>e. e\<lparr>e_packet_id := r_packet_id S1, e_buf := b2, e_active := True, e_opcode := P_CONTROL_V1,
                 e_next_try := 0, e_timeout := r_initial_timeout S1\<rparr>)"
      have run: "tls_outgoing_ciphertext S (\<lambda>_. Bio_data bs) maxlen = Some (S2, 1)"
        using get free(1,2) b1(1) b2(1)
        by (simp add: tls_outgoing_ciphertext_def S1_def S2_def Let_def comp_def)
      have at_i: "active_at S2 i" "e_packet_id (r_array S2 ! i) = pid_of (length sent)"
        "e_buf (r_array S2 ! i) = b2"
        using S1(2) by (simp_all add: S2_def active_upd S1(5) wf(3))
      have other: "active_at S2 j = active_at S j" "r_array S2 ! j = r_array S ! j" if "j \<noteq> i" for j
        using that free(2) S1(2) by (simp_all add: S2_def S1_def active_upd)
      have "rel_wf cap S2" using S1 b2 unfolding S2_def by (intro rel_wf_upd) simp_all
      moreover have "r_packet_id S2 = pid_of (length (sent @ [bs]))"
        by (simp add: S2_def S1_def wf(3) add.commute)
      moreover have "\<exists>n < length (sent @ [bs]). e_packet_id (r_array S2 ! j) = pid_of n \<and>
          content (e_buf (r_array S2 ! j)) = be32 (pid_of n) @ (sent @ [bs]) ! n" if "active_at S2 j" for j
      proof (cases "j = i")
        case True
        then show ?thesis
          using at_i b2(4) S1(4,5) b1(3) wf(3) by (intro exI [of _ "length sent"]) simp
      next
        case False
        with that act [of j] other show ?thesis by (auto simp: nth_append intro: less_SucI)
      qed
      moreover have "r_offset S2 = off" by (simp add: S2_def S1_def wf(2))
      ultimately have "send_inv cap off S2 (sent @ [bs])" by (simp add: send_inv_def)
      moreover have "held S2 n" if "held S n" for n
        using that free(3) other unfolding held_def by metis
      moreover have "held S2 (length sent)" using at_i unfolding held_def by blast
      ultimately show ?thesis using run by auto
    qed
  qed
qed

text \<open>Whatever a TLS object answers that stays within the size it is asked for, queueing its output does not fail.\<close>

definition bio_fits :: "(int \<Rightarrow> bio_result) \<Rightarrow> bool" where
  "bio_fits bio \<longleftrightarrow> (\<forall>len bs. bio len = Bio_data bs \<longrightarrow> int (length bs) \<le> len)"

lemma tls_outgoing_total:
  assumes inv: "send_inv cap off S sent" and bio: "bio_fits bio"
  shows "tls_outgoing_ciphertext S bio maxlen \<noteq> None"
proof -
  have wf: "rel_wf cap S" "r_offset S = off" using inv by (simp_all add: send_inv_def)
  have cases: "reliable_get_buf_output_sequenced S \<in> {Some (S, None), reliable_get_buf S}"
    by (auto simp: reliable_get_buf_output_sequenced_def Let_def)
  from wf(1) show ?thesis
  proof (cases rule: reliable_get_buf_wf)
    case full
    with cases show ?thesis by (auto simp: tls_outgoing_ciphertext_def)
  next
    case (free i b)
    show ?thesis
    proof (cases "reliable_get_buf_output_sequenced S = Some (S, None)")
      case True
      then show ?thesis by (simp add: tls_outgoing_ciphertext_def)
    next
      case False
      with cases have get: "reliable_get_buf_output_sequenced S = reliable_get_buf S" by auto
      define S0 where "S0 = rel_upd S i (\<lambda>e. e\<lparr>e_buf := b\<rparr>)"
      have S0: "reliable_get_buf_output_sequenced S = Some (S0, Some i)" "e_buf (r_array S0 ! i) = b"
        using free(1,2) get by (simp_all add: S0_def)
      have len0: "b_len b = 0" using free(4,5) buf_ok_len by fastforce
      define len where "len = (if maxlen < buf_forward_capacity b then maxlen else buf_forward_capacity b)"
      have cap: "buf_forward_capacity b \<le> max 0 (cap - off)"
        using buf_forward_capacity_tailroom [OF free(4)] free(7) wf(2) by simp
      have read: "bio_read bio b maxlen = bio_read (\<lambda>_. bio len) b maxlen"
        by (simp add: bio_read_def len_def Let_def)
      have same: "tls_outgoing_ciphertext S bio maxlen = tls_outgoing_ciphertext S (\<lambda>_. bio len) maxlen"
        by (simp add: tls_outgoing_ciphertext_def S0 read)
      show ?thesis
      proof (cases "\<exists>bs. bio len = Bio_data bs \<and> bs \<noteq> []")
        case True
        then obtain bs where bs: "bio len = Bio_data bs" "bs \<noteq> []" by blast
        then have "int (length bs) \<le> len" "0 < int (length bs)" using bio by (auto simp: bio_fits_def)
        moreover have "len \<le> maxlen" "len \<le> buf_forward_capacity b" by (simp_all add: len_def)
        ultimately have "int (length bs) \<le> maxlen" "int (length bs) \<le> cap - off" using cap by linarith+
        with tls_outgoing_sent [OF inv bs(2)] show ?thesis unfolding same bs(1) by fastforce
      next
        case False
        then have "\<exists>b' st. bio_read (\<lambda>_. bio len) b maxlen = Some (b', st) \<and> st \<noteq> 1"
          using len0 by (cases "bio len") (auto simp: bio_read_def)
        then show ?thesis unfolding same by (auto simp: tls_outgoing_ciphertext_def S0)
      qed
    qed
  qed
qed

subsection \<open>Resending and purging\<close>

text \<open>After \<open>reliable_can_send\<close> there is a packet to send.\<close>

lemma count_due_some: "0 < snd (count_due ts es) \<Longrightarrow> \<exists>e \<in> set es. e_active e \<and> ts \<ge> e_next_try e"
  by (induction es) (auto split: prod.splits if_splits)

lemma best_due_some:
  "best \<noteq> None \<or> (\<exists>e \<in> set es. e_active e \<and> ts \<ge> e_next_try e) \<Longrightarrow> best_due ts k es best \<noteq> None"
proof (induction ts k es best rule: best_due.induct)
  case (2 ts k e es best)
  show ?case unfolding best_due.simps by (rule "2.IH") (use "2.prems" in auto)
qed simp

lemma reliable_send_total: "reliable_can_send ts S \<Longrightarrow> \<exists>S' i op. reliable_send ts S = (S', Some (i, op))"
proof -
  assume "reliable_can_send ts S"
  then have "0 < snd (count_due ts (rel_entries S))" by (auto simp: reliable_can_send_def split: prod.splits)
  then have "best_due ts 0 (rel_entries S) None \<noteq> None" by (intro best_due_some disjI2 count_due_some)
  then show ?thesis by (auto simp: reliable_send_def)
qed

lemma best_due_index:
  "best_due now k es best = Some (i, p) \<Longrightarrow>
   best = Some (i, p) \<or> k \<le> i \<and> i < k + length es \<and> e_active (es ! (i - k))"
proof (induction now k es best rule: best_due.induct)
  case (2 now k e es best)
  have n: "Suc k \<le> i \<Longrightarrow> (e # es) ! (i - k) = es ! (i - Suc k)"
    by (simp add: nth_Cons')
  show ?case
  proof (cases "e_active e \<and> now \<ge> e_next_try e \<and> (best = None \<or> reliable_pid_min (e_packet_id e) (snd (the best)))")
    case True
    with 2 have "Some (k, e_packet_id e) = Some (i, p) \<or> Suc k \<le> i \<and> i < Suc k + length es \<and> e_active (es ! (i - Suc k))"
      by simp
    with True n show ?thesis by auto
  next
    case False
    with 2 have "best = Some (i, p) \<or> Suc k \<le> i \<and> i < Suc k + length es \<and> e_active (es ! (i - Suc k))"
      by auto
    with n show ?thesis by auto
  qed
qed simp

lemma reliable_send_spec:
  assumes "reliable_send now S = (S', Some (i, op))"
  shows "active_at S i" "\<exists>nt to. S' = rel_upd S i (\<lambda>e. e\<lparr>e_next_try := nt, e_timeout := to\<rparr>)"
proof -
  obtain p where p: "best_due now 0 (rel_entries S) None = Some (i, p)"
    using assms by (auto simp: reliable_send_def split: option.splits)
  show act: "active_at S i"
    using best_due_index [OF p] by (auto simp: active_at_def)
  then have "i < length (rel_entries S)" by (simp add: active_at_def)
  then show "\<exists>nt to. S' = rel_upd S i (\<lambda>e. e\<lparr>e_next_try := nt, e_timeout := to\<rparr>)"
    using assms p
    by (intro exI [of _ "now + e_timeout (r_array S ! i)"] exI [of _ "e_timeout (r_array S ! i) * 2"])
      (auto simp: reliable_send_def rel_upd_def)
qed

text \<open>Changes that leave ids, buffers and the number of the next packet alone.\<close>

definition same_packets :: "reliable \<Rightarrow> reliable \<Rightarrow> bool" where
  "same_packets S S' \<longleftrightarrow> r_size S' = r_size S \<and> r_offset S' = r_offset S \<and>
     r_packet_id S' = r_packet_id S \<and> length (r_array S') = length (r_array S) \<and>
     (\<forall>i < length (r_array S). e_buf (r_array S' ! i) = e_buf (r_array S ! i) \<and>
        e_packet_id (r_array S' ! i) = e_packet_id (r_array S ! i) \<and>
        (e_active (r_array S' ! i) \<longrightarrow> e_active (r_array S ! i)))"

lemma same_packets_wf:
  assumes "same_packets S S'" "rel_wf cap S"
  shows "rel_wf cap S'"
proof -
  have l: "length (rel_entries S') = length (rel_entries S)"
    using assms(1) by (simp add: same_packets_def rel_entries_def)
  have "buf_ok (e_buf e) \<and> b_capacity (e_buf e) = cap" if mem: "e \<in> set (rel_entries S')" for e
  proof -
    obtain i where "i < length (rel_entries S')" "rel_entries S' ! i = e"
      using mem unfolding in_set_conv_nth by blast
    then have i: "i < length (rel_entries S')" "e = r_array S' ! i" by auto
    then have "e_buf e = e_buf (r_array S ! i)"
      using assms(1) by (simp add: same_packets_def rel_entries_def)
    with i l show ?thesis using rel_wf_entry [OF assms(2), of i] by simp
  qed
  then show ?thesis using assms by (simp add: rel_wf_def same_packets_def)
qed

lemma same_packets_active:
  "same_packets S S' \<Longrightarrow> active_at S' i \<Longrightarrow>
   active_at S i \<and> r_array S' ! i = r_array S' ! i \<and> e_buf (r_array S' ! i) = e_buf (r_array S ! i) \<and>
     e_packet_id (r_array S' ! i) = e_packet_id (r_array S ! i)"
  by (auto simp: same_packets_def active_at_def rel_entries_def)

lemma same_packets_inv: "same_packets S S' \<Longrightarrow> send_inv cap off S sent \<Longrightarrow> send_inv cap off S' sent"
  using same_packets_wf [of S S' cap] same_packets_active [of S S']
  by (auto simp: send_inv_def) (auto simp: same_packets_def)

lemma same_packets_held:
  "same_packets S S' \<Longrightarrow> held S n \<Longrightarrow>
   (\<And>i. active_at S i \<Longrightarrow> e_packet_id (r_array S ! i) = pid_of n \<Longrightarrow> e_active (r_array S' ! i)) \<Longrightarrow> held S' n"
  by (auto simp: held_def same_packets_def active_at_def rel_entries_def)

lemma same_packets_refl: "same_packets S S"
  by (simp add: same_packets_def)

lemma same_packets_trans: "same_packets S S1 \<Longrightarrow> same_packets S1 S2 \<Longrightarrow> same_packets S S2"
  by (auto simp: same_packets_def)

lemma same_packets_upd:
  "(\<And>e. e_buf (f e) = e_buf e \<and> e_packet_id (f e) = e_packet_id e \<and> (e_active (f e) \<longrightarrow> e_active e)) \<Longrightarrow>
   same_packets S (rel_upd S i f)"
  by (simp add: same_packets_def rel_upd_def nth_update_if)

lemma reliable_send_same:
  assumes "reliable_send now S = (S', Some (i, op))"
  shows "same_packets S S' \<and> (\<forall>n. held S n \<longrightarrow> held S' n) \<and> active_at S i"
proof -
  obtain nt to where S': "S' = rel_upd S i (\<lambda>e. e\<lparr>e_next_try := nt, e_timeout := to\<rparr>)"
    and act: "active_at S i" using reliable_send_spec [OF assms] by blast
  then have i: "i < length (rel_entries S)" by (simp add: active_at_def)
  have "same_packets S S'" unfolding S' by (rule same_packets_upd) simp
  moreover have "held S' n" if "held S n" for n
    using that by (rule same_packets_held [OF calculation])
      (auto simp: S' active_at_def rel_upd_def rel_entries_def nth_update_if)
  ultimately show ?thesis using act by blast
qed

lemma reliable_schedule_now_same:
  "same_packets S (reliable_schedule_now now S) \<and>
   (held S n \<longrightarrow> held (reliable_schedule_now now S) n)"
proof -
  define f :: "reliable_entry \<Rightarrow> reliable_entry" where "f = (\<lambda>e. if e_active e then e\<lparr>e_next_try := now, e_timeout := r_initial_timeout S\<rparr> else e)"
  have nth: "r_array (reliable_schedule_now now S) ! i =
      (if i < length (rel_entries S) then f (r_array S ! i) else r_array S ! i)"
    if "i < length (r_array S)" for i
    using that by (auto simp: reliable_schedule_now_def nth_append f_def rel_entries_def min_def)
  have "same_packets S (reliable_schedule_now now S)"
    unfolding same_packets_def
    by (intro conjI allI impI)
      (auto simp: nth f_def split: if_splits, auto simp: reliable_schedule_now_def rel_entries_def)
  moreover have "held (reliable_schedule_now now S) n" if "held S n"
    using that by (rule same_packets_held [OF calculation])
      (simp add: active_at_def nth f_def rel_entries_def)
  ultimately show ?thesis by blast
qed

lemma purge_ids_same:
  "same_packets S (purge_ids S ids) \<and> (\<forall>n. held S n \<longrightarrow> pid_of n \<notin> set ids \<longrightarrow> held (purge_ids S ids) n)"
proof (induction S ids rule: purge_ids.induct)
  case (2 S pid ids)
  show ?case
  proof (cases "first_entry (\<lambda>e. e_active e \<and> e_packet_id e = pid) (rel_entries S)")
    case None
    then show ?thesis using "2.IH"(1) by simp
  next
    case (Some j)
    define S1 where "S1 = rel_upd S j (\<lambda>e. e\<lparr>e_active := False\<rparr>)"
    have j: "j < length (rel_entries S)" "e_packet_id (r_array S ! j) = pid"
      using first_entry_Some [OF Some] by auto
    have s1: "same_packets S S1" unfolding S1_def by (rule same_packets_upd) simp
    have h1: "held S1 n" if "held S n" "pid_of n \<noteq> pid" for n
      using that(1)
    proof (rule same_packets_held [OF s1])
      fix i assume i: "active_at S i" "e_packet_id (r_array S ! i) = pid_of n"
      then have "i \<noteq> j" using j that(2) by auto
      with i show "e_active (r_array S1 ! i)" by (simp add: S1_def active_at_def)
    qed
    have "same_packets S1 (purge_ids S1 ids)"
      "\<forall>n. held S1 n \<longrightarrow> pid_of n \<notin> set ids \<longrightarrow> held (purge_ids S1 ids) n"
      using "2.IH"(2) [OF Some] by (simp_all add: S1_def)
    then show ?thesis
      using Some s1 h1 same_packets_trans [OF s1] by (auto simp: S1_def)
  qed
qed (simp add: same_packets_refl)

subsection \<open>The receiver\<close>

definition rec_inv :: "int \<Rightarrow> int \<Rightarrow> reliable \<Rightarrow> byte list list \<Rightarrow> nat \<Rightarrow> bool" where
  "rec_inv cap off R sent d \<longleftrightarrow> rel_wf cap R \<and> r_offset R = off \<and> r_packet_id R = pid_of d \<and> d \<le> length sent \<and>
     (\<forall>i. active_at R i \<longrightarrow> (\<exists>n. d \<le> n \<and> n < d + nat (r_size R) \<and> n < length sent \<and>
        e_packet_id (r_array R ! i) = pid_of n \<and> content (e_buf (r_array R ! i)) = sent ! n)) \<and>
     (\<forall>i j. active_at R i \<longrightarrow> active_at R j \<longrightarrow>
        e_packet_id (r_array R ! i) = e_packet_id (r_array R ! j) \<longrightarrow> i = j)"

definition received :: "byte list list \<Rightarrow> reliable \<Rightarrow> nat \<Rightarrow> nat \<Rightarrow> bool" where
  "received sent R d n \<longleftrightarrow> n < length sent \<and> (n < d \<or> held R n)"

lemma rec_inv_not_replay:
  assumes "rec_inv cap off R sent d" "n < length sent" "length sent < 2 ^ 31"
  shows "reliable_not_replay R (pid_of n) \<longleftrightarrow> \<not> received sent R d n"
proof -
  have "reliable_pid_min (pid_of n) (r_packet_id R) \<longleftrightarrow> n < d"
    using assms by (auto simp: rec_inv_def pid_min_iff)
  moreover have "first_entry (\<lambda>e. e_active e \<and> e_packet_id e = pid_of n) (rel_entries R) = None \<longleftrightarrow> \<not> held R n"
    unfolding first_entry_None held_def active_at_def entries_all by auto
  ultimately show ?thesis using assms(2) by (auto simp: reliable_not_replay_def received_def)
qed

lemma rec_inv_sequential:
  assumes "rec_inv cap off R sent d" "n < length sent" "length sent < 2 ^ 31"
  shows "reliable_wont_break_sequentiality R (pid_of n) \<longleftrightarrow> n < d + nat (r_size R)"
proof -
  have "0 < r_size R" "r_size R \<le> 8" using assms(1) by (auto simp: rec_inv_def rel_wf_def RELIABLE_CAPACITY_def)
  then have k: "word_of_int (r_size R) = pid_of (nat (r_size R))" by (metis int_nat_eq of_int_of_nat_eq less_imp_le)
  have "n < 2 ^ 32" "d + nat (r_size R) < 2 ^ 32"
    using assms \<open>r_size R \<le> 8\<close> by (auto simp: rec_inv_def)
  then show ?thesis
    using assms(1) in_range2_iff [of n d "nat (r_size R)"]
    by (simp add: reliable_wont_break_sequentiality_def k rec_inv_def)
qed

text \<open>The receive buffer cannot clog: while the next packet in sequence is missing there is room for it.\<close>

lemma rec_inv_room:
  assumes inv: "rec_inv cap off R sent d" and missing: "\<not> held R d" and b: "length sent < 2 ^ 31"
  shows "reliable_can_get R"
proof (rule ccontr)
  assume "\<not> reliable_can_get R"
  then have all: "\<And>i. i < length (rel_entries R) \<Longrightarrow> active_at R i"
    unfolding reliable_can_get_def active_at_def
    by (simp add: first_entry_None entries_all)
  define k where "k = length (rel_entries R)"
  have k: "k = nat (r_size R)" "0 < k" using inv rel_wf_length [of cap R] by (simp_all add: k_def rec_inv_def) (simp add: rel_wf_def)
  define num where "num i = unat (e_packet_id (r_array R ! i))" for i
  have num: "num i \<in> {d <..< d + k} \<and> num i < 2 ^ 31 \<and> e_packet_id (r_array R ! i) = pid_of (num i)"
    if ik: "i < k" for i
  proof -
    have "active_at R i" using all ik by (simp add: k_def)
    then obtain n where n: "d \<le> n" "n < d + k" "n < length sent" "e_packet_id (r_array R ! i) = pid_of n"
      using inv k(1) unfolding rec_inv_def by metis
    then have "n \<noteq> d" using missing \<open>active_at R i\<close> unfolding held_def by blast
    with n b show ?thesis by (simp add: num_def unat_pid)
  qed
  have "inj_on num {..<k}"
  proof (rule inj_onI)
    fix i j assume "i \<in> {..<k}" "j \<in> {..<k}" "num i = num j"
    then have "active_at R i" "active_at R j" "e_packet_id (r_array R ! i) = e_packet_id (r_array R ! j)"
      using num [of i] num [of j] all unfolding k_def by auto
    then show "i = j" using inv unfolding rec_inv_def by blast
  qed
  then have "card (num ` {..<k}) = k" by (simp add: card_image)
  moreover have "num ` {..<k} \<subseteq> {d <..< d + k}" using num by auto
  then have "card (num ` {..<k}) \<le> card {d <..< d + k}" by (rule card_mono [rotated]) simp
  ultimately show False using k(2) by simp
qed

subsection \<open>Filing an incoming packet\<close>

text \<open>The ids that wait in \<open>rec_ack\<close> to be acknowledged.\<close>

definition ack_ids :: "reliable_ack \<Rightarrow> u32 list" where
  "ack_ids ack = take (nat (ra_len ack)) (ra_packet_id ack)"

definition ack_ok :: "reliable_ack \<Rightarrow> bool" where
  "ack_ok ack \<longleftrightarrow> 0 \<le> ra_len ack \<and> ra_len ack \<le> RELIABLE_ACK_SIZE \<and>
     int (length (ra_packet_id ack)) = RELIABLE_ACK_SIZE"

lemma ack_push_spec:
  "ack_ok ack \<Longrightarrow> ra_len ack < RELIABLE_ACK_SIZE \<Longrightarrow>
   \<exists>ack'. ack_push ack pid = Some ack' \<and> ack_ok ack' \<and> ack_ids ack' = ack_ids ack @ [pid]"
  by (auto simp: ack_push_def ack_ok_def ack_ids_def nat_add_distrib take_Suc_conv_app_nth
      RELIABLE_ACK_SIZE_def simp flip: Suc_eq_plus1)

lemma acknowledge_spec:
  assumes "ack_ok ack"
  shows "\<exists>ack' b. reliable_ack_acknowledge_packet_id ack pid = Some (ack', b) \<and> ack_ok ack' \<and>
    set (ack_ids ack') \<subseteq> insert pid (set (ack_ids ack))"
  using ack_push_spec [OF assms, of pid] assms
  by (auto simp: reliable_ack_acknowledge_packet_id_def ex_bool_eq)

lemma rec_inv_copy_failed:
  assumes "rec_inv cap off R sent d" "\<not> active_at R i" "i < length (rel_entries R)" "buf_ok b" "b_capacity b = cap"
  shows "rec_inv cap off (rel_upd R i (\<lambda>e. e\<lparr>e_buf := b\<rparr>)) sent d"
    and "held (rel_upd R i (\<lambda>e. e\<lparr>e_buf := b\<rparr>)) n = held R n"
proof -
  have act: "active_at (rel_upd R i (\<lambda>e. e\<lparr>e_buf := b\<rparr>)) j \<longleftrightarrow> active_at R j \<and> j \<noteq> i" for j
    using assms(2,3) by (auto simp: active_upd) (simp add: active_at_def)
  have "rel_wf cap (rel_upd R i (\<lambda>e. e\<lparr>e_buf := b\<rparr>))"
    using assms by (intro rel_wf_upd) (simp_all add: rec_inv_def)
  then show "rec_inv cap off (rel_upd R i (\<lambda>e. e\<lparr>e_buf := b\<rparr>)) sent d"
    using assms(1) by (simp add: rec_inv_def act)
  show "held (rel_upd R i (\<lambda>e. e\<lparr>e_buf := b\<rparr>)) n = held R n"
    using assms(2) act unfolding held_def by (metis array_upd_other)
qed

lemma rec_inv_activate:
  assumes inv: "rec_inv cap off R sent d" and i: "\<not> active_at R i" "i < length (rel_entries R)"
    and b: "buf_ok b" "b_capacity b = cap" "content b = sent ! n"
    and n: "n < length sent" "d \<le> n" "n < d + nat (r_size R)" "\<not> held R n"
    and R': "R' = rel_upd R i (\<lambda>e. e\<lparr>e_buf := b, e_active := True, e_packet_id := pid_of n,
       e_opcode := op, e_next_try := 0, e_timeout := 0\<rparr>)"
  shows "rec_inv cap off R' sent d" "held R' n" "held R m \<Longrightarrow> held R' m"
proof -
  have act: "active_at R' j \<longleftrightarrow> j = i \<or> active_at R j" for j
    using i by (auto simp: R' active_upd)
  have at_i: "e_packet_id (r_array R' ! i) = pid_of n" "e_buf (r_array R' ! i) = b"
    using i by (simp_all add: R')
  have other: "r_array R' ! j = r_array R ! j" if "j \<noteq> i" for j using that by (simp add: R')
  have fields: "r_packet_id R' = r_packet_id R" "r_size R' = r_size R" "r_offset R' = r_offset R" by (simp_all add: R')
  have "rel_wf cap R'"
    unfolding R' using inv i b by (intro rel_wf_upd) (simp_all add: rec_inv_def)
  moreover have "\<exists>n. d \<le> n \<and> n < d + nat (r_size R') \<and> n < length sent \<and>
        e_packet_id (r_array R' ! j) = pid_of n \<and> content (e_buf (r_array R' ! j)) = sent ! n"
    if "active_at R' j" for j
  proof (cases "j = i")
    case True
    then show ?thesis using at_i n b fields by auto
  next
    case False
    with that act have "active_at R j" by blast
    with inv other [OF False] fields show ?thesis unfolding rec_inv_def by simp
  qed
  moreover have "j = k" if "active_at R' j" "active_at R' k"
      "e_packet_id (r_array R' ! j) = e_packet_id (r_array R' ! k)" for j k
  proof (cases "j = i \<or> k = i")
    case True
    with that n(4) at_i act other show ?thesis unfolding held_def by metis
  next
    case False
    with that act other inv show ?thesis unfolding rec_inv_def by metis
  qed
  ultimately show "rec_inv cap off R' sent d"
    using inv fields by (simp add: rec_inv_def)
  show "held R' n" using act at_i unfolding held_def by blast
  show "held R' m" if "held R m" using that act other i(1) unfolding held_def by metis
qed

lemma read_packet_id_spec:
  assumes "buf_ok b" "content b = be32 (pid_of n) @ xs"
  obtains b' where "reliable_ack_read_packet_id b 0 = Some (b', pid_of n, True)" "buf_ok b'" "content b' = xs"
proof -
  have "4 = int (length (be32 (pid_of n)))" by simp
  with assms obtain b' where "buf_read b 4 = Some (b', Some (be32 (pid_of n)))" "buf_ok b'" "content b' = xs"
    "tailroom b' = tailroom b" "headroom b' = headroom b + length (be32 (pid_of n))"
    by (rule buf.get_front)
  then show thesis by (intro that [of b']) (simp_all add: reliable_ack_read_packet_id_def)
qed

lemma buf_copy_spec:
  assumes "buf_ok d" "buf_ok s"
  shows "\<exists>d'. buf_copy d s = Some (d', length (content s) \<le> tailroom d) \<and> buf_ok d' \<and>
    b_capacity d' = b_capacity d \<and>
    (length (content s) \<le> tailroom d \<longrightarrow> content d' = content d @ content s)"
proof (cases "length (content s) \<le> tailroom d")
  case True
  with assms(1) obtain d' where "buf_write d (content s) = Some (d', True)" "buf_ok d'"
    "content d' = content d @ content s" "tailroom d' = tailroom d - length (content s)"
    "headroom d' = headroom d" "b_capacity d' = b_capacity d"
    by (rule buf_write_room)
  then show ?thesis using True by (simp add: buf_copy_def buf_bytes_content [OF assms(2)])
next
  case False
  then show ?thesis
    using assms buf_write_full [OF assms(1), of "content s"]
    by (simp add: buf_copy_def buf_bytes_content not_le)
qed

lemma tls_incoming_filed:
  assumes inv: "rec_inv cap off R sent d" and b31: "length sent < 2 ^ 31" and n: "n < length sent"
    and buf: "buf_ok b" "content b = be32 (pid_of n) @ sent ! n"
    and ack: "ack_ok A"
  shows "\<exists>R' A' b' f. tls_incoming_control R A b op = Some (R', A', b', f) \<and> rec_inv cap off R' sent d \<and>
    ack_ok A' \<and> (\<forall>m. held R m \<longrightarrow> held R' m) \<and>
    (\<forall>pid \<in> set (ack_ids A') - set (ack_ids A). pid = pid_of n \<and> received sent R' d n) \<and>
    (n = d \<and> op \<noteq> P_ACK_V1 \<and> int (length (sent ! n)) \<le> cap - off \<longrightarrow> held R' d)"
proof (cases "op \<noteq> P_ACK_V1 \<and> reliable_can_get R")
  case False
  then have "tls_incoming_control R A b op = Some (R, A, b, True)"
    by (auto simp: tls_incoming_control_def)
  moreover have "n = d \<and> op \<noteq> P_ACK_V1 \<longrightarrow> held R d"
    using False rec_inv_room [OF inv _ b31] by blast
  ultimately show ?thesis using inv ack by auto
next
  case True
  obtain b' where b': "reliable_ack_read_packet_id b 0 = Some (b', pid_of n, True)" "buf_ok b'"
    "content b' = sent ! n" using buf by (rule read_packet_id_spec)
  note seq = rec_inv_sequential [OF inv n b31] and rep = rec_inv_not_replay [OF inv n b31]
  obtain A' r where A': "reliable_ack_acknowledge_packet_id A (pid_of n) = Some (A', r)" "ack_ok A'"
    "set (ack_ids A') \<subseteq> insert (pid_of n) (set (ack_ids A))"
    using acknowledge_spec [OF ack] by blast
  have size: "0 < nat (r_size R)" using inv by (simp add: rec_inv_def rel_wf_def)
  consider (far) "\<not> n < d + nat (r_size R)" | (old) "n < d + nat (r_size R)" "received sent R d n"
    | (new) "n < d + nat (r_size R)" "\<not> received sent R d n" by blast
  then show ?thesis
  proof cases
    case far
    then have "tls_incoming_control R A b op = Some (R, A, b', True)"
      using True b'(1) seq by (simp add: tls_incoming_control_def)
    then show ?thesis using inv ack far size by auto
  next
    case old
    then have "tls_incoming_control R A b op = Some (R, A', b', True)"
      using True b'(1) seq rep A'(1) by (simp add: tls_incoming_control_def)
    moreover have "n = d \<longrightarrow> held R d" using old(2) by (auto simp: received_def)
    ultimately show ?thesis using inv A' old(2) by auto
  next
    case new
    then have fresh: "d \<le> n" "\<not> held R n" using n by (auto simp: received_def not_less)
    have wf: "rel_wf cap R" "r_packet_id R = pid_of d" "d < 2 ^ 31"
      using inv b31 by (auto simp: rec_inv_def)
    obtain i b0 where g: "reliable_get_buf R = Some (rel_upd R i (\<lambda>e. e\<lparr>e_buf := b0\<rparr>), Some i)"
      "i < length (rel_entries R)" "\<not> active_at R i" "buf_ok b0" "content b0 = []"
      "tailroom b0 = nat (cap - r_offset R)" "b_capacity b0 = cap"
      using wf(1)
    proof (cases rule: reliable_get_buf_wf)
      case full
      then have False
        using True unfolding reliable_can_get_def by (simp add: first_entry_None entries_all active_at_def)
      then show ?thesis by blast
    qed blast
    obtain b1 where b1: "buf_copy b0 b' = Some (b1, length (sent ! n) \<le> tailroom b0)" "buf_ok b1"
      "b_capacity b1 = cap" "length (sent ! n) \<le> tailroom b0 \<longrightarrow> content b1 = sent ! n"
      using buf_copy_spec [OF g(4) b'(2)] b'(3) g(5,7) by auto
    show ?thesis
    proof (cases "length (sent ! n) \<le> tailroom b0")
      case False
      define R' where "R' = rel_upd R i (\<lambda>e. e\<lparr>e_buf := b1\<rparr>)"
      have "tls_incoming_control R A b op = Some (R', A, b', False)"
        using True b'(1) seq rep new g(1,2) b1(1) False
        by (simp add: tls_incoming_control_def Let_def R'_def comp_def rel_upd_def rel_entries_def)
      moreover have "rec_inv cap off R' sent d" "\<And>m. held R' m = held R m"
        unfolding R'_def using rec_inv_copy_failed [OF inv g(3,2) b1(2,3)] by blast+
      moreover have "\<not> int (length (sent ! n)) \<le> cap - off"
        using False g(6) inv by (simp add: rec_inv_def)
      ultimately show ?thesis
        using ack by (intro exI [of _ R'] exI [of _ A] exI [of _ b'] exI [of _ False]) simp
    next
      case fits: True
      define R' where "R' = rel_upd R i (\<lambda>e. e\<lparr>e_buf := b1, e_active := True, e_packet_id := pid_of n,
         e_opcode := op, e_next_try := 0, e_timeout := 0\<rparr>)"
      have min: "\<not> reliable_pid_min (pid_of n) (pid_of d)"
        using fresh n b31 wf(3) by (simp add: pid_min_iff)
      have "reliable_mark_active_incoming (rel_upd R i (\<lambda>e. e\<lparr>e_buf := b1\<rparr>)) i (pid_of n) op = Some R'"
        using g(2) min wf(2)
        by (simp add: reliable_mark_active_incoming_def R'_def comp_def rel_upd_def rel_entries_def)
      then have "tls_incoming_control R A b op = Some (R', A', b', True)"
        using True b'(1) seq rep new g(1,2) b1(1) fits A'(1)
        by (simp add: tls_incoming_control_def Let_def comp_def)
      moreover note inv' = rec_inv_activate [OF inv g(3,2) b1(2,3) _ n fresh(1) new(1) fresh(2) R'_def]
      moreover have "content b1 = sent ! n" using b1(4) fits by simp
      moreover from this have "received sent R' d n" using inv'(2) n by (simp add: received_def)
      ultimately show ?thesis using A'(2,3) by auto
    qed
  qed
qed

subsection \<open>Delivering the next packet\<close>

lemma tls_incoming_ciphertext_next:
  assumes inv: "rec_inv cap off R sent d" and b31: "length sent < 2 ^ 31"
  shows "\<exists>R' r. tls_incoming_ciphertext R accept = Some (R', r) \<and>
    (case r of None \<Rightarrow> R' = R \<and> (held R d \<longrightarrow> accept (sent ! d) \<noteq> 1)
     | Some bs \<Rightarrow> d < length sent \<and> bs = sent ! d \<and> rec_inv cap off R' sent (Suc d) \<and>
         (\<forall>m. held R m \<longrightarrow> m < length sent \<longrightarrow> m = d \<or> held R' m))"
proof (cases "reliable_get_buf_sequenced R")
  case None
  then have "\<not> held R d"
    using inv unfolding reliable_get_buf_sequenced_def
    by (auto simp: first_entry_None entries_all held_def active_at_def rec_inv_def)
  then show ?thesis using None by (simp add: tls_incoming_ciphertext_def)
next
  case (Some i)
  have wf: "rel_wf cap R" and pd: "r_packet_id R = pid_of d" using inv by (auto simp: rec_inv_def)
  have i: "i < length (rel_entries R)" "active_at R i" "e_packet_id (r_array R ! i) = pid_of d"
    using first_entry_Some [OF Some [unfolded reliable_get_buf_sequenced_def]] pd
    by (auto simp: active_at_def)
  obtain n where n: "d \<le> n" "n < length sent" "pid_of d = pid_of n" "content (e_buf (r_array R ! i)) = sent ! n"
    using inv i(2,3) unfolding rec_inv_def by metis
  then have "n = d" using b31 by (simp add: pid_eq)
  then have d: "d < length sent" "content (e_buf (r_array R ! i)) = sent ! d" using n by simp_all
  have bytes: "buf_bytes (e_buf (r_array R ! i)) = Some (sent ! d)"
    using rel_wf_entry [OF wf i(1)] d(2) by (simp add: buf_bytes_content)
  define R' where "R' = (rel_upd R i (\<lambda>e. e\<lparr>e_active := False\<rparr>))\<lparr>r_packet_id := pid_of (Suc d)\<rparr>"
  have del: "reliable_mark_deleted R i True = Some R'"
    using i by (simp add: reliable_mark_deleted_def R'_def Let_def add.commute)
  define taken where "taken \<longleftrightarrow> (if b_len (e_buf (r_array R ! i)) \<noteq> 0 then accept (sent ! d) else 1) = 1"
  show ?thesis
  proof (cases taken)
    case False
    then have "tls_incoming_ciphertext R accept = Some (R, None)" "accept (sent ! d) \<noteq> 1"
      using Some bytes by (auto simp: tls_incoming_ciphertext_def taken_def Let_def split: if_splits)
    then show ?thesis by simp
  next
    case True
    then have run: "tls_incoming_ciphertext R accept = Some (R', Some (sent ! d))"
      using Some bytes del by (simp add: tls_incoming_ciphertext_def taken_def Let_def)
    have act: "active_at R' j \<longleftrightarrow> active_at R j \<and> j \<noteq> i" for j
      using i(1) by (simp add: R'_def active_upd)
    have other: "r_array R' ! j = r_array R ! j" if "j \<noteq> i" for j using that by (simp add: R'_def)
    have "rel_wf cap R'"
      unfolding R'_def using wf i(1) rel_wf_entry [OF wf i(1)] by (simp add: rel_wf_upd)
    moreover have "\<exists>n. Suc d \<le> n \<and> n < Suc d + nat (r_size R') \<and> n < length sent \<and>
        e_packet_id (r_array R' ! j) = pid_of n \<and> content (e_buf (r_array R' ! j)) = sent ! n"
      if "active_at R' j" for j
    proof -
      have j: "active_at R j" "j \<noteq> i" using that act by auto
      obtain m where m: "d \<le> m" "m < d + nat (r_size R)" "m < length sent"
        "e_packet_id (r_array R ! j) = pid_of m" "content (e_buf (r_array R ! j)) = sent ! m"
        using inv j(1) unfolding rec_inv_def by metis
      have "m \<noteq> d" using inv j i m(4) unfolding rec_inv_def by metis
      then show ?thesis using m other [OF j(2)] by (intro exI [of _ m]) (simp add: R'_def)
    qed
    moreover have "j = k" if "active_at R' j" "active_at R' k"
      "e_packet_id (r_array R' ! j) = e_packet_id (r_array R' ! k)" for j k
      using that act other inv unfolding rec_inv_def by metis
    moreover have "r_offset R' = off" using inv by (simp add: rec_inv_def R'_def)
    ultimately have "rec_inv cap off R' sent (Suc d)"
      using d(1) by (simp add: rec_inv_def R'_def)
    moreover have "held R' m" if m: "held R m" "m < length sent" "m \<noteq> d" for m
    proof -
      obtain j where j: "active_at R j" "e_packet_id (r_array R ! j) = pid_of m"
        using m(1) unfolding held_def by blast
      have "pid_of m \<noteq> pid_of d" using m d(1) b31 by (simp add: pid_eq)
      then have "j \<noteq> i" using j(2) i(3) by auto
      then show ?thesis using j act other unfolding held_def by metis
    qed
    ultimately show ?thesis using run d(1) by auto
  qed
qed

end
