(* ===== verification/Reliable_Ack.thy ===== *)
theory Reliable_Ack
  imports Reliable_Inv
begin

text \<open>
  Acknowledgement records: what \<open>reliable_ack_write\<close> puts into a buffer through a sub-buffer, and
  what \<open>reliable_ack_read\<close> recovers from it.
\<close>

subsection \<open>Acknowledgement records on the wire\<close>

lemma byte_of_nat:
  "k < 256 \<Longrightarrow> unat (word_of_nat k :: byte) = k" "k < 256 \<Longrightarrow> uint (word_of_nat k :: byte) = int k"
  "k < 256 \<Longrightarrow> (word_of_nat k :: byte) = 0 \<longleftrightarrow> k = 0"
proof -
  assume k: "k < 256"
  show u: "unat (word_of_nat k :: byte) = k"
    using k by (simp add: unsigned_of_nat take_bit_nat_eq_self)
  have "int (unat (word_of_nat k :: byte)) = int k" using u by simp
  then show "uint (word_of_nat k :: byte) = int k" by simp
  show "(word_of_nat k :: byte) = 0 \<longleftrightarrow> k = 0"
  proof
    assume "(word_of_nat k :: byte) = 0"
    then have "unat (word_of_nat k :: byte) = 0" by (simp only: unsigned_0)
    with u show "k = 0" by simp
  qed simp
qed

lemma whole_buffer:
  assumes "buf_ok s" "headroom s = 0" "int (length (content s)) = b_capacity s"
  shows "b_data s = Some (content s)"
proof -
  from assms(1) obtain pre body post where b:
    "b_data s = Some (pre @ body @ post)" "b_offset s = int (length pre)"
    "b_len s = int (length body)" "b_capacity s = int (length pre + length body + length post)"
    "content s = body" "b_capacity s < BUF_SIZE_MAX"
    by (rule buf_ok_cases)
  with assms(2,3) show ?thesis by simp
qed

lemma fresh_view:
  assumes "length us = k" "int k < BUF_SIZE_MAX"
  shows "buf_ok (clear_buf\<lparr>b_capacity := int k, b_data := Some us\<rparr>)"
    "content (clear_buf\<lparr>b_capacity := int k, b_data := Some us\<rparr>) = []"
    "headroom (clear_buf\<lparr>b_capacity := int k, b_data := Some us\<rparr>) = 0"
    "tailroom (clear_buf\<lparr>b_capacity := int k, b_data := Some us\<rparr>) = k"
  using assms by (simp_all add: clear_buf_def buf_ok_def content_def tailroom_def)

lemma buf_sub_append:
  assumes "buf_ok b" "k \<le> tailroom b"
  obtains b' us p where "buf_sub b (int k) False = Some (b', clear_buf\<lparr>b_capacity := int k, b_data := Some us\<rparr>, p)"
    "length us = k" "int k < BUF_SIZE_MAX"
    "\<And>s bs. b_data s = Some bs \<Longrightarrow> length bs = k \<Longrightarrow>
       \<exists>b''. buf_sub_put b' p s = Some b'' \<and> buf_ok b'' \<and> content b'' = content b @ bs"
proof -
  from assms(1) obtain pre body post where b:
    "b_data b = Some (pre @ body @ post)" "b_offset b = int (length pre)"
    "b_len b = int (length body)" "b_capacity b = int (length pre + length body + length post)"
    "content b = body" "b_capacity b < BUF_SIZE_MAX"
    by (rule buf_ok_cases)
  have "k \<le> length post" using assms(2) b by (simp add: tailroom_def)
  then obtain us vs where post: "post = us @ vs" "length us = k" using split_append_at by blast
  define b' where "b' = b\<lparr>b_len := b_len b + int k\<rparr>"
  have sub: "buf_sub b (int k) False =
      Some (b', clear_buf\<lparr>b_capacity := int k, b_data := Some us\<rparr>, b_offset b + b_len b)"
    using assms b post
    by (simp add: buf_sub_def buf_write_alloc_def buf_safe_iff buf_bptr_def load_at_def mem_read_def
        b'_def nat_add_distrib)
  have max: "int k < BUF_SIZE_MAX" using b post by simp
  have put: "\<exists>b''. buf_sub_put b' (b_offset b + b_len b) s = Some b'' \<and> buf_ok b'' \<and> content b'' = content b @ bs"
    if s: "b_data s = Some bs" "length bs = k" for s bs
  proof -
    define b2 where "b2 = b'\<lparr>b_data := Some (pre @ (body @ bs) @ vs)\<rparr>"
    have "buf_sub_put b' (b_offset b + b_len b) s = Some b2"
      using s b post
      by (simp add: buf_sub_put_def store_at_def mem_write_def b'_def b2_def nat_add_distrib)
    moreover have "b_capacity b2 = int (length pre + length (body @ bs) + length vs)" "b_capacity b2 < BUF_SIZE_MAX"
      using b post s by (simp_all add: b2_def b'_def)
    then have "buf_ok b2" "content b2 = body @ bs"
      using s b by (intro buf_okI [where pre = pre and body = "body @ bs" and post = vs]; simp add: b2_def b'_def)+
    ultimately show ?thesis using b(5) by simp
  qed
  show thesis using sub post(2) max put by (rule that)
qed

lemma buf_sub_front:
  assumes "buf_ok b" "k \<le> headroom b"
  obtains b' us p where "buf_sub b (int k) True = Some (b', clear_buf\<lparr>b_capacity := int k, b_data := Some us\<rparr>, p)"
    "length us = k" "int k < BUF_SIZE_MAX"
    "\<And>s bs. b_data s = Some bs \<Longrightarrow> length bs = k \<Longrightarrow>
       \<exists>b''. buf_sub_put b' p s = Some b'' \<and> buf_ok b'' \<and> content b'' = bs @ content b"
proof -
  from assms(1) obtain pre body post where b:
    "b_data b = Some (pre @ body @ post)" "b_offset b = int (length pre)"
    "b_len b = int (length body)" "b_capacity b = int (length pre + length body + length post)"
    "content b = body" "b_capacity b < BUF_SIZE_MAX"
    by (rule buf_ok_cases)
  define us where "us = take (length pre - k) pre"
  define vs where "vs = drop (length pre - k) pre"
  have pre: "pre = us @ vs" "length vs = k" "nat (b_offset b) = length us + k"
    using assms(2) b by (simp_all add: us_def vs_def)
  define b' where "b' = b\<lparr>b_offset := int (length us), b_len := b_len b + int k\<rparr>"
  have sub: "buf_sub b (int k) True =
      Some (b', clear_buf\<lparr>b_capacity := int k, b_data := Some vs\<rparr>, int (length us))"
    using assms b pre
    by (simp add: buf_sub_def buf_prepend_def buf_bptr_def buf_valid_def load_at_def mem_read_def
        b'_def Let_def)
  have max: "int k < BUF_SIZE_MAX" using b pre by simp
  have put: "\<exists>b''. buf_sub_put b' (int (length us)) s = Some b'' \<and> buf_ok b'' \<and> content b'' = bs @ content b"
    if s: "b_data s = Some bs" "length bs = k" for s bs
  proof -
    define b2 where "b2 = b'\<lparr>b_data := Some (us @ (bs @ body) @ post)\<rparr>"
    have "buf_sub_put b' (int (length us)) s = Some b2"
      using s b pre by (simp add: buf_sub_put_def store_at_def mem_write_def b'_def b2_def)
    moreover have "b_capacity b2 = int (length us + length (bs @ body) + length post)" "b_capacity b2 < BUF_SIZE_MAX"
      using b pre s by (simp_all add: b2_def b'_def)
    then have "buf_ok b2" "content b2 = bs @ body"
      using s b by (intro buf_okI [where pre = us and body = "bs @ body" and post = post]; simp add: b2_def b'_def)+
    ultimately show ?thesis using b(5) by simp
  qed
  show thesis using sub pre(2) max put by (rule that)
qed

definition ack_wire :: "session_id \<Rightarrow> u32 list \<Rightarrow> byte list" where
  "ack_wire sid ids =
     word_of_nat (length ids) # concat (map be32 ids) @ (if ids = [] then [] else sid_id sid)"

lemma length_concat_be32 [simp]: "length (concat (map be32 ids)) = 4 * length ids"
  by (induction ids) auto

lemma ack_write_ids_spec:
  "buf_ok sub \<Longrightarrow> i \<le> n \<Longrightarrow> n \<le> length ids \<Longrightarrow> 4 * (n - i) \<le> tailroom sub \<Longrightarrow>
   \<exists>sub'. ack_write_ids i n ids sub = Some sub' \<and> buf_ok sub' \<and> headroom sub' = headroom sub \<and>
     b_capacity sub' = b_capacity sub \<and> tailroom sub' = tailroom sub - 4 * (n - i) \<and>
     content sub' = content sub @ concat (map be32 (take (n - i) (drop i ids)))"
proof (induction "n - i" arbitrary: i sub)
  case 0
  then show ?case by (subst ack_write_ids.simps) simp
next
  case (Suc m)
  then have i: "i < n" "m = n - Suc i" by simp_all
  have "length (be32 (ids ! i)) \<le> tailroom sub" using Suc.prems(4) i by simp
  with Suc.prems(1) obtain s1 where s1: "buf_write sub (be32 (ids ! i)) = Some (s1, True)" "buf_ok s1"
    "content s1 = content sub @ be32 (ids ! i)" "tailroom s1 = tailroom sub - length (be32 (ids ! i))"
    "headroom s1 = headroom sub" "b_capacity s1 = b_capacity sub"
    by (rule buf_write_room)
  have "4 * (n - Suc i) \<le> tailroom s1" using Suc.prems(4) s1(4) i by simp
  then obtain s2 where s2: "ack_write_ids (Suc i) n ids s1 = Some s2" "buf_ok s2" "headroom s2 = headroom s1"
     "b_capacity s2 = b_capacity s1" "tailroom s2 = tailroom s1 - 4 * (n - Suc i)"
     "content s2 = content s1 @ concat (map be32 (take (n - Suc i) (drop (Suc i) ids)))"
    using Suc.hyps(1) [OF i(2) s1(2)] i Suc.prems(3) by auto
  have "take (n - i) (drop i ids) = ids ! i # take (n - Suc i) (drop (Suc i) ids)"
    using i Suc.prems(3) by (simp add: Cons_nth_drop_Suc [symmetric] take_Suc_conv_app_nth Suc.hyps(2) [symmetric])
  moreover have "4 * (n - i) = 4 + 4 * (n - Suc i)" using i by simp
  ultimately show ?case
    using s1 s2 i Suc.prems(3) by (subst ack_write_ids.simps) auto
qed

lemma ack_shift_spec:
  "i \<le> j \<Longrightarrow> j \<le> n \<Longrightarrow> n \<le> length ids \<Longrightarrow>
   \<exists>ids'. ack_shift i j n ids = Some (i + (n - j), ids') \<and> length ids' = length ids \<and>
     take (i + (n - j)) ids' = take i ids @ take (n - j) (drop j ids)"
proof (induction "n - j" arbitrary: i j ids)
  case 0
  then show ?case by (subst ack_shift.simps) simp
next
  case (Suc m)
  then have j: "j < n" "m = n - Suc j" by simp_all
  define ids1 where "ids1 = ids[i := ids ! j]"
  obtain ids' where ids': "ack_shift (Suc i) (Suc j) n ids1 = Some (Suc i + (n - Suc j), ids')"
    "length ids' = length ids1"
    "take (Suc i + (n - Suc j)) ids' = take (Suc i) ids1 @ take (n - Suc j) (drop (Suc j) ids1)"
    using Suc.hyps(1) [OF j(2), of "Suc i" ids1] Suc.prems j by (auto simp: ids1_def)
  have "take (Suc i) ids1 = take i ids @ [ids ! j]"
    using Suc.prems j by (simp add: ids1_def take_Suc_conv_app_nth)
  moreover have "drop (Suc j) ids1 = drop (Suc j) ids"
    using Suc.prems by (simp add: ids1_def)
  moreover have "take (n - j) (drop j ids) = ids ! j # take (n - Suc j) (drop (Suc j) ids)"
    using j Suc.prems(3) by (simp add: Cons_nth_drop_Suc [symmetric] Suc.hyps(2) [symmetric])
  moreover have "ack_shift i j n ids = ack_shift (Suc i) (Suc j) n ids1"
    by (subst ack_shift.simps) (use j Suc.prems in \<open>simp add: ids1_def\<close>)
  moreover have e: "i + (n - j) = Suc i + (n - Suc j)" using j by simp
  ultimately show ?case
    using ids' unfolding e by (simp add: ids1_def)
qed

lemma ack_record_room:
  assumes "length ids \<le> 8" "sid_ok sid"
  shows "length (ack_wire sid ids) = nat (ACK_SIZE (int (length ids)))"
  using assms by (auto simp: ack_wire_def ACK_SIZE_def SID_SIZE_def sid_ok_def nat_add_distrib)

text \<open>
  \<open>reliable_ack_write\<close> puts the oldest ids, at most \<open>max_n\<close>, on the wire and keeps the rest;
  without room it changes nothing.
\<close>

lemma reliable_ack_write_spec:
  assumes ack: "ack_ok ack" and b: "buf_ok b" and sid: "sid_ok sid" "session_id_defined sid"
    and m: "0 \<le> max_n" "max_n < 256"
    and k: "k = min (length (ack_ids ack)) (nat max_n)"
    and room: "nat (ACK_SIZE (int k)) \<le> (if prepend then headroom b else tailroom b)"
  shows "\<exists>ack' b'. reliable_ack_write ack b sid max_n prepend = Some (ack', b', True) \<and> ack_ok ack' \<and>
    buf_ok b' \<and> ack_ids ack' = drop k (ack_ids ack) \<and>
    content b' = (if prepend then ack_wire sid (take k (ack_ids ack)) @ content b
                  else content b @ ack_wire sid (take k (ack_ids ack)))"
proof -
  define l where "l = nat (ra_len ack)"
  have l: "ra_len ack = int l" "l \<le> 8" "length (ra_packet_id ack) = 8" "length (ack_ids ack) = l"
    using ack by (auto simp: l_def ack_ok_def ack_ids_def RELIABLE_ACK_SIZE_def)
  have kl: "k \<le> l" "k = min l (nat max_n)" using k l by simp_all
  have k256: "k < 256" "l < 256" using kl l(2) by simp_all
  have n: "(if uint (word_of_int (ra_len ack) :: byte) > max_n then word_of_int max_n
      else (word_of_int (ra_len ack) :: byte)) = word_of_nat k"
  proof -
    have "word_of_int max_n = (word_of_nat (nat max_n) :: byte)" using m by (metis int_nat_eq of_int_of_nat_eq)
    then show ?thesis using m kl byte_of_nat(2) [OF k256(2)] by (auto simp: l(1) min_def)
  qed
  note uk = byte_of_nat [OF k256(1)]
  define ids where "ids = take k (ra_packet_id ack)"
  have ids: "length ids = k" "take k (ack_ids ack) = ids" "ids = [] \<longleftrightarrow> k = 0"
    using kl l by (auto simp: ids_def ack_ids_def)
  define sz where "sz = nat (ACK_SIZE (int k))"
  have sz: "ACK_SIZE (int k) = int sz" "sz = 1 + 4 * k + (if k = 0 then 0 else 8)"
    by (auto simp: sz_def ACK_SIZE_def SID_SIZE_def)
  obtain b1 us p where sub: "buf_sub b (int sz) prepend =
      Some (b1, clear_buf\<lparr>b_capacity := int sz, b_data := Some us\<rparr>, p)" "length us = sz" "int sz < BUF_SIZE_MAX"
    "\<And>s bs. b_data s = Some bs \<Longrightarrow> length bs = sz \<Longrightarrow>
       \<exists>b''. buf_sub_put b1 p s = Some b'' \<and> buf_ok b'' \<and>
         content b'' = (if prepend then bs @ content b else content b @ bs)"
  proof (cases prepend)
    case True
    have "sz \<le> headroom b" using room True by (simp add: sz_def)
    with b True show thesis using that by (elim buf_sub_front [of b sz]) auto
  next
    case False
    have "sz \<le> tailroom b" using room False by (simp add: sz_def)
    with b False show thesis using that by (elim buf_sub_append [of b sz]) auto
  qed
  define s0 where "s0 = clear_buf\<lparr>b_capacity := int sz, b_data := Some us\<rparr>"
  note s0 = fresh_view [OF sub(2,3), folded s0_def]
  have "buf_defined s0" by (simp add: s0_def buf_defined_def)
  have "length [word_of_nat k :: byte] \<le> tailroom s0" using s0(4) sz(2) by simp
  with s0(1) obtain s1 where s1: "buf_write s0 [word_of_nat k] = Some (s1, True)" "buf_ok s1"
    "content s1 = content s0 @ [word_of_nat k]" "tailroom s1 = tailroom s0 - length [word_of_nat k :: byte]"
    "headroom s1 = headroom s0" "b_capacity s1 = b_capacity s0"
    by (rule buf_write_room)
  have "k \<le> length (ra_packet_id ack)" using kl(1) l(2,3) by simp
  moreover have "4 * (k - 0) \<le> tailroom s1" using s0(4) s1(4) sz(2) by simp
  ultimately obtain s2 where s2: "ack_write_ids 0 k (ra_packet_id ack) s1 = Some s2" "buf_ok s2"
    "headroom s2 = headroom s1" "b_capacity s2 = b_capacity s1" "tailroom s2 = tailroom s1 - 4 * k"
    "content s2 = content s1 @ concat (map be32 ids)"
    using ack_write_ids_spec [OF s1(2), of 0 k "ra_packet_id ack"] by (auto simp: ids_def)
  obtain ids' where ids': "ack_shift 0 k l (ra_packet_id ack) = Some (l - k, ids')" "length ids' = 8"
    "take (l - k) ids' = drop k (ack_ids ack)"
  proof -
    have e: "drop k (ack_ids ack) = take (l - k) (drop k (ra_packet_id ack))"
      by (simp add: ack_ids_def l_def drop_take)
    have "l \<le> length (ra_packet_id ack)" using l(2,3) by simp
    from ack_shift_spec [OF _ kl(1) this, of 0] show thesis
      using that unfolding e l(3) by auto
  qed
  have ack': "ack_ok (ack\<lparr>ra_packet_id := ids', ra_len := int (l - k)\<rparr>)"
    "ack_ids (ack\<lparr>ra_packet_id := ids', ra_len := int (l - k)\<rparr>) = drop k (ack_ids ack)"
    using ids' l(2) by (simp_all add: ack_ok_def ack_ids_def RELIABLE_ACK_SIZE_def)
  have h2: "headroom s2 = 0" using s0(3) s1(5) s2(3) by simp
  have c2: "b_capacity s2 = int sz" using s1(6) s2(4) by (simp add: s0_def)
  show ?thesis
  proof (cases "k = 0")
    case True
    have c: "content s2 = ack_wire sid (take k (ack_ids ack))" "length (content s2) = sz"
      using True ids s0(2) s1(3) s2(6) sz(2) by (simp_all add: ack_wire_def)
    have "b_data s2 = Some (content s2)"
      using s2(2) h2 by (rule whole_buffer) (simp only: c(2) c2)
    from sub(4) [OF this c(2)] obtain b3 where b3: "buf_sub_put b1 p s2 = Some b3" "buf_ok b3"
      "content b3 = (if prepend then content s2 @ content b else content b @ content s2)" by blast
    have "reliable_ack_write ack b sid max_n prepend = Some (ack, b3, True)"
      unfolding reliable_ack_write_def Let_def n uk sz(1)
      using sub(1) s1(1) s2(1) b3(1) uk True \<open>buf_defined s0\<close> by (simp flip: s0_def)
    then show ?thesis using ack b3 c(1) True by auto
  next
    case False
    have "length (sid_id sid) \<le> tailroom s2"
      using False sid(1) s0(4) s1(4) s2(5) sz(2) by (simp add: sid_ok_def)
    with s2(2) obtain s3 where s3: "buf_write s2 (sid_id sid) = Some (s3, True)" "buf_ok s3"
      "content s3 = content s2 @ sid_id sid" "tailroom s3 = tailroom s2 - length (sid_id sid)"
      "headroom s3 = headroom s2" "b_capacity s3 = b_capacity s2"
      by (rule buf_write_room)
    have c: "content s3 = ack_wire sid (take k (ack_ids ack))" "length (content s3) = sz"
      using False ids s0(2) s1(3) s2(6) s3(3) sz(2) sid(1) by (simp_all add: ack_wire_def sid_ok_def)
    have "headroom s3 = 0" using s3(5) h2 by simp
    with s3(2) have "b_data s3 = Some (content s3)"
      by (rule whole_buffer) (simp only: c(2) c2 s3(6))
    from sub(4) [OF this c(2)] obtain b3 where b3: "buf_sub_put b1 p s3 = Some b3" "buf_ok b3"
      "content b3 = (if prepend then content s3 @ content b else content b @ content s3)" by blast
    have "reliable_ack_write ack b sid max_n prepend =
        Some (ack\<lparr>ra_packet_id := ids', ra_len := int (l - k)\<rparr>, b3, True)"
      unfolding reliable_ack_write_def Let_def n uk sz(1)
      using sub(1) s1(1) s2(1) s3(1) b3(1) ids'(1) uk False sid(2) \<open>buf_defined s0\<close> l(1)
      by (simp add: session_id_write_def flip: s0_def)
    then show ?thesis using ack' b3 c(1) by auto
  qed
qed

lemma ack_read_ids_spec:
  "ack_ok ack \<Longrightarrow> buf_ok b \<Longrightarrow> content b = concat (map be32 ids) @ rest \<Longrightarrow>
   length (ack_ids ack) + length ids \<le> 8 \<Longrightarrow>
   \<exists>ack' b'. ack_read_ids (length ids) ack b = Some (ack', b', True) \<and> ack_ok ack' \<and> buf_ok b' \<and>
     ack_ids ack' = ack_ids ack @ ids \<and> content b' = rest"
proof (induction ids arbitrary: ack b)
  case (Cons i ids)
  have "content b = be32 i @ concat (map be32 ids) @ rest" "4 = int (length (be32 i))"
    using Cons.prems(3) by simp_all
  with Cons.prems(2) obtain b1 where b1: "buf_read b 4 = Some (b1, Some (be32 i))" "buf_ok b1"
    "content b1 = concat (map be32 ids) @ rest" "tailroom b1 = tailroom b"
    "headroom b1 = headroom b + length (be32 i)"
    by (rule buf.get_front)
  have len: "ra_len ack = int (length (ack_ids ack))"
    using Cons.prems(1) by (simp add: ack_ok_def ack_ids_def RELIABLE_ACK_SIZE_def) linarith
  then have "ra_len ack < RELIABLE_ACK_SIZE" using Cons.prems(4) by (simp add: RELIABLE_ACK_SIZE_def)
  then obtain a1 where a1: "ack_push ack i = Some a1" "ack_ok a1" "ack_ids a1 = ack_ids ack @ [i]"
    using ack_push_spec [OF Cons.prems(1)] by blast
  have "length (ack_ids a1) + length ids \<le> 8" using a1(3) Cons.prems(4) by simp
  from Cons.IH [OF a1(2) b1(2,3) this] show ?case
    using b1(1) a1(1,3) \<open>ra_len ack < RELIABLE_ACK_SIZE\<close> by auto
qed simp

definition ack_empty :: reliable_ack where
  "ack_empty = \<lparr>ra_len = 0, ra_packet_id = replicate 8 0\<rparr>"

lemma ack_empty_ok [simp]: "ack_ok ack_empty" "ack_ids ack_empty = []"
  by (simp_all add: ack_empty_def ack_ok_def ack_ids_def RELIABLE_ACK_SIZE_def)

lemma reliable_ack_read_spec:
  assumes b: "buf_ok b" "content b = ack_wire sid ids @ rest" and l: "length ids \<le> 8"
    and sid: "sid_ok sid" "session_id_defined sid"
  shows "\<exists>ack' b'. reliable_ack_read ack_empty b sid = Some (ack', b', True) \<and> ack_ok ack' \<and> buf_ok b' \<and>
    ack_ids ack' = ids \<and> content b' = rest"
proof -
  define k where "k = length ids"
  have "k < 256" using l by (simp add: k_def)
  note uk = byte_of_nat [OF this]
  define tl where "tl = (if ids = [] then [] else sid_id sid) @ rest"
  have "content b = [word_of_nat k] @ concat (map be32 ids) @ tl" "1 = int (length [word_of_nat k :: byte])"
    using b(2) by (simp_all add: ack_wire_def k_def tl_def)
  with b(1) obtain b1 where b1: "buf_read b 1 = Some (b1, Some [word_of_nat k])" "buf_ok b1"
    "content b1 = concat (map be32 ids) @ tl" "tailroom b1 = tailroom b"
    "headroom b1 = headroom b + length [word_of_nat k :: byte]"
    by (rule buf.get_front)
  obtain a2 b2 where r2: "ack_read_ids k ack_empty b1 = Some (a2, b2, True)" "ack_ok a2" "buf_ok b2"
    "ack_ids a2 = ids" "content b2 = tl"
    using ack_read_ids_spec [OF ack_empty_ok(1) b1(2,3)] l by (auto simp: k_def)
  show ?thesis
  proof (cases "ids = []")
    case True
    then have "reliable_ack_read ack_empty b sid = Some (a2, b2, True)"
      using b1(1) r2(1) uk by (simp add: reliable_ack_read_def Let_def k_def)
    then show ?thesis using r2 True by (simp add: tl_def)
  next
    case False
    then have "content b2 = sid_id sid @ rest" "SID_SIZE = int (length (sid_id sid))"
      using r2(5) sid(1) by (simp_all add: tl_def sid_ok_def SID_SIZE_def)
    with r2(3) obtain b3 where b3: "buf_read b2 SID_SIZE = Some (b3, Some (sid_id sid))" "buf_ok b3"
      "content b3 = rest" "tailroom b3 = tailroom b2" "headroom b3 = headroom b2 + length (sid_id sid)"
      by (rule buf.get_front)
    have "(word_of_nat k :: byte) \<noteq> 0" using uk(3) False by (simp add: k_def)
    then have "reliable_ack_read ack_empty b sid = Some (a2, b3, True)"
      using b1(1) r2(1) b3(1) sid(2) uk(1)
      by (simp add: reliable_ack_read_def session_id_read_def session_id_defined_def session_id_equal_def)
    then show ?thesis using r2 b3 by blast
  qed
qed

end
