(* ===== verification/Reliable_Channel.thy ===== *)
theory Reliable_Channel
  imports Reliable_Ack
begin

text \<open>
  The control channel of ssl.c as a transition system: a sender and a receiver of reliable.c over
  a network that loses, duplicates and reorders. The properties are in-order exactly-once
  delivery, no loss, no deadlock of the receive buffer and no fault in any reachable state.
\<close>

text \<open>
  C22. Acknowledgement records survive the wire: the ids that \<open>reliable_ack_write\<close> removes from
  the sender of the acknowledgement are, in order, those that \<open>reliable_ack_read\<close> delivers at
  the other end, and the ids it does not have room for stay queued.
\<close>

theorem ack_roundtrip:
  assumes "ack_ok ack" "buf_ok b" "sid_ok sid" "session_id_defined sid" "0 \<le> max_n" "max_n < 256"
    and "nat (ACK_SIZE (int (min (length (ack_ids ack)) (nat max_n)))) \<le> headroom b"
  shows "\<exists>ack1 b1 ack2 b2. reliable_ack_write ack b sid max_n True = Some (ack1, b1, True) \<and>
    reliable_ack_read ack_empty b1 sid = Some (ack2, b2, True) \<and>
    ack_ids ack2 @ ack_ids ack1 = ack_ids ack \<and> length (ack_ids ack2) \<le> nat max_n \<and>
    content b2 = content b"
proof -
  define k where "k = min (length (ack_ids ack)) (nat max_n)"
  have "nat (ACK_SIZE (int k)) \<le> (if True then headroom b else tailroom b)"
    using assms(7) by (simp add: k_def)
  from reliable_ack_write_spec [OF assms(1-6) k_def this]
  obtain ack1 b1 where w: "reliable_ack_write ack b sid max_n True = Some (ack1, b1, True)" "buf_ok b1"
    "ack_ids ack1 = drop k (ack_ids ack)" "content b1 = ack_wire sid (take k (ack_ids ack)) @ content b"
    by auto
  have "length (take k (ack_ids ack)) \<le> 8"
    using assms(1) by (simp add: ack_ids_def ack_ok_def RELIABLE_ACK_SIZE_def)
  from reliable_ack_read_spec [OF w(2,4) this assms(3,4)]
  obtain ack2 b2 where r: "reliable_ack_read ack_empty b1 sid = Some (ack2, b2, True)"
    "ack_ids ack2 = take k (ack_ids ack)" "content b2 = content b"
    by blast
  have "ack_ids ack2 @ ack_ids ack1 = ack_ids ack" "length (ack_ids ack2) \<le> nat max_n"
    using w(3) r(2) by (simp_all add: k_def)
  with w r show ?thesis by blast
qed

definition sample_sid :: session_id where
  "sample_sid = \<lparr>sid_id = [1, 2, 3, 4, 5, 6, 7, 8]\<rparr>"

definition sample_ack :: reliable_ack where
  "sample_ack = \<lparr>ra_len = 3, ra_packet_id = [9, 7, 8, 0, 0, 0, 0, 0]\<rparr>"

definition sample_packet :: buffer where
  "sample_packet = \<lparr>b_capacity = 40, b_offset = 38, b_len = 2, b_data = Some (replicate 40 3)\<rparr>"

theorem ack_roundtrip_witness:
  "\<exists>ack1 b1 ack2 b2. reliable_ack_write sample_ack sample_packet sample_sid 2 True = Some (ack1, b1, True) \<and>
    reliable_ack_read ack_empty b1 sample_sid = Some (ack2, b2, True) \<and>
    ack_ids ack2 @ ack_ids ack1 = [9, 7, 8] \<and> length (ack_ids ack2) \<le> 2 \<and> content b2 = [3, 3]"
proof -
  have ids: "ack_ids sample_ack = [9, 7, 8]" by (simp add: ack_ids_def sample_ack_def)
  have c: "content sample_packet = [3, 3]" by (simp add: sample_packet_def content_def numeral_2_eq_2)
  have "ack_ok sample_ack" "buf_ok sample_packet" "sid_ok sample_sid" "session_id_defined sample_sid"
    by (simp_all add: sample_ack_def ack_ok_def RELIABLE_ACK_SIZE_def sample_packet_def buf_ok_def
        BUF_SIZE_MAX_def sample_sid_def sid_ok_def session_id_defined_def x_session_id_zero_def
        eval_nat_numeral)
  moreover have "nat (ACK_SIZE (int (min (length (ack_ids sample_ack)) (nat 2)))) \<le> headroom sample_packet"
    unfolding ids by (simp add: ACK_SIZE_def SID_SIZE_def sample_packet_def)
  ultimately show ?thesis
    using ack_roundtrip [of sample_ack sample_packet sample_sid 2] unfolding ids c by simp
qed

subsection \<open>The control channel over an unreliable network\<close>

text \<open>The step of \<open>tls_pre_decrypt\<close> that processes the acknowledgements of a packet.\<close>

definition tls_incoming_acks :: "reliable \<Rightarrow> buffer \<Rightarrow> session_id \<Rightarrow> (reliable \<times> buffer \<times> bool) option" where
  "tls_incoming_acks send_rel buf sid = do {
     (send_ack, buf, ok) \<leftarrow> reliable_ack_read ack_empty buf sid;
     if ok then Some (reliable_send_purge send_rel send_ack, buf, True)
     else Some (send_rel, buf, False)
   }"

text \<open>
  One direction of the control channel: the sending layer, the receiving layer with its queue of
  acknowledgements, the packets and the acknowledgement records that were ever put on the
  network, and two ghosts: the payloads queued and the payloads handed to the receiving TLS object.
\<close>

record channel =
  ch_send :: reliable
  ch_rec :: reliable
  ch_ack :: reliable_ack
  ch_net :: "byte list set"
  ch_acks :: "byte list set"
  ch_sent :: "byte list list"
  ch_delivered :: "byte list list"

text \<open>
  The network forgets nothing and orders nothing: any packet ever sent may arrive at any time,
  any number of times, or never. \<open>bs\<close> is what the TLS object answers to a read of at most
  \<open>maxlen\<close> bytes, \<open>accept\<close> what it answers to a write.
\<close>

inductive chan_step :: "int \<Rightarrow> int \<Rightarrow> session_id \<Rightarrow> channel \<Rightarrow> channel \<Rightarrow> bool"
  for cap off :: int and sid :: session_id where
  queue: "tls_outgoing_ciphertext (ch_send c) (\<lambda>_. Bio_data bs) maxlen = Some (S, st) \<Longrightarrow> bs \<noteq> [] \<Longrightarrow>
     int (length bs) \<le> maxlen \<Longrightarrow> int (length bs) \<le> cap - off \<Longrightarrow>
     chan_step cap off sid c (c\<lparr>ch_send := S, ch_sent := ch_sent c @ (if st = 1 then [bs] else [])\<rparr>)"
| transmit: "reliable_send now (ch_send c) = (S, Some (i, op)) \<Longrightarrow>
     chan_step cap off sid c
       (c\<lparr>ch_send := S, ch_net := insert (content (e_buf (r_array S ! i))) (ch_net c)\<rparr>)"
| burst: "chan_step cap off sid c (c\<lparr>ch_send := reliable_schedule_now now (ch_send c)\<rparr>)"
| receive: "p \<in> ch_net c \<Longrightarrow> buf_ok b \<Longrightarrow> content b = p \<Longrightarrow>
     tls_incoming_control (ch_rec c) (ch_ack c) b op = Some (R, A, b', f) \<Longrightarrow>
     chan_step cap off sid c (c\<lparr>ch_rec := R, ch_ack := A\<rparr>)"
| deliver: "tls_incoming_ciphertext (ch_rec c) accept = Some (R, r) \<Longrightarrow>
     chan_step cap off sid c
       (c\<lparr>ch_rec := R, ch_delivered := ch_delivered c @ (case r of None \<Rightarrow> [] | Some bs \<Rightarrow> [bs])\<rparr>)"
| acknowledge: "buf_ok b \<Longrightarrow> content b = [] \<Longrightarrow> 0 \<le> max_n \<Longrightarrow> max_n < 256 \<Longrightarrow>
     nat (ACK_SIZE (int (min (length (ack_ids (ch_ack c))) (nat max_n)))) \<le> headroom b \<Longrightarrow>
     reliable_ack_write (ch_ack c) b sid max_n True = Some (A, b', True) \<Longrightarrow>
     chan_step cap off sid c (c\<lparr>ch_ack := A, ch_acks := insert (content b') (ch_acks c)\<rparr>)"
| purge: "p \<in> ch_acks c \<Longrightarrow> buf_ok b \<Longrightarrow> content b = p \<Longrightarrow>
     tls_incoming_acks (ch_send c) b sid = Some (S, b', ok) \<Longrightarrow>
     chan_step cap off sid c (c\<lparr>ch_send := S\<rparr>)"

definition chan_start :: "reliable \<Rightarrow> reliable \<Rightarrow> channel" where
  "chan_start S R = \<lparr>ch_send = S, ch_rec = R, ch_ack = ack_empty, ch_net = {}, ch_acks = {},
     ch_sent = [], ch_delivered = []\<rparr>"

inductive chan_reach :: "int \<Rightarrow> int \<Rightarrow> session_id \<Rightarrow> channel \<Rightarrow> channel \<Rightarrow> bool"
  for cap off :: int and sid :: session_id and c0 :: channel where
  start: "chan_reach cap off sid c0 c0"
| step: "chan_reach cap off sid c0 c \<Longrightarrow> chan_step cap off sid c c' \<Longrightarrow> chan_reach cap off sid c0 c'"

definition chan_inv :: "int \<Rightarrow> int \<Rightarrow> session_id \<Rightarrow> channel \<Rightarrow> bool" where
  "chan_inv cap off sid c \<longleftrightarrow>
     send_inv cap off (ch_send c) (ch_sent c) \<and>
     rec_inv cap off (ch_rec c) (ch_sent c) (length (ch_delivered c)) \<and>
     ch_delivered c = take (length (ch_delivered c)) (ch_sent c) \<and>
     (\<forall>x \<in> set (ch_sent c). int (length x) \<le> cap - off) \<and>
     (\<forall>p \<in> ch_net c. \<exists>n < length (ch_sent c). p = be32 (pid_of n) @ ch_sent c ! n) \<and>
     ack_ok (ch_ack c) \<and>
     (\<forall>i \<in> set (ack_ids (ch_ack c)). \<exists>n. i = pid_of n \<and>
        received (ch_sent c) (ch_rec c) (length (ch_delivered c)) n) \<and>
     (\<forall>p \<in> ch_acks c. \<exists>ids. p = ack_wire sid ids \<and> length ids \<le> 8 \<and>
        (\<forall>i \<in> set ids. \<exists>n. i = pid_of n \<and>
           received (ch_sent c) (ch_rec c) (length (ch_delivered c)) n)) \<and>
     (\<forall>n < length (ch_sent c). held (ch_send c) n \<or>
        received (ch_sent c) (ch_rec c) (length (ch_delivered c)) n)"

text \<open>What is acknowledged stays so when the receiver forgets nothing.\<close>

lemma received_mono:
  "received sent R d n \<Longrightarrow> (\<And>m. held R m \<Longrightarrow> m < length sent \<Longrightarrow> m < d' \<or> held R' m) \<Longrightarrow> d \<le> d' \<Longrightarrow>
   received (sent @ xs) R' d' n"
  by (auto simp: received_def)

lemma chan_inv_receiver:
  assumes inv: "chan_inv cap off sid c"
    and c': "c' = c\<lparr>ch_rec := R, ch_ack := A, ch_delivered := D\<rparr>"
    and rec: "rec_inv cap off R (ch_sent c) (length D)" "D = take (length D) (ch_sent c)"
      "length (ch_delivered c) \<le> length D"
      "\<And>m. held (ch_rec c) m \<Longrightarrow> m < length (ch_sent c) \<Longrightarrow> m < length D \<or> held R m"
    and ack: "ack_ok A" "\<And>i. i \<in> set (ack_ids A) \<Longrightarrow> i \<in> set (ack_ids (ch_ack c)) \<or>
       (\<exists>n. i = pid_of n \<and> received (ch_sent c) R (length D) n)"
  shows "chan_inv cap off sid c'"
proof -
  have mono: "received (ch_sent c) R (length D) n"
    if "received (ch_sent c) (ch_rec c) (length (ch_delivered c)) n" for n
    using received_mono [OF that rec(4,3), of "[]"] by simp
  have "\<exists>n. i = pid_of n \<and> received (ch_sent c) R (length D) n" if "i \<in> set (ack_ids A)" for i
    using ack(2) [OF that] mono inv unfolding chan_inv_def by blast
  moreover have "\<exists>ids. p = ack_wire sid ids \<and> length ids \<le> 8 \<and>
        (\<forall>i \<in> set ids. \<exists>n. i = pid_of n \<and> received (ch_sent c) R (length D) n)" if "p \<in> ch_acks c" for p
    using that mono inv unfolding chan_inv_def by meson
  moreover have "held (ch_send c) n \<or> received (ch_sent c) R (length D) n" if "n < length (ch_sent c)" for n
    using that mono inv unfolding chan_inv_def by blast
  ultimately show ?thesis
    using inv rec(1,2) ack(1) by (simp add: chan_inv_def c')
qed

lemma chan_inv_sender:
  assumes inv: "chan_inv cap off sid c"
    and c': "c' = c\<lparr>ch_send := S, ch_sent := ch_sent c @ xs, ch_net := N\<rparr>"
    and snd: "send_inv cap off S (ch_sent c @ xs)"
      "\<And>n. held (ch_send c) n \<Longrightarrow> n < length (ch_sent c) \<Longrightarrow> held S n \<or>
         received (ch_sent c @ xs) (ch_rec c) (length (ch_delivered c)) n"
      "\<And>n. length (ch_sent c) \<le> n \<Longrightarrow> n < length (ch_sent c @ xs) \<Longrightarrow> held S n"
    and fit: "\<forall>x \<in> set xs. int (length x) \<le> cap - off"
    and net: "\<And>p. p \<in> N \<Longrightarrow> p \<in> ch_net c \<or>
         (\<exists>n < length (ch_sent c @ xs). p = be32 (pid_of n) @ (ch_sent c @ xs) ! n)"
  shows "chan_inv cap off sid c'"
proof -
  let ?d = "length (ch_delivered c)"
  have mono: "received (ch_sent c @ xs) (ch_rec c) ?d n" if "received (ch_sent c) (ch_rec c) ?d n" for n
    using received_mono [OF that, of ?d "ch_rec c" xs] by simp
  have rec: "rec_inv cap off (ch_rec c) (ch_sent c) ?d" and d: "?d \<le> length (ch_sent c)"
    using inv by (simp_all add: chan_inv_def rec_inv_def)
  have "\<exists>n. ?d \<le> n \<and> n < ?d + nat (r_size (ch_rec c)) \<and> n < length (ch_sent c @ xs) \<and>
      e_packet_id (r_array (ch_rec c) ! i) = pid_of n \<and>
      content (e_buf (r_array (ch_rec c) ! i)) = (ch_sent c @ xs) ! n" if act: "active_at (ch_rec c) i" for i
  proof -
    obtain n where "?d \<le> n" "n < ?d + nat (r_size (ch_rec c))" "n < length (ch_sent c)"
      "e_packet_id (r_array (ch_rec c) ! i) = pid_of n" "content (e_buf (r_array (ch_rec c) ! i)) = ch_sent c ! n"
      using rec act unfolding rec_inv_def by metis
    then show ?thesis by (intro exI [of _ n]) (simp add: nth_append)
  qed
  with rec d have "rec_inv cap off (ch_rec c) (ch_sent c @ xs) ?d" by (simp add: rec_inv_def)
  moreover have "ch_delivered c = take ?d (ch_sent c @ xs)"
    using inv d by (simp add: chan_inv_def)
  moreover have "\<exists>n < length (ch_sent c @ xs). p = be32 (pid_of n) @ (ch_sent c @ xs) ! n" if "p \<in> N" for p
  proof -
    have "\<exists>n < length (ch_sent c @ xs). p = be32 (pid_of n) @ (ch_sent c @ xs) ! n" if old: "p \<in> ch_net c"
    proof -
      obtain n where "n < length (ch_sent c)" "p = be32 (pid_of n) @ ch_sent c ! n"
        using inv old unfolding chan_inv_def by blast
      then show ?thesis by (intro exI [of _ n]) (simp add: nth_append)
    qed
    with net [OF that] show ?thesis by blast
  qed
  moreover have "\<exists>n. i = pid_of n \<and> received (ch_sent c @ xs) (ch_rec c) ?d n" if "i \<in> set (ack_ids (ch_ack c))" for i
    using that mono inv unfolding chan_inv_def by blast
  moreover have "\<exists>ids. p = ack_wire sid ids \<and> length ids \<le> 8 \<and>
        (\<forall>i \<in> set ids. \<exists>n. i = pid_of n \<and> received (ch_sent c @ xs) (ch_rec c) ?d n)" if "p \<in> ch_acks c" for p
    using that mono inv unfolding chan_inv_def by meson
  moreover have "held S n \<or> received (ch_sent c @ xs) (ch_rec c) ?d n" if "n < length (ch_sent c @ xs)" for n
  proof (cases "n < length (ch_sent c)")
    case True
    then have "held (ch_send c) n \<or> received (ch_sent c) (ch_rec c) ?d n"
      using inv unfolding chan_inv_def by blast
    with snd(2) mono True show ?thesis by blast
  next
    case False
    with snd(3) that show ?thesis by simp
  qed
  ultimately show ?thesis
    using inv snd(1) fit by (auto simp: chan_inv_def c')
qed

lemma send_inv_same:
  assumes inv: "chan_inv cap off sid c" and same: "same_packets (ch_send c) S"
    and keep: "\<And>n. held (ch_send c) n \<Longrightarrow> n < length (ch_sent c) \<Longrightarrow> held S n \<or>
         received (ch_sent c) (ch_rec c) (length (ch_delivered c)) n"
  shows "chan_inv cap off sid (c\<lparr>ch_send := S\<rparr>)"
  using inv
proof (rule chan_inv_sender)
  show "c\<lparr>ch_send := S\<rparr> = c\<lparr>ch_send := S, ch_sent := ch_sent c @ [], ch_net := ch_net c\<rparr>" by simp
  show "send_inv cap off S (ch_sent c @ [])"
    using same_packets_inv [OF same] inv by (simp add: chan_inv_def)
qed (use keep in auto)

lemma chan_step_sent: "chan_step cap off sid c c' \<Longrightarrow> length (ch_sent c) \<le> length (ch_sent c')"
  by (induction rule: chan_step.induct) auto

lemma chan_step_inv:
  assumes "chan_step cap off sid c c'" "chan_inv cap off sid c" "length (ch_sent c') < 2 ^ 31"
    and sid: "sid_ok sid" "session_id_defined sid"
  shows "chan_inv cap off sid c'"
  using assms(1-3)
proof (induction rule: chan_step.induct)
  case (queue c bs maxlen S st)
  then have s: "send_inv cap off (ch_send c) (ch_sent c)" by (simp add: chan_inv_def)
  from tls_outgoing_sent [OF s queue(2,3,4)] queue(1)
  have "send_inv cap off S (ch_sent c @ (if st = 1 then [bs] else []))"
    "\<And>n. held (ch_send c) n \<Longrightarrow> held S n" "st = 1 \<longrightarrow> held S (length (ch_sent c))" by auto
  then show ?case
    using queue(4)
    by (intro chan_inv_sender [OF queue(5), where xs = "if st = 1 then [bs] else []" and N = "ch_net c"])
      (auto split: if_splits simp: le_Suc_eq less_Suc_eq_le)
next
  case (transmit now c S i op)
  note r = reliable_send_same [OF transmit(1)]
  have s: "send_inv cap off (ch_send c) (ch_sent c)" using transmit(2) by (simp add: chan_inv_def)
  have act: "active_at (ch_send c) i" using r by blast
  then obtain n where n: "n < length (ch_sent c)"
    "content (e_buf (r_array (ch_send c) ! i)) = be32 (pid_of n) @ ch_sent c ! n"
    using s unfolding send_inv_def by blast
  have "i < length (r_array (ch_send c))" using act by (simp add: active_at_def rel_entries_def)
  then have "content (e_buf (r_array S ! i)) = be32 (pid_of n) @ ch_sent c ! n"
    using r n(2) by (simp add: same_packets_def)
  then show ?case
    using same_packets_inv [OF conjunct1 [OF r] s] r n(1)
    by (intro chan_inv_sender [OF transmit(2), where xs = "[]"
          and N = "insert (content (e_buf (r_array S ! i))) (ch_net c)"]) auto
next
  case (burst c now)
  show ?case
    using reliable_schedule_now_same [of "ch_send c"] by (intro send_inv_same [OF burst(1)]) auto
next
  case (receive p c b op R A b' f)
  let ?d = "length (ch_delivered c)"
  have inv: "rec_inv cap off (ch_rec c) (ch_sent c) ?d" "ack_ok (ch_ack c)"
    using receive(5) by (simp_all add: chan_inv_def)
  obtain n where n: "n < length (ch_sent c)" "content b = be32 (pid_of n) @ ch_sent c ! n"
    using receive(1,3,5) unfolding chan_inv_def by blast
  have "length (ch_sent c) < 2 ^ 31" using receive(6) by simp
  from tls_incoming_filed [OF inv(1) this n(1) receive(2) n(2) inv(2), of op] receive(4)
  have r: "rec_inv cap off R (ch_sent c) ?d" "ack_ok A" "\<forall>m. held (ch_rec c) m \<longrightarrow> held R m"
    "\<forall>pid \<in> set (ack_ids A) - set (ack_ids (ch_ack c)). pid = pid_of n \<and> received (ch_sent c) R ?d n"
    by auto
  show ?case
    using receive(5) r
    by (intro chan_inv_receiver [OF receive(5), where R = R and A = A and D = "ch_delivered c"])
      (auto simp: chan_inv_def)
next
  case (deliver c accept R r)
  let ?d = "length (ch_delivered c)"
  have inv: "rec_inv cap off (ch_rec c) (ch_sent c) ?d" "ch_delivered c = take ?d (ch_sent c)" "ack_ok (ch_ack c)"
    using deliver(2) by (simp_all add: chan_inv_def)
  have b31: "length (ch_sent c) < 2 ^ 31" using deliver(3) by simp
  show ?case
  proof (cases r)
    case None
    then have "R = ch_rec c"
      using tls_incoming_ciphertext_next [OF inv(1) b31, of accept] deliver(1) by auto
    with None deliver(2) show ?thesis by simp
  next
    case (Some bs)
    then have r: "?d < length (ch_sent c)" "bs = ch_sent c ! ?d" "rec_inv cap off R (ch_sent c) (Suc ?d)"
      "\<forall>m. held (ch_rec c) m \<longrightarrow> m < length (ch_sent c) \<longrightarrow> m = ?d \<or> held R m"
      using tls_incoming_ciphertext_next [OF inv(1) b31, of accept] deliver(1) by auto
    define D where "D = ch_delivered c @ [bs]"
    have D: "length D = Suc ?d" "D = take (Suc ?d) (ch_sent c)"
      using r(1,2) inv(2) by (simp_all add: D_def take_Suc_conv_app_nth)
    have "chan_inv cap off sid (c\<lparr>ch_rec := R, ch_ack := ch_ack c, ch_delivered := D\<rparr>)"
    proof (rule chan_inv_receiver [OF deliver(2) refl])
      show "D = take (length D) (ch_sent c)" unfolding D(1) by (rule D(2))
    qed (use r(3,4) inv(3) D(1) in auto)
    then show ?thesis using Some by (simp add: D_def)
  qed
next
  case (acknowledge b max_n c A b')
  define k where "k = min (length (ack_ids (ch_ack c))) (nat max_n)"
  have ok: "ack_ok (ch_ack c)" using acknowledge(7) by (simp add: chan_inv_def)
  have "nat (ACK_SIZE (int k)) \<le> (if True then headroom b else tailroom b)"
    using acknowledge(5) by (simp add: k_def)
  from reliable_ack_write_spec [OF ok acknowledge(1) sid acknowledge(3,4) k_def this] acknowledge(6,2)
  have w: "ack_ok A" "ack_ids A = drop k (ack_ids (ch_ack c))" "content b' = ack_wire sid (take k (ack_ids (ch_ack c)))"
    by auto
  have k8: "length (take k (ack_ids (ch_ack c))) \<le> 8"
    using ok by (simp add: ack_ids_def ack_ok_def RELIABLE_ACK_SIZE_def)
  let ?ok = "\<lambda>i. \<exists>n. i = pid_of n \<and> received (ch_sent c) (ch_rec c) (length (ch_delivered c)) n"
  have all: "\<forall>i \<in> set (ack_ids (ch_ack c)). ?ok i"
    using acknowledge(7) unfolding chan_inv_def by blast
  then have "\<forall>i \<in> set (take k (ack_ids (ch_ack c))). ?ok i" by (meson in_set_takeD)
  with w(3) k8 have new: "\<exists>ids. content b' = ack_wire sid ids \<and> length ids \<le> 8 \<and> (\<forall>i \<in> set ids. ?ok i)"
    by blast
  have kept: "\<forall>i \<in> set (ack_ids A). ?ok i" unfolding w(2) using all by (meson in_set_dropD)
  show ?case
    using acknowledge(7) w(1) new kept by (simp add: chan_inv_def)
next
  case (purge p c b S b' ok)
  let ?d = "length (ch_delivered c)"
  obtain ids where ids: "content b = ack_wire sid ids @ []" "length ids \<le> 8"
    "\<forall>i \<in> set ids. \<exists>n. i = pid_of n \<and> received (ch_sent c) (ch_rec c) ?d n"
    using purge(1,3,5) unfolding chan_inv_def by auto
  obtain ack' b2 where r: "reliable_ack_read ack_empty b sid = Some (ack', b2, True)" "ack_ids ack' = ids"
    using reliable_ack_read_spec [OF purge(2) ids(1,2) sid] by blast
  then have S: "S = purge_ids (ch_send c) ids"
    using purge(4) by (simp add: tls_incoming_acks_def reliable_send_purge_def ack_ids_def)
  note same = purge_ids_same [of "ch_send c" ids]
  have bound: "length (ch_sent c) < 2 ^ 31" using purge(6) by simp
  show ?case
  proof (rule send_inv_same [OF purge(5)])
    show "same_packets (ch_send c) S" using same S by simp
    fix n assume h: "held (ch_send c) n" and n: "n < length (ch_sent c)"
    show "held S n \<or> received (ch_sent c) (ch_rec c) ?d n"
    proof (cases "pid_of n \<in> set ids")
      case False
      with h same S show ?thesis by blast
    next
      case True
      then obtain m where m: "pid_of n = pid_of m" "received (ch_sent c) (ch_rec c) ?d m" using ids(3) by blast
      have mb: "m < length (ch_sent c)" using m(2) by (simp add: received_def)
      moreover from n mb bound have "n < 2 ^ 32" "m < 2 ^ 32" by simp_all
      ultimately have "n = m" using m(1) by (simp only: pid_eq)
      with m show ?thesis by simp
    qed
  qed
qed

lemma chan_reach_inv:
  assumes "chan_reach cap off sid c0 c" "chan_inv cap off sid c0" "length (ch_sent c) < 2 ^ 31"
    "sid_ok sid" "session_id_defined sid"
  shows "chan_inv cap off sid c"
  using assms(1-3)
proof (induction rule: chan_reach.induct)
  case (step c c')
  then show ?case
    using chan_step_inv [OF step(2) _ step(5) assms(4,5)] chan_step_sent [OF step(2)] by simp
qed

lemma chan_start_inv:
  assumes "reliable_init cap off n hold = Some S" "reliable_init cap off m False = Some R" "4 \<le> off"
  shows "chan_inv cap off sid (chan_start (reliable_set_timeout S t) R)"
proof -
  note s = reliable_init_wf [OF assms(1,3)] and r = reliable_init_wf [OF assms(2,3)]
  have "rel_wf cap (reliable_set_timeout S t)" "r_packet_id (reliable_set_timeout S t) = 0"
    "r_offset (reliable_set_timeout S t) = off" "\<not> active_at (reliable_set_timeout S t) i" for i
    using s by (simp_all add: reliable_set_timeout_def rel_wf_def active_at_def rel_entries_def)
  then show ?thesis
    using r by (simp add: chan_inv_def chan_start_def send_inv_def rec_inv_def)
qed

text \<open>
  C18. In-order, exactly-once delivery: whatever the network loses, duplicates, delays or reorders,
  and however the two ends interleave queueing, sending, resending, receiving, delivering and
  acknowledging, the payloads handed to the receiving TLS object are a prefix of those queued by
  the sender, as long as fewer than 2^31 packets are queued.
\<close>

theorem channel_delivers_in_order:
  assumes "reliable_init cap off n hold = Some S" "reliable_init cap off m False = Some R" "4 \<le> off"
    and "sid_ok sid" "session_id_defined sid"
    and "chan_reach cap off sid (chan_start (reliable_set_timeout S t) R) c"
    and "length (ch_sent c) < 2 ^ 31"
  shows "ch_delivered c = take (length (ch_delivered c)) (ch_sent c)"
  using chan_reach_inv [OF assms(6) chan_start_inv [OF assms(1,2,3)] assms(7,4,5)]
  unfolding chan_inv_def by blast

text \<open>
  C19. No packet is lost by the acknowledgement protocol: each queued packet is still held for
  retransmission by the sender, or waits in the receive buffer, or has been delivered.
\<close>

theorem channel_loses_nothing:
  assumes "reliable_init cap off n hold = Some S" "reliable_init cap off m False = Some R" "4 \<le> off"
    and "sid_ok sid" "session_id_defined sid"
    and "chan_reach cap off sid (chan_start (reliable_set_timeout S t) R) c"
    and "length (ch_sent c) < 2 ^ 31" "k < length (ch_sent c)"
  shows "held (ch_send c) k \<or> held (ch_rec c) k \<or> k < length (ch_delivered c)"
  using chan_reach_inv [OF assms(6) chan_start_inv [OF assms(1,2,3)] assms(7,4,5)] assms(8)
  unfolding chan_inv_def received_def by blast

text \<open>
  C20. The receive buffer cannot deadlock: in any reachable state, if the next packet in sequence
  arrives it is filed (there is room for it, it is in range and not taken for a replay) and can
  be delivered at once.
\<close>

theorem channel_progress:
  assumes "reliable_init cap off n hold = Some S" "reliable_init cap off m False = Some R" "4 \<le> off"
    and "sid_ok sid" "session_id_defined sid"
    and "chan_reach cap off sid (chan_start (reliable_set_timeout S t) R) c"
    and "length (ch_sent c) < 2 ^ 31" "d = length (ch_delivered c)" "d < length (ch_sent c)"
    and "buf_ok b" "content b = be32 (pid_of d) @ ch_sent c ! d" "op \<noteq> P_ACK_V1"
  shows "\<exists>R A b' f R'. tls_incoming_control (ch_rec c) (ch_ack c) b op = Some (R, A, b', f) \<and>
    tls_incoming_ciphertext R (\<lambda>_. 1) = Some (R', Some (ch_sent c ! d))"
proof -
  have inv: "chan_inv cap off sid c"
    using chan_reach_inv [OF assms(6) chan_start_inv [OF assms(1,2,3)] assms(7,4,5)] .
  then have i: "rec_inv cap off (ch_rec c) (ch_sent c) d" "ack_ok (ch_ack c)"
    "int (length (ch_sent c ! d)) \<le> cap - off"
    using assms(8,9) by (simp_all add: chan_inv_def)
  obtain R A b' f where r: "tls_incoming_control (ch_rec c) (ch_ack c) b op = Some (R, A, b', f)"
    "rec_inv cap off R (ch_sent c) d" "held R d"
    using tls_incoming_filed [OF i(1) assms(7,9,10,11) i(2), of op] i(3) assms(12) by blast
  obtain R' x where x: "tls_incoming_ciphertext R (\<lambda>_. 1) = Some (R', x)"
    "case x of None \<Rightarrow> R' = R \<and> (held R d \<longrightarrow> (1 :: int) \<noteq> 1) | Some bs \<Rightarrow> bs = ch_sent c ! d"
    using tls_incoming_ciphertext_next [OF r(2) assms(7), of "\<lambda>_. 1"] by (auto split: option.splits)
  with r show ?thesis by (cases x) auto
qed

text \<open>
  C21. No assertion of the reliability layer fails and no buffer is overrun in any reachable state. Queueing what the TLS
  object has to say returns (it may refuse, fail, or give any number of bytes up to the size it is asked for); after
  \<open>reliable_can_send\<close> there is a packet to send; every packet that can arrive is processed, and so
  is every acknowledgement record; handing the next packet to the TLS object returns; and the
  acknowledgements can be written in front of or behind whatever a buffer with room for them holds.
\<close>

theorem channel_no_faults:
  assumes "reliable_init cap off n hold = Some S" "reliable_init cap off m False = Some R" "4 \<le> off"
    and "sid_ok sid" "session_id_defined sid"
    and "chan_reach cap off sid (chan_start (reliable_set_timeout S t) R) c"
    and "length (ch_sent c) < 2 ^ 31"
  shows "(\<forall>bio maxlen. bio_fits bio \<longrightarrow> tls_outgoing_ciphertext (ch_send c) bio maxlen \<noteq> None) \<and>
    (\<forall>ts. reliable_can_send ts (ch_send c) \<longrightarrow> (\<exists>S' i op. reliable_send ts (ch_send c) = (S', Some (i, op)))) \<and>
    (\<forall>p \<in> ch_net c. \<forall>b op. buf_ok b \<and> content b = p \<longrightarrow> tls_incoming_control (ch_rec c) (ch_ack c) b op \<noteq> None) \<and>
    (\<forall>accept. tls_incoming_ciphertext (ch_rec c) accept \<noteq> None) \<and>
    (\<forall>b max_n pre. buf_ok b \<and> 0 \<le> max_n \<and> max_n < 256 \<and>
       nat (ACK_SIZE (int (min (length (ack_ids (ch_ack c))) (nat max_n)))) \<le> (if pre then headroom b else tailroom b) \<longrightarrow>
       (\<exists>A b'. reliable_ack_write (ch_ack c) b sid max_n pre = Some (A, b', True))) \<and>
    (\<forall>q \<in> ch_acks c. \<forall>b. buf_ok b \<and> content b = q \<longrightarrow> tls_incoming_acks (ch_send c) b sid \<noteq> None)"
proof (intro conjI ballI allI impI)
  have inv: "chan_inv cap off sid c"
    using chan_reach_inv [OF assms(6) chan_start_inv [OF assms(1,2,3)] assms(7,4,5)] .
  let ?d = "length (ch_delivered c)"
  have i: "send_inv cap off (ch_send c) (ch_sent c)" "rec_inv cap off (ch_rec c) (ch_sent c) ?d"
    "ack_ok (ch_ack c)" using inv by (simp_all add: chan_inv_def)
  show "tls_outgoing_ciphertext (ch_send c) bio maxlen \<noteq> None" if "bio_fits bio" for bio maxlen
    using tls_outgoing_total [OF i(1) that] .
  show "\<exists>S' i op. reliable_send ts (ch_send c) = (S', Some (i, op))" if "reliable_can_send ts (ch_send c)" for ts
    using reliable_send_total [OF that] .
  show "tls_incoming_control (ch_rec c) (ch_ack c) b op \<noteq> None"
    if p: "p \<in> ch_net c" "buf_ok b \<and> content b = p" for p b op
  proof -
    obtain k where k: "k < length (ch_sent c)" "content b = be32 (pid_of k) @ ch_sent c ! k"
      using inv p unfolding chan_inv_def by blast
    show ?thesis
      using tls_incoming_filed [OF i(2) assms(7) k(1) conjunct1 [OF p(2)] k(2) i(3), of op] by auto
  qed
  show "tls_incoming_ciphertext (ch_rec c) accept \<noteq> None" for accept
    using tls_incoming_ciphertext_next [OF i(2) assms(7), of accept] by auto
  show "\<exists>A b'. reliable_ack_write (ch_ack c) b sid max_n pre = Some (A, b', True)"
    if "buf_ok b \<and> 0 \<le> max_n \<and> max_n < 256 \<and>
       nat (ACK_SIZE (int (min (length (ack_ids (ch_ack c))) (nat max_n)))) \<le> (if pre then headroom b else tailroom b)"
    for b max_n pre
    using reliable_ack_write_spec [OF i(3) _ assms(4,5) _ _ refl, of b max_n pre] that by blast
  show "tls_incoming_acks (ch_send c) b sid \<noteq> None" if q: "q \<in> ch_acks c" "buf_ok b \<and> content b = q" for q b
  proof -
    obtain ids where ids: "content b = ack_wire sid ids @ []" "length ids \<le> 8"
      using inv q unfolding chan_inv_def by auto
    show ?thesis
      using reliable_ack_read_spec [OF conjunct1 [OF q(2)] ids assms(4,5)] by (auto simp: tls_incoming_acks_def)
  qed
qed

subsection \<open>A concrete exchange\<close>

definition demo_send0 :: reliable where
  "demo_send0 = the (reliable_init 30 8 4 False)"

definition demo_rec0 :: reliable where
  "demo_rec0 = the (reliable_init 30 8 8 False)"

definition demo_queued :: "reliable \<times> int" where
  "demo_queued = the (tls_outgoing_ciphertext (reliable_set_timeout demo_send0 2) (\<lambda>_. Bio_data [1, 2, 3]) 20)"

definition demo_sent :: "reliable \<times> (nat \<times> int) option" where
  "demo_sent = reliable_send 10 (fst demo_queued)"

definition demo_packet :: buffer where
  "demo_packet = \<lparr>b_capacity = 7, b_offset = 0, b_len = 7, b_data = Some [0, 0, 0, 0, 1, 2, 3]\<rparr>"

definition demo_filed :: "reliable \<times> reliable_ack \<times> buffer \<times> bool" where
  "demo_filed = the (tls_incoming_control demo_rec0 ack_empty demo_packet P_CONTROL_V1)"

definition demo_acked :: "reliable_ack \<times> buffer \<times> bool" where
  "demo_acked = the (reliable_ack_write (fst (snd demo_filed))
     \<lparr>b_capacity = 30, b_offset = 30, b_len = 0, b_data = Some (replicate 30 0)\<rparr> sample_sid 4 True)"

definition demo_channel :: channel where
  "demo_channel = \<lparr>ch_send = fst demo_sent, ch_rec = fst demo_filed, ch_ack = fst demo_acked,
     ch_net = {[0, 0, 0, 0, 1, 2, 3]}, ch_acks = {[1, 0, 0, 0, 0, 1, 2, 3, 4, 5, 6, 7, 8]},
     ch_sent = [[1, 2, 3]], ch_delivered = []\<rparr>"

lemma demo_facts:
  "reliable_init 30 8 4 False = Some demo_send0" "reliable_init 30 8 8 False = Some demo_rec0"
  "sid_ok sample_sid" "session_id_defined sample_sid"
  by code_simp+

lemma demo_steps:
  "tls_outgoing_ciphertext (reliable_set_timeout demo_send0 2) (\<lambda>_. Bio_data [1, 2, 3]) 20 =
     Some (fst demo_queued, 1)"
  "reliable_send 10 (fst demo_queued) = (fst demo_sent, Some (0, 4))"
  "content (e_buf (r_array (fst demo_sent) ! 0)) = [0, 0, 0, 0, 1, 2, 3]"
  "tls_incoming_control demo_rec0 ack_empty demo_packet P_CONTROL_V1 =
     Some (fst demo_filed, fst (snd demo_filed), fst (snd (snd demo_filed)), True)"
  "reliable_ack_write (fst (snd demo_filed))
     \<lparr>b_capacity = 30, b_offset = 30, b_len = 0, b_data = Some (replicate 30 0)\<rparr> sample_sid 4 True =
     Some (fst demo_acked, fst (snd demo_acked), True)"
  "content (fst (snd demo_acked)) = [1, 0, 0, 0, 0, 1, 2, 3, 4, 5, 6, 7, 8]"
  "ack_ids (fst (snd demo_filed)) = [0]"
  by code_simp+

lemma demo_reach:
  "chan_reach 30 8 sample_sid (chan_start (reliable_set_timeout demo_send0 2) demo_rec0) demo_channel"
proof -
  let ?c0 = "chan_start (reliable_set_timeout demo_send0 2) demo_rec0"
  let ?step = "chan_step 30 8 sample_sid" and ?reach = "chan_reach 30 8 sample_sid ?c0"
  let ?c1 = "?c0\<lparr>ch_send := fst demo_queued, ch_sent := [[1, 2, 3]]\<rparr>"
  let ?c2 = "?c1\<lparr>ch_send := fst demo_sent, ch_net := {[0, 0, 0, 0, 1, 2, 3]}\<rparr>"
  let ?c3 = "?c2\<lparr>ch_rec := fst demo_filed, ch_ack := fst (snd demo_filed)\<rparr>"
  have "?step ?c0 ?c1"
    using chan_step.queue [of ?c0 "[1, 2, 3]" 20 "fst demo_queued" 1 30 8 sample_sid] demo_steps(1)
    by (simp add: chan_start_def)
  moreover have "?step ?c1 ?c2"
    using chan_step.transmit [of 10 ?c1 "fst demo_sent" 0 4 30 8 sample_sid] demo_steps(2,3)
    by (simp add: chan_start_def)
  moreover have "buf_ok demo_packet" "content demo_packet = [0, 0, 0, 0, 1, 2, 3]"
    by (simp_all add: demo_packet_def buf_ok_def BUF_SIZE_MAX_def content_def)
  then have "?step ?c2 ?c3"
    using chan_step.receive [of "[0, 0, 0, 0, 1, 2, 3]" ?c2 demo_packet P_CONTROL_V1 "fst demo_filed"
        "fst (snd demo_filed)" "fst (snd (snd demo_filed))" True 30 8 sample_sid] demo_steps(4)
    by (simp add: chan_start_def)
  moreover have "buf_ok \<lparr>b_capacity = 30, b_offset = 30, b_len = 0, b_data = Some (replicate 30 0)\<rparr>"
    by (simp add: buf_ok_def BUF_SIZE_MAX_def)
  then have "?step ?c3 demo_channel"
    using chan_step.acknowledge [of "\<lparr>b_capacity = 30, b_offset = 30, b_len = 0, b_data = Some (replicate 30 0)\<rparr>"
        4 ?c3 sample_sid "fst demo_acked" "fst (snd demo_acked)" 30 8] demo_steps(5-7)
    by (simp add: chan_start_def demo_channel_def content_def ACK_SIZE_def SID_SIZE_def)
  ultimately show ?thesis
    by (meson chan_reach.start chan_reach.step)
qed

theorem channel_delivers_in_order_witness:
  "chan_reach 30 8 sample_sid (chan_start (reliable_set_timeout demo_send0 2) demo_rec0) demo_channel \<and>
   ch_delivered demo_channel = take 0 [[1, 2, 3]]"
  using channel_delivers_in_order [OF demo_facts(1,2) _ demo_facts(3,4) demo_reach] demo_reach
  by (simp add: demo_channel_def)

theorem channel_loses_nothing_witness:
  "held (ch_send demo_channel) 0 \<or> held (ch_rec demo_channel) 0"
  using channel_loses_nothing [OF demo_facts(1,2) _ demo_facts(3,4) demo_reach, of 0]
  by (simp add: demo_channel_def)

theorem channel_progress_witness:
  "\<exists>R A b' f R'. tls_incoming_control (ch_rec demo_channel) (ch_ack demo_channel) demo_packet P_CONTROL_V1 =
     Some (R, A, b', f) \<and> tls_incoming_ciphertext R (\<lambda>_. 1) = Some (R', Some [1, 2, 3])"
proof -
  have "buf_ok demo_packet" "content demo_packet = be32 (pid_of 0) @ ch_sent demo_channel ! 0"
    "P_CONTROL_V1 \<noteq> P_ACK_V1"
    by (simp_all add: demo_packet_def buf_ok_def BUF_SIZE_MAX_def content_def demo_channel_def be32_def
        P_CONTROL_V1_def P_ACK_V1_def)
  from channel_progress [OF demo_facts(1,2) _ demo_facts(3,4) demo_reach _ _ _ this(1,2,3)]
  show ?thesis by (simp add: demo_channel_def)
qed

theorem channel_no_faults_witness:
  "tls_outgoing_ciphertext (ch_send demo_channel) (\<lambda>len. if len < 2 then Bio_retry else Bio_data [7, 8]) 20 \<noteq> None \<and>
   tls_incoming_control (ch_rec demo_channel) (ch_ack demo_channel) demo_packet P_CONTROL_V1 \<noteq> None \<and>
   tls_incoming_ciphertext (ch_rec demo_channel) (\<lambda>_. 0) \<noteq> None \<and>
   (\<exists>A b'. reliable_ack_write (ch_ack demo_channel) sample_packet sample_sid 4 True = Some (A, b', True)) \<and>
   tls_incoming_acks (ch_send demo_channel)
     \<lparr>b_capacity = 13, b_offset = 0, b_len = 13, b_data = Some [1, 0, 0, 0, 0, 1, 2, 3, 4, 5, 6, 7, 8]\<rparr>
     sample_sid \<noteq> None"
proof -
  let ?b = "\<lparr>b_capacity = 13, b_offset = 0, b_len = 13, b_data = Some [1, 0, 0, 0, 0, 1, 2, 3, 4, 5, 6, 7, 8 :: byte]\<rparr>"
  have b: "buf_ok demo_packet" "content demo_packet = [0, 0, 0, 0, 1, 2, 3]"
    "[0, 0, 0, 0, 1, 2, 3] \<in> ch_net demo_channel"
    "[1, 0, 0, 0, 0, 1, 2, 3, 4, 5, 6, 7, 8] \<in> ch_acks demo_channel"
    "length (ch_sent demo_channel) < 2 ^ 31" "buf_ok ?b" "content ?b = [1, 0, 0, 0, 0, 1, 2, 3, 4, 5, 6, 7, 8]"
    "buf_ok sample_packet" "headroom sample_packet = 38"
    by (simp_all add: demo_packet_def buf_ok_def BUF_SIZE_MAX_def content_def demo_channel_def sample_packet_def)
  have bio: "bio_fits (\<lambda>len. if len < 2 then Bio_retry else Bio_data [7, 8])"
    by (simp add: bio_fits_def)
  have "nat (ACK_SIZE (int (min (length (ack_ids (ch_ack demo_channel))) (nat 4)))) \<le> 38"
    by (auto simp: ACK_SIZE_def SID_SIZE_def nat_le_iff min_def)
  then show ?thesis
    using channel_no_faults [OF demo_facts(1,2) _ demo_facts(3,4) demo_reach b(5)] b bio by auto
qed

end
