(* ===== verification/Pool.thy ===== *)
theory Pool
  imports Prelude
begin

text \<open>
  pool.h and pool.c: the pool of virtual addresses that a server hands to its clients, with
  \<open>add_in6_addr\<close> of socket.c. \<open>in_addr_t\<close> is a 32-bit word in host order, \<open>struct in6_addr\<close> its 16
  bytes, a handle the index of an entry (-1 for none). \<open>common_name\<close> is \<open>None\<close> for the null
  pointer. The status file of the persistent pool is not modelled.
\<close>

type_synonym in_addr_t = u32

definition IFCONFIG_POOL_MAX :: int where "IFCONFIG_POOL_MAX = 65536"

datatype pool_type = IFCONFIG_POOL_30NET | IFCONFIG_POOL_INDIV

record ifconfig_pool_entry =
  in_use :: bool
  common_name :: "string option"
  last_release :: time_t
  fixed :: bool

record ifconfig_pool =
  duplicate_cn :: bool
  ipv4_type :: pool_type
  ipv4_base :: in_addr_t
  ipv4_size :: int
  ipv6_enabled :: bool
  ipv6_base :: "byte list"
  ipv6_size :: int
  pool_list :: "ifconfig_pool_entry list"

subsection \<open>IPv6 addresses\<close>

text \<open>The loop of \<open>add_in6_addr\<close> from byte \<open>n - 1\<close> down; \<open>add\<close> is a \<open>uint32_t\<close>.\<close>

fun add_in6_loop :: "nat \<Rightarrow> byte list \<Rightarrow> u32 \<Rightarrow> byte list" where
  "add_in6_loop 0 base add = base"
| "add_in6_loop (Suc i) base add =
     (if add > 0 then
        (let h = (ucast (base ! i) :: u32);
             base = base[i := ucast ((h + add) AND 0xFF)];
             carry = drop_bit 8 ((h AND 0xFF) + (add AND 0xFF))
         in add_in6_loop i base (drop_bit 8 add + carry))
      else base)"

definition add_in6_addr :: "byte list \<Rightarrow> u32 \<Rightarrow> byte list" where
  "add_in6_addr base add = add_in6_loop 16 base add"

definition in6addr_any :: "byte list" where
  "in6addr_any = replicate 16 0"

subsection \<open>Entries\<close>

definition ifconfig_pool_entry_free ::
  "time_t \<Rightarrow> ifconfig_pool_entry \<Rightarrow> bool \<Rightarrow> ifconfig_pool_entry" where
  "ifconfig_pool_entry_free now ipe hard =
     (let ipe = ipe\<lparr>in_use := False\<rparr>;
          ipe = (if hard \<and> common_name ipe \<noteq> None then ipe\<lparr>common_name := None\<rparr> else ipe)
      in if hard then ipe\<lparr>last_release := 0\<rparr> else ipe\<lparr>last_release := now\<rparr>)"

text \<open>
  The loop of \<open>ifconfig_pool_find\<close>: its state is \<open>earliest_release\<close>, \<open>previous_usage\<close> and
  \<open>new_usage\<close>; \<open>i\<close> is the index of the first entry of the list.
\<close>

fun pool_find_loop ::
  "bool \<Rightarrow> string option \<Rightarrow> int \<Rightarrow> ifconfig_pool_entry list \<Rightarrow> time_t \<Rightarrow> int \<Rightarrow> int \<Rightarrow> int \<times> int" where
  "pool_find_loop dup cn i [] earliest previous new = (previous, new)"
| "pool_find_loop dup cn i (ipe # ipes) earliest previous new =
     (if \<not> in_use ipe then
        (if dup then (previous, i)
         else
           (let (earliest, new) =
                  (if (new = -1 \<or> last_release ipe < earliest) \<and> \<not> fixed ipe
                   then (last_release ipe, i) else (earliest, new));
                previous =
                  (if previous < 0 \<and> cn \<noteq> None \<and> common_name ipe \<noteq> None \<and> cn = common_name ipe
                   then i else previous)
            in pool_find_loop dup cn (i + 1) ipes earliest previous new))
      else pool_find_loop dup cn (i + 1) ipes earliest previous new)"

definition ifconfig_pool_find :: "ifconfig_pool \<Rightarrow> string option \<Rightarrow> int" where
  "ifconfig_pool_find pool cn =
     (case pool_find_loop (duplicate_cn pool) cn 0 (take (nat (ipv4_size pool)) (pool_list pool)) 0 (-1) (-1) of
        (previous, new) \<Rightarrow> if previous \<ge> 0 then previous else if new \<ge> 0 then new else -1)"

subsection \<open>Set-up\<close>

definition ifconfig_pool_verify_range :: "in_addr_t \<Rightarrow> in_addr_t \<Rightarrow> bool" where
  "ifconfig_pool_verify_range start stop \<longleftrightarrow>
     \<not> start > stop \<and> \<not> stop - start \<ge> word_of_int IFCONFIG_POOL_MAX"

definition empty_entry :: ifconfig_pool_entry where
  "empty_entry = \<lparr>in_use = False, common_name = None, last_release = 0, fixed = False\<rparr>"

definition ifconfig_pool_init ::
  "pool_type \<Rightarrow> in_addr_t \<Rightarrow> in_addr_t \<Rightarrow> bool \<Rightarrow> bool \<Rightarrow> byte list \<Rightarrow> int \<Rightarrow> ifconfig_pool option" where
  "ifconfig_pool_init type start stop dup v6 base6 netbits = do {
     c_assert (start \<le> stop \<and> stop - start < word_of_int IFCONFIG_POOL_MAX);
     let (base, size) =
       (case type of
          IFCONFIG_POOL_30NET \<Rightarrow>
            (let base = start AND NOT 3 in (base, uint (drop_bit 2 (((stop OR 3) + 1) - base))))
        | IFCONFIG_POOL_INDIV \<Rightarrow> (start, uint (stop - start + 1)));
     let size6 = (if netbits > 96 then 2 ^ nat (128 - netbits) else IFCONFIG_POOL_MAX);
     c_assert (v6 \<longrightarrow> size < size6);
     Some \<lparr>duplicate_cn = dup, ipv4_type = type, ipv4_base = base, ipv4_size = size,
           ipv6_enabled = v6, ipv6_base = (if v6 then base6 else in6addr_any),
           ipv6_size = (if v6 then size6 else 0), pool_list = replicate (nat size) empty_entry\<rparr>
   }"

subsection \<open>Acquire and release\<close>

record lease =
  l_local :: in_addr_t
  l_remote :: in_addr_t
  l_remote_ipv6 :: "byte list option"

definition pool_upd :: "ifconfig_pool \<Rightarrow> int \<Rightarrow> (ifconfig_pool_entry \<Rightarrow> ifconfig_pool_entry) \<Rightarrow> ifconfig_pool" where
  "pool_upd pool i f = pool\<lparr>pool_list := (pool_list pool)[nat i := f (pool_list pool ! nat i)]\<rparr>"

text \<open>
  The result holds the addresses stored through the pointer arguments, when a handle was found.
  \<open>want6\<close> tells whether the caller passes a place for the IPv6 address.
\<close>

definition ifconfig_pool_acquire ::
  "time_t \<Rightarrow> ifconfig_pool \<Rightarrow> bool \<Rightarrow> string option \<Rightarrow> (ifconfig_pool \<times> int \<times> lease option) option" where
  "ifconfig_pool_acquire now pool want6 cn =
     (let i = ifconfig_pool_find pool cn in
      if i \<ge> 0 then do {
        c_assert (\<not> in_use (pool_list pool ! nat i));
        let pool = pool_upd pool i (\<lambda>ipe.
          let ipe = (ifconfig_pool_entry_free now ipe True)\<lparr>in_use := True\<rparr>
          in if cn \<noteq> None then ipe\<lparr>common_name := cn\<rparr> else ipe);
        let (loc, rem) =
          (case ipv4_type pool of
             IFCONFIG_POOL_30NET \<Rightarrow>
               (let b = ipv4_base pool + word_of_int (i * 4) in (b + 1, b + 2))
           | IFCONFIG_POOL_INDIV \<Rightarrow>
               (let b = ipv4_base pool + word_of_int i in (0, b)));
        let rem6 = (if ipv6_enabled pool \<and> want6
                    then Some (add_in6_addr (ipv6_base pool) (word_of_int i)) else None);
        Some (pool, i, Some \<lparr>l_local = loc, l_remote = rem, l_remote_ipv6 = rem6\<rparr>)
      } else Some (pool, i, None))"

definition ifconfig_pool_release ::
  "time_t \<Rightarrow> ifconfig_pool \<Rightarrow> int \<Rightarrow> bool \<Rightarrow> ifconfig_pool \<times> bool" where
  "ifconfig_pool_release now pool hand hard =
     (if hand \<ge> 0 \<and> hand < ipv4_size pool
      then (pool_upd pool hand (\<lambda>ipe. ifconfig_pool_entry_free now ipe hard), True)
      else (pool, False))"

subsection \<open>Addresses and handles\<close>

definition ifconfig_pool_ip_base_to_handle :: "ifconfig_pool \<Rightarrow> in_addr_t \<Rightarrow> int" where
  "ifconfig_pool_ip_base_to_handle pool addr =
     (let ret = (case ipv4_type pool of
                   IFCONFIG_POOL_30NET \<Rightarrow> sint (drop_bit 2 (addr - ipv4_base pool))
                 | IFCONFIG_POOL_INDIV \<Rightarrow> sint (addr - ipv4_base pool))
      in if ret < 0 \<or> ret \<ge> ipv4_size pool then -1 else ret)"

definition ifconfig_pool_handle_to_ip_base :: "ifconfig_pool \<Rightarrow> int \<Rightarrow> in_addr_t" where
  "ifconfig_pool_handle_to_ip_base pool hand =
     (if hand \<ge> 0 \<and> hand < ipv4_size pool
      then (case ipv4_type pool of
              IFCONFIG_POOL_30NET \<Rightarrow> ipv4_base pool + word_of_int (hand * 4)
            | IFCONFIG_POOL_INDIV \<Rightarrow> ipv4_base pool + word_of_int hand)
      else 0)"

definition ifconfig_pool_handle_to_ipv6_base :: "ifconfig_pool \<Rightarrow> int \<Rightarrow> byte list" where
  "ifconfig_pool_handle_to_ipv6_base pool hand =
     (if hand \<ge> 0 \<and> hand < ipv6_size pool
      then add_in6_addr (ipv6_base pool) (word_of_int hand) else in6addr_any)"

definition ifconfig_pool_set ::
  "time_t \<Rightarrow> ifconfig_pool \<Rightarrow> string \<Rightarrow> in_addr_t \<Rightarrow> bool \<Rightarrow> ifconfig_pool" where
  "ifconfig_pool_set now pool cn addr fix =
     (let h = ifconfig_pool_ip_base_to_handle pool addr in
      if h \<ge> 0
      then pool_upd pool h (\<lambda>e. (ifconfig_pool_entry_free now e True)
             \<lparr>in_use := False, common_name := Some cn, last_release := now, fixed := fix\<rparr>)
      else pool)"

text \<open>The lines that \<open>ifconfig_pool_list\<close> prints: name, address and IPv6 address.\<close>

fun pool_lines ::
  "ifconfig_pool \<Rightarrow> int \<Rightarrow> ifconfig_pool_entry list \<Rightarrow> (string \<times> in_addr_t \<times> byte list option) list" where
  "pool_lines pool i [] = []"
| "pool_lines pool i (e # es) =
     (case common_name e of
        None \<Rightarrow> pool_lines pool (i + 1) es
      | Some cn \<Rightarrow>
          (cn, ifconfig_pool_handle_to_ip_base pool i,
           if ipv6_enabled pool then Some (ifconfig_pool_handle_to_ipv6_base pool i) else None)
          # pool_lines pool (i + 1) es)"

definition ifconfig_pool_list :: "ifconfig_pool \<Rightarrow> (string \<times> in_addr_t \<times> byte list option) list" where
  "ifconfig_pool_list pool = pool_lines pool 0 (take (nat (ipv4_size pool)) (pool_list pool))"

subsection \<open>Finding an entry\<close>

lemma pool_find_free:
  "\<not> in_use x \<Longrightarrow> \<not> dup \<Longrightarrow> pool_find_loop dup cn i (x # es) e p n =
     pool_find_loop dup cn (i + 1) es
       (if (n = -1 \<or> last_release x < e) \<and> \<not> fixed x then last_release x else e)
       (if p < 0 \<and> cn \<noteq> None \<and> common_name x \<noteq> None \<and> cn = common_name x then i else p)
       (if (n = -1 \<or> last_release x < e) \<and> \<not> fixed x then i else n)"
  by simp

lemma pool_find_used: "in_use x \<Longrightarrow> pool_find_loop dup cn i (x # es) e p n = pool_find_loop dup cn (i + 1) es e p n"
  by simp

lemma pool_find_dup: "\<not> in_use x \<Longrightarrow> dup \<Longrightarrow> pool_find_loop dup cn i (x # es) e p n = (p, i)"
  by simp

lemmas pool_find_cases = pool_find_free pool_find_used pool_find_dup

definition hit :: "ifconfig_pool_entry list \<Rightarrow> int \<Rightarrow> int \<Rightarrow> bool" where
  "hit es i k \<longleftrightarrow> i \<le> k \<and> k < i + int (length es) \<and> \<not> in_use (es ! nat (k - i))"

lemma hit_Cons: "hit (x # es) i k \<longleftrightarrow> k = i \<and> \<not> in_use x \<or> hit es (i + 1) k"
proof (cases "i + 1 \<le> k")
  case True
  then have "nat (k - i) = Suc (nat (k - (i + 1)))" by simp
  with True show ?thesis by (auto simp: hit_def)
qed (auto simp: hit_def)

lemma pool_find_loop_sound:
  "pool_find_loop dup cn i es e p n = (p', n') \<Longrightarrow>
   (p' = p \<or> hit es i p' \<and> common_name (es ! nat (p' - i)) = cn) \<and> (n' = n \<or> hit es i n')"
proof (induction es arbitrary: i e p n)
  case (Cons x es)
  have shift: "(x # es) ! nat (k - i) = es ! nat (k - (i + 1))" if "hit es (i + 1) k" for k
  proof -
    have "nat (k - i) = Suc (nat (k - (i + 1)))" using that by (simp add: hit_def) linarith
    then show ?thesis by simp
  qed
  consider "in_use x" | "\<not> in_use x" "dup" | "\<not> in_use x" "\<not> dup" by blast
  then show ?case
  proof cases
    case 1
    from Cons.IH [OF Cons.prems [unfolded pool_find_used [OF 1]]] shift show ?thesis
      by (auto simp: hit_Cons)
  next
    case 2
    then show ?thesis using Cons.prems by (simp add: hit_Cons)
  next
    case 3
    from Cons.IH [OF Cons.prems [unfolded pool_find_free [OF 3]]] shift 3 show ?thesis
      by (auto simp: hit_Cons split: if_splits)
  qed
qed simp

lemma pool_find_loop_complete:
  "pool_find_loop dup cn i es e p n = (p', n') \<Longrightarrow> 0 \<le> i \<Longrightarrow> n' = -1 \<Longrightarrow>
   n = -1 \<and> (\<forall>x \<in> set es. in_use x \<or> \<not> dup \<and> fixed x)"
proof (induction es arbitrary: i e p n)
  case (Cons x es)
  consider "in_use x" | "\<not> in_use x" "dup" | "\<not> in_use x" "\<not> dup" by blast
  then show ?case
  proof cases
    case 1
    from Cons.IH [OF Cons.prems(1) [unfolded pool_find_used [OF 1]]] Cons.prems(2,3) 1 show ?thesis by simp
  next
    case 2
    then show ?thesis using Cons.prems by simp
  next
    case 3
    from Cons.IH [OF Cons.prems(1) [unfolded pool_find_free [OF 3]]] Cons.prems(2,3) 3 show ?thesis
      by (auto split: if_splits)
  qed
qed simp

lemma pool_find_loop_previous:
  "pool_find_loop False (Some c) i es e p n = (p', n') \<Longrightarrow> 0 \<le> i \<Longrightarrow>
   (0 \<le> p \<longrightarrow> p' = p) \<and> ((\<exists>x \<in> set es. \<not> in_use x \<and> common_name x = Some c) \<longrightarrow> 0 \<le> p')"
proof (induction es arbitrary: i e p n)
  case (Cons x es)
  show ?case
  proof (cases "in_use x")
    case True
    from Cons.IH [OF Cons.prems(1) [unfolded pool_find_used [OF True]]] Cons.prems(2) True show ?thesis by auto
  next
    case False
    have "\<not> False" by simp
    from Cons.IH [OF Cons.prems(1) [unfolded pool_find_free [OF False this]]] Cons.prems(2) show ?thesis
      by (auto split: if_splits)
  qed
qed simp

subsection \<open>The pool\<close>

definition pool_unit :: "ifconfig_pool \<Rightarrow> int" where
  "pool_unit pool = (case ipv4_type pool of IFCONFIG_POOL_30NET \<Rightarrow> 4 | IFCONFIG_POOL_INDIV \<Rightarrow> 1)"

definition pool_inv :: "ifconfig_pool \<Rightarrow> bool" where
  "pool_inv pool \<longleftrightarrow> ipv4_size pool = int (length (pool_list pool)) \<and> ipv4_size pool \<le> 65536 \<and>
     uint (ipv4_base pool) + pool_unit pool * ipv4_size pool \<le> 2 ^ 32"

definition pool_live :: "ifconfig_pool \<Rightarrow> int set" where
  "pool_live pool = {h. 0 \<le> h \<and> h < int (length (pool_list pool)) \<and> in_use (pool_list pool ! nat h)}"

lemma pool_upd_fields [simp]:
  "ipv4_size (pool_upd pool i f) = ipv4_size pool" "ipv4_base (pool_upd pool i f) = ipv4_base pool"
  "ipv4_type (pool_upd pool i f) = ipv4_type pool" "length (pool_list (pool_upd pool i f)) = length (pool_list pool)"
  "ipv6_enabled (pool_upd pool i f) = ipv6_enabled pool" "ipv6_base (pool_upd pool i f) = ipv6_base pool"
  "duplicate_cn (pool_upd pool i f) = duplicate_cn pool"
  by (simp_all add: pool_upd_def)

lemma pool_inv_upd [simp]: "pool_inv (pool_upd pool i f) = pool_inv pool"
  by (simp add: pool_inv_def pool_unit_def)

lemma pool_live_upd:
  assumes "0 \<le> i" "i < int (length (pool_list pool))"
  shows "pool_live (pool_upd pool i f) =
    (if in_use (f (pool_list pool ! nat i)) then insert i (pool_live pool) else pool_live pool - {i})"
proof -
  have mem: "h \<in> pool_live (pool_upd pool i f) \<longleftrightarrow>
    (if h = i then in_use (f (pool_list pool ! nat i)) else h \<in> pool_live pool)" for h
  proof (cases "h = i")
    case True
    have "nat i < length (pool_list pool)" using assms by simp
    with True assms show ?thesis by (simp add: pool_live_def pool_upd_def)
  next
    case False
    then have "0 \<le> h \<Longrightarrow> nat i \<noteq> nat h" using assms(1) by simp
    with False show ?thesis by (auto simp: pool_live_def pool_upd_def)
  qed
  show ?thesis
  proof (rule set_eqI)
    fix h show "h \<in> pool_live (pool_upd pool i f) \<longleftrightarrow> h \<in> (if in_use (f (pool_list pool ! nat i))
        then insert i (pool_live pool) else pool_live pool - {i})"
      unfolding mem by (cases "h = i") simp_all
  qed
qed

lemma entry_free_in_use [simp]: "\<not> in_use (ifconfig_pool_entry_free now ipe hard)"
  by (auto simp: ifconfig_pool_entry_free_def Let_def)

lemma pool_find_spec:
  assumes "pool_inv pool" "i = ifconfig_pool_find pool cn"
  shows "i = -1 \<or> 0 \<le> i \<and> i < ipv4_size pool \<and> i \<notin> pool_live pool"
proof -
  have all: "take (nat (ipv4_size pool)) (pool_list pool) = pool_list pool"
    using assms(1) by (simp add: pool_inv_def)
  obtain p n where r: "pool_find_loop (duplicate_cn pool) cn 0 (pool_list pool) 0 (-1) (-1) = (p, n)"
    by fastforce
  from pool_find_loop_sound [OF r] show ?thesis
    using assms by (auto simp: ifconfig_pool_find_def all r hit_def pool_live_def pool_inv_def)
qed

text \<open>The search fails only when every entry is taken, or pinned to another client.\<close>

lemma pool_find_fails:
  assumes "pool_inv pool" "ifconfig_pool_find pool cn = -1" "x \<in> set (pool_list pool)"
  shows "in_use x \<or> \<not> duplicate_cn pool \<and> fixed x"
proof -
  have all: "take (nat (ipv4_size pool)) (pool_list pool) = pool_list pool"
    using assms(1) by (simp add: pool_inv_def)
  obtain p n where r: "pool_find_loop (duplicate_cn pool) cn 0 (pool_list pool) 0 (-1) (-1) = (p, n)"
    by fastforce
  then have "n = -1"
    using assms(2) pool_find_loop_sound [OF r]
    by (auto simp: ifconfig_pool_find_def all r hit_def split: if_splits)
  with pool_find_loop_complete [OF r] assms(3) show ?thesis by simp
qed

text \<open>A client whose name is still on a free entry gets an entry that carries its name.\<close>

lemma pool_find_sticky:
  assumes "pool_inv pool" "\<not> duplicate_cn pool" "x \<in> set (pool_list pool)" "\<not> in_use x"
    "common_name x = Some cn" "i = ifconfig_pool_find pool (Some cn)"
  shows "0 \<le> i" "common_name (pool_list pool ! nat i) = Some cn"
proof -
  have all: "take (nat (ipv4_size pool)) (pool_list pool) = pool_list pool"
    using assms(1) by (simp add: pool_inv_def)
  obtain p n where r: "pool_find_loop False (Some cn) 0 (pool_list pool) 0 (-1) (-1) = (p, n)"
    by fastforce
  have "0 \<le> p" using pool_find_loop_previous [OF r] assms(3,4,5) by auto
  with pool_find_loop_sound [OF r] assms(2,6) show "0 \<le> i" "common_name (pool_list pool ! nat i) = Some cn"
    by (auto simp: ifconfig_pool_find_def all r)
qed

subsection \<open>Addition to an IPv6 address\<close>

fun be_val :: "byte list \<Rightarrow> int" where
  "be_val [] = 0"
| "be_val (b # bs) = uint b * 256 ^ length bs + be_val bs"

lemma be_val_snoc: "be_val (bs @ [b]) = be_val bs * 256 + uint b"
  by (induction bs) (simp_all add: algebra_simps)

lemma carry_step:
  fixes V h a m :: int
  assumes "0 \<le> h" "h < 256" "0 \<le> a" "0 < m"
  shows "((V + (a div 256 + (h + a mod 256) div 256)) mod m) * 256 + (h + a) mod 256 =
    (V * 256 + h + a) mod (m * 256)"
proof -
  have "(h + a mod 256 + (a div 256) * 256) div 256 = a div 256 + (h + a mod 256) div 256"
    by (rule div_mult_self1) simp
  then have q: "(h + a) div 256 = a div 256 + (h + a mod 256) div 256" by (simp add: algebra_simps)
  have "(h + a + V * 256) div 256 = V + (h + a) div 256" by (rule div_mult_self1) simp
  then have "(V * 256 + h + a) div 256 = V + (h + a) div 256" by (simp add: algebra_simps)
  moreover have "(h + a + V * 256) mod 256 = (h + a) mod 256" by (rule mod_mult_self1)
  then have "(V * 256 + h + a) mod 256 = (h + a) mod 256" by (simp add: algebra_simps)
  moreover have "(V * 256 + h + a) mod (256 * m) =
      256 * ((V * 256 + h + a) div 256 mod m) + (V * 256 + h + a) mod 256"
    using assms(4) by (intro zmod_zmult2_eq) simp
  ultimately show ?thesis
    unfolding q by (simp add: mult.commute)
qed

lemma uint_drop_8: "uint (drop_bit 8 (x :: u32)) = uint x div 256"
  by (simp add: drop_bit_eq_div uint_div)

lemma uint_add_small: "uint (x :: u32) + uint y < 2 ^ 32 \<Longrightarrow> uint (x + y) = uint x + uint y"
  using uint_add_lem [of x y] by simp

lemma add_in6_bytes:
  fixes b :: byte and add :: u32
  defines "h \<equiv> (ucast b :: u32)"
  shows "uint (ucast ((h + add) AND 0xFF) :: byte) = (uint b + uint add) mod 256"
    and "uint (drop_bit 8 add + drop_bit 8 ((h AND 0xFF) + (add AND 0xFF))) =
      uint add div 256 + (uint b + uint add mod 256) div 256"
proof -
  have b: "uint b < 256" "uint h = uint b" "0 \<le> uint b"
    using uint_lt2p [of b] by (simp_all add: h_def uint_up_ucast is_up)
  have a: "uint add < 2 ^ 32" "0 \<le> uint add" using uint_lt2p [of add] by simp_all
  have "uint (ucast ((h + add) AND 0xFF) :: byte) = uint ((h + add) AND 0xFF) mod 256"
    by (simp add: unsigned_ucast_eq take_bit_eq_mod)
  also have "\<dots> = (uint b + uint add) mod 256"
    by (simp add: uint_and_FF uint_word_ariths b(2) mod_mod_cancel)
  finally show "uint (ucast ((h + add) AND 0xFF) :: byte) = (uint b + uint add) mod 256" .
  have "uint (h AND 0xFF) = uint b" using b by (simp add: uint_and_FF)
  then have s: "uint ((h AND 0xFF) + (add AND 0xFF)) = uint b + uint add mod 256"
    using b pos_mod_bound [of 256 "uint add"] by (subst uint_add_small) (simp_all add: uint_and_FF)
  have "uint add div 256 \<le> 2 ^ 24" "(uint b + uint add mod 256) div 256 \<le> 1" using a b by auto
  then show "uint (drop_bit 8 add + drop_bit 8 ((h AND 0xFF) + (add AND 0xFF))) =
      uint add div 256 + (uint b + uint add mod 256) div 256"
    by (subst uint_add_small) (simp_all add: uint_drop_8 s)
qed

lemma add_in6_loop_spec:
  "n \<le> length base \<Longrightarrow> length (add_in6_loop n base add) = length base \<and>
   drop n (add_in6_loop n base add) = drop n base \<and>
   be_val (take n (add_in6_loop n base add)) = (be_val (take n base) + uint add) mod 256 ^ n"
proof (induction n arbitrary: base add)
  case (Suc i)
  define h where "h = (ucast (base ! i) :: u32)"
  define base1 where "base1 = base[i := ucast ((h + add) AND 0xFF)]"
  define add1 where "add1 = drop_bit 8 add + drop_bit 8 ((h AND 0xFF) + (add AND 0xFF))"
  have i: "i < length base" "i \<le> length base1" using Suc.prems by (simp_all add: base1_def)
  show ?case
  proof (cases "add > 0")
    case False
    then have "add = 0" by (simp add: word_gt_0)
    moreover have "be_val bs mod 256 ^ length bs = be_val bs" for bs
    proof (rule mod_pos_pos_trivial)
      show "0 \<le> be_val bs" by (induction bs) simp_all
      show "be_val bs < 256 ^ length bs"
      proof (induction bs)
        case (Cons b bs)
        have "uint b * 256 ^ length bs \<le> 255 * 256 ^ length bs"
          using uint_lt2p [of b] by (intro mult_right_mono) simp_all
        moreover have "(256 :: int) ^ length (b # bs) = 256 * 256 ^ length bs" by simp
        ultimately show ?case using Cons unfolding be_val.simps by linarith
      qed simp
    qed
    from this [of "take (Suc i) base"] show ?thesis using \<open>add = 0\<close> Suc.prems by simp
  next
    case True
    define res where "res = add_in6_loop i base1 add1"
    have res: "add_in6_loop (Suc i) base add = res"
      using True by (simp add: res_def base1_def add1_def h_def Let_def)
    have IH: "length res = length base1" "drop i res = drop i base1"
      "be_val (take i res) = (be_val (take i base1) + uint add1) mod 256 ^ i"
      using Suc.IH [OF i(2), of add1] by (simp_all add: res_def)
    have "res ! i = base1 ! i" "drop (Suc i) res = drop (Suc i) base1"
      using IH(1,2) i by (metis Cons_nth_drop_Suc base1_def length_list_update list.inject)+
    moreover have "take (Suc i) res = take i res @ [res ! i]" "take (Suc i) base = take i base @ [base ! i]"
      using i IH(1) by (simp_all add: take_Suc_conv_app_nth base1_def)
    moreover have "take i base1 = take i base" "drop (Suc i) base1 = drop (Suc i) base"
      "base1 ! i = ucast ((h + add) AND 0xFF)"
      using i by (simp_all add: base1_def)
    moreover have "uint (ucast ((h + add) AND 0xFF) :: byte) = (uint (base ! i) + uint add) mod 256"
      "uint add1 = uint add div 256 + (uint (base ! i) + uint add mod 256) div 256"
      using add_in6_bytes [where b = "base ! i" and add = add] by (simp_all add: add1_def h_def)
    moreover have "(be_val (take i base) + (uint add div 256 + (uint (base ! i) + uint add mod 256) div 256)) mod 256 ^ i * 256
        + (uint (base ! i) + uint add) mod 256 = (be_val (take i base) * 256 + uint (base ! i) + uint add) mod (256 ^ i * 256)"
      using uint_lt2p [of "base ! i"] by (intro carry_step) simp_all
    ultimately have "be_val (take (Suc i) res) = (be_val (take (Suc i) base) + uint add) mod 256 ^ Suc i"
      using IH(3) by (simp add: be_val_snoc mult.commute)
    then show ?thesis
      unfolding res using IH(1) \<open>drop (Suc i) res = drop (Suc i) base1\<close>
        \<open>drop (Suc i) base1 = drop (Suc i) base\<close> by (simp add: base1_def)
  qed
qed simp

lemma add_in6_addr_value:
  assumes "length base = 16"
  shows "length (add_in6_addr base add) = 16"
    and "be_val (add_in6_addr base add) = (be_val base + uint add) mod 2 ^ 128"
proof -
  have "16 \<le> length base" using assms by simp
  from add_in6_loop_spec [OF this, of add]
  have *: "length (add_in6_addr base add) = length base"
    "be_val (take 16 (add_in6_addr base add)) = (be_val (take 16 base) + uint add) mod 256 ^ 16"
    unfolding add_in6_addr_def by blast+
  moreover have "take 16 (add_in6_addr base add) = add_in6_addr base add" "take 16 base = base"
    using *(1) assms by simp_all
  ultimately show "length (add_in6_addr base add) = 16"
    "be_val (add_in6_addr base add) = (be_val base + uint add) mod 2 ^ 128"
    using assms by simp_all
qed

text \<open>
  C27. \<open>add_in6_addr\<close>, with its explicit 8-bit carries, is addition modulo 2^128 on the address read
  as a big-endian number.
\<close>

theorem add_in6_addr_is_addition:
  assumes "length base = 16"
  shows "length (add_in6_addr base add) = 16 \<and>
    be_val (add_in6_addr base add) = (be_val base + uint add) mod 2 ^ 128"
  using add_in6_addr_value [OF assms] by simp

theorem add_in6_addr_is_addition_witness:
  "be_val (add_in6_addr (replicate 16 0xFF) 2) = 1"
proof -
  have "be_val (replicate 16 0xFF) = 2 ^ 128 - 1" by code_simp
  then show ?thesis using add_in6_addr_is_addition [of "replicate 16 0xFF" 2] by simp
qed

subsection \<open>The contract of an allocator\<close>

locale allocator =
  fixes inv :: "'s \<Rightarrow> bool"
    and live :: "'s \<Rightarrow> int set"
    and acquire :: "'s \<Rightarrow> 'c \<Rightarrow> ('s \<times> int \<times> 'l option) option"
    and release :: "'s \<Rightarrow> 'd \<Rightarrow> 's"
    and target :: "'d \<Rightarrow> int"
    and good :: "'s \<Rightarrow> int \<times> 'l \<Rightarrow> bool"
    and serve :: "'s \<Rightarrow> (int \<times> 'l) list \<Rightarrow> ('c + 'd) list \<Rightarrow> ('s \<times> (int \<times> 'l) list) option"
  assumes acquire_law: "inv s \<Longrightarrow>
      \<exists>s' h l. acquire s c = Some (s', h, l) \<and> inv s' \<and> (\<forall>x. good s' x = good s x) \<and>
        (case l of None \<Rightarrow> s' = s
         | Some a \<Rightarrow> h \<notin> live s \<and> live s' = insert h (live s) \<and> good s' (h, a))"
    and release_law: "inv s \<Longrightarrow> inv (release s d) \<and> live (release s d) = live s - {target d} \<and>
        (\<forall>x. good (release s d) x = good s x)"
    and serve_Nil: "serve s ls [] = Some (s, ls)"
    and serve_acquire: "serve s ls (Inl c # ops) = do {
        (s, h, l) \<leftarrow> acquire s c;
        serve s (case l of None \<Rightarrow> ls | Some a \<Rightarrow> (h, a) # ls) ops
      }"
    and serve_release: "serve s ls (Inr d # ops) =
        serve (release s d) (filter (\<lambda>(h, _). h \<noteq> target d) ls) ops"
begin

text \<open>The leases that clients hold always have distinct handles, the live ones.\<close>

lemma serve_distinct:
  "inv s \<Longrightarrow> distinct (map fst ls) \<Longrightarrow> fst ` set ls = live s \<Longrightarrow> \<forall>x \<in> set ls. good s x \<Longrightarrow>
   \<exists>s' ls'. serve s ls ops = Some (s', ls') \<and> inv s' \<and> distinct (map fst ls') \<and>
     fst ` set ls' = live s' \<and> (\<forall>x \<in> set ls'. good s x)"
proof (induction ops arbitrary: s ls)
  case Nil
  then show ?case by (simp add: serve_Nil)
next
  case (Cons op ops)
  show ?case
  proof (cases op)
    case (Inl c)
    obtain s1 h l where a: "acquire s c = Some (s1, h, l)" "inv s1" "\<And>x. good s1 x = good s x"
      "case l of None \<Rightarrow> s1 = s | Some a \<Rightarrow> h \<notin> live s \<and> live s1 = insert h (live s) \<and> good s1 (h, a)"
      using acquire_law [OF Cons.prems(1)] by blast
    define ls1 where "ls1 = (case l of None \<Rightarrow> ls | Some a \<Rightarrow> (h, a) # ls)"
    have "distinct (map fst ls1)" "fst ` set ls1 = live s1" "\<forall>x \<in> set ls1. good s1 x"
      using a(3,4) Cons.prems by (auto simp: ls1_def split: option.splits)
    from Cons.IH [OF a(2) this] show ?thesis
      using a(1,3) by (simp add: Inl serve_acquire ls1_def)
  next
    case (Inr d)
    define ls1 where "ls1 = filter (\<lambda>(h, _). h \<noteq> target d) ls"
    have "fst ` set ls1 = fst ` set ls - {target d}" by (force simp: ls1_def)
    moreover have "distinct (map fst ls1)"
      unfolding ls1_def using Cons.prems(2) by (rule distinct_map_filter)
    moreover have r: "inv (release s d)" "live (release s d) = live s - {target d}"
      "\<And>x. good (release s d) x = good s x"
      using release_law [OF Cons.prems(1)] by auto
    moreover have "\<forall>x \<in> set ls1. good s x" using Cons.prems(4) by (auto simp: ls1_def)
    ultimately show ?thesis
      using Cons.IH [of "release s d" ls1] Cons.prems(3) by (simp add: Inr serve_release ls1_def)
  qed
qed

end

subsection \<open>The pool is an allocator\<close>

text \<open>Requests of clients: acquire (clock, wants IPv6, name) and release (clock, handle, hard).\<close>

type_synonym pool_acquire_req = "time_t \<times> bool \<times> string option"
type_synonym pool_release_req = "time_t \<times> int \<times> bool"

fun pool_serve ::
  "ifconfig_pool \<Rightarrow> (int \<times> lease) list \<Rightarrow> (pool_acquire_req + pool_release_req) list \<Rightarrow>
   (ifconfig_pool \<times> (int \<times> lease) list) option" where
  "pool_serve pool ls [] = Some (pool, ls)"
| "pool_serve pool ls (Inl (now, want6, cn) # ops) = do {
     (pool, h, l) \<leftarrow> ifconfig_pool_acquire now pool want6 cn;
     pool_serve pool (case l of None \<Rightarrow> ls | Some a \<Rightarrow> (h, a) # ls) ops
   }"
| "pool_serve pool ls (Inr (now, hand, hard) # ops) =
     pool_serve (fst (ifconfig_pool_release now pool hand hard)) (filter (\<lambda>(h, _). h \<noteq> hand) ls) ops"

text \<open>The addresses that belong to a handle.\<close>

definition pool_good :: "ifconfig_pool \<Rightarrow> int \<times> lease \<Rightarrow> bool" where
  "pool_good pool x = (case x of (h, l) \<Rightarrow> 0 \<le> h \<and> h < ipv4_size pool \<and>
     (case ipv4_type pool of
        IFCONFIG_POOL_30NET \<Rightarrow> uint (l_local l) = uint (ipv4_base pool) + 4 * h + 1 \<and>
          uint (l_remote l) = uint (ipv4_base pool) + 4 * h + 2
      | IFCONFIG_POOL_INDIV \<Rightarrow> l_local l = 0 \<and> uint (l_remote l) = uint (ipv4_base pool) + h) \<and>
     (case l_remote_ipv6 l of
        None \<Rightarrow> True
      | Some a \<Rightarrow> ipv6_enabled pool \<and> a = add_in6_addr (ipv6_base pool) (word_of_int h)))"

lemma pool_good_upd [simp]: "pool_good (pool_upd pool i f) = pool_good pool"
  by (cases "ipv4_type pool"; simp add: pool_good_def fun_eq_iff cong: option.case_cong)

lemma uint_plus_of_int:
  "0 \<le> k \<Longrightarrow> uint (b :: u32) + k < 2 ^ 32 \<Longrightarrow> uint (b + word_of_int k) = uint b + k"
  by (simp add: uint_word_ariths uint_word_of_int mod_add_right_eq)

definition pool_lease :: "ifconfig_pool \<Rightarrow> bool \<Rightarrow> int \<Rightarrow> lease" where
  "pool_lease pool want6 i =
     (case ipv4_type pool of
        IFCONFIG_POOL_30NET \<Rightarrow>
          \<lparr>l_local = ipv4_base pool + word_of_int (i * 4) + 1, l_remote = ipv4_base pool + word_of_int (i * 4) + 2,
           l_remote_ipv6 = (if ipv6_enabled pool \<and> want6 then Some (add_in6_addr (ipv6_base pool) (word_of_int i)) else None)\<rparr>
      | IFCONFIG_POOL_INDIV \<Rightarrow>
          \<lparr>l_local = 0, l_remote = ipv4_base pool + word_of_int i,
           l_remote_ipv6 = (if ipv6_enabled pool \<and> want6 then Some (add_in6_addr (ipv6_base pool) (word_of_int i)) else None)\<rparr>)"

lemma pool_lease_upd [simp]: "pool_lease (pool_upd pool i f) want6 k = pool_lease pool want6 k"
  by (cases "ipv4_type pool"; simp add: pool_lease_def)

lemma ifconfig_pool_acquire_eq:
  "ifconfig_pool_acquire now pool want6 cn = (let i = ifconfig_pool_find pool cn in
     if i \<ge> 0 then
       if in_use (pool_list pool ! nat i) then None
       else Some (pool_upd pool i (\<lambda>ipe. (ifconfig_pool_entry_free now ipe True)
                    \<lparr>in_use := True, common_name := (if cn \<noteq> None then cn else None)\<rparr>), i, Some (pool_lease pool want6 i))
     else Some (pool, i, None))"
  by (cases "ipv4_type pool") (auto simp: ifconfig_pool_acquire_def pool_lease_def Let_def
      ifconfig_pool_entry_free_def fun_eq_iff intro!: arg_cong [where f = "pool_upd pool _"])

lemma ifconfig_pool_acquire_spec:
  assumes "pool_inv pool"
  shows "\<exists>pool' h l. ifconfig_pool_acquire now pool want6 cn = Some (pool', h, l) \<and> pool_inv pool' \<and>
    (\<forall>x. pool_good pool' x = pool_good pool x) \<and>
    (case l of None \<Rightarrow> pool' = pool
     | Some a \<Rightarrow> h \<notin> pool_live pool \<and> pool_live pool' = insert h (pool_live pool) \<and> pool_good pool' (h, a))"
proof (cases "ifconfig_pool_find pool cn \<ge> 0")
  case False
  then show ?thesis using assms by (simp add: ifconfig_pool_acquire_def Let_def)
next
  case True
  define i where "i = ifconfig_pool_find pool cn"
  have i: "0 \<le> i" "i < ipv4_size pool" "i \<notin> pool_live pool"
    using True pool_find_spec [OF assms i_def] by (auto simp: i_def)
  have len: "i < int (length (pool_list pool))" using i(2) assms by (simp add: pool_inv_def)
  have free: "\<not> in_use (pool_list pool ! nat i)"
    using i(1,3) len by (simp add: pool_live_def)
  define f where "f = (\<lambda>ipe. (ifconfig_pool_entry_free now ipe True)
      \<lparr>in_use := True, common_name := (if cn \<noteq> None then cn else None)\<rparr>)"
  have f: "in_use (f e)" for e by (simp add: f_def)
  define a where "a = pool_lease pool want6 i"
  have run: "ifconfig_pool_acquire now pool want6 cn = Some (pool_upd pool i f, i, Some a)"
    using free i(1) by (simp add: ifconfig_pool_acquire_eq a_def f_def flip: i_def)
  have "pool_good pool (i, a)"
  proof (cases "ipv4_type pool")
    case IFCONFIG_POOL_30NET
    have top: "uint (ipv4_base pool) + 4 * ipv4_size pool \<le> 2 ^ 32"
      using assms IFCONFIG_POOL_30NET by (simp add: pool_inv_def pool_unit_def)
    have "uint (ipv4_base pool + word_of_int (i * 4 + k)) = uint (ipv4_base pool) + (i * 4 + k)"
      if "0 \<le> k" "k < 4" for k
      using that top i by (intro uint_plus_of_int) auto
    from this [of 1] this [of 2] show ?thesis
      using i IFCONFIG_POOL_30NET by (simp add: a_def pool_lease_def pool_good_def add.assoc mult.commute wi_hom_add [symmetric])
  next
    case IFCONFIG_POOL_INDIV
    have "uint (ipv4_base pool + word_of_int i) = uint (ipv4_base pool) + i"
      using assms i IFCONFIG_POOL_INDIV by (intro uint_plus_of_int) (auto simp: pool_inv_def pool_unit_def)
    then show ?thesis using i IFCONFIG_POOL_INDIV by (simp add: a_def pool_lease_def pool_good_def)
  qed
  then show ?thesis
    using run assms i pool_live_upd [OF i(1) len, of f] f by simp
qed

lemma ifconfig_pool_release_spec:
  assumes "pool_inv pool"
  shows "pool_inv (fst (ifconfig_pool_release now pool hand hard)) \<and>
    pool_live (fst (ifconfig_pool_release now pool hand hard)) = pool_live pool - {hand} \<and>
    pool_good (fst (ifconfig_pool_release now pool hand hard)) = pool_good pool"
proof (cases "0 \<le> hand \<and> hand < ipv4_size pool")
  case True
  then have "hand < int (length (pool_list pool))" using assms by (simp add: pool_inv_def)
  with True assms show ?thesis by (simp add: ifconfig_pool_release_def pool_live_upd)
next
  case False
  then have "hand \<notin> pool_live pool" using assms by (auto simp: pool_live_def pool_inv_def)
  with False assms show ?thesis by (auto simp: ifconfig_pool_release_def)
qed

interpretation leases: allocator pool_inv pool_live
  "\<lambda>pool (now, want6, cn). ifconfig_pool_acquire now pool want6 cn"
  "\<lambda>pool (now, hand, hard). fst (ifconfig_pool_release now pool hand hard)"
  "\<lambda>(now, hand, hard). hand" pool_good pool_serve
proof unfold_locales
  fix pool and c :: pool_acquire_req
  assume "pool_inv pool"
  then show "\<exists>s' h l. (case c of (now, want6, cn) \<Rightarrow> ifconfig_pool_acquire now pool want6 cn) = Some (s', h, l) \<and>
      pool_inv s' \<and> (\<forall>x. pool_good s' x = pool_good pool x) \<and>
      (case l of None \<Rightarrow> s' = pool
       | Some a \<Rightarrow> h \<notin> pool_live pool \<and> pool_live s' = insert h (pool_live pool) \<and> pool_good s' (h, a))"
    using ifconfig_pool_acquire_spec [of pool "fst c" "fst (snd c)" "snd (snd c)"]
    by (simp add: case_prod_beta)
next
  fix pool and d :: pool_release_req
  assume "pool_inv pool"
  then show "pool_inv (case d of (now, hand, hard) \<Rightarrow> fst (ifconfig_pool_release now pool hand hard)) \<and>
      pool_live (case d of (now, hand, hard) \<Rightarrow> fst (ifconfig_pool_release now pool hand hard)) =
        pool_live pool - {case d of (now, hand, hard) \<Rightarrow> hand} \<and>
      (\<forall>x. pool_good (case d of (now, hand, hard) \<Rightarrow> fst (ifconfig_pool_release now pool hand hard)) x = pool_good pool x)"
    using ifconfig_pool_release_spec [of pool "fst d" "fst (snd d)" "snd (snd d)"]
    by (simp add: case_prod_beta)
qed (auto split: prod.splits)

subsection \<open>A fresh pool\<close>

lemma uint_align_down: "uint ((x :: u32) AND NOT 3) = uint x - uint x mod 4"
proof -
  have m: "(3 :: u32) = mask 2" by (simp add: mask_eq_exp_minus_1)
  have "x - (x AND 3) = x AND NOT (x AND 3)"
    by (rule disjunctive_diff) (simp add: bit_and_iff)
  moreover have "x AND NOT (x AND 3) = x AND NOT 3"
    by (rule bit_word_eqI) (auto simp: bit_simps)
  moreover have low: "uint (x AND 3) = uint x mod 4"
    unfolding m by (simp add: take_bit_eq_mask [symmetric] take_bit_eq_mod uint_mod)
  moreover have "uint (x - (x AND 3)) = uint x - uint (x AND 3)"
    by (rule iffD1 [OF uint_sub_lem]) (simp add: low zmod_le_nonneg_dividend)
  ultimately show ?thesis by simp
qed

lemma uint_align_down_neg: "uint ((x :: u32) AND - 4) = uint x - uint x mod 4"
  using uint_align_down [of x] by simp

lemma uint_align_up: "uint ((x :: u32) OR 3) = uint x - uint x mod 4 + 3"
proof -
  have m: "(3 :: u32) = mask 2" by (simp add: mask_eq_exp_minus_1)
  have "x OR 3 = (x AND NOT 3) OR 3"
    by (rule bit_word_eqI) (auto simp: bit_simps)
  also have "\<dots> = (x AND NOT 3) + 3"
    by (rule disjunctive_add [symmetric]) (simp add: bit_simps)
  finally have "x OR 3 = (x AND NOT 3) + 3" .
  moreover have "uint ((x AND NOT 3) + 3) = uint (x AND NOT 3) + uint (3 :: u32)"
  proof -
    define q where "q = uint x div 4"
    have "uint x - uint x mod 4 = 4 * q" "uint x < 2 ^ 32" "0 \<le> uint x mod 4"
      using uint_lt2p [of x] by (simp_all add: q_def minus_mod_eq_mult_div)
    then have "uint x - uint x mod 4 + 3 < 2 ^ 32" by simp presburger
    then show ?thesis unfolding uint_add_lem [symmetric] by (simp add: uint_align_down_neg)
  qed
  ultimately show ?thesis by (simp add: uint_align_down_neg)
qed

definition pool_first :: "pool_type \<Rightarrow> in_addr_t \<Rightarrow> in_addr_t" where
  "pool_first type start = (case type of IFCONFIG_POOL_30NET \<Rightarrow> start AND NOT 3 | IFCONFIG_POOL_INDIV \<Rightarrow> start)"

definition pool_last :: "pool_type \<Rightarrow> in_addr_t \<Rightarrow> in_addr_t" where
  "pool_last type stop = (case type of IFCONFIG_POOL_30NET \<Rightarrow> stop OR 3 | IFCONFIG_POOL_INDIV \<Rightarrow> stop)"

lemma ifconfig_pool_init_spec:
  assumes "ifconfig_pool_init type start stop dup v6 base6 netbits = Some pool"
  shows "pool_inv pool" "pool_live pool = {}" "ipv4_type pool = type"
    "ipv4_base pool = pool_first type start"
    "uint (ipv4_base pool) + pool_unit pool * ipv4_size pool = uint (pool_last type stop) + 1"
    "ipv6_enabled pool = v6" "ipv6_base pool = (if v6 then base6 else in6addr_any)"
proof -
  define s where "s = uint start"
  define e where "e = uint stop"
  have r: "start \<le> stop" "stop - start < word_of_int 65536"
    using assms by (auto simp: ifconfig_pool_init_def IFCONFIG_POOL_MAX_def)
  have se: "s \<le> e" "0 \<le> s" "e < 4294967296" using r(1) uint_lt2p [of stop] by (simp_all add: s_def e_def word_le_def)
  have diff: "uint (stop - start) = e - s"
    using r(1) by (simp add: s_def e_def uint_sub_lem [symmetric] word_le_def)
  then have near: "e - s < 65536" using r(2) by (simp add: word_less_def uint_word_of_int)
  define k where "k = pool_unit (pool\<lparr>ipv4_type := type\<rparr>)"
  define size where "size = (uint (pool_last type stop) + 1 - uint (pool_first type start)) div k"
  have k: "k = (case type of IFCONFIG_POOL_30NET \<Rightarrow> 4 | IFCONFIG_POOL_INDIV \<Rightarrow> 1)"
    by (simp add: k_def pool_unit_def)
  have sized: "(case type of
          IFCONFIG_POOL_30NET \<Rightarrow>
            (let base = start AND NOT 3 in (base, uint (drop_bit 2 (((stop OR 3) + 1) - base))))
        | IFCONFIG_POOL_INDIV \<Rightarrow> (start, uint (stop - start + 1))) = (pool_first type start, size) \<and>
      uint (pool_first type start) + k * size = uint (pool_last type stop) + 1 \<and> 0 < size \<and> size \<le> 65536"
  proof (cases type)
    case IFCONFIG_POOL_INDIV
    have "uint (stop - start + 1) = e - s + 1"
      using diff near by (subst uint_add_small) simp_all
    then show ?thesis
      using IFCONFIG_POOL_INDIV se near
      by (simp add: pool_first_def pool_last_def size_def k flip: s_def e_def)
  next
    case IFCONFIG_POOL_30NET
    define ds where "ds = s div 4"
    define de where "de = e div 4"
    have a: "uint (start AND - 4) = 4 * ds" "uint (stop OR 3) = 4 * de + 3"
      by (simp_all add: uint_align_down_neg uint_align_up ds_def de_def minus_mod_eq_mult_div flip: s_def e_def)
    have d: "ds \<le> de" "0 \<le> ds" "de - ds \<le> 16384" "4 * de + 4 \<le> 4294967296"
      using se near unfolding ds_def de_def by presburger+
    have "uint ((stop OR 3) + 1 - (start AND - 4)) = (4 * de + 3 + 1 - 4 * ds) mod 2 ^ 32"
      by (simp add: uint_word_ariths a mod_simps)
    also have "\<dots> = 4 * (de - ds + 1)"
      using d by (subst mod_pos_pos_trivial) simp_all
    finally have "uint (drop_bit 2 ((stop OR 3) + 1 - (start AND - 4))) = de - ds + 1"
      by (simp add: drop_bit_eq_div uint_div)
    moreover have "(4 * de + 3 + 1 - 4 * ds) div 4 = de - ds + 1"
      by presburger
    ultimately show ?thesis
      using IFCONFIG_POOL_30NET d a by (simp add: pool_first_def pool_last_def size_def k Let_def)
  qed
  obtain size6 base6' where pool: "pool = \<lparr>duplicate_cn = dup, ipv4_type = type,
       ipv4_base = pool_first type start, ipv4_size = size, ipv6_enabled = v6, ipv6_base = base6',
       ipv6_size = size6, pool_list = replicate (nat size) empty_entry\<rparr>"
    using assms conjunct1 [OF sized] by (auto simp: ifconfig_pool_init_def Let_def split: prod.splits)
  show "ipv4_type pool = type" "ipv4_base pool = pool_first type start" "ipv6_enabled pool = v6"
    by (simp_all add: pool)
  show "ipv6_base pool = (if v6 then base6 else in6addr_any)"
    using assms conjunct1 [OF sized] by (auto simp: ifconfig_pool_init_def Let_def)
  have u: "pool_unit pool = k" by (simp add: pool_unit_def k pool)
  show sum: "uint (ipv4_base pool) + pool_unit pool * ipv4_size pool = uint (pool_last type stop) + 1"
    unfolding u using sized by (simp add: pool)
  have "uint (pool_last type stop) < 2 ^ 32" using uint_lt2p [of "pool_last type stop"] by simp
  then show "pool_inv pool" using sum sized by (simp add: pool_inv_def) (simp add: pool)
  show "pool_live pool = {}" by (auto simp: pool_live_def pool empty_entry_def)
qed

lemma distinct_option_filter:
  "distinct xs \<Longrightarrow> (\<And>x y a. x \<in> set xs \<Longrightarrow> y \<in> set xs \<Longrightarrow> f x = Some a \<Longrightarrow> f y = Some a \<Longrightarrow> x = y) \<Longrightarrow>
   distinct (List.map_filter f xs)"
proof (induction xs)
  case (Cons x xs)
  have "f y \<noteq> Some a" if "y \<in> set xs" "f x = Some a" for y a
    using Cons.prems(1) Cons.prems(2) [of x y a] that by auto
  moreover have "distinct (List.map_filter f xs)"
    using Cons.prems by (intro Cons.IH) auto
  ultimately show ?case by (cases "f x") (force simp: List.map_filter_def)+
qed (simp add: List.map_filter_def)

text \<open>What a lease that is good for its pool tells about its handle.\<close>

lemma pool_good_handle:
  assumes "pool_inv pool" "pool_good pool (h, l)" "length (ipv6_base pool) = 16" "l_remote_ipv6 l = Some a"
  shows "ipv6_enabled pool" "length a = 16" "be_val a = (be_val (ipv6_base pool) + h) mod 2 ^ 128"
proof -
  have h: "0 \<le> h" "h < 65536" and a: "ipv6_enabled pool" "a = add_in6_addr (ipv6_base pool) (word_of_int h)"
    using assms by (auto simp: pool_inv_def pool_good_def)
  have "uint (word_of_int h :: u32) = h" using h by (simp add: uint_word_of_int)
  with a add_in6_addr_value [OF assms(3), of "word_of_int h"]
  show "ipv6_enabled pool" "length a = 16" "be_val a = (be_val (ipv6_base pool) + h) mod 2 ^ 128"
    by simp_all
qed

lemma pool_good_inj:
  assumes "pool_inv pool" "length (ipv6_base pool) = 16" "pool_good pool x" "pool_good pool y"
  shows "l_remote (snd x) = l_remote (snd y) \<Longrightarrow> fst x = fst y"
    and "l_remote_ipv6 (snd x) = Some a \<Longrightarrow> l_remote_ipv6 (snd y) = Some a \<Longrightarrow> fst x = fst y"
    and "ipv4_type pool = IFCONFIG_POOL_30NET \<Longrightarrow> l_local (snd x) = l_local (snd y) \<Longrightarrow> fst x = fst y"
    and "ipv4_type pool = IFCONFIG_POOL_30NET \<Longrightarrow> l_local (snd x) \<noteq> l_remote (snd y)"
proof -
  note good = assms(3,4)
  show "fst x = fst y" if "l_remote (snd x) = l_remote (snd y)"
    using that good by (cases x; cases y; cases "ipv4_type pool"; auto simp: pool_good_def)
  show "fst x = fst y" if "ipv4_type pool = IFCONFIG_POOL_30NET" "l_local (snd x) = l_local (snd y)"
    using that good by (cases x; cases y; auto simp: pool_good_def)
  show "l_local (snd x) \<noteq> l_remote (snd y)" if "ipv4_type pool = IFCONFIG_POOL_30NET"
  proof
    assume "l_local (snd x) = l_remote (snd y)"
    then have "4 * fst x + 1 = 4 * fst y + 2"
      using that good by (cases x; cases y; auto simp: pool_good_def)
    then show False by presburger
  qed
  show "fst x = fst y" if "l_remote_ipv6 (snd x) = Some a" "l_remote_ipv6 (snd y) = Some a"
  proof -
    have "(be_val (ipv6_base pool) + fst x) mod 2 ^ 128 = (be_val (ipv6_base pool) + fst y) mod 2 ^ 128"
      using pool_good_handle(3) [OF assms(1) _ assms(2), of "fst x" "snd x" a]
        pool_good_handle(3) [OF assms(1) _ assms(2), of "fst y" "snd y" a] good that by simp
    then have "fst x mod 2 ^ 128 = fst y mod 2 ^ 128"
      by (metis add_diff_cancel_left' mod_diff_left_eq mod_diff_right_eq)
    then show ?thesis using good assms(1) by (cases x; cases y; auto simp: pool_good_def pool_inv_def)
  qed
qed

lemma pool_good_range:
  assumes "ifconfig_pool_init type start stop dup v6 base6 netbits = Some pool" "length base6 = 16"
    and good: "pool_good pool (h, l)"
  shows "pool_first type start \<le> l_remote l \<and> l_remote l \<le> pool_last type stop"
    and "case l_remote_ipv6 l of
       None \<Rightarrow> True
     | Some a \<Rightarrow> v6 \<and> length a = 16 \<and> be_val a = (be_val base6 + h) mod 2 ^ 128"
    and "case type of
       IFCONFIG_POOL_30NET \<Rightarrow> pool_first type start \<le> l_local l \<and> l_remote l = l_local l + 1
     | IFCONFIG_POOL_INDIV \<Rightarrow> l_local l = 0"
proof -
  note init = ifconfig_pool_init_spec [OF assms(1)]
  have base: "length (ipv6_base pool) = 16" using init(7) assms(2) by (simp add: in6addr_any_def)
  show "pool_first type start \<le> l_remote l \<and> l_remote l \<le> pool_last type stop"
    using good init(3,4,5) by (cases type; auto simp: pool_good_def pool_unit_def word_le_def)
  show "case l_remote_ipv6 l of
       None \<Rightarrow> True
     | Some a \<Rightarrow> v6 \<and> length a = 16 \<and> be_val a = (be_val base6 + h) mod 2 ^ 128"
    using pool_good_handle [OF init(1) good base] init(6,7) by (auto split: option.splits)
  show "case type of
       IFCONFIG_POOL_30NET \<Rightarrow> pool_first type start \<le> l_local l \<and> l_remote l = l_local l + 1
     | IFCONFIG_POOL_INDIV \<Rightarrow> l_local l = 0"
  proof (cases type)
    case IFCONFIG_POOL_30NET
    then have l: "uint (l_local l) = uint (ipv4_base pool) + 4 * h + 1" "0 \<le> h"
      "uint (l_remote l) = uint (ipv4_base pool) + 4 * h + 2"
      using good init(3) by (simp_all add: pool_good_def)
    then have "uint (l_local l + 1) = uint (l_remote l)"
      using uint_lt2p [of "l_remote l"] by (subst uint_add_small) simp_all
    then show ?thesis using l init(4) IFCONFIG_POOL_30NET by (simp add: word_le_def word_uint_eq_iff)
  qed (use good init(3) in \<open>simp add: pool_good_def\<close>)
qed

text \<open>
  C25. No address is leased twice: from a fresh pool, any sequence of acquisitions and releases by
  any clients leaves the outstanding leases with pairwise distinct handles, pairwise distinct IPv4
  addresses and, among the leases that have one, pairwise distinct IPv6 addresses. Every client's
  IPv4 address is inside the configured range (in /30 mode, inside the whole blocks around it), its
  IPv6 address is the pool's IPv6 base plus its handle (modulo 2^128), and there is none unless the pool has
  IPv6. In /30 mode the server's ends are distinct, inside the range and never any
  client's address, each one below the address of its client; else the local address is 0.
\<close>

theorem pool_leases_disjoint:
  assumes "ifconfig_pool_init type start stop dup v6 base6 netbits = Some pool" "length base6 = 16"
  shows "\<exists>pool' ls. pool_serve pool [] ops = Some (pool', ls) \<and> distinct (map fst ls) \<and>
    distinct (map (\<lambda>x. l_remote (snd x)) ls) \<and>
    distinct (List.map_filter (\<lambda>x. l_remote_ipv6 (snd x)) ls) \<and>
    list_all (\<lambda>(h, l). pool_first type start \<le> l_remote l \<and> l_remote l \<le> pool_last type stop \<and>
      (case l_remote_ipv6 l of
         None \<Rightarrow> True
       | Some a \<Rightarrow> v6 \<and> length a = 16 \<and> be_val a = (be_val base6 + h) mod 2 ^ 128)) ls \<and>
    (case type of
       IFCONFIG_POOL_30NET \<Rightarrow>
         distinct (map (\<lambda>x. l_local (snd x)) ls @ map (\<lambda>x. l_remote (snd x)) ls) \<and>
         list_all (\<lambda>(h, l). pool_first type start \<le> l_local l \<and> l_remote l = l_local l + 1) ls
     | IFCONFIG_POOL_INDIV \<Rightarrow> list_all (\<lambda>(h, l). l_local l = 0) ls)"
proof -
  note init = ifconfig_pool_init_spec [OF assms(1)]
  have base: "length (ipv6_base pool) = 16" using init(7) assms(2) by (simp add: in6addr_any_def)
  obtain pool' ls where r: "pool_serve pool [] ops = Some (pool', ls)" "distinct (map fst ls)"
    "\<forall>x \<in> set ls. pool_good pool x"
    using leases.serve_distinct [OF init(1), of "[]" ops] init(2) by auto
  note inj = pool_good_inj [OF init(1) base]
  have "distinct ls" "inj_on fst (set ls)" using r(2) by (simp_all add: distinct_map)
  then have eq: "x = y" if "x \<in> set ls" "y \<in> set ls" "fst x = fst y" for x y
    using that by (simp add: inj_on_def)
  have "distinct (map (\<lambda>x. l_remote (snd x)) ls)"
    unfolding distinct_map inj_on_def using \<open>distinct ls\<close> r(3) inj(1) eq by blast
  moreover have "distinct (List.map_filter (\<lambda>x. l_remote_ipv6 (snd x)) ls)"
    using \<open>distinct ls\<close> by (rule distinct_option_filter) (use r(3) inj(2) eq in blast)
  moreover have "distinct (map (\<lambda>x. l_local (snd x)) ls)" if "type = IFCONFIG_POOL_30NET"
    unfolding distinct_map inj_on_def using \<open>distinct ls\<close> r(3) inj(3) init(3) that eq by blast
  moreover have "l_local (snd x) \<noteq> l_remote (snd y)"
    if "type = IFCONFIG_POOL_30NET" "x \<in> set ls" "y \<in> set ls" for x y
    using inj(4) r(3) init(3) that by blast
  moreover note range = pool_good_range [OF assms]
  ultimately show ?thesis using r by (cases type) (auto simp: list_all_iff)
qed

lemma pool_leases_disjoint_witness:
  "\<exists>pool pool' ls.
     ifconfig_pool_init IFCONFIG_POOL_INDIV 0x0A080002 0x0A080003 False True (replicate 15 0 @ [255]) 64 = Some pool \<and>
     pool_serve pool [] [Inl (1, True, None), Inl (2, True, None), Inl (3, False, None), Inr (4, 0, True)]
       = Some (pool', ls) \<and> distinct (map fst ls) \<and>
     distinct (List.map_filter (\<lambda>x. l_remote_ipv6 (snd x)) ls)"
proof -
  define base where "base = (replicate 15 0 @ [255] :: byte list)"
  define pool where
    "pool = the (ifconfig_pool_init IFCONFIG_POOL_INDIV 0x0A080002 0x0A080003 False True base 64)"
  have "ifconfig_pool_init IFCONFIG_POOL_INDIV 0x0A080002 0x0A080003 False True base 64 = Some pool"
    "length base = 16"
    unfolding pool_def base_def by code_simp+
  from this(1) pool_leases_disjoint [OF this] show ?thesis unfolding base_def by blast
qed

lemma sint_small_handle: "0 \<le> h \<Longrightarrow> h \<le> 65536 \<Longrightarrow> sint (word_of_int h :: u32) = h"
  by (simp add: int_word_sint)

lemma drop_bit_mult4:
  assumes "0 \<le> h" "h \<le> 65536" shows "drop_bit 2 (word_of_int (h * 4) :: u32) = word_of_int h"
proof (rule word_uint_eqI)
  show "uint (drop_bit 2 (word_of_int (h * 4) :: u32)) = uint (word_of_int h :: u32)"
    using assms by (simp add: drop_bit_eq_div uint_div uint_word_of_int del: of_int_mult)
qed

text \<open>
  Handles and addresses correspond: in a fresh pool the address of a handle maps back to that
  handle, and an address that maps to a handle is in the block of that handle.
\<close>

theorem pool_handle_roundtrip:
  assumes "ifconfig_pool_init type start stop dup v6 base6 netbits = Some pool"
    and "0 \<le> h" "h < ipv4_size pool"
  shows "ifconfig_pool_ip_base_to_handle pool (ifconfig_pool_handle_to_ip_base pool h) = h"
proof -
  note init = ifconfig_pool_init_spec [OF assms(1)]
  have size: "ipv4_size pool \<le> 65536" using init(1) by (simp add: pool_inv_def)
  have "sint (word_of_int h :: u32) = h" "sint (drop_bit 2 (word_of_int (h * 4) :: u32)) = h"
    using assms(2,3) size by (simp_all add: sint_small_handle drop_bit_mult4 del: of_int_mult)
  then show ?thesis
    using assms size by (cases "ipv4_type pool")
      (simp_all add: ifconfig_pool_handle_to_ip_base_def ifconfig_pool_ip_base_to_handle_def)
qed

lemma pool_find_loop_least:
  "pool_find_loop False (Some c) i es e p n = (p', n') \<Longrightarrow> 0 \<le> i \<Longrightarrow> p < 0 \<Longrightarrow> hit es i k \<Longrightarrow>
   common_name (es ! nat (k - i)) = Some c \<Longrightarrow> 0 \<le> p' \<and> p' \<le> k"
proof (induction es arbitrary: i e p n)
  case (Cons x es)
  have shift: "(x # es) ! nat (k - i) = es ! nat (k - (i + 1))" if "hit es (i + 1) k"
  proof -
    have "nat (k - i) = Suc (nat (k - (i + 1)))" using that by (simp add: hit_def) linarith
    then show ?thesis by simp
  qed
  show ?case
  proof (cases "in_use x")
    case True
    have "hit es (i + 1) k" using Cons.prems(4) True by (simp add: hit_Cons)
    with Cons.IH [OF Cons.prems(1) [unfolded pool_find_used [OF True]]] Cons.prems shift show ?thesis by auto
  next
    case False
    have "\<not> False" by simp
    note step = Cons.prems(1) [unfolded pool_find_free [OF False this]]
    show ?thesis
    proof (cases "common_name x = Some c")
      case True
      then show ?thesis
        using pool_find_loop_previous [OF step] Cons.prems(2,3,4) by (simp add: hit_def)
    next
      case other: False
      then have "hit es (i + 1) k" using Cons.prems(4,5) by (auto simp: hit_Cons)
      with Cons.IH [OF step] Cons.prems shift other show ?thesis by auto
    qed
  qed
qed (simp add: hit_def)

text \<open>
  A returning client gets its address back: when a named client gives its lease back softly and
  asks again before others do, it receives the same handle and the same addresses, in a pool that
  tells clients apart by name.
\<close>

theorem pool_reconnect_same_lease:
  assumes "pool_inv pool" "\<not> duplicate_cn pool"
    and acq: "ifconfig_pool_acquire now pool want6 (Some cn) = Some (pool1, h, Some l)"
    and rel: "ifconfig_pool_release later pool1 h False = (pool2, ok)"
  shows "ok \<and> (\<exists>pool3. ifconfig_pool_acquire then' pool2 want6 (Some cn) = Some (pool3, h, Some l))"
proof -
  define f where "f = (\<lambda>ipe. (ifconfig_pool_entry_free now ipe True)\<lparr>in_use := True, common_name := Some cn\<rparr>)"
  define g where "g = (\<lambda>ipe. ifconfig_pool_entry_free later (f ipe) False)"
  define k where "k = ifconfig_pool_find pool (Some cn)"
  have h: "h = k" "0 \<le> k" "pool1 = pool_upd pool k f" and l: "l = pool_lease pool want6 k"
    using acq unfolding ifconfig_pool_acquire_eq k_def [symmetric] by (auto simp: f_def Let_def split: if_splits)
  have size: "ipv4_size pool = int (length (pool_list pool))" using assms(1) by (simp add: pool_inv_def)
  have lt: "k < ipv4_size pool" using pool_find_spec [OF assms(1) k_def] h(2) by simp
  have pool2: "pool2 = pool_upd pool1 k (\<lambda>ipe. ifconfig_pool_entry_free later ipe False)" and ok
    using rel h lt by (auto simp: ifconfig_pool_release_def)
  have list2: "pool_list pool2 = (pool_list pool)[nat k := g (pool_list pool ! nat k)]"
    using lt h(2) size by (simp add: pool2 h(3) pool_upd_def g_def)
  have fields: "pool_lease pool2 = pool_lease pool" "\<not> duplicate_cn pool2" "ipv4_size pool2 = ipv4_size pool"
    using assms(2) by (auto simp: fun_eq_iff pool2 h(3))
  have g: "\<not> in_use (g e)" "common_name (g e) = Some cn" for e
    by (simp_all add: g_def f_def ifconfig_pool_entry_free_def)
  have "ifconfig_pool_find pool2 (Some cn) = k"
  proof -
    obtain p n where r: "pool_find_loop False (Some cn) 0 (pool_list pool2) 0 (-1) (-1) = (p, n)" by fastforce
    obtain p0 n0 where r0: "pool_find_loop False (Some cn) 0 (pool_list pool) 0 (-1) (-1) = (p0, n0)" by fastforce
    have "hit (pool_list pool2) 0 k" "common_name (pool_list pool2 ! nat (k - 0)) = Some cn"
      using h(2) lt size g by (simp_all add: hit_def list2)
    then have p: "0 \<le> p" "p \<le> k" using pool_find_loop_least [OF r] by simp_all
    have hit: "hit (pool_list pool2) 0 p" "common_name (pool_list pool2 ! nat p) = Some cn"
      using pool_find_loop_sound [OF r] p(1) by auto
    have "p = k"
    proof (rule ccontr)
      assume "p \<noteq> k"
      then have "hit (pool_list pool) 0 p" "common_name (pool_list pool ! nat (p - 0)) = Some cn"
        using hit p by (auto simp: hit_def list2 nth_list_update)
      then have "0 \<le> p0" "p0 \<le> p" using pool_find_loop_least [OF r0] by auto
      moreover have "0 \<le> p0 \<Longrightarrow> k = p0"
        using assms(2) size by (simp add: k_def ifconfig_pool_find_def r0)
      ultimately show False using p \<open>p \<noteq> k\<close> by simp
    qed
    then show ?thesis using r p(1) fields size by (simp add: ifconfig_pool_find_def list2)
  qed
  then show ?thesis
    using \<open>ok\<close> h l lt size g(1) by (simp add: ifconfig_pool_acquire_eq fields list2)
qed

lemma pool_reconnect_same_lease_witness:
  "\<exists>pool l p3. pool_inv pool \<and> ifconfig_pool_acquire 9 pool False (Some ''bob'') = Some (p3, 1, Some l)"
proof -
  define a where "a = the (ifconfig_pool_init IFCONFIG_POOL_INDIV 0x0A080002 0x0A080003 False False [] 64)"
  define b where "b = fst (the (ifconfig_pool_acquire 1 a False (Some ''alice'')))"
  define c where "c = fst (the (ifconfig_pool_acquire 2 b False (Some ''bob'')))"
  define d where "d = fst (ifconfig_pool_release 3 c 1 False)"
  define l where "l = \<lparr>l_local = 0, l_remote = 0x0A080003, l_remote_ipv6 = None\<rparr>"
  have acq: "ifconfig_pool_acquire 2 b False (Some ''bob'') = Some (c, 1, Some l)"
    unfolding c_def b_def a_def l_def by code_simp
  have rel: "ifconfig_pool_release 3 c 1 False = (d, True)"
    unfolding d_def c_def b_def a_def by code_simp
  have dup: "\<not> duplicate_cn b" unfolding b_def a_def by code_simp
  have inv: "pool_inv b" "pool_inv d" unfolding d_def c_def b_def a_def by code_simp+
  from pool_reconnect_same_lease [OF inv(1) dup acq rel, of 9] inv(2) show ?thesis by blast
qed

text \<open>
  C26. A request is refused only when the pool is exhausted: the acquisition returns no lease
  only when every entry is in use, or pinned to a client of another name.
\<close>

theorem pool_acquire_refused:
  assumes "pool_inv pool" "ifconfig_pool_acquire now pool want6 cn = Some (pool', h, None)"
  shows "h = -1 \<and> pool' = pool \<and> list_all (\<lambda>e. in_use e \<or>
    \<not> duplicate_cn pool \<and> fixed e \<and> (common_name e = None \<or> common_name e \<noteq> cn)) (pool_list pool)"
proof -
  have h: "h = ifconfig_pool_find pool cn" "h < 0" "pool' = pool"
    using assms(2) unfolding ifconfig_pool_acquire_eq by (auto simp: Let_def split: if_splits)
  then have find: "ifconfig_pool_find pool cn = -1" using pool_find_spec [OF assms(1) refl, of cn] by auto
  have "in_use x \<or> \<not> duplicate_cn pool \<and> fixed x \<and> (common_name x = None \<or> common_name x \<noteq> cn)"
    if "x \<in> set (pool_list pool)" for x
    using pool_find_fails [OF assms(1) find that] pool_find_sticky(1) [OF assms(1) _ that _ _ refl] find
    by (cases cn) auto
  then show ?thesis using h find by (auto simp: list_all_iff)
qed

lemma pool_acquire_refused_witness:
  "\<exists>pool. pool_inv pool \<and> pool_list pool \<noteq> [] \<and> list_all (\<lambda>e. in_use e \<or> fixed e) (pool_list pool)"
proof -
  define a where "a = the (ifconfig_pool_init IFCONFIG_POOL_INDIV 0x0A080002 0x0A080003 False False [] 64)"
  define b where "b = ifconfig_pool_set 1 a ''alice'' 0x0A080002 True"
  define c where "c = fst (the (ifconfig_pool_acquire 1 b False (Some ''bob'')))"
  have acq: "ifconfig_pool_acquire 2 c False (Some ''carol'') = Some (c, -1, None)"
    unfolding c_def b_def a_def by code_simp
  have inv: "pool_inv c" "pool_list c \<noteq> []" unfolding c_def b_def a_def by code_simp+
  from pool_acquire_refused [OF inv(1) acq] inv show ?thesis by (auto simp: list_all_iff)
qed

lemma pool_handle_roundtrip_witness:
  "\<exists>pool. ifconfig_pool_init IFCONFIG_POOL_30NET 0x0A080001 0x0A0800FE False False [] 64 = Some pool \<and>
     ifconfig_pool_ip_base_to_handle pool (ifconfig_pool_handle_to_ip_base pool 63) = 63"
proof -
  define a where "a = the (ifconfig_pool_init IFCONFIG_POOL_30NET 0x0A080001 0x0A0800FE False False [] 64)"
  have a: "ifconfig_pool_init IFCONFIG_POOL_30NET 0x0A080001 0x0A0800FE False False [] 64 = Some a"
    "63 < ipv4_size a"
    unfolding a_def by code_simp+
  from pool_handle_roundtrip [OF a(1) _ a(2)] a(1) show ?thesis by simp
qed

end
