(* ===== verification/List_Hash.thy ===== *)
theory List_Hash
  imports Integer_Util
begin

text \<open>
  list.h and list.c: the chained hash table that the server uses to find client instances, and Bob
  Jenkins' hash function. A chain is the list of its elements, from the head of the bucket; an
  element of a chain is named by its position, which no operation of an iterator changes. The key
  \<open>None\<close> is the null pointer that marks an element for deletion. The hash and the comparison of keys
  are fields of the table, as in the code.
\<close>

record ('k, 'v) hash_element =
  he_value :: 'v
  he_key :: "'k option"
  he_hash_value :: u32

record ('k, 'v) hash =
  n_buckets :: int
  n_elements :: int
  hash_mask :: int
  hash_iv :: u32
  hash_function :: "'k \<Rightarrow> u32 \<Rightarrow> u32"
  compare_function :: "'k \<Rightarrow> 'k option \<Rightarrow> bool"
  buckets :: "('k, 'v) hash_element list list"

subsection \<open>The table\<close>

definition hash_init ::
  "int \<Rightarrow> u32 \<Rightarrow> ('k \<Rightarrow> u32 \<Rightarrow> u32) \<Rightarrow> ('k \<Rightarrow> 'k option \<Rightarrow> bool) \<Rightarrow> ('k, 'v) hash option" where
  "hash_init n iv hf cf = do {
     c_assert (n > 0);
     p \<leftarrow> adjust_power_of_2 (word_of_int n);
     let nb = sint (ucast p :: u32);
     Some \<lparr>n_buckets = nb, n_elements = 0, hash_mask = nb - 1, hash_iv = iv, hash_function = hf,
           compare_function = cf, buckets = replicate (nat nb) []\<rparr>
   }"

definition hash_value :: "('k, 'v) hash \<Rightarrow> 'k \<Rightarrow> u32" where
  "hash_value h k = hash_function h k (hash_iv h)"

definition hash_n_elements :: "('k, 'v) hash \<Rightarrow> int" where "hash_n_elements h = n_elements h"

definition hash_n_buckets :: "('k, 'v) hash \<Rightarrow> int" where "hash_n_buckets h = n_buckets h"

text \<open>A bucket is named by its index.\<close>

definition hash_bucket :: "('k, 'v) hash \<Rightarrow> u32 \<Rightarrow> nat" where
  "hash_bucket h hv = unat (hv AND word_of_int (hash_mask h))"

text \<open>The search of a chain: the elements before the hit, the hit, and the elements after it.\<close>

fun chain_find ::
  "('k \<Rightarrow> 'k option \<Rightarrow> bool) \<Rightarrow> 'k \<Rightarrow> u32 \<Rightarrow> ('k, 'v) hash_element list \<Rightarrow> ('k, 'v) hash_element list \<Rightarrow>
   (('k, 'v) hash_element list \<times> ('k, 'v) hash_element \<times> ('k, 'v) hash_element list) option" where
  "chain_find cmp k hv prev [] = None"
| "chain_find cmp k hv prev (he # hes) =
     (if hv = he_hash_value he \<and> cmp k (he_key he) then Some (prev, he, hes)
      else chain_find cmp k hv (prev @ [he]) hes)"

definition set_chain ::
  "nat \<Rightarrow> ('k, 'v) hash_element list \<Rightarrow> ('k, 'v) hash \<Rightarrow> ('k, 'v) hash" where
  "set_chain b c h = h\<lparr>buckets := (buckets h)[b := c]\<rparr>"

text \<open>A hit is moved to the head of its chain.\<close>

definition hash_lookup_fast ::
  "('k, 'v) hash \<Rightarrow> nat \<Rightarrow> 'k \<Rightarrow> u32 \<Rightarrow> ('k, 'v) hash \<times> ('k, 'v) hash_element option" where
  "hash_lookup_fast h b k hv =
     (case chain_find (compare_function h) k hv [] (buckets h ! b) of
        None \<Rightarrow> (h, None)
      | Some (prev, he, hes) \<Rightarrow>
          ((if prev \<noteq> [] then set_chain b (he # prev @ hes) h else h), Some he))"

definition hash_lookup :: "('k, 'v) hash \<Rightarrow> 'k \<Rightarrow> ('k, 'v) hash \<times> 'v option" where
  "hash_lookup h k =
     (let hv = hash_value h k; (h, he) = hash_lookup_fast h (hash_bucket h hv) k hv
      in (h, case he of None \<Rightarrow> None | Some e \<Rightarrow> Some (he_value e)))"

definition hash_remove_fast ::
  "('k, 'v) hash \<Rightarrow> nat \<Rightarrow> 'k \<Rightarrow> u32 \<Rightarrow> ('k, 'v) hash \<times> bool" where
  "hash_remove_fast h b k hv =
     (case chain_find (compare_function h) k hv [] (buckets h ! b) of
        None \<Rightarrow> (h, False)
      | Some (prev, he, hes) \<Rightarrow> ((set_chain b (prev @ hes) h)\<lparr>n_elements := n_elements h - 1\<rparr>, True))"

definition hash_remove :: "('k, 'v) hash \<Rightarrow> 'k \<Rightarrow> ('k, 'v) hash \<times> bool" where
  "hash_remove h k =
     (let hv = hash_value h k in hash_remove_fast h (hash_bucket h hv) k hv)"

definition hash_add_fast ::
  "('k, 'v) hash \<Rightarrow> nat \<Rightarrow> 'k \<Rightarrow> u32 \<Rightarrow> 'v \<Rightarrow> ('k, 'v) hash" where
  "hash_add_fast h b k hv v =
     (set_chain b (\<lparr>he_value = v, he_key = Some k, he_hash_value = hv\<rparr> # buckets h ! b) h)
       \<lparr>n_elements := n_elements h + 1\<rparr>"

text \<open>An element that the lookup found is at the head of its chain, where its value is replaced.\<close>

definition hash_add :: "('k, 'v) hash \<Rightarrow> 'k \<Rightarrow> 'v \<Rightarrow> bool \<Rightarrow> ('k, 'v) hash \<times> bool" where
  "hash_add h k v replace =
     (let hv = hash_value h k; b = hash_bucket h hv in
      case hash_lookup_fast h b k hv of
        (h, Some he) \<Rightarrow>
          (if replace then (set_chain b (he\<lparr>he_value := v\<rparr> # tl (buckets h ! b)) h, True)
           else (h, False))
      | (h, None) \<Rightarrow> (hash_add_fast h b k hv v, True))"

subsection \<open>Iteration\<close>

record hash_iterator =
  hi_bucket_index :: int
  hi_bucket :: "nat option"
  hi_elem :: "nat option"
  hi_last :: "nat option"
  hi_bucket_marked :: bool
  hi_bucket_index_start :: int
  hi_bucket_index_end :: int

fun unmarked :: "('k, 'v) hash_element list \<Rightarrow> int \<Rightarrow> ('k, 'v) hash_element list \<times> int" where
  "unmarked [] n = ([], n)"
| "unmarked (he # hes) n =
     (if he_key he = None then unmarked hes (n - 1)
      else (case unmarked hes n of (c, m) \<Rightarrow> (he # c, m)))"

definition hash_remove_marked :: "('k, 'v) hash \<Rightarrow> nat \<Rightarrow> ('k, 'v) hash" where
  "hash_remove_marked h b =
     (case unmarked (buckets h ! b) (n_elements h) of
        (c, n) \<Rightarrow> (set_chain b c h)\<lparr>n_elements := n\<rparr>)"

definition hash_iterator_init_range :: "('k, 'v) hash \<Rightarrow> int \<Rightarrow> int \<Rightarrow> hash_iterator option" where
  "hash_iterator_init_range h start stop = do {
     let stop = (if stop > n_buckets h then n_buckets h else stop);
     c_assert (start \<ge> 0 \<and> start \<le> stop);
     Some \<lparr>hi_bucket_index = start - 1, hi_bucket = None, hi_elem = None, hi_last = None,
           hi_bucket_marked = False, hi_bucket_index_start = start, hi_bucket_index_end = stop\<rparr>
   }"

definition hash_iterator_init :: "('k, 'v) hash \<Rightarrow> hash_iterator option" where
  "hash_iterator_init h = hash_iterator_init_range h 0 (n_buckets h)"

definition hash_iterator_lock :: "hash_iterator \<Rightarrow> nat \<Rightarrow> hash_iterator" where
  "hash_iterator_lock hi b = hi\<lparr>hi_bucket := Some b, hi_last := None, hi_bucket_marked := False\<rparr>"

definition hash_iterator_unlock ::
  "('k, 'v) hash \<Rightarrow> hash_iterator \<Rightarrow> ('k, 'v) hash \<times> hash_iterator" where
  "hash_iterator_unlock h hi =
     (case hi_bucket hi of
        None \<Rightarrow> (h, hi)
      | Some b \<Rightarrow>
          (let (h, hi) = (if hi_bucket_marked hi
                          then (hash_remove_marked h b, hi\<lparr>hi_bucket_marked := False\<rparr>) else (h, hi))
           in (h, hi\<lparr>hi_bucket := None, hi_last := None\<rparr>)))"

text \<open>The bucket of the element is the locked one.\<close>

definition hash_iterator_advance :: "('k, 'v) hash \<Rightarrow> hash_iterator \<Rightarrow> nat \<Rightarrow> hash_iterator" where
  "hash_iterator_advance h hi p =
     hi\<lparr>hi_last := Some p,
        hi_elem := (if Suc p < length (buckets h ! the (hi_bucket hi)) then Some (Suc p) else None)\<rparr>"

definition hash_iterator_free ::
  "('k, 'v) hash \<Rightarrow> hash_iterator \<Rightarrow> ('k, 'v) hash \<times> hash_iterator" where
  "hash_iterator_free h hi = hash_iterator_unlock h hi"

text \<open>The loop of \<open>hash_iterator_next\<close> over the buckets.\<close>

function hash_iterator_skip ::
  "('k, 'v) hash \<Rightarrow> hash_iterator \<Rightarrow> ('k, 'v) hash \<times> hash_iterator \<times> ('k, 'v) hash_element option" where
  "hash_iterator_skip h hi =
     (let hi = hi\<lparr>hi_bucket_index := hi_bucket_index hi + 1\<rparr> in
      if hi_bucket_index hi < hi_bucket_index_end hi then
        (let (h, hi) = hash_iterator_unlock h hi; b = nat (hi_bucket_index hi) in
         if buckets h ! b \<noteq> [] then
           (let hi = hash_iterator_lock hi b; hi = hash_iterator_advance h (hi\<lparr>hi_elem := Some 0\<rparr>) 0
            in (h, hi, Some (buckets h ! b ! 0)))
         else hash_iterator_skip h hi)
      else (h, hi, None))"
  by auto

lemma unlock_bounds [simp]:
  "hash_iterator_unlock h hi = (h', hi') \<Longrightarrow>
     hi_bucket_index hi' = hi_bucket_index hi \<and> hi_bucket_index_end hi' = hi_bucket_index_end hi \<and>
     hi_elem hi' = hi_elem hi"
  by (auto simp: hash_iterator_unlock_def Let_def split: option.splits if_splits)

termination hash_iterator_skip
  by (relation "measure (\<lambda>(h, hi). nat (hi_bucket_index_end hi - hi_bucket_index hi))")
    (auto split: prod.splits dest: unlock_bounds)

declare hash_iterator_skip.simps [simp del]

definition hash_iterator_next ::
  "('k, 'v) hash \<Rightarrow> hash_iterator \<Rightarrow> ('k, 'v) hash \<times> hash_iterator \<times> ('k, 'v) hash_element option" where
  "hash_iterator_next h hi =
     (case hi_elem hi of
        Some p \<Rightarrow> (h, hash_iterator_advance h hi p, Some (buckets h ! the (hi_bucket hi) ! p))
      | None \<Rightarrow> hash_iterator_skip h hi)"

definition hash_iterator_delete_element ::
  "('k, 'v) hash \<Rightarrow> hash_iterator \<Rightarrow> (('k, 'v) hash \<times> hash_iterator) option" where
  "hash_iterator_delete_element h hi =
     (case hi_last hi of
        None \<Rightarrow> None
      | Some p \<Rightarrow>
          (let b = the (hi_bucket hi); c = buckets h ! b
           in Some (set_chain b (c[p := (c ! p)\<lparr>he_key := None\<rparr>]) h, hi\<lparr>hi_bucket_marked := True\<rparr>)))"

text \<open>Loops over the table may not end by the form of their code; \<open>None\<close> is divergence or a fault.\<close>

partial_function (option) remove_by_value_loop ::
  "('k, 'v) hash \<Rightarrow> hash_iterator \<Rightarrow> 'v \<Rightarrow> (('k, 'v) hash \<times> hash_iterator) option" where
  "remove_by_value_loop h hi v =
     (case hash_iterator_next h hi of
        (h, hi, None) \<Rightarrow> Some (h, hi)
      | (h, hi, Some he) \<Rightarrow>
          (if he_value he = v then
             Option.bind (hash_iterator_delete_element h hi) (\<lambda>(h, hi). remove_by_value_loop h hi v)
           else remove_by_value_loop h hi v))"

definition hash_remove_by_value :: "('k, 'v) hash \<Rightarrow> 'v \<Rightarrow> ('k, 'v) hash option" where
  "hash_remove_by_value h v = do {
     hi \<leftarrow> hash_iterator_init h;
     (h, hi) \<leftarrow> remove_by_value_loop h hi v;
     Some (fst (hash_iterator_free h hi))
   }"

subsection \<open>The hash function\<close>

definition hash_mix :: "u32 \<times> u32 \<times> u32 \<Rightarrow> u32 \<times> u32 \<times> u32" where
  "hash_mix = (\<lambda>(a, b, c).
     let a = a - b; a = a - c; a = a XOR drop_bit 13 c;
         b = b - c; b = b - a; b = b XOR push_bit 8 a;
         c = c - a; c = c - b; c = c XOR drop_bit 13 b;
         a = a - b; a = a - c; a = a XOR drop_bit 12 c;
         b = b - c; b = b - a; b = b XOR push_bit 16 a;
         c = c - a; c = c - b; c = c XOR drop_bit 5 b;
         a = a - b; a = a - c; a = a XOR drop_bit 3 c;
         b = b - c; b = b - a; b = b XOR push_bit 10 a;
         c = c - a; c = c - b; c = c XOR drop_bit 15 b
     in (a, b, c))"

definition kbyte :: "byte list \<Rightarrow> nat \<Rightarrow> nat \<Rightarrow> u32" where
  "kbyte k i s = push_bit s (ucast (k ! i))"

text \<open>The switch on the number of bytes that are left, with its cases falling through.\<close>

definition hash_tail :: "byte list \<Rightarrow> nat \<Rightarrow> u32 \<times> u32 \<times> u32 \<Rightarrow> u32 \<times> u32 \<times> u32" where
  "hash_tail k len = (\<lambda>(a, b, c).
     let c = (if len \<ge> 11 then c + kbyte k 10 24 else c);
         c = (if len \<ge> 10 then c + kbyte k 9 16 else c);
         c = (if len \<ge> 9 then c + kbyte k 8 8 else c);
         b = (if len \<ge> 8 then b + kbyte k 7 24 else b);
         b = (if len \<ge> 7 then b + kbyte k 6 16 else b);
         b = (if len \<ge> 6 then b + kbyte k 5 8 else b);
         b = (if len \<ge> 5 then b + kbyte k 4 0 else b);
         a = (if len \<ge> 4 then a + kbyte k 3 24 else a);
         a = (if len \<ge> 3 then a + kbyte k 2 16 else a);
         a = (if len \<ge> 2 then a + kbyte k 1 8 else a);
         a = (if len \<ge> 1 then a + kbyte k 0 0 else a)
     in (a, b, c))"

function hash_blocks :: "byte list \<Rightarrow> nat \<Rightarrow> u32 \<times> u32 \<times> u32 \<Rightarrow> byte list \<times> nat \<times> u32 \<times> u32 \<times> u32" where
  "hash_blocks k len (a, b, c) =
     (if len \<ge> 12 then
        hash_blocks (drop 12 k) (len - 12) (hash_mix
          (a + (kbyte k 0 0 + kbyte k 1 8 + kbyte k 2 16 + kbyte k 3 24),
           b + (kbyte k 4 0 + kbyte k 5 8 + kbyte k 6 16 + kbyte k 7 24),
           c + (kbyte k 8 0 + kbyte k 9 8 + kbyte k 10 16 + kbyte k 11 24)))
      else (k, len, a, b, c))"
  by auto
termination by (relation "measure (\<lambda>(k, len, x). len)") auto

declare hash_blocks.simps [simp del]

definition hash_func :: "byte list \<Rightarrow> nat \<Rightarrow> u32 \<Rightarrow> u32" where
  "hash_func k len0 initval =
     (case hash_blocks k len0 (0x9e3779b9, 0x9e3779b9, initval) of
        (k, len, a, b, c) \<Rightarrow>
          (case hash_mix (hash_tail k len (a, b, c + of_nat len0)) of (a, b, c) \<Rightarrow> c))"

subsection \<open>Chains\<close>

lemma chain_find_None:
  "chain_find cmp k hv prev es = None \<longleftrightarrow> (\<forall>e \<in> set es. \<not> (hv = he_hash_value e \<and> cmp k (he_key e)))"
  by (induction es arbitrary: prev) auto

lemma chain_find_Some:
  "chain_find cmp k hv prev es = Some (p, e, q) \<Longrightarrow>
   \<exists>p'. p = prev @ p' \<and> es = p' @ e # q \<and> hv = he_hash_value e \<and> cmp k (he_key e) \<and>
     (\<forall>x \<in> set p'. \<not> (hv = he_hash_value x \<and> cmp k (he_key x)))"
proof (induction es arbitrary: prev)
  case (Cons x es)
  show ?case
  proof (cases "hv = he_hash_value x \<and> cmp k (he_key x)")
    case True
    then show ?thesis using Cons.prems by simp
  next
    case False
    then have "chain_find cmp k hv (prev @ [x]) es = Some (p, e, q)" using Cons.prems by (simp split: if_splits)
    from Cons.IH [OF this] obtain p' where "p = (prev @ [x]) @ p'" "es = p' @ e # q"
      "hv = he_hash_value e" "cmp k (he_key e)" "\<forall>y \<in> set p'. \<not> (hv = he_hash_value y \<and> cmp k (he_key y))" by blast
    then show ?thesis using False by (intro exI [of _ "x # p'"]) auto
  qed
qed simp

lemma find_append_Cons_not: "\<not> P e \<Longrightarrow> find P (p @ e # q) = find P (p @ q)"
  by (induction p) auto

lemma find_append_None: "\<forall>x \<in> set p. \<not> P x \<Longrightarrow> find P (p @ q) = find P q"
  by (induction p) auto

subsection \<open>The invariant and the abstraction\<close>

text \<open>Two keys are the same when the table's comparison says so.\<close>

definition same_key :: "('k, 'v) hash \<Rightarrow> 'k \<Rightarrow> 'k \<Rightarrow> bool" where
  "same_key h x y = compare_function h x (Some y)"

definition key_law :: "('k \<Rightarrow> u32 \<Rightarrow> u32) \<Rightarrow> ('k \<Rightarrow> 'k option \<Rightarrow> bool) \<Rightarrow> bool" where
  "key_law hf cf \<longleftrightarrow> equivp (\<lambda>x y. cf x (Some y)) \<and> (\<forall>x y iv. cf x (Some y) \<longrightarrow> hf x iv = hf y iv)"

definition chain_ok :: "('k, 'v) hash \<Rightarrow> nat \<Rightarrow> ('k, 'v) hash_element list \<Rightarrow> bool" where
  "chain_ok h b c \<longleftrightarrow>
     (\<forall>e \<in> set c. \<exists>k. he_key e = Some k \<and> he_hash_value e = hash_value h k \<and>
        hash_bucket h (he_hash_value e) = b) \<and>
     sorted_wrt (\<lambda>x y. \<not> same_key h (the (he_key x)) (the (he_key y))) c"

definition hash_ok :: "('k, 'v) hash \<Rightarrow> bool" where
  "hash_ok h \<longleftrightarrow> key_law (hash_function h) (compare_function h) \<and>
     (\<exists>m \<le> 30. n_buckets h = 2 ^ m) \<and> hash_mask h = n_buckets h - 1 \<and>
     int (length (buckets h)) = n_buckets h \<and>
     n_elements h = int (sum_list (map length (buckets h))) \<and>
     (\<forall>b < length (buckets h). chain_ok h b (buckets h ! b))"

definition hash_abs :: "('k, 'v) hash \<Rightarrow> 'k \<Rightarrow> 'v option" where
  "hash_abs h k = map_option he_value
     (find (\<lambda>e. compare_function h k (he_key e)) (buckets h ! hash_bucket h (hash_value h k)))"

lemma same_keyD:
  assumes "hash_ok h"
  shows "same_key h x x" "same_key h x y \<Longrightarrow> same_key h y x" "same_key h x y \<Longrightarrow> same_key h y z \<Longrightarrow> same_key h x z"
    "same_key h x y \<Longrightarrow> hash_value h x = hash_value h y"
proof -
  have e: "equivp (same_key h)" using assms by (simp add: hash_ok_def key_law_def same_key_def [abs_def])
  show "same_key h x x" "same_key h x y \<Longrightarrow> same_key h y x"
    "same_key h x y \<Longrightarrow> same_key h y z \<Longrightarrow> same_key h x z"
    using e equivp_reflp equivp_symp equivp_transp by metis+
  show "same_key h x y \<Longrightarrow> hash_value h x = hash_value h y"
    using assms by (auto simp: hash_ok_def key_law_def same_key_def hash_value_def)
qed

lemma hash_bucket_less: "hash_ok h \<Longrightarrow> hash_bucket h hv < length (buckets h)"
proof -
  assume ok: "hash_ok h"
  then obtain m where m: "m \<le> 30" "n_buckets h = 2 ^ m" by (auto simp: hash_ok_def)
  have "(word_of_int (hash_mask h) :: u32) = mask m"
    using ok m by (simp add: hash_ok_def mask_eq_exp_minus_1)
  then have "hash_bucket h hv = unat (take_bit m hv)"
    by (simp add: hash_bucket_def take_bit_eq_mask)
  also have "\<dots> = take_bit m (unat hv)" by (simp add: unsigned_take_bit_eq)
  also have "\<dots> < 2 ^ m" by simp
  finally show ?thesis using ok m by (simp add: hash_ok_def flip: of_nat_less_iff)
qed

lemma set_chain_fields [simp]:
  "n_buckets (set_chain b c h) = n_buckets h" "n_elements (set_chain b c h) = n_elements h"
  "hash_mask (set_chain b c h) = hash_mask h" "hash_iv (set_chain b c h) = hash_iv h"
  "hash_function (set_chain b c h) = hash_function h"
  "compare_function (set_chain b c h) = compare_function h"
  "buckets (set_chain b c h) = (buckets h)[b := c]"
  by (simp_all add: set_chain_def)

lemma set_chain_derived [simp]:
  "hash_value (set_chain b c h) = hash_value h" "hash_bucket (set_chain b c h) = hash_bucket h"
  "same_key (set_chain b c h) = same_key h" "chain_ok (set_chain b c h) = chain_ok h"
  "hash_value (h\<lparr>n_elements := n\<rparr>) = hash_value h" "hash_bucket (h\<lparr>n_elements := n\<rparr>) = hash_bucket h"
  "same_key (h\<lparr>n_elements := n\<rparr>) = same_key h" "chain_ok (h\<lparr>n_elements := n\<rparr>) = chain_ok h"
  "hash_abs (h\<lparr>n_elements := n\<rparr>) = hash_abs h"
  by (simp_all add: fun_eq_iff hash_value_def hash_bucket_def same_key_def chain_ok_def hash_abs_def)

lemma sum_list_map_update:
  "b < length xs \<Longrightarrow> int (sum_list (map length (xs[b := c]))) =
     int (sum_list (map length xs)) + int (length c) - int (length (xs ! b))"
  by (induction xs arbitrary: b) (auto split: nat.splits)

lemma hash_ok_set_chain:
  assumes "hash_ok h" "b < length (buckets h)" "chain_ok h b c"
    and "n = n_elements h + int (length c) - int (length (buckets h ! b))"
  shows "hash_ok ((set_chain b c h)\<lparr>n_elements := n\<rparr>)"
  using assms by (auto simp: hash_ok_def sum_list_map_update nth_list_update)

lemma hash_abs_set_chain:
  assumes "b < length (buckets h)"
  shows "hash_abs (set_chain b c h) k =
    (if hash_bucket h (hash_value h k) = b
     then map_option he_value (find (\<lambda>e. compare_function h k (he_key e)) c) else hash_abs h k)"
  using assms by (auto simp: hash_abs_def)

text \<open>In a good chain the search by hash and comparison is the search by comparison.\<close>

lemma chain_match:
  assumes "hash_ok h" "chain_ok h b c" "e \<in> set c"
  shows "hash_value h k = he_hash_value e \<and> compare_function h k (he_key e) \<longleftrightarrow>
    compare_function h k (he_key e)"
  using assms same_keyD(4) [OF assms(1)] by (auto simp: chain_ok_def same_key_def)

lemma compare_same:
  assumes "hash_ok h" "compare_function h k (Some y)"
  shows "compare_function h k' (Some y) = same_key h k k'"
  using assms same_keyD [OF assms(1)] unfolding same_key_def by metis

lemma chain_key: "chain_ok h b c \<Longrightarrow> x \<in> set c \<Longrightarrow> \<exists>z. he_key x = Some z"
  by (auto simp: chain_ok_def)

lemma compare_not_same:
  assumes "hash_ok h" "\<not> same_key h k y"
  shows "same_key h k k' \<Longrightarrow> \<not> compare_function h k' (Some y)"
  using assms same_keyD [OF assms(1)] unfolding same_key_def by metis

lemma sorted_wrt_move:
  assumes "symp R" "sorted_wrt R (p @ e # q)"
  shows "sorted_wrt R (e # p @ q)"
  using assms by (auto simp: sorted_wrt_append symp_def)

lemma chain_ok_sub:
  "chain_ok h b (p @ e # q) \<Longrightarrow> chain_ok h b (p @ q)"
  by (auto simp: chain_ok_def sorted_wrt_append)

lemma chain_ok_move:
  assumes "hash_ok h" "chain_ok h b (p @ e # q)"
  shows "chain_ok h b (e # p @ q)"
proof -
  have "symp (\<lambda>x y. \<not> same_key h (the (he_key x)) (the (he_key y)))"
    using same_keyD(2) [OF assms(1)] by (auto simp: symp_def)
  from sorted_wrt_move [OF this, of p e q] assms(2) show ?thesis by (auto simp: chain_ok_def)
qed

text \<open>What the search of a good table finds.\<close>

lemma lookup_cases:
  assumes "hash_ok h" and hv: "hv = hash_value h k" and b: "b = hash_bucket h hv"
  obtains (none) "chain_find (compare_function h) k hv [] (buckets h ! b) = None" "hash_abs h k = None"
      "\<forall>x \<in> set (buckets h ! b). \<not> compare_function h k (he_key x)"
    | (some) p e q y where "chain_find (compare_function h) k hv [] (buckets h ! b) = Some (p, e, q)"
      "hash_abs h k = Some (he_value e)" "buckets h ! b = p @ e # q" "he_key e = Some y" "same_key h k y"
      "\<forall>x \<in> set p. \<not> compare_function h k (he_key x)" "\<forall>x \<in> set q. \<not> compare_function h k (he_key x)"
proof -
  have lt: "b < length (buckets h)" using assms hash_bucket_less by blast
  then have ok: "chain_ok h b (buckets h ! b)" using assms(1) by (simp add: hash_ok_def)
  note m = chain_match [OF assms(1) ok]
  show ?thesis
  proof (cases "chain_find (compare_function h) k hv [] (buckets h ! b)")
    case None
    then have "\<forall>x \<in> set (buckets h ! b). \<not> compare_function h k (he_key x)"
      using m unfolding chain_find_None hv by blast
    moreover from this have "hash_abs h k = None"
      by (simp add: hash_abs_def find_None_iff flip: hv b)
    ultimately show ?thesis using none None by blast
  next
    case (Some r)
    obtain p e q where r: "r = (p, e, q)" by (cases r)
    from chain_find_Some [OF Some [unfolded r]] have c: "buckets h ! b = p @ e # q"
      and e: "compare_function h k (he_key e)"
      and p: "\<forall>x \<in> set p. \<not> (hv = he_hash_value x \<and> compare_function h k (he_key x))" by auto
    have p': "\<forall>x \<in> set p. \<not> compare_function h k (he_key x)"
      using p m unfolding c hv by auto
    obtain y where y: "he_key e = Some y" using ok by (auto simp: c chain_ok_def)
    have same: "same_key h k y" using e y by (simp add: same_key_def)
    have "\<forall>x \<in> set q. \<not> compare_function h k (he_key x)"
    proof
      fix x assume x: "x \<in> set q"
      then have "\<not> same_key h y (the (he_key x))"
        using ok y by (auto simp: c chain_ok_def sorted_wrt_append)
      moreover obtain z where "he_key x = Some z" using chain_key [OF ok [unfolded c], of x] x by auto
      ultimately have z: "he_key x = Some z" "\<not> same_key h y z" by simp_all
      then show "\<not> compare_function h k (he_key x)"
        using z same same_keyD [OF assms(1)] unfolding same_key_def by metis
    qed
    moreover have "hash_abs h k = Some (he_value e)"
      using e p' by (simp add: hash_abs_def c find_append_None flip: hv b)
    ultimately show ?thesis using some Some r c y same p' by blast
  qed
qed

text \<open>Moving an element to the head of its chain cannot be observed.\<close>

lemma hash_abs_move:
  assumes "hash_ok h" "b < length (buckets h)" "buckets h ! b = p @ e # q"
  shows "hash_abs (set_chain b (e # p @ q) h) = hash_abs h"
proof
  fix k'
  let ?P = "\<lambda>x. compare_function h k' (he_key x)"
  have ok: "chain_ok h b (p @ e # q)" using assms by (metis hash_ok_def)
  have "find ?P (e # p @ q) = find ?P (p @ e # q)"
  proof (cases "?P e")
    case True
    obtain y where y: "he_key e = Some y" using ok by (auto simp: chain_ok_def)
    have "\<not> ?P x" if x: "x \<in> set p" for x
    proof -
      have "\<not> same_key h (the (he_key x)) y"
        using ok y x by (auto simp: chain_ok_def sorted_wrt_append)
      moreover obtain z where "he_key x = Some z" using chain_key [OF ok, of x] x by auto
      ultimately have "he_key x = Some z" "\<not> same_key h z y" by simp_all
      then show ?thesis using True y same_keyD [OF assms(1)] unfolding same_key_def by metis
    qed
    then show ?thesis using True by (simp add: find_append_None)
  qed (simp add: find_append_Cons_not)
  then show "hash_abs (set_chain b (e # p @ q) h) k' = hash_abs h k'"
    unfolding hash_abs_set_chain [OF assms(2)] by (simp add: hash_abs_def assms(3))
qed

lemma hash_lookup_fast_spec:
  assumes "hash_ok h" "hv = hash_value h k" "b = hash_bucket h hv"
    and "hash_lookup_fast h b k hv = (h', r)"
  shows "hash_ok h'" "hash_abs h' = hash_abs h" "same_key h' = same_key h"
    "hash_value h' = hash_value h" "hash_bucket h' = hash_bucket h" "n_elements h' = n_elements h"
    "hash_abs h k = map_option he_value r"
    "r = None \<Longrightarrow> h' = h"
    "r = Some e \<Longrightarrow> \<exists>q y. buckets h' ! b = e # q \<and> he_key e = Some y \<and> same_key h k y"
proof -
  have lt: "b < length (buckets h)" using assms hash_bucket_less by blast
  have main: "hash_ok h' \<and> hash_abs h' = hash_abs h \<and> same_key h' = same_key h \<and>
    hash_value h' = hash_value h \<and> hash_bucket h' = hash_bucket h \<and> n_elements h' = n_elements h \<and>
    hash_abs h k = map_option he_value r \<and> (r = None \<longrightarrow> h' = h) \<and>
    (\<forall>e. r = Some e \<longrightarrow> (\<exists>q y. buckets h' ! b = e # q \<and> he_key e = Some y \<and> same_key h k y))"
    using assms(1-3)
  proof (cases rule: lookup_cases)
    case none
    then show ?thesis using assms(1,4) by (simp add: hash_lookup_fast_def)
  next
    case (some p e q y)
    have ok: "chain_ok h b (p @ e # q)" using assms(1) lt some(3) by (metis hash_ok_def)
    show ?thesis
    proof (cases "p = []")
      case True
      then show ?thesis using some assms(1,4) by (auto simp: hash_lookup_fast_def)
    next
      case False
      then have h': "h' = set_chain b (e # p @ q) h" "r = Some e"
        using some assms(4) by (auto simp: hash_lookup_fast_def)
      have "hash_ok ((set_chain b (e # p @ q) h)\<lparr>n_elements := n_elements h\<rparr>)"
        by (rule hash_ok_set_chain [OF assms(1) lt chain_ok_move [OF assms(1) ok]]) (simp add: some(3))
      moreover have "(set_chain b (e # p @ q) h)\<lparr>n_elements := n_elements h\<rparr> = set_chain b (e # p @ q) h"
        by (simp add: set_chain_def)
      ultimately have "hash_ok h'" by (simp add: h')
      then show ?thesis using hash_abs_move [OF assms(1) lt some(3)] some lt by (simp add: h')
    qed
  qed
  show "hash_ok h'" "hash_abs h' = hash_abs h" "same_key h' = same_key h"
    "hash_value h' = hash_value h" "hash_bucket h' = hash_bucket h" "n_elements h' = n_elements h"
    "hash_abs h k = map_option he_value r" "r = None \<Longrightarrow> h' = h"
    "r = Some e \<Longrightarrow> \<exists>q y. buckets h' ! b = e # q \<and> he_key e = Some y \<and> same_key h k y"
    using main by blast+
qed

lemma hash_add_fast_spec:
  assumes "hash_ok h" "hash_abs h k = None" "hv = hash_value h k" "b = hash_bucket h hv"
    and none: "\<forall>x \<in> set (buckets h ! b). \<not> compare_function h k (he_key x)"
  shows "hash_ok (hash_add_fast h b k hv v)" "same_key (hash_add_fast h b k hv v) = same_key h"
    "hash_abs (hash_add_fast h b k hv v) k' = (if same_key h k k' then Some v else hash_abs h k')"
proof -
  have lt: "b < length (buckets h)" using assms hash_bucket_less by blast
  have ok: "chain_ok h b (buckets h ! b)" using assms(1) lt by (simp add: hash_ok_def)
  let ?e = "\<lparr>he_value = v, he_key = Some k, he_hash_value = hv\<rparr>"
  have "chain_ok h b (?e # buckets h ! b)"
    using ok none assms(3,4) by (fastforce simp: chain_ok_def same_key_def)
  from hash_ok_set_chain [OF assms(1) lt this refl]
  show "hash_ok (hash_add_fast h b k hv v)" "same_key (hash_add_fast h b k hv v) = same_key h"
    by (simp_all add: hash_add_fast_def)
  have "compare_function h k' (Some k) = same_key h k k'"
    using same_keyD [OF assms(1)] unfolding same_key_def by metis
  moreover have "same_key h k k' \<Longrightarrow> hash_bucket h (hash_value h k') = b"
    using same_keyD(4) [OF assms(1)] assms(3,4) by metis
  ultimately show "hash_abs (hash_add_fast h b k hv v) k' = (if same_key h k k' then Some v else hash_abs h k')"
    by (simp add: hash_add_fast_def hash_abs_set_chain lt) (simp add: hash_abs_def)
qed

lemma hash_replace_spec:
  assumes "hash_ok h" "hv = hash_value h k" "b = hash_bucket h hv"
    and c: "buckets h ! b = e # q" "he_key e = Some y" "same_key h k y"
    and h'_def: "h' = set_chain b (e\<lparr>he_value := v\<rparr> # q) h"
  shows "hash_ok h'" "same_key h' = same_key h"
    "hash_abs h' k' = (if same_key h k k' then Some v else hash_abs h k')"
proof -
  have lt: "b < length (buckets h)" using assms hash_bucket_less by blast
  have ok: "chain_ok h b (e # q)" using assms(1) lt c(1) by (metis hash_ok_def)
  then have "chain_ok h b (e\<lparr>he_value := v\<rparr> # q)" by (auto simp: chain_ok_def)
  from hash_ok_set_chain [OF assms(1) lt this, of "n_elements h"] c(1)
  show "hash_ok h'" by (simp add: h'_def set_chain_def)
  show "same_key h' = same_key h" by (simp add: h'_def)
  have "compare_function h k' (he_key e) = same_key h k k'"
    using same_keyD [OF assms(1)] c(2,3) unfolding same_key_def by metis
  moreover have "same_key h k k' \<Longrightarrow> hash_bucket h (hash_value h k') = b"
    using same_keyD(4) [OF assms(1)] assms(2,3) by metis
  ultimately show "hash_abs h' k' = (if same_key h k k' then Some v else hash_abs h k')"
    by (simp add: h'_def hash_abs_set_chain lt) (simp add: hash_abs_def c(1))
qed

lemma hash_lookup_spec:
  assumes "hash_ok h" "hash_lookup h k = (h', r)"
  shows "hash_ok h' \<and> hash_abs h' = hash_abs h \<and> same_key h' = same_key h \<and> r = hash_abs h k"
proof -
  let ?hv = "hash_value h k"
  obtain h1 e where l: "hash_lookup_fast h (hash_bucket h ?hv) k ?hv = (h1, e)" by fastforce
  then have "h' = h1" "r = map_option he_value e"
    using assms(2) by (auto simp: hash_lookup_def split: option.splits)
  then show ?thesis using hash_lookup_fast_spec [OF assms(1) refl refl l] by simp
qed

lemma hash_add_spec:
  assumes "hash_ok h" "hash_add h k v rep = (h', r)"
  shows "hash_ok h' \<and> same_key h' = same_key h \<and> r = (rep \<or> hash_abs h k = None) \<and>
    hash_abs h' = (if rep \<or> hash_abs h k = None
      then (\<lambda>k'. if same_key h k k' then Some v else hash_abs h k') else hash_abs h)"
proof -
  let ?hv = "hash_value h k"
  let ?b = "hash_bucket h ?hv"
  obtain h1 e where l: "hash_lookup_fast h ?b k ?hv = (h1, e)" by fastforce
  note spec = hash_lookup_fast_spec [OF assms(1) refl refl l]
  show ?thesis
  proof (cases e)
    case None
    have "h1 = h" "hash_abs h k = None" using None spec(7,8) by simp_all
    moreover have "\<forall>x \<in> set (buckets h ! ?b). \<not> compare_function h k (he_key x)"
      using assms(1) refl refl
    proof (cases rule: lookup_cases [where hv = ?hv and b = ?b and k = k])
      case (some p e q y)
      then show ?thesis using \<open>hash_abs h k = None\<close> by simp
    qed simp
    ultimately show ?thesis
      using assms(2) None l hash_add_fast_spec [OF assms(1) _ refl refl]
      by (auto simp: hash_add_def Let_def fun_eq_iff)
  next
    case (Some x)
    obtain q y where c: "buckets h1 ! ?b = x # q" "he_key x = Some y" "same_key h k y"
      using spec(9) [OF Some] by blast
    have b: "?b = hash_bucket h1 (hash_value h1 k)" by (simp add: spec)
    have "same_key h1 k y" using c(3) by (simp add: spec)
    note rep = hash_replace_spec [OF spec(1) refl b c(1,2) this refl]
    have "hash_abs h k \<noteq> None" using spec(7) Some by simp
    then show ?thesis
      using assms(2) Some l c(1) rep spec
      by (cases rep) (auto simp: hash_add_def Let_def fun_eq_iff)
  qed
qed

lemma hash_remove_spec:
  assumes "hash_ok h" "hash_remove h k = (h', r)"
  shows "hash_ok h' \<and> same_key h' = same_key h \<and> r = (hash_abs h k \<noteq> None) \<and>
    hash_abs h' = (\<lambda>k'. if same_key h k k' then None else hash_abs h k')"
proof -
  let ?hv = "hash_value h k"
  let ?b = "hash_bucket h ?hv"
  have lt: "?b < length (buckets h)" using assms hash_bucket_less by blast
  note same = same_keyD [OF assms(1)]
  show ?thesis
    using assms(1) refl refl
  proof (cases rule: lookup_cases [where hv = ?hv and b = ?b and k = k])
    case none
    have "hash_abs h k' = None" if "same_key h k k'" for k'
    proof -
      have "\<forall>x \<in> set (buckets h ! ?b). \<not> compare_function h k' (he_key x)"
      proof
        fix x assume x: "x \<in> set (buckets h ! ?b)"
        have "chain_ok h ?b (buckets h ! ?b)" using assms(1) lt by (simp add: hash_ok_def)
        then obtain z where "he_key x = Some z" using chain_key x by blast
        then show "\<not> compare_function h k' (he_key x)"
          using none(3) x that same unfolding same_key_def by metis
      qed
      moreover have "hash_bucket h (hash_value h k') = ?b" using same(4) that by metis
      ultimately show ?thesis by (simp add: hash_abs_def find_None_iff)
    qed
    then show ?thesis using none assms by (auto simp: hash_remove_def hash_remove_fast_def fun_eq_iff)
  next
    case (some p e q y)
    have h': "h' = (set_chain ?b (p @ q) h)\<lparr>n_elements := n_elements h - 1\<rparr>" "r"
      using some assms(2) by (auto simp: hash_remove_def hash_remove_fast_def)
    have ok: "chain_ok h ?b (p @ e # q)" using assms(1) lt some(3) by (metis hash_ok_def)
    have "hash_ok h'" unfolding h'
      by (rule hash_ok_set_chain [OF assms(1) lt chain_ok_sub [OF ok]]) (simp add: some(3))
    moreover have "hash_abs h' k' = (if same_key h k k' then None else hash_abs h k')" for k'
    proof (cases "same_key h k k'")
      case True
      have b: "hash_bucket h (hash_value h k') = ?b" using same(4) True by metis
      have "\<not> compare_function h k' (he_key x)" if x: "x \<in> set (p @ q)" for x
      proof -
        obtain z where "he_key x = Some z" using chain_key [OF ok, of x] x by auto
        moreover have "\<not> compare_function h k (he_key x)" using some(6,7) x by auto
        ultimately show ?thesis using True same unfolding same_key_def by metis
      qed
      then have "find (\<lambda>x. compare_function h k' (he_key x)) (p @ q) = None"
        unfolding find_None_iff by blast
      then show ?thesis using True b by (simp add: h' hash_abs_set_chain lt)
    next
      case False
      then have "\<not> compare_function h k' (he_key e)"
        using some(4,5) same unfolding same_key_def by metis
      then show ?thesis
        using False by (simp add: h' hash_abs_set_chain lt) (simp add: hash_abs_def some(3) find_append_Cons_not)
    qed
    ultimately show ?thesis using h' some(2) by (auto simp: fun_eq_iff)
  qed
qed

subsection \<open>Removal by value\<close>

text \<open>\<open>rebuild\<close> puts other chains in a table and counts them; \<open>mark\<close> and \<open>clean\<close> are what the
  removal does to an element, and to a chain.\<close>

definition total :: "('k, 'v) hash_element list list \<Rightarrow> int" where
  "total bs = int (sum_list (map length bs))"

definition rebuild :: "('k, 'v) hash \<Rightarrow> ('k, 'v) hash_element list list \<Rightarrow> ('k, 'v) hash" where
  "rebuild h bs = h\<lparr>buckets := bs, n_elements := n_elements h + total bs - total (buckets h)\<rparr>"

definition mark :: "'v \<Rightarrow> ('k, 'v) hash_element \<Rightarrow> ('k, 'v) hash_element" where
  "mark v e = (if he_value e = v then e\<lparr>he_key := None\<rparr> else e)"

abbreviation "clean v \<equiv> filter (\<lambda>e. he_value e \<noteq> v)"

lemma total_simps [simp]: "total [] = 0" "total (c # bs) = int (length c) + total bs" "total (bs @ bs') = total bs + total bs'"
  by (simp_all add: total_def)

lemma buckets_rebuild [simp]: "buckets (rebuild h bs) = bs"
  by (simp add: rebuild_def)

lemma rebuild_rebuild [simp]: "rebuild (rebuild h bs) bs' = rebuild h bs'"
  by (simp add: rebuild_def)

lemma rebuild_id [simp]: "rebuild h (buckets h) = h"
  by (simp add: rebuild_def)

definition keyed :: "('k, 'v) hash_element list \<Rightarrow> bool" where
  "keyed c \<longleftrightarrow> (\<forall>e \<in> set c. he_key e \<noteq> None)"

lemma keyed_simps [simp]: "keyed []" "keyed (e # c) \<longleftrightarrow> he_key e \<noteq> None \<and> keyed c" "keyed (c @ d) \<longleftrightarrow> keyed c \<and> keyed d"
  by (auto simp: keyed_def)

lemma unmarked_mark:
  "keyed c \<Longrightarrow> unmarked (map (mark v) c) n = (clean v c, n + int (length (clean v c)) - int (length c))"
  by (induction c arbitrary: n) (auto simp: mark_def)

text \<open>The iterator between buckets, and inside the chain \<open>c1 @ c2\<close> with \<open>c1\<close> behind it.\<close>

definition between :: "('k, 'v) hash_element list list \<Rightarrow> ('k, 'v) hash_element list list \<Rightarrow> ('k, 'v) hash \<Rightarrow> hash_iterator \<Rightarrow> bool" where
  "between D todo h hi \<longleftrightarrow> buckets h = D @ todo \<and> hi_bucket_index hi = int (length D) - 1 \<and>
     hi_bucket_index_end hi = int (length D + length todo) \<and> hi_bucket hi = None \<and> hi_elem hi = None"

definition inside :: "'v \<Rightarrow> ('k, 'v) hash_element list list \<Rightarrow> ('k, 'v) hash_element list \<Rightarrow> ('k, 'v) hash_element list \<Rightarrow>
    ('k, 'v) hash_element list list \<Rightarrow> ('k, 'v) hash \<Rightarrow> hash_iterator \<Rightarrow> bool" where
  "inside v D c1 c2 todo h hi \<longleftrightarrow> buckets h = D @ (map (mark v) c1 @ c2) # todo \<and>
     hi_bucket_index hi = int (length D) \<and> hi_bucket_index_end hi = int (Suc (length D + length todo)) \<and>
     hi_bucket hi = Some (length D) \<and> hi_elem hi = (if c2 = [] then None else Some (length c1)) \<and>
     (\<not> hi_bucket_marked hi \<longrightarrow> clean v c1 = c1) \<and> keyed c1"

lemma mark_clean: "clean v c = c \<Longrightarrow> map (mark v) c = c"
  by (induction c) (auto simp: mark_def dest: filter_eq_ConsD split: if_splits)

lemma unlock_inside:
  assumes "inside v D c [] todo h hi"
  shows "\<exists>hi'. hash_iterator_unlock h hi = (rebuild h (D @ clean v c # todo), hi') \<and>
    hi_bucket hi' = None \<and> hi_elem hi' = None \<and> hi_bucket_index hi' = hi_bucket_index hi \<and>
    hi_bucket_index_end hi' = hi_bucket_index_end hi"
proof (cases "hi_bucket_marked hi")
  case True
  have "hash_remove_marked h (length D) = rebuild h (D @ clean v c # todo)"
    using assms by (simp add: inside_def hash_remove_marked_def unmarked_mark rebuild_def set_chain_def)
  then show ?thesis using assms True by (simp add: inside_def hash_iterator_unlock_def)
next
  case False
  then have "clean v c = c" using assms by (simp add: inside_def)
  then have "rebuild h (D @ clean v c # todo) = h"
    using assms mark_clean [of v c] rebuild_id [of h] by (simp add: inside_def)
  then show ?thesis using assms False by (simp add: inside_def hash_iterator_unlock_def)
qed

lemma skip_unlock:
  assumes "hi_bucket_index hi + 1 < hi_bucket_index_end hi" "hash_iterator_unlock h hi = (h', hi')"
    "hi_bucket hi' = None"
  shows "hash_iterator_skip h hi = hash_iterator_skip h' hi'"
proof -
  have u: "hash_iterator_unlock h (hi\<lparr>hi_bucket_index := i\<rparr>) = (h', hi'\<lparr>hi_bucket_index := i\<rparr>)" for i
    using assms(2) by (cases "hi_bucket hi") (auto simp: hash_iterator_unlock_def Let_def split: if_splits)
  have "hash_iterator_unlock h' (hi'\<lparr>hi_bucket_index := i\<rparr>) = (h', hi'\<lparr>hi_bucket_index := i\<rparr>)" for i
    using assms(3) by (simp add: hash_iterator_unlock_def)
  with u assms(1) unlock_bounds [OF assms(2)] show ?thesis
    by (subst (1 2) hash_iterator_skip.simps) (simp add: Let_def)
qed

lemma skip_between:
  assumes "between D (c # todo) h hi"
  shows "hash_iterator_skip h hi =
    (if c = [] then hash_iterator_skip h (hi\<lparr>hi_bucket_index := int (length D)\<rparr>)
     else (h, hash_iterator_advance h ((hash_iterator_lock (hi\<lparr>hi_bucket_index := int (length D)\<rparr>) (length D))
            \<lparr>hi_elem := Some 0\<rparr>) 0, Some (hd c)))"
  using assms by (subst hash_iterator_skip.simps)
    (simp add: between_def hash_iterator_unlock_def Let_def hd_conv_nth nth_append)

lemma next_inside:
  assumes "inside v D c1 (e # c2) todo h hi"
  shows "hash_iterator_next h hi = (h, hash_iterator_advance h hi (length c1), Some e)"
  using assms by (simp add: hash_iterator_next_def inside_def nth_append)

definition sweeps :: "('k, 'v) hash \<Rightarrow> hash_iterator \<Rightarrow> 'v \<Rightarrow> ('k, 'v) hash_element list list \<Rightarrow> bool" where
  "sweeps h hi v bs \<longleftrightarrow> (\<exists>h' hi'. remove_by_value_loop h hi v = Some (h', hi') \<and>
     fst (hash_iterator_free h' hi') = rebuild h bs)"

text \<open>One turn of the loop on an element \<open>e\<close> that has just been read.\<close>

lemma sweep_turn:
  assumes r: "hash_iterator_next h hi = (h, hash_iterator_advance h hi1 (length c1), Some e)"
    and s: "buckets h = D @ (map (mark v) c1 @ e # c2) # todo" "hi_bucket_index hi1 = int (length D)"
      "hi_bucket_index_end hi1 = int (Suc (length D + length todo))" "hi_bucket hi1 = Some (length D)"
      "\<not> hi_bucket_marked hi1 \<longrightarrow> clean v c1 = c1" "keyed c1" "he_key e \<noteq> None"
    and go: "\<And>h hi. inside v D (c1 @ [e]) c2 todo h hi \<Longrightarrow> sweeps h hi v bs"
  shows "sweeps h hi v bs"
proof (cases "he_value e = v")
  case False
  have "inside v D (c1 @ [e]) c2 todo h (hash_iterator_advance h hi1 (length c1))"
    using s False by (auto simp: inside_def hash_iterator_advance_def mark_def)
  from go [OF this] show ?thesis
    unfolding sweeps_def by (subst remove_by_value_loop.simps) (simp add: r False)
next
  case True
  define h2 where "h2 = set_chain (length D) (map (mark v) c1 @ e\<lparr>he_key := None\<rparr> # c2) h"
  define hi2 where "hi2 = (hash_iterator_advance h hi1 (length c1))\<lparr>hi_bucket_marked := True\<rparr>"
  have d: "hash_iterator_delete_element h (hash_iterator_advance h hi1 (length c1)) = Some (h2, hi2)"
    using s by (simp add: hash_iterator_delete_element_def hash_iterator_advance_def h2_def hi2_def Let_def
        nth_append list_update_append)
  have "inside v D (c1 @ [e]) c2 todo h2 hi2"
    using s True by (auto simp: inside_def hash_iterator_advance_def mark_def h2_def hi2_def set_chain_def)
  moreover have "rebuild h2 bs = rebuild h bs"
    using s by (simp add: rebuild_def h2_def set_chain_def)
  ultimately show ?thesis
    using go [of h2 hi2] unfolding sweeps_def by (subst remove_by_value_loop.simps) (simp add: r d True)
qed

lemma sweep_inside:
  assumes after: "\<And>D h hi. between D todo h hi \<Longrightarrow> sweeps h hi v (D @ map (clean v) todo)"
    and "inside v D c1 c2 todo h hi" "keyed c2"
  shows "sweeps h hi v (D @ clean v (c1 @ c2) # map (clean v) todo)"
  using assms(2,3)
proof (induction c2 arbitrary: c1 h hi)
  case (Cons e c2)
  show ?case
  proof (rule sweep_turn [OF next_inside [OF Cons.prems(1)]])
    fix h hi assume "inside v D (c1 @ [e]) c2 todo h hi"
    from Cons.IH [OF this] Cons.prems(2)
    show "sweeps h hi v (D @ clean v (c1 @ e # c2) # map (clean v) todo)" by simp
  qed (use Cons.prems in \<open>auto simp: inside_def\<close>)
next
  case Nil
  obtain hi' where u: "hash_iterator_unlock h hi = (rebuild h (D @ clean v c1 # todo), hi')"
    "hi_bucket hi' = None" "hi_elem hi' = None" "hi_bucket_index hi' = hi_bucket_index hi"
    "hi_bucket_index_end hi' = hi_bucket_index_end hi"
    using unlock_inside [OF Nil.prems(1)] by blast
  show ?case
  proof (cases "todo = []")
    case True
    have "hash_iterator_next h hi = (h, hi\<lparr>hi_bucket_index := hi_bucket_index hi + 1\<rparr>, None)"
      using Nil True by (subst (asm) inside_def) (simp add: hash_iterator_next_def hash_iterator_skip.simps)
    moreover have "hash_iterator_unlock h (hi\<lparr>hi_bucket_index := i\<rparr>) = (rebuild h (D @ clean v c1 # todo), hi'\<lparr>hi_bucket_index := i\<rparr>)" for i
      using u(1) by (cases "hi_bucket hi") (auto simp: hash_iterator_unlock_def Let_def split: if_splits)
    ultimately show ?thesis
      using True unfolding sweeps_def by (subst remove_by_value_loop.simps) (simp add: hash_iterator_free_def)
  next
    case False
    let ?h = "rebuild h (D @ clean v c1 # todo)"
    have "hash_iterator_next h hi = hash_iterator_next ?h hi'"
      using Nil False u skip_unlock [OF _ u(1,2)] by (auto simp: inside_def hash_iterator_next_def neq_Nil_conv)
    moreover have "between (D @ [clean v c1]) todo ?h hi'"
      using u Nil by (simp add: between_def inside_def)
    ultimately show ?thesis
      using after unfolding sweeps_def
      by (subst remove_by_value_loop.simps, subst (asm) (2) remove_by_value_loop.simps) fastforce
  qed
qed

lemma sweep_between:
  "between D todo h hi \<Longrightarrow> list_all keyed todo \<Longrightarrow> sweeps h hi v (D @ map (clean v) todo)"
proof (induction todo arbitrary: D h hi)
  case Nil
  then have "rebuild h D = h" using rebuild_id [of h] by (simp add: between_def)
  with Nil show ?case
    unfolding sweeps_def by (subst remove_by_value_loop.simps)
      (simp add: between_def hash_iterator_next_def hash_iterator_skip.simps hash_iterator_free_def hash_iterator_unlock_def)
next
  case (Cons c todo)
  show ?case
  proof (cases c)
    case Nil
    have "between (D @ [[]]) todo h (hi\<lparr>hi_bucket_index := int (length D)\<rparr>)"
      using Cons.prems Nil by (simp add: between_def)
    from Cons.IH [OF this] have "sweeps h (hi\<lparr>hi_bucket_index := int (length D)\<rparr>) v (D @ map (clean v) (c # todo))"
      using Cons.prems Nil by simp
    moreover have "hash_iterator_next h hi = hash_iterator_next h (hi\<lparr>hi_bucket_index := int (length D)\<rparr>)"
      using Cons.prems Nil skip_between [OF Cons.prems(1)] by (simp add: hash_iterator_next_def between_def)
    ultimately show ?thesis
      unfolding sweeps_def by (subst remove_by_value_loop.simps, subst (asm) remove_by_value_loop.simps) simp
  next
    case (Cons e c')
    let ?hi = "(hash_iterator_lock (hi\<lparr>hi_bucket_index := int (length D)\<rparr>) (length D))\<lparr>hi_elem := Some 0\<rparr>"
    have "hash_iterator_next h hi = (h, hash_iterator_advance h ?hi (length []), Some e)"
      using \<open>between D (c # todo) h hi\<close> Cons skip_between [OF \<open>between D (c # todo) h hi\<close>]
      by (simp add: hash_iterator_next_def between_def)
    then show ?thesis
    proof (rule sweep_turn [where ?c1.0 = "[]" and D = D and e = e and ?c2.0 = c' and todo = todo])
      fix h hi assume "inside v D ([] @ [e]) c' todo h hi"
      from sweep_inside [OF _ this] \<open>list_all keyed (c # todo)\<close> Cons.IH Cons
      show "sweeps h hi v (D @ map (clean v) (c # todo))" by simp
    qed (use Cons.prems Cons in \<open>auto simp: between_def hash_iterator_lock_def\<close>)
  qed
qed

lemma chain_ok_filter: "chain_ok h b c \<Longrightarrow> chain_ok h b (filter P c)"
  by (auto simp: chain_ok_def sorted_wrt_filter)

lemma hash_remove_by_value_eq:
  assumes "hash_ok h"
  shows "hash_remove_by_value h v = Some (rebuild h (map (clean v) (buckets h)))"
proof -
  have n: "n_buckets h = int (length (buckets h))" "0 < n_buckets h" using assms by (auto simp: hash_ok_def)
  then obtain hi where hi: "hash_iterator_init h = Some hi" "between [] (buckets h) h hi"
    by (simp add: hash_iterator_init_def hash_iterator_init_range_def between_def)
  have keyed: "list_all keyed (buckets h)"
    using assms chain_key by (fastforce simp: list_all_length keyed_def hash_ok_def)
  obtain h1 hi1 where "remove_by_value_loop h hi v = Some (h1, hi1)"
    "fst (hash_iterator_free h1 hi1) = rebuild h (map (clean v) (buckets h))"
    using sweep_between [OF hi(2) keyed, of v] by (auto simp: sweeps_def)
  then show ?thesis using hi(1) by (simp add: hash_remove_by_value_def)
qed

lemma hash_remove_by_value_spec:
  assumes "hash_ok h"
  shows "\<exists>h'. hash_remove_by_value h v = Some h' \<and> hash_ok h' \<and> same_key h' = same_key h \<and>
    hash_abs h' = (\<lambda>k. if hash_abs h k = Some v then None else hash_abs h k)"
proof -
  have good: "chain_ok h b (buckets h ! b)" if "b < length (buckets h)" for b
    using assms that by (simp add: hash_ok_def)
  define h' where "h' = rebuild h (map (clean v) (buckets h))"
  have r: "hash_remove_by_value h v = Some h'" unfolding h'_def by (rule hash_remove_by_value_eq [OF assms])
  have same: "chain_ok h' = chain_ok h" "same_key h' = same_key h" "hash_value h' = hash_value h"
    "hash_bucket h' = hash_bucket h" "compare_function h' = compare_function h"
    by (simp_all add: h'_def rebuild_def fun_eq_iff chain_ok_def same_key_def hash_value_def hash_bucket_def)
  have "hash_ok h'"
  proof -
    have "\<forall>b < length (buckets h'). chain_ok h' b (buckets h' ! b)"
      unfolding same by (simp add: h'_def chain_ok_filter [OF good])
    then show ?thesis
      using assms by (auto simp: hash_ok_def h'_def rebuild_def total_def)
  qed
  moreover have "hash_abs h' k = (if hash_abs h k = Some v then None else hash_abs h k)" for k
  proof -
    let ?b = "hash_bucket h (hash_value h k)"
    have lt: "?b < length (buckets h)" using hash_bucket_less [OF assms] .
    have abs: "hash_abs h' k =
        map_option he_value (find (\<lambda>e. compare_function h k (he_key e)) (clean v (buckets h ! ?b)))"
      using lt by (simp add: hash_abs_def same) (simp add: h'_def)
    show ?thesis
      using assms refl refl
    proof (cases rule: lookup_cases [where hv = "hash_value h k" and b = ?b and k = k])
      case none
      then have "find (\<lambda>e. compare_function h k (he_key e)) (clean v (buckets h ! ?b)) = None"
        by (simp add: find_None_iff)
      then show ?thesis using none abs by simp
    next
      case (some p e q y)
      have p: "find (\<lambda>e. compare_function h k (he_key e)) (clean v p @ r) = find (\<lambda>e. compare_function h k (he_key e)) r" for r
        using some(6) by (intro find_append_None) auto
      have q: "find (\<lambda>e. compare_function h k (he_key e)) (clean v q) = None"
        using some(7) by (simp add: find_None_iff)
      have "compare_function h k (he_key e)" using some(4,5) by (simp add: same_key_def)
      then show ?thesis using some(2,3) abs p q by simp
    qed
  qed
  ultimately show ?thesis using r same(2) by (auto simp: fun_eq_iff)
qed

lemma hash_init_spec:
  assumes "key_law hf cf" "0 < n" "n \<le> 2 ^ 30"
  shows "\<exists>h. hash_init n iv hf cf = Some h \<and> hash_ok h \<and> hash_abs h = (\<lambda>k. None) \<and>
    same_key h = (\<lambda>x y. cf x (Some y)) \<and> n \<le> n_buckets h \<and> n_elements h = 0"
proof -
  have u: "(word_of_int n :: 64 word) \<le> 2 ^ 30"
    using assms(2,3) by (simp add: word_le_def uint_word_of_int)
  then have "(word_of_int n :: 64 word) \<le> 2 ^ 63" by (rule order_trans) simp
  from adjust_loop_from [OF this, of 0 64] obtain m where m: "m \<le> 63"
    "adjust_power_of_2 (word_of_int n) = Some (2 ^ m)" "(word_of_int n :: 64 word) \<le> 2 ^ m"
    "\<forall>j < m. (2 :: 64 word) ^ j < word_of_int n"
    by (auto simp: adjust_power_of_2_def)
  have m30: "m \<le> 30"
  proof (rule ccontr)
    assume "\<not> m \<le> 30"
    then have "(2 :: 64 word) ^ 30 < word_of_int n" using m(4) by (meson not_le)
    with u show False by (meson leD)
  qed
  have p: "(2 :: int) ^ m \<le> 2 ^ 30" using m30 by (intro power_increasing) simp_all
  then have u64: "uint ((2 :: 64 word) ^ m) = 2 ^ m"
    using uint_word_of_int [of "2 ^ m", where ?'a = 64] by simp
  have "ucast ((2 :: 64 word) ^ m) = (word_of_int (2 ^ m) :: u32)"
    unfolding ucast_eq u64 ..
  then have "sint (ucast (2 ^ m :: 64 word) :: u32) = 2 ^ m \<and> uint (2 ^ m :: 64 word) = 2 ^ m"
    using p u64 by (simp add: int_word_sint del: of_int_power)
  moreover have "uint (word_of_int n :: 64 word) = n" using assms(2,3) by (simp add: uint_word_of_int)
  then have "n \<le> uint (2 ^ m :: 64 word)" using m(3) by (simp add: word_le_def)
  moreover define h :: "('a, 'b) hash" where
    "h = \<lparr>n_buckets = 2 ^ m, n_elements = 0, hash_mask = 2 ^ m - 1, hash_iv = iv, hash_function = hf,
          compare_function = cf, buckets = replicate (nat (2 ^ m)) []\<rparr>"
  ultimately have h: "hash_init n iv hf cf = Some h" "n \<le> n_buckets h" "n_elements h = 0"
    using assms(2) m(2) by (simp_all add: hash_init_def Let_def h_def)
  have ok: "hash_ok h" using assms(1) m30 by (auto simp: hash_ok_def h_def chain_ok_def sum_list_replicate)
  have "buckets h ! hash_bucket h hv = []" for hv
    using hash_bucket_less [OF ok, of hv] by (simp add: h_def)
  then have "hash_abs h = (\<lambda>k. None)" by (simp add: hash_abs_def fun_eq_iff)
  with h ok show ?thesis by (auto simp: same_key_def h_def fun_eq_iff)
qed

subsection \<open>The table as a map\<close>

text \<open>
  The contract of a keyed table: what a lookup, an insertion and the two removals do to the
  abstract map, and which of them fail. \<open>same\<close> is the comparison of keys.
\<close>

datatype ('k, 'v) table_op =
  Op_lookup 'k
| Op_add 'k 'v bool
| Op_remove 'k
| Op_remove_value 'v

datatype 'v table_out = Found "'v option" | Done bool | Swept

fun map_exec :: "('k \<Rightarrow> 'k \<Rightarrow> bool) \<Rightarrow> ('k \<Rightarrow> 'v option) \<Rightarrow> ('k, 'v) table_op list \<Rightarrow> 'v table_out list" where
  "map_exec same m [] = []"
| "map_exec same m (Op_lookup k # ops) = Found (m k) # map_exec same m ops"
| "map_exec same m (Op_add k v replace # ops) =
     (if replace \<or> m k = None
      then Done True # map_exec same (\<lambda>k'. if same k k' then Some v else m k') ops
      else Done False # map_exec same m ops)"
| "map_exec same m (Op_remove k # ops) =
     Done (m k \<noteq> None) # map_exec same (\<lambda>k'. if same k k' then None else m k') ops"
| "map_exec same m (Op_remove_value v # ops) =
     Swept # map_exec same (\<lambda>k. if m k = Some v then None else m k) ops"

locale keyed_table =
  fixes inv :: "'s \<Rightarrow> bool"
    and same :: "'s \<Rightarrow> 'k \<Rightarrow> 'k \<Rightarrow> bool"
    and abs :: "'s \<Rightarrow> 'k \<Rightarrow> 'v option"
    and lookup :: "'s \<Rightarrow> 'k \<Rightarrow> 's \<times> 'v option"
    and add :: "'s \<Rightarrow> 'k \<Rightarrow> 'v \<Rightarrow> bool \<Rightarrow> 's \<times> bool"
    and remove :: "'s \<Rightarrow> 'k \<Rightarrow> 's \<times> bool"
    and remove_value :: "'s \<Rightarrow> 'v \<Rightarrow> 's option"
    and exec :: "'s \<Rightarrow> ('k, 'v) table_op list \<Rightarrow> 'v table_out list option"
  assumes lookup_law: "inv s \<Longrightarrow> lookup s k = (s', r) \<Longrightarrow>
      inv s' \<and> abs s' = abs s \<and> same s' = same s \<and> r = abs s k"
    and add_law: "inv s \<Longrightarrow> add s k v replace = (s', ok) \<Longrightarrow>
      inv s' \<and> same s' = same s \<and> ok = (replace \<or> abs s k = None) \<and>
      abs s' = (if replace \<or> abs s k = None then (\<lambda>k'. if same s k k' then Some v else abs s k') else abs s)"
    and remove_law: "inv s \<Longrightarrow> remove s k = (s', ok) \<Longrightarrow>
      inv s' \<and> same s' = same s \<and> ok = (abs s k \<noteq> None) \<and>
      abs s' = (\<lambda>k'. if same s k k' then None else abs s k')"
    and remove_value_law: "inv s \<Longrightarrow>
      \<exists>s'. remove_value s v = Some s' \<and> inv s' \<and> same s' = same s \<and>
        abs s' = (\<lambda>k. if abs s k = Some v then None else abs s k)"
    and exec_Nil: "exec s [] = Some []"
    and exec_lookup: "exec s (Op_lookup k # ops) =
      (case lookup s k of (s, r) \<Rightarrow> map_option ((#) (Found r)) (exec s ops))"
    and exec_add: "exec s (Op_add k v replace # ops) =
      (case add s k v replace of (s, ok) \<Rightarrow> map_option ((#) (Done ok)) (exec s ops))"
    and exec_remove: "exec s (Op_remove k # ops) =
      (case remove s k of (s, ok) \<Rightarrow> map_option ((#) (Done ok)) (exec s ops))"
    and exec_remove_value: "exec s (Op_remove_value v # ops) =
      Option.bind (remove_value s v) (\<lambda>s. map_option ((#) Swept) (exec s ops))"
begin

lemma exec_refines_map: "inv s \<Longrightarrow> exec s ops = Some (map_exec (same s) (abs s) ops)"
proof (induction ops arbitrary: s)
  case (Cons op ops)
  show ?case
  proof (cases op)
    case (Op_lookup k)
    obtain s' r where "lookup s k = (s', r)" by fastforce
    with lookup_law [OF Cons.prems this] Cons.IH [of s'] show ?thesis by (simp add: Op_lookup exec_lookup)
  next
    case (Op_add k v replace)
    obtain s' r where "add s k v replace = (s', r)" by fastforce
    with add_law [OF Cons.prems this] Cons.IH [of s'] show ?thesis
      by (simp add: Op_add exec_add split: if_splits)
  next
    case (Op_remove k)
    obtain s' r where "remove s k = (s', r)" by fastforce
    with remove_law [OF Cons.prems this] Cons.IH [of s'] show ?thesis by (simp add: Op_remove exec_remove)
  next
    case (Op_remove_value v)
    obtain s' where "remove_value s v = Some s'" "inv s'" "same s' = same s"
      "abs s' = (\<lambda>k. if abs s k = Some v then None else abs s k)"
      using remove_value_law [OF Cons.prems] by blast
    with Cons.IH [of s'] show ?thesis by (simp add: Op_remove_value exec_remove_value)
  qed
qed (simp add: exec_Nil)

end

fun hash_exec :: "('k, 'v) hash \<Rightarrow> ('k, 'v) table_op list \<Rightarrow> 'v table_out list option" where
  "hash_exec h [] = Some []"
| "hash_exec h (Op_lookup k # ops) =
     (case hash_lookup h k of (h, r) \<Rightarrow> map_option ((#) (Found r)) (hash_exec h ops))"
| "hash_exec h (Op_add k v replace # ops) =
     (case hash_add h k v replace of (h, ok) \<Rightarrow> map_option ((#) (Done ok)) (hash_exec h ops))"
| "hash_exec h (Op_remove k # ops) =
     (case hash_remove h k of (h, ok) \<Rightarrow> map_option ((#) (Done ok)) (hash_exec h ops))"
| "hash_exec h (Op_remove_value v # ops) =
     Option.bind (hash_remove_by_value h v) (\<lambda>h. map_option ((#) Swept) (hash_exec h ops))"

interpretation table: keyed_table hash_ok same_key hash_abs hash_lookup hash_add hash_remove
  hash_remove_by_value hash_exec
  by unfold_locales
    (simp_all only: hash_exec.simps, (rule hash_lookup_spec hash_add_spec hash_remove_spec hash_remove_by_value_spec; assumption)+)

text \<open>
  C23. The hash table is a finite map: whatever the sequence of lookups, insertions with or without
  replacement, removals by key and removals by value, a table made by \<open>hash_init\<close> returns what
  a map from keys to values returns, and never faults; the order of the chains, which lookups
  change, cannot be seen.
\<close>

theorem hash_table_refines_map:
  fixes ops :: "('k, 'v) table_op list"
  assumes "key_law hf cf" "0 < n" "n \<le> 2 ^ 30"
  shows "\<exists>h. hash_init n iv hf cf = Some h \<and>
    hash_exec h ops = Some (map_exec (\<lambda>x y. cf x (Some y)) (\<lambda>k. None) ops)"
proof -
  obtain h :: "('k, 'v) hash" where "hash_init n iv hf cf = Some h" "hash_ok h" "hash_abs h = (\<lambda>k. None)"
    "same_key h = (\<lambda>x y. cf x (Some y))"
    using hash_init_spec [OF assms] by blast
  with table.exec_refines_map [of h ops] show ?thesis by simp
qed

text \<open>
  C24. Removing by value ends, and takes out every element with that value and no other: the
  iteration over all the buckets, with marked elements unlinked behind it, neither diverges nor
  faults nor skips an element, and the count of elements is right afterwards.
\<close>

theorem hash_remove_by_value_ends:
  assumes "hash_ok h"
  shows "\<exists>h'. hash_remove_by_value h v = Some h' \<and>
    buckets h' = map (filter (\<lambda>e. he_value e \<noteq> v)) (buckets h) \<and>
    n_elements h' = int (sum_list (map length (buckets h')))"
  using hash_remove_by_value_eq [OF assms, of v] assms by (auto simp: rebuild_def total_def hash_ok_def)

text \<open>A small table, whose keys are numbers that collide in pairs.\<close>

definition sample_table :: "(nat, nat) hash" where
  "sample_table = the (hash_init 3 0 (\<lambda>k iv. of_nat (k div 2)) (\<lambda>k y. y = Some k))"

lemma sample_law: "key_law (\<lambda>k iv. of_nat (k div 2)) (\<lambda>k y. y = Some k)"
  by (auto simp: key_law_def equivp_def fun_eq_iff)

lemma hash_table_refines_map_witness:
  "hash_exec sample_table [Op_add 4 7 False, Op_add 5 8 False, Op_add 13 7 True, Op_add 4 9 False,
     Op_lookup 4, Op_lookup 5, Op_remove_value 7, Op_lookup 4, Op_lookup 5, Op_remove 5, Op_remove 5] =
   Some [Done True, Done True, Done True, Done False, Found (Some 7), Found (Some 8), Swept,
     Found None, Found (Some 8), Done True, Done False]"
proof -
  let ?ops = "[Op_add 4 7 False, Op_add 5 8 False, Op_add 13 7 True, Op_add 4 9 False,
     Op_lookup 4, Op_lookup 5, Op_remove_value 7, Op_lookup 4, Op_lookup 5, Op_remove 5, Op_remove (5 :: nat)]
     :: (nat, nat) table_op list"
  have "map_exec (\<lambda>x y. Some y = Some x) (\<lambda>k. None) ?ops =
    [Done True, Done True, Done True, Done False, Found (Some 7), Found (Some 8), Swept,
     Found None, Found (Some 8), Done True, Done False]"
    by simp
  with hash_table_refines_map [OF sample_law, of 3 0 ?ops] show ?thesis
    by (auto simp: sample_table_def)
qed

lemma hash_remove_by_value_ends_witness:
  "\<exists>h :: (nat, nat) hash. hash_ok h \<and> n_elements h = 2 \<and> map_option n_elements (hash_remove_by_value h 7) = Some 1"
proof -
  define h where "h = fst (hash_add (fst (hash_add sample_table 4 7 False)) 5 8 False)"
  have s: "hash_ok sample_table"
    using hash_init_spec [OF sample_law, of 3 0, where 'b = nat] by (auto simp: sample_table_def)
  have "hash_ok h"
    unfolding h_def using hash_add_spec [OF s] hash_add_spec by (metis prod.collapse)
  moreover have "n_elements h = 2" "map (map he_value) (buckets h) = [[], [], [8, 7], []]"
    unfolding h_def sample_table_def by code_simp+
  moreover from this(2) obtain a b where "buckets h = [[], [], [a, b], []]" "he_value a = 8" "he_value b = 7"
    by (auto simp: map_eq_Cons_conv)
  ultimately show ?thesis
    using hash_remove_by_value_ends [of h 7] by auto
qed

end
