(* ===== verification/Base64.thy ===== *)
theory Base64
  imports Prelude
begin

text \<open>
  base64.c: encoding and decoding of binary data as text, used by the management interface and by
  the authentication with pushed challenges. Text is a list of characters without its terminator,
  which the code reads as one more character; \<open>int\<close> values stay below \<open>2 ^ 31\<close>. The encoder
  writes to a block of \<open>size * 4 / 3 + 4\<close> characters, and a write outside it is a fault.
\<close>

definition base64_chars :: string where
  "base64_chars = ''ABCDEFGHIJKLMNOPQRSTUVWXYZabcdefghijklmnopqrstuvwxyz0123456789+/''"

subsection \<open>Encoding\<close>

text \<open>The characters of one group of \<open>c\<close>, with the padding at the end of the input.\<close>

definition encode_group :: "int \<Rightarrow> int \<Rightarrow> int \<Rightarrow> string" where
  "encode_group c i sz =
     [base64_chars ! nat (drop_bit 18 (c AND 0x00fc0000)),
      base64_chars ! nat (drop_bit 12 (c AND 0x0003f000)),
      (if i > sz + 1 then CHR ''='' else base64_chars ! nat (drop_bit 6 (c AND 0x00000fc0))),
      (if i > sz then CHR ''='' else base64_chars ! nat (drop_bit 0 (c AND 0x0000003f)))]"

function encode_loop :: "byte list \<Rightarrow> int \<Rightarrow> int \<Rightarrow> int \<Rightarrow> string \<Rightarrow> string option" where
  "encode_loop q sz cap i s =
     (if i < sz then do {
        c_assert (0 \<le> i \<and> sz \<le> int (length q));
        let c = uint (q ! nat i);
        let i = i + 1;
        let c = c * 256;
        let c = (if i < sz then c + uint (q ! nat i) else c);
        let i = i + 1;
        let c = c * 256;
        let c = (if i < sz then c + uint (q ! nat i) else c);
        let i = i + 1;
        c_assert (int (length s) + 4 \<le> cap);
        encode_loop q sz cap i (s @ encode_group c i sz)
      } else do {
        c_assert (int (length s) + 1 \<le> cap);
        Some s
      })"
  by auto
termination by (relation "measure (\<lambda>(q, sz, cap, i, s). nat (sz - i))") auto

declare encode_loop.simps [simp del]

text \<open>\<open>Inl\<close> is the return value -1; a product that leaves the range of \<open>int\<close> is a fault.\<close>

definition openvpn_base64_encode :: "byte list \<Rightarrow> int \<Rightarrow> (unit + string) option" where
  "openvpn_base64_encode q sz =
     (if sz < 0 then Some (Inl ())
      else do {
        c_assert (sz * 4 < 2 ^ 31);
        s \<leftarrow> encode_loop q sz (sz * 4 div 3 + 4) 0 [];
        Some (Inr s)
      })"

subsection \<open>Decoding\<close>

fun pos_from :: "char \<Rightarrow> int \<Rightarrow> string \<Rightarrow> int" where
  "pos_from c i [] = -1"
| "pos_from c i (p # ps) = (if p = c then i else pos_from c (i + 1) ps)"

definition base64_pos :: "char \<Rightarrow> int" where "base64_pos c = pos_from c 0 base64_chars"

definition DECODE_ERROR :: u32 where "DECODE_ERROR = 0xffffffff"

text \<open>The loop over the four characters, with \<open>marker\<close> and \<open>val\<close>.\<close>

fun token_loop :: "string \<Rightarrow> int \<Rightarrow> u32 \<Rightarrow> (int \<times> u32) option" where
  "token_loop [] marker val = Some (marker, val)"
| "token_loop (c # cs) marker val =
     (let val = val * 64 in
      if c = CHR ''='' then token_loop cs (marker + 1) val
      else if marker > 0 then None
      else token_loop cs marker (val + word_of_int (base64_pos c)))"

text \<open>A token that the terminator cuts short is an error.\<close>

definition token_decode :: "string \<Rightarrow> u32" where
  "token_decode token =
     (if length token < 4 then DECODE_ERROR
      else (case token_loop (take 4 token) 0 0 of
              None \<Rightarrow> DECODE_ERROR
            | Some (marker, val) \<Rightarrow>
                if marker > 2 then DECODE_ERROR else push_bit 24 (word_of_int marker) OR val))"

definition byte_at :: "nat \<Rightarrow> u32 \<Rightarrow> byte" where
  "byte_at n val = ucast (drop_bit n val AND 0xff)"

text \<open>
  \<open>out\<close> holds the bytes written so far. The result is what was written and the return value,
  -1 for a malformed text or a full buffer; a negative \<open>size\<close> means no limit.
\<close>

definition full :: "int \<Rightarrow> byte list \<Rightarrow> bool" where
  "full sz out \<longleftrightarrow> sz \<ge> 0 \<and> int (length out) \<ge> sz"

function decode_loop :: "string \<Rightarrow> int \<Rightarrow> byte list \<Rightarrow> byte list \<times> int" where
  "decode_loop p sz out =
     (if p \<noteq> [] \<and> (hd p = CHR ''='' \<or> hd p \<in> set base64_chars) then
        (let val = token_decode p; marker = drop_bit 24 val AND 0xff in
         if val = DECODE_ERROR then (out, -1)
         else if full sz out then (out, -1)
         else
           (let out = out @ [byte_at 16 val] in
            if marker < 2 \<and> full sz out then (out, -1)
            else
              (let out = (if marker < 2 then out @ [byte_at 8 val] else out) in
               if marker < 1 \<and> full sz out then (out, -1)
               else
                 (let out = (if marker < 1 then out @ [byte_at 0 val] else out)
                  in decode_loop (drop 4 p) sz out))))
      else (out, int (length out)))"
  by auto
termination by (relation "measure (\<lambda>(p, sz, out). length p)") auto

declare decode_loop.simps [simp del]

definition openvpn_base64_decode :: "string \<Rightarrow> int \<Rightarrow> byte list \<times> int" where
  "openvpn_base64_decode str sz = decode_loop str sz []"

subsection \<open>Groups\<close>

text \<open>The text of the groups of three bytes that remain, by structural recursion.\<close>

fun enc3 :: "byte list \<Rightarrow> string" where
  "enc3 (a # b # c # q) = encode_group (uint a * 65536 + uint b * 256 + uint c) 0 0 @ enc3 q"
| "enc3 [a, b] = encode_group (uint a * 65536 + uint b * 256) 1 0"
| "enc3 [a] = encode_group (uint a * 65536) 2 0"
| "enc3 [] = []"

lemma encode_group_shift: "encode_group c (i + k) (i + m) = encode_group c k m"
  by (simp add: encode_group_def)

lemma length_encode_group [simp]: "length (encode_group c i sz) = 4"
  by (simp add: encode_group_def)

lemma drop_ConsD: "drop i q = a # r \<Longrightarrow> i < length q \<and> q ! i = a \<and> drop (Suc i) q = r"
  by (metis drop_Suc drop_eq_Nil2 list.distinct(1) list.sel(3) not_le nth_via_drop tl_drop)

text \<open>The code keeps room for the groups that are left and the terminator.\<close>

lemma encode_loop_enc3:
  "sz = int (length q) \<Longrightarrow> int (length s + 4 * ((length (drop i q) + 2) div 3)) + 1 \<le> cap \<Longrightarrow>
   encode_loop q sz cap (int i) s = Some (s @ enc3 (drop i q))"
proof (induction "drop i q" arbitrary: i s rule: enc3.induct)
  case (1 a b c q')
  from drop_ConsD [OF 1(2) [symmetric]] have a: "i < length q" "q ! i = a" "drop (Suc i) q = b # c # q'" by simp_all
  from drop_ConsD [OF a(3)] have b: "Suc i < length q" "q ! Suc i = b" "drop (Suc (Suc i)) q = c # q'" by simp_all
  from drop_ConsD [OF b(3)] have c: "Suc (Suc i) < length q" "q ! Suc (Suc i) = c" "drop (Suc (Suc (Suc i))) q = q'" by simp_all
  have n: "nat (int i) = i" "nat (int i + 1) = Suc i" "nat (2 + int i) = Suc (Suc i)" "3 + int i = int (Suc (Suc (Suc i)))"
    by simp_all
  have g: "encode_group x (3 + int i) (int (length q)) = encode_group x 0 0" for x
    using c(1) by (simp add: encode_group_def)
  have room: "(length (drop i q) + 2) div 3 = Suc ((length q' + 2) div 3)"
  proof -
    have "length (drop i q) = length q' + 3" unfolding 1(2) [symmetric] by simp
    then show ?thesis by presburger
  qed
  have ih: "encode_loop q sz cap (int (Suc (Suc (Suc i)))) t = Some (t @ enc3 q')"
    if "int (length t + 4 * ((length q' + 2) div 3)) + 1 \<le> cap" for t
    using 1(1) [OF c(3) [symmetric] 1(3)] that c(3) by simp
  define x where "x = uint a * 65536 + uint b * 256 + uint c"
  have x: "65536 * uint a + uint b * 256 + uint c = x" by (simp add: x_def)
  have "encode_loop q sz cap (int i) s = encode_loop q sz cap (3 + int i) (s @ encode_group x 0 0)"
    using 1(3,4) a b c room by (subst encode_loop.simps) (simp add: n(1-3) g x Let_def)
  also have "\<dots> = Some ((s @ encode_group x 0 0) @ enc3 q')"
    unfolding n(4) by (rule ih) (use 1(4) room in simp)
  finally show ?case by (simp add: 1(2) [symmetric] x_def)
next
  case (2 a b)
  from drop_ConsD [OF 2(1) [symmetric]] have a: "i < length q" "q ! i = a" "drop (Suc i) q = [b]" by simp_all
  from drop_ConsD [OF a(3)] have b: "q ! Suc i = b" "length q = Suc (Suc i)" by simp_all
  have n: "nat (int i) = i" "nat (int i + 1) = Suc i" by simp_all
  have g: "encode_group x (3 + int i) (2 + int i) = encode_group x 1 0" for x
    by (simp add: encode_group_def)
  have "int (length s) + 5 \<le> cap" using 2(3) 2(1) [symmetric] by simp
  then show ?case
    using 2(2) a b by (subst encode_loop.simps, subst encode_loop.simps) (simp add: n g Let_def mult.commute 2(1) [symmetric])
next
  case (3 a)
  from drop_ConsD [OF 3(1) [symmetric]] have a: "i < length q" "q ! i = a" "length q = Suc i" by simp_all
  have g: "encode_group x (3 + int i) (1 + int i) = encode_group x 2 0" for x
    by (simp add: encode_group_def)
  have "int (length s) + 5 \<le> cap" using 3(3) 3(1) [symmetric] by simp
  then show ?case
    using 3(2) a by (subst encode_loop.simps, subst encode_loop.simps) (simp add: g Let_def mult.commute 3(1) [symmetric])
next
  case 4
  then have "length q \<le> i" by (metis drop_eq_Nil)
  with 4 show ?case by (subst encode_loop.simps) simp
qed

lemma encode_spec:
  assumes "4 * length q < 2 ^ 31"
  shows "openvpn_base64_encode q (int (length q)) = Some (Inr (enc3 q))"
proof -
  have "4 * int ((length q + 2) div 3) + 1 \<le> int (length q) * 4 div 3 + 4" by presburger
  then show ?thesis
    using assms encode_loop_enc3 [of _ q "[]" 0] by (simp add: openvpn_base64_encode_def)
qed

subsection \<open>Decoding what was encoded\<close>

lemma pos_chars:
  assumes "k < 64" shows "base64_pos (base64_chars ! k) = int k"
    "base64_chars ! k \<in> set base64_chars" "base64_chars ! k \<noteq> CHR ''=''"
proof -
  have len: "length base64_chars = 64" by (simp add: base64_chars_def)
  have "pos_from (cs ! k) i cs = i + int k" if "distinct cs" "k < length cs" for cs i
    using that by (induction cs arbitrary: i k) (auto simp: nth_Cons split: nat.splits)
  moreover have "distinct base64_chars" "CHR ''='' \<notin> set base64_chars" by (simp_all add: base64_chars_def)
  moreover have "base64_chars ! k \<in> set base64_chars" using assms by (intro nth_mem) (simp add: len)
  ultimately show "base64_pos (base64_chars ! k) = int k" "base64_chars ! k \<noteq> CHR ''=''"
    using assms unfolding base64_pos_def len [symmetric] by force+
  show "base64_chars ! k \<in> set base64_chars" using assms by (intro nth_mem) (simp add: base64_chars_def)
qed

lemma sextet:
  fixes c :: int
  shows "drop_bit 18 (c AND 0x00fc0000) = c div 262144 mod 64" "drop_bit 12 (c AND 0x0003f000) = c div 4096 mod 64"
    "drop_bit 6 (c AND 0x00000fc0) = c div 64 mod 64" "drop_bit 0 (c AND 0x0000003f) = c mod 64"
proof -
  have m: "drop_bit n (c AND push_bit n (mask 6)) = c div 2 ^ n mod 64" for n
  proof -
    have "drop_bit n (c AND push_bit n (mask 6)) = take_bit 6 (drop_bit n c)"
      by (rule bit_eqI) (auto simp: bit_simps)
    then show ?thesis by (simp add: take_bit_eq_mod drop_bit_eq_div)
  qed
  have p: "push_bit 18 (mask 6) = (0x00fc0000 :: int)" "push_bit 12 (mask 6) = (0x0003f000 :: int)"
    "push_bit 6 (mask 6) = (0x00000fc0 :: int)" "push_bit 0 (mask 6) = (0x0000003f :: int)" by code_simp+
  show "drop_bit 18 (c AND 0x00fc0000) = c div 262144 mod 64" using m [of 18] unfolding p by simp
  show "drop_bit 12 (c AND 0x0003f000) = c div 4096 mod 64" using m [of 12] unfolding p by simp
  show "drop_bit 6 (c AND 0x00000fc0) = c div 64 mod 64" using m [of 6] unfolding p by simp
  show "drop_bit 0 (c AND 0x0000003f) = c mod 64" using m [of 0] unfolding p by simp
qed

lemma sextets_sum:
  fixes c :: int
  assumes "0 \<le> c" "c < 16777216"
  shows "((c div 262144 mod 64 * 64 + c div 4096 mod 64) * 64 + c div 64 mod 64) * 64 + c mod 64 = c"
proof -
  define q1 q2 q3 where "q1 = c div 64" and "q2 = q1 div 64" and "q3 = q2 div 64"
  have d1: "c div 4096 = q2" using zdiv_zmult2_eq [of 64 c 64] unfolding q2_def q1_def by simp
  have d: "c div 262144 = q3" using zdiv_zmult2_eq [of 64 c 4096] unfolding q3_def d1 [symmetric] by simp
  moreover have "q3 mod 64 = q3"
  proof (rule mod_pos_pos_trivial)
    have "262144 * q3 + c mod 262144 = c" unfolding d [symmetric] by (rule mult_div_mod_eq)
    moreover have "0 \<le> c mod 262144" by simp
    ultimately show "0 \<le> q3" "q3 < 64" using assms by linarith+
  qed
  moreover have "q3 * 64 + q2 mod 64 = q2" "q2 * 64 + q1 mod 64 = q1" "q1 * 64 + c mod 64 = c"
    unfolding q3_def q2_def q1_def by (rule div_mult_mod_eq)+
  ultimately show ?thesis unfolding q1_def [symmetric] d d1 by simp
qed

lemma push_or:
  assumes "0 \<le> c" "c < 16777216" "0 \<le> k" "k < 256"
  shows "push_bit 24 (word_of_int k) OR (word_of_int c :: u32) = word_of_int (k * 16777216 + c)"
proof -
  have c: "take_bit 24 (word_of_int c :: u32) = word_of_int c"
    by (rule word_uint_eqI, subst unsigned_take_bit_eq)
      (use assms in \<open>simp add: uint_word_of_int take_bit_eq_mod\<close>)
  have "push_bit 24 (word_of_int k) OR (word_of_int c :: u32) = push_bit 24 (word_of_int k) + word_of_int c"
    by (subst (1 2) c [symmetric], rule disjunctive_add [symmetric]) (auto simp: bit_simps)
  then show ?thesis by (simp add: push_bit_eq_mult)
qed

lemma byte_at_int:
  assumes "0 \<le> n" "n < 2 ^ 32"
  shows "byte_at m (word_of_int n) = word_of_int (n div 2 ^ m)"
proof (rule word_uint_eqI)
  have "uint (drop_bit m (word_of_int n :: u32)) = n div 2 ^ m"
    using assms by (simp add: unsigned_drop_bit_eq uint_word_of_int) (simp add: drop_bit_eq_div take_bit_int_eq_self)
  then show "uint (byte_at m (word_of_int n)) = uint (word_of_int (n div 2 ^ m) :: byte)"
    unfolding byte_at_def ucast_eq uint_and_FF by (simp add: uint_word_of_int)
qed

lemma token_value:
  assumes "0 \<le> c" "c < 16777216"
  shows "token_decode (encode_group c 0 0 @ r) = word_of_int c"
    and "c mod 64 = 0 \<Longrightarrow> token_decode (encode_group c 1 0 @ r) = word_of_int (16777216 + c)"
    and "c mod 4096 = 0 \<Longrightarrow> token_decode (encode_group c 2 0 @ r) = word_of_int (33554432 + c)"
proof -
  define x y z u where "x = c div 262144 mod 64" and "y = c div 4096 mod 64" and "z = c div 64 mod 64" and "u = c mod 64"
  have r: "base64_pos (base64_chars ! nat v) = v" "base64_chars ! nat v \<noteq> CHR ''=''" if "0 \<le> v" "v < 64" for v
    using pos_chars [of "nat v"] that by simp_all
  have k: "0 \<le> x" "x < 64" "0 \<le> y" "y < 64" "0 \<le> z" "z < 64" "0 \<le> u" "u < 64"
    by (simp_all add: x_def y_def z_def u_def)
  note p = r [OF k(1,2)] r [OF k(3,4)] r [OF k(5,6)] r [OF k(7,8)]
  have sum: "((x * 64 + y) * 64 + z) * 64 + u = c" unfolding x_def y_def z_def u_def by (rule sextets_sum [OF assms])
  have g: "encode_group c i 0 = [base64_chars ! nat x, base64_chars ! nat y,
    (if i > 1 then CHR ''='' else base64_chars ! nat z), (if i > 0 then CHR ''='' else base64_chars ! nat u)]" for i
    unfolding encode_group_def sextet x_def y_def z_def u_def by simp
  have w: "((word_of_int x * 64 + word_of_int y) * 64 + word_of_int z) * 64 + word_of_int u =
    (word_of_int (((x * 64 + y) * 64 + z) * 64 + u) :: u32)" by simp
  show "token_decode (encode_group c 0 0 @ r) = word_of_int c"
    using w unfolding sum by (simp add: token_decode_def g p del: of_int_add of_int_mult)
  show "token_decode (encode_group c 1 0 @ r) = word_of_int (16777216 + c)" if "c mod 64 = 0"
  proof -
    have "u = 0" using that by (simp add: u_def)
    with w have v: "((word_of_int x * 64 + word_of_int y) * 64 + word_of_int z) * 64 = (word_of_int c :: u32)"
      unfolding sum by simp
    have "token_decode (encode_group c 1 0 @ r) =
        push_bit 24 (word_of_int 1) OR (((word_of_int x * 64 + word_of_int y) * 64 + word_of_int z) * 64)"
      by (simp add: token_decode_def g p)
    then show ?thesis unfolding v using push_or [OF assms, of 1] by simp
  qed
  show "token_decode (encode_group c 2 0 @ r) = word_of_int (33554432 + c)" if c0: "c mod 4096 = 0"
  proof -
    obtain m where "c = 64 * (64 * m)" using c0 by (auto simp: mod_eq_0_iff_dvd elim: dvdE)
    then have "c mod 64 = 0" "c div 64 mod 64 = 0" by simp_all
    then have "u = 0" "z = 0" by (simp_all add: u_def z_def)
    with w have v: "(word_of_int x * 64 + word_of_int y) * 64 * 64 = (word_of_int c :: u32)"
      unfolding sum by simp
    have "token_decode (encode_group c 2 0 @ r) =
        push_bit 24 (word_of_int 2) OR ((word_of_int x * 64 + word_of_int y) * 64 * 64)"
      by (simp add: token_decode_def g p)
    then show ?thesis unfolding v using push_or [OF assms, of 2] by simp
  qed
qed

lemma byte_int [simp]: "word_of_int (uint b) = (b :: byte)"
  by simp

lemma hd_group:
  assumes "0 \<le> c" "c < 16777216"
  shows "encode_group c i 0 @ r \<noteq> []" "hd (encode_group c i 0 @ r) \<in> set base64_chars"
  using pos_chars(2) [of "nat (c div 262144 mod 64)"]
  unfolding encode_group_def sextet by simp_all

text \<open>The decoder undoes one group, if the output has room.\<close>

lemma decode_group:
  assumes c: "c = uint a * 65536 + uint b * 256 + uint d" 
  shows "sz < 0 \<or> int (length out) + 3 \<le> sz \<Longrightarrow>
      decode_loop (encode_group c 0 0 @ r) sz out = decode_loop r sz (out @ [a, b, d])"
    and "sz < 0 \<or> int (length out) + 2 \<le> sz \<Longrightarrow> uint d = 0 \<Longrightarrow>
      decode_loop (encode_group c 1 0 @ r) sz out = decode_loop r sz (out @ [a, b])"
    and "sz < 0 \<or> int (length out) + 1 \<le> sz \<Longrightarrow> uint b = 0 \<Longrightarrow> uint d = 0 \<Longrightarrow>
      decode_loop (encode_group c 2 0 @ r) sz out = decode_loop r sz (out @ [a])"
proof -
  have u: "0 \<le> uint a" "uint a < 256" "0 \<le> uint b" "uint b < 256" "0 \<le> uint d" "uint d < 256"
    using uint_lt2p [of a] uint_lt2p [of b] uint_lt2p [of d] by simp_all
  then have range: "0 \<le> c" "c < 16777216" unfolding c by linarith+
  have val: "byte_at 16 (word_of_int (k * 16777216 + c)) = a" "byte_at 8 (word_of_int (k * 16777216 + c)) = b"
    "byte_at 0 (word_of_int (k * 16777216 + c)) = d" "drop_bit 24 (word_of_int (k * 16777216 + c) :: u32) AND 0xff = word_of_int k"
    "(word_of_int (k * 16777216 + c) :: u32) \<noteq> DECODE_ERROR" if "0 \<le> k" "k \<le> 2" for k
  proof -
    define n where "n = k * 16777216 + c"
    have n: "0 \<le> n" "n < 2 ^ 32 - 1" using that range by (simp_all add: n_def)
    have d: "n div 65536 = k * 256 + uint a" "n div 256 = (k * 256 + uint a) * 256 + uint b" "n div 16777216 = k"
    proof -
      show "n div 65536 = k * 256 + uint a"
        by (rule int_div_pos_eq [where r = "uint b * 256 + uint d"]) (use u in \<open>simp_all add: n_def c\<close>)
      show "n div 256 = (k * 256 + uint a) * 256 + uint b"
        by (rule int_div_pos_eq [where r = "uint d"]) (use u in \<open>simp_all add: n_def c\<close>)
      show "n div 16777216 = k"
        by (rule int_div_pos_eq [where r = c]) (use range in \<open>simp_all add: n_def\<close>)
    qed
    have byte: "word_of_int (x * 256 + uint y) = (y :: byte)" for x y
      by (rule word_uint_eqI) (use uint_lt2p [of y] in \<open>simp add: uint_word_of_int del: of_int_add of_int_mult\<close>)
    have "drop_bit 24 (word_of_int n :: u32) AND 0xff = word_of_int k"
    proof (rule word_uint_eqI)
      have "uint (drop_bit 24 (word_of_int n :: u32)) = k"
        using n d(3) by (simp add: unsigned_drop_bit_eq uint_word_of_int) (simp add: drop_bit_eq_div take_bit_int_eq_self)
      then show "uint (drop_bit 24 (word_of_int n :: u32) AND 0xff) = uint (word_of_int k :: u32)"
        unfolding uint_and_FF using that by (simp add: uint_word_of_int)
    qed
    moreover have "(word_of_int n :: u32) \<noteq> DECODE_ERROR"
    proof
      assume "(word_of_int n :: u32) = DECODE_ERROR"
      then have "uint (word_of_int n :: u32) = 2 ^ 32 - 1" by (simp add: DECODE_ERROR_def)
      then show False using n by (simp add: uint_word_of_int)
    qed
    moreover have "byte_at 16 (word_of_int n) = a" "byte_at 8 (word_of_int n) = b" "byte_at 0 (word_of_int n) = d"
    proof -
      have n0: "n = ((k * 256 + uint a) * 256 + uint b) * 256 + uint d" by (simp add: n_def c)
      have "byte_at 16 (word_of_int n) = word_of_int (n div 65536)" "byte_at 8 (word_of_int n) = word_of_int (n div 256)"
        "byte_at 0 (word_of_int n) = word_of_int n"
        using byte_at_int [of n 16] byte_at_int [of n 8] byte_at_int [of n 0] n by simp_all
      then show "byte_at 16 (word_of_int n) = a" "byte_at 8 (word_of_int n) = b" "byte_at 0 (word_of_int n) = d"
        unfolding d byte by (simp_all only: n0 byte)
    qed
    ultimately show "byte_at 16 (word_of_int (k * 16777216 + c)) = a"
      "byte_at 8 (word_of_int (k * 16777216 + c)) = b" "byte_at 0 (word_of_int (k * 16777216 + c)) = d"
      "drop_bit 24 (word_of_int (k * 16777216 + c) :: u32) AND 0xff = word_of_int k"
      "(word_of_int (k * 16777216 + c) :: u32) \<noteq> DECODE_ERROR"
      unfolding n_def by simp_all
  qed
  define v where "v k = (word_of_int (k * 16777216 + c) :: u32)" for k
  note val = val [folded v_def]
  have t: "token_decode (encode_group c 0 0 @ r) = v 0"
    "uint d = 0 \<Longrightarrow> token_decode (encode_group c 1 0 @ r) = v 1"
    "uint b = 0 \<Longrightarrow> uint d = 0 \<Longrightarrow> token_decode (encode_group c 2 0 @ r) = v 2"
  proof -
    show "token_decode (encode_group c 0 0 @ r) = v 0" unfolding token_value(1) [OF range] v_def by simp
    have "c mod 64 = 0" if "uint d = 0"
    proof -
      have "c = 64 * (1024 * uint a + 4 * uint b)" using that by (simp add: c)
      then show ?thesis by simp
    qed
    then show "uint d = 0 \<Longrightarrow> token_decode (encode_group c 1 0 @ r) = v 1"
      using token_value(2) [OF range] unfolding v_def by simp
    have "c mod 4096 = 0" if "uint b = 0" "uint d = 0"
    proof -
      have "c = 4096 * (16 * uint a)" using that by (simp add: c)
      then show ?thesis by simp
    qed
    then show "uint b = 0 \<Longrightarrow> uint d = 0 \<Longrightarrow> token_decode (encode_group c 2 0 @ r) = v 2"
      using token_value(3) [OF range] unfolding v_def by simp
  qed
  have go: "decode_loop (encode_group c i 0 @ r) sz out = decode_loop r sz (out @ take (3 - nat k) [a, b, d])"
    if room: "sz < 0 \<or> int (length out) + 3 - k \<le> sz" and k: "0 \<le> k" "k \<le> 2" and tk: "token_decode (encode_group c i 0 @ r) = v k" for i k
  proof -
    define s where "s = encode_group c i 0 @ r"
    have s: "s \<noteq> []" "hd s \<in> set base64_chars" "drop 4 s = r" "token_decode s = v k"
      using hd_group [OF range] tk by (simp_all add: s_def)
    have nf: "\<not> full sz out" "k < 2 \<Longrightarrow> \<not> full sz (out @ [x])" "k < 1 \<Longrightarrow> \<not> full sz (out @ [x, y])" for x y
      using room k by (auto simp: full_def)
    have m: "drop_bit 24 (v k) AND 255 = word_of_int k" "v k \<noteq> DECODE_ERROR"
      "byte_at 16 (v k) = a" "byte_at 8 (v k) = b" "byte_at 0 (v k) = d"
      using val [OF k] by simp_all
    have "decode_loop s sz out = (let out = out @ [a]; out = (if word_of_int k < (2 :: u32) then out @ [b] else out);
        out = (if word_of_int k < (1 :: u32) then out @ [d] else out) in decode_loop r sz out)"
      if "k = 0 \<or> k = 1 \<or> k = 2"
      unfolding decode_loop.simps [of s] s m Let_def using s(1,2) m(2) nf that by auto
    moreover have "k = 0 \<or> k = 1 \<or> k = 2" using k by linarith
    ultimately show ?thesis
      unfolding s_def [symmetric] by (auto simp: Let_def)
  qed
  show "sz < 0 \<or> int (length out) + 3 \<le> sz \<Longrightarrow>
      decode_loop (encode_group c 0 0 @ r) sz out = decode_loop r sz (out @ [a, b, d])"
    using go [OF _ _ _ t(1)] by (simp add: add.commute)
  show "sz < 0 \<or> int (length out) + 2 \<le> sz \<Longrightarrow> uint d = 0 \<Longrightarrow>
      decode_loop (encode_group c 1 0 @ r) sz out = decode_loop r sz (out @ [a, b])"
    using go [OF _ _ _ t(2)] by (simp add: add.commute)
  show "sz < 0 \<or> int (length out) + 1 \<le> sz \<Longrightarrow> uint b = 0 \<Longrightarrow> uint d = 0 \<Longrightarrow>
      decode_loop (encode_group c 2 0 @ r) sz out = decode_loop r sz (out @ [a])"
    using go [OF _ _ _ t(3)] by (simp add: add.commute)
qed

lemma decode_enc3:
  "sz < 0 \<or> int (length out + length q) \<le> sz \<Longrightarrow>
   decode_loop (enc3 q) sz out = (out @ q, int (length out + length q))"
proof (induction q arbitrary: out rule: enc3.induct)
  case (1 a b c q)
  then show ?case using decode_group(1) [OF refl, of sz out a b c "enc3 q"] by auto
next
  case (2 a b)
  then show ?case using decode_group(2) [of _ a b 0 sz out "[]"] by (auto simp: decode_loop.simps [of "[]"])
next
  case (3 a)
  then show ?case using decode_group(3) [of _ a 0 0 sz out "[]"] by (auto simp: decode_loop.simps [of "[]"])
qed (simp add: decode_loop.simps)

subsection \<open>Properties\<close>

text \<open>
  C28. Encoding and decoding: the encoder returns for any data that fits an \<open>int\<close>, without writing
  past the block it allocates, and the decoder returns that data, given enough room or no limit.
\<close>

theorem base64_roundtrip:
  assumes "4 * length q < 2 ^ 31" "sz < 0 \<or> int (length q) \<le> sz"
  shows "\<exists>s. openvpn_base64_encode q (int (length q)) = Some (Inr s) \<and>
    openvpn_base64_decode s sz = (q, int (length q))"
  using encode_spec [OF assms(1)] decode_enc3 [of sz "[]" q] assms(2)
  by (auto simp: openvpn_base64_decode_def)

lemma base64_roundtrip_witness:
  "openvpn_base64_encode [0x66, 0x6F] 2 = Some (Inr ''Zm8='') \<and> openvpn_base64_decode ''Zm8='' 2 = ([0x66, 0x6F], 2)"
proof -
  have "openvpn_base64_encode [0x66, 0x6F] 2 = Some (Inr ''Zm8='')" by code_simp
  with base64_roundtrip [of "[0x66, 0x6F]" 2] show ?thesis by simp
qed

lemma decode_loop_result: "snd (decode_loop p sz out) \<in> {-1, int (length (fst (decode_loop p sz out)))}"
proof (induction p sz out rule: decode_loop.induct)
  case (1 p sz out)
  show ?case
    using 1 by (subst (1 2) decode_loop.simps) (auto simp: Let_def)
qed

lemma decode_loop_bound:
  "0 \<le> sz \<Longrightarrow> int (length out) \<le> sz \<Longrightarrow> int (length (fst (decode_loop p sz out))) \<le> sz"
proof (induction p sz out rule: decode_loop.induct)
  case (1 p sz out)
  show ?case
    using 1 by (subst decode_loop.simps) (auto simp: Let_def full_def)
qed

text \<open>
  C29. The decoder never writes past a buffer of the given size, whatever the text, and a result
  that is not -1 is the number of bytes written.
\<close>

theorem base64_decode_bounded:
  assumes "0 \<le> sz"
  shows "int (length (fst (openvpn_base64_decode str sz))) \<le> sz \<and>
    snd (openvpn_base64_decode str sz) \<in> {-1, int (length (fst (openvpn_base64_decode str sz)))}"
  using decode_loop_bound [OF assms, of "[]" str] decode_loop_result [of str sz "[]"] assms by (simp add: openvpn_base64_decode_def)

lemma base64_decode_bounded_witness: "length (fst (openvpn_base64_decode ''Zm9vYg=='' 2)) \<le> 2"
  using base64_decode_bounded [of 2 "''Zm9vYg==''"] by simp

text \<open>
  A character outside the alphabet is only noticed at the start of a group: inside one, the value
  -1 that \<open>pos\<close> returns for it is added to the token, and the text is accepted.
\<close>

lemma base64_accepts_garbage: "openvpn_base64_decode ''A*AA'' 3 = ([0xFF], 1)"
  by code_simp

end
