(* ===== verification/Otime.thy ===== *)
theory Otime
  imports Prelude Integer_Util
begin

text \<open>
  otime.h, otime.c, interval.h, interval.c and the integer part of shaper.h and shaper.c: time
  values, the filtered clock, rate limits, recurring timers. \<open>time_t\<close> and the fields of
  \<open>struct timeval\<close> are unbounded integers; a value of type \<open>int\<close> that is computed from them is cut
  to 32 bits by \<open>as_int\<close>. The delay that the shaper derives from a floating point factor is a parameter.
\<close>

definition as_int :: "int \<Rightarrow> int" where
  "as_int x = sint (word_of_int x :: u32)"

record timeval =
  tv_sec :: time_t
  tv_usec :: int

subsection \<open>Time values\<close>

definition tv_clear :: timeval where "tv_clear = \<lparr>tv_sec = 0, tv_usec = 0\<rparr>"

definition tv_defined :: "timeval \<Rightarrow> bool" where
  "tv_defined tv \<longleftrightarrow> tv_sec tv > 0 \<and> tv_usec tv > 0"

definition tv_subtract :: "timeval \<Rightarrow> timeval \<Rightarrow> int \<Rightarrow> int" where
  "tv_subtract tv1 tv2 max_seconds =
     (let max_usec = as_int (max_seconds * 1000000); sec_diff = as_int (tv_sec tv1 - tv_sec tv2) in
      if sec_diff > max_seconds + 10 then max_usec
      else if sec_diff < - (max_seconds + 10) then - max_usec
      else constrain_int (as_int (sec_diff * 1000000 + (tv_usec tv1 - tv_usec tv2))) (- max_usec) max_usec)"

definition tv_add :: "timeval \<Rightarrow> timeval \<Rightarrow> timeval" where
  "tv_add dest src =
     (let sec = tv_sec dest + tv_sec src; usec = tv_usec dest + tv_usec src;
          sec = sec + drop_bit 20 usec; usec = usec AND 0x000FFFFF
      in if usec \<ge> 1000000 then \<lparr>tv_sec = sec + 1, tv_usec = usec - 1000000\<rparr>
         else \<lparr>tv_sec = sec, tv_usec = usec\<rparr>)"

definition tv_lt :: "timeval \<Rightarrow> timeval \<Rightarrow> bool" where
  "tv_lt t1 t2 =
     (if tv_sec t1 < tv_sec t2 then True
      else if tv_sec t1 > tv_sec t2 then False else tv_usec t1 < tv_usec t2)"

definition tv_le :: "timeval \<Rightarrow> timeval \<Rightarrow> bool" where
  "tv_le t1 t2 =
     (if tv_sec t1 < tv_sec t2 then True
      else if tv_sec t1 > tv_sec t2 then False else tv_usec t1 \<le> tv_usec t2)"

definition tv_ge :: "timeval \<Rightarrow> timeval \<Rightarrow> bool" where
  "tv_ge t1 t2 =
     (if tv_sec t1 > tv_sec t2 then True
      else if tv_sec t1 < tv_sec t2 then False else tv_usec t1 \<ge> tv_usec t2)"

definition tv_gt :: "timeval \<Rightarrow> timeval \<Rightarrow> bool" where
  "tv_gt t1 t2 =
     (if tv_sec t1 > tv_sec t2 then True
      else if tv_sec t1 < tv_sec t2 then False else tv_usec t1 > tv_usec t2)"

definition tv_eq :: "timeval \<Rightarrow> timeval \<Rightarrow> bool" where
  "tv_eq t1 t2 \<longleftrightarrow> tv_sec t1 = tv_sec t2 \<and> tv_usec t1 = tv_usec t2"

function tv_borrow :: "int \<Rightarrow> int \<Rightarrow> int \<times> int" where
  "tv_borrow sec usec = (if usec < 0 then tv_borrow (sec - 1) (usec + 1000000) else (sec, usec))"
  by auto
termination by (relation "measure (\<lambda>(sec, usec). nat (- usec))") auto

declare tv_borrow.simps [simp del]

definition tv_delta :: "timeval \<Rightarrow> timeval \<Rightarrow> timeval" where
  "tv_delta t1 t2 =
     (case tv_borrow (as_int (tv_sec t2 - tv_sec t1)) (as_int (tv_usec t2 - tv_usec t1)) of
        (sec, usec) \<Rightarrow>
          (if sec < 0 then \<lparr>tv_sec = 0, tv_usec = 0\<rparr> else \<lparr>tv_sec = sec, tv_usec = usec\<rparr>))"

definition TV_WITHIN_SIGMA_MAX_SEC :: int where "TV_WITHIN_SIGMA_MAX_SEC = 600"

definition tv_within_sigma :: "timeval \<Rightarrow> timeval \<Rightarrow> int \<Rightarrow> bool" where
  "tv_within_sigma t1 t2 sigma =
     (let delta = tv_subtract t1 t2 TV_WITHIN_SIGMA_MAX_SEC in - sigma \<le> delta \<and> delta \<le> sigma)"

definition interval_earliest_wakeup :: "int \<Rightarrow> time_t \<Rightarrow> time_t \<Rightarrow> int" where
  "interval_earliest_wakeup wakeup at current =
     (if at > current then
        (let delta = as_int (at - current); w = (if delta < wakeup then delta else wakeup)
         in if w < 0 then 0 else w)
      else wakeup)"

subsection \<open>The clock\<close>

text \<open>The globals \<open>now\<close>, \<open>now_adj\<close> and \<open>now_usec\<close>.\<close>

record clock =
  now :: time_t
  now_adj :: time_t
  now_usec :: time_t

definition update_now :: "clock \<Rightarrow> time_t \<Rightarrow> clock" where
  "update_now c system_time =
     (let forward_threshold = 86400; backward_trigger = 10; real_time = system_time + now_adj c in
      if real_time > now c then
        (let overshoot = real_time - now c - 1 in
         if overshoot > forward_threshold \<and> now_adj c \<ge> overshoot
         then c\<lparr>now_adj := now_adj c - overshoot, now := real_time - overshoot\<rparr>
         else c\<lparr>now := real_time\<rparr>)
      else if real_time < now c - backward_trigger
      then c\<lparr>now_adj := now_adj c + (now c - real_time)\<rparr>
      else c)"

definition update_now_usec :: "clock \<Rightarrow> timeval \<Rightarrow> clock" where
  "update_now_usec c tv =
     (let last = now c; c = update_now c (tv_sec tv) in
      if now c > last \<or> (now c = last \<and> tv_usec tv > now_usec c) then c\<lparr>now_usec := tv_usec tv\<rparr> else c)"

text \<open>\<open>None\<close> is a failure of \<open>gettimeofday\<close>.\<close>

definition openvpn_gettimeofday :: "clock \<Rightarrow> timeval option \<Rightarrow> clock \<times> timeval option" where
  "openvpn_gettimeofday c tod =
     (case tod of
        None \<Rightarrow> (c, None)
      | Some tv \<Rightarrow>
          (let c = update_now_usec c tv in (c, Some \<lparr>tv_sec = now c, tv_usec = now_usec c\<rparr>)))"

definition openvpn_time :: "clock \<Rightarrow> time_t \<Rightarrow> clock \<times> time_t" where
  "openvpn_time c system_time = (let c = update_now c system_time in (c, now c))"

subsection \<open>Frequency limits\<close>

record frequency_limit =
  fl_max :: int
  fl_per :: int
  fl_n :: int
  fl_reset :: time_t

definition frequency_limit_init :: "int \<Rightarrow> int \<Rightarrow> frequency_limit option" where
  "frequency_limit_init mx per = do {
     c_assert (mx \<ge> 0 \<and> per \<ge> 0);
     Some \<lparr>fl_max = mx, fl_per = per, fl_n = 0, fl_reset = 0\<rparr>
   }"

definition frequency_limit_event_allowed :: "time_t \<Rightarrow> frequency_limit \<Rightarrow> frequency_limit \<times> bool" where
  "frequency_limit_event_allowed local_now f =
     (if fl_per f \<noteq> 0 then
        (let f = (if local_now \<ge> fl_reset f + fl_per f then f\<lparr>fl_reset := local_now, fl_n := 0\<rparr> else f);
             f = f\<lparr>fl_n := fl_n f + 1\<rparr>
         in (f, fl_n f \<le> fl_max f))
      else (f, True))"

subsection \<open>Intervals\<close>

record interval =
  iv_refresh :: int
  iv_horizon :: int
  future_trigger :: time_t
  last_action :: time_t
  last_test_true :: time_t

definition interval_init :: "int \<Rightarrow> int \<Rightarrow> interval" where
  "interval_init hor ref =
     \<lparr>iv_refresh = ref, iv_horizon = hor, future_trigger = 0, last_action = 0, last_test_true = 0\<rparr>"

definition interval_test :: "time_t \<Rightarrow> interval \<Rightarrow> interval \<times> bool" where
  "interval_test local_now iv =
     (let trigger = (future_trigger iv \<noteq> 0 \<and> local_now \<ge> future_trigger iv);
          iv = (if trigger then iv\<lparr>future_trigger := 0\<rparr> else iv)
      in if last_action iv + iv_horizon iv > local_now \<or> last_test_true iv + iv_refresh iv \<le> local_now \<or> trigger
         then (iv\<lparr>last_test_true := local_now\<rparr>, True)
         else (iv, False))"

definition interval_schedule_wakeup :: "time_t \<Rightarrow> interval \<Rightarrow> int \<Rightarrow> int" where
  "interval_schedule_wakeup local_now iv wakeup =
     interval_earliest_wakeup
       (interval_earliest_wakeup wakeup (last_test_true iv + iv_refresh iv) local_now)
       (future_trigger iv) local_now"

definition interval_future_trigger :: "time_t \<Rightarrow> interval \<Rightarrow> int \<Rightarrow> interval" where
  "interval_future_trigger local_now iv wakeup =
     (if wakeup \<noteq> 0 then iv\<lparr>future_trigger := local_now + wakeup\<rparr> else iv)"

definition interval_action :: "time_t \<Rightarrow> interval \<Rightarrow> interval" where
  "interval_action local_now iv = iv\<lparr>last_action := local_now\<rparr>"

subsection \<open>Recurring timers\<close>

record event_timeout =
  et_defined :: bool
  et_n :: int
  et_last :: time_t

definition event_timeout_clear :: event_timeout where
  "event_timeout_clear = \<lparr>et_defined = False, et_n = 0, et_last = 0\<rparr>"

definition event_timeout_init :: "int \<Rightarrow> time_t \<Rightarrow> event_timeout" where
  "event_timeout_init n local_now = \<lparr>et_defined = True, et_n = (if n \<ge> 0 then n else 0), et_last = local_now\<rparr>"

definition event_timeout_reset :: "time_t \<Rightarrow> event_timeout \<Rightarrow> event_timeout" where
  "event_timeout_reset local_now et = (if et_defined et then et\<lparr>et_last := local_now\<rparr> else et)"

definition event_timeout_modify_wakeup :: "event_timeout \<Rightarrow> int \<Rightarrow> event_timeout" where
  "event_timeout_modify_wakeup et n = (if et_defined et then et\<lparr>et_n := (if n \<ge> 0 then n else 0)\<rparr> else et)"

definition event_timeout_remaining :: "time_t \<Rightarrow> event_timeout \<Rightarrow> int" where
  "event_timeout_remaining local_now et = as_int (et_last et - local_now + et_n et)"

definition ETT_DEFAULT :: int where "ETT_DEFAULT = -1"

text \<open>\<open>None\<close> is a null \<open>tv\<close>.\<close>

definition event_timeout_trigger ::
  "time_t \<Rightarrow> event_timeout \<Rightarrow> timeval option \<Rightarrow> int \<Rightarrow> event_timeout \<times> timeval option \<times> bool" where
  "event_timeout_trigger local_now et tv et_const_retry =
     (if et_defined et then
        (let wakeup = et_last et - local_now + et_n et;
             (et, wakeup, ret) =
               (if wakeup \<le> 0 then
                  (if et_const_retry < 0 then (et\<lparr>et_last := local_now\<rparr>, et_n et, True)
                   else (et, et_const_retry, False))
                else (et, wakeup, False));
             tv = (case tv of
                     None \<Rightarrow> None
                   | Some t \<Rightarrow> Some (if wakeup < tv_sec t then \<lparr>tv_sec = wakeup, tv_usec = 0\<rparr> else t))
         in (et, tv, ret))
      else (et, tv, False))"

record usec_timer =
  ut_start :: timeval
  ut_end :: timeval

definition USEC_TIMER_MAX :: int where "USEC_TIMER_MAX = 60"

definition usec_timer_interval_defined :: "usec_timer \<Rightarrow> bool" where
  "usec_timer_interval_defined obj \<longleftrightarrow> tv_sec (ut_start obj) \<noteq> 0 \<and> tv_sec (ut_end obj) \<noteq> 0"

definition usec_timer_interval :: "usec_timer \<Rightarrow> int" where
  "usec_timer_interval obj = tv_subtract (ut_end obj) (ut_start obj) USEC_TIMER_MAX"

subsection \<open>Traffic shaping\<close>

definition SHAPER_MIN :: int where "SHAPER_MIN = 100"
definition SHAPER_MAX :: int where "SHAPER_MAX = 100000000"
definition SHAPER_MAX_TIMEOUT :: int where "SHAPER_MAX_TIMEOUT = 10"

text \<open>
  \<open>factor\<close> is determined by the bandwidth, and kept implicit; \<open>usec_of bw n\<close> stands for the
  floating point product \<open>(int)((double) n * factor)\<close>.
\<close>

record shaper =
  bytes_per_second :: int
  sh_wakeup :: timeval

definition shaper_reset :: "shaper \<Rightarrow> int \<Rightarrow> shaper" where
  "shaper_reset s bps = s\<lparr>bytes_per_second := constrain_int bps SHAPER_MIN SHAPER_MAX\<rparr>"

definition shaper_reset_wakeup :: "shaper \<Rightarrow> shaper" where
  "shaper_reset_wakeup s = s\<lparr>sh_wakeup := tv_clear\<rparr>"

definition shaper_init :: "shaper \<Rightarrow> int \<Rightarrow> shaper" where
  "shaper_init s bps = shaper_reset_wakeup (shaper_reset s bps)"

definition shaper_delay :: "clock \<Rightarrow> timeval option \<Rightarrow> shaper \<Rightarrow> (clock \<times> int) option" where
  "shaper_delay c tod s =
     (if tv_defined (sh_wakeup s) then
        (case openvpn_gettimeofday c tod of
           (c, None) \<Rightarrow> None
         | (c, Some tv) \<Rightarrow>
             (let delay = tv_subtract (sh_wakeup s) tv SHAPER_MAX_TIMEOUT in Some (c, if delay > 0 then delay else 0)))
      else Some (c, 0))"

definition shaper_wrote_bytes ::
  "(int \<Rightarrow> int \<Rightarrow> int) \<Rightarrow> clock \<Rightarrow> timeval option \<Rightarrow> shaper \<Rightarrow> int \<Rightarrow> (clock \<times> shaper) option" where
  "shaper_wrote_bytes usec_of c tod s nbytes =
     (let tv = \<lparr>tv_sec = 0, tv_usec = min_int (usec_of (bytes_per_second s) (max_int nbytes 100))
                                          (SHAPER_MAX_TIMEOUT * 1000000)\<rparr> in
      if tv_usec tv \<noteq> 0 then
        (case openvpn_gettimeofday c tod of
           (c, None) \<Rightarrow> None
         | (c, Some w) \<Rightarrow> Some (c, s\<lparr>sh_wakeup := tv_add w tv\<rparr>))
      else Some (c, s))"

definition shaper_soonest_event :: "timeval \<Rightarrow> int \<Rightarrow> timeval \<times> bool" where
  "shaper_soonest_event tv delay =
     (if delay < 1000000 then
        (if tv_sec tv \<noteq> 0 then (\<lparr>tv_sec = 0, tv_usec = delay\<rparr>, True)
         else if delay < tv_usec tv then (tv\<lparr>tv_usec := delay\<rparr>, True)
         else (tv, False))
      else
        (let sec = delay div 1000000; usec = delay mod 1000000 in
         if sec < tv_sec tv then (\<lparr>tv_sec = sec, tv_usec = usec\<rparr>, True)
         else if sec = tv_sec tv then
           (if usec < tv_usec tv then (tv\<lparr>tv_usec := usec\<rparr>, True) else (tv, False))
         else (tv, False)))"

subsection \<open>The order of time values\<close>

instantiation timeval_ext :: (linorder) linorder
begin

definition less_eq_timeval_ext :: "'a timeval_scheme \<Rightarrow> 'a timeval_scheme \<Rightarrow> bool" where
  "less_eq_timeval_ext s t \<longleftrightarrow> tv_sec s < tv_sec t \<or> tv_sec s = tv_sec t \<and>
     (tv_usec s < tv_usec t \<or> tv_usec s = tv_usec t \<and> timeval.more s \<le> timeval.more t)"

definition less_timeval_ext :: "'a timeval_scheme \<Rightarrow> 'a timeval_scheme \<Rightarrow> bool" where
  "less_timeval_ext s t \<longleftrightarrow> tv_sec s < tv_sec t \<or> tv_sec s = tv_sec t \<and>
     (tv_usec s < tv_usec t \<or> tv_usec s = tv_usec t \<and> timeval.more s < timeval.more t)"

instance
  by standard (auto simp: less_eq_timeval_ext_def less_timeval_ext_def)

end

lemma tv_order [simp]:
  "tv_lt s t \<longleftrightarrow> s < t" "tv_le s t \<longleftrightarrow> s \<le> t" "tv_gt s t \<longleftrightarrow> t < s" "tv_ge s t \<longleftrightarrow> t \<le> s" "tv_eq s t \<longleftrightarrow> s = t"
  by (auto simp: tv_lt_def tv_le_def tv_gt_def tv_ge_def tv_eq_def less_eq_timeval_ext_def less_timeval_ext_def)

lemma as_int_id [simp]: "- (2 ^ 31) \<le> x \<Longrightarrow> x < 2 ^ 31 \<Longrightarrow> as_int x = x"
  by (simp add: as_int_def int_word_sint)

text \<open>A time value with its microseconds in range, and its length in microseconds.\<close>

definition tv_normal :: "timeval \<Rightarrow> bool" where
  "tv_normal t \<longleftrightarrow> 0 \<le> tv_usec t \<and> tv_usec t < 1000000"

definition usecs :: "timeval \<Rightarrow> int" where
  "usecs t = tv_sec t * 1000000 + tv_usec t"

lemma usecs_less: "tv_normal s \<Longrightarrow> tv_normal t \<Longrightarrow> usecs s < usecs t \<longleftrightarrow> s < t"
  by (auto simp: tv_normal_def usecs_def less_timeval_ext_def)

text \<open>
  C30. The difference of two time values is exact, clamped to the given number of seconds: for
  normalised times whose distance fits an \<open>int\<close> of seconds and a limit of at most 2136 seconds,
  no intermediate value overflows.
\<close>

theorem tv_subtract_clamps:
  assumes "tv_normal s" "tv_normal t" "\<bar>tv_sec s - tv_sec t\<bar> < 2 ^ 31" "0 \<le> m" "m \<le> 2136"
  shows "tv_subtract s t m = max (- (m * 1000000)) (min (m * 1000000) (usecs s - usecs t))"
proof -
  define d where "d = tv_sec s - tv_sec t"
  define u where "u = tv_usec s - tv_usec t"
  have u: "-1000000 < u" "u < 1000000" using assms(1,2) by (auto simp: tv_normal_def u_def)
  have eq: "usecs s - usecs t = d * 1000000 + u" by (simp add: usecs_def d_def u_def)
  have d: "as_int d = d" "as_int (m * 1000000) = m * 1000000" using assms(3-5) by (simp_all add: d_def)
  show ?thesis
  proof (cases "\<bar>d\<bar> \<le> m + 10")
    case True
    then have "as_int (d * 1000000 + u) = d * 1000000 + u" using u assms(4,5) by simp
    then show ?thesis
      using True assms(4) by (auto simp: tv_subtract_def Let_def eq d constrain_int_def simp flip: d_def u_def)
  next
    case False
    then show ?thesis
      using u assms(4) by (auto simp: tv_subtract_def Let_def eq d constrain_int_def simp flip: d_def u_def)
  qed
qed

lemma tv_subtract_clamps_witness:
  "tv_subtract \<lparr>tv_sec = 10, tv_usec = 100\<rparr> \<lparr>tv_sec = 8, tv_usec = 999999\<rparr> 60 = 1000101"
  using tv_subtract_clamps [of "\<lparr>tv_sec = 10, tv_usec = 100\<rparr>" "\<lparr>tv_sec = 8, tv_usec = 999999\<rparr>" 60]
  by (simp add: tv_normal_def usecs_def)

text \<open>
  \<open>tv_add\<close> returns a normalised time. The sum is exact when the microseconds add up to less than
  \<open>2 ^ 20\<close>; beyond that the carry is taken as \<open>2 ^ 20\<close> instead of a million, and the result is
  48576 microseconds too early.
\<close>

theorem tv_add_carry:
  assumes "tv_normal s" "tv_normal t"
  shows "tv_normal (tv_add s t) \<and>
    usecs (tv_add s t) = usecs s + usecs t - (if tv_usec s + tv_usec t < 2 ^ 20 then 0 else 48576)"
proof -
  define u where "u = tv_usec s + tv_usec t"
  have u: "0 \<le> u" "u < 2000000" using assms by (auto simp: tv_normal_def u_def)
  have m: "u AND 0x000FFFFF = u mod 1048576"
  proof -
    have "(0x000FFFFF :: int) = mask 20" by (simp add: mask_eq_exp_minus_1)
    then have "u AND 0x000FFFFF = take_bit 20 u" by (simp only: take_bit_eq_mask)
    then show ?thesis by (simp add: take_bit_eq_mod)
  qed
  show ?thesis
  proof (cases "u < 1048576")
    case True
    then have "drop_bit 20 u = 0" "u mod 1048576 = u" using u(1) by (simp_all add: drop_bit_eq_div)
    with True u show ?thesis
      by (auto simp: tv_add_def Let_def m tv_normal_def usecs_def simp flip: u_def)
  next
    case False
    have "drop_bit 20 u = 1" "u mod 1048576 = u - 1048576"
      using False u by (auto simp: drop_bit_eq_div intro!: int_div_pos_eq [where r = "u - 1048576"]
          int_mod_pos_eq [where q = 1])
    with False u show ?thesis
      by (auto simp: tv_add_def Let_def m tv_normal_def usecs_def simp flip: u_def)
  qed
qed

lemma tv_add_carry_witness:
  "tv_add \<lparr>tv_sec = 1, tv_usec = 600000\<rparr> \<lparr>tv_sec = 0, tv_usec = 600000\<rparr> = \<lparr>tv_sec = 2, tv_usec = 151424\<rparr> \<and>
   tv_normal (tv_add \<lparr>tv_sec = 1, tv_usec = 600000\<rparr> \<lparr>tv_sec = 0, tv_usec = 600000\<rparr>)"
  using tv_add_carry [of "\<lparr>tv_sec = 1, tv_usec = 600000\<rparr>" "\<lparr>tv_sec = 0, tv_usec = 600000\<rparr>"]
  by (simp add: tv_normal_def tv_add_def) 

subsection \<open>The clock never runs backwards\<close>

fun run_clock :: "clock \<Rightarrow> timeval list \<Rightarrow> timeval list" where
  "run_clock c [] = []"
| "run_clock c (tv # tvs) =
     (case openvpn_gettimeofday c (Some tv) of (c, r) \<Rightarrow> the r # run_clock c tvs)"

definition clock_time :: "clock \<Rightarrow> timeval" where
  "clock_time c = \<lparr>tv_sec = now c, tv_usec = now_usec c\<rparr>"

lemma update_now_mono: "now c \<le> now (update_now c t)" "now_usec (update_now c t) = now_usec c"
  by (auto simp: update_now_def Let_def)

lemma update_now_usec_mono: "clock_time c \<le> clock_time (update_now_usec c tv)"
  using update_now_mono [of c "tv_sec tv"]
  by (auto simp: update_now_usec_def Let_def clock_time_def less_eq_timeval_ext_def)

text \<open>
  C31. Successive readings of the clock never decrease, in seconds and microseconds together,
  however the system clock is set back or forward between them.
\<close>

theorem clock_monotone: "sorted (clock_time c # run_clock c tvs)"
proof (induction tvs arbitrary: c)
  case (Cons tv tvs)
  define c' where "c' = update_now_usec c tv"
  have "run_clock c (tv # tvs) = clock_time c' # run_clock c' tvs"
    by (simp add: openvpn_gettimeofday_def Let_def clock_time_def c'_def)
  moreover have "clock_time c \<le> clock_time c'" by (simp add: c'_def update_now_usec_mono)
  ultimately show ?case using Cons.IH [of c'] by auto
qed simp

subsection \<open>Rate limits\<close>

fun run_limit :: "frequency_limit \<Rightarrow> time_t list \<Rightarrow> bool list" where
  "run_limit f [] = []"
| "run_limit f (t # ts) =
     (case frequency_limit_event_allowed t f of (f, ok) \<Rightarrow> ok # run_limit f ts)"

definition allowed :: "bool list \<Rightarrow> int" where
  "allowed bs = int (length (filter (\<lambda>b. b) bs))"

text \<open>What the limiter can still let through before time \<open>t + per\<close>.\<close>

definition credit :: "time_t \<Rightarrow> frequency_limit \<Rightarrow> int" where
  "credit t f = max 0 (fl_max f - fl_n f) + (if fl_reset f < t then fl_max f else 0)"

lemma limit_credit:
  "fl_per f > 0 \<Longrightarrow> fl_max f \<ge> 0 \<Longrightarrow> \<forall>x \<in> set ts. t \<le> x \<and> x < t + fl_per f \<Longrightarrow> allowed (run_limit f ts) \<le> credit t f"
proof (induction ts arbitrary: f)
  case Nil
  then show ?case by (simp add: allowed_def credit_def)
next
  case (Cons x ts)
  obtain g ok where g: "frequency_limit_event_allowed x f = (g, ok)" by fastforce
  have keep: "fl_per g = fl_per f" "fl_max g = fl_max f"
    using g Cons.prems(1) by (auto simp: frequency_limit_event_allowed_def Let_def)
  have "allowed (run_limit g ts) \<le> credit t g" using Cons keep by simp
  moreover have "(if ok then 1 else 0) + credit t g \<le> credit t f"
    using g Cons.prems by (auto simp: frequency_limit_event_allowed_def Let_def credit_def)
  ultimately show ?case using g by (auto simp: allowed_def)
qed

text \<open>
  A rate limit holds over every window: among the events that fall in a period of \<open>per\<close>
  seconds, wherever it starts, at most \<open>2 * max\<close> are allowed, whatever happened before.
\<close>

theorem frequency_limit_window:
  assumes "fl_per f > 0" "fl_max f \<ge> 0" "fl_n f \<ge> 0" "\<forall>x \<in> set ts. t \<le> x \<and> x < t + fl_per f"
  shows "allowed (run_limit f ts) \<le> 2 * fl_max f"
  using limit_credit [OF assms(1,2,4)] assms(2,3) by (auto simp: credit_def split: if_splits)

lemma frequency_limit_window_witness:
  "allowed (run_limit \<lparr>fl_max = 2, fl_per = 10, fl_n = 0, fl_reset = 95\<rparr> [100, 101, 104, 105, 106, 107]) \<le> 4"
  using frequency_limit_window [of "\<lparr>fl_max = 2, fl_per = 10, fl_n = 0, fl_reset = 95\<rparr>" "[100, 101, 104, 105, 106, 107]" 100]
  by simp

subsection \<open>Timers\<close>

fun run_timer :: "event_timeout \<Rightarrow> time_t list \<Rightarrow> time_t list" where
  "run_timer et [] = []"
| "run_timer et (t # ts) =
     (case event_timeout_trigger t et None ETT_DEFAULT of
        (et, _, fired) \<Rightarrow> (if fired then [t] else []) @ run_timer et ts)"

text \<open>
  C32. A recurring timer polled at the times of a clock that does not run backwards fires neither
  early nor late: its firings, counted from when it was armed, are at least \<open>n\<close> seconds apart, and
  every poll that does not fire is less than \<open>n\<close> seconds after a firing.
\<close>

theorem timer_fires_on_time:
  assumes "et_defined et" "et_n et \<ge> 0" "sorted (et_last et # ts)"
  shows "sorted_wrt (\<lambda>a b. a + et_n et \<le> b) (et_last et # run_timer et ts) \<and>
    list_all (\<lambda>t. t \<in> set (run_timer et ts) \<or>
      list_ex (\<lambda>f. f \<le> t \<and> t < f + et_n et) (et_last et # run_timer et ts)) ts"
  using assms
proof (induction ts arbitrary: et)
  case (Cons t ts)
  show ?case
  proof (cases "et_last et + et_n et \<le> t")
    case True
    define et' where "et' = et\<lparr>et_last := t\<rparr>"
    have run: "run_timer et (t # ts) = t # run_timer et' ts"
      using True Cons.prems(1) by (simp add: event_timeout_trigger_def Let_def ETT_DEFAULT_def et'_def)
    have "sorted_wrt (\<lambda>a b. a + et_n et \<le> b) (t # run_timer et' ts) \<and>
      list_all (\<lambda>t'. t' \<in> set (run_timer et' ts) \<or>
        list_ex (\<lambda>f. f \<le> t' \<and> t' < f + et_n et) (t # run_timer et' ts)) ts"
      using Cons.IH [of et'] Cons.prems by (simp add: et'_def)
    then show ?thesis
      using True Cons.prems(2) unfolding run by (auto simp: list_all_iff)
  next
    case False
    then have run: "run_timer et (t # ts) = run_timer et ts"
      using Cons.prems(1) by (simp add: event_timeout_trigger_def Let_def)
    show ?thesis
      using False Cons.IH [OF Cons.prems(1,2)] Cons.prems(3) unfolding run by auto
  qed
qed simp

lemma timer_fires_on_time_witness:
  "run_timer (event_timeout_init 5 100) [101, 104, 106, 109, 115] = [106, 115] \<and>
   sorted_wrt (\<lambda>a b. a + 5 \<le> b) [100 :: int, 106, 115]"
proof -
  have "run_timer (event_timeout_init 5 100) [101, 104, 106, 109, 115] = [106, 115]" by code_simp
  with timer_fires_on_time [of "event_timeout_init 5 100" "[101, 104, 106, 109, 115]"] show ?thesis
    by (simp add: event_timeout_init_def)
qed

text \<open>
  A positive or zero \<open>et_const_retry\<close>: the comment of interval.h says that the function returns
  true, the code returns false.
\<close>

lemma event_timeout_const_retry:
  "et_const_retry \<ge> 0 \<Longrightarrow> event_timeout_trigger t et tv et_const_retry = (et, tv', fired) \<Longrightarrow> \<not> fired"
  by (auto simp: event_timeout_trigger_def Let_def split: if_splits)

text \<open>
  Waiting for a timer: after a poll, the time value has not grown, and waiting for it does not
  sleep past the next firing of the timer.
\<close>

theorem timer_wait_bounded:
  assumes "et_defined et" "et_n et \<ge> 0" "event_timeout_trigger t et (Some tv) ETT_DEFAULT = (et', tv', fired)"
  shows "\<exists>w. tv' = Some w \<and> tv_sec w \<le> tv_sec tv \<and> t + tv_sec w \<le> et_last et' + et_n et' \<and> et_n et' = et_n et"
  using assms by (auto simp: event_timeout_trigger_def Let_def ETT_DEFAULT_def split: if_splits)

lemma timer_wait_bounded_witness:
  "snd (event_timeout_trigger 103 (event_timeout_init 5 100) (Some \<lparr>tv_sec = 9, tv_usec = 7\<rparr>) ETT_DEFAULT) =
     (Some \<lparr>tv_sec = 2, tv_usec = 0\<rparr>, False) \<and> (103 :: int) + 2 \<le> 100 + 5"
proof -
  have r: "event_timeout_trigger 103 (event_timeout_init 5 100) (Some \<lparr>tv_sec = 9, tv_usec = 7\<rparr>) ETT_DEFAULT =
    (event_timeout_init 5 100, Some \<lparr>tv_sec = 2, tv_usec = 0\<rparr>, False)" by code_simp
  from timer_wait_bounded [OF _ _ r] show ?thesis unfolding r by (simp add: event_timeout_init_def)
qed

text \<open>
  \<open>interval_schedule_wakeup\<close> returns the number of seconds until the test of the interval
  turns true: when the test is false at \<open>t\<close>, it stays false before \<open>t + w\<close> and is true at
  \<open>t + w\<close>, if the deadline is closer than the wakeup that was asked for.
\<close>

theorem interval_wakeup_exact:
  assumes "\<not> snd (interval_test t iv)" "w = interval_schedule_wakeup t iv big"
    and "0 \<le> t" "0 \<le> big" "big < 2 ^ 31" "last_test_true iv + iv_refresh iv - t < 2 ^ 31" "future_trigger iv - t < 2 ^ 31"
  shows "0 \<le> w \<and> w \<le> big \<and> (\<forall>t' \<in> {t ..< t + w}. \<not> snd (interval_test t' iv)) \<and>
    (w < big \<longrightarrow> snd (interval_test (t + w) iv))"
proof -
  have f: "\<not> last_action iv + iv_horizon iv > t" "\<not> last_test_true iv + iv_refresh iv \<le> t"
    "future_trigger iv = 0 \<or> t < future_trigger iv"
    using assms(1) by (auto simp: interval_test_def Let_def split: if_splits)
  have w: "w = min (min big (last_test_true iv + iv_refresh iv - t))
     (if future_trigger iv > t then future_trigger iv - t else big)"
    using f assms(2-7) by (auto simp: interval_schedule_wakeup_def interval_earliest_wakeup_def Let_def)
  have later: "\<not> snd (interval_test t' iv)" if "t \<le> t'" "t' < t + w" for t'
  proof -
    have "t' < last_test_true iv + iv_refresh iv" "future_trigger iv = 0 \<or> t' < future_trigger iv"
      using that f unfolding w by (auto simp: min_def split: if_splits)
    then show ?thesis using f(1) that by (auto simp: interval_test_def Let_def)
  qed
  have "snd (interval_test (t + w) iv)" if "w < big"
  proof -
    have "t + w = last_test_true iv + iv_refresh iv \<or> future_trigger iv \<noteq> 0 \<and> t + w = future_trigger iv"
      using that assms(3,4) w f unfolding min_def by (auto split: if_splits)
    then show ?thesis by (auto simp: interval_test_def Let_def)
  qed
  moreover have "0 \<le> w" "w \<le> big" using f assms(4) unfolding w by auto
  ultimately show ?thesis using later by auto
qed

lemma interval_wakeup_exact_witness:
  "interval_schedule_wakeup 100 \<lparr>iv_refresh = 60, iv_horizon = 10, future_trigger = 130, last_action = 80, last_test_true = 90\<rparr> 3600 = 30 \<and>
   snd (interval_test 130 \<lparr>iv_refresh = 60, iv_horizon = 10, future_trigger = 130, last_action = 80, last_test_true = 90\<rparr>)"
proof -
  let ?iv = "\<lparr>iv_refresh = 60, iv_horizon = 10, future_trigger = 130, last_action = 80, last_test_true = 90\<rparr>"
  have "\<not> snd (interval_test 100 ?iv)" "interval_schedule_wakeup 100 ?iv 3600 = 30" by code_simp+
  with interval_wakeup_exact [of 100 ?iv _ 3600] show ?thesis by simp
qed

subsection \<open>The shaper\<close>

text \<open>
  \<open>shaper_soonest_event\<close> takes the earlier of a time and a delay in microseconds, and tells
  whether the delay was the earlier one.
\<close>

theorem shaper_soonest_is_min:
  assumes "tv_normal tv" "0 \<le> tv_sec tv" "0 \<le> delay"
  shows "usecs (fst (shaper_soonest_event tv delay)) = min (usecs tv) delay \<and>
    tv_normal (fst (shaper_soonest_event tv delay)) \<and>
    snd (shaper_soonest_event tv delay) = (delay < usecs tv)"
proof -
  define q where "q = delay div 1000000"
  define r where "r = delay mod 1000000"
  have d: "delay = q * 1000000 + r" by (simp add: q_def r_def)
  have r: "0 \<le> r" "r < 1000000" "0 \<le> q" using assms(3) by (simp_all add: r_def q_def pos_imp_zdiv_nonneg_iff)
  have small: "delay < 1000000 \<longleftrightarrow> q = 0" using r by (auto simp: d)
  show ?thesis
    using assms r unfolding shaper_soonest_event_def small Let_def q_def [symmetric] r_def [symmetric]
    by (auto simp: d usecs_def tv_normal_def)
qed

lemma shaper_soonest_is_min_witness:
  "shaper_soonest_event \<lparr>tv_sec = 2, tv_usec = 5\<rparr> 1500000 = (\<lparr>tv_sec = 1, tv_usec = 500000\<rparr>, True) \<and>
   (1500000 :: int) < usecs \<lparr>tv_sec = 2, tv_usec = 5\<rparr>"
proof -
  have r: "shaper_soonest_event \<lparr>tv_sec = 2, tv_usec = 5\<rparr> 1500000 = (\<lparr>tv_sec = 1, tv_usec = 500000\<rparr>, True)" by code_simp
  from shaper_soonest_is_min [of "\<lparr>tv_sec = 2, tv_usec = 5\<rparr>" 1500000] show ?thesis by (simp add: r tv_normal_def)
qed

end
