(* ===== verification/Schedule.thy ===== *)
theory Schedule
  imports Otime "HOL-Library.Tree"
begin

text \<open>
  schedule.h and schedule.c: the treap of wakeup times. Entries live in a heap from addresses to
  records with parent and child pointers; a null pointer is \<open>None\<close>. The values that \<open>random\<close>
  returns are a sequence, and \<open>pos\<close> is the number of values drawn so far. The loops are partial
  functions: \<open>None\<close> is a loop that never ends, or a failed \<open>ASSERT\<close>.
\<close>

type_synonym addr = nat

record schedule_entry =
  se_tv :: timeval
  se_pri :: u32
  se_parent :: "addr option"
  se_lt :: "addr option"
  se_gt :: "addr option"

type_synonym se_heap = "addr \<Rightarrow> schedule_entry"

record schedule =
  earliest_wakeup :: "addr option"
  sch_root :: "addr option"

definition upd :: "addr \<Rightarrow> (schedule_entry \<Rightarrow> schedule_entry) \<Rightarrow> se_heap \<Rightarrow> se_heap" where
  "upd a f h = h(a := f (h a))"

abbreviation "set_parent a q \<equiv> upd a (se_parent_update (\<lambda>_. q))"
abbreviation "set_lt a q \<equiv> upd a (se_lt_update (\<lambda>_. q))"
abbreviation "set_gt a q \<equiv> upd a (se_gt_update (\<lambda>_. q))"

subsection \<open>Operations\<close>

definition IN_TREE :: "se_heap \<Rightarrow> addr \<Rightarrow> bool" where "IN_TREE h e \<longleftrightarrow> se_pri (h e) \<noteq> 0"

definition schedule_set_pri :: "(nat \<Rightarrow> u32) \<Rightarrow> nat \<Rightarrow> addr \<Rightarrow> se_heap \<Rightarrow> se_heap \<times> nat" where
  "schedule_set_pri rnd pos e h =
     (let pri = rnd pos; pri = (if pri < 1 then 1 else pri)
      in (upd e (se_pri_update (\<lambda>_. pri)) h, Suc pos))"

definition schedule_entry_compare :: "schedule_entry \<Rightarrow> schedule_entry \<Rightarrow> int" where
  "schedule_entry_compare e1 e2 =
     (if tv_sec (se_tv e1) < tv_sec (se_tv e2) then -1
      else if tv_sec (se_tv e1) > tv_sec (se_tv e2) then 1
      else if tv_usec (se_tv e1) < tv_usec (se_tv e2) then -1
      else if tv_usec (se_tv e1) > tv_usec (se_tv e2) then 1
      else if se_pri e1 < se_pri e2 then -1
      else if se_pri e1 > se_pri e2 then 1 else 0)"

definition schedule_detach_parent :: "addr option \<Rightarrow> se_heap \<times> schedule \<Rightarrow> (se_heap \<times> schedule) option" where
  "schedule_detach_parent e = (\<lambda>(h, s).
     case e of
       None \<Rightarrow> Some (h, s)
     | Some e \<Rightarrow>
         (case se_parent (h e) of
            Some p \<Rightarrow>
              if se_lt (h p) = Some e then Some (set_parent e None (set_lt p None h), s)
              else if se_gt (h p) = Some e then Some (set_parent e None (set_gt p None h), s)
              else None
          | None \<Rightarrow> Some (h, if sch_root s = Some e then s\<lparr>sch_root := None\<rparr> else s)))"

definition schedule_rotate_up :: "addr option \<Rightarrow> se_heap \<times> schedule \<Rightarrow> (se_heap \<times> schedule) option" where
  "schedule_rotate_up e = (\<lambda>(h, s).
     case e of
       None \<Rightarrow> Some (h, s)
     | Some e \<Rightarrow>
         (case se_parent (h e) of
            None \<Rightarrow> Some (h, s)
          | Some p \<Rightarrow> do {
              let lt = se_lt (h e);
              let gt = se_gt (h e);
              let gp = se_parent (h p);
              (h, s) \<leftarrow>
                (case gp of
                   Some g \<Rightarrow>
                     if se_gt (h g) = Some p then Some (set_gt g (Some e) h, s)
                     else if se_lt (h g) = Some p then Some (set_lt g (Some e) h, s)
                     else None
                 | None \<Rightarrow> Some (h, s\<lparr>sch_root := Some e\<rparr>));
              let h = set_parent e gp h;
              let h = set_parent p (Some e) h;
              if se_gt (h p) = Some e then
                (let h = set_lt e (Some p) h; h = set_gt p lt h;
                     h = (case lt of None \<Rightarrow> h | Some x \<Rightarrow> set_parent x (Some p) h)
                 in Some (h, s))
              else if se_lt (h p) = Some e then
                (let h = set_gt e (Some p) h; h = set_lt p gt h;
                     h = (case gt of None \<Rightarrow> h | Some x \<Rightarrow> set_parent x (Some p) h)
                 in Some (h, s))
              else None
            }))"

partial_function (option) remove_loop :: "addr \<Rightarrow> se_heap \<times> schedule \<Rightarrow> (se_heap \<times> schedule) option" where
  "remove_loop e hs =
     (case (se_lt (fst hs e), se_gt (fst hs e)) of
        (None, None) \<Rightarrow> Some hs
      | (Some l, Some g) \<Rightarrow>
          Option.bind (schedule_rotate_up (if se_pri (fst hs l) < se_pri (fst hs g) then Some l else Some g) hs)
            (remove_loop e)
      | (Some l, None) \<Rightarrow> Option.bind (schedule_rotate_up (Some l) hs) (remove_loop e)
      | (None, Some g) \<Rightarrow> Option.bind (schedule_rotate_up (Some g) hs) (remove_loop e))"

definition schedule_remove_node :: "addr \<Rightarrow> se_heap \<times> schedule \<Rightarrow> (se_heap \<times> schedule) option" where
  "schedule_remove_node e hs = do {
     hs \<leftarrow> remove_loop e hs;
     (h, s) \<leftarrow> schedule_detach_parent (Some e) hs;
     Some (upd e (se_pri_update (\<lambda>_. 0)) h, s)
   }"

text \<open>The loop of \<open>schedule_insert\<close>; \<open>c\<close> is the node it is at.\<close>

partial_function (option) insert_loop ::
  "(nat \<Rightarrow> u32) \<Rightarrow> addr \<Rightarrow> addr \<Rightarrow> addr \<Rightarrow> se_heap \<Rightarrow> nat \<Rightarrow> (se_heap \<times> nat) option" where
  "insert_loop rnd root e c h pos =
     (let comp = schedule_entry_compare (h e) (h c) in
      if comp = -1 then
        (case se_lt (h c) of
           Some l \<Rightarrow> insert_loop rnd root e l h pos
         | None \<Rightarrow> Some (set_parent e (Some c) (set_lt c (Some e) h), pos))
      else if comp = 1 then
        (case se_gt (h c) of
           Some g \<Rightarrow> insert_loop rnd root e g h pos
         | None \<Rightarrow> Some (set_parent e (Some c) (set_gt c (Some e) h), pos))
      else insert_loop rnd root e root (fst (schedule_set_pri rnd pos e h)) (snd (schedule_set_pri rnd pos e h)))"

definition schedule_insert ::
  "(nat \<Rightarrow> u32) \<Rightarrow> addr \<Rightarrow> addr \<Rightarrow> se_heap \<Rightarrow> nat \<Rightarrow> (se_heap \<times> nat) option" where
  "schedule_insert rnd root e h pos = insert_loop rnd root e root h pos"

partial_function (option) balance_loop :: "addr \<Rightarrow> se_heap \<times> schedule \<Rightarrow> (se_heap \<times> schedule) option" where
  "balance_loop e hs =
     (case se_parent (fst hs e) of
        None \<Rightarrow> Some hs
      | Some p \<Rightarrow>
          if se_pri (fst hs p) > se_pri (fst hs e)
          then Option.bind (schedule_rotate_up (Some e) hs) (balance_loop e)
          else Some hs)"

definition schedule_add_modify ::
  "(nat \<Rightarrow> u32) \<Rightarrow> addr \<Rightarrow> se_heap \<times> schedule \<times> nat \<Rightarrow> (se_heap \<times> schedule \<times> nat) option" where
  "schedule_add_modify rnd e = (\<lambda>(h, s, pos). do {
     (h, s) \<leftarrow> (if IN_TREE h e then schedule_remove_node e (h, s) else Some (h, s));
     let (h, pos) = schedule_set_pri rnd pos e h;
     (h, s, pos) \<leftarrow>
       (case sch_root s of
          Some r \<Rightarrow> map_option (\<lambda>(h, pos). (h, s, pos)) (schedule_insert rnd r e h pos)
        | None \<Rightarrow> Some (h, s\<lparr>sch_root := Some e\<rparr>, pos));
     (h, s) \<leftarrow> balance_loop e (h, s);
     Some (h, s, pos)
   })"

partial_function (option) least_loop :: "addr \<Rightarrow> se_heap \<Rightarrow> addr option" where
  "least_loop e h =
     (case se_lt (h e) of None \<Rightarrow> Some e | Some l \<Rightarrow> least_loop l h)"

text \<open>The outer option is divergence, the inner one the null pointer.\<close>

definition schedule_find_least :: "addr option \<Rightarrow> se_heap \<Rightarrow> addr option option" where
  "schedule_find_least e h =
     (case e of None \<Rightarrow> Some None | Some e \<Rightarrow> map_option Some (least_loop e h))"

definition schedule_init :: schedule where
  "schedule_init = \<lparr>earliest_wakeup = None, sch_root = None\<rparr>"

definition schedule_remove_entry :: "addr \<Rightarrow> se_heap \<times> schedule \<Rightarrow> (se_heap \<times> schedule) option" where
  "schedule_remove_entry e = (\<lambda>(h, s). schedule_remove_node e (h, s\<lparr>earliest_wakeup := None\<rparr>))"

definition schedule_add_entry ::
  "(nat \<Rightarrow> u32) \<Rightarrow> addr \<Rightarrow> timeval \<Rightarrow> int \<Rightarrow> se_heap \<times> schedule \<times> nat \<Rightarrow>
   (se_heap \<times> schedule \<times> nat) option" where
  "schedule_add_entry rnd e tv sigma = (\<lambda>(h, s, pos).
     if \<not> IN_TREE h e \<or> sigma = 0 \<or> \<not> tv_within_sigma tv (se_tv (h e)) sigma then do {
       let h = upd e (se_tv_update (\<lambda>_. tv)) h;
       (h, s, pos) \<leftarrow> schedule_add_modify rnd e (h, s, pos);
       Some (h, s\<lparr>earliest_wakeup := None\<rparr>, pos)
     } else Some (h, s, pos))"

definition schedule_get_earliest_wakeup ::
  "se_heap \<times> schedule \<Rightarrow> (schedule \<times> (addr \<times> timeval) option) option" where
  "schedule_get_earliest_wakeup = (\<lambda>(h, s). do {
     s \<leftarrow> (case earliest_wakeup s of
            Some _ \<Rightarrow> Some s
          | None \<Rightarrow> map_option (\<lambda>e. s\<lparr>earliest_wakeup := e\<rparr>) (schedule_find_least (sch_root s) h));
     Some (s, map_option (\<lambda>e. (e, se_tv (h e))) (earliest_wakeup s))
   })"

declare remove_loop.simps [code] insert_loop.simps [code] balance_loop.simps [code] least_loop.simps [code]

subsection \<open>Trees in the heap\<close>

text \<open>
  A treap is described from one of its nodes: the tree below it, and the context above it, a list of
  frames from the parent to the root. \<open>LeftOf p r\<close> says that the hole is the left child of \<open>p\<close>, whose right
  subtree is \<open>r\<close>.
\<close>

datatype frame = LeftOf addr "addr tree" | RightOf "addr tree" addr

fun ptr :: "addr tree \<Rightarrow> addr option" where
  "ptr Leaf = None"
| "ptr (Node l a r) = Some a"

fun above :: "frame list \<Rightarrow> addr option" where
  "above [] = None"
| "above (LeftOf p r # c) = Some p"
| "above (RightOf l p # c) = Some p"

fun lefts :: "frame list \<Rightarrow> addr list" where
  "lefts [] = []"
| "lefts (LeftOf p r # c) = lefts c"
| "lefts (RightOf l p # c) = lefts c @ inorder l @ [p]"

fun rights :: "frame list \<Rightarrow> addr list" where
  "rights [] = []"
| "rights (LeftOf p r # c) = p # inorder r @ rights c"
| "rights (RightOf l p # c) = rights c"

fun tree_at :: "se_heap \<Rightarrow> addr option \<Rightarrow> addr tree \<Rightarrow> bool" where
  "tree_at h par Leaf = True"
| "tree_at h par (Node l a r) \<longleftrightarrow> se_parent (h a) = par \<and> se_lt (h a) = ptr l \<and> se_gt (h a) = ptr r \<and>
     tree_at h (Some a) l \<and> tree_at h (Some a) r"

fun ctx_at :: "se_heap \<Rightarrow> addr option \<Rightarrow> frame list \<Rightarrow> addr option \<Rightarrow> bool" where
  "ctx_at h rt [] x \<longleftrightarrow> rt = x"
| "ctx_at h rt (LeftOf p r # c) x \<longleftrightarrow> se_lt (h p) = x \<and> se_gt (h p) = ptr r \<and> se_parent (h p) = above c \<and>
     tree_at h (Some p) r \<and> ctx_at h rt c (Some p)"
| "ctx_at h rt (RightOf l p # c) x \<longleftrightarrow> se_gt (h p) = x \<and> se_lt (h p) = ptr l \<and> se_parent (h p) = above c \<and>
     tree_at h (Some p) l \<and> ctx_at h rt c (Some p)"

definition focus :: "se_heap \<Rightarrow> addr option \<Rightarrow> frame list \<Rightarrow> addr tree \<Rightarrow> bool" where
  "focus h rt c t \<longleftrightarrow> tree_at h (above c) t \<and> ctx_at h rt c (ptr t) \<and> distinct (lefts c @ inorder t @ rights c)"

text \<open>The whole tree, seen from its root.\<close>

fun plug :: "frame list \<Rightarrow> addr tree \<Rightarrow> addr tree" where
  "plug [] t = t"
| "plug (LeftOf p r # c) t = plug c (Node t p r)"
| "plug (RightOf l p # c) t = plug c (Node l p t)"

lemma inorder_plug [simp]: "inorder (plug c t) = lefts c @ inorder t @ rights c"
  by (induction c t rule: plug.induct) simp_all

lemma focus_frame:
  "focus h rt (LeftOf p r # c) t \<longleftrightarrow> focus h rt c (Node t p r)"
  "focus h rt (RightOf l p # c) t \<longleftrightarrow> focus h rt c (Node l p t)"
  by (auto simp: focus_def)

lemma focus_plug: "focus h rt c t \<longleftrightarrow> focus h rt [] (plug c t)"
  by (induction c t rule: plug.induct) (simp_all only: plug.simps focus_frame)

lemma tree_at_upd [simp]: "a \<notin> set_tree t \<Longrightarrow> tree_at (h(a := v)) par t = tree_at h par t"
  by (induction t arbitrary: par) auto

lemma ctx_at_upd [simp]: "a \<notin> set (lefts c) \<Longrightarrow> a \<notin> set (rights c) \<Longrightarrow> ctx_at (h(a := v)) rt c x = ctx_at h rt c x"
  by (induction h rt c x rule: ctx_at.induct) auto

lemma top_in: "above c = Some g \<Longrightarrow> g \<in> set (lefts c) \<or> g \<in> set (rights c)"
  by (cases c rule: above.cases) auto

lemma ptr_in: "ptr t = Some x \<Longrightarrow> x \<in> set_tree t"
  by (cases t) auto

text \<open>Two heaps with the same keys, that agree outside a set of nodes.\<close>

definition same_keys :: "addr set \<Rightarrow> se_heap \<Rightarrow> se_heap \<Rightarrow> bool" where
  "same_keys A h h' \<longleftrightarrow> (\<forall>x. se_tv (h' x) = se_tv (h x) \<and> se_pri (h' x) = se_pri (h x)) \<and> (\<forall>x. x \<notin> A \<longrightarrow> h' x = h x)"

lemma same_keys_refl [simp]: "same_keys A h h"
  by (simp add: same_keys_def)

lemma same_keys_trans: "same_keys A h h' \<Longrightarrow> same_keys A h' h'' \<Longrightarrow> same_keys A h h''"
  by (simp add: same_keys_def)

lemma tree_at_cong: "(\<And>x. x \<in> set_tree t \<Longrightarrow> h' x = h x) \<Longrightarrow> tree_at h' par t = tree_at h par t"
  by (induction t arbitrary: par) auto

lemma ctx_at_cong:
  "(\<And>x. x \<in> set (lefts c) \<or> x \<in> set (rights c) \<Longrightarrow> h' x = h x) \<Longrightarrow> ctx_at h' rt c x = ctx_at h rt c x"
  by (induction h rt c x rule: ctx_at.induct) (auto cong: tree_at_cong)

lemma tree_at_outside:
  "tree_at h par t \<Longrightarrow> set_tree t \<inter> C = {} \<Longrightarrow> (\<And>x. x \<notin> C \<Longrightarrow> h' x = h x) \<Longrightarrow> tree_at h' par t"
  using tree_at_cong [of t h' h par] by blast

text \<open>The first step of a rotation: the link from above the parent \<open>p\<close> now leads to \<open>e\<close>.\<close>

definition relink :: "addr \<Rightarrow> addr \<Rightarrow> addr option \<Rightarrow> se_heap \<times> schedule \<Rightarrow> (se_heap \<times> schedule) option" where
  "relink p e gp = (\<lambda>(h, s).
     case gp of
       Some g \<Rightarrow>
         if se_gt (h g) = Some p then Some (set_gt g (Some e) h, s)
         else if se_lt (h g) = Some p then Some (set_lt g (Some e) h, s)
         else None
     | None \<Rightarrow> Some (h, s\<lparr>sch_root := Some e\<rparr>))"

lemma relink_ctx:
  assumes "ctx_at h (sch_root s) c (Some p)" "distinct (lefts c @ p # rights c)"
  shows "\<exists>h1 s1. relink p e (above c) (h, s) = Some (h1, s1) \<and> ctx_at h1 (sch_root s1) c (Some e) \<and>
    (\<forall>x. x \<notin> set (lefts c) \<and> x \<notin> set (rights c) \<longrightarrow> h1 x = h x) \<and> earliest_wakeup s1 = earliest_wakeup s \<and>
    (\<forall>x. se_tv (h1 x) = se_tv (h x) \<and> se_pri (h1 x) = se_pri (h x))"
proof (cases c rule: above.cases)
  case 1
  then show ?thesis using assms by (simp add: relink_def)
next
  case (2 g q c')
  have "se_gt (h g) \<noteq> Some p" using assms 2 by (auto dest: ptr_in)
  then show ?thesis using assms 2 by (auto simp: relink_def upd_def)
next
  case (3 q g c')
  then show ?thesis using assms by (auto simp: relink_def upd_def)
qed

lemma rotate_left_child:
  assumes "focus h (sch_root s) (LeftOf p r # c) (Node a e b)"
  shows "\<exists>h' s'. schedule_rotate_up (Some e) (h, s) = Some (h', s') \<and>
    focus h' (sch_root s') c (Node a e (Node b p r)) \<and> earliest_wakeup s' = earliest_wakeup s \<and>
    same_keys (set (inorder (plug c (Node a e (Node b p r))))) h h'"
proof -
  let ?c = "set (lefts c) \<union> set (rights c)"
  have f: "se_parent (h e) = Some p" "se_lt (h e) = ptr a" "se_gt (h e) = ptr b" "se_parent (h p) = above c"
    "se_lt (h p) = Some e" "se_gt (h p) = ptr r" "tree_at h (Some e) a" "tree_at h (Some e) b" "tree_at h (Some p) r"
    "ctx_at h (sch_root s) c (Some p)"
    and d: "distinct (lefts c @ inorder a @ e # inorder b @ p # inorder r @ rights c)"
    using assms by (simp_all add: focus_def)
  have "distinct (lefts c @ p # rights c)" using d by auto
  then obtain h1 s1 where 1: "relink p e (above c) (h, s) = Some (h1, s1)" "ctx_at h1 (sch_root s1) c (Some e)"
    "\<And>x. x \<notin> ?c \<Longrightarrow> h1 x = h x" "earliest_wakeup s1 = earliest_wakeup s"
    "\<And>x. se_tv (h1 x) = se_tv (h x) \<and> se_pri (h1 x) = se_pri (h x)"
    using relink_ctx [OF f(10), of e] by auto
  have n: "e \<noteq> p" "p \<noteq> e" "e \<notin> ?c" "p \<notin> ?c" "e \<notin> set_tree a" "e \<notin> set_tree b" "e \<notin> set_tree r" "p \<notin> set_tree a"
    "p \<notin> set_tree b" "p \<notin> set_tree r" "set_tree a \<inter> ?c = {}" "set_tree b \<inter> ?c = {}" "set_tree r \<inter> ?c = {}"
    "set_tree b \<inter> set_tree a = {}" "set_tree b \<inter> set_tree r = {}"
    using d by auto
  have h1: "h1 e = h e" "h1 p = h p" "tree_at h1 (Some e) a" "tree_at h1 (Some e) b" "tree_at h1 (Some p) r"
    using n f(7-9) by (auto intro: 1(3) tree_at_outside [OF _ _ 1(3)])
  have db: "distinct (inorder b)" using d by simp
  have notgt: "se_gt (h p) \<noteq> Some e" using f(6) n by (auto dest: ptr_in)
  define h2 where "h2 = set_lt p (ptr b) (set_gt e (Some p) (set_parent p (Some e) (set_parent e (above c) h1)))"
  define h3 where "h3 = (case ptr b of None \<Rightarrow> h2 | Some x \<Rightarrow> set_parent x (Some p) h2)"
  have link: "se_gt (set_parent p (Some e) (set_parent e (above c) h1) p) \<noteq> Some e"
    "se_lt (set_parent p (Some e) (set_parent e (above c) h1) p) = Some e"
    using f n(1,2) notgt h1 by (simp_all add: upd_def)
  have run: "schedule_rotate_up (Some e) (h, s) = Some (h3, s1)"
    using f 1(1) n(1,2) notgt  link unfolding relink_def h3_def h2_def
    by (simp add: schedule_rotate_up_def Let_def)
  have t: "tree_at h2 (Some e) a" "tree_at h2 (Some e) b" "tree_at h2 (Some p) r"
    "se_parent (h2 p) = Some e" "se_lt (h2 p) = ptr b" "se_gt (h2 p) = ptr r"
    "se_parent (h2 e) = above c" "se_lt (h2 e) = ptr a" "se_gt (h2 e) = Some p" "ctx_at h2 (sch_root s1) c (Some e)"
    using n h1 f 1(2) by (simp_all add: h2_def upd_def)
  have "tree_at h3 (above c) (Node a e (Node b p r)) \<and> ctx_at h3 (sch_root s1) c (Some e)"
    using t n db by (cases b) (auto simp: h3_def upd_def)
  moreover have "same_keys (set (inorder (plug c (Node a e (Node b p r))))) h h3"
    using 1(3,5) n by (auto simp: same_keys_def h3_def h2_def upd_def dest: ptr_in split: option.splits)
  ultimately show ?thesis
    using run 1(4) d by (auto simp: focus_def)
qed

lemma rotate_right_child:
  assumes "focus h (sch_root s) (RightOf l p # c) (Node a e b)"
  shows "\<exists>h' s'. schedule_rotate_up (Some e) (h, s) = Some (h', s') \<and>
    focus h' (sch_root s') c (Node (Node l p a) e b) \<and> earliest_wakeup s' = earliest_wakeup s \<and>
    same_keys (set (inorder (plug c (Node (Node l p a) e b)))) h h'"
proof -
  let ?c = "set (lefts c) \<union> set (rights c)"
  have f: "se_parent (h e) = Some p" "se_lt (h e) = ptr a" "se_gt (h e) = ptr b" "se_parent (h p) = above c"
    "se_gt (h p) = Some e" "se_lt (h p) = ptr l" "tree_at h (Some e) a" "tree_at h (Some e) b" "tree_at h (Some p) l"
    "ctx_at h (sch_root s) c (Some p)"
    and d: "distinct (lefts c @ inorder l @ p # inorder a @ e # inorder b @ rights c)"
    using assms by (simp_all add: focus_def)
  have "distinct (lefts c @ p # rights c)" using d by auto
  then obtain h1 s1 where 1: "relink p e (above c) (h, s) = Some (h1, s1)" "ctx_at h1 (sch_root s1) c (Some e)"
    "\<And>x. x \<notin> ?c \<Longrightarrow> h1 x = h x" "earliest_wakeup s1 = earliest_wakeup s"
    "\<And>x. se_tv (h1 x) = se_tv (h x) \<and> se_pri (h1 x) = se_pri (h x)"
    using relink_ctx [OF f(10), of e] by auto
  have n: "e \<noteq> p" "p \<noteq> e" "e \<notin> ?c" "p \<notin> ?c" "e \<notin> set_tree a" "e \<notin> set_tree b" "e \<notin> set_tree l" "p \<notin> set_tree a"
    "p \<notin> set_tree b" "p \<notin> set_tree l" "set_tree a \<inter> ?c = {}" "set_tree b \<inter> ?c = {}" "set_tree l \<inter> ?c = {}"
    "set_tree a \<inter> set_tree b = {}" "set_tree a \<inter> set_tree l = {}"
    using d by auto
  have h1: "h1 e = h e" "h1 p = h p" "tree_at h1 (Some e) a" "tree_at h1 (Some e) b" "tree_at h1 (Some p) l"
    using n f(7-9) by (auto intro: 1(3) tree_at_outside [OF _ _ 1(3)])
  have db: "distinct (inorder a)" using d by simp
  define h2 where "h2 = set_gt p (ptr a) (set_lt e (Some p) (set_parent p (Some e) (set_parent e (above c) h1)))"
  define h3 where "h3 = (case ptr a of None \<Rightarrow> h2 | Some x \<Rightarrow> set_parent x (Some p) h2)"
  have link: "se_gt (set_parent p (Some e) (set_parent e (above c) h1) p) = Some e"
    using f n(1,2) h1 by (simp add: upd_def)
  have run: "schedule_rotate_up (Some e) (h, s) = Some (h3, s1)"
    using f 1(1) n(1,2) link unfolding relink_def h3_def h2_def
    by (simp add: schedule_rotate_up_def Let_def)
  have t: "tree_at h2 (Some e) a" "tree_at h2 (Some e) b" "tree_at h2 (Some p) l"
    "se_parent (h2 p) = Some e" "se_gt (h2 p) = ptr a" "se_lt (h2 p) = ptr l"
    "se_parent (h2 e) = above c" "se_gt (h2 e) = ptr b" "se_lt (h2 e) = Some p" "ctx_at h2 (sch_root s1) c (Some e)"
    using n h1 f 1(2) by (simp_all add: h2_def upd_def)
  have "tree_at h3 (above c) (Node (Node l p a) e b) \<and> ctx_at h3 (sch_root s1) c (Some e)"
    using t n db by (cases a) (auto simp: h3_def upd_def)
  moreover have "same_keys (set (inorder (plug c (Node (Node l p a) e b)))) h h3"
    using 1(3,5) n by (auto simp: same_keys_def h3_def h2_def upd_def dest: ptr_in split: option.splits)
  ultimately show ?thesis
    using run 1(4) d by (auto simp: focus_def)
qed

end
