(* ===== verification/Schedule_Ops.thy ===== *)
theory Schedule_Ops
  imports Schedule
begin

text \<open>
  The operations of the treap, proved on the trees of theory Schedule: the order of the priorities, the
  downward rotations of \<open>schedule_remove_node\<close>, the search of \<open>schedule_insert\<close> and why its restarts end,
  the upward rotations of \<open>schedule_add_modify\<close>, and the invariant \<open>sched_tree\<close> that the three entry points keep.
\<close>


subsection \<open>Priorities\<close>

definition pri_le :: "(addr \<Rightarrow> u32) \<Rightarrow> addr option \<Rightarrow> addr option \<Rightarrow> bool" where
  "pri_le pr p x = (case (p, x) of (Some p, Some x) \<Rightarrow> pr p \<le> pr x | _ \<Rightarrow> True)"

lemma pri_le_simps [simp]: "pri_le pr None x" "pri_le pr p None" "pri_le pr (Some a) (Some b) \<longleftrightarrow> pr a \<le> pr b"
  by (auto simp: pri_le_def split: option.split)

fun heap_tree :: "(addr \<Rightarrow> u32) \<Rightarrow> addr tree \<Rightarrow> bool" where
  "heap_tree pr Leaf = True"
| "heap_tree pr (Node l a r) \<longleftrightarrow> pri_le pr (Some a) (ptr l) \<and> pri_le pr (Some a) (ptr r) \<and> heap_tree pr l \<and> heap_tree pr r"

fun heap_ctx :: "(addr \<Rightarrow> u32) \<Rightarrow> frame list \<Rightarrow> bool" where
  "heap_ctx pr [] = True"
| "heap_ctx pr (LeftOf p r # c) \<longleftrightarrow> pri_le pr (Some p) (ptr r) \<and> heap_tree pr r \<and> pri_le pr (above c) (Some p) \<and> heap_ctx pr c"
| "heap_ctx pr (RightOf l p # c) \<longleftrightarrow> pri_le pr (Some p) (ptr l) \<and> heap_tree pr l \<and> pri_le pr (above c) (Some p) \<and> heap_ctx pr c"

lemma heap_plug: "heap_tree pr (plug c t) \<longleftrightarrow> heap_ctx pr c \<and> heap_tree pr t \<and> pri_le pr (above c) (ptr t)"
  by (induction c t rule: plug.induct) auto

lemma plug_append: "plug (c @ d) t = plug d (plug c t)"
  by (induction c t rule: plug.induct) auto

lemma plug_node: "e \<in> set_tree t \<Longrightarrow> \<exists>c l r. t = plug c (Node l e r)"
proof (induction t)
  case (Node l a r)
  consider "e = a" | "e \<in> set_tree l" | "e \<in> set_tree r" using Node.prems by auto
  then show ?case
  proof cases
    case 1
    then have "Node l a r = plug [] (Node l e r)" by simp
    then show ?thesis by blast
  next
    case 2
    then obtain c l' r' where "l = plug c (Node l' e r')" using Node.IH(1) by blast
    then have "Node l a r = plug (c @ [LeftOf a r]) (Node l' e r')" by (simp add: plug_append)
    then show ?thesis by blast
  next
    case 3
    then obtain c l' r' where "r = plug c (Node l' e r')" using Node.IH(2) by blast
    then have "Node l a r = plug (c @ [RightOf l a]) (Node l' e r')" by (simp add: plug_append)
    then show ?thesis by blast
  qed
qed simp

subsection \<open>Removal\<close>

abbreviation "pris h \<equiv> \<lambda>a. se_pri (h a)"

lemma same_keys_pris: "same_keys A h h' \<Longrightarrow> pris h' = pris h"
  by (simp add: same_keys_def)

lemma remove_loop_spec:
  assumes "focus h (sch_root s) c (Node l e r)" "heap_ctx (pris h) c" "heap_tree (pris h) l" "heap_tree (pris h) r"
    "pri_le (pris h) (above c) (ptr l)" "pri_le (pris h) (above c) (ptr r)"
  shows "\<exists>h' s' c'. remove_loop e (h, s) = Some (h', s') \<and> focus h' (sch_root s') c' (Node Leaf e Leaf) \<and>
    lefts c' = lefts c @ inorder l \<and> rights c' = inorder r @ rights c \<and> heap_ctx (pris h') c' \<and>
    earliest_wakeup s' = earliest_wakeup s \<and>
    same_keys (set (lefts c @ inorder l @ e # inorder r @ rights c)) h h'"
  using assms
proof (induction "size l + size r" arbitrary: h s c l r rule: less_induct)
  case less
  have ptrs: "se_lt (h e) = ptr l" "se_gt (h e) = ptr r" using less.prems(1) by (simp_all add: focus_def)
  have left: ?case
    if l: "l = Node a x b" and first: "r = Leaf \<or> (\<exists>y. ptr r = Some y \<and> se_pri (h x) < se_pri (h y))" for a x b
  proof -
    have f: "focus h (sch_root s) (LeftOf e r # c) (Node a x b)" using less.prems(1) by (simp add: focus_frame l)
    obtain h1 s1 where 1: "schedule_rotate_up (Some x) (h, s) = Some (h1, s1)"
      "focus h1 (sch_root s1) c (Node a x (Node b e r))" "earliest_wakeup s1 = earliest_wakeup s"
      "same_keys (set (inorder (plug c (Node a x (Node b e r))))) h h1"
      using rotate_left_child [OF f] by blast
    have p: "pris h1 = pris h" by (rule same_keys_pris [OF 1(4)])
    have "\<exists>h' s' c'. remove_loop e (h1, s1) = Some (h', s') \<and> focus h' (sch_root s') c' (Node Leaf e Leaf) \<and>
      lefts c' = lefts (RightOf a x # c) @ inorder b \<and> rights c' = inorder r @ rights (RightOf a x # c) \<and> heap_ctx (pris h') c' \<and>
      earliest_wakeup s' = earliest_wakeup s1 \<and>
      same_keys (set (lefts (RightOf a x # c) @ inorder b @ e # inorder r @ rights (RightOf a x # c))) h1 h'"
    proof (rule less.hyps)
      show "focus h1 (sch_root s1) (RightOf a x # c) (Node b e r)" using 1(2) by (simp add: focus_frame)
    qed (unfold p, use less.prems(2-6) l first in \<open>auto simp: pri_le_def split: option.splits\<close>)
    then obtain h' s' c' where 2: "remove_loop e (h1, s1) = Some (h', s')" "focus h' (sch_root s') c' (Node Leaf e Leaf)"
      "lefts c' = lefts (RightOf a x # c) @ inorder b" "rights c' = inorder r @ rights (RightOf a x # c)"
      "heap_ctx (pris h') c'" "earliest_wakeup s' = earliest_wakeup s1"
      "same_keys (set (lefts (RightOf a x # c) @ inorder b @ e # inorder r @ rights (RightOf a x # c))) h1 h'"
      by blast
    have "remove_loop e (h, s) = Some (h', s')"
      using first ptrs 1(1) 2(1) by (subst remove_loop.simps) (auto simp: l)
    moreover have "same_keys (set (lefts c @ inorder l @ e # inorder r @ rights c)) h h'"
    proof (rule same_keys_trans)
      have "set (inorder (plug c (Node a x (Node b e r)))) = set (lefts c @ inorder l @ e # inorder r @ rights c)"
        by (auto simp: l)
      with 1(4) show "same_keys (set (lefts c @ inorder l @ e # inorder r @ rights c)) h h1" by simp
      have "set (lefts (RightOf a x # c) @ inorder b @ e # inorder r @ rights (RightOf a x # c)) = set (lefts c @ inorder l @ e # inorder r @ rights c)"
        by (auto simp: l)
      with 2(7) show "same_keys (set (lefts c @ inorder l @ e # inorder r @ rights c)) h1 h'" by simp
    qed
    ultimately show ?thesis using 1(3) 2 by (intro exI [of _ h'] exI [of _ s'] exI [of _ c']) (simp add: l)
  qed
  have right: ?case
    if r: "r = Node a x b" and first: "l = Leaf \<or> (\<exists>y. ptr l = Some y \<and> \<not> se_pri (h y) < se_pri (h x))" for a x b
  proof -
    have f: "focus h (sch_root s) (RightOf l e # c) (Node a x b)" using less.prems(1) by (simp add: focus_frame r)
    obtain h1 s1 where 1: "schedule_rotate_up (Some x) (h, s) = Some (h1, s1)"
      "focus h1 (sch_root s1) c (Node (Node l e a) x b)" "earliest_wakeup s1 = earliest_wakeup s"
      "same_keys (set (inorder (plug c (Node (Node l e a) x b)))) h h1"
      using rotate_right_child [OF f] by blast
    have p: "pris h1 = pris h" by (rule same_keys_pris [OF 1(4)])
    have "\<exists>h' s' c'. remove_loop e (h1, s1) = Some (h', s') \<and> focus h' (sch_root s') c' (Node Leaf e Leaf) \<and>
      lefts c' = lefts (LeftOf x b # c) @ inorder l \<and> rights c' = inorder a @ rights (LeftOf x b # c) \<and> heap_ctx (pris h') c' \<and>
      earliest_wakeup s' = earliest_wakeup s1 \<and>
      same_keys (set (lefts (LeftOf x b # c) @ inorder l @ e # inorder a @ rights (LeftOf x b # c))) h1 h'"
    proof (rule less.hyps)
      show "focus h1 (sch_root s1) (LeftOf x b # c) (Node l e a)" using 1(2) by (simp add: focus_frame)
    qed (unfold p, use less.prems(2-6) r first in \<open>auto simp: pri_le_def split: option.splits\<close>)
    then obtain h' s' c' where 2: "remove_loop e (h1, s1) = Some (h', s')" "focus h' (sch_root s') c' (Node Leaf e Leaf)"
      "lefts c' = lefts (LeftOf x b # c) @ inorder l" "rights c' = inorder a @ rights (LeftOf x b # c)"
      "heap_ctx (pris h') c'" "earliest_wakeup s' = earliest_wakeup s1"
      "same_keys (set (lefts (LeftOf x b # c) @ inorder l @ e # inorder a @ rights (LeftOf x b # c))) h1 h'"
      by blast
    have "remove_loop e (h, s) = Some (h', s')"
      using first ptrs 1(1) 2(1) by (subst remove_loop.simps) (auto simp: r)
    moreover have "same_keys (set (lefts c @ inorder l @ e # inorder r @ rights c)) h h'"
    proof (rule same_keys_trans)
      have "set (inorder (plug c (Node (Node l e a) x b))) = set (lefts c @ inorder l @ e # inorder r @ rights c)"
        by (auto simp: r)
      with 1(4) show "same_keys (set (lefts c @ inorder l @ e # inorder r @ rights c)) h h1" by simp
      have "set (lefts (LeftOf x b # c) @ inorder l @ e # inorder a @ rights (LeftOf x b # c)) = set (lefts c @ inorder l @ e # inorder r @ rights c)"
        by (auto simp: r)
      with 2(7) show "same_keys (set (lefts c @ inorder l @ e # inorder r @ rights c)) h1 h'" by simp
    qed
    ultimately show ?thesis using 1(3) 2 by (intro exI [of _ h'] exI [of _ s'] exI [of _ c']) (simp add: r)
  qed
  show ?case
  proof (cases l)
    case l: Leaf
    show ?thesis
    proof (cases r)
      case Leaf
      have "remove_loop e (h, s) = Some (h, s)" using ptrs l Leaf by (subst remove_loop.simps) simp
      with less.prems l Leaf show ?thesis by (intro exI [of _ h] exI [of _ s] exI [of _ c]) simp
    qed (use right l in blast)
  next
    case l: (Node a x b)
    show ?thesis
    proof (cases r)
      case Leaf
      with left [OF l] show ?thesis by simp
    next
      case r: (Node a' y b')
      show ?thesis
      proof (cases "se_pri (h x) < se_pri (h y)")
        case True
        with left [OF l] r show ?thesis by simp
      next
        case False
        with right [OF r] l show ?thesis by simp
      qed
    qed
  qed
qed

lemma detach_spec:
  assumes "focus h (sch_root s) c (Node Leaf e Leaf)"
  shows "\<exists>h' s'. schedule_detach_parent (Some e) (h, s) = Some (h', s') \<and> focus h' (sch_root s') c Leaf \<and>
    se_parent (h' e) = None \<and> se_lt (h' e) = None \<and> se_gt (h' e) = None \<and> earliest_wakeup s' = earliest_wakeup s \<and>
    same_keys (set (lefts c @ e # rights c)) h h'"
proof (cases c rule: above.cases)
  case 1
  then show ?thesis using assms by (simp add: focus_def schedule_detach_parent_def)
next
  case (2 p r c')
  then show ?thesis
    using assms by (auto simp: focus_def schedule_detach_parent_def upd_def same_keys_def dest: ptr_in)
next
  case (3 l p c')
  then show ?thesis
    using assms by (auto simp: focus_def schedule_detach_parent_def upd_def same_keys_def dest: ptr_in)
qed

lemma heap_tree_cong: "(\<And>x. x \<in> set_tree t \<Longrightarrow> pr' x = pr x) \<Longrightarrow> heap_tree pr' t = heap_tree pr t"
  by (induction t) (auto simp: pri_le_def ptr_in split: option.splits)

lemma heap_ctx_cong:
  "(\<And>x. x \<in> set (lefts c) \<union> set (rights c) \<Longrightarrow> pr' x = pr x) \<Longrightarrow> heap_ctx pr' c = heap_ctx pr c"
proof (induction c rule: lefts.induct)
  case (2 p r c)
  have "pri_le pr' (Some p) (ptr r) = pri_le pr (Some p) (ptr r)" "pri_le pr' (above c) (Some p) = pri_le pr (above c) (Some p)"
    using 2(2) by (auto simp: pri_le_def dest: top_in ptr_in split: option.splits)
  moreover have "heap_ctx pr' c = heap_ctx pr c" by (rule 2(1)) (use 2(2) in auto)
  moreover have "heap_tree pr' r = heap_tree pr r" by (rule heap_tree_cong) (use 2(2) in auto)
  ultimately show ?case by simp
next
  case (3 l p c)
  have "pri_le pr' (Some p) (ptr l) = pri_le pr (Some p) (ptr l)" "pri_le pr' (above c) (Some p) = pri_le pr (above c) (Some p)"
    using 3(2) by (auto simp: pri_le_def dest: top_in ptr_in split: option.splits)
  moreover have "heap_ctx pr' c = heap_ctx pr c" by (rule 3(1)) (use 3(2) in auto)
  moreover have "heap_tree pr' l = heap_tree pr l" by (rule heap_tree_cong) (use 3(2) in auto)
  ultimately show ?case by simp
qed simp

lemma filter_absent: "e \<notin> set xs \<Longrightarrow> filter (\<lambda>x. x \<noteq> e) xs = xs"
  by (induction xs) auto

lemma remove_node_spec:
  assumes "focus h (sch_root s) [] t" "e \<in> set_tree t" "heap_tree (pris h) t"
  shows "\<exists>h' s' t'. schedule_remove_node e (h, s) = Some (h', s') \<and> focus h' (sch_root s') [] t' \<and>
    inorder t' = filter (\<lambda>x. x \<noteq> e) (inorder t) \<and> heap_tree (pris h') t' \<and> earliest_wakeup s' = earliest_wakeup s \<and>
    se_pri (h' e) = 0 \<and> se_parent (h' e) = None \<and> se_lt (h' e) = None \<and> se_gt (h' e) = None \<and>
    (\<forall>x. se_tv (h' x) = se_tv (h x)) \<and> (\<forall>x. x \<noteq> e \<longrightarrow> se_pri (h' x) = se_pri (h x)) \<and> (\<forall>x. x \<notin> set_tree t \<longrightarrow> h' x = h x)"
proof -
  obtain c l r where t: "t = plug c (Node l e r)" using plug_node [OF assms(2)] by blast
  have f: "focus h (sch_root s) c (Node l e r)" using assms(1) unfolding t focus_plug [symmetric] .
  have hp: "heap_ctx (pris h) c" "heap_tree (pris h) l" "heap_tree (pris h) r" "pri_le (pris h) (above c) (Some e)"
    "pri_le (pris h) (Some e) (ptr l)" "pri_le (pris h) (Some e) (ptr r)"
    using assms(3) by (auto simp: t heap_plug)
  have trans: "pri_le (pris h) (above c) (ptr l)" "pri_le (pris h) (above c) (ptr r)"
    using hp(4-6) by (auto simp: pri_le_def split: option.splits)
  obtain h1 s1 c' where 1: "remove_loop e (h, s) = Some (h1, s1)" "focus h1 (sch_root s1) c' (Node Leaf e Leaf)"
    "lefts c' = lefts c @ inorder l" "rights c' = inorder r @ rights c" "heap_ctx (pris h1) c'"
    "earliest_wakeup s1 = earliest_wakeup s" "same_keys (set (lefts c @ inorder l @ e # inorder r @ rights c)) h h1"
    using remove_loop_spec [OF f hp(1-3) trans] by blast
  obtain h2 s2 where 2: "schedule_detach_parent (Some e) (h1, s1) = Some (h2, s2)" "focus h2 (sch_root s2) c' Leaf"
    "se_parent (h2 e) = None" "se_lt (h2 e) = None" "se_gt (h2 e) = None" "earliest_wakeup s2 = earliest_wakeup s1"
    "same_keys (set (lefts c' @ e # rights c')) h1 h2"
    using detach_spec [OF 1(2)] by blast
  define h3 where "h3 = upd e (se_pri_update (\<lambda>_. 0)) h2"
  have d: "e \<notin> set (lefts c')" "e \<notin> set (rights c')" using 1(2) by (auto simp: focus_def)
  have "same_keys (set_tree t) h h2"
  proof (rule same_keys_trans)
    have "set (lefts c @ inorder l @ e # inorder r @ rights c) = set_tree t"
      by (simp add: t flip: set_inorder)
    with 1(7) show "same_keys (set_tree t) h h1" by simp
    have "set (lefts c' @ e # rights c') = set_tree t" by (auto simp: t 1(3,4) simp flip: set_inorder)
    with 2(7) show "same_keys (set_tree t) h1 h2" by simp
  qed
  then have k: "\<And>x. se_tv (h2 x) = se_tv (h x)" "\<And>x. se_pri (h2 x) = se_pri (h x)" "\<And>x. x \<notin> set_tree t \<Longrightarrow> h2 x = h x"
    by (simp_all add: same_keys_def)
  have h3: "h3 x = (if x = e then (h2 e)\<lparr>se_pri := 0\<rparr> else h2 x)" for x by (simp add: h3_def upd_def)
  have "focus h3 (sch_root s2) c' Leaf" using 2(2) d by (simp add: focus_def h3_def upd_def)
  then have f3: "focus h3 (sch_root s2) [] (plug c' Leaf)" unfolding focus_plug [symmetric] .
  have ord: "inorder (plug c' Leaf) = filter (\<lambda>x. x \<noteq> e) (inorder t)"
    using d by (simp add: t 1(3,4) filter_absent)
  have "heap_ctx (pris h3) c'"
  proof -
    have "heap_ctx (pris h2) c'" using 1(5) same_keys_pris [OF 2(7)] by simp
    moreover have "pris h3 x = pris h2 x" if "x \<in> set (lefts c') \<union> set (rights c')" for x
      using that d by (auto simp: h3)
    ultimately show ?thesis using heap_ctx_cong [of c' "pris h3" "pris h2"] by simp
  qed
  then have "heap_tree (pris h3) (plug c' Leaf)" by (simp add: heap_plug)
  moreover have "schedule_remove_node e (h, s) = Some (h3, s2)"
    using 1(1) 2(1) by (simp add: schedule_remove_node_def h3_def)
  ultimately show ?thesis
    using f3 ord 1(6) 2(3-6) k assms(2)
    by (intro exI [of _ h3] exI [of _ s2] exI [of _ "plug c' Leaf"]) (auto simp: h3)
qed

subsection \<open>Keys\<close>

definition key_less :: "se_heap \<Rightarrow> addr \<Rightarrow> addr \<Rightarrow> bool" where
  "key_less h a b \<longleftrightarrow> se_tv (h a) < se_tv (h b) \<or> se_tv (h a) = se_tv (h b) \<and> se_pri (h a) < se_pri (h b)"

lemma timeval_eq: "(s :: timeval) = t \<longleftrightarrow> tv_sec s = tv_sec t \<and> tv_usec s = tv_usec t"
  by (auto intro: timeval.equality)

lemma compare_key:
  "schedule_entry_compare (h a) (h b) =
     (if key_less h a b then -1 else if key_less h b a then 1 else 0)"
  by (auto simp: schedule_entry_compare_def key_less_def less_timeval_ext_def timeval_eq)

lemma key_less_trans: "key_less h a b \<Longrightarrow> key_less h b c \<Longrightarrow> key_less h a c"
  by (auto simp: key_less_def)

lemma key_less_asym: "key_less h a b \<Longrightarrow> \<not> key_less h b a"
  by (auto simp: key_less_def)

lemma key_less_total: "key_less h a b \<or> key_less h b a \<or> (se_tv (h a) = se_tv (h b) \<and> se_pri (h a) = se_pri (h b))"
  by (auto simp: key_less_def)

lemma key_less_cong:
  "se_tv (h' a) = se_tv (h a) \<Longrightarrow> se_pri (h' a) = se_pri (h a) \<Longrightarrow>
   se_tv (h' b) = se_tv (h b) \<Longrightarrow> se_pri (h' b) = se_pri (h b) \<Longrightarrow> key_less h' a b = key_less h a b"
  by (simp add: key_less_def)

subsection \<open>Insertion\<close>

lemma insert_descend:
  assumes "focus h rt c t" "t \<noteq> Leaf" "sorted_wrt (key_less h) (inorder t)"
    "e \<notin> set (lefts c) \<union> set_tree t \<union> set (rights c)" "se_lt (h e) = None" "se_gt (h e) = None"
    "\<forall>x \<in> set (lefts c). key_less h x e" "\<forall>x \<in> set (rights c). key_less h e x"
  shows "(\<exists>x \<in> set_tree t. se_pri (h x) = se_pri (h e)) \<and>
      insert_loop rnd root e (the (ptr t)) h pos =
        insert_loop rnd root e root (fst (schedule_set_pri rnd pos e h)) (snd (schedule_set_pri rnd pos e h)) \<or>
    (\<exists>h' c'. insert_loop rnd root e (the (ptr t)) h pos = Some (h', pos) \<and> focus h' rt c' (Node Leaf e Leaf) \<and>
      plug c' Leaf = plug c t \<and> same_keys (set (e # lefts c @ inorder t @ rights c)) h h' \<and>
      (\<forall>x \<in> set (lefts c'). key_less h x e) \<and> (\<forall>x \<in> set (rights c'). key_less h e x))"
  using assms
proof (induction t arbitrary: c)
  case (Node l a r)
  have f: "se_lt (h a) = ptr l" "se_gt (h a) = ptr r" using Node.prems(1) by (simp_all add: focus_def)
  have sorted: "sorted_wrt (key_less h) (inorder l)" "sorted_wrt (key_less h) (inorder r)"
    "\<forall>x \<in> set_tree l. key_less h x a" "\<forall>x \<in> set_tree r. key_less h a x"
    using Node.prems(3) by (auto simp: sorted_wrt_append)
  consider (less) "key_less h e a" | (greater) "key_less h a e" "\<not> key_less h e a"
    | (same) "\<not> key_less h e a" "\<not> key_less h a e" by blast
  then show ?case
  proof cases
    case less
    let ?c = "LeftOf a r # c"
    have fl: "focus h rt ?c l" using Node.prems(1) by (simp add: focus_frame)
    have ctx: "\<forall>x \<in> set (rights ?c). key_less h e x" "\<forall>x \<in> set (lefts ?c). key_less h x e"
      using less sorted(4) Node.prems(7,8) by (auto intro: key_less_trans)
    show ?thesis
    proof (cases l)
      case Leaf
      define h' where "h' = set_parent e (Some a) (set_lt a (Some e) h)"
      have "insert_loop rnd root e a h pos = Some (h', pos)"
        using less f Leaf by (subst insert_loop.simps) (simp add: compare_key h'_def)
      moreover have "focus h' rt ?c (Node Leaf e Leaf)"
        using fl Node.prems(4-6) Leaf by (auto simp: focus_def h'_def upd_def)
      moreover have "same_keys (set (e # lefts c @ inorder (Node l a r) @ rights c)) h h'"
        by (auto simp: same_keys_def h'_def upd_def)
      ultimately show ?thesis using ctx Leaf by (intro disjI2 exI [of _ h'] exI [of _ ?c]) simp
    next
      case (Node l1 b l2)
      have step: "insert_loop rnd root e a h pos = insert_loop rnd root e (the (ptr l)) h pos"
        using less f Node by (subst insert_loop.simps) (simp add: compare_key)
      have "e \<notin> set (lefts ?c) \<union> set_tree l \<union> set (rights ?c)" using Node.prems(4) by auto
      note ih = Node.IH(1) [OF fl _ sorted(1) this Node.prems(5,6) ctx(2,1)]
      have "lefts ?c @ inorder l @ rights ?c = lefts c @ inorder (Node l a r) @ rights c"
        "plug ?c l = plug c (Node l a r)" by simp_all
      note ih = ih [unfolded this]
      show ?thesis unfolding ptr.simps option.sel step using ih Node by auto
    qed
  next
    case greater
    let ?c = "RightOf l a # c"
    have fr: "focus h rt ?c r" using Node.prems(1) by (simp add: focus_frame)
    have ctx: "\<forall>x \<in> set (rights ?c). key_less h e x" "\<forall>x \<in> set (lefts ?c). key_less h x e"
      using greater(1) sorted(3) Node.prems(7,8) by (auto intro: key_less_trans)
    show ?thesis
    proof (cases r)
      case Leaf
      define h' where "h' = set_parent e (Some a) (set_gt a (Some e) h)"
      have "insert_loop rnd root e a h pos = Some (h', pos)"
        using greater f Leaf by (subst insert_loop.simps) (simp add: compare_key h'_def)
      moreover have "focus h' rt ?c (Node Leaf e Leaf)"
        using fr Node.prems(4-6) Leaf by (auto simp: focus_def h'_def upd_def)
      moreover have "same_keys (set (e # lefts c @ inorder (Node l a r) @ rights c)) h h'"
        by (auto simp: same_keys_def h'_def upd_def)
      ultimately show ?thesis using ctx Leaf by (intro disjI2 exI [of _ h'] exI [of _ ?c]) simp
    next
      case (Node r1 b r2)
      have step: "insert_loop rnd root e a h pos = insert_loop rnd root e (the (ptr r)) h pos"
        using greater f Node by (subst insert_loop.simps) (simp add: compare_key)
      have "e \<notin> set (lefts ?c) \<union> set_tree r \<union> set (rights ?c)" using Node.prems(4) by auto
      note ih = Node.IH(2) [OF fr _ sorted(2) this Node.prems(5,6) ctx(2,1)]
      have "lefts ?c @ inorder r @ rights ?c = lefts c @ inorder (Node l a r) @ rights c"
        "plug ?c r = plug c (Node l a r)" by simp_all
      note ih = ih [unfolded this]
      show ?thesis unfolding ptr.simps option.sel step using ih Node by auto
    qed
  next
    case same
    have "insert_loop rnd root e a h pos =
        insert_loop rnd root e root (fst (schedule_set_pri rnd pos e h)) (snd (schedule_set_pri rnd pos e h))"
      using same by (subst insert_loop.simps) (simp add: compare_key Let_def)
    then show ?thesis using same key_less_total [of h a e] by auto
  qed
qed simp

text \<open>
  What the code relies on from \<open>random\<close>: every value up to \<open>2 ^ 31 - 1\<close> comes back, however many
  values have been drawn.
\<close>

definition fair_random :: "(nat \<Rightarrow> u32) \<Rightarrow> bool" where
  "fair_random rnd \<longleftrightarrow> (\<forall>v n. 0 < v \<and> v < 2 ^ 31 \<longrightarrow> (\<exists>m \<ge> n. rnd m = v))"

lemma set_pri_simps [simp]:
  "schedule_set_pri rnd pos e h = (upd e (se_pri_update (\<lambda>_. max 1 (rnd pos))) h, Suc pos)"
  by (simp add: schedule_set_pri_def Let_def max_def not_less[symmetric])

lemma fresh_priority:
  assumes "fair_random rnd" "finite A" "card A < 2 ^ 31 - 1"
  shows "\<exists>m \<ge> n. max 1 (rnd m) \<notin> f ` A"
proof -
  let ?V = "word_of_nat ` {1 ..< 2 ^ 31} :: u32 set"
  have u: "unat (word_of_nat x :: u32) = x" if "x \<in> {1 ..< 2 ^ 31}" for x
    using that by (simp add: unat_of_nat)
  have "inj_on (word_of_nat :: nat \<Rightarrow> u32) {1 ..< 2 ^ 31}" by (rule inj_on_inverseI [where g = unat]) (rule u)
  then have V: "card ?V = 2 ^ 31 - 1" by (simp add: card_image)
  have A: "card (f ` A) < 2 ^ 31 - 1" by (rule le_less_trans [OF card_image_le [OF assms(2)] assms(3)])
  have "\<not> ?V \<subseteq> f ` A"
  proof
    assume "?V \<subseteq> f ` A"
    then have "card ?V \<le> card (f ` A)" by (rule card_mono [OF finite_imageI [OF assms(2)]])
    with A show False unfolding V by (rule leD [THEN notE, rotated])
  qed
  then obtain x where x: "x \<in> {1 ..< 2 ^ 31}" "word_of_nat x \<notin> f ` A" by blast
  define v :: u32 where "v = word_of_nat x"
  have v: "0 < v" "v < 2 ^ 31" "v \<notin> f ` A"
    using x u [OF x(1)] by (simp_all add: v_def word_less_nat_alt)
  then obtain m where "m \<ge> n" "rnd m = v" using assms(1) v(1,2) unfolding fair_random_def by blast
  moreover have "max 1 v = v" using v(1) by (simp add: max_def word_le_def word_less_def)
  ultimately have "max 1 (rnd m) \<notin> f ` A" using v(3) by simp
  with \<open>m \<ge> n\<close> show ?thesis by blast
qed

lemma insert_found:
  assumes "run = Some (h', pos)" "focus h' rt c' (Node Leaf e Leaf)" "plug c' Leaf = t"
    "same_keys (set (e # inorder t)) h h'" "\<forall>x \<in> set (lefts c'). key_less h x e"
    "\<forall>x \<in> set (rights c'). key_less h e x" "se_pri (h e) \<noteq> 0"
  shows "\<exists>h' pos' c'. run = Some (h', pos') \<and>
    focus h' rt c' (Node Leaf e Leaf) \<and> plug c' Leaf = t \<and> se_pri (h' e) \<noteq> 0 \<and>
    (\<forall>x. se_tv (h' x) = se_tv (h x)) \<and> (\<forall>x. x \<noteq> e \<longrightarrow> se_pri (h' x) = se_pri (h x)) \<and>
    (\<forall>x. x \<notin> set_tree t \<and> x \<noteq> e \<longrightarrow> h' x = h x) \<and>
    (\<forall>x \<in> set (lefts c'). key_less h' x e) \<and> (\<forall>x \<in> set (rights c'). key_less h' e x)"
proof -
  have "key_less h' = key_less h" using assms(4) by (simp add: fun_eq_iff key_less_def same_keys_def)
  then show ?thesis
    using assms unfolding same_keys_def by (intro exI [of _ h'] exI [of _ pos] exI [of _ c']) simp
qed

lemma insert_ends:
  assumes "focus h rt [] t" "t \<noteq> Leaf" "sorted_wrt (key_less h) (inorder t)" "e \<notin> set_tree t"
    "se_lt (h e) = None" "se_gt (h e) = None" "m + 1 = pos + k" "max 1 (rnd m) \<notin> pris h ` set_tree t"
    "k = 0 \<longrightarrow> se_pri (h e) = max 1 (rnd m)" "se_pri (h e) \<noteq> 0" "root = the (ptr t)"
  shows "\<exists>h' pos' c'. insert_loop rnd root e root h pos = Some (h', pos') \<and>
    focus h' rt c' (Node Leaf e Leaf) \<and> plug c' Leaf = t \<and> se_pri (h' e) \<noteq> 0 \<and>
    (\<forall>x. se_tv (h' x) = se_tv (h x)) \<and> (\<forall>x. x \<noteq> e \<longrightarrow> se_pri (h' x) = se_pri (h x)) \<and>
    (\<forall>x. x \<notin> set_tree t \<and> x \<noteq> e \<longrightarrow> h' x = h x) \<and>
    (\<forall>x \<in> set (lefts c'). key_less h' x e) \<and> (\<forall>x \<in> set (rights c'). key_less h' e x)"
  using assms
proof (induction k arbitrary: h pos)
  case (0 h pos)
  have no: "\<not> (\<exists>x \<in> set_tree t. se_pri (h x) = se_pri (h e))" using 0(8,9) by force
  have "\<exists>h' c'. insert_loop rnd root e root h pos = Some (h', pos) \<and> focus h' rt c' (Node Leaf e Leaf) \<and>
      plug c' Leaf = t \<and> same_keys (set (e # inorder t)) h h' \<and>
      (\<forall>x \<in> set (lefts c'). key_less h x e) \<and> (\<forall>x \<in> set (rights c'). key_less h e x)"
    using insert_descend [OF 0(1-3) _ 0(5,6), of rnd root pos] 0(4) no by (auto simp: 0(11))
  then show ?case by (elim exE conjE) (rule insert_found [where h = h and e = e]; (assumption | rule 0(10)))
next
  case (Suc k h pos)
  consider (ready) "\<exists>h' c'. insert_loop rnd root e root h pos = Some (h', pos) \<and> focus h' rt c' (Node Leaf e Leaf) \<and>
      plug c' Leaf = t \<and> same_keys (set (e # inorder t)) h h' \<and>
      (\<forall>x \<in> set (lefts c'). key_less h x e) \<and> (\<forall>x \<in> set (rights c'). key_less h e x)"
    | (again) "insert_loop rnd root e root h pos =
        insert_loop rnd root e root (upd e (se_pri_update (\<lambda>_. max 1 (rnd pos))) h) (Suc pos)"
    using insert_descend [OF Suc(2-4) _ Suc(6,7), of rnd root pos] Suc(5) by (auto simp: Suc(12))
  then show ?case
  proof cases
    case ready
    then show ?thesis by (elim exE conjE) (rule insert_found [where h = h and e = e]; (assumption | rule Suc(11)))
  next
    case again
    define h1 where "h1 = upd e (se_pri_update (\<lambda>_. max 1 (rnd pos))) h"
    have h1: "h1 x = (if x = e then (h e)\<lparr>se_pri := max 1 (rnd pos)\<rparr> else h x)" for x by (simp add: h1_def upd_def)
    have ne: "x \<noteq> e" if "x \<in> set (inorder t)" for x using that Suc(5) by auto
    have "\<exists>h' pos' c'. insert_loop rnd root e root h1 (Suc pos) = Some (h', pos') \<and>
      focus h' rt c' (Node Leaf e Leaf) \<and> plug c' Leaf = t \<and> se_pri (h' e) \<noteq> 0 \<and>
      (\<forall>x. se_tv (h' x) = se_tv (h1 x)) \<and> (\<forall>x. x \<noteq> e \<longrightarrow> se_pri (h' x) = se_pri (h1 x)) \<and>
      (\<forall>x. x \<notin> set_tree t \<and> x \<noteq> e \<longrightarrow> h' x = h1 x) \<and>
      (\<forall>x \<in> set (lefts c'). key_less h' x e) \<and> (\<forall>x \<in> set (rights c'). key_less h' e x)"
    proof (rule Suc.IH)
      show "focus h1 rt [] t" using Suc(2,5) by (simp add: focus_def h1_def upd_def)
      show "sorted_wrt (key_less h1) (inorder t)"
        by (rule sorted_wrt_mono_rel [OF _ Suc(4)]) (use ne in \<open>auto simp: h1 key_less_def\<close>)
      have "pris h1 ` set_tree t = pris h ` set_tree t" using Suc(5) by (auto simp: h1 intro!: image_cong)
      with Suc(9) show "max 1 (rnd m) \<notin> pris h1 ` set_tree t" by simp
      have "max 1 (rnd pos) \<noteq> 0"
        by (metis max.cobounded1 word_zero_le zero_neq_one order_antisym)
      then show "se_pri (h1 e) \<noteq> 0" by (simp add: h1)
    qed (use Suc.prems in \<open>auto simp: h1\<close>)
    then show ?thesis unfolding again h1_def [symmetric] by (fastforce simp: h1)
  qed
qed

lemma balance_spec:
  assumes "focus h (sch_root s) c (Node a e b)" "heap_ctx (pris h) c" "heap_tree (pris h) a" "heap_tree (pris h) b"
    "pri_le (pris h) (above c) (ptr a)" "pri_le (pris h) (above c) (ptr b)"
    "pri_le (pris h) (Some e) (ptr a)" "pri_le (pris h) (Some e) (ptr b)"
  shows "\<exists>h' s' t'. balance_loop e (h, s) = Some (h', s') \<and> focus h' (sch_root s') [] t' \<and>
    inorder t' = lefts c @ inorder a @ e # inorder b @ rights c \<and> heap_tree (pris h') t' \<and>
    earliest_wakeup s' = earliest_wakeup s \<and>
    same_keys (set (lefts c @ inorder a @ e # inorder b @ rights c)) h h'"
  using assms
proof (induction c arbitrary: h s a b rule: lefts.induct)
  case 1
  then show ?case by (subst balance_loop.simps) (auto simp: focus_def intro!: exI [of _ "Node a e b"])
next
  case (2 p r c)
  have par: "se_parent (h e) = Some p" using 2(2) by (simp add: focus_def)
  show ?case
  proof (cases "se_pri (h p) > se_pri (h e)")
    case False
    have "balance_loop e (h, s) = Some (h, s)" using par False by (subst balance_loop.simps) simp
    moreover have "focus h (sch_root s) [] (plug (LeftOf p r # c) (Node a e b))"
      using 2(2) unfolding focus_plug [symmetric] .
    moreover have "heap_tree (pris h) (plug (LeftOf p r # c) (Node a e b))"
      using 2(3-) False unfolding heap_plug by auto
    ultimately show ?thesis by (intro exI [of _ h] exI [of _ s] exI [of _ "plug (LeftOf p r # c) (Node a e b)"]) simp
  next
    case True
    obtain h1 s1 where 1: "schedule_rotate_up (Some e) (h, s) = Some (h1, s1)"
      "focus h1 (sch_root s1) c (Node a e (Node b p r))" "earliest_wakeup s1 = earliest_wakeup s"
      "same_keys (set (inorder (plug c (Node a e (Node b p r))))) h h1"
      using rotate_left_child [OF 2(2)] by blast
    have p: "pris h1 = pris h" by (rule same_keys_pris [OF 1(4)])
    have "\<exists>h' s' t'. balance_loop e (h1, s1) = Some (h', s') \<and> focus h' (sch_root s') [] t' \<and>
      inorder t' = lefts c @ inorder a @ e # inorder (Node b p r) @ rights c \<and> heap_tree (pris h') t' \<and>
      earliest_wakeup s' = earliest_wakeup s1 \<and>
      same_keys (set (lefts c @ inorder a @ e # inorder (Node b p r) @ rights c)) h1 h'"
      by (rule 2(1) [OF 1(2)]; unfold p; use 2(3-) True in \<open>auto simp: pri_le_def split: option.splits\<close>)
    moreover have "balance_loop e (h, s) = balance_loop e (h1, s1)"
      using par True 1(1) by (subst balance_loop.simps) simp
    moreover have "lefts (LeftOf p r # c) @ inorder a @ e # inorder b @ rights (LeftOf p r # c) =
        lefts c @ inorder a @ e # inorder (Node b p r) @ rights c"
      "inorder (plug c (Node a e (Node b p r))) = lefts c @ inorder a @ e # inorder (Node b p r) @ rights c" by simp_all
    ultimately show ?thesis using 1(3,4) same_keys_trans [OF 1(4)] by auto
  qed
next
  case (3 l p c)
  have par: "se_parent (h e) = Some p" using 3(2) by (simp add: focus_def)
  show ?case
  proof (cases "se_pri (h p) > se_pri (h e)")
    case False
    have "balance_loop e (h, s) = Some (h, s)" using par False by (subst balance_loop.simps) simp
    moreover have "focus h (sch_root s) [] (plug (RightOf l p # c) (Node a e b))"
      using 3(2) unfolding focus_plug [symmetric] .
    moreover have "heap_tree (pris h) (plug (RightOf l p # c) (Node a e b))"
      using 3(3-) False unfolding heap_plug by auto
    ultimately show ?thesis by (intro exI [of _ h] exI [of _ s] exI [of _ "plug (RightOf l p # c) (Node a e b)"]) simp
  next
    case True
    obtain h1 s1 where 1: "schedule_rotate_up (Some e) (h, s) = Some (h1, s1)"
      "focus h1 (sch_root s1) c (Node (Node l p a) e b)" "earliest_wakeup s1 = earliest_wakeup s"
      "same_keys (set (inorder (plug c (Node (Node l p a) e b)))) h h1"
      using rotate_right_child [OF 3(2)] by blast
    have p: "pris h1 = pris h" by (rule same_keys_pris [OF 1(4)])
    have "\<exists>h' s' t'. balance_loop e (h1, s1) = Some (h', s') \<and> focus h' (sch_root s') [] t' \<and>
      inorder t' = lefts c @ inorder (Node l p a) @ e # inorder b @ rights c \<and> heap_tree (pris h') t' \<and>
      earliest_wakeup s' = earliest_wakeup s1 \<and>
      same_keys (set (lefts c @ inorder (Node l p a) @ e # inorder b @ rights c)) h1 h'"
      by (rule 3(1) [OF 1(2)]; unfold p; use 3(3-) True in \<open>auto simp: pri_le_def split: option.splits\<close>)
    moreover have "balance_loop e (h, s) = balance_loop e (h1, s1)"
      using par True 1(1) by (subst balance_loop.simps) simp
    moreover have "lefts (RightOf l p # c) @ inorder a @ e # inorder b @ rights (RightOf l p # c) =
        lefts c @ inorder (Node l p a) @ e # inorder b @ rights c"
      "inorder (plug c (Node (Node l p a) e b)) = lefts c @ inorder (Node l p a) @ e # inorder b @ rights c" by simp_all
    ultimately show ?thesis using 1(3,4) same_keys_trans [OF 1(4)] by auto
  qed
qed

subsection \<open>The invariant\<close>

text \<open>
  The entries in the treap are those with a priority; the others have no links. The keys are in
  order, the priorities too, and the cached entry is the first one.
\<close>

definition sched_tree :: "se_heap \<Rightarrow> schedule \<Rightarrow> addr tree \<Rightarrow> bool" where
  "sched_tree h s t \<longleftrightarrow> focus h (sch_root s) [] t \<and> heap_tree (pris h) t \<and> sorted_wrt (key_less h) (inorder t) \<and>
     (\<forall>a. IN_TREE h a \<longleftrightarrow> a \<in> set_tree t) \<and>
     (\<forall>a. a \<notin> set_tree t \<longrightarrow> se_parent (h a) = None \<and> se_lt (h a) = None \<and> se_gt (h a) = None) \<and>
     (earliest_wakeup s = None \<or> t \<noteq> Leaf \<and> earliest_wakeup s = Some (hd (inorder t)))"

lemma sched_root: "sched_tree h s t \<Longrightarrow> sch_root s = ptr t"
  by (simp add: sched_tree_def focus_def)

lemma remove_entry_spec:
  assumes "sched_tree h s t"
  shows "\<exists>h' s' t'. schedule_remove_entry e (h, s) = Some (h', s') \<and> sched_tree h' s' t' \<and>
    set_tree t' = set_tree t - {e} \<and> (\<forall>x. se_tv (h' x) = se_tv (h x))"
proof (cases "e \<in> set_tree t")
  case True
  let ?s = "s\<lparr>earliest_wakeup := None\<rparr>"
  have f: "focus h (sch_root ?s) [] t" "heap_tree (pris h) t" using assms by (simp_all add: sched_tree_def)
  obtain h' s' t' where r: "schedule_remove_node e (h, ?s) = Some (h', s')" "focus h' (sch_root s') [] t'"
    "inorder t' = filter (\<lambda>x. x \<noteq> e) (inorder t)" "heap_tree (pris h') t'" "earliest_wakeup s' = None"
    "se_pri (h' e) = 0" "se_parent (h' e) = None" "se_lt (h' e) = None" "se_gt (h' e) = None"
    "\<And>x. se_tv (h' x) = se_tv (h x)" "\<And>x. x \<noteq> e \<Longrightarrow> se_pri (h' x) = se_pri (h x)" "\<And>x. x \<notin> set_tree t \<Longrightarrow> h' x = h x"
    using remove_node_spec [OF f(1) True f(2)] by auto
  have set: "set_tree t' = set_tree t - {e}" using arg_cong [OF r(3), of set] by auto
  have "sorted_wrt (key_less h') (inorder t')"
  proof (rule sorted_wrt_mono_rel)
    show "sorted_wrt (key_less h) (inorder t')"
      unfolding r(3) using assms by (simp add: sched_tree_def sorted_wrt_filter)
  qed (use set r in \<open>auto simp: key_less_def\<close>)
  then have "sched_tree h' s' t'"
    using r assms set by (auto simp: sched_tree_def IN_TREE_def)
  with r set show ?thesis by (auto simp: schedule_remove_entry_def)
next
  case False
  have e: "se_pri (h e) = 0" "se_parent (h e) = None" "se_lt (h e) = None" "se_gt (h e) = None"
    using assms False by (auto simp: sched_tree_def IN_TREE_def)
  have "sch_root s \<noteq> Some e" using sched_root [OF assms] False by (auto dest: ptr_in)
  moreover have "upd e (se_pri_update (\<lambda>_. 0)) h = h" using e(1) by (auto simp: upd_def fun_eq_iff)
  moreover have "remove_loop e (h, s\<lparr>earliest_wakeup := None\<rparr>) = Some (h, s\<lparr>earliest_wakeup := None\<rparr>)"
    using e by (subst remove_loop.simps) simp
  ultimately have "schedule_remove_entry e (h, s) = Some (h, s\<lparr>earliest_wakeup := None\<rparr>)"
    using e by (simp add: schedule_remove_entry_def schedule_remove_node_def schedule_detach_parent_def)
  moreover have "sched_tree h (s\<lparr>earliest_wakeup := None\<rparr>) t" using assms by (simp add: sched_tree_def)
  ultimately show ?thesis using False by auto
qed

lemma find_least_spec:
  "tree_at h par t \<Longrightarrow> schedule_find_least (ptr t) h = Some (if t = Leaf then None else Some (hd (inorder t)))"
proof (induction t arbitrary: par)
  case (Node l a r)
  then show ?case
    by (cases l) (auto simp: schedule_find_least_def least_loop.simps [of a] hd_append split: if_splits)
qed (simp add: schedule_find_least_def)

lemma get_earliest_spec:
  assumes "sched_tree h s t"
  shows "\<exists>s'. schedule_get_earliest_wakeup (h, s) =
      Some (s', if t = Leaf then None else Some (hd (inorder t), se_tv (h (hd (inorder t))))) \<and> sched_tree h s' t"
proof -
  have "tree_at h None t" using assms by (simp add: sched_tree_def focus_def)
  note least = find_least_spec [OF this]
  show ?thesis
    using assms least
    by (cases "earliest_wakeup s")
      (auto simp: schedule_get_earliest_wakeup_def sched_root [OF assms], auto simp: sched_tree_def)
qed


lemma pris_cong: "(\<And>x. x \<in> set_tree t \<Longrightarrow> se_pri (h' x) = se_pri (h x)) \<Longrightarrow> heap_tree (pris h) t \<Longrightarrow> heap_tree (pris h') t"
  using heap_tree_cong [of t "pris h'" "pris h"] by simp

text \<open>
  Re-insertion of \<open>e\<close>, whose wakeup time may have been changed while it was in the treap: only the
  other entries have to be in order.
\<close>

lemma insert_balance:
  assumes "focus h (sch_root s) [] t" "heap_tree (pris h) t" "sorted_wrt (key_less h) (inorder t)" "e \<notin> set_tree t"
    "\<forall>a. a \<noteq> e \<longrightarrow> IN_TREE h a = (a \<in> set_tree t)" "se_pri (h e) \<noteq> 0"
    "\<forall>a. a \<notin> set_tree t \<longrightarrow> se_parent (h a) = None \<and> se_lt (h a) = None \<and> se_gt (h a) = None"
    "fair_random rnd" "card (set_tree t) < 2 ^ 31 - 1"
  shows "\<exists>h' s' pos' t'. do {
       (h, s, pos) \<leftarrow>
         (case sch_root s of
            Some r \<Rightarrow> map_option (\<lambda>(h, pos). (h, s, pos)) (schedule_insert rnd r e h pos)
          | None \<Rightarrow> Some (h, s\<lparr>sch_root := Some e\<rparr>, pos));
       (h, s) \<leftarrow> balance_loop e (h, s);
       Some (h, s, pos)
     } = Some (h', s', pos') \<and> sched_tree h' (s'\<lparr>earliest_wakeup := None\<rparr>) t' \<and>
    set_tree t' = insert e (set_tree t) \<and> (\<forall>x. se_tv (h' x) = se_tv (h x))"
proof (cases "t = Leaf")
  case True
  then have "sch_root s = None" using assms(1) by (simp add: focus_def)
  moreover have "balance_loop e (h, s\<lparr>sch_root := Some e\<rparr>) = Some (h, s\<lparr>sch_root := Some e\<rparr>)"
    using assms(4,7) by (subst balance_loop.simps) auto
  moreover have "sched_tree h (s\<lparr>sch_root := Some e, earliest_wakeup := None\<rparr>) (Node Leaf e Leaf)"
    using assms True by (auto simp: sched_tree_def focus_def IN_TREE_def)
  ultimately show ?thesis using True by (intro exI [of _ h] exI [of _ "s\<lparr>sch_root := Some e\<rparr>"] exI [of _ pos] exI [of _ "Node Leaf e Leaf"]) simp
next
  case False
  then obtain r where root: "sch_root s = Some r" "ptr t = Some r"
    using assms(1) by (cases t) (auto simp: focus_def)
  obtain m where m: "m \<ge> pos" "max 1 (rnd m) \<notin> pris h ` set_tree t"
    using fresh_priority [OF assms(8) _ assms(9), of pos "pris h"] by auto
  have e: "se_lt (h e) = None" "se_gt (h e) = None" using assms(4,7) by auto
  have k: "m + 1 = pos + (m + 1 - pos)" "m + 1 - pos = 0 \<longrightarrow> se_pri (h e) = max 1 (rnd m)" using m(1) by simp_all
  obtain h1 pos1 c where 1: "insert_loop rnd r e r h pos = Some (h1, pos1)" "focus h1 (sch_root s) c (Node Leaf e Leaf)"
    "plug c Leaf = t" "se_pri (h1 e) \<noteq> 0" "\<And>x. se_tv (h1 x) = se_tv (h x)" "\<And>x. x \<noteq> e \<Longrightarrow> se_pri (h1 x) = se_pri (h x)"
    "\<And>x. x \<notin> set_tree t \<and> x \<noteq> e \<Longrightarrow> h1 x = h x" "\<And>x. x \<in> set (lefts c) \<Longrightarrow> key_less h1 x e"
    "\<And>x. x \<in> set (rights c) \<Longrightarrow> key_less h1 e x"
    using insert_ends [where h = h and rnd = rnd and e = e and m = m and k = "m + 1 - pos" and root = r and t = t,
        OF assms(1) False assms(3,4) e k(1) m(2) k(2) assms(6)] root by auto
  have t: "inorder t = lefts c @ rights c" unfolding 1(3) [symmetric] by simp
  have set_t: "set_tree t = set (lefts c) \<union> set (rights c)" by (simp flip: set_inorder add: t)
  have pr: "se_pri (h1 x) = se_pri (h x)" if "x \<in> set_tree t" for x
    by (rule 1(6)) (use that assms(4) in blast)
  have "heap_tree (pris h1) (plug c Leaf)"
    unfolding 1(3) by (rule pris_cong [OF _ assms(2)]) (rule pr)
  then have "heap_ctx (pris h1) c" by (simp add: heap_plug)
  then obtain h2 s2 t2 where 2: "balance_loop e (h1, s) = Some (h2, s2)" "focus h2 (sch_root s2) [] t2"
    "inorder t2 = lefts c @ e # rights c" "heap_tree (pris h2) t2" "same_keys (set (lefts c @ e # rights c)) h1 h2"
    using balance_spec [OF 1(2)] by auto
  have set_t2: "set_tree t2 = insert e (set_tree t)" unfolding set_t by (simp flip: set_inorder add: 2(3))
  have keys: "key_less h2 = key_less h1" using 2(5) by (simp add: fun_eq_iff key_less_def same_keys_def)
  have "sorted_wrt (key_less h1) (lefts c @ rights c)"
    unfolding t [symmetric] by (rule sorted_wrt_mono_rel [OF _ assms(3)]) (use 1(5) pr in \<open>auto simp: key_less_def\<close>)
  then have "sorted_wrt (key_less h2) (inorder t2)"
    unfolding 2(3) keys using 1(8,9) by (auto simp: sorted_wrt_append)
  moreover have "h2 a = h a" if "a \<notin> set_tree t2" for a
    using that 2(5) 1(7) [of a] set_t set_t2 by (auto simp: same_keys_def)
  moreover have "IN_TREE h2 a \<longleftrightarrow> a \<in> set_tree t2" for a
    using assms(5) 1(4,6) 2(5) set_t2 by (cases "a = e") (auto simp: IN_TREE_def same_keys_def)
  ultimately have "sched_tree h2 (s2\<lparr>earliest_wakeup := None\<rparr>) t2"
    using 2(2,4) assms(7) set_t2 by (simp add: sched_tree_def)
  moreover have "\<forall>x. se_tv (h2 x) = se_tv (h x)" using 1(5) 2(5) by (simp add: same_keys_def)
  ultimately show ?thesis using 1(1) 2(1) root set_t2 by (simp add: schedule_insert_def) blast
qed

lemma add_modify_spec:
  assumes "focus h (sch_root s) [] t" "heap_tree (pris h) t" "sorted_wrt (key_less h) (filter (\<lambda>x. x \<noteq> e) (inorder t))"
    "\<forall>a. IN_TREE h a = (a \<in> set_tree t)"
    "\<forall>a. a \<notin> set_tree t \<longrightarrow> se_parent (h a) = None \<and> se_lt (h a) = None \<and> se_gt (h a) = None"
    "fair_random rnd" "card (set_tree t) < 2 ^ 31 - 1"
  shows "\<exists>h' s' pos' t'. schedule_add_modify rnd e (h, s, pos) = Some (h', s', pos') \<and>
    sched_tree h' (s'\<lparr>earliest_wakeup := None\<rparr>) t' \<and> set_tree t' = insert e (set_tree t) \<and>
    (\<forall>x. se_tv (h' x) = se_tv (h x))"
proof -
  obtain h1 s1 t1 where 1: "(if IN_TREE h e then schedule_remove_node e (h, s) else Some (h, s)) = Some (h1, s1)"
    "focus h1 (sch_root s1) [] t1" "inorder t1 = filter (\<lambda>x. x \<noteq> e) (inorder t)" "heap_tree (pris h1) t1"
    "\<And>x. se_tv (h1 x) = se_tv (h x)" "\<And>x. x \<noteq> e \<Longrightarrow> se_pri (h1 x) = se_pri (h x)"
    "se_parent (h1 e) = None" "se_lt (h1 e) = None" "se_gt (h1 e) = None" "\<And>x. x \<notin> set_tree t \<Longrightarrow> h1 x = h x"
  proof (cases "e \<in> set_tree t")
    case True
    then show ?thesis using remove_node_spec [OF assms(1) True assms(2)] assms(4) that by auto
  next
    case False
    have "inorder t = filter (\<lambda>x. x \<noteq> e) (inorder t)" using False by (intro filter_absent [symmetric]) simp
    then show ?thesis using assms False that [of h s t] by auto
  qed
  define h2 where "h2 = upd e (se_pri_update (\<lambda>_. max 1 (rnd pos))) h1"
  have h2: "h2 x = (if x = e then (h1 e)\<lparr>se_pri := max 1 (rnd pos)\<rparr> else h1 x)" for x by (simp add: h2_def upd_def)
  have set_t1: "set_tree t1 = set_tree t - {e}" using arg_cong [OF 1(3), of set] by auto
  then have e: "e \<notin> set_tree t1" by simp
  have pos: "max 1 (rnd pos) \<noteq> 0"
    by (metis max.cobounded1 word_zero_le zero_neq_one order_antisym)
  have "\<exists>h' s' pos' t'. do {
       (h, s, pos) \<leftarrow>
         (case sch_root s1 of
            Some r \<Rightarrow> map_option (\<lambda>(h, pos). (h, s1, pos)) (schedule_insert rnd r e h2 (Suc pos))
          | None \<Rightarrow> Some (h2, s1\<lparr>sch_root := Some e\<rparr>, Suc pos));
       (h, s) \<leftarrow> balance_loop e (h, s);
       Some (h, s, pos)
     } = Some (h', s', pos') \<and> sched_tree h' (s'\<lparr>earliest_wakeup := None\<rparr>) t' \<and>
    set_tree t' = insert e (set_tree t1) \<and> (\<forall>x. se_tv (h' x) = se_tv (h2 x))"
  proof (rule insert_balance)
    show "focus h2 (sch_root s1) [] t1" using 1(2) e by (simp add: focus_def h2_def upd_def)
    show "heap_tree (pris h2) t1" by (rule pris_cong [OF _ 1(4)]) (use e in \<open>auto simp: h2\<close>)
    show "sorted_wrt (key_less h2) (inorder t1)"
      unfolding 1(3) by (rule sorted_wrt_mono_rel [OF _ assms(3)]) (use 1(5,6) in \<open>auto simp: key_less_def h2\<close>)
    show "card (set_tree t1) < 2 ^ 31 - 1"
      using assms(7) card_mono [of "set_tree t" "set_tree t1"] set_t1 by auto
    show "\<forall>a. a \<noteq> e \<longrightarrow> IN_TREE h2 a = (a \<in> set_tree t1)" using assms(4) 1(6) set_t1 by (auto simp: h2 IN_TREE_def)
    show "\<forall>a. a \<notin> set_tree t1 \<longrightarrow> se_parent (h2 a) = None \<and> se_lt (h2 a) = None \<and> se_gt (h2 a) = None"
      using assms(5) 1(7-10) set_t1 by (auto simp: h2)
  qed (use e assms(6) pos in \<open>simp_all add: h2\<close>)
  moreover have "insert e (set_tree t1) = insert e (set_tree t)" using set_t1 by auto
  moreover have "se_tv (h2 x) = se_tv (h x)" for x using 1(5) by (simp add: h2)
  moreover have "schedule_add_modify rnd e (h, s, pos) = do {
       (h, s, pos) \<leftarrow>
         (case sch_root s1 of
            Some r \<Rightarrow> map_option (\<lambda>(h, pos). (h, s1, pos)) (schedule_insert rnd r e h2 (Suc pos))
          | None \<Rightarrow> Some (h2, s1\<lparr>sch_root := Some e\<rparr>, Suc pos));
       (h, s) \<leftarrow> balance_loop e (h, s);
       Some (h, s, pos)
     }"
    unfolding h2_def by (simp only: schedule_add_modify_def prod.case 1(1) set_pri_simps Let_def) simp
  ultimately show ?thesis by simp
qed

lemma add_entry_spec:
  assumes "sched_tree h s t" "fair_random rnd" "card (set_tree t) < 2 ^ 31 - 1"
  shows "\<exists>h' s' pos' t'. schedule_add_entry rnd e tv sigma (h, s, pos) = Some (h', s', pos') \<and> sched_tree h' s' t' \<and>
    set_tree t' = insert e (set_tree t) \<and> (\<forall>x. x \<noteq> e \<longrightarrow> se_tv (h' x) = se_tv (h x)) \<and>
    se_tv (h' e) = (if e \<in> set_tree t \<and> sigma \<noteq> 0 \<and> tv_within_sigma tv (se_tv (h e)) sigma then se_tv (h e) else tv)"
proof (cases "\<not> IN_TREE h e \<or> sigma = 0 \<or> \<not> tv_within_sigma tv (se_tv (h e)) sigma")
  case False
  then show ?thesis using assms(1) by (auto simp: schedule_add_entry_def sched_tree_def insert_absorb)
next
  case True
  define h1 where "h1 = upd e (se_tv_update (\<lambda>_. tv)) h"
  have h1: "h1 x = (if x = e then (h e)\<lparr>se_tv := tv\<rparr> else h x)" for x by (simp add: h1_def upd_def)
  have in1: "IN_TREE h1 = IN_TREE h" by (simp add: fun_eq_iff IN_TREE_def h1)
  have links: "se_parent (h1 x) = se_parent (h x)" "se_lt (h1 x) = se_lt (h x)" "se_gt (h1 x) = se_gt (h x)"
    "se_pri (h1 x) = se_pri (h x)" for x by (simp_all add: h1)
  have tr: "tree_at h1 par u = tree_at h par u" for par u by (induction u arbitrary: par) (auto simp: links)
  have "\<exists>h' s' pos' t'. schedule_add_modify rnd e (h1, s, pos) = Some (h', s', pos') \<and>
    sched_tree h' (s'\<lparr>earliest_wakeup := None\<rparr>) t' \<and> set_tree t' = insert e (set_tree t) \<and>
    (\<forall>x. se_tv (h' x) = se_tv (h1 x))"
  proof (rule add_modify_spec)
    show "focus h1 (sch_root s) [] t" using assms(1) by (simp add: sched_tree_def focus_def tr)
    show "heap_tree (pris h1) t" using assms(1) by (simp add: sched_tree_def links)
    show "sorted_wrt (key_less h1) (filter (\<lambda>x. x \<noteq> e) (inorder t))"
    proof (rule sorted_wrt_mono_rel)
      show "sorted_wrt (key_less h) (filter (\<lambda>x. x \<noteq> e) (inorder t))"
        using assms(1) by (simp add: sched_tree_def sorted_wrt_filter)
    qed (auto simp: key_less_def h1)
  qed (use assms in \<open>auto simp: sched_tree_def in1 links\<close>)
  then obtain h' s' pos' t' where r: "schedule_add_modify rnd e (h1, s, pos) = Some (h', s', pos')"
    "sched_tree h' (s'\<lparr>earliest_wakeup := None\<rparr>) t'" "set_tree t' = insert e (set_tree t)"
    "\<And>x. se_tv (h' x) = se_tv (h1 x)" by blast
  have "IN_TREE h e = (e \<in> set_tree t)" using assms(1) by (simp add: sched_tree_def)
  moreover have "schedule_add_entry rnd e tv sigma (h, s, pos) = Some (h', s'\<lparr>earliest_wakeup := None\<rparr>, pos')"
    using True r(1) by (simp add: schedule_add_entry_def h1_def)
  ultimately show ?thesis using True r by (auto simp: h1)
qed

end
