(* ===== verification/Wakeup.thy ===== *)
theory Wakeup
  imports Schedule_Ops
begin

text \<open>
  The scheduler as the server uses it (multi.c, multi.h): its contract as an abstract queue of wakeup
  times, the proof that the treap keeps it, and the two operations of the server loop on it, the
  arming of an instance and the computation of the time to sleep.
\<close>

subsection \<open>The server's operations\<close>

definition compute_wakeup_sigma :: "timeval \<Rightarrow> int" where
  "compute_wakeup_sigma delta =
     (if tv_sec delta < 1 then uint (word_of_int (drop_bit 3 (tv_usec delta)) :: u32)
      else if tv_sec delta < 600 then uint (word_of_int (push_bit 17 (tv_sec delta)) :: u32)
      else 120000000)"

text \<open>\<open>tod\<close> is what \<open>gettimeofday\<close> returns and \<open>tmo\<close> the instance's \<open>c2.timeval\<close>; \<open>None\<close> is a failed \<open>ASSERT\<close>.\<close>

definition multi_schedule_context_wakeup ::
  "(nat \<Rightarrow> u32) \<Rightarrow> timeval option \<Rightarrow> addr \<Rightarrow> timeval \<Rightarrow> clock \<Rightarrow> se_heap \<times> schedule \<times> nat \<Rightarrow>
   (clock \<times> timeval \<times> se_heap \<times> schedule \<times> nat) option" where
  "multi_schedule_context_wakeup rnd tod mi tmo c st =
     (case openvpn_gettimeofday c tod of
        (c, None) \<Rightarrow> None
      | (c, Some current) \<Rightarrow>
          (let wakeup = tv_add current tmo
           in map_option (\<lambda>st. (c, wakeup, st)) (schedule_add_entry rnd mi wakeup (compute_wakeup_sigma tmo) st)))"

definition REAP_MAX_WAKEUP :: int where "REAP_MAX_WAKEUP = 10"

text \<open>The result: the clock, the scheduler, \<open>m->earliest_wakeup\<close> and \<open>*dest\<close>.\<close>

definition multi_get_timeout ::
  "timeval option \<Rightarrow> clock \<Rightarrow> se_heap \<times> schedule \<Rightarrow> (clock \<times> schedule \<times> addr option \<times> timeval) option" where
  "multi_get_timeout tod c = (\<lambda>(h, s). do {
     (s, e) \<leftarrow> schedule_get_earliest_wakeup (h, s);
     (case e of
        Some (mi, tv) \<Rightarrow>
          (case openvpn_gettimeofday c tod of
             (c, None) \<Rightarrow> None
           | (c, Some current) \<Rightarrow>
               (let dest = tv_delta current tv in
                if tv_sec dest \<ge> REAP_MAX_WAKEUP
                then Some (c, s, None, \<lparr>tv_sec = REAP_MAX_WAKEUP, tv_usec = 0\<rparr>)
                else Some (c, s, Some mi, dest)))
      | None \<Rightarrow> Some (c, s, None, \<lparr>tv_sec = REAP_MAX_WAKEUP, tv_usec = 0\<rparr>))
   })"

subsection \<open>The contract of the scheduler\<close>

datatype wakeup_op = Arm addr timeval int | Disarm addr | Earliest

fun queue_run ::
  "(addr \<Rightarrow> timeval \<Rightarrow> int \<Rightarrow> 's \<Rightarrow> 's option) \<Rightarrow> (addr \<Rightarrow> 's \<Rightarrow> 's option) \<Rightarrow>
   ('s \<Rightarrow> ('s \<times> (addr \<times> timeval) option) option) \<Rightarrow> 's \<Rightarrow> wakeup_op list \<Rightarrow>
   ('s \<times> (addr \<times> timeval) option list) option" where
  "queue_run arm disarm earliest s [] = Some (s, [])"
| "queue_run arm disarm earliest s (Arm e tv sigma # ops) =
     Option.bind (arm e tv sigma s) (\<lambda>s. queue_run arm disarm earliest s ops)"
| "queue_run arm disarm earliest s (Disarm e # ops) =
     Option.bind (disarm e s) (\<lambda>s. queue_run arm disarm earliest s ops)"
| "queue_run arm disarm earliest s (Earliest # ops) = do {
     (s, x) \<leftarrow> earliest s;
     (s, xs) \<leftarrow> queue_run arm disarm earliest s ops;
     Some (s, x # xs)
   }"

text \<open>
  The queue is a map from entries to times. Arming an entry sets its time, unless the entry is there
  with a time that differs by at most \<open>sigma\<close>; the earliest entry has the least time.
\<close>

definition arm_spec :: "addr \<Rightarrow> timeval \<Rightarrow> int \<Rightarrow> (addr \<rightharpoonup> timeval) \<Rightarrow> addr \<rightharpoonup> timeval" where
  "arm_spec e tv sigma m =
     (case m e of
        Some t \<Rightarrow> if sigma \<noteq> 0 \<and> tv_within_sigma tv t sigma then m else m(e \<mapsto> tv)
      | None \<Rightarrow> m(e \<mapsto> tv))"

definition least_entry :: "(addr \<rightharpoonup> timeval) \<Rightarrow> (addr \<times> timeval) option \<Rightarrow> bool" where
  "least_entry m x \<longleftrightarrow>
     (case x of None \<Rightarrow> m = Map.empty | Some (e, t) \<Rightarrow> m e = Some t \<and> (\<forall>t' \<in> ran m. t \<le> t'))"

fun queue_spec :: "(addr \<rightharpoonup> timeval) \<Rightarrow> wakeup_op list \<Rightarrow> (addr \<times> timeval) option list \<Rightarrow> bool" where
  "queue_spec m [] xs \<longleftrightarrow> xs = []"
| "queue_spec m (Arm e tv sigma # ops) xs \<longleftrightarrow> queue_spec (arm_spec e tv sigma m) ops xs"
| "queue_spec m (Disarm e # ops) xs \<longleftrightarrow> queue_spec (m(e := None)) ops xs"
| "queue_spec m (Earliest # ops) xs \<longleftrightarrow>
     (case xs of [] \<Rightarrow> False | x # xs \<Rightarrow> least_entry m x \<and> queue_spec m ops xs)"

lemma dom_arm_spec: "dom (arm_spec e tv sigma m) = insert e (dom m)"
  by (auto simp: arm_spec_def split: option.splits if_splits)

locale wakeup_queue =
  fixes inv :: "'s \<Rightarrow> bool"
    and entries :: "'s \<Rightarrow> (addr \<rightharpoonup> timeval)"
    and capacity :: nat
    and arm :: "addr \<Rightarrow> timeval \<Rightarrow> int \<Rightarrow> 's \<Rightarrow> 's option"
    and disarm :: "addr \<Rightarrow> 's \<Rightarrow> 's option"
    and earliest :: "'s \<Rightarrow> ('s \<times> (addr \<times> timeval) option) option"
  assumes finite_entries: "inv s \<Longrightarrow> finite (dom (entries s))"
    and arm_law: "inv s \<Longrightarrow> card (dom (entries s)) < capacity \<Longrightarrow>
        \<exists>s'. arm e tv sigma s = Some s' \<and> inv s' \<and> entries s' = arm_spec e tv sigma (entries s)"
    and disarm_law: "inv s \<Longrightarrow> \<exists>s'. disarm e s = Some s' \<and> inv s' \<and> entries s' = (entries s)(e := None)"
    and earliest_law: "inv s \<Longrightarrow>
        \<exists>s' x. earliest s = Some (s', x) \<and> inv s' \<and> entries s' = entries s \<and> least_entry (entries s) x"
begin

lemma run_meets_spec:
  "inv s \<Longrightarrow> card (dom (entries s)) + length ops \<le> capacity \<Longrightarrow>
   \<exists>s' xs. queue_run arm disarm earliest s ops = Some (s', xs) \<and> inv s' \<and> queue_spec (entries s) ops xs"
proof (induction ops arbitrary: s)
  case (Cons op ops)
  have fin: "finite (dom (entries s))" by (rule finite_entries [OF Cons.prems(1)])
  show ?case
  proof (cases op)
    case (Arm e tv sigma)
    obtain s1 where 1: "arm e tv sigma s = Some s1" "inv s1" "entries s1 = arm_spec e tv sigma (entries s)"
      using arm_law [OF Cons.prems(1)] Cons.prems(2) by fastforce
    have "card (dom (entries s1)) \<le> Suc (card (dom (entries s)))"
      using fin by (simp add: 1(3) dom_arm_spec card_insert_if)
    then show ?thesis using Cons.IH [OF 1(2)] Cons.prems(2) 1 by (simp add: Arm)
  next
    case (Disarm e)
    obtain s1 where 1: "disarm e s = Some s1" "inv s1" "entries s1 = (entries s)(e := None)"
      using disarm_law [OF Cons.prems(1)] by blast
    have "card (dom (entries s1)) \<le> card (dom (entries s))"
      using fin by (auto simp: 1(3) intro!: card_mono)
    then have "card (dom (entries s1)) + length ops \<le> capacity" using Cons.prems(2) by simp
    from Cons.IH [OF 1(2) this] show ?thesis using 1(1) by (simp add: Disarm flip: 1(3))
  next
    case Earliest
    obtain s1 x where 1: "earliest s = Some (s1, x)" "inv s1" "entries s1 = entries s" "least_entry (entries s) x"
      using earliest_law [OF Cons.prems(1)] by blast
    obtain s2 xs where 2: "queue_run arm disarm earliest s1 ops = Some (s2, xs)" "inv s2" "queue_spec (entries s) ops xs"
      using Cons.IH [OF 1(2)] Cons.prems(2) 1(3) by auto
    show ?thesis using 1 2 by (intro exI [of _ s2] exI [of _ "x # xs"]) (simp add: Earliest)
  qed
qed simp

end

subsection \<open>The treap keeps the contract\<close>

text \<open>The source of random numbers is part of the state.\<close>

type_synonym sched_state = "(nat \<Rightarrow> u32) \<times> se_heap \<times> schedule \<times> nat"

definition sched_inv :: "sched_state \<Rightarrow> bool" where
  "sched_inv = (\<lambda>(rnd, h, s, pos). fair_random rnd \<and> (\<exists>t. sched_tree h s t))"

definition sched_entries :: "sched_state \<Rightarrow> addr \<rightharpoonup> timeval" where
  "sched_entries = (\<lambda>(rnd, h, s, pos) a. if IN_TREE h a then Some (se_tv (h a)) else None)"

definition sched_arm :: "addr \<Rightarrow> timeval \<Rightarrow> int \<Rightarrow> sched_state \<Rightarrow> sched_state option" where
  "sched_arm e tv sigma = (\<lambda>(rnd, st). map_option (Pair rnd) (schedule_add_entry rnd e tv sigma st))"

definition sched_disarm :: "addr \<Rightarrow> sched_state \<Rightarrow> sched_state option" where
  "sched_disarm e = (\<lambda>(rnd, h, s, pos). map_option (\<lambda>(h, s). (rnd, h, s, pos)) (schedule_remove_entry e (h, s)))"

definition sched_earliest :: "sched_state \<Rightarrow> (sched_state \<times> (addr \<times> timeval) option) option" where
  "sched_earliest = (\<lambda>(rnd, h, s, pos).
     map_option (\<lambda>(s, x). ((rnd, h, s, pos), x)) (schedule_get_earliest_wakeup (h, s)))"

lemma tree_entries: "sched_tree h s t \<Longrightarrow> sched_entries (rnd, h, s, pos) = (\<lambda>a. if a \<in> set_tree t then Some (se_tv (h a)) else None)"
  by (simp add: sched_entries_def sched_tree_def)

lemma tree_dom: "sched_tree h s t \<Longrightarrow> dom (sched_entries (rnd, h, s, pos)) = set_tree t"
  by (auto simp: tree_entries split: if_splits)

lemma hd_is_least:
  assumes "sched_tree h s t" "t \<noteq> Leaf" "a \<in> set_tree t"
  shows "se_tv (h (hd (inorder t))) \<le> se_tv (h a)"
proof -
  obtain x xs where x: "inorder t = x # xs" using assms(2) by (cases "inorder t") auto
  then have "\<forall>y \<in> set xs. key_less h x y" using assms(1) by (simp add: sched_tree_def)
  moreover have "a \<in> set (x # xs)" using assms(3) unfolding x [symmetric] by simp
  ultimately show ?thesis by (auto simp: x key_less_def)
qed

interpretation treap: wakeup_queue sched_inv sched_entries "2 ^ 31 - 1" sched_arm sched_disarm sched_earliest
proof unfold_locales
  fix st e tv sigma
  assume st: "sched_inv st"
  obtain rnd h s pos where st_eq: "st = (rnd, h, s, pos)" by (metis prod_cases4)
  obtain t where t: "fair_random rnd" "sched_tree h s t" using st by (auto simp: st_eq sched_inv_def)
  note dom = tree_dom [OF t(2), of rnd pos] and tr = tree_entries [OF t(2), of rnd pos]
  show "finite (dom (sched_entries st))" by (simp add: st_eq dom)
  show "\<exists>st'. sched_arm e tv sigma st = Some st' \<and> sched_inv st' \<and> sched_entries st' = arm_spec e tv sigma (sched_entries st)"
    if c: "card (dom (sched_entries st)) < 2 ^ 31 - 1"
  proof -
    obtain h' s' pos' t' where a: "schedule_add_entry rnd e tv sigma (h, s, pos) = Some (h', s', pos')" "sched_tree h' s' t'"
      "set_tree t' = insert e (set_tree t)" "\<And>x. x \<noteq> e \<Longrightarrow> se_tv (h' x) = se_tv (h x)"
      "se_tv (h' e) = (if e \<in> set_tree t \<and> sigma \<noteq> 0 \<and> tv_within_sigma tv (se_tv (h e)) sigma then se_tv (h e) else tv)"
      using add_entry_spec [OF t(2,1)] c unfolding st_eq dom by blast
    have "sched_entries (rnd, h', s', pos') = arm_spec e tv sigma (sched_entries st)"
      unfolding st_eq tr tree_entries [OF a(2)] by (auto simp: arm_spec_def a(3-5) fun_eq_iff)
    then show ?thesis using a(1,2) t(1) by (auto simp: st_eq sched_arm_def sched_inv_def)
  qed
  show "\<exists>st'. sched_disarm e st = Some st' \<and> sched_inv st' \<and> sched_entries st' = (sched_entries st)(e := None)"
  proof -
    obtain h' s' t' where a: "schedule_remove_entry e (h, s) = Some (h', s')" "sched_tree h' s' t'"
      "set_tree t' = set_tree t - {e}" "\<And>x. se_tv (h' x) = se_tv (h x)"
      using remove_entry_spec [OF t(2)] by blast
    have "sched_entries (rnd, h', s', pos) = (sched_entries st)(e := None)"
      unfolding st_eq tr tree_entries [OF a(2)] by (auto simp: a(3,4) fun_eq_iff)
    then show ?thesis using a(1,2) t(1) by (auto simp: st_eq sched_disarm_def sched_inv_def)
  qed
  show "\<exists>st' x. sched_earliest st = Some (st', x) \<and> sched_inv st' \<and> sched_entries st' = sched_entries st \<and>
      least_entry (sched_entries st) x"
  proof -
    obtain s' where a: "schedule_get_earliest_wakeup (h, s) =
        Some (s', if t = Leaf then None else Some (hd (inorder t), se_tv (h (hd (inorder t)))))" "sched_tree h s' t"
      using get_earliest_spec [OF t(2)] by blast
    have "least_entry (sched_entries st) (if t = Leaf then None else Some (hd (inorder t), se_tv (h (hd (inorder t)))))"
    proof (cases "t = Leaf")
      case False
      then have "hd (inorder t) \<in> set_tree t" by (metis hd_in_set inorder.elims list.discI append_is_Nil_conv set_inorder)
      then show ?thesis
        using False hd_is_least [OF t(2) False] by (auto simp: st_eq tr least_entry_def ran_def split: if_splits)
    qed (simp add: st_eq tr least_entry_def)
    then show ?thesis using a t(1)
      by (auto simp: st_eq sched_earliest_def sched_inv_def tree_entries [OF a(2)] tr)
  qed
qed


subsection \<open>Properties\<close>

text \<open>A cleared entry, and the random source of the examples.\<close>

definition se_clear :: schedule_entry where
  "se_clear = \<lparr>se_tv = tv_clear, se_pri = 0, se_parent = None, se_lt = None, se_gt = None\<rparr>"

lemma empty_inv: "fair_random rnd \<Longrightarrow> sched_inv (rnd, \<lambda>_. se_clear, schedule_init, pos)"
  by (auto simp: sched_inv_def sched_tree_def focus_def schedule_init_def IN_TREE_def se_clear_def intro!: exI [of _ Leaf])

lemma empty_entries: "sched_entries (rnd, \<lambda>_. se_clear, schedule_init, pos) = Map.empty"
  by (simp add: sched_entries_def IN_TREE_def se_clear_def fun_eq_iff)

lemma fair_counter: "fair_random of_nat"
  unfolding fair_random_def
proof (intro allI impI)
  fix v :: u32 and n
  have "n \<le> unat (v - of_nat n) + n" by simp
  moreover have "of_nat (unat (v - of_nat n) + n) = v" by simp
  ultimately show "\<exists>m \<ge> n. of_nat m = v" by blast
qed

text \<open>
  C33. The scheduler serves wakeups in order. Starting from an empty schedule, any sequence of fewer
  than 2^31 arming, disarming and earliest-wakeup calls ends without a failed assertion, and each
  answer of \<open>schedule_get_earliest_wakeup\<close> is an armed entry with its time, and no armed entry has an
  earlier one; the queue of the specification is a plain map from entries to times.
\<close>

theorem schedule_serves_earliest:
  assumes "fair_random rnd" "length ops \<le> 2 ^ 31 - 1"
  shows "\<exists>st xs. queue_run sched_arm sched_disarm sched_earliest (rnd, \<lambda>_. se_clear, schedule_init, pos) ops = Some (st, xs) \<and>
    queue_spec Map.empty ops xs"
  using treap.run_meets_spec [OF empty_inv [OF assms(1)], of pos ops] assms(2) by (auto simp: empty_entries)

lemma schedule_serves_earliest_witness:
  "\<exists>st. queue_run sched_arm sched_disarm sched_earliest (of_nat, \<lambda>_. se_clear, schedule_init, 0)
      [Arm 1 \<lparr>tv_sec = 9, tv_usec = 0\<rparr> 0, Arm 2 \<lparr>tv_sec = 4, tv_usec = 7\<rparr> 0, Earliest, Disarm 2, Earliest] =
      Some (st, [Some (2, \<lparr>tv_sec = 4, tv_usec = 7\<rparr>), Some (1, \<lparr>tv_sec = 9, tv_usec = 0\<rparr>)]) \<and>
    queue_spec Map.empty
      [Arm 1 \<lparr>tv_sec = 9, tv_usec = 0\<rparr> 0, Arm 2 \<lparr>tv_sec = 4, tv_usec = 7\<rparr> 0, Earliest, Disarm 2, Earliest]
      [Some (2, \<lparr>tv_sec = 4, tv_usec = 7\<rparr>), Some (1, \<lparr>tv_sec = 9, tv_usec = 0\<rparr>)]"
proof -
  define ops where "ops = [Arm 1 \<lparr>tv_sec = 9, tv_usec = 0\<rparr> 0, Arm 2 \<lparr>tv_sec = 4, tv_usec = 7\<rparr> 0, Earliest, Disarm 2, Earliest]"
  have "map_option snd (queue_run sched_arm sched_disarm sched_earliest (of_nat, \<lambda>_. se_clear, schedule_init, 0) ops) =
      Some [Some (2, \<lparr>tv_sec = 4, tv_usec = 7\<rparr>), Some (1, \<lparr>tv_sec = 9, tv_usec = 0\<rparr>)]"
    unfolding ops_def by code_simp
  moreover have "length ops \<le> 2 ^ 31 - 1" by (simp add: ops_def)
  ultimately show ?thesis
    using schedule_serves_earliest [OF fair_counter, of ops 0] unfolding ops_def [symmetric] by auto
qed

text \<open>
  C34. Arming an entry terminates. The search of \<open>schedule_insert\<close> starts over with a new random priority
  each time it meets a node with the same time and priority; when the source of random numbers is fair
  and fewer than 2^31 - 1 entries are armed, \<open>schedule_add_entry\<close> returns, the treap is ordered again by
  time and by priority, and it holds the entry and those it held. The time of the entry is the new one unless
  the old one was within \<open>sigma\<close> of it.
\<close>

theorem schedule_add_ends:
  assumes "sched_tree h s t" "fair_random rnd" "card (set_tree t) < 2 ^ 31 - 1"
  shows "\<exists>h' s' pos' t'. schedule_add_entry rnd e tv sigma (h, s, pos) = Some (h', s', pos') \<and> sched_tree h' s' t' \<and>
    set_tree t' = insert e (set_tree t) \<and>
    se_tv (h' e) = (if e \<in> set_tree t \<and> sigma \<noteq> 0 \<and> tv_within_sigma tv (se_tv (h e)) sigma then se_tv (h e) else tv)"
  using add_entry_spec [OF assms] by blast


lemma schedule_add_ends_witness:
  "\<exists>h' s' pos' t'. schedule_add_entry of_nat 3 tv_clear 5 (\<lambda>_. se_clear, schedule_init, 0) = Some (h', s', pos') \<and>
    sched_tree h' s' t' \<and> set_tree t' = {3} \<and> se_tv (h' 3) = tv_clear"
proof -
  have "sched_tree (\<lambda>_. se_clear) schedule_init Leaf"
    by (simp add: sched_tree_def focus_def schedule_init_def IN_TREE_def se_clear_def)
  from schedule_add_ends [OF this fair_counter, of 3 tv_clear 5 0] show ?thesis by simp
qed

lemma tv_delta_usecs:
  assumes "tv_normal s" "tv_normal t" "- (2 ^ 31) < tv_sec t - tv_sec s" "tv_sec t - tv_sec s < 2 ^ 31"
  shows "usecs (tv_delta s t) = max 0 (usecs t - usecs s)" "tv_normal (tv_delta s t)"
proof -
  have "as_int (tv_sec t - tv_sec s) = tv_sec t - tv_sec s" "as_int (tv_usec t - tv_usec s) = tv_usec t - tv_usec s"
    using assms by (simp_all add: tv_normal_def)
  moreover have "tv_borrow x u = (if u < 0 then (x - 1, u + 1000000) else (x, u))" if "u > -1000000" for x u
    using that tv_borrow.simps [of x u] tv_borrow.simps [of "x - 1" "u + 1000000"] by simp
  ultimately show "usecs (tv_delta s t) = max 0 (usecs t - usecs s)" "tv_normal (tv_delta s t)"
    using assms by (auto simp: tv_delta_def usecs_def tv_normal_def)
qed

text \<open>
  C35. The server does not sleep past a wakeup. When the schedule is well formed and the times of its
  entries are within 2^31 seconds of the clock, \<open>multi_get_timeout\<close> succeeds with a timeout of at most
  \<open>REAP_MAX_WAKEUP\<close> seconds; waiting that long does not go beyond the time of any armed instance that is
  not due yet; and the instance it names is one with the least time, to whose time the wait leads
  exactly, or which is due already.
\<close>

theorem server_never_oversleeps:
  assumes "sched_tree h s t" "openvpn_gettimeofday c tod = (c', Some current)" "tv_normal current"
    "\<forall>a \<in> set_tree t. tv_normal (se_tv (h a)) \<and> \<bar>tv_sec (se_tv (h a)) - tv_sec current\<bar> < 2 ^ 31"
  shows "\<exists>c'' s' mi dest. multi_get_timeout tod c (h, s) = Some (c'', s', mi, dest) \<and> sched_tree h s' t \<and>
    usecs dest \<le> 10 * 1000000 \<and>
    (\<forall>a \<in> set_tree t. usecs current + usecs dest \<le> max (usecs current) (usecs (se_tv (h a)))) \<and>
    (\<forall>a. mi = Some a \<longrightarrow> a \<in> set_tree t \<and> (\<forall>b \<in> set_tree t. se_tv (h a) \<le> se_tv (h b)) \<and>
      usecs current + usecs dest = max (usecs current) (usecs (se_tv (h a))))"
proof -
  obtain s' where g: "schedule_get_earliest_wakeup (h, s) =
      Some (s', if t = Leaf then None else Some (hd (inorder t), se_tv (h (hd (inorder t)))))" "sched_tree h s' t"
    using get_earliest_spec [OF assms(1)] by blast
  show ?thesis
  proof (cases "t = Leaf")
    case True
    then show ?thesis using g by (simp add: multi_get_timeout_def REAP_MAX_WAKEUP_def usecs_def)
  next
    case False
    define e where "e = hd (inorder t)"
    define d where "d = tv_delta current (se_tv (h e))"
    have "inorder t \<noteq> []" using False by (cases t) auto
    then have e: "e \<in> set_tree t" using hd_in_set [of "inorder t"] by (simp add: e_def)
    have least: "se_tv (h e) \<le> se_tv (h b)" if "b \<in> set_tree t" for b
      using hd_is_least [OF assms(1) False that] by (simp add: e_def)
    have least_us: "usecs (se_tv (h e)) \<le> usecs (se_tv (h b))" if "b \<in> set_tree t" for b
      using least [OF that] usecs_less [of "se_tv (h b)" "se_tv (h e)"] assms(4) e that by (simp add: not_less [symmetric])
    have d: "usecs d = max 0 (usecs (se_tv (h e)) - usecs current)" "tv_normal d"
      using tv_delta_usecs [of current "se_tv (h e)"] assms(3,4) e by (auto simp: d_def)
    have run: "multi_get_timeout tod c (h, s) =
        (if tv_sec d \<ge> 10 then Some (c', s', None, \<lparr>tv_sec = 10, tv_usec = 0\<rparr>) else Some (c', s', Some e, d))"
      using g(1) False assms(2) by (simp add: multi_get_timeout_def REAP_MAX_WAKEUP_def d_def e_def Let_def)
    have "usecs d \<ge> 10 * 1000000 \<longleftrightarrow> tv_sec d \<ge> 10" using d(2) by (auto simp: usecs_def tv_normal_def)
    then show ?thesis
      using run d(1) g(2) e least least_us by (cases "tv_sec d \<ge> 10") (fastforce simp: usecs_def [of "\<lparr>tv_sec = 10, tv_usec = 0\<rparr>"])+
  qed
qed


definition se_one :: se_heap where
  "se_one = (\<lambda>_. se_clear)(1 := se_clear\<lparr>se_tv := \<lparr>tv_sec = 104, tv_usec = 2\<rparr>, se_pri := 7\<rparr>)"

lemma server_never_oversleeps_witness:
  "\<exists>c'' s'. multi_get_timeout (Some \<lparr>tv_sec = 100, tv_usec = 5\<rparr>) \<lparr>now = 99, now_adj = 0, now_usec = 0\<rparr>
      (se_one, \<lparr>earliest_wakeup = None, sch_root = Some 1\<rparr>) = Some (c'', s', Some 1, \<lparr>tv_sec = 3, tv_usec = 999997\<rparr>) \<and>
    usecs \<lparr>tv_sec = 3, tv_usec = 999997\<rparr> \<le> 10000000 \<and> sched_tree se_one s' (Node Leaf 1 Leaf)"
proof -
  let ?c = "\<lparr>now = 99, now_adj = 0, now_usec = 0\<rparr>"
  let ?s = "\<lparr>earliest_wakeup = None, sch_root = Some 1\<rparr>"
  have s: "sched_tree se_one ?s (Node Leaf 1 Leaf)"
    by (auto simp: sched_tree_def focus_def IN_TREE_def se_one_def se_clear_def)
  have g: "openvpn_gettimeofday ?c (Some \<lparr>tv_sec = 100, tv_usec = 5\<rparr>) =
      (\<lparr>now = 100, now_adj = 0, now_usec = 5\<rparr>, Some \<lparr>tv_sec = 100, tv_usec = 5\<rparr>)" by code_simp
  have "map_option (\<lambda>(_, _, mi, dest). (mi, dest)) (multi_get_timeout (Some \<lparr>tv_sec = 100, tv_usec = 5\<rparr>) ?c (se_one, ?s)) =
      Some (Some 1, \<lparr>tv_sec = 3, tv_usec = 999997\<rparr>)" by code_simp
  moreover have "tv_normal \<lparr>tv_sec = 100, tv_usec = 5\<rparr>" "\<forall>a \<in> set_tree (Node Leaf 1 Leaf). tv_normal (se_tv (se_one a)) \<and> \<bar>tv_sec (se_tv (se_one a)) - tv_sec \<lparr>tv_sec = 100, tv_usec = 5\<rparr>\<bar> < 2 ^ 31"
    by (simp_all add: se_one_def tv_normal_def)
  moreover obtain c'' s' mi dest where "multi_get_timeout (Some \<lparr>tv_sec = 100, tv_usec = 5\<rparr>) ?c (se_one, ?s) = Some (c'', s', mi, dest)"
      "sched_tree se_one s' (Node Leaf 1 Leaf)" "usecs dest \<le> 10 * 1000000"
    using server_never_oversleeps [OF s g calculation(2,3)] by (elim exE conjE) (rule that)
  ultimately show ?thesis by auto
qed

end
