(* ===== verification/Mtu.thy ===== *)
theory Mtu
  imports Buffer Integer_Util "HOL-Library.Signed_Division"
begin

text \<open>
  mtu.h and mtu.c: \<open>struct frame\<close>, the packet geometry every stage of the data channel adds its
  overhead to, and the sizes derived from it. The sizes are \<open>int\<close>s far from the limits of the type.
\<close>

record frame =
  link_mtu :: int
  link_mtu_dynamic :: int
  extra_frame :: int
  extra_buffer :: int
  extra_tun :: int
  extra_link :: int
  align_flags :: u32
  align_adjust :: int

definition TUN_MTU_MIN :: int where "TUN_MTU_MIN = 100"
definition PAYLOAD_ALIGN :: int where "PAYLOAD_ALIGN = 4"
definition FRAME_HEADROOM_MARKER_DECRYPT :: u32 where "FRAME_HEADROOM_MARKER_DECRYPT = push_bit 0 1"
definition FRAME_HEADROOM_MARKER_FRAGMENT :: u32 where "FRAME_HEADROOM_MARKER_FRAGMENT = push_bit 1 1"
definition FRAME_HEADROOM_MARKER_READ_LINK :: u32 where "FRAME_HEADROOM_MARKER_READ_LINK = push_bit 2 1"
definition FRAME_HEADROOM_MARKER_READ_STREAM :: u32 where "FRAME_HEADROOM_MARKER_READ_STREAM = push_bit 3 1"
definition SET_MTU_TUN :: u32 where "SET_MTU_TUN = push_bit 0 1"
definition SET_MTU_UPPER_BOUND :: u32 where "SET_MTU_UPPER_BOUND = push_bit 1 1"

definition TUN_LINK_DELTA :: "frame \<Rightarrow> int" where "TUN_LINK_DELTA f = extra_frame f + extra_tun f"
definition TUN_MTU_SIZE :: "frame \<Rightarrow> int" where "TUN_MTU_SIZE f = link_mtu f - TUN_LINK_DELTA f"
definition TUN_MTU_SIZE_DYNAMIC :: "frame \<Rightarrow> int" where
  "TUN_MTU_SIZE_DYNAMIC f = link_mtu_dynamic f - TUN_LINK_DELTA f"
definition PAYLOAD_SIZE :: "frame \<Rightarrow> int" where "PAYLOAD_SIZE f = link_mtu f - extra_frame f"
definition PAYLOAD_SIZE_DYNAMIC :: "frame \<Rightarrow> int" where
  "PAYLOAD_SIZE_DYNAMIC f = link_mtu_dynamic f - extra_frame f"
definition EXPANDED_SIZE :: "frame \<Rightarrow> int" where "EXPANDED_SIZE f = link_mtu f"
definition EXPANDED_SIZE_DYNAMIC :: "frame \<Rightarrow> int" where "EXPANDED_SIZE_DYNAMIC f = link_mtu_dynamic f"
definition EXPANDED_SIZE_MIN :: "frame \<Rightarrow> int" where "EXPANDED_SIZE_MIN f = TUN_MTU_MIN + TUN_LINK_DELTA f"
definition MAX_RW_SIZE_TUN :: "frame \<Rightarrow> int" where "MAX_RW_SIZE_TUN f = PAYLOAD_SIZE f"
definition MAX_RW_SIZE_LINK :: "frame \<Rightarrow> int" where "MAX_RW_SIZE_LINK f = EXPANDED_SIZE f + extra_link f"
definition FRAME_HEADROOM_BASE :: "frame \<Rightarrow> int" where
  "FRAME_HEADROOM_BASE f = TUN_LINK_DELTA f + extra_buffer f + extra_link f"
definition BUF_SIZE :: "frame \<Rightarrow> int" where "BUF_SIZE f = TUN_MTU_SIZE f + FRAME_HEADROOM_BASE f * 2"

definition frame_headroom :: "frame \<Rightarrow> u32 \<Rightarrow> int" where
  "frame_headroom f flag_mask =
     (let offset = FRAME_HEADROOM_BASE f;
          adjust = (if flag_mask AND align_flags f \<noteq> 0 then align_adjust f else 0);
          delta = (push_bit 24 PAYLOAD_ALIGN - (offset + adjust)) AND (PAYLOAD_ALIGN - 1)
      in offset + delta)"

definition FRAME_HEADROOM :: "frame \<Rightarrow> int" where "FRAME_HEADROOM f = frame_headroom f 0"
definition FRAME_HEADROOM_ADJ :: "frame \<Rightarrow> u32 \<Rightarrow> int" where "FRAME_HEADROOM_ADJ f fm = frame_headroom f fm"

definition frame_add_to_link_mtu :: "frame \<Rightarrow> int \<Rightarrow> frame" where
  "frame_add_to_link_mtu f increment = f\<lparr>link_mtu := link_mtu f + increment\<rparr>"
definition frame_add_to_extra_frame :: "frame \<Rightarrow> int \<Rightarrow> frame" where
  "frame_add_to_extra_frame f increment = f\<lparr>extra_frame := extra_frame f + increment\<rparr>"
definition frame_add_to_extra_tun :: "frame \<Rightarrow> int \<Rightarrow> frame" where
  "frame_add_to_extra_tun f increment = f\<lparr>extra_tun := extra_tun f + increment\<rparr>"
definition frame_add_to_extra_link :: "frame \<Rightarrow> int \<Rightarrow> frame" where
  "frame_add_to_extra_link f increment = f\<lparr>extra_link := extra_link f + increment\<rparr>"
definition frame_add_to_extra_buffer :: "frame \<Rightarrow> int \<Rightarrow> frame" where
  "frame_add_to_extra_buffer f increment = f\<lparr>extra_buffer := extra_buffer f + increment\<rparr>"
definition frame_add_to_align_adjust :: "frame \<Rightarrow> int \<Rightarrow> frame" where
  "frame_add_to_align_adjust f increment = f\<lparr>align_adjust := align_adjust f + increment\<rparr>"
definition frame_align_to_extra_frame :: "frame \<Rightarrow> frame" where
  "frame_align_to_extra_frame f = f\<lparr>align_adjust := extra_frame f + extra_link f\<rparr>"
definition frame_or_align_flags :: "frame \<Rightarrow> u32 \<Rightarrow> frame" where
  "frame_or_align_flags f flag_mask = f\<lparr>align_flags := align_flags f OR flag_mask\<rparr>"
definition frame_defined :: "frame \<Rightarrow> bool" where "frame_defined f \<longleftrightarrow> link_mtu f > 0"

text \<open>A frame too small for the tunnel ends the process (\<open>frame_print\<close> at level \<open>M_FATAL\<close>).\<close>

definition frame_finalize :: "frame \<Rightarrow> bool \<Rightarrow> int \<Rightarrow> bool \<Rightarrow> int \<Rightarrow> frame option" where
  "frame_finalize f link_mtu_defined lmtu tun_mtu_defined tun_mtu = do {
     f \<leftarrow> (if tun_mtu_defined then do {
            c_assert (\<not> link_mtu_defined);
            Some (f\<lparr>link_mtu := tun_mtu + TUN_LINK_DELTA f\<rparr>)
          } else do {
            c_assert link_mtu_defined;
            Some (f\<lparr>link_mtu := lmtu\<rparr>)
          });
     c_assert (\<not> TUN_MTU_SIZE f < TUN_MTU_MIN);
     Some (f\<lparr>link_mtu_dynamic := link_mtu f\<rparr>)
   }"

definition frame_set_mtu_dynamic :: "frame \<Rightarrow> int \<Rightarrow> u32 \<Rightarrow> frame option" where
  "frame_set_mtu_dynamic f mtu flags = do {
     c_assert (mtu \<ge> 0);
     let mtu = (if flags AND SET_MTU_TUN \<noteq> 0 then mtu + TUN_LINK_DELTA f else mtu);
     Some (if flags AND SET_MTU_UPPER_BOUND = 0 \<or> mtu < link_mtu_dynamic f
           then f\<lparr>link_mtu_dynamic := constrain_int mtu (EXPANDED_SIZE_MIN f) (EXPANDED_SIZE f)\<rparr>
           else f)
   }"

definition frame_subtract_extra :: "frame \<Rightarrow> frame \<Rightarrow> frame" where
  "frame_subtract_extra f src =
     f\<lparr>extra_frame := extra_frame f - extra_frame src, extra_tun := extra_tun f + extra_frame src\<rparr>"

text \<open>The argument \<open>mssfix\<close> is \<open>options->ce.mssfix\<close>.\<close>

definition frame_init_mssfix :: "frame \<Rightarrow> int \<Rightarrow> frame option" where
  "frame_init_mssfix f mssfix =
     (if mssfix \<noteq> 0 then frame_set_mtu_dynamic f mssfix SET_MTU_UPPER_BOUND else Some f)"

definition alloc_buf_sock_tun :: "frame \<Rightarrow> bool \<Rightarrow> u32 \<Rightarrow> buffer option" where
  "alloc_buf_sock_tun f tuntap_buffer align_mask = do {
     buf \<leftarrow> alloc_buf (BUF_SIZE f);
     let (buf, ok) = buf_init buf (FRAME_HEADROOM_ADJ f align_mask);
     c_assert ok;
     let buf = buf\<lparr>b_len := if tuntap_buffer then MAX_RW_SIZE_TUN f else MAX_RW_SIZE_LINK f\<rparr>;
     c_assert (buf_safe buf 0);
     Some buf
   }"

subsection \<open>Headroom and sizes\<close>

lemma and_3_mod: "(x :: int) AND 3 = x mod 4"
  using take_bit_eq_mask [of 2 x] by (simp add: take_bit_eq_mod mask_eq_exp_minus_1)

lemma frame_headroom_delta:
  "frame_headroom f fm = FRAME_HEADROOM_BASE f +
     (- (FRAME_HEADROOM_BASE f + (if fm AND align_flags f \<noteq> 0 then align_adjust f else 0))) mod 4"
proof -
  have "(67108864 - x) mod 4 = (- x) mod (4 :: int)" for x by presburger
  then show ?thesis by (simp add: frame_headroom_def PAYLOAD_ALIGN_def and_3_mod Let_def push_bit_eq_mult)
qed

lemma frame_headroom_range:
  "FRAME_HEADROOM_BASE f \<le> frame_headroom f fm" "frame_headroom f fm \<le> FRAME_HEADROOM_BASE f + 3"
proof -
  have "0 \<le> (- x) mod (4 :: int)" "(- x) mod (4 :: int) \<le> 3" for x by simp_all
  then show "FRAME_HEADROOM_BASE f \<le> frame_headroom f fm" "frame_headroom f fm \<le> FRAME_HEADROOM_BASE f + 3"
    unfolding frame_headroom_delta by simp_all
qed

text \<open>A frame whose stages add overhead, after \<open>frame_finalize\<close>.\<close>

definition frame_ok :: "frame \<Rightarrow> bool" where
  "frame_ok f \<longleftrightarrow> 0 \<le> extra_frame f \<and> 0 \<le> extra_buffer f \<and> 0 \<le> extra_tun f \<and> 0 \<le> extra_link f \<and>
     TUN_MTU_MIN \<le> TUN_MTU_SIZE f \<and> BUF_SIZE f < BUF_SIZE_MAX"

text \<open>
  C36. The buffers of the socket and the tunnel are big enough. For a finalised frame,
  \<open>alloc_buf_sock_tun\<close> returns a well-formed buffer whose headroom takes what all the stages add,
  at which the payload of a packet is aligned to 4 bytes, and which has room for the largest read. Its
  assertions can only fail when there is no room for the up to 3 bytes of alignment: with fewer
  than 3 bytes of overhead for the tunnel, and with less than 3 bytes of \<open>extra_buffer\<close> for the socket.
\<close>

theorem sock_tun_buffer_fits:
  assumes "frame_ok f" "3 \<le> (if tuntap then extra_frame f + extra_buffer f + extra_link f else extra_buffer f)"
  shows "\<exists>b. alloc_buf_sock_tun f tuntap fm = Some b \<and> buf_ok b \<and>
    b_len b = (if tuntap then PAYLOAD_SIZE f else link_mtu f + extra_link f) \<and>
    FRAME_HEADROOM_BASE f \<le> b_offset b \<and>
    (b_offset b + (if fm AND align_flags f \<noteq> 0 then align_adjust f else 0)) mod 4 = 0"
proof -
  let ?h = "frame_headroom f fm"
  have align: "(b + - (b + a) mod 4 + a) mod 4 = 0" for a b :: int by presburger
  have dims: "0 \<le> BUF_SIZE f" "BUF_SIZE f < BUF_SIZE_MAX" "0 \<le> ?h" "?h \<le> BUF_SIZE f"
    "?h + (if tuntap then PAYLOAD_SIZE f else link_mtu f + extra_link f) \<le> BUF_SIZE f"
    "0 \<le> PAYLOAD_SIZE f" "0 \<le> link_mtu f + extra_link f"
    using assms frame_headroom_range [of f fm]
    by (simp_all add: frame_ok_def BUF_SIZE_def FRAME_HEADROOM_BASE_def TUN_MTU_SIZE_def TUN_MTU_MIN_def
        TUN_LINK_DELTA_def PAYLOAD_SIZE_def split: if_splits)
  obtain b where b: "alloc_buf (BUF_SIZE f) = Some b" "buf_ok b" "b_capacity b = BUF_SIZE f"
    using alloc_buf_ok [OF dims(1,2)] by blast
  let ?b = "b\<lparr>b_len := if tuntap then PAYLOAD_SIZE f else link_mtu f + extra_link f, b_offset := ?h\<rparr>"
  have "buf_ok ?b" using b(2,3) dims by (auto simp: buf_ok_def split: option.splits)
  moreover have "alloc_buf_sock_tun f tuntap fm = Some ?b"
    using b dims \<open>buf_ok ?b\<close>
    by (auto simp: alloc_buf_sock_tun_def buf_init_def FRAME_HEADROOM_ADJ_def MAX_RW_SIZE_TUN_def MAX_RW_SIZE_LINK_def
        EXPANDED_SIZE_def Let_def buf_safe_iff buf_ok_def split: option.splits)
  moreover have "(?h + (if fm AND align_flags f \<noteq> 0 then align_adjust f else 0)) mod 4 = 0"
    unfolding frame_headroom_delta by (rule align)
  ultimately show ?thesis using frame_headroom_range [of f fm] by (intro exI [of _ ?b]) simp
qed

definition sample_frame :: frame where
  "sample_frame = \<lparr>link_mtu = 1545, link_mtu_dynamic = 1545, extra_frame = 45, extra_buffer = 170, extra_tun = 0,
     extra_link = 0, align_flags = FRAME_HEADROOM_MARKER_FRAGMENT, align_adjust = 49\<rparr>"

lemma sock_tun_buffer_fits_witness:
  "\<exists>b. alloc_buf_sock_tun sample_frame False FRAME_HEADROOM_MARKER_FRAGMENT = Some b \<and> buf_ok b \<and> b_len b = 1545 \<and>
     215 \<le> b_offset b \<and> (b_offset b + 49) mod 4 = 0"
  using sock_tun_buffer_fits [of sample_frame False FRAME_HEADROOM_MARKER_FRAGMENT]
  by (simp add: sample_frame_def frame_ok_def TUN_MTU_MIN_def TUN_MTU_SIZE_def TUN_LINK_DELTA_def BUF_SIZE_def
      FRAME_HEADROOM_BASE_def BUF_SIZE_MAX_def FRAME_HEADROOM_MARKER_FRAGMENT_def)

end
