(* ===== verification/Crypto.thy ===== *)
theory Crypto
  imports Replay_Refinement Mtu
begin

text \<open>
  crypto.c: encryption and decryption of data-channel packets. The ciphers and digests themselves are
  the crypto library's. A cipher context is modelled by what the code asks of it: its sizes, and two
  functions from the initialisation vector, the additional data and the text (and the tag) to the bytes that
  \<open>cipher_ctx_update\<close> and \<open>cipher_ctx_final\<close> write; \<open>None\<close> is their failure. The key of a context is
  fixed when it is set up. The functions are arbitrary here; what the code relies on is the locale of theory Data_Channel.
\<close>

subsection \<open>The library's contexts\<close>

datatype cipher_mode = OPENVPN_MODE_CBC | OPENVPN_MODE_OFB | OPENVPN_MODE_CFB | OPENVPN_MODE_GCM

definition OPENVPN_MAX_IV_LENGTH :: int where "OPENVPN_MAX_IV_LENGTH = 16"
definition OPENVPN_AEAD_MIN_IV_LEN :: int where "OPENVPN_AEAD_MIN_IV_LEN = 4 + 8"
definition OPENVPN_AEAD_TAG_LENGTH :: int where "OPENVPN_AEAD_TAG_LENGTH = 16"
definition OPENVPN_MAX_CIPHER_BLOCK_SIZE :: int where "OPENVPN_MAX_CIPHER_BLOCK_SIZE = 32"
definition OPENVPN_MAX_HMAC_SIZE :: int where "OPENVPN_MAX_HMAC_SIZE = 64"
definition CO_IGNORE_PACKET_ID :: u32 where "CO_IGNORE_PACKET_ID = push_bit 1 1"

record cipher_ctx =
  ctx_mode :: cipher_mode
  ctx_iv_length :: int
  ctx_tag_size :: int
  ctx_block_size :: int
  ctx_encrypt :: "byte list \<Rightarrow> byte list \<Rightarrow> byte list \<Rightarrow> byte list \<times> byte list \<times> byte list"
  ctx_decrypt :: "byte list \<Rightarrow> byte list \<Rightarrow> byte list \<Rightarrow> byte list \<Rightarrow> byte list option \<times> byte list option"

record hmac_ctx =
  hmac_size :: int
  hmac_of :: "byte list \<Rightarrow> byte list"

record key_ctx =
  kc_cipher :: "cipher_ctx option"
  kc_hmac :: "hmac_ctx option"
  implicit_iv :: "byte list"
  implicit_iv_len :: int

definition mode_aead :: "cipher_ctx option \<Rightarrow> bool" where
  "mode_aead c = (case c of None \<Rightarrow> False | Some c \<Rightarrow> ctx_mode c = OPENVPN_MODE_GCM)"

definition mode_ofb_cfb :: "cipher_ctx \<Rightarrow> bool" where
  "mode_ofb_cfb c \<longleftrightarrow> ctx_mode c = OPENVPN_MODE_OFB \<or> ctx_mode c = OPENVPN_MODE_CFB"

text \<open>A write by the library at a pointer into the buffer's block, then \<open>ASSERT (buf_inc_len)\<close>.\<close>

definition put_output :: "buffer \<Rightarrow> int \<Rightarrow> byte list \<Rightarrow> buffer option" where
  "put_output b p bs = do {
     b \<leftarrow> store_at b p bs;
     let (b, ok) = buf_inc_len b (int (length bs));
     c_assert ok;
     Some b
   }"

definition memcmp_constant_time :: "byte list \<Rightarrow> byte list \<Rightarrow> byte" where
  "memcmp_constant_time a b = fold (\<lambda>(x, y) ret. ret OR (x XOR y)) (zip a b) 0"

definition packet_id_of :: "crypto_options \<Rightarrow> packet_id_send \<Rightarrow> crypto_options" where
  "packet_id_of opt p = opt\<lparr>co_packet_id := (co_packet_id opt)\<lparr>pid_send := p\<rparr>\<rparr>"

definition pid_initialized :: "crypto_options \<Rightarrow> bool" where
  "pid_initialized opt \<longleftrightarrow> initialized (pid_rec (co_packet_id opt))"

definition buf_bend :: "buffer \<Rightarrow> int" where "buf_bend b = b_offset b + b_len b"

subsection \<open>Encryption\<close>

text \<open>
  The vector \<open>iv\<close> is an array of 16 zero bytes, of which \<open>iv_buffer\<close> covers the first
  \<open>iv_len\<close>. The result is the crypto state and the packet.
\<close>

definition openvpn_encrypt_aead ::
  "time_t \<Rightarrow> key_ctx \<Rightarrow> crypto_options \<Rightarrow> buffer \<Rightarrow> buffer \<Rightarrow> (crypto_options \<times> buffer) option" where
  "openvpn_encrypt_aead local_now ctx opt buf work = do {
     cipher \<leftarrow> kc_cipher ctx;
     let mac_len = ctx_tag_size cipher;
     c_assert (mode_aead (kc_cipher ctx));
     c_assert (pid_initialized opt);
     let iv_len = ctx_iv_length cipher;
     c_assert (iv_len \<ge> OPENVPN_AEAD_MIN_IV_LEN \<and> iv_len \<le> OPENVPN_MAX_IV_LENGTH);
     iv_buffer \<leftarrow> buf_set_write (Some (replicate (nat iv_len) 0)) iv_len;
     (snd, iv_buffer, ok) \<leftarrow> packet_id_write local_now (pid_send (co_packet_id opt)) iv_buffer False False;
     let opt = packet_id_of opt snd;
     if \<not> ok then Some (opt, buf\<lparr>b_len := 0\<rparr>)
     else do {
       (iv_buffer, ok) \<leftarrow> buf_write iv_buffer (take (nat (implicit_iv_len ctx)) (implicit_iv ctx));
       c_assert ok;
       c_assert (b_len iv_buffer = iv_len);
       iv \<leftarrow> b_data iv_buffer;
       (work, ok) \<leftarrow> buf_write work (take (nat (iv_len - implicit_iv_len ctx)) iv);
       c_assert ok;
       let (work, mac_out) = buf_write_alloc work mac_len;
       mac_out \<leftarrow> mac_out;
       if \<not> buf_safe work (b_len buf + ctx_block_size cipher) then Some (opt, buf\<lparr>b_len := 0\<rparr>)
       else do {
         ad \<leftarrow> load_at work (b_offset work) (b_len work - mac_len);
         plain \<leftarrow> buf_bytes buf;
         let (upd, fin, tag) = ctx_encrypt cipher iv ad plain;
         work \<leftarrow> put_output work (buf_bend work) upd;
         work \<leftarrow> put_output work (buf_bend work) fin;
         work \<leftarrow> store_at work mac_out tag;
         Some (opt, work)
       }
     }
   }"

text \<open>\<open>prng\<close> is what \<open>prng_bytes\<close> puts into the vector.\<close>

definition openvpn_encrypt_v1 ::
  "byte list \<Rightarrow> time_t \<Rightarrow> key_ctx \<Rightarrow> crypto_options \<Rightarrow> buffer \<Rightarrow> buffer \<Rightarrow> (crypto_options \<times> buffer) option" where
  "openvpn_encrypt_v1 prng local_now ctx opt buf work =
     (let long = co_flags opt AND CO_PACKET_ID_LONG_FORM \<noteq> 0 in
      if b_len buf > 0 then do {
        r \<leftarrow>
          (case kc_cipher ctx of
             Some cipher \<Rightarrow> do {
               let iv_size = ctx_iv_length cipher;
               (work, mac_out) \<leftarrow>
                 (case kc_hmac ctx of
                    Some hm \<Rightarrow>
                      (let (work, mac_out) = buf_write_alloc work (hmac_size hm) in do {
                         c_assert (mac_out \<noteq> None);
                         Some (work, mac_out)
                       })
                  | None \<Rightarrow> Some (work, None));
               let hmac_start = buf_bend work;
               r \<leftarrow>
                 (if ctx_mode cipher = OPENVPN_MODE_CBC then do {
                    (snd, buf, ok) \<leftarrow>
                      (if pid_initialized opt
                       then packet_id_write local_now (pid_send (co_packet_id opt)) buf long True
                       else Some (pid_send (co_packet_id opt), buf, True));
                    Some (packet_id_of opt snd, buf, take (nat iv_size) prng, ok)
                  } else do {
                    c_assert (mode_ofb_cfb cipher);
                    c_assert (pid_initialized opt);
                    b \<leftarrow> buf_set_write (Some (replicate (nat iv_size) 0)) iv_size;
                    (snd, b, ok) \<leftarrow> packet_id_write local_now (pid_send (co_packet_id opt)) b True False;
                    c_assert ok;
                    iv \<leftarrow> b_data b;
                    Some (packet_id_of opt snd, buf, iv, True)
                  });
               let (opt, buf, iv, ok) = r;
               if \<not> ok then Some (opt, buf, work, None)
               else do {
                 (work, ok) \<leftarrow> buf_write work iv;
                 c_assert ok;
                 if \<not> buf_safe work (b_len buf + ctx_block_size cipher) then Some (opt, buf, work, None)
                 else do {
                   plain \<leftarrow> buf_bytes buf;
                   let (upd, fin, _) = ctx_encrypt cipher iv [] plain;
                   work \<leftarrow> put_output work (buf_bend work) upd;
                   work \<leftarrow> put_output work (buf_bend work) fin;
                   c_assert (ctx_mode cipher \<noteq> OPENVPN_MODE_CBC \<or> int (length fin) = iv_size);
                   Some (opt, buf, work, Some (hmac_start, mac_out))
                 }
               }
             }
           | None \<Rightarrow> do {
               (snd, buf, ok) \<leftarrow>
                 (if pid_initialized opt
                  then packet_id_write local_now (pid_send (co_packet_id opt)) buf long True
                  else Some (pid_send (co_packet_id opt), buf, True));
               let opt = packet_id_of opt snd;
               if \<not> ok then Some (opt, buf, work, None)
               else do {
                 let hmac_start = b_offset buf;
                 (buf, mac_out) \<leftarrow>
                   (case kc_hmac ctx of
                      Some hm \<Rightarrow>
                        (let (buf, mac_out) = buf_prepend buf (hmac_size hm) in do {
                           c_assert (mac_out \<noteq> None);
                           Some (buf, mac_out)
                         })
                    | None \<Rightarrow> Some (buf, None));
                 hd \<leftarrow> buf_bytes work;
                 (buf, _) \<leftarrow> (if hd \<noteq> [] then buf_write_prepend buf hd else Some (buf, True));
                 Some (opt, buf, buf, Some (hmac_start, mac_out))
               }
             });
        let (opt, buf, work, sign) = r;
        (case sign of
           None \<Rightarrow> Some (opt, buf\<lparr>b_len := 0\<rparr>)
         | Some (hmac_start, mac_out) \<Rightarrow>
             (case kc_hmac ctx of
                None \<Rightarrow> Some (opt, work)
              | Some hm \<Rightarrow> do {
                  text \<leftarrow> load_at work hmac_start (buf_bend work - hmac_start);
                  mac_out \<leftarrow> mac_out;
                  work \<leftarrow> store_at work mac_out (hmac_of hm text);
                  Some (opt, work)
                }))
      } else Some (opt, buf))"

text \<open>The pointer \<open>opt\<close> is not null here.\<close>

definition openvpn_encrypt ::
  "byte list \<Rightarrow> time_t \<Rightarrow> key_ctx \<Rightarrow> crypto_options \<Rightarrow> buffer \<Rightarrow> buffer \<Rightarrow> (crypto_options \<times> buffer) option" where
  "openvpn_encrypt prng local_now ctx opt buf work =
     (if b_len buf > 0 then
        (if mode_aead (kc_cipher ctx) then openvpn_encrypt_aead local_now ctx opt buf work
         else openvpn_encrypt_v1 prng local_now ctx opt buf work)
      else Some (opt, buf))"

subsection \<open>Decryption\<close>

text \<open>
  \<open>CRYPT_ERROR\<close>: an empty buffer and false. \<open>ad_start\<close> is a pointer into the block of \<open>buf\<close>.
\<close>

definition crypt_error :: "crypto_options \<Rightarrow> buffer \<Rightarrow> (crypto_options \<times> buffer \<times> bool) option" where
  "crypt_error opt buf = Some (opt, buf\<lparr>b_len := 0\<rparr>, False)"

definition openvpn_decrypt_aead ::
  "time_t \<Rightarrow> key_ctx \<Rightarrow> crypto_options \<Rightarrow> buffer \<Rightarrow> buffer \<Rightarrow> frame \<Rightarrow> int \<Rightarrow>
   (crypto_options \<times> buffer \<times> bool) option" where
  "openvpn_decrypt_aead local_now ctx opt buf work f ad_start = do {
     c_assert (b_len buf > 0);
     cipher \<leftarrow> kc_cipher ctx;
     c_assert (mode_aead (kc_cipher ctx));
     c_assert (ad_start \<ge> 0 \<and> ad_start \<le> b_offset buf);
     let (work, ok) = buf_init work (FRAME_HEADROOM_ADJ f FRAME_HEADROOM_MARKER_DECRYPT);
     c_assert ok;
     c_assert (pid_initialized opt);
     let iv_len = ctx_iv_length cipher;
     let packet_iv_len = iv_len - implicit_iv_len ctx;
     c_assert (implicit_iv_len ctx \<le> iv_len);
     if b_len buf + implicit_iv_len ctx < iv_len then crypt_error opt buf
     else do {
       explicit \<leftarrow> load_at buf (b_offset buf) packet_iv_len;
       let iv = explicit @ take (nat (implicit_iv_len ctx)) (implicit_iv ctx);
       (pin, buf, ok) \<leftarrow> packet_id_read buf False;
       if \<not> ok then crypt_error opt buf
       else do {
         let tag_size = ctx_tag_size cipher;
         if b_len buf < tag_size then crypt_error opt buf
         else do {
           tag \<leftarrow> load_at buf (b_offset buf) tag_size;
           let (buf, ok) = buf_advance buf tag_size;
           c_assert ok;
           if b_len buf < 1 then crypt_error opt buf
           else if \<not> buf_safe work (b_len buf + ctx_block_size cipher) then crypt_error opt buf
           else do {
             let ad_size = b_offset buf - ad_start - tag_size;
             ad \<leftarrow> load_at buf ad_start ad_size;
             text \<leftarrow> buf_bytes buf;
             (case ctx_decrypt cipher iv ad text tag of
                (None, _) \<Rightarrow> crypt_error opt buf
              | (Some upd, fin) \<Rightarrow> do {
                  work \<leftarrow> put_output work (b_offset work) upd;
                  (case fin of
                     None \<Rightarrow> crypt_error opt buf
                   | Some fin \<Rightarrow> do {
                       work \<leftarrow> put_output work (b_offset work + int (length upd)) fin;
                       (opt, fresh) \<leftarrow> crypto_check_replay local_now opt pin;
                       if \<not> fresh then crypt_error opt buf else Some (opt, work, True)
                     })
                })
           }
         }
       }
     }
   }"

text \<open>
  The packet id of a v1 packet is in the plaintext (CBC), in the vector (OFB, CFB) or in the clear (no cipher);
  \<open>None\<close> in the last component is a packet without one.
\<close>

definition decrypt_v1_text ::
  "key_ctx \<Rightarrow> crypto_options \<Rightarrow> buffer \<Rightarrow> buffer \<Rightarrow> frame \<Rightarrow>
   (buffer \<times> (buffer \<times> packet_id_net option) option) option" where
  "decrypt_v1_text ctx opt buf work f =
     (let long = co_flags opt AND CO_PACKET_ID_LONG_FORM \<noteq> 0 in
      case kc_cipher ctx of
        Some cipher \<Rightarrow> do {
          let iv_size = ctx_iv_length cipher;
          let (work, ok) = buf_init work (FRAME_HEADROOM_ADJ f FRAME_HEADROOM_MARKER_DECRYPT);
          c_assert ok;
          if b_len buf < iv_size then Some (buf, None)
          else do {
            iv \<leftarrow> load_at buf (b_offset buf) iv_size;
            let (buf, ok) = buf_advance buf iv_size;
            c_assert ok;
            if b_len buf < 1 then Some (buf, None)
            else if \<not> buf_safe work (b_len buf + ctx_block_size cipher) then Some (buf, None)
            else do {
              text \<leftarrow> buf_bytes buf;
              (case ctx_decrypt cipher iv [] text [] of
                 (None, _) \<Rightarrow> Some (buf, None)
               | (Some upd, fin) \<Rightarrow> do {
                   work \<leftarrow> put_output work (b_offset work) upd;
                   (case fin of
                      None \<Rightarrow> Some (buf, None)
                    | Some fin \<Rightarrow> do {
                        work \<leftarrow> put_output work (b_offset work + int (length upd)) fin;
                        if ctx_mode cipher = OPENVPN_MODE_CBC then
                          (if pid_initialized opt then do {
                             (pin, work, ok) \<leftarrow> packet_id_read work long;
                             Some (buf, if ok then Some (work, Some pin) else None)
                           } else Some (buf, Some (work, None)))
                        else do {
                          c_assert (mode_ofb_cfb cipher);
                          c_assert (pid_initialized opt);
                          b \<leftarrow> buf_set_read (Some iv) iv_size;
                          (pin, b, ok) \<leftarrow> packet_id_read b True;
                          Some (buf, if ok then Some (work, Some pin) else None)
                        }
                      })
                 })
            }
          }
        }
      | None \<Rightarrow>
          (let work = buf in
           if pid_initialized opt then do {
             (pin, work, ok) \<leftarrow> packet_id_read work long;
             Some (buf, if ok then Some (work, if co_flags opt AND CO_IGNORE_PACKET_ID \<noteq> 0 then None else Some pin)
                        else None)
           } else Some (buf, Some (work, None))))"

definition openvpn_decrypt_v1 ::
  "time_t \<Rightarrow> key_ctx \<Rightarrow> crypto_options \<Rightarrow> buffer \<Rightarrow> buffer \<Rightarrow> frame \<Rightarrow> (crypto_options \<times> buffer \<times> bool) option" where
  "openvpn_decrypt_v1 local_now ctx opt buf work f =
     (if b_len buf > 0 then do {
        (buf, ok) \<leftarrow>
          (case kc_hmac ctx of
             None \<Rightarrow> Some (buf, True)
           | Some hm \<Rightarrow>
               (let hmac_len = hmac_size hm in
                if b_len buf < hmac_len then Some (buf, False)
                else do {
                  text \<leftarrow> load_at buf (b_offset buf + hmac_len) (b_len buf - hmac_len);
                  mac \<leftarrow> load_at buf (b_offset buf) hmac_len;
                  if memcmp_constant_time (hmac_of hm text) mac \<noteq> 0 then Some (buf, False)
                  else do {
                    let (buf, ok) = buf_advance buf hmac_len;
                    c_assert ok;
                    Some (buf, True)
                  }
                }));
        if \<not> ok then crypt_error opt buf
        else do {
          (buf, r) \<leftarrow> decrypt_v1_text ctx opt buf work f;
          (case r of
             None \<Rightarrow> crypt_error opt buf
           | Some (work, None) \<Rightarrow> Some (opt, work, True)
           | Some (work, Some pin) \<Rightarrow> do {
               (opt, fresh) \<leftarrow> crypto_check_replay local_now opt pin;
               if \<not> fresh then crypt_error opt buf else Some (opt, work, True)
             })
        }
      } else Some (opt, buf, True))"

definition openvpn_decrypt ::
  "time_t \<Rightarrow> key_ctx \<Rightarrow> crypto_options \<Rightarrow> buffer \<Rightarrow> buffer \<Rightarrow> frame \<Rightarrow> int \<Rightarrow>
   (crypto_options \<times> buffer \<times> bool) option" where
  "openvpn_decrypt local_now ctx opt buf work f ad_start =
     (if b_len buf > 0 then
        (if mode_aead (kc_cipher ctx) then openvpn_decrypt_aead local_now ctx opt buf work f ad_start
         else openvpn_decrypt_v1 local_now ctx opt buf work f)
      else Some (opt, buf, True))"

subsection \<open>Overhead\<close>

text \<open>The members of \<open>struct key_type\<close> that the code reads here: the cipher and the length of the HMAC key.\<close>

definition crypto_adjust_frame_parameters :: "frame \<Rightarrow> cipher_ctx option \<Rightarrow> int \<Rightarrow> bool \<Rightarrow> bool \<Rightarrow> frame" where
  "crypto_adjust_frame_parameters f kt_cipher kt_hmac_length packet_id long_form =
     (let overhead = (if packet_id then packet_id_size long_form else 0);
          overhead =
            (case kt_cipher of
               None \<Rightarrow> overhead
             | Some c \<Rightarrow> overhead + ctx_iv_length c + (if mode_aead (Some c) then ctx_tag_size c else 0) + ctx_block_size c);
          overhead = overhead + kt_hmac_length
      in frame_add_to_extra_frame f overhead)"

definition crypto_max_overhead :: int where
  "crypto_max_overhead = packet_id_size True + OPENVPN_MAX_IV_LENGTH + OPENVPN_MAX_CIPHER_BLOCK_SIZE
     + max_int OPENVPN_MAX_HMAC_SIZE OPENVPN_AEAD_TAG_LENGTH"

end
