(* ===== verification/Fragment.thy ===== *)
theory Fragment
  imports Mtu Otime
begin

text \<open>
  fragment.h and fragment.c: datagrams larger than the link's dynamic MTU are sent as up to 32 fragments
  with a 32-bit header each, and put together again in the buffer of their sequence number. \<open>None\<close> is a
  failed \<open>ASSERT\<close> (or a division by zero); a fragment that is dropped leaves an empty buffer. Where the C code copies
  a \<open>struct buffer\<close> out of the structure (\<open>*buf = frag->buf\<close>), both share one block afterwards; the
  model copies it, and no operation reads the shared block of the structure before \<open>buf_init\<close> empties it.
\<close>

subsection \<open>Constants and structures\<close>

definition N_FRAG_BUF :: int where "N_FRAG_BUF = 25"
definition FRAG_TTL_SEC :: int where "FRAG_TTL_SEC = 10"
definition FRAG_WAKEUP_INTERVAL :: int where "FRAG_WAKEUP_INTERVAL = 5"
definition FRAG_MAP_MASK :: u32 where "FRAG_MAP_MASK = 0xFFFFFFFF"
definition MAX_FRAGS :: int where "MAX_FRAGS = 32"
definition N_SEQ_ID :: int where "N_SEQ_ID = 256"
definition FRAG_TYPE_MASK :: u32 where "FRAG_TYPE_MASK = 0x00000003"
definition FRAG_TYPE_SHIFT :: nat where "FRAG_TYPE_SHIFT = 0"
definition FRAG_WHOLE :: int where "FRAG_WHOLE = 0"
definition FRAG_YES_NOTLAST :: int where "FRAG_YES_NOTLAST = 1"
definition FRAG_YES_LAST :: int where "FRAG_YES_LAST = 2"
definition FRAG_TEST :: int where "FRAG_TEST = 3"
definition FRAG_SEQ_ID_MASK :: u32 where "FRAG_SEQ_ID_MASK = 0x000000ff"
definition FRAG_SEQ_ID_SHIFT :: nat where "FRAG_SEQ_ID_SHIFT = 2"
definition FRAG_ID_MASK :: u32 where "FRAG_ID_MASK = 0x0000001f"
definition FRAG_ID_SHIFT :: nat where "FRAG_ID_SHIFT = 10"
definition FRAG_SIZE_MASK :: u32 where "FRAG_SIZE_MASK = 0x00003fff"
definition FRAG_SIZE_SHIFT :: nat where "FRAG_SIZE_SHIFT = 15"
definition FRAG_SIZE_ROUND_SHIFT :: nat where "FRAG_SIZE_ROUND_SHIFT = 2"
definition FRAG_SIZE_ROUND_MASK :: int where "FRAG_SIZE_ROUND_MASK = push_bit FRAG_SIZE_ROUND_SHIFT 1 - 1"

lemmas frag_consts = N_FRAG_BUF_def MAX_FRAGS_def N_SEQ_ID_def FRAG_TYPE_MASK_def FRAG_TYPE_SHIFT_def FRAG_WHOLE_def
  FRAG_YES_NOTLAST_def FRAG_YES_LAST_def FRAG_TEST_def FRAG_SEQ_ID_MASK_def FRAG_SEQ_ID_SHIFT_def FRAG_ID_MASK_def
  FRAG_ID_SHIFT_def FRAG_SIZE_MASK_def FRAG_SIZE_SHIFT_def FRAG_SIZE_ROUND_SHIFT_def FRAG_SIZE_ROUND_MASK_def

record fragment =
  fr_defined :: bool
  max_frag_size :: int
  fr_map :: u32
  fr_timestamp :: time_t
  fr_buf :: buffer

record fragment_list =
  fl_seq_id :: int
  fl_index :: int
  fragments :: "fragment list"

record fragment_master =
  fm_wakeup :: event_timeout
  received_os_mtu_hint :: bool
  outgoing_seq_id :: int
  outgoing_frag_size :: int
  outgoing_frag_id :: int
  outgoing :: buffer
  outgoing_return :: buffer
  incoming :: fragment_list

definition frag_upd :: "int \<Rightarrow> (fragment \<Rightarrow> fragment) \<Rightarrow> fragment_list \<Rightarrow> fragment_list" where
  "frag_upd i f l = l\<lparr>fragments := (fragments l)[nat i := f (fragments l ! nat i)]\<rparr>"

subsection \<open>Reassembly slots\<close>

text \<open>The \<open>while\<close> loop of \<open>fragment_list_get_buf\<close>; the argument is \<open>diff\<close>.\<close>

fun frag_advance :: "nat \<Rightarrow> fragment_list \<Rightarrow> fragment_list option" where
  "frag_advance 0 l = Some l"
| "frag_advance (Suc diff) l = do {
     i \<leftarrow> modulo_add (fl_index l) 1 N_FRAG_BUF;
     let l = frag_upd i (fr_defined_update (\<lambda>_. False)) (l\<lparr>fl_index := i\<rparr>);
     seq \<leftarrow> modulo_add (fl_seq_id l) 1 N_SEQ_ID;
     frag_advance diff (l\<lparr>fl_seq_id := seq\<rparr>)
   }"

text \<open>The result is the list and the index of the fragment that the C code returns a pointer to.\<close>

definition fragment_list_get_buf :: "fragment_list \<Rightarrow> int \<Rightarrow> (fragment_list \<times> int) option" where
  "fragment_list_get_buf l seq_id = do {
     diff \<leftarrow> modulo_subtract seq_id (fl_seq_id l) N_SEQ_ID;
     let (l, diff) =
       (if \<bar>diff\<bar> \<ge> N_FRAG_BUF
        then (l\<lparr>fragments := map (fr_defined_update (\<lambda>_. False)) (fragments l), fl_index := 0, fl_seq_id := seq_id\<rparr>, 0)
        else (l, diff));
     l \<leftarrow> frag_advance (nat diff) l;
     i \<leftarrow> modulo_add (fl_index l) (if diff > 0 then 0 else diff) N_FRAG_BUF;
     Some (l, i)
   }"

subsection \<open>Initialisation\<close>

definition frag_clear :: fragment where
  "frag_clear = \<lparr>fr_defined = False, max_frag_size = 0, fr_map = 0, fr_timestamp = 0, fr_buf = clear_buf\<rparr>"

definition fragment_init :: "time_t \<Rightarrow> u32 \<Rightarrow> frame \<Rightarrow> frame \<times> fragment_master" where
  \<comment> \<open>the second argument is the value of \<open>get_random\<close>\<close>
  "fragment_init local_now random f =
     (frame_add_to_extra_frame f 4,
      \<lparr>fm_wakeup = event_timeout_init FRAG_WAKEUP_INTERVAL local_now, received_os_mtu_hint = False,
       outgoing_seq_id = sint random AND (N_SEQ_ID - 1), outgoing_frag_size = 0, outgoing_frag_id = 0,
       outgoing = clear_buf, outgoing_return = clear_buf,
       incoming = \<lparr>fl_seq_id = 0, fl_index = 0, fragments = replicate 25 frag_clear\<rparr>\<rparr>)"

definition fragment_list_buf_init :: "fragment_list \<Rightarrow> frame \<Rightarrow> fragment_list option" where
  "fragment_list_buf_init l f = do {
     b \<leftarrow> alloc_buf (BUF_SIZE f);
     Some (l\<lparr>fragments := map (fr_buf_update (\<lambda>_. b)) (fragments l)\<rparr>)
   }"

definition fragment_frame_init :: "fragment_master \<Rightarrow> frame \<Rightarrow> fragment_master option" where
  "fragment_frame_init fm f = do {
     l \<leftarrow> fragment_list_buf_init (incoming fm) f;
     o1 \<leftarrow> alloc_buf (BUF_SIZE f);
     o2 \<leftarrow> alloc_buf (BUF_SIZE f);
     Some (fm\<lparr>incoming := l, outgoing := o1, outgoing_return := o2\<rparr>)
   }"

subsection \<open>Receiving\<close>

text \<open>The branch of \<open>fragment_incoming\<close> for the types \<open>FRAG_YES_NOTLAST\<close> and \<open>FRAG_YES_LAST\<close>.\<close>

definition frag_incoming_part ::
  "time_t \<Rightarrow> fragment_master \<Rightarrow> buffer \<Rightarrow> frame \<Rightarrow> u32 \<Rightarrow> int \<Rightarrow> (fragment_master \<times> buffer) option" where
  "frag_incoming_part local_now fm buf f flags frag_type = do {
     let seq_id = uint (drop_bit FRAG_SEQ_ID_SHIFT flags AND FRAG_SEQ_ID_MASK);
     let n = uint (drop_bit FRAG_ID_SHIFT flags AND FRAG_ID_MASK);
     let sz = (if frag_type = FRAG_YES_LAST
               then uint (push_bit FRAG_SIZE_ROUND_SHIFT (drop_bit FRAG_SIZE_SHIFT flags AND FRAG_SIZE_MASK))
               else b_len buf);
     (l, i) \<leftarrow> fragment_list_get_buf (incoming fm) seq_id;
     let fm = fm\<lparr>incoming := l\<rparr>;
     let frag = fragments l ! nat i;
     if sz AND FRAG_SIZE_ROUND_MASK \<noteq> 0 then Some (fm, buf\<lparr>b_len := 0\<rparr>)
     else do {
       frag \<leftarrow>
         (if \<not> fr_defined frag \<or> max_frag_size frag \<noteq> sz then do {
            let (b, ok) = buf_init (fr_buf frag) (FRAME_HEADROOM_ADJ f FRAME_HEADROOM_MARKER_FRAGMENT);
            c_assert ok;
            Some (frag\<lparr>fr_defined := True, max_frag_size := sz, fr_map := 0, fr_buf := b\<rparr>)
          } else Some frag);
       (b, ok) \<leftarrow> buf_copy_range (fr_buf frag) (n * sz) buf 0 (b_len buf);
       let frag = frag\<lparr>fr_buf := b\<rparr>;
       if \<not> ok then Some (fm\<lparr>incoming := frag_upd i (\<lambda>_. frag) l\<rparr>, buf\<lparr>b_len := 0\<rparr>)
       else
         (let m = fr_map frag OR push_bit (nat n) (if frag_type = FRAG_YES_LAST then FRAG_MAP_MASK else 1);
              frag = frag\<lparr>fr_map := m, fr_timestamp := local_now\<rparr>
          in if m AND FRAG_MAP_MASK = FRAG_MAP_MASK
             then Some (fm\<lparr>incoming := frag_upd i (\<lambda>_. frag\<lparr>fr_defined := False\<rparr>) l\<rparr>, fr_buf frag)
             else Some (fm\<lparr>incoming := frag_upd i (\<lambda>_. frag) l\<rparr>, buf\<lparr>b_len := 0\<rparr>))
     }
   }"

definition fragment_incoming ::
  "time_t \<Rightarrow> fragment_master \<Rightarrow> buffer \<Rightarrow> frame \<Rightarrow> (fragment_master \<times> buffer) option" where
  "fragment_incoming local_now fm buf f =
     (if b_len buf > 0 then do {
        (buf, hdr) \<leftarrow> buf_read buf 4;
        (case hdr of
           None \<Rightarrow> Some (fm, buf\<lparr>b_len := 0\<rparr>)
         | Some bs \<Rightarrow>
             (let flags = be32_dec bs; frag_type = uint (drop_bit FRAG_TYPE_SHIFT flags AND FRAG_TYPE_MASK) in
              if frag_type = FRAG_WHOLE then
                (if flags AND (FRAG_SEQ_ID_MASK OR FRAG_ID_MASK) \<noteq> 0
                 then Some (fm, buf\<lparr>b_len := 0\<rparr>) else Some (fm, buf))
              else if frag_type = FRAG_YES_NOTLAST \<or> frag_type = FRAG_YES_LAST
              then frag_incoming_part local_now fm buf f flags frag_type
              else Some (fm, buf\<lparr>b_len := 0\<rparr>)))
      } else Some (fm, buf))"

subsection \<open>Sending\<close>

definition fragment_prepend_flags :: "buffer \<Rightarrow> int \<Rightarrow> int \<Rightarrow> int \<Rightarrow> int \<Rightarrow> buffer option" where
  "fragment_prepend_flags buf type seq_id frag_id frag_size = do {
     let flags = push_bit FRAG_TYPE_SHIFT (word_of_int type AND FRAG_TYPE_MASK)
       OR push_bit FRAG_SEQ_ID_SHIFT (word_of_int seq_id AND FRAG_SEQ_ID_MASK)
       OR push_bit FRAG_ID_SHIFT (word_of_int frag_id AND FRAG_ID_MASK);
     let flags =
       (if type = FRAG_WHOLE \<or> type = FRAG_YES_NOTLAST then flags
        else flags OR push_bit FRAG_SIZE_SHIFT
          (word_of_int (drop_bit FRAG_SIZE_ROUND_SHIFT frag_size) AND FRAG_SIZE_MASK));
     (buf, ok) \<leftarrow> buf_write_prepend buf (be32 flags);
     c_assert ok;
     Some buf
   }"

definition optimal_fragment_size :: "int \<Rightarrow> int \<Rightarrow> int option" where
  "optimal_fragment_size len max_size = do {
     let mfs_aligned = max_size AND NOT FRAG_SIZE_ROUND_MASK;
     c_assert (mfs_aligned \<noteq> 0);
     let d = len sdiv mfs_aligned;
     let m = len smod mfs_aligned;
     Some (if d > 0 \<and> m > 0 \<and> m < (mfs_aligned * 3) sdiv 4
           then min_int mfs_aligned
             ((max_size - ((max_size - m) sdiv (d + 1)) + FRAG_SIZE_ROUND_MASK) AND NOT FRAG_SIZE_ROUND_MASK)
           else mfs_aligned)
   }"

definition fragment_outgoing_defined :: "fragment_master \<Rightarrow> bool" where
  "fragment_outgoing_defined fm \<longleftrightarrow> b_len (outgoing fm) > 0"

definition fragment_ready_to_send ::
  "fragment_master \<Rightarrow> buffer \<Rightarrow> frame \<Rightarrow> (fragment_master \<times> buffer \<times> bool) option" where
  "fragment_ready_to_send fm buf f =
     (if fragment_outgoing_defined fm then do {
        let last = b_len (outgoing fm) \<le> outgoing_frag_size fm;
        let sz = (if last then b_len (outgoing fm) else outgoing_frag_size fm);
        let (b, ok) = buf_init (outgoing_return fm) (FRAME_HEADROOM f);
        c_assert ok;
        (b, out, ok) \<leftarrow> buf_copy_n b (outgoing fm) sz;
        c_assert ok;
        b \<leftarrow> fragment_prepend_flags b (if last then FRAG_YES_LAST else FRAG_YES_NOTLAST)
               (outgoing_seq_id fm) (outgoing_frag_id fm) (outgoing_frag_size fm);
        c_assert (\<not> last \<or> b_len out = 0);
        Some (fm\<lparr>outgoing := out, outgoing_frag_id := outgoing_frag_id fm + 1,
                 outgoing_return := (outgoing_return fm)\<lparr>b_data := b_data b\<rparr>\<rparr>, b, True)
      } else Some (fm, buf, False))"

definition fragment_outgoing ::
  "fragment_master \<Rightarrow> buffer \<Rightarrow> frame \<Rightarrow> (fragment_master \<times> buffer) option" where
  "fragment_outgoing fm buf f =
     (if b_len buf > 0 then
        (if b_len buf > PAYLOAD_SIZE_DYNAMIC f then do {
           sz \<leftarrow> optimal_fragment_size (b_len buf) (PAYLOAD_SIZE_DYNAMIC f);
           let fm = fm\<lparr>outgoing_frag_size := sz\<rparr>;
           if b_len buf > sz * MAX_FRAGS then Some (fm, buf\<lparr>b_len := 0\<rparr>)
           else do {
             let (o1, ok) = buf_init (outgoing fm) (FRAME_HEADROOM f);
             c_assert ok;
             (o1, ok) \<leftarrow> buf_copy o1 buf;
             c_assert ok;
             seq \<leftarrow> modulo_add (outgoing_seq_id fm) 1 N_SEQ_ID;
             (fm, buf, ready) \<leftarrow> fragment_ready_to_send
               (fm\<lparr>outgoing := o1, outgoing_seq_id := seq, outgoing_frag_id := 0\<rparr>) (buf\<lparr>b_len := 0\<rparr>) f;
             c_assert ready;
             Some (fm, buf)
           }
         } else map_option (Pair fm) (fragment_prepend_flags buf FRAG_WHOLE 0 0 0))
      else Some (fm, buf))"

subsection \<open>Housekeeping\<close>

definition fragment_ttl_reap :: "time_t \<Rightarrow> fragment_master \<Rightarrow> fragment_master" where
  "fragment_ttl_reap local_now fm =
     fm\<lparr>incoming := (incoming fm)\<lparr>fragments :=
       map (\<lambda>frag. if fr_defined frag \<and> fr_timestamp frag + FRAG_TTL_SEC \<le> local_now
                    then frag\<lparr>fr_defined := False\<rparr> else frag) (fragments (incoming fm))\<rparr>\<rparr>"

definition fragment_wakeup :: "time_t \<Rightarrow> fragment_master \<Rightarrow> fragment_master" where
  "fragment_wakeup local_now fm = fragment_ttl_reap local_now fm"

definition fragment_housekeeping ::
  "time_t \<Rightarrow> fragment_master \<Rightarrow> timeval option \<Rightarrow> fragment_master \<times> timeval option" where
  "fragment_housekeeping local_now fm tv =
     (case event_timeout_trigger local_now (fm_wakeup fm) tv ETT_DEFAULT of
        (et, tv, fired) \<Rightarrow>
          (let fm = fm\<lparr>fm_wakeup := et\<rparr> in (if fired then fragment_wakeup local_now fm else fm, tv)))"

end
