(* ===== verification/Reassembly.thy ===== *)
theory Reassembly
  imports Fragment
begin

text \<open>
  The receiving side of fragment.c: the fields of the header, the slot of a sequence number, the
  choice of the fragment size, and what the reassembly buffer of a slot holds after any set of the fragments of a
  payload has arrived.
\<close>

subsection \<open>The header\<close>

text \<open>The word that \<open>fragment_prepend_flags\<close> builds.\<close>

definition frag_flags :: "int \<Rightarrow> int \<Rightarrow> int \<Rightarrow> int \<Rightarrow> u32" where
  "frag_flags type seq_id frag_id frag_size =
     (let flags = push_bit FRAG_TYPE_SHIFT (word_of_int type AND FRAG_TYPE_MASK)
       OR push_bit FRAG_SEQ_ID_SHIFT (word_of_int seq_id AND FRAG_SEQ_ID_MASK)
       OR push_bit FRAG_ID_SHIFT (word_of_int frag_id AND FRAG_ID_MASK)
      in if type = FRAG_WHOLE \<or> type = FRAG_YES_NOTLAST then flags
         else flags OR push_bit FRAG_SIZE_SHIFT
           (word_of_int (drop_bit FRAG_SIZE_ROUND_SHIFT frag_size) AND FRAG_SIZE_MASK))"

lemma frag_masks:
  "(0x00000003 :: u32) = mask 2" "(0x000000ff :: u32) = mask 8" "(0x0000001f :: u32) = mask 5" "(0x00003fff :: u32) = mask 14"
  by (simp_all add: mask_eq_exp_minus_1)

lemma packed_fields:
  fixes t s i z :: u32
  defines "w \<equiv> take_bit 2 t OR push_bit 2 (take_bit 8 s) OR push_bit 10 (take_bit 5 i) OR push_bit 15 (take_bit 14 z)"
  shows "take_bit 2 w = take_bit 2 t" "take_bit 8 (drop_bit 2 w) = take_bit 8 s"
    "take_bit 5 (drop_bit 10 w) = take_bit 5 i" "take_bit 14 (drop_bit 15 w) = take_bit 14 z"
  unfolding w_def by (auto intro!: bit_word_eqI simp: bit_simps)

lemma uint_field: "0 \<le> x \<Longrightarrow> x < 2 ^ n \<Longrightarrow> n \<le> 32 \<Longrightarrow> uint (take_bit n (word_of_int x :: u32)) = x"
proof -
  assume x: "0 \<le> x" "x < 2 ^ n" "n \<le> 32"
  have "(2 :: int) ^ n \<le> 2 ^ 32" using x(3) by (intro power_increasing) auto
  then have "uint (word_of_int x :: u32) = x" using x by (simp add: uint_word_of_int)
  then show ?thesis using x by (simp add: unsigned_take_bit_eq take_bit_int_eq_self)
qed

lemma frag_flags_fields:
  assumes "0 \<le> ty" "ty < 4" "0 \<le> s" "s < 256" "0 \<le> i" "i < 32" "0 \<le> z" "z < 65536" "z mod 4 = 0"
  defines "w \<equiv> frag_flags ty s i z"
  shows "uint (drop_bit FRAG_TYPE_SHIFT w AND FRAG_TYPE_MASK) = ty"
    "uint (drop_bit FRAG_SEQ_ID_SHIFT w AND FRAG_SEQ_ID_MASK) = s"
    "uint (drop_bit FRAG_ID_SHIFT w AND FRAG_ID_MASK) = i"
    "ty = FRAG_YES_LAST \<Longrightarrow>
       uint (push_bit FRAG_SIZE_ROUND_SHIFT (drop_bit FRAG_SIZE_SHIFT w AND FRAG_SIZE_MASK)) = z"
proof -
  define k where "k = (if ty = FRAG_WHOLE \<or> ty = FRAG_YES_NOTLAST then 0 else z div 4)"
  have w: "w = take_bit 2 (word_of_int ty) OR push_bit 2 (take_bit 8 (word_of_int s)) OR
      push_bit 10 (take_bit 5 (word_of_int i)) OR push_bit 15 (take_bit 14 (word_of_int k))"
    unfolding w_def frag_flags_def k_def
    by (simp add: frag_consts frag_masks take_bit_eq_mask drop_bit_eq_div Let_def or.assoc)
  note f = packed_fields [of "word_of_int ty" "word_of_int s" "word_of_int i" "word_of_int k", folded w]
  show "uint (drop_bit FRAG_TYPE_SHIFT w AND FRAG_TYPE_MASK) = ty"
    using f(1) assms(1,2) uint_field [of ty 2] by (simp add: frag_consts frag_masks flip: take_bit_eq_mask)
  show "uint (drop_bit FRAG_SEQ_ID_SHIFT w AND FRAG_SEQ_ID_MASK) = s"
    using f(2) assms(3,4) uint_field [of s 8] by (simp add: frag_consts frag_masks flip: take_bit_eq_mask)
  show "uint (drop_bit FRAG_ID_SHIFT w AND FRAG_ID_MASK) = i"
    using f(3) assms(5,6) uint_field [of i 5] by (simp add: frag_consts frag_masks flip: take_bit_eq_mask)
  assume "ty = FRAG_YES_LAST"
  then have k: "k = z div 4" by (simp add: k_def frag_consts)
  then have "uint (drop_bit 15 w AND mask 14) = z div 4"
    using f(4) assms(7,8) uint_field [of "z div 4" 14] by (simp flip: take_bit_eq_mask)
  moreover have "z div 4 * 4 = z" using assms(9) by (simp add: dvd_eq_mod_eq_0 [symmetric])
  ultimately show "uint (push_bit FRAG_SIZE_ROUND_SHIFT (drop_bit FRAG_SIZE_SHIFT w AND FRAG_SIZE_MASK)) = z"
    using assms(7,8) by (simp add: frag_consts frag_masks push_bit_eq_mult uint_word_ariths)
qed

subsection \<open>The slot of a sequence number\<close>

definition list_ok :: "fragment_list \<Rightarrow> bool" where
  "list_ok l \<longleftrightarrow> length (fragments l) = 25 \<and> 0 \<le> fl_index l \<and> fl_index l < 25 \<and> 0 \<le> fl_seq_id l \<and> fl_seq_id l < 256"

lemma frag_advance_spec:
  "list_ok l \<Longrightarrow> \<exists>l'. frag_advance n l = Some l' \<and> list_ok l' \<and> fl_seq_id l' = (fl_seq_id l + int n) mod 256 \<and>
     map fr_buf (fragments l') = map fr_buf (fragments l)"
proof (induction n arbitrary: l)
  case (Suc n)
  have add: "modulo_add (fl_index l) 1 25 = Some ((fl_index l + 1) mod 25)"
    "modulo_add (fl_seq_id l) 1 256 = Some ((fl_seq_id l + 1) mod 256)"
    using Suc.prems by (simp_all add: list_ok_def modulo_add_mod)
  define l1 where "l1 = (frag_upd ((fl_index l + 1) mod 25) (fr_defined_update (\<lambda>_. False))
      (l\<lparr>fl_index := (fl_index l + 1) mod 25\<rparr>))\<lparr>fl_seq_id := (fl_seq_id l + 1) mod 256\<rparr>"
  have l1: "list_ok l1" "fl_seq_id l1 = (fl_seq_id l + 1) mod 256"
    using Suc.prems by (simp_all add: list_ok_def l1_def frag_upd_def)
  have "map fr_buf (fragments l1) = map fr_buf (fragments l)"
    using Suc.prems by (auto simp: list_ok_def l1_def frag_upd_def map_update intro!: list_eq_iff_nth_eq [THEN iffD2] simp: nth_list_update)
  moreover have "frag_advance (Suc n) l = frag_advance n l1"
    using add by (simp add: N_FRAG_BUF_def N_SEQ_ID_def l1_def frag_upd_def)
  moreover have "(fl_seq_id l1 + int n) mod 256 = (fl_seq_id l + int (Suc n)) mod 256"
    unfolding l1(2) by (simp add: mod_simps algebra_simps)
  ultimately show ?case using Suc.IH [OF l1(1)] by simp
qed (simp add: list_ok_def)

lemma get_buf_spec:
  assumes "list_ok l" "0 \<le> seq" "seq < 256"
  obtains l' i where "fragment_list_get_buf l seq = Some (l', i)" "list_ok l'" "0 \<le> i" "i < 25"
    "map fr_buf (fragments l') = map fr_buf (fragments l)"
    "\<And>fs. length fs = 25 \<Longrightarrow> fragment_list_get_buf (l'\<lparr>fragments := fs\<rparr>) seq = Some (l'\<lparr>fragments := fs\<rparr>, i)"
proof -
  obtain d where d: "modulo_subtract seq (fl_seq_id l) 256 = Some d"
    using assms by (simp add: modulo_subtract_def list_ok_def Let_def)
  have self: "modulo_subtract s s 256 = Some 0" if "0 \<le> s" "s < 256" for s
    using that by (simp add: modulo_subtract_def)
  consider (reset) "\<bar>d\<bar> \<ge> 25" | (ahead) "0 < d" "d < 25" | (behind) "-25 < d" "d \<le> 0" by linarith
  then show thesis
  proof cases
    case reset
    define l' where "l' = l\<lparr>fragments := map (fr_defined_update (\<lambda>_. False)) (fragments l), fl_index := 0, fl_seq_id := seq\<rparr>"
    have "fragment_list_get_buf l seq = Some (l', 0)"
      using d reset by (simp add: fragment_list_get_buf_def N_SEQ_ID_def N_FRAG_BUF_def l'_def modulo_add_def)
    then show thesis
      using assms self [of seq]
      by (intro that [of l' 0])
        (simp_all add: l'_def list_ok_def fragment_list_get_buf_def N_SEQ_ID_def N_FRAG_BUF_def modulo_add_def o_def)
  next
    case ahead
    obtain l' where l': "frag_advance (nat d) l = Some l'" "list_ok l'" "fl_seq_id l' = (fl_seq_id l + int (nat d)) mod 256"
      "map fr_buf (fragments l') = map fr_buf (fragments l)"
      using frag_advance_spec [OF assms(1)] by blast
    have seq: "fl_seq_id l' = seq" using l'(3) ahead modulo_subtract_cong [OF d] by simp
    have run: "fragment_list_get_buf l seq = Some (l', fl_index l')"
      using d ahead l'(1,2) by (simp add: fragment_list_get_buf_def N_SEQ_ID_def N_FRAG_BUF_def modulo_add_mod list_ok_def)
    then show thesis
      using assms(2,3) self [of seq] l'(2,4) seq
      by (intro that [OF run])
        (simp_all add: list_ok_def fragment_list_get_buf_def N_SEQ_ID_def N_FRAG_BUF_def modulo_add_mod)
  next
    case behind
    let ?i = "(fl_index l + d) mod 25"
    have *: "fragment_list_get_buf (l\<lparr>fragments := fs\<rparr>) seq = Some (l\<lparr>fragments := fs\<rparr>, ?i)" for fs
      using d behind assms(1) by (simp add: fragment_list_get_buf_def N_SEQ_ID_def N_FRAG_BUF_def modulo_add_mod list_ok_def)
    have "fragment_list_get_buf l seq = Some (l, ?i)" using * [of "fragments l"] by simp
    then show thesis using * assms(1) by (intro that [of l ?i]) simp_all
  qed
qed

subsection \<open>The fragment size\<close>

lemma and_not_3: "(x :: int) AND - 4 = x - x mod 4"
proof -
  have "x - (x AND 3) = x AND NOT (x AND 3)" by (rule disjunctive_diff) (simp add: bit_simps)
  also have "\<dots> = x AND NOT 3" by (rule bit_eqI) (auto simp: bit_simps)
  finally show ?thesis by (simp add: and_3_mod)
qed

lemma round_mask [simp]: "FRAG_SIZE_ROUND_MASK = 3"
  by (simp add: frag_consts)

lemma sdiv_pos [simp]: "0 \<le> a \<Longrightarrow> 0 < b \<Longrightarrow> (a :: int) sdiv b = a div b" "0 \<le> a \<Longrightarrow> 0 < b \<Longrightarrow> (a :: int) smod b = a mod b"
  by (simp_all add: signed_divide_int_def signed_modulo_int_def sgn_if minus_mult_div_eq_mod [symmetric] algebra_simps)

lemma optimal_size_spec:
  assumes "0 \<le> n" "4 \<le> m" "optimal_fragment_size n m = Some z"
  shows "0 < z" "z \<le> m" "z mod 4 = 0" "n \<le> z * ((n + (m - m mod 4) - 1) div (m - m mod 4))" "z \<le> m - m mod 4"
proof -
  define a where "a = m - m mod 4"
  have a: "0 < a" "a \<le> m" "a mod 4 = 0" "m \<le> a + 3"
    using assms(2) unfolding a_def by presburger+
  define d where "d = n div a"
  define r where "r = n mod a"
  have n: "n = a * d + r" "0 \<le> r" "r < a" "0 \<le> d"
    using assms(1) a(1) by (simp_all add: d_def r_def pos_imp_zdiv_nonneg_iff)
  have z: "z = (if d > 0 \<and> r > 0 \<and> r < a * 3 div 4
      then min a (let y = m - (m - r) div (d + 1) + 3 in y - y mod 4) else a)"
  proof -
    have "n sdiv a = d" "n smod a = r" "(a * 3) sdiv 4 = a * 3 div 4" using assms(1) a(1) by (simp_all add: d_def r_def)
    moreover have "(m - r) sdiv (d + 1) = (m - r) div (d + 1)" using n(3,4) a(2) by simp
    ultimately show ?thesis
      using assms(3) a(1) by (auto simp: optimal_fragment_size_def and_not_3 Let_def min_def simp flip: a_def)
  qed
  have up: "(n + a - 1) div a = (if r = 0 then d else d + 1)"
  proof -
    have "n + a - 1 = (if r = 0 then a - 1 else r - 1) + a * (if r = 0 then d else d + 1)"
      by (simp add: n(1) algebra_simps)
    moreover have "(if r = 0 then a - 1 else r - 1) div a = 0" using a(1) n(2,3) by (auto intro!: div_pos_pos_trivial)
    ultimately show ?thesis using a(1) by (simp only: div_mult_self2)
  qed
  have main: "0 < z \<and> z \<le> a \<and> z mod 4 = 0 \<and> n \<le> z * ((n + a - 1) div a)"
  proof (cases "d > 0 \<and> r > 0 \<and> r < a * 3 div 4")
    case False
    then have "z = a" by (subst z) (simp only: if_False)
    then show ?thesis using a(1,3) n up by (simp add: distrib_left)
  next
    case True
    define q where "q = (m - r) div (d + 1)"
    define y where "y = m - q + 3"
    have q: "(d + 1) * q \<le> m - r"
      using True pos_mod_sign [of "d + 1" "m - r"] mult_div_mod_eq [of "d + 1" "m - r"] unfolding q_def by linarith
    have "q \<le> (d + 1) * q" if "0 \<le> q" using that n(4) by (simp add: distrib_right)
    then have "q < m" using q True a(1,2) by (cases "0 \<le> q") auto
    have y: "m - q \<le> y - y mod 4" "(y - y mod 4) mod 4 = 0" unfolding y_def by presburger+
    have zz: "z = min a (y - y mod 4)" using z True by (simp add: Let_def y_def q_def)
    have "a * d \<le> m * d" using a(2) n(4) by (rule mult_right_mono)
    then have "n \<le> (m - q) * (d + 1)" using q n(1) by (simp add: algebra_simps)
    also have "\<dots> \<le> (y - y mod 4) * (d + 1)" using y(1) n(4) by (intro mult_right_mono) auto
    finally have "n \<le> z * (d + 1)" using n(1,3) by (simp add: zz min_def distrib_left)
    then show ?thesis using True up zz y a \<open>q < m\<close> by (auto simp: min_def)
  qed
  show "0 < z" "z \<le> m" "z mod 4 = 0" "n \<le> z * ((n + (m - m mod 4) - 1) div (m - m mod 4))" "z \<le> m - m mod 4"
    using main a(2) by (simp_all flip: a_def)
qed

subsection \<open>The pieces of a payload\<close>

definition chunk :: "byte list \<Rightarrow> nat \<Rightarrow> nat \<Rightarrow> byte list" where
  "chunk p z j = take z (drop (j * z) p)"

text \<open>The index of the last fragment.\<close>

definition last_frag :: "byte list \<Rightarrow> nat \<Rightarrow> nat" where
  "last_frag p z = (length p - 1) div z"

definition frag_packet :: "int \<Rightarrow> byte list \<Rightarrow> nat \<Rightarrow> nat \<Rightarrow> byte list" where
  "frag_packet seq p z j =
     be32 (frag_flags (if j = last_frag p z then FRAG_YES_LAST else FRAG_YES_NOTLAST) seq (int j) (int z)) @ chunk p z j"

lemma last_frag_bounds:
  assumes "p \<noteq> []" "0 < z"
  shows "last_frag p z * z < length p" "length p \<le> (last_frag p z + 1) * z"
proof -
  have "last_frag p z * z \<le> length p - 1" by (simp add: last_frag_def)
  then show "last_frag p z * z < length p" using assms(1) by (cases p) auto
  have "length p - 1 < (last_frag p z + 1) * z"
    using assms(2) dividend_less_div_times [of z "length p - 1"] by (simp add: last_frag_def algebra_simps)
  then show "length p \<le> (last_frag p z + 1) * z" by simp
qed

lemma chunk_range:
  assumes "p \<noteq> []" "0 < z" "j \<le> last_frag p z"
  shows "j * z + length (chunk p z j) \<le> length p" "0 < length (chunk p z j)" "length (chunk p z j) \<le> z"
    "j < last_frag p z \<Longrightarrow> length (chunk p z j) = z" "j = last_frag p z \<Longrightarrow> j * z + length (chunk p z j) = length p"
proof -
  note b = last_frag_bounds [OF assms(1,2)]
  have j: "j * z < length p" using b(1) assms(3) by (meson le_less_trans mult_le_mono1)
  then show "j * z + length (chunk p z j) \<le> length p" "0 < length (chunk p z j)" "length (chunk p z j) \<le> z"
    using assms(2) by (simp_all add: chunk_def)
  show "length (chunk p z j) = z" if "j < last_frag p z"
  proof -
    have "(j + 1) * z \<le> last_frag p z * z" using that by (intro mult_le_mono1) simp
    then show ?thesis using b(1) by (simp add: chunk_def)
  qed
  show "j * z + length (chunk p z j) = length p" if "j = last_frag p z"
    using b that by (simp add: chunk_def)
qed

lemma chunk_index:
  assumes "p \<noteq> []" "0 < z" "j \<le> last_frag p z" "i < length p"
  shows "i div z = j \<longleftrightarrow> j * z \<le> i \<and> i < j * z + length (chunk p z j)"
proof
  assume d: "i div z = j"
  then have "j * z \<le> i" "i < j * z + z" using assms(2) dividend_less_div_times [of z i] by auto
  moreover have "length (chunk p z j) = min z (length p - j * z)" by (simp add: chunk_def min.commute)
  ultimately show "j * z \<le> i \<and> i < j * z + length (chunk p z j)" using assms(4) by simp
next
  assume i: "j * z \<le> i \<and> i < j * z + length (chunk p z j)"
  then have "i < (j + 1) * z" using chunk_range(3) [OF assms(1-3)] by simp
  then have "i div z < j + 1" using assms(2) by (simp add: less_mult_imp_div_less)
  moreover have "j \<le> i div z" using i assms(2) by (simp add: less_eq_div_iff_mult_less_eq)
  ultimately show "i div z = j" by simp
qed

lemma index_div_le:
  assumes "p \<noteq> []" "i < length p"
  shows "i div z \<le> last_frag p z"
  using assms by (simp add: last_frag_def div_le_mono)

subsection \<open>Copying into the reassembly buffer\<close>

lemma buf_copy_range_spec:
  assumes "buf_ok d" "buf_ok s" "int k + int (length (content s)) \<le> b_capacity d - b_offset d"
  obtains d' where "buf_copy_range d (int k) s 0 (b_len s) = Some (d', True)" "buf_ok d'"
    "b_offset d' = b_offset d" "b_capacity d' = b_capacity d" "b_len d' = max (b_len d) (int (k + length (content s)))"
    "\<And>i. nat (b_offset d) + i < length (the (b_data d)) \<Longrightarrow> the (b_data d') ! (nat (b_offset d) + i) =
       (if k \<le> i \<and> i < k + length (content s) then content s ! (i - k) else the (b_data d) ! (nat (b_offset d) + i))"
proof -
  obtain m where m: "b_data d = Some m" "b_capacity d = int (length m)" "0 \<le> b_offset d" "0 \<le> b_len d"
    "b_capacity d < BUF_SIZE_MAX" "b_offset d + b_len d \<le> b_capacity d"
    using assms(1) by (auto simp: buf_ok_def split: option.splits)
  have load: "load_at s (b_offset s) (b_len s) = Some (content s)"
    using assms(2) by (auto simp: load_at_def mem_read_def content_def buf_ok_def split: option.splits)
  define pos where "pos = nat (b_offset d) + k"
  have pos: "nat (b_offset d + int k) = pos" "pos + length (content s) \<le> length m"
    using m assms(3) by (auto simp: pos_def nat_add_distrib)
  define m' where "m' = take pos m @ content s @ drop (pos + length (content s)) m"
  define d' where "d' = d\<lparr>b_data := Some m', b_len := max (b_len d) (int (k + length (content s)))\<rparr>"
  have len: "length m' = length m" using pos(2) by (simp add: m'_def)
  have "store_at d (b_offset d + int k) (content s) = Some (d\<lparr>b_data := Some m'\<rparr>)"
    using m pos assms(3) by (simp add: store_at_def mem_write_def m'_def)
  moreover have "b_len s = int (length (content s))" by (rule buf_ok_len [OF assms(2)])
  ultimately have "buf_copy_range d (int k) s 0 (b_len s) = Some (d', True)"
    using assms(3) load m by (auto simp: buf_copy_range_def d'_def max_def)
  moreover have "buf_ok d'" using m len assms(3) by (auto simp: buf_ok_def d'_def)
  moreover have "m' ! (nat (b_offset d) + i) =
      (if k \<le> i \<and> i < k + length (content s) then content s ! (i - k) else m ! (nat (b_offset d) + i))"
    if "nat (b_offset d) + i < length m" for i
    using that pos(2) by (auto simp: m'_def nth_append pos_def)
  ultimately show thesis using that [of d'] m by (simp add: d'_def)
qed

subsection \<open>A partly received payload\<close>

definition partial :: "byte list \<Rightarrow> nat \<Rightarrow> nat \<Rightarrow> nat set \<Rightarrow> fragment \<Rightarrow> bool" where
  "partial p z off S frag \<longleftrightarrow> fr_defined frag \<and> max_frag_size frag = int z \<and>
     (\<forall>i < 32. bit (fr_map frag) i \<longleftrightarrow> (if i < last_frag p z then i \<in> S else last_frag p z \<in> S)) \<and>
     buf_ok (fr_buf frag) \<and> b_offset (fr_buf frag) = int off \<and> int (off + length p) \<le> b_capacity (fr_buf frag) \<and>
     (\<forall>i < length p. i div z \<in> S \<longrightarrow> the (b_data (fr_buf frag)) ! (off + i) = p ! i) \<and>
     b_len (fr_buf frag) \<le> int (length p) \<and> (last_frag p z \<in> S \<longrightarrow> b_len (fr_buf frag) = int (length p))"

lemma frag_map_mask: "FRAG_MAP_MASK = - 1"
  by (simp add: FRAG_MAP_MASK_def)

lemma map_full:
  assumes "last_frag p z \<le> 31" "S \<subseteq> {..last_frag p z}"
    "\<forall>i < 32. bit (m :: u32) i \<longleftrightarrow> (if i < last_frag p z then i \<in> S else last_frag p z \<in> S)"
  shows "m AND FRAG_MAP_MASK = FRAG_MAP_MASK \<longleftrightarrow> S = {..last_frag p z}"
proof -
  have "m AND FRAG_MAP_MASK = FRAG_MAP_MASK \<longleftrightarrow> m = - 1" unfolding frag_map_mask and.right_neutral by (rule refl)
  also have "\<dots> \<longleftrightarrow> (\<forall>i < 32. bit m i)" by (auto intro: bit_word_eqI)
  also have "\<dots> \<longleftrightarrow> (\<forall>i \<le> last_frag p z. i \<in> S)"
  proof
    assume a: "\<forall>i < 32. bit m i"
    show "\<forall>i \<le> last_frag p z. i \<in> S"
    proof (intro allI impI)
      fix i assume "i \<le> last_frag p z"
      then show "i \<in> S"
        using a [rule_format, of i] assms(3) [rule_format, of i] assms(1) by (cases "i < last_frag p z") auto
    qed
  qed (use assms(3) in auto)
  also have "\<dots> \<longleftrightarrow> S = {..last_frag p z}" using assms(2) by auto
  finally show ?thesis .
qed

lemma partial_full:
  assumes "partial p z off {..last_frag p z} frag" "p \<noteq> []"
  shows "content (fr_buf frag) = p" "buf_ok (fr_buf frag)"
proof -
  show ok: "buf_ok (fr_buf frag)" using assms by (simp add: partial_def)
  obtain m where m: "b_data (fr_buf frag) = Some m" "b_capacity (fr_buf frag) = int (length m)"
    using ok by (auto simp: buf_ok_def split: option.splits)
  have b: "b_len (fr_buf frag) = int (length p)" "b_offset (fr_buf frag) = int off" "off + length p \<le> length m"
    "\<And>i. i < length p \<Longrightarrow> m ! (off + i) = p ! i"
    using assms m index_div_le [OF assms(2)] by (auto simp: partial_def)
  show "content (fr_buf frag) = p"
    using b by (simp add: content_def m(1) list_eq_iff_nth_eq)
qed

subsection \<open>One fragment arrives\<close>

text \<open>The slot of the payload's sequence number: free, or holding the fragments \<open>S\<close>.\<close>

definition slot_holds :: "byte list \<Rightarrow> nat \<Rightarrow> nat \<Rightarrow> nat set \<Rightarrow> fragment \<Rightarrow> bool" where
  "slot_holds p z off S frag \<longleftrightarrow>
     (if fr_defined frag then partial p z off S frag
      else S = {} \<and> buf_ok (fr_buf frag) \<and> int (off + length p) \<le> b_capacity (fr_buf frag))"

definition frag_geometry :: "byte list \<Rightarrow> nat \<Rightarrow> bool" where
  "frag_geometry p z \<longleftrightarrow> p \<noteq> [] \<and> 0 < z \<and> z < 65536 \<and> z mod 4 = 0 \<and> last_frag p z \<le> 31"

lemma partial_insert:
  assumes "frag_geometry p z" "partial p z off S frag" "j \<le> last_frag p z" "S \<subseteq> {..last_frag p z}"
    "buf_ok b" "content b = chunk p z j"
  obtains b' where "buf_copy_range (fr_buf frag) (int j * int z) b 0 (b_len b) = Some (b', True)"
    "partial p z off (insert j S)
       (frag\<lparr>fr_buf := b', fr_map := fr_map frag OR push_bit j (if j = last_frag p z then FRAG_MAP_MASK else 1), fr_timestamp := ts\<rparr>)"
proof -
  note g = assms(1) [unfolded frag_geometry_def]
  have p: "p \<noteq> []" "0 < z" "last_frag p z \<le> 31" using g by auto
  note pa = assms(2) [unfolded partial_def]
  note c = chunk_range [OF p(1,2) assms(3)]
  have room: "int (j * z) + int (length (content b)) \<le> b_capacity (fr_buf frag) - b_offset (fr_buf frag)"
  proof -
    have "int (j * z + length (chunk p z j)) \<le> int (length p)" using c(1) by (simp only: of_nat_le_iff)
    moreover have "b_offset (fr_buf frag) = int off" "int (off + length p) \<le> b_capacity (fr_buf frag)" using pa by auto
    ultimately show ?thesis unfolding assms(6) of_nat_add by linarith
  qed
  obtain b' where b': "buf_copy_range (fr_buf frag) (int (j * z)) b 0 (b_len b) = Some (b', True)" "buf_ok b'"
    "b_offset b' = b_offset (fr_buf frag)" "b_capacity b' = b_capacity (fr_buf frag)"
    "b_len b' = max (b_len (fr_buf frag)) (int (j * z + length (content b)))"
    "\<And>i. nat (b_offset (fr_buf frag)) + i < length (the (b_data (fr_buf frag))) \<Longrightarrow>
       the (b_data b') ! (nat (b_offset (fr_buf frag)) + i) =
         (if j * z \<le> i \<and> i < j * z + length (content b) then content b ! (i - j * z)
          else the (b_data (fr_buf frag)) ! (nat (b_offset (fr_buf frag)) + i))"
    using buf_copy_range_spec [OF _ assms(5) room] pa by blast
  have len: "int (length (the (b_data (fr_buf frag)))) = b_capacity (fr_buf frag)"
    using pa by (auto simp: buf_ok_def split: option.splits)
  have bytes: "the (b_data b') ! (off + i) = p ! i" if i: "i < length p" "i div z \<in> insert j S" for i
  proof -
    have "off + i < length (the (b_data (fr_buf frag)))" using len pa i(1) by simp
    then have at: "the (b_data b') ! (off + i) =
        (if j * z \<le> i \<and> i < j * z + length (chunk p z j) then chunk p z j ! (i - j * z)
         else the (b_data (fr_buf frag)) ! (off + i))"
      using b'(6) [of i] pa by (simp add: assms(6))
    show ?thesis
    proof (cases "i div z = j")
      case True
      then have "j * z \<le> i \<and> i < j * z + length (chunk p z j)" using chunk_index [OF p(1,2) assms(3) i(1)] by simp
      moreover from this have "i - j * z < z" using c(3) by linarith
      ultimately show ?thesis using at i(1) by (simp add: chunk_def)
    next
      case False
      then show ?thesis using at chunk_index [OF p(1,2) assms(3) i(1)] i pa by auto
    qed
  qed
  have bits: "bit (fr_map frag OR push_bit j (if j = last_frag p z then FRAG_MAP_MASK else 1)) i \<longleftrightarrow>
      (if i < last_frag p z then i \<in> insert j S else last_frag p z \<in> insert j S)" if i: "i < 32" for i
  proof -
    have full: "bit FRAG_MAP_MASK k \<longleftrightarrow> k < 32" for k by (simp add: frag_map_mask)
    have "bit (push_bit j (if j = last_frag p z then FRAG_MAP_MASK else 1)) i \<longleftrightarrow>
        (if j = last_frag p z then j \<le> i else i = j)"
    proof -
      have "bit (push_bit j FRAG_MAP_MASK) i \<longleftrightarrow> j \<le> i" using i full [of "i - j"] by (auto simp: bit_push_bit_iff)
      moreover have "bit (push_bit j 1 :: u32) i \<longleftrightarrow> i = j" using i by (auto simp: bit_exp_iff)
      ultimately show ?thesis by (cases "j = last_frag p z") simp_all
    qed
    moreover have "bit (fr_map frag) i \<longleftrightarrow> (if i < last_frag p z then i \<in> S else last_frag p z \<in> S)"
      using pa i by blast
    ultimately show ?thesis using assms(3) by (auto simp: bit_or_iff)
  qed
  have e: "int (j * z + length (chunk p z j)) \<le> int (length p)" using c(1) by (simp only: of_nat_le_iff)
  have pl: "b_len (fr_buf frag) \<le> int (length p)" using pa by blast
  have "b_len b' \<le> int (length p)" unfolding b'(5) assms(6) using pl e by (rule max.boundedI)
  moreover have "b_len b' = int (length p)" if "last_frag p z \<in> insert j S"
  proof (cases "last_frag p z = j")
    case True
    then show ?thesis unfolding b'(5) assms(6) using pl c(5) by (simp only: max_absorb2)
  next
    case False
    then have "b_len (fr_buf frag) = int (length p)" using that pa by blast
    then show ?thesis unfolding b'(5) assms(6) using e by (simp only: max_absorb1)
  qed
  ultimately have "partial p z off (insert j S)
      (frag\<lparr>fr_buf := b', fr_map := fr_map frag OR push_bit j (if j = last_frag p z then FRAG_MAP_MASK else 1), fr_timestamp := ts\<rparr>)"
    using pa b'(2-4) bytes bits by (simp add: partial_def)
  moreover have "int j * int z = int (j * z)" by simp
  ultimately show thesis using that b'(1) by metis
qed

lemma part_step:
  assumes g: "frag_geometry p z" and seq: "0 \<le> seq" "seq < 256"
    and j: "j \<le> last_frag p z" "S \<subseteq> {..last_frag p z}"
    and b: "buf_ok b" "content b = chunk p z j"
    and ty: "ty = (if j = last_frag p z then FRAG_YES_LAST else FRAG_YES_NOTLAST)"
    and get: "fragment_list_get_buf (incoming fm) seq = Some (l, i)"
    and slot: "slot_holds p z off S (fragments l ! nat i)" "int off = FRAME_HEADROOM_ADJ f FRAME_HEADROOM_MARKER_FRAGMENT"
  shows "\<exists>frag'. partial p z off (insert j S) frag' \<and>
    frag_incoming_part ts fm b f (frag_flags ty seq (int j) (int z)) ty =
      (if insert j S = {..last_frag p z}
       then Some (fm\<lparr>incoming := frag_upd i (\<lambda>_. frag'\<lparr>fr_defined := False\<rparr>) l\<rparr>, fr_buf frag')
       else Some (fm\<lparr>incoming := frag_upd i (\<lambda>_. frag') l\<rparr>, b\<lparr>b_len := 0\<rparr>))"
proof -
  note gg = g [unfolded frag_geometry_def]
  have p: "p \<noteq> []" "0 < z" "last_frag p z \<le> 31" using gg by auto
  define w where "w = frag_flags ty seq (int j) (int z)"
  have "z < 65536" "z mod 4 = 0" using gg by auto
  then have z: "int z < 65536" "int z mod 4 = 0" by presburger+
  have tyb: "0 \<le> ty" "ty < 4" and jb: "0 \<le> int j" "int j < 32" using j(1) p(3) by (simp_all add: ty frag_consts)
  note F = frag_flags_fields [OF tyb seq jb of_nat_0_le_iff z, folded w_def]
  have last: "ty = FRAG_YES_LAST \<longleftrightarrow> j = last_frag p z" by (simp add: ty frag_consts)
  have sz: "(if ty = FRAG_YES_LAST then uint (push_bit FRAG_SIZE_ROUND_SHIFT (drop_bit FRAG_SIZE_SHIFT w AND FRAG_SIZE_MASK))
      else b_len b) = int z"
    using F(4) ty chunk_range(4) [OF p(1,2) j(1)] j(1) buf_ok_len [OF b(1)] b(2) last
    by (cases "j = last_frag p z") simp_all
  define frag where "frag = fragments l ! nat i"
  obtain frag0 where start: "(if \<not> fr_defined frag \<or> max_frag_size frag \<noteq> int z then do {
            (b, ok) \<leftarrow> Some (buf_init (fr_buf frag) (FRAME_HEADROOM_ADJ f FRAME_HEADROOM_MARKER_FRAGMENT));
            c_assert ok;
            Some (frag\<lparr>fr_defined := True, max_frag_size := int z, fr_map := 0, fr_buf := b\<rparr>)
          } else Some frag) = Some frag0" "partial p z off S frag0"
  proof (cases "fr_defined frag")
    case True
    then have "partial p z off S frag" using slot by (simp add: slot_holds_def frag_def)
    then show ?thesis using True that [of frag] by (simp add: partial_def)
  next
    case False
    then have s: "S = {}" "buf_ok (fr_buf frag)" "int (off + length p) \<le> b_capacity (fr_buf frag)"
      using slot by (simp_all add: slot_holds_def frag_def)
    obtain b1 where b1: "buf_init (fr_buf frag) (int off) = (b1, True)" "buf_ok b1" "content b1 = []"
      "headroom b1 = nat (int off)" "b_capacity b1 = b_capacity (fr_buf frag)"
      using buf_init_ok [OF s(2), of "int off"] s(3) by auto
    have "partial p z off S (frag\<lparr>fr_defined := True, max_frag_size := int z, fr_map := 0, fr_buf := b1\<rparr>)"
      using s b1(2-5) buf_ok_len [OF b1(2)] buf_ok_offset [OF b1(2)] by (simp add: partial_def)
    then show ?thesis using False b1(1) slot(2) that by simp
  qed
  obtain b' where b': "buf_copy_range (fr_buf frag0) (int j * int z) b 0 (b_len b) = Some (b', True)"
    "partial p z off (insert j S)
       (frag0\<lparr>fr_buf := b', fr_map := fr_map frag0 OR push_bit j (if j = last_frag p z then FRAG_MAP_MASK else 1), fr_timestamp := ts\<rparr>)"
    using partial_insert [OF g start(2) j b] by blast
  define frag' where "frag' = frag0\<lparr>fr_buf := b',
    fr_map := fr_map frag0 OR push_bit j (if j = last_frag p z then FRAG_MAP_MASK else 1), fr_timestamp := ts\<rparr>"
  have full: "fr_map frag' AND FRAG_MAP_MASK = FRAG_MAP_MASK \<longleftrightarrow> insert j S = {..last_frag p z}"
    using map_full [OF p(3), of "insert j S" "fr_map frag'"] b'(2) j by (simp add: partial_def frag'_def)
  have z4: "int z AND FRAG_SIZE_ROUND_MASK = 0" using z(2) by (simp add: and_3_mod)
  have "frag_incoming_part ts fm b f w ty =
      (if insert j S = {..last_frag p z}
       then Some (fm\<lparr>incoming := frag_upd i (\<lambda>_. frag'\<lparr>fr_defined := False\<rparr>) l\<rparr>, fr_buf frag')
       else Some (fm\<lparr>incoming := frag_upd i (\<lambda>_. frag') l\<rparr>, b\<lparr>b_len := 0\<rparr>))"
    unfolding frag_incoming_part_def Let_def sz F(2,3) get
    using full
    by (simp only: Option.bind_lunit prod.case start(1) [unfolded frag_def Option.bind_lunit] z4 simp_thms if_False)
      (simp add: last frag'_def b'(1))
  then show ?thesis using b'(2) by (auto simp: w_def frag'_def)
qed

subsection \<open>A run of arrivals\<close>

text \<open>Packets arrive with their times; what \<open>fragment_incoming\<close> leaves in the buffer is collected.\<close>

fun frag_receive ::
  "fragment_master \<Rightarrow> frame \<Rightarrow> (time_t \<times> byte list) list \<Rightarrow> (fragment_master \<times> byte list list) option" where
  "frag_receive fm f [] = Some (fm, [])"
| "frag_receive fm f ((ts, bs) # pkts) = do {
     (fm, b) \<leftarrow> fragment_incoming ts fm (packet_buf bs) f;
     (fm, out) \<leftarrow> frag_receive fm f pkts;
     Some (fm, content b # out)
   }"

definition at_slot :: "fragment_list \<Rightarrow> int \<Rightarrow> fragment_list \<Rightarrow> int \<Rightarrow> bool" where
  "at_slot l0 seq l i \<longleftrightarrow> fragment_list_get_buf l0 seq = Some (l, i) \<and> list_ok l \<and> 0 \<le> i \<and> i < 25 \<and>
     (\<forall>fs. length fs = 25 \<longrightarrow> fragment_list_get_buf (l\<lparr>fragments := fs\<rparr>) seq = Some (l\<lparr>fragments := fs\<rparr>, i))"

lemma at_slot_upd:
  assumes "at_slot l0 seq l i"
  shows "at_slot (frag_upd i g l) seq (frag_upd i g l) i" "fragments (frag_upd i g l) ! nat i = g (fragments l ! nat i)"
  using assms by (auto simp: at_slot_def list_ok_def frag_upd_def)

lemma incoming_step:
  assumes g: "frag_geometry p z" and seq: "0 \<le> seq" "seq < 256"
    and j: "j \<le> last_frag p z" "S \<subseteq> {..last_frag p z}"
    and slot: "at_slot (incoming fm) seq l i" "slot_holds p z off S (fragments l ! nat i)"
      "int off = FRAME_HEADROOM_ADJ f FRAME_HEADROOM_MARKER_FRAGMENT"
  shows "\<exists>fm' b frag' l'. fragment_incoming ts fm (packet_buf (frag_packet seq p z j)) f = Some (fm', b) \<and>
    at_slot (incoming fm') seq l' i \<and> fragments l' ! nat i = frag' \<and>
    (if insert j S = {..last_frag p z} then content b = p else content b = [] \<and> slot_holds p z off (insert j S) frag')"
proof -
  note gg = g [unfolded frag_geometry_def]
  have p: "p \<noteq> []" "0 < z" using gg by auto
  define ty where "ty = (if j = last_frag p z then FRAG_YES_LAST else FRAG_YES_NOTLAST)"
  define w where "w = frag_flags ty seq (int j) (int z)"
  define b0 where "b0 = packet_buf (frag_packet seq p z j)"
  have pk: "frag_packet seq p z j = be32 w @ chunk p z j" by (simp add: frag_packet_def w_def ty_def)
  have "int (length (frag_packet seq p z j)) < BUF_SIZE_MAX"
    using chunk_range(3) [OF p j(1)] gg by (simp add: pk BUF_SIZE_MAX_def)
  from packet_buf_ok [OF this] have b0: "buf_ok b0" "content b0 = be32 w @ chunk p z j" by (simp_all add: b0_def pk)
  obtain b1 where b1: "buf_read b0 4 = Some (b1, Some (be32 w))" "buf_ok b1" "content b1 = chunk p z j"
    using buf_read_enough [OF b0(1), of 4] b0(2) by auto
  have "z < 65536" "z mod 4 = 0" using gg by auto
  then have z: "int z < 65536" "int z mod 4 = 0" by presburger+
  have tyb: "0 \<le> ty" "ty < 4" and jb: "0 \<le> int j" "int j < 32" using j(1) gg by (simp_all add: ty_def frag_consts)
  have type: "uint (drop_bit FRAG_TYPE_SHIFT w AND FRAG_TYPE_MASK) = ty"
    unfolding w_def by (rule frag_flags_fields(1) [OF tyb seq jb of_nat_0_le_iff z])
  have "b_len b0 > 0" using buf_ok_len [OF b0(1)] b0(2) by simp
  then have "fragment_incoming ts fm b0 f = frag_incoming_part ts fm b1 f w ty"
    using b1(1) type by (simp add: fragment_incoming_def) (simp add: ty_def frag_consts)
  moreover obtain frag' where f': "partial p z off (insert j S) frag'"
    "frag_incoming_part ts fm b1 f w ty =
      (if insert j S = {..last_frag p z}
       then Some (fm\<lparr>incoming := frag_upd i (\<lambda>_. frag'\<lparr>fr_defined := False\<rparr>) l\<rparr>, fr_buf frag')
       else Some (fm\<lparr>incoming := frag_upd i (\<lambda>_. frag') l\<rparr>, b1\<lparr>b_len := 0\<rparr>))"
    using part_step [OF g seq j b1(2,3) ty_def _ slot(2,3)] slot(1) unfolding at_slot_def w_def by blast
  ultimately have run: "fragment_incoming ts fm (packet_buf (frag_packet seq p z j)) f =
      (if insert j S = {..last_frag p z}
       then Some (fm\<lparr>incoming := frag_upd i (\<lambda>_. frag'\<lparr>fr_defined := False\<rparr>) l\<rparr>, fr_buf frag')
       else Some (fm\<lparr>incoming := frag_upd i (\<lambda>_. frag') l\<rparr>, b1\<lparr>b_len := 0\<rparr>))"
    by (simp add: b0_def)
  show ?thesis
  proof (cases "insert j S = {..last_frag p z}")
    case True
    have "content (fr_buf frag') = p" using f'(1) p(1) unfolding True by (rule partial_full)
    then show ?thesis unfolding run
      by (intro exI [of _ "fm\<lparr>incoming := frag_upd i (\<lambda>_. frag'\<lparr>fr_defined := False\<rparr>) l\<rparr>"] exI [of _ "fr_buf frag'"]
            exI [of _ "frag'\<lparr>fr_defined := False\<rparr>"] exI [of _ "frag_upd i (\<lambda>_. frag'\<lparr>fr_defined := False\<rparr>) l"])
        (simp add: True at_slot_upd [OF slot(1)])
  next
    case False
    have "slot_holds p z off (insert j S) frag'" using f'(1) by (simp add: slot_holds_def partial_def)
    then show ?thesis unfolding run
      by (intro exI [of _ "fm\<lparr>incoming := frag_upd i (\<lambda>_. frag') l\<rparr>"] exI [of _ "b1\<lparr>b_len := 0\<rparr>"]
            exI [of _ frag'] exI [of _ "frag_upd i (\<lambda>_. frag') l"])
        (simp add: False at_slot_upd [OF slot(1)])
  qed
qed

lemma receive_run:
  assumes "frag_geometry p z" "0 \<le> seq" "seq < 256"
    "int off = FRAME_HEADROOM_ADJ f FRAME_HEADROOM_MARKER_FRAGMENT"
  shows "at_slot (incoming fm) seq l i \<Longrightarrow> slot_holds p z off S (fragments l ! nat i) \<Longrightarrow> S \<subseteq> {..last_frag p z} \<Longrightarrow>
    S \<union> snd ` set js = {..last_frag p z} \<Longrightarrow> (\<forall>k < length js. S \<union> snd ` set (take k js) \<noteq> {..last_frag p z}) \<Longrightarrow> js \<noteq> [] \<Longrightarrow>
    \<exists>fm'. frag_receive fm f (map (\<lambda>(ts, j). (ts, frag_packet seq p z j)) js) = Some (fm', replicate (length js - 1) [] @ [p])"
proof (induction js arbitrary: fm l S)
  case (Cons a js)
  obtain ts j where a: "a = (ts, j)" by fastforce
  have j: "j \<le> last_frag p z" using Cons.prems(4) by (auto simp: a)
  obtain fm1 b frag1 l1 where 1: "fragment_incoming ts fm (packet_buf (frag_packet seq p z j)) f = Some (fm1, b)"
    "at_slot (incoming fm1) seq l1 i" "fragments l1 ! nat i = frag1"
    "if insert j S = {..last_frag p z} then content b = p else content b = [] \<and> slot_holds p z off (insert j S) frag1"
    using incoming_step [OF assms(1-3) j Cons.prems(3,1,2) assms(4)] by blast
  show ?case
  proof (cases "js = []")
    case True
    then have "insert j S = {..last_frag p z}" using Cons.prems(4) by (simp add: a)
    then show ?thesis using 1(1,4) True by (simp add: a)
  next
    case False
    have cover: "insert j S \<union> snd ` set (take k js) \<noteq> {..last_frag p z}" if "k < length js" for k
      using Cons.prems(5) [rule_format, of "Suc k"] that by (simp add: a)
    have not: "insert j S \<noteq> {..last_frag p z}" using cover [of 0] False by simp
    obtain fm' where "frag_receive fm1 f (map (\<lambda>(ts, j). (ts, frag_packet seq p z j)) js) =
        Some (fm', replicate (length js - 1) [] @ [p])"
      using Cons.IH [OF 1(2), of "insert j S"] 1(3,4) not j Cons.prems(3,4) cover False by (auto simp: a)
    then show ?thesis using 1(1,4) not False by (cases js) (simp_all add: a)
  qed
qed simp

end
