(* ===== verification/Fragmentation.thy ===== *)
theory Fragmentation
  imports Reassembly
begin

text \<open>
  The sending side of fragment.c, and the properties of fragmentation: the fragments of a datagram are put together
  again in any order, no packet harms the receiver, and the fragment size is chosen without need of more fragments.
\<close>

subsection \<open>The sender\<close>

text \<open>
  The forwarding loop sends the buffer that \<open>fragment_outgoing\<close> leaves, then the fragments that
  \<open>fragment_ready_to_send\<close> hands out. The first argument of \<open>frag_drain\<close> is fuel; at most 31 fragments follow the first.
\<close>

fun frag_drain :: "nat \<Rightarrow> fragment_master \<Rightarrow> frame \<Rightarrow> (fragment_master \<times> byte list list) option" where
  "frag_drain 0 fm f = Some (fm, [])"
| "frag_drain (Suc n) fm f = do {
     (fm, b, ready) \<leftarrow> fragment_ready_to_send fm clear_buf f;
     if ready then do { (fm, ps) \<leftarrow> frag_drain n fm f; Some (fm, content b # ps) } else Some (fm, [])
   }"

definition frag_send :: "fragment_master \<Rightarrow> buffer \<Rightarrow> frame \<Rightarrow> (fragment_master \<times> byte list list) option" where
  "frag_send fm buf f = do {
     (fm, b) \<leftarrow> fragment_outgoing fm buf f;
     (fm, ps) \<leftarrow> frag_drain 32 fm f;
     Some (fm, content b # ps)
   }"

lemma buf_copy_n_read:
  "buf_copy_n d s n = do {
     (s', r) \<leftarrow> buf_read s n;
     (case r of None \<Rightarrow> Some (d, s', False)
      | Some bs \<Rightarrow> do { (d, ok) \<leftarrow> buf_write d bs; Some (d, s', ok) })
   }"
  by (auto simp: buf_copy_n_def buf_read_def split: prod.split option.split bind_split)

lemma buf_copy_n_spec:
  assumes "buf_ok d" "buf_ok s" "n \<le> length (content s)" "n \<le> tailroom d"
  obtains d' s' where "buf_copy_n d s (int n) = Some (d', s', True)" "buf_ok d'" "content d' = content d @ take n (content s)"
    "headroom d' = headroom d" "b_capacity d' = b_capacity d" "buf_ok s'" "content s' = drop n (content s)"
    "b_capacity s' = b_capacity s"
proof -
  obtain s' where s': "buf_read s (int n) = Some (s', Some (take n (content s)))" "buf_ok s'"
    "content s' = drop n (content s)" "b_capacity s' = b_capacity s"
    using buf_read_enough [of s "int n", unfolded nat_int, OF assms(2) of_nat_0_le_iff assms(3)] by blast
  have fits: "length (take n (content s)) \<le> tailroom d" using assms(4) by simp
  obtain d' where d': "buf_write d (take n (content s)) = Some (d', True)" "buf_ok d'" "content d' = content d @ take n (content s)"
    "headroom d' = headroom d" "b_capacity d' = b_capacity d"
    using buf_write_room [OF assms(1) fits] by blast
  have "buf_copy_n d s (int n) = Some (d', s', True)" by (simp add: buf_copy_n_read s'(1) d'(1))
  then show thesis by (rule that [OF _ d'(2-5) s'(2-4)])
qed

lemma prepend_flags_spec:
  assumes "buf_ok b" "4 \<le> headroom b"
  obtains b' where "fragment_prepend_flags b ty s i z = Some b'" "buf_ok b'" "content b' = be32 (frag_flags ty s i z) @ content b"
    "b_capacity b' = b_capacity b"
proof -
  obtain b' where "buf_write_prepend b (be32 (frag_flags ty s i z)) = Some (b', True)" "buf_ok b'"
    "content b' = be32 (frag_flags ty s i z) @ content b" "b_capacity b' = b_capacity b"
    using buf_write_prepend_room [OF assms(1), of "be32 (frag_flags ty s i z)"] assms(2) by auto
  then show thesis using that [of b'] by (simp add: fragment_prepend_flags_def frag_flags_def Let_def)
qed

text \<open>The sender holds the fragments of \<open>p\<close> from \<open>k\<close> on.\<close>

definition sending :: "frame \<Rightarrow> int \<Rightarrow> byte list \<Rightarrow> nat \<Rightarrow> nat \<Rightarrow> fragment_master \<Rightarrow> bool" where
  "sending f seq p z k fm \<longleftrightarrow> buf_ok (outgoing fm) \<and> content (outgoing fm) = drop (k * z) p \<and> outgoing_frag_id fm = int k \<and>
     outgoing_frag_size fm = int z \<and> outgoing_seq_id fm = seq \<and> buf_ok (outgoing_return fm) \<and>
     4 \<le> FRAME_HEADROOM f \<and> FRAME_HEADROOM f + int z \<le> b_capacity (outgoing_return fm)"

lemma buf_ok_data:
  "buf_ok a \<Longrightarrow> buf_ok b \<Longrightarrow> b_capacity b = b_capacity a \<Longrightarrow> buf_ok (a\<lparr>b_data := b_data b\<rparr>)"
  by (auto simp: buf_ok_def split: option.splits)

lemma ready_step:
  assumes "p \<noteq> []" "0 < z" "k \<le> last_frag p z" "sending f seq p z k fm"
  obtains fm' b where "fragment_ready_to_send fm b0 f = Some (fm', b, True)" "content b = frag_packet seq p z k"
    "sending f seq p z (Suc k) fm'"
proof -
  note s = assms(4) [unfolded sending_def]
  note bounds = last_frag_bounds [OF assms(1,2)] and c = chunk_range [OF assms(1-3)]
  have len: "b_len (outgoing fm) = int (length p - k * z)" using s buf_ok_len [of "outgoing fm"] by simp
  have split: "length p = k * z + (length p - k * z)" using c(1) by simp
  define n where "n = length (chunk p z k)"
  have chunk: "take n (drop (k * z) p) = chunk p z k" by (auto simp: n_def chunk_def min_def)
  have last: "b_len (outgoing fm) \<le> outgoing_frag_size fm \<longleftrightarrow> k = last_frag p z"
  proof
    assume "b_len (outgoing fm) \<le> outgoing_frag_size fm"
    then have "length p - k * z \<le> z" using s len by simp
    moreover have "(k + 1) * z \<le> last_frag p z * z" if "k \<noteq> last_frag p z" using that assms(3) by (intro mult_le_mono1) simp
    ultimately show "k = last_frag p z" using bounds(1) by (cases "k = last_frag p z") auto
  next
    assume "k = last_frag p z"
    then show "b_len (outgoing fm) \<le> outgoing_frag_size fm" using s len bounds(2) by simp
  qed
  have sz: "(if b_len (outgoing fm) \<le> outgoing_frag_size fm then b_len (outgoing fm) else outgoing_frag_size fm) = int n"
  proof (cases "k = last_frag p z")
    case True
    then have "length p - k * z = n" using c(5) by (simp add: n_def)
    then show ?thesis using True last len by (simp only: if_True simp_thms)
  next
    case False
    then have "n = z" using c(4) assms(3) by (simp add: n_def)
    then show ?thesis using False last s by simp
  qed
  obtain b1 where b1: "buf_init (outgoing_return fm) (FRAME_HEADROOM f) = (b1, True)" "buf_ok b1" "content b1 = []"
    "headroom b1 = nat (FRAME_HEADROOM f)" "tailroom b1 = nat (b_capacity (outgoing_return fm) - FRAME_HEADROOM f)"
    "b_capacity b1 = b_capacity (outgoing_return fm)"
    using buf_init_ok [of "outgoing_return fm" "FRAME_HEADROOM f"] s by auto
  have fits: "n \<le> length (content (outgoing fm))" "n \<le> tailroom b1"
    using s c(1,3) b1(5) by (auto simp: n_def)
  have so: "buf_ok (outgoing fm)" "content (outgoing fm) = drop (k * z) p" using s by auto
  obtain b2 out where b2: "buf_copy_n b1 (outgoing fm) (int n) = Some (b2, out, True)" "buf_ok b2"
    "content b2 = content b1 @ take n (content (outgoing fm))" "headroom b2 = headroom b1" "b_capacity b2 = b_capacity b1"
    "buf_ok out" "content out = drop n (content (outgoing fm))"
    using buf_copy_n_spec [OF b1(2) so(1) fits] by blast
  note b2_3 = b2(3) [unfolded b1(3) so(2) chunk append_Nil] and b2_7 = b2(7) [unfolded so(2)]
  have "4 \<le> headroom b2" using b2(4) b1(4) s by (simp add: le_nat_iff)
  from prepend_flags_spec [OF b2(2) this, of "if k = last_frag p z then FRAG_YES_LAST else FRAG_YES_NOTLAST" seq "int k" "int z"]
  obtain b3 where b3: "fragment_prepend_flags b2 (if k = last_frag p z then FRAG_YES_LAST else FRAG_YES_NOTLAST) seq (int k) (int z) = Some b3"
    "buf_ok b3" "content b3 = frag_packet seq p z k" "b_capacity b3 = b_capacity b2"
    unfolding frag_packet_def b2_3 by blast
  have rest: "content out = drop (Suc k * z) p"
  proof (cases "k = last_frag p z")
    case True
    then show ?thesis using b2_7 c(5) bounds(2) by (simp add: n_def)
  next
    case False
    then show ?thesis using b2_7 c(4) assms(3) by (simp add: n_def add.commute)
  qed
  have empty: "b_len out = 0" if "k = last_frag p z" using rest bounds(2) that buf_ok_len [OF b2(6)] by simp
  have "0 < n" using c(2) by (simp add: n_def)
  then have "0 < length p - k * z" using fits(1) so(2) by simp
  then have "b_len (outgoing fm) > 0" unfolding len by (simp only: of_nat_0_less_iff)
  then have "fragment_ready_to_send fm b0 f = Some (fm\<lparr>outgoing := out, outgoing_frag_id := outgoing_frag_id fm + 1,
                 outgoing_return := (outgoing_return fm)\<lparr>b_data := b_data b3\<rparr>\<rparr>, b3, True)"
    unfolding fragment_ready_to_send_def Let_def sz unfolding last
    using b1(1) b2(1) b3(1) empty s by (simp add: fragment_outgoing_defined_def)
  moreover have "sending f seq p z (Suc k) (fm\<lparr>outgoing := out, outgoing_frag_id := outgoing_frag_id fm + 1,
                 outgoing_return := (outgoing_return fm)\<lparr>b_data := b_data b3\<rparr>\<rparr>)"
    using s b2(6) rest buf_ok_data [OF _ b3(2)] b3(4) b2(5) b1(6) by (simp add: sending_def)
  ultimately show thesis using that b3(3) by blast
qed

lemma drain_spec:
  assumes "p \<noteq> []" "0 < z"
  shows "k \<le> last_frag p z + 1 \<Longrightarrow> sending f seq p z k fm \<Longrightarrow> last_frag p z + 1 - k < fuel \<Longrightarrow>
    \<exists>fm'. frag_drain fuel fm f = Some (fm', map (frag_packet seq p z) [k ..< last_frag p z + 1])"
proof (induction fuel arbitrary: k fm)
  case (Suc fuel)
  show ?case
  proof (cases "k = last_frag p z + 1")
    case True
    then have "content (outgoing fm) = []" "buf_ok (outgoing fm)"
      using Suc.prems(2) last_frag_bounds(2) [OF assms] by (simp_all add: sending_def)
    then have "\<not> b_len (outgoing fm) > 0" using buf_ok_len [of "outgoing fm"] by simp
    then show ?thesis using True by (simp add: fragment_ready_to_send_def fragment_outgoing_defined_def)
  next
    case False
    then have k: "k \<le> last_frag p z" using Suc.prems(1) by simp
    obtain fm' b where 1: "fragment_ready_to_send fm clear_buf f = Some (fm', b, True)" "content b = frag_packet seq p z k"
      "sending f seq p z (Suc k) fm'"
      using ready_step [OF assms k Suc.prems(2)] by blast
    have "last_frag p z + 1 - Suc k < fuel" using k Suc.prems(3) by linarith
    then obtain fm'' where "frag_drain fuel fm' f = Some (fm'', map (frag_packet seq p z) [Suc k ..< last_frag p z + 1])"
      using Suc.IH [OF _ 1(3)] k by auto
    then show ?thesis using 1 k by (simp del: upt_Suc add: upt_conv_Cons)
  qed
qed simp

subsection \<open>Properties\<close>

text \<open>
  A sender with buffers for the frame \<open>f\<close>, between two datagrams; a receiver with buffers for
  the frame \<open>f\<close> whose slot for the sequence number \<open>seq\<close> is free.
\<close>

definition sender_idle :: "frame \<Rightarrow> fragment_master \<Rightarrow> bool" where
  "sender_idle f fm \<longleftrightarrow> buf_ok (outgoing fm) \<and> b_capacity (outgoing fm) = BUF_SIZE f \<and> buf_ok (outgoing_return fm) \<and>
     b_capacity (outgoing_return fm) = BUF_SIZE f \<and> 0 \<le> outgoing_seq_id fm \<and> outgoing_seq_id fm < 256"

definition receiver_free :: "frame \<Rightarrow> int \<Rightarrow> fragment_master \<Rightarrow> bool" where
  "receiver_free f seq fm \<longleftrightarrow> list_ok (incoming fm) \<and>
     (\<forall>frag \<in> set (fragments (incoming fm)). buf_ok (fr_buf frag) \<and> b_capacity (fr_buf frag) = BUF_SIZE f) \<and>
     (case fragment_list_get_buf (incoming fm) seq of None \<Rightarrow> False | Some (l, i) \<Rightarrow> \<not> fr_defined (fragments l ! nat i))"

lemma send_spec:
  assumes "sender_idle f fm" "buf_ok b" "content b = p" "PAYLOAD_SIZE_DYNAMIC f < int (length p)" "4 \<le> PAYLOAD_SIZE_DYNAMIC f"
    "int (length p) \<le> 32 * (PAYLOAD_SIZE_DYNAMIC f - PAYLOAD_SIZE_DYNAMIC f mod 4)" "4 \<le> FRAME_HEADROOM f"
    "FRAME_HEADROOM f + int (length p) \<le> BUF_SIZE f"
  shows "\<exists>z fm'. int z \<le> PAYLOAD_SIZE_DYNAMIC f \<and> 0 < z \<and> z mod 4 = 0 \<and> last_frag p z \<le> 31 \<and>
    frag_send fm b f = Some (fm', map (frag_packet ((outgoing_seq_id fm + 1) mod 256) p z) [0 ..< last_frag p z + 1])"
proof -
  let ?m = "PAYLOAD_SIZE_DYNAMIC f" and ?seq = "(outgoing_seq_id fm + 1) mod 256"
  let ?a = "?m - ?m mod 4"
  have a: "0 < ?a" using assms(5) by presburger
  have len: "b_len b = int (length p)" using buf_ok_len [OF assms(2)] assms(3) by simp
  have "?m AND NOT FRAG_SIZE_ROUND_MASK \<noteq> 0" using a by (simp add: and_not_3)
  then obtain y where y: "optimal_fragment_size (b_len b) ?m = Some y"
    by (simp add: optimal_fragment_size_def Let_def)
  note o = optimal_size_spec [OF _ assms(5) y]
  have yb: "0 < y" "y \<le> ?m" "y mod 4 = 0" "int (length p) \<le> y * ((int (length p) + ?a - 1) div ?a)"
    using o unfolding len by simp_all
  have "(int (length p) + ?a - 1) div ?a \<le> 32"
  proof -
    have "(int (length p) + ?a - 1) div ?a * ?a \<le> int (length p) + ?a - 1"
      using a pos_mod_sign [OF a, of "int (length p) + ?a - 1"] div_mult_mod_eq [of "int (length p) + ?a - 1" ?a] by linarith
    also have "\<dots> < 33 * ?a" using assms(6) a by simp
    finally have "(int (length p) + ?a - 1) div ?a < 33" using a by (simp only: mult_less_cancel_right_pos)
    then show ?thesis by simp
  qed
  then have "y * ((int (length p) + ?a - 1) div ?a) \<le> y * 32" using yb(1) by (intro mult_left_mono) auto
  then have few: "int (length p) \<le> y * 32" using yb(4) by linarith
  define z where "z = nat y"
  have z: "int z = y" "0 < z" using yb(1) by (simp_all add: z_def)
  have "int (z mod 4) = 0" using yb(3) by (simp add: zmod_int z(1))
  then have z4: "z mod 4 = 0" by simp
  have p: "p \<noteq> []" using assms(4,5) by auto
  have "length p \<le> z * 32" using few unfolding z(1) [symmetric] by linarith
  then have "length p - 1 < 32 * z" using p z(2) by (cases p) auto
  then have l31: "last_frag p z \<le> 31" using z(2) by (simp add: last_frag_def less_mult_imp_div_less flip: less_Suc_eq_le)
  obtain o1 where o1: "buf_init (outgoing fm) (FRAME_HEADROOM f) = (o1, True)" "buf_ok o1" "content o1 = []"
    "tailroom o1 = nat (b_capacity (outgoing fm) - FRAME_HEADROOM f)"
    using buf_init_ok [of "outgoing fm" "FRAME_HEADROOM f"] assms(1,7,8) unfolding sender_idle_def by auto
  have fit: "length p \<le> tailroom o1" using o1(4) assms(1,8) by (simp add: sender_idle_def)
  obtain o2 where o2: "buf_write o1 p = Some (o2, True)" "buf_ok o2" "content o2 = content o1 @ p"
    using buf_write_room [OF o1(2) fit] by blast
  have copy: "buf_copy o1 b = Some (o2, True)" using o2(1) by (simp add: buf_copy_def buf_bytes_content [OF assms(2)] assms(3))
  define fm1 where "fm1 = fm\<lparr>outgoing_frag_size := y, outgoing := o2, outgoing_seq_id := ?seq, outgoing_frag_id := 0\<rparr>"
  have "sending f ?seq p z 0 fm1"
    using assms(1,4,7,8) yb(2) o1(3) o2(2,3) by (simp add: sending_def fm1_def z(1) sender_idle_def)
  from ready_step [OF p z(2) _ this, of "b\<lparr>b_len := 0\<rparr>"] obtain fm2 b2 where 2:
    "fragment_ready_to_send fm1 (b\<lparr>b_len := 0\<rparr>) f = Some (fm2, b2, True)" "content b2 = frag_packet ?seq p z 0"
    "sending f ?seq p z (Suc 0) fm2" by blast
  have "fragment_outgoing fm b f = Some (fm2, b2)"
    using y o1(1) copy 2(1) assms(1,4,5) few p
    by (simp add: fragment_outgoing_def len MAX_FRAGS_def N_SEQ_ID_def modulo_add_mod sender_idle_def fm1_def)
  moreover obtain fm3 where "frag_drain 32 fm2 f = Some (fm3, map (frag_packet ?seq p z) [Suc 0 ..< last_frag p z + 1])"
    using drain_spec [OF p z(2) _ 2(3), of 32] l31 by auto
  moreover have "map (frag_packet ?seq p z) [0 ..< last_frag p z + 1] =
      frag_packet ?seq p z 0 # map (frag_packet ?seq p z) [Suc 0 ..< last_frag p z + 1]"
    by (simp add: upt_conv_Cons del: upt_Suc)
  ultimately have "frag_send fm b f = Some (fm3, map (frag_packet ?seq p z) [0 ..< last_frag p z + 1])"
    using 2(2) by (simp add: frag_send_def)
  then show ?thesis using z z4 yb(2) l31 by (intro exI [of _ z] exI [of _ fm3]) simp
qed

lemma receive_spec:
  assumes "frag_geometry p z" "receiver_free f seq fm" "0 \<le> seq" "seq < 256"
    "0 \<le> FRAME_HEADROOM_ADJ f FRAME_HEADROOM_MARKER_FRAGMENT"
    "FRAME_HEADROOM_ADJ f FRAME_HEADROOM_MARKER_FRAGMENT + int (length p) \<le> BUF_SIZE f"
    "snd ` set js = {..last_frag p z}" "\<forall>k < length js. snd ` set (take k js) \<noteq> {..last_frag p z}"
  shows "\<exists>fm'. frag_receive fm f (map (\<lambda>(ts, j). (ts, frag_packet seq p z j)) js) = Some (fm', replicate (length js - 1) [] @ [p])"
proof -
  have ok: "list_ok (incoming fm)" using assms(2) by (simp add: receiver_free_def)
  obtain l i where li: "fragment_list_get_buf (incoming fm) seq = Some (l, i)" "list_ok l" "0 \<le> i" "i < 25"
    "map fr_buf (fragments l) = map fr_buf (fragments (incoming fm))"
    "\<And>fs. length fs = 25 \<Longrightarrow> fragment_list_get_buf (l\<lparr>fragments := fs\<rparr>) seq = Some (l\<lparr>fragments := fs\<rparr>, i)"
    using get_buf_spec [OF ok assms(3,4)] by blast
  have slot: "at_slot (incoming fm) seq l i" using li by (simp add: at_slot_def)
  have i: "nat i < length (fragments l)" using li(2-4) by (simp add: list_ok_def)
  have "fr_buf (fragments l ! nat i) \<in> set (map fr_buf (fragments (incoming fm)))"
    unfolding li(5) [symmetric] using i by simp
  then have "buf_ok (fr_buf (fragments l ! nat i)) \<and> b_capacity (fr_buf (fragments l ! nat i)) = BUF_SIZE f"
    using assms(2) by (auto simp: receiver_free_def)
  moreover have "\<not> fr_defined (fragments l ! nat i)" using assms(2) li(1) by (simp add: receiver_free_def)
  ultimately have holds: "slot_holds p z (nat (FRAME_HEADROOM_ADJ f FRAME_HEADROOM_MARKER_FRAGMENT)) {} (fragments l ! nat i)"
    using assms(5,6) by (simp add: slot_holds_def)
  have "js \<noteq> []" using assms(7) by auto
  then show ?thesis
    using receive_run [OF assms(1,3,4) _ slot holds, of f js] assms(5,7,8) by simp
qed

text \<open>
  C37. Fragmentation is transparent. A datagram larger than the dynamic payload size, and of at most 32 times
  this size rounded down to 4 bytes, is sent as at most 32 packets that fit the link; and whatever
  the order in which they arrive, with repetitions, nothing is delivered until every one of them has
  arrived, and then the datagram is. The receiver's buffer for the sequence number is free at the start, and
  both sides have allocated buffers that hold the datagram after their headroom.
\<close>

theorem fragments_reassemble:
  assumes "sender_idle f fm" "buf_ok b" "PAYLOAD_SIZE_DYNAMIC f < b_len b" "4 \<le> PAYLOAD_SIZE_DYNAMIC f" "PAYLOAD_SIZE_DYNAMIC f < 65536"
    "b_len b \<le> 32 * (PAYLOAD_SIZE_DYNAMIC f - PAYLOAD_SIZE_DYNAMIC f mod 4)" "4 \<le> FRAME_HEADROOM f" "FRAME_HEADROOM f + b_len b \<le> BUF_SIZE f"
    "receiver_free f' ((outgoing_seq_id fm + 1) mod 256) rx" "0 \<le> FRAME_HEADROOM_ADJ f' FRAME_HEADROOM_MARKER_FRAGMENT"
    "FRAME_HEADROOM_ADJ f' FRAME_HEADROOM_MARKER_FRAGMENT + b_len b \<le> BUF_SIZE f'"
  shows "\<exists>fm' pkts. frag_send fm b f = Some (fm', pkts) \<and> length pkts \<le> 32 \<and>
    (\<forall>pkt \<in> set pkts. int (length pkt) \<le> PAYLOAD_SIZE_DYNAMIC f + 4) \<and>
    (\<forall>js. snd ` set js = {..<length pkts} \<and> (\<forall>k < length js. snd ` set (take k js) \<noteq> {..<length pkts}) \<longrightarrow>
      (\<exists>rx'. frag_receive rx f' (map (\<lambda>(ts, j). (ts, pkts ! j)) js) = Some (rx', replicate (length js - 1) [] @ [content b])))"
proof -
  let ?seq = "(outgoing_seq_id fm + 1) mod 256"
  have len: "b_len b = int (length (content b))" by (rule buf_ok_len [OF assms(2)])
  obtain z fm' where z: "int z \<le> PAYLOAD_SIZE_DYNAMIC f" "0 < z" "z mod 4 = 0" "last_frag (content b) z \<le> 31"
    and send: "frag_send fm b f = Some (fm', map (frag_packet ?seq (content b) z) [0 ..< last_frag (content b) z + 1])"
    using send_spec [OF assms(1,2) refl, folded len, OF assms(3,4,6,7,8)] by (elim exE conjE) (rule that)
  have p: "content b \<noteq> []" using assms(3,4) len by auto
  have g: "frag_geometry (content b) z" using z p assms(5) by (simp add: frag_geometry_def)
  have "int (length (frag_packet ?seq (content b) z j)) \<le> PAYLOAD_SIZE_DYNAMIC f + 4" if "j < last_frag (content b) z + 1" for j
    using chunk_range(3) [OF p z(2), of j] that z(1) by (simp add: frag_packet_def)
  moreover have "\<exists>rx'. frag_receive rx f' (map (\<lambda>(ts, j). (ts, map (frag_packet ?seq (content b) z) [0 ..< last_frag (content b) z + 1] ! j)) js) =
      Some (rx', replicate (length js - 1) [] @ [content b])"
    if js: "snd ` set js = {..< last_frag (content b) z + 1}" "\<forall>k < length js. snd ` set (take k js) \<noteq> {..< last_frag (content b) z + 1}" for js
  proof -
    have eq: "{..< last_frag (content b) z + 1} = {..last_frag (content b) z}" by auto
    have sent: "map (\<lambda>(ts, j). (ts, map (frag_packet ?seq (content b) z) [0 ..< last_frag (content b) z + 1] ! j)) js =
        map (\<lambda>(ts, j). (ts, frag_packet ?seq (content b) z j)) js"
    proof -
      have "j < last_frag (content b) z + 1" if "(ts, j) \<in> set js" for ts j
        using js(1) imageI [OF that, of snd] by simp
      then show ?thesis by (auto simp del: upt_Suc)
    qed
    show ?thesis
      unfolding sent using receive_spec [OF g assms(9) _ _ assms(10), of js] assms(11) js unfolding len eq by simp
  qed
  ultimately show ?thesis using send z(4) by (simp del: upt_Suc add: atLeast0LessThan)
qed

text \<open>A small link: 8 bytes of payload per packet.\<close>

definition tiny_frame :: frame where
  "tiny_frame = \<lparr>link_mtu = 40, link_mtu_dynamic = 12, extra_frame = 4, extra_buffer = 0, extra_tun = 0,
     extra_link = 0, align_flags = 0, align_adjust = 0\<rparr>"

definition tiny_master :: fragment_master where
  "tiny_master = the (fragment_frame_init (snd (fragment_init 0 5 tiny_frame)) tiny_frame)"

definition tiny_payload :: "byte list" where
  "tiny_payload = [1, 2, 3, 4, 5, 6, 7, 8, 9, 10, 11, 12, 13, 14, 15, 16, 17]"

lemma tiny_frame_sizes:
  "PAYLOAD_SIZE_DYNAMIC tiny_frame = 8" "BUF_SIZE tiny_frame = 44" "frame_headroom tiny_frame fm = 4"
  "FRAME_HEADROOM tiny_frame = 4" "FRAME_HEADROOM_ADJ tiny_frame fm = 4"
  by (simp_all add: tiny_frame_def PAYLOAD_SIZE_DYNAMIC_def BUF_SIZE_def TUN_MTU_SIZE_def TUN_LINK_DELTA_def
      FRAME_HEADROOM_BASE_def FRAME_HEADROOM_def FRAME_HEADROOM_ADJ_def frame_headroom_delta)

lemma tiny_ready: "sender_idle tiny_frame tiny_master" "receiver_free tiny_frame 6 tiny_master" "outgoing_seq_id tiny_master = 5"
proof -
  define fb where "fb = \<lparr>b_capacity = 44, b_offset = 0, b_len = 0, b_data = Some (replicate 44 (0 :: byte))\<rparr>"
  have alloc: "alloc_buf (BUF_SIZE tiny_frame) = Some fb"
    by (simp add: tiny_frame_sizes alloc_buf_def buf_size_valid_def BUF_SIZE_MAX_def fb_def)
  have ok: "buf_ok fb" "b_capacity fb = 44" by (simp_all add: buf_ok_def fb_def BUF_SIZE_MAX_def)
  have seq: "sint (5 :: u32) AND (N_SEQ_ID - 1) = 5" by code_simp
  have m: "outgoing tiny_master = fb" "outgoing_return tiny_master = fb" "outgoing_seq_id tiny_master = 5"
    "incoming tiny_master = \<lparr>fl_seq_id = 0, fl_index = 0, fragments = replicate 25 (frag_clear\<lparr>fr_buf := fb\<rparr>)\<rparr>"
    using alloc seq by (simp_all add: tiny_master_def fragment_frame_init_def fragment_init_def fragment_list_buf_init_def)
  show "sender_idle tiny_frame tiny_master" "outgoing_seq_id tiny_master = 5"
    using m ok by (simp_all add: sender_idle_def tiny_frame_sizes)
  have "list_ok (incoming tiny_master)" by (simp add: m list_ok_def)
  moreover have "case fragment_list_get_buf (incoming tiny_master) 6 of None \<Rightarrow> False | Some (l, i) \<Rightarrow> \<not> fr_defined (fragments l ! nat i)"
    unfolding m by (simp add: fragment_list_get_buf_def modulo_subtract_def modulo_add_def N_SEQ_ID_def N_FRAG_BUF_def
        eval_nat_numeral frag_upd_def frag_clear_def)
  ultimately show "receiver_free tiny_frame 6 tiny_master"
    using ok by (simp add: receiver_free_def m tiny_frame_sizes)
qed

lemma fragments_reassemble_witness:
  "\<exists>fm' pkts rx'. frag_send tiny_master (packet_buf tiny_payload) tiny_frame = Some (fm', pkts) \<and> length pkts = 3 \<and>
    frag_receive tiny_master tiny_frame [(1, pkts ! 2), (2, pkts ! 0), (3, pkts ! 0), (4, pkts ! 1)] =
      Some (rx', [[], [], [], tiny_payload])"
proof -
  let ?js = "[(1, 2), (2, 0), (3, 0), (4, 1)] :: (time_t \<times> nat) list"
  have b: "buf_ok (packet_buf tiny_payload)" "content (packet_buf tiny_payload) = tiny_payload" "b_len (packet_buf tiny_payload) = 17"
    using packet_buf_ok [of tiny_payload] by (simp_all add: tiny_payload_def BUF_SIZE_MAX_def packet_buf_def)
  have len: "map_option (length \<circ> snd) (frag_send tiny_master (packet_buf tiny_payload) tiny_frame) = Some 3" by code_simp
  have "snd ` set ?js = {..<3}" "\<forall>k < length ?js. snd ` set (take k ?js) \<noteq> {..<3}"
    by (auto simp: less_Suc_eq numeral_eq_Suc lessThan_Suc)
  then show ?thesis
    using fragments_reassemble [of tiny_frame tiny_master "packet_buf tiny_payload" tiny_frame tiny_master] len b tiny_ready
    by (auto simp: tiny_frame_sizes dest!: spec [of _ ?js])
qed

subsection \<open>Arbitrary packets\<close>

definition receiver_ok :: "frame \<Rightarrow> fragment_master \<Rightarrow> bool" where
  "receiver_ok f fm \<longleftrightarrow> list_ok (incoming fm) \<and>
     (\<forall>frag \<in> set (fragments (incoming fm)). buf_ok (fr_buf frag) \<and> b_capacity (fr_buf frag) = BUF_SIZE f)"

lemma buf_copy_range_any:
  assumes "buf_ok d" "buf_ok s" "0 \<le> k"
  obtains d' ok where "buf_copy_range d k s 0 (b_len s) = Some (d', ok)" "buf_ok d'" "b_capacity d' = b_capacity d"
proof (cases "b_offset d + k + b_len s > b_capacity d")
  case True
  then have "buf_copy_range d k s 0 (b_len s) = Some (d, False)" by (simp add: buf_copy_range_def)
  then show thesis using that assms(1) by blast
next
  case False
  then have "int (nat k) + int (length (content s)) \<le> b_capacity d - b_offset d"
    using assms(3) buf_ok_len [OF assms(2)] by simp
  from buf_copy_range_spec [OF assms(1,2) this] show thesis using that assms(3) by (metis nat_0_le)
qed

lemma frag_upd_ok:
  assumes "list_ok l" "\<forall>frag \<in> set (fragments l). P frag" "P frag'"
  shows "list_ok (frag_upd i (\<lambda>_. frag') l)" "\<forall>frag \<in> set (fragments (frag_upd i (\<lambda>_. frag') l)). P frag"
  using assms set_update_subset_insert [of "fragments l" "nat i" frag'] by (auto simp: list_ok_def frag_upd_def)

lemma frag_incoming_part_safe:
  assumes "receiver_ok f fm" "buf_ok b" "0 \<le> FRAME_HEADROOM_ADJ f FRAME_HEADROOM_MARKER_FRAGMENT"
    "FRAME_HEADROOM_ADJ f FRAME_HEADROOM_MARKER_FRAGMENT \<le> BUF_SIZE f"
  shows "\<exists>fm' b'. frag_incoming_part ts fm b f flags ty = Some (fm', b') \<and> receiver_ok f fm' \<and> buf_ok b'"
proof -
  define seq where "seq = uint (drop_bit FRAG_SEQ_ID_SHIFT flags AND FRAG_SEQ_ID_MASK)"
  define n where "n = uint (drop_bit FRAG_ID_SHIFT flags AND FRAG_ID_MASK)"
  define sz where "sz = (if ty = FRAG_YES_LAST
    then uint (push_bit FRAG_SIZE_ROUND_SHIFT (drop_bit FRAG_SIZE_SHIFT flags AND FRAG_SIZE_MASK)) else b_len b)"
  let ?good = "\<lambda>frag. buf_ok (fr_buf frag) \<and> b_capacity (fr_buf frag) = BUF_SIZE f"
  let ?P = "\<lambda>(fm', b'). receiver_ok f fm' \<and> buf_ok b'"
  have b0: "buf_ok (b\<lparr>b_len := 0\<rparr>)" using assms(2) by (auto simp: buf_ok_def split: option.splits)
  have seqb: "0 \<le> seq" "seq < 256"
    using uint_and_FF [of "drop_bit FRAG_SEQ_ID_SHIFT flags"] by (simp_all add: seq_def frag_consts)
  obtain l i where l: "fragment_list_get_buf (incoming fm) seq = Some (l, i)" "list_ok l" "0 \<le> i" "i < 25"
    "map fr_buf (fragments l) = map fr_buf (fragments (incoming fm))"
    using get_buf_spec [OF _ seqb, of "incoming fm"] assms(1) unfolding receiver_ok_def by metis
  have "\<forall>x \<in> set (map fr_buf (fragments l)). buf_ok x \<and> b_capacity x = BUF_SIZE f"
    unfolding l(5) using assms(1) by (simp add: receiver_ok_def)
  then have all: "\<forall>frag \<in> set (fragments l). ?good frag" by simp
  then have good: "?good (fragments l ! nat i)" using l(2-4) by (simp add: list_ok_def)
  have upd: "receiver_ok f (fm\<lparr>incoming := frag_upd i (\<lambda>_. frag) l\<rparr>)" if "?good frag" for frag
    using frag_upd_ok [OF l(2) all that] by (simp add: receiver_ok_def)
  have keep: "receiver_ok f (fm\<lparr>incoming := l\<rparr>)" using l(2) all by (simp add: receiver_ok_def)
  obtain frag where start: "(if \<not> fr_defined (fragments l ! nat i) \<or> max_frag_size (fragments l ! nat i) \<noteq> sz then do {
            (b, ok) \<leftarrow> Some (buf_init (fr_buf (fragments l ! nat i)) (FRAME_HEADROOM_ADJ f FRAME_HEADROOM_MARKER_FRAGMENT));
            c_assert ok;
            Some ((fragments l ! nat i)\<lparr>fr_defined := True, max_frag_size := sz, fr_map := 0, fr_buf := b\<rparr>)
          } else Some (fragments l ! nat i)) = Some frag" "?good frag"
  proof (cases "\<not> fr_defined (fragments l ! nat i) \<or> max_frag_size (fragments l ! nat i) \<noteq> sz")
    case True
    obtain b1 where "buf_init (fr_buf (fragments l ! nat i)) (FRAME_HEADROOM_ADJ f FRAME_HEADROOM_MARKER_FRAGMENT) = (b1, True)"
      "buf_ok b1" "b_capacity b1 = b_capacity (fr_buf (fragments l ! nat i))"
      using buf_init_ok [OF conjunct1 [OF good] assms(3)] assms(4) good by auto
    then show thesis using that good True by simp
  next
    case False
    then show thesis using that good by simp
  qed
  have "0 \<le> n * sz" using buf_ok_len [OF assms(2)] by (simp add: n_def sz_def)
  then obtain d ok where copy: "buf_copy_range (fr_buf frag) (n * sz) b 0 (b_len b) = Some (d, ok)" "buf_ok d" "b_capacity d = BUF_SIZE f"
    using buf_copy_range_any [OF _ assms(2)] start(2) by metis
  show ?thesis
  proof (cases "sz AND FRAG_SIZE_ROUND_MASK = 0")
    case False
    have "frag_incoming_part ts fm b f flags ty = Some (fm\<lparr>incoming := l\<rparr>, b\<lparr>b_len := 0\<rparr>)"
      unfolding frag_incoming_part_def Let_def seq_def [symmetric] n_def [symmetric] sz_def [symmetric] l(1)
      using False by (simp only: Option.bind_lunit prod.case simp_thms if_True)
    then show ?thesis using keep b0 by (intro exI conjI)
  next
    case True
    let ?m = "fr_map frag OR push_bit (nat n) (if ty = FRAG_YES_LAST then FRAG_MAP_MASK else 1)"
    let ?frag = "frag\<lparr>fr_buf := d, fr_map := ?m, fr_timestamp := ts\<rparr>"
    have "frag_incoming_part ts fm b f flags ty =
      (if \<not> ok then Some (fm\<lparr>incoming := frag_upd i (\<lambda>_. frag\<lparr>fr_buf := d\<rparr>) l\<rparr>, b\<lparr>b_len := 0\<rparr>)
       else if ?m AND FRAG_MAP_MASK = FRAG_MAP_MASK
       then Some (fm\<lparr>incoming := frag_upd i (\<lambda>_. ?frag\<lparr>fr_defined := False\<rparr>) l\<rparr>, d)
       else Some (fm\<lparr>incoming := frag_upd i (\<lambda>_. ?frag) l\<rparr>, b\<lparr>b_len := 0\<rparr>))"
      unfolding frag_incoming_part_def Let_def seq_def [symmetric] n_def [symmetric] sz_def [symmetric] l(1)
      using start(1) [unfolded Option.bind_lunit] copy(1) True
      by (simp only: Option.bind_lunit prod.case simp_thms if_False) simp
    moreover have "receiver_ok f (fm\<lparr>incoming := frag_upd i (\<lambda>_. frag\<lparr>fr_buf := d\<rparr>) l\<rparr>)"
      "receiver_ok f (fm\<lparr>incoming := frag_upd i (\<lambda>_. ?frag) l\<rparr>)"
      "receiver_ok f (fm\<lparr>incoming := frag_upd i (\<lambda>_. ?frag\<lparr>fr_defined := False\<rparr>) l\<rparr>)"
      using copy(2,3) by (auto intro!: upd)
    ultimately show ?thesis
      using b0 copy(2) by (cases ok; cases "?m AND FRAG_MAP_MASK = FRAG_MAP_MASK") (simp_all only: simp_thms if_True if_False; blast)+
  qed
qed

text \<open>
  C38. The receiver survives any packet. Whatever bytes an incoming packet holds, \<open>fragment_incoming\<close> does not
  fail an assertion nor write outside the buffers it has allocated, it returns a well-formed buffer, and it
  keeps the reassembly list well formed.
\<close>

theorem fragment_incoming_safe:
  assumes "receiver_ok f fm" "buf_ok b" "0 \<le> FRAME_HEADROOM_ADJ f FRAME_HEADROOM_MARKER_FRAGMENT"
    "FRAME_HEADROOM_ADJ f FRAME_HEADROOM_MARKER_FRAGMENT \<le> BUF_SIZE f"
  shows "\<exists>fm' b'. fragment_incoming ts fm b f = Some (fm', b') \<and> receiver_ok f fm' \<and> buf_ok b'"
proof -
  have zero: "buf_ok (b'\<lparr>b_len := 0\<rparr>)" if "buf_ok b'" for b'
    using that by (auto simp: buf_ok_def split: option.splits)
  show ?thesis
  proof (cases "4 \<le> length (content b)")
    case False
    then have "buf_read b 4 = Some (b, None)" by (intro buf_read_short assms(2)) simp
    then show ?thesis using assms(1,2) zero [OF assms(2)] by (simp add: fragment_incoming_def)
  next
    case True
    then obtain b1 where "buf_read b 4 = Some (b1, Some (take 4 (content b)))" "buf_ok b1"
      using buf_read_enough [OF assms(2), of 4] by auto
    then show ?thesis
      using assms(1,2) zero [of b1] frag_incoming_part_safe [OF assms(1) _ assms(3,4), of b1]
      by (simp add: fragment_incoming_def Let_def)
  qed
qed

lemma fragment_incoming_safe_witness:
  "\<exists>fm' b'. fragment_incoming 7 tiny_master (packet_buf [0xFF, 0xFF, 0xFF, 0xFE, 0, 1, 2]) tiny_frame = Some (fm', b') \<and>
    receiver_ok tiny_frame fm' \<and> buf_ok b'"
  using fragment_incoming_safe [of tiny_frame tiny_master "packet_buf [0xFF, 0xFF, 0xFF, 0xFE, 0, 1, 2]" 7]
    tiny_ready(2) packet_buf_ok [of "[0xFF, 0xFF, 0xFF, 0xFE, 0, 1, 2]"]
  by (simp add: receiver_free_def receiver_ok_def tiny_frame_sizes BUF_SIZE_MAX_def)

text \<open>
  A header of type \<open>FRAG_WHOLE\<close> with a fragment number passes the test for spurious flags, which uses
  the masks of the fields without their shifts.
\<close>

lemma spurious_whole_accepted:
  "map_option (\<lambda>(fm, b). content b) (fragment_incoming 7 tiny_master (packet_buf (be32 (push_bit FRAG_ID_SHIFT 3) @ [42])) tiny_frame) = Some [42]"
  by code_simp

text \<open>
  \<open>optimal_fragment_size\<close> returns a positive multiple of 4, at most the largest size rounded down, and
  a datagram needs no more fragments of this size than of the largest.
\<close>

theorem optimal_size_keeps_count:
  assumes "0 \<le> n" "4 \<le> m"
  shows "\<exists>z. optimal_fragment_size n m = Some z \<and> 0 < z \<and> z \<le> m - m mod 4 \<and> z mod 4 = 0 \<and>
    (n + z - 1) div z = (n + (m - m mod 4) - 1) div (m - m mod 4)"
proof -
  define a where "a = m - m mod 4"
  have a: "0 < a" using assms(2) unfolding a_def by presburger
  have "m AND NOT FRAG_SIZE_ROUND_MASK \<noteq> 0" using a by (simp add: and_not_3 a_def)
  then obtain z where z: "optimal_fragment_size n m = Some z" by (simp add: optimal_fragment_size_def Let_def)
  note o = optimal_size_spec [OF assms z, folded a_def]
  define c where "c = (n + a - 1) div a"
  have le: "(n + z - 1) div z \<le> c"
  proof -
    have "n + z - 1 < (c + 1) * z" using o(1,4) by (simp add: c_def algebra_simps)
    then have "(n + z - 1) div z * z < (c + 1) * z"
      using pos_mod_sign [OF o(1), of "n + z - 1"] div_mult_mod_eq [of "n + z - 1" z] by linarith
    then have "(n + z - 1) div z < c + 1" using o(1) by (simp only: mult_less_cancel_right_pos)
    then show ?thesis by simp
  qed
  have n: "n \<le> (n + z - 1) div z * z"
    using pos_mod_bound [OF o(1), of "n + z - 1"] div_mult_mod_eq [of "n + z - 1" z] by linarith
  also have "\<dots> \<le> (n + z - 1) div z * a" using o(1,5) assms(1) by (intro mult_left_mono) (auto simp: pos_imp_zdiv_nonneg_iff)
  finally have "c * a \<le> (n + z - 1) div z * a + a - 1"
    using pos_mod_sign [OF a, of "n + a - 1"] div_mult_mod_eq [of "n + a - 1" a] unfolding c_def by linarith
  then have "c * a < ((n + z - 1) div z + 1) * a" using a by (simp add: algebra_simps)
  then have "c < (n + z - 1) div z + 1" using a by (simp only: mult_less_cancel_right_pos)
  then have "c \<le> (n + z - 1) div z" by simp
  with le z o show ?thesis by (simp add: c_def a_def)
qed

lemma optimal_size_keeps_count_witness: "optimal_fragment_size 1500 1400 = Some 752 \<and> (1500 + 752 - 1) div 752 = (2 :: int)"
  using optimal_size_keeps_count [of 1500 1400] by (simp add: optimal_fragment_size_def and_not_3)

end
