(* ===== verification/Data_Channel.thy ===== *)
theory Data_Channel
  imports Crypto Fragmentation "HOL-Library.Sublist"
begin

text \<open>
  The data channel with an AEAD cipher: what one side encrypts the other decrypts, over a network that loses, repeats and
  reorders packets, each payload at most once. \<open>aead_correct\<close> states what the code relies on from the crypto
  library: decryption with the same vector, additional data and tag inverts encryption.
\<close>

subsection \<open>The cipher\<close>

definition aead_correct :: "cipher_ctx \<Rightarrow> bool" where
  "aead_correct c \<longleftrightarrow> ctx_mode c = OPENVPN_MODE_GCM \<and> 12 \<le> ctx_iv_length c \<and> ctx_iv_length c \<le> 16 \<and>
     0 \<le> ctx_tag_size c \<and> 0 \<le> ctx_block_size c \<and>
     (\<forall>iv ad p u v t. ctx_encrypt c iv ad p = (u, v, t) \<longrightarrow>
       int (length (u @ v)) \<le> int (length p) + ctx_block_size c \<and> int (length p) \<le> int (length (u @ v)) + ctx_block_size c \<and> (p \<noteq> [] \<longrightarrow> u @ v \<noteq> []) \<and> int (length t) = ctx_tag_size c \<and>
       (\<exists>x y. ctx_decrypt c iv ad (u @ v) t = (Some x, Some y) \<and> x @ y = p))"

text \<open>The two ends of a key: the same implicit vector, which completes the four bytes of the packet id.\<close>

definition aead_key :: "cipher_ctx \<Rightarrow> byte list \<Rightarrow> key_ctx \<Rightarrow> bool" where
  "aead_key c im ctx \<longleftrightarrow> kc_cipher ctx = Some c \<and> implicit_iv_len ctx = ctx_iv_length c - 4 \<and>
     take (nat (implicit_iv_len ctx)) (implicit_iv ctx) = im \<and> int (length im) = ctx_iv_length c - 4"

subsection \<open>Library output\<close>

lemma put_output_end:
  assumes "buf_ok b" "length bs \<le> tailroom b"
  obtains b' where "put_output b (buf_bend b) bs = Some b'" "buf_ok b'" "content b' = content b @ bs"
    "tailroom b' = tailroom b - length bs" "headroom b' = headroom b" "b_capacity b' = b_capacity b"
proof -
  obtain b1 where b1: "buf_write b bs = Some (b1, True)" "buf_ok b1" "content b1 = content b @ bs"
    "tailroom b1 = tailroom b - length bs" "headroom b1 = headroom b" "b_capacity b1 = b_capacity b"
    using buf_write_room [OF assms] by blast
  have safe: "buf_safe b (int (length bs))" "buf_valid b" using assms by (simp_all add: buf_safe_iff)
  obtain m where m: "b_data b = Some m" using assms(1) by (auto simp: buf_ok_def split: option.splits)
  obtain m' where m': "mem_write m (b_offset b + b_len b) bs = Some m'" "b1 = b\<lparr>b_len := b_len b + int (length bs), b_data := Some m'\<rparr>"
    using b1(1) safe m by (auto simp: buf_write_def buf_write_alloc_def buf_bptr_def store_at_def split: Option.bind_splits)
  have "put_output b (buf_bend b) bs = Some b1"
    using m m' safe by (auto simp: put_output_def store_at_def buf_bend_def buf_inc_len_def buf_safe_bidir_def buf_safe_def
        buf_valid_def buf_size_valid_def buf_size_valid_signed_def BUF_SIZE_MAX_def)
  then show thesis using that b1 by blast
qed

lemma store_inside:
  assumes "buf_ok b" "content b = xs @ ys @ zs" "length ys = length bs" "p = b_offset b + int (length xs)"
  obtains b' where "store_at b p bs = Some b'" "buf_ok b'" "content b' = xs @ bs @ zs" "b_offset b' = b_offset b"
    "b_capacity b' = b_capacity b"
proof -
  obtain pre body post where b: "b_data b = Some (pre @ body @ post)" "b_offset b = int (length pre)"
    "b_len b = int (length body)" "b_capacity b = int (length pre + length body + length post)"
    "content b = body" "b_capacity b < BUF_SIZE_MAX"
    using assms(1) by (rule buf_ok_cases)
  have body: "body = xs @ ys @ zs" using b(5) assms(2) by simp
  define b' where "b' = b\<lparr>b_data := Some (pre @ (xs @ bs @ zs) @ post)\<rparr>"
  have p: "p = int (length (pre @ xs))" using assms(4) b(2) by simp
  have "store_at b p bs = Some b'"
    unfolding p using b(1) assms(3) by (simp add: store_at_def mem_write_def body b'_def)
  moreover have "b_capacity b' = int (length pre + length (xs @ bs @ zs) + length post)" "b_len b' = int (length (xs @ bs @ zs))"
    using b body assms(3) by (simp_all add: b'_def)
  then have "buf_ok b'" "content b' = xs @ bs @ zs"
    using b by (intro buf_okI [where pre = pre and body = "xs @ bs @ zs" and post = post]; simp add: b'_def)+
  ultimately show thesis using that [of b'] by (simp add: b'_def)
qed

lemma load_prefix:
  assumes "buf_ok b" "content b = xs @ ys" "n = int (length xs)"
  shows "load_at b (b_offset b) n = Some xs"
proof -
  obtain pre body post where b: "b_data b = Some (pre @ body @ post)" "b_offset b = int (length pre)"
    "b_len b = int (length body)" "content b = body"
    using assms(1) by (rule buf_ok_cases)
  moreover have "body = xs @ ys" using b(4) assms(2) by simp
  ultimately show ?thesis using assms(3) by (simp add: load_at_def mem_read_def)
qed

subsection \<open>One packet out\<close>

lemma send_update_short:
  "send_id p \<noteq> PACKET_ID_MAX \<Longrightarrow> \<exists>p'. packet_id_send_update ts p False = (p', True) \<and> send_id p' = send_id p + 1"
  by (auto simp: packet_id_send_update_def Let_def)

lemma buf_set_write_zeros:
  "0 < n \<Longrightarrow> n \<le> 16 \<Longrightarrow> \<exists>b. buf_set_write (Some (replicate (nat n) 0)) n = Some b \<and> buf_ok b \<and> content b = [] \<and>
     tailroom b = nat n \<and> headroom b = 0 \<and> b_capacity b = n"
  by (auto simp: buf_set_write_def buf_size_valid_def BUF_SIZE_MAX_def mem_write_def buf_ok_def content_def tailroom_def)

lemma buf_write_alloc_room:
  assumes "buf_ok b" "0 \<le> n" "nat n \<le> tailroom b"
  obtains b' gap where "buf_write_alloc b n = (b', Some (buf_bend b))" "buf_ok b'" "content b' = content b @ gap"
    "int (length gap) = n" "tailroom b' = tailroom b - nat n" "b_offset b' = b_offset b" "b_len b' = b_len b + n"
proof -
  obtain pre body post where b: "b_data b = Some (pre @ body @ post)" "b_offset b = int (length pre)"
    "b_len b = int (length body)" "b_capacity b = int (length pre + length body + length post)"
    "content b = body" "b_capacity b < BUF_SIZE_MAX"
    using assms(1) by (rule buf_ok_cases)
  have "nat n \<le> length post" using assms(3) b by (simp add: tailroom_def)
  then obtain gap rest where post: "post = gap @ rest" "length gap = nat n" using split_append_at by blast
  define b' where "b' = b\<lparr>b_len := b_len b + n\<rparr>"
  have "b_data b' = Some (pre @ (body @ gap) @ rest)" "b_offset b' = int (length pre)" "b_len b' = int (length (body @ gap))"
    "b_capacity b' = int (length pre + length (body @ gap) + length rest)" "b_capacity b' < BUF_SIZE_MAX"
    using b post assms(2) by (simp_all add: b'_def)
  note ok = buf_okI [OF this]
  have "buf_write_alloc b n = (b', Some (buf_bend b))"
    using assms by (simp add: buf_write_alloc_def buf_safe_iff b'_def buf_bptr_def buf_bend_def)
  then show thesis using that [of b' gap] ok b post assms(2) by (simp add: b'_def tailroom_def)
qed

lemma encrypt_aead_spec:
  assumes c: "aead_correct c" "aead_key c im ctx" and opt: "pid_initialized opt"
    and id: "packet_id_send_update ts (pid_send (co_packet_id opt)) False = (p', True)"
    and buf: "buf_ok buf" "content buf = p" and work: "buf_ok work" "content work = h"
    and room: "4 + ctx_tag_size c + int (length p) + ctx_block_size c \<le> int (tailroom work)"
    and enc: "ctx_encrypt c (be32 (send_id p') @ im) (h @ be32 (send_id p')) p = (u, v, t)"
  shows "\<exists>w. openvpn_encrypt_aead ts ctx opt buf work = Some (packet_id_of opt p', w) \<and> buf_ok w \<and>
    content w = h @ be32 (send_id p') @ t @ u @ v"
proof -
  let ?id = "be32 (send_id p')"
  note cc = c(1) [unfolded aead_correct_def] and k = c(2) [unfolded aead_key_def]
  have ivlen: "12 \<le> ctx_iv_length c" "ctx_iv_length c \<le> 16" "0 \<le> ctx_tag_size c" "0 \<le> ctx_block_size c" using cc by auto
  have ct: "int (length (u @ v)) \<le> int (length p) + ctx_block_size c" "int (length t) = ctx_tag_size c" using cc enc by blast+
  have len: "b_len buf = int (length p)" using buf_ok_len [OF buf(1)] buf(2) by simp
  obtain b0 where b0: "buf_set_write (Some (replicate (nat (ctx_iv_length c)) 0)) (ctx_iv_length c) = Some b0" "buf_ok b0"
    "content b0 = []" "tailroom b0 = nat (ctx_iv_length c)" "headroom b0 = 0" "b_capacity b0 = ctx_iv_length c"
    using buf_set_write_zeros [of "ctx_iv_length c"] ivlen by auto
  have "length ?id \<le> tailroom b0" using b0(4) ivlen by simp
  from buf_write_room [OF b0(2) this] obtain b1 where b1: "buf_write b0 ?id = Some (b1, True)" "buf_ok b1" "content b1 = ?id"
    "tailroom b1 = nat (ctx_iv_length c) - 4" "headroom b1 = 0" "b_capacity b1 = ctx_iv_length c"
    using b0(3-6) by auto
  have klen: "int (length im) = ctx_iv_length c - 4" using k by blast
  then have "length im \<le> tailroom b1" using b1(4) ivlen by arith
  from buf_write_room [OF b1(2) this] obtain b2 where b2: "buf_write b1 im = Some (b2, True)" "buf_ok b2" "content b2 = ?id @ im"
    "headroom b2 = 0" "b_capacity b2 = ctx_iv_length c"
    using b1(3-6) by auto
  have l2: "b_len b2 = ctx_iv_length c" using buf_ok_len [OF b2(2)] b2(3) k by simp
  have d2: "b_data b2 = Some (?id @ im)"
    using b2(2-5) l2 by (auto simp: buf_ok_def content_def split: option.splits)
  have wid: "packet_id_write ts (pid_send (co_packet_id opt)) b0 False False = Some (p', b1, True)"
    using b1(1) by (simp add: packet_id_write_def id Let_def)
  have "length ?id \<le> tailroom work" using room ivlen by simp
  from buf_write_room [OF work(1) this] obtain w1 where w1: "buf_write work ?id = Some (w1, True)" "buf_ok w1"
    "content w1 = h @ ?id" "tailroom w1 = tailroom work - 4" "b_capacity w1 = b_capacity work"
    using work(2) by auto
  have "nat (ctx_tag_size c) \<le> tailroom w1" using room w1(4) ivlen by linarith
  from buf_write_alloc_room [OF w1(2) ivlen(3) this] obtain w2 gap where
    w2: "buf_write_alloc w1 (ctx_tag_size c) = (w2, Some (buf_bend w1))" "buf_ok w2" "content w2 = (h @ ?id) @ gap"
    "int (length gap) = ctx_tag_size c" "tailroom w2 = tailroom w1 - nat (ctx_tag_size c)" "b_offset w2 = b_offset w1"
    "b_len w2 = b_len w1 + ctx_tag_size c"
    unfolding w1(3) by blast
  have room2: "int (length p) + ctx_block_size c \<le> int (tailroom w2)" using room w1(4) w2(5) ivlen by linarith
  have safe: "buf_safe w2 (b_len buf + ctx_block_size c)"
    using room2 ivlen by (simp add: buf_safe_iff [OF w2(2)] len)
  have adlen: "b_len w2 - ctx_tag_size c = int (length (h @ ?id))" using buf_ok_len [OF w2(2)] w2(3,4) by simp
  have ad: "load_at w2 (b_offset w2) (b_len w2 - ctx_tag_size c) = Some (h @ ?id)"
    by (rule load_prefix [OF w2(2,3) adlen])
  have "length u \<le> tailroom w2" using ct(1) room2 by simp
  from put_output_end [OF w2(2) this] obtain w3 where w3: "put_output w2 (buf_bend w2) u = Some w3" "buf_ok w3"
    "content w3 = content w2 @ u" "tailroom w3 = tailroom w2 - length u" "headroom w3 = headroom w2" by blast
  have "length v \<le> tailroom w3" using ct(1) room2 w3(4) by simp
  from put_output_end [OF w3(2) this] obtain w4 where w4: "put_output w3 (buf_bend w3) v = Some w4" "buf_ok w4"
    "content w4 = content w3 @ v" "headroom w4 = headroom w3" by blast
  have c4: "content w4 = (h @ ?id) @ gap @ (u @ v)" using w4(3) w3(3) w2(3) by simp
  have off: "b_offset w4 = b_offset w2"
    using w4(4) w3(5) buf_ok_offset [OF w4(2)] buf_ok_offset [OF w2(2)] by (metis eq_nat_nat_iff)
  have "length gap = length t" "buf_bend w1 = b_offset w4 + int (length (h @ ?id))"
    using w2(4) ct(2) off w2(6) buf_ok_len [OF w1(2)] w1(3) by (simp_all add: buf_bend_def)
  from store_inside [OF w4(2) c4 this] obtain w where w: "store_at w4 (buf_bend w1) t = Some w" "buf_ok w"
    "content w = (h @ ?id) @ t @ (u @ v)" by blast
  have kl: "kc_cipher ctx = Some c" "implicit_iv_len ctx = ctx_iv_length c - 4" using k by auto
  have kim: "take (nat (ctx_iv_length c - 4)) (implicit_iv ctx) = im" using k by auto
  have im4: "take 4 (?id @ im) = ?id" by simp
  have bytes: "buf_bytes buf = Some p" using buf_bytes_content [OF buf(1)] buf(2) by simp
  have "openvpn_encrypt_aead ts ctx opt buf work = Some (packet_id_of opt p', w)"
    unfolding openvpn_encrypt_aead_def using conjunct1 [OF cc] kl opt ivlen safe
    by (simp add: kim mode_aead_def OPENVPN_AEAD_MIN_IV_LEN_def OPENVPN_MAX_IV_LENGTH_def b0(1) wid b2(1) l2 d2 im4 w1(1) w2(1)
        ad bytes enc w3(1) w4(1) w(1) Let_def)
  then show ?thesis using w by simp
qed

subsection \<open>One packet in\<close>

text \<open>A packet of which the first \<open>n\<close> bytes, the opcode and peer id, have been stripped.\<close>

definition recv_buf :: "nat \<Rightarrow> byte list \<Rightarrow> buffer" where
  "recv_buf n pkt = (packet_buf pkt)\<lparr>b_offset := int n, b_len := int (length pkt) - int n\<rparr>"

lemma recv_buf_ok:
  "n \<le> length pkt \<Longrightarrow> int (length pkt) < BUF_SIZE_MAX \<Longrightarrow> buf_ok (recv_buf n pkt) \<and> content (recv_buf n pkt) = drop n pkt"
  by (simp add: recv_buf_def packet_buf_def buf_ok_def content_def)

lemma check_replay_initialized:
  "crypto_check_replay ts opt pin = Some r \<Longrightarrow> pid_initialized opt"
  by (auto simp: crypto_check_replay_def pid_initialized_def packet_id_reap_test_def packet_id_reap_def packet_id_test_def Let_def
      split: Option.bind_splits if_splits)

lemma decrypt_aead_spec:
  assumes c: "aead_correct c" "aead_key c im ctx" and p: "p \<noteq> []"
    and enc: "ctx_encrypt c (be32 i @ im) (h @ be32 i) p = (u, v, t)" and pkt: "pkt = h @ be32 i @ t @ u @ v"
    and small: "int (length pkt) < BUF_SIZE_MAX"
    and work: "buf_ok work" "0 \<le> FRAME_HEADROOM_ADJ f FRAME_HEADROOM_MARKER_DECRYPT"
      "FRAME_HEADROOM_ADJ f FRAME_HEADROOM_MARKER_DECRYPT + int (length p) + 2 * ctx_block_size c \<le> b_capacity work"
    and check: "crypto_check_replay ts opt \<lparr>net_id = i, net_time = 0\<rparr> = Some (opt', fresh)"
  shows "\<exists>b. openvpn_decrypt_aead ts ctx opt (recv_buf (length h) pkt) work f 0 = Some (opt', b, fresh) \<and>
    content b = (if fresh then p else [])"
proof -
  let ?H = "FRAME_HEADROOM_ADJ f FRAME_HEADROOM_MARKER_DECRYPT"
  note cc = c(1) [unfolded aead_correct_def] and k = c(2) [unfolded aead_key_def]
  have sizes: "12 \<le> ctx_iv_length c" "ctx_iv_length c \<le> 16" "0 \<le> ctx_tag_size c" "0 \<le> ctx_block_size c" using cc by auto
  have kl: "kc_cipher ctx = Some c" "implicit_iv_len ctx = ctx_iv_length c - 4" using k by auto
  have kim: "take (nat (ctx_iv_length c - 4)) (implicit_iv ctx) = im" using k by auto
  obtain x y where out: "ctx_decrypt c (be32 i @ im) (h @ be32 i) (u @ v) t = (Some x, Some y)" "x @ y = p"
    and ct: "int (length (u @ v)) \<le> int (length p) + ctx_block_size c" "int (length p) \<le> int (length (u @ v)) + ctx_block_size c"
      "u @ v \<noteq> []" "int (length t) = ctx_tag_size c"
    using cc enc p by blast
  define b where "b = recv_buf (length h) pkt"
  have b: "buf_ok b" "content b = be32 i @ t @ u @ v"
    using recv_buf_ok [of "length h" pkt] small by (simp_all add: b_def pkt)
  have bl: "b_len b = 4 + ctx_tag_size c + int (length (u @ v))" using buf_ok_len [OF b(1)] b(2) ct(4) by simp
  have bo: "b_offset b = int (length h)" "b_data b = Some pkt" by (simp_all add: b_def recv_buf_def packet_buf_def)
  define b1 where "b1 = b\<lparr>b_offset := b_offset b + 4, b_len := b_len b - 4\<rparr>"
  have b1: "buf_read b 4 = Some (b1, Some (be32 i))" "buf_ok b1" "content b1 = t @ u @ v"
    using buf_read_enough [OF b(1), of 4] b(2) by (auto simp: b1_def)
  define b2 where "b2 = b1\<lparr>b_offset := b_offset b1 + ctx_tag_size c, b_len := b_len b1 - ctx_tag_size c\<rparr>"
  have "nat (ctx_tag_size c) \<le> length (content b1)" "nat (ctx_tag_size c) = length t" using b1(3) ct(4) by simp_all
  then have b2: "buf_advance b1 (ctx_tag_size c) = (b2, True)" "buf_ok b2" "content b2 = u @ v"
    using buf_advance_content [OF b1(2) sizes(3)] b1(3) by (simp_all add: b2_def)
  have b2l: "b_len b2 = int (length (u @ v))" "b_offset b2 = int (length h) + 4 + ctx_tag_size c" "b_data b2 = Some pkt"
    using bl bo by (simp_all add: b2_def b1_def)
  have tag: "load_at b1 (b_offset b1) (ctx_tag_size c) = Some t" by (rule load_prefix [OF b1(2,3)]) (simp add: ct(4))
  have exp: "load_at b (b_offset b) 4 = Some (be32 i)" by (rule load_prefix [OF b]) simp
  have ad: "load_at b2 0 (int (length h) + 4) = Some (h @ be32 i)"
    using b2l(3) by (simp add: load_at_def mem_read_def pkt nat_add_distrib)
  have read: "packet_id_read b False = Some (\<lparr>net_id = i, net_time = 0\<rparr>, b1, True)"
    using b1(1) by (simp add: packet_id_read_def Let_def)
  obtain w where w: "buf_init work ?H = (w, True)" "buf_ok w" "content w = []" "tailroom w = nat (b_capacity work - ?H)"
    using buf_init_ok [OF work(1,2)] work(3) sizes(4) by auto
  have wl: "buf_bend w = b_offset w" using buf_ok_len [OF w(2)] w(3) by (simp add: buf_bend_def)
  have room: "int (length (u @ v)) + ctx_block_size c \<le> int (tailroom w)" using ct(1) work(3) w(4) by arith
  have safe: "buf_safe w (b_len b2 + ctx_block_size c)" using room sizes(4) by (simp add: buf_safe_iff [OF w(2)] b2l)
  have lp: "length x + length y = length p" using out(2) by auto
  have "length x \<le> tailroom w" using room ct(2) lp by linarith
  from put_output_end [OF w(2) this] obtain w1 where w1: "put_output w (b_offset w) x = Some w1" "buf_ok w1" "content w1 = x"
    "tailroom w1 = tailroom w - length x" "headroom w1 = headroom w" unfolding wl w(3) by auto
  have "b_offset w1 = b_offset w"
    using w1(5) buf_ok_offset [OF w1(2)] buf_ok_offset [OF w(2)] by (metis eq_nat_nat_iff)
  then have wl1: "b_offset w1 + int (length x) = buf_bend w1" using buf_ok_len [OF w1(2)] w1(3) by (simp add: buf_bend_def)
  have "length y \<le> tailroom w1" using room ct(2) lp w1(4) by linarith
  from put_output_end [OF w1(2) this] obtain w2 where w2: "put_output w1 (b_offset w1 + int (length x)) y = Some w2" "content w2 = p"
    unfolding wl1 w1(3) out(2) by blast
  have nonempty: "\<not> b_len b2 < 1" using b2l(1) ct(3) by (cases "u @ v") auto
  have enough: "\<not> b_len b + (ctx_iv_length c - 4) < ctx_iv_length c" using bl sizes(3) by simp
  have pos: "b_len b > 0" "0 \<le> b_offset b" "\<not> b_len b1 < ctx_tag_size c" using bl sizes(3) bo(1) by (simp_all add: b1_def)
  have bytes: "buf_bytes b2 = Some (u @ v)" using buf_bytes_content [OF b2(2)] b2(3) by simp
  have "openvpn_decrypt_aead ts ctx opt b work f 0 =
      (if fresh then Some (opt', w2, True) else Some (opt', b2\<lparr>b_len := 0\<rparr>, False))"
    unfolding openvpn_decrypt_aead_def
    using conjunct1 [OF cc] kl check_replay_initialized [OF check] pos nonempty safe
    by (simp add: mode_aead_def w(1) exp kim enough read tag b2(1) b2l(2) ad bytes out(1) w1(1) w2(1) check crypt_error_def Let_def)
  then show ?thesis using w2(2) by (cases fresh) (simp_all add: b_def)
qed

subsection \<open>The channel\<close>

text \<open>
  The sender encrypts its payloads, each at its time, behind the same header \<open>h\<close> in the work buffer; the receiver
  decrypts the packets that the network hands it, each at its time.
\<close>

fun data_send ::
  "key_ctx \<Rightarrow> crypto_options \<Rightarrow> buffer \<Rightarrow> (time_t \<times> byte list) list \<Rightarrow> (crypto_options \<times> byte list list) option" where
  "data_send ctx opt work [] = Some (opt, [])"
| "data_send ctx opt work ((ts, p) # ps) = do {
     (opt, b) \<leftarrow> openvpn_encrypt [] ts ctx opt (packet_buf p) work;
     (opt, pkts) \<leftarrow> data_send ctx opt work ps;
     Some (opt, content b # pkts)
   }"

fun data_recv ::
  "key_ctx \<Rightarrow> crypto_options \<Rightarrow> buffer \<Rightarrow> frame \<Rightarrow> nat \<Rightarrow> (time_t \<times> byte list) list \<Rightarrow>
   (crypto_options \<times> byte list list) option" where
  "data_recv ctx opt work f n [] = Some (opt, [])"
| "data_recv ctx opt work f n ((ts, pkt) # pkts) = do {
     (opt, b, ok) \<leftarrow> openvpn_decrypt ts ctx opt (recv_buf n pkt) work f 0;
     (opt, out) \<leftarrow> data_recv ctx opt work f n pkts;
     Some (opt, if ok then content b # out else out)
   }"

text \<open>The packet that carries payload \<open>p\<close> under packet id \<open>i\<close>.\<close>

definition sealed :: "cipher_ctx \<Rightarrow> byte list \<Rightarrow> byte list \<Rightarrow> u32 \<Rightarrow> byte list \<Rightarrow> byte list" where
  "sealed c im h i p =
     (case ctx_encrypt c (be32 i @ im) (h @ be32 i) p of (u, v, t) \<Rightarrow> h @ be32 i @ t @ u @ v)"

text \<open>Room for a payload at the two ends.\<close>

definition fits_send :: "cipher_ctx \<Rightarrow> buffer \<Rightarrow> byte list \<Rightarrow> bool" where
  "fits_send c work p \<longleftrightarrow> p \<noteq> [] \<and> 4 + ctx_tag_size c + int (length p) + ctx_block_size c \<le> int (tailroom work)"

definition fits_recv :: "cipher_ctx \<Rightarrow> buffer \<Rightarrow> frame \<Rightarrow> byte list \<Rightarrow> bool" where
  "fits_recv c work f p \<longleftrightarrow> p \<noteq> [] \<and>
     FRAME_HEADROOM_ADJ f FRAME_HEADROOM_MARKER_DECRYPT + int (length p) + 2 * ctx_block_size c \<le> b_capacity work"

lemma id_step: "n < 2 ^ 32 - 1 \<Longrightarrow> (of_nat n :: u32) \<noteq> PACKET_ID_MAX"
proof
  assume n: "n < 2 ^ 32 - 1" and "(of_nat n :: u32) = PACKET_ID_MAX"
  then have "unat (of_nat n :: u32) = 2 ^ 32 - 1" by (simp add: PACKET_ID_MAX_def)
  moreover have "unat (of_nat n :: u32) = n" using n by (simp add: unat_of_nat)
  ultimately show False using n by simp
qed

lemma data_send_spec:
  assumes c: "aead_correct c" "aead_key c im ctx" and work: "buf_ok work" "content work = h"
  shows "pid_initialized opt \<Longrightarrow> send_id (pid_send (co_packet_id opt)) = of_nat n \<Longrightarrow> n + length ps < 2 ^ 32 \<Longrightarrow>
    \<forall>(ts, p) \<in> set ps. fits_send c work p \<Longrightarrow>
    \<exists>opt'. data_send ctx opt work ps = Some (opt', map (\<lambda>(k, ts, p). sealed c im h (of_nat (Suc (n + k))) p) (enumerate 0 ps))"
proof (induction ps arbitrary: opt n)
  case (Cons e ps)
  obtain ts p where e: "e = (ts, p)" by fastforce
  have fit: "fits_send c work p" using Cons.prems(4) by (simp add: e)
  obtain q where q: "packet_id_send_update ts (pid_send (co_packet_id opt)) False = (q, True)" "send_id q = of_nat (Suc n)"
    using send_update_short [of "pid_send (co_packet_id opt)" ts] Cons.prems(2,3) id_step [of n] by (auto simp: add.commute)
  obtain u v t where enc: "ctx_encrypt c (be32 (send_id q) @ im) (h @ be32 (send_id q)) p = (u, v, t)" by (metis prod_cases3)
  have small: "int (length p) < BUF_SIZE_MAX"
    using fit buf_ok_tail_bound [OF work(1)] c(1) by (simp add: fits_send_def aead_correct_def)
  note b = packet_buf_ok [OF small]
  obtain w where w: "openvpn_encrypt_aead ts ctx opt (packet_buf p) work = Some (packet_id_of opt q, w)"
    "content w = sealed c im h (of_nat (Suc n)) p"
    using encrypt_aead_spec [OF c Cons.prems(1) q(1) _ _ work _ enc, of "packet_buf p"] b fit enc q(2)
    by (auto simp: fits_send_def sealed_def)
  have "kc_cipher ctx = Some c" "ctx_mode c = OPENVPN_MODE_GCM" using c by (simp_all add: aead_key_def aead_correct_def)
  then have run: "openvpn_encrypt [] ts ctx opt (packet_buf p) work = Some (packet_id_of opt q, w)"
    using w(1) fit by (simp add: openvpn_encrypt_def mode_aead_def packet_buf_def fits_send_def)
  have "pid_initialized (packet_id_of opt q)" "send_id (pid_send (co_packet_id (packet_id_of opt q))) = of_nat (Suc n)"
    using Cons.prems(1) q(2) by (simp_all add: pid_initialized_def packet_id_of_def)
  then obtain opt' where "data_send ctx (packet_id_of opt q) work ps =
      Some (opt', map (\<lambda>(k, ts, p). sealed c im h (of_nat (Suc (Suc n + k))) p) (enumerate 0 ps))"
    using Cons.IH [of "packet_id_of opt q" "Suc n"] Cons.prems(3,4) by auto
  moreover have "map (\<lambda>(k, ts, p). sealed c im h (of_nat (Suc (Suc n + k))) p) (enumerate 0 ps) =
      map (\<lambda>(k, ts, p). sealed c im h (of_nat (Suc (n + k))) p) (enumerate (Suc 0) ps)"
    by (rule nth_equalityI) (simp_all add: nth_enumerate_eq split: prod.split)
  ultimately show ?case using run w(2) by (simp add: e)
qed simp

text \<open>What the receiver hands up is what the replay check accepts.\<close>

lemma data_recv_replay:
  assumes c: "aead_correct c" "aead_key c im ctx"
    and work: "buf_ok work" "0 \<le> FRAME_HEADROOM_ADJ f FRAME_HEADROOM_MARKER_DECRYPT"
    and ps: "\<forall>k < length ps. fits_recv c work f (snd (ps ! k)) \<and> int (length (sealed c im h (of_nat (Suc k)) (snd (ps ! k)))) < BUF_SIZE_MAX"
      "length ps < 2 ^ 32"
  shows "\<forall>(ts, j) \<in> set js. j < length ps \<Longrightarrow>
    replay_run opt (map (\<lambda>(ts, j). (ts, \<lparr>net_id = of_nat (Suc j), net_time = 0\<rparr>)) js) = Some (opt', keys) \<Longrightarrow>
    \<exists>ks. data_recv ctx opt work f (length h) (map (\<lambda>(ts, j). (ts, sealed c im h (of_nat (Suc j)) (snd (ps ! j)))) js) =
        Some (opt', map (\<lambda>k. snd (ps ! k)) ks) \<and> keys = map (\<lambda>k. (0, of_nat (Suc k))) ks \<and> subseq ks (map snd js)"
proof (induction js arbitrary: opt keys)
  case (Cons a js)
  obtain ts j where a: "a = (ts, j)" by fastforce
  have j: "j < length ps" using Cons.prems(1) by (simp add: a)
  define p where "p = snd (ps ! j)"
  obtain opt1 fresh keys1 where 1: "crypto_check_replay ts opt \<lparr>net_id = of_nat (Suc j), net_time = 0\<rparr> = Some (opt1, fresh)"
    "replay_run opt1 (map (\<lambda>(ts, j). (ts, \<lparr>net_id = of_nat (Suc j), net_time = 0\<rparr>)) js) = Some (opt', keys1)"
    "keys = (if fresh then (0, of_nat (Suc j)) # keys1 else keys1)"
    using Cons.prems(2) by (auto simp: a split: Option.bind_splits)
  obtain ks where ks: "data_recv ctx opt1 work f (length h) (map (\<lambda>(ts, j). (ts, sealed c im h (of_nat (Suc j)) (snd (ps ! j)))) js) =
        Some (opt', map (\<lambda>k. snd (ps ! k)) ks)" "keys1 = map (\<lambda>k. (0, of_nat (Suc k))) ks" "subseq ks (map snd js)"
    using Cons.IH [OF _ 1(2)] Cons.prems(1) by auto
  obtain u v t where enc: "ctx_encrypt c (be32 (of_nat (Suc j)) @ im) (h @ be32 (of_nat (Suc j))) p = (u, v, t)" by (metis prod_cases3)
  have pkt: "sealed c im h (of_nat (Suc j)) p = h @ be32 (of_nat (Suc j)) @ t @ u @ v" unfolding sealed_def enc by simp
  have fit: "p \<noteq> []" "FRAME_HEADROOM_ADJ f FRAME_HEADROOM_MARKER_DECRYPT + int (length p) + 2 * ctx_block_size c \<le> b_capacity work"
    "int (length (sealed c im h (of_nat (Suc j)) p)) < BUF_SIZE_MAX"
    using ps(1) j by (simp_all add: p_def fits_recv_def)
  obtain b where b: "openvpn_decrypt_aead ts ctx opt (recv_buf (length h) (sealed c im h (of_nat (Suc j)) p)) work f 0 = Some (opt1, b, fresh)"
    "content b = (if fresh then p else [])"
    using decrypt_aead_spec [OF c fit(1) enc pkt fit(3) work fit(2) 1(1)] by blast
  have "b_len (recv_buf (length h) (sealed c im h (of_nat (Suc j)) p)) > 0" by (simp add: recv_buf_def pkt del: of_nat_Suc)
  moreover have "kc_cipher ctx = Some c" "ctx_mode c = OPENVPN_MODE_GCM" using c by (simp_all add: aead_key_def aead_correct_def)
  ultimately have run: "openvpn_decrypt ts ctx opt (recv_buf (length h) (sealed c im h (of_nat (Suc j)) p)) work f 0 = Some (opt1, b, fresh)"
    using b(1) by (simp add: openvpn_decrypt_def mode_aead_def)
  show ?case
  proof (cases fresh)
    case True
    then show ?thesis using run ks 1(3) b(2)
      by (intro exI [of _ "j # ks"]) (simp add: a p_def del: of_nat_Suc)
  next
    case False
    then show ?thesis using run ks 1(3) by (intro exI [of _ ks]) (simp add: a p_def list_emb_Cons del: of_nat_Suc)
  qed
qed simp

lemma replay_run_total:
  assumes "packet_id_init sb tb = Some (co_packet_id opt)" "\<forall>(ts, pin) \<in> set evs. 1 < ts"
  shows "\<exists>opt' ks. replay_run opt evs = Some (opt', ks) \<and> distinct ks"
  using tcp.no_replay [of opt evs] udp.no_replay [of opt evs] packet_id_init_linear packet_id_init_window assms
  by (cases "sb = 0") fastforce+

text \<open>
  C5. The data channel delivers each payload at most once, and unchanged. One side encrypts a list of payloads under a key with an
  AEAD cipher; whatever selection of the packets reaches the other side, in any order and with repetitions, at any
  times, with the replay protection of UDP or TCP, the decryption succeeds without a failed assertion, and what it
  hands up is, in the order of arrival, the payloads of distinct packets that have arrived.
\<close>

theorem data_channel_at_most_once:
  assumes "aead_correct c" "aead_key c im tx_key" "aead_key c im rx_key"
    "pid_initialized tx" "send_id (pid_send (co_packet_id tx)) = 0" "packet_id_init sb tb = Some (co_packet_id rx)"
    "buf_ok tx_work" "content tx_work = h" "buf_ok rx_work" "0 \<le> FRAME_HEADROOM_ADJ f FRAME_HEADROOM_MARKER_DECRYPT"
    "int (length h) + int (tailroom tx_work) < BUF_SIZE_MAX"
    "length ps < 2 ^ 32" "\<forall>(ts, p) \<in> set ps. fits_send c tx_work p \<and> fits_recv c rx_work f p"
  shows "\<exists>tx' pkts. data_send tx_key tx tx_work ps = Some (tx', pkts) \<and> length pkts = length ps \<and>
    (\<forall>js. (\<forall>(ts, j) \<in> set js. 1 < ts \<and> j < length ps) \<longrightarrow>
      (\<exists>rx' ks. data_recv rx_key rx rx_work f (length h) (map (\<lambda>(ts, j). (ts, pkts ! j)) js) = Some (rx', map (\<lambda>k. snd (ps ! k)) ks) \<and>
        distinct ks \<and> subseq ks (map snd js)))"
proof -
  define pkts where "pkts = map (\<lambda>(k, ts, p). sealed c im h (of_nat (Suc k)) p) (enumerate 0 ps)"
  obtain tx' where send: "data_send tx_key tx tx_work ps = Some (tx', pkts)"
    using data_send_spec [OF assms(1,2,7,8,4), of 0 ps] assms(5,12,13) by (auto simp: pkts_def)
  have at: "pkts ! j = sealed c im h (of_nat (Suc j)) (snd (ps ! j))" if "j < length ps" for j
    using that by (simp add: pkts_def nth_enumerate_eq split: prod.split)
  have fit: "fits_send c tx_work (snd (ps ! k)) \<and> fits_recv c rx_work f (snd (ps ! k))" if "k < length ps" for k
    using assms(13) nth_mem [OF that] by (cases "ps ! k") auto
  have len: "int (length (sealed c im h (of_nat (Suc k)) (snd (ps ! k)))) < BUF_SIZE_MAX" if "k < length ps" for k
  proof -
    obtain u v t where enc: "ctx_encrypt c (be32 (of_nat (Suc k)) @ im) (h @ be32 (of_nat (Suc k))) (snd (ps ! k)) = (u, v, t)"
      by (metis prod_cases3)
    then have "int (length (u @ v)) \<le> int (length (snd (ps ! k))) + ctx_block_size c" "int (length t) = ctx_tag_size c"
      using assms(1) unfolding aead_correct_def by blast+
    then show ?thesis using fit [OF that] assms(11) by (simp add: sealed_def enc fits_send_def del: of_nat_Suc)
  qed
  have "\<exists>rx' ks. data_recv rx_key rx rx_work f (length h) (map (\<lambda>(ts, j). (ts, pkts ! j)) js) = Some (rx', map (\<lambda>k. snd (ps ! k)) ks) \<and>
        distinct ks \<and> subseq ks (map snd js)" if js: "\<forall>(ts, j) \<in> set js. 1 < ts \<and> j < length ps" for js
  proof -
    have eq: "map (\<lambda>(ts, j). (ts, pkts ! j)) js = map (\<lambda>(ts, j). (ts, sealed c im h (of_nat (Suc j)) (snd (ps ! j)))) js"
      using js at by fastforce
    obtain rx' keys where keys: "replay_run rx (map (\<lambda>(ts, j). (ts, \<lparr>net_id = of_nat (Suc j), net_time = 0\<rparr>)) js) = Some (rx', keys)"
      "distinct keys"
      using replay_run_total [OF assms(6), of "map (\<lambda>(ts, j). (ts, \<lparr>net_id = of_nat (Suc j), net_time = 0\<rparr>)) js"] js by fastforce
    obtain ks where "data_recv rx_key rx rx_work f (length h) (map (\<lambda>(ts, j). (ts, sealed c im h (of_nat (Suc j)) (snd (ps ! j)))) js) =
        Some (rx', map (\<lambda>k. snd (ps ! k)) ks)" "keys = map (\<lambda>k. (0, of_nat (Suc k))) ks" "subseq ks (map snd js)"
      using data_recv_replay [OF assms(1,3,9,10) _ assms(12) _ keys(1), of h] js fit len by fastforce
    then show ?thesis using keys(2) unfolding eq by (auto simp: distinct_map)
  qed
  then show ?thesis using send by (intro exI [of _ tx'] exI [of _ pkts]) (simp add: pkts_def)
qed

text \<open>
  A cipher for the examples: the text is masked with the first byte of the vector, and the tag is the
  sum of the additional data and the text.
\<close>

definition toy_sum :: "byte list \<Rightarrow> byte list" where
  "toy_sum bs = [fold (+) bs 0]"

definition toy_aead :: cipher_ctx where
  "toy_aead = \<lparr>ctx_mode = OPENVPN_MODE_GCM, ctx_iv_length = 12, ctx_tag_size = 1, ctx_block_size = 1,
     ctx_encrypt = \<lambda>iv ad p. (map ((XOR) (hd iv)) p, [], toy_sum (ad @ p)),
     ctx_decrypt = \<lambda>iv ad ct tag. (Some (map ((XOR) (hd iv)) ct),
       if toy_sum (ad @ map ((XOR) (hd iv)) ct) = tag then Some [] else None)\<rparr>"

lemma toy_aead_correct: "aead_correct toy_aead"
proof -
  have "map ((XOR) a) (map ((XOR) a) p) = p" for a :: byte and p
    by (induction p) (simp_all flip: xor.assoc)
  then show ?thesis by (simp add: aead_correct_def toy_aead_def toy_sum_def)
qed

definition toy_key :: key_ctx where
  "toy_key = \<lparr>kc_cipher = Some toy_aead, kc_hmac = None, implicit_iv = replicate 16 7, implicit_iv_len = 8\<rparr>"

definition toy_work :: buffer where
  "toy_work = \<lparr>b_capacity = 60, b_offset = 10, b_len = 1, b_data = Some (replicate 60 9)\<rparr>"

lemma data_channel_at_most_once_witness:
  "\<exists>tx' pkts rx'. data_send toy_key (sample_options 4 15) toy_work [(50, [1, 2]), (51, [3]), (52, [4, 5, 6])] = Some (tx', pkts) \<and>
    length pkts = 3 \<and> data_recv toy_key (sample_options 4 15) toy_work tiny_frame 1
      [(60, pkts ! 2), (60, pkts ! 2), (61, pkts ! 0), (62, pkts ! 2), (63, pkts ! 0)] = Some (rx', [[4, 5, 6], [1, 2]])"
proof -
  let ?ps = "[(50, [1, 2]), (51, [3]), (52, [4, 5, 6])] :: (time_t \<times> byte list) list"
  let ?js = "[(60, 2), (60, 2), (61, 0), (62, 2), (63, 0)] :: (time_t \<times> nat) list"
  have key: "aead_key toy_aead (replicate 8 7) toy_key" by (simp add: aead_key_def toy_aead_def toy_key_def)
  have opt: "pid_initialized (sample_options 4 15)" "send_id (pid_send (co_packet_id (sample_options 4 15))) = 0" by code_simp+
  have work: "buf_ok toy_work" "content toy_work = [9]" "tailroom toy_work = 49" "b_capacity toy_work = 60"
    by (simp_all add: toy_work_def buf_ok_def content_def tailroom_def BUF_SIZE_MAX_def)
  have frame: "FRAME_HEADROOM_ADJ tiny_frame FRAME_HEADROOM_MARKER_DECRYPT = 4" by (simp add: tiny_frame_sizes)
  have run: "(do {
      (tx', pkts) \<leftarrow> data_send toy_key (sample_options 4 15) toy_work ?ps;
      map_option snd (data_recv toy_key (sample_options 4 15) toy_work tiny_frame 1
        [(60, pkts ! 2), (60, pkts ! 2), (61, pkts ! 0), (62, pkts ! 2), (63, pkts ! 0)])
    }) = Some [[4, 5, 6], [1, 2]]" by code_simp
  have "\<forall>(ts, p) \<in> set ?ps. fits_send toy_aead toy_work p \<and> fits_recv toy_aead toy_work tiny_frame p"
    by (simp add: fits_send_def fits_recv_def work frame) (simp add: toy_aead_def)
  then have th: "\<exists>tx' pkts. data_send toy_key (sample_options 4 15) toy_work ?ps = Some (tx', pkts) \<and> length pkts = length ?ps \<and>
    (\<forall>js. (\<forall>(ts, j) \<in> set js. 1 < ts \<and> j < length ?ps) \<longrightarrow>
      (\<exists>rx' ks. data_recv toy_key (sample_options 4 15) toy_work tiny_frame (length [9 :: byte]) (map (\<lambda>(ts, j). (ts, pkts ! j)) js) =
          Some (rx', map (\<lambda>k. snd (?ps ! k)) ks) \<and> distinct ks \<and> subseq ks (map snd js)))"
    by (intro data_channel_at_most_once [OF toy_aead_correct key key opt sample_init work(1,2,1)]) (simp_all add: frame work BUF_SIZE_MAX_def)
  then obtain tx' pkts where send: "data_send toy_key (sample_options 4 15) toy_work ?ps = Some (tx', pkts)" "length pkts = 3"
    by (elim exE conjE) simp
  have "map_option snd (data_recv toy_key (sample_options 4 15) toy_work tiny_frame 1
      [(60, pkts ! 2), (60, pkts ! 2), (61, pkts ! 0), (62, pkts ! 2), (63, pkts ! 0)]) = Some [[4, 5, 6], [1, 2]]"
    using run by (simp only: send(1) Option.bind_lunit prod.case)
  then show ?thesis using send by (simp only: map_option_eq_Some) fastforce
qed

end
