(* ===== verification/TLS_Crypt.thy ===== *)
theory TLS_Crypt
  imports Data_Channel Session_Id
begin

text \<open>
  tls_crypt.c: wrapping of control-channel packets. The destination already holds the opcode and the session id; the wrapped
  packet is that header, a long packet id, the HMAC of header and plaintext, and the plaintext encrypted with the HMAC's first
  bytes as vector. The contexts are those of theory Crypto: \<open>ctx_encrypt\<close> and \<open>ctx_decrypt\<close> get
  no additional data, and a failed \<open>cipher_ctx_reset\<close> counts as a failed update.
\<close>

subsection \<open>Layout\<close>

definition TLS_CRYPT_TAG_SIZE :: int where "TLS_CRYPT_TAG_SIZE = 256 div 8"
definition TLS_CRYPT_PID_SIZE :: int where "TLS_CRYPT_PID_SIZE = 4 + 4"
definition TLS_CRYPT_BLOCK_SIZE :: int where "TLS_CRYPT_BLOCK_SIZE = 128 div 8"
definition TLS_CRYPT_OFF_PID :: int where "TLS_CRYPT_OFF_PID = 1 + SID_SIZE"
definition TLS_CRYPT_OFF_TAG :: int where "TLS_CRYPT_OFF_TAG = TLS_CRYPT_OFF_PID + TLS_CRYPT_PID_SIZE"
definition TLS_CRYPT_OFF_CT :: int where "TLS_CRYPT_OFF_CT = TLS_CRYPT_OFF_TAG + TLS_CRYPT_TAG_SIZE"

lemma tls_crypt_offsets [simp]:
  "TLS_CRYPT_TAG_SIZE = 32" "TLS_CRYPT_BLOCK_SIZE = 16" "TLS_CRYPT_OFF_PID = 9" "TLS_CRYPT_OFF_TAG = 17" "TLS_CRYPT_OFF_CT = 49"
  by (simp_all add: TLS_CRYPT_TAG_SIZE_def TLS_CRYPT_BLOCK_SIZE_def TLS_CRYPT_OFF_PID_def TLS_CRYPT_OFF_TAG_def
      TLS_CRYPT_OFF_CT_def TLS_CRYPT_PID_SIZE_def SID_SIZE_def)

definition tls_crypt_buf_overhead :: int where
  "tls_crypt_buf_overhead = packet_id_size True + TLS_CRYPT_TAG_SIZE + TLS_CRYPT_BLOCK_SIZE"

definition tls_crypt_adjust_frame_parameters :: "frame \<Rightarrow> frame" where
  "tls_crypt_adjust_frame_parameters f = frame_add_to_extra_frame f tls_crypt_buf_overhead"

subsection \<open>Wrapping\<close>

text \<open>
  \<open>key\<close> is \<open>opt->key_ctx_bi.encrypt\<close>, of \<open>opt\<close> only the packet ids are used. The last write goes to
  the start of the buffer, as in the code; a stream cipher has nothing to write there.
\<close>

definition tls_crypt_wrap ::
  "time_t \<Rightarrow> key_ctx \<Rightarrow> crypto_options \<Rightarrow> buffer \<Rightarrow> buffer \<Rightarrow> (crypto_options \<times> buffer \<times> bool) option" where
  "tls_crypt_wrap local_now ctx opt src dst = do {
     cipher \<leftarrow> kc_cipher ctx;
     hm \<leftarrow> kc_hmac ctx;
     c_assert (pid_initialized opt);
     c_assert (hmac_size hm = 256 div 8);
     (snd, dst, ok) \<leftarrow> packet_id_write local_now (pid_send (co_packet_id opt)) dst True False;
     let opt = packet_id_of opt snd;
     if \<not> ok then Some (opt, dst\<lparr>b_len := 0\<rparr>, False)
     else if \<not> buf_safe dst (buf_len src + TLS_CRYPT_BLOCK_SIZE + TLS_CRYPT_TAG_SIZE) then Some (opt, dst\<lparr>b_len := 0\<rparr>, False)
     else do {
       ad \<leftarrow> buf_bytes dst;
       text \<leftarrow> buf_bytes src;
       let (dst, tag) = buf_write_alloc dst TLS_CRYPT_TAG_SIZE;
       tag \<leftarrow> tag;
       dst \<leftarrow> store_at dst tag (hmac_of hm (ad @ text));
       iv \<leftarrow> load_at dst tag TLS_CRYPT_BLOCK_SIZE;
       let (upd, fin, _) = ctx_encrypt cipher iv [] text;
       dst \<leftarrow> put_output dst (buf_bend dst) upd;
       dst \<leftarrow> put_output dst (b_offset dst) fin;
       Some (opt, dst, True)
     }
   }"

subsection \<open>Unwrapping\<close>

definition tls_crypt_unwrap ::
  "time_t \<Rightarrow> key_ctx \<Rightarrow> crypto_options \<Rightarrow> buffer \<Rightarrow> buffer \<Rightarrow> (crypto_options \<times> buffer \<times> bool) option" where
  "tls_crypt_unwrap local_now ctx opt src dst = do {
     c_assert (b_len src > 0);
     cipher \<leftarrow> kc_cipher ctx;
     c_assert (pid_initialized opt \<or> co_flags opt AND CO_IGNORE_PACKET_ID \<noteq> 0);
     if buf_len src < TLS_CRYPT_OFF_CT then crypt_error opt dst
     else if \<not> buf_safe dst (buf_len src - TLS_CRYPT_OFF_CT + TLS_CRYPT_BLOCK_SIZE) then crypt_error opt dst
     else do {
       iv \<leftarrow> load_at src (b_offset src + TLS_CRYPT_OFF_TAG) TLS_CRYPT_BLOCK_SIZE;
       text \<leftarrow> load_at src (b_offset src + TLS_CRYPT_OFF_CT) (buf_len src - TLS_CRYPT_OFF_CT);
       (case ctx_decrypt cipher iv [] text [] of
          (None, _) \<Rightarrow> crypt_error opt dst
        | (Some upd, fin) \<Rightarrow> do {
            dst \<leftarrow> put_output dst (b_offset dst) upd;
            (case fin of
               None \<Rightarrow> crypt_error opt dst
             | Some fin \<Rightarrow> do {
                 dst \<leftarrow> put_output dst (b_offset dst) fin;
                 tag \<leftarrow> load_at src (b_offset src + TLS_CRYPT_OFF_TAG) TLS_CRYPT_TAG_SIZE;
                 hm \<leftarrow> kc_hmac ctx;
                 ad \<leftarrow> load_at src (b_offset src) TLS_CRYPT_OFF_TAG;
                 plain \<leftarrow> buf_bytes dst;
                 tag_check \<leftarrow> mem_write (replicate (nat TLS_CRYPT_TAG_SIZE) 0) 0 (hmac_of hm (ad @ plain));
                 if memcmp_constant_time tag tag_check \<noteq> 0 then crypt_error opt dst
                 else if co_flags opt AND CO_IGNORE_PACKET_ID = 0 then do {
                   let (tmp, ok) = buf_advance src TLS_CRYPT_OFF_PID;
                   c_assert ok;
                   (pin, tmp, ok) \<leftarrow> packet_id_read tmp True;
                   c_assert ok;
                   (opt, fresh) \<leftarrow> crypto_check_replay local_now opt pin;
                   if \<not> fresh then crypt_error opt dst else Some (opt, dst, True)
                 } else Some (opt, dst, True)
               })
          })
     }
   }"

subsection \<open>The cipher and the authentication\<close>

text \<open>What the code relies on: a stream cipher, whose final call has nothing left to write.\<close>

definition stream_cipher :: "cipher_ctx \<Rightarrow> bool" where
  "stream_cipher c \<longleftrightarrow>
     (\<forall>iv p u v t. ctx_encrypt c iv [] p = (u, v, t) \<longrightarrow> v = [] \<and> length u = length p \<and> ctx_decrypt c iv [] u [] = (Some p, Some [])) \<and>
     (\<forall>iv t u f. ctx_decrypt c iv [] t [] = (Some u, f) \<longrightarrow> length u = length t \<and> f \<in> {None, Some []})"

definition tls_crypt_key :: "cipher_ctx \<Rightarrow> hmac_ctx \<Rightarrow> key_ctx \<Rightarrow> bool" where
  "tls_crypt_key c hm ctx \<longleftrightarrow> kc_cipher ctx = Some c \<and> kc_hmac ctx = Some hm \<and> stream_cipher c \<and> hmac_size hm = 32 \<and>
     (\<forall>bs. length (hmac_of hm bs) = 32)"

text \<open>The plaintext of an authentic packet, by the layout of the packet alone.\<close>

definition authentic_text :: "cipher_ctx \<Rightarrow> hmac_ctx \<Rightarrow> byte list \<Rightarrow> byte list option" where
  "authentic_text c hm pkt =
     (if length pkt < 49 then None
      else case ctx_decrypt c (take 16 (drop 17 pkt)) [] (drop 49 pkt) [] of
        (Some p, Some _) \<Rightarrow> if take 32 (drop 17 pkt) = hmac_of hm (take 17 pkt @ p) then Some p else None
      | _ \<Rightarrow> None)"

definition wire_pin :: "byte list \<Rightarrow> packet_id_net" where
  "wire_pin pkt = \<lparr>net_id = be32_dec (take 4 (drop 9 pkt)), net_time = uint (be32_dec (take 4 (drop 13 pkt)))\<rparr>"

lemma fold_or_zero: "fold (\<lambda>(x, y) r. r OR (x XOR y)) ps (r :: byte) = 0 \<longleftrightarrow> r = 0 \<and> (\<forall>(x, y) \<in> set ps. x = y)"
proof (induction ps arbitrary: r)
  case (Cons p ps)
  obtain x y where p: "p = (x, y)" by fastforce
  have "r OR (x XOR y) = 0 \<longleftrightarrow> r = 0 \<and> x = y"
    by (auto simp: bit_eq_iff bit_simps)
  then show ?case using Cons.IH by (auto simp: p)
qed simp

lemma memcmp_constant_time_iff: "length a = length b \<Longrightarrow> memcmp_constant_time a b = 0 \<longleftrightarrow> a = b"
  unfolding memcmp_constant_time_def fold_or_zero by (induction a b rule: list_induct2) auto

lemma load_slice:
  assumes "buf_ok b" "i + n \<le> length (content b)" "p = b_offset b + int i" "k = int n"
  shows "load_at b p k = Some (take n (drop i (content b)))"
proof -
  obtain pre body post where b: "b_data b = Some (pre @ body @ post)" "b_offset b = int (length pre)"
    "b_len b = int (length body)" "content b = body"
    using assms(1) by (rule buf_ok_cases)
  moreover have "nat p = length pre + i" using assms(3) b(2) by (simp add: nat_add_distrib)
  ultimately show ?thesis using assms(2-4) by (simp add: load_at_def mem_read_def)
qed

lemma mem_write_all: "length bs = n \<Longrightarrow> mem_write (replicate n 0) 0 bs = Some bs"
  by (simp add: mem_write_def)

lemma put_output_start:
  assumes "buf_ok b" "content b = []" "length bs \<le> tailroom b"
  obtains b' where "put_output b (b_offset b) bs = Some b'" "buf_ok b'" "content b' = bs"
proof -
  have "buf_bend b = b_offset b" using buf_ok_len [OF assms(1)] assms(2) by (simp add: buf_bend_def)
  then show thesis using put_output_end [OF assms(1,3)] assms(2) that by auto
qed

lemma put_output_nothing: "buf_ok b \<Longrightarrow> put_output b (b_offset b) [] = Some b"
  by (erule buf_ok_cases)
    (simp add: put_output_def store_at_def mem_write_def buf_inc_len_def buf_safe_bidir_def buf_valid_def buf_size_valid_signed_def BUF_SIZE_MAX_def)

subsection \<open>One packet\<close>

lemma packet_id_read_prefix:
  assumes "buf_ok b" "8 \<le> length (content b)"
  shows "\<exists>b'. packet_id_read b True = Some (\<lparr>net_id = be32_dec (take 4 (content b)), net_time = uint (be32_dec (take 4 (drop 4 (content b))))\<rparr>, b', True)"
proof -
  have "content b = be32 (be32_dec (take 4 (content b))) @ be32 (be32_dec (take 4 (drop 4 (content b)))) @ drop 8 (content b)"
    using assms(2) by (simp add: be32_be32_dec) (metis append_take_drop_id drop_drop numeral_Bit0 take_add)
  then have "content b = be32 (be32_dec (take 4 (content b))) @ (if True then be32 (be32_dec (take 4 (drop 4 (content b)))) else []) @ drop 8 (content b)"
    by simp
  from packet_id_read_content [OF assms(1) this] show ?thesis by auto
qed

lemma unwrap_cases:
  assumes key: "tls_crypt_key c hm ctx" and opt: "pid_initialized opt \<or> co_flags opt AND CO_IGNORE_PACKET_ID \<noteq> 0"
    and src: "buf_ok src" "content src = pkt" "pkt \<noteq> []"
    and dst: "buf_ok dst" "content dst = []" "length pkt \<le> tailroom dst"
  shows "case authentic_text c hm pkt of
      None \<Rightarrow> \<exists>b. tls_crypt_unwrap ts ctx opt src dst = Some (opt, b, False) \<and> content b = []
    | Some p \<Rightarrow> \<exists>d. buf_ok d \<and> content d = p \<and> tls_crypt_unwrap ts ctx opt src dst =
        (if co_flags opt AND CO_IGNORE_PACKET_ID \<noteq> 0 then Some (opt, d, True)
         else do {
           (opt, fresh) \<leftarrow> crypto_check_replay ts opt (wire_pin pkt);
           if \<not> fresh then crypt_error opt d else Some (opt, d, True)
         })"
proof -
  note k = key [unfolded tls_crypt_key_def]
  have kc: "kc_cipher ctx = Some c" "kc_hmac ctx = Some hm" using k by auto
  have sc: "length u = length t" "f \<in> {None, Some []}" if "ctx_decrypt c iv [] t [] = (Some u, f)" for iv t u f
    using k that unfolding stream_cipher_def by blast+
  have pos: "b_len src > 0" "buf_len src = int (length pkt)" using buf_ok_len [OF src(1)] src by (simp_all add: buf_len_content)
  show ?thesis
  proof (cases "length pkt < 49")
    case True
    then show ?thesis using kc pos opt by (simp add: authentic_text_def tls_crypt_unwrap_def crypt_error_def)
  next
    case False
    show ?thesis
    proof (cases "buf_safe dst (int (length pkt) - 49 + 16)")
      case unsafe: False
      then have "False" using False dst(3) by (simp add: buf_safe_iff [OF dst(1)])
      then show ?thesis ..
    next
      case safe: True
      have iv: "load_at src (b_offset src + 17) 16 = Some (take 16 (drop 17 pkt))"
        using load_slice [OF src(1), of 17 16] False src(2) by simp
      have body: "load_at src (b_offset src + 49) (int (length pkt) - 49) = Some (drop 49 pkt)"
        using load_slice [OF src(1), of 49 "length pkt - 49"] False src(2) by simp
      have tag: "load_at src (b_offset src + 17) 32 = Some (take 32 (drop 17 pkt))"
        using load_slice [OF src(1), of 17 32] False src(2) by simp
      have ad: "load_at src (b_offset src) 17 = Some (take 17 pkt)"
        using load_slice [OF src(1), of 0 17] False src(2) by simp
      obtain x f where dec: "ctx_decrypt c (take 16 (drop 17 pkt)) [] (drop 49 pkt) [] = (x, f)" by fastforce
      show ?thesis
      proof (cases x)
        case None
        then show ?thesis using kc pos opt False safe
          by (simp add: authentic_text_def tls_crypt_unwrap_def crypt_error_def iv body dec)
      next
        case (Some u)
        have u: "length u = length pkt - 49" "f \<in> {None, Some []}" using sc dec Some by fastforce+
        then have "length u \<le> tailroom dst" using dst(3) by simp
        from put_output_start [OF dst(1,2) this] obtain d where d: "put_output dst (b_offset dst) u = Some d" "buf_ok d" "content d = u"
          by blast
        show ?thesis
        proof (cases f)
          case None
          then show ?thesis using kc pos opt False safe
            by (simp add: authentic_text_def tls_crypt_unwrap_def crypt_error_def iv body dec Some d(1))
        next
          case (Some y)
          then have y: "f = Some []" using u(2) by simp
          have check: "mem_write (replicate 32 0) 0 (hmac_of hm (take 17 pkt @ u)) = Some (hmac_of hm (take 17 pkt @ u))"
            using k by (intro mem_write_all) blast
          have len: "length (take 32 (drop 17 pkt)) = length (hmac_of hm (take 17 pkt @ u))" using k False by simp
          note cmp = memcmp_constant_time_iff [OF len]
          have bytes: "buf_bytes d = Some u" using buf_bytes_content [OF d(2)] d(3) by simp
          define tmp where "tmp = src\<lparr>b_offset := b_offset src + 9, b_len := b_len src - 9\<rparr>"
          have tmp: "buf_advance src 9 = (tmp, True)" "buf_ok tmp" "content tmp = drop 9 pkt"
            using buf_advance_content [OF src(1), of 9] False src(2) by (simp_all add: tmp_def)
          have "8 \<le> length (content tmp)" using False tmp(3) by simp
          from packet_id_read_prefix [OF tmp(2) this] obtain b' where read: "packet_id_read tmp True = Some (wire_pin pkt, b', True)"
            by (auto simp: wire_pin_def tmp(3))
          have "tls_crypt_unwrap ts ctx opt src dst =
              (if take 32 (drop 17 pkt) \<noteq> hmac_of hm (take 17 pkt @ u) then crypt_error opt d
               else if co_flags opt AND CO_IGNORE_PACKET_ID \<noteq> 0 then Some (opt, d, True)
               else do {
                 (opt, fresh) \<leftarrow> crypto_check_replay ts opt (wire_pin pkt);
                 if \<not> fresh then crypt_error opt d else Some (opt, d, True)
               })"
            using kc pos opt False safe
            by (simp add: tls_crypt_unwrap_def iv body dec \<open>x = Some u\<close> y d(1) put_output_nothing [OF d(2)] tag ad bytes
                check cmp tmp(1) read)
          then show ?thesis using False d(2,3)
            by (auto simp: authentic_text_def dec \<open>x = Some u\<close> y crypt_error_def)
        qed
      qed
    qed
  qed
qed

lemma unwrap_spec:
  assumes key: "tls_crypt_key c hm ctx" and opt: "pid_initialized opt" "co_flags opt AND CO_IGNORE_PACKET_ID = 0"
    and src: "buf_ok src" "content src = pkt" "pkt \<noteq> []"
    and dst: "buf_ok dst" "content dst = []" "length pkt \<le> tailroom dst"
  shows "case authentic_text c hm pkt of
      None \<Rightarrow> \<exists>b. tls_crypt_unwrap ts ctx opt src dst = Some (opt, b, False) \<and> content b = []
    | Some p \<Rightarrow> \<forall>opt' fresh. crypto_check_replay ts opt (wire_pin pkt) = Some (opt', fresh) \<longrightarrow>
        (\<exists>b. tls_crypt_unwrap ts ctx opt src dst = Some (opt', b, fresh) \<and> buf_ok b \<and> content b = (if fresh then p else []))"
  using unwrap_cases [OF key disjI1 [OF opt(1)] src dst, of ts] opt(2) empty_ok
  by (fastforce simp: crypt_error_def split: option.splits)

subsection \<open>A run of the receiver\<close>

text \<open>Packets arrive at given times; the result pairs each accepted packet with the plaintext delivered.\<close>

fun unwrap_run ::
  "key_ctx \<Rightarrow> crypto_options \<Rightarrow> buffer \<Rightarrow> (time_t \<times> byte list) list \<Rightarrow>
   (crypto_options \<times> (byte list \<times> byte list) list) option" where
  "unwrap_run ctx opt dst [] = Some (opt, [])"
| "unwrap_run ctx opt dst ((ts, pkt) # evs) = do {
     (opt, b, ok) \<leftarrow> tls_crypt_unwrap ts ctx opt (packet_buf pkt) dst;
     (opt, acc) \<leftarrow> unwrap_run ctx opt dst evs;
     Some (opt, if ok then (pkt, content b) # acc else acc)
   }"

lemma reap_test_keeps: "packet_id_reap_test ts r = Some r' \<Longrightarrow> initialized r' = initialized r"
  by (auto simp: packet_id_reap_test_def packet_id_reap_def split: Option.bind_splits option.splits if_splits)

lemma test_keeps: "packet_id_test r pin = Some (r', ok) \<Longrightarrow> initialized r \<and> initialized r'"
  by (auto simp: packet_id_test_def Let_def split: Option.bind_splits option.splits if_splits)

lemma add_keeps: "packet_id_add ts r pin = Some r' \<Longrightarrow> initialized r' = initialized r"
  by (auto simp: packet_id_add_def Let_def split: Option.bind_splits option.splits if_splits)

lemma check_replay_keeps:
  assumes "crypto_check_replay ts opt pin = Some (opt', fresh)"
  shows "pid_initialized opt' \<and> co_flags opt' = co_flags opt"
proof -
  from assms obtain r1 r2 ok where r: "packet_id_reap_test ts (opt_rec opt) = Some r1" "packet_id_test r1 pin = Some (r2, ok)"
    by (auto simp: crypto_check_replay_def Let_def split: Option.bind_splits)
  show ?thesis
  proof (cases ok)
    case True
    with assms r obtain r3 where "packet_id_add ts r2 pin = Some r3"
      by (auto simp: crypto_check_replay_def Let_def split: Option.bind_splits)
    then show ?thesis using assms r True test_keeps [OF r(2)] add_keeps by (auto simp: crypto_check_replay_def pid_initialized_def Let_def)
  next
    case False
    then show ?thesis using assms r test_keeps [OF r(2)] by (auto simp: crypto_check_replay_def pid_initialized_def Let_def)
  qed
qed

text \<open>The authentic packets among the arrivals, as the replay check sees them.\<close>

definition authentic_pins :: "cipher_ctx \<Rightarrow> hmac_ctx \<Rightarrow> (time_t \<times> byte list) list \<Rightarrow> (time_t \<times> packet_id_net) list" where
  "authentic_pins c hm evs = [(ts, wire_pin pkt). (ts, pkt) \<leftarrow> evs, authentic_text c hm pkt \<noteq> None]"

lemma unwrap_run_spec:
  assumes key: "tls_crypt_key c hm ctx" and dst: "buf_ok dst" "content dst = []"
  shows "pid_initialized opt \<Longrightarrow> co_flags opt AND CO_IGNORE_PACKET_ID = 0 \<Longrightarrow>
    \<forall>(ts, pkt) \<in> set evs. pkt \<noteq> [] \<and> length pkt \<le> tailroom dst \<Longrightarrow>
    replay_run opt (authentic_pins c hm evs) = Some (opt', keys) \<Longrightarrow>
    \<exists>acc. unwrap_run ctx opt dst evs = Some (opt', acc) \<and> keys = map (\<lambda>(pkt, p). pin_key (wire_pin pkt)) acc \<and>
      subseq (map fst acc) (map snd evs) \<and> (\<forall>(pkt, p) \<in> set acc. authentic_text c hm pkt = Some p)"
proof (induction evs arbitrary: opt keys)
  case Nil
  then show ?case by (intro exI [of _ "[]"]) (simp add: authentic_pins_def)
next
  case (Cons e evs)
  obtain ts pkt where e: "e = (ts, pkt)" by fastforce
  have fit: "pkt \<noteq> []" "length pkt \<le> tailroom dst" using Cons.prems(3) by (auto simp: e)
  then have "int (length pkt) < BUF_SIZE_MAX" using buf_ok_tail_bound [OF dst(1)] by simp
  note src = packet_buf_ok [OF this]
  have one: "case authentic_text c hm pkt of
      None \<Rightarrow> \<exists>b. tls_crypt_unwrap ts ctx opt (packet_buf pkt) dst = Some (opt, b, False) \<and> content b = []
    | Some p \<Rightarrow> \<forall>opt' fresh. crypto_check_replay ts opt (wire_pin pkt) = Some (opt', fresh) \<longrightarrow>
        (\<exists>b. tls_crypt_unwrap ts ctx opt (packet_buf pkt) dst = Some (opt', b, fresh) \<and> content b = (if fresh then p else []))"
    using unwrap_spec [OF key Cons.prems(1,2) _ _ fit(1) dst fit(2), of "packet_buf pkt" ts] src by (auto split: option.splits)
  show ?case
  proof (cases "authentic_text c hm pkt")
    case None
    then have "authentic_pins c hm (e # evs) = authentic_pins c hm evs" by (simp add: authentic_pins_def e)
    with Cons.prems Cons.IH [of opt keys] obtain acc where "unwrap_run ctx opt dst evs = Some (opt', acc)"
      "keys = map (\<lambda>(pkt, p). pin_key (wire_pin pkt)) acc" "subseq (map fst acc) (map snd evs)"
      "\<forall>(pkt, p) \<in> set acc. authentic_text c hm pkt = Some p" by auto
    then show ?thesis using one None by (intro exI [of _ acc]) (auto simp: e list_emb_Cons)
  next
    case (Some p)
    then have "authentic_pins c hm (e # evs) = (ts, wire_pin pkt) # authentic_pins c hm evs" by (simp add: authentic_pins_def e)
    with Cons.prems(4) obtain opt1 fresh keys1 where 1: "crypto_check_replay ts opt (wire_pin pkt) = Some (opt1, fresh)"
      "replay_run opt1 (authentic_pins c hm evs) = Some (opt', keys1)"
      "keys = (if fresh then pin_key (wire_pin pkt) # keys1 else keys1)"
      by (auto split: Option.bind_splits)
    obtain b where b: "tls_crypt_unwrap ts ctx opt (packet_buf pkt) dst = Some (opt1, b, fresh)" "content b = (if fresh then p else [])"
      using one Some 1(1) by auto
    have "pid_initialized opt1" "co_flags opt1 AND CO_IGNORE_PACKET_ID = 0" using check_replay_keeps [OF 1(1)] Cons.prems(2) by auto
    from Cons.IH [OF this _ 1(2)] Cons.prems(3) obtain acc where acc: "unwrap_run ctx opt1 dst evs = Some (opt', acc)"
      "keys1 = map (\<lambda>(pkt, p). pin_key (wire_pin pkt)) acc" "subseq (map fst acc) (map snd evs)"
      "\<forall>(pkt, p) \<in> set acc. authentic_text c hm pkt = Some p" by auto
    show ?thesis
      using acc b 1(3) Some by (intro exI [of _ "if fresh then (pkt, p) # acc else acc"]) (auto simp: e list_emb_Cons)
  qed
qed

lemma pin_key_wire: "pin_key (wire_pin pkt) = pin_key (wire_pin pkt') \<Longrightarrow> 17 \<le> length pkt \<Longrightarrow> 17 \<le> length pkt' \<Longrightarrow>
    take 8 (drop 9 pkt) = take 8 (drop 9 pkt')"
proof -
  assume eq: "pin_key (wire_pin pkt) = pin_key (wire_pin pkt')" and len: "17 \<le> length pkt" "17 \<le> length pkt'"
  have inj: "be32_dec x = be32_dec y \<Longrightarrow> length x = 4 \<Longrightarrow> length y = 4 \<Longrightarrow> x = y" for x y
    by (metis be32_be32_dec)
  have "take 4 (drop 9 pkt) = take 4 (drop 9 pkt')" using eq len by (intro inj) (simp_all add: wire_pin_def)
  moreover have "take 4 (drop 13 pkt) = take 4 (drop 13 pkt')" using eq len by (intro inj) (simp_all add: wire_pin_def word_uint_eq_iff)
  moreover have "take 8 (drop 9 bs) = take 4 (drop 9 bs) @ take 4 (drop 13 bs)" for bs :: "byte list"
    using take_add [of 4 4 "drop 9 bs"] by simp
  ultimately show "take 8 (drop 9 pkt) = take 8 (drop 9 pkt')" by metis
qed

text \<open>
  C6. The receiver of tls-crypt accepts nothing but authentic packets, each at most once. Whatever packets arrive at
  a control channel, forged ones included, \<open>tls_crypt_unwrap\<close> fails no assertion and makes no access outside its buffers;
  each packet it accepts carries the HMAC, under the key, of its header and of the plaintext delivered, and no two
  accepted packets have the same packet id.
\<close>

theorem tls_crypt_accepts_authentic:
  assumes "tls_crypt_key c hm ctx" "packet_id_init sb tb = Some (co_packet_id rx)" "co_flags rx AND CO_IGNORE_PACKET_ID = 0"
    "buf_ok dst" "content dst = []" "\<forall>(ts, pkt) \<in> set evs. 1 < ts \<and> pkt \<noteq> [] \<and> length pkt \<le> tailroom dst"
  shows "\<exists>rx' acc. unwrap_run ctx rx dst evs = Some (rx', acc) \<and> subseq (map fst acc) (map snd evs) \<and>
    distinct (map (\<lambda>(pkt, p). take 8 (drop 9 pkt)) acc) \<and>
    (\<forall>(pkt, p) \<in> set acc. take 32 (drop 17 pkt) = hmac_of hm (take 17 pkt @ p) \<and> length p = length pkt - 49)"
proof -
  have "\<forall>(ts, pin) \<in> set (authentic_pins c hm evs). 1 < ts"
    using assms(6) by (auto simp: authentic_pins_def split: if_splits)
  from replay_run_total [OF assms(2) this] obtain rx' keys where keys: "replay_run rx (authentic_pins c hm evs) = Some (rx', keys)"
    "distinct keys" by blast
  obtain r where "co_packet_id rx = packet_id_clear\<lparr>pid_rec := r\<lparr>initialized := True\<rparr>\<rparr>"
    using assms(2) unfolding packet_id_init_def Let_def by (auto split: Option.bind_splits dest: sym)
  then have "pid_initialized rx" by (simp add: pid_initialized_def)
  from unwrap_run_spec [OF assms(1,4,5) this assms(3) _ keys(1)] assms(6) obtain acc where
    acc: "unwrap_run ctx rx dst evs = Some (rx', acc)" "keys = map (\<lambda>(pkt, p). pin_key (wire_pin pkt)) acc"
      "subseq (map fst acc) (map snd evs)" "\<forall>(pkt, p) \<in> set acc. authentic_text c hm pkt = Some p" by auto
  have auth: "49 \<le> length pkt \<and> take 32 (drop 17 pkt) = hmac_of hm (take 17 pkt @ p) \<and> length p = length pkt - 49"
    if "(pkt, p) \<in> set acc" for pkt p
    using acc(4) that assms(1) unfolding tls_crypt_key_def stream_cipher_def
    by (fastforce simp: authentic_text_def split: if_splits prod.splits option.splits)
  have "distinct (map (\<lambda>(pkt, p). take 8 (drop 9 pkt)) acc)"
    using keys(2) unfolding acc(2) distinct_map
  proof (elim conjE, intro conjI inj_onI)
    fix x y assume inj: "inj_on (\<lambda>(pkt, p). pin_key (wire_pin pkt)) (set acc)" and xy: "x \<in> set acc" "y \<in> set acc"
      "(case x of (pkt, p) \<Rightarrow> take 8 (drop 9 pkt)) = (case y of (pkt, p) \<Rightarrow> take 8 (drop 9 pkt))"
    have slice: "take 4 (drop 9 pkt) = take 4 (take 8 (drop 9 pkt))" "take 4 (drop 13 pkt) = drop 4 (take 8 (drop 9 pkt))" for pkt :: "byte list"
      by (simp_all add: drop_take)
    have "wire_pin (fst x) = wire_pin (fst y)" using xy(3) unfolding wire_pin_def slice by (simp add: case_prod_beta)
    then show "x = y" using inj_onD [OF inj _ xy(1,2)] by (simp add: case_prod_beta)
  qed
  then show ?thesis using acc auth by auto
qed

subsection \<open>Wrapping and unwrapping\<close>

text \<open>What the sender puts on the wire for the plaintext \<open>p\<close> behind the header \<open>h\<close>.\<close>

definition tls_wrapped :: "cipher_ctx \<Rightarrow> hmac_ctx \<Rightarrow> byte list \<Rightarrow> packet_id_send \<Rightarrow> byte list \<Rightarrow> byte list" where
  "tls_wrapped c hm h q p =
     (let ad = h @ be32 (send_id q) @ be32 (word_of_int (send_time q)); tag = hmac_of hm (ad @ p)
      in ad @ tag @ fst (ctx_encrypt c (take 16 tag) [] p))"

lemma wrap_spec:
  assumes key: "tls_crypt_key c hm ctx" and opt: "pid_initialized opt"
    and id: "packet_id_send_update ts (pid_send (co_packet_id opt)) True = (q, True)"
    and src: "buf_ok src" "content src = p" and dst: "buf_ok dst" "content dst = h" "length p + 56 \<le> tailroom dst"
  shows "\<exists>b. tls_crypt_wrap ts ctx opt src dst = Some (packet_id_of opt q, b, True) \<and> buf_ok b \<and> content b = tls_wrapped c hm h q p"
proof -
  note k = key [unfolded tls_crypt_key_def]
  have kc: "kc_cipher ctx = Some c" "kc_hmac ctx = Some hm" "hmac_size hm = 32" using k by auto
  define ad where "ad = h @ be32 (send_id q) @ be32 (word_of_int (send_time q))"
  define tag where "tag = hmac_of hm (ad @ p)"
  have lt: "length tag = 32" using k by (simp add: tag_def)
  obtain u v t where enc: "ctx_encrypt c (take 16 tag) [] p = (u, v, t)" by (metis prod_cases3)
  have uv: "v = []" "length u = length p" using k enc unfolding stream_cipher_def by blast+
  have "length (be32 (send_id q)) \<le> tailroom dst" using dst(3) by simp
  from buf_write_room [OF dst(1) this] obtain d1 where d1: "buf_write dst (be32 (send_id q)) = Some (d1, True)" "buf_ok d1"
    "content d1 = h @ be32 (send_id q)" "tailroom d1 = tailroom dst - 4" using dst(2) by auto
  have "length (be32 (word_of_int (send_time q))) \<le> tailroom d1" using dst(3) d1(4) by simp
  from buf_write_room [OF d1(2) this] obtain d2 where d2: "buf_write d1 (be32 (word_of_int (send_time q))) = Some (d2, True)" "buf_ok d2"
    "content d2 = ad" "tailroom d2 = tailroom dst - 8" using d1(3,4) by (auto simp: ad_def)
  have wid: "packet_id_write ts (pid_send (co_packet_id opt)) dst True False = Some (q, d2, True)"
    using d1(1) d2(1) by (simp add: packet_id_write_def id Let_def)
  have safe: "buf_safe d2 (buf_len src + 16 + 32)"
    using dst(3) d2(4) src by (simp add: buf_safe_iff [OF d2(2)] buf_len_content)
  have "nat 32 \<le> tailroom d2" "(0::int) \<le> 32" using dst(3) d2(4) by simp_all
  from buf_write_alloc_room [OF d2(2) this(2,1)] obtain d3 gap where
    d3: "buf_write_alloc d2 32 = (d3, Some (buf_bend d2))" "buf_ok d3" "content d3 = ad @ gap"
    "int (length gap) = 32" "tailroom d3 = tailroom d2 - nat 32" "b_offset d3 = b_offset d2" unfolding d2(3) by blast
  have bend: "buf_bend d2 = b_offset d3 + int (length ad)" using buf_ok_len [OF d2(2)] d2(3) d3(6) by (simp add: buf_bend_def)
  have "length gap = length tag" "content d3 = ad @ gap @ []" using d3(3,4) lt by auto
  from store_inside [OF d3(2) this(2,1) bend] obtain d4 where d4: "store_at d3 (buf_bend d2) tag = Some d4" "buf_ok d4"
    "content d4 = ad @ tag" "b_offset d4 = b_offset d3" "b_capacity d4 = b_capacity d3" by auto
  have iv: "load_at d4 (buf_bend d2) 16 = Some (take 16 tag)"
    using load_slice [OF d4(2), of "length ad" 16] d4(3,4) bend lt by simp
  have "tailroom d4 = tailroom d3"
    using d4(3-5) d3(3,4) buf_ok_len [OF d4(2)] buf_ok_len [OF d3(2)] lt by (simp add: tailroom_def)
  then have "length u \<le> tailroom d4" using uv(2) d3(5) d2(4) dst(3) by simp
  from put_output_end [OF d4(2) this] obtain b where b: "put_output d4 (buf_bend d4) u = Some b" "buf_ok b" "content b = content d4 @ u"
    by blast
  have bytes: "buf_bytes d2 = Some ad" "buf_bytes src = Some p" using buf_bytes_content d2(2,3) src by auto
  have "tls_crypt_wrap ts ctx opt src dst = Some (packet_id_of opt q, b, True)"
    using kc opt safe by (simp add: tls_crypt_wrap_def wid bytes d3(1) d4(1) iv enc uv(1) b(1) put_output_nothing [OF b(2)] flip: tag_def)
  moreover have "content b = tls_wrapped c hm h q p"
    using b(3) d4(3) by (simp add: tls_wrapped_def enc Let_def flip: ad_def tag_def)
  ultimately show ?thesis using b(2) by blast
qed

lemma authentic_wrapped:
  assumes "tls_crypt_key c hm ctx" "length h = 9"
  shows "authentic_text c hm (tls_wrapped c hm h q p) = Some p"
    "wire_pin (tls_wrapped c hm h q p) = \<lparr>net_id = send_id q, net_time = uint (word_of_int (send_time q) :: u32)\<rparr>"
    "length (tls_wrapped c hm h q p) = length p + 49"
proof -
  note k = assms(1) [unfolded tls_crypt_key_def]
  define ad where "ad = h @ be32 (send_id q) @ be32 (word_of_int (send_time q))"
  define tag where "tag = hmac_of hm (ad @ p)"
  have len: "length ad = 17" "length tag = 32" using k assms(2) by (simp_all add: ad_def tag_def)
  obtain u v t where enc: "ctx_encrypt c (take 16 tag) [] p = (u, v, t)" by (metis prod_cases3)
  have dec: "ctx_decrypt c (take 16 tag) [] u [] = (Some p, Some [])" "length u = length p"
    using k enc unfolding stream_cipher_def by blast+
  have w: "tls_wrapped c hm h q p = ad @ tag @ u" by (simp add: tls_wrapped_def enc Let_def flip: ad_def tag_def)
  show "authentic_text c hm (tls_wrapped c hm h q p) = Some p"
    using len dec by (simp add: authentic_text_def w flip: tag_def)
  show "wire_pin (tls_wrapped c hm h q p) = \<lparr>net_id = send_id q, net_time = uint (word_of_int (send_time q) :: u32)\<rparr>"
    using assms(2) by (simp add: wire_pin_def w ad_def)
  show "length (tls_wrapped c hm h q p) = length p + 49" using len dec(2) by (simp add: w)
qed

text \<open>
  The two ends of tls-crypt agree. A control packet that \<open>tls_crypt_wrap\<close> has wrapped behind its opcode and
  session id is taken for authentic by \<open>tls_crypt_unwrap\<close> under the same key; whether it is delivered is the
  decision of the replay check on the sender's packet id, and what is delivered is the packet.
\<close>

theorem tls_crypt_roundtrip:
  assumes "tls_crypt_key c hm tx_key" "tls_crypt_key c hm rx_key" "pid_initialized tx"
    "packet_id_send_update ts (pid_send (co_packet_id tx)) True = (q, True)" "0 \<le> send_time q" "send_time q < 2 ^ 32"
    "buf_ok src" "buf_ok dst" "length (content dst) = 9" "length (content src) + 56 \<le> tailroom dst"
    "pid_initialized rx" "co_flags rx AND CO_IGNORE_PACKET_ID = 0" "buf_ok out" "content out = []"
    "length (content src) + 49 \<le> tailroom out"
    "crypto_check_replay ts' rx \<lparr>net_id = send_id q, net_time = send_time q\<rparr> = Some (rx', fresh)"
  shows "\<exists>tx' wire b. tls_crypt_wrap ts tx_key tx src dst = Some (tx', wire, True) \<and> pid_send (co_packet_id tx') = q \<and>
    tls_crypt_unwrap ts' rx_key rx (packet_buf (content wire)) out = Some (rx', b, fresh) \<and>
    content b = (if fresh then content src else [])"
proof -
  define pkt where "pkt = tls_wrapped c hm (content dst) q (content src)"
  obtain w where w: "tls_crypt_wrap ts tx_key tx src dst = Some (packet_id_of tx q, w, True)" "content w = pkt"
    using wrap_spec [OF assms(1,3,4,7) refl assms(8) refl assms(10)] by (auto simp: pkt_def)
  note a = authentic_wrapped [OF assms(2,9), of q "content src", folded pkt_def]
  have pin: "wire_pin pkt = \<lparr>net_id = send_id q, net_time = send_time q\<rparr>" using a(2) uint_wire_time [OF assms(5,6)] by simp
  have fit: "length pkt \<le> tailroom out" "pkt \<noteq> []" using a(3) assms(15) by auto
  then have "int (length pkt) < BUF_SIZE_MAX" using buf_ok_tail_bound [OF assms(13)] by simp
  note pb = packet_buf_ok [OF this]
  have "\<exists>b. tls_crypt_unwrap ts' rx_key rx (packet_buf pkt) out = Some (rx', b, fresh) \<and> content b = (if fresh then content src else [])"
    using unwrap_spec [OF assms(2,11,12) conjunct1 [OF pb] conjunct2 [OF pb] fit(2) assms(13,14) fit(1), of ts'] a(1) pin assms(16) by auto
  then show ?thesis using w by (auto simp: packet_id_of_def)
qed

text \<open>A cipher and a digest for the examples.\<close>

definition toy_stream :: cipher_ctx where
  "toy_stream = \<lparr>ctx_mode = OPENVPN_MODE_CFB, ctx_iv_length = 16, ctx_tag_size = 0, ctx_block_size = 1,
     ctx_encrypt = \<lambda>iv ad p. (map ((XOR) (hd iv)) p, [], []),
     ctx_decrypt = \<lambda>iv ad ct tag. (Some (map ((XOR) (hd iv)) ct), Some [])\<rparr>"

definition toy_hmac :: hmac_ctx where
  "toy_hmac = \<lparr>hmac_size = 32, hmac_of = \<lambda>bs. replicate 32 (fold (+) bs 3)\<rparr>"

definition toy_wrap_key :: key_ctx where
  "toy_wrap_key = \<lparr>kc_cipher = Some toy_stream, kc_hmac = Some toy_hmac, implicit_iv = [], implicit_iv_len = 0\<rparr>"

lemma toy_wrap_key_ok: "tls_crypt_key toy_stream toy_hmac toy_wrap_key"
proof -
  have "map ((XOR) a) (map ((XOR) a) p) = p" for a :: byte and p
    by (induction p) (simp_all flip: xor.assoc)
  then show ?thesis by (simp add: tls_crypt_key_def stream_cipher_def toy_stream_def toy_hmac_def toy_wrap_key_def)
qed

definition toy_header :: buffer where
  "toy_header = \<lparr>b_capacity = 80, b_offset = 2, b_len = 9, b_data = Some (replicate 80 5)\<rparr>"

definition toy_out :: buffer where
  "toy_out = \<lparr>b_capacity = 80, b_offset = 4, b_len = 0, b_data = Some (replicate 80 0)\<rparr>"

lemma toy_wrap_buffers:
  "buf_ok toy_header" "length (content toy_header) = 9" "tailroom toy_header = 69" "buf_ok toy_out" "content toy_out = []" "tailroom toy_out = 76"
  by (simp_all add: toy_header_def toy_out_def buf_ok_def content_def tailroom_def BUF_SIZE_MAX_def)

lemma toy_rx: "pid_initialized (sample_options 4 15)" "co_flags (sample_options 4 15) AND CO_IGNORE_PACKET_ID = 0"
  by code_simp+

lemma tls_crypt_roundtrip_witness:
  "\<exists>tx' wire rx' b. tls_crypt_wrap 50 toy_wrap_key (sample_options 4 15) (packet_buf [1, 2, 3]) toy_header = Some (tx', wire, True) \<and>
    tls_crypt_unwrap 51 toy_wrap_key (sample_options 4 15) (packet_buf (content wire)) toy_out = Some (rx', b, True) \<and>
    content b = [1, 2, 3]"
proof -
  let ?q = "\<lparr>send_id = 1, send_time = 50\<rparr>"
  have id: "packet_id_send_update 50 (pid_send (co_packet_id (sample_options 4 15))) True = (?q, True)" by code_simp
  have "map_option snd (crypto_check_replay 51 (sample_options 4 15) \<lparr>net_id = 1, net_time = 50\<rparr>) = Some True" by code_simp
  then obtain rx' where rx': "crypto_check_replay 51 (sample_options 4 15) \<lparr>net_id = send_id ?q, net_time = send_time ?q\<rparr> = Some (rx', True)"
    by auto
  have src: "buf_ok (packet_buf [1, 2, 3])" "content (packet_buf [1, 2, 3]) = [1, 2, 3]"
    using packet_buf_ok [of "[1, 2, 3]"] by (simp_all add: BUF_SIZE_MAX_def)
  show ?thesis
    using tls_crypt_roundtrip [OF toy_wrap_key_ok toy_wrap_key_ok toy_rx(1) id _ _ src(1) toy_wrap_buffers(1,2) _ toy_rx toy_wrap_buffers(4,5) _ rx']
    by (simp add: src(2) toy_wrap_buffers) blast
qed

definition toy_wire :: "byte list" where
  "toy_wire = tls_wrapped toy_stream toy_hmac (replicate 9 5) \<lparr>send_id = 1, send_time = 50\<rparr> [1, 2]"

lemma tls_crypt_accepts_authentic_witness:
  "\<exists>rx' acc. unwrap_run toy_wrap_key (sample_options 4 15) toy_out [(60, toy_wire), (61, replicate 51 6), (62, toy_wire)] = Some (rx', acc) \<and>
    distinct (map (\<lambda>(pkt, p). take 8 (drop 9 pkt)) acc)"
proof -
  have "length toy_wire = 51" by (simp add: toy_wire_def authentic_wrapped(3) [OF toy_wrap_key_ok])
  then have "\<forall>(ts, pkt) \<in> set [(60 :: time_t, toy_wire), (61, replicate 51 6), (62, toy_wire)]. 1 < ts \<and> pkt \<noteq> [] \<and> length pkt \<le> tailroom toy_out"
    by (auto simp: toy_wrap_buffers)
  from tls_crypt_accepts_authentic [OF toy_wrap_key_ok sample_init toy_rx(2) toy_wrap_buffers(4,5) this] show ?thesis by blast
qed

end
