(* ===== verification/Key_Material.thy ===== *)
theory Key_Material
  imports Crypto Session_Id Data_Channel
begin

text \<open>
  Keys of crypto.c and the key derivation of ssl.c: \<open>struct key\<close> and \<open>struct key2\<close>, key directions, building the
  contexts of theory Crypto, the keys of key method 1 on the wire, and the pseudo-random function that expands the
  key sources of both ends into the keys of the data channel. The digests and ciphers are parameters: a
  \<open>digest_kt\<close> has its size and its keyed hash, a \<open>cipher_kt\<close> builds a context from a key.
\<close>

subsection \<open>Key types and keys\<close>

definition MAX_CIPHER_KEY_LENGTH :: int where "MAX_CIPHER_KEY_LENGTH = 64"
definition MAX_HMAC_KEY_LENGTH :: int where "MAX_HMAC_KEY_LENGTH = 64"
definition KEY_DIRECTION_BIDIRECTIONAL :: int where "KEY_DIRECTION_BIDIRECTIONAL = 0"
definition KEY_DIRECTION_NORMAL :: int where "KEY_DIRECTION_NORMAL = 1"
definition KEY_DIRECTION_INVERSE :: int where "KEY_DIRECTION_INVERSE = 2"

record digest_kt =
  md_kt_size :: int
  md_hmac :: "byte list \<Rightarrow> byte list \<Rightarrow> byte list"

text \<open>The last three members are what the library knows of DES: the number of blocks of a key, the parity fix and the weak-key test.\<close>

record cipher_kt =
  ck_context :: "byte list \<Rightarrow> cipher_ctx"
  ck_block_size :: int
  ck_des_num_cblocks :: int
  ck_des_fixup :: "byte list \<Rightarrow> byte list"
  ck_des_check :: "byte list \<Rightarrow> bool"

record key_type =
  kt_cipher_length :: int
  kt_hmac_length :: int
  kt_cipher :: "cipher_kt option"
  kt_digest :: "digest_kt option"

record key =
  key_cipher :: "byte list"
  key_hmac :: "byte list"

record key2 =
  k2_n :: int
  k2_keys :: "key list"

record key_direction_state =
  out_key :: nat
  in_key :: nat
  need_keys :: int

record key_ctx_bi =
  kb_encrypt :: key_ctx
  kb_decrypt :: key_ctx
  kb_initialized :: bool

definition zero_bytes :: "int \<Rightarrow> byte list" where "zero_bytes n = replicate (nat n) 0"

definition zero_key :: key where
  "zero_key = \<lparr>key_cipher = zero_bytes MAX_CIPHER_KEY_LENGTH, key_hmac = zero_bytes MAX_HMAC_KEY_LENGTH\<rparr>"

definition zero_key_ctx :: key_ctx where
  "zero_key_ctx = \<lparr>kc_cipher = None, kc_hmac = None, implicit_iv = zero_bytes OPENVPN_MAX_IV_LENGTH, implicit_iv_len = 0\<rparr>"

definition zero_key_ctx_bi :: key_ctx_bi where
  "zero_key_ctx_bi = \<lparr>kb_encrypt = zero_key_ctx, kb_decrypt = zero_key_ctx, kb_initialized = False\<rparr>"

definition key_direction_state_init :: "int \<Rightarrow> key_direction_state option" where
  "key_direction_state_init d =
     (if d = KEY_DIRECTION_NORMAL then Some \<lparr>out_key = 0, in_key = 1, need_keys = 2\<rparr>
      else if d = KEY_DIRECTION_INVERSE then Some \<lparr>out_key = 1, in_key = 0, need_keys = 2\<rparr>
      else if d = KEY_DIRECTION_BIDIRECTIONAL then Some \<lparr>out_key = 0, in_key = 0, need_keys = 1\<rparr>
      else None)"

subsection \<open>Checking and using keys\<close>

definition key_is_zero :: "key \<Rightarrow> key_type \<Rightarrow> bool" where
  "key_is_zero k kt \<longleftrightarrow> (\<forall>x \<in> set (take (nat (kt_cipher_length kt)) (key_cipher k)). x = 0)"

definition check_key :: "key \<Rightarrow> key_type \<Rightarrow> bool" where
  "check_key k kt =
     (case kt_cipher kt of
        Some c \<Rightarrow>
          (if key_is_zero k kt then False
           else if ck_des_num_cblocks c \<noteq> 0 then ck_des_check c (take (nat (kt_cipher_length kt)) (key_cipher k))
           else True)
      | None \<Rightarrow> True)"

text \<open>\<open>key_des_fixup\<close> works in place on the first \<open>cipher_length\<close> bytes.\<close>

definition fixup_key :: "key \<Rightarrow> key_type \<Rightarrow> key" where
  "fixup_key k kt =
     (case kt_cipher kt of
        Some c \<Rightarrow>
          (if ck_des_num_cblocks c \<noteq> 0
           then (let n = nat (kt_cipher_length kt) in
                 k\<lparr>key_cipher := ck_des_fixup c (take n (key_cipher k)) @ drop n (key_cipher k)\<rparr>)
           else k)
      | None \<Rightarrow> k)"

definition init_key_ctx :: "key \<Rightarrow> key_type \<Rightarrow> key_ctx" where
  "init_key_ctx k kt =
     (let ctx = zero_key_ctx;
          ctx = (case kt_cipher kt of
                   Some c \<Rightarrow>
                     (if kt_cipher_length kt > 0
                      then ctx\<lparr>kc_cipher := Some (ck_context c (take (nat (kt_cipher_length kt)) (key_cipher k)))\<rparr> else ctx)
                 | None \<Rightarrow> ctx)
      in case kt_digest kt of
           Some d \<Rightarrow>
             (if kt_hmac_length kt > 0
              then ctx\<lparr>kc_hmac := Some \<lparr>hmac_size = md_kt_size d,
                     hmac_of = md_hmac d (take (nat (kt_hmac_length kt)) (key_hmac k))\<rparr>\<rparr> else ctx)
         | None \<Rightarrow> ctx)"

definition init_key_ctx_bi :: "key2 \<Rightarrow> int \<Rightarrow> key_type \<Rightarrow> key_ctx_bi option" where
  "init_key_ctx_bi k2 key_direction kt = do {
     kds \<leftarrow> key_direction_state_init key_direction;
     c_assert (out_key kds < length (k2_keys k2) \<and> in_key kds < length (k2_keys k2));
     Some \<lparr>kb_encrypt = init_key_ctx (k2_keys k2 ! out_key kds) kt,
       kb_decrypt = init_key_ctx (k2_keys k2 ! in_key kds) kt, kb_initialized = True\<rparr>
   }"

definition free_key_ctx :: "key_ctx \<Rightarrow> key_ctx" where
  "free_key_ctx ctx = ctx\<lparr>kc_cipher := None, kc_hmac := None, implicit_iv_len := 0\<rparr>"

definition free_key_ctx_bi :: "key_ctx_bi \<Rightarrow> key_ctx_bi" where
  "free_key_ctx_bi ctx = ctx\<lparr>kb_encrypt := free_key_ctx (kb_encrypt ctx), kb_decrypt := free_key_ctx (kb_decrypt ctx)\<rparr>"

definition key_ctx_bi_defined :: "key_ctx_bi \<Rightarrow> bool" where
  "key_ctx_bi_defined k \<longleftrightarrow> kc_cipher (kb_encrypt k) \<noteq> None \<or> kc_hmac (kb_encrypt k) \<noteq> None \<or>
     kc_cipher (kb_decrypt k) \<noteq> None \<or> kc_hmac (kb_decrypt k) \<noteq> None"

text \<open>A bad key ends the process.\<close>

fun fix_keys :: "key list \<Rightarrow> key_type \<Rightarrow> key list option" where
  "fix_keys [] kt = Some []"
| "fix_keys (k # ks) kt =
     (let k = fixup_key k kt in
      if \<not> check_key k kt then None else map_option ((#) k) (fix_keys ks kt))"

definition verify_fix_key2 :: "key2 \<Rightarrow> key_type \<Rightarrow> key2 option" where
  "verify_fix_key2 k2 kt = do {
     ks \<leftarrow> fix_keys (take (nat (k2_n k2)) (k2_keys k2)) kt;
     Some (k2\<lparr>k2_keys := ks @ drop (nat (k2_n k2)) (k2_keys k2)\<rparr>)
   }"

subsection \<open>Keys on the wire (key method 1)\<close>

definition write_key :: "key \<Rightarrow> key_type \<Rightarrow> buffer \<Rightarrow> (buffer \<times> bool) option" where
  "write_key k kt buf = do {
     c_assert (kt_cipher_length kt \<le> MAX_CIPHER_KEY_LENGTH \<and> kt_hmac_length kt \<le> MAX_HMAC_KEY_LENGTH);
     (buf, ok) \<leftarrow> buf_write buf [word_of_int (kt_cipher_length kt)];
     if \<not> ok then Some (buf, False)
     else do {
       (buf, ok) \<leftarrow> buf_write buf [word_of_int (kt_hmac_length kt)];
       if \<not> ok then Some (buf, False)
       else do {
         (buf, ok) \<leftarrow> buf_write buf (take (nat (kt_cipher_length kt)) (key_cipher k));
         if \<not> ok then Some (buf, False)
         else buf_write buf (take (nat (kt_hmac_length kt)) (key_hmac k))
       }
     }
   }"

definition read_key :: "key_type \<Rightarrow> buffer \<Rightarrow> (key \<times> buffer \<times> int) option" where
  "read_key kt buf = do {
     let k = zero_key;
     (buf, cl) \<leftarrow> buf_read buf 1;
     case cl of
       None \<Rightarrow> Some (k, buf, -1)
     | Some cl \<Rightarrow> do {
         (buf, hl) \<leftarrow> buf_read buf 1;
         case hl of
           None \<Rightarrow> Some (k, buf, -1)
         | Some hl \<Rightarrow>
             (if uint (hd cl) \<noteq> kt_cipher_length kt \<or> uint (hd hl) \<noteq> kt_hmac_length kt then Some (k, buf, 0)
              else do {
                (buf, c) \<leftarrow> buf_read buf (uint (hd cl));
                case c of
                  None \<Rightarrow> Some (k, buf, -1)
                | Some c \<Rightarrow> do {
                    c \<leftarrow> mem_write (key_cipher k) 0 c;
                    let k = k\<lparr>key_cipher := c\<rparr>;
                    (buf, h) \<leftarrow> buf_read buf (uint (hd hl));
                    case h of
                      None \<Rightarrow> Some (k, buf, -1)
                    | Some h \<Rightarrow> do { h \<leftarrow> mem_write (key_hmac k) 0 h; Some (k\<lparr>key_hmac := h\<rparr>, buf, 1) }
                  }
              })
       }
   }"

subsection \<open>The pseudo-random function\<close>

text \<open>
  The loop of \<open>tls1_P_hash\<close> with a keyed hash \<open>h\<close>: \<open>olen\<close> bytes remain, \<open>out\<close> holds those written.
\<close>

partial_function (option) p_hash_loop ::
  "(byte list \<Rightarrow> byte list) \<Rightarrow> int \<Rightarrow> byte list \<Rightarrow> byte list \<Rightarrow> byte list \<Rightarrow> int \<Rightarrow> byte list option" where
  [code]: "p_hash_loop h blk seed a1 out olen =
     (if olen > blk then p_hash_loop h blk seed (h a1) (out @ h (a1 @ seed)) (olen - blk)
      else map_option (\<lambda>bs. out @ bs) (mem_read (h (a1 @ seed)) 0 olen))"

definition tls1_P_hash :: "digest_kt \<Rightarrow> byte list \<Rightarrow> byte list \<Rightarrow> int \<Rightarrow> byte list option" where
  "tls1_P_hash md sec seed olen = p_hash_loop (md_hmac md sec) (md_kt_size md) seed (md_hmac md sec seed) [] olen"

text \<open>The two digests are those that the library returns for MD5 and SHA1.\<close>

record prf_lib =
  prf_md5 :: digest_kt
  prf_sha1 :: digest_kt

definition tls1_PRF :: "prf_lib \<Rightarrow> byte list \<Rightarrow> byte list \<Rightarrow> int \<Rightarrow> byte list option" where
  "tls1_PRF lib label sec olen = do {
     let slen = length sec;
     let len = slen div 2;
     let s2 = drop len sec;
     let len = len + (if odd slen then 1 else 0);
     out1 \<leftarrow> tls1_P_hash (prf_md5 lib) (take len sec) label olen;
     out2 \<leftarrow> tls1_P_hash (prf_sha1 lib) (take len s2) label olen;
     Some (map2 (XOR) out1 out2)
   }"

definition openvpn_PRF ::
  "prf_lib \<Rightarrow> byte list \<Rightarrow> byte list \<Rightarrow> byte list \<Rightarrow> byte list \<Rightarrow> session_id option \<Rightarrow> session_id option \<Rightarrow> int \<Rightarrow> byte list option" where
  "openvpn_PRF lib secret label client_seed server_seed client_sid server_sid olen = do {
     seed \<leftarrow> alloc_buf (int (length label) + int (length client_seed) + int (length server_seed) + SID_SIZE * 2);
     (seed, ok) \<leftarrow> buf_write seed label;
     c_assert ok;
     (seed, ok) \<leftarrow> buf_write seed client_seed;
     c_assert ok;
     (seed, ok) \<leftarrow> buf_write seed server_seed;
     c_assert ok;
     (seed, ok) \<leftarrow> (case client_sid of Some sid \<Rightarrow> buf_write seed (sid_id sid) | None \<Rightarrow> Some (seed, True));
     c_assert ok;
     (seed, ok) \<leftarrow> (case server_sid of Some sid \<Rightarrow> buf_write seed (sid_id sid) | None \<Rightarrow> Some (seed, True));
     c_assert ok;
     bytes \<leftarrow> buf_bytes seed;
     tls1_PRF lib bytes secret olen
   }"

subsection \<open>The keys of the data channel\<close>

record key_source =
  pre_master :: "byte list"
  random1 :: "byte list"
  random2 :: "byte list"

record key_source2 =
  src_client :: key_source
  src_server :: key_source

definition zero_key_source :: key_source where
  "zero_key_source = \<lparr>pre_master = zero_bytes 48, random1 = zero_bytes 32, random2 = zero_bytes 32\<rparr>"

definition zero_key_source2 :: key_source2 where
  "zero_key_source2 = \<lparr>src_client = zero_key_source, src_server = zero_key_source\<rparr>"

text \<open>The bytes of a string literal.\<close>

definition bytes_of :: "string \<Rightarrow> byte list" where "bytes_of s = map of_char s"

definition KEY_EXPANSION_ID :: string where "KEY_EXPANSION_ID = ''OpenVPN''"

definition key_of_bytes :: "byte list \<Rightarrow> key" where
  "key_of_bytes bs = \<lparr>key_cipher = take 64 bs, key_hmac = take 64 (drop 64 bs)\<rparr>"

definition key_ctx_update_implicit_iv :: "key_ctx \<Rightarrow> byte list \<Rightarrow> int \<Rightarrow> key_ctx option" where
  "key_ctx_update_implicit_iv ctx k key_len =
     (case kc_cipher ctx of
        Some c \<Rightarrow>
          (if mode_aead (Some c) then do {
             c_assert (ctx_iv_length c \<ge> OPENVPN_AEAD_MIN_IV_LEN);
             let impl_iv_len = ctx_iv_length c - 4;
             c_assert (impl_iv_len \<le> OPENVPN_MAX_IV_LENGTH);
             c_assert (impl_iv_len \<le> key_len);
             bs \<leftarrow> mem_read k 0 impl_iv_len;
             iv \<leftarrow> mem_write (implicit_iv ctx) 0 bs;
             Some (ctx\<lparr>implicit_iv := iv, implicit_iv_len := impl_iv_len\<rparr>)
           } else Some ctx)
      | None \<Rightarrow> Some ctx)"

definition generate_key_expansion ::
  "prf_lib \<Rightarrow> key_ctx_bi \<Rightarrow> key_type \<Rightarrow> key_source2 \<Rightarrow> session_id \<Rightarrow> session_id \<Rightarrow> bool \<Rightarrow> (key_ctx_bi \<times> bool) option" where
  "generate_key_expansion lib kb kt src client_sid server_sid server =
     (if kb_initialized kb then Some (kb, False)
      else do {
        master \<leftarrow> openvpn_PRF lib (pre_master (src_client src)) (bytes_of (KEY_EXPANSION_ID @ '' master secret''))
          (random1 (src_client src)) (random1 (src_server src)) None None 48;
        bytes \<leftarrow> openvpn_PRF lib master (bytes_of (KEY_EXPANSION_ID @ '' key expansion''))
          (random2 (src_client src)) (random2 (src_server src)) (Some client_sid) (Some server_sid) 256;
        let k0 = fixup_key (key_of_bytes bytes) kt;
        let k1 = fixup_key (key_of_bytes (drop 128 bytes)) kt;
        if \<not> check_key k0 kt \<or> \<not> check_key k1 kt then Some (kb, False)
        else do {
          kb \<leftarrow> init_key_ctx_bi \<lparr>k2_n = 2, k2_keys = [k0, k1]\<rparr>
            (if server then KEY_DIRECTION_INVERSE else KEY_DIRECTION_NORMAL) kt;
          enc \<leftarrow> key_ctx_update_implicit_iv (kb_encrypt kb) (key_hmac (if server then k1 else k0)) MAX_HMAC_KEY_LENGTH;
          dec \<leftarrow> key_ctx_update_implicit_iv (kb_decrypt kb) (key_hmac (if server then k0 else k1)) MAX_HMAC_KEY_LENGTH;
          Some (kb\<lparr>kb_encrypt := enc, kb_decrypt := dec\<rparr>, True)
        }
      })"

subsection \<open>What the function computes\<close>

text \<open>The definition of P-hash in RFC 2246: the concatenation of the hashes of A(i) and the seed, cut to length.\<close>

fun rfc_A :: "(byte list \<Rightarrow> byte list) \<Rightarrow> byte list \<Rightarrow> nat \<Rightarrow> byte list" where
  "rfc_A h seed 0 = seed"
| "rfc_A h seed (Suc n) = h (rfc_A h seed n)"

definition rfc_P_hash :: "(byte list \<Rightarrow> byte list) \<Rightarrow> byte list \<Rightarrow> nat \<Rightarrow> byte list" where
  "rfc_P_hash h seed n = concat (map (\<lambda>i. h (rfc_A h seed (Suc i) @ seed)) [0..<n])"

definition digest_ok :: "digest_kt \<Rightarrow> bool" where
  "digest_ok md \<longleftrightarrow> 0 < md_kt_size md \<and> (\<forall>k bs. int (length (md_hmac md k bs)) = md_kt_size md)"

lemma rfc_P_hash_length: "(\<And>bs. int (length (h bs)) = c) \<Longrightarrow> int (length (rfc_P_hash h seed n)) = int n * c"
  by (induction n) (simp_all add: rfc_P_hash_def algebra_simps)

lemma rfc_P_hash_Suc: "rfc_P_hash h seed (Suc n) = rfc_P_hash h seed n @ h (rfc_A h seed (Suc n) @ seed)"
  by (simp add: rfc_P_hash_def)

lemma rfc_P_hash_prefix: "n \<le> m \<Longrightarrow> \<exists>zs. rfc_P_hash h seed m = rfc_P_hash h seed n @ zs"
  by (induction m) (auto simp: rfc_P_hash_Suc le_Suc_eq)

lemma p_hash_loop_spec:
  assumes h: "\<And>bs. int (length (h bs)) = c" and c: "0 < c"
  shows "0 \<le> olen \<Longrightarrow> olen \<le> int m * c \<Longrightarrow> 
    p_hash_loop h c seed (rfc_A h seed (Suc n)) (rfc_P_hash h seed n) olen =
      Some (take (nat (int n * c + olen)) (rfc_P_hash h seed (n + m + 1)))"
proof (induction m arbitrary: n olen)
  case 0
  then have o0: "olen = 0" by simp
  have len: "length (rfc_P_hash h seed n) = nat (int n * c)" using rfc_P_hash_length [of h c seed n] h by simp
  show ?case using c len by (subst p_hash_loop.simps) (simp add: o0 mem_read_def rfc_P_hash_Suc)
next
  case (Suc m)
  have len: "length (rfc_P_hash h seed n) = nat (int n * c)" using rfc_P_hash_length [of h c seed n] h by simp
  show ?case
  proof (cases "olen > c")
    case True
    have "0 \<le> olen - c" "olen - c \<le> int m * c" using True Suc.prems(2) by (simp_all add: algebra_simps)
    from Suc.IH [OF this, of "Suc n"] show ?thesis
      using True by (subst p_hash_loop.simps) (simp add: rfc_P_hash_Suc algebra_simps)
  next
    case False
    obtain zs where zs: "rfc_P_hash h seed (n + Suc m + 1) = rfc_P_hash h seed (Suc n) @ zs"
      using rfc_P_hash_prefix [of "Suc n" "n + Suc m + 1"] by auto
    have lh: "length (h (h (rfc_A h seed n) @ seed)) = nat c" using h [of "h (rfc_A h seed n) @ seed"] by simp
    have "nat (int n * c + olen) = nat (int n * c) + nat olen" using c Suc.prems(1) by (simp add: nat_add_distrib)
    then have "take (nat (int n * c + olen)) (rfc_P_hash h seed (n + Suc m + 1)) =
        rfc_P_hash h seed n @ take (nat olen) (h (h (rfc_A h seed n) @ seed))"
      unfolding zs rfc_P_hash_Suc using False len lh by simp
    then show ?thesis using False Suc.prems(1) lh
      by (subst p_hash_loop.simps) (simp add: mem_read_def)
  qed
qed

lemma tls1_P_hash_rfc:
  assumes "digest_ok md" "0 \<le> olen" "olen \<le> int m * md_kt_size md"
  shows "tls1_P_hash md sec seed olen = Some (take (nat olen) (rfc_P_hash (md_hmac md sec) seed (m + 1)))"
  using p_hash_loop_spec [of "md_hmac md sec" "md_kt_size md" olen m seed 0] assms
  by (simp add: tls1_P_hash_def digest_ok_def rfc_P_hash_def)

lemma tls1_P_hash_total:
  assumes "digest_ok md" "0 \<le> olen"
  obtains bs where "tls1_P_hash md sec seed olen = Some bs" "int (length bs) = olen"
proof -
  have c: "0 < md_kt_size md" using assms(1) by (simp add: digest_ok_def)
  then have m: "olen \<le> int (nat olen) * md_kt_size md" using assms(2) mult_left_mono [of 1 "md_kt_size md" olen] by simp
  from tls1_P_hash_rfc [OF assms this] have "tls1_P_hash md sec seed olen = Some (take (nat olen) (rfc_P_hash (md_hmac md sec) seed (nat olen + 1)))" .
  moreover have "int (length (rfc_P_hash (md_hmac md sec) seed (nat olen + 1))) = (olen + 1) * md_kt_size md"
    using rfc_P_hash_length [of "md_hmac md sec"] assms by (simp add: digest_ok_def)
  then have "nat olen \<le> length (rfc_P_hash (md_hmac md sec) seed (nat olen + 1))" using m c assms(2)
    by (simp add: algebra_simps nat_le_iff)
  ultimately show thesis using that assms(2) by simp
qed

subsection \<open>Both ends derive the same keys\<close>

definition prf_ok :: "prf_lib \<Rightarrow> bool" where
  "prf_ok lib \<longleftrightarrow> digest_ok (prf_md5 lib) \<and> digest_ok (prf_sha1 lib)"

lemma tls1_PRF_total:
  assumes "prf_ok lib" "0 \<le> olen"
  obtains bs where "tls1_PRF lib label sec olen = Some bs" "int (length bs) = olen"
proof -
  have d: "digest_ok (prf_md5 lib)" "digest_ok (prf_sha1 lib)" using assms(1) by (simp_all add: prf_ok_def)
  define s1 where "s1 = take (length sec div 2 + (if odd (length sec) then 1 else 0)) sec"
  define s2 where "s2 = take (length sec div 2 + (if odd (length sec) then 1 else 0)) (drop (length sec div 2) sec)"
  obtain xs where xs: "tls1_P_hash (prf_md5 lib) s1 label olen = Some xs" "int (length xs) = olen"
    using tls1_P_hash_total [OF d(1) assms(2)] by blast
  obtain ys where ys: "tls1_P_hash (prf_sha1 lib) s2 label olen = Some ys" "int (length ys) = olen"
    using tls1_P_hash_total [OF d(2) assms(2)] by blast
  have "tls1_PRF lib label sec olen = Some (map2 (XOR) xs ys)"
    using xs(1) ys(1) unfolding tls1_PRF_def s1_def s2_def by simp
  then show thesis using that xs(2) ys(2) by simp
qed

lemma openvpn_PRF_total:
  assumes "prf_ok lib" "0 \<le> olen" "int (length label) + int (length cs) + int (length ss) + 16 < BUF_SIZE_MAX"
    "\<And>s. c = Some s \<Longrightarrow> sid_ok s" "\<And>s. v = Some s \<Longrightarrow> sid_ok s"
  obtains bs where "openvpn_PRF lib secret label cs ss c v olen = Some bs" "int (length bs) = olen"
proof -
  let ?n = "int (length label) + int (length cs) + int (length ss) + SID_SIZE * 2"
  have "0 \<le> ?n" "?n < BUF_SIZE_MAX" using assms(3) by (simp_all add: SID_SIZE_def)
  then obtain b0 where b0: "alloc_buf ?n = Some b0" "buf_ok b0" "content b0 = []" "headroom b0 = 0" "tailroom b0 = nat ?n"
    "b_capacity b0 = ?n" by (rule alloc_buf_ok)
  have "tailroom b0 = length label + length cs + length ss + 16" unfolding b0(5) SID_SIZE_def by linarith
  note b0 = b0(1,2) this
  have "length label \<le> tailroom b0" using b0(3) by simp
  from buf_write_room [OF b0(2) this] obtain b1 where b1: "buf_write b0 label = Some (b1, True)" "buf_ok b1"
    "tailroom b1 = tailroom b0 - length label" by blast
  then have "tailroom b1 = length cs + length ss + 16" using b0(3) by simp
  note b1 = b1(1,2) this
  have "length cs \<le> tailroom b1" using b1(3) by simp
  from buf_write_room [OF b1(2) this] obtain b2 where b2: "buf_write b1 cs = Some (b2, True)" "buf_ok b2"
    "tailroom b2 = tailroom b1 - length cs" by blast
  then have "tailroom b2 = length ss + 16" using b1(3) by simp
  note b2 = b2(1,2) this
  have "length ss \<le> tailroom b2" using b2(3) by simp
  from buf_write_room [OF b2(2) this] obtain b3 where b3: "buf_write b2 ss = Some (b3, True)" "buf_ok b3"
    "tailroom b3 = tailroom b2 - length ss" by blast
  then have "tailroom b3 = 16" using b2(3) by simp
  note b3 = b3(1,2) this
  have step: "\<exists>b'. (case s of Some sid \<Rightarrow> buf_write b (sid_id sid) | None \<Rightarrow> Some (b, True)) = Some (b', True) \<and> buf_ok b' \<and>
      tailroom b - 8 \<le> tailroom b'" if "buf_ok b" "8 \<le> tailroom b" "\<And>x. s = Some x \<Longrightarrow> sid_ok x" for b s
  proof (cases s)
    case (Some x)
    then have "length (sid_id x) \<le> tailroom b" "length (sid_id x) = 8" using that(2,3) by (auto simp: sid_ok_def)
    from buf_write_room [OF that(1) this(1)] obtain b' where "buf_write b (sid_id x) = Some (b', True)" "buf_ok b'"
      "tailroom b' = tailroom b - length (sid_id x)" by blast
    then show ?thesis using Some \<open>length (sid_id x) = 8\<close> by simp
  qed (use that in simp)
  obtain b4 where b4: "(case c of Some sid \<Rightarrow> buf_write b3 (sid_id sid) | None \<Rightarrow> Some (b3, True)) = Some (b4, True)" "buf_ok b4"
    "8 \<le> tailroom b4" using step [OF b3(2), of c] b3(3) assms(4) by auto
  obtain b5 where b5: "(case v of Some sid \<Rightarrow> buf_write b4 (sid_id sid) | None \<Rightarrow> Some (b4, True)) = Some (b5, True)" "buf_ok b5"
    using step [OF b4(2,3), of v] assms(5) by auto
  obtain bs where bs: "tls1_PRF lib (content b5) secret olen = Some bs" "int (length bs) = olen"
    using tls1_PRF_total [OF assms(1,2)] by blast
  have "openvpn_PRF lib secret label cs ss c v olen = Some bs"
    using b0(1) b1(1) b2(1) b3(1) b4(1) b5(1) bs(1) buf_bytes_content [OF b5(2)] by (simp add: openvpn_PRF_def)
  then show thesis using that bs(2) by blast
qed

definition key_source_ok :: "key_source2 \<Rightarrow> bool" where
  "key_source_ok s \<longleftrightarrow> length (pre_master (src_client s)) = 48 \<and>
     length (random1 (src_client s)) = 32 \<and> length (random2 (src_client s)) = 32 \<and>
     length (random1 (src_server s)) = 32 \<and> length (random2 (src_server s)) = 32"

text \<open>What the code asks of an AEAD cipher: a vector of 12 to 16 bytes.\<close>

definition key_type_ok :: "key_type \<Rightarrow> bool" where
  "key_type_ok kt \<longleftrightarrow> (\<forall>c k. kt_cipher kt = Some c \<longrightarrow> mode_aead (Some (ck_context c k)) \<longrightarrow>
     12 \<le> ctx_iv_length (ck_context c k) \<and> ctx_iv_length (ck_context c k) \<le> 16)"

lemma init_key_ctx_iv: "length (implicit_iv (init_key_ctx k kt)) = 16"
  by (simp add: init_key_ctx_def Let_def zero_key_ctx_def zero_bytes_def OPENVPN_MAX_IV_LENGTH_def split: option.splits)

lemma init_key_ctx_cipher:
  "kc_cipher (init_key_ctx k kt) = (case kt_cipher kt of
     Some c \<Rightarrow> if kt_cipher_length kt > 0 then Some (ck_context c (take (nat (kt_cipher_length kt)) (key_cipher k))) else None
   | None \<Rightarrow> None)"
  by (simp add: init_key_ctx_def Let_def zero_key_ctx_def split: option.splits)

lemma implicit_iv_total:
  assumes "key_type_ok kt" "length h = 64"
  shows "\<exists>ctx. key_ctx_update_implicit_iv (init_key_ctx k kt) h MAX_HMAC_KEY_LENGTH = Some ctx \<and>
    kc_cipher ctx = kc_cipher (init_key_ctx k kt) \<and>
    (\<forall>c. kc_cipher ctx = Some c \<longrightarrow> mode_aead (Some c) \<longrightarrow>
      aead_key c (take (nat (ctx_iv_length c - 4)) h) ctx)"
proof (cases "kc_cipher (init_key_ctx k kt)")
  case None
  then show ?thesis by (simp add: key_ctx_update_implicit_iv_def)
next
  case (Some c)
  show ?thesis
  proof (cases "mode_aead (Some c)")
    case False
    then show ?thesis using Some by (simp add: key_ctx_update_implicit_iv_def)
  next
    case True
    obtain ck where ck: "kt_cipher kt = Some ck" "c = ck_context ck (take (nat (kt_cipher_length kt)) (key_cipher k))"
      using Some by (auto simp: init_key_ctx_cipher split: option.splits if_splits)
    have n: "12 \<le> ctx_iv_length c" "ctx_iv_length c \<le> 16" using assms(1) ck True unfolding key_type_ok_def by blast+
    then show ?thesis
      using Some True assms(2) init_key_ctx_iv [of k kt]
      by (auto simp: key_ctx_update_implicit_iv_def OPENVPN_AEAD_MIN_IV_LEN_def OPENVPN_MAX_IV_LENGTH_def MAX_HMAC_KEY_LENGTH_def
          mem_read_def mem_write_def aead_key_def nat_le_iff Let_def)
  qed
qed

text \<open>
  The two ends of a session derive the same data-channel keys. From the same key sources and session ids, the
  derivation succeeds or refuses a weak key at both ends alike, without a failed assertion; when it succeeds, what the client
  encrypts with is what the server decrypts with and the other way round, vectors included, and with
  an AEAD cipher both ends hold a key fit for the data channel.
\<close>

theorem key_agreement:
  assumes "prf_ok lib" "key_type_ok kt" "key_source_ok src" "sid_ok csid" "sid_ok ssid"
    "\<not> kb_initialized kb_c" "\<not> kb_initialized kb_s"
  shows "\<exists>client server ok. generate_key_expansion lib kb_c kt src csid ssid False = Some (client, ok) \<and>
    generate_key_expansion lib kb_s kt src csid ssid True = Some (server, ok) \<and>
    (ok \<longrightarrow> kb_initialized client \<and> kb_initialized server \<and>
      kb_encrypt client = kb_decrypt server \<and> kb_decrypt client = kb_encrypt server \<and>
      (\<forall>c. kc_cipher (kb_encrypt client) = Some c \<longrightarrow> mode_aead (Some c) \<longrightarrow>
        (\<exists>im. aead_key c im (kb_encrypt client) \<and> aead_key c im (kb_decrypt server))))"
proof -
  note src = assms(3) [unfolded key_source_ok_def]
  obtain master where master: "openvpn_PRF lib (pre_master (src_client src)) (bytes_of (KEY_EXPANSION_ID @ '' master secret''))
      (random1 (src_client src)) (random1 (src_server src)) None None 48 = Some master"
    using openvpn_PRF_total [OF assms(1), of 48 "bytes_of (KEY_EXPANSION_ID @ '' master secret'')"
        "random1 (src_client src)" "random1 (src_server src)" None None "pre_master (src_client src)"] src
    by (auto simp: bytes_of_def KEY_EXPANSION_ID_def BUF_SIZE_MAX_def)
  obtain bs where bs: "openvpn_PRF lib master (bytes_of (KEY_EXPANSION_ID @ '' key expansion''))
      (random2 (src_client src)) (random2 (src_server src)) (Some csid) (Some ssid) 256 = Some bs" "int (length bs) = 256"
    using openvpn_PRF_total [OF assms(1), of 256 "bytes_of (KEY_EXPANSION_ID @ '' key expansion'')"
        "random2 (src_client src)" "random2 (src_server src)" "Some csid" "Some ssid" master] src assms(4,5)
    by (auto simp: bytes_of_def KEY_EXPANSION_ID_def BUF_SIZE_MAX_def)
  define k0 where "k0 = fixup_key (key_of_bytes bs) kt"
  define k1 where "k1 = fixup_key (key_of_bytes (drop 128 bs)) kt"
  have len: "length (key_hmac k0) = 64" "length (key_hmac k1) = 64"
    using bs(2) by (simp_all add: k0_def k1_def fixup_key_def key_of_bytes_def Let_def split: option.splits)
  obtain c0 c1 where c0: "key_ctx_update_implicit_iv (init_key_ctx k0 kt) (key_hmac k0) MAX_HMAC_KEY_LENGTH = Some c0"
    and iv0: "\<forall>c. kc_cipher c0 = Some c \<longrightarrow> mode_aead (Some c) \<longrightarrow> aead_key c (take (nat (ctx_iv_length c - 4)) (key_hmac k0)) c0"
    and c1: "key_ctx_update_implicit_iv (init_key_ctx k1 kt) (key_hmac k1) MAX_HMAC_KEY_LENGTH = Some c1"
    using implicit_iv_total [OF assms(2) len(1)] implicit_iv_total [OF assms(2) len(2)] by metis
  have gen: "generate_key_expansion lib kb kt src csid ssid server =
      (if \<not> check_key k0 kt \<or> \<not> check_key k1 kt then Some (kb, False)
       else Some (\<lparr>kb_encrypt = if server then c1 else c0, kb_decrypt = if server then c0 else c1, kb_initialized = True\<rparr>, True))"
    if "\<not> kb_initialized kb" for kb server
    unfolding generate_key_expansion_def using that master bs(1) c0 c1
    by (simp add: init_key_ctx_bi_def key_direction_state_init_def KEY_DIRECTION_NORMAL_def KEY_DIRECTION_INVERSE_def
        flip: k0_def k1_def)
  show ?thesis using gen [OF assms(6), of False] gen [OF assms(7), of True] iv0 by auto
qed

definition toy_digest :: "int \<Rightarrow> byte \<Rightarrow> digest_kt" where
  "toy_digest n x = \<lparr>md_kt_size = n, md_hmac = \<lambda>k bs. replicate (nat n) (case bs of [] \<Rightarrow> x | b # _ \<Rightarrow> b + x)\<rparr>"

definition toy_prf :: prf_lib where
  "toy_prf = \<lparr>prf_md5 = toy_digest 16 1, prf_sha1 = toy_digest 20 3\<rparr>"

definition toy_key_type :: key_type where
  "toy_key_type = \<lparr>kt_cipher_length = 32, kt_hmac_length = 20,
     kt_cipher = Some \<lparr>ck_context = \<lambda>k. toy_aead, ck_block_size = 16, ck_des_num_cblocks = 0, ck_des_fixup = \<lambda>k. k, ck_des_check = \<lambda>k. True\<rparr>,
     kt_digest = None\<rparr>"

definition toy_source :: key_source2 where
  "toy_source = \<lparr>src_client = \<lparr>pre_master = replicate 48 1, random1 = replicate 32 2, random2 = replicate 32 3\<rparr>,
     src_server = \<lparr>pre_master = [], random1 = replicate 32 4, random2 = replicate 32 5\<rparr>\<rparr>"

definition toy_sid :: "byte \<Rightarrow> session_id" where "toy_sid x = \<lparr>sid_id = replicate 8 x\<rparr>"

lemma toy_prf_ok: "prf_ok toy_prf"
  by (simp add: prf_ok_def digest_ok_def toy_prf_def toy_digest_def)

lemma toy_key_type_ok: "key_type_ok toy_key_type" "key_source_ok toy_source" "sid_ok (toy_sid x)"
  by (simp_all add: key_type_ok_def toy_key_type_def toy_aead_def key_source_ok_def toy_source_def toy_sid_def sid_ok_def)

lemma key_agreement_witness:
  "\<exists>client server. generate_key_expansion toy_prf zero_key_ctx_bi toy_key_type toy_source (toy_sid 1) (toy_sid 2) False = Some (client, True) \<and>
    generate_key_expansion toy_prf zero_key_ctx_bi toy_key_type toy_source (toy_sid 1) (toy_sid 2) True = Some (server, True) \<and>
    kb_encrypt client = kb_decrypt server \<and> kb_decrypt client = kb_encrypt server"
proof -
  have init: "\<not> kb_initialized zero_key_ctx_bi" by (simp add: zero_key_ctx_bi_def)
  have run: "map_option snd (generate_key_expansion toy_prf zero_key_ctx_bi toy_key_type toy_source (toy_sid 1) (toy_sid 2) False) = Some True"
    by code_simp
  from key_agreement [OF toy_prf_ok toy_key_type_ok(1,2) toy_key_type_ok(3) toy_key_type_ok(3) init init, of 1 2]
  obtain client server ok where ks: "generate_key_expansion toy_prf zero_key_ctx_bi toy_key_type toy_source (toy_sid 1) (toy_sid 2) False = Some (client, ok)"
    "generate_key_expansion toy_prf zero_key_ctx_bi toy_key_type toy_source (toy_sid 1) (toy_sid 2) True = Some (server, ok)"
    "ok \<longrightarrow> kb_encrypt client = kb_decrypt server \<and> kb_decrypt client = kb_encrypt server" by blast
  then have "ok = True" using run by simp
  then show ?thesis using ks by blast
qed

text \<open>
  C39. The data expansion of key derivation is the one of TLS 1.0: for a digest with outputs of its announced size,
  \<open>tls1_P_hash\<close> ends and computes the first \<open>olen\<close> bytes of the P-hash of RFC 2246.
\<close>

theorem tls1_P_hash_is_rfc:
  assumes "0 < md_kt_size md" "\<forall>k bs. int (length (md_hmac md k bs)) = md_kt_size md" "0 \<le> olen" "olen \<le> int m * md_kt_size md"
  shows "tls1_P_hash md sec seed olen = Some (take (nat olen) (rfc_P_hash (md_hmac md sec) seed (m + 1)))"
  using tls1_P_hash_rfc [OF _ assms(3,4)] assms(1,2) by (simp add: digest_ok_def)

lemma tls1_P_hash_is_rfc_witness:
  "tls1_P_hash (toy_digest 2 1) [1] [5] 5 = Some (take (nat 5) (rfc_P_hash (md_hmac (toy_digest 2 1) [1]) [5] 4))"
  using tls1_P_hash_is_rfc [of "toy_digest 2 1" 5 3 "[1]" "[5]"] by (simp add: toy_digest_def)

subsection \<open>Key method 1\<close>

lemma key_wire_roundtrip:
  assumes "buf_ok b" "content b = []" "0 \<le> kt_cipher_length kt" "kt_cipher_length kt \<le> 64" "0 \<le> kt_hmac_length kt" "kt_hmac_length kt \<le> 64"
    and "length (key_cipher k) = 64" "length (key_hmac k) = 64" "nat (kt_cipher_length kt) + nat (kt_hmac_length kt) + 2 \<le> tailroom b"
  shows "\<exists>b1 b2. write_key k kt b = Some (b1, True) \<and> buf_ok b1 \<and>
    read_key kt b1 = Some (\<lparr>key_cipher = take (nat (kt_cipher_length kt)) (key_cipher k) @ drop (nat (kt_cipher_length kt)) (zero_bytes 64),
      key_hmac = take (nat (kt_hmac_length kt)) (key_hmac k) @ drop (nat (kt_hmac_length kt)) (zero_bytes 64)\<rparr>, b2, 1)"
proof -
  define cl hl where "cl = kt_cipher_length kt" "hl = kt_hmac_length kt"
  define c h where "c = take (nat cl) (key_cipher k)" "h = take (nat hl) (key_hmac k)"
  have n: "0 \<le> cl" "cl \<le> 64" "0 \<le> hl" "hl \<le> 64" using assms(3-6) by (simp_all add: cl_hl_def)
  have len: "length c = nat cl" "length h = nat hl" using n assms(7,8) by (simp_all add: c_h_def)
  have room: "nat cl + nat hl + 2 \<le> tailroom b" using assms(9) by (simp add: cl_hl_def)
  obtain b1 where b1: "buf_write b [word_of_int cl] = Some (b1, True)" "buf_ok b1" "content b1 = [word_of_int cl]"
    "tailroom b1 = tailroom b - 1"
    using buf_write_room [OF assms(1), of "[word_of_int cl]"] room assms(2) by auto
  have "length [word_of_int hl :: byte] \<le> tailroom b1" using room b1(4) by simp
  from buf_write_room [OF b1(2) this] obtain b2 where b2: "buf_write b1 [word_of_int hl] = Some (b2, True)" "buf_ok b2"
    "content b2 = content b1 @ [word_of_int hl]" "tailroom b2 = tailroom b1 - length [word_of_int hl :: byte]" by blast
  have "length c \<le> tailroom b2" using room b1(4) b2(4) len by simp
  from buf_write_room [OF b2(2) this] obtain b3 where b3: "buf_write b2 c = Some (b3, True)" "buf_ok b3"
    "content b3 = content b2 @ c" "tailroom b3 = tailroom b2 - length c" by blast
  have "length h \<le> tailroom b3" using room b1(4) b2(4) b3(4) len by (simp add: le_diff_conv2)
  from buf_write_room [OF b3(2) this] obtain b4 where b4: "buf_write b3 h = Some (b4, True)" "buf_ok b4"
    "content b4 = content b3 @ h" by blast
  have wr: "write_key k kt b = Some (b4, True)"
    using b1(1) b2(1) b3(1) b4(1) n
    by (simp add: write_key_def MAX_CIPHER_KEY_LENGTH_def MAX_HMAC_KEY_LENGTH_def flip: cl_hl_def c_h_def)
  have c4: "content b4 = [word_of_int cl] @ [word_of_int hl] @ c @ h" using b4(3) b3(3) b2(3) b1(3) by simp
  have "1 = int (length [word_of_int cl :: byte])" by simp
  with b4(2) c4 obtain r1 where r1: "buf_read b4 1 = Some (r1, Some [word_of_int cl])" "buf_ok r1"
    "content r1 = [word_of_int hl] @ c @ h" "tailroom r1 = tailroom b4" "headroom r1 = headroom b4 + length [word_of_int cl :: byte]"
    by (rule buf.get_front)
  have "1 = int (length [word_of_int hl :: byte])" by simp
  with r1(2,3) obtain r2 where r2: "buf_read r1 1 = Some (r2, Some [word_of_int hl])" "buf_ok r2"
    "content r2 = c @ h" "tailroom r2 = tailroom r1" "headroom r2 = headroom r1 + length [word_of_int hl :: byte]"
    by (rule buf.get_front)
  have "cl = int (length c)" using len n by simp
  with r2(2,3) obtain r3 where r3: "buf_read r2 cl = Some (r3, Some c)" "buf_ok r3"
    "content r3 = h" "tailroom r3 = tailroom r2" "headroom r3 = headroom r2 + length c"
    by (rule buf.get_front)
  have "hl = int (length h)" "content r3 = h @ []" using len n r3(3) by simp_all
  with r3(2) obtain r4 where r4: "buf_read r3 hl = Some (r4, Some h)" "buf_ok r4"
    "content r4 = []" "tailroom r4 = tailroom r3" "headroom r4 = headroom r3 + length h"
    by (metis buf.get_front)
  have u: "uint (word_of_int cl :: byte) = cl" "uint (word_of_int hl :: byte) = hl" using n by (simp_all add: uint_word_of_int)
  have "read_key kt b4 = Some (\<lparr>key_cipher = c @ drop (nat cl) (zero_bytes 64), key_hmac = h @ drop (nat hl) (zero_bytes 64)\<rparr>, r4, 1)"
    using r1(1) r2(1) r3(1) r4(1) n len nat_le_iff [of cl 64] nat_le_iff [of hl 64]
    by (simp add: read_key_def u zero_key_def MAX_CIPHER_KEY_LENGTH_def MAX_HMAC_KEY_LENGTH_def mem_write_def zero_bytes_def Let_def flip: cl_hl_def)
  with wr b4(2) show ?thesis unfolding c_h_def cl_hl_def by blast
qed

end
