(* ===== verification/Tls_State.thy ===== *)
theory Tls_State
  imports TLS_Crypt Key_Material Reliable_Channel Mtu
begin

text \<open>
  ssl_common.h and the life cycle of sessions in ssl.c: key states, sessions, the three sessions of a
  tunnel, and the operations that create, retire, move and reset them. The TLS object of a key state has
  an arbitrary type; what the code asks of the TLS library is the record \<open>ssl_lib\<close>. A pointer
  member that can be null is an option, the pointers \<open>key_scan\<close> are the three places they point to.
\<close>

subsection \<open>Constants\<close>

definition S_ERROR :: int where "S_ERROR = -1"
definition S_UNDEF :: int where "S_UNDEF = 0"
definition S_INITIAL :: int where "S_INITIAL = 1"
definition S_PRE_START :: int where "S_PRE_START = 2"
definition S_START :: int where "S_START = 3"
definition S_SENT_KEY :: int where "S_SENT_KEY = 4"
definition S_GOT_KEY :: int where "S_GOT_KEY = 5"
definition S_ACTIVE :: int where "S_ACTIVE = 6"
definition S_NORMAL_OP :: int where "S_NORMAL_OP = 7"

lemmas S_defs = S_ERROR_def S_UNDEF_def S_INITIAL_def S_PRE_START_def S_START_def S_SENT_KEY_def S_GOT_KEY_def
  S_ACTIVE_def S_NORMAL_OP_def

definition P_KEY_ID_MASK :: int where "P_KEY_ID_MASK = 7"
definition P_OPCODE_SHIFT :: nat where "P_OPCODE_SHIFT = 3"
definition P_CONTROL_HARD_RESET_CLIENT_V1 :: int where "P_CONTROL_HARD_RESET_CLIENT_V1 = 1"
definition P_CONTROL_HARD_RESET_SERVER_V1 :: int where "P_CONTROL_HARD_RESET_SERVER_V1 = 2"
definition P_CONTROL_SOFT_RESET_V1 :: int where "P_CONTROL_SOFT_RESET_V1 = 3"
definition P_DATA_V1 :: int where "P_DATA_V1 = 6"
definition P_CONTROL_HARD_RESET_CLIENT_V2 :: int where "P_CONTROL_HARD_RESET_CLIENT_V2 = 7"
definition P_CONTROL_HARD_RESET_SERVER_V2 :: int where "P_CONTROL_HARD_RESET_SERVER_V2 = 8"
definition P_DATA_V2 :: int where "P_DATA_V2 = 9"
definition P_FIRST_OPCODE :: int where "P_FIRST_OPCODE = 1"
definition P_LAST_OPCODE :: int where "P_LAST_OPCODE = 9"

definition CONTROL_SEND_ACK_MAX :: int where "CONTROL_SEND_ACK_MAX = 4"
definition TLS_RELIABLE_N_SEND_BUFFERS :: int where "TLS_RELIABLE_N_SEND_BUFFERS = 4"
definition TLS_RELIABLE_N_REC_BUFFERS :: int where "TLS_RELIABLE_N_REC_BUFFERS = 8"
definition TLS_CHANNEL_BUF_SIZE :: int where "TLS_CHANNEL_BUF_SIZE = 2048"

definition TM_ACTIVE :: nat where "TM_ACTIVE = 0"
definition TM_UNTRUSTED :: nat where "TM_UNTRUSTED = 1"
definition TM_LAME_DUCK :: nat where "TM_LAME_DUCK = 2"
definition TM_SIZE :: nat where "TM_SIZE = 3"

lemmas TM_defs = TM_ACTIVE_def TM_UNTRUSTED_def TM_LAME_DUCK_def TM_SIZE_def

definition is_hard_reset :: "int \<Rightarrow> int \<Rightarrow> bool" where
  "is_hard_reset op key_method \<longleftrightarrow>
     (key_method = 0 \<or> key_method = 1) \<and> (op = P_CONTROL_HARD_RESET_CLIENT_V1 \<or> op = P_CONTROL_HARD_RESET_SERVER_V1) \<or>
     (key_method = 0 \<or> key_method \<ge> 2) \<and> (op = P_CONTROL_HARD_RESET_CLIENT_V2 \<or> op = P_CONTROL_HARD_RESET_SERVER_V2)"

subsection \<open>Addresses\<close>

text \<open>
  The union of \<open>sockaddr_in\<close> and \<open>sockaddr_in6\<close>: family and port share their place, the IPv4 address
  shares its place with the IPv6 flow label (\<open>sa_word\<close>), \<open>sa_addr6\<close> are the 16 bytes of the IPv6 address.
\<close>

record sockaddr =
  sa_family :: int
  sa_port :: u16
  sa_word :: u32
  sa_addr6 :: "byte list"

definition AF_INET :: int where "AF_INET = 2"
definition AF_INET6 :: int where "AF_INET6 = 10"

definition zero_sockaddr :: sockaddr where
  "zero_sockaddr = \<lparr>sa_family = 0, sa_port = 0, sa_word = 0, sa_addr6 = replicate 16 0\<rparr>"

definition addr_defined :: "sockaddr \<Rightarrow> bool" where
  "addr_defined a =
     (if sa_family a = AF_INET then sa_word a \<noteq> 0
      else if sa_family a = AF_INET6 then sa_addr6 a \<noteq> replicate 16 0
      else False)"

definition addr_port_match :: "sockaddr \<Rightarrow> sockaddr \<Rightarrow> bool option" where
  "addr_port_match a1 a2 =
     (if sa_family a1 = AF_INET then Some (sa_word a1 = sa_word a2 \<and> sa_port a1 = sa_port a2)
      else if sa_family a1 = AF_INET6 then Some (sa_addr6 a1 = sa_addr6 a2 \<and> sa_port a1 = sa_port a2)
      else None)"

definition link_socket_actual_defined :: "sockaddr \<Rightarrow> bool" where
  "link_socket_actual_defined a = addr_defined a"

definition link_socket_actual_match :: "sockaddr \<Rightarrow> sockaddr \<Rightarrow> bool option" where
  "link_socket_actual_match a1 a2 = addr_port_match a1 a2"

subsection \<open>The TLS library\<close>

text \<open>
  What \<open>BIO_write\<close> answers, and the operations of a TLS object of type \<open>'s\<close>. During an
  operation the library may call back \<open>verify_cert\<close>, which sets \<open>session->verified\<close>, the common name and the certificate
  hashes of the session; \<open>ssl_verified\<close> is what they were set to
  by the last operation, if they were.
\<close>

datatype bio_wrote = Wrote_retry | Wrote_error | Wrote int

record 's ssl_lib =
  ssl_new :: "bool \<Rightarrow> 's"
  ssl_write_ct :: "'s \<Rightarrow> byte list \<Rightarrow> 's \<times> bio_wrote"
  ssl_read_ct :: "'s \<Rightarrow> int \<Rightarrow> 's \<times> bio_result"
  ssl_write_pt :: "'s \<Rightarrow> byte list \<Rightarrow> 's \<times> bio_wrote"
  ssl_read_pt :: "'s \<Rightarrow> int \<Rightarrow> 's \<times> bio_result"
  ssl_verified :: "'s \<Rightarrow> (bool \<times> byte list option \<times> byte list option list option) option"

subsection \<open>State\<close>

datatype tls_wrap_mode = TLS_WRAP_NONE | TLS_WRAP_AUTH | TLS_WRAP_CRYPT

record tls_wrap_ctx =
  tw_mode :: tls_wrap_mode
  tw_keys :: key_ctx_bi
  tw_opt :: crypto_options
  tw_work :: buffer

record 's key_state =
  ks_state :: int
  ks_key_id :: int
  ks_ssl :: "'s option"
  ks_established :: time_t
  ks_must_negotiate :: time_t
  ks_must_die :: time_t
  ks_initial_opcode :: int
  ks_session_id_remote :: session_id
  ks_remote_addr :: sockaddr
  ks_keys :: key_ctx_bi
  ks_crypto :: crypto_options
  ks_key_src :: "key_source2 option"
  ks_plaintext_read_buf :: buffer
  ks_plaintext_write_buf :: buffer
  ks_ack_write_buf :: buffer
  ks_send_reliable :: "reliable option"
  ks_rec_reliable :: "reliable option"
  ks_rec_ack :: "reliable_ack option"
  ks_paybuf :: "byte list list"
  ks_n_bytes :: int
  ks_n_packets :: int
  ks_authenticated :: bool
  ks_auth_deferred_expire :: time_t
  ks_auth_deferred :: bool
  ks_auth_control_file :: bool
  ks_auth_control_status :: nat
  ks_mda_status :: nat

text \<open>The members of \<open>struct tls_options\<close> that the modelled code reads.\<close>

record tls_options =
  to_key_type :: key_type
  to_server :: bool
  to_xmit_hold :: bool
  to_local_options :: "byte list"
  to_remote_options :: "byte list"
  to_key_method :: int
  to_replay :: bool
  to_single_session :: bool
  to_disable_occ :: bool
  to_mode_server :: bool
  to_pull :: bool
  to_transition_window :: int
  to_handshake_window :: int
  to_packet_timeout :: int
  to_renegotiate_bytes :: int
  to_renegotiate_packets :: int
  to_renegotiate_seconds :: int
  to_crypto_flags :: u32
  to_replay_window :: int
  to_replay_time :: int
  to_config_ciphername :: "byte list"
  to_ncp_enabled :: bool
  to_tls_wrap :: tls_wrap_ctx
  to_frame :: frame
  to_ssl_flags :: u32
  to_auth_token_generate :: bool
  to_auth_token_lifetime :: int

record 's tls_session =
  ts_burst :: bool
  ts_tls_wrap :: tls_wrap_ctx
  ts_initial_opcode :: int
  ts_session_id :: session_id
  ts_key_id :: int
  ts_verified :: bool
  ts_untrusted_addr :: sockaddr
  ts_common_name :: "byte list option"
  ts_cert_hash_set :: "byte list option list option"
  ts_primary :: "'s key_state"
  ts_lame :: "'s key_state"

record 's tls_multi =
  tm_opt :: tls_options
  tm_save_ks :: "nat option"
  tm_to_link_addr :: sockaddr
  tm_n_sessions :: int
  tm_n_hard_errors :: int
  tm_n_soft_errors :: int
  tm_tas_last :: time_t
  tm_peer_info :: "byte list option"
  tm_peer_id :: u32
  tm_remote_ciphername :: "byte list option"
  tm_locked_cn :: "byte list option"
  tm_locked_username :: "byte list option"
  tm_locked_cert_hash_set :: "byte list option list option"
  tm_auth_token :: "byte list option"
  tm_auth_token_tstamp :: time_t
  tm_auth_token_sent :: bool
  tm_session :: "'s tls_session list"

text \<open>What \<open>CLEAR\<close> and \<open>ALLOC_OBJ_CLEAR\<close> leave.\<close>

definition zero_crypto_options :: crypto_options where
  "zero_crypto_options = \<lparr>co_packet_id = packet_id_clear, co_pid_persist = None, co_flags = 0\<rparr>"

definition zero_tls_wrap :: tls_wrap_ctx where
  "zero_tls_wrap = \<lparr>tw_mode = TLS_WRAP_NONE, tw_keys = zero_key_ctx_bi, tw_opt = zero_crypto_options, tw_work = clear_buf\<rparr>"

definition zero_key_state :: "'s key_state" where
  "zero_key_state = \<lparr>ks_state = S_UNDEF, ks_key_id = 0, ks_ssl = None, ks_established = 0, ks_must_negotiate = 0,
     ks_must_die = 0, ks_initial_opcode = 0, ks_session_id_remote = x_session_id_zero, ks_remote_addr = zero_sockaddr,
     ks_keys = zero_key_ctx_bi, ks_crypto = zero_crypto_options, ks_key_src = None, ks_plaintext_read_buf = clear_buf,
     ks_plaintext_write_buf = clear_buf, ks_ack_write_buf = clear_buf, ks_send_reliable = None,
     ks_rec_reliable = None, ks_rec_ack = None, ks_paybuf = [], ks_n_bytes = 0, ks_n_packets = 0,
     ks_authenticated = False, ks_auth_deferred_expire = 0, ks_auth_deferred = False, ks_auth_control_file = False,
     ks_auth_control_status = 0, ks_mda_status = 0\<rparr>"

definition zero_session :: "'s tls_session" where
  "zero_session = \<lparr>ts_burst = False, ts_tls_wrap = zero_tls_wrap, ts_initial_opcode = 0, ts_session_id = x_session_id_zero,
     ts_key_id = 0, ts_verified = False, ts_untrusted_addr = zero_sockaddr,
     ts_common_name = None, ts_cert_hash_set = None, ts_primary = zero_key_state, ts_lame = zero_key_state\<rparr>"

text \<open>The places \<open>key_scan\<close> points to.\<close>

definition scan_key :: "'s tls_multi \<Rightarrow> nat \<Rightarrow> 's key_state" where
  "scan_key m i =
     (if i = 0 then ts_primary (tm_session m ! TM_ACTIVE)
      else if i = 1 then ts_lame (tm_session m ! TM_ACTIVE)
      else ts_lame (tm_session m ! TM_LAME_DUCK))"

definition scan_update :: "nat \<Rightarrow> ('s key_state \<Rightarrow> 's key_state) \<Rightarrow> 's tls_multi \<Rightarrow> 's tls_multi" where
  "scan_update i f m =
     (let s = (if i \<le> 1 then TM_ACTIVE else TM_LAME_DUCK); ses = tm_session m ! s in
      m\<lparr>tm_session := (tm_session m)[s :=
        (if i = 0 then ses\<lparr>ts_primary := f (ts_primary ses)\<rparr> else ses\<lparr>ts_lame := f (ts_lame ses)\<rparr>)]\<rparr>)"

definition DECRYPT_KEY_ENABLED :: "'s tls_multi \<Rightarrow> 's key_state \<Rightarrow> bool" where
  "DECRYPT_KEY_ENABLED m ks \<longleftrightarrow> ks_state ks \<ge> S_GOT_KEY - (if to_server (tm_opt m) then 1 else 0)"

subsection \<open>Frames and limits\<close>

definition tls_limit_reneg_bytes :: "cipher_kt option \<Rightarrow> int \<Rightarrow> int" where
  "tls_limit_reneg_bytes cipher reneg_bytes =
     (case cipher of None \<Rightarrow> reneg_bytes
      | Some ck \<Rightarrow> if ck_block_size ck < 128 div 8 \<and> reneg_bytes = -1 then 64 * 1024 * 1024 else reneg_bytes)"

definition tls_adjust_frame_parameters :: "frame \<Rightarrow> frame" where
  "tls_adjust_frame_parameters f = frame_add_to_extra_frame f 1"

definition reliable_ack_adjust_frame_parameters :: "frame \<Rightarrow> int \<Rightarrow> frame" where
  "reliable_ack_adjust_frame_parameters f m = frame_add_to_extra_frame f (ACK_SIZE m)"

definition tls_init_control_channel_frame_parameters :: "frame \<Rightarrow> frame \<Rightarrow> frame option" where
  "tls_init_control_channel_frame_parameters data_channel_frame f = do {
     let f = f\<lparr>link_mtu := link_mtu data_channel_frame, extra_link := extra_link data_channel_frame\<rparr>;
     let f = tls_adjust_frame_parameters f;
     let f = reliable_ack_adjust_frame_parameters f CONTROL_SEND_ACK_MAX;
     let f = frame_add_to_extra_frame f (SID_SIZE + 4);
     c_assert (TUN_LINK_DELTA f < min (link_mtu f) 1250);
     Some (f\<lparr>link_mtu_dynamic := min (link_mtu f) 1250 - TUN_LINK_DELTA f\<rparr>)
   }"

text \<open>Changing one session of a tunnel, or its primary key.\<close>

abbreviation ses_at :: "'s tls_multi \<Rightarrow> nat \<Rightarrow> 's tls_session" where
  "ses_at m i \<equiv> tm_session m ! i"

abbreviation prim_at :: "'s tls_multi \<Rightarrow> nat \<Rightarrow> 's key_state" where
  "prim_at m i \<equiv> ts_primary (ses_at m i)"

definition upd_ses :: "nat \<Rightarrow> ('s tls_session \<Rightarrow> 's tls_session) \<Rightarrow> 's tls_multi \<Rightarrow> 's tls_multi" where
  "upd_ses i f m = m\<lparr>tm_session := (tm_session m)[i := f (ses_at m i)]\<rparr>"

definition upd_prim :: "nat \<Rightarrow> ('s key_state \<Rightarrow> 's key_state) \<Rightarrow> 's tls_multi \<Rightarrow> 's tls_multi" where
  "upd_prim i f m = upd_ses i (\<lambda>ses. ses\<lparr>ts_primary := f (ts_primary ses)\<rparr>) m"

lemma upd_ses_nth [simp]:
  "i < length (tm_session m) \<Longrightarrow> ses_at (upd_ses i f m) i = f (ses_at m i)"
  "i \<noteq> j \<Longrightarrow> ses_at (upd_ses i f m) j = ses_at m j"
  "length (tm_session (upd_ses i f m)) = length (tm_session m)"
  by (simp_all add: upd_ses_def)

lemma upd_ses_fields [simp]:
  "tm_opt (upd_ses i f m) = tm_opt m" "tm_locked_cn (upd_ses i f m) = tm_locked_cn m"
  "tm_locked_username (upd_ses i f m) = tm_locked_username m" "tm_locked_cert_hash_set (upd_ses i f m) = tm_locked_cert_hash_set m"
  "tm_auth_token (upd_ses i f m) = tm_auth_token m" "tm_auth_token_tstamp (upd_ses i f m) = tm_auth_token_tstamp m"
  "tm_auth_token_sent (upd_ses i f m) = tm_auth_token_sent m"
  by (simp_all add: upd_ses_def)

subsection \<open>Key states\<close>

definition next_key_id :: "int \<Rightarrow> int" where
  "next_key_id i = (let i = (i + 1) AND P_KEY_ID_MASK in if i = 0 then 1 else i)"

definition key_state_init :: "'s ssl_lib \<Rightarrow> tls_options \<Rightarrow> 's tls_session \<Rightarrow> ('s tls_session \<times> 's key_state) option" where
  "key_state_init lib opt ses = do {
     let key_id = ts_key_id ses;
     let ks = zero_key_state\<lparr>ks_ssl := Some (ssl_new lib (to_server opt)), ks_initial_opcode := ts_initial_opcode ses,
                ks_state := S_INITIAL, ks_key_id := key_id, ks_key_src := Some zero_key_source2, ks_rec_ack := Some ack_empty\<rparr>;
     let ses = ses\<lparr>ts_initial_opcode := P_CONTROL_SOFT_RESET_V1, ts_key_id := next_key_id key_id\<rparr>;
     rb \<leftarrow> alloc_buf TLS_CHANNEL_BUF_SIZE;
     wb \<leftarrow> alloc_buf TLS_CHANNEL_BUF_SIZE;
     ab \<leftarrow> alloc_buf (BUF_SIZE (to_frame opt));
     snd \<leftarrow> reliable_init (BUF_SIZE (to_frame opt)) (FRAME_HEADROOM (to_frame opt)) TLS_RELIABLE_N_SEND_BUFFERS
              (if key_id \<noteq> 0 then False else to_xmit_hold opt);
     rec \<leftarrow> reliable_init (BUF_SIZE (to_frame opt)) (FRAME_HEADROOM (to_frame opt)) TLS_RELIABLE_N_REC_BUFFERS False;
     pid \<leftarrow> (if to_replay opt then packet_id_init (to_replay_window opt) (to_replay_time opt) else Some packet_id_clear);
     Some (ses, ks\<lparr>ks_plaintext_read_buf := rb, ks_plaintext_write_buf := wb, ks_ack_write_buf := ab,
       ks_send_reliable := Some (reliable_set_timeout snd (to_packet_timeout opt)), ks_rec_reliable := Some rec,
       ks_crypto := zero_crypto_options\<lparr>co_packet_id := pid\<rparr>\<rparr>)
   }"

text \<open>Freed memory is not read again: what remains of a key state that is not cleared is its state and its plain members.\<close>

definition key_state_free :: "'s key_state \<Rightarrow> bool \<Rightarrow> 's key_state" where
  "key_state_free ks clear =
     (if clear then zero_key_state
      else ks\<lparr>ks_state := S_UNDEF, ks_ssl := None, ks_keys := free_key_ctx_bi (ks_keys ks), ks_plaintext_read_buf := clear_buf,
        ks_plaintext_write_buf := clear_buf, ks_ack_write_buf := clear_buf, ks_paybuf := [], ks_send_reliable := None,
        ks_rec_reliable := None, ks_rec_ack := None, ks_key_src := None, ks_auth_control_file := False,
        ks_crypto := (ks_crypto ks)\<lparr>co_packet_id := packet_id_free (co_packet_id (ks_crypto ks))\<rparr>\<rparr>)"

definition key_state_soft_reset :: "'s ssl_lib \<Rightarrow> tls_options \<Rightarrow> time_t \<Rightarrow> 's tls_session \<Rightarrow> 's tls_session option" where
  "key_state_soft_reset lib opt local_now ses = do {
     let ks = (ts_primary ses)\<lparr>ks_must_die := local_now + to_transition_window opt\<rparr>;
     let ses = ses\<lparr>ts_lame := ks\<rparr>;
     (ses, ks) \<leftarrow> key_state_init lib opt ses;
     Some (ses\<lparr>ts_primary := ks\<lparr>ks_session_id_remote := ks_session_id_remote (ts_lame ses),
                               ks_remote_addr := ks_remote_addr (ts_lame ses)\<rparr>\<rparr>)
   }"

subsection \<open>Sessions\<close>

text \<open>
  \<open>sid\<close> is the session id that \<open>session_id_random\<close> settles on: the loop draws until the id is not zero.
\<close>

definition tls_session_init :: "'s ssl_lib \<Rightarrow> tls_options \<Rightarrow> session_id \<Rightarrow> 's tls_session option" where
  "tls_session_init lib opt sid = do {
     c_assert (to_key_method opt \<ge> 1);
     let opcode = (if to_key_method opt = 1
                   then (if to_server opt then P_CONTROL_HARD_RESET_SERVER_V1 else P_CONTROL_HARD_RESET_CLIENT_V1)
                   else (if to_server opt then P_CONTROL_HARD_RESET_SERVER_V2 else P_CONTROL_HARD_RESET_CLIENT_V2));
     work \<leftarrow> alloc_buf (BUF_SIZE (to_frame opt));
     pid \<leftarrow> packet_id_init (to_replay_window opt) (to_replay_time opt);
     let wrap = to_tls_wrap opt;
     let pid = packet_id_persist_load_obj (co_pid_persist (tw_opt wrap)) pid;
     let wrap = wrap\<lparr>tw_work := work, tw_opt := (tw_opt wrap)\<lparr>co_packet_id := pid\<rparr>\<rparr>;
     let ses = zero_session\<lparr>ts_session_id := sid, ts_initial_opcode := opcode, ts_tls_wrap := wrap\<rparr>;
     (ses, ks) \<leftarrow> key_state_init lib opt ses;
     Some (ses\<lparr>ts_primary := ks\<rparr>)
   }"

definition tls_session_free :: "'s tls_session \<Rightarrow> bool \<Rightarrow> 's tls_session" where
  "tls_session_free ses clear =
     (if clear then zero_session
      else ses\<lparr>ts_tls_wrap := (ts_tls_wrap ses)\<lparr>tw_work := clear_buf\<rparr>,
        ts_primary := key_state_free (ts_primary ses) False, ts_lame := key_state_free (ts_lame ses) False\<rparr>)"

definition move_session :: "'s ssl_lib \<Rightarrow> session_id \<Rightarrow> 's tls_multi \<Rightarrow> nat \<Rightarrow> nat \<Rightarrow> bool \<Rightarrow> 's tls_multi option" where
  "move_session lib sid m dest src reinit_src = do {
     c_assert (src \<noteq> dest);
     c_assert (src < TM_SIZE);
     c_assert (dest < TM_SIZE);
     let m = m\<lparr>tm_session := (tm_session m)[dest := tm_session m ! src]\<rparr>;
     ses \<leftarrow> (if reinit_src then tls_session_init lib (tm_opt m) sid else Some zero_session);
     Some (m\<lparr>tm_session := (tm_session m)[src := ses]\<rparr>)
   }"

definition reset_session :: "'s ssl_lib \<Rightarrow> session_id \<Rightarrow> 's tls_multi \<Rightarrow> nat \<Rightarrow> 's tls_multi option" where
  "reset_session lib sid m i = do {
     ses \<leftarrow> tls_session_init lib (tm_opt m) sid;
     Some (m\<lparr>tm_session := (tm_session m)[i := ses]\<rparr>)
   }"

definition compute_earliest_wakeup :: "int \<Rightarrow> int \<Rightarrow> int" where
  "compute_earliest_wakeup earliest seconds_from_now =
     (let earliest = (if seconds_from_now < earliest then seconds_from_now else earliest)
      in if earliest < 0 then 0 else earliest)"

definition lame_duck_must_die :: "time_t \<Rightarrow> 's tls_session \<Rightarrow> int \<Rightarrow> (int \<times> bool) option" where
  "lame_duck_must_die local_now ses wakeup =
     (let lame = ts_lame ses in
      if ks_state lame \<ge> S_INITIAL then do {
        c_assert (ks_must_die lame \<noteq> 0);
        if local_now < ks_must_die lame
        then Some (compute_earliest_wakeup wakeup (ks_must_die lame - local_now), False)
        else Some (wakeup, True)
      } else Some (wakeup, ks_state lame = S_ERROR))"

definition tls_multi_init :: "tls_options \<Rightarrow> 's tls_multi" where
  "tls_multi_init opt = \<lparr>tm_opt = opt, tm_save_ks = None, tm_to_link_addr = zero_sockaddr, tm_n_sessions = 0,
     tm_n_hard_errors = 0, tm_n_soft_errors = 0, tm_tas_last = 0, tm_peer_info = None, tm_peer_id = 0,
     tm_remote_ciphername = None, tm_locked_cn = None, tm_locked_username = None, tm_locked_cert_hash_set = None,
     tm_auth_token = None, tm_auth_token_tstamp = 0, tm_auth_token_sent = False, tm_session = replicate TM_SIZE zero_session\<rparr>"

definition tls_multi_init_finalize :: "'s ssl_lib \<Rightarrow> session_id \<Rightarrow> session_id \<Rightarrow> 's tls_multi \<Rightarrow> frame \<Rightarrow> 's tls_multi option" where
  "tls_multi_init_finalize lib sid1 sid2 m data_frame = do {
     f \<leftarrow> tls_init_control_channel_frame_parameters data_frame (to_frame (tm_opt m));
     let m = m\<lparr>tm_opt := (tm_opt m)\<lparr>to_frame := f\<rparr>\<rparr>;
     m \<leftarrow> reset_session lib sid1 m TM_ACTIVE;
     if \<not> to_single_session (tm_opt m) then reset_session lib sid2 m TM_UNTRUSTED else Some m
   }"

end
