(* ===== verification/Control_Auth.thy ===== *)
theory Control_Auth
  imports Tls_State
begin

text \<open>
  ssl.c: the outer layer of control packets. \<open>write_control_auth\<close> puts the acknowledgement record, the session id and the opcode in
  front of a packet and protects it as the session asks: not at all, with an HMAC (tls-auth) or
  with tls-crypt; \<open>read_control_auth\<close> takes the protection off a packet that arrives.
\<close>

subsection \<open>The HMAC of tls-auth\<close>

definition SWAP_BUF_SIZE :: int where "SWAP_BUF_SIZE = 256"

text \<open>The HMAC and the packet id trade places with the opcode and the session id.\<close>

definition swap_hmac :: "key_ctx_bi \<Rightarrow> buffer \<Rightarrow> bool \<Rightarrow> (buffer \<times> bool) option" where
  "swap_hmac keys buf arriving = do {
     hm \<leftarrow> kc_hmac (if arriving then kb_decrypt keys else kb_encrypt keys);
     let hsize = hmac_size hm + packet_id_size True;
     let osid_size = 1 + SID_SIZE;
     let e1 = (if arriving then osid_size else hsize);
     let e2 = (if arriving then hsize else osid_size);
     c_assert (e1 \<le> SWAP_BUF_SIZE \<and> e2 \<le> SWAP_BUF_SIZE);
     if b_len buf \<ge> e1 + e2 then do {
       b \<leftarrow> buf_bptr buf;
       buf1 \<leftarrow> load_at buf b e1;
       buf2 \<leftarrow> load_at buf (b + e1) e2;
       buf \<leftarrow> store_at buf b buf2;
       buf \<leftarrow> store_at buf (b + e2) buf1;
       Some (buf, True)
     } else Some (buf, False)
   }"

subsection \<open>Writing\<close>

text \<open>The result: the wrapping state, the acknowledgements left, the packet, and the address to send to, if any.\<close>

definition write_control_auth ::
  "time_t \<Rightarrow> 's tls_session \<Rightarrow> 's key_state \<Rightarrow> buffer \<Rightarrow> int \<Rightarrow> int \<Rightarrow> bool \<Rightarrow>
   (tls_wrap_ctx \<times> reliable_ack \<times> buffer \<times> sockaddr option) option" where
  "write_control_auth local_now ses ks buf opcode max_ack prepend_ack = do {
     let header = (word_of_int (ks_key_id ks OR push_bit P_OPCODE_SHIFT opcode) :: byte);
     let wrap = ts_tls_wrap ses;
     c_assert (link_socket_actual_defined (ks_remote_addr ks));
     ack \<leftarrow> ks_rec_ack ks;
     (ack, buf, ok) \<leftarrow> reliable_ack_write ack buf (ks_session_id_remote ks) max_ack prepend_ack;
     c_assert ok;
     buf \<leftarrow>
       (if tw_mode wrap = TLS_WRAP_AUTH \<or> tw_mode wrap = TLS_WRAP_NONE then do {
          (buf, ok) \<leftarrow> session_id_write_prepend (ts_session_id ses) buf;
          c_assert ok;
          (buf, ok) \<leftarrow> buf_write_prepend buf [header];
          c_assert ok;
          Some buf
        } else Some buf);
     (case tw_mode wrap of
        TLS_WRAP_AUTH \<Rightarrow> do {
          (opt, buf) \<leftarrow> openvpn_encrypt [] local_now (kb_encrypt (tw_keys wrap)) (tw_opt wrap) buf clear_buf;
          (buf, ok) \<leftarrow> swap_hmac (tw_keys wrap) buf False;
          c_assert ok;
          Some (wrap\<lparr>tw_opt := opt\<rparr>, ack, buf, Some (ks_remote_addr ks))
        }
      | TLS_WRAP_CRYPT \<Rightarrow> do {
          let (work, ok) = buf_init (tw_work wrap) (b_offset buf);
          c_assert ok;
          (work, ok) \<leftarrow> buf_write work [header];
          c_assert ok;
          (work, ok) \<leftarrow> session_id_write (ts_session_id ses) work;
          c_assert ok;
          (opt, work, ok) \<leftarrow> tls_crypt_wrap local_now (kb_encrypt (tw_keys wrap)) (tw_opt wrap) buf work;
          let wrap = wrap\<lparr>tw_opt := opt, tw_work := work\<rparr>;
          if ok then Some (wrap, ack, work, Some (ks_remote_addr ks))
          else Some (wrap, ack, buf\<lparr>b_len := 0\<rparr>, None)
        }
      | TLS_WRAP_NONE \<Rightarrow> Some (wrap, ack, buf, Some (ks_remote_addr ks)))
   }"

subsection \<open>Reading\<close>

text \<open>\<open>openvpn_decrypt\<close> gets no frame here: a context with a cipher would follow a null pointer.\<close>

definition null_frame :: frame where
  "null_frame = \<lparr>link_mtu = 0, link_mtu_dynamic = 0, extra_frame = 0, extra_buffer = 0, extra_tun = 0, extra_link = 0,
     align_flags = 0, align_adjust = 0\<rparr>"

definition read_control_auth :: "time_t \<Rightarrow> tls_wrap_ctx \<Rightarrow> buffer \<Rightarrow> (tls_wrap_ctx \<times> buffer \<times> bool) option" where
  "read_control_auth local_now wrap buf =
     (case tw_mode wrap of
        TLS_WRAP_AUTH \<Rightarrow> do {
          (buf, ok) \<leftarrow> swap_hmac (tw_keys wrap) buf True;
          if \<not> ok then Some (wrap, buf, False)
          else do {
            c_assert (kc_cipher (kb_decrypt (tw_keys wrap)) = None);
            (opt, buf, _) \<leftarrow> openvpn_decrypt local_now (kb_decrypt (tw_keys wrap)) (tw_opt wrap) buf clear_buf null_frame (b_offset buf);
            let wrap = wrap\<lparr>tw_opt := opt\<rparr>;
            if b_len buf = 0 then Some (wrap, buf, False)
            else Some (wrap, fst (buf_advance buf (SID_SIZE + 1)), True)
          }
        }
      | TLS_WRAP_CRYPT \<Rightarrow> do {
          tmp \<leftarrow> alloc_buf (buf_forward_capacity_total buf);
          (opt, tmp, ok) \<leftarrow> tls_crypt_unwrap local_now (kb_decrypt (tw_keys wrap)) (tw_opt wrap) buf tmp;
          let wrap = wrap\<lparr>tw_opt := opt\<rparr>;
          if \<not> ok then Some (wrap, buf, False)
          else do {
            let (buf, ok) = buf_init buf (b_offset buf);
            c_assert ok;
            (buf, ok) \<leftarrow> buf_copy buf tmp;
            c_assert ok;
            Some (wrap, buf, True)
          }
        }
      | TLS_WRAP_NONE \<Rightarrow> Some (wrap, fst (buf_advance buf (SID_SIZE + 1)), True))"

subsection \<open>tls-auth\<close>

lemma swap_hmac_spec:
  assumes "buf_ok b" "content b = xs @ ys @ zs" "kc_hmac (if arriving then kb_decrypt keys else kb_encrypt keys) = Some hm"
    "0 \<le> hmac_size hm" "hmac_size hm + 8 \<le> 256"
    "int (length xs) = (if arriving then 9 else hmac_size hm + 8)" "int (length ys) = (if arriving then hmac_size hm + 8 else 9)"
  shows "\<exists>b'. swap_hmac keys b arriving = Some (b', True) \<and> buf_ok b' \<and> content b' = ys @ xs @ zs"
proof -
  have lb: "b_len b = int (length (xs @ ys @ zs))" using buf_ok_len [OF assms(1)] assms(2) by simp
  have x: "load_at b (b_offset b) (int (length xs)) = Some xs" by (rule load_prefix [OF assms(1,2) refl])
  have y: "load_at b (b_offset b + int (length xs)) (int (length ys)) = Some ys"
    using load_slice [OF assms(1), of "length xs" "length ys"] assms(2) by simp
  have "content b = [] @ take (length ys) (xs @ ys @ zs) @ drop (length ys) (xs @ ys @ zs)" using assms(2) by (simp only: append_take_drop_id append_Nil)
  moreover have "length (take (length ys) (xs @ ys @ zs)) = length ys" "b_offset b = b_offset b + int (length ([] :: byte list))" by simp_all
  ultimately obtain b1 where b1: "store_at b (b_offset b) ys = Some b1" "buf_ok b1"
    "content b1 = [] @ ys @ drop (length ys) (xs @ ys @ zs)" "b_offset b1 = b_offset b" "b_capacity b1 = b_capacity b"
    by (rule store_inside [OF assms(1)])
  define r where "r = drop (length ys) (xs @ ys @ zs)"
  have lr: "length r = length xs + length zs" by (simp add: r_def)
  have zs: "drop (length xs) r = zs" by (simp add: r_def add.commute)
  have "content b1 = ys @ r" using b1(3) by (simp only: r_def append_Nil)
  also have "r = take (length xs) r @ zs" using append_take_drop_id [of "length xs" r] by (simp add: zs)
  finally have "content b1 = ys @ take (length xs) r @ zs" .
  moreover have "length (take (length xs) r) = length xs" "b_offset b + int (length ys) = b_offset b1 + int (length ys)" using b1(4) lr by simp_all
  ultimately obtain b2 where b2: "store_at b1 (b_offset b + int (length ys)) xs = Some b2" "buf_ok b2"
    "content b2 = ys @ xs @ zs" "b_offset b2 = b_offset b1" "b_capacity b2 = b_capacity b1"
    by (rule store_inside [OF b1(2)])
  have "swap_hmac keys b arriving = Some (b2, True)"
    using assms(3-7) lb x y b1(1) b2(1) buf_ok_valid [OF assms(1)]
    by (cases arriving) (simp_all add: swap_hmac_def packet_id_size_def SID_SIZE_def SWAP_BUF_SIZE_def buf_bptr_def)
  then show ?thesis using b2 by blast
qed

lemma buf_prepend_room:
  assumes "buf_ok b" "0 \<le> n" "nat n \<le> headroom b"
  obtains b' gap where "buf_prepend b n = (b', Some (b_offset b - n))" "buf_ok b'" "content b' = gap @ content b"
    "int (length gap) = n" "b_offset b' = b_offset b - n"
proof -
  obtain pre body post where b: "b_data b = Some (pre @ body @ post)" "b_offset b = int (length pre)"
    "b_len b = int (length body)" "b_capacity b = int (length pre + length body + length post)"
    "content b = body" "b_capacity b < BUF_SIZE_MAX"
    using assms(1) by (rule buf_ok_cases)
  have "nat n \<le> length pre" using assms(3) b by simp
  then have pre: "pre = take (length pre - nat n) pre @ drop (length pre - nat n) pre" "length (drop (length pre - nat n) pre) = nat n" by simp_all
  define us gap where "us = take (length pre - nat n) pre" and "gap = drop (length pre - nat n) pre"
  have ug: "pre = us @ gap" "int (length gap) = n" using pre assms(2) by (simp_all add: us_def gap_def)
  define b' where "b' = b\<lparr>b_offset := b_offset b - n, b_len := b_len b + n\<rparr>"
  have "b_data b' = Some (us @ (gap @ body) @ post)" "b_offset b' = int (length us)" "b_len b' = int (length (gap @ body))"
    "b_capacity b' = int (length us + length (gap @ body) + length post)" "b_capacity b' < BUF_SIZE_MAX"
    using b ug by (simp_all add: b'_def)
  note ok = buf_okI [OF this]
  have "buf_prepend b n = (b', Some (b_offset b - n))"
    using assms b buf_ok_valid [OF ok(1)] by (auto simp: buf_prepend_def b'_def Let_def buf_bptr_def)
  then show thesis using that [of b' gap] ok b ug by (simp add: b'_def)
qed

definition tls_auth_key :: "hmac_ctx \<Rightarrow> key_ctx \<Rightarrow> bool" where
  "tls_auth_key hm ctx \<longleftrightarrow> kc_cipher ctx = None \<and> kc_hmac ctx = Some hm \<and> 0 < hmac_size hm \<and> hmac_size hm + 8 \<le> 256 \<and>
     (\<forall>bs. int (length (hmac_of hm bs)) = hmac_size hm)"

abbreviation pid_wire :: "packet_id_send \<Rightarrow> byte list" where
  "pid_wire q \<equiv> be32 (send_id q) @ be32 (word_of_int (send_time q))"

lemma encrypt_auth_spec:
  assumes key: "tls_auth_key hm ctx" and opt: "pid_initialized opt" "co_flags opt AND CO_PACKET_ID_LONG_FORM \<noteq> 0"
    and id: "packet_id_send_update ts (pid_send (co_packet_id opt)) True = (q, True)"
    and buf: "buf_ok buf" "content buf = x" "x \<noteq> []" "nat (hmac_size hm) + 8 \<le> headroom buf"
  shows "\<exists>b. openvpn_encrypt [] ts ctx opt buf clear_buf = Some (packet_id_of opt q, b) \<and> buf_ok b \<and>
    content b = hmac_of hm (pid_wire q @ x) @ pid_wire q @ x"
proof -
  note k = key [unfolded tls_auth_key_def]
  have kc: "kc_cipher ctx = None" "kc_hmac ctx = Some hm" "0 \<le> hmac_size hm" using k by simp_all
  have "length (be32 (word_of_int (send_time q) :: u32)) \<le> headroom buf" using buf(4) by simp
  from buf.push_fits [OF buf(1) this] obtain b1 where b1: "buf_write_prepend buf (be32 (word_of_int (send_time q))) = Some (b1, True)" "buf_ok b1"
    "content b1 = be32 (word_of_int (send_time q)) @ content buf" "headroom b1 = headroom buf - length (be32 (word_of_int (send_time q) :: u32))"
    by blast
  have "length (be32 (send_id q)) \<le> headroom b1" using b1(4) buf(4) by simp
  from buf.push_fits [OF b1(2) this] obtain b2 where b2: "buf_write_prepend b1 (be32 (send_id q)) = Some (b2, True)" "buf_ok b2"
    "content b2 = be32 (send_id q) @ content b1" "headroom b2 = headroom b1 - length (be32 (send_id q))"
    by blast
  have c2: "content b2 = pid_wire q @ x" using b1(3) b2(3) buf(2) by simp
  have wid: "packet_id_write ts (pid_send (co_packet_id opt)) buf True True = Some (q, b2, True)"
    using b1(1) b2(1) by (simp add: packet_id_write_def id Let_def)
  have "nat (hmac_size hm) \<le> headroom buf - 8" using buf(4) by arith
  then have "nat (hmac_size hm) \<le> headroom b2" using b1(4) b2(4) by simp
  from buf_prepend_room [OF b2(2) kc(3) this] obtain b3 gap where
    b3: "buf_prepend b2 (hmac_size hm) = (b3, Some (b_offset b2 - hmac_size hm))" "buf_ok b3" "content b3 = gap @ content b2"
      "int (length gap) = hmac_size hm" "b_offset b3 = b_offset b2 - hmac_size hm" by blast
  define mac where "mac = hmac_of hm (pid_wire q @ x)"
  have lm: "int (length mac) = hmac_size hm" using k by (simp add: mac_def)
  have signed: "load_at b3 (b_offset b2) (buf_bend b3 - b_offset b2) = Some (pid_wire q @ x)"
  proof -
    have "buf_bend b3 - b_offset b2 = int (length (pid_wire q @ x))" "b_offset b2 = b_offset b3 + int (length gap)"
      using buf_ok_len [OF b3(2)] b3(3-5) c2 by (simp_all add: buf_bend_def)
    then show ?thesis using load_slice [OF b3(2), of "length gap" "length (pid_wire q @ x)"] b3(3) c2 by simp
  qed
  have "content b3 = [] @ gap @ content b2" "length gap = length mac" "b_offset b2 - hmac_size hm = b_offset b3 + int (length ([] :: byte list))"
    using b3 lm by simp_all
  then obtain b where b: "store_at b3 (b_offset b2 - hmac_size hm) mac = Some b" "buf_ok b" "content b = [] @ mac @ content b2"
    "b_offset b = b_offset b3" "b_capacity b = b_capacity b3"
    by (rule store_inside [OF b3(2)])
  have "b_len buf > 0" using buf_ok_len [OF buf(1)] buf(2,3) by simp
  moreover have "buf_bytes clear_buf = Some []" by (simp add: buf_bytes_def buf_bptr_def buf_valid_def clear_buf_def)
  ultimately have "openvpn_encrypt [] ts ctx opt buf clear_buf = Some (packet_id_of opt q, b)"
    using kc(1,2) opt wid b3(1) signed b(1) mac_def [symmetric]
    by (simp add: openvpn_encrypt_def mode_aead_def openvpn_encrypt_v1_def Let_def)
  then show ?thesis using b(2,3) c2 by (auto simp: mac_def)
qed

lemma decrypt_auth_spec:
  assumes key: "tls_auth_key hm ctx" and flags: "co_flags opt AND CO_PACKET_ID_LONG_FORM \<noteq> 0" "co_flags opt AND CO_IGNORE_PACKET_ID = 0"
    and buf: "buf_ok b" "content b = hmac_of hm (be32 i @ be32 t @ x) @ be32 i @ be32 t @ x"
    and check: "crypto_check_replay ts opt \<lparr>net_id = i, net_time = uint t\<rparr> = Some (opt', fresh)"
  shows "\<exists>b'. openvpn_decrypt ts ctx opt b clear_buf null_frame ad = Some (opt', b', fresh) \<and> buf_ok b' \<and>
    content b' = (if fresh then x else [])"
proof -
  note k = key [unfolded tls_auth_key_def]
  define mac where "mac = hmac_of hm (be32 i @ be32 t @ x)"
  have kc: "kc_cipher ctx = None" "kc_hmac ctx = Some hm" and lm: "int (length mac) = hmac_size hm" "0 < hmac_size hm" using k by (simp_all add: mac_def)
  have c: "content b = mac @ be32 i @ be32 t @ x" using buf(2) by (simp add: mac_def)
  have lb: "b_len b = hmac_size hm + 8 + int (length x)" using buf_ok_len [OF buf(1)] c lm by simp
  have signed: "load_at b (b_offset b + hmac_size hm) (b_len b - hmac_size hm) = Some (be32 i @ be32 t @ x)"
    using load_slice [OF buf(1), of "length mac" "length (be32 i @ be32 t @ x)"] c lm lb by simp
  have hash: "load_at b (b_offset b) (hmac_size hm) = Some mac" using load_prefix [OF buf(1) c] lm by simp
  have cmp: "memcmp_constant_time mac mac = 0" by (simp add: memcmp_constant_time_iff)
  define b1 where "b1 = b\<lparr>b_offset := b_offset b + hmac_size hm, b_len := b_len b - hmac_size hm\<rparr>"
  have nl: "nat (hmac_size hm) = length mac" using lm by linarith
  have b1: "buf_advance b (hmac_size hm) = (b1, True)" "buf_ok b1" "content b1 = be32 i @ be32 t @ x"
    using buf_advance_content [OF buf(1), of "hmac_size hm"] c lm nl by (simp_all add: b1_def)
  have "content b1 = be32 i @ (if True then be32 t else []) @ x" using b1(3) by simp
  from packet_id_read_content [OF b1(2) this] obtain b2 where b2:
    "packet_id_read b1 True = Some (\<lparr>net_id = i, net_time = uint t\<rparr>, b2, True)" "buf_ok b2" "content b2 = x" by auto
  have "\<not> b_len b < hmac_size hm" "b_len b > 0" using lb lm by simp_all
  then have "openvpn_decrypt ts ctx opt b clear_buf null_frame ad =
      (if fresh then Some (opt', b2, True) else Some (opt', b1\<lparr>b_len := 0\<rparr>, False))"
    using kc flags b1(1) signed hash cmp b2(1) check check_replay_initialized [OF check]
    by (simp add: openvpn_decrypt_def mode_aead_def openvpn_decrypt_v1_def decrypt_v1_text_def Let_def crypt_error_def mac_def)
  moreover have "buf_ok (b1\<lparr>b_len := 0\<rparr>)" using b1(2) by (auto simp: buf_ok_def split: option.splits)
  ultimately show ?thesis using b2 by (cases fresh) auto
qed

subsection \<open>What arrives\<close>

text \<open>The packet without its protection: the acknowledgements and the message behind opcode and session id.\<close>

lemma read_none_spec:
  assumes "buf_ok b" "content b = hb # sid @ x" "length sid = 8" "tw_mode w = TLS_WRAP_NONE"
  shows "\<exists>b'. read_control_auth ts w b = Some (w, b', True) \<and> buf_ok b' \<and> content b' = x"
  using buf_advance_content [OF assms(1), of 9] assms by (auto simp: read_control_auth_def SID_SIZE_def)

lemma read_auth_spec:
  assumes w: "tw_mode w = TLS_WRAP_AUTH" "tls_auth_key hm (kb_decrypt (tw_keys w))"
    "co_flags (tw_opt w) AND CO_PACKET_ID_LONG_FORM \<noteq> 0" "co_flags (tw_opt w) AND CO_IGNORE_PACKET_ID = 0"
    and b: "buf_ok b" "content b = h @ (hmac_of hm (be32 i @ be32 t @ h @ x) @ be32 i @ be32 t) @ x" "length h = 9"
    and check: "crypto_check_replay ts (tw_opt w) \<lparr>net_id = i, net_time = uint t\<rparr> = Some (opt', fresh)"
  shows "\<exists>b'. read_control_auth ts w b = Some (w\<lparr>tw_opt := opt'\<rparr>, b', fresh) \<and> (fresh \<longrightarrow> buf_ok b' \<and> content b' = x)"
proof -
  note k = w(2) [unfolded tls_auth_key_def]
  have "0 \<le> hmac_size hm" "hmac_size hm + 8 \<le> 256" "kc_hmac (if True then kb_decrypt (tw_keys w) else kb_encrypt (tw_keys w)) = Some hm"
    "int (length h) = (if True then 9 else hmac_size hm + 8)"
    "int (length (hmac_of hm (be32 i @ be32 t @ h @ x) @ be32 i @ be32 t)) = (if True then hmac_size hm + 8 else 9)"
    using k b(3) by simp_all
  from swap_hmac_spec [OF b(1,2) this(3,1,2,4,5)] obtain b1 where b1: "swap_hmac (tw_keys w) b True = Some (b1, True)" "buf_ok b1"
    "content b1 = hmac_of hm (be32 i @ be32 t @ h @ x) @ be32 i @ be32 t @ h @ x" by auto
  obtain b2 where b2: "openvpn_decrypt ts (kb_decrypt (tw_keys w)) (tw_opt w) b1 clear_buf null_frame (b_offset b1) = Some (opt', b2, fresh)"
    "buf_ok b2" "content b2 = (if fresh then h @ x else [])"
    using decrypt_auth_spec [OF w(2-4) b1(2,3) check] by blast
  have len: "b_len b2 = (if fresh then int (length (h @ x)) else 0)" using buf_ok_len [OF b2(2)] b2(3) by simp
  have kc: "kc_cipher (kb_decrypt (tw_keys w)) = None" using k by simp
  show ?thesis
  proof (cases fresh)
    case True
    then have "buf_advance b2 9 = (b2\<lparr>b_offset := b_offset b2 + 9, b_len := b_len b2 - 9\<rparr>, True)"
      "content (b2\<lparr>b_offset := b_offset b2 + 9, b_len := b_len b2 - 9\<rparr>) = x" "buf_ok (b2\<lparr>b_offset := b_offset b2 + 9, b_len := b_len b2 - 9\<rparr>)"
      using buf_advance_content [OF b2(2), of 9] b2(3) b(3) by simp_all
    then show ?thesis using w(1) b1(1) b2(1) kc True len b(3) by (simp add: read_control_auth_def SID_SIZE_def)
  next
    case False
    then show ?thesis using w(1) b1(1) b2(1) kc len by (simp add: read_control_auth_def)
  qed
qed

lemma read_crypt_spec:
  assumes w: "tw_mode w = TLS_WRAP_CRYPT" "tls_crypt_key c hm (kb_decrypt (tw_keys w))" "co_flags (tw_opt w) AND CO_IGNORE_PACKET_ID = 0"
    and pkt: "buf_ok b" "content b = pkt" "authentic_text c hm pkt = Some p" "wire_pin pkt = pin" "length pkt = length p + 49"
    and check: "crypto_check_replay ts (tw_opt w) pin = Some (opt', fresh)"
  shows "\<exists>b'. read_control_auth ts w b = Some (w\<lparr>tw_opt := opt'\<rparr>, b', fresh) \<and> (fresh \<longrightarrow> buf_ok b' \<and> content b' = p)"
proof -
  have ft: "buf_forward_capacity_total b = int (length (content b) + tailroom b)" "int (length (content b) + tailroom b) < BUF_SIZE_MAX"
    using pkt(1) by (rule buf_ok_cases, simp add: buf_forward_capacity_total_def tailroom_def buf_valid_def)+
  then have "0 \<le> buf_forward_capacity_total b" "buf_forward_capacity_total b < BUF_SIZE_MAX" by simp_all
  then obtain tmp where tmp: "alloc_buf (buf_forward_capacity_total b) = Some tmp" "buf_ok tmp" "content tmp = []" "headroom tmp = 0"
    "tailroom tmp = nat (buf_forward_capacity_total b)" "b_capacity tmp = buf_forward_capacity_total b"
    by (rule alloc_buf_ok)
  have "pkt \<noteq> []" "length pkt \<le> tailroom tmp" using pkt(2,5) tmp(5) ft(1) by auto
  with unwrap_spec [OF w(2) check_replay_initialized [OF check] w(3) pkt(1,2) _ tmp(2,3), of ts] pkt(3,4) check
  obtain b1 where r: "tls_crypt_unwrap ts (kb_decrypt (tw_keys w)) (tw_opt w) b tmp = Some (opt', b1, fresh)"
    "buf_ok b1" "content b1 = (if fresh then p else [])" by auto
  show ?thesis
  proof (cases fresh)
    case False
    then show ?thesis using w(1) tmp(1) r(1) by (simp add: read_control_auth_def)
  next
    case True
    then have b1: "buf_ok b1" "content b1 = p" using r(2,3) by simp_all
    have off: "0 \<le> b_offset b" "b_offset b \<le> b_capacity b" using pkt(1) by (auto elim: buf_ok_cases)
    from pkt(1) off obtain b2 where b2: "buf_init b (b_offset b) = (b2, True)" "buf_ok b2" "content b2 = []" "headroom b2 = nat (b_offset b)"
      "tailroom b2 = nat (b_capacity b - b_offset b)" "b_capacity b2 = b_capacity b" by (rule buf_init_ok)
    have "length p \<le> tailroom b2" using pkt(1,2,5) b2(5) by (auto elim!: buf_ok_cases)
    from buf_write_room [OF b2(2) this] obtain b3 where b3: "buf_write b2 p = Some (b3, True)" "buf_ok b3" "content b3 = content b2 @ p" by blast
    have "buf_copy b2 b1 = Some (b3, True)" using b3(1) buf_bytes_content [OF b1(1)] b1(2) by (simp add: buf_copy_def)
    then show ?thesis using w(1) tmp(1) r(1) b2(1,3) b3(2,3) True by (simp add: read_control_auth_def)
  qed
qed

subsection \<open>Both ends of a control packet\<close>

lemma ack_write_frame:
  assumes "reliable_ack_write ack b sid m prepend = Some (ack', b', True)"
  shows "b_capacity b' = b_capacity b \<and> (if prepend then b_offset b' + b_len b' = b_offset b + b_len b else b_offset b' = b_offset b)"
proof -
  define n where "n = (if uint (word_of_int (ra_len ack) :: byte) > m then word_of_int m else (word_of_int (ra_len ack) :: byte))"
  obtain b1 sub p where sub: "buf_sub b (ACK_SIZE (uint n)) prepend = Some (b1, sub, p)"
    using assms by (auto simp: reliable_ack_write_def n_def Let_def split: Option.bind_splits)
  have "b' = b1 \<or> (\<exists>s. buf_sub_put b1 p s = Some b')"
    using assms sub unfolding reliable_ack_write_def n_def [symmetric] Let_def
    by (simp split: Option.bind_splits if_splits prod.splits) (metis option.inject prod.inject)+
  then have "b_capacity b' = b_capacity b1" "b_offset b' = b_offset b1" "b_len b' = b_len b1"
    by (auto simp: buf_sub_put_def store_at_def bind_eq_Some_conv)
  then show ?thesis
    using sub by (auto simp: buf_sub_def buf_prepend_def buf_write_alloc_def Let_def split: Option.bind_splits option.splits if_splits)
qed

definition control_header :: "'s key_state \<Rightarrow> int \<Rightarrow> byte" where
  "control_header ks opcode = word_of_int (ks_key_id ks OR push_bit P_OPCODE_SHIFT opcode)"

text \<open>The two wrapping states of a session fit: same mode, and what one end protects the other verifies.\<close>

definition wraps_fit :: "tls_wrap_ctx \<Rightarrow> tls_wrap_ctx \<Rightarrow> bool" where
  "wraps_fit w v \<longleftrightarrow> tw_mode v = tw_mode w \<and>
     (tw_mode w \<noteq> TLS_WRAP_NONE \<longrightarrow> pid_initialized (tw_opt w) \<and>
        co_flags (tw_opt w) AND CO_PACKET_ID_LONG_FORM \<noteq> 0 \<and> co_flags (tw_opt v) AND CO_PACKET_ID_LONG_FORM \<noteq> 0 \<and>
        co_flags (tw_opt v) AND CO_IGNORE_PACKET_ID = 0) \<and>
     (tw_mode w = TLS_WRAP_AUTH \<longrightarrow> (\<exists>hm. tls_auth_key hm (kb_encrypt (tw_keys w)) \<and> tls_auth_key hm (kb_decrypt (tw_keys v)))) \<and>
     (tw_mode w = TLS_WRAP_CRYPT \<longrightarrow> (\<exists>c hm. tls_crypt_key c hm (kb_encrypt (tw_keys w)) \<and> tls_crypt_key c hm (kb_decrypt (tw_keys v))))"

text \<open>Room for the protection: in front of the packet, and in the work buffer of tls-crypt.\<close>

definition wrap_room :: "tls_wrap_ctx \<Rightarrow> nat \<Rightarrow> nat" where
  "wrap_room w n = (case tw_mode w of
     TLS_WRAP_NONE \<Rightarrow> 9
   | TLS_WRAP_AUTH \<Rightarrow> 17 + (case kc_hmac (kb_encrypt (tw_keys w)) of Some hm \<Rightarrow> nat (hmac_size hm) | None \<Rightarrow> 0)
   | TLS_WRAP_CRYPT \<Rightarrow> 0)"

lemma opcode_prepend:
  assumes "buf_ok b" "9 \<le> headroom b" "sid_ok sid"
  obtains b1 b2 where "session_id_write_prepend sid b = Some (b1, True)" "buf_write_prepend b1 [h] = Some (b2, True)"
    "buf_ok b2" "content b2 = (h # sid_id sid) @ content b" "headroom b2 = headroom b - 9"
proof -
  have "length (sid_id sid) \<le> headroom b" "length (sid_id sid) = 8" using assms(2,3) by (simp_all add: sid_ok_def)
  from buf.push_fits [OF assms(1) this(1)] this(2) obtain b1 where b1: "buf_write_prepend b (sid_id sid) = Some (b1, True)" "buf_ok b1"
    "content b1 = sid_id sid @ content b" "headroom b1 = headroom b - 8" by metis
  have "length [h] \<le> headroom b1" using b1(4) assms(2) by simp
  from buf.push_fits [OF b1(2) this] obtain b2 where b2: "buf_write_prepend b1 [h] = Some (b2, True)" "buf_ok b2"
    "content b2 = [h] @ content b1" "headroom b2 = headroom b1 - length [h]" by metis
  show thesis using that [of b1 b2] b1 b2 by (simp add: session_id_write_prepend_def)
qed

lemma write_control_spec:
  fixes opcode :: int
  assumes ack: "ks_rec_ack ks = Some ack" "ack_ok ack" "0 \<le> max_ack" "max_ack < 256"
    "k = min (length (ack_ids ack)) (nat max_ack)"
    and sid: "sid_ok (ks_session_id_remote ks)" "session_id_defined (ks_session_id_remote ks)" "sid_ok (ts_session_id ses)"
    and addr: "link_socket_actual_defined (ks_remote_addr ks)"
    and wrap: "w = ts_tls_wrap ses" "wraps_fit w v"
    and id: "tw_mode w \<noteq> TLS_WRAP_NONE \<Longrightarrow> packet_id_send_update ts (pid_send (co_packet_id (tw_opt w))) True = (q, True)"
    and buf: "buf_ok buf" "nat (ACK_SIZE (int k)) + wrap_room w (length (content buf)) \<le> headroom buf"
    and work: "tw_mode w = TLS_WRAP_CRYPT \<Longrightarrow> buf_ok (tw_work w) \<and> b_capacity (tw_work w) = b_capacity buf \<and>
      length (content buf) + nat (ACK_SIZE (int k)) + 65 \<le> nat (b_capacity buf - (b_offset buf - ACK_SIZE (int k)))"
  defines "msg \<equiv> ack_wire (ks_session_id_remote ks) (take k (ack_ids ack)) @ content buf"
    and "h \<equiv> control_header ks opcode # sid_id (ts_session_id ses)"
  shows "\<exists>w' ack' b. write_control_auth ts ses ks buf opcode max_ack True = Some (w', ack', b, Some (ks_remote_addr ks)) \<and>
    ack_ok ack' \<and> ack_ids ack' = drop k (ack_ids ack) \<and> buf_ok b \<and>
    (tw_mode w = TLS_WRAP_NONE \<longrightarrow> content b = h @ msg) \<and>
    (\<forall>hm. tw_mode w = TLS_WRAP_AUTH \<longrightarrow> kc_hmac (kb_encrypt (tw_keys w)) = Some hm \<longrightarrow>
      content b = h @ (hmac_of hm (pid_wire q @ h @ msg) @ pid_wire q) @ msg) \<and>
    (\<forall>c hm. tw_mode w = TLS_WRAP_CRYPT \<longrightarrow> tls_crypt_key c hm (kb_encrypt (tw_keys w)) \<longrightarrow> content b = tls_wrapped c hm h q msg)"
proof -
  note fit = wrap(2) [unfolded wraps_fit_def]
  have room: "nat (ACK_SIZE (int k)) \<le> (if True then headroom buf else tailroom buf)" using buf(2) by simp
  obtain ack' b1 where b1: "reliable_ack_write ack buf (ks_session_id_remote ks) max_ack True = Some (ack', b1, True)" "ack_ok ack'" "buf_ok b1"
    "ack_ids ack' = drop k (ack_ids ack)" "content b1 = msg"
    using reliable_ack_write_spec [OF ack(2) buf(1) sid(1,2) ack(3,4,5) room] by (auto simp: msg_def)
  have k8: "length (take k (ack_ids ack)) \<le> 8" using ack(2) by (simp add: ack_ids_def ack_ok_def RELIABLE_ACK_SIZE_def)
  have "length (take k (ack_ids ack)) = k" using ack(5) by simp
  then have aw: "length (ack_wire (ks_session_id_remote ks) (take k (ack_ids ack))) = nat (ACK_SIZE (int k))"
    using ack_record_room [OF k8 sid(1)] by simp
  have pos: "0 \<le> ACK_SIZE (int k)" by (simp add: ACK_SIZE_def SID_SIZE_def)
  have geo: "b_capacity b1 = b_capacity buf" "b_offset b1 = b_offset buf - ACK_SIZE (int k)"
    using ack_write_frame [OF b1(1)] buf_ok_len [OF buf(1)] buf_ok_len [OF b1(3)] b1(5) aw pos by (simp_all add: msg_def)
  have hr: "wrap_room w (length (content buf)) \<le> headroom b1"
    using geo(2) buf(2) pos by simp
  have hh: "word_of_int (ks_key_id ks OR push_bit P_OPCODE_SHIFT opcode) = control_header ks opcode" by (simp add: control_header_def)
  consider "tw_mode w = TLS_WRAP_NONE" | "tw_mode w = TLS_WRAP_AUTH" | "tw_mode w = TLS_WRAP_CRYPT" by (cases "tw_mode w") auto
  then show ?thesis
  proof cases
    case 1
    then have "9 \<le> headroom b1" using hr by (simp add: wrap_room_def)
    then obtain b2 b3 where b3: "session_id_write_prepend (ts_session_id ses) b1 = Some (b2, True)"
      "buf_write_prepend b2 [control_header ks opcode] = Some (b3, True)" "buf_ok b3"
      "content b3 = (control_header ks opcode # sid_id (ts_session_id ses)) @ content b1" "headroom b3 = headroom b1 - 9"
      using opcode_prepend [OF b1(3) _ sid(3)] by metis
    then show ?thesis using 1 addr ack(1) b1 wrap(1)
      by (simp add: write_control_auth_def hh h_def)
  next
    case 2
    then obtain hm where hm: "tls_auth_key hm (kb_encrypt (tw_keys w))" using fit by blast
    note kk = hm [unfolded tls_auth_key_def]
    have hk: "kc_hmac (kb_encrypt (tw_keys w)) = Some hm" using kk by simp
    have "17 + nat (hmac_size hm) \<le> headroom b1" using hr 2 hk by (simp add: wrap_room_def)
    then have "9 \<le> headroom b1" and r2: "nat (hmac_size hm) + 8 \<le> headroom b1 - 9" by simp_all
    then obtain b2 b3 where b3: "session_id_write_prepend (ts_session_id ses) b1 = Some (b2, True)"
      "buf_write_prepend b2 [control_header ks opcode] = Some (b3, True)" "buf_ok b3"
      "content b3 = (control_header ks opcode # sid_id (ts_session_id ses)) @ content b1" "headroom b3 = headroom b1 - 9"
      using opcode_prepend [OF b1(3) _ sid(3)] by metis
    have c3: "content b3 = h @ msg" "h @ msg \<noteq> []" using b3(4) b1(5) by (simp_all add: h_def)
    have o: "pid_initialized (tw_opt w)" "co_flags (tw_opt w) AND CO_PACKET_ID_LONG_FORM \<noteq> 0" using fit 2 by simp_all
    have r3: "nat (hmac_size hm) + 8 \<le> headroom b3" using r2 b3(5) by simp
    have "tw_mode w \<noteq> TLS_WRAP_NONE" using 2 by simp
    from encrypt_auth_spec [OF hm o id [OF this] b3(3) c3 r3] obtain b4 where
      b4: "openvpn_encrypt [] ts (kb_encrypt (tw_keys w)) (tw_opt w) b3 clear_buf = Some (packet_id_of (tw_opt w) q, b4)" "buf_ok b4"
      "content b4 = hmac_of hm (pid_wire q @ h @ msg) @ pid_wire q @ h @ msg" by blast
    have "content b4 = (hmac_of hm (pid_wire q @ h @ msg) @ pid_wire q) @ h @ msg" using b4(3) by simp
    moreover have "kc_hmac (if False then kb_decrypt (tw_keys w) else kb_encrypt (tw_keys w)) = Some hm" "0 \<le> hmac_size hm" "hmac_size hm + 8 \<le> 256"
      "int (length (hmac_of hm (pid_wire q @ h @ msg) @ pid_wire q)) = (if False then 9 else hmac_size hm + 8)"
      "int (length h) = (if False then hmac_size hm + 8 else 9)"
      using kk sid(3) by (simp_all add: h_def sid_ok_def)
    ultimately obtain b5 where b5: "swap_hmac (tw_keys w) b4 False = Some (b5, True)" "buf_ok b5"
      "content b5 = h @ (hmac_of hm (pid_wire q @ h @ msg) @ pid_wire q) @ msg"
      using swap_hmac_spec [OF b4(2)] by blast
    show ?thesis using 2 addr ack(1) b1 wrap(1) b3(1,2) b4(1) b5 hk by (simp add: write_control_auth_def hh Let_def)
  next
    case 3
    then obtain c hm where ch: "tls_crypt_key c hm (kb_encrypt (tw_keys w))" using fit by blast
    have wk: "buf_ok (tw_work w)" "b_capacity (tw_work w) = b_capacity buf" using work [OF 3] by simp_all
    have off: "0 \<le> b_offset b1" "b_offset b1 \<le> b_capacity (tw_work w)"
      using b1(3) geo(1) wk(2) by (auto elim!: buf_ok_cases)
    from wk(1) off obtain w0 where w0: "buf_init (tw_work w) (b_offset b1) = (w0, True)" "buf_ok w0" "content w0 = []"
      "headroom w0 = nat (b_offset b1)" "tailroom w0 = nat (b_capacity (tw_work w) - b_offset b1)" "b_capacity w0 = b_capacity (tw_work w)"
      by (rule buf_init_ok)
    have tr: "length msg + 65 \<le> tailroom w0" using work [OF 3] w0(5) geo(2) aw by (simp add: msg_def)
    have "length [control_header ks opcode] \<le> tailroom w0" using tr by simp
    from buf_write_room [OF w0(2) this] obtain w1 where w1: "buf_write w0 [control_header ks opcode] = Some (w1, True)" "buf_ok w1"
      "content w1 = content w0 @ [control_header ks opcode]" "tailroom w1 = tailroom w0 - length [control_header ks opcode]" by metis
    have s8: "length (sid_id (ts_session_id ses)) = 8" using sid(3) by (simp add: sid_ok_def)
    then have "length (sid_id (ts_session_id ses)) \<le> tailroom w1" using tr w1(4) by simp
    from buf_write_room [OF w1(2) this] obtain w2 where w2: "session_id_write (ts_session_id ses) w1 = Some (w2, True)" "buf_ok w2"
      "content w2 = content w1 @ sid_id (ts_session_id ses)" "tailroom w2 = tailroom w1 - length (sid_id (ts_session_id ses))"
      unfolding session_id_write_def by metis
    have c2: "content w2 = h" "length msg + 56 \<le> tailroom w2" using w2(3,4) w1(3,4) w0(3) tr s8 by (simp_all add: h_def)
    have o: "pid_initialized (tw_opt w)" "tw_mode w \<noteq> TLS_WRAP_NONE" using fit 3 by simp_all
    from wrap_spec [OF ch o(1) id [OF o(2)] b1(3,5) w2(2) c2] obtain b where
      b: "tls_crypt_wrap ts (kb_encrypt (tw_keys w)) (tw_opt w) b1 w2 = Some (packet_id_of (tw_opt w) q, b, True)"
      "buf_ok b" "content b = tls_wrapped c hm h q msg" by blast
    have uniq: "c' = c \<and> hm' = hm" if "tls_crypt_key c' hm' (kb_encrypt (tw_keys w))" for c' hm'
      using that ch by (simp add: tls_crypt_key_def)
    then show ?thesis using 3 addr ack(1) b1 wrap(1) w0(1) w1(1) w2(1) b uniq by (auto simp: write_control_auth_def hh Let_def)
  qed
qed

lemma content_bound: "buf_ok b \<Longrightarrow> int (length (content b)) < BUF_SIZE_MAX"
  by (auto elim!: buf_ok_cases)

lemma read_control_spec:
  fixes h msg :: "byte list"
  assumes fit: "wraps_fit w v" and q: "0 \<le> send_time q" "send_time q < 2 ^ 32" and h: "length h = 9"
    and check: "tw_mode w \<noteq> TLS_WRAP_NONE \<Longrightarrow> crypto_check_replay ts (tw_opt v) \<lparr>net_id = send_id q, net_time = send_time q\<rparr> = Some (opt', fresh)"
    and b: "buf_ok b"
      "tw_mode w = TLS_WRAP_NONE \<Longrightarrow> content b = h @ msg"
      "\<And>hm. tw_mode w = TLS_WRAP_AUTH \<Longrightarrow> kc_hmac (kb_encrypt (tw_keys w)) = Some hm \<Longrightarrow>
        content b = h @ (hmac_of hm (pid_wire q @ h @ msg) @ pid_wire q) @ msg"
      "\<And>c hm. tw_mode w = TLS_WRAP_CRYPT \<Longrightarrow> tls_crypt_key c hm (kb_encrypt (tw_keys w)) \<Longrightarrow> content b = tls_wrapped c hm h q msg"
  shows "\<exists>v' r. read_control_auth ts v b = Some (v', r, tw_mode w = TLS_WRAP_NONE \<or> fresh) \<and>
    (tw_mode w = TLS_WRAP_NONE \<or> fresh \<longrightarrow> buf_ok r \<and> content r = msg)"
proof -
  note f = fit [unfolded wraps_fit_def]
  obtain hb sid where hs: "h = hb # sid" "length sid = 8" using h by (cases h) auto
  consider "tw_mode w = TLS_WRAP_NONE" | "tw_mode w = TLS_WRAP_AUTH" | "tw_mode w = TLS_WRAP_CRYPT" by (cases "tw_mode w") auto
  then show ?thesis
  proof cases
    case 1
    moreover have "content b = hb # sid @ msg" using b(2) [OF 1] hs by simp
    ultimately show ?thesis using read_none_spec [OF b(1) _ hs(2), of hb msg v ts] f by auto
  next
    case 2
    then obtain hm where hm: "tls_auth_key hm (kb_encrypt (tw_keys w))" "tls_auth_key hm (kb_decrypt (tw_keys v))" using f by blast
    then have "kc_hmac (kb_encrypt (tw_keys w)) = Some hm" by (simp add: tls_auth_key_def)
    from b(3) [OF 2 this] have c: "content b = h @ (hmac_of hm (pid_wire q @ h @ msg) @ pid_wire q) @ msg" .
    have c': "content b = h @ (hmac_of hm (be32 (send_id q) @ be32 (word_of_int (send_time q)) @ h @ msg) @
        be32 (send_id q) @ be32 (word_of_int (send_time q))) @ msg" using c by simp
    have "tw_mode v = TLS_WRAP_AUTH" "co_flags (tw_opt v) AND CO_PACKET_ID_LONG_FORM \<noteq> 0" "co_flags (tw_opt v) AND CO_IGNORE_PACKET_ID = 0"
      "crypto_check_replay ts (tw_opt v) \<lparr>net_id = send_id q, net_time = uint (word_of_int (send_time q) :: u32)\<rparr> = Some (opt', fresh)"
      using f 2 check uint_wire_time [OF q] by simp_all
    from read_auth_spec [OF this(1) hm(2) this(2,3) b(1) c' h this(4)] show ?thesis using 2 by auto
  next
    case 3
    then obtain c hm where ch: "tls_crypt_key c hm (kb_encrypt (tw_keys w))" "tls_crypt_key c hm (kb_decrypt (tw_keys v))" using f by blast
    have cb: "content b = tls_wrapped c hm h q msg" using b(4) [OF 3 ch(1)] .
    have "tw_mode v = TLS_WRAP_CRYPT" "co_flags (tw_opt v) AND CO_IGNORE_PACKET_ID = 0"
      "crypto_check_replay ts (tw_opt v) \<lparr>net_id = send_id q, net_time = uint (word_of_int (send_time q) :: u32)\<rparr> = Some (opt', fresh)"
      using f 3 check uint_wire_time [OF q] by simp_all
    from read_crypt_spec [OF this(1) ch(2) this(2) b(1) cb authentic_wrapped [OF ch(2) h] this(3)] show ?thesis using 3 by auto
  qed
qed

text \<open>
  C13. The outer layer of the control channel carries a packet from one end to the other. Under each of the three ways of
  wrapping (none, tls-auth, tls-crypt) with matching keys at the two ends, \<open>write_control_auth\<close> succeeds: it removes the
  oldest acknowledgements that fit from the pending ones, puts them in front of the message, adds opcode, key id and session
  id, and protects the whole. The packet starts with that opcode byte and session id. At the other end
  \<open>read_control_auth\<close> lets it through exactly if it is unprotected or the replay check takes its packet id, and then
  \<open>reliable_ack_read\<close> recovers those acknowledgements and leaves the message.
\<close>

theorem control_auth_roundtrip:
  assumes "ks_rec_ack ks = Some ack" "ack_ok ack" "0 \<le> max_ack" "max_ack < 256" "k = min (length (ack_ids ack)) (nat max_ack)"
    and "sid_ok (ks_session_id_remote ks)" "session_id_defined (ks_session_id_remote ks)" "sid_ok (ts_session_id ses)"
    and "link_socket_actual_defined (ks_remote_addr ks)"
    and "w = ts_tls_wrap ses" "wraps_fit w v"
    and "tw_mode w \<noteq> TLS_WRAP_NONE \<Longrightarrow> packet_id_send_update ts (pid_send (co_packet_id (tw_opt w))) True = (q, True)"
    and "0 \<le> send_time q" "send_time q < 2 ^ 32"
    and "tw_mode w \<noteq> TLS_WRAP_NONE \<Longrightarrow>
      crypto_check_replay ts' (tw_opt v) \<lparr>net_id = send_id q, net_time = send_time q\<rparr> = Some (opt', fresh)"
    and "buf_ok buf" "nat (ACK_SIZE (int k)) + wrap_room w (length (content buf)) \<le> headroom buf"
    and "tw_mode w = TLS_WRAP_CRYPT \<Longrightarrow> buf_ok (tw_work w) \<and> b_capacity (tw_work w) = b_capacity buf \<and>
      length (content buf) + nat (ACK_SIZE (int k)) + 65 \<le> nat (b_capacity buf - (b_offset buf - ACK_SIZE (int k)))"
  shows "\<exists>w' ack' b v' r. write_control_auth ts ses ks buf opcode max_ack True = Some (w', ack', b, Some (ks_remote_addr ks)) \<and>
    ack_ids ack' = drop k (ack_ids ack) \<and>
    take 9 (content b) = word_of_int (ks_key_id ks OR push_bit P_OPCODE_SHIFT opcode) # sid_id (ts_session_id ses) \<and>
    read_control_auth ts' v (packet_buf (content b)) = Some (v', r, tw_mode w = TLS_WRAP_NONE \<or> fresh) \<and>
    (tw_mode w = TLS_WRAP_NONE \<or> fresh \<longrightarrow>
      (\<exists>ack'' r'. reliable_ack_read ack_empty r (ks_session_id_remote ks) = Some (ack'', r', True) \<and>
        ack_ids ack'' = take k (ack_ids ack) \<and> content r' = content buf))"
proof -
  define h where "h = control_header ks opcode # sid_id (ts_session_id ses)"
  define msg where "msg = ack_wire (ks_session_id_remote ks) (take k (ack_ids ack)) @ content buf"
  obtain w' ack' b where wr: "write_control_auth ts ses ks buf opcode max_ack True = Some (w', ack', b, Some (ks_remote_addr ks))"
    "ack_ids ack' = drop k (ack_ids ack)" "buf_ok b" "tw_mode w = TLS_WRAP_NONE \<longrightarrow> content b = h @ msg"
    "\<forall>hm. tw_mode w = TLS_WRAP_AUTH \<longrightarrow> kc_hmac (kb_encrypt (tw_keys w)) = Some hm \<longrightarrow>
      content b = h @ (hmac_of hm (pid_wire q @ h @ msg) @ pid_wire q) @ msg"
    "\<forall>c hm. tw_mode w = TLS_WRAP_CRYPT \<longrightarrow> tls_crypt_key c hm (kb_encrypt (tw_keys w)) \<longrightarrow> content b = tls_wrapped c hm h q msg"
    using write_control_spec [OF assms(1-12,16-18), where opcode = opcode] unfolding h_def msg_def by blast
  have h9: "length h = 9" using assms(8) by (simp add: h_def sid_ok_def)
  have "\<exists>x. content b = h @ x"
  proof (cases "tw_mode w")
    case TLS_WRAP_AUTH
    then show ?thesis using wr(5) assms(11) unfolding wraps_fit_def tls_auth_key_def by blast
  next
    case TLS_WRAP_CRYPT
    then show ?thesis using wr(6) assms(11) unfolding wraps_fit_def tls_wrapped_def Let_def
      by (metis (no_types, lifting) append.assoc prod_cases3 old.prod.case)
  qed (use wr(4) in blast)
  then have t9: "take 9 (content b) = h" using h9 by auto
  note pb = packet_buf_ok [OF content_bound [OF wr(3)]]
  obtain v' r where rd: "read_control_auth ts' v (packet_buf (content b)) = Some (v', r, tw_mode w = TLS_WRAP_NONE \<or> fresh)"
    "tw_mode w = TLS_WRAP_NONE \<or> fresh \<longrightarrow> buf_ok r \<and> content r = msg"
    using read_control_spec [OF assms(11,13,14) h9 assms(15) conjunct1 [OF pb], where msg = msg] wr(4-6) conjunct2 [OF pb] by fastforce
  have "length (take k (ack_ids ack)) \<le> 8" using assms(2) by (simp add: ack_ids_def ack_ok_def RELIABLE_ACK_SIZE_def)
  note ar = reliable_ack_read_spec [OF _ _ this assms(6,7)]
  have "tw_mode w = TLS_WRAP_NONE \<or> fresh \<longrightarrow>
      (\<exists>ack'' r'. reliable_ack_read ack_empty r (ks_session_id_remote ks) = Some (ack'', r', True) \<and>
        ack_ids ack'' = take k (ack_ids ack) \<and> content r' = content buf)"
    using ar [of r "content buf"] rd(2) by (auto simp: msg_def)
  then show ?thesis using wr(1,2) rd(1) t9 by (auto simp: h_def control_header_def)
qed

definition toy_wrap_options :: crypto_options where
  "toy_wrap_options = (sample_options 4 15)\<lparr>co_flags := CO_PACKET_ID_LONG_FORM\<rparr>"

definition toy_wrap :: tls_wrap_ctx where
  "toy_wrap = \<lparr>tw_mode = TLS_WRAP_CRYPT, tw_keys = \<lparr>kb_encrypt = toy_wrap_key, kb_decrypt = toy_wrap_key, kb_initialized = True\<rparr>,
     tw_opt = toy_wrap_options, tw_work = \<lparr>b_capacity = 200, b_offset = 0, b_len = 0, b_data = Some (replicate 200 0)\<rparr>\<rparr>"

definition toy_session :: "unit tls_session" where
  "toy_session = zero_session\<lparr>ts_tls_wrap := toy_wrap, ts_session_id := toy_sid 7\<rparr>"

definition toy_peer :: "unit key_state" where
  "toy_peer = zero_key_state\<lparr>ks_key_id := 2, ks_session_id_remote := sample_sid, ks_rec_ack := Some sample_ack,
     ks_remote_addr := zero_sockaddr\<lparr>sa_family := AF_INET, sa_word := 5\<rparr>\<rparr>"

definition toy_message :: buffer where
  "toy_message = \<lparr>b_capacity = 200, b_offset = 60, b_len = 2, b_data = Some (replicate 200 3)\<rparr>"

lemma toy_wrap_facts:
  "ack_ok sample_ack" "ack_ids sample_ack = [9, 7, 8]" "sid_ok sample_sid" "session_id_defined sample_sid" "sid_ok (toy_sid 7)"
  "buf_ok toy_message" "content toy_message = [3, 3]" "buf_ok (tw_work toy_wrap)" "headroom toy_message = 60"
  by (simp_all add: sample_ack_def ack_ok_def ack_ids_def RELIABLE_ACK_SIZE_def sample_sid_def sid_ok_def session_id_defined_def
      x_session_id_zero_def toy_sid_def toy_message_def toy_wrap_def buf_ok_def content_def BUF_SIZE_MAX_def numeral_eq_Suc)

lemma toy_wraps_fit: "wraps_fit toy_wrap toy_wrap"
proof -
  have "pid_initialized toy_wrap_options" "co_flags toy_wrap_options AND CO_PACKET_ID_LONG_FORM \<noteq> 0"
    "co_flags toy_wrap_options AND CO_IGNORE_PACKET_ID = 0" by code_simp+
  then show ?thesis using toy_wrap_key_ok by (auto simp: wraps_fit_def toy_wrap_def)
qed

lemma control_auth_roundtrip_witness:
  "\<exists>w' ack' b v' r ack'' r'. write_control_auth 50 toy_session toy_peer toy_message P_CONTROL_V1 2 True =
      Some (w', ack', b, Some (ks_remote_addr toy_peer)) \<and> ack_ids ack' = [8] \<and>
    read_control_auth 51 toy_wrap (packet_buf (content b)) = Some (v', r, True) \<and>
    reliable_ack_read ack_empty r sample_sid = Some (ack'', r', True) \<and> ack_ids ack'' = [9, 7] \<and> content r' = [3, 3]"
proof -
  let ?q = "\<lparr>send_id = 1, send_time = 50\<rparr>"
  have id: "packet_id_send_update 50 (pid_send (co_packet_id (tw_opt toy_wrap))) True = (?q, True)" by code_simp
  have "map_option snd (crypto_check_replay 51 (tw_opt toy_wrap) \<lparr>net_id = 1, net_time = 50\<rparr>) = Some True" by code_simp
  then obtain rx' where rx': "crypto_check_replay 51 (tw_opt toy_wrap) \<lparr>net_id = send_id ?q, net_time = send_time ?q\<rparr> = Some (rx', True)"
    by auto
  have k: "2 = min (length (ack_ids sample_ack)) (nat 2)" by (simp add: toy_wrap_facts)
  have s: "ks_rec_ack toy_peer = Some sample_ack" "ks_session_id_remote toy_peer = sample_sid" "ts_session_id toy_session = toy_sid 7"
    "ts_tls_wrap toy_session = toy_wrap" "link_socket_actual_defined (ks_remote_addr toy_peer)"
    by (simp_all add: toy_peer_def toy_session_def link_socket_actual_defined_def addr_defined_def)
  have a: "ACK_SIZE (int 2) = 17" by (simp add: ACK_SIZE_def SID_SIZE_def)
  have room: "nat (ACK_SIZE (int 2)) + wrap_room toy_wrap (length (content toy_message)) \<le> headroom toy_message"
    unfolding a by (simp add: wrap_room_def toy_wrap_def toy_message_def)
  have work: "buf_ok (tw_work toy_wrap) \<and> b_capacity (tw_work toy_wrap) = b_capacity toy_message \<and>
      length (content toy_message) + nat (ACK_SIZE (int 2)) + 65 \<le> nat (b_capacity toy_message - (b_offset toy_message - ACK_SIZE (int 2)))"
    unfolding a by (simp add: toy_wrap_facts) (simp add: toy_wrap_def toy_message_def)
  from control_auth_roundtrip [OF s(1) toy_wrap_facts(1) _ _ k toy_wrap_facts(3,4) [folded s(2)] toy_wrap_facts(5) [folded s(3)] s(5) s(4) [symmetric]
      toy_wraps_fit id _ _ rx' toy_wrap_facts(6) room work, where opcode = P_CONTROL_V1]
  show ?thesis by (simp add: toy_wrap_facts s(2) numeral_2_eq_2) blast
qed

end
