(* ===== verification/Buffer_Text.thy ===== *)
theory Buffer_Text
  imports Buffer Key_Material
begin

text \<open>
  Text in buffer.c and options.c: character classes, the changes made to strings, the text operations on
  buffers, lists of buffers, and the option strings that the two ends of a tunnel compare. A C string is the list of its bytes
  without the terminator, so no byte of it is 0. The \<open>ctype\<close> tests are those of the C locale.
\<close>

subsection \<open>Character classes\<close>

definition isdigit :: "byte \<Rightarrow> bool" where "isdigit c \<longleftrightarrow> 48 \<le> c \<and> c \<le> 57"
definition isalpha :: "byte \<Rightarrow> bool" where "isalpha c \<longleftrightarrow> 65 \<le> c \<and> c \<le> 90 \<or> 97 \<le> c \<and> c \<le> 122"
definition isalnum :: "byte \<Rightarrow> bool" where "isalnum c \<longleftrightarrow> isalpha c \<or> isdigit c"
definition iscntrl :: "byte \<Rightarrow> bool" where "iscntrl c \<longleftrightarrow> c < 32 \<or> c = 127"
definition ispunct :: "byte \<Rightarrow> bool" where "ispunct c \<longleftrightarrow> 32 < c \<and> c < 127 \<and> \<not> isalnum c"
definition isspace :: "byte \<Rightarrow> bool" where "isspace c \<longleftrightarrow> c = 32 \<or> 9 \<le> c \<and> c \<le> 13"
definition isxdigit :: "byte \<Rightarrow> bool" where "isxdigit c \<longleftrightarrow> isdigit c \<or> 65 \<le> c \<and> c \<le> 70 \<or> 97 \<le> c \<and> c \<le> 102"

definition CC_ANY :: u32 where "CC_ANY = push_bit 0 1"
definition CC_NULL :: u32 where "CC_NULL = push_bit 1 1"
definition CC_ALNUM :: u32 where "CC_ALNUM = push_bit 2 1"
definition CC_ALPHA :: u32 where "CC_ALPHA = push_bit 3 1"
definition CC_ASCII :: u32 where "CC_ASCII = push_bit 4 1"
definition CC_CNTRL :: u32 where "CC_CNTRL = push_bit 5 1"
definition CC_DIGIT :: u32 where "CC_DIGIT = push_bit 6 1"
definition CC_PRINT :: u32 where "CC_PRINT = push_bit 7 1"
definition CC_PUNCT :: u32 where "CC_PUNCT = push_bit 8 1"
definition CC_SPACE :: u32 where "CC_SPACE = push_bit 9 1"
definition CC_XDIGIT :: u32 where "CC_XDIGIT = push_bit 10 1"
definition CC_BLANK :: u32 where "CC_BLANK = push_bit 11 1"
definition CC_NEWLINE :: u32 where "CC_NEWLINE = push_bit 12 1"
definition CC_CR :: u32 where "CC_CR = push_bit 13 1"
definition CC_BACKSLASH :: u32 where "CC_BACKSLASH = push_bit 14 1"
definition CC_UNDERBAR :: u32 where "CC_UNDERBAR = push_bit 15 1"
definition CC_DASH :: u32 where "CC_DASH = push_bit 16 1"
definition CC_DOT :: u32 where "CC_DOT = push_bit 17 1"
definition CC_COMMA :: u32 where "CC_COMMA = push_bit 18 1"
definition CC_COLON :: u32 where "CC_COLON = push_bit 19 1"
definition CC_SLASH :: u32 where "CC_SLASH = push_bit 20 1"
definition CC_SINGLE_QUOTE :: u32 where "CC_SINGLE_QUOTE = push_bit 21 1"
definition CC_DOUBLE_QUOTE :: u32 where "CC_DOUBLE_QUOTE = push_bit 22 1"
definition CC_REVERSE_QUOTE :: u32 where "CC_REVERSE_QUOTE = push_bit 23 1"
definition CC_AT :: u32 where "CC_AT = push_bit 24 1"
definition CC_EQUAL :: u32 where "CC_EQUAL = push_bit 25 1"
definition CC_LESS_THAN :: u32 where "CC_LESS_THAN = push_bit 26 1"
definition CC_GREATER_THAN :: u32 where "CC_GREATER_THAN = push_bit 27 1"
definition CC_PIPE :: u32 where "CC_PIPE = push_bit 28 1"
definition CC_QUESTION_MARK :: u32 where "CC_QUESTION_MARK = push_bit 29 1"
definition CC_ASTERISK :: u32 where "CC_ASTERISK = push_bit 30 1"
definition CC_NAME :: u32 where "CC_NAME = CC_ALNUM OR CC_UNDERBAR"
definition CC_CRLF :: u32 where "CC_CRLF = CC_CR OR CC_NEWLINE"

definition char_class :: "byte \<Rightarrow> u32 \<Rightarrow> bool" where
  "char_class c flags \<longleftrightarrow>
     flags \<noteq> 0 \<and>
       (flags AND CC_ANY \<noteq> 0 \<or>
        flags AND CC_NULL \<noteq> 0 \<and> c = 0 \<or>
        flags AND CC_ALNUM \<noteq> 0 \<and> isalnum c \<or>
        flags AND CC_ALPHA \<noteq> 0 \<and> isalpha c \<or>
        flags AND CC_ASCII \<noteq> 0 \<and> c < 128 \<or>
        flags AND CC_CNTRL \<noteq> 0 \<and> iscntrl c \<or>
        flags AND CC_DIGIT \<noteq> 0 \<and> isdigit c \<or>
        flags AND CC_PRINT \<noteq> 0 \<and> 32 \<le> c \<and> c \<noteq> 127 \<or>
        flags AND CC_PUNCT \<noteq> 0 \<and> ispunct c \<or>
        flags AND CC_SPACE \<noteq> 0 \<and> isspace c \<or>
        flags AND CC_XDIGIT \<noteq> 0 \<and> isxdigit c \<or>
        flags AND CC_BLANK \<noteq> 0 \<and> (c = 32 \<or> c = 9) \<or>
        flags AND CC_NEWLINE \<noteq> 0 \<and> c = 10 \<or>
        flags AND CC_CR \<noteq> 0 \<and> c = 13 \<or>
        flags AND CC_BACKSLASH \<noteq> 0 \<and> c = 92 \<or>
        flags AND CC_UNDERBAR \<noteq> 0 \<and> c = 95 \<or>
        flags AND CC_DASH \<noteq> 0 \<and> c = 45 \<or>
        flags AND CC_DOT \<noteq> 0 \<and> c = 46 \<or>
        flags AND CC_COMMA \<noteq> 0 \<and> c = 44 \<or>
        flags AND CC_COLON \<noteq> 0 \<and> c = 58 \<or>
        flags AND CC_SLASH \<noteq> 0 \<and> c = 47 \<or>
        flags AND CC_SINGLE_QUOTE \<noteq> 0 \<and> c = 39 \<or>
        flags AND CC_DOUBLE_QUOTE \<noteq> 0 \<and> c = 34 \<or>
        flags AND CC_REVERSE_QUOTE \<noteq> 0 \<and> c = 96 \<or>
        flags AND CC_AT \<noteq> 0 \<and> c = 64 \<or>
        flags AND CC_EQUAL \<noteq> 0 \<and> c = 61 \<or>
        flags AND CC_LESS_THAN \<noteq> 0 \<and> c = 60 \<or>
        flags AND CC_GREATER_THAN \<noteq> 0 \<and> c = 62 \<or>
        flags AND CC_PIPE \<noteq> 0 \<and> c = 124 \<or>
        flags AND CC_QUESTION_MARK \<noteq> 0 \<and> c = 63 \<or>
        flags AND CC_ASTERISK \<noteq> 0 \<and> c = 42)"

definition char_inc_exc :: "byte \<Rightarrow> u32 \<Rightarrow> u32 \<Rightarrow> bool" where
  "char_inc_exc c inclusive exclusive \<longleftrightarrow> char_class c inclusive \<and> \<not> char_class c exclusive"

fun string_class :: "byte list \<Rightarrow> u32 \<Rightarrow> u32 \<Rightarrow> bool" where
  "string_class [] inclusive exclusive = True"
| "string_class (c # str) inclusive exclusive =
     (if \<not> char_inc_exc c inclusive exclusive then False else string_class str inclusive exclusive)"

text \<open>The changed string, and whether nothing had to be changed.\<close>

fun string_mod :: "byte list \<Rightarrow> u32 \<Rightarrow> u32 \<Rightarrow> byte \<Rightarrow> byte list \<times> bool" where
  "string_mod [] inclusive exclusive rep = ([], True)"
| "string_mod (c # str) inclusive exclusive rep =
     (let ok = char_inc_exc c inclusive exclusive;
          c = (if \<not> ok then rep else c);
          (out, ret) = string_mod str inclusive exclusive rep
      in (if c \<noteq> 0 then c # out else out, ok \<and> ret))"

definition string_mod_const :: "byte list option \<Rightarrow> u32 \<Rightarrow> u32 \<Rightarrow> byte \<Rightarrow> byte list option" where
  "string_mod_const str inclusive exclusive rep = map_option (\<lambda>s. fst (string_mod s inclusive exclusive rep)) str"

fun replace_leading :: "byte list \<Rightarrow> byte \<Rightarrow> byte \<Rightarrow> byte list" where
  "replace_leading [] m rep = []"
| "replace_leading (c # str) m rep = (if c = m then rep # replace_leading str m rep else c # str)"

definition string_replace_leading :: "byte list \<Rightarrow> byte \<Rightarrow> byte \<Rightarrow> byte list option" where
  "string_replace_leading str m rep = do { c_assert (m \<noteq> 0); Some (replace_leading str m rep) }"

fun skip_leading_whitespace :: "byte list \<Rightarrow> byte list" where
  "skip_leading_whitespace [] = []"
| "skip_leading_whitespace (c # str) = (if \<not> (c = 32 \<or> c = 9) then c # str else skip_leading_whitespace str)"

function rm_trailing_chars :: "byte list \<Rightarrow> byte list \<Rightarrow> byte list" where
  "rm_trailing_chars str what =
     (if length str > 0 \<and> last str \<in> set what then rm_trailing_chars (butlast str) what else str)"
  by pat_completeness auto
termination by (relation "measure (\<lambda>(str, what). length str)") auto

declare rm_trailing_chars.simps [simp del]

definition chomp :: "byte list \<Rightarrow> byte list" where
  "chomp str = rm_trailing_chars str [13, 10]"

definition strprefix :: "byte list \<Rightarrow> byte list \<Rightarrow> bool" where
  "strprefix str pre \<longleftrightarrow> take (length pre) str = pre"

subsection \<open>Text in buffers\<close>

definition convert_to_one_line :: "buffer \<Rightarrow> buffer option" where
  "convert_to_one_line b = do {
     p \<leftarrow> buf_bptr b;
     bs \<leftarrow> load_at b p (buf_len b);
     store_at b p (map (\<lambda>c. if c = 10 then 124 else c) bs)
   }"

definition buf_rmtail :: "buffer \<Rightarrow> byte \<Rightarrow> buffer option" where
  "buf_rmtail b c =
     (case buf_blast b of
        None \<Rightarrow> Some b
      | Some p \<Rightarrow> do {
          bs \<leftarrow> load_at b p 1;
          if hd bs = c then do { b \<leftarrow> store_at b p [0]; Some (b\<lparr>b_len := b_len b - 1\<rparr>) } else Some b
        })"

definition buf_null_terminate :: "buffer \<Rightarrow> buffer option" where
  "buf_null_terminate b = do {
     last_char \<leftarrow> (case buf_blast b of None \<Rightarrow> Some None | Some p \<Rightarrow> map_option (\<lambda>bs. Some (hd bs)) (load_at b p 1));
     if last_char = Some 0 then Some b
     else do {
       let b = (if \<not> buf_safe b 1 then fst (buf_inc_len b (-1)) else b);
       (b, _) \<leftarrow> buf_write_u8 b 0;
       Some b
     }
   }"

function chomp_loop :: "buffer \<Rightarrow> buffer option" where
  "chomp_loop b =
     (case buf_blast b of
        None \<Rightarrow> Some b
      | Some p \<Rightarrow>
          (case load_at b p 1 of
             None \<Rightarrow> None
           | Some bs \<Rightarrow>
               if char_class (hd bs) (CC_CRLF OR CC_NULL) then
                 (if \<not> buf_safe_bidir b (-1) then Some b else chomp_loop (b\<lparr>b_len := b_len b - 1\<rparr>))
               else Some b))"
  by pat_completeness auto
termination
  by (relation "measure (\<lambda>b. nat (b_len b))") (auto simp: buf_blast_def buf_len_def split: if_splits)

declare chomp_loop.simps [simp del]

definition buf_chomp :: "buffer \<Rightarrow> buffer option" where
  "buf_chomp b = do { b \<leftarrow> chomp_loop b; buf_null_terminate b }"

definition buf_string_match :: "buffer \<Rightarrow> byte list \<Rightarrow> bool option" where
  "buf_string_match src m =
     (if int (length m) \<noteq> b_len src then Some False
      else do { p \<leftarrow> buf_bptr src; bs \<leftarrow> load_at src p (int (length m)); Some (bs = m) })"

definition buf_string_match_head_str :: "buffer \<Rightarrow> byte list \<Rightarrow> bool option" where
  "buf_string_match_head_str src m =
     (if int (length m) > b_len src then Some False
      else do { p \<leftarrow> buf_bptr src; bs \<leftarrow> load_at src p (int (length m)); Some (bs = m) })"

definition buf_string_compare_advance :: "buffer \<Rightarrow> byte list \<Rightarrow> (buffer \<times> bool) option" where
  "buf_string_compare_advance src m = do {
     eq \<leftarrow> buf_string_match_head_str src m;
     if eq then Some (fst (buf_advance src (int (length m))), True) else Some (src, False)
   }"

fun substring_scan :: "byte list \<Rightarrow> int \<Rightarrow> int \<Rightarrow> int" where
  "substring_scan [] delim i = -1"
| "substring_scan (c # cs) delim i = (if uint c = delim then i + 1 else substring_scan cs delim (i + 1))"

definition buf_substring_len :: "buffer \<Rightarrow> int \<Rightarrow> int option" where
  "buf_substring_len b delim = map_option (\<lambda>bs. substring_scan bs delim 0) (buf_bytes b)"

text \<open>The loop of \<open>buf_parse\<close>: \<open>line\<close> holds the bytes stored so far, \<open>eol\<close> is set when the buffer is exhausted.\<close>

function parse_loop :: "buffer \<Rightarrow> int \<Rightarrow> int \<Rightarrow> byte list \<Rightarrow> bool \<Rightarrow> (buffer \<times> byte list \<times> bool) option" where
  "parse_loop b delim sz line eol =
     (case buf_read_u8 b of
        None \<Rightarrow> None
      | Some (b, c) \<Rightarrow>
          (let eol = (if c < 0 then True else eol);
               c = (if c \<le> 0 \<or> c = delim then 0 else c) in
           if int (length line) \<ge> sz then Some (b, line, eol)
           else if c \<noteq> 0 then parse_loop b delim sz (line @ [word_of_int c]) eol
           else Some (b, line @ [0], eol)))"
  by pat_completeness auto
termination by (relation "measure (\<lambda>(b, delim, sz, line, eol). nat (sz - int (length line)))") auto

declare parse_loop.simps [simp del]

definition buf_parse :: "buffer \<Rightarrow> int \<Rightarrow> int \<Rightarrow> (buffer \<times> byte list \<times> bool) option" where
  "buf_parse b delim sz = do {
     c_assert (sz > 0);
     (b, line, eol) \<leftarrow> parse_loop b delim sz [] False;
     let str = takeWhile (\<lambda>c. c \<noteq> 0) (take (nat (sz - 1)) line);
     Some (b, str, \<not> (eol \<and> str = []))
   }"

subsection \<open>Lists of buffers\<close>

record buffer_list =
  bl_max_size :: nat
  bl_size :: nat
  bl_entries :: "buffer list"

definition buffer_list_new :: "nat \<Rightarrow> buffer_list" where
  "buffer_list_new m = \<lparr>bl_max_size = m, bl_size = 0, bl_entries = []\<rparr>"

definition buffer_list_defined :: "buffer_list \<Rightarrow> bool" where
  "buffer_list_defined ol \<longleftrightarrow> bl_entries ol \<noteq> []"

definition buffer_list_reset :: "buffer_list \<Rightarrow> buffer_list" where
  "buffer_list_reset ol = ol\<lparr>bl_entries := [], bl_size := 0\<rparr>"

text \<open>The new entry is the last one, if there is one.\<close>

definition buffer_list_push_data :: "buffer_list \<Rightarrow> byte list \<Rightarrow> (buffer_list \<times> bool) option" where
  "buffer_list_push_data ol d =
     (if bl_max_size ol = 0 \<or> bl_size ol < bl_max_size ol then do {
        b \<leftarrow> alloc_buf (int (length d));
        b \<leftarrow> store_at b 0 d;
        Some (ol\<lparr>bl_size := bl_size ol + 1, bl_entries := bl_entries ol @ [b\<lparr>b_len := int (length d)\<rparr>]\<rparr>, True)
      } else Some (ol, False))"

definition buffer_list_push :: "buffer_list \<Rightarrow> byte list \<Rightarrow> buffer_list option" where
  "buffer_list_push ol str = do {
     (ol, ok) \<leftarrow> buffer_list_push_data ol (str @ [0]);
     if ok then Some (ol\<lparr>bl_entries := butlast (bl_entries ol) @ [(last (bl_entries ol))\<lparr>b_len := int (length str)\<rparr>]\<rparr>)
     else Some ol
   }"

definition buffer_list_peek :: "buffer_list \<Rightarrow> buffer option" where
  "buffer_list_peek ol = (case bl_entries ol of [] \<Rightarrow> None | b # _ \<Rightarrow> Some b)"

definition buffer_list_pop :: "buffer_list \<Rightarrow> buffer_list" where
  "buffer_list_pop ol = (case bl_entries ol of [] \<Rightarrow> ol | b # bs \<Rightarrow> ol\<lparr>bl_entries := bs, bl_size := bl_size ol - 1\<rparr>)"

definition buffer_list_advance :: "buffer_list \<Rightarrow> int \<Rightarrow> buffer_list option" where
  "buffer_list_advance ol n =
     (case bl_entries ol of
        [] \<Rightarrow> Some ol
      | b # bs \<Rightarrow> do {
          let (b, ok) = buf_advance b n;
          c_assert ok;
          let ol = ol\<lparr>bl_entries := b # bs\<rparr>;
          Some (if buf_len b = 0 then buffer_list_pop ol else ol)
        })"

text \<open>How many entries fit into \<open>max_len\<close> bytes with a separator each, and their sz.\<close>

fun aggregate_count :: "buffer list \<Rightarrow> int \<Rightarrow> int \<Rightarrow> int \<Rightarrow> nat \<Rightarrow> nat \<times> int" where
  "aggregate_count [] max_len sep_len sz count = (count, sz)"
| "aggregate_count (b # bs) max_len sep_len sz count =
     (let extra_len = buf_len b + sep_len in
      if sz + extra_len > max_len then (count, sz)
      else aggregate_count bs max_len sep_len (sz + extra_len) (count + 1))"

fun aggregate_copy :: "buffer \<Rightarrow> buffer list \<Rightarrow> byte list \<Rightarrow> buffer option" where
  "aggregate_copy f [] sep = Some f"
| "aggregate_copy f (b # bs) sep = do {
     (f, _) \<leftarrow> buf_copy f b;
     (f, _) \<leftarrow> buf_write f sep;
     aggregate_copy f bs sep
   }"

text \<open>The new block has one byte more than its capacity, which no operation on the buffer reaches; the model leaves it out.\<close>

definition buffer_list_aggregate_separator :: "buffer_list \<Rightarrow> int \<Rightarrow> byte list \<Rightarrow> buffer_list option" where
  "buffer_list_aggregate_separator bl max_len sep =
     (let (count, sz) = aggregate_count (bl_entries bl) max_len (int (length sep)) 0 0 in
      if count \<ge> 2 then do {
        f \<leftarrow> alloc_buf (sz + 1);
        f \<leftarrow> aggregate_copy (f\<lparr>b_capacity := sz, b_data := map_option butlast (b_data f)\<rparr>) (take count (bl_entries bl)) sep;
        Some (bl\<lparr>bl_entries := f # drop count (bl_entries bl), bl_size := bl_size bl - (count - 1)\<rparr>)
      } else Some bl)"

definition buffer_list_aggregate :: "buffer_list \<Rightarrow> int \<Rightarrow> buffer_list option" where
  "buffer_list_aggregate bl m = buffer_list_aggregate_separator bl m []"

subsection \<open>Option strings\<close>

definition options_cmp_equal_safe :: "byte list \<Rightarrow> byte list \<Rightarrow> bool" where
  "options_cmp_equal_safe actual expected =
     (if actual = [] then True
      else (let str = takeWhile (\<lambda>c. c \<noteq> 0) (butlast actual) in
        if take 2 str \<noteq> take 2 expected then True else str = expected))"

definition options_cmp_equal :: "byte list \<Rightarrow> byte list \<Rightarrow> bool" where
  "options_cmp_equal actual expected = options_cmp_equal_safe (actual @ [0]) expected"

function options_string_extract_option :: "byte list \<Rightarrow> byte list \<Rightarrow> byte list option" where
  "options_string_extract_option p opt_name =
     (let n = length opt_name in
      if take n p = opt_name \<and> length p > n + 1 \<and> p ! n = 32
      then Some (take (length (takeWhile (\<lambda>c. c \<noteq> 44) p) - (n + 1)) (drop (n + 1) p))
      else (case dropWhile (\<lambda>c. c \<noteq> 44) p of
              [] \<Rightarrow> None
            | _ # q \<Rightarrow> options_string_extract_option q opt_name))"
  by pat_completeness auto
termination
proof (relation "measure (\<lambda>(p, opt_name). length p)")
  show "((q, opt_name), (p, opt_name)) \<in> measure (\<lambda>(p, opt_name). length p)"
    if "dropWhile (\<lambda>c. c \<noteq> 44) p = c # q" for p q opt_name :: "byte list" and c n
    using that length_dropWhile_le [of "\<lambda>c. c \<noteq> 44" p] by simp
qed simp

declare options_string_extract_option.simps [simp del]

text \<open>The decimal number at the start of a text, as \<open>sscanf\<close> reads it.\<close>

definition scan_digits :: "byte list \<Rightarrow> int option" where
  "scan_digits ds = (case takeWhile isdigit ds of [] \<Rightarrow> None | ds \<Rightarrow> Some (fold (\<lambda>d v. 10 * v + (uint d - 48)) ds 0))"

definition scan_int :: "byte list \<Rightarrow> int option" where
  "scan_int s =
     (case dropWhile isspace s of
        [] \<Rightarrow> None
      | c # ds \<Rightarrow> if c = 45 then map_option uminus (scan_digits ds) else if c = 43 then scan_digits ds else scan_digits (c # ds))"

fun strstr :: "byte list \<Rightarrow> byte list \<Rightarrow> byte list option" where
  "strstr [] m = (if m = [] then Some [] else None)"
| "strstr (c # s) m = (if take (length m) (c # s) = m then Some (c # s) else strstr s m)"

definition tls_peer_info_ncp_ver :: "byte list option \<Rightarrow> int" where
  "tls_peer_info_ncp_ver peer_info =
     (case Option.bind peer_info (\<lambda>s. strstr s (bytes_of ''IV_NCP='')) of
        None \<Rightarrow> 0
      | Some s \<Rightarrow> (case scan_int (drop 7 s) of Some ncp \<Rightarrow> ncp | None \<Rightarrow> 0))"

text \<open>\<open>strtok\<close> with a single delimiter: the tokens that are not empty.\<close>

fun strtok_list :: "byte \<Rightarrow> byte list \<Rightarrow> byte list \<Rightarrow> byte list list" where
  "strtok_list d acc [] = (if acc = [] then [] else [acc])"
| "strtok_list d acc (c # s) =
     (if c = d then (if acc = [] then strtok_list d [] s else acc # strtok_list d [] s)
      else strtok_list d (acc @ [c]) s)"

definition tls_item_in_cipher_list :: "byte list \<Rightarrow> byte list \<Rightarrow> bool" where
  "tls_item_in_cipher_list item ls \<longleftrightarrow> item \<in> set (strtok_list 58 [] ls)"

subsection \<open>Sanitised strings\<close>

lemma string_mod_len: "length (fst (string_mod s inclusive exclusive rep)) \<le> length s"
  by (induction s) (auto simp: Let_def split: prod.splits)

lemma string_mod_ok: "snd (string_mod s inclusive exclusive rep) = string_class s inclusive exclusive"
  by (induction s) (auto simp: Let_def split: prod.splits)

lemma string_mod_allowed:
  "rep = 0 \<or> char_inc_exc rep inclusive exclusive \<Longrightarrow>
    string_class (fst (string_mod s inclusive exclusive rep)) inclusive exclusive \<and> 0 \<notin> set (fst (string_mod s inclusive exclusive rep))"
  by (induction s) (auto simp: Let_def split: prod.splits)

lemma string_mod_id: "string_class s inclusive exclusive \<Longrightarrow> 0 \<notin> set s \<Longrightarrow> fst (string_mod s inclusive exclusive rep) = s"
  by (induction s) (auto simp: Let_def split: prod.splits if_splits)

lemma rm_trailing_chars_spec: "rm_trailing_chars s what = rev (dropWhile (\<lambda>c. c \<in> set what) (rev s))"
proof (induction s what rule: rm_trailing_chars.induct)
  case (1 s what)
  show ?case
  proof (cases "s = []")
    case False
    then obtain t x where s: "s = t @ [x]" by (metis append_butlast_last_id)
    show ?thesis using 1 by (subst rm_trailing_chars.simps) (auto simp: s)
  qed (simp add: rm_trailing_chars.simps)
qed

subsection \<open>Splitting a buffer at a delimiter\<close>

lemma read_u8_content:
  assumes "buf_ok b" "content b = c # cs"
  obtains b' where "buf_read_u8 b = Some (b', uint c)" "buf_ok b'" "content b' = cs"
proof -
  have "b_len b = int (length (c # cs))" using buf_ok_len [OF assms(1)] assms(2) by simp
  then have l: "\<not> buf_len b < 1" using buf_ok_valid [OF assms(1)] by (simp add: buf_len_def)
  have "content b = [c] @ cs" "(1 :: int) = int (length [c])" using assms(2) by simp_all
  from load_prefix [OF assms(1) this] have "load_at b (b_offset b) 1 = Some [c]" .
  then have "buf_read_u8 b = Some (fst (buf_advance b 1), uint c)"
    using l buf_ok_valid [OF assms(1)] by (simp add: buf_read_u8_def buf_bptr_def)
  moreover have "buf_ok (fst (buf_advance b 1)) \<and> content (fst (buf_advance b 1)) = cs"
    using buf_advance_content [OF assms(1), of 1] assms(2) by auto
  ultimately show thesis using that by blast
qed

lemma read_u8_empty: "buf_ok b \<Longrightarrow> content b = [] \<Longrightarrow> buf_read_u8 b = Some (b, -1)"
  using buf_ok_len by (auto simp: buf_read_u8_def buf_len_def)

lemma parse_loop_spec:
  assumes "buf_ok b" "content b = xs @ rest" "\<forall>c \<in> set xs. c \<noteq> 0 \<and> uint c \<noteq> delim"
    and "rest = [] \<or> hd rest = 0 \<or> uint (hd rest) = delim" "length line + length xs < nat sz"
  shows "\<exists>b'. parse_loop b delim sz line eol = Some (b', line @ xs @ [0], eol \<or> rest = []) \<and> buf_ok b' \<and> content b' = tl rest"
  using assms
proof (induction xs arbitrary: b line)
  case Nil
  have room: "\<not> sz \<le> int (length line)" using Nil.prems(5) by simp
  show ?case
  proof (cases rest)
    case Nil
    then have "buf_read_u8 b = Some (b, -1)" using read_u8_empty [OF Nil.prems(1)] Nil.prems(2) by simp
    then show ?thesis using Nil room Nil.prems(1,2) by (subst parse_loop.simps) (simp add: Let_def)
  next
    case (Cons c cs)
    then obtain b' where b': "buf_read_u8 b = Some (b', uint c)" "buf_ok b'" "content b' = cs"
      using read_u8_content [OF Nil.prems(1), of c cs] Nil.prems(2) by auto
    have "uint c \<le> 0 \<or> uint c = delim" using Nil.prems(4) Cons by auto
    moreover have "\<not> uint c < 0" by (simp add: not_less)
    ultimately show ?thesis using b' room Cons by (subst parse_loop.simps) (auto simp: Let_def)
  qed
next
  case (Cons x xs)
  then obtain b' where b': "buf_read_u8 b = Some (b', uint x)" "buf_ok b'" "content b' = xs @ rest"
    using read_u8_content [OF Cons.prems(1), of x "xs @ rest"] by auto
  have "uint x > 0" using Cons.prems(3) by (metis list.set_intros(1) uint_0_iff uint_ge_0 order_le_less)
  moreover have "uint x \<noteq> delim" "\<not> sz \<le> int (length line)" using Cons.prems(3,5) by simp_all
  ultimately have "parse_loop b delim sz line eol = parse_loop b' delim sz (line @ [x]) eol"
    using b'(1) by (subst parse_loop.simps) (simp add: Let_def)
  then show ?case using Cons.IH [OF b'(2,3), of "line @ [x]"] Cons.prems(3-5) by simp
qed

lemma buf_parse_spec:
  assumes "buf_ok b" "content b = xs @ rest" "\<forall>c \<in> set xs. c \<noteq> 0 \<and> uint c \<noteq> delim"
    and "rest = [] \<or> hd rest = 0 \<or> uint (hd rest) = delim" "length xs < nat sz"
  shows "\<exists>b'. buf_parse b delim sz = Some (b', xs, \<not> (xs = [] \<and> rest = [])) \<and> buf_ok b' \<and> content b' = tl rest"
proof -
  obtain b' where b': "parse_loop b delim sz [] False = Some (b', xs @ [0], rest = [])" "buf_ok b'" "content b' = tl rest"
    using parse_loop_spec [OF assms(1-4), where line = "[]" and sz = sz and eol = False] assms(5) by auto
  have "length xs \<le> nat (sz - 1)" using assms(5) by auto
  moreover have "takeWhile (\<lambda>c. c \<noteq> 0) xs = xs" using assms(3) by (simp add: takeWhile_eq_all_conv)
  ultimately have "takeWhile (\<lambda>c. c \<noteq> 0) (take (nat (sz - 1)) (xs @ [0])) = xs"
    by (cases "nat (sz - 1) - length xs") simp_all
  then show ?thesis using b' assms(5) by (auto simp: buf_parse_def)
qed

text \<open>A line that does not fit loses its last byte and the byte that was read to find that out.\<close>

lemma buf_parse_overlong:
  "map_option (\<lambda>(b, line, ok). (line, content b)) (buf_parse (packet_buf [97, 98, 99, 100, 101, 102]) 44 3) = Some ([97, 98], [101, 102])"
  by code_simp

subsection \<open>Options\<close>

text \<open>An option string: fields between commas, each a name and perhaps a value.\<close>

definition join_fields :: "byte list list \<Rightarrow> byte list" where
  "join_fields fs = (case fs of [] \<Rightarrow> [] | f # fs \<Rightarrow> f @ concat (map (\<lambda>g. 44 # g) fs))"

lemma join_fields_simps [simp]:
  "join_fields [] = []" "join_fields [f] = f" "join_fields (f # g # fs) = f @ 44 # join_fields (g # fs)"
  by (simp_all add: join_fields_def)

lemma extract_option_spec:
  assumes "\<forall>f \<in> set fs. 44 \<notin> set f" "44 \<notin> set opt_name" "v \<noteq> []"
    and "\<forall>f \<in> set pre. take (length opt_name + 1) f \<noteq> opt_name @ [32]" "fs = pre @ (opt_name @ 32 # v) # post"
  shows "options_string_extract_option (join_fields fs) opt_name = Some v"
  using assms
proof (induction pre arbitrary: fs)
  case Nil
  obtain t where t: "join_fields fs = (opt_name @ 32 # v) @ t" "t = [] \<or> hd t = 44"
    using Nil.prems(5) by (cases post) auto
  have "takeWhile (\<lambda>c. c \<noteq> 44) ((opt_name @ 32 # v) @ t) = opt_name @ 32 # v"
    using Nil.prems t(2) by (cases t) (auto simp: takeWhile_append takeWhile_eq_all_conv)
  then show ?case using Nil.prems(3) by (subst options_string_extract_option.simps) (simp add: t(1) Let_def)
next
  case (Cons f pre)
  then obtain g gs where fs: "fs = f # g # gs" "g # gs = pre @ (opt_name @ 32 # v) # post" by (cases pre) auto
  have nc: "44 \<notin> set f" using Cons.prems(1) fs(1) by simp
  have "\<not> (take (length opt_name) (f @ 44 # join_fields (g # gs)) = opt_name \<and>
      (f @ 44 # join_fields (g # gs)) ! length opt_name = 32)"
  proof
    assume a: "take (length opt_name) (f @ 44 # join_fields (g # gs)) = opt_name \<and> (f @ 44 # join_fields (g # gs)) ! length opt_name = 32"
    consider "length opt_name < length f" | "length opt_name = length f" | "length opt_name > length f" by linarith
    then show False
    proof cases
      case 1
      then have "take (length opt_name + 1) f = opt_name @ [32]" using a by (simp add: take_Suc_conv_app_nth nth_append)
      then show False using Cons.prems(4) by simp
    next
      case 2
      then show False using a by (simp add: nth_append)
    next
      case 3
      then have "44 \<in> set (take (length opt_name) (f @ 44 # join_fields (g # gs)))"
        by (auto simp: take_Cons' )
      then show False using conjunct1 [OF a] Cons.prems(2) by metis
    qed
  qed
  moreover have "dropWhile (\<lambda>c. c \<noteq> 44) (f @ 44 # join_fields (g # gs)) = 44 # join_fields (g # gs)" using nc by (subst dropWhile_append2) auto
  ultimately have "options_string_extract_option (join_fields fs) opt_name = options_string_extract_option (join_fields (g # gs)) opt_name"
    by (subst options_string_extract_option.simps) (auto simp: fs(1) Let_def)
  also have "\<dots> = Some v" using Cons.IH [OF _ Cons.prems(2,3), of "g # gs"] Cons.prems(1,4) fs by simp
  finally show ?case .
qed

lemma options_cmp_equal_spec:
  assumes "0 \<notin> set actual"
  shows "options_cmp_equal actual expected \<longleftrightarrow> take 2 actual \<noteq> take 2 expected \<or> actual = expected"
proof -
  have "takeWhile (\<lambda>c. c \<noteq> 0) actual = actual" using assms by (auto simp: takeWhile_eq_all_conv)
  then show ?thesis by (simp only: options_cmp_equal_def options_cmp_equal_safe_def Let_def butlast_snoc) auto
qed

subsection \<open>Lists of buffers\<close>

definition bl_ok :: "buffer_list \<Rightarrow> bool" where
  "bl_ok bl \<longleftrightarrow> bl_size bl = length (bl_entries bl) \<and> (\<forall>b \<in> set (bl_entries bl). buf_ok b)"

definition bl_contents :: "buffer_list \<Rightarrow> byte list list" where
  "bl_contents bl = map content (bl_entries bl)"

lemma push_data_spec:
  assumes "bl_ok bl" "int (length d) < BUF_SIZE_MAX"
  shows "\<exists>bl'. buffer_list_push_data bl d = Some (bl', bl_max_size bl = 0 \<or> bl_size bl < bl_max_size bl) \<and> bl_ok bl' \<and>
    bl_contents bl' = bl_contents bl @ (if bl_max_size bl = 0 \<or> bl_size bl < bl_max_size bl then [d] else [])"
proof -
  have "alloc_buf (int (length d)) = Some \<lparr>b_capacity = int (length d), b_offset = 0, b_len = 0, b_data = Some (replicate (length d) 0)\<rparr>"
    using assms(2) by (simp add: alloc_buf_def buf_size_valid_def)
  then show ?thesis
    using assms by (auto simp: buffer_list_push_data_def store_at_def mem_write_def bl_ok_def bl_contents_def buf_ok_def content_def)
qed

lemma aggregate_count_spec:
  assumes "aggregate_count bs m sl sz0 k = (n, sz)" "\<forall>b \<in> set bs. buf_ok b" "0 \<le> sl"
  shows "\<exists>j. n = k + j \<and> j \<le> length bs \<and> sz = sz0 + (\<Sum>b \<leftarrow> take j bs. int (length (content b)) + sl) \<and> (sz0 \<le> m \<longrightarrow> sz \<le> m)"
  using assms
proof (induction bs m sl sz0 k rule: aggregate_count.induct)
  case (2 b bs m sl sz0 k)
  have l: "buf_len b = int (length (content b))" using 2(3) by (simp add: buf_len_content)
  show ?case
  proof (cases "sz0 + (buf_len b + sl) > m")
    case True
    then show ?thesis using 2(2) by (auto simp: Let_def)
  next
    case False
    then obtain j where "n = k + 1 + j" "j \<le> length bs" "sz = sz0 + (buf_len b + sl) + (\<Sum>b \<leftarrow> take j bs. int (length (content b)) + sl)"
      "sz \<le> m" using 2(1) [OF refl False] 2(2-) by (auto simp: Let_def)
    then show ?thesis using l by (intro exI [of _ "Suc j"]) auto
  qed
qed auto

lemma aggregate_copy_spec:
  assumes "buf_ok f" "\<forall>b \<in> set bs. buf_ok b" "(\<Sum>b \<leftarrow> bs. length (content b) + length sep) \<le> tailroom f"
  shows "\<exists>f'. aggregate_copy f bs sep = Some f' \<and> buf_ok f' \<and> content f' = content f @ concat (map (\<lambda>b. content b @ sep) bs)"
  using assms
proof (induction bs arbitrary: f)
  case (Cons b bs)
  have "length (content b) \<le> tailroom f" using Cons.prems(3) by simp
  from buf_write_room [OF Cons.prems(1) this] obtain f1 where f1: "buf_write f (content b) = Some (f1, True)" "buf_ok f1"
    "content f1 = content f @ content b" "tailroom f1 = tailroom f - length (content b)" by blast
  have "length sep \<le> tailroom f1" using Cons.prems(3) f1(4) by simp
  from buf_write_room [OF f1(2) this] obtain f2 where f2: "buf_write f1 sep = Some (f2, True)" "buf_ok f2"
    "content f2 = content f1 @ sep" "tailroom f2 = tailroom f1 - length sep" by blast
  have "buf_copy f b = Some (f1, True)" using f1(1) Cons.prems(2) by (simp add: buf_copy_def buf_bytes_content)
  moreover have "(\<Sum>b \<leftarrow> bs. length (content b) + length sep) \<le> tailroom f2"
    using Cons.prems(3) f1(4) f2(4) by simp
  then obtain f' where "aggregate_copy f2 bs sep = Some f'" "buf_ok f'" "content f' = content f2 @ concat (map (\<lambda>b. content b @ sep) bs)"
    using Cons.IH [OF f2(2)] Cons.prems(2) by (metis list.set_intros(2))
  ultimately show ?case using f1 f2 by simp
qed simp

text \<open>
  C40. Aggregation of a buffer list. \<open>buffer_list_aggregate_separator\<close> never writes outside the new buffer, keeps the count of entries
  right, and does not change the bytes that a reader of the list sees: either it leaves the list alone, or the first
  \<open>n\<close> entries, each followed by the separator, become one entry of at most \<open>max_len\<close> bytes, and the others follow unchanged.
\<close>

theorem buffer_list_aggregate_keeps_bytes:
  assumes "bl_ok bl" "0 \<le> max_len" "max_len + 1 < BUF_SIZE_MAX"
  shows "\<exists>bl'. buffer_list_aggregate_separator bl max_len sep = Some bl' \<and> bl_ok bl' \<and> bl_max_size bl' = bl_max_size bl \<and>
    (bl' = bl \<or> (\<exists>n \<ge> 2. bl_contents bl' = concat (map (\<lambda>c. c @ sep) (take n (bl_contents bl))) # drop n (bl_contents bl) \<and>
      int (length (hd (bl_contents bl'))) \<le> max_len))"
proof -
  obtain n sz where n: "aggregate_count (bl_entries bl) max_len (int (length sep)) 0 0 = (n, sz)" by fastforce
  have ok: "\<forall>b \<in> set (bl_entries bl). buf_ok b" using assms(1) by (simp add: bl_ok_def)
  have a: "n \<le> length (bl_entries bl)" "sz = (\<Sum>b \<leftarrow> take n (bl_entries bl). int (length (content b)) + int (length sep))" "sz \<le> max_len"
    using aggregate_count_spec [OF n ok] assms(2) by auto
  define es where "es = take n (bl_entries bl)"
  have sz: "sz = int (\<Sum>b \<leftarrow> es. length (content b) + length sep)"
    unfolding a(2) es_def [symmetric] by (induction es) auto
  show ?thesis
  proof (cases "n \<ge> 2")
    case False
    then show ?thesis using n assms(1) by (intro exI [of _ bl]) (simp add: buffer_list_aggregate_separator_def)
  next
    case True
    have "0 \<le> sz" using sz by simp
    then have al: "alloc_buf (sz + 1) = Some \<lparr>b_capacity = sz + 1, b_offset = 0, b_len = 0, b_data = Some (replicate (nat (sz + 1)) 0)\<rparr>"
      using a(3) assms(3) by (simp add: alloc_buf_def buf_size_valid_def)
    define f where "f = \<lparr>b_capacity = sz, b_offset = 0, b_len = 0, b_data = Some (replicate (nat sz) 0)\<rparr>"
    have "(\<Sum>b \<leftarrow> es. length (content b) + length sep) \<le> tailroom f" using sz by (simp add: f_def tailroom_def)
    moreover have "buf_ok f" "content f = []" using \<open>0 \<le> sz\<close> a(3) assms(3) by (simp_all add: f_def buf_ok_def content_def)
    moreover have "\<forall>b \<in> set es. buf_ok b" using ok by (auto simp: es_def dest: in_set_takeD)
    ultimately obtain f' where f': "aggregate_copy f es sep = Some f'" "buf_ok f'" "content f' = concat (map (\<lambda>b. content b @ sep) es)"
      using aggregate_copy_spec [of f es sep] by auto
    define bl' where "bl' = bl\<lparr>bl_entries := f' # drop n (bl_entries bl), bl_size := bl_size bl - (n - 1)\<rparr>"
    have "butlast (replicate (nat (sz + 1)) (0 :: byte)) = replicate (nat sz) 0"
      using \<open>0 \<le> sz\<close> by (simp add: butlast_conv_take take_replicate)
    then have "buffer_list_aggregate_separator bl max_len sep = Some bl'"
      using True n al f'(1) by (simp add: buffer_list_aggregate_separator_def f_def es_def bl'_def)
    moreover have "bl_ok bl'" using assms(1) a(1) f'(2) True by (auto simp: bl_ok_def bl'_def dest: in_set_dropD)
    moreover have "int (length (content f')) \<le> max_len"
      using f'(3) sz a(3) by (simp add: length_concat comp_def)
    ultimately show ?thesis using True f'(3)
      by (intro exI [of _ bl']) (auto simp: bl'_def bl_contents_def es_def take_map drop_map comp_def intro!: exI [of _ n])
  qed
qed

definition sample_list :: buffer_list where
  "sample_list = \<lparr>bl_max_size = 0, bl_size = 3, bl_entries = [packet_buf [1, 2], packet_buf [3], packet_buf [4, 5, 6]]\<rparr>"

lemma buffer_list_aggregate_keeps_bytes_witness:
  "\<exists>bl'. buffer_list_aggregate_separator sample_list 6 [9] = Some bl' \<and> bl_ok bl'"
proof -
  have "bl_ok sample_list" by (auto simp: sample_list_def bl_ok_def packet_buf_def buf_ok_def BUF_SIZE_MAX_def)
  from buffer_list_aggregate_keeps_bytes [OF this, of 6 "[9]"] show ?thesis by (auto simp: BUF_SIZE_MAX_def)
qed

end
