(* ===== verification/Ssl_Verify.thy ===== *)
theory Ssl_Verify
  imports Control_Auth Buffer_Text Base64
begin

text \<open>
  ssl_verify.c: who the peer is. The names and certificates a tunnel is locked to, the verification of a user name and
  password by token, plug-in, script and management interface, the final checks, and the
  authentication status of a tunnel. What the outside answers is the record \<open>verify_env\<close>: a plug-in or a
  script is a function of the user name and password it gets.
\<close>

subsection \<open>Constants\<close>

definition SSLF_USERNAME_AS_COMMON_NAME :: u32 where "SSLF_USERNAME_AS_COMMON_NAME = push_bit 2 1"
definition SSLF_AUTH_USER_PASS_OPTIONAL :: u32 where "SSLF_AUTH_USER_PASS_OPTIONAL = push_bit 3 1"
definition SSLF_OPT_VERIFY :: u32 where "SSLF_OPT_VERIFY = push_bit 4 1"

definition ACF_UNDEFINED :: nat where "ACF_UNDEFINED = 0"
definition ACF_SUCCEEDED :: nat where "ACF_SUCCEEDED = 1"
definition ACF_DISABLED :: nat where "ACF_DISABLED = 2"
definition ACF_FAILED :: nat where "ACF_FAILED = 3"

lemmas ACF_defs = ACF_UNDEFINED_def ACF_SUCCEEDED_def ACF_DISABLED_def ACF_FAILED_def

definition OPENVPN_PLUGIN_FUNC_SUCCESS :: int where "OPENVPN_PLUGIN_FUNC_SUCCESS = 0"
definition OPENVPN_PLUGIN_FUNC_ERROR :: int where "OPENVPN_PLUGIN_FUNC_ERROR = 1"
definition OPENVPN_PLUGIN_FUNC_DEFERRED :: int where "OPENVPN_PLUGIN_FUNC_DEFERRED = 2"

definition KMDA_ERROR :: int where "KMDA_ERROR = 0"
definition KMDA_SUCCESS :: int where "KMDA_SUCCESS = 1"
definition KMDA_UNDEF :: int where "KMDA_UNDEF = 2"
definition KMDA_DEF :: int where "KMDA_DEF = 3"

datatype tls_authentication =
  TLS_AUTHENTICATION_SUCCEEDED | TLS_AUTHENTICATION_FAILED | TLS_AUTHENTICATION_DEFERRED | TLS_AUTHENTICATION_UNDEFINED

definition TLS_USERNAME_LEN :: nat where "TLS_USERNAME_LEN = 64"
definition MAX_CERT_DEPTH :: nat where "MAX_CERT_DEPTH = 16"
definition AUTH_TOKEN_SIZE :: int where "AUTH_TOKEN_SIZE = 32"
definition CCD_DEFAULT :: "byte list" where "CCD_DEFAULT = bytes_of ''DEFAULT''"

definition COMMON_NAME_CHAR_CLASS :: u32 where
  "COMMON_NAME_CHAR_CLASS = CC_ALNUM OR CC_UNDERBAR OR CC_DASH OR CC_DOT OR CC_AT OR CC_SLASH"

text \<open>
  \<open>ve_compat_names\<close> and \<open>ve_no_remapping\<close> are the two compatibility flags, \<open>ve_management\<close> is
  \<open>management_enable_def_auth\<close>, \<open>ve_control_file\<close> says that a temporary file can be made, \<open>ve_ccd\<close> is whether the exclusive
  client configuration directory, if there is one, has a file of a name.
\<close>

record verify_env =
  ve_compat_names :: bool
  ve_no_remapping :: bool
  ve_management :: bool
  ve_control_file :: bool
  ve_plugin :: "(byte list \<Rightarrow> byte list \<Rightarrow> int) option"
  ve_script :: "(byte list \<Rightarrow> byte list \<Rightarrow> bool) option"
  ve_ccd :: "(byte list \<Rightarrow> bool) option"
  ve_random :: "byte list"

definition string_mod_remap_name :: "verify_env \<Rightarrow> byte list \<Rightarrow> u32 \<Rightarrow> byte list" where
  "string_mod_remap_name env str restrictive_flags =
     fst (if ve_compat_names env \<and> \<not> ve_no_remapping env then string_mod str restrictive_flags 0 95
          else string_mod str CC_PRINT CC_CRLF 95)"

subsection \<open>Names and certificates\<close>

definition wipe_auth_token :: "'s tls_multi \<Rightarrow> 's tls_multi" where
  "wipe_auth_token m = m\<lparr>tm_auth_token := None, tm_auth_token_sent := False\<rparr>"

definition tls_deauthenticate :: "'s tls_multi \<Rightarrow> 's tls_multi" where
  "tls_deauthenticate m =
     (let m = wipe_auth_token m in
      m\<lparr>tm_session := map (\<lambda>ses. ses\<lparr>ts_primary := (ts_primary ses)\<lparr>ks_authenticated := False\<rparr>,
                                        ts_lame := (ts_lame ses)\<lparr>ks_authenticated := False\<rparr>\<rparr>) (tm_session m)\<rparr>)"

definition set_common_name :: "'s tls_session \<Rightarrow> byte list option \<Rightarrow> 's tls_session" where
  "set_common_name ses common_name = ses\<lparr>ts_common_name := common_name\<rparr>"

definition tls_common_name :: "'s tls_multi \<Rightarrow> bool \<Rightarrow> byte list option" where
  "tls_common_name m nul =
     (case ts_common_name (ses_at m TM_ACTIVE) of
        Some cn \<Rightarrow> if cn \<noteq> [] then Some cn else if nul then None else Some (bytes_of ''UNDEF'')
      | None \<Rightarrow> if nul then None else Some (bytes_of ''UNDEF''))"

definition tls_lock_common_name :: "'s tls_multi \<Rightarrow> 's tls_multi" where
  "tls_lock_common_name m =
     (case ts_common_name (ses_at m TM_ACTIVE) of
        Some cn \<Rightarrow> if tm_locked_cn m = None then m\<lparr>tm_locked_cn := Some cn\<rparr> else m
      | None \<Rightarrow> m)"

definition tls_lock_username :: "'s tls_multi \<Rightarrow> byte list \<Rightarrow> 's tls_multi \<times> bool" where
  "tls_lock_username m username =
     (case tm_locked_username m of
        Some u \<Rightarrow> if username \<noteq> u then (tls_deauthenticate m, False) else (m, True)
      | None \<Rightarrow> (m\<lparr>tm_locked_username := Some username\<rparr>, True))"

definition tls_username :: "'s tls_multi \<Rightarrow> bool \<Rightarrow> byte list option" where
  "tls_username m nul =
     (case tm_locked_username m of
        Some u \<Rightarrow> if u \<noteq> [] then Some u else if nul then None else Some (bytes_of ''UNDEF'')
      | None \<Rightarrow> if nul then None else Some (bytes_of ''UNDEF''))"

definition cert_hash_remember :: "'s tls_session \<Rightarrow> int \<Rightarrow> byte list \<Rightarrow> 's tls_session option" where
  "cert_hash_remember ses error_depth cert_hash =
     (if error_depth \<ge> 0 \<and> error_depth < int MAX_CERT_DEPTH then do {
        let chs = (case ts_cert_hash_set ses of Some chs \<Rightarrow> chs | None \<Rightarrow> replicate MAX_CERT_DEPTH None);
        c_assert (length cert_hash = 32);
        Some (ses\<lparr>ts_cert_hash_set := Some (chs[nat error_depth := Some cert_hash])\<rparr>)
      } else Some ses)"

fun cert_hash_same :: "byte list option list \<Rightarrow> byte list option list \<Rightarrow> bool" where
  "cert_hash_same (c1 # chs1) (c2 # chs2) =
     (if c1 = None \<and> c2 = None then cert_hash_same chs1 chs2
      else if c1 \<noteq> None \<and> c2 \<noteq> None \<and> c1 = c2 then cert_hash_same chs1 chs2
      else False)"
| "cert_hash_same chs1 chs2 = True"

definition cert_hash_compare :: "byte list option list option \<Rightarrow> byte list option list option \<Rightarrow> bool" where
  "cert_hash_compare chs1 chs2 =
     (case (chs1, chs2) of
        (Some c1, Some c2) \<Rightarrow> cert_hash_same c1 c2
      | (None, None) \<Rightarrow> True
      | _ \<Rightarrow> False)"

definition tls_lock_cert_hash_set :: "'s tls_multi \<Rightarrow> 's tls_multi" where
  "tls_lock_cert_hash_set m =
     (case ts_cert_hash_set (ses_at m TM_ACTIVE) of
        Some chs \<Rightarrow> if tm_locked_cert_hash_set m = None then m\<lparr>tm_locked_cert_hash_set := Some chs\<rparr> else m
      | None \<Rightarrow> m)"

subsection \<open>User name and password\<close>

text \<open>A plug-in or a script is asked only if there is a user name or an empty one is allowed.\<close>

definition name_given :: "'s tls_multi \<Rightarrow> byte list \<Rightarrow> bool" where
  "name_given m username \<longleftrightarrow> to_ssl_flags (tm_opt m) AND SSLF_AUTH_USER_PASS_OPTIONAL \<noteq> 0 \<or> username \<noteq> []"

definition verify_user_pass_script :: "(byte list \<Rightarrow> byte list \<Rightarrow> bool) \<Rightarrow> 's tls_multi \<Rightarrow> byte list \<Rightarrow> byte list \<Rightarrow> bool" where
  "verify_user_pass_script script m username password \<longleftrightarrow> name_given m username \<and> script username password"

definition verify_user_pass_plugin ::
  "verify_env \<Rightarrow> (byte list \<Rightarrow> byte list \<Rightarrow> int) \<Rightarrow> 's tls_multi \<Rightarrow> nat \<Rightarrow> byte list \<Rightarrow> byte list \<Rightarrow> byte list option \<Rightarrow> 's tls_multi \<times> int" where
  "verify_user_pass_plugin env plugin m i username password raw_username =
     (if name_given m username then
        (let m = upd_prim i (\<lambda>ks. ks\<lparr>ks_auth_control_file := ve_control_file env\<rparr>) m in
         if \<not> ve_control_file env then (m, OPENVPN_PLUGIN_FUNC_ERROR)
         else (let retval = plugin (case raw_username of Some u \<Rightarrow> u | None \<Rightarrow> username) password in
           (if retval \<noteq> OPENVPN_PLUGIN_FUNC_DEFERRED then upd_prim i (\<lambda>ks. ks\<lparr>ks_auth_control_file := False\<rparr>) m else m, retval)))
      else (m, OPENVPN_PLUGIN_FUNC_ERROR))"

definition verify_user_pass_management :: "'s tls_multi \<Rightarrow> byte list \<Rightarrow> int" where
  "verify_user_pass_management m username = (if name_given m username then KMDA_SUCCESS else KMDA_ERROR)"

text \<open>The password field is an array with zeros behind the password.\<close>

definition token_matches :: "byte list \<Rightarrow> byte list \<Rightarrow> bool" where
  "token_matches tok password \<longleftrightarrow>
     memcmp_constant_time tok (take (length tok) (password @ replicate (length tok) 0)) = 0"

definition verify_auth_token :: "time_t \<Rightarrow> 's tls_multi \<Rightarrow> nat \<Rightarrow> byte list \<Rightarrow> byte list \<Rightarrow> byte list \<Rightarrow> 's tls_multi" where
  "verify_auth_token local_now m i tok username password =
     (let (m, ok) = tls_lock_username m username in
      if \<not> ok then upd_prim i (\<lambda>ks. ks\<lparr>ks_authenticated := False\<rparr>) m
      else if to_auth_token_lifetime (tm_opt m) > 0 \<and> tm_auth_token_tstamp m + to_auth_token_lifetime (tm_opt m) < local_now
      then upd_prim i (\<lambda>ks. ks\<lparr>ks_authenticated := False\<rparr>) (wipe_auth_token m)
      else if \<not> token_matches tok password
      then tls_deauthenticate (upd_prim i (\<lambda>ks. ks\<lparr>ks_authenticated := False\<rparr>) m)
      else (let m = upd_prim i (\<lambda>ks. ks\<lparr>ks_authenticated := True\<rparr>) m in
        if to_ssl_flags (tm_opt m) AND SSLF_USERNAME_AS_COMMON_NAME \<noteq> 0
        then upd_ses i (\<lambda>ses. set_common_name ses (Some username)) m else m))"

definition verify_user_pass_accepted ::
  "verify_env \<Rightarrow> time_t \<Rightarrow> 's tls_multi \<Rightarrow> nat \<Rightarrow> byte list \<Rightarrow> int \<Rightarrow> int \<Rightarrow> 's tls_multi option" where
  "verify_user_pass_accepted env local_now m i username s1 man_def_auth = do {
     let m = upd_prim i (\<lambda>ks. ks\<lparr>ks_authenticated := True\<rparr>) m;
     let m = (if s1 = OPENVPN_PLUGIN_FUNC_DEFERRED then upd_prim i (\<lambda>ks. ks\<lparr>ks_auth_deferred := True\<rparr>) m else m);
     let m = (if man_def_auth \<noteq> KMDA_UNDEF then upd_prim i (\<lambda>ks. ks\<lparr>ks_auth_deferred := True\<rparr>) m else m);
     m \<leftarrow> (if to_auth_token_generate (tm_opt m) \<and> tm_auth_token m = None then do {
             r \<leftarrow> openvpn_base64_encode (ve_random env) AUTH_TOKEN_SIZE;
             (case r of
                Inl _ \<Rightarrow> None
              | Inr tok \<Rightarrow> do {
                  c_assert (int (length tok) > AUTH_TOKEN_SIZE);
                  Some (m\<lparr>tm_auth_token := Some (bytes_of tok), tm_auth_token_tstamp := local_now\<rparr>)
                })
           } else Some m);
     Some (if to_ssl_flags (tm_opt m) AND SSLF_USERNAME_AS_COMMON_NAME \<noteq> 0
           then upd_ses i (\<lambda>ses. set_common_name ses (Some username)) m else m)
   }"

definition verify_user_pass_external ::
  "verify_env \<Rightarrow> time_t \<Rightarrow> 's tls_multi \<Rightarrow> nat \<Rightarrow> byte list \<Rightarrow> byte list \<Rightarrow> byte list option \<Rightarrow> int \<Rightarrow> 's tls_multi option" where
  "verify_user_pass_external env local_now m i username password raw_username man_def_auth = do {
     let man_def_auth = (if man_def_auth = KMDA_DEF then verify_user_pass_management m username else man_def_auth);
     let (m, s1) = (case ve_plugin env of
                      Some plugin \<Rightarrow> verify_user_pass_plugin env plugin m i username password raw_username
                    | None \<Rightarrow> (m, OPENVPN_PLUGIN_FUNC_SUCCESS));
     let s2 = (case ve_script env of Some script \<Rightarrow> verify_user_pass_script script m username password | None \<Rightarrow> True);
     let s1 = (if to_ssl_flags (tm_opt m) AND SSLF_USERNAME_AS_COMMON_NAME \<noteq> 0 \<and> length username > TLS_USERNAME_LEN
               then OPENVPN_PLUGIN_FUNC_ERROR else s1);
     if (s1 = OPENVPN_PLUGIN_FUNC_SUCCESS \<or> s1 = OPENVPN_PLUGIN_FUNC_DEFERRED) \<and> s2 \<and> man_def_auth \<noteq> KMDA_ERROR then do {
       let (m, ok) = tls_lock_username m username;
       if ok then verify_user_pass_accepted env local_now m i username s1 man_def_auth else Some m
     } else Some m
   }"

definition verify_user_pass ::
  "verify_env \<Rightarrow> time_t \<Rightarrow> byte list \<times> byte list \<Rightarrow> 's tls_multi \<Rightarrow> nat \<Rightarrow> 's tls_multi option" where
  "verify_user_pass env local_now up m i =
     (let (username, password) = up;
          man_def_auth = (if ve_management env then KMDA_DEF else KMDA_UNDEF);
          raw_username = (if ve_compat_names env then Some (fst (string_mod username CC_PRINT CC_CRLF 95)) else None);
          username = string_mod_remap_name env username COMMON_NAME_CHAR_CLASS;
          password = fst (string_mod password CC_PRINT CC_CRLF 95) in
      case (to_auth_token_generate (tm_opt m) \<and> tm_auth_token_sent m, tm_auth_token m) of
        (True, Some tok) \<Rightarrow> Some (verify_auth_token local_now m i tok username password)
      | _ \<Rightarrow> verify_user_pass_external env local_now m i username password raw_username man_def_auth)"

subsection \<open>The final checks\<close>

definition verify_final_auth_checks :: "verify_env \<Rightarrow> 's tls_multi \<Rightarrow> nat \<Rightarrow> 's tls_multi" where
  "verify_final_auth_checks env m i =
     (let m = (if ts_common_name (ses_at m i) = None then upd_ses i (\<lambda>ses. set_common_name ses (Some [])) m else m);
          m = (case tm_locked_cn m of
                 Some locked \<Rightarrow>
                   if ks_authenticated (prim_at m i) \<and> ts_common_name (ses_at m i) \<noteq> Some locked
                   then tls_deauthenticate (upd_ses i (\<lambda>ses. set_common_name ses (Some locked)) m) else m
               | None \<Rightarrow> m);
          m = (if ks_authenticated (prim_at m i) \<and> tm_locked_cert_hash_set m \<noteq> None \<and> ts_cert_hash_set (ses_at m i) \<noteq> None \<and>
                  \<not> cert_hash_compare (ts_cert_hash_set (ses_at m i)) (tm_locked_cert_hash_set m)
               then tls_deauthenticate m else m)
      in case ve_ccd env of
           Some ccd \<Rightarrow>
             if ks_authenticated (prim_at m i) \<and>
                (case ts_common_name (ses_at m i) of None \<Rightarrow> True | Some cn \<Rightarrow> cn = CCD_DEFAULT \<or> \<not> ccd cn)
             then wipe_auth_token (upd_prim i (\<lambda>ks. ks\<lparr>ks_authenticated := False\<rparr>) m) else m
         | None \<Rightarrow> m)"

subsection \<open>Authentication status\<close>

definition acf_merge :: "nat list" where
  "acf_merge = [ACF_UNDEFINED, ACF_UNDEFINED, ACF_UNDEFINED, ACF_FAILED,
                ACF_UNDEFINED, ACF_SUCCEEDED, ACF_SUCCEEDED, ACF_FAILED,
                ACF_UNDEFINED, ACF_SUCCEEDED, ACF_DISABLED, ACF_FAILED,
                ACF_FAILED, ACF_FAILED, ACF_FAILED, ACF_FAILED]"

text \<open>\<open>file_char\<close> is the first character of the control file, if it can be opened.\<close>

definition key_state_test_auth_control_file :: "int option \<Rightarrow> 's key_state \<Rightarrow> 's key_state \<times> nat" where
  "key_state_test_auth_control_file file_char ks =
     (if ks_auth_control_file ks then
        (let ret = ks_auth_control_status ks in
         if ret = ACF_UNDEFINED then
           (case file_char of
              Some c \<Rightarrow> (let ret = (if c = 49 then ACF_SUCCEEDED else if c = 48 then ACF_FAILED else ret)
                in (ks\<lparr>ks_auth_control_status := ret\<rparr>, ret))
            | None \<Rightarrow> (ks, ret))
         else (ks, ret))
      else (ks, ACF_DISABLED))"

definition man_def_auth_test :: "verify_env \<Rightarrow> 's key_state \<Rightarrow> nat" where
  "man_def_auth_test env ks = (if ve_management env then ks_mda_status ks else ACF_DISABLED)"

text \<open>One key of the scan: the key afterwards, and whether it counts as a success or as deferred.\<close>

definition key_auth_status :: "verify_env \<Rightarrow> time_t \<Rightarrow> int option \<Rightarrow> 's key_state \<Rightarrow> ('s key_state \<times> bool \<times> bool) option" where
  "key_auth_status env local_now file_char ks =
     (if ks_authenticated ks then do {
        let (ks, s1) = key_state_test_auth_control_file file_char ks;
        let s2 = man_def_auth_test env ks;
        c_assert (s1 < 4 \<and> s2 < 4);
        let st = acf_merge ! (4 * s1 + s2);
        if st = ACF_SUCCEEDED \<or> st = ACF_DISABLED then Some (ks\<lparr>ks_auth_deferred := False\<rparr>, True, False)
        else if st = ACF_UNDEFINED then Some (ks, False, local_now < ks_auth_deferred_expire ks)
        else if st = ACF_FAILED then Some (ks\<lparr>ks_authenticated := False\<rparr>, False, False)
        else None
      } else Some (ks, False, False))"

fun auth_scan :: "verify_env \<Rightarrow> time_t \<Rightarrow> (nat \<Rightarrow> int option) \<Rightarrow> nat list \<Rightarrow> 's tls_multi \<Rightarrow> bool \<Rightarrow> bool \<Rightarrow> bool \<Rightarrow>
  ('s tls_multi \<times> bool \<times> bool \<times> bool) option" where
  "auth_scan env local_now files [] m active success deferred = Some (m, active, success, deferred)"
| "auth_scan env local_now files (j # js) m active success deferred =
     (if DECRYPT_KEY_ENABLED m (scan_key m j) then do {
        (ks, s, d) \<leftarrow> key_auth_status env local_now (files j) (scan_key m j);
        auth_scan env local_now files js (scan_update j (\<lambda>_. ks) m) True (success \<or> s) (deferred \<or> d)
      } else auth_scan env local_now files js m active success deferred)"

definition tls_authentication_status ::
  "verify_env \<Rightarrow> time_t \<Rightarrow> (nat \<Rightarrow> int option) \<Rightarrow> 's tls_multi \<Rightarrow> int \<Rightarrow> ('s tls_multi \<times> tls_authentication) option" where
  "tls_authentication_status env local_now files m latency =
     (if latency \<noteq> 0 \<and> tm_tas_last m \<noteq> 0 \<and> tm_tas_last m + latency \<ge> local_now
      then Some (m, TLS_AUTHENTICATION_UNDEFINED)
      else do {
        (m, active, success, deferred) \<leftarrow>
          auth_scan env local_now files [0, 1, 2] (m\<lparr>tm_tas_last := local_now\<rparr>) False False False;
        Some (m, if success then TLS_AUTHENTICATION_SUCCEEDED
                 else if \<not> active \<or> deferred then TLS_AUTHENTICATION_DEFERRED
                 else TLS_AUTHENTICATION_FAILED)
      })"

subsection \<open>What authentication means\<close>

lemma upd_prim_simps [simp]:
  "i < length (tm_session m) \<Longrightarrow> prim_at (upd_prim i f m) i = f (prim_at m i)"
  "length (tm_session (upd_prim i f m)) = length (tm_session m)"
  "tm_opt (upd_prim i f m) = tm_opt m" "tm_locked_cn (upd_prim i f m) = tm_locked_cn m"
  "tm_locked_username (upd_prim i f m) = tm_locked_username m" "tm_locked_cert_hash_set (upd_prim i f m) = tm_locked_cert_hash_set m"
  "tm_auth_token (upd_prim i f m) = tm_auth_token m" "tm_auth_token_tstamp (upd_prim i f m) = tm_auth_token_tstamp m"
  "i < length (tm_session m) \<Longrightarrow> ts_common_name (ses_at (upd_prim i f m) i) = ts_common_name (ses_at m i)"
  "i < length (tm_session m) \<Longrightarrow> ts_cert_hash_set (ses_at (upd_prim i f m) i) = ts_cert_hash_set (ses_at m i)"
  by (simp_all add: upd_prim_def)

lemma wipe_simps [simp]:
  "tm_session (wipe_auth_token m) = tm_session m" "tm_opt (wipe_auth_token m) = tm_opt m"
  "tm_locked_username (wipe_auth_token m) = tm_locked_username m" "tm_locked_cn (wipe_auth_token m) = tm_locked_cn m"
  "tm_locked_cert_hash_set (wipe_auth_token m) = tm_locked_cert_hash_set m"
  by (simp_all add: wipe_auth_token_def)

lemma deauth_simps [simp]:
  "i < length (tm_session m) \<Longrightarrow> \<not> ks_authenticated (prim_at (tls_deauthenticate m) i)"
  "i < length (tm_session m) \<Longrightarrow> \<not> ks_authenticated (ts_lame (ses_at (tls_deauthenticate m) i))"
  "i < length (tm_session m) \<Longrightarrow> ts_common_name (ses_at (tls_deauthenticate m) i) = ts_common_name (ses_at m i)"
  "i < length (tm_session m) \<Longrightarrow> ts_cert_hash_set (ses_at (tls_deauthenticate m) i) = ts_cert_hash_set (ses_at m i)"
  "length (tm_session (tls_deauthenticate m)) = length (tm_session m)"
  "tm_locked_username (tls_deauthenticate m) = tm_locked_username m" "tm_locked_cn (tls_deauthenticate m) = tm_locked_cn m"
  "tm_locked_cert_hash_set (tls_deauthenticate m) = tm_locked_cert_hash_set m"
  "tm_opt (tls_deauthenticate m) = tm_opt m"
  by (simp_all add: tls_deauthenticate_def Let_def)

lemma set_cn_simps [simp]:
  "ts_primary (set_common_name ses cn) = ts_primary ses" "ts_common_name (set_common_name ses cn) = cn"
  "ts_cert_hash_set (set_common_name ses cn) = ts_cert_hash_set ses"
  by (simp_all add: set_common_name_def)

lemma lock_username_cases:
  assumes "tls_lock_username m u = (m', ok)"
  shows "tm_session m' = (if ok then tm_session m else tm_session (tls_deauthenticate m)) \<and> tm_opt m' = tm_opt m \<and>
    (ok \<longrightarrow> tm_locked_username m' = Some u \<and> tm_auth_token m' = tm_auth_token m \<and> tm_auth_token_tstamp m' = tm_auth_token_tstamp m) \<and>
    (ok \<longleftrightarrow> tm_locked_username m \<in> {None, Some u}) \<and> (\<forall>x. tm_locked_username m = Some x \<longrightarrow> tm_locked_username m' = Some x)"
  using assms by (auto simp: tls_lock_username_def split: option.splits if_splits)

lemma token_matches_iff:
  "token_matches tok password \<longleftrightarrow> take (length tok) (password @ replicate (length tok) 0) = tok"
  by (auto simp: token_matches_def memcmp_constant_time_iff)

text \<open>What the code makes of the name and the password, and the two ways to be accepted.\<close>

definition clean_name :: "verify_env \<Rightarrow> byte list \<Rightarrow> byte list" where
  "clean_name env username = string_mod_remap_name env username COMMON_NAME_CHAR_CLASS"

definition clean_password :: "byte list \<Rightarrow> byte list" where
  "clean_password password = fst (string_mod password CC_PRINT CC_CRLF 95)"

definition token_mode :: "'s tls_multi \<Rightarrow> bool" where
  "token_mode m \<longleftrightarrow> to_auth_token_generate (tm_opt m) \<and> tm_auth_token_sent m \<and> tm_auth_token m \<noteq> None"

definition by_token :: "time_t \<Rightarrow> byte list \<Rightarrow> 's tls_multi \<Rightarrow> bool" where
  "by_token local_now pw m \<longleftrightarrow> (\<exists>tok. tm_auth_token m = Some tok \<and> take (length tok) (pw @ replicate (length tok) 0) = tok) \<and>
     (to_auth_token_lifetime (tm_opt m) > 0 \<longrightarrow> local_now \<le> tm_auth_token_tstamp m + to_auth_token_lifetime (tm_opt m))"

definition plugin_says :: "verify_env \<Rightarrow> byte list \<Rightarrow> byte list \<Rightarrow> 's tls_multi \<Rightarrow> int option" where
  "plugin_says env username pw m = map_option (\<lambda>p. if name_given m (clean_name env username) \<and> ve_control_file env
     then p (if ve_compat_names env then fst (string_mod username CC_PRINT CC_CRLF 95) else clean_name env username) pw
     else OPENVPN_PLUGIN_FUNC_ERROR) (ve_plugin env)"

definition by_outside :: "verify_env \<Rightarrow> byte list \<Rightarrow> byte list \<Rightarrow> 's tls_multi \<Rightarrow> bool" where
  "by_outside env username pw m \<longleftrightarrow>
     plugin_says env username pw m \<in> {None, Some OPENVPN_PLUGIN_FUNC_SUCCESS, Some OPENVPN_PLUGIN_FUNC_DEFERRED} \<and>
     (\<forall>script. ve_script env = Some script \<longrightarrow> name_given m (clean_name env username) \<and> script (clean_name env username) pw) \<and>
     (ve_management env \<longrightarrow> name_given m (clean_name env username))"

lemma length_enc3: "length (enc3 q) = 4 * ((length q + 2) div 3)"
proof (induction q rule: enc3.induct)
  case (1 a b c q)
  have "(5 + length q) div 3 = Suc (Suc (Suc (length q)) div 3)" by presburger
  then show ?case using 1 by (simp add: encode_group_def Let_def)
qed (simp_all add: encode_group_def Let_def)

lemma new_token:
  assumes "length (ve_random env) = 32"
  shows "\<exists>tok. openvpn_base64_encode (ve_random env) AUTH_TOKEN_SIZE = Some (Inr tok) \<and> length tok = 44"
proof -
  have "AUTH_TOKEN_SIZE = int (length (ve_random env))" using assms by (simp add: AUTH_TOKEN_SIZE_def)
  moreover have "int (length (ve_random env)) * 4 < 2 ^ 31" using assms by simp
  moreover have "length (enc3 (ve_random env)) = 44" using assms by (simp add: length_enc3)
  ultimately show ?thesis using encode_spec [of "ve_random env"] by simp
qed

lemma verify_auth_token_spec:
  assumes "i < length (tm_session m)" "m' = verify_auth_token local_now m i tok u pw"
  shows "(ks_authenticated (prim_at m' i) \<longrightarrow> tm_locked_username m' = Some u \<and> tm_locked_username m \<in> {None, Some u} \<and>
      token_matches tok pw \<and> (to_auth_token_lifetime (tm_opt m) > 0 \<longrightarrow> local_now \<le> tm_auth_token_tstamp m + to_auth_token_lifetime (tm_opt m))) \<and>
    (\<forall>x. tm_locked_username m = Some x \<longrightarrow> tm_locked_username m' = Some x)"
proof -
  obtain m1 ok where l: "tls_lock_username m u = (m1, ok)" by fastforce
  note f = lock_username_cases [OF l]
  have len: "i < length (tm_session m1)" using f assms(1) by (cases ok) simp_all
  define late where "late \<longleftrightarrow> to_auth_token_lifetime (tm_opt m1) > 0 \<and> tm_auth_token_tstamp m1 + to_auth_token_lifetime (tm_opt m1) < local_now"
  note d = assms(2) [unfolded verify_auth_token_def l Let_def prod.case, folded late_def]
  have "tm_locked_username m' = tm_locked_username m1" using d by simp
  moreover have "\<not> ks_authenticated (prim_at m' i)" if bad: "\<not> (ok \<and> \<not> late \<and> token_matches tok pw)"
  proof -
    consider "\<not> ok" | "ok" "late" | "ok" "\<not> late" "\<not> token_matches tok pw" using bad by blast
    then show ?thesis
      by cases (use f assms(1) in \<open>simp_all add: d\<close>)
  qed
  moreover have "to_auth_token_lifetime (tm_opt m) > 0 \<longrightarrow> local_now \<le> tm_auth_token_tstamp m + to_auth_token_lifetime (tm_opt m)"
    if ok "\<not> late" using that f by (auto simp: late_def)
  ultimately show ?thesis using f by metis
qed

lemma verify_accepted_spec:
  assumes "i < length (tm_session m)" "length (ve_random env) = 32"
  shows "\<exists>m'. verify_user_pass_accepted env local_now m i u s1 mda = Some m' \<and> tm_locked_username m' = tm_locked_username m \<and>
    (s1 = OPENVPN_PLUGIN_FUNC_DEFERRED \<or> mda \<noteq> KMDA_UNDEF \<longrightarrow> ks_auth_deferred (prim_at m' i))"
proof -
  obtain tok where tok: "openvpn_base64_encode (ve_random env) AUTH_TOKEN_SIZE = Some (Inr tok)" "int (length tok) > AUTH_TOKEN_SIZE"
    using new_token [OF assms(2)] by (auto simp: AUTH_TOKEN_SIZE_def)
  define m2 where "m2 = (let m = upd_prim i (\<lambda>ks. ks\<lparr>ks_authenticated := True\<rparr>) m;
     m = (if s1 = OPENVPN_PLUGIN_FUNC_DEFERRED then upd_prim i (\<lambda>ks. ks\<lparr>ks_auth_deferred := True\<rparr>) m else m) in
     (if mda \<noteq> KMDA_UNDEF then upd_prim i (\<lambda>ks. ks\<lparr>ks_auth_deferred := True\<rparr>) m else m))"
  have m2: "tm_locked_username m2 = tm_locked_username m" "i < length (tm_session m2)"
    "s1 = OPENVPN_PLUGIN_FUNC_DEFERRED \<or> mda \<noteq> KMDA_UNDEF \<longrightarrow> ks_auth_deferred (prim_at m2 i)"
    using assms(1) by (auto simp: m2_def Let_def)
  define m3 where "m3 = (if to_auth_token_generate (tm_opt m2) \<and> tm_auth_token m2 = None
    then m2\<lparr>tm_auth_token := Some (bytes_of tok), tm_auth_token_tstamp := local_now\<rparr> else m2)"
  have m3: "tm_session m3 = tm_session m2" "tm_locked_username m3 = tm_locked_username m2" by (simp_all add: m3_def)
  have "verify_user_pass_accepted env local_now m i u s1 mda = Some (if to_ssl_flags (tm_opt m3) AND SSLF_USERNAME_AS_COMMON_NAME \<noteq> 0
      then upd_ses i (\<lambda>ses. set_common_name ses (Some u)) m3 else m3)"
    using tok unfolding verify_user_pass_accepted_def m3_def m2_def Let_def by simp
  then show ?thesis using m2 m3 by simp
qed

text \<open>
  C12. Who is authenticated. \<open>verify_user_pass\<close> always returns. If it authenticates the key, the tunnel is locked to the cleaned user name
  it was called with, it was not locked to another name before, and either the tunnel is in token mode and the
  password starts with the unexpired token, or it is not and every configured authority (plug-in, script, management interface) accepts the
  name and the password; if the plug-in or the management interface defers its answer, the key is marked as deferred. A locked name never changes.
\<close>

theorem verify_user_pass_sound:
  assumes "i < length (tm_session m)" "\<not> ks_authenticated (prim_at m i)" "length (ve_random env) = 32"
  shows "\<exists>m'. verify_user_pass env local_now (username, password) m i = Some m' \<and>
    (ks_authenticated (prim_at m' i) \<longrightarrow>
      tm_locked_username m' = Some (clean_name env username) \<and> tm_locked_username m \<in> {None, Some (clean_name env username)} \<and>
      (if token_mode m then by_token local_now (clean_password password) m
       else by_outside env username (clean_password password) m \<and>
         (plugin_says env username (clean_password password) m = Some OPENVPN_PLUGIN_FUNC_DEFERRED \<or> ve_management env \<longrightarrow>
           ks_auth_deferred (prim_at m' i)))) \<and>
    (\<forall>x. tm_locked_username m = Some x \<longrightarrow> tm_locked_username m' = Some x)"
proof -
  define u pw where "u = clean_name env username" and "pw = clean_password password"
  note c = clean_name_def [of env username, folded u_def] clean_password_def [of password, folded pw_def]
  show ?thesis
  proof (cases "token_mode m")
    case True
    then obtain tok where tok: "to_auth_token_generate (tm_opt m) \<and> tm_auth_token_sent m" "tm_auth_token m = Some tok" by (auto simp: token_mode_def)
    then have "verify_user_pass env local_now (username, password) m i = Some (verify_auth_token local_now m i tok u pw)"
      by (simp add: verify_user_pass_def c)
    then show ?thesis using verify_auth_token_spec [OF assms(1) refl, of local_now tok u pw] tok True
      by (auto simp: u_def pw_def by_token_def token_matches_iff)
  next
    case False
    define mda where "mda = (if ve_management env then verify_user_pass_management m u else KMDA_UNDEF)"
    define raw where "raw = (if ve_compat_names env then Some (fst (string_mod username CC_PRINT CC_CRLF 95)) else None)"
    define pl where "pl = (case ve_plugin env of Some plugin \<Rightarrow> verify_user_pass_plugin env plugin m i u pw raw | None \<Rightarrow> (m, OPENVPN_PLUGIN_FUNC_SUCCESS))"
    obtain m1 s0 where m1: "pl = (m1, s0)" by fastforce
    have m1f: "i < length (tm_session m1)" "tm_locked_username m1 = tm_locked_username m" "tm_opt m1 = tm_opt m"
      "\<not> ks_authenticated (prim_at m1 i)"
      "s0 = (case plugin_says env username pw m of None \<Rightarrow> OPENVPN_PLUGIN_FUNC_SUCCESS | Some s \<Rightarrow> s)"
      using m1 assms(1,2) by (auto simp: pl_def verify_user_pass_plugin_def plugin_says_def Let_def raw_def u_def pw_def split: option.splits if_splits)
    define s1 where "s1 = (if to_ssl_flags (tm_opt m1) AND SSLF_USERNAME_AS_COMMON_NAME \<noteq> 0 \<and> length u > TLS_USERNAME_LEN
      then OPENVPN_PLUGIN_FUNC_ERROR else s0)"
    define s2 where "s2 = (case ve_script env of Some script \<Rightarrow> verify_user_pass_script script m1 u pw | None \<Rightarrow> True)"
    define acc where "acc \<longleftrightarrow> (s1 = OPENVPN_PLUGIN_FUNC_SUCCESS \<or> s1 = OPENVPN_PLUGIN_FUNC_DEFERRED) \<and> s2 \<and> mda \<noteq> KMDA_ERROR"
    obtain m2 ok where l: "tls_lock_username m1 u = (m2, ok)" by fastforce
    note f = lock_username_cases [OF l]
    have len2: "i < length (tm_session m2)" using f m1f(1) by (cases ok) simp_all
    have run: "verify_user_pass env local_now (username, password) m i =
      (if acc then if ok then verify_user_pass_accepted env local_now m2 i u s1 mda else Some m2 else Some m1)"
    proof -
      have "verify_user_pass env local_now (username, password) m i =
          verify_user_pass_external env local_now m i u pw raw (if ve_management env then KMDA_DEF else KMDA_UNDEF)"
        using False by (auto simp: verify_user_pass_def c raw_def token_mode_def Let_def split: option.splits bool.splits)
      also have "\<dots> = (if acc then if ok then verify_user_pass_accepted env local_now m2 i u s1 mda else Some m2 else Some m1)"
        if "md = (if ve_management env then KMDA_DEF else KMDA_UNDEF)" for md
      proof -
        have a: "(if md = KMDA_DEF then verify_user_pass_management m u else md) = mda"
          by (simp add: that mda_def KMDA_DEF_def KMDA_UNDEF_def)
        show ?thesis
          unfolding that [symmetric] verify_user_pass_external_def Let_def a m1 [unfolded pl_def] prod.case s1_def [symmetric] s2_def [symmetric]
            acc_def [symmetric] l ..
      qed
      finally show ?thesis by blast
    qed
    have out: "by_outside env username pw m" if acc
      using that m1f(3,5)
      by (auto simp: acc_def by_outside_def s1_def s2_def mda_def verify_user_pass_script_def verify_user_pass_management_def name_given_def
          KMDA_ERROR_def KMDA_SUCCESS_def u_def OPENVPN_PLUGIN_FUNC_ERROR_def OPENVPN_PLUGIN_FUNC_SUCCESS_def OPENVPN_PLUGIN_FUNC_DEFERRED_def
          split: option.splits if_splits)
    have def: "s1 = OPENVPN_PLUGIN_FUNC_DEFERRED \<or> mda \<noteq> KMDA_UNDEF"
      if acc "plugin_says env username pw m = Some OPENVPN_PLUGIN_FUNC_DEFERRED \<or> ve_management env"
      using that m1f(5)
      by (auto simp: acc_def s1_def mda_def verify_user_pass_management_def
          KMDA_ERROR_def KMDA_SUCCESS_def KMDA_UNDEF_def OPENVPN_PLUGIN_FUNC_ERROR_def OPENVPN_PLUGIN_FUNC_SUCCESS_def OPENVPN_PLUGIN_FUNC_DEFERRED_def
          split: if_splits)
    show ?thesis
    proof (cases "acc \<and> ok")
      case True
      obtain m' where m': "verify_user_pass_accepted env local_now m2 i u s1 mda = Some m'" "tm_locked_username m' = tm_locked_username m2"
        "s1 = OPENVPN_PLUGIN_FUNC_DEFERRED \<or> mda \<noteq> KMDA_UNDEF \<longrightarrow> ks_auth_deferred (prim_at m' i)"
        using verify_accepted_spec [OF len2 assms(3)] by blast
      have "verify_user_pass env local_now (username, password) m i = Some m'" using run m'(1) True by simp
      then show ?thesis using m' f True m1f(2) out def False unfolding u_def pw_def by auto
    next
      case no: False
      have "\<not> ks_authenticated (prim_at m2 i)" if "\<not> ok" using f that m1f(1) by (simp add: tls_deauthenticate_def Let_def)
      then show ?thesis using run no f m1f(2,4) by auto
    qed
  qed
qed

lemma cert_hash_same_iff: "length c1 = length c2 \<Longrightarrow> cert_hash_same c1 c2 \<longleftrightarrow> c1 = c2"
  by (induction c1 c2 rule: list_induct2) auto

text \<open>
  C14. The final checks only take authentication away, and exactly from whom they should. A key is authenticated after
  \<open>verify_final_auth_checks\<close> exactly when it was before, the common name of the session is the one the tunnel is locked to, if it is locked
  to one, the certificates of the session, if it has any, are those the tunnel is locked to, if it is locked to some, and, if client files are
  required, the name has one and is not the default. If the locked name or the locked certificates differ, no key of the tunnel stays
  authenticated.
\<close>

theorem verify_final_auth_checks_sound:
  assumes "i < length (tm_session m)" "m' = verify_final_auth_checks env m i"
    and "\<And>c. ts_cert_hash_set (ses_at m i) = Some c \<Longrightarrow> length c = MAX_CERT_DEPTH"
    and "\<And>c. tm_locked_cert_hash_set m = Some c \<Longrightarrow> length c = MAX_CERT_DEPTH"
  defines "cn \<equiv> (case ts_common_name (ses_at m i) of None \<Rightarrow> [] | Some n \<Rightarrow> n)"
    and "same_certs \<equiv> tm_locked_cert_hash_set m = None \<or> ts_cert_hash_set (ses_at m i) \<in> {None, tm_locked_cert_hash_set m}"
  shows "(ks_authenticated (prim_at m' i) \<longleftrightarrow> ks_authenticated (prim_at m i) \<and> tm_locked_cn m \<in> {None, Some cn} \<and> same_certs \<and>
      (\<forall>ccd. ve_ccd env = Some ccd \<longrightarrow> cn \<noteq> CCD_DEFAULT \<and> ccd cn)) \<and>
    (ks_authenticated (prim_at m' i) \<longrightarrow> ts_common_name (ses_at m' i) = Some cn) \<and>
    (ks_authenticated (prim_at m i) \<and> (tm_locked_cn m \<notin> {None, Some cn} \<or> \<not> same_certs) \<longrightarrow>
      (\<forall>j < length (tm_session m). \<not> ks_authenticated (prim_at m' j) \<and> \<not> ks_authenticated (ts_lame (ses_at m' j))))"
proof -
  define m1 where "m1 = (if ts_common_name (ses_at m i) = None then upd_ses i (\<lambda>ses. set_common_name ses (Some [])) m else m)"
  have m1: "prim_at m1 i = prim_at m i" "ts_common_name (ses_at m1 i) = Some cn" "ts_cert_hash_set (ses_at m1 i) = ts_cert_hash_set (ses_at m i)"
    "length (tm_session m1) = length (tm_session m)" "tm_locked_cn m1 = tm_locked_cn m" "tm_locked_cert_hash_set m1 = tm_locked_cert_hash_set m"
    using assms(1) by (auto simp: m1_def cn_def split: option.splits)
  define m2 where "m2 = (case tm_locked_cn m1 of
      Some locked \<Rightarrow> if ks_authenticated (prim_at m1 i) \<and> ts_common_name (ses_at m1 i) \<noteq> Some locked
        then tls_deauthenticate (upd_ses i (\<lambda>ses. set_common_name ses (Some locked)) m1) else m1
    | None \<Rightarrow> m1)"
  have eq: "m2 = m1" if "ks_authenticated (prim_at m2 i)" using that m1 assms(1) by (auto simp: m2_def split: option.splits if_splits)
  have none: "\<not> ks_authenticated (prim_at m2 j) \<and> \<not> ks_authenticated (ts_lame (ses_at m2 j))"
    if "ks_authenticated (prim_at m i)" "tm_locked_cn m \<notin> {None, Some cn}" "j < length (tm_session m)" for j
    using that m1 by (auto simp: m2_def split: option.splits)
  have len2: "length (tm_session m2) = length (tm_session m)" using m1(4) by (auto simp: m2_def split: option.splits)
  define bad where "bad \<longleftrightarrow> ks_authenticated (prim_at m2 i) \<and> tm_locked_cert_hash_set m2 \<noteq> None \<and> ts_cert_hash_set (ses_at m2 i) \<noteq> None \<and>
      \<not> cert_hash_compare (ts_cert_hash_set (ses_at m2 i)) (tm_locked_cert_hash_set m2)"
  define m3 where "m3 = (if bad then tls_deauthenticate m2 else m2)"
  have m': "m' = (case ve_ccd env of
      Some ccd \<Rightarrow> if ks_authenticated (prim_at m3 i) \<and> (case ts_common_name (ses_at m3 i) of None \<Rightarrow> True | Some cn \<Rightarrow> cn = CCD_DEFAULT \<or> \<not> ccd cn)
        then wipe_auth_token (upd_prim i (\<lambda>ks. ks\<lparr>ks_authenticated := False\<rparr>) m3) else m3
    | None \<Rightarrow> m3)"
    unfolding assms(2) verify_final_auth_checks_def Let_def m1_def [symmetric] m2_def [symmetric] bad_def [symmetric] m3_def [symmetric] ..
  have bad: "bad \<longleftrightarrow> \<not> same_certs" if "ks_authenticated (prim_at m2 i)"
    using that eq [OF that] m1 assms(3,4) unfolding bad_def same_certs_def
    by (cases "tm_locked_cert_hash_set m"; cases "ts_cert_hash_set (ses_at m i)") (auto simp: cert_hash_compare_def cert_hash_same_iff)
  have keep: "m3 = m1 \<and> m2 = m1 \<and> \<not> bad" if "ks_authenticated (prim_at m3 i)"
    using that eq len2 assms(1) by (auto simp: m3_def split: if_splits)
  have ccd: "ks_authenticated (prim_at m3 i) \<and> m' = m3 \<and> (\<forall>ccd. ve_ccd env = Some ccd \<longrightarrow> cn \<noteq> CCD_DEFAULT \<and> ccd cn)"
    if "ks_authenticated (prim_at m' i)"
    using that keep m1 len2 assms(1) by (auto simp: m' m3_def split: option.splits if_splits)
  have first: "ks_authenticated (prim_at m i) \<and> tm_locked_cn m \<in> {None, Some cn} \<and> same_certs \<and>
      (\<forall>ccd. ve_ccd env = Some ccd \<longrightarrow> cn \<noteq> CCD_DEFAULT \<and> ccd cn) \<and> ts_common_name (ses_at m' i) = Some cn"
    if a: "ks_authenticated (prim_at m' i)"
  proof -
    note b = ccd [OF a]
    note k = keep [OF conjunct1 [OF b]]
    have pa: "ks_authenticated (prim_at m i)" using b k m1(1) by simp
    moreover have "tm_locked_cn m \<in> {None, Some cn}" using none [OF pa _ assms(1)] b k m1(1) by (cases "tm_locked_cn m") auto
    moreover have "same_certs" using bad k b by simp
    ultimately show ?thesis using b k m1(2) by auto
  qed
  have second: "ks_authenticated (prim_at m' i)"
    if a: "ks_authenticated (prim_at m i)" "tm_locked_cn m \<in> {None, Some cn}" "same_certs"
      "\<forall>ccd. ve_ccd env = Some ccd \<longrightarrow> cn \<noteq> CCD_DEFAULT \<and> ccd cn"
  proof -
    have m2: "m2 = m1" using a(2) m1(2,5) by (auto simp: m2_def split: option.splits)
    then have "m3 = m1" using a(1,3) m1(1) bad by (auto simp: m3_def)
    then have "m' = m1" using a(4) m1(2) by (auto simp: m' split: option.splits)
    then show ?thesis using a(1) m1(1) by simp
  qed
  have gone: "\<not> ks_authenticated (prim_at m' j) \<and> \<not> ks_authenticated (ts_lame (ses_at m' j))"
    if a: "ks_authenticated (prim_at m i)" "tm_locked_cn m \<notin> {None, Some cn} \<or> \<not> same_certs" "j < length (tm_session m)" for j
  proof (cases "tm_locked_cn m \<in> {None, Some cn}")
    case False
    have "m' = m2" using none [OF a(1) False assms(1)] by (auto simp: m' m3_def bad_def split: option.splits)
    then show ?thesis using none [OF a(1) False a(3)] by simp
  next
    case True
    then have m2: "m2 = m1" using m1(2,5) by (auto simp: m2_def split: option.splits)
    then have "m3 = tls_deauthenticate m2" using a True m1(1) bad by (auto simp: m3_def)
    moreover from this have "m' = m3" using len2 assms(1) by (auto simp: m' split: option.splits)
    ultimately show ?thesis using a(3) len2 by simp
  qed
  show ?thesis using first second gone by blast
qed

subsection \<open>The status of a tunnel\<close>

text \<open>The table merges by priority: a failure, then an answer that is still open, then a success.\<close>

lemma acf_merge_priority:
  assumes "s1 < 4" "s2 < 4"
  shows "acf_merge ! (4 * s1 + s2) =
    (if s1 = ACF_FAILED \<or> s2 = ACF_FAILED then ACF_FAILED
     else if s1 = ACF_UNDEFINED \<or> s2 = ACF_UNDEFINED then ACF_UNDEFINED
     else if s1 = ACF_SUCCEEDED \<or> s2 = ACF_SUCCEEDED then ACF_SUCCEEDED else ACF_DISABLED)"
proof -
  have "s1 \<in> {0, 1, 2, 3}" "s2 \<in> {0, 1, 2, 3}" using assms by auto
  then show ?thesis by (auto simp: acf_merge_def ACF_defs)
qed

lemma scan_update_simps [simp]:
  assumes "length (tm_session m) = TM_SIZE" "j < 3" "k < 3"
  shows "scan_key (scan_update j f m) k = (if k = j then f (scan_key m k) else scan_key m k)"
    "length (tm_session (scan_update j f m)) = TM_SIZE" "tm_opt (scan_update j f m) = tm_opt m"
  using assms by (auto simp: scan_update_def scan_key_def Let_def TM_defs)

text \<open>The two answers about a key, and the decision on it.\<close>

definition key_answers :: "verify_env \<Rightarrow> int option \<Rightarrow> 's key_state \<Rightarrow> nat set" where
  "key_answers env file_char ks = {snd (key_state_test_auth_control_file file_char ks), man_def_auth_test env ks}"

definition key_ok :: "'s key_state \<Rightarrow> bool" where
  "key_ok ks \<longleftrightarrow> ks_auth_control_status ks < 4 \<and> ks_mda_status ks < 4"

lemma key_auth_status_spec:
  assumes "key_ok ks"
  shows "\<exists>ks' s d. key_auth_status env ts fc ks = Some (ks', s, d) \<and> key_ok ks' \<and> ks_state ks' = ks_state ks \<and>
    (s \<longleftrightarrow> ks_authenticated ks \<and> ACF_FAILED \<notin> key_answers env fc ks \<and> ACF_UNDEFINED \<notin> key_answers env fc ks) \<and>
    (ks_authenticated ks' \<longleftrightarrow> ks_authenticated ks \<and> ACF_FAILED \<notin> key_answers env fc ks) \<and>
    (d \<longleftrightarrow> ks_authenticated ks \<and> ACF_FAILED \<notin> key_answers env fc ks \<and> ACF_UNDEFINED \<in> key_answers env fc ks \<and>
      ts < ks_auth_deferred_expire ks)"
proof -
  obtain ks1 s1 where k1: "key_state_test_auth_control_file fc ks = (ks1, s1)" by fastforce
  have k1f: "s1 < 4" "ks_mda_status ks1 = ks_mda_status ks" "ks_authenticated ks1 = ks_authenticated ks" "ks_state ks1 = ks_state ks" "key_ok ks1"
    "ks_auth_deferred_expire ks1 = ks_auth_deferred_expire ks"
    using k1 assms by (auto simp: key_state_test_auth_control_file_def key_ok_def ACF_defs Let_def split: if_splits option.splits)
  define s2 where "s2 = man_def_auth_test env ks1"
  have s2: "s2 < 4" "man_def_auth_test env ks = s2" using assms k1f(2) by (auto simp: s2_def man_def_auth_test_def key_ok_def ACF_defs)
  have ans: "key_answers env fc ks = {s1, s2}" using k1 s2(2) by (simp add: key_answers_def)
  note pr = acf_merge_priority [OF k1f(1) s2(1)]
  show ?thesis
  proof (cases "ks_authenticated ks")
    case False
    then show ?thesis using assms by (auto simp: key_auth_status_def)
  next
    case True
    have r: "key_auth_status env ts fc ks =
      (let st = acf_merge ! (4 * s1 + s2) in
        if st = ACF_SUCCEEDED \<or> st = ACF_DISABLED then Some (ks1\<lparr>ks_auth_deferred := False\<rparr>, True, False)
        else if st = ACF_UNDEFINED then Some (ks1, False, ts < ks_auth_deferred_expire ks1)
        else if st = ACF_FAILED then Some (ks1\<lparr>ks_authenticated := False\<rparr>, False, False)
        else None)"
      using True k1f(1) s2(1) by (simp add: key_auth_status_def k1 s2_def [symmetric] Let_def)
    consider "ACF_FAILED \<in> {s1, s2}" | "ACF_FAILED \<notin> {s1, s2}" "ACF_UNDEFINED \<in> {s1, s2}" | "ACF_FAILED \<notin> {s1, s2}" "ACF_UNDEFINED \<notin> {s1, s2}"
      by blast
    then show ?thesis
    proof cases
      case 1
      then have "acf_merge ! (4 * s1 + s2) = ACF_FAILED" using pr by auto
      then show ?thesis using r 1 k1f True by (auto simp: ans Let_def ACF_defs key_ok_def)
    next
      case 2
      then have "acf_merge ! (4 * s1 + s2) = ACF_UNDEFINED" using pr by auto
      then show ?thesis using r 2 k1f True by (auto simp: ans Let_def ACF_defs key_ok_def)
    next
      case 3
      then have "acf_merge ! (4 * s1 + s2) = ACF_SUCCEEDED \<or> acf_merge ! (4 * s1 + s2) = ACF_DISABLED" using pr by auto
      then show ?thesis using r 3 k1f True by (auto simp: ans Let_def key_ok_def)
    qed
  qed
qed

text \<open>What the scan looks for: a key that all have accepted, and one that still may be.\<close>

definition key_good :: "verify_env \<Rightarrow> (nat \<Rightarrow> int option) \<Rightarrow> 's tls_multi \<Rightarrow> nat \<Rightarrow> bool" where
  "key_good env files m j \<longleftrightarrow> DECRYPT_KEY_ENABLED m (scan_key m j) \<and> ks_authenticated (scan_key m j) \<and>
     ACF_FAILED \<notin> key_answers env (files j) (scan_key m j) \<and> ACF_UNDEFINED \<notin> key_answers env (files j) (scan_key m j)"

definition key_waits :: "verify_env \<Rightarrow> time_t \<Rightarrow> (nat \<Rightarrow> int option) \<Rightarrow> 's tls_multi \<Rightarrow> nat \<Rightarrow> bool" where
  "key_waits env ts files m j \<longleftrightarrow> DECRYPT_KEY_ENABLED m (scan_key m j) \<and> ks_authenticated (scan_key m j) \<and>
     ACF_FAILED \<notin> key_answers env (files j) (scan_key m j) \<and> ACF_UNDEFINED \<in> key_answers env (files j) (scan_key m j) \<and>
     ts < ks_auth_deferred_expire (scan_key m j)"

definition key_refused :: "verify_env \<Rightarrow> (nat \<Rightarrow> int option) \<Rightarrow> 's tls_multi \<Rightarrow> nat \<Rightarrow> bool" where
  "key_refused env files m j \<longleftrightarrow> DECRYPT_KEY_ENABLED m (scan_key m j) \<and> ACF_FAILED \<in> key_answers env (files j) (scan_key m j)"

lemmas key_view_defs = key_good_def key_waits_def key_refused_def DECRYPT_KEY_ENABLED_def

lemma auth_scan_spec:
  assumes "length (tm_session m) = TM_SIZE" "distinct js" "\<forall>j \<in> set js. j < 3 \<and> key_ok (scan_key m j)"
  shows "\<exists>m' a s d. auth_scan env ts files js m a0 s0 d0 = Some (m', a, s, d) \<and>
    (a \<longleftrightarrow> a0 \<or> (\<exists>j \<in> set js. DECRYPT_KEY_ENABLED m (scan_key m j))) \<and>
    (s \<longleftrightarrow> s0 \<or> (\<exists>j \<in> set js. key_good env files m j)) \<and> (d \<longleftrightarrow> d0 \<or> (\<exists>j \<in> set js. key_waits env ts files m j)) \<and>
    (\<forall>j < 3. ks_authenticated (scan_key m' j) \<longleftrightarrow> ks_authenticated (scan_key m j) \<and> \<not> (j \<in> set js \<and> key_refused env files m j))"
  using assms
proof (induction js arbitrary: m a0 s0 d0)
  case (Cons j js)
  have j: "j < 3" "key_ok (scan_key m j)" using Cons.prems(3) by simp_all
  show ?case
  proof (cases "DECRYPT_KEY_ENABLED m (scan_key m j)")
    case False
    then have "\<not> key_good env files m j" "\<not> key_waits env ts files m j" "\<not> key_refused env files m j"
      by (simp_all add: key_good_def key_waits_def key_refused_def)
    then show ?thesis using Cons.IH [OF Cons.prems(1), of a0 s0 d0] Cons.prems(2,3) False by auto
  next
    case True
    obtain ks' s d where k: "key_auth_status env ts (files j) (scan_key m j) = Some (ks', s, d)" "key_ok ks'" "ks_state ks' = ks_state (scan_key m j)"
      "s \<longleftrightarrow> ks_authenticated (scan_key m j) \<and> ACF_FAILED \<notin> key_answers env (files j) (scan_key m j) \<and> ACF_UNDEFINED \<notin> key_answers env (files j) (scan_key m j)"
      "ks_authenticated ks' \<longleftrightarrow> ks_authenticated (scan_key m j) \<and> ACF_FAILED \<notin> key_answers env (files j) (scan_key m j)"
      "d \<longleftrightarrow> ks_authenticated (scan_key m j) \<and> ACF_FAILED \<notin> key_answers env (files j) (scan_key m j) \<and>
        ACF_UNDEFINED \<in> key_answers env (files j) (scan_key m j) \<and> ts < ks_auth_deferred_expire (scan_key m j)"
      using key_auth_status_spec [OF j(2)] by blast
    have sd: "s = key_good env files m j" "d = key_waits env ts files m j"
      "ks_authenticated ks' \<longleftrightarrow> ks_authenticated (scan_key m j) \<and> \<not> key_refused env files m j"
      using k(4-6) True by (simp_all add: key_good_def key_waits_def key_refused_def)
    define m1 where "m1 = scan_update j (\<lambda>_. ks') m"
    have m1: "length (tm_session m1) = TM_SIZE" "tm_opt m1 = tm_opt m" "\<And>i. i < 3 \<Longrightarrow> scan_key m1 i = (if i = j then ks' else scan_key m i)"
      using Cons.prems(1) j(1) by (simp_all add: m1_def)
    have "\<forall>i \<in> set js. i < 3 \<and> key_ok (scan_key m1 i)" using Cons.prems(3) m1(3) k(2) by auto
    note ih = Cons.IH [OF m1(1) _ this, of True "s0 \<or> s" "d0 \<or> d"]
    have same: "scan_key m1 i = scan_key m i" if "i \<in> set js" for i using that Cons.prems(2,3) m1(3) by auto
    then have views: "key_good env files m1 i = key_good env files m i" "key_waits env ts files m1 i = key_waits env ts files m i"
      "key_refused env files m1 i = key_refused env files m i" if "i \<in> set js" for i
      using that m1(2) by (simp_all add: key_view_defs)
    from ih obtain m' a s' d' where r: "auth_scan env ts files js m1 True (s0 \<or> s) (d0 \<or> d) = Some (m', a, s', d')" "a"
      "s' \<longleftrightarrow> (s0 \<or> s) \<or> (\<exists>i \<in> set js. key_good env files m i)" "d' \<longleftrightarrow> (d0 \<or> d) \<or> (\<exists>i \<in> set js. key_waits env ts files m i)"
      "\<forall>i < 3. ks_authenticated (scan_key m' i) \<longleftrightarrow> ks_authenticated (scan_key m1 i) \<and> \<not> (i \<in> set js \<and> key_refused env files m i)"
      using Cons.prems(2) views by auto
    have "auth_scan env ts files (j # js) m a0 s0 d0 = Some (m', a, s', d')" using True k(1) r(1) by (simp add: m1_def)
    moreover have "\<forall>i < 3. ks_authenticated (scan_key m' i) \<longleftrightarrow> ks_authenticated (scan_key m i) \<and>
        \<not> (i \<in> set (j # js) \<and> key_refused env files m i)"
      using r(5) sd(3) m1(3) Cons.prems(2) by auto
    ultimately show ?thesis using True r(2-4) sd(1,2) by auto
  qed
qed auto

text \<open>
  C15. The authentication status of a tunnel, with the statuses of its keys in their range. \<open>tls_authentication_status\<close> fails no assertion. A
  query that comes too early after the last one gets UNDEFINED and changes nothing. Any other gets SUCCEEDED exactly when some enabled key is
  authenticated and neither the control file nor the management interface has rejected it or still owes an answer; FAILED
  exactly when there is no such key but an enabled one, and for none is an answer outstanding that may still come; and DEFERRED otherwise. It never
  authenticates a key, and it takes the authentication from exactly those enabled keys that one of the two has rejected.
\<close>

theorem tls_authentication_status_sound:
  assumes "length (tm_session m) = TM_SIZE" "\<forall>j < 3. key_ok (scan_key m j)"
  shows "\<exists>m' st. tls_authentication_status env ts files m latency = Some (m', st) \<and>
    (if latency \<noteq> 0 \<and> tm_tas_last m \<noteq> 0 \<and> tm_tas_last m + latency \<ge> ts then m' = m \<and> st = TLS_AUTHENTICATION_UNDEFINED
     else st = (if \<exists>j < 3. key_good env files m j then TLS_AUTHENTICATION_SUCCEEDED
                else if (\<exists>j < 3. DECRYPT_KEY_ENABLED m (scan_key m j)) \<and> (\<forall>j < 3. \<not> key_waits env ts files m j)
                then TLS_AUTHENTICATION_FAILED else TLS_AUTHENTICATION_DEFERRED) \<and>
       (\<forall>j < 3. ks_authenticated (scan_key m' j) \<longleftrightarrow> ks_authenticated (scan_key m j) \<and> \<not> key_refused env files m j))"
proof (cases "latency \<noteq> 0 \<and> tm_tas_last m \<noteq> 0 \<and> tm_tas_last m + latency \<ge> ts")
  case True
  then show ?thesis by (auto simp: tls_authentication_status_def)
next
  case False
  define m0 where "m0 = m\<lparr>tm_tas_last := ts\<rparr>"
  have m0: "length (tm_session m0) = TM_SIZE" "scan_key m0 = scan_key m" "DECRYPT_KEY_ENABLED m0 = DECRYPT_KEY_ENABLED m"
    using assms(1) by (auto simp: m0_def scan_key_def fun_eq_iff DECRYPT_KEY_ENABLED_def)
  then have views: "key_good env files m0 = key_good env files m" "key_waits env ts files m0 = key_waits env ts files m"
    "key_refused env files m0 = key_refused env files m"
    by (simp_all add: fun_eq_iff key_good_def key_waits_def key_refused_def)
  have three: "set [0, 1, 2] = {j :: nat. j < 3}" by auto
  have "distinct [0, 1, 2 :: nat]" "\<forall>j \<in> set [0, 1, 2]. j < 3 \<and> key_ok (scan_key m0 j)" using assms(2) m0(2) by simp_all
  from auth_scan_spec [OF m0(1) this, of env ts files False False False, unfolded m0(2,3) views three]
  obtain m' a s d where "auth_scan env ts files [0, 1, 2] m0 False False False = Some (m', a, s, d)"
    "a \<longleftrightarrow> (\<exists>j < 3. DECRYPT_KEY_ENABLED m (scan_key m j))" "s \<longleftrightarrow> (\<exists>j < 3. key_good env files m j)"
    "d \<longleftrightarrow> (\<exists>j < 3. key_waits env ts files m j)"
    "\<forall>j < 3. ks_authenticated (scan_key m' j) \<longleftrightarrow> ks_authenticated (scan_key m j) \<and> \<not> key_refused env files m j"
    by auto
  then show ?thesis using False by (auto simp: tls_authentication_status_def m0_def)
qed

subsection \<open>Examples\<close>

definition toy_env :: verify_env where
  "toy_env = \<lparr>ve_compat_names = False, ve_no_remapping = False, ve_management = False, ve_control_file = True,
     ve_plugin = Some (\<lambda>u p. if u = p then OPENVPN_PLUGIN_FUNC_SUCCESS else OPENVPN_PLUGIN_FUNC_ERROR), ve_script = None,
     ve_ccd = Some (\<lambda>cn. cn = [97]), ve_random = replicate 32 7\<rparr>"

definition toy_tls_options :: tls_options where
  "toy_tls_options = \<lparr>to_key_type = toy_key_type, to_server = True, to_xmit_hold = False, to_local_options = [], to_remote_options = [],
     to_key_method = 2, to_replay = True, to_single_session = False, to_disable_occ = False, to_mode_server = True, to_pull = False,
     to_transition_window = 3600, to_handshake_window = 60, to_packet_timeout = 2, to_renegotiate_bytes = -1, to_renegotiate_packets = 0,
     to_renegotiate_seconds = 3600, to_crypto_flags = 0, to_replay_window = 4, to_replay_time = 15, to_config_ciphername = [],
     to_ncp_enabled = False, to_tls_wrap = zero_tls_wrap, to_frame = sample_frame, to_ssl_flags = 0, to_auth_token_generate = False,
     to_auth_token_lifetime = 0\<rparr>"

definition toy_multi :: "unit tls_multi" where
  "toy_multi = (tls_multi_init toy_tls_options)\<lparr>tm_session :=
     [zero_session\<lparr>ts_common_name := Some [97], ts_primary := zero_key_state\<lparr>ks_state := S_GOT_KEY, ks_authenticated := True\<rparr>\<rparr>,
      zero_session, zero_session]\<rparr>"

lemma verify_user_pass_sound_witness:
  "\<exists>m'. verify_user_pass toy_env 9 ([97], [97]) (tls_multi_init toy_tls_options :: unit tls_multi) 0 = Some m' \<and>
    ks_authenticated (prim_at m' 0) \<and> tm_locked_username m' = Some (clean_name toy_env [97])"
proof -
  have "0 < length (tm_session (tls_multi_init toy_tls_options :: unit tls_multi))" "\<not> ks_authenticated (prim_at (tls_multi_init toy_tls_options :: unit tls_multi) 0)"
    "length (ve_random toy_env) = 32"
    by (simp_all add: tls_multi_init_def TM_SIZE_def zero_session_def zero_key_state_def toy_env_def numeral_3_eq_3)
  note s = verify_user_pass_sound [OF this, of 9 "[97]" "[97]"]
  have "map_option (\<lambda>m. ks_authenticated (prim_at m 0)) (verify_user_pass toy_env 9 ([97], [97]) (tls_multi_init toy_tls_options :: unit tls_multi) 0) = Some True"
  proof -
    have cl: "char_inc_exc 97 CC_PRINT CC_CRLF" by code_simp
    show ?thesis
      by (simp add: verify_user_pass_def verify_user_pass_external_def string_mod_remap_name_def cl Let_def
          verify_user_pass_plugin_def verify_user_pass_accepted_def name_given_def tls_lock_username_def upd_prim_def upd_ses_def toy_env_def
          tls_multi_init_def toy_tls_options_def TM_SIZE_def numeral_3_eq_3 OPENVPN_PLUGIN_FUNC_SUCCESS_def OPENVPN_PLUGIN_FUNC_DEFERRED_def
          KMDA_UNDEF_def KMDA_DEF_def KMDA_ERROR_def)
  qed
  moreover obtain m' where "verify_user_pass toy_env 9 ([97], [97]) (tls_multi_init toy_tls_options :: unit tls_multi) 0 = Some m'"
    "ks_authenticated (prim_at m' 0) \<longrightarrow> tm_locked_username m' = Some (clean_name toy_env [97])" using s by blast
  ultimately show ?thesis by simp
qed

lemma verify_final_auth_checks_sound_witness:
  "ks_authenticated (prim_at (verify_final_auth_checks toy_env toy_multi 0) 0) \<and>
    ts_common_name (ses_at (verify_final_auth_checks toy_env toy_multi 0) 0) = Some [97]"
proof -
  have "ks_authenticated (prim_at (verify_final_auth_checks toy_env toy_multi 0) 0)" by code_simp
  then show ?thesis
    using verify_final_auth_checks_sound [of 0 toy_multi _ toy_env]
    by (simp add: toy_multi_def tls_multi_init_def zero_session_def)
qed

lemma tls_authentication_status_sound_witness:
  "\<exists>m'. tls_authentication_status toy_env 9 (\<lambda>_. None) toy_multi 0 = Some (m', TLS_AUTHENTICATION_SUCCEEDED) \<and> ks_authenticated (scan_key m' 0)"
proof -
  have a: "length (tm_session toy_multi) = TM_SIZE" by (simp add: toy_multi_def TM_SIZE_def)
  have "\<forall>j < 3. key_ok (scan_key toy_multi j)"
    by (auto simp: toy_multi_def scan_key_def TM_defs key_ok_def zero_session_def zero_key_state_def)
  note s = tls_authentication_status_sound [OF a this, of toy_env 9 "\<lambda>_. None" 0]
  have "map_option snd (tls_authentication_status toy_env 9 (\<lambda>_. None) toy_multi 0) = Some TLS_AUTHENTICATION_SUCCEEDED" by code_simp
  moreover have "ks_authenticated (scan_key toy_multi 0)" "ACF_FAILED \<notin> key_answers toy_env None (scan_key toy_multi 0)" by code_simp+
  moreover obtain m' st where "tls_authentication_status toy_env 9 (\<lambda>_. None) toy_multi 0 = Some (m', st)"
    "\<forall>j < 3. ks_authenticated (scan_key m' j) \<longleftrightarrow> ks_authenticated (scan_key toy_multi j) \<and> \<not> key_refused toy_env (\<lambda>_. None) toy_multi j"
    using s by auto
  ultimately show ?thesis by (auto simp: key_refused_def)
qed

end
