(* ===== verification/Key_Method.thy ===== *)
theory Key_Method
  imports Ssl_Verify
begin

text \<open>
  ssl.c: the messages that the two ends exchange once the TLS handshake is done. Key method 1 sends a key and the option string,
  key method 2 sends random material, options, user name and password and information on the peer; the
  keys of the data channel are then derived from the material of both ends. What comes from outside is the record
  \<open>km_env\<close>: random bytes, the user name and password to send, the text that \<open>push_peer_info\<close> puts
  together (\<open>None\<close> when it is switched off), and the answer of the plug-in that has the last word.
\<close>

definition TLS_OPTIONS_LEN :: int where "TLS_OPTIONS_LEN = 512"
definition USER_PASS_LEN :: int where "USER_PASS_LEN = 128"
definition KEY_METHOD_MASK :: int where "KEY_METHOD_MASK = 15"

record km_env =
  km_prf :: prf_lib
  km_verify :: verify_env
  km_source :: key_source
  km_key :: "nat \<Rightarrow> byte list \<times> byte list"
  km_user_pass :: "(byte list \<times> byte list) option"
  km_peer_info :: "byte list option"
  km_plugin_final :: "bool option"

subsection \<open>Strings with a length\<close>

definition write_empty_string :: "buffer \<Rightarrow> (buffer \<times> bool) option" where
  "write_empty_string buf = buf_write_u16 buf 0"

definition write_string :: "buffer \<Rightarrow> byte list \<Rightarrow> int \<Rightarrow> (buffer \<times> bool) option" where
  "write_string buf str maxlen =
     (let len = int (length str) + 1 in
      if len < 1 \<or> (maxlen \<ge> 0 \<and> len > maxlen) then Some (buf, False)
      else do {
        (buf, ok) \<leftarrow> buf_write_u16 buf len;
        if \<not> ok then Some (buf, False)
        else buf_write buf (str @ [0])
      })"

text \<open>The string read, if there is one: what the array holds up to the first terminator.\<close>

definition read_string :: "buffer \<Rightarrow> int \<Rightarrow> (buffer \<times> byte list option) option" where
  "read_string buf capacity = do {
     (buf, len) \<leftarrow> buf_read_u16 buf;
     if len < 1 \<or> len > capacity then Some (buf, None)
     else do {
       (buf, r) \<leftarrow> buf_read buf len;
       Some (buf, map_option (\<lambda>bs. takeWhile (\<lambda>c. c \<noteq> 0) (butlast bs)) r)
     }
   }"

definition read_string_alloc :: "buffer \<Rightarrow> (buffer \<times> byte list option) option" where
  "read_string_alloc buf = do {
     (buf, len) \<leftarrow> buf_read_u16 buf;
     if len < 1 then Some (buf, None)
     else do {
       (buf, r) \<leftarrow> buf_read buf len;
       Some (buf, map_option (\<lambda>bs. takeWhile (\<lambda>c. c \<noteq> 0) (butlast bs)) r)
     }
   }"

subsection \<open>Key sources\<close>

definition key_source2_randomize_write :: "key_source \<Rightarrow> key_source2 \<Rightarrow> buffer \<Rightarrow> bool \<Rightarrow> (key_source2 \<times> buffer \<times> bool) option" where
  "key_source2_randomize_write rnd k2 buf server = do {
     let store = (\<lambda>k. if server then k2\<lparr>src_server := k\<rparr> else k2\<lparr>src_client := k\<rparr>);
     let k = zero_key_source;
     (k, buf, ok) \<leftarrow> (if \<not> server then do {
                         (buf, ok) \<leftarrow> buf_write buf (pre_master rnd);
                         Some (k\<lparr>pre_master := pre_master rnd\<rparr>, buf, ok)
                       } else Some (k, buf, True));
     if \<not> ok then Some (store k, buf, False)
     else do {
       let k = k\<lparr>random1 := random1 rnd\<rparr>;
       (buf, ok) \<leftarrow> buf_write buf (random1 rnd);
       if \<not> ok then Some (store k, buf, False)
       else do {
         let k = k\<lparr>random2 := random2 rnd\<rparr>;
         (buf, ok) \<leftarrow> buf_write buf (random2 rnd);
         Some (store k, buf, ok)
       }
     }
   }"

definition key_source2_read :: "key_source2 \<Rightarrow> buffer \<Rightarrow> bool \<Rightarrow> (key_source2 \<times> buffer \<times> bool) option" where
  "key_source2_read k2 buf server = do {
     let store = (\<lambda>k. if \<not> server then k2\<lparr>src_server := k\<rparr> else k2\<lparr>src_client := k\<rparr>);
     let k = zero_key_source;
     (k, buf, ok) \<leftarrow> (if server then do {
                         (buf, r) \<leftarrow> buf_read buf 48;
                         Some (case r of Some bs \<Rightarrow> (k\<lparr>pre_master := bs\<rparr>, buf, True) | None \<Rightarrow> (k, buf, False))
                       } else Some (k, buf, True));
     if \<not> ok then Some (store k, buf, False)
     else do {
       (buf, r) \<leftarrow> buf_read buf 32;
       case r of
         None \<Rightarrow> Some (store k, buf, False)
       | Some bs \<Rightarrow> do {
           let k = k\<lparr>random1 := bs\<rparr>;
           (buf, r) \<leftarrow> buf_read buf 32;
           Some (case r of
             None \<Rightarrow> (store k, buf, False)
           | Some bs \<Rightarrow> (store (k\<lparr>random2 := bs\<rparr>), buf, True))
         }
     }
   }"

text \<open>\<open>secure_memzero (ks->key_src)\<close>\<close>

definition zero_key_src :: "'s key_state \<Rightarrow> 's key_state" where
  "zero_key_src ks = ks\<lparr>ks_key_src := map_option (\<lambda>_. zero_key_source2) (ks_key_src ks)\<rparr>"

definition tls_session_generate_data_channel_keys :: "prf_lib \<Rightarrow> 's tls_multi \<Rightarrow> nat \<Rightarrow> ('s tls_multi \<times> bool) option" where
  "tls_session_generate_data_channel_keys lib m i = do {
     let ks = prim_at m i;
     let opt = tm_opt m;
     let client_sid = (if to_server opt then ks_session_id_remote ks else ts_session_id (ses_at m i));
     let server_sid = (if \<not> to_server opt then ks_session_id_remote ks else ts_session_id (ses_at m i));
     c_assert (ks_authenticated ks);
     src \<leftarrow> ks_key_src ks;
     (kb, ok) \<leftarrow> generate_key_expansion lib (ks_keys ks) (to_key_type opt) src client_sid server_sid (to_server opt);
     let m = upd_prim i (\<lambda>ks. zero_key_src (ks\<lparr>ks_crypto := (ks_crypto ks)\<lparr>co_flags := to_crypto_flags opt\<rparr>, ks_keys := kb\<rparr>)) m;
     if \<not> ok then Some (m, False)
     else Some (m\<lparr>tm_opt := (tm_opt m)\<lparr>to_renegotiate_bytes :=
            tls_limit_reneg_bytes (kt_cipher (to_key_type opt)) (to_renegotiate_bytes opt)\<rparr>\<rparr>, True)
   }"

subsection \<open>Key method 1\<close>

text \<open>\<open>km_key env n\<close> are the bytes that the \<open>n\<close>-th round of the loop gets from the random number generator.\<close>

partial_function (option) generate_key_loop :: "(nat \<Rightarrow> byte list \<times> byte list) \<Rightarrow> nat \<Rightarrow> key_type \<Rightarrow> key option" where
  "generate_key_loop rnd n kt =
     (let cipher_len = (if kt_cipher kt \<noteq> None \<and> kt_cipher_length kt > 0 \<and> kt_cipher_length kt \<le> MAX_CIPHER_KEY_LENGTH
                        then kt_cipher_length kt else MAX_CIPHER_KEY_LENGTH);
          hmac_len = (if kt_digest kt \<noteq> None \<and> kt_hmac_length kt > 0 \<and> kt_hmac_length kt \<le> MAX_HMAC_KEY_LENGTH
                      then kt_hmac_length kt else MAX_HMAC_KEY_LENGTH);
          k = fixup_key \<lparr>key_cipher = take 64 (take (nat cipher_len) (fst (rnd n)) @ replicate 64 0),
                         key_hmac = take 64 (take (nat hmac_len) (snd (rnd n)) @ replicate 64 0)\<rparr> kt
      in if \<not> check_key k kt then generate_key_loop rnd (n + 1) kt else Some k)"

declare generate_key_loop.simps [code]

definition generate_key_random :: "(nat \<Rightarrow> byte list \<times> byte list) \<Rightarrow> key_type \<Rightarrow> key option" where
  "generate_key_random rnd kt = generate_key_loop rnd 0 kt"

definition key_method_1_write :: "km_env \<Rightarrow> buffer \<Rightarrow> 's tls_multi \<Rightarrow> nat \<Rightarrow> ('s tls_multi \<times> buffer \<times> bool) option" where
  "key_method_1_write env buf m i = do {
     c_assert (to_key_method (tm_opt m) = 1);
     let (buf, ok) = buf_init buf 0;
     c_assert ok;
     k \<leftarrow> generate_key_random (km_key env) (to_key_type (tm_opt m));
     if \<not> check_key k (to_key_type (tm_opt m)) then Some (m, buf, False)
     else do {
       (buf, ok) \<leftarrow> write_key k (to_key_type (tm_opt m)) buf;
       if \<not> ok then Some (m, buf, False)
       else do {
         let m = upd_prim i (\<lambda>ks. ks\<lparr>ks_keys := (ks_keys ks)\<lparr>kb_encrypt := init_key_ctx k (to_key_type (tm_opt m))\<rparr>\<rparr>) m;
         (buf, ok) \<leftarrow> buf_write buf (to_local_options (tm_opt m) @ [0]);
         Some (m, buf, ok)
       }
     }
   }"

text \<open>Options that differ only make the code warn.\<close>

definition key_method_1_read :: "buffer \<Rightarrow> 's tls_multi \<Rightarrow> nat \<Rightarrow> ('s tls_multi \<times> buffer \<times> bool) option" where
  "key_method_1_read buf m i = do {
     c_assert (to_key_method (tm_opt m) = 1);
     if \<not> ts_verified (ses_at m i) then do { buf \<leftarrow> buf_clear buf; Some (m, buf, False) }
     else do {
       (k, buf, status) \<leftarrow> read_key (to_key_type (tm_opt m)) buf;
       if status \<noteq> 1 \<or> \<not> check_key k (to_key_type (tm_opt m)) \<or> b_len buf < 1
       then do { buf \<leftarrow> buf_clear buf; Some (m, buf, False) }
       else do {
         buf \<leftarrow> buf_clear buf;
         Some (upd_prim i (\<lambda>ks. ks\<lparr>ks_keys := (ks_keys ks)\<lparr>kb_decrypt := init_key_ctx k (to_key_type (tm_opt m))\<rparr>,
                                   ks_authenticated := True\<rparr>) m, buf, True)
       }
     }
   }"

subsection \<open>Key method 2\<close>

text \<open>The steps of a writer: each gets the buffer, and the first that fails ends the sequence.\<close>

fun write_seq :: "(buffer \<Rightarrow> (buffer \<times> bool) option) list \<Rightarrow> buffer \<Rightarrow> (buffer \<times> bool) option" where
  "write_seq [] buf = Some (buf, True)"
| "write_seq (f # fs) buf = do {
     (buf, ok) \<leftarrow> f buf;
     if \<not> ok then Some (buf, False) else write_seq fs buf
   }"

definition push_peer_info :: "km_env \<Rightarrow> buffer \<Rightarrow> (buffer \<times> bool) option" where
  "push_peer_info env buf =
     (case km_peer_info env of
        Some info \<Rightarrow> write_string buf info (-1)
      | None \<Rightarrow> write_empty_string buf)"

text \<open>The fields of the message.\<close>

definition key_method_2_put :: "km_env \<Rightarrow> tls_options \<Rightarrow> key_source2 \<Rightarrow> buffer \<Rightarrow> (key_source2 \<times> buffer \<times> bool) option" where
  "key_method_2_put env opt src buf = do {
     (buf, ok) \<leftarrow> write_seq [\<lambda>buf. buf_write_u32 buf 0, \<lambda>buf. buf_write_u8 buf (to_key_method opt AND KEY_METHOD_MASK)] buf;
     if \<not> ok then Some (src, buf, False)
     else do {
       (src, buf, ok) \<leftarrow> key_source2_randomize_write (km_source env) src buf (to_server opt);
       if \<not> ok then Some (src, buf, False)
       else do {
         (buf, ok) \<leftarrow> write_seq
           ((\<lambda>buf. write_string buf (to_local_options opt) TLS_OPTIONS_LEN) #
            (case km_user_pass env of
               Some (username, password) \<Rightarrow> [\<lambda>buf. write_string buf username (-1), \<lambda>buf. write_string buf password (-1)]
             | None \<Rightarrow> [write_empty_string, write_empty_string]) @
            [push_peer_info env]) buf;
         Some (src, buf, ok)
       }
     }
   }"

definition key_method_2_write :: "km_env \<Rightarrow> buffer \<Rightarrow> 's tls_multi \<Rightarrow> nat \<Rightarrow> ('s tls_multi \<times> buffer \<times> bool) option" where
  "key_method_2_write env buf m i = do {
     c_assert (to_key_method (tm_opt m) = 2);
     let (buf, ok) = buf_init buf 0;
     c_assert ok;
     src \<leftarrow> ks_key_src (prim_at m i);
     (src, buf, ok) \<leftarrow> key_method_2_put env (tm_opt m) src buf;
     let m = upd_prim i (\<lambda>ks. ks\<lparr>ks_key_src := Some src\<rparr>) m;
     if \<not> ok then Some (upd_prim i zero_key_src m, buf, False)
     else if to_server (tm_opt m) \<and> \<not> (to_ncp_enabled (tm_opt m) \<and> to_mode_server (tm_opt m) \<and> ks_key_id (prim_at m i) \<le> 0) \<and>
             ks_authenticated (prim_at m i)
     then do {
       (m, ok) \<leftarrow> tls_session_generate_data_channel_keys (km_prf env) m i;
       Some (if \<not> ok then upd_prim i zero_key_src m else m, buf, ok)
     } else Some (m, buf, True)
   }"

definition tls_session_user_pass_enabled :: "km_env \<Rightarrow> bool" where
  "tls_session_user_pass_enabled env \<longleftrightarrow>
     ve_script (km_verify env) \<noteq> None \<or> ve_plugin (km_verify env) \<noteq> None \<or> ve_management (km_verify env)"

text \<open>Everything after the fields have been read: authentication, the consistency of the options, the plug-in, the client's keys.\<close>

definition key_method_2_authenticate ::
  "km_env \<Rightarrow> time_t \<Rightarrow> byte list \<Rightarrow> byte list option \<Rightarrow> byte list option \<Rightarrow> 's tls_multi \<Rightarrow> nat \<Rightarrow> ('s tls_multi \<times> bool) option" where
  "key_method_2_authenticate env local_now options username password m i =
     (if tls_session_user_pass_enabled env then
        (case (username, password) of
           (Some u, Some p) \<Rightarrow> do { m \<leftarrow> verify_user_pass (km_verify env) local_now (u, p) m i; Some (m, True) }
         | _ \<Rightarrow>
             if to_ssl_flags (tm_opt m) AND SSLF_AUTH_USER_PASS_OPTIONAL = 0 then Some (m, False)
             else do { m \<leftarrow> verify_user_pass (km_verify env) local_now ([], []) m i; Some (m, True) })
      else if \<not> ts_verified (ses_at m i) then Some (m, False)
      else Some (upd_prim i (\<lambda>ks. ks\<lparr>ks_authenticated := True\<rparr>) m, True))"

definition key_method_2_check :: "km_env \<Rightarrow> byte list \<Rightarrow> 's tls_multi \<Rightarrow> nat \<Rightarrow> 's tls_multi" where
  "key_method_2_check env options m i =
     (let m = (if ks_authenticated (prim_at m i) then verify_final_auth_checks (km_verify env) m i else m);
          m = (if \<not> to_disable_occ (tm_opt m) \<and> \<not> options_cmp_equal options (to_remote_options (tm_opt m)) \<and>
                  to_ssl_flags (tm_opt m) AND SSLF_OPT_VERIFY \<noteq> 0
               then upd_prim i (\<lambda>ks. ks\<lparr>ks_authenticated := False\<rparr>) m else m)
      in if ks_authenticated (prim_at m i) \<and> km_plugin_final env = Some False
         then upd_prim i (\<lambda>ks. ks\<lparr>ks_authenticated := False\<rparr>) m else m)"

text \<open>The fields of a message that arrives: the options, user name, password and information on the peer, unless it is refused.\<close>

definition key_method_2_get :: "tls_options \<Rightarrow> key_source2 \<Rightarrow> buffer \<Rightarrow>
  (key_source2 \<times> buffer \<times> (byte list \<times> byte list option \<times> byte list option \<times> byte list option) option) option" where
  "key_method_2_get opt src buf = do {
     let (buf, ok) = buf_advance buf 4;
     if \<not> ok then Some (src, buf, None)
     else do {
       (buf, key_method_flags) \<leftarrow> buf_read_u8 buf;
       if key_method_flags AND KEY_METHOD_MASK \<noteq> 2 then Some (src, buf, None)
       else do {
         (src, buf, ok) \<leftarrow> key_source2_read src buf (to_server opt);
         if \<not> ok then Some (src, buf, None)
         else do {
           (buf, options) \<leftarrow> read_string buf TLS_OPTIONS_LEN;
           case options of
             None \<Rightarrow> Some (src, buf, None)
           | Some options \<Rightarrow> do {
               (buf, username) \<leftarrow> read_string buf USER_PASS_LEN;
               (buf, password) \<leftarrow> read_string buf USER_PASS_LEN;
               (buf, info) \<leftarrow> read_string_alloc buf;
               Some (src, buf, Some (options, username, password, info))
             }
         }
       }
     }
   }"

definition key_method_2_peer :: "byte list \<Rightarrow> byte list option \<Rightarrow> 's tls_multi \<Rightarrow> 's tls_multi" where
  "key_method_2_peer options info m =
     (let m = m\<lparr>tm_peer_info := info, tm_remote_ciphername := options_string_extract_option options (bytes_of ''cipher'')\<rparr>
      in if tls_peer_info_ncp_ver (tm_peer_info m) < 2 \<and>
            (tm_remote_ciphername m = None \<or> tm_remote_ciphername m = Some (to_config_ciphername (tm_opt m)))
         then m\<lparr>tm_opt := (tm_opt m)\<lparr>to_ncp_enabled := False\<rparr>\<rparr> else m)"

definition key_method_2_read :: "km_env \<Rightarrow> time_t \<Rightarrow> buffer \<Rightarrow> 's tls_multi \<Rightarrow> nat \<Rightarrow> ('s tls_multi \<times> buffer \<times> bool) option" where
  "key_method_2_read env local_now buf m i = do {
     c_assert (to_key_method (tm_opt m) = 2);
     src \<leftarrow> ks_key_src (prim_at m i);
     (src, buf, fields) \<leftarrow> key_method_2_get (tm_opt m) src buf;
     let m = upd_prim i (\<lambda>ks. ks\<lparr>ks_key_src := Some src\<rparr>) m;
     buf \<leftarrow> buf_clear buf;
     case fields of
       None \<Rightarrow> Some (upd_prim i zero_key_src m, buf, False)
     | Some (options, username, password, info) \<Rightarrow> do {
         let m = key_method_2_peer options info (upd_prim i (\<lambda>ks. ks\<lparr>ks_authenticated := False\<rparr>) m);
         (m, ok) \<leftarrow> key_method_2_authenticate env local_now options username password m i;
         if \<not> ok then Some (upd_prim i zero_key_src m, buf, False)
         else do {
           let m = key_method_2_check env options m i;
           if \<not> to_server (tm_opt m) \<and> (\<not> to_pull (tm_opt m) \<or> ks_key_id (prim_at m i) > 0) then do {
             (m, ok) \<leftarrow> tls_session_generate_data_channel_keys (km_prf env) m i;
             Some (if \<not> ok then upd_prim i zero_key_src m else m, buf, ok)
           } else Some (m, buf, True)
         }
       }
   }"

subsection \<open>Fields on the wire\<close>

definition wire_string :: "byte list \<Rightarrow> byte list" where
  "wire_string s = be16 (word_of_int (int (length s) + 1)) @ s @ [0]"

definition wire_opt :: "byte list option \<Rightarrow> byte list" where
  "wire_opt v = (case v of Some s \<Rightarrow> wire_string s | None \<Rightarrow> be16 0)"

definition string_fits :: "int \<Rightarrow> byte list \<Rightarrow> bool" where
  "string_fits cap s \<longleftrightarrow> 0 \<notin> set s \<and> int (length s) + 1 \<le> cap"

lemma length_wire_string [simp]: "length (wire_string s) = length s + 3"
  by (simp add: wire_string_def)

text \<open>A writer \<open>f\<close> that appends \<open>w\<close> whenever there is room for it.\<close>

definition writes :: "(buffer \<Rightarrow> (buffer \<times> bool) option) \<Rightarrow> byte list \<Rightarrow> bool" where
  "writes f w \<longleftrightarrow> (\<forall>b. buf_ok b \<longrightarrow> length w \<le> tailroom b \<longrightarrow>
     (\<exists>b'. f b = Some (b', True) \<and> buf_ok b' \<and> content b' = content b @ w \<and> tailroom b' = tailroom b - length w))"

lemma writes_bytes: "writes (\<lambda>b. buf_write b w) w"
  unfolding writes_def using buf_write_room by metis

lemma writesD:
  assumes "writes f w" "buf_ok b" "length w \<le> tailroom b"
  obtains b' where "f b = Some (b', True)" "buf_ok b'" "content b' = content b @ w" "tailroom b' = tailroom b - length w"
  using assms unfolding writes_def by blast

lemma writes_seq: "list_all2 writes fs ws \<Longrightarrow> writes (write_seq fs) (concat ws)"
proof (induction fs ws rule: list_all2_induct)
  case (Cons f fs w ws)
  show ?case unfolding writes_def
  proof (intro allI impI)
    fix b assume b: "buf_ok b" "length (concat (w # ws)) \<le> tailroom b"
    then have "length w \<le> tailroom b" by simp
    from writesD [OF Cons(1) b(1) this] obtain b1 where b1: "f b = Some (b1, True)" "buf_ok b1"
      "content b1 = content b @ w" "tailroom b1 = tailroom b - length w" .
    have "length (concat ws) \<le> tailroom b1" using b(2) b1(4) by simp
    from writesD [OF Cons(3) b1(2) this] obtain b2 where "write_seq fs b1 = Some (b2, True)" "buf_ok b2"
      "content b2 = content b1 @ concat ws" "tailroom b2 = tailroom b1 - length (concat ws)" .
    then show "\<exists>b'. write_seq (f # fs) b = Some (b', True) \<and> buf_ok b' \<and> content b' = content b @ concat (w # ws) \<and>
        tailroom b' = tailroom b - length (concat (w # ws))" using b1 by simp
  qed
qed (simp add: writes_def)

lemma writes_u32: "writes (\<lambda>b. buf_write_u32 b x) (be32 (word_of_int x))"
  unfolding buf_write_u32_def by (rule writes_bytes)

lemma writes_u8: "writes (\<lambda>b. buf_write_u8 b x) [word_of_int x]"
  unfolding buf_write_u8_def by (rule writes_bytes)

lemma writes_empty: "writes write_empty_string (be16 0)"
  using writes_bytes [of "be16 0"] by (simp add: write_empty_string_def [abs_def] buf_write_u16_def)

lemma writes_string: "maxlen < 0 \<or> int (length s) + 1 \<le> maxlen \<Longrightarrow> writes (\<lambda>b. write_string b s maxlen) (wire_string s)"
proof -
  assume a: "maxlen < 0 \<or> int (length s) + 1 \<le> maxlen"
  have "list_all2 writes [\<lambda>b. buf_write_u16 b (int (length s) + 1), \<lambda>b. buf_write b (s @ [0])] [be16 (word_of_int (int (length s) + 1)), s @ [0]]"
    unfolding buf_write_u16_def by (simp add: writes_bytes)
  from writes_seq [OF this] have "writes (write_seq [\<lambda>b. buf_write_u16 b (int (length s) + 1), \<lambda>b. buf_write b (s @ [0])]) (wire_string s)"
    by (simp add: wire_string_def)
  moreover have "write_string b s maxlen = write_seq [\<lambda>b. buf_write_u16 b (int (length s) + 1), \<lambda>b. buf_write b (s @ [0])] b" for b
    using a by (auto simp: write_string_def Let_def split: Option.bind_splits prod.splits)
  ultimately show ?thesis by (simp only: writes_def)
qed

lemma read_u16_content:
  assumes "buf_ok b" "content b = be16 x @ rest"
  obtains b' where "buf_read_u16 b = Some (b', uint x)" "buf_ok b'" "content b' = rest"
proof -
  have "2 = int (length (be16 x))" by simp
  from buf.get_front [OF assms this] obtain b' where "buf_read b 2 = Some (b', Some (be16 x))" "buf_ok b'" "content b' = rest" .
  then show thesis using that by (simp add: buf_read_u16_def)
qed

lemma read_wire:
  assumes "buf_ok b" "content b = wire_opt v @ rest" "\<And>s. v = Some s \<Longrightarrow> string_fits 65536 s \<and> int (length s) < 65535"
  obtains b' where "buf_ok b'" "content b' = rest" "read_string_alloc b = Some (b', v)"
    "\<And>cap. (\<And>s. v = Some s \<Longrightarrow> string_fits cap s) \<Longrightarrow> read_string b cap = Some (b', v)"
proof (cases v)
  case None
  then have "content b = be16 0 @ rest" using assms(2) by (simp add: wire_opt_def)
  from read_u16_content [OF assms(1) this] obtain b' where "buf_read_u16 b = Some (b', uint (0 :: u16))" "buf_ok b'" "content b' = rest" .
  then show thesis using that [of b'] None by (simp add: read_string_alloc_def read_string_def)
next
  case (Some s)
  define n where "n = int (length s) + 1"
  have s: "0 \<notin> set s" "n < 65536" "n > 0" using assms(3) [OF Some] by (simp_all add: string_fits_def n_def)
  have un: "uint (word_of_int n :: u16) = n" using s(2,3) by (simp add: uint_word_of_int)
  have "content b = be16 (word_of_int n) @ s @ [0] @ rest" using assms(2) Some by (simp add: wire_opt_def wire_string_def n_def)
  from read_u16_content [OF assms(1) this] obtain b1 where b1: "buf_read_u16 b = Some (b1, n)" "buf_ok b1" "content b1 = s @ [0] @ rest"
    unfolding un .
  have "content b1 = (s @ [0]) @ rest" "n = int (length (s @ [0]))" using b1(3) by (simp_all add: n_def)
  from buf.get_front [OF b1(2) this] obtain b2 where b2: "buf_read b1 n = Some (b2, Some (s @ [0]))" "buf_ok b2" "content b2 = rest" .
  have tk: "takeWhile (\<lambda>c. c \<noteq> 0) s = s" using s(1) by (auto simp: takeWhile_eq_all_conv)
  show thesis
  proof (rule that)
    show "buf_ok b2" "content b2 = rest" using b2 by simp_all
    show "read_string_alloc b = Some (b2, v)" using b1(1) b2(1) s(3) Some tk by (simp add: read_string_alloc_def)
    show "read_string b cap = Some (b2, v)" if "\<And>s. v = Some s \<Longrightarrow> string_fits cap s" for cap
      using that [OF Some] b1(1) b2(1) s(3) Some tk by (simp add: read_string_def string_fits_def n_def)
  qed
qed

subsection \<open>Key sources on the wire\<close>

definition source_ok :: "key_source \<Rightarrow> bool" where
  "source_ok k \<longleftrightarrow> length (pre_master k) = 48 \<and> length (random1 k) = 32 \<and> length (random2 k) = 32"

definition wire_source :: "bool \<Rightarrow> key_source \<Rightarrow> byte list" where
  "wire_source server k = (if server then [] else pre_master k) @ random1 k @ random2 k"

text \<open>What the other end knows of the source of one end: the server's part has no pre-master secret.\<close>

definition store_source :: "bool \<Rightarrow> key_source \<Rightarrow> key_source2 \<Rightarrow> key_source2" where
  "store_source server k k2 = (if server then k2\<lparr>src_server := k\<lparr>pre_master := zero_bytes 48\<rparr>\<rparr> else k2\<lparr>src_client := k\<rparr>)"

lemma source_write_spec:
  assumes "buf_ok b" "length (wire_source server rnd) \<le> tailroom b"
  shows "\<exists>b'. key_source2_randomize_write rnd k2 b server = Some (store_source server rnd k2, b', True) \<and> buf_ok b' \<and>
    content b' = content b @ wire_source server rnd \<and> tailroom b' = tailroom b - length (wire_source server rnd)"
proof -
  define pm where "pm = (if server then [] else pre_master rnd)"
  have "length pm \<le> tailroom b" using assms(2) by (simp add: pm_def wire_source_def)
  from writesD [OF writes_bytes assms(1) this] obtain b1 where b1: "buf_write b pm = Some (b1, True)" "buf_ok b1"
    "content b1 = content b @ pm" "tailroom b1 = tailroom b - length pm" .
  define b1' where "b1' = (if server then b else b1)"
  have b1': "buf_ok b1'" "content b1' = content b @ pm" "tailroom b1' = tailroom b - length pm"
    using b1 assms(1) by (auto simp: b1'_def pm_def)
  have "length (random1 rnd) \<le> tailroom b1'" using assms(2) b1'(3) by (simp add: pm_def wire_source_def)
  from writesD [OF writes_bytes b1'(1) this] obtain b2 where b2: "buf_write b1' (random1 rnd) = Some (b2, True)" "buf_ok b2"
    "content b2 = content b1' @ random1 rnd" "tailroom b2 = tailroom b1' - length (random1 rnd)" .
  have "length (random2 rnd) \<le> tailroom b2" using assms(2) b1'(3) b2(4) by (simp add: pm_def wire_source_def)
  from writesD [OF writes_bytes b2(2) this] obtain b3 where b3: "buf_write b2 (random2 rnd) = Some (b3, True)" "buf_ok b3"
    "content b3 = content b2 @ random2 rnd" "tailroom b3 = tailroom b2 - length (random2 rnd)" .
  have "key_source2_randomize_write rnd k2 b server = Some (store_source server rnd k2, b3, True)"
    using b1(1) b2(1) b3(1)
    by (cases server) (simp_all add: key_source2_randomize_write_def b1'_def pm_def store_source_def zero_key_source_def)
  then show ?thesis using b1' b2 b3 by (simp add: wire_source_def pm_def)
qed

lemma source_read_spec:
  assumes "buf_ok b" "content b = wire_source (\<not> server) rnd @ rest" "source_ok rnd"
  shows "\<exists>b'. key_source2_read k2 b server = Some (store_source (\<not> server) rnd k2, b', True) \<and> buf_ok b' \<and> content b' = rest"
proof -
  note l = assms(3) [unfolded source_ok_def]
  obtain b1 where b1: "(if server then buf_read b 48 else Some (b, None)) = Some (b1, if server then Some (pre_master rnd) else None)" "buf_ok b1"
    "content b1 = random1 rnd @ random2 rnd @ rest"
  proof (cases server)
    case True
    then have "content b = pre_master rnd @ random1 rnd @ random2 rnd @ rest" "48 = int (length (pre_master rnd))"
      using assms(2) l by (simp_all add: wire_source_def)
    from buf.get_front [OF assms(1) this] show thesis using True that by auto
  qed (use assms that in \<open>simp add: wire_source_def\<close>)
  have "32 = int (length (random1 rnd))" using l by simp
  from buf.get_front [OF b1(2,3) this] obtain b2 where b2: "buf_read b1 32 = Some (b2, Some (random1 rnd))" "buf_ok b2"
    "content b2 = random2 rnd @ rest" .
  have "32 = int (length (random2 rnd))" using l by simp
  from buf.get_front [OF b2(2,3) this] obtain b3 where b3: "buf_read b2 32 = Some (b3, Some (random2 rnd))" "buf_ok b3" "content b3 = rest" .
  have "key_source2_read k2 b server = Some (store_source (\<not> server) rnd k2, b3, True)"
    using b1(1) b2(1) b3(1)
    by (cases server) (simp_all add: key_source2_read_def store_source_def zero_key_source_def)
  then show ?thesis using b3 by blast
qed

subsection \<open>Messages of key method 2\<close>

definition wire_info :: "km_env \<Rightarrow> tls_options \<Rightarrow> byte list" where
  "wire_info env opt = wire_string (to_local_options opt) @ wire_opt (map_option fst (km_user_pass env)) @
     wire_opt (map_option snd (km_user_pass env)) @ wire_opt (km_peer_info env)"

definition km2_wire :: "km_env \<Rightarrow> tls_options \<Rightarrow> byte list" where
  "km2_wire env opt = be32 0 @ [2] @ wire_source (to_server opt) (km_source env) @ wire_info env opt"

definition km2_fits :: "km_env \<Rightarrow> tls_options \<Rightarrow> bool" where
  "km2_fits env opt \<longleftrightarrow> to_key_method opt = 2 \<and> source_ok (km_source env) \<and> string_fits TLS_OPTIONS_LEN (to_local_options opt) \<and>
     (\<forall>u p. km_user_pass env = Some (u, p) \<longrightarrow> string_fits USER_PASS_LEN u \<and> string_fits USER_PASS_LEN p) \<and>
     (\<forall>s. km_peer_info env = Some s \<longrightarrow> string_fits 65535 s)"

lemma key_method_2_put_spec:
  assumes fits: "km2_fits env opt" and b: "buf_ok b0" "content b0 = []" "length (km2_wire env opt) \<le> tailroom b0"
  shows "\<exists>b'. key_method_2_put env opt src b0 = Some (store_source (to_server opt) (km_source env) src, b', True) \<and>
    buf_ok b' \<and> content b' = km2_wire env opt"
proof -
  note f = fits [unfolded km2_fits_def]
  define w1 where "w1 = [\<lambda>buf. buf_write_u32 buf 0, \<lambda>buf. buf_write_u8 buf (to_key_method opt AND KEY_METHOD_MASK)]"
  have "list_all2 writes w1 [be32 0, [2]]"
    using f writes_u32 [of 0] writes_u8 [of 2] by (simp add: w1_def KEY_METHOD_MASK_def)
  from writes_seq [OF this] have w: "writes (write_seq w1) (be32 0 @ [2])" by simp
  have "length (be32 0 @ [2]) \<le> tailroom b0" using b(3) by (simp add: km2_wire_def)
  from writesD [OF w b(1) this] obtain b1 where b1: "write_seq w1 b0 = Some (b1, True)" "buf_ok b1"
    "content b1 = content b0 @ be32 0 @ [2]" "tailroom b1 = tailroom b0 - length (be32 0 @ [2])" .
  have "length (wire_source (to_server opt) (km_source env)) \<le> tailroom b1" using b(3) b1(4) by (simp add: km2_wire_def)
  from source_write_spec [OF b1(2) this, of src] obtain b2 where b2:
    "key_source2_randomize_write (km_source env) src b1 (to_server opt) = Some (store_source (to_server opt) (km_source env) src, b2, True)"
    "buf_ok b2" "content b2 = content b1 @ wire_source (to_server opt) (km_source env)"
    "tailroom b2 = tailroom b1 - length (wire_source (to_server opt) (km_source env))" by blast
  define w2 where "w2 = ((\<lambda>buf. write_string buf (to_local_options opt) TLS_OPTIONS_LEN) #
      (case km_user_pass env of
         Some (username, password) \<Rightarrow> [\<lambda>buf. write_string buf username (-1), \<lambda>buf. write_string buf password (-1)]
       | None \<Rightarrow> [write_empty_string, write_empty_string]) @ [push_peer_info env])"
  have pi: "writes (push_peer_info env) (wire_opt (km_peer_info env))"
    using writes_empty writes_string [of "-1"] by (auto simp: push_peer_info_def [abs_def] wire_opt_def split: option.splits)
  have lo: "writes (\<lambda>buf. write_string buf (to_local_options opt) TLS_OPTIONS_LEN) (wire_string (to_local_options opt))"
    using f by (intro writes_string) (simp add: string_fits_def)
  have "list_all2 writes w2 (wire_string (to_local_options opt) #
      [wire_opt (map_option fst (km_user_pass env)), wire_opt (map_option snd (km_user_pass env))] @ [wire_opt (km_peer_info env)])"
    using pi lo writes_empty writes_string [of "-1"]
    by (auto simp: w2_def wire_opt_def split: option.splits)
  from writes_seq [OF this] have w: "writes (write_seq w2) (wire_info env opt)" by (simp add: wire_info_def)
  have "length (wire_info env opt) \<le> tailroom b2" using b(3) b1(4) b2(4) by (simp add: km2_wire_def)
  from writesD [OF w b2(2) this] obtain b3 where b3: "write_seq w2 b2 = Some (b3, True)" "buf_ok b3"
    "content b3 = content b2 @ wire_info env opt" .
  have "key_method_2_put env opt src b0 = Some (store_source (to_server opt) (km_source env) src, b3, True)"
    unfolding key_method_2_put_def w1_def [symmetric] w2_def [symmetric] using b1(1) b2(1) b3(1) by simp
  then show ?thesis using b(2) b1(3) b2(3) b3(2,3) by (simp add: km2_wire_def)
qed

lemma key_method_2_get_spec:
  assumes fits: "km2_fits env opt" and b: "buf_ok b0" "content b0 = km2_wire env opt" and me: "to_server opt' = (\<not> to_server opt)"
  shows "\<exists>b'. buf_ok b' \<and> key_method_2_get opt' src b0 = Some (store_source (to_server opt) (km_source env) src, b',
    Some (to_local_options opt, map_option fst (km_user_pass env), map_option snd (km_user_pass env), km_peer_info env))"
proof -
  note f = fits [unfolded km2_fits_def]
  define rest where "rest = wire_source (to_server opt) (km_source env) @ wire_info env opt"
  have c: "content b0 = be32 0 @ 2 # rest" using b(2) by (simp add: km2_wire_def rest_def)
  obtain b1 where b1: "buf_advance b0 4 = (b1, True)" "buf_ok b1" "content b1 = 2 # rest"
    using buf_advance_content [OF b(1), of 4] c by auto
  from read_u8_content [OF b1(2,3)] obtain b2 where b2: "buf_read_u8 b1 = Some (b2, uint (2 :: byte))" "buf_ok b2" "content b2 = rest" .
  have "content b2 = wire_source (\<not> to_server opt') (km_source env) @ wire_info env opt" "source_ok (km_source env)"
    using b2(3) me f by (simp_all add: rest_def)
  from source_read_spec [OF b2(2) this, of src] obtain b3 where b3:
    "key_source2_read src b2 (to_server opt') = Some (store_source (to_server opt) (km_source env) src, b3, True)" "buf_ok b3"
    "content b3 = wire_info env opt" using me by auto
  have lo: "string_fits TLS_OPTIONS_LEN (to_local_options opt)" using f by blast
  then have "string_fits 65536 (to_local_options opt)" "int (length (to_local_options opt)) < 65535"
    by (simp_all add: string_fits_def TLS_OPTIONS_LEN_def)
  then have lo': "\<And>s. Some (to_local_options opt) = Some s \<Longrightarrow> string_fits 65536 s \<and> int (length s) < 65535" by simp
  have "content b3 = wire_opt (Some (to_local_options opt)) @ wire_opt (map_option fst (km_user_pass env)) @
      wire_opt (map_option snd (km_user_pass env)) @ wire_opt (km_peer_info env)" using b3(3) by (simp add: wire_info_def wire_opt_def)
  note r3 = read_wire [OF b3(2) this lo']
  obtain b4 where b4: "buf_ok b4" "content b4 = wire_opt (map_option fst (km_user_pass env)) @
      wire_opt (map_option snd (km_user_pass env)) @ wire_opt (km_peer_info env)"
      "read_string b3 TLS_OPTIONS_LEN = Some (b4, Some (to_local_options opt))"
  proof (rule r3)
    fix b' assume a: "buf_ok b'" "content b' = wire_opt (map_option fst (km_user_pass env)) @ wire_opt (map_option snd (km_user_pass env)) @ wire_opt (km_peer_info env)"
      "\<And>cap. (\<And>s. Some (to_local_options opt) = Some s \<Longrightarrow> string_fits cap s) \<Longrightarrow> read_string b3 cap = Some (b', Some (to_local_options opt))"
    show thesis using a(1,2) a(3) [of TLS_OPTIONS_LEN] lo by (intro that [of b']) simp_all
  qed
  have up: "string_fits USER_PASS_LEN s \<and> string_fits 65536 s \<and> int (length s) < 65535"
    if given: "map_option fst (km_user_pass env) = Some s \<or> map_option snd (km_user_pass env) = Some s" for s
  proof -
    obtain u p where "km_user_pass env = Some (u, p)" "s = u \<or> s = p" using given by auto
    then have "string_fits USER_PASS_LEN s" using f by blast
    then show ?thesis by (simp add: string_fits_def USER_PASS_LEN_def)
  qed
  obtain b5 where b5: "buf_ok b5" "content b5 = wire_opt (map_option snd (km_user_pass env)) @ wire_opt (km_peer_info env)"
      "read_string b4 USER_PASS_LEN = Some (b5, map_option fst (km_user_pass env))"
  proof (rule read_wire [OF b4(1,2)])
    show "string_fits 65536 s \<and> int (length s) < 65535" if "map_option fst (km_user_pass env) = Some s" for s using up that by blast
    fix b' assume a: "buf_ok b'" "content b' = wire_opt (map_option snd (km_user_pass env)) @ wire_opt (km_peer_info env)"
      "\<And>cap. (\<And>s. map_option fst (km_user_pass env) = Some s \<Longrightarrow> string_fits cap s) \<Longrightarrow> read_string b4 cap = Some (b', map_option fst (km_user_pass env))"
    show thesis using a(1,2) a(3) [of USER_PASS_LEN] up by (intro that [of b']) simp_all
  qed
  obtain b6 where b6: "buf_ok b6" "content b6 = wire_opt (km_peer_info env) @ []"
      "read_string b5 USER_PASS_LEN = Some (b6, map_option snd (km_user_pass env))"
  proof (rule read_wire [OF b5(1,2)])
    show "string_fits 65536 s \<and> int (length s) < 65535" if "map_option snd (km_user_pass env) = Some s" for s using up that by blast
    fix b' assume a: "buf_ok b'" "content b' = wire_opt (km_peer_info env)"
      "\<And>cap. (\<And>s. map_option snd (km_user_pass env) = Some s \<Longrightarrow> string_fits cap s) \<Longrightarrow> read_string b5 cap = Some (b', map_option snd (km_user_pass env))"
    show thesis using a(1,2) a(3) [of USER_PASS_LEN] up by (intro that [of b']) simp_all
  qed
  have "\<And>s. km_peer_info env = Some s \<Longrightarrow> string_fits 65536 s \<and> int (length s) < 65535" using f by (simp add: string_fits_def)
  from read_wire [OF b6(1,2) this] obtain b7 where b7: "buf_ok b7" "read_string_alloc b6 = Some (b7, km_peer_info env)" by blast
  show ?thesis
    using b1(1) b2(1) b3(1) b4(3) b5(3) b6(3) b7 by (intro exI [of _ b7]) (simp add: key_method_2_get_def KEY_METHOD_MASK_def)
qed

lemma buf_clear_total: "buf_ok b \<Longrightarrow> \<exists>b'. buf_clear b = Some b' \<and> content b' = [] \<and> b_len b' = 0"
  by (auto simp: buf_clear_def store_at_def mem_write_def buf_ok_def content_def split: option.splits)

subsection \<open>The exchange\<close>

text \<open>
  Authentication by certificate alone, of a peer that passes the checks: its certificate was verified; the tunnel is not locked to a
  name or to certificates, or to those of the peer; if client files are required, the peer has one; the plug-in for the
  final step does not refuse it; and \<open>--opt-verify\<close> is not on, or \<open>--disable-occ\<close> is.
\<close>

definition peer_name :: "'s tls_multi \<Rightarrow> nat \<Rightarrow> byte list" where
  "peer_name m i = (case ts_common_name (ses_at m i) of None \<Rightarrow> [] | Some n \<Rightarrow> n)"

definition plain_auth :: "km_env \<Rightarrow> 's tls_multi \<Rightarrow> nat \<Rightarrow> bool" where
  "plain_auth env m i \<longleftrightarrow> \<not> tls_session_user_pass_enabled env \<and> ts_verified (ses_at m i) \<and>
     tm_locked_cn m \<in> {None, Some (peer_name m i)} \<and>
     (tm_locked_cert_hash_set m = None \<or> ts_cert_hash_set (ses_at m i) = None \<or>
       cert_hash_compare (ts_cert_hash_set (ses_at m i)) (tm_locked_cert_hash_set m)) \<and>
     (\<forall>ccd. ve_ccd (km_verify env) = Some ccd \<longrightarrow> peer_name m i \<noteq> CCD_DEFAULT \<and> ccd (peer_name m i)) \<and>
     km_plugin_final env \<noteq> Some False \<and>
     (to_disable_occ (tm_opt m) \<or> to_ssl_flags (tm_opt m) AND SSLF_OPT_VERIFY = 0)"

lemma upd_prim_ses [simp]:
  "i < length (tm_session m) \<Longrightarrow> peer_name (upd_prim i f m) i = peer_name m i"
  "i < length (tm_session m) \<Longrightarrow> ts_session_id (ses_at (upd_prim i f m) i) = ts_session_id (ses_at m i)"
  "i < length (tm_session m) \<Longrightarrow> ts_verified (ses_at (upd_prim i f m) i) = ts_verified (ses_at m i)"
  by (simp_all add: peer_name_def) (simp_all add: upd_prim_def)

text \<open>What the two ends must agree on, and what stays the same while one end authenticates.\<close>

definition same_key_state :: "'s tls_multi \<Rightarrow> 's tls_multi \<Rightarrow> nat \<Rightarrow> bool" where
  "same_key_state m' m i \<longleftrightarrow> length (tm_session m') = length (tm_session m) \<and>
     ts_session_id (ses_at m' i) = ts_session_id (ses_at m i) \<and>
     ks_session_id_remote (prim_at m' i) = ks_session_id_remote (prim_at m i) \<and>
     ks_keys (prim_at m' i) = ks_keys (prim_at m i) \<and> ks_key_id (prim_at m' i) = ks_key_id (prim_at m i) \<and>
     to_server (tm_opt m') = to_server (tm_opt m) \<and> to_key_type (tm_opt m') = to_key_type (tm_opt m) \<and>
     to_pull (tm_opt m') = to_pull (tm_opt m) \<and> to_mode_server (tm_opt m') = to_mode_server (tm_opt m) \<and>
     to_local_options (tm_opt m') = to_local_options (tm_opt m) \<and> to_key_method (tm_opt m') = to_key_method (tm_opt m)"

lemma plain_authenticate:
  assumes "plain_auth env m i" "i < length (tm_session m)"
  shows "key_method_2_authenticate env ts opts u p m i = Some (upd_prim i (\<lambda>ks. ks\<lparr>ks_authenticated := True\<rparr>) m, True)"
    and "\<exists>m'. key_method_2_check env opts (upd_prim i (\<lambda>ks. ks\<lparr>ks_authenticated := True\<rparr>) m) i = m' \<and> same_key_state m' m i \<and>
      ks_authenticated (prim_at m' i) \<and> ks_key_src (prim_at m' i) = ks_key_src (prim_at m i) \<and> tm_peer_info m' = tm_peer_info m"
proof -
  note a = assms(1) [unfolded plain_auth_def]
  show "key_method_2_authenticate env ts opts u p m i = Some (upd_prim i (\<lambda>ks. ks\<lparr>ks_authenticated := True\<rparr>) m, True)"
    using a by (simp add: key_method_2_authenticate_def)
  define m1 where "m1 = upd_prim i (\<lambda>ks. ks\<lparr>ks_authenticated := True\<rparr>) m"
  define m2 where "m2 = (if ts_common_name (ses_at m1 i) = None then upd_ses i (\<lambda>ses. set_common_name ses (Some [])) m1 else m1)"
  have m1: "i < length (tm_session m1)" "ks_authenticated (prim_at m1 i)"
    using assms(2) by (simp_all add: m1_def)
  have m2: "ts_common_name (ses_at m2 i) = Some (peer_name m i)" "ks_authenticated (prim_at m2 i)"
    "tm_locked_cn m2 = tm_locked_cn m" "tm_locked_cert_hash_set m2 = tm_locked_cert_hash_set m" "tm_opt m2 = tm_opt m"
    "ts_cert_hash_set (ses_at m2 i) = ts_cert_hash_set (ses_at m i)"
    using assms(2) by (auto simp: m2_def m1_def peer_name_def)
  have lock: "(case tm_locked_cn m2 of
      Some locked \<Rightarrow> if ks_authenticated (prim_at m2 i) \<and> ts_common_name (ses_at m2 i) \<noteq> Some locked
        then tls_deauthenticate (upd_ses i (\<lambda>ses. set_common_name ses (Some locked)) m2) else m2
    | None \<Rightarrow> m2) = m2"
    using a m2 by auto
  have same: "\<not> (ks_authenticated (prim_at m2 i) \<and> tm_locked_cert_hash_set m2 \<noteq> None \<and> ts_cert_hash_set (ses_at m2 i) \<noteq> None \<and>
      \<not> cert_hash_compare (ts_cert_hash_set (ses_at m2 i)) (tm_locked_cert_hash_set m2))"
    using a m2 by auto
  have fin: "verify_final_auth_checks (km_verify env) m1 i = m2"
    unfolding verify_final_auth_checks_def Let_def m2_def [symmetric] lock if_not_P [OF same]
    using a m2(1) by (cases "ve_ccd (km_verify env)") simp_all
  have "\<not> (\<not> to_disable_occ (tm_opt m2) \<and> to_ssl_flags (tm_opt m2) AND SSLF_OPT_VERIFY \<noteq> 0)" using a m2(5) by simp
  then have "key_method_2_check env opts m1 i = m2"
    using a m1(2) fin by (auto simp: key_method_2_check_def Let_def)
  moreover have "same_key_state m2 m i \<and> ks_authenticated (prim_at m2 i) \<and> ks_key_src (prim_at m2 i) = ks_key_src (prim_at m i) \<and>
      tm_peer_info m2 = tm_peer_info m"
    using assms(2) m1(2) by (auto simp: m2_def m1_def same_key_state_def upd_prim_def upd_ses_def set_common_name_def)
  ultimately show "\<exists>m'. key_method_2_check env opts (upd_prim i (\<lambda>ks. ks\<lparr>ks_authenticated := True\<rparr>) m) i = m' \<and> same_key_state m' m i \<and>
      ks_authenticated (prim_at m' i) \<and> ks_key_src (prim_at m' i) = ks_key_src (prim_at m i) \<and> tm_peer_info m' = tm_peer_info m"
    unfolding m1_def by blast
qed

lemma km2_write_run:
  assumes fits: "km2_fits env (tm_opt m)" and b: "buf_ok buf" "length (km2_wire env (tm_opt m)) \<le> nat (b_capacity buf)"
    and src: "ks_key_src (prim_at m i) = Some src"
  defines "m1 \<equiv> upd_prim i (\<lambda>ks. ks\<lparr>ks_key_src := Some (store_source (to_server (tm_opt m)) (km_source env) src)\<rparr>) m"
  shows "\<exists>b'. buf_ok b' \<and> content b' = km2_wire env (tm_opt m) \<and> key_method_2_write env buf m i =
    (if to_server (tm_opt m) \<and> \<not> (to_ncp_enabled (tm_opt m) \<and> to_mode_server (tm_opt m) \<and> ks_key_id (prim_at m1 i) \<le> 0) \<and>
        ks_authenticated (prim_at m1 i)
     then do {
       (m, ok) \<leftarrow> tls_session_generate_data_channel_keys (km_prf env) m1 i;
       Some (if \<not> ok then upd_prim i zero_key_src m else m, b', ok)
     } else Some (m1, b', True))"
proof -
  have "0 \<le> (0 :: int)" "0 \<le> b_capacity buf" using b(1) by (auto elim: buf_ok_cases)
  then obtain b0 where b0: "buf_init buf 0 = (b0, True)" "buf_ok b0" "content b0 = []" "headroom b0 = nat 0"
    "tailroom b0 = nat (b_capacity buf - 0)" "b_capacity b0 = b_capacity buf" by (rule buf_init_ok [OF b(1)])
  have "length (km2_wire env (tm_opt m)) \<le> tailroom b0" using b(2) b0(5) by simp
  from key_method_2_put_spec [OF fits b0(2,3) this, of src] obtain b' where
    b': "key_method_2_put env (tm_opt m) src b0 = Some (store_source (to_server (tm_opt m)) (km_source env) src, b', True)" "buf_ok b'"
    "content b' = km2_wire env (tm_opt m)" by blast
  have "to_key_method (tm_opt m) = 2" using fits by (simp add: km2_fits_def)
  moreover have "tm_opt m1 = tm_opt m" by (simp add: m1_def)
  ultimately have "key_method_2_write env buf m i =
    (if to_server (tm_opt m) \<and> \<not> (to_ncp_enabled (tm_opt m) \<and> to_mode_server (tm_opt m) \<and> ks_key_id (prim_at m1 i) \<le> 0) \<and>
        ks_authenticated (prim_at m1 i)
     then do {
       (m, ok) \<leftarrow> tls_session_generate_data_channel_keys (km_prf env) m1 i;
       Some (if \<not> ok then upd_prim i zero_key_src m else m, b', ok)
     } else Some (m1, b', True))"
    unfolding key_method_2_write_def by (simp add: b0(1) src b'(1) m1_def [symmetric])
  then show ?thesis using b'(2,3) by blast
qed

lemma peer_fields:
  "tm_session (key_method_2_peer options info m) = tm_session m" "peer_name (key_method_2_peer options info m) i = peer_name m i" "tm_peer_info (key_method_2_peer options info m) = info"
  "tm_locked_cn (key_method_2_peer options info m) = tm_locked_cn m"
  "tm_locked_cert_hash_set (key_method_2_peer options info m) = tm_locked_cert_hash_set m"
  by (simp_all add: key_method_2_peer_def peer_name_def Let_def)

lemma peer_opt:
  "to_server (tm_opt (key_method_2_peer options info m)) = to_server (tm_opt m)"
  "to_key_type (tm_opt (key_method_2_peer options info m)) = to_key_type (tm_opt m)"
  "to_pull (tm_opt (key_method_2_peer options info m)) = to_pull (tm_opt m)"
  "to_mode_server (tm_opt (key_method_2_peer options info m)) = to_mode_server (tm_opt m)"
  "to_local_options (tm_opt (key_method_2_peer options info m)) = to_local_options (tm_opt m)"
  "to_key_method (tm_opt (key_method_2_peer options info m)) = to_key_method (tm_opt m)"
  "to_ssl_flags (tm_opt (key_method_2_peer options info m)) = to_ssl_flags (tm_opt m)"
  "to_disable_occ (tm_opt (key_method_2_peer options info m)) = to_disable_occ (tm_opt m)"
  by (simp_all add: key_method_2_peer_def Let_def)

lemma received_source:
  fixes src e
  assumes "i < length (tm_session m)"
  defines "m0 \<equiv> upd_prim i (\<lambda>ks. ks\<lparr>ks_authenticated := False\<rparr>) (upd_prim i (\<lambda>ks. ks\<lparr>ks_key_src := Some src\<rparr>) m)"
  shows "same_key_state m0 m i" "ks_key_src (prim_at m0 i) = Some src" "plain_auth e m i \<Longrightarrow> plain_auth e m0 i"
  using assms(1) by (auto simp: m0_def same_key_state_def plain_auth_def)

lemma km2_read_run:
  assumes fits: "km2_fits env opt" and b: "content b0 = km2_wire env opt" "buf_ok b0"
    and me: "to_key_method (tm_opt m) = 2" "to_server (tm_opt m) = (\<not> to_server opt)" "plain_auth e m i"
    and i: "i < length (tm_session m)" "ks_key_src (prim_at m i) = Some src"
  shows "\<exists>m' b'. same_key_state m' m i \<and> ks_authenticated (prim_at m' i) \<and> tm_peer_info m' = km_peer_info env \<and>
    ks_key_src (prim_at m' i) = Some (store_source (to_server opt) (km_source env) src) \<and>
    key_method_2_read e ts b0 m i =
      (if \<not> to_server (tm_opt m) \<and> (\<not> to_pull (tm_opt m) \<or> ks_key_id (prim_at m i) > 0) then do {
         (m, ok) \<leftarrow> tls_session_generate_data_channel_keys (km_prf e) m' i;
         Some (if \<not> ok then upd_prim i zero_key_src m else m, b', ok)
       } else Some (m', b', True))"
proof -
  obtain b1 where b1: "buf_ok b1" "key_method_2_get (tm_opt m) src b0 = Some (store_source (to_server opt) (km_source env) src, b1,
    Some (to_local_options opt, map_option fst (km_user_pass env), map_option snd (km_user_pass env), km_peer_info env))"
    using key_method_2_get_spec [OF fits b(2,1) me(2)] by blast
  obtain b' where b': "buf_clear b1 = Some b'" using buf_clear_total [OF b1(1)] by blast
  define m0 where "m0 = upd_prim i (\<lambda>ks. ks\<lparr>ks_authenticated := False\<rparr>)
    (upd_prim i (\<lambda>ks. ks\<lparr>ks_key_src := Some (store_source (to_server opt) (km_source env) src)\<rparr>) m)"
  define m1 where "m1 = key_method_2_peer (to_local_options opt) (km_peer_info env) m0"
  have m1: "same_key_state m1 m i" "tm_peer_info m1 = km_peer_info env"
    "ks_key_src (prim_at m1 i) = Some (store_source (to_server opt) (km_source env) src)" "plain_auth e m1 i" "i < length (tm_session m1)"
    using received_source(1,2) [OF i(1), where src = "store_source (to_server opt) (km_source env) src", folded m0_def] i(1)
      received_source(3) [OF i(1) me(3), where src = "store_source (to_server opt) (km_source env) src", folded m0_def]
    by (auto simp: m1_def same_key_state_def plain_auth_def peer_fields peer_opt)
  obtain m' where m': "key_method_2_check e (to_local_options opt) (upd_prim i (\<lambda>ks. ks\<lparr>ks_authenticated := True\<rparr>) m1) i = m'" "same_key_state m' m1 i"
      "ks_authenticated (prim_at m' i)" "ks_key_src (prim_at m' i) = ks_key_src (prim_at m1 i)" "tm_peer_info m' = tm_peer_info m1"
    using plain_authenticate(2) [OF m1(4,5)] by blast
  have s: "same_key_state m' m i" using m1(1) m'(2) by (simp add: same_key_state_def)
  have keep: "to_server (tm_opt m') = to_server (tm_opt m)" "to_pull (tm_opt m') = to_pull (tm_opt m)"
    "ks_key_id (prim_at m' i) = ks_key_id (prim_at m i)" using s by (simp_all add: same_key_state_def)
  have "key_method_2_read e ts b0 m i =
      (if \<not> to_server (tm_opt m) \<and> (\<not> to_pull (tm_opt m) \<or> ks_key_id (prim_at m i) > 0) then do {
         (m, ok) \<leftarrow> tls_session_generate_data_channel_keys (km_prf e) m' i;
         Some (if \<not> ok then upd_prim i zero_key_src m else m, b', ok)
       } else Some (m', b', True))"
    unfolding key_method_2_read_def me(1) i(2) simp_thms(6) c_assert_bind_True Option.bind.bind_lunit Let_def b1(2) prod.case b' option.case m0_def [symmetric] m1_def [symmetric]
      plain_authenticate(1) [OF m1(4,5)] m'(1) keep by simp
  then show ?thesis using s m'(3-5) m1(2,3) by (intro exI [of _ m'] exI [of _ b']) simp
qed

lemma generate_run:
  assumes "i < length (tm_session m)" "ks_authenticated (prim_at m i)" "ks_key_src (prim_at m i) = Some src"
    and "generate_key_expansion lib (ks_keys (prim_at m i)) (to_key_type (tm_opt m)) src
      (if to_server (tm_opt m) then ks_session_id_remote (prim_at m i) else ts_session_id (ses_at m i))
      (if to_server (tm_opt m) then ts_session_id (ses_at m i) else ks_session_id_remote (prim_at m i)) (to_server (tm_opt m)) = Some (kb, ok)"
  shows "\<exists>m'. tls_session_generate_data_channel_keys lib m i = Some (m', ok) \<and> ks_keys (prim_at m' i) = kb \<and>
    ks_authenticated (prim_at m' i) \<and> ks_key_src (prim_at m' i) = Some zero_key_source2"
  using assms by (cases "to_server (tm_opt m)") (auto simp: tls_session_generate_data_channel_keys_def Let_def zero_key_src_def)

text \<open>
  C11. The key exchange of key method 2, where no end can refuse the other. A client and a server whose sessions know each other's
  session ids exchange their messages: the client writes, the server reads and answers, the client reads the answer. Each has verified the
  certificate of the other and authenticates it by that alone (\<open>plain_auth\<close>: no user name and password are asked for, the locks, client
  files, plug-in and \<open>--opt-verify\<close> have nothing against the peer); and it is not the first negotiation of a client that pulls or of a server for many
  clients, which derive their keys later. Then no assertion fails, every message is understood, the server learns
  the client's information, and unless the derived key is refused as weak, both ends are authenticated and hold mirrored data-channel keys:
  what one encrypts with is what the other decrypts with. The key material is erased at both ends. (Where a client does refuse its peer an assertion does
  fail: \<open>key_method_2_refusal_asserts\<close> below.)
\<close>

theorem key_method_2_exchange:
  assumes "i < length (tm_session mc)" "j < length (tm_session ms)" "\<not> to_server (tm_opt mc)" "to_server (tm_opt ms)"
    and "km2_fits ec (tm_opt mc)" "km2_fits es (tm_opt ms)"
    and "buf_ok bufc" "length (km2_wire ec (tm_opt mc)) \<le> nat (b_capacity bufc)"
    and "buf_ok bufs" "length (km2_wire es (tm_opt ms)) \<le> nat (b_capacity bufs)"
    and "ks_key_src (prim_at mc i) = Some kc" "ks_key_src (prim_at ms j) = Some ksrv"
    and "\<not> kb_initialized (ks_keys (prim_at mc i))" "\<not> kb_initialized (ks_keys (prim_at ms j))"
    and "ks_session_id_remote (prim_at mc i) = ts_session_id (ses_at ms j)" "ks_session_id_remote (prim_at ms j) = ts_session_id (ses_at mc i)"
    and "sid_ok (ts_session_id (ses_at mc i))" "sid_ok (ts_session_id (ses_at ms j))"
    and "to_key_type (tm_opt mc) = to_key_type (tm_opt ms)" "key_type_ok (to_key_type (tm_opt ms))"
    and "km_prf ec = km_prf es" "prf_ok (km_prf es)"
    and "plain_auth ec mc i" "plain_auth es ms j"
    and "\<not> to_pull (tm_opt mc) \<or> ks_key_id (prim_at mc i) > 0" "\<not> to_mode_server (tm_opt ms) \<or> ks_key_id (prim_at ms j) > 0"
  shows "\<exists>mc1 bc ms1 b1 ms2 bs ok. key_method_2_write ec bufc mc i = Some (mc1, bc, True) \<and>
    key_method_2_read es ts (packet_buf (content bc)) ms j = Some (ms1, b1, True) \<and> tm_peer_info ms1 = km_peer_info ec \<and>
    key_method_2_write es bufs ms1 j = Some (ms2, bs, ok) \<and>
    (ok \<longrightarrow> (\<exists>mc2 b2. key_method_2_read ec ts' (packet_buf (content bs)) mc1 i = Some (mc2, b2, True) \<and>
      ks_authenticated (prim_at mc2 i) \<and> ks_authenticated (prim_at ms2 j) \<and>
      kb_encrypt (ks_keys (prim_at mc2 i)) = kb_decrypt (ks_keys (prim_at ms2 j)) \<and>
      kb_decrypt (ks_keys (prim_at mc2 i)) = kb_encrypt (ks_keys (prim_at ms2 j)) \<and>
      ks_key_src (prim_at mc2 i) = Some zero_key_source2 \<and> ks_key_src (prim_at ms2 j) = Some zero_key_source2))"
proof -
  define mc1 where "mc1 = upd_prim i (\<lambda>ks. ks\<lparr>ks_key_src := Some (store_source False (km_source ec) kc)\<rparr>) mc"
  obtain bc where bc: "buf_ok bc" "content bc = km2_wire ec (tm_opt mc)" "key_method_2_write ec bufc mc i = Some (mc1, bc, True)"
    using km2_write_run [OF assms(5,7,8,11)] assms(3) by (auto simp: mc1_def)
  have mc1: "same_key_state mc1 mc i" "plain_auth ec mc1 i" "i < length (tm_session mc1)" "tm_opt mc1 = tm_opt mc"
    "ks_key_src (prim_at mc1 i) = Some (store_source False (km_source ec) kc)"
    using assms(1,23) by (auto simp: mc1_def same_key_state_def plain_auth_def)
  note pb = packet_buf_ok [OF content_bound [OF bc(1)]]
  have srv: "to_key_method (tm_opt ms) = 2" "to_server (tm_opt ms) = (\<not> to_server (tm_opt mc))" using assms(3,4,6) by (simp_all add: km2_fits_def)
  obtain ms1 b1 where ms1: "same_key_state ms1 ms j" "ks_authenticated (prim_at ms1 j)" "tm_peer_info ms1 = km_peer_info ec"
      "ks_key_src (prim_at ms1 j) = Some (store_source False (km_source ec) ksrv)"
      "key_method_2_read es ts (packet_buf (content bc)) ms j = Some (ms1, b1, True)"
    using km2_read_run [OF assms(5) trans [OF conjunct2 [OF pb] bc(2)] conjunct1 [OF pb] srv assms(24,2,12), of ts] assms(3,4) by auto
  note k1 = ms1(1) [unfolded same_key_state_def]
  have fs: "km2_fits es (tm_opt ms1)" "km2_wire es (tm_opt ms1) = km2_wire es (tm_opt ms)"
    using assms(6) k1 by (simp_all add: km2_fits_def km2_wire_def wire_info_def)
  define src where "src = \<lparr>src_client = km_source ec, src_server = (km_source es)\<lparr>pre_master := zero_bytes 48\<rparr>\<rparr>"
  define ms1' where "ms1' = upd_prim j (\<lambda>ks. ks\<lparr>ks_key_src := Some src\<rparr>) ms1"
  have st: "store_source True (km_source es) (store_source False (km_source ec) k) = src" for k
    by (cases k) (simp add: store_source_def src_def)
  have len: "length (km2_wire es (tm_opt ms1)) \<le> nat (b_capacity bufs)" using assms(10) fs(2) by simp
  have js: "j < length (tm_session ms1)" using k1 assms(2) by simp
  obtain bs where bs: "buf_ok bs" "content bs = km2_wire es (tm_opt ms)" "key_method_2_write es bufs ms1 j = do {
       (m, ok) \<leftarrow> tls_session_generate_data_channel_keys (km_prf es) ms1' j;
       Some (if \<not> ok then upd_prim j zero_key_src m else m, bs, ok)
     }"
    using km2_write_run [OF fs(1) assms(9) len ms1(4)] assms(4,26) k1 ms1(2) js fs(2) st by (auto simp: ms1'_def)
  have "key_source_ok src" using assms(5,6) by (simp add: key_source_ok_def src_def km2_fits_def source_ok_def)
  from key_agreement [OF assms(22,20) this assms(17,18,13,14)] obtain kbc kbs ok where
    agree: "generate_key_expansion (km_prf es) (ks_keys (prim_at mc i)) (to_key_type (tm_opt ms)) src (ts_session_id (ses_at mc i)) (ts_session_id (ses_at ms j)) False = Some (kbc, ok)"
      "generate_key_expansion (km_prf es) (ks_keys (prim_at ms j)) (to_key_type (tm_opt ms)) src (ts_session_id (ses_at mc i)) (ts_session_id (ses_at ms j)) True = Some (kbs, ok)"
      "ok \<longrightarrow> kb_encrypt kbc = kb_decrypt kbs \<and> kb_decrypt kbc = kb_encrypt kbs" by blast
  have s1: "j < length (tm_session ms1')" "ks_authenticated (prim_at ms1' j)" "ks_key_src (prim_at ms1' j) = Some src"
    "ks_keys (prim_at ms1' j) = ks_keys (prim_at ms j)" "ks_session_id_remote (prim_at ms1' j) = ts_session_id (ses_at mc i)"
    "ts_session_id (ses_at ms1' j) = ts_session_id (ses_at ms j)" "tm_opt ms1' = tm_opt ms1"
    using js ms1(2) k1 assms(16) by (simp_all add: ms1'_def upd_prim_def)
  obtain ms2 where ms2: "tls_session_generate_data_channel_keys (km_prf es) ms1' j = Some (ms2, ok)" "ks_keys (prim_at ms2 j) = kbs"
      "ks_authenticated (prim_at ms2 j)" "ks_key_src (prim_at ms2 j) = Some zero_key_source2"
    using generate_run [OF s1(1-3), of "km_prf es" kbs ok] agree(2) s1(4-7) k1 assms(4) by auto
  define ms2' where "ms2' = (if \<not> ok then upd_prim j zero_key_src ms2 else ms2)"
  have w2: "key_method_2_write es bufs ms1 j = Some (ms2', bs, ok)" using bs(3) ms2(1) by (simp add: ms2'_def)
  have "\<exists>mc2 b2. key_method_2_read ec ts' (packet_buf (content bs)) mc1 i = Some (mc2, b2, True) \<and>
      ks_authenticated (prim_at mc2 i) \<and> ks_keys (prim_at mc2 i) = kbc \<and> ks_key_src (prim_at mc2 i) = Some zero_key_source2" if ok
  proof -
    note pb = packet_buf_ok [OF content_bound [OF bs(1)]]
    have cli: "to_key_method (tm_opt mc1) = 2" "to_server (tm_opt mc1) = (\<not> to_server (tm_opt ms))"
      using assms(3-5) mc1(4) by (simp_all add: km2_fits_def)
    obtain m' b2 where m': "same_key_state m' mc1 i" "ks_authenticated (prim_at m' i)" "ks_key_src (prim_at m' i) = Some src"
        "key_method_2_read ec ts' (packet_buf (content bs)) mc1 i = do {
           (m, ok) \<leftarrow> tls_session_generate_data_channel_keys (km_prf ec) m' i;
           Some (if \<not> ok then upd_prim i zero_key_src m else m, b2, ok)
         }"
      using km2_read_run [OF assms(6) trans [OF conjunct2 [OF pb] bs(2)] conjunct1 [OF pb] cli mc1(2,3,5), of ts'] assms(3,4,25) mc1(1,4) st
      by (auto simp: same_key_state_def)
    note k' = m'(1) [unfolded same_key_state_def] mc1(1) [unfolded same_key_state_def]
    have "i < length (tm_session m')" using k' assms(1) by simp
    moreover have "generate_key_expansion (km_prf es) (ks_keys (prim_at m' i)) (to_key_type (tm_opt m')) src
      (if to_server (tm_opt m') then ks_session_id_remote (prim_at m' i) else ts_session_id (ses_at m' i))
      (if to_server (tm_opt m') then ts_session_id (ses_at m' i) else ks_session_id_remote (prim_at m' i)) (to_server (tm_opt m')) = Some (kbc, ok)"
      using agree(1) k' assms(3,15,19) by simp
    ultimately obtain mc2 where "tls_session_generate_data_channel_keys (km_prf es) m' i = Some (mc2, ok)" "ks_keys (prim_at mc2 i) = kbc"
        "ks_authenticated (prim_at mc2 i)" "ks_key_src (prim_at mc2 i) = Some zero_key_source2"
      using generate_run [OF _ m'(2,3)] by blast
    then show ?thesis using m'(4) that assms(21) by auto
  qed
  note client = this
  have "ms2' = ms2" if ok using that by (simp add: ms2'_def)
  then show ?thesis using bc(3) ms1(3,5) w2 ms2(2-4) agree(3) client
    by (intro exI [of _ mc1] exI [of _ bc] exI [of _ ms1] exI [of _ b1] exI [of _ ms2'] exI [of _ bs] exI [of _ ok]) auto
qed

subsection \<open>An exchange\<close>

definition toy_verify :: verify_env where
  "toy_verify = toy_env\<lparr>ve_plugin := None, ve_ccd := None\<rparr>"

definition toy_km_env :: "byte \<Rightarrow> km_env" where
  "toy_km_env x = \<lparr>km_prf = toy_prf, km_verify = toy_verify,
     km_source = \<lparr>pre_master = replicate 48 x, random1 = replicate 32 x, random2 = replicate 32 (x + 1)\<rparr>, km_key = \<lambda>_. ([], []),
     km_user_pass = Some ([x], [x + 1]), km_peer_info = Some [x], km_plugin_final = None\<rparr>"

definition toy_tunnel :: "bool \<Rightarrow> session_id \<Rightarrow> session_id \<Rightarrow> unit tls_multi" where
  "toy_tunnel server me peer = (tls_multi_init (toy_tls_options\<lparr>to_server := server, to_mode_server := False\<rparr>))\<lparr>tm_session :=
     [zero_session\<lparr>ts_session_id := me, ts_verified := True,
        ts_primary := zero_key_state\<lparr>ks_session_id_remote := peer, ks_key_src := Some zero_key_source2\<rparr>\<rparr>, zero_session, zero_session]\<rparr>"

lemma toy_tunnel_facts:
  "length (tm_session (toy_tunnel srv me peer)) = 3" "to_server (tm_opt (toy_tunnel srv me peer)) = srv"
  "ks_key_src (prim_at (toy_tunnel srv me peer) 0) = Some zero_key_source2" "\<not> kb_initialized (ks_keys (prim_at (toy_tunnel srv me peer) 0))"
  "ks_session_id_remote (prim_at (toy_tunnel srv me peer) 0) = peer" "ts_session_id (ses_at (toy_tunnel srv me peer) 0) = me"
  "to_key_type (tm_opt (toy_tunnel srv me peer)) = toy_key_type" "\<not> to_pull (tm_opt (toy_tunnel srv me peer))"
  "\<not> to_mode_server (tm_opt (toy_tunnel srv me peer))" "to_local_options (tm_opt (toy_tunnel srv me peer)) = []"
  "to_key_method (tm_opt (toy_tunnel srv me peer)) = 2" "plain_auth (toy_km_env x) (toy_tunnel srv me peer) 0"
  by (simp_all add: toy_tunnel_def toy_tls_options_def zero_session_def zero_key_state_def zero_key_ctx_bi_def tls_multi_init_def plain_auth_def
      toy_km_env_def toy_verify_def toy_env_def tls_session_user_pass_enabled_def)

lemma toy_message_fits:
  assumes "x \<noteq> 0" "x + 1 \<noteq> 0"
  shows "km2_fits (toy_km_env x) (tm_opt (toy_tunnel srv me peer))"
    "length (km2_wire (toy_km_env x) (tm_opt (toy_tunnel srv me peer))) \<le> 200"
  using assms
  by (simp_all add: km2_fits_def km2_wire_def wire_info_def wire_source_def wire_string_def wire_opt_def toy_tunnel_facts string_fits_def
      source_ok_def toy_km_env_def TLS_OPTIONS_LEN_def USER_PASS_LEN_def)

lemma key_method_2_exchange_witness:
  "\<exists>buf mc1 bc ms1 b1 ms2 bs ok. alloc_buf 2000 = Some buf \<and>
    key_method_2_write (toy_km_env 1) buf (toy_tunnel False (toy_sid 1) (toy_sid 2)) 0 = Some (mc1, bc, True) \<and>
    key_method_2_read (toy_km_env 5) 9 (packet_buf (content bc)) (toy_tunnel True (toy_sid 2) (toy_sid 1)) 0 = Some (ms1, b1, True) \<and>
    tm_peer_info ms1 = Some [1] \<and> key_method_2_write (toy_km_env 5) buf ms1 0 = Some (ms2, bs, ok)"
proof -
  have "0 \<le> (2000 :: int)" "(2000 :: int) < BUF_SIZE_MAX" by (simp_all add: BUF_SIZE_MAX_def)
  then obtain buf where b: "alloc_buf 2000 = Some buf" "buf_ok buf" "b_capacity buf = 2000" by (rule alloc_buf_ok)
  have n: "0 < length (tm_session (toy_tunnel srv me peer))" for srv me peer by (simp add: toy_tunnel_facts(1))
  have l: "length (km2_wire (toy_km_env x) (tm_opt (toy_tunnel srv me peer))) \<le> nat (b_capacity buf)" if "x \<noteq> 0" "x + 1 \<noteq> 0" for x srv me peer
    using toy_message_fits(2) [OF that, of srv me peer] b(3) by simp
  have e: "km_prf (toy_km_env x) = toy_prf" "km_peer_info (toy_km_env 1) = Some [1]" for x by (simp_all add: toy_km_env_def)
  show ?thesis
    using key_method_2_exchange [of 0 "toy_tunnel False (toy_sid 1) (toy_sid 2)" 0 "toy_tunnel True (toy_sid 2) (toy_sid 1)" "toy_km_env 1" "toy_km_env 5"
      buf buf zero_key_source2 zero_key_source2 9 10] n b l toy_message_fits(1) toy_prf_ok toy_key_type_ok(1,3)
    by (auto simp: toy_tunnel_facts e)
qed

subsection \<open>A refused peer stops a client\<close>

lemma let_keeps: "Q t \<Longrightarrow> (\<And>x. Q x \<Longrightarrow> P (f x)) \<Longrightarrow> P (Let t f)"
  by (simp add: Let_def)

lemma final_checks_keep:
  defines "Q \<equiv> \<lambda>m' m. tm_opt m' = tm_opt m \<and> length (tm_session m') = length (tm_session m)"
  shows "Q (verify_final_auth_checks env m i) m"
  unfolding verify_final_auth_checks_def
  by (rule let_keeps [where Q = "\<lambda>x. Q x m"], simp add: Q_def, rule let_keeps [where Q = "\<lambda>x. Q x m"],
      simp add: Q_def tls_deauthenticate_def wipe_auth_token_def split: option.splits, rule let_keeps [where Q = "\<lambda>x. Q x m"],
      simp add: Q_def tls_deauthenticate_def wipe_auth_token_def, simp add: Q_def wipe_auth_token_def split: option.splits)

text \<open>
  A client that does not pull derives its keys at the end of \<open>key_method_2_read\<close> whatever the checks before said. When its plug-in
  refuses the peer, or \<open>--opt-verify\<close> finds the options of the peer to differ, what follows is the assertion that the key is authenticated.
\<close>

lemma key_method_2_refusal_asserts:
  assumes "i < length (tm_session m)"
    and "km_plugin_final env = Some False \<or>
      \<not> to_disable_occ (tm_opt m) \<and> \<not> options_cmp_equal options (to_remote_options (tm_opt m)) \<and> to_ssl_flags (tm_opt m) AND SSLF_OPT_VERIFY \<noteq> 0"
  shows "tls_session_generate_data_channel_keys lib (key_method_2_check env options m i) i = None"
proof -
  define m1 where "m1 = (if ks_authenticated (prim_at m i) then verify_final_auth_checks (km_verify env) m i else m)"
  have m1: "tm_opt m1 = tm_opt m" "i < length (tm_session m1)" using assms(1) by (simp_all add: m1_def final_checks_keep)
  define m2 where "m2 = (if \<not> to_disable_occ (tm_opt m1) \<and> \<not> options_cmp_equal options (to_remote_options (tm_opt m1)) \<and>
      to_ssl_flags (tm_opt m1) AND SSLF_OPT_VERIFY \<noteq> 0 then upd_prim i (\<lambda>ks. ks\<lparr>ks_authenticated := False\<rparr>) m1 else m1)"
  have m2: "i < length (tm_session m2)" "km_plugin_final env = Some False \<or> \<not> ks_authenticated (prim_at m2 i)"
    using m1 assms(2) by (auto simp: m2_def)
  have "key_method_2_check env options m i = (if ks_authenticated (prim_at m2 i) \<and> km_plugin_final env = Some False
      then upd_prim i (\<lambda>ks. ks\<lparr>ks_authenticated := False\<rparr>) m2 else m2)"
    unfolding key_method_2_check_def Let_def m1_def [symmetric] m2_def [symmetric] ..
  then have "\<not> ks_authenticated (prim_at (key_method_2_check env options m i) i)" using m2 by auto
  then show ?thesis by (simp add: tls_session_generate_data_channel_keys_def Let_def c_assert_def)
qed

end
