(* ===== verification/Control_Firewall.thy ===== *)
theory Control_Firewall
  imports Ssl_Verify
begin

text \<open>
  What reaches the control channel: \<open>read_control_auth\<close> on any packet, and the reliability layer on any record that passes. The
  lemmas of this theory make no assumption on the packet; they say that nothing fails, and which packets can pass.
\<close>

named_theorems total \<open>operations that cannot fail, on any input\<close>

subsection \<open>The replay check\<close>

definition replay_ok :: "crypto_options \<Rightarrow> bool" where
  "replay_ok opt \<longleftrightarrow> win_inv (opt_rec opt) \<or> res_inv (opt_rec opt) \<or> lin_inv (opt_rec opt)"

lemma replay_ok_initialized: "replay_ok opt \<Longrightarrow> pid_initialized opt"
  by (auto simp: replay_ok_def win_inv_def res_inv_def lin_inv_def pid_initialized_def)

text \<open>What \<open>tls_session_init\<close> starts from: a fresh packet id, with or without the state of an earlier session.\<close>

lemma load_obj_replay_ok:
  assumes "packet_id_init sb tb = Some pid" "co_packet_id opt = packet_id_persist_load_obj pp pid"
  shows "replay_ok opt"
proof (cases "sb = 0")
  case True
  then have "lin_inv (pid_rec pid)" using assms(1) packet_id_init_linear by blast
  then show ?thesis using assms(2)
    by (auto simp: replay_ok_def packet_id_persist_load_obj_def lin_inv_def split: option.splits)
next
  case False
  then have "win_inv (pid_rec pid)" "res_inv ((pid_rec pid)\<lparr>rec_time := t, rec_id := i\<rparr>)" for t i
    using packet_id_init_window [OF assms(1)] packet_id_init_resumed [OF assms(1)] by blast+
  then show ?thesis using assms(2)
    by (auto simp: replay_ok_def packet_id_persist_load_obj_def split: option.splits)
qed

lemma check_replay_total [total]:
  assumes "replay_ok opt" "1 < ts"
  shows "\<exists>opt' fresh. crypto_check_replay ts opt pin = Some (opt', fresh) \<and> replay_ok opt' \<and> co_flags opt' = co_flags opt"
proof -
  have "\<exists>opt' fresh. crypto_check_replay ts opt pin = Some (opt', fresh) \<and> replay_ok opt'"
    using assms crypto_check_replay_window [of opt ts pin] crypto_check_replay_linear [of opt ts pin]
      crypto_check_replay_resumed [of opt ts _ pin, OF _ _ refl]
    unfolding replay_ok_def by (metis (full_types))
  then show ?thesis using check_replay_keeps by blast
qed

subsection \<open>The outer layer\<close>

text \<open>A wrapping state ready to receive: keys of the right kind, and a replay check that works or is switched off.\<close>

definition wrap_reads :: "tls_wrap_ctx \<Rightarrow> bool" where
  "wrap_reads w \<longleftrightarrow>
     (tw_mode w \<noteq> TLS_WRAP_NONE \<longrightarrow> co_flags (tw_opt w) AND CO_PACKET_ID_LONG_FORM \<noteq> 0 \<and>
        co_flags (tw_opt w) AND CO_IGNORE_PACKET_ID = 0 \<and> replay_ok (tw_opt w)) \<and>
     (tw_mode w = TLS_WRAP_AUTH \<longrightarrow> (\<exists>hm. tls_auth_key hm (kb_decrypt (tw_keys w)))) \<and>
     (tw_mode w = TLS_WRAP_CRYPT \<longrightarrow> (\<exists>c hm. tls_crypt_key c hm (kb_decrypt (tw_keys w))))"

text \<open>The packets that carry the authentication which the mode asks for, by their layout alone.\<close>

definition auth_mac_ok :: "hmac_ctx \<Rightarrow> byte list \<Rightarrow> bool" where
  "auth_mac_ok hm pkt \<longleftrightarrow> (let n = nat (hmac_size hm) in
     n + 17 \<le> length pkt \<and> take n (drop 9 pkt) = hmac_of hm (take 8 (drop (9 + n) pkt) @ take 9 pkt @ drop (17 + n) pkt))"

definition wrap_authentic :: "tls_wrap_ctx \<Rightarrow> byte list \<Rightarrow> bool" where
  "wrap_authentic w pkt = (case tw_mode w of
     TLS_WRAP_NONE \<Rightarrow> True
   | TLS_WRAP_AUTH \<Rightarrow> (\<exists>hm. kc_hmac (kb_decrypt (tw_keys w)) = Some hm \<and> auth_mac_ok hm pkt)
   | TLS_WRAP_CRYPT \<Rightarrow> (\<exists>c hm. kc_cipher (kb_decrypt (tw_keys w)) = Some c \<and> kc_hmac (kb_decrypt (tw_keys w)) = Some hm \<and>
       authentic_text c hm pkt \<noteq> None))"

lemma swap_hmac_short:
  assumes "buf_ok b" "kc_hmac (kb_decrypt keys) = Some hm" "0 \<le> hmac_size hm" "hmac_size hm + 8 \<le> 256"
    "length (content b) < nat (hmac_size hm) + 17"
  shows "swap_hmac keys b True = Some (b, False)"
proof -
  have "\<not> 9 + (hmac_size hm + 8) \<le> b_len b" using assms(3,5) buf_ok_len [OF assms(1)] by linarith
  then show ?thesis using assms(2-4) by (simp add: swap_hmac_def Let_def SID_SIZE_def packet_id_size_def SWAP_BUF_SIZE_def)
qed

lemma decrypt_forged:
  assumes key: "tls_auth_key hm ctx" and b: "buf_ok b" "content b = mac @ txt" "int (length mac) = hmac_size hm" "mac \<noteq> hmac_of hm txt"
  shows "\<exists>b'. openvpn_decrypt ts ctx opt b clear_buf null_frame ad = Some (opt, b', False) \<and> b_len b' = 0"
proof -
  note k = key [unfolded tls_auth_key_def]
  have kc: "kc_cipher ctx = None" "kc_hmac ctx = Some hm" "0 < hmac_size hm" "int (length (hmac_of hm txt)) = hmac_size hm" using k by simp_all
  have lb: "b_len b = hmac_size hm + int (length txt)" using buf_ok_len [OF b(1)] b(2,3) by simp
  have signed: "load_at b (b_offset b + hmac_size hm) (b_len b - hmac_size hm) = Some txt"
    using load_slice [OF b(1), of "length mac" "length txt"] b(2,3) lb by simp
  have hash: "load_at b (b_offset b) (hmac_size hm) = Some mac" using load_prefix [OF b(1,2)] b(3) by simp
  have "length (hmac_of hm txt) = length mac" using kc(4) b(3) by simp
  from memcmp_constant_time_iff [OF this] b(4) have cmp: "memcmp_constant_time (hmac_of hm txt) mac \<noteq> 0" by auto
  have "\<not> b_len b < hmac_size hm" "b_len b > 0" using lb kc(3) by simp_all
  then show ?thesis
    using kc(1,2) signed hash cmp by (simp add: openvpn_decrypt_def mode_aead_def openvpn_decrypt_v1_def Let_def crypt_error_def)
qed

lemma split_four: "xs = take a xs @ take b (drop a xs) @ take c (drop (a + b) xs) @ drop (a + b + c) xs"
  by (simp add: append_assoc [symmetric] take_add [symmetric] del: append_assoc)

lemma be32_split: "length bs = 8 \<Longrightarrow> \<exists>i t. bs = be32 i @ be32 t"
  by (intro exI [of _ "be32_dec (take 4 bs)"] exI [of _ "be32_dec (drop 4 bs)"]) (simp add: be32_be32_dec)

lemma read_auth_total:
  assumes w: "wrap_reads w" "tw_mode w = TLS_WRAP_AUTH" and b: "buf_ok b" and ts: "1 < ts"
  shows "\<exists>w' b' ok. read_control_auth ts w b = Some (w', b', ok) \<and> wrap_reads w' \<and> (ok \<longrightarrow> buf_ok b') \<and>
    (\<not> wrap_authentic w (content b) \<longrightarrow> \<not> ok \<and> w' = w)"
proof -
  obtain hm where hm: "tls_auth_key hm (kb_decrypt (tw_keys w))" using w by (auto simp: wrap_reads_def)
  note k = hm [unfolded tls_auth_key_def]
  have kc: "kc_cipher (kb_decrypt (tw_keys w)) = None" "kc_hmac (kb_decrypt (tw_keys w)) = Some hm" "0 \<le> hmac_size hm" "hmac_size hm + 8 \<le> 256"
    using k by simp_all
  define n where "n = nat (hmac_size hm)"
  show ?thesis
  proof (cases "length (content b) < n + 17")
    case True
    then show ?thesis using w swap_hmac_short [OF b kc(2-4)] by (auto simp: read_control_auth_def n_def)
  next
    case False
    define h mac pid x where "h = take 9 (content b)" and "mac = take n (drop 9 (content b))" and "pid = take 8 (drop (9 + n) (content b))"
      and "x = drop (17 + n) (content b)"
    have c: "content b = h @ (mac @ pid) @ x"
      using split_four [of "content b" 9 n 8] by (simp add: h_def mac_def pid_def x_def add.commute)
    have len: "length h = 9" "int (length mac) = hmac_size hm" "length pid = 8" using False kc(3) by (simp_all add: h_def mac_def pid_def n_def)
    obtain i t where it: "pid = be32 i @ be32 t" using be32_split [OF len(3)] by blast
    have auth: "wrap_authentic w (content b) \<longleftrightarrow> mac = hmac_of hm (pid @ h @ x)"
      using w(2) kc(2) False by (simp add: wrap_authentic_def auth_mac_ok_def h_def mac_def pid_def x_def n_def Let_def)
    show ?thesis
    proof (cases "mac = hmac_of hm (pid @ h @ x)")
      case True
      have fl: "co_flags (tw_opt w) AND CO_PACKET_ID_LONG_FORM \<noteq> 0" "co_flags (tw_opt w) AND CO_IGNORE_PACKET_ID = 0" "replay_ok (tw_opt w)"
        using w by (simp_all add: wrap_reads_def)
      obtain opt' fresh where chk: "crypto_check_replay ts (tw_opt w) \<lparr>net_id = i, net_time = uint t\<rparr> = Some (opt', fresh)"
        "replay_ok opt'" "co_flags opt' = co_flags (tw_opt w)" using check_replay_total [OF fl(3) ts] by blast
      have "content b = h @ (hmac_of hm (be32 i @ be32 t @ h @ x) @ be32 i @ be32 t) @ x" using c True it by simp
      from read_auth_spec [OF w(2) hm fl(1,2) b this len(1) chk(1)] obtain b' where
        "read_control_auth ts w b = Some (w\<lparr>tw_opt := opt'\<rparr>, b', fresh)" "fresh \<longrightarrow> buf_ok b'" by blast
      then show ?thesis using True auth w chk(2,3) by (auto simp: wrap_reads_def)
    next
      case False
      have "kc_hmac (if True then kb_decrypt (tw_keys w) else kb_encrypt (tw_keys w)) = Some hm"
        "int (length h) = (if True then 9 else hmac_size hm + 8)" "int (length (mac @ pid)) = (if True then hmac_size hm + 8 else 9)"
        using kc len by simp_all
      from swap_hmac_spec [OF b c this(1) kc(3,4) this(2,3)] obtain b1 where b1: "swap_hmac (tw_keys w) b True = Some (b1, True)" "buf_ok b1"
        "content b1 = (mac @ pid) @ h @ x" by blast
      have "content b1 = mac @ pid @ h @ x" using b1(3) by simp
      from decrypt_forged [OF hm b1(2) this len(2) False] obtain b2 where
        "openvpn_decrypt ts (kb_decrypt (tw_keys w)) (tw_opt w) b1 clear_buf null_frame (b_offset b1) = Some (tw_opt w, b2, False)" "b_len b2 = 0"
        by blast
      then show ?thesis using w b1(1) kc(1) by (auto simp: read_control_auth_def)
    qed
  qed
qed

lemma read_crypt_total:
  assumes w: "wrap_reads w" "tw_mode w = TLS_WRAP_CRYPT" and b: "buf_ok b" "content b \<noteq> []" and ts: "1 < ts"
  shows "\<exists>w' b' ok. read_control_auth ts w b = Some (w', b', ok) \<and> wrap_reads w' \<and> (ok \<longrightarrow> buf_ok b') \<and>
    (\<not> wrap_authentic w (content b) \<longrightarrow> \<not> ok \<and> w' = w)"
proof -
  obtain c hm where key: "tls_crypt_key c hm (kb_decrypt (tw_keys w))" using w by (auto simp: wrap_reads_def)
  then have kc: "kc_cipher (kb_decrypt (tw_keys w)) = Some c" "kc_hmac (kb_decrypt (tw_keys w)) = Some hm" "stream_cipher c"
    by (simp_all add: tls_crypt_key_def)
  have fl: "co_flags (tw_opt w) AND CO_IGNORE_PACKET_ID = 0" "replay_ok (tw_opt w)" using w by (simp_all add: wrap_reads_def)
  have auth: "wrap_authentic w (content b) \<longleftrightarrow> authentic_text c hm (content b) \<noteq> None"
    using w(2) kc by (simp add: wrap_authentic_def)
  show ?thesis
  proof (cases "authentic_text c hm (content b)")
    case (Some p)
    obtain opt' fresh where chk: "crypto_check_replay ts (tw_opt w) (wire_pin (content b)) = Some (opt', fresh)"
      "replay_ok opt'" "co_flags opt' = co_flags (tw_opt w)" using check_replay_total [OF fl(2) ts] by blast
    have "length (content b) = length p + 49"
    proof -
      have big: "\<not> length (content b) < 49" using Some by (auto simp: authentic_text_def split: if_splits)
      then obtain f where "ctx_decrypt c (take 16 (drop 17 (content b))) [] (drop 49 (content b)) [] = (Some p, f)"
        using Some by (auto simp: authentic_text_def split: prod.splits option.splits if_splits)
      then have "length p = length (drop 49 (content b))" using kc(3) unfolding stream_cipher_def by blast
      then show ?thesis using big by simp
    qed
    from read_crypt_spec [OF w(2) key fl(1) b(1) refl Some refl this chk(1)] obtain b' where
      "read_control_auth ts w b = Some (w\<lparr>tw_opt := opt'\<rparr>, b', fresh)" "fresh \<longrightarrow> buf_ok b'" by blast
    then show ?thesis using auth Some w chk(2,3) by (auto simp: wrap_reads_def)
  next
    case None
    have "0 \<le> buf_forward_capacity_total b" "buf_forward_capacity_total b < BUF_SIZE_MAX"
      and ft: "buf_forward_capacity_total b = int (length (content b) + tailroom b)"
      using b(1) by (rule buf_ok_cases, simp add: buf_forward_capacity_total_def tailroom_def buf_valid_def)+
    then obtain tmp where tmp: "alloc_buf (buf_forward_capacity_total b) = Some tmp" "buf_ok tmp" "content tmp = []" "headroom tmp = 0"
      "tailroom tmp = nat (buf_forward_capacity_total b)" "b_capacity tmp = buf_forward_capacity_total b"
      by (metis alloc_buf_ok)
    have "length (content b) \<le> tailroom tmp" using ft tmp(5) by simp
    from unwrap_cases [OF key _ b(1) refl b(2) tmp(2,3) this, of "tw_opt w" ts] replay_ok_initialized [OF fl(2)] None
    obtain d where "tls_crypt_unwrap ts (kb_decrypt (tw_keys w)) (tw_opt w) b tmp = Some (tw_opt w, d, False)" by auto
    then show ?thesis using w tmp(1) by (auto simp: read_control_auth_def)
  qed
qed

text \<open>The outer layer never fails, whatever arrives; what is not authentic is refused and changes nothing.\<close>

lemma read_control_total [total]:
  assumes "wrap_reads w" "buf_ok b" "content b \<noteq> []" "1 < ts"
  shows "\<exists>w' b' ok. read_control_auth ts w b = Some (w', b', ok) \<and> wrap_reads w' \<and> (ok \<longrightarrow> buf_ok b') \<and>
    (\<not> wrap_authentic w (content b) \<longrightarrow> \<not> ok \<and> w' = w)"
proof (cases "tw_mode w")
  case TLS_WRAP_NONE
  have "buf_ok (fst (buf_advance b 9))"
  proof (cases "length (content b) < 9")
    case True
    then have "buf_advance b 9 = (b, False)" using buf_ok_len [OF assms(2)] assms(2) by (simp add: buf_advance_def)
    then show ?thesis using assms(2) by simp
  next
    case False
    then show ?thesis using buf_advance_content [OF assms(2), of 9] by auto
  qed
  then show ?thesis using assms(1) TLS_WRAP_NONE by (auto simp: read_control_auth_def SID_SIZE_def wrap_authentic_def)
next
  case TLS_WRAP_AUTH
  then show ?thesis using read_auth_total assms by blast
next
  case TLS_WRAP_CRYPT
  then show ?thesis using read_crypt_total assms by blast
qed

subsection \<open>The reliability layer on any record\<close>

lemma buf_read_total [total]:
  assumes "buf_ok b"
  shows "\<exists>b' r. buf_read b n = Some (b', r) \<and> buf_ok b' \<and> (\<forall>bs. r = Some bs \<longrightarrow> bs = take (nat n) (content b) \<and> int (length bs) = n)"
proof (cases "0 \<le> n \<and> nat n \<le> length (content b)")
  case True
  then obtain b' where "buf_read b n = Some (b', Some (take (nat n) (content b)))" "buf_ok b'"
    using buf_read_enough [OF assms] by blast
  then show ?thesis using True by auto
next
  case False
  then show ?thesis using buf_read_short [OF assms, of n] assms by auto
qed

lemma ack_read_ids_total [total]:
  "buf_ok b \<Longrightarrow> ack_ok ack \<Longrightarrow> \<exists>ack' b' ok. ack_read_ids n ack b = Some (ack', b', ok) \<and> buf_ok b' \<and> ack_ok ack'"
proof (induction n arbitrary: b ack)
  case (Suc n)
  obtain b1 r where b1: "buf_read b 4 = Some (b1, r)" "buf_ok b1" using buf_read_total [OF Suc.prems(1)] by blast
  show ?case
  proof (cases "r = None \<or> ra_len ack \<ge> RELIABLE_ACK_SIZE")
    case True
    then show ?thesis using b1 Suc.prems by (cases r) auto
  next
    case False
    then obtain bs where r: "r = Some bs" "ra_len ack < RELIABLE_ACK_SIZE" by auto
    obtain ack1 where "ack_push ack (be32_dec bs) = Some ack1" "ack_ok ack1" using ack_push_spec [OF Suc.prems(2) r(2)] by blast
    then show ?thesis using b1 r Suc.IH [OF b1(2)] by simp
  qed
qed auto

lemma ack_read_total [total]:
  assumes "buf_ok b"
  shows "\<exists>ack' b' ok. reliable_ack_read ack_empty b sid = Some (ack', b', ok) \<and> buf_ok b' \<and> ack_ok ack'"
proof -
  obtain b1 r where b1: "buf_read b 1 = Some (b1, r)" "buf_ok b1" using buf_read_total [OF assms] by blast
  show ?thesis
  proof (cases r)
    case None
    then show ?thesis using b1 by (auto simp: reliable_ack_read_def)
  next
    case (Some bs)
    obtain ack2 b2 ok where b2: "ack_read_ids (unat (hd bs)) ack_empty b1 = Some (ack2, b2, ok)" "buf_ok b2" "ack_ok ack2"
      using ack_read_ids_total [OF b1(2)] ack_empty_ok(1) by blast
    obtain b3 r3 where b3: "buf_read b2 SID_SIZE = Some (b3, r3)" "buf_ok b3" using buf_read_total [OF b2(2)] by blast
    show ?thesis using b1 Some b2 b3
      by (auto simp: reliable_ack_read_def session_id_read_def Let_def split: option.splits)
  qed
qed

lemma incoming_acks_total [total]:
  assumes "buf_ok b" "rel_wf cap S"
  shows "\<exists>S' b' ok. tls_incoming_acks S b sid = Some (S', b', ok) \<and> buf_ok b' \<and> rel_wf cap S' \<and> same_packets S S'"
proof -
  obtain ack b' ok where "reliable_ack_read ack_empty b sid = Some (ack, b', ok)" "buf_ok b'" using ack_read_total [OF assms(1)] by blast
  moreover have "same_packets S (reliable_send_purge S ack)" using purge_ids_same by (simp add: reliable_send_purge_def)
  ultimately show ?thesis
    using assms(2) same_packets_wf same_packets_refl [of S] by (cases ok) (auto simp: tls_incoming_acks_def)
qed

lemma incoming_control_total [total]:
  assumes wf: "rel_wf cap R" and ack: "ack_ok A" and b: "buf_ok b"
  shows "\<exists>R' A' b' ok. tls_incoming_control R A b op = Some (R', A', b', ok) \<and> rel_wf cap R' \<and> ack_ok A' \<and>
    r_size R' = r_size R \<and> r_offset R' = r_offset R \<and> buf_ok b'"
proof (cases "op \<noteq> P_ACK_V1 \<and> reliable_can_get R")
  case False
  then show ?thesis using assms by (auto simp: tls_incoming_control_def)
next
  case can: True
  obtain b1 r where b1: "buf_read b 4 = Some (b1, r)" "buf_ok b1" using buf_read_total [OF b] by blast
  show ?thesis
  proof (cases r)
    case None
    then show ?thesis using assms b1 can by (auto simp: tls_incoming_control_def reliable_ack_read_packet_id_def)
  next
    case (Some bs)
    define i where "i = be32_dec bs"
    have read: "reliable_ack_read_packet_id b 0 = Some (b1, i, True)" using b1 Some by (simp add: reliable_ack_read_packet_id_def i_def)
    obtain A' ok where A': "reliable_ack_acknowledge_packet_id A i = Some (A', ok)" "ack_ok A'" using acknowledge_spec [OF ack] by blast
    show ?thesis
    proof (cases "reliable_wont_break_sequentiality R i \<and> reliable_not_replay R i")
      case False
      then show ?thesis using assms b1 can read A' by (auto simp: tls_incoming_control_def)
    next
      case new: True
      have low: "\<not> reliable_pid_min i (r_packet_id R)" using new by (auto simp: reliable_not_replay_def split: if_splits)
      show ?thesis
      proof (cases rule: reliable_get_buf_wf [OF wf])
        case 1
        then have "\<not> reliable_can_get R"
          by (auto simp: reliable_can_get_def active_at_def first_entry_None all_set_conv_all_nth)
        then show ?thesis using can by simp
      next
        case (2 j d)
        define R1 where "R1 = rel_upd R j (\<lambda>e. e\<lparr>e_buf := d\<rparr>)"
        obtain d' fits where d': "buf_copy d b1 = Some (d', fits)" "buf_ok d'" "b_capacity d' = cap"
          using buf_copy_spec [OF 2(4) b1(2)] 2(8) by auto
        define R2 where "R2 = rel_upd R j (\<lambda>e. e\<lparr>e_buf := d'\<rparr>)"
        define R3 where "R3 = rel_upd R2 j (\<lambda>e. e\<lparr>e_active := True, e_packet_id := i, e_opcode := op, e_next_try := 0, e_timeout := 0\<rparr>)"
        have R2: "rel_upd R1 j (\<lambda>e. e\<lparr>e_buf := d'\<rparr>) = R2" "e_buf (r_array R1 ! j) = d"
          using 2(2) by (simp_all add: R1_def R2_def comp_def)
        have wf2: "rel_wf cap R2" using rel_wf_upd [OF wf 2(2)] d' by (simp add: R2_def)
        have wf3: "rel_wf cap R3" using rel_wf_upd [OF wf 2(2)] 2(2) d' by (simp add: R3_def R2_def comp_def)
        have mark: "reliable_mark_active_incoming R2 j i op = Some R3"
          using 2(2) low by (simp add: reliable_mark_active_incoming_def R3_def R2_def)
        have "tls_incoming_control R A b op = (if fits then Some (R3, A', b1, True) else Some (R2, A, b1, False))"
          using can read new 2(1) d'(1) R2 mark A'(1) by (simp add: tls_incoming_control_def R1_def [symmetric])
        then show ?thesis using wf2 wf3 A'(2) ack b1(2) by (auto simp: R3_def R2_def)
      qed
    qed
  qed
qed

end
