(* ===== verification/Tls_Pre_Decrypt.thy ===== *)
theory Tls_Pre_Decrypt
  imports Control_Firewall
begin

text \<open>
  ssl.c: the first routine that sees a packet of the link (\<open>tls_pre_decrypt\<close>), the choice of the key for outgoing data packets
  (\<open>tls_pre_encrypt\<close>, \<open>tls_post_encrypt\<close>), the opcodes in front of data packets and the filter for packets of unknown clients
  (\<open>tls_pre_decrypt_lite\<close>). The pointer to the crypto options that \<open>tls_pre_decrypt\<close> hands out is
  the index of the key in \<open>key_scan\<close>, the pointer to the start of the authenticated data is an offset.
\<close>

definition soft_error :: "'s tls_multi \<Rightarrow> 's tls_multi" where
  "soft_error m = m\<lparr>tm_n_soft_errors := tm_n_soft_errors m + 1\<rparr>"

definition packet_op :: "byte \<Rightarrow> int" where "packet_op c = uint (drop_bit P_OPCODE_SHIFT c)"
definition packet_key_id :: "byte \<Rightarrow> int" where "packet_key_id c = uint c AND P_KEY_ID_MASK"

subsection \<open>Data packets\<close>

fun find_data_key :: "'s tls_multi \<Rightarrow> sockaddr \<Rightarrow> bool \<Rightarrow> int \<Rightarrow> nat list \<Rightarrow> nat option option" where
  "find_data_key m from_addr floated key_id [] = Some None"
| "find_data_key m from_addr floated key_id (j # js) =
     (let ks = scan_key m j in
      if DECRYPT_KEY_ENABLED m ks \<and> key_id = ks_key_id ks \<and> ks_authenticated ks \<and> \<not> ks_auth_deferred ks then do {
        same \<leftarrow> (if floated then Some True else link_socket_actual_match from_addr (ks_remote_addr ks));
        if same then Some (Some j) else find_data_key m from_addr floated key_id js
      } else find_data_key m from_addr floated key_id js)"

text \<open>The result: the tunnel, the packet, the key to decrypt it with and the start of its authenticated data.\<close>

definition pre_decrypt_data ::
  "'s tls_multi \<Rightarrow> sockaddr \<Rightarrow> buffer \<Rightarrow> bool \<Rightarrow> int \<Rightarrow> int \<Rightarrow> ('s tls_multi \<times> buffer \<times> (nat \<times> int) option) option" where
  "pre_decrypt_data m from_addr buf floated op key_id = do {
     r \<leftarrow> find_data_key m from_addr floated key_id [0, 1, 2];
     (case r of
        None \<Rightarrow> Some (m, buf\<lparr>b_len := 0\<rparr>, None)
      | Some j \<Rightarrow>
          if \<not> kb_initialized (ks_keys (scan_key m j)) then Some (m, buf\<lparr>b_len := 0\<rparr>, None)
          else do {
            let start = b_offset buf;
            let (buf, ok) = buf_advance buf 1;
            c_assert ok;
            if op = P_DATA_V2 \<and> b_len buf < 4 then Some (soft_error m, buf\<lparr>b_len := 0\<rparr>, None)
            else do {
              let (ad, (buf, ok)) = (if op = P_DATA_V2 then (start, buf_advance buf 3) else (b_offset buf, (buf, True)));
              c_assert ok;
              Some (scan_update j (\<lambda>ks. ks\<lparr>ks_n_packets := ks_n_packets ks + 1, ks_n_bytes := ks_n_bytes ks + b_len buf\<rparr>) m,
                buf, Some (j, ad))
            }
          })
   }"

subsection \<open>Control packets\<close>

fun match_session :: "'s tls_multi \<Rightarrow> session_id \<Rightarrow> nat list \<Rightarrow> nat option" where
  "match_session m sid [] = None"
| "match_session m sid (i # is) =
     (if session_id_equal (ks_session_id_remote (prim_at m i)) sid then Some i else match_session m sid is)"

text \<open>
  Where a packet goes: the session, whether it opens a new link, and whether to send the waiting packets at once. \<open>None\<close>
  inside means that the packet is refused.
\<close>

type_synonym route = "nat \<times> bool \<times> bool"

text \<open>A hard reset that fits no session may open the active one.\<close>

definition initial_packet :: "'s tls_multi \<Rightarrow> sockaddr \<Rightarrow> int \<Rightarrow> nat option \<Rightarrow> 's tls_multi \<times> (nat option \<times> bool) option" where
  "initial_packet m from_addr op i =
     (if i = None \<and> is_hard_reset op 0 then
        (if \<not> is_hard_reset op (to_key_method (tm_opt m)) then (m, None)
         else if \<not> session_id_defined (ks_session_id_remote (prim_at m TM_ACTIVE)) then
           (if to_single_session (tm_opt m) \<and> tm_n_sessions m \<noteq> 0 then (m, None)
            else (upd_ses TM_ACTIVE (\<lambda>ses. ses\<lparr>ts_untrusted_addr := from_addr\<rparr>) m, Some (Some TM_ACTIVE, True)))
         else (m, Some (None, False)))
      else (m, Some (i, False)))"

text \<open>The HMAC firewall of a session: the packet must pass, and the state of the replay check is kept in any case.\<close>

definition read_at :: "time_t \<Rightarrow> 's tls_multi \<Rightarrow> nat \<Rightarrow> buffer \<Rightarrow> ('s tls_multi \<times> buffer \<times> bool) option" where
  "read_at local_now m i buf = do {
     (w, buf, ok) \<leftarrow> read_control_auth local_now (ts_tls_wrap (ses_at m i)) buf;
     Some (upd_ses i (\<lambda>ses. ses\<lparr>ts_tls_wrap := w\<rparr>) m, buf, ok)
   }"

definition route_packet ::
  "'s ssl_lib \<Rightarrow> time_t \<Rightarrow> 's tls_multi \<Rightarrow> sockaddr \<Rightarrow> buffer \<Rightarrow> int \<Rightarrow> nat option \<Rightarrow> bool \<Rightarrow>
   ('s tls_multi \<times> buffer \<times> route option) option" where
  "route_packet lib local_now m from_addr buf op i new_link =
     (if i = None \<and> is_hard_reset op 0 then
        (if to_single_session (tm_opt m) then Some (m, buf, None)
         else if \<not> is_hard_reset op (to_key_method (tm_opt m)) then Some (m, buf, None)
         else do {
           (m, buf, ok) \<leftarrow> read_at local_now m TM_UNTRUSTED buf;
           if \<not> ok then Some (m, buf, None)
           else Some (upd_ses TM_UNTRUSTED (\<lambda>ses. ses\<lparr>ts_untrusted_addr := from_addr\<rparr>) m, buf, Some (TM_UNTRUSTED, True, False))
         })
      else
        (case i of
           None \<Rightarrow> Some (m, buf, None)
         | Some i \<Rightarrow>
             if i \<noteq> TM_ACTIVE \<and> i \<noteq> TM_UNTRUSTED then Some (m, buf, None)
             else do {
               same \<leftarrow> (if new_link then Some True else link_socket_actual_match (ks_remote_addr (prim_at m i)) from_addr);
               if \<not> same then Some (m, buf, None)
               else if op = P_CONTROL_SOFT_RESET_V1 \<and> DECRYPT_KEY_ENABLED m (prim_at m i) then do {
                 (m, buf, ok) \<leftarrow> read_at local_now m i buf;
                 if \<not> ok then Some (m, buf, None)
                 else do {
                   ses \<leftarrow> key_state_soft_reset lib (tm_opt m) local_now (ses_at m i);
                   Some (upd_ses i (\<lambda>_. ses) m, buf, Some (i, new_link, new_link))
                 }
               } else do {
                 (m, buf, ok) \<leftarrow> read_at local_now m i buf;
                 if \<not> ok then Some (m, buf, None)
                 else Some (m, buf, Some (i, new_link, new_link \<or> op = P_CONTROL_SOFT_RESET_V1))
               }
             }))"

text \<open>
  An authenticated packet and its session: note the peer of a new link, check address and key id, process the
  acknowledgements and file the packet. The flag says whether the packet was processed without an error.
\<close>

definition control_ready :: "'s tls_session \<Rightarrow> bool" where
  "control_ready ses \<longleftrightarrow> ks_state (ts_primary ses) \<noteq> S_UNDEF \<and> ks_state (ts_primary ses) \<noteq> S_ERROR \<and> session_id_defined (ts_session_id ses)"

definition file_packet :: "'s tls_session \<Rightarrow> buffer \<Rightarrow> int \<Rightarrow> ('s tls_session \<times> buffer \<times> bool) option" where
  "file_packet ses buf op = do {
     snd \<leftarrow> ks_send_reliable (ts_primary ses);
     (snd, buf, ok) \<leftarrow> tls_incoming_acks snd buf (ts_session_id ses);
     let ses = ses\<lparr>ts_primary := (ts_primary ses)\<lparr>ks_send_reliable := Some snd\<rparr>\<rparr>;
     if \<not> ok then Some (ses, buf, False)
     else do {
       rec \<leftarrow> ks_rec_reliable (ts_primary ses);
       ack \<leftarrow> ks_rec_ack (ts_primary ses);
       (rec, ack, buf, ok) \<leftarrow> tls_incoming_control rec ack buf op;
       Some (ses\<lparr>ts_primary := (ts_primary ses)\<lparr>ks_rec_reliable := Some rec, ks_rec_ack := Some ack\<rparr>\<rparr>, buf, ok)
     }
   }"

definition burst_session :: "time_t \<Rightarrow> bool \<Rightarrow> 's tls_session \<Rightarrow> 's tls_session option" where
  "burst_session local_now do_burst ses =
     (if do_burst \<and> \<not> ts_burst ses then do {
        snd \<leftarrow> ks_send_reliable (ts_primary ses);
        Some (ses\<lparr>ts_burst := True,
          ts_primary := (ts_primary ses)\<lparr>ks_send_reliable := Some (reliable_schedule_now local_now snd)\<rparr>\<rparr>)
      } else Some ses)"

definition accept_packet ::
  "time_t \<Rightarrow> 's tls_multi \<Rightarrow> sockaddr \<Rightarrow> buffer \<Rightarrow> int \<Rightarrow> int \<Rightarrow> session_id \<Rightarrow> route \<Rightarrow> ('s tls_multi \<times> buffer \<times> bool) option" where
  "accept_packet local_now m from_addr buf op key_id sid r = do {
     let (i, new_link, do_burst) = r;
     c_assert (control_ready (ses_at m i));
     let m = (if new_link
              then (upd_prim i (\<lambda>ks. ks\<lparr>ks_session_id_remote := sid, ks_remote_addr := from_addr\<rparr>) m)\<lparr>tm_n_sessions := tm_n_sessions m + 1\<rparr>
              else m);
     same \<leftarrow> (if new_link then Some True else link_socket_actual_match (ks_remote_addr (prim_at m i)) from_addr);
     if \<not> same then Some (m, buf, False)
     else do {
       ses \<leftarrow> burst_session local_now do_burst (ses_at m i);
       if ks_key_id (ts_primary ses) \<noteq> key_id then Some (upd_ses i (\<lambda>_. ses) m, buf, False)
       else do {
         (ses, buf, ok) \<leftarrow> file_packet ses buf op;
         Some (upd_ses i (\<lambda>_. ses) m, buf, ok)
       }
     }
   }"

text \<open>The result: the tunnel, the packet, and whether an authenticated control packet was processed.\<close>

definition pre_decrypt_control ::
  "'s ssl_lib \<Rightarrow> time_t \<Rightarrow> 's tls_multi \<Rightarrow> sockaddr \<Rightarrow> buffer \<Rightarrow> int \<Rightarrow> int \<Rightarrow> ('s tls_multi \<times> buffer \<times> bool) option" where
  "pre_decrypt_control lib local_now m from_addr buf op key_id =
     (if op < P_FIRST_OPCODE \<or> op > P_LAST_OPCODE then Some (soft_error m, buf\<lparr>b_len := 0\<rparr>, False)
      else if is_hard_reset op 0 \<and>
              ((op = P_CONTROL_HARD_RESET_CLIENT_V1 \<or> op = P_CONTROL_HARD_RESET_CLIENT_V2) \<and> \<not> to_server (tm_opt m) \<or>
               (op = P_CONTROL_HARD_RESET_SERVER_V1 \<or> op = P_CONTROL_HARD_RESET_SERVER_V2) \<and> to_server (tm_opt m))
      then Some (soft_error m, buf\<lparr>b_len := 0\<rparr>, False)
      else do {
        (sid, _, ok) \<leftarrow> session_id_read x_session_id_zero (fst (buf_advance buf 1));
        if \<not> ok \<or> \<not> session_id_defined sid then Some (soft_error m, buf\<lparr>b_len := 0\<rparr>, False)
        else (case match_session m sid [0, 1, 2] of
          i \<Rightarrow>
            if i = Some TM_LAME_DUCK then Some (soft_error m, buf\<lparr>b_len := 0\<rparr>, False)
            else (case initial_packet m from_addr op i of
                (m, None) \<Rightarrow> Some (soft_error m, buf\<lparr>b_len := 0\<rparr>, False)
              | (m, Some (i, new_link)) \<Rightarrow> do {
                  (m, buf, r) \<leftarrow> route_packet lib local_now m from_addr buf op i new_link;
                  (case r of
                     None \<Rightarrow> Some (soft_error m, buf\<lparr>b_len := 0\<rparr>, False)
                   | Some r \<Rightarrow> do {
                       (m, buf, ok) \<leftarrow> accept_packet local_now m from_addr buf op key_id sid r;
                       Some (if ok then m else soft_error m, buf\<lparr>b_len := 0\<rparr>, True)
                     })
                }))
      })"

definition tls_pre_decrypt ::
  "'s ssl_lib \<Rightarrow> time_t \<Rightarrow> 's tls_multi \<Rightarrow> sockaddr \<Rightarrow> buffer \<Rightarrow> bool \<Rightarrow> ('s tls_multi \<times> buffer \<times> (nat \<times> int) option \<times> bool) option" where
  "tls_pre_decrypt lib local_now m from_addr buf floated =
     (if b_len buf > 0 then do {
        p \<leftarrow> buf_bptr buf;
        c \<leftarrow> load_at buf p 1;
        let op = packet_op (hd c);
        let key_id = packet_key_id (hd c);
        if op = P_DATA_V1 \<or> op = P_DATA_V2 then do {
          (m, buf, opt) \<leftarrow> pre_decrypt_data m from_addr buf floated op key_id;
          Some (m, buf, opt, False)
        } else do {
          (m, buf, ret) \<leftarrow> pre_decrypt_control lib local_now m from_addr buf op key_id;
          Some (m, buf, None, ret)
        }
      } else Some (m, buf\<lparr>b_len := 0\<rparr>, None, False))"

subsection \<open>Packets of unknown clients\<close>

record tls_auth_standalone =
  tas_tls_wrap :: tls_wrap_ctx
  tas_frame :: frame

text \<open>The context of the filter only reads: it does not look at packet ids.\<close>

definition tls_auth_standalone_init :: "tls_options \<Rightarrow> tls_auth_standalone" where
  "tls_auth_standalone_init opt = \<lparr>tas_tls_wrap = (to_tls_wrap opt)\<lparr>tw_opt := (tw_opt (to_tls_wrap opt))\<lparr>
       co_flags := co_flags (tw_opt (to_tls_wrap opt)) OR CO_IGNORE_PACKET_ID\<rparr>\<rparr>, tas_frame = to_frame opt\<rparr>"

definition tls_auth_standalone_finalize :: "tls_auth_standalone \<Rightarrow> frame \<Rightarrow> tls_auth_standalone option" where
  "tls_auth_standalone_finalize tas data_frame = do {
     f \<leftarrow> tls_init_control_channel_frame_parameters data_frame (tas_frame tas);
     Some (tas\<lparr>tas_frame := f\<rparr>)
   }"

definition tls_pre_decrypt_lite :: "byte list \<Rightarrow> time_t \<Rightarrow> tls_auth_standalone \<Rightarrow> buffer \<Rightarrow> bool option" where
  "tls_pre_decrypt_lite fresh local_now tas buf =
     (if b_len buf > 0 then do {
        p \<leftarrow> buf_bptr buf;
        c \<leftarrow> load_at buf p 1;
        if packet_op (hd c) \<noteq> P_CONTROL_HARD_RESET_CLIENT_V2 then Some False
        else if packet_key_id (hd c) \<noteq> 0 then Some False
        else if b_len buf > EXPANDED_SIZE_DYNAMIC (tas_frame tas) then Some False
        else do {
          newbuf \<leftarrow> clone_buf fresh buf;
          (_, _, status) \<leftarrow> read_control_auth local_now (tas_tls_wrap tas) newbuf;
          Some status
        }
      } else Some False)"

subsection \<open>Outgoing data packets\<close>

fun select_key :: "time_t \<Rightarrow> 's tls_multi \<Rightarrow> nat list \<Rightarrow> nat option \<Rightarrow> nat option" where
  "select_key local_now m [] sel = sel"
| "select_key local_now m (j # js) sel =
     (let ks = scan_key m j in
      if ks_state ks \<ge> S_ACTIVE \<and> ks_authenticated ks \<and> kb_initialized (ks_keys ks) \<and> \<not> ks_auth_deferred ks then
        (if local_now \<ge> ks_auth_deferred_expire ks then Some j
         else select_key local_now m js (if sel = None then Some j else sel))
      else select_key local_now m js sel)"

definition tls_pre_encrypt :: "time_t \<Rightarrow> 's tls_multi \<Rightarrow> buffer \<Rightarrow> 's tls_multi \<times> buffer \<times> nat option" where
  "tls_pre_encrypt local_now m buf =
     (let m = m\<lparr>tm_save_ks := None\<rparr> in
      if b_len buf > 0 then
        (case select_key local_now m [0, 1, 2] None of
           Some j \<Rightarrow> (m\<lparr>tm_save_ks := Some j\<rparr>, buf, Some j)
         | None \<Rightarrow> (m, buf\<lparr>b_len := 0\<rparr>, None))
      else (m, buf\<lparr>b_len := 0\<rparr>, None))"

definition tls_prepend_opcode_v1 :: "'s tls_multi \<Rightarrow> buffer \<Rightarrow> buffer option" where
  "tls_prepend_opcode_v1 m buf = do {
     j \<leftarrow> tm_save_ks m;
     let op = (word_of_int (push_bit P_OPCODE_SHIFT P_DATA_V1 OR ks_key_id (scan_key m j)) :: byte);
     (buf, ok) \<leftarrow> buf_write_prepend buf [op];
     c_assert ok;
     Some buf
   }"

definition tls_prepend_opcode_v2 :: "'s tls_multi \<Rightarrow> buffer \<Rightarrow> buffer option" where
  "tls_prepend_opcode_v2 m buf = do {
     j \<leftarrow> tm_save_ks m;
     let peer = (push_bit 24 (word_of_int (push_bit P_OPCODE_SHIFT P_DATA_V2 OR ks_key_id (scan_key m j))) OR (tm_peer_id m AND 0xFFFFFF) :: u32);
     (buf, ok) \<leftarrow> buf_write_prepend buf (be32 peer);
     c_assert ok;
     Some buf
   }"

definition tls_post_encrypt :: "'s tls_multi \<Rightarrow> buffer \<Rightarrow> 's tls_multi option" where
  "tls_post_encrypt m buf =
     (let ks = tm_save_ks m; m = m\<lparr>tm_save_ks := None\<rparr> in
      if b_len buf > 0 then do {
        j \<leftarrow> ks;
        Some (scan_update j (\<lambda>ks. ks\<lparr>ks_n_packets := ks_n_packets ks + 1, ks_n_bytes := ks_n_bytes ks + b_len buf\<rparr>) m)
      } else Some m)"

text \<open>A peer that has moved: every key with an address gets the new one.\<close>

definition update_key_addr :: "sockaddr \<Rightarrow> 's key_state \<Rightarrow> 's key_state option" where
  "update_key_addr addr ks =
     (if \<not> link_socket_actual_defined (ks_remote_addr ks) then Some ks
      else do {
        same \<leftarrow> link_socket_actual_match addr (ks_remote_addr ks);
        Some (if same then ks else ks\<lparr>ks_remote_addr := addr\<rparr>)
      })"

fun update_session_addrs :: "sockaddr \<Rightarrow> 's tls_session list \<Rightarrow> 's tls_session list option" where
  "update_session_addrs addr [] = Some []"
| "update_session_addrs addr (ses # sess) = do {
     p \<leftarrow> update_key_addr addr (ts_primary ses);
     l \<leftarrow> update_key_addr addr (ts_lame ses);
     sess \<leftarrow> update_session_addrs addr sess;
     Some (ses\<lparr>ts_primary := p, ts_lame := l\<rparr> # sess)
   }"

definition tls_update_remote_addr :: "'s tls_multi \<Rightarrow> sockaddr \<Rightarrow> 's tls_multi option" where
  "tls_update_remote_addr m addr = do {
     sess \<leftarrow> update_session_addrs addr (tm_session m);
     Some (m\<lparr>tm_session := sess\<rparr>)
   }"

subsection \<open>A tunnel ready for packets\<close>

definition addr_ok :: "sockaddr \<Rightarrow> bool" where
  "addr_ok a \<longleftrightarrow> sa_family a = AF_INET \<or> sa_family a = AF_INET6"

lemma addr_match_total [total]: "addr_ok a \<Longrightarrow> \<exists>same. link_socket_actual_match a a' = Some same"
  by (auto simp: addr_ok_def link_socket_actual_match_def addr_port_match_def)

definition key_ready :: "'s key_state \<Rightarrow> bool" where
  "key_ready ks \<longleftrightarrow> ks_state ks \<noteq> S_UNDEF \<and> ks_state ks \<noteq> S_ERROR \<and>
     (\<exists>cap S. ks_send_reliable ks = Some S \<and> rel_wf cap S) \<and> (\<exists>cap R. ks_rec_reliable ks = Some R \<and> rel_wf cap R) \<and>
     (\<exists>A. ks_rec_ack ks = Some A \<and> ack_ok A) \<and>
     (session_id_defined (ks_session_id_remote ks) \<longrightarrow> addr_ok (ks_remote_addr ks))"

definition session_ready :: "'s tls_session \<Rightarrow> bool" where
  "session_ready ses \<longleftrightarrow> session_id_defined (ts_session_id ses) \<and> wrap_reads (ts_tls_wrap ses) \<and> key_ready (ts_primary ses)"

text \<open>The sizes that make the buffers of a key state, and a window that \<open>packet_id_init\<close> accepts.\<close>

definition options_ok :: "tls_options \<Rightarrow> bool" where
  "options_ok opt \<longleftrightarrow> 4 \<le> FRAME_HEADROOM (to_frame opt) \<and> FRAME_HEADROOM (to_frame opt) \<le> BUF_SIZE (to_frame opt) \<and>
     BUF_SIZE (to_frame opt) < BUF_SIZE_MAX \<and>
     (to_replay opt \<longrightarrow> packet_id_init (to_replay_window opt) (to_replay_time opt) \<noteq> None)"

definition tunnel_ready :: "'s tls_multi \<Rightarrow> bool" where
  "tunnel_ready m \<longleftrightarrow> length (tm_session m) = TM_SIZE \<and> options_ok (tm_opt m) \<and> session_ready (ses_at m TM_ACTIVE) \<and>
     (session_ready (ses_at m TM_UNTRUSTED) \<or>
      to_single_session (tm_opt m) \<and> ks_state (prim_at m TM_UNTRUSTED) = S_UNDEF \<and>
        \<not> session_id_defined (ks_session_id_remote (prim_at m TM_UNTRUSTED)))"

lemma session_ready_control: "session_ready ses \<Longrightarrow> control_ready ses"
  by (simp add: session_ready_def key_ready_def control_ready_def)

lemma reliable_init_total:
  assumes "0 < n" "n \<le> 8" "4 \<le> off" "off \<le> cap" "cap < BUF_SIZE_MAX"
  shows "\<exists>rel. reliable_init cap off n hold = Some rel \<and> rel_wf cap rel"
proof -
  have "0 \<le> cap" using assms by simp
  from alloc_buf_ok [OF this assms(5)] obtain b where b: "alloc_buf cap = Some b" "buf_ok b" "b_capacity b = cap" by metis
  have "0 \<le> off" "off \<le> b_capacity b" using assms b(3) by simp_all
  from buf_init_ok [OF b(2) this] obtain b' where "buf_init b off = (b', True)" by metis
  then have "\<exists>rel. reliable_init cap off n hold = Some rel"
    using assms b(1) by (simp add: reliable_init_def RELIABLE_CAPACITY_def)
  then show ?thesis using reliable_init_wf(1) assms(3) by blast
qed

lemma rel_wf_timeout [simp]: "rel_wf cap (reliable_set_timeout rel t) = rel_wf cap rel"
  by (simp add: reliable_set_timeout_def rel_wf_def rel_entries_def)

lemma key_state_init_total [total]:
  assumes "options_ok opt"
  shows "\<exists>ses' ks. key_state_init lib opt ses = Some (ses', ks) \<and> ses' = ses\<lparr>ts_initial_opcode := P_CONTROL_SOFT_RESET_V1, ts_key_id := next_key_id (ts_key_id ses)\<rparr> \<and>
    key_ready ks \<and> ks_state ks = S_INITIAL \<and> ks_key_id ks = ts_key_id ses \<and> \<not> ks_authenticated ks \<and>
    \<not> session_id_defined (ks_session_id_remote ks)"
proof -
  define f where "f = to_frame opt"
  have f: "4 \<le> FRAME_HEADROOM f" "FRAME_HEADROOM f \<le> BUF_SIZE f" "BUF_SIZE f < BUF_SIZE_MAX" "0 \<le> BUF_SIZE f"
    using assms by (simp_all add: options_ok_def f_def)
  obtain rb where rb: "alloc_buf TLS_CHANNEL_BUF_SIZE = Some rb"
    using alloc_buf_ok [of TLS_CHANNEL_BUF_SIZE] by (auto simp: TLS_CHANNEL_BUF_SIZE_def BUF_SIZE_MAX_def)
  obtain ab where ab: "alloc_buf (BUF_SIZE f) = Some ab" using alloc_buf_ok [OF f(4,3)] by metis
  have n: "0 < TLS_RELIABLE_N_SEND_BUFFERS" "TLS_RELIABLE_N_SEND_BUFFERS \<le> 8" "0 < TLS_RELIABLE_N_REC_BUFFERS" "TLS_RELIABLE_N_REC_BUFFERS \<le> 8"
    by (simp_all add: TLS_RELIABLE_N_SEND_BUFFERS_def TLS_RELIABLE_N_REC_BUFFERS_def)
  obtain S where S: "reliable_init (BUF_SIZE f) (FRAME_HEADROOM f) TLS_RELIABLE_N_SEND_BUFFERS
      (if ts_key_id ses \<noteq> 0 then False else to_xmit_hold opt) = Some S" "rel_wf (BUF_SIZE f) S"
    using reliable_init_total [OF n(1,2) f(1-3)] by blast
  obtain R where R: "reliable_init (BUF_SIZE f) (FRAME_HEADROOM f) TLS_RELIABLE_N_REC_BUFFERS False = Some R" "rel_wf (BUF_SIZE f) R"
    using reliable_init_total [OF n(3,4) f(1-3)] by blast
  obtain pid where pid: "(if to_replay opt then packet_id_init (to_replay_window opt) (to_replay_time opt) else Some packet_id_clear) = Some pid"
    using assms by (cases "to_replay opt") (auto simp: options_ok_def)
  show ?thesis
    using rb ab S R pid
    by (auto simp: key_state_init_def Let_def f_def key_ready_def zero_key_state_def S_defs session_id_defined_def)
qed

lemma soft_reset_total [total]:
  assumes "options_ok opt" "key_ready (ts_primary ses)"
  shows "\<exists>ses'. key_state_soft_reset lib opt ts ses = Some ses' \<and> key_ready (ts_primary ses') \<and> ks_state (ts_primary ses') = S_INITIAL \<and>
    ts_session_id ses' = ts_session_id ses \<and> ts_tls_wrap ses' = ts_tls_wrap ses \<and> ks_key_id (ts_primary ses') = ts_key_id ses \<and>
    ks_session_id_remote (ts_primary ses') = ks_session_id_remote (ts_primary ses) \<and>
    ks_remote_addr (ts_primary ses') = ks_remote_addr (ts_primary ses) \<and>
    ts_lame ses' = (ts_primary ses)\<lparr>ks_must_die := ts + to_transition_window opt\<rparr>"
proof -
  define ses1 where "ses1 = ses\<lparr>ts_lame := (ts_primary ses)\<lparr>ks_must_die := ts + to_transition_window opt\<rparr>\<rparr>"
  obtain ks where ks: "key_state_init lib opt ses1 = Some (ses1\<lparr>ts_initial_opcode := P_CONTROL_SOFT_RESET_V1, ts_key_id := next_key_id (ts_key_id ses1)\<rparr>, ks)"
      "key_ready ks" "ks_state ks = S_INITIAL" "ks_key_id ks = ts_key_id ses1"
    using key_state_init_total [OF assms(1), of lib ses1] by blast
  show ?thesis
    unfolding key_state_soft_reset_def Let_def ses1_def [symmetric]
    using ks assms(2) by (auto simp: ses1_def key_ready_def)
qed

subsection \<open>The steps of \<open>tls_pre_decrypt\<close>\<close>

text \<open>A key that may decrypt a packet with this key id from this address.\<close>

definition key_usable :: "'s tls_multi \<Rightarrow> sockaddr \<Rightarrow> bool \<Rightarrow> int \<Rightarrow> nat \<Rightarrow> bool" where
  "key_usable m from_addr floated key_id j \<longleftrightarrow> j < 3 \<and> DECRYPT_KEY_ENABLED m (scan_key m j) \<and> ks_key_id (scan_key m j) = key_id \<and>
     ks_authenticated (scan_key m j) \<and> \<not> ks_auth_deferred (scan_key m j) \<and>
     (floated \<or> link_socket_actual_match from_addr (ks_remote_addr (scan_key m j)) = Some True)"

lemma find_data_key_total [total]:
  assumes "addr_ok from_addr" "\<forall>j \<in> set js. j < 3"
  shows "\<exists>r. find_data_key m from_addr floated key_id js = Some r \<and> (\<forall>j. r = Some j \<longrightarrow> key_usable m from_addr floated key_id j)"
  using assms(2)
proof (induction js)
  case (Cons j js)
  obtain r where r: "find_data_key m from_addr floated key_id js = Some r" "\<forall>j. r = Some j \<longrightarrow> key_usable m from_addr floated key_id j"
    using Cons by auto
  obtain same where "link_socket_actual_match from_addr (ks_remote_addr (scan_key m j)) = Some same" using addr_match_total [OF assms(1)] by blast
  then show ?case using r Cons.prems by (auto simp: Let_def key_usable_def)
qed simp

lemma upd_ses_same: "i < length (tm_session m) \<Longrightarrow> f (ses_at m i) = ses_at m i \<Longrightarrow> upd_ses i f m = m"
  by (simp add: upd_ses_def)

lemma ready_upd:
  assumes "tunnel_ready m" "i = TM_ACTIVE \<or> i = TM_UNTRUSTED" "session_ready (f (ses_at m i))"
  shows "tunnel_ready (upd_ses i f m)"
  using assms by (auto simp: tunnel_ready_def TM_defs)

lemma ready_frame [simp]:
  "tunnel_ready (soft_error m) = tunnel_ready m" "tunnel_ready (m\<lparr>tm_n_sessions := n\<rparr>) = tunnel_ready m"
  by (simp_all add: tunnel_ready_def soft_error_def)

lemma key_ready_counters [simp]:
  "key_ready (ks\<lparr>ks_n_packets := n, ks_n_bytes := k\<rparr>) = key_ready ks"
  by (simp add: key_ready_def)

lemma ready_counters:
  assumes "tunnel_ready m" "j < 3"
  shows "tunnel_ready (scan_update j (\<lambda>ks. ks\<lparr>ks_n_packets := n ks, ks_n_bytes := k ks\<rparr>) m)"
  using assms by (auto simp: scan_update_def Let_def tunnel_ready_def TM_defs session_ready_def nth_list_update)

lemma buf_empty_ok: "buf_ok b \<Longrightarrow> buf_ok (b\<lparr>b_len := 0\<rparr>) \<and> content (b\<lparr>b_len := 0\<rparr>) = []"
  using empty_ok by simp

lemma pre_decrypt_data_total [total]:
  assumes m: "tunnel_ready m" and b: "buf_ok buf" "content buf \<noteq> []" and from_addr: "addr_ok from_addr"
  shows "\<exists>m' buf' opt. pre_decrypt_data m from_addr buf floated op key_id = Some (m', buf', opt) \<and> tunnel_ready m' \<and> buf_ok buf' \<and>
    (case opt of None \<Rightarrow> content buf' = []
     | Some (j, ad) \<Rightarrow> key_usable m from_addr floated key_id j \<and> kb_initialized (ks_keys (scan_key m j)) \<and>
         content buf' = drop (if op = P_DATA_V2 then 4 else 1) (content buf) \<and> 0 \<le> ad \<and> ad \<le> b_offset buf')"
proof -
  have js: "\<forall>j \<in> set [0, 1, 2 :: nat]. j < 3" by simp
  obtain r where r: "find_data_key m from_addr floated key_id [0, 1, 2] = Some r" "\<forall>j. r = Some j \<longrightarrow> key_usable m from_addr floated key_id j"
    using find_data_key_total [OF from_addr js] by blast
  show ?thesis
  proof (cases "\<exists>j. r = Some j \<and> kb_initialized (ks_keys (scan_key m j))")
    case False
    then show ?thesis using r m buf_empty_ok [OF b(1)] by (auto simp: pre_decrypt_data_def split: option.splits)
  next
    case True
    then obtain j where j: "r = Some j" "kb_initialized (ks_keys (scan_key m j))" "key_usable m from_addr floated key_id j" "j < 3"
      using r(2) by (auto simp: key_usable_def)
    have l: "1 \<le> length (content buf)" using b(2) by (cases "content buf") auto
    from buf_advance_content [OF b(1), of 1] l obtain b1 where b1: "buf_advance buf 1 = (b1, True)" "buf_ok b1" "content b1 = drop 1 (content buf)"
      "b_offset b1 = b_offset buf + 1" by auto
    note off = buf_ok_offset [OF b(1)]
    show ?thesis
    proof (cases "op = P_DATA_V2")
      case False
      then show ?thesis using r(1) j b1 off ready_counters [OF m j(4)] by (simp add: pre_decrypt_data_def Let_def)
    next
      case v2: True
      show ?thesis
      proof (cases "b_len b1 < 4")
        case True
        then show ?thesis using r(1) j b1 m v2 buf_empty_ok [OF b1(2)] by (simp add: pre_decrypt_data_def Let_def)
      next
        case False
        then have "3 \<le> length (content b1)" using buf_ok_len [OF b1(2)] by simp
        with buf_advance_content [OF b1(2), of 3] obtain b2 where b2: "buf_advance b1 3 = (b2, True)" "buf_ok b2" "content b2 = drop 3 (content b1)"
          "b_offset b2 = b_offset b1 + 3" by auto
        then show ?thesis using r(1) j b1 v2 off False ready_counters [OF m j(4)] by (simp add: pre_decrypt_data_def Let_def)
      qed
    qed
  qed
qed

lemma file_packet_total [total]:
  assumes "key_ready (ts_primary ses)" "buf_ok b"
  shows "\<exists>ses' b' ok. file_packet ses b op = Some (ses', b', ok) \<and> buf_ok b' \<and> key_ready (ts_primary ses') \<and>
    ts_session_id ses' = ts_session_id ses \<and> ts_tls_wrap ses' = ts_tls_wrap ses"
proof -
  obtain cap S cap' R A where k: "ks_send_reliable (ts_primary ses) = Some S" "rel_wf cap S" "ks_rec_reliable (ts_primary ses) = Some R" "rel_wf cap' R"
    "ks_rec_ack (ts_primary ses) = Some A" "ack_ok A" using assms(1) by (auto simp: key_ready_def)
  obtain S' b1 ok where a: "tls_incoming_acks S b (ts_session_id ses) = Some (S', b1, ok)" "buf_ok b1" "rel_wf cap S'"
    using incoming_acks_total [OF assms(2) k(2)] by blast
  obtain R' A' b2 ok2 where c: "tls_incoming_control R A b1 op = Some (R', A', b2, ok2)" "rel_wf cap' R'" "ack_ok A'" "buf_ok b2"
    using incoming_control_total [OF k(4,6) a(2)] by blast
  show ?thesis using assms(1) k a c by (cases ok) (auto simp: file_packet_def key_ready_def)
qed

lemma schedule_now_wf: "rel_wf cap S \<Longrightarrow> rel_wf cap (reliable_schedule_now ts S)"
  using reliable_schedule_now_same same_packets_wf by blast

lemma burst_total [total]:
  assumes "session_ready ses"
  shows "\<exists>ses'. burst_session ts do_burst ses = Some ses' \<and> session_ready ses' \<and> ks_key_id (ts_primary ses') = ks_key_id (ts_primary ses)"
  using assms schedule_now_wf by (fastforce simp: burst_session_def session_ready_def key_ready_def)

lemma accept_packet_total [total]:
  assumes m: "tunnel_ready m" and i: "i = TM_ACTIVE \<or> i = TM_UNTRUSTED" "session_ready (ses_at m i)" and b: "buf_ok b" and a: "addr_ok from_addr"
    and old: "new_link \<or> session_id_defined (ks_session_id_remote (prim_at m i))"
  shows "\<exists>m' b' ok. accept_packet ts m from_addr b op key_id sid (i, new_link, do_burst) = Some (m', b', ok) \<and> tunnel_ready m' \<and> buf_ok b'"
proof -
  have il: "i < length (tm_session m)" using m i(1) by (auto simp: tunnel_ready_def TM_defs)
  define m1 where "m1 = (if new_link
    then (upd_prim i (\<lambda>ks. ks\<lparr>ks_session_id_remote := sid, ks_remote_addr := from_addr\<rparr>) m)\<lparr>tm_n_sessions := tm_n_sessions m + 1\<rparr> else m)"
  have s1: "session_ready (ses_at m1 i)" using i(2) a il by (auto simp: m1_def session_ready_def key_ready_def upd_prim_def)
  have m1: "tunnel_ready m1"
    using m i a il by (auto simp: m1_def upd_prim_def session_ready_def key_ready_def intro!: ready_upd)
  obtain same where same: "(if new_link then Some True else link_socket_actual_match (ks_remote_addr (prim_at m1 i)) from_addr) = Some same"
    using old i(2) addr_match_total by (cases new_link) (auto simp: m1_def session_ready_def key_ready_def)
  obtain ses where ses: "burst_session ts do_burst (ses_at m1 i) = Some ses" "session_ready ses" using burst_total [OF s1] by blast
  obtain ses' b' ok where f: "file_packet ses b op = Some (ses', b', ok)" "buf_ok b'" "session_ready ses'"
    using file_packet_total [of ses b] ses(2) b unfolding session_ready_def by metis
  have "tunnel_ready (upd_ses i (\<lambda>_. ses) m1)" "tunnel_ready (upd_ses i (\<lambda>_. ses') m1)" using ready_upd [OF m1 i(1)] ses(2) f(3) by simp_all
  moreover have "accept_packet ts m from_addr b op key_id sid (i, new_link, do_burst) =
    (if \<not> same then Some (m1, b, False)
     else if ks_key_id (ts_primary ses) \<noteq> key_id then Some (upd_ses i (\<lambda>_. ses) m1, b, False)
     else Some (upd_ses i (\<lambda>_. ses') m1, b', ok))"
    unfolding accept_packet_def prod.case Let_def m1_def [symmetric] same using session_ready_control [OF i(2)] ses(1) f(1) by simp
  ultimately show ?thesis using m1 b f(2) by auto
qed

lemma read_at_total [total]:
  assumes m: "tunnel_ready m" "i = TM_ACTIVE \<or> i = TM_UNTRUSTED" "session_ready (ses_at m i)" and b: "buf_ok b" "content b \<noteq> []" and ts: "1 < ts"
  shows "\<exists>m' b' ok. read_at ts m i b = Some (m', b', ok) \<and> tunnel_ready m' \<and> session_ready (ses_at m' i) \<and> (ok \<longrightarrow> buf_ok b') \<and>
    ts_primary (ses_at m' i) = ts_primary (ses_at m i) \<and> tm_opt m' = tm_opt m \<and>
    (ok \<longrightarrow> wrap_authentic (ts_tls_wrap (ses_at m i)) (content b)) \<and>
    (\<not> wrap_authentic (ts_tls_wrap (ses_at m i)) (content b) \<longrightarrow> m' = m)"
proof -
  have il: "i < length (tm_session m)" using m by (auto simp: tunnel_ready_def TM_defs)
  have "wrap_reads (ts_tls_wrap (ses_at m i))" using m(3) by (simp add: session_ready_def)
  from read_control_total [OF this b ts] obtain w b' ok where r: "read_control_auth ts (ts_tls_wrap (ses_at m i)) b = Some (w, b', ok)"
    "wrap_reads w" "ok \<longrightarrow> buf_ok b'" "\<not> wrap_authentic (ts_tls_wrap (ses_at m i)) (content b) \<longrightarrow> \<not> ok \<and> w = ts_tls_wrap (ses_at m i)" by blast
  define m' where "m' = upd_ses i (\<lambda>ses. ses\<lparr>ts_tls_wrap := w\<rparr>) m"
  have "session_ready ((ses_at m i)\<lparr>ts_tls_wrap := w\<rparr>)" using m(3) r(2) by (simp add: session_ready_def)
  then have "tunnel_ready m'" "session_ready (ses_at m' i)" using ready_upd [OF m(1,2)] il by (simp_all add: m'_def)
  moreover have "m' = m" if "\<not> wrap_authentic (ts_tls_wrap (ses_at m i)) (content b)"
    using that r(4) il by (simp add: m'_def upd_ses_same)
  ultimately show ?thesis using r il by (auto simp: read_at_def m'_def)
qed

lemma route_packet_total [total]:
  assumes m: "tunnel_ready m" and b: "buf_ok b" "content b \<noteq> []" and ts: "1 < ts" and a: "addr_ok from_addr"
    and i: "\<forall>k. i = Some k \<longrightarrow> k = TM_ACTIVE \<or> k = TM_UNTRUSTED \<longrightarrow> session_ready (ses_at m k) \<and>
      (new_link \<or> session_id_defined (ks_session_id_remote (prim_at m k)))"
  shows "\<exists>m' b' r. route_packet lib ts m from_addr b op i new_link = Some (m', b', r) \<and> tunnel_ready m' \<and>
    ((\<forall>k \<in> {TM_ACTIVE, TM_UNTRUSTED}. \<not> wrap_authentic (ts_tls_wrap (ses_at m k)) (content b)) \<longrightarrow> r = None \<and> m' = m) \<and>
    (\<forall>k nl db. r = Some (k, nl, db) \<longrightarrow> (k = TM_ACTIVE \<or> k = TM_UNTRUSTED) \<and> session_ready (ses_at m' k) \<and> buf_ok b' \<and>
      (nl \<or> session_id_defined (ks_session_id_remote (prim_at m' k))) \<and> wrap_authentic (ts_tls_wrap (ses_at m k)) (content b))"
proof -
  consider (new) "i = None" "is_hard_reset op 0" | (lost) "i = None" "\<not> is_hard_reset op 0" | (other) k where "i = Some k" "k \<noteq> TM_ACTIVE" "k \<noteq> TM_UNTRUSTED"
    | (known) k where "i = Some k" "k = TM_ACTIVE \<or> k = TM_UNTRUSTED" by (cases i) auto
  then show ?thesis
  proof cases
    case new
    show ?thesis
    proof (cases "to_single_session (tm_opt m) \<or> \<not> is_hard_reset op (to_key_method (tm_opt m))")
      case True
      then show ?thesis using m new by (auto simp: route_packet_def)
    next
      case False
      then have r: "session_ready (ses_at m TM_UNTRUSTED)" using m by (auto simp: tunnel_ready_def)
      obtain m' b' ok where ra: "read_at ts m TM_UNTRUSTED b = Some (m', b', ok)" "tunnel_ready m'" "session_ready (ses_at m' TM_UNTRUSTED)" "ok \<longrightarrow> buf_ok b'"
        "ok \<longrightarrow> wrap_authentic (ts_tls_wrap (ses_at m TM_UNTRUSTED)) (content b)"
        "\<not> wrap_authentic (ts_tls_wrap (ses_at m TM_UNTRUSTED)) (content b) \<longrightarrow> m' = m"
        using read_at_total [OF m disjI2 [OF refl] r b ts] by blast
      have l: "TM_UNTRUSTED < length (tm_session m')" using ra(2) by (simp add: tunnel_ready_def TM_defs)
      define m2 where "m2 = upd_ses TM_UNTRUSTED (\<lambda>ses. ses\<lparr>ts_untrusted_addr := from_addr\<rparr>) m'"
      have "session_ready ((ses_at m' TM_UNTRUSTED)\<lparr>ts_untrusted_addr := from_addr\<rparr>)" using ra(3) by (simp add: session_ready_def)
      then have "tunnel_ready m2" "session_ready (ses_at m2 TM_UNTRUSTED)" using ready_upd [OF ra(2) disjI2 [OF refl]] l by (simp_all add: m2_def)
      moreover have "route_packet lib ts m from_addr b op i new_link = (if ok then Some (m2, b', Some (TM_UNTRUSTED, True, False)) else Some (m', b', None))"
        using new False ra(1) by (simp add: route_packet_def m2_def)
      ultimately show ?thesis using ra by (cases ok) auto
    qed
  next
    case lost
    then show ?thesis using m by (simp add: route_packet_def)
  next
    case (other k)
    then show ?thesis using m by (simp add: route_packet_def)
  next
    case (known k)
    have k: "session_ready (ses_at m k)" "new_link \<or> session_id_defined (ks_session_id_remote (prim_at m k))" using i known by auto
    have kl: "k < length (tm_session m)" using m known(2) by (auto simp: tunnel_ready_def TM_defs)
    obtain same where same: "(if new_link then Some True else link_socket_actual_match (ks_remote_addr (prim_at m k)) from_addr) = Some same"
      using k addr_match_total by (cases new_link) (auto simp: session_ready_def key_ready_def)
    obtain m' b' ok where ra: "read_at ts m k b = Some (m', b', ok)" "tunnel_ready m'" "session_ready (ses_at m' k)" "ok \<longrightarrow> buf_ok b'"
      "ts_primary (ses_at m' k) = ts_primary (ses_at m k)" "tm_opt m' = tm_opt m"
      "ok \<longrightarrow> wrap_authentic (ts_tls_wrap (ses_at m k)) (content b)" "\<not> wrap_authentic (ts_tls_wrap (ses_at m k)) (content b) \<longrightarrow> m' = m"
      using read_at_total [OF m known(2) k(1) b ts] by blast
    show ?thesis
    proof (cases "same \<and> op = P_CONTROL_SOFT_RESET_V1 \<and> DECRYPT_KEY_ENABLED m (prim_at m k)")
      case False
      define db where "db = (new_link \<or> op = P_CONTROL_SOFT_RESET_V1)"
      have "route_packet lib ts m from_addr b op i new_link =
          (if \<not> same then Some (m, b, None) else if \<not> ok then Some (m', b', None) else Some (m', b', Some (k, new_link, db)))"
        using known same ra(1) False by (auto simp: route_packet_def db_def)
      then show ?thesis using m ra k known(2) by auto
    next
      case True
      have "options_ok (tm_opt m')" "key_ready (ts_primary (ses_at m' k))" using ra(2,3) by (simp_all add: tunnel_ready_def session_ready_def)
      from soft_reset_total [OF this, of lib ts] obtain ses' where s: "key_state_soft_reset lib (tm_opt m') ts (ses_at m' k) = Some ses'"
        "key_ready (ts_primary ses')" "ts_session_id ses' = ts_session_id (ses_at m' k)" "ts_tls_wrap ses' = ts_tls_wrap (ses_at m' k)"
        "ks_session_id_remote (ts_primary ses') = ks_session_id_remote (ts_primary (ses_at m' k))" by blast
      have "session_ready ses'" using s ra(3) by (simp add: session_ready_def)
      moreover have "k < length (tm_session m')" using ra(2) known(2) by (auto simp: tunnel_ready_def TM_defs)
      moreover have "route_packet lib ts m from_addr b op i new_link =
          (if \<not> ok then Some (m', b', None) else Some (upd_ses k (\<lambda>_. ses') m', b', Some (k, new_link, new_link)))"
        using known same ra(1) s(1) True by (auto simp: route_packet_def)
      ultimately show ?thesis using m ra k(2) known(2) s(5) ready_upd [OF ra(2) known(2), of "\<lambda>_. ses'"] by (cases ok) auto
    qed
  qed
qed

lemma match_session_Some:
  "match_session m sid is = Some k \<Longrightarrow> k \<in> set is \<and> sid_id (ks_session_id_remote (prim_at m k)) = sid_id sid"
  by (induction "is") (auto simp: session_id_equal_def split: if_splits)

text \<open>Two tunnels that differ only in the error count and in the untrusted address of the active session.\<close>

definition unaffected :: "'s tls_multi \<Rightarrow> 's tls_multi \<Rightarrow> bool" where
  "unaffected m' m \<longleftrightarrow> (\<exists>n addr. m' = (upd_ses TM_ACTIVE (\<lambda>ses. ses\<lparr>ts_untrusted_addr := addr\<rparr>) m)\<lparr>tm_n_soft_errors := n\<rparr>)"

lemma unaffected_refl: "tunnel_ready m \<Longrightarrow> unaffected m m"
  unfolding unaffected_def
  by (intro exI [of _ "tm_n_soft_errors m"] exI [of _ "ts_untrusted_addr (ses_at m TM_ACTIVE)"]) (simp add: upd_ses_def)

lemma unaffected_error [simp]:
  assumes "unaffected m' m"
  shows "unaffected (soft_error m') m"
proof -
  obtain n addr where "m' = (upd_ses TM_ACTIVE (\<lambda>ses. ses\<lparr>ts_untrusted_addr := addr\<rparr>) m)\<lparr>tm_n_soft_errors := n\<rparr>"
    using assms by (auto simp: unaffected_def)
  then show ?thesis unfolding unaffected_def by (intro exI [of _ "n + 1"] exI [of _ addr]) (simp add: soft_error_def)
qed

lemma initial_packet_spec:
  assumes m: "tunnel_ready m" and r: "initial_packet m from_addr op (match_session m sid [0, 1, 2]) = (m', r)"
    and sid: "session_id_defined sid" "match_session m sid [0, 1, 2] \<noteq> Some TM_LAME_DUCK"
  shows "tunnel_ready m' \<and> unaffected m' m \<and> (\<forall>k. ts_tls_wrap (ses_at m' k) = ts_tls_wrap (ses_at m k)) \<and>
    (\<forall>i nl. r = Some (i, nl) \<longrightarrow> (\<forall>k. i = Some k \<longrightarrow> k = TM_ACTIVE \<or> k = TM_UNTRUSTED \<longrightarrow>
      session_ready (ses_at m' k) \<and> (nl \<or> session_id_defined (ks_session_id_remote (prim_at m' k)))))"
proof -
  have l: "TM_ACTIVE < length (tm_session m)" "session_ready (ses_at m TM_ACTIVE)" using m by (simp_all add: tunnel_ready_def TM_defs)
  have old: "session_ready (ses_at m k) \<and> session_id_defined (ks_session_id_remote (prim_at m k))"
    if "match_session m sid [0, 1, 2] = Some k" "k = TM_ACTIVE \<or> k = TM_UNTRUSTED" for k
    using match_session_Some [OF that(1)] that(2) sid(1) m by (auto simp: tunnel_ready_def session_id_defined_def)
  define m1 where "m1 = upd_ses TM_ACTIVE (\<lambda>ses. ses\<lparr>ts_untrusted_addr := from_addr\<rparr>) m"
  have s1: "session_ready ((ses_at m TM_ACTIVE)\<lparr>ts_untrusted_addr := from_addr\<rparr>)" using l(2) by (simp add: session_ready_def)
  have w: "ts_tls_wrap (ses_at m1 k) = ts_tls_wrap (ses_at m k)" for k using l(1) by (cases "k = TM_ACTIVE") (simp_all add: m1_def)
  have m1: "tunnel_ready m1" "session_ready (ses_at m1 TM_ACTIVE)" using ready_upd [OF m disjI1 [OF refl]] s1 l(1) by (simp_all add: m1_def)
  have u1: "unaffected m1 m" unfolding unaffected_def m1_def by (intro exI [of _ "tm_n_soft_errors m"] exI [of _ from_addr]) (simp add: upd_ses_def)
  show ?thesis
    using r m unaffected_refl [OF m] old m1 u1 w
    unfolding initial_packet_def m1_def [symmetric] by (auto split: if_splits)
qed

lemma pre_decrypt_control_total [total]:
  assumes m: "tunnel_ready m" and b: "buf_ok b" "content b \<noteq> []" and ts: "1 < ts" and a: "addr_ok from_addr"
  shows "\<exists>m' b' ret. pre_decrypt_control lib ts m from_addr b op key_id = Some (m', b', ret) \<and> tunnel_ready m' \<and> content b' = [] \<and>
    ((\<forall>k \<in> {TM_ACTIVE, TM_UNTRUSTED}. \<not> wrap_authentic (ts_tls_wrap (ses_at m k)) (content b)) \<longrightarrow> \<not> ret \<and> unaffected m' m)"
proof -
  have refuse: ?thesis if "pre_decrypt_control lib ts m from_addr b op key_id = Some (soft_error m, b\<lparr>b_len := 0\<rparr>, False)"
    using that m unaffected_refl [OF m] by auto
  have "1 \<le> length (content b)" using b(2) by (cases "content b") auto
  with buf_advance_content [OF b(1), of 1] obtain b1 where b1: "buf_advance b 1 = (b1, True)" "buf_ok b1" by auto
  obtain b2 r2 where b2: "buf_read b1 SID_SIZE = Some (b2, r2)" using buf_read_total [OF b1(2)] by blast
  define sid where "sid = (case r2 of None \<Rightarrow> x_session_id_zero | Some bs \<Rightarrow> x_session_id_zero\<lparr>sid_id := bs\<rparr>)"
  have read: "session_id_read x_session_id_zero (fst (buf_advance b 1)) = Some (sid, b2, r2 \<noteq> None)"
    using b1(1) b2 by (simp add: session_id_read_def sid_def split: option.splits)
  show ?thesis
  proof (cases "op < P_FIRST_OPCODE \<or> op > P_LAST_OPCODE \<or> is_hard_reset op 0 \<and>
              ((op = P_CONTROL_HARD_RESET_CLIENT_V1 \<or> op = P_CONTROL_HARD_RESET_CLIENT_V2) \<and> \<not> to_server (tm_opt m) \<or>
               (op = P_CONTROL_HARD_RESET_SERVER_V1 \<or> op = P_CONTROL_HARD_RESET_SERVER_V2) \<and> to_server (tm_opt m)) \<or>
      r2 = None \<or> \<not> session_id_defined sid \<or> match_session m sid [0, 1, 2] = Some TM_LAME_DUCK")
    case True
    then show ?thesis by (intro refuse) (auto simp: pre_decrypt_control_def read)
  next
    case False
    then have sid: "session_id_defined sid" "match_session m sid [0, 1, 2] \<noteq> Some TM_LAME_DUCK" by auto
    obtain m1 r1 where i1: "initial_packet m from_addr op (match_session m sid [0, 1, 2]) = (m1, r1)" by fastforce
    note i = initial_packet_spec [OF m i1 sid]
    define i0 where "i0 = match_session m sid [0, 1, 2]"
    have run: "pre_decrypt_control lib ts m from_addr b op key_id = (case r1 of
        None \<Rightarrow> Some (soft_error m1, b\<lparr>b_len := 0\<rparr>, False)
      | Some (i, new_link) \<Rightarrow> do {
          (m, buf, r) \<leftarrow> route_packet lib ts m1 from_addr b op i new_link;
          (case r of
             None \<Rightarrow> Some (soft_error m, buf\<lparr>b_len := 0\<rparr>, False)
           | Some r \<Rightarrow> do {
               (m, buf, ok) \<leftarrow> accept_packet ts m from_addr buf op key_id sid r;
               Some (if ok then m else soft_error m, buf\<lparr>b_len := 0\<rparr>, True)
             })
        })"
      using False i1 unfolding pre_decrypt_control_def read Option.bind.bind_lunit prod.case i0_def [symmetric] by (auto split: option.splits)
    show ?thesis
    proof (cases r1)
      case None
      then show ?thesis using run i by auto
    next
      case (Some r)
      obtain j nl where r: "r = (j, nl)" by fastforce
      have jn: "\<forall>k. j = Some k \<longrightarrow> k = TM_ACTIVE \<or> k = TM_UNTRUSTED \<longrightarrow> session_ready (ses_at m1 k) \<and>
          (nl \<or> session_id_defined (ks_session_id_remote (prim_at m1 k)))" and m1: "tunnel_ready m1"
        using i Some r by auto
      obtain m2 b3 rt where rt: "route_packet lib ts m1 from_addr b op j nl = Some (m2, b3, rt)" "tunnel_ready m2"
        "(\<forall>k \<in> {TM_ACTIVE, TM_UNTRUSTED}. \<not> wrap_authentic (ts_tls_wrap (ses_at m1 k)) (content b)) \<longrightarrow> rt = None \<and> m2 = m1"
        "\<forall>k nl db. rt = Some (k, nl, db) \<longrightarrow> (k = TM_ACTIVE \<or> k = TM_UNTRUSTED) \<and> session_ready (ses_at m2 k) \<and> buf_ok b3 \<and>
          (nl \<or> session_id_defined (ks_session_id_remote (prim_at m2 k))) \<and> wrap_authentic (ts_tls_wrap (ses_at m1 k)) (content b)"
        using route_packet_total [OF m1 b ts a jn, of lib op] by blast
      show ?thesis
      proof (cases rt)
        case None
        then show ?thesis using run Some r rt(1-3) i by auto
      next
        case (Some t)
        obtain k nl' db where t: "t = (k, nl', db)" by (cases t) auto
        have k: "k = TM_ACTIVE \<or> k = TM_UNTRUSTED" "session_ready (ses_at m2 k)" "buf_ok b3" "nl' \<or> session_id_defined (ks_session_id_remote (prim_at m2 k))"
          "wrap_authentic (ts_tls_wrap (ses_at m k)) (content b)"
          using rt(4) Some t i by auto
        obtain m3 b4 ok where ac: "accept_packet ts m2 from_addr b3 op key_id sid (k, nl', db) = Some (m3, b4, ok)" "tunnel_ready m3"
          using accept_packet_total [OF rt(2) k(1,2,3) a k(4), of ts op key_id sid db] by blast
        then show ?thesis using run \<open>r1 = Some r\<close> r rt(1) Some t k(1,5) by auto
      qed
    qed
  qed
qed

lemma tls_pre_decrypt_run:
  assumes "buf_ok buf" "content buf = [c] @ cs"
  shows "tls_pre_decrypt lib ts m a buf floated =
    (if packet_op c = P_DATA_V1 \<or> packet_op c = P_DATA_V2 then do {
       (m, buf, opt) \<leftarrow> pre_decrypt_data m a buf floated (packet_op c) (packet_key_id c);
       Some (m, buf, opt, False)
     } else do {
       (m, buf, ret) \<leftarrow> pre_decrypt_control lib ts m a buf (packet_op c) (packet_key_id c);
       Some (m, buf, None, ret)
     })"
proof -
  have "b_len buf > 0" "buf_bptr buf = Some (b_offset buf)"
    using buf_ok_len [OF assms(1)] buf_ok_valid [OF assms(1)] assms(2) by (simp_all add: buf_bptr_def)
  moreover have "load_at buf (b_offset buf) 1 = Some [c]" using load_prefix [OF assms] by simp
  ultimately show ?thesis by (simp add: tls_pre_decrypt_def Let_def)
qed

lemma is_data: "packet_op c = P_DATA_V1 \<or> packet_op c = P_DATA_V2 \<longleftrightarrow> drop_bit 3 c \<in> {6, 9}" for c :: byte
proof -
  have "packet_op c = 6 \<longleftrightarrow> drop_bit 3 c = 6" "packet_op c = 9 \<longleftrightarrow> drop_bit 3 c = 9"
    by (auto simp: packet_op_def P_OPCODE_SHIFT_def word_uint_eq_iff)
  then show ?thesis by (simp add: P_DATA_V1_def P_DATA_V2_def)
qed

text \<open>
  C7. The first routine that sees a packet is safe against every packet. On a tunnel whose sessions are well formed \<open>tls_pre_decrypt\<close> fails no
  assertion and keeps the tunnel well formed, whatever arrives. Only a data packet is handed on for decryption, and only with a key that is far enough in
  its negotiation, authenticated, not waiting for a deferred answer, initialised, and that has the key id of the packet and the
  address of the sender (unless the peer may float); the payload is the packet without its header. Every other packet is consumed. A control packet
  that does not carry the authentication of the sessions (tls-auth or tls-crypt) is not processed: it
  changes at most the error count and the address of an unconfirmed peer.
\<close>

theorem tls_pre_decrypt_safe:
  assumes "tunnel_ready m" "buf_ok buf" "addr_ok from_addr" "1 < local_now"
  shows "\<exists>m' buf' opt ret. tls_pre_decrypt lib local_now m from_addr buf floated = Some (m', buf', opt, ret) \<and> tunnel_ready m' \<and>
    (case opt of None \<Rightarrow> content buf' = []
     | Some (j, ad) \<Rightarrow> drop_bit 3 (hd (content buf)) \<in> {6, 9} \<and> \<not> ret \<and> key_usable m from_addr floated (packet_key_id (hd (content buf))) j \<and> kb_initialized (ks_keys (scan_key m j)) \<and>
         content buf' = drop (if packet_op (hd (content buf)) = P_DATA_V2 then 4 else 1) (content buf)) \<and>
    (drop_bit 3 (hd (content buf)) \<notin> {6, 9} \<longrightarrow>
      (\<forall>k \<in> {TM_ACTIVE, TM_UNTRUSTED}. \<not> wrap_authentic (ts_tls_wrap (ses_at m k)) (content buf)) \<longrightarrow> \<not> ret \<and> unaffected m' m)"
proof (cases "content buf = []")
  case True
  then have "\<not> b_len buf > 0" using buf_ok_len [OF assms(2)] by simp
  then show ?thesis using assms(1) unaffected_refl by (auto simp: tls_pre_decrypt_def)
next
  case False
  then obtain c cs where c: "content buf = [c] @ cs" by (cases "content buf") auto
  note run = tls_pre_decrypt_run [OF assms(2) c, of lib local_now m from_addr floated]
  show ?thesis
  proof (cases "packet_op c = P_DATA_V1 \<or> packet_op c = P_DATA_V2")
    case True
    obtain m' b' opt where d: "pre_decrypt_data m from_addr buf floated (packet_op c) (packet_key_id c) = Some (m', b', opt)" "tunnel_ready m'"
      "case opt of None \<Rightarrow> content b' = []
       | Some (j, ad) \<Rightarrow> key_usable m from_addr floated (packet_key_id c) j \<and> kb_initialized (ks_keys (scan_key m j)) \<and>
           content b' = drop (if packet_op c = P_DATA_V2 then 4 else 1) (content buf) \<and> 0 \<le> ad \<and> ad \<le> b_offset b'"
      using pre_decrypt_data_total [OF assms(1,2) False assms(3), of floated "packet_op c" "packet_key_id c"] by blast
    have "tls_pre_decrypt lib local_now m from_addr buf floated = Some (m', b', opt, False)"
      unfolding run using True d(1) by simp
    moreover have "drop_bit 3 (hd (content buf)) \<in> {6, 9}" using True is_data [of c] c by simp
    moreover have "hd (content buf) = c" using c by simp
    ultimately show ?thesis using d(2,3) by (cases opt) auto
  next
    case control: False
    obtain m' b' ret where d: "pre_decrypt_control lib local_now m from_addr buf (packet_op c) (packet_key_id c) = Some (m', b', ret)" "tunnel_ready m'"
      "content b' = []" "(\<forall>k \<in> {TM_ACTIVE, TM_UNTRUSTED}. \<not> wrap_authentic (ts_tls_wrap (ses_at m k)) (content buf)) \<longrightarrow> \<not> ret \<and> unaffected m' m"
      using pre_decrypt_control_total [OF assms(1,2) False assms(4,3), of lib "packet_op c" "packet_key_id c"] by blast
    have "tls_pre_decrypt lib local_now m from_addr buf floated = Some (m', b', None, ret)"
      unfolding run using control d(1) by simp
    then show ?thesis using d(2-4) by auto
  qed
qed

subsection \<open>A tunnel that was just set up\<close>

definition wrap_keys_ok :: "tls_wrap_ctx \<Rightarrow> bool" where
  "wrap_keys_ok w \<longleftrightarrow>
     (tw_mode w \<noteq> TLS_WRAP_NONE \<longrightarrow> co_flags (tw_opt w) AND CO_PACKET_ID_LONG_FORM \<noteq> 0) \<and>
     (tw_mode w = TLS_WRAP_AUTH \<longrightarrow> (\<exists>hm. tls_auth_key hm (kb_decrypt (tw_keys w)))) \<and>
     (tw_mode w = TLS_WRAP_CRYPT \<longrightarrow> (\<exists>c hm. tls_crypt_key c hm (kb_decrypt (tw_keys w))))"

lemma option_caseE: "(case z of None \<Rightarrow> P | Some x \<Rightarrow> Q x) \<Longrightarrow> (z = None \<Longrightarrow> P \<Longrightarrow> R) \<Longrightarrow> (\<And>x. z = Some x \<Longrightarrow> Q x \<Longrightarrow> R) \<Longrightarrow> R"
  by (cases z) auto

lemma session_init_ready:
  fixes lib :: "'s ssl_lib"
  assumes opt: "options_ok opt" "1 \<le> to_key_method opt" "packet_id_init (to_replay_window opt) (to_replay_time opt) = Some pid"
    and w: "wrap_keys_ok (to_tls_wrap opt)" "co_flags (tw_opt (to_tls_wrap opt)) AND CO_IGNORE_PACKET_ID = 0"
    and sid: "session_id_defined sid"
  shows "\<exists>ses. tls_session_init lib opt sid = Some ses \<and> session_ready ses \<and>
    \<not> session_id_defined (ks_session_id_remote (ts_primary ses)) \<and>
    tw_mode (ts_tls_wrap ses) = tw_mode (to_tls_wrap opt) \<and> tw_keys (ts_tls_wrap ses) = tw_keys (to_tls_wrap opt)"
proof -
  have "0 \<le> BUF_SIZE (to_frame opt)" "BUF_SIZE (to_frame opt) < BUF_SIZE_MAX" using opt(1) by (simp_all add: options_ok_def)
  then obtain wk where wk: "alloc_buf (BUF_SIZE (to_frame opt)) = Some wk" by (metis alloc_buf_ok)
  define wrap where "wrap = (to_tls_wrap opt)\<lparr>tw_work := wk, tw_opt := (tw_opt (to_tls_wrap opt))\<lparr>co_packet_id :=
      packet_id_persist_load_obj (co_pid_persist (tw_opt (to_tls_wrap opt))) pid\<rparr>\<rparr>"
  have "replay_ok (tw_opt wrap)"
    using opt(3) by (rule load_obj_replay_ok) (simp add: wrap_def)
  have same: "tw_mode wrap = tw_mode (to_tls_wrap opt)" "tw_keys wrap = tw_keys (to_tls_wrap opt)" by (simp_all add: wrap_def)
  from \<open>replay_ok (tw_opt wrap)\<close> have wr: "wrap_reads wrap" using w(1,2) by (auto simp: wrap_reads_def wrap_keys_ok_def wrap_def)
  define opcode where "opcode = (if to_key_method opt = 1
      then (if to_server opt then P_CONTROL_HARD_RESET_SERVER_V1 else P_CONTROL_HARD_RESET_CLIENT_V1)
      else (if to_server opt then P_CONTROL_HARD_RESET_SERVER_V2 else P_CONTROL_HARD_RESET_CLIENT_V2))"
  define ses :: "'s tls_session" where "ses = zero_session\<lparr>ts_session_id := sid, ts_initial_opcode := opcode, ts_tls_wrap := wrap\<rparr>"
  obtain ks where ks: "key_state_init lib opt ses = Some (ses\<lparr>ts_initial_opcode := P_CONTROL_SOFT_RESET_V1, ts_key_id := next_key_id (ts_key_id ses)\<rparr>, ks)"
    "key_ready ks" "\<not> session_id_defined (ks_session_id_remote ks)"
    using key_state_init_total [OF opt(1), of lib ses] by blast
  show ?thesis
    using opt(2,3) wk ks wr sid same
    by (auto simp: tls_session_init_def session_ready_def Let_def opcode_def [symmetric] wrap_def [symmetric] ses_def [symmetric])
      (auto simp: ses_def)
qed

lemma multi_init_ready:
  fixes lib :: "'s ssl_lib"
  assumes f: "tls_init_control_channel_frame_parameters data_frame (to_frame opt) = Some f"
    and opt: "options_ok (opt\<lparr>to_frame := f\<rparr>)" "1 \<le> to_key_method opt" "packet_id_init (to_replay_window opt) (to_replay_time opt) = Some pid"
    and w: "wrap_keys_ok (to_tls_wrap opt)" "co_flags (tw_opt (to_tls_wrap opt)) AND CO_IGNORE_PACKET_ID = 0"
    and sid: "session_id_defined sid1" "session_id_defined sid2" and two: "\<not> to_single_session opt"
  shows "\<exists>m. tls_multi_init_finalize lib sid1 sid2 (tls_multi_init opt) data_frame = Some m \<and> tunnel_ready m \<and>
    (\<forall>k \<in> {TM_ACTIVE, TM_UNTRUSTED}. tw_mode (ts_tls_wrap (ses_at m k)) = tw_mode (to_tls_wrap opt) \<and>
       tw_keys (ts_tls_wrap (ses_at m k)) = tw_keys (to_tls_wrap opt))"
proof -
  have k: "1 \<le> to_key_method (opt\<lparr>to_frame := f\<rparr>)" "wrap_keys_ok (to_tls_wrap (opt\<lparr>to_frame := f\<rparr>))"
    "packet_id_init (to_replay_window (opt\<lparr>to_frame := f\<rparr>)) (to_replay_time (opt\<lparr>to_frame := f\<rparr>)) = Some pid"
    "co_flags (tw_opt (to_tls_wrap (opt\<lparr>to_frame := f\<rparr>))) AND CO_IGNORE_PACKET_ID = 0"
    using opt(2,3) w by simp_all
  note ready = session_init_ready [OF opt(1) k(1,3,2,4)]
  obtain s1 where s1: "tls_session_init lib (opt\<lparr>to_frame := f\<rparr>) sid1 = Some s1" "session_ready s1"
    "tw_mode (ts_tls_wrap s1) = tw_mode (to_tls_wrap opt)" "tw_keys (ts_tls_wrap s1) = tw_keys (to_tls_wrap opt)"
    using ready [OF sid(1)] by auto
  obtain s2 where s2: "tls_session_init lib (opt\<lparr>to_frame := f\<rparr>) sid2 = Some s2" "session_ready s2"
    "tw_mode (ts_tls_wrap s2) = tw_mode (to_tls_wrap opt)" "tw_keys (ts_tls_wrap s2) = tw_keys (to_tls_wrap opt)"
    using ready [OF sid(2)] by auto
  show ?thesis
    using f opt(1) s1 s2 two
    by (simp add: tls_multi_init_finalize_def tls_multi_init_def reset_session_def tunnel_ready_def TM_defs numeral_3_eq_3)
qed

definition toy_guarded_options :: tls_options where
  "toy_guarded_options = toy_tls_options\<lparr>to_tls_wrap := toy_wrap\<lparr>tw_opt := (tw_opt toy_wrap)\<lparr>co_pid_persist :=
     Some \<lparr>pp_fd = 3, pp_time = 1000, pp_id = 100, time_last_written = 0, id_last_written = 0\<rparr>\<rparr>\<rparr>\<rparr>"

text \<open>A TLS library that takes everything and has nothing to say.\<close>

definition toy_lib :: "unit ssl_lib" where
  "toy_lib = \<lparr>ssl_new = \<lambda>_. (), ssl_write_ct = \<lambda>_ bs. ((), Wrote (int (length bs))), ssl_read_ct = \<lambda>_ _. ((), Bio_retry),
     ssl_write_pt = \<lambda>_ bs. ((), Wrote (int (length bs))), ssl_read_pt = \<lambda>_ _. ((), Bio_retry), ssl_verified = \<lambda>_. None\<rparr>"

lemma toy_guarded_facts:
  obtains f pid where "tls_init_control_channel_frame_parameters sample_frame (to_frame toy_guarded_options) = Some f"
    "options_ok (toy_guarded_options\<lparr>to_frame := f\<rparr>)" "1 \<le> to_key_method toy_guarded_options" "\<not> to_single_session toy_guarded_options"
    "packet_id_init (to_replay_window toy_guarded_options) (to_replay_time toy_guarded_options) = Some pid"
    "wrap_keys_ok (to_tls_wrap toy_guarded_options)" "co_flags (tw_opt (to_tls_wrap toy_guarded_options)) AND CO_IGNORE_PACKET_ID = 0"
    "co_pid_persist (tw_opt (to_tls_wrap toy_guarded_options)) \<noteq> None" "tw_mode (to_tls_wrap toy_guarded_options) = TLS_WRAP_CRYPT"
    "session_id_defined (toy_sid 1)" "session_id_defined (toy_sid 2)"
proof -
  have "map_option (\<lambda>f. 4 \<le> FRAME_HEADROOM f \<and> FRAME_HEADROOM f \<le> BUF_SIZE f \<and> BUF_SIZE f < BUF_SIZE_MAX)
      (tls_init_control_channel_frame_parameters sample_frame (to_frame toy_guarded_options)) = Some True"
    by code_simp
  then obtain f where f: "tls_init_control_channel_frame_parameters sample_frame (to_frame toy_guarded_options) = Some f"
    "4 \<le> FRAME_HEADROOM f" "FRAME_HEADROOM f \<le> BUF_SIZE f" "BUF_SIZE f < BUF_SIZE_MAX" by auto
  have "packet_id_init 4 15 \<noteq> None" by code_simp
  then obtain pid where pid: "packet_id_init (to_replay_window toy_guarded_options) (to_replay_time toy_guarded_options) = Some pid"
    by (auto simp: toy_guarded_options_def toy_tls_options_def)
  have opt: "options_ok (toy_guarded_options\<lparr>to_frame := f\<rparr>)" "1 \<le> to_key_method toy_guarded_options" "\<not> to_single_session toy_guarded_options"
    using f pid by (simp_all add: options_ok_def) (simp_all add: toy_guarded_options_def toy_tls_options_def)
  have w: "wrap_keys_ok (to_tls_wrap toy_guarded_options)" "co_flags (tw_opt (to_tls_wrap toy_guarded_options)) AND CO_IGNORE_PACKET_ID = 0"
    "co_pid_persist (tw_opt (to_tls_wrap toy_guarded_options)) \<noteq> None" "tw_mode (to_tls_wrap toy_guarded_options) = TLS_WRAP_CRYPT"
    using toy_wraps_fit by (auto simp: toy_guarded_options_def wraps_fit_def wrap_keys_ok_def toy_wrap_def toy_wrap_options_def sample_options_def
        CO_PACKET_ID_LONG_FORM_def CO_IGNORE_PACKET_ID_def)
  have sid: "session_id_defined (toy_sid 1)" "session_id_defined (toy_sid 2)" by code_simp+
  show thesis using that [OF f(1) opt pid w sid] .
qed

text \<open>Four bytes that look like the start of a hard reset, for a server with tls-crypt.\<close>

lemma tls_pre_decrypt_safe_witness:
  "\<exists>m m' buf'. tls_multi_init_finalize toy_lib (toy_sid 1) (toy_sid 2) (tls_multi_init toy_guarded_options) sample_frame = Some m \<and>
    tls_pre_decrypt toy_lib 9 m (zero_sockaddr\<lparr>sa_family := AF_INET\<rparr>) (packet_buf [56, 1, 2, 3]) True = Some (m', buf', None, False) \<and>
    tunnel_ready m' \<and> content buf' = [] \<and> unaffected m' m"
proof -
  obtain f pid where f: "tls_init_control_channel_frame_parameters sample_frame (to_frame toy_guarded_options) = Some f"
    and opt: "options_ok (toy_guarded_options\<lparr>to_frame := f\<rparr>)" "1 \<le> to_key_method toy_guarded_options" "\<not> to_single_session toy_guarded_options"
    and pid: "packet_id_init (to_replay_window toy_guarded_options) (to_replay_time toy_guarded_options) = Some pid"
    and w: "wrap_keys_ok (to_tls_wrap toy_guarded_options)" "co_flags (tw_opt (to_tls_wrap toy_guarded_options)) AND CO_IGNORE_PACKET_ID = 0"
      "co_pid_persist (tw_opt (to_tls_wrap toy_guarded_options)) \<noteq> None" "tw_mode (to_tls_wrap toy_guarded_options) = TLS_WRAP_CRYPT"
    and sid: "session_id_defined (toy_sid 1)" "session_id_defined (toy_sid 2)"
    by (rule toy_guarded_facts)
  obtain m where m: "tls_multi_init_finalize toy_lib (toy_sid 1) (toy_sid 2) (tls_multi_init toy_guarded_options) sample_frame = Some m" "tunnel_ready m"
    "\<forall>k \<in> {TM_ACTIVE, TM_UNTRUSTED}. tw_mode (ts_tls_wrap (ses_at m k)) = tw_mode (to_tls_wrap toy_guarded_options)"
    using multi_init_ready [OF f opt(1,2) pid w(1,2) sid opt(3), of toy_lib] by blast
  have b: "buf_ok (packet_buf [56, 1, 2, 3])" "content (packet_buf [56, 1, 2, 3]) = [56, 1, 2, 3]"
    using packet_buf_ok [of "[56, 1, 2, 3]"] by (simp_all add: BUF_SIZE_MAX_def)
  have "\<forall>k \<in> {TM_ACTIVE, TM_UNTRUSTED}. \<not> wrap_authentic (ts_tls_wrap (ses_at m k)) (content (packet_buf [56, 1, 2, 3]))"
    using m(3) w(4) b(2) by (auto simp: wrap_authentic_def authentic_text_def)
  moreover have "drop_bit 3 (56 :: byte) \<notin> {6, 9}" by code_simp
  moreover have "addr_ok (zero_sockaddr\<lparr>sa_family := AF_INET\<rparr>)" "1 < (9 :: int)" by (simp_all add: addr_ok_def)
  note safe = tls_pre_decrypt_safe [OF m(2) b(1) this, of toy_lib True]
  ultimately show ?thesis
    using safe m(1) b(2) by (elim exE conjE) (erule option_caseE, auto)
qed

subsection \<open>The filter for unknown clients\<close>

definition standalone :: "tls_wrap_ctx \<Rightarrow> bool" where
  "standalone w \<longleftrightarrow> wrap_keys_ok w \<and> (tw_mode w \<noteq> TLS_WRAP_NONE \<longrightarrow> co_flags (tw_opt w) AND CO_IGNORE_PACKET_ID \<noteq> 0 \<and> \<not> pid_initialized (tw_opt w))"

lemma swap_mac:
  assumes w: "tls_auth_key hm (kb_decrypt keys)" and b: "buf_ok b"
  shows "if length (content b) < nat (hmac_size hm) + 17 then swap_hmac keys b True = Some (b, False)
    else \<exists>b1 mac signed. swap_hmac keys b True = Some (b1, True) \<and> buf_ok b1 \<and> content b1 = mac @ signed \<and> int (length mac) = hmac_size hm \<and>
      17 \<le> length signed \<and> (auth_mac_ok hm (content b) \<longleftrightarrow> mac = hmac_of hm signed)"
proof -
  note k = w [unfolded tls_auth_key_def]
  have kc: "kc_hmac (kb_decrypt keys) = Some hm" "0 \<le> hmac_size hm" "hmac_size hm + 8 \<le> 256" using k by simp_all
  define n where "n = nat (hmac_size hm)"
  show ?thesis
  proof (cases "length (content b) < n + 17")
    case True
    then show ?thesis using swap_hmac_short [OF b kc] by (simp add: n_def)
  next
    case False
    define h mac pid x where "h = take 9 (content b)" and "mac = take n (drop 9 (content b))" and "pid = take 8 (drop (9 + n) (content b))"
      and "x = drop (17 + n) (content b)"
    have c: "content b = h @ (mac @ pid) @ x"
      using split_four [of "content b" 9 n 8] by (simp add: h_def mac_def pid_def x_def add.commute)
    have len: "length h = 9" "int (length mac) = hmac_size hm" "length pid = 8" using False kc(2) by (simp_all add: h_def mac_def pid_def n_def)
    have "kc_hmac (if True then kb_decrypt keys else kb_encrypt keys) = Some hm"
      "int (length h) = (if True then 9 else hmac_size hm + 8)" "int (length (mac @ pid)) = (if True then hmac_size hm + 8 else 9)"
      using kc len by simp_all
    from swap_hmac_spec [OF b c this(1) kc(2,3) this(2,3)] obtain b1 where b1: "swap_hmac keys b True = Some (b1, True)" "buf_ok b1"
      "content b1 = (mac @ pid) @ h @ x" by blast
    have "auth_mac_ok hm (content b) \<longleftrightarrow> mac = hmac_of hm (pid @ h @ x)"
      using False by (simp add: auth_mac_ok_def h_def mac_def pid_def x_def n_def Let_def)
    moreover have "content b1 = mac @ (pid @ h @ x)" "17 \<le> length (pid @ h @ x)" using b1(3) len by simp_all
    ultimately have "\<exists>b1 mac signed. swap_hmac keys b True = Some (b1, True) \<and> buf_ok b1 \<and> content b1 = mac @ signed \<and>
        int (length mac) = hmac_size hm \<and> 17 \<le> length signed \<and> (auth_mac_ok hm (content b) \<longleftrightarrow> mac = hmac_of hm signed)"
      using b1(1,2) len(2) by blast
    then show ?thesis using False by (simp add: n_def)
  qed
qed

lemma standalone_auth:
  assumes w: "standalone w" "tw_mode w = TLS_WRAP_AUTH" and b: "buf_ok b"
  shows "\<exists>w' b'. read_control_auth ts w b = Some (w', b', wrap_authentic w (content b))"
proof -
  obtain hm where hm: "tls_auth_key hm (kb_decrypt (tw_keys w))" using w by (auto simp: standalone_def wrap_keys_ok_def)
  note k = hm [unfolded tls_auth_key_def]
  have kc: "kc_cipher (kb_decrypt (tw_keys w)) = None" "kc_hmac (kb_decrypt (tw_keys w)) = Some hm" "0 < hmac_size hm"
    "\<And>t. int (length (hmac_of hm t)) = hmac_size hm" using k by simp_all
  have auth: "wrap_authentic w (content b) \<longleftrightarrow> auth_mac_ok hm (content b)" using w(2) kc(2) by (simp add: wrap_authentic_def)
  show ?thesis
  proof (cases "length (content b) < nat (hmac_size hm) + 17")
    case True
    then show ?thesis using swap_mac [OF hm b] w(2) auth by (simp add: read_control_auth_def auth_mac_ok_def Let_def)
  next
    case False
    with swap_mac [OF hm b] obtain b1 mac signed where b1: "swap_hmac (tw_keys w) b True = Some (b1, True)" "buf_ok b1" "content b1 = mac @ signed"
      "int (length mac) = hmac_size hm" "17 \<le> length signed" "auth_mac_ok hm (content b) \<longleftrightarrow> mac = hmac_of hm signed" by auto
    show ?thesis
    proof (cases "mac = hmac_of hm signed")
      case False
      from decrypt_forged [OF hm b1(2,3,4) this] obtain b2 where
        "openvpn_decrypt ts (kb_decrypt (tw_keys w)) (tw_opt w) b1 clear_buf null_frame (b_offset b1) = Some (tw_opt w, b2, False)" "b_len b2 = 0" by blast
      then show ?thesis using w(2) b1(1,6) kc(1) auth False by (simp add: read_control_auth_def)
    next
      case True
      have lb: "b_len b1 = hmac_size hm + int (length signed)" using buf_ok_len [OF b1(2)] b1(3,4) by simp
      have r: "load_at b1 (b_offset b1 + hmac_size hm) (b_len b1 - hmac_size hm) = Some signed"
        using load_slice [OF b1(2), of "length mac" "length signed"] b1(3,4) lb by simp
      have hash: "load_at b1 (b_offset b1) (hmac_size hm) = Some mac" using load_prefix [OF b1(2,3)] b1(4) by simp
      have cmp: "memcmp_constant_time (hmac_of hm signed) mac = 0" using memcmp_constant_time_iff [of mac mac] True by simp
      have "length mac \<le> length (content b1)" using b1(3) by simp
      with buf_advance_content [OF b1(2), of "hmac_size hm"] b1(4) kc(3)
      have adv: "buf_advance b1 (hmac_size hm) = (b1\<lparr>b_offset := b_offset b1 + hmac_size hm, b_len := b_len b1 - hmac_size hm\<rparr>, True)"
        by (auto simp: b1(3))
      have "\<not> b_len b1 < hmac_size hm" "b_len b1 > 0" "b_len b1 - hmac_size hm \<noteq> 0" using lb kc(3) b1(5) by auto
      then show ?thesis
        using w b1(1,6) True auth kc(1,2) r hash cmp adv
        by (simp add: read_control_auth_def openvpn_decrypt_def mode_aead_def openvpn_decrypt_v1_def decrypt_v1_text_def Let_def standalone_def)
    qed
  qed
qed

lemma standalone_crypt:
  assumes w: "standalone w" "tw_mode w = TLS_WRAP_CRYPT" and b: "buf_ok b" "content b \<noteq> []"
  shows "\<exists>w' b'. read_control_auth ts w b = Some (w', b', wrap_authentic w (content b))"
proof -
  obtain c hm where key: "tls_crypt_key c hm (kb_decrypt (tw_keys w))" using w by (auto simp: standalone_def wrap_keys_ok_def)
  then have kc: "kc_cipher (kb_decrypt (tw_keys w)) = Some c" "kc_hmac (kb_decrypt (tw_keys w)) = Some hm" "stream_cipher c"
    by (simp_all add: tls_crypt_key_def)
  have fl: "co_flags (tw_opt w) AND CO_IGNORE_PACKET_ID \<noteq> 0" using w by (simp add: standalone_def)
  have auth: "wrap_authentic w (content b) \<longleftrightarrow> authentic_text c hm (content b) \<noteq> None"
    using w(2) kc by (simp add: wrap_authentic_def)
  have "0 \<le> buf_forward_capacity_total b" "buf_forward_capacity_total b < BUF_SIZE_MAX"
    and ft: "buf_forward_capacity_total b = int (length (content b) + tailroom b)"
    using b(1) by (rule buf_ok_cases, simp add: buf_forward_capacity_total_def tailroom_def buf_valid_def)+
  then obtain tmp where tmp: "alloc_buf (buf_forward_capacity_total b) = Some tmp" "buf_ok tmp" "content tmp = []" "headroom tmp = 0"
    "tailroom tmp = nat (buf_forward_capacity_total b)" "b_capacity tmp = buf_forward_capacity_total b"
    by (metis alloc_buf_ok)
  have "length (content b) \<le> tailroom tmp" using ft tmp(5) by simp
  note un = unwrap_cases [OF key disjI2 [OF fl] b(1) refl b(2) tmp(2,3) this, of ts]
  show ?thesis
  proof (cases "authentic_text c hm (content b)")
    case None
    then obtain d where "tls_crypt_unwrap ts (kb_decrypt (tw_keys w)) (tw_opt w) b tmp = Some (tw_opt w, d, False)" using un by auto
    then show ?thesis using w(2) tmp(1) auth None by (simp add: read_control_auth_def)
  next
    case (Some p)
    then obtain d where d: "tls_crypt_unwrap ts (kb_decrypt (tw_keys w)) (tw_opt w) b tmp = Some (tw_opt w, d, True)" "buf_ok d" "content d = p"
      using un fl by auto
    have len: "length (content b) = length p + 49"
    proof -
      have big: "\<not> length (content b) < 49" using Some by (auto simp: authentic_text_def split: if_splits)
      then obtain f where "ctx_decrypt c (take 16 (drop 17 (content b))) [] (drop 49 (content b)) [] = (Some p, f)"
        using Some by (auto simp: authentic_text_def split: prod.splits option.splits if_splits)
      then have "length p = length (drop 49 (content b))" using kc(3) unfolding stream_cipher_def by blast
      then show ?thesis using big by simp
    qed
    have off: "0 \<le> b_offset b" "b_offset b \<le> b_capacity b" using b(1) by (auto elim: buf_ok_cases)
    from b(1) off obtain b2 where b2: "buf_init b (b_offset b) = (b2, True)" "buf_ok b2" "tailroom b2 = nat (b_capacity b - b_offset b)" by (rule buf_init_ok)
    have "length p \<le> tailroom b2" using b(1) len b2(3) by (auto elim!: buf_ok_cases)
    from buf_write_room [OF b2(2) this] obtain b3 where "buf_write b2 p = Some (b3, True)" by blast
    then have "buf_copy b2 d = Some (b3, True)" using buf_bytes_content [OF d(2)] d(3) by (simp add: buf_copy_def)
    then show ?thesis using w(2) tmp(1) d(1) b2(1) auth Some by (simp add: read_control_auth_def)
  qed
qed

lemma ignore_flag [simp]:
  "CO_IGNORE_PACKET_ID \<noteq> 0" "(flags OR CO_IGNORE_PACKET_ID) AND CO_PACKET_ID_LONG_FORM = flags AND CO_PACKET_ID_LONG_FORM"
proof -
  have "CO_IGNORE_PACKET_ID AND CO_PACKET_ID_LONG_FORM = 0" by code_simp
  then show "(flags OR CO_IGNORE_PACKET_ID) AND CO_PACKET_ID_LONG_FORM = flags AND CO_PACKET_ID_LONG_FORM"
    by (simp add: bit.conj_disj_distrib2)
qed code_simp

lemma standalone_reads:
  assumes "standalone w" "buf_ok b" "content b \<noteq> []"
  shows "\<exists>w' b'. read_control_auth ts w b = Some (w', b', wrap_authentic w (content b))"
  using standalone_auth [OF assms(1) _ assms(2)] standalone_crypt [OF assms(1) _ assms(2,3)]
  by (cases "tw_mode w") (auto simp: read_control_auth_def wrap_authentic_def)

lemma clone_buf_content:
  assumes "buf_ok b" "int (length fresh) = b_capacity b"
  shows "\<exists>b'. clone_buf fresh b = Some b' \<and> buf_ok b' \<and> content b' = content b"
proof -
  have v: "buf_valid b" and off: "0 \<le> b_offset b" "0 \<le> b_len b" "b_offset b + b_len b \<le> b_capacity b" "b_capacity b < BUF_SIZE_MAX"
    using assms(1) by (auto elim!: buf_ok_cases simp: buf_valid_def)
  have len: "b_len b = int (length (content b))" using buf_ok_len [OF assms(1)] by simp
  show ?thesis
    using off len assms(2) buf_bytes_content [OF assms(1)]
    by (auto simp: clone_buf_def store_at_def mem_write_def buf_ok_def content_def)
qed

text \<open>
  C10. The filter for clients that have no state yet. With a context made by \<open>tls_auth_standalone_init\<close> the filter never fails an
  assertion, and it lets a packet through exactly when it is a hard reset of key method 2 with key id 0 that is not larger than a control
  packet may be and that carries the authentication of the mode: no state is kept for anything else.
\<close>

theorem tls_pre_decrypt_lite_exact:
  assumes tas: "tls_auth_standalone_finalize (tls_auth_standalone_init opt) f = Some tas"
    and opt: "wrap_keys_ok (to_tls_wrap opt)" "\<not> pid_initialized (tw_opt (to_tls_wrap opt))"
    and b: "buf_ok buf" "int (length fresh) = b_capacity buf"
  shows "tls_pre_decrypt_lite fresh local_now tas buf = Some
    (content buf \<noteq> [] \<and> packet_op (hd (content buf)) = P_CONTROL_HARD_RESET_CLIENT_V2 \<and> packet_key_id (hd (content buf)) = 0 \<and>
     int (length (content buf)) \<le> EXPANDED_SIZE_DYNAMIC (tas_frame tas) \<and> wrap_authentic (to_tls_wrap opt) (content buf))"
proof -
  obtain w where tw: "tas_tls_wrap tas = w" "tw_mode w = tw_mode (to_tls_wrap opt)" "tw_keys w = tw_keys (to_tls_wrap opt)" "standalone w"
    using tas opt
    by (auto simp: tls_auth_standalone_finalize_def tls_auth_standalone_init_def standalone_def wrap_keys_ok_def pid_initialized_def split: bind_splits)
  have same: "wrap_authentic (to_tls_wrap opt) = wrap_authentic w" unfolding wrap_authentic_def fun_eq_iff tw(2,3) by simp
  show ?thesis
  proof (cases "content buf = []")
    case True
    then have "\<not> b_len buf > 0" using buf_ok_len [OF b(1)] by simp
    then show ?thesis using True by (simp add: tls_pre_decrypt_lite_def)
  next
    case False
    then obtain c cs where c: "content buf = [c] @ cs" by (cases "content buf") auto
    have len: "b_len buf = int (length (content buf))" "b_len buf > 0" using buf_ok_len [OF b(1)] c by simp_all
    have "buf_bptr buf = Some (b_offset buf)" using buf_ok_valid [OF b(1)] len by (simp add: buf_bptr_def)
    moreover have "load_at buf (b_offset buf) 1 = Some [c]" using load_prefix [OF b(1) c] by simp
    moreover obtain nb where nb: "clone_buf fresh buf = Some nb" "buf_ok nb" "content nb = content buf" using clone_buf_content [OF b] by blast
    moreover obtain w' b' where "read_control_auth local_now w nb = Some (w', b', wrap_authentic w (content buf))"
      using standalone_reads [OF tw(4) nb(2)] nb(3) False by metis
    ultimately show ?thesis using len c False tw(1) same by (simp add: tls_pre_decrypt_lite_def)
  qed
qed


lemma tls_pre_decrypt_lite_exact_witness:
  "\<exists>tas. tls_auth_standalone_finalize (tls_auth_standalone_init (toy_tls_options\<lparr>to_tls_wrap := zero_tls_wrap\<rparr>)) sample_frame = Some tas \<and>
    tls_pre_decrypt_lite (replicate 9 0) 5 tas (packet_buf [56, 1, 2, 3, 4, 5, 6, 7, 8]) = Some True"
proof -
  have "map_option (\<lambda>tas. 9 \<le> EXPANDED_SIZE_DYNAMIC (tas_frame tas))
      (tls_auth_standalone_finalize (tls_auth_standalone_init (toy_tls_options\<lparr>to_tls_wrap := zero_tls_wrap\<rparr>)) sample_frame) = Some True"
    by code_simp
  then obtain tas where tas: "tls_auth_standalone_finalize (tls_auth_standalone_init (toy_tls_options\<lparr>to_tls_wrap := zero_tls_wrap\<rparr>)) sample_frame = Some tas"
    "9 \<le> EXPANDED_SIZE_DYNAMIC (tas_frame tas)" by auto
  have w: "wrap_keys_ok (to_tls_wrap (toy_tls_options\<lparr>to_tls_wrap := zero_tls_wrap\<rparr>))"
    "\<not> pid_initialized (tw_opt (to_tls_wrap (toy_tls_options\<lparr>to_tls_wrap := zero_tls_wrap\<rparr>)))"
    by (simp add: zero_tls_wrap_def wrap_keys_ok_def) code_simp
  have b: "buf_ok (packet_buf [56, 1, 2, 3, 4, 5, 6, 7, 8])" "content (packet_buf [56, 1, 2, 3, 4, 5, 6, 7, 8]) = [56, 1, 2, 3, 4, 5, 6, 7, 8]"
    "int (length (replicate 9 0 :: byte list)) = b_capacity (packet_buf [56, 1, 2, 3, 4, 5, 6, 7, 8])"
    using packet_buf_ok [of "[56, 1, 2, 3, 4, 5, 6, 7, 8]"] by (simp_all add: BUF_SIZE_MAX_def packet_buf_def)
  have "packet_op 56 = P_CONTROL_HARD_RESET_CLIENT_V2" "packet_key_id 56 = 0" by code_simp+
  then show ?thesis
    using tls_pre_decrypt_lite_exact [OF tas(1) w b(1,3), of 5] tas b(2) by (simp add: wrap_authentic_def zero_tls_wrap_def)
qed

end
