(* ===== verification/Tls_Process.thy ===== *)
theory Tls_Process
  imports Tls_Pre_Decrypt Key_Method
begin

text \<open>
  ssl.c: the driver of the control channel. \<open>tls_process\<close> moves bytes between the link, the reliability layer and the TLS library and
  takes a key through its negotiation; \<open>tls_multi_process\<close> does so for the sessions of a tunnel. The operations of the
  TLS library are those of ssl_openssl.c. Reading the clock (\<open>update_time\<close>) is numbered: the \<open>k\<close>-th reading is \<open>te_clock k\<close>.
  The reload of the CRL file and the environment of scripts are left out, as they touch nothing that is modelled.
\<close>

subsection \<open>The TLS library\<close>

text \<open>The new state of the TLS object is \<open>None\<close> where the library is not called. The last component is the status.\<close>

definition bio_write :: "('s \<Rightarrow> byte list \<Rightarrow> 's \<times> bio_wrote) \<Rightarrow> 's \<Rightarrow> byte list \<Rightarrow> 's option \<times> int" where
  "bio_write wr s data =
     (if data \<noteq> [] then
        (case wr s data of
           (s, Wrote_retry) \<Rightarrow> (Some s, 0)
         | (s, Wrote_error) \<Rightarrow> (Some s, -1)
         | (s, Wrote n) \<Rightarrow> (Some s, if n \<noteq> int (length data) then -1 else 1))
      else (None, 0))"

definition bio_write_post :: "int \<Rightarrow> buffer \<Rightarrow> buffer option" where
  "bio_write_post status buf =
     (if status = 1 then do {
        p \<leftarrow> buf_bptr buf;
        buf \<leftarrow> store_at buf p (replicate (nat (buf_len buf)) 0);
        Some (buf\<lparr>b_len := 0\<rparr>)
      } else Some buf)"

definition key_state_write :: "('s \<Rightarrow> byte list \<Rightarrow> 's \<times> bio_wrote) \<Rightarrow> 's \<Rightarrow> buffer \<Rightarrow> ('s option \<times> buffer \<times> int) option" where
  "key_state_write wr s buf = do {
     c_assert (buf_len buf \<ge> 0);
     data \<leftarrow> buf_bytes buf;
     let (s, status) = bio_write wr s data;
     buf \<leftarrow> bio_write_post status buf;
     Some (s, buf, status)
   }"

definition bio_read_len :: "buffer \<Rightarrow> int \<Rightarrow> int" where
  "bio_read_len buf maxlen = (let len = buf_forward_capacity buf in if maxlen < len then maxlen else len)"

definition key_state_read :: "('s \<Rightarrow> int \<Rightarrow> 's \<times> bio_result) \<Rightarrow> 's \<Rightarrow> buffer \<Rightarrow> int \<Rightarrow> ('s option \<times> buffer \<times> int) option" where
  "key_state_read rd s buf maxlen = do {
     (b, status) \<leftarrow> bio_read (\<lambda>n. snd (rd s n)) buf maxlen;
     Some (if b_len buf \<noteq> 0 then None else Some (fst (rd s (bio_read_len buf maxlen))), b, status)
   }"

definition key_state_write_plaintext :: "'s ssl_lib \<Rightarrow> 's \<Rightarrow> buffer \<Rightarrow> ('s option \<times> buffer \<times> int) option" where
  "key_state_write_plaintext lib = key_state_write (ssl_write_pt lib)"

definition key_state_write_plaintext_const :: "'s ssl_lib \<Rightarrow> 's \<Rightarrow> byte list \<Rightarrow> 's option \<times> int" where
  "key_state_write_plaintext_const lib = bio_write (ssl_write_pt lib)"

definition key_state_read_ciphertext :: "'s ssl_lib \<Rightarrow> 's \<Rightarrow> buffer \<Rightarrow> int \<Rightarrow> ('s option \<times> buffer \<times> int) option" where
  "key_state_read_ciphertext lib = key_state_read (ssl_read_ct lib)"

definition key_state_write_ciphertext :: "'s ssl_lib \<Rightarrow> 's \<Rightarrow> buffer \<Rightarrow> ('s option \<times> buffer \<times> int) option" where
  "key_state_write_ciphertext lib = key_state_write (ssl_write_ct lib)"

definition key_state_read_plaintext :: "'s ssl_lib \<Rightarrow> 's \<Rightarrow> buffer \<Rightarrow> int \<Rightarrow> ('s option \<times> buffer \<times> int) option" where
  "key_state_read_plaintext lib = key_state_read (ssl_read_pt lib)"

text \<open>After a call of the library: the new TLS object, and what \<open>verify_cert\<close> left in the session.\<close>

definition set_ssl :: "'s ssl_lib \<Rightarrow> nat \<Rightarrow> 's option \<Rightarrow> 's tls_multi \<Rightarrow> 's tls_multi" where
  "set_ssl lib i r m =
     (case r of
        None \<Rightarrow> m
      | Some s \<Rightarrow> upd_ses i (\<lambda>ses.
          let ses = ses\<lparr>ts_primary := (ts_primary ses)\<lparr>ks_ssl := Some s\<rparr>\<rparr> in
          case ssl_verified lib s of
            None \<Rightarrow> ses
          | Some (v, cn, hs) \<Rightarrow> ses\<lparr>ts_verified := v, ts_common_name := cn, ts_cert_hash_set := hs\<rparr>) m)"

subsection \<open>State\<close>

text \<open>
  The variables of \<open>tls_process\<close>. \<open>tp_outgoing_addr\<close> is the last address given to \<open>link_socket_set_outgoing_addr\<close>,
  \<open>tp_to_link_addr\<close> what \<open>to_link_addr\<close> points to.
\<close>

record 's tls_proc =
  tp_multi :: "'s tls_multi"
  tp_to_link :: buffer
  tp_to_link_addr :: "sockaddr option"
  tp_outgoing_addr :: "sockaddr option"
  tp_wakeup :: int
  tp_active :: bool
  tp_change :: bool

record 's tls_env =
  te_lib :: "'s ssl_lib"
  te_km :: km_env
  te_clock :: "nat \<Rightarrow> time_t"

text \<open>How a step of the loop ends: go on, leave the loop, or go to the label \<open>error\<close>.\<close>

datatype flow = Go | Break | Failed

type_synonym 's outcome = "('s tls_proc \<times> flow) option"

abbreviation proc_key :: "nat \<Rightarrow> 's tls_proc \<Rightarrow> 's key_state" where
  "proc_key i p \<equiv> prim_at (tp_multi p) i"

abbreviation proc_state :: "nat \<Rightarrow> 's tls_proc \<Rightarrow> int" where
  "proc_state i p \<equiv> ks_state (proc_key i p)"

definition upd_key :: "nat \<Rightarrow> ('s key_state \<Rightarrow> 's key_state) \<Rightarrow> 's tls_proc \<Rightarrow> 's tls_proc" where
  "upd_key i f p = p\<lparr>tp_multi := upd_prim i f (tp_multi p)\<rparr>"

definition changed :: "'s tls_proc \<Rightarrow> 's tls_proc" where
  "changed p = p\<lparr>tp_change := True\<rparr>"

fun run_steps :: "('s tls_proc \<Rightarrow> 's outcome) list \<Rightarrow> 's tls_proc \<Rightarrow> 's outcome" where
  "run_steps [] p = Some (p, Go)"
| "run_steps (f # fs) p = do {
     (p, fl) \<leftarrow> f p;
     if fl = Go then run_steps fs p else Some (p, fl)
   }"

subsection \<open>The steps of the loop\<close>

definition auth_deferred_expire_window :: "tls_options \<Rightarrow> int" where
  "auth_deferred_expire_window opt =
     (let ret = to_handshake_window opt; r2 = to_renegotiate_seconds opt sdiv 2 in
      if to_renegotiate_seconds opt \<noteq> 0 \<and> r2 < ret then r2 else ret)"

definition full_sync :: "'s key_state \<Rightarrow> bool option" where
  "full_sync ks = do {
     snd \<leftarrow> ks_send_reliable ks;
     if \<not> reliable_empty snd then Some False
     else do {
       ack \<leftarrow> ks_rec_ack ks;
       Some (reliable_ack_empty ack)
     }
   }"

definition step_initial :: "time_t \<Rightarrow> nat \<Rightarrow> 's tls_proc \<Rightarrow> 's outcome" where
  "step_initial local_now i p =
     (if proc_state i p = S_INITIAL then do {
        snd \<leftarrow> ks_send_reliable (proc_key i p);
        (snd, r) \<leftarrow> reliable_get_buf_output_sequenced snd;
        (case r of
           None \<Rightarrow> Some (upd_key i (\<lambda>ks. ks\<lparr>ks_send_reliable := Some snd\<rparr>) p, Go)
         | Some j \<Rightarrow> do {
             snd \<leftarrow> reliable_mark_active_outgoing snd j (ks_initial_opcode (proc_key i p));
             Some (changed (upd_key i (\<lambda>ks. ks\<lparr>ks_send_reliable := Some snd,
               ks_must_negotiate := local_now + to_handshake_window (tm_opt (tp_multi p)),
               ks_auth_deferred_expire := local_now + auth_deferred_expire_window (tm_opt (tp_multi p)),
               ks_state := S_PRE_START\<rparr>) p), Go)
           })
      } else Some (p, Go))"

definition step_timeout :: "time_t \<Rightarrow> nat \<Rightarrow> 's tls_proc \<Rightarrow> 's outcome" where
  "step_timeout local_now i p =
     Some (if local_now \<ge> ks_must_negotiate (proc_key i p) then
             (if proc_state i p < S_ACTIVE then (p, Failed)
              else (upd_key i (\<lambda>ks. ks\<lparr>ks_state := S_NORMAL_OP, ks_must_negotiate := 0\<rparr>) p, Go))
           else (p, Go))"

definition step_start :: "nat \<Rightarrow> 's tls_proc \<Rightarrow> 's outcome" where
  "step_start i p =
     (if proc_state i p = S_PRE_START then do {
        sync \<leftarrow> full_sync (proc_key i p);
        Some (if sync then changed (upd_key i (\<lambda>ks. ks\<lparr>ks_state := S_START\<rparr>) p) else p, Go)
      } else Some (p, Go))"

fun flush_payload_buffer :: "'s ssl_lib \<Rightarrow> nat \<Rightarrow> byte list list \<Rightarrow> 's tls_multi \<Rightarrow> 's tls_multi option" where
  "flush_payload_buffer lib i [] m = Some m"
| "flush_payload_buffer lib i (b # bs) m = do {
     s \<leftarrow> ks_ssl (prim_at m i);
     let (s, status) = key_state_write_plaintext_const lib s b;
     flush_payload_buffer lib i bs (upd_prim i (\<lambda>ks. ks\<lparr>ks_paybuf := bs\<rparr>) (set_ssl lib i s m))
   }"

definition step_active :: "'s ssl_lib \<Rightarrow> time_t \<Rightarrow> nat \<Rightarrow> 's tls_proc \<Rightarrow> 's outcome" where
  "step_active lib local_now i p =
     (let server = to_server (tm_opt (tp_multi p)) in
      if proc_state i p = S_GOT_KEY \<and> \<not> server \<or> proc_state i p = S_SENT_KEY \<and> server then do {
        sync \<leftarrow> full_sync (proc_key i p);
        if sync then do {
          let p = changed (upd_key i (\<lambda>ks. ks\<lparr>ks_established := local_now, ks_state := S_ACTIVE\<rparr>) p);
          let p = p\<lparr>tp_outgoing_addr := Some (ks_remote_addr (proc_key i p))\<rparr>;
          m \<leftarrow> flush_payload_buffer lib i (ks_paybuf (proc_key i p)) (tp_multi p);
          Some (p\<lparr>tp_multi := m\<rparr>, Go)
        } else Some (p, Go)
      } else Some (p, Go))"

text \<open>\<open>to_link_addr\<close> is set only if the packet could be protected.\<close>

definition link_packet :: "nat \<Rightarrow> tls_wrap_ctx \<times> reliable_ack \<times> buffer \<times> sockaddr option \<Rightarrow> 's tls_proc \<Rightarrow> 's tls_proc" where
  "link_packet i r p = (case r of (wrap, ack, buf, addr) \<Rightarrow>
     p\<lparr>tp_multi := upd_ses i (\<lambda>ses. ses\<lparr>ts_tls_wrap := wrap, ts_primary := (ts_primary ses)\<lparr>ks_rec_ack := Some ack\<rparr>\<rparr>) (tp_multi p),
       tp_to_link := buf, tp_to_link_addr := (if addr = None then tp_to_link_addr p else addr), tp_active := True\<rparr>)"

definition step_send :: "time_t \<Rightarrow> nat \<Rightarrow> 's tls_proc \<Rightarrow> 's outcome" where
  "step_send local_now i p =
     (if b_len (tp_to_link p) = 0 then do {
        snd \<leftarrow> ks_send_reliable (proc_key i p);
        if reliable_can_send local_now snd then
          (case reliable_send local_now snd of
             (snd, None) \<Rightarrow> None
           | (snd, Some (j, opcode)) \<Rightarrow> do {
               let p = upd_key i (\<lambda>ks. ks\<lparr>ks_send_reliable := Some snd\<rparr>) p;
               r \<leftarrow> write_control_auth local_now (ses_at (tp_multi p) i) (proc_key i p) (e_buf (r_array snd ! j)) opcode CONTROL_SEND_ACK_MAX True;
               Some (changed (link_packet i r p), Break)
             })
        else Some (p, Go)
      } else Some (p, Go))"

definition step_incoming :: "'s ssl_lib \<Rightarrow> nat \<Rightarrow> 's tls_proc \<Rightarrow> 's outcome" where
  "step_incoming lib i p = do {
     rec \<leftarrow> ks_rec_reliable (proc_key i p);
     (case reliable_get_buf_sequenced rec of
        None \<Rightarrow> Some (p, Go)
      | Some j \<Rightarrow> do {
          (s, buf, status) \<leftarrow>
            (if b_len (e_buf (r_array rec ! j)) \<noteq> 0 then do {
               s \<leftarrow> ks_ssl (proc_key i p);
               key_state_write_ciphertext lib s (e_buf (r_array rec ! j))
             } else Some (None, e_buf (r_array rec ! j), 1));
          let rec = rel_upd rec j (\<lambda>e. e\<lparr>e_buf := buf\<rparr>);
          let p = upd_key i (\<lambda>ks. ks\<lparr>ks_rec_reliable := Some rec\<rparr>) (p\<lparr>tp_multi := set_ssl lib i s (tp_multi p)\<rparr>);
          if status = -1 then Some (p, Failed)
          else if status = 1 then do {
            rec \<leftarrow> reliable_mark_deleted rec j True;
            Some (changed (upd_key i (\<lambda>ks. ks\<lparr>ks_rec_reliable := Some rec\<rparr>) p), Go)
          } else Some (p, Go)
        })
   }"

definition step_read_plaintext :: "'s ssl_lib \<Rightarrow> nat \<Rightarrow> 's tls_proc \<Rightarrow> 's outcome" where
  "step_read_plaintext lib i p =
     (let buf = ks_plaintext_read_buf (proc_key i p) in
      if b_len buf = 0 then do {
        let (buf, ok) = buf_init buf 0;
        c_assert ok;
        s \<leftarrow> ks_ssl (proc_key i p);
        (s, buf, status) \<leftarrow> key_state_read_plaintext lib s buf TLS_CHANNEL_BUF_SIZE;
        let p = upd_key i (\<lambda>ks. ks\<lparr>ks_plaintext_read_buf := buf\<rparr>) (p\<lparr>tp_multi := set_ssl lib i s (tp_multi p)\<rparr>);
        Some (if status = -1 then (p, Failed)
              else if status = 1 then (changed (p\<lparr>tp_wakeup := 0\<rparr>), Go)
              else (p, Go))
      } else Some (p, Go))"

definition step_send_key :: "km_env \<Rightarrow> nat \<Rightarrow> 's tls_proc \<Rightarrow> 's outcome" where
  "step_send_key km i p =
     (let buf = ks_plaintext_write_buf (proc_key i p); m = tp_multi p; server = to_server (tm_opt m) in
      if b_len buf = 0 \<and> (proc_state i p = S_START \<and> \<not> server \<or> proc_state i p = S_GOT_KEY \<and> server) then do {
        (m, buf, ok) \<leftarrow>
          (if to_key_method (tm_opt m) = 1 then key_method_1_write km buf m i
           else if to_key_method (tm_opt m) = 2 then key_method_2_write km buf m i
           else None);
        let p = upd_key i (\<lambda>ks. ks\<lparr>ks_plaintext_write_buf := buf\<rparr>) (p\<lparr>tp_multi := m\<rparr>);
        Some (if \<not> ok then (p, Failed) else (changed (upd_key i (\<lambda>ks. ks\<lparr>ks_state := S_SENT_KEY\<rparr>) p), Go))
      } else Some (p, Go))"

definition step_receive_key :: "km_env \<Rightarrow> time_t \<Rightarrow> nat \<Rightarrow> 's tls_proc \<Rightarrow> 's outcome" where
  "step_receive_key km local_now i p =
     (let buf = ks_plaintext_read_buf (proc_key i p); m = tp_multi p; server = to_server (tm_opt m) in
      if b_len buf \<noteq> 0 \<and> (proc_state i p = S_SENT_KEY \<and> \<not> server \<or> proc_state i p = S_START \<and> server) then do {
        (m, buf, ok) \<leftarrow>
          (if to_key_method (tm_opt m) = 1 then key_method_1_read buf m i
           else if to_key_method (tm_opt m) = 2 then key_method_2_read km local_now buf m i
           else None);
        let p = upd_key i (\<lambda>ks. ks\<lparr>ks_plaintext_read_buf := buf\<rparr>) (p\<lparr>tp_multi := m\<rparr>);
        Some (if \<not> ok then (p, Failed) else (changed (upd_key i (\<lambda>ks. ks\<lparr>ks_state := S_GOT_KEY\<rparr>) p), Go))
      } else Some (p, Go))"

definition step_write_plaintext :: "'s ssl_lib \<Rightarrow> nat \<Rightarrow> 's tls_proc \<Rightarrow> 's outcome" where
  "step_write_plaintext lib i p =
     (let buf = ks_plaintext_write_buf (proc_key i p) in
      if b_len buf \<noteq> 0 then do {
        s \<leftarrow> ks_ssl (proc_key i p);
        (s, buf, status) \<leftarrow> key_state_write_plaintext lib s buf;
        let p = upd_key i (\<lambda>ks. ks\<lparr>ks_plaintext_write_buf := buf\<rparr>) (p\<lparr>tp_multi := set_ssl lib i s (tp_multi p)\<rparr>);
        Some (if status = -1 then (p, Failed) else if status = 1 then (changed p, Go) else (p, Go))
      } else Some (p, Go))"

definition step_outgoing :: "'s ssl_lib \<Rightarrow> nat \<Rightarrow> 's tls_proc \<Rightarrow> 's outcome" where
  "step_outgoing lib i p =
     (if proc_state i p \<ge> S_START then do {
        snd \<leftarrow> ks_send_reliable (proc_key i p);
        (snd, r) \<leftarrow> reliable_get_buf_output_sequenced snd;
        (case r of
           None \<Rightarrow> Some (upd_key i (\<lambda>ks. ks\<lparr>ks_send_reliable := Some snd\<rparr>) p, Go)
         | Some j \<Rightarrow> do {
             s \<leftarrow> ks_ssl (proc_key i p);
             (s, buf, status) \<leftarrow> key_state_read_ciphertext lib s (e_buf (r_array snd ! j)) (PAYLOAD_SIZE_DYNAMIC (to_frame (tm_opt (tp_multi p))));
             let snd = rel_upd snd j (\<lambda>e. e\<lparr>e_buf := buf\<rparr>);
             let p = upd_key i (\<lambda>ks. ks\<lparr>ks_send_reliable := Some snd\<rparr>) (p\<lparr>tp_multi := set_ssl lib i s (tp_multi p)\<rparr>);
             if status = -1 then Some (p, Failed)
             else if status = 1 then do {
               snd \<leftarrow> reliable_mark_active_outgoing snd j P_CONTROL_V1;
               Some (changed (upd_key i (\<lambda>ks. ks\<lparr>ks_send_reliable := Some snd\<rparr>) p), Go)
             } else Some (p, Go)
           })
      } else Some (p, Go))"

subsection \<open>The loop\<close>

text \<open>The body of the loop; round \<open>n\<close> reads the clock twice.\<close>

definition round_steps :: "'s tls_env \<Rightarrow> nat \<Rightarrow> nat \<Rightarrow> ('s tls_proc \<Rightarrow> 's outcome) list" where
  "round_steps env n i =
     (let now1 = te_clock env (2 * n + 1); now2 = te_clock env (2 * n + 2); lib = te_lib env in
      [step_initial now1 i, step_timeout now1 i, step_start i, step_active lib now1 i, step_send now1 i,
        step_incoming lib i, step_read_plaintext lib i, step_send_key (te_km env) i, step_receive_key (te_km env) now2 i,
        step_write_plaintext lib i, step_outgoing lib i])"

definition tls_round :: "'s tls_env \<Rightarrow> nat \<Rightarrow> nat \<Rightarrow> 's tls_proc \<Rightarrow> 's outcome" where
  "tls_round env n i p = run_steps (round_steps env n i) (p\<lparr>tp_change := False\<rparr>)"

text \<open>A run that ends gives a value; it can also hit a fault, or use up the rounds it was given.\<close>

datatype 'a run = Done 'a | Fault | Out_of_rounds

fun run_bind :: "'a run \<Rightarrow> ('a \<Rightarrow> 'b run) \<Rightarrow> 'b run" where
  "run_bind (Done x) f = f x"
| "run_bind Fault f = Fault"
| "run_bind Out_of_rounds f = Out_of_rounds"

definition run_of :: "'a option \<Rightarrow> 'a run" where
  "run_of r = (case r of None \<Rightarrow> Fault | Some x \<Rightarrow> Done x)"

text \<open>The result says after which round the loop was left, and whether it was left for the label \<open>error\<close>.\<close>

fun tls_loop :: "nat \<Rightarrow> 's tls_env \<Rightarrow> nat \<Rightarrow> nat \<Rightarrow> 's tls_proc \<Rightarrow> ('s tls_proc \<times> nat \<times> bool) run" where
  "tls_loop 0 env n i p = Out_of_rounds"
| "tls_loop (Suc k) env n i p =
     (case tls_round env n i p of
        None \<Rightarrow> Fault
      | Some (p, Failed) \<Rightarrow> Done (p, n, True)
      | Some (p, Break) \<Rightarrow> Done (p, n, False)
      | Some (p, Go) \<Rightarrow> if tp_change p then tls_loop k env (n + 1) i p else Done (p, n, False))"

subsection \<open>The whole routine\<close>

definition wants_soft_reset :: "tls_options \<Rightarrow> time_t \<Rightarrow> 's key_state \<Rightarrow> bool" where
  "wants_soft_reset opt local_now ks \<longleftrightarrow> ks_state ks \<ge> S_ACTIVE \<and>
     (to_renegotiate_seconds opt \<noteq> 0 \<and> local_now \<ge> ks_established ks + to_renegotiate_seconds opt \<or>
      to_renegotiate_bytes opt > 0 \<and> ks_n_bytes ks \<ge> to_renegotiate_bytes opt \<or>
      to_renegotiate_packets opt \<noteq> 0 \<and> ks_n_packets ks \<ge> to_renegotiate_packets opt \<or>
      packet_id_close_to_wrapping (pid_send (co_packet_id (ks_crypto ks))))"

definition process_start :: "'s tls_env \<Rightarrow> nat \<Rightarrow> 's tls_proc \<Rightarrow> 's tls_proc option" where
  "process_start env i p = do {
     let opt = tm_opt (tp_multi p);
     let ses = ses_at (tp_multi p) i;
     c_assert (control_ready ses);
     ses \<leftarrow> (if wants_soft_reset opt (te_clock env 0) (ts_primary ses)
             then key_state_soft_reset (te_lib env) opt (te_clock env 0) ses else Some ses);
     (wakeup, die) \<leftarrow> lame_duck_must_die (te_clock env 0) ses (tp_wakeup p);
     let ses = (if die then ses\<lparr>ts_lame := key_state_free (ts_lame ses) True\<rparr> else ses);
     Some (p\<lparr>tp_multi := upd_ses i (\<lambda>_. ses) (tp_multi p), tp_wakeup := wakeup, tp_active := False, tp_change := False\<rparr>)
   }"

definition send_ack :: "time_t \<Rightarrow> nat \<Rightarrow> 's tls_proc \<Rightarrow> 's tls_proc option" where
  "send_ack local_now i p =
     (if b_len (tp_to_link p) \<noteq> 0 then Some p
      else do {
        ack \<leftarrow> ks_rec_ack (proc_key i p);
        if reliable_ack_empty ack then Some p
        else do {
          let (buf, ok) = buf_init (ks_ack_write_buf (proc_key i p)) (FRAME_HEADROOM (to_frame (tm_opt (tp_multi p))));
          c_assert ok;
          r \<leftarrow> write_control_auth local_now (ses_at (tp_multi p) i) (proc_key i p) buf P_ACK_V1 RELIABLE_ACK_SIZE False;
          Some (link_packet i r p)
        }
      })"

definition process_wakeup :: "tls_options \<Rightarrow> time_t \<Rightarrow> 's key_state \<Rightarrow> int \<Rightarrow> int option" where
  "process_wakeup opt local_now ks w = do {
     w \<leftarrow> (if ks_state ks \<ge> S_INITIAL then do {
              snd \<leftarrow> ks_send_reliable ks;
              let w = compute_earliest_wakeup w (reliable_send_timeout local_now snd);
              Some (if ks_must_negotiate ks \<noteq> 0 then compute_earliest_wakeup w (ks_must_negotiate ks - local_now) else w)
            } else Some w);
     Some (if ks_established ks \<noteq> 0 \<and> to_renegotiate_seconds opt \<noteq> 0
           then compute_earliest_wakeup w (ks_established ks + to_renegotiate_seconds opt - local_now) else w)
   }"

definition process_end :: "time_t \<Rightarrow> nat \<Rightarrow> 's tls_proc \<Rightarrow> 's tls_proc option" where
  "process_end local_now i p = do {
     p \<leftarrow> send_ack local_now i p;
     w \<leftarrow> process_wakeup (tm_opt (tp_multi p)) local_now (proc_key i p) (tp_wakeup p);
     Some (if w \<le> 0 then p\<lparr>tp_wakeup := 1, tp_active := True\<rparr> else p\<lparr>tp_wakeup := w\<rparr>)
   }"

text \<open>The loop gets 34 rounds; \<open>tls_process_ends\<close> says that it needs no more. The result says whether there is something to do.\<close>

definition TLS_ROUNDS :: nat where "TLS_ROUNDS = 34"

definition tls_process :: "'s tls_env \<Rightarrow> nat \<Rightarrow> 's tls_proc \<Rightarrow> ('s tls_proc \<times> bool) run" where
  "tls_process env i p =
     run_bind (run_of (process_start env i p)) (\<lambda>p.
     run_bind (tls_loop TLS_ROUNDS env 0 i p) (\<lambda>(p, n, failed).
       if failed then Done (upd_key i (\<lambda>ks. ks\<lparr>ks_state := S_ERROR\<rparr>) p, False)
       else run_bind (run_of (process_end (te_clock env (2 * n + 3)) i p)) (\<lambda>p. Done (p, tp_active p))))"

subsection \<open>What the exchange of keys leaves alone\<close>

text \<open>
  The part of a tunnel that moves packets: states, reliability layers, addresses and buffers of the primary keys, session ids and
  wrapping. Authentication and key derivation change none of it, and of the options at most two that play no role here.
\<close>

definition core_key :: "'s key_state \<Rightarrow> int \<times> reliable option \<times> reliable option \<times> reliable_ack option \<times> session_id \<times> sockaddr \<times> buffer \<times> buffer" where
  "core_key ks = (ks_state ks, ks_send_reliable ks, ks_rec_reliable ks, ks_rec_ack ks, ks_session_id_remote ks, ks_remote_addr ks,
     ks_plaintext_read_buf ks, ks_plaintext_write_buf ks)"

definition core_ses :: "'s tls_session \<Rightarrow> session_id \<times> tls_wrap_ctx \<times> (int \<times> reliable option \<times> reliable option \<times> reliable_ack option \<times>
    session_id \<times> sockaddr \<times> buffer \<times> buffer)" where
  "core_ses ses = (ts_session_id ses, ts_tls_wrap ses, core_key (ts_primary ses))"

definition core_opt :: "tls_options \<Rightarrow> tls_options" where
  "core_opt opt = opt\<lparr>to_renegotiate_bytes := 0, to_ncp_enabled := False\<rparr>"

definition same_core :: "'s tls_multi \<Rightarrow> 's tls_multi \<Rightarrow> bool" where
  "same_core m' m \<longleftrightarrow> core_opt (tm_opt m') = core_opt (tm_opt m) \<and> map core_ses (tm_session m') = map core_ses (tm_session m)"

named_theorems core

lemma same_core_refl [core]: "same_core m m" by (simp add: same_core_def)
lemma same_core_trans: "same_core m2 m1 \<Longrightarrow> same_core m1 m \<Longrightarrow> same_core m2 m" by (simp add: same_core_def)

lemma core_struct:
  "same_core v m \<Longrightarrow> (\<And>x. same_core x m \<Longrightarrow> same_core (f x) m) \<Longrightarrow> same_core (let x = v in f x) m"
  "same_core a m \<Longrightarrow> same_core b m \<Longrightarrow> same_core (if c then a else b) m"
  "same_core a m \<Longrightarrow> (\<And>x. same_core (g x) m) \<Longrightarrow> same_core (case z of None \<Rightarrow> a | Some x \<Rightarrow> g x) m"
  by (auto split: option.splits)

lemma core_upd_ses [core]: "same_core m' m \<Longrightarrow> (\<And>ses. core_ses (f ses) = core_ses ses) \<Longrightarrow> same_core (upd_ses i f m') m"
proof -
  assume s: "same_core m' m" and f: "\<And>ses. core_ses (f ses) = core_ses ses"
  have "map core_ses ((tm_session m')[i := f (ses_at m' i)]) = map core_ses (tm_session m')"
    using list_update_id [of "map core_ses (tm_session m')" i]
    by (cases "i < length (tm_session m')") (simp_all add: map_update f list_update_beyond)
  then show "same_core (upd_ses i f m') m" using s by (simp add: same_core_def upd_ses_def)
qed

lemma core_upd_prim [core]: "same_core m' m \<Longrightarrow> (\<And>ks. core_key (f ks) = core_key ks) \<Longrightarrow> same_core (upd_prim i f m') m"
  unfolding upd_prim_def by (rule core_upd_ses) (simp_all add: core_ses_def)

lemma core_opts [core]:
  "same_core m' m \<Longrightarrow> same_core (wipe_auth_token m') m"
  "same_core m' m \<Longrightarrow> same_core (m'\<lparr>tm_locked_username := u\<rparr>) m"
  "same_core m' m \<Longrightarrow> same_core (m'\<lparr>tm_auth_token := t, tm_auth_token_tstamp := ts\<rparr>) m"
  "same_core m' m \<Longrightarrow> core_opt opt = core_opt (tm_opt m') \<Longrightarrow> same_core (m'\<lparr>tm_opt := opt\<rparr>) m"
  "same_core m' m \<Longrightarrow> same_core (key_method_2_peer options info m') m"
  by (simp_all add: same_core_def wipe_auth_token_def core_opt_def key_method_2_peer_def Let_def)

lemma core_limit [simp]: "core_opt (opt\<lparr>to_renegotiate_bytes := b\<rparr>) = core_opt opt"
  by (simp add: core_opt_def)

lemma core_deauth [core]:
  fixes m m' :: "'s tls_multi"
  shows "same_core m' m \<Longrightarrow> same_core (tls_deauthenticate m') m"
proof -
  have "(core_ses :: 's tls_session \<Rightarrow> _) \<circ> (\<lambda>ses. ses\<lparr>ts_primary := (ts_primary ses)\<lparr>ks_authenticated := False\<rparr>, ts_lame := (ts_lame ses)\<lparr>ks_authenticated := False\<rparr>\<rparr>) = core_ses"
    by (simp add: fun_eq_iff core_ses_def core_key_def)
  then show "same_core m' m \<Longrightarrow> same_core (tls_deauthenticate m') m"
    by (simp add: same_core_def tls_deauthenticate_def wipe_auth_token_def core_opt_def)
qed

lemma core_lock [core]: "same_core m' m \<Longrightarrow> same_core (fst (tls_lock_username m' nm)) m"
  by (auto simp: tls_lock_username_def split: option.splits intro!: core)

lemma core_same [simp]:
  "core_key (ks\<lparr>ks_authenticated := a\<rparr>) = core_key ks" "core_key (ks\<lparr>ks_auth_deferred := a\<rparr>) = core_key ks"
  "core_key (ks\<lparr>ks_auth_control_file := a\<rparr>) = core_key ks" "core_key (zero_key_src ks) = core_key ks"
  "core_key (ks\<lparr>ks_key_src := src\<rparr>) = core_key ks" "core_key (ks\<lparr>ks_keys := kb\<rparr>) = core_key ks" "core_key (ks\<lparr>ks_crypto := co\<rparr>) = core_key ks"
  "core_key (ks\<lparr>ks_ssl := s\<rparr>) = core_key ks" "core_key (ks\<lparr>ks_paybuf := pb\<rparr>) = core_key ks"
  "core_ses (set_common_name ses cn) = core_ses ses"
  by (simp_all add: core_key_def zero_key_src_def core_ses_def set_common_name_def)

lemma core_auth_token [core]: "same_core m' m \<Longrightarrow> same_core (verify_auth_token local_now m' i tok u pw) m"
proof -
  assume s: "same_core m' m"
  obtain m1 ok where l: "tls_lock_username m' u = (m1, ok)" by fastforce
  have "same_core m1 m" using core_lock [OF s, of u] l by simp
  then show ?thesis unfolding verify_auth_token_def l Let_def prod.case by (auto intro!: core)
qed

lemma core_user_pass:
  assumes "verify_user_pass env local_now up m i = Some m'"
  shows "same_core m' m"
proof -
  have acc: "same_core m3 m" if "same_core m2 m" "verify_user_pass_accepted env local_now m2 i u s1 mda = Some m3" for m2 m3 u s1 mda
    using that(2) that(1) unfolding verify_user_pass_accepted_def Let_def by (auto split: bind_splits if_splits sum.splits intro!: core)
  have plug: "same_core (fst (verify_user_pass_plugin env plugin m i u p raw)) m" for plugin u p raw
    by (auto simp: verify_user_pass_plugin_def Let_def intro!: core)
  have ext: "same_core m2 m" if "verify_user_pass_external env local_now m i u p raw mda = Some m2" for m2 u p raw mda
  proof -
    define mda' where "mda' = (if mda = KMDA_DEF then verify_user_pass_management m u else mda)"
    obtain m1 s1 where p1: "(case ve_plugin env of Some plugin \<Rightarrow> verify_user_pass_plugin env plugin m i u p raw | None \<Rightarrow> (m, OPENVPN_PLUGIN_FUNC_SUCCESS)) = (m1, s1)"
      by fastforce
    have m1: "same_core m1 m" using p1 plug same_core_refl by (cases "ve_plugin env") (auto simp: prod_eq_iff)
    obtain m4 ok where l: "tls_lock_username m1 u = (m4, ok)" by fastforce
    have m4: "same_core m4 m" using core_lock [OF m1, of u] l by simp
    show ?thesis
      using that m1 m4 acc [OF m4] unfolding verify_user_pass_external_def Let_def p1 prod.case l mda'_def [symmetric]
      by (auto split: if_splits)
  qed
  obtain u p where up: "up = (u, p)" by fastforce
  note run = assms [unfolded verify_user_pass_def up Let_def prod.case]
  show ?thesis
  proof (cases "to_auth_token_generate (tm_opt m) \<and> tm_auth_token_sent m")
    case True
    show ?thesis
    proof (cases "tm_auth_token m")
      case None
      show ?thesis using run unfolding None prod.case option.case by (auto split: bool.splits intro: ext)
    next
      case (Some tok)
      then show ?thesis using run True by (auto intro!: core)
    qed
  next
    case False
    then have no: "(to_auth_token_generate (tm_opt m) \<and> tm_auth_token_sent m) = False" by simp
    show ?thesis using run unfolding no prod.case bool.case by (rule ext)
  qed
qed

lemma core_final_checks [core]: "same_core m' m \<Longrightarrow> same_core (verify_final_auth_checks env m' i) m"
  unfolding verify_final_auth_checks_def by (intro core_struct core) (simp_all only: core_same)

lemma core_check [core]: "same_core m' m \<Longrightarrow> same_core (key_method_2_check env options m' i) m"
  unfolding key_method_2_check_def by (intro core_struct core) (simp_all only: core_same)

lemma core_authenticate:
  assumes "same_core m1 m" "key_method_2_authenticate env local_now options u pw m1 i = Some (m', ok)"
  shows "same_core m' m"
  using assms(2) same_core_trans [OF core_user_pass assms(1)] assms(1)
  unfolding key_method_2_authenticate_def by (auto split: if_splits option.splits bind_splits intro!: core)

lemma core_generate:
  assumes "same_core m1 m" "tls_session_generate_data_channel_keys lib m1 i = Some (m', ok)"
  shows "same_core m' m"
  using assms unfolding tls_session_generate_data_channel_keys_def Let_def
  by (auto split: bind_splits if_splits intro!: core)

lemma core_key1_write: "key_method_1_write km buf m i = Some (m', buf', ok) \<Longrightarrow> same_core m' m"
  unfolding key_method_1_write_def Let_def by (auto split: bind_splits if_splits prod.splits intro!: core)

lemma core_key1_read: "key_method_1_read buf m i = Some (m', buf', ok) \<Longrightarrow> same_core m' m \<and> (ok \<longrightarrow> b_len buf' = 0)"
  unfolding key_method_1_read_def Let_def by (auto split: bind_splits if_splits prod.splits intro!: core simp: buf_clear_def)

lemma core_key2_write:
  assumes "key_method_2_write km buf m i = Some (m', buf', ok)"
  shows "same_core m' m"
  using assms unfolding key_method_2_write_def Let_def
  by (auto split: bind_splits if_splits prod.splits intro!: core elim!: core_generate [rotated])

lemma core_key2_read:
  assumes "key_method_2_read km local_now buf m i = Some (m', buf', ok)"
  shows "same_core m' m \<and> (ok \<longrightarrow> b_len buf' = 0)"
proof -
  obtain src src' b1 fields where 1: "ks_key_src (prim_at m i) = Some src" "key_method_2_get (tm_opt m) src buf = Some (src', b1, fields)"
    using assms unfolding key_method_2_read_def Let_def by (auto split: bind_splits)
  define m1 where "m1 = upd_prim i (\<lambda>ks. ks\<lparr>ks_key_src := Some src'\<rparr>) m"
  have m1: "same_core m1 m" unfolding m1_def by (intro core) simp
  obtain b2 where b2: "buf_clear b1 = Some b2" "b_len b2 = 0"
    using assms 1 unfolding key_method_2_read_def Let_def by (auto split: bind_splits simp: buf_clear_def)
  show ?thesis
  proof (cases fields)
    case None
    have "(m', buf', ok) = (upd_prim i zero_key_src m1, b2, False)"
      using assms 1 b2(1) None unfolding key_method_2_read_def m1_def [symmetric] by (auto simp: Let_def m1_def split: bind_splits)
    then show ?thesis using m1 by (auto intro!: core)
  next
    case (Some f)
    obtain options u p info where f: "f = (options, u, p, info)" by (cases f) auto
    define m2 where "m2 = key_method_2_peer options info (upd_prim i (\<lambda>ks. ks\<lparr>ks_authenticated := False\<rparr>) m1)"
    have m2: "same_core m2 m" unfolding m2_def by (intro core m1) simp
    have run: "do {
        (m, ok) \<leftarrow> key_method_2_authenticate km local_now options u p m2 i;
        if \<not> ok then Some (upd_prim i zero_key_src m, b2, False)
        else do {
          let m = key_method_2_check km options m i;
          if \<not> to_server (tm_opt m) \<and> (\<not> to_pull (tm_opt m) \<or> ks_key_id (prim_at m i) > 0) then do {
            (m, ok) \<leftarrow> tls_session_generate_data_channel_keys (km_prf km) m i;
            Some (if \<not> ok then upd_prim i zero_key_src m else m, b2, ok)
          } else Some (m, b2, True)
        }
      } = Some (m', buf', ok)"
      using assms 1 b2(1) Some f unfolding key_method_2_read_def by (auto simp: Let_def m1_def m2_def split: bind_splits)
    then obtain m3 ok3 where m3: "key_method_2_authenticate km local_now options u p m2 i = Some (m3, ok3)"
      by (auto split: bind_splits)
    have c3: "same_core m3 m" by (rule core_authenticate [OF m2 m3])
    define m4 where "m4 = key_method_2_check km options m3 i"
    have c4: "same_core m4 m" unfolding m4_def by (intro core c3)
    note r4 = run [unfolded m3 Option.bind.bind_lunit prod.case Let_def, folded m4_def]
    show ?thesis
    proof (cases "ok3 \<and> \<not> to_server (tm_opt m4) \<and> (\<not> to_pull (tm_opt m4) \<or> ks_key_id (prim_at m4 i) > 0)")
      case False
      then show ?thesis using r4 c3 c4 b2(2) by (auto split: if_splits intro!: core)
    next
      case True
      then obtain m5 ok5 where m5: "tls_session_generate_data_channel_keys (km_prf km) m4 i = Some (m5, ok5)"
        "(if \<not> ok5 then upd_prim i zero_key_src m5 else m5, b2, ok5) = (m', buf', ok)"
        using r4 by (auto split: bind_splits)
      show ?thesis using core_generate [OF c4 m5(1)] m5(2) b2(2) by (auto split: if_splits intro!: core)
    qed
  qed
qed

lemma core_set_ssl [core]: "same_core m' m \<Longrightarrow> same_core (set_ssl lib i s m') m"
  unfolding set_ssl_def by (auto split: option.splits prod.splits intro!: core simp: Let_def core_ses_def core_key_def)

lemma core_flush: "flush_payload_buffer lib i bs m1 = Some m' \<Longrightarrow> same_core m1 m \<Longrightarrow> same_core m' m"
proof (induction bs arbitrary: m1)
  case (Cons b bs)
  from Cons.prems(1) obtain r where "flush_payload_buffer lib i bs (upd_prim i (\<lambda>ks. ks\<lparr>ks_paybuf := bs\<rparr>) (set_ssl lib i r m1)) = Some m'"
    by (auto split: bind_splits prod.splits)
  moreover have "same_core (upd_prim i (\<lambda>ks. ks\<lparr>ks_paybuf := bs\<rparr>) (set_ssl lib i r m1)) m"
    by (intro core Cons.prems(2)) simp
  ultimately show ?case by (rule Cons.IH)
qed simp

subsection \<open>The negotiation of a key\<close>

text \<open>
  The states a key goes through; a client sends its half of the key first, a server waits for it. There is no way back: a key
  that is active is not negotiated again, a soft reset replaces it by a new one.
\<close>

inductive hs_step :: "bool \<Rightarrow> int \<Rightarrow> int \<Rightarrow> bool" for server where
  hs_initial: "hs_step server S_INITIAL S_PRE_START"
| hs_start: "hs_step server S_PRE_START S_START"
| hs_client_sends: "\<not> server \<Longrightarrow> hs_step server S_START S_SENT_KEY"
| hs_client_gets: "\<not> server \<Longrightarrow> hs_step server S_SENT_KEY S_GOT_KEY"
| hs_client_active: "\<not> server \<Longrightarrow> hs_step server S_GOT_KEY S_ACTIVE"
| hs_server_gets: "server \<Longrightarrow> hs_step server S_START S_GOT_KEY"
| hs_server_sends: "server \<Longrightarrow> hs_step server S_GOT_KEY S_SENT_KEY"
| hs_server_active: "server \<Longrightarrow> hs_step server S_SENT_KEY S_ACTIVE"
| hs_normal: "S_ACTIVE \<le> s \<Longrightarrow> hs_step server s S_NORMAL_OP"

abbreviation hs_path :: "bool \<Rightarrow> int \<Rightarrow> int \<Rightarrow> bool" where
  "hs_path server \<equiv> (hs_step server)\<^sup>*\<^sup>*"

text \<open>How many steps are left until the key is active.\<close>

definition hs_rank :: "bool \<Rightarrow> int \<Rightarrow> nat" where
  "hs_rank server s =
     (if s = S_INITIAL then 5 else if s = S_PRE_START then 4 else if s = S_START then 3
      else if s = (if server then S_GOT_KEY else S_SENT_KEY) then 2
      else if s = (if server then S_SENT_KEY else S_GOT_KEY) then 1 else 0)"

lemma hs_rank_step: "hs_step server s s' \<Longrightarrow> hs_rank server s' < hs_rank server s \<or> S_ACTIVE \<le> s \<and> s' = S_NORMAL_OP"
  by (induction rule: hs_step.induct) (simp_all add: hs_rank_def S_defs)

lemma hs_path_forward:
  "hs_path server s s' \<Longrightarrow> s' = s \<or> hs_rank server s' < hs_rank server s \<or> S_ACTIVE \<le> s \<and> s' = S_NORMAL_OP"
proof (induction rule: rtranclp_induct)
  case (step s1 s2)
  then show ?case using hs_rank_step [OF step.hyps(2)] by (auto simp: hs_rank_def S_defs split: if_splits)
qed simp

subsection \<open>The work that is left\<close>

definition n_active :: "reliable option \<Rightarrow> nat" where
  "n_active r = (case r of None \<Rightarrow> 0 | Some R \<Rightarrow> length (filter e_active (rel_entries R)))"

definition n_free :: "reliable option \<Rightarrow> nat" where
  "n_free r = (case r of None \<Rightarrow> 0 | Some R \<Rightarrow> length (filter (\<lambda>e. \<not> e_active e) (rel_entries R)))"

definition waits :: "buffer \<Rightarrow> nat" where "waits buf = (if b_len buf = 0 then 0 else 1)"

text \<open>
  A measure for the loop: the steps of the negotiation that are left, the packets that wait for the TLS library, the room for its answer,
  the text that waits for it, and the room for packets to send.
\<close>

definition work_left :: "bool \<Rightarrow> 's key_state \<Rightarrow> nat" where
  "work_left server ks = 3 * hs_rank server (ks_state ks) + n_active (ks_rec_reliable ks) +
     (1 - waits (ks_plaintext_read_buf ks)) + waits (ks_plaintext_write_buf ks) + n_free (ks_send_reliable ks)"

lemma filter_update:
  "i < length xs \<Longrightarrow> length (filter P (xs[i := y])) + (if P (xs ! i) then 1 else 0) = length (filter P xs) + (if P y then 1 else 0)"
proof (induction xs arbitrary: i)
  case (Cons x xs)
  then show ?case by (cases i) auto
qed simp

lemma n_active_upd:
  "j < length (rel_entries R) \<Longrightarrow>
   n_active (Some (rel_upd R j f)) + (if e_active (r_array R ! j) then 1 else 0) = n_active (Some R) + (if e_active (f (r_array R ! j)) then 1 else 0)"
  using filter_update [of j "rel_entries R" e_active "f (r_array R ! j)"] by (simp add: n_active_def rel_entries_upd)

lemma n_free_upd:
  "j < length (rel_entries R) \<Longrightarrow>
   n_free (Some (rel_upd R j f)) + (if e_active (r_array R ! j) then 0 else 1) = n_free (Some R) + (if e_active (f (r_array R ! j)) then 0 else 1)"
  using filter_update [of j "rel_entries R" "\<lambda>e. \<not> e_active e" "f (r_array R ! j)"] by (simp add: n_free_def rel_entries_upd split: if_splits)

lemma counts_pid [simp]: "n_active (Some (R\<lparr>r_packet_id := q\<rparr>)) = n_active (Some R)" "n_free (Some (R\<lparr>r_packet_id := q\<rparr>)) = n_free (Some R)"
  by (simp_all add: n_active_def n_free_def)

lemma get_buf_counts:
  assumes "reliable_get_buf S = Some (S', r)"
  shows "n_free (Some S') = n_free (Some S) \<and> length (rel_entries S') = length (rel_entries S) \<and>
    (\<forall>j. r = Some j \<longrightarrow> j < length (rel_entries S') \<and> \<not> e_active (r_array S' ! j))"
proof (cases "first_entry (\<lambda>e. \<not> e_active e) (rel_entries S)")
  case None
  then show ?thesis using assms by (auto simp: reliable_get_buf_def)
next
  case (Some j)
  note j = first_entry_Some [OF Some]
  obtain b where "S' = rel_upd S j (\<lambda>e. e\<lparr>e_buf := b\<rparr>)" "r = Some j"
    using assms Some by (auto simp: reliable_get_buf_def Let_def split: prod.splits bind_splits)
  then show ?thesis using j n_free_upd [of j S "\<lambda>e. e\<lparr>e_buf := b\<rparr>"] by auto
qed

lemma output_sequenced_counts:
  assumes "reliable_get_buf_output_sequenced S = Some (S', r)"
  shows "n_free (Some S') = n_free (Some S) \<and> (\<forall>j. r = Some j \<longrightarrow> j < length (rel_entries S') \<and> \<not> e_active (r_array S' ! j))"
  using assms get_buf_counts by (fastforce simp: reliable_get_buf_output_sequenced_def Let_def split: if_splits)

lemma mark_outgoing_counts:
  assumes "reliable_mark_active_outgoing S j opcode = Some S'" "\<not> e_active (r_array S ! j)"
  shows "n_free (Some S') + 1 = n_free (Some S)"
proof -
  define q where "q = r_packet_id S + 1"
  obtain g where g: "S' = rel_upd (S\<lparr>r_packet_id := q\<rparr>) j g" "e_active (g (r_array S ! j))" "j < length (rel_entries S)"
    using assms(1) by (auto simp: reliable_mark_active_outgoing_def Let_def q_def split: bind_splits prod.splits)
  have "n_free (Some S') + (if e_active (r_array S ! j) then 0 else 1) = n_free (Some (S\<lparr>r_packet_id := q\<rparr>)) + (if e_active (g (r_array S ! j)) then 0 else 1)"
    using n_free_upd [of j "S\<lparr>r_packet_id := q\<rparr>" g] g by simp
  then show ?thesis using g(2) assms(2) by simp
qed

lemma mark_deleted_counts:
  assumes "reliable_mark_deleted R j inc = Some R'" "e_active (r_array R ! j)"
  shows "n_active (Some R') + 1 = n_active (Some R)"
proof -
  have j: "j < length (rel_entries R)" using assms(1) by (auto simp: reliable_mark_deleted_def split: bind_splits)
  have "n_active (Some R') = n_active (Some (rel_upd R j (\<lambda>e. e\<lparr>e_active := False\<rparr>)))"
    using assms(1) by (auto simp: reliable_mark_deleted_def Let_def split: bind_splits if_splits)
  then show ?thesis using n_active_upd [OF j, of "\<lambda>e. e\<lparr>e_active := False\<rparr>"] assms(2) by simp
qed

lemma send_counts: "reliable_send local_now S = (S', r) \<Longrightarrow> r \<noteq> None \<Longrightarrow> n_free (Some S') = n_free (Some S)"
  using best_due_index n_free_upd
  by (fastforce simp: reliable_send_def split: option.splits prod.splits)

subsection \<open>What a step of the loop can do\<close>

text \<open>
  A step follows the negotiation, does not touch a packet that waits in \<open>to_link\<close>, and, when the loop goes on, leaves no more work than
  there was, and less if it reports a change.
\<close>

definition link_ok :: "'s tls_proc \<Rightarrow> 's tls_proc \<Rightarrow> bool" where
  "link_ok p p' \<longleftrightarrow> (b_len (tp_to_link p) \<noteq> 0 \<longrightarrow> tp_to_link p' = tp_to_link p \<and> tp_to_link_addr p' = tp_to_link_addr p) \<and>
     (tp_active p \<longrightarrow> tp_active p') \<and> (b_len (tp_to_link p) = 0 \<and> b_len (tp_to_link p') \<noteq> 0 \<longrightarrow> tp_active p')"

lemma link_ok_same [simp]: "tp_to_link q = tp_to_link p \<Longrightarrow> tp_to_link_addr q = tp_to_link_addr p \<Longrightarrow> tp_active q = tp_active p \<Longrightarrow> link_ok p q"
  by (simp add: link_ok_def)

lemma link_ok_trans: "link_ok p p1 \<Longrightarrow> link_ok p1 p2 \<Longrightarrow> link_ok p p2"
  by (auto simp: link_ok_def)

definition step_ok :: "nat \<Rightarrow> 's tls_proc \<Rightarrow> 's tls_proc \<Rightarrow> flow \<Rightarrow> bool" where
  "step_ok i p p' fl \<longleftrightarrow> length (tm_session (tp_multi p')) = length (tm_session (tp_multi p)) \<and>
     core_opt (tm_opt (tp_multi p')) = core_opt (tm_opt (tp_multi p)) \<and>
     hs_path (to_server (tm_opt (tp_multi p))) (proc_state i p) (proc_state i p') \<and>
     link_ok p p' \<and>
     (fl = Go \<longrightarrow> work_left (to_server (tm_opt (tp_multi p))) (proc_key i p') \<le> work_left (to_server (tm_opt (tp_multi p))) (proc_key i p) \<and>
        (tp_change p' \<longrightarrow> tp_change p \<or>
           work_left (to_server (tm_opt (tp_multi p))) (proc_key i p') < work_left (to_server (tm_opt (tp_multi p))) (proc_key i p)))"

lemma core_opt_server: "core_opt a = core_opt b \<Longrightarrow> to_server a = to_server b"
proof -
  have "to_server (core_opt c) = to_server c" for c by (simp add: core_opt_def)
  then show "core_opt a = core_opt b \<Longrightarrow> to_server a = to_server b" by metis
qed

lemma step_ok_refl [simp]: "step_ok i p p Go" by (simp add: step_ok_def)

lemma step_ok_trans:
  assumes "step_ok i p p1 Go" "step_ok i p1 p2 fl"
  shows "step_ok i p p2 fl"
proof -
  have "core_opt (tm_opt (tp_multi p1)) = core_opt (tm_opt (tp_multi p))" using assms(1) by (simp add: step_ok_def)
  note srv = core_opt_server [OF this]
  have "hs_path (to_server (tm_opt (tp_multi p))) (proc_state i p) (proc_state i p1)"
    "hs_path (to_server (tm_opt (tp_multi p))) (proc_state i p1) (proc_state i p2)"
    using assms srv by (simp_all add: step_ok_def)
  then have "hs_path (to_server (tm_opt (tp_multi p))) (proc_state i p) (proc_state i p2)" by (rule rtranclp_trans)
  then show ?thesis using assms srv link_ok_trans [of p p1 p2] by (auto simp: step_ok_def)
qed

lemma run_steps_ok:
  assumes "\<forall>f \<in> set fs. \<forall>q q' fl. i < length (tm_session (tp_multi q)) \<longrightarrow> f q = Some (q', fl) \<longrightarrow> step_ok i q q' fl"
    "i < length (tm_session (tp_multi p))" "run_steps fs p = Some (p', fl)"
  shows "step_ok i p p' fl"
  using assms
proof (induction fs arbitrary: p)
  case (Cons f fs)
  obtain p1 fl1 where p1: "f p = Some (p1, fl1)" using Cons.prems(3) by (auto split: bind_splits)
  have ok: "step_ok i p p1 fl1" using Cons.prems(1,2) p1 by auto
  show ?case
  proof (cases "fl1 = Go")
    case True
    have "i < length (tm_session (tp_multi p1))" using ok Cons.prems(2) by (simp add: step_ok_def)
    moreover have "run_steps fs p1 = Some (p', fl)" using Cons.prems(3) p1 True by simp
    ultimately have "step_ok i p1 p' fl" using Cons.IH Cons.prems(1) by simp
    then show ?thesis using step_ok_trans ok True by blast
  next
    case False
    then show ?thesis using Cons.prems(3) p1 ok by auto
  qed
qed simp

lemma upd_key_simps [simp]:
  "i < length (tm_session (tp_multi p)) \<Longrightarrow> proc_key i (upd_key i f p) = f (proc_key i p)"
  "length (tm_session (tp_multi (upd_key i f p))) = length (tm_session (tp_multi p))" "tm_opt (tp_multi (upd_key i f p)) = tm_opt (tp_multi p)"
  "tp_to_link (upd_key i f p) = tp_to_link p" "tp_to_link_addr (upd_key i f p) = tp_to_link_addr p" "tp_change (upd_key i f p) = tp_change p"
  "tp_active (upd_key i f p) = tp_active p" "tp_wakeup (upd_key i f p) = tp_wakeup p" "tp_outgoing_addr (upd_key i f p) = tp_outgoing_addr p"
  by (simp_all add: upd_key_def)

lemma changed_simps [simp]:
  "tp_multi (changed p) = tp_multi p" "tp_to_link (changed p) = tp_to_link p" "tp_to_link_addr (changed p) = tp_to_link_addr p"
  "tp_change (changed p)" "tp_active (changed p) = tp_active p" "tp_wakeup (changed p) = tp_wakeup p" "tp_outgoing_addr (changed p) = tp_outgoing_addr p"
  by (simp_all add: changed_def)

lemma core_keyD:
  assumes "same_core m' m" "i < length (tm_session m)"
  shows "length (tm_session m') = length (tm_session m)" "core_opt (tm_opt m') = core_opt (tm_opt m)"
    "core_key (prim_at m' i) = core_key (prim_at m i)" "ts_session_id (ses_at m' i) = ts_session_id (ses_at m i)"
    "ts_tls_wrap (ses_at m' i) = ts_tls_wrap (ses_at m i)"
proof -
  have m: "map core_ses (tm_session m') = map core_ses (tm_session m)" using assms(1) by (simp add: same_core_def)
  then show l: "length (tm_session m') = length (tm_session m)" by (rule map_eq_imp_length_eq)
  show "core_opt (tm_opt m') = core_opt (tm_opt m)" using assms(1) by (simp add: same_core_def)
  have "core_ses (ses_at m' i) = core_ses (ses_at m i)" using m l assms(2) by (metis nth_map)
  then show "core_key (prim_at m' i) = core_key (prim_at m i)" "ts_session_id (ses_at m' i) = ts_session_id (ses_at m i)"
    "ts_tls_wrap (ses_at m' i) = ts_tls_wrap (ses_at m i)" by (simp_all add: core_ses_def)
qed

lemma core_key_work: "core_key ks' = core_key ks \<Longrightarrow> work_left server ks' = work_left server ks \<and> ks_state ks' = ks_state ks"
  by (simp add: core_key_def work_left_def)

lemma set_ssl_core: "same_core (set_ssl lib i s m) m" by (intro core)

lemma set_ssl_simps [simp]:
  "length (tm_session (set_ssl lib i s m)) = length (tm_session m)" "tm_opt (set_ssl lib i s m) = tm_opt m"
  "i < length (tm_session m) \<Longrightarrow> core_key (prim_at (set_ssl lib i s m) i) = core_key (prim_at m i)"
  using core_keyD [OF set_ssl_core, of i m lib i s] by (simp_all add: set_ssl_def split: option.splits)

text \<open>A step that writes the key once, after operations that leave the core alone.\<close>

lemma step_ok_upd:
  assumes "i < length (tm_session (tp_multi p))" "same_core m (tp_multi p)"
    "hs_path (to_server (tm_opt (tp_multi p))) (proc_state i p) (ks_state (f (prim_at m i)))"
    "fl = Go \<Longrightarrow> work_left (to_server (tm_opt (tp_multi p))) (f (prim_at m i)) \<le> work_left (to_server (tm_opt (tp_multi p))) (proc_key i p)"
  shows "step_ok i p (upd_key i f (p\<lparr>tp_multi := m\<rparr>)) fl"
  using assms core_keyD [OF assms(2,1)] by (simp add: step_ok_def)

lemma step_ok_changed:
  assumes "i < length (tm_session (tp_multi p))" "same_core m (tp_multi p)"
    "hs_path (to_server (tm_opt (tp_multi p))) (proc_state i p) (ks_state (f (prim_at m i)))"
    "fl = Go \<Longrightarrow> work_left (to_server (tm_opt (tp_multi p))) (f (prim_at m i)) < work_left (to_server (tm_opt (tp_multi p))) (proc_key i p)"
  shows "step_ok i p (changed (upd_key i f (p\<lparr>tp_multi := m\<rparr>))) fl"
  using assms core_keyD [OF assms(2,1)] by (auto simp: step_ok_def less_imp_le)

lemma step_ok_key:
  assumes "i < length (tm_session (tp_multi p))" "hs_path (to_server (tm_opt (tp_multi p))) (proc_state i p) (ks_state (f (proc_key i p)))"
    "fl = Go \<Longrightarrow> work_left (to_server (tm_opt (tp_multi p))) (f (proc_key i p)) \<le> work_left (to_server (tm_opt (tp_multi p))) (proc_key i p)"
  shows "step_ok i p (upd_key i f p) fl"
  using step_ok_upd [OF assms(1) same_core_refl, of f fl] assms(2,3) by simp

lemma step_ok_key_changed:
  assumes "i < length (tm_session (tp_multi p))" "hs_path (to_server (tm_opt (tp_multi p))) (proc_state i p) (ks_state (f (proc_key i p)))"
    "fl = Go \<Longrightarrow> work_left (to_server (tm_opt (tp_multi p))) (f (proc_key i p)) < work_left (to_server (tm_opt (tp_multi p))) (proc_key i p)"
  shows "step_ok i p (changed (upd_key i f p)) fl"
  using step_ok_changed [OF assms(1) same_core_refl, of f fl] assms(2,3) by simp

lemma step_initial_ok:
  assumes "i < length (tm_session (tp_multi p))" "step_initial local_now i p = Some (p', fl)"
  shows "step_ok i p p' fl"
proof (cases "proc_state i p = S_INITIAL")
  case False
  then show ?thesis using assms(2) by (simp add: step_initial_def)
next
  case True
  then obtain S S1 r where S: "ks_send_reliable (proc_key i p) = Some S" "reliable_get_buf_output_sequenced S = Some (S1, r)"
    using assms(2) by (auto simp: step_initial_def split: bind_splits)
  note c = output_sequenced_counts [OF S(2)]
  show ?thesis
  proof (cases r)
    case None
    then have p': "p' = upd_key i (\<lambda>ks. ks\<lparr>ks_send_reliable := Some S1\<rparr>) p" "fl = Go" using assms(2) True S by (simp_all add: step_initial_def)
    show ?thesis unfolding p' by (rule step_ok_key [OF assms(1)]) (use S c in \<open>simp_all add: work_left_def\<close>)
  next
    case (Some j)
    then obtain S2 where S2: "reliable_mark_active_outgoing S1 j (ks_initial_opcode (proc_key i p)) = Some S2"
      using assms(2) True S by (auto simp: step_initial_def split: bind_splits)
    have n: "n_free (Some S2) + 1 = n_free (Some S)" using mark_outgoing_counts [OF S2] c Some by simp
    have p': "p' = changed (upd_key i (\<lambda>ks. ks\<lparr>ks_send_reliable := Some S2,
        ks_must_negotiate := local_now + to_handshake_window (tm_opt (tp_multi p)),
        ks_auth_deferred_expire := local_now + auth_deferred_expire_window (tm_opt (tp_multi p)), ks_state := S_PRE_START\<rparr>) p)" "fl = Go"
      using assms(2) True S Some S2 by (simp_all add: step_initial_def)
    show ?thesis unfolding p'
      by (rule step_ok_key_changed [OF assms(1)]) (use S n True hs_initial in \<open>auto simp: work_left_def hs_rank_def S_defs\<close>)
  qed
qed

lemma step_timeout_ok:
  assumes "i < length (tm_session (tp_multi p))" "step_timeout local_now i p = Some (p', fl)"
  shows "step_ok i p p' fl"
proof (cases "local_now \<ge> ks_must_negotiate (proc_key i p)")
  case False
  then show ?thesis using assms(2) by (simp add: step_timeout_def)
next
  case True
  show ?thesis
  proof (cases "proc_state i p < S_ACTIVE")
    case True
    then show ?thesis using assms \<open>local_now \<ge> _\<close> by (auto simp: step_timeout_def step_ok_def)
  next
    case False
    then have p': "p' = upd_key i (\<lambda>ks. ks\<lparr>ks_state := S_NORMAL_OP, ks_must_negotiate := 0\<rparr>) p" "fl = Go"
      using assms(2) True by (simp_all add: step_timeout_def)
    show ?thesis unfolding p'
      by (rule step_ok_key [OF assms(1)]) (use False hs_normal in \<open>auto simp: work_left_def hs_rank_def S_defs\<close>)
  qed
qed

lemma step_start_ok:
  assumes "i < length (tm_session (tp_multi p))" "step_start i p = Some (p', fl)"
  shows "step_ok i p p' fl"
proof (cases "proc_state i p = S_PRE_START \<and> full_sync (proc_key i p) = Some True")
  case False
  then show ?thesis using assms(2) by (auto simp: step_start_def split: bind_splits if_splits)
next
  case True
  then have p': "p' = changed (upd_key i (\<lambda>ks. ks\<lparr>ks_state := S_START\<rparr>) p)" "fl = Go" using assms(2) by (simp_all add: step_start_def)
  show ?thesis unfolding p'
    by (rule step_ok_key_changed [OF assms(1)]) (use True hs_start in \<open>auto simp: work_left_def hs_rank_def S_defs\<close>)
qed

lemma step_ok_core:
  assumes "i < length (tm_session (tp_multi p))" "same_core (tp_multi q) (tp_multi p)" "tp_to_link q = tp_to_link p"
    "tp_to_link_addr q = tp_to_link_addr p" "tp_change q = tp_change p" "tp_active q = tp_active p"
  shows "step_ok i p q fl"
  using assms(3-6) core_keyD [OF assms(2,1)] core_key_work [of "proc_key i q" "proc_key i p"] by (simp add: step_ok_def)

lemma step_active_ok:
  assumes "i < length (tm_session (tp_multi p))" "step_active lib local_now i p = Some (p', fl)"
  shows "step_ok i p p' fl"
proof (cases "(proc_state i p = S_GOT_KEY \<and> \<not> to_server (tm_opt (tp_multi p)) \<or> proc_state i p = S_SENT_KEY \<and> to_server (tm_opt (tp_multi p))) \<and>
    full_sync (proc_key i p) = Some True")
  case False
  then show ?thesis using assms(2) by (auto simp: step_active_def Let_def split: bind_splits if_splits)
next
  case True
  define p1 where "p1 = changed (upd_key i (\<lambda>ks. ks\<lparr>ks_established := local_now, ks_state := S_ACTIVE\<rparr>) p)"
  define p2 where "p2 = p1\<lparr>tp_outgoing_addr := Some (ks_remote_addr (proc_key i p1))\<rparr>"
  obtain m where m: "flush_payload_buffer lib i (ks_paybuf (proc_key i p2)) (tp_multi p2) = Some m" "p' = p2\<lparr>tp_multi := m\<rparr>" "fl = Go"
    using assms(2) True unfolding step_active_def Let_def p1_def [symmetric] p2_def [symmetric] by (auto split: bind_splits)
  have "step_ok i p p1 Go" unfolding p1_def
    by (rule step_ok_key_changed [OF assms(1)])
      (use True hs_client_active hs_server_active in \<open>auto simp: work_left_def hs_rank_def S_defs\<close>)
  moreover have "step_ok i p1 p' Go"
    by (rule step_ok_core) (use assms(1) core_flush [OF m(1) same_core_refl] in \<open>simp_all add: m(2) p2_def p1_def\<close>)
  ultimately show ?thesis using step_ok_trans m(3) by blast
qed

lemma link_packet_ok:
  assumes "i < length (tm_session (tp_multi p))" "b_len (tp_to_link p) = 0"
  shows "step_ok i p (changed (link_packet i r p)) Break"
  using assms by (cases r) (simp add: step_ok_def link_packet_def link_ok_def)

lemma step_send_ok:
  assumes "i < length (tm_session (tp_multi p))" "step_send local_now i p = Some (p', fl)"
  shows "step_ok i p p' fl"
proof (cases "b_len (tp_to_link p) = 0 \<and> (\<exists>S. ks_send_reliable (proc_key i p) = Some S \<and> reliable_can_send local_now S)")
  case False
  then show ?thesis using assms(2) by (auto simp: step_send_def split: bind_splits if_splits)
next
  case True
  then obtain S where S: "b_len (tp_to_link p) = 0" "ks_send_reliable (proc_key i p) = Some S" "reliable_can_send local_now S" by blast
  obtain S1 j opcode where S1: "reliable_send local_now S = (S1, Some (j, opcode))"
    using assms(2) S by (cases "reliable_send local_now S") (auto simp: step_send_def split: option.splits)
  define p1 where "p1 = upd_key i (\<lambda>ks. ks\<lparr>ks_send_reliable := Some S1\<rparr>) p"
  obtain r where r: "p' = changed (link_packet i r p1)" "fl = Break"
    using assms(2) S S1 by (auto simp: step_send_def p1_def Let_def split: bind_splits)
  have "step_ok i p p1 Go" unfolding p1_def
    by (rule step_ok_key [OF assms(1)]) (use S send_counts [OF S1] in \<open>auto simp: work_left_def\<close>)
  moreover have "step_ok i p1 p' Break" unfolding r by (rule link_packet_ok) (use assms(1) S(1) in \<open>simp_all add: p1_def\<close>)
  ultimately show ?thesis using step_ok_trans r(2) by blast
qed

lemma key_state_write_len:
  assumes "key_state_write wr s buf = Some (s', buf', status)"
  shows "(status = 1 \<longrightarrow> b_len buf' = 0) \<and> (status \<noteq> 1 \<longrightarrow> buf' = buf)"
  using assms by (auto simp: key_state_write_def bio_write_post_def split: bind_splits prod.splits if_splits)

lemma key_state_read_len:
  assumes "key_state_read rd s buf n = Some (s', buf', status)" "b_len buf = 0"
  shows "b_len buf' \<noteq> 0 \<longleftrightarrow> status = 1"
  using assms by (auto simp: key_state_read_def bio_read_def Let_def split: bind_splits bio_result.splits if_splits)

lemma sequenced_active: "reliable_get_buf_sequenced R = Some j \<Longrightarrow> j < length (rel_entries R) \<and> e_active (r_array R ! j)"
  using first_entry_Some unfolding reliable_get_buf_sequenced_def by fastforce

lemma set_ssl_key:
  assumes "i < length (tm_session m)"
  shows "ks_state (prim_at (set_ssl lib i s m) i) = ks_state (prim_at m i)"
    "ks_send_reliable (prim_at (set_ssl lib i s m) i) = ks_send_reliable (prim_at m i)"
    "ks_rec_reliable (prim_at (set_ssl lib i s m) i) = ks_rec_reliable (prim_at m i)"
    "ks_rec_ack (prim_at (set_ssl lib i s m) i) = ks_rec_ack (prim_at m i)"
    "ks_plaintext_read_buf (prim_at (set_ssl lib i s m) i) = ks_plaintext_read_buf (prim_at m i)"
    "ks_plaintext_write_buf (prim_at (set_ssl lib i s m) i) = ks_plaintext_write_buf (prim_at m i)"
    "ks_session_id_remote (prim_at (set_ssl lib i s m) i) = ks_session_id_remote (prim_at m i)"
    "ks_remote_addr (prim_at (set_ssl lib i s m) i) = ks_remote_addr (prim_at m i)"
  using set_ssl_simps(3) [OF assms, of lib s] by (simp_all add: core_key_def)

lemma step_incoming_ok:
  assumes "i < length (tm_session (tp_multi p))" "step_incoming lib i p = Some (p', fl)"
  shows "step_ok i p p' fl"
proof -
  obtain R where R: "ks_rec_reliable (proc_key i p) = Some R" using assms(2) by (auto simp: step_incoming_def split: bind_splits)
  show ?thesis
  proof (cases "reliable_get_buf_sequenced R")
    case None
    then show ?thesis using assms(2) R by (simp add: step_incoming_def)
  next
    case (Some j)
    note j = sequenced_active [OF Some]
    obtain s buf status where w: "(if b_len (e_buf (r_array R ! j)) \<noteq> 0 then do {
               s \<leftarrow> ks_ssl (proc_key i p);
               key_state_write_ciphertext lib s (e_buf (r_array R ! j))
             } else Some (None, e_buf (r_array R ! j), 1)) = Some (s, buf, status)"
      using assms(2) R Some by (auto simp: step_incoming_def split: bind_splits)
    define R1 where "R1 = rel_upd R j (\<lambda>e. e\<lparr>e_buf := buf\<rparr>)"
    define p1 where "p1 = upd_key i (\<lambda>ks. ks\<lparr>ks_rec_reliable := Some R1\<rparr>) (p\<lparr>tp_multi := set_ssl lib i s (tp_multi p)\<rparr>)"
    have run: "(if status = -1 then Some (p1, Failed)
          else if status = 1 then do {
            rec \<leftarrow> reliable_mark_deleted R1 j True;
            Some (changed (upd_key i (\<lambda>ks. ks\<lparr>ks_rec_reliable := Some rec\<rparr>) p1), Go)
          } else Some (p1, Go)) = Some (p', fl)"
      using assms(2) unfolding step_incoming_def R Some Option.bind.bind_lunit option.case w prod.case Let_def R1_def [symmetric] p1_def [symmetric] .
    have n: "n_active (Some R1) = n_active (Some R)" "e_active (r_array R1 ! j)"
      using n_active_upd [of j R "\<lambda>e. e\<lparr>e_buf := buf\<rparr>"] j by (simp_all add: R1_def)
    have p1: "step_ok i p p1 fl'" for fl' unfolding p1_def
      by (rule step_ok_upd [OF assms(1) set_ssl_core]) (use assms(1) R n in \<open>simp_all add: set_ssl_key work_left_def\<close>)
    have l1: "i < length (tm_session (tp_multi p1))" "ks_rec_reliable (proc_key i p1) = Some R1" using assms(1) by (simp_all add: p1_def)
    show ?thesis
    proof (cases "status = 1")
      case False
      then show ?thesis using run p1 by (auto split: if_splits)
    next
      case True
      then obtain R2 where R2: "reliable_mark_deleted R1 j True = Some R2" "p' = changed (upd_key i (\<lambda>ks. ks\<lparr>ks_rec_reliable := Some R2\<rparr>) p1)" "fl = Go"
        using run by (auto split: bind_splits)
      have "step_ok i p1 p' Go" unfolding R2(2)
        by (rule step_ok_key_changed [OF l1(1)]) (use l1(2) mark_deleted_counts [OF R2(1) n(2)] in \<open>simp_all add: work_left_def\<close>)
      then show ?thesis using step_ok_trans [OF p1] R2(3) by blast
    qed
  qed
qed

lemma step_read_plaintext_ok:
  assumes "i < length (tm_session (tp_multi p))" "step_read_plaintext lib i p = Some (p', fl)"
  shows "step_ok i p p' fl"
proof (cases "b_len (ks_plaintext_read_buf (proc_key i p)) = 0")
  case False
  then show ?thesis using assms(2) by (simp add: step_read_plaintext_def Let_def)
next
  case True
  obtain b1 s0 s b2 status where r: "buf_init (ks_plaintext_read_buf (proc_key i p)) 0 = (b1, True)" "ks_ssl (proc_key i p) = Some s0"
    "key_state_read_plaintext lib s0 b1 TLS_CHANNEL_BUF_SIZE = Some (s, b2, status)"
    using assms(2) True by (auto simp: step_read_plaintext_def Let_def split: bind_splits prod.splits)
  define q where "q = (\<lambda>p. upd_key i (\<lambda>ks. ks\<lparr>ks_plaintext_read_buf := b2\<rparr>) (p\<lparr>tp_multi := set_ssl lib i s (tp_multi p)\<rparr>))"
  have p': "(p', fl) = (if status = -1 then (q p, Failed) else if status = 1 then (changed ((q p)\<lparr>tp_wakeup := 0\<rparr>), Go) else (q p, Go))"
    using assms(2) True r by (auto simp: step_read_plaintext_def Let_def q_def)
  have "b_len b1 = 0" using r(1) by (auto simp: buf_init_def split: if_splits)
  then have b2: "waits b2 = (if status = 1 then 1 else 0)" "waits (ks_plaintext_read_buf (proc_key i p)) = 0"
    using key_state_read_len [OF r(3) [unfolded key_state_read_plaintext_def]] True by (auto simp: waits_def)
  have q: "step_ok i p (q p) fl'" for fl' unfolding q_def
    by (rule step_ok_upd [OF assms(1) set_ssl_core]) (use assms(1) b2 in \<open>simp_all add: set_ssl_key work_left_def\<close>)
  show ?thesis
  proof (cases "status = 1")
    case False
    then show ?thesis using p' q by (auto split: if_splits)
  next
    case True
    have "step_ok i (p\<lparr>tp_wakeup := 0\<rparr>) (changed (q (p\<lparr>tp_wakeup := 0\<rparr>))) Go" unfolding q_def
      by (rule step_ok_changed) (use assms(1) b2 True set_ssl_core in \<open>auto simp: set_ssl_key work_left_def\<close>)
    moreover have "(q p)\<lparr>tp_wakeup := 0\<rparr> = q (p\<lparr>tp_wakeup := 0\<rparr>)" by (simp add: q_def upd_key_def)
    moreover have "step_ok i p (p\<lparr>tp_wakeup := 0\<rparr>) Go" by (simp add: step_ok_def)
    ultimately show ?thesis using p' True step_ok_trans by auto
  qed
qed

lemma core_key_fields:
  assumes "same_core m' m" "i < length (tm_session m)"
  shows "ks_state (prim_at m' i) = ks_state (prim_at m i)" "ks_send_reliable (prim_at m' i) = ks_send_reliable (prim_at m i)"
    "ks_rec_reliable (prim_at m' i) = ks_rec_reliable (prim_at m i)" "ks_rec_ack (prim_at m' i) = ks_rec_ack (prim_at m i)"
    "ks_plaintext_read_buf (prim_at m' i) = ks_plaintext_read_buf (prim_at m i)"
    "ks_plaintext_write_buf (prim_at m' i) = ks_plaintext_write_buf (prim_at m i)"
    "ks_session_id_remote (prim_at m' i) = ks_session_id_remote (prim_at m i)" "ks_remote_addr (prim_at m' i) = ks_remote_addr (prim_at m i)"
  using core_keyD(3) [OF assms] by (simp_all add: core_key_def)

lemma upd_key_upd_key: "i < length (tm_session (tp_multi p)) \<Longrightarrow> upd_key i g (upd_key i f p) = upd_key i (\<lambda>ks. g (f ks)) p"
  by (simp add: upd_key_def upd_prim_def upd_ses_def)

lemma step_send_key_ok:
  assumes "i < length (tm_session (tp_multi p))" "step_send_key km i p = Some (p', fl)"
  shows "step_ok i p p' fl"
proof (cases "b_len (ks_plaintext_write_buf (proc_key i p)) = 0 \<and>
    (proc_state i p = S_START \<and> \<not> to_server (tm_opt (tp_multi p)) \<or> proc_state i p = S_GOT_KEY \<and> to_server (tm_opt (tp_multi p)))")
  case False
  then show ?thesis using assms(2) by (auto simp: step_send_key_def Let_def)
next
  case True
  obtain m buf ok where w: "(if to_key_method (tm_opt (tp_multi p)) = 1 then key_method_1_write km (ks_plaintext_write_buf (proc_key i p)) (tp_multi p) i
      else if to_key_method (tm_opt (tp_multi p)) = 2 then key_method_2_write km (ks_plaintext_write_buf (proc_key i p)) (tp_multi p) i
      else None) = Some (m, buf, ok)"
    using assms(2) True unfolding step_send_key_def Let_def by (auto split: bind_splits)
  have m: "same_core m (tp_multi p)" using w core_key1_write core_key2_write by (auto split: if_splits)
  have l: "i < length (tm_session m)" using core_keyD(1) [OF m assms(1)] assms(1) by simp
  define q where "q = upd_key i (\<lambda>ks. ks\<lparr>ks_plaintext_write_buf := buf\<rparr>) (p\<lparr>tp_multi := m\<rparr>)"
  have p': "(p', fl) = (if \<not> ok then (q, Failed) else (changed (upd_key i (\<lambda>ks. ks\<lparr>ks_state := S_SENT_KEY\<rparr>) q), Go))"
    using assms(2) True w unfolding step_send_key_def Let_def q_def by auto
  show ?thesis
  proof (cases ok)
    case False
    have "step_ok i p q Failed" unfolding q_def
      by (rule step_ok_upd [OF assms(1) m]) (simp_all add: core_key_fields [OF m assms(1)])
    then show ?thesis using p' False by simp
  next
    case True
    have q': "upd_key i (\<lambda>ks. ks\<lparr>ks_state := S_SENT_KEY\<rparr>) q = upd_key i (\<lambda>ks. ks\<lparr>ks_plaintext_write_buf := buf, ks_state := S_SENT_KEY\<rparr>) (p\<lparr>tp_multi := m\<rparr>)"
      unfolding q_def by (rule upd_key_upd_key) (use l in simp)
    have "waits buf \<le> 1" by (simp add: waits_def)
    then have "step_ok i p (changed (upd_key i (\<lambda>ks. ks\<lparr>ks_plaintext_write_buf := buf, ks_state := S_SENT_KEY\<rparr>) (p\<lparr>tp_multi := m\<rparr>))) Go"
      by (intro step_ok_changed [OF assms(1) m])
        (use \<open>b_len _ = 0 \<and> _\<close> hs_client_sends hs_server_sends in \<open>auto simp: core_key_fields [OF m assms(1)] work_left_def hs_rank_def S_defs\<close>)
    then show ?thesis using p' True q' by simp
  qed
qed

lemma step_receive_key_ok:
  assumes "i < length (tm_session (tp_multi p))" "step_receive_key km local_now i p = Some (p', fl)"
  shows "step_ok i p p' fl"
proof (cases "b_len (ks_plaintext_read_buf (proc_key i p)) \<noteq> 0 \<and>
    (proc_state i p = S_SENT_KEY \<and> \<not> to_server (tm_opt (tp_multi p)) \<or> proc_state i p = S_START \<and> to_server (tm_opt (tp_multi p)))")
  case False
  then show ?thesis using assms(2) by (auto simp: step_receive_key_def Let_def)
next
  case True
  obtain m buf ok where w: "(if to_key_method (tm_opt (tp_multi p)) = 1 then key_method_1_read (ks_plaintext_read_buf (proc_key i p)) (tp_multi p) i
      else if to_key_method (tm_opt (tp_multi p)) = 2 then key_method_2_read km local_now (ks_plaintext_read_buf (proc_key i p)) (tp_multi p) i
      else None) = Some (m, buf, ok)"
    using assms(2) True unfolding step_receive_key_def Let_def by (auto split: bind_splits)
  have m: "same_core m (tp_multi p)" using w by (auto split: if_splits dest: core_key1_read core_key2_read)
  have l: "i < length (tm_session m)" using core_keyD(1) [OF m assms(1)] assms(1) by simp
  define q where "q = upd_key i (\<lambda>ks. ks\<lparr>ks_plaintext_read_buf := buf\<rparr>) (p\<lparr>tp_multi := m\<rparr>)"
  have p': "(p', fl) = (if \<not> ok then (q, Failed) else (changed (upd_key i (\<lambda>ks. ks\<lparr>ks_state := S_GOT_KEY\<rparr>) q), Go))"
    using assms(2) True w unfolding step_receive_key_def Let_def q_def by auto
  show ?thesis
  proof (cases ok)
    case False
    have "step_ok i p q Failed" unfolding q_def
      by (rule step_ok_upd [OF assms(1) m]) (simp_all add: core_key_fields [OF m assms(1)])
    then show ?thesis using p' False by simp
  next
    case ok: True
    have q': "upd_key i (\<lambda>ks. ks\<lparr>ks_state := S_GOT_KEY\<rparr>) q = upd_key i (\<lambda>ks. ks\<lparr>ks_plaintext_read_buf := buf, ks_state := S_GOT_KEY\<rparr>) (p\<lparr>tp_multi := m\<rparr>)"
      unfolding q_def by (rule upd_key_upd_key) (use l in simp)
    have "step_ok i p (changed (upd_key i (\<lambda>ks. ks\<lparr>ks_plaintext_read_buf := buf, ks_state := S_GOT_KEY\<rparr>) (p\<lparr>tp_multi := m\<rparr>))) Go"
      by (intro step_ok_changed [OF assms(1) m])
        (use True hs_client_gets hs_server_gets in \<open>auto simp: core_key_fields [OF m assms(1)] work_left_def hs_rank_def S_defs\<close>)
    then show ?thesis using p' ok q' by simp
  qed
qed

lemma step_write_plaintext_ok:
  assumes "i < length (tm_session (tp_multi p))" "step_write_plaintext lib i p = Some (p', fl)"
  shows "step_ok i p p' fl"
proof (cases "b_len (ks_plaintext_write_buf (proc_key i p)) = 0")
  case True
  then show ?thesis using assms(2) by (simp add: step_write_plaintext_def Let_def)
next
  case False
  obtain s0 s b2 status where r: "ks_ssl (proc_key i p) = Some s0"
    "key_state_write_plaintext lib s0 (ks_plaintext_write_buf (proc_key i p)) = Some (s, b2, status)"
    using assms(2) False by (auto simp: step_write_plaintext_def Let_def split: bind_splits prod.splits)
  define q where "q = upd_key i (\<lambda>ks. ks\<lparr>ks_plaintext_write_buf := b2\<rparr>) (p\<lparr>tp_multi := set_ssl lib i s (tp_multi p)\<rparr>)"
  have p': "(p', fl) = (if status = -1 then (q, Failed) else if status = 1 then (changed q, Go) else (q, Go))"
    using assms(2) False r by (auto simp: step_write_plaintext_def Let_def q_def)
  have b2: "waits b2 + (if status = 1 then 1 else 0) = 1" "waits (ks_plaintext_write_buf (proc_key i p)) = 1"
    using key_state_write_len [OF r(2) [unfolded key_state_write_plaintext_def]] False by (auto simp: waits_def)
  show ?thesis
  proof (cases "status = 1")
    case False
    have "step_ok i p q fl'" for fl' unfolding q_def
      by (rule step_ok_upd [OF assms(1) set_ssl_core]) (use assms(1) b2 in \<open>auto simp: set_ssl_key work_left_def split: if_splits\<close>)
    then show ?thesis using p' False by (auto split: if_splits)
  next
    case True
    have "step_ok i p (changed q) Go" unfolding q_def
      by (rule step_ok_changed [OF assms(1) set_ssl_core]) (use assms(1) b2 True in \<open>auto simp: set_ssl_key work_left_def\<close>)
    then show ?thesis using p' True by simp
  qed
qed

lemma step_outgoing_ok:
  assumes "i < length (tm_session (tp_multi p))" "step_outgoing lib i p = Some (p', fl)"
  shows "step_ok i p p' fl"
proof (cases "proc_state i p \<ge> S_START")
  case False
  then show ?thesis using assms(2) by (simp add: step_outgoing_def)
next
  case True
  obtain S S1 r where S: "ks_send_reliable (proc_key i p) = Some S" "reliable_get_buf_output_sequenced S = Some (S1, r)"
    using assms(2) True by (auto simp: step_outgoing_def split: bind_splits)
  note c = output_sequenced_counts [OF S(2)]
  show ?thesis
  proof (cases r)
    case None
    then have p': "p' = upd_key i (\<lambda>ks. ks\<lparr>ks_send_reliable := Some S1\<rparr>) p" "fl = Go" using assms(2) True S by (simp_all add: step_outgoing_def)
    show ?thesis unfolding p' by (rule step_ok_key [OF assms(1)]) (use S c in \<open>simp_all add: work_left_def\<close>)
  next
    case (Some j)
    then have j: "j < length (rel_entries S1)" "\<not> e_active (r_array S1 ! j)" using c by auto
    obtain s0 s buf status where r: "ks_ssl (proc_key i p) = Some s0"
      "key_state_read_ciphertext lib s0 (e_buf (r_array S1 ! j)) (PAYLOAD_SIZE_DYNAMIC (to_frame (tm_opt (tp_multi p)))) = Some (s, buf, status)"
      using assms(2) True S Some by (auto simp: step_outgoing_def split: bind_splits)
    define S2 where "S2 = rel_upd S1 j (\<lambda>e. e\<lparr>e_buf := buf\<rparr>)"
    have n: "n_free (Some S2) = n_free (Some S)" "\<not> e_active (r_array S2 ! j)"
      using n_free_upd [of j S1 "\<lambda>e. e\<lparr>e_buf := buf\<rparr>"] j c by (simp_all add: S2_def)
    define p1 where "p1 = upd_key i (\<lambda>ks. ks\<lparr>ks_send_reliable := Some S2\<rparr>) (p\<lparr>tp_multi := set_ssl lib i s (tp_multi p)\<rparr>)"
    have run: "(if status = -1 then Some (p1, Failed)
             else if status = 1 then do {
               snd \<leftarrow> reliable_mark_active_outgoing S2 j P_CONTROL_V1;
               Some (changed (upd_key i (\<lambda>ks. ks\<lparr>ks_send_reliable := Some snd\<rparr>) p1), Go)
             } else Some (p1, Go)) = Some (p', fl)"
      using assms(2) True unfolding step_outgoing_def S Some r Option.bind.bind_lunit option.case prod.case Let_def S2_def [symmetric] p1_def [symmetric] by simp
    have p1: "step_ok i p p1 fl'" for fl' unfolding p1_def
      by (rule step_ok_upd [OF assms(1) set_ssl_core]) (use assms(1) S n in \<open>simp_all add: set_ssl_key work_left_def\<close>)
    have l1: "i < length (tm_session (tp_multi p1))" "ks_send_reliable (proc_key i p1) = Some S2" using assms(1) by (simp_all add: p1_def)
    show ?thesis
    proof (cases "status = 1")
      case False
      then show ?thesis using run p1 by (auto split: if_splits)
    next
      case True
      then obtain S3 where S3: "reliable_mark_active_outgoing S2 j P_CONTROL_V1 = Some S3"
        "p' = changed (upd_key i (\<lambda>ks. ks\<lparr>ks_send_reliable := Some S3\<rparr>) p1)" "fl = Go"
        using run by (auto split: bind_splits)
      have "step_ok i p1 p' Go" unfolding S3(2)
        by (rule step_ok_key_changed [OF l1(1)]) (use l1(2) mark_outgoing_counts [OF S3(1) n(2)] in \<open>simp_all add: work_left_def\<close>)
      then show ?thesis using step_ok_trans [OF p1] S3(3) by blast
    qed
  qed
qed

lemma tls_round_ok:
  assumes "i < length (tm_session (tp_multi p))" "tls_round env n i p = Some (p', fl)"
  shows "step_ok i (p\<lparr>tp_change := False\<rparr>) p' fl"
proof (rule run_steps_ok)
  show "run_steps (round_steps env n i) (p\<lparr>tp_change := False\<rparr>) = Some (p', fl)" using assms(2) unfolding tls_round_def .
qed (use assms(1) in \<open>simp_all add: round_steps_def Let_def step_initial_ok step_timeout_ok step_start_ok step_active_ok step_send_ok step_incoming_ok
    step_read_plaintext_ok step_send_key_ok step_receive_key_ok step_write_plaintext_ok step_outgoing_ok\<close>)

subsection \<open>One step, one move\<close>

text \<open>
  A step of the loop leaves the state of the key or takes one step of the negotiation. The key material goes out or is taken
  only in the turn of the role; a half of the key is only taken when the peer has sent text; and the key starts, and becomes active, only when
  everything sent before is acknowledged.
\<close>

definition moves_ok :: "nat \<Rightarrow> 's tls_proc \<Rightarrow> 's tls_proc \<Rightarrow> bool" where
  "moves_ok i p p' \<longleftrightarrow> proc_state i p' = proc_state i p \<or>
     hs_step (to_server (tm_opt (tp_multi p))) (proc_state i p) (proc_state i p') \<and>
     (proc_state i p' = S_GOT_KEY \<longrightarrow> b_len (ks_plaintext_read_buf (proc_key i p)) \<noteq> 0) \<and>
     (proc_state i p' = S_SENT_KEY \<longrightarrow> b_len (ks_plaintext_write_buf (proc_key i p)) = 0) \<and>
     (proc_state i p' = S_START \<or> proc_state i p' = S_ACTIVE \<longrightarrow> full_sync (proc_key i p) = Some True)"

lemma moves_same: "proc_state i p' = proc_state i p \<Longrightarrow> moves_ok i p p'" by (simp add: moves_ok_def)

lemma link_packet_state [simp]:
  "i < length (tm_session (tp_multi p)) \<Longrightarrow> proc_state i (link_packet i r p) = proc_state i p"
  by (cases r) (simp add: link_packet_def)

lemma step_initial_moves:
  assumes "i < length (tm_session (tp_multi p))" "step_initial local_now i p = Some (p', fl)"
  shows "moves_ok i p p'"
  using assms hs_initial
  by (auto simp: step_initial_def moves_ok_def S_defs split: if_splits bind_splits option.splits)

lemma step_timeout_moves:
  assumes "i < length (tm_session (tp_multi p))" "step_timeout local_now i p = Some (p', fl)"
  shows "moves_ok i p p'"
  using assms hs_normal
  by (auto simp: step_timeout_def moves_ok_def S_defs split: if_splits)

lemma step_start_moves:
  assumes "i < length (tm_session (tp_multi p))" "step_start i p = Some (p', fl)"
  shows "moves_ok i p p'"
  using assms hs_start
  by (auto simp: step_start_def moves_ok_def S_defs split: if_splits bind_splits)

lemma step_active_moves:
  assumes "i < length (tm_session (tp_multi p))" "step_active lib local_now i p = Some (p', fl)"
  shows "moves_ok i p p'"
proof (cases "p' = p")
  case False
  define p1 where "p1 = changed (upd_key i (\<lambda>ks. ks\<lparr>ks_established := local_now, ks_state := S_ACTIVE\<rparr>) p)"
  define p2 where "p2 = p1\<lparr>tp_outgoing_addr := Some (ks_remote_addr (proc_key i p1))\<rparr>"
  have turn: "proc_state i p = S_GOT_KEY \<and> \<not> to_server (tm_opt (tp_multi p)) \<or> proc_state i p = S_SENT_KEY \<and> to_server (tm_opt (tp_multi p))"
    "full_sync (proc_key i p) = Some True"
    using assms(2) False by (auto simp: step_active_def Let_def split: bind_splits if_splits)
  then obtain m where m: "flush_payload_buffer lib i (ks_paybuf (proc_key i p2)) (tp_multi p2) = Some m" "p' = p2\<lparr>tp_multi := m\<rparr>"
    using assms(2) unfolding step_active_def Let_def p1_def [symmetric] p2_def [symmetric] by (auto split: bind_splits)
  have l: "i < length (tm_session (tp_multi p2))" using assms(1) by (simp add: p1_def p2_def)
  have "proc_state i p' = S_ACTIVE"
    using core_key_fields(1) [OF core_flush [OF m(1) same_core_refl] l] assms(1) by (simp add: m(2) p2_def p1_def)
  then show ?thesis using turn hs_client_active hs_server_active by (auto simp: moves_ok_def S_defs)
qed (simp add: moves_same)

lemma step_send_moves:
  assumes "i < length (tm_session (tp_multi p))" "step_send local_now i p = Some (p', fl)"
  shows "moves_ok i p p'"
  using assms by (intro moves_same) (auto simp: step_send_def Let_def split: if_splits bind_splits option.splits prod.splits)

lemma step_incoming_moves:
  assumes "i < length (tm_session (tp_multi p))" "step_incoming lib i p = Some (p', fl)"
  shows "moves_ok i p p'"
  using assms
  by (intro moves_same) (auto simp: step_incoming_def Let_def set_ssl_key split: if_splits bind_splits option.splits prod.splits)

lemma step_read_plaintext_moves:
  assumes "i < length (tm_session (tp_multi p))" "step_read_plaintext lib i p = Some (p', fl)"
  shows "moves_ok i p p'"
  using assms
  by (intro moves_same) (auto simp: step_read_plaintext_def Let_def set_ssl_key split: if_splits bind_splits prod.splits)

lemma step_send_key_moves:
  assumes "i < length (tm_session (tp_multi p))" "step_send_key km i p = Some (p', fl)"
  shows "moves_ok i p p'"
proof (cases "b_len (ks_plaintext_write_buf (proc_key i p)) = 0 \<and>
    (proc_state i p = S_START \<and> \<not> to_server (tm_opt (tp_multi p)) \<or> proc_state i p = S_GOT_KEY \<and> to_server (tm_opt (tp_multi p)))")
  case False
  then show ?thesis using assms(2) by (auto simp: step_send_key_def Let_def intro: moves_same)
next
  case True
  obtain m buf ok where w: "(if to_key_method (tm_opt (tp_multi p)) = 1 then key_method_1_write km (ks_plaintext_write_buf (proc_key i p)) (tp_multi p) i
      else if to_key_method (tm_opt (tp_multi p)) = 2 then key_method_2_write km (ks_plaintext_write_buf (proc_key i p)) (tp_multi p) i
      else None) = Some (m, buf, ok)"
    using assms(2) True unfolding step_send_key_def Let_def by (auto split: bind_splits)
  have m: "same_core m (tp_multi p)" using w core_key1_write core_key2_write by (auto split: if_splits)
  have l: "i < length (tm_session m)" using core_keyD(1) [OF m assms(1)] assms(1) by simp
  have "proc_state i p' = (if ok then S_SENT_KEY else proc_state i p)"
    using assms(2) True w l core_key_fields(1) [OF m assms(1)] unfolding step_send_key_def Let_def by auto
  then show ?thesis using True hs_client_sends hs_server_sends by (auto simp: moves_ok_def S_defs)
qed

lemma step_receive_key_moves:
  assumes "i < length (tm_session (tp_multi p))" "step_receive_key km local_now i p = Some (p', fl)"
  shows "moves_ok i p p'"
proof (cases "b_len (ks_plaintext_read_buf (proc_key i p)) \<noteq> 0 \<and>
    (proc_state i p = S_SENT_KEY \<and> \<not> to_server (tm_opt (tp_multi p)) \<or> proc_state i p = S_START \<and> to_server (tm_opt (tp_multi p)))")
  case False
  then show ?thesis using assms(2) by (auto simp: step_receive_key_def Let_def intro: moves_same)
next
  case True
  obtain m buf ok where w: "(if to_key_method (tm_opt (tp_multi p)) = 1 then key_method_1_read (ks_plaintext_read_buf (proc_key i p)) (tp_multi p) i
      else if to_key_method (tm_opt (tp_multi p)) = 2 then key_method_2_read km local_now (ks_plaintext_read_buf (proc_key i p)) (tp_multi p) i
      else None) = Some (m, buf, ok)"
    using assms(2) True unfolding step_receive_key_def Let_def by (auto split: bind_splits)
  have m: "same_core m (tp_multi p)" using w by (auto split: if_splits dest: core_key1_read core_key2_read)
  have l: "i < length (tm_session m)" using core_keyD(1) [OF m assms(1)] assms(1) by simp
  have "proc_state i p' = (if ok then S_GOT_KEY else proc_state i p)"
    using assms(2) True w l core_key_fields(1) [OF m assms(1)] unfolding step_receive_key_def Let_def by auto
  then show ?thesis using True hs_client_gets hs_server_gets by (auto simp: moves_ok_def S_defs)
qed

lemma step_write_plaintext_moves:
  assumes "i < length (tm_session (tp_multi p))" "step_write_plaintext lib i p = Some (p', fl)"
  shows "moves_ok i p p'"
  using assms
  by (intro moves_same) (auto simp: step_write_plaintext_def Let_def set_ssl_key split: if_splits bind_splits prod.splits)

lemma step_outgoing_moves:
  assumes "i < length (tm_session (tp_multi p))" "step_outgoing lib i p = Some (p', fl)"
  shows "moves_ok i p p'"
  using assms
  by (intro moves_same) (auto simp: step_outgoing_def Let_def set_ssl_key split: if_splits bind_splits option.splits prod.splits)

lemma round_steps_move:
  "\<forall>f \<in> set (round_steps env n i). \<forall>q q' fl. i < length (tm_session (tp_multi q)) \<longrightarrow> f q = Some (q', fl) \<longrightarrow> moves_ok i q q'"
  by (simp add: round_steps_def Let_def)
    (blast intro: step_initial_moves step_timeout_moves step_start_moves step_active_moves step_send_moves step_incoming_moves
      step_read_plaintext_moves step_send_key_moves step_receive_key_moves step_write_plaintext_moves step_outgoing_moves)

subsection \<open>The loop ends\<close>

definition loop_ok :: "nat \<Rightarrow> 's tls_proc \<Rightarrow> 's tls_proc \<Rightarrow> bool" where
  "loop_ok i p p' \<longleftrightarrow> length (tm_session (tp_multi p')) = length (tm_session (tp_multi p)) \<and>
     core_opt (tm_opt (tp_multi p')) = core_opt (tm_opt (tp_multi p)) \<and>
     hs_path (to_server (tm_opt (tp_multi p))) (proc_state i p) (proc_state i p') \<and>
     link_ok p p'"

lemma loop_ok_step: "step_ok i (p\<lparr>tp_change := False\<rparr>) p' fl \<Longrightarrow> loop_ok i p p'"
  by (simp add: step_ok_def loop_ok_def link_ok_def)

lemma loop_ok_trans:
  assumes "loop_ok i p p1" "loop_ok i p1 p2"
  shows "loop_ok i p p2"
proof -
  have "core_opt (tm_opt (tp_multi p1)) = core_opt (tm_opt (tp_multi p))" using assms(1) by (simp add: loop_ok_def)
  note srv = core_opt_server [OF this]
  have "hs_path (to_server (tm_opt (tp_multi p))) (proc_state i p) (proc_state i p1)"
    "hs_path (to_server (tm_opt (tp_multi p))) (proc_state i p1) (proc_state i p2)"
    using assms srv by (simp_all add: loop_ok_def)
  then have "hs_path (to_server (tm_opt (tp_multi p))) (proc_state i p) (proc_state i p2)" by (rule rtranclp_trans)
  then show ?thesis using assms srv link_ok_trans [of p p1 p2] by (auto simp: loop_ok_def)
qed

lemma tls_loop_ends:
  assumes "i < length (tm_session (tp_multi p))" "work_left (to_server (tm_opt (tp_multi p))) (proc_key i p) < k"
  shows "tls_loop k env n i p \<noteq> Out_of_rounds \<and> (\<forall>p' n' failed. tls_loop k env n i p = Done (p', n', failed) \<longrightarrow> loop_ok i p p')"
  using assms
proof (induction k arbitrary: n p)
  case (Suc k)
  show ?case
  proof (cases "tls_round env n i p")
    case None
    then show ?thesis by simp
  next
    case (Some r)
    obtain p1 fl where r: "r = (p1, fl)" by (cases r) auto
    have s: "step_ok i (p\<lparr>tp_change := False\<rparr>) p1 fl" using tls_round_ok [OF Suc.prems(1)] Some r by blast
    show ?thesis
    proof (cases "fl = Go \<and> tp_change p1")
      case False
      then show ?thesis using Some r loop_ok_step [OF s] by (cases fl) auto
    next
      case True
      have l: "i < length (tm_session (tp_multi p1))" using s Suc.prems(1) by (simp add: step_ok_def)
      have "core_opt (tm_opt (tp_multi p1)) = core_opt (tm_opt (tp_multi p))" using s by (simp add: step_ok_def)
      note srv = core_opt_server [OF this]
      have "work_left (to_server (tm_opt (tp_multi p1))) (proc_key i p1) < k" using s True Suc.prems(2) srv by (simp add: step_ok_def)
      from Suc.IH [OF l this, of "n + 1"] show ?thesis using Some r True loop_ok_trans [OF loop_ok_step [OF s]] by auto
    qed
  qed
qed simp

text \<open>The arrays of the reliability layer bound the work.\<close>

definition small_key :: "'s key_state \<Rightarrow> bool" where
  "small_key ks \<longleftrightarrow> (\<forall>S. ks_send_reliable ks = Some S \<longrightarrow> r_size S \<le> RELIABLE_CAPACITY) \<and>
     (\<forall>R. ks_rec_reliable ks = Some R \<longrightarrow> r_size R \<le> RELIABLE_CAPACITY)"

lemma length_entries: "length (rel_entries R) \<le> nat (r_size R)" by (simp add: rel_entries_def)

lemma counts_bound: "n_active (Some R) \<le> nat (r_size R)" "n_free (Some R) \<le> nat (r_size R)"
proof -
  have "length (filter P (rel_entries R)) \<le> nat (r_size R)" for P using length_filter_le length_entries by (rule order_trans)
  then show "n_active (Some R) \<le> nat (r_size R)" "n_free (Some R) \<le> nat (r_size R)" by (simp_all add: n_active_def n_free_def)
qed

lemma work_bound:
  assumes "small_key ks"
  shows "work_left server ks < TLS_ROUNDS"
proof -
  have "n_active (ks_rec_reliable ks) \<le> 8"
  proof (cases "ks_rec_reliable ks")
    case (Some R)
    then have "nat (r_size R) \<le> 8" using assms by (auto simp: small_key_def RELIABLE_CAPACITY_def)
    then show ?thesis using Some counts_bound(1) [of R] by simp
  qed (simp add: n_active_def)
  moreover have "n_free (ks_send_reliable ks) \<le> 8"
  proof (cases "ks_send_reliable ks")
    case (Some S)
    then have "nat (r_size S) \<le> 8" using assms by (auto simp: small_key_def RELIABLE_CAPACITY_def)
    then show ?thesis using Some counts_bound(2) [of S] by simp
  qed (simp add: n_free_def)
  moreover have "hs_rank server (ks_state ks) \<le> 5" by (simp add: hs_rank_def)
  moreover have "waits (ks_plaintext_write_buf ks) \<le> 1" by (simp add: waits_def)
  ultimately show ?thesis unfolding work_left_def TLS_ROUNDS_def by linarith
qed

lemma init_sizes:
  assumes "key_state_init lib opt ses = Some (ses', ks)"
  shows "small_key ks \<and> ks_state ks = S_INITIAL"
  using assms
  by (auto simp: key_state_init_def small_key_def reliable_init_def reliable_set_timeout_def Let_def zero_key_state_def split: bind_splits prod.splits)

text \<open>The state from which the negotiation goes on: a soft reset puts a new key in the place of the old one.\<close>

definition hs_begin :: "'s tls_env \<Rightarrow> nat \<Rightarrow> 's tls_proc \<Rightarrow> int" where
  "hs_begin env i p = (if wants_soft_reset (tm_opt (tp_multi p)) (te_clock env 0) (proc_key i p) then S_INITIAL else proc_state i p)"

definition run_ok :: "'s tls_env \<Rightarrow> nat \<Rightarrow> 's tls_proc \<Rightarrow> 's tls_proc \<Rightarrow> bool" where
  "run_ok env i p p' \<longleftrightarrow> length (tm_session (tp_multi p')) = length (tm_session (tp_multi p)) \<and>
     core_opt (tm_opt (tp_multi p')) = core_opt (tm_opt (tp_multi p)) \<and>
     hs_path (to_server (tm_opt (tp_multi p))) (hs_begin env i p) (proc_state i p') \<and>
     link_ok (p\<lparr>tp_active := False\<rparr>) p'"

lemma run_ok_loop:
  assumes "run_ok env i p p1" "loop_ok i p1 p2"
  shows "run_ok env i p p2"
proof -
  have "core_opt (tm_opt (tp_multi p1)) = core_opt (tm_opt (tp_multi p))" using assms(1) by (simp add: run_ok_def)
  note srv = core_opt_server [OF this]
  have "hs_path (to_server (tm_opt (tp_multi p))) (hs_begin env i p) (proc_state i p1)"
    "hs_path (to_server (tm_opt (tp_multi p))) (proc_state i p1) (proc_state i p2)"
    using assms srv by (simp_all add: run_ok_def loop_ok_def)
  then have "hs_path (to_server (tm_opt (tp_multi p))) (hs_begin env i p) (proc_state i p2)" by (rule rtranclp_trans)
  then show ?thesis using assms link_ok_trans [of "p\<lparr>tp_active := False\<rparr>" p1 p2] by (auto simp: run_ok_def loop_ok_def)
qed

lemma process_start_ok:
  assumes "i < length (tm_session (tp_multi p))" "process_start env i p = Some p'" "small_key (proc_key i p)"
  shows "run_ok env i p p' \<and> proc_state i p' = hs_begin env i p \<and> small_key (proc_key i p')"
proof -
  define opt where "opt = tm_opt (tp_multi p)"
  define ses where "ses = ses_at (tp_multi p) i"
  obtain ses1 where ses1: "(if wants_soft_reset opt (te_clock env 0) (ts_primary ses)
      then key_state_soft_reset (te_lib env) opt (te_clock env 0) ses else Some ses) = Some ses1"
    using assms(2) unfolding process_start_def Let_def opt_def ses_def by (auto split: bind_splits)
  obtain ses2 w where p': "p' = p\<lparr>tp_multi := upd_ses i (\<lambda>_. ses2) (tp_multi p), tp_wakeup := w, tp_active := False, tp_change := False\<rparr>"
    "ts_primary ses2 = ts_primary ses1"
    using assms(2) ses1 unfolding process_start_def Let_def opt_def ses_def by (auto split: bind_splits prod.splits)
  have k: "proc_key i p' = ts_primary ses1" using assms(1) p' by simp
  show ?thesis
  proof (cases "wants_soft_reset opt (te_clock env 0) (ts_primary ses)")
    case False
    then show ?thesis using ses1 k p' assms(1,3) by (simp add: run_ok_def hs_begin_def ses_def opt_def)
  next
    case True
    then obtain s2 ks where "key_state_init (te_lib env) opt (ses\<lparr>ts_lame := (ts_primary ses)\<lparr>ks_must_die := te_clock env 0 + to_transition_window opt\<rparr>\<rparr>) = Some (s2, ks)"
      "ts_primary ses1 = ks\<lparr>ks_session_id_remote := ks_session_id_remote (ts_lame s2), ks_remote_addr := ks_remote_addr (ts_lame s2)\<rparr>"
      using ses1 by (auto simp: key_state_soft_reset_def Let_def split: bind_splits)
    with init_sizes have "small_key (ts_primary ses1)" "ks_state (ts_primary ses1) = S_INITIAL" by (fastforce simp: small_key_def)+
    then show ?thesis using k p' assms(1) True by (auto simp: run_ok_def hs_begin_def ses_def opt_def)
  qed
qed

lemma link_packet_loop_ok:
  "i < length (tm_session (tp_multi p)) \<Longrightarrow> b_len (tp_to_link p) = 0 \<Longrightarrow> loop_ok i p (link_packet i r p)"
  by (cases r) (simp add: loop_ok_def link_packet_def link_ok_def)

lemma process_end_ok:
  assumes "i < length (tm_session (tp_multi p))" "process_end local_now i p = Some p'"
  shows "loop_ok i p p' \<and> 1 \<le> tp_wakeup p'"
proof -
  obtain p1 w where p1: "send_ack local_now i p = Some p1" "p' = (if w \<le> 0 then p1\<lparr>tp_wakeup := 1, tp_active := True\<rparr> else p1\<lparr>tp_wakeup := w\<rparr>)"
    using assms(2) by (auto simp: process_end_def split: bind_splits)
  have "p1 = p \<or> (\<exists>r. b_len (tp_to_link p) = 0 \<and> p1 = link_packet i r p)"
    using p1(1) by (auto simp: send_ack_def split: bind_splits prod.splits if_splits)
  then have "loop_ok i p p1" using link_packet_loop_ok [OF assms(1)] by (auto simp: loop_ok_def)
  then show ?thesis using p1(2) by (auto simp: loop_ok_def link_ok_def)
qed

lemma tls_process_run:
  assumes "i < length (tm_session (tp_multi p))" "small_key (proc_key i p)"
  shows "tls_process env i p \<noteq> Out_of_rounds \<and>
    (\<forall>p' active. tls_process env i p = Done (p', active) \<longrightarrow>
       run_ok env i p p' \<and> active = tp_active p' \<and> 1 \<le> tp_wakeup p' \<or>
       (\<exists>p2. run_ok env i p p2 \<and> p' = upd_key i (\<lambda>ks. ks\<lparr>ks_state := S_ERROR\<rparr>) p2 \<and> \<not> active))"
proof (cases "process_start env i p")
  case None
  then show ?thesis by (simp add: tls_process_def run_of_def)
next
  case (Some p1)
  note s1 = process_start_ok [OF assms(1) Some assms(2)]
  then have l1: "i < length (tm_session (tp_multi p1))" using assms(1) by (simp add: run_ok_def)
  have ends: "tls_loop TLS_ROUNDS env 0 i p1 \<noteq> Out_of_rounds" "\<And>p' n failed. tls_loop TLS_ROUNDS env 0 i p1 = Done (p', n, failed) \<Longrightarrow> loop_ok i p1 p'"
    using tls_loop_ends [OF l1 work_bound, of env 0] s1 by blast+
  show ?thesis
  proof (cases "tls_loop TLS_ROUNDS env 0 i p1")
    case (Done r)
    obtain p2 n failed where r: "r = (p2, n, failed)" by (cases r) auto
    have p2: "run_ok env i p p2" using run_ok_loop ends(2) s1 Done r by blast
    then have l2: "i < length (tm_session (tp_multi p2))" using assms(1) by (simp add: run_ok_def)
    show ?thesis
    proof (cases failed)
      case True
      then show ?thesis using Some Done r p2 l2 by (auto simp: tls_process_def run_of_def)
    next
      case False
      show ?thesis
      proof (cases "process_end (te_clock env (2 * n + 3)) i p2")
        case None
        then show ?thesis using Some Done r False by (simp add: tls_process_def run_of_def)
      next
        case (Some p3)
        note e = process_end_ok [OF l2 Some]
        have "run_ok env i p p3" using run_ok_loop [OF p2] e by blast
        then show ?thesis using \<open>process_start env i p = Some p1\<close> Done r False Some e
          by (auto simp: tls_process_def run_of_def)
      qed
    qed
  qed (use Some ends(1) in \<open>simp_all add: tls_process_def run_of_def\<close>)
qed

text \<open>
  C9. The driver of the control channel ends and obeys the protocol. Whatever the TLS library answers, whatever the peer sends and whatever
  the clock shows, the loop of \<open>tls_process\<close> is left after at most 34 rounds. Either the key falls into the error state, and the caller
  is told that there is nothing to send, or the key (the new one, if the call began with a soft reset) has only gone forward in the negotiation, and
  the caller is asked to come back after one second at the earliest. In every round each step of the loop leaves the state of the key or makes one
  move of the negotiation of its role: a client sends its half of the key first, a server only after it got that of the client; a half
  of the key is only taken from text of the peer, and the key starts and becomes active only when everything sent is acknowledged. A
  packet that waits in \<open>to_link\<close> is not overwritten, and if a packet is put there the caller is told.
\<close>

theorem tls_process_ends:
  assumes "i < length (tm_session (tp_multi p))" "small_key (proc_key i p)"
  shows "tls_process env i p \<noteq> Out_of_rounds \<and>
    (\<forall>p' active. tls_process env i p = Done (p', active) \<longrightarrow>
       (b_len (tp_to_link p) \<noteq> 0 \<longrightarrow> tp_to_link p' = tp_to_link p \<and> tp_to_link_addr p' = tp_to_link_addr p) \<and>
       (proc_state i p' = S_ERROR \<and> \<not> active \<or>
        hs_path (to_server (tm_opt (tp_multi p))) (hs_begin env i p) (proc_state i p') \<and> 1 \<le> tp_wakeup p' \<and>
        (b_len (tp_to_link p) = 0 \<and> b_len (tp_to_link p') \<noteq> 0 \<longrightarrow> active))) \<and>
    (\<forall>n. \<forall>f \<in> set (round_steps env n i). \<forall>q q' fl.
       i < length (tm_session (tp_multi q)) \<longrightarrow> f q = Some (q', fl) \<longrightarrow> moves_ok i q q')"
proof (intro conjI allI impI)
  note run = tls_process_run [OF assms, of env]
  show "tls_process env i p \<noteq> Out_of_rounds" using run by blast
  fix p' active assume "tls_process env i p = Done (p', active)"
  with run have "run_ok env i p p' \<and> active = tp_active p' \<and> 1 \<le> tp_wakeup p' \<or>
      (\<exists>p2. run_ok env i p p2 \<and> p' = upd_key i (\<lambda>ks. ks\<lparr>ks_state := S_ERROR\<rparr>) p2 \<and> \<not> active)" by blast
  then have r: "(b_len (tp_to_link p) \<noteq> 0 \<longrightarrow> tp_to_link p' = tp_to_link p \<and> tp_to_link_addr p' = tp_to_link_addr p) \<and>
      (proc_state i p' = S_ERROR \<and> \<not> active \<or>
       hs_path (to_server (tm_opt (tp_multi p))) (hs_begin env i p) (proc_state i p') \<and> 1 \<le> tp_wakeup p' \<and>
       (b_len (tp_to_link p) = 0 \<and> b_len (tp_to_link p') \<noteq> 0 \<longrightarrow> active))"
    using assms(1) by (auto simp: run_ok_def link_ok_def)
  show "b_len (tp_to_link p) \<noteq> 0 \<Longrightarrow> tp_to_link p' = tp_to_link p" "b_len (tp_to_link p) \<noteq> 0 \<Longrightarrow> tp_to_link_addr p' = tp_to_link_addr p"
    using r by blast+
  show "proc_state i p' = S_ERROR \<and> \<not> active \<or>
     hs_path (to_server (tm_opt (tp_multi p))) (hs_begin env i p) (proc_state i p') \<and> 1 \<le> tp_wakeup p' \<and>
     (b_len (tp_to_link p) = 0 \<and> b_len (tp_to_link p') \<noteq> 0 \<longrightarrow> active)"
    using r by blast
qed (rule round_steps_move)

subsection \<open>The start of a client\<close>

definition toy_tls_env :: "unit tls_env" where
  "toy_tls_env = \<lparr>te_lib = toy_lib, te_km = toy_km_env 1, te_clock = \<lambda>n. 100 + int n\<rparr>"

definition toy_start :: "unit key_state" where
  "toy_start = zero_key_state\<lparr>ks_state := S_INITIAL, ks_ssl := Some (), ks_initial_opcode := P_CONTROL_HARD_RESET_CLIENT_V2,
     ks_send_reliable := reliable_init 40 20 4 False, ks_rec_reliable := reliable_init 40 20 8 False, ks_rec_ack := Some ack_empty,
     ks_remote_addr := zero_sockaddr\<lparr>sa_family := AF_INET, sa_word := 5\<rparr>\<rparr>"

definition toy_client :: "unit tls_multi" where
  "toy_client = (tls_multi_init (toy_tls_options\<lparr>to_server := False\<rparr>))\<lparr>tm_session :=
     [zero_session\<lparr>ts_session_id := toy_sid 1, ts_primary := toy_start\<rparr>, zero_session, zero_session]\<rparr>"

definition toy_proc :: "unit tls_proc" where
  "toy_proc = \<lparr>tp_multi = toy_client, tp_to_link = clear_buf, tp_to_link_addr = None, tp_outgoing_addr = None, tp_wakeup = 60,
     tp_active = False, tp_change = False\<rparr>"

definition run_summary :: "('s tls_proc \<times> bool) run \<Rightarrow> (int \<times> byte list option \<times> bool) option" where
  "run_summary r = (case r of Done (p, a) \<Rightarrow> Some (proc_state 0 p, buf_bytes (tp_to_link p), a) | _ \<Rightarrow> None)"

text \<open>The client sends a hard reset with its session id, no acknowledgement and packet id 0.\<close>

lemma tls_process_ends_witness:
  "\<exists>p'. tls_process toy_tls_env 0 toy_proc = Done (p', True) \<and> proc_state 0 p' = S_PRE_START \<and>
    buf_bytes (tp_to_link p') = Some [56, 1, 1, 1, 1, 1, 1, 1, 1, 0, 0, 0, 0, 0] \<and> 1 \<le> tp_wakeup p'"
proof -
  have "0 < length (tm_session (tp_multi toy_proc))" by (simp add: toy_proc_def toy_client_def)
  moreover have "small_key (proc_key 0 toy_proc)"
    by (simp add: toy_proc_def toy_client_def toy_start_def small_key_def reliable_init_def RELIABLE_CAPACITY_def Let_def split: bind_splits prod.splits)
  ultimately have t: "tls_process toy_tls_env 0 toy_proc = Done (p', active) \<Longrightarrow> proc_state 0 p' = S_ERROR \<or> 1 \<le> tp_wakeup p'" for p' active
    using tls_process_ends [of 0 toy_proc toy_tls_env] by auto
  have "run_summary (tls_process toy_tls_env 0 toy_proc) = Some (S_PRE_START, Some [56, 1, 1, 1, 1, 1, 1, 1, 1, 0, 0, 0, 0, 0], True)" by code_simp
  then obtain p' where p': "tls_process toy_tls_env 0 toy_proc = Done (p', True)" "proc_state 0 p' = S_PRE_START"
    "buf_bytes (tp_to_link p') = Some [56, 1, 1, 1, 1, 1, 1, 1, 1, 0, 0, 0, 0, 0]"
    by (auto simp: run_summary_def split: run.splits)
  then show ?thesis using p' t [OF p'(1)] by (simp add: S_defs)
qed

end
