(* ===== verification/Tls_Process_Inv.thy ===== *)
theory Tls_Process_Inv
  imports Tls_Process
begin

text \<open>
  What the driver of the control channel keeps: each step of a round of \<open>tls_process\<close> keeps the key and the session it works on
  well formed and touches no other session, so a session that is ready stays ready.
\<close>

subsection \<open>A session stays ready\<close>

lemma same_core_ready:
  assumes "same_core m' m" "k < length (tm_session m)"
  shows "session_ready (ses_at m' k) = session_ready (ses_at m k)"
  using core_keyD(4,5) [OF assms] core_key_fields [OF assms] by (simp add: session_ready_def key_ready_def)

lemma ack_shift_size:
  "ack_shift i j len ids = Some (i', ids') \<Longrightarrow> i \<le> j \<Longrightarrow> length ids' = length ids \<and> i' \<le> max i len"
proof (induction i j len ids rule: ack_shift.induct)
  case (1 i j len ids)
  show ?case
  proof (cases "j < len")
    case True
    then have "ack_shift (Suc i) (Suc j) len (ids[i := ids ! j]) = Some (i', ids')" "j < length ids"
      using 1(2) by (auto simp: ack_shift.simps [of i j len ids] split: bind_splits)
    then show ?thesis using 1(1) [OF True] 1(3) True by fastforce
  next
    case False
    then show ?thesis using 1(2) by (simp add: ack_shift.simps [of i j len ids])
  qed
qed

lemma ack_write_ok:
  assumes "reliable_ack_write ack buf sid n pre = Some (ack', buf', ok)" "ack_ok ack"
  shows "ack_ok ack'"
proof -
  have "ack' = ack \<or> (\<exists>i ids k. ack_shift 0 k (nat (ra_len ack)) (ra_packet_id ack) = Some (i, ids) \<and> ack' = ack\<lparr>ra_packet_id := ids, ra_len := int i\<rparr>)"
    using assms(1) unfolding reliable_ack_write_def Let_def by (auto split: bind_splits prod.splits if_splits)
  then show ?thesis
  proof (elim disjE exE conjE)
    fix i ids k assume s: "ack_shift 0 k (nat (ra_len ack)) (ra_packet_id ack) = Some (i, ids)" "ack' = ack\<lparr>ra_packet_id := ids, ra_len := int i\<rparr>"
    show "ack_ok ack'" using ack_shift_size [OF s(1)] s(2) assms(2) by (auto simp: ack_ok_def)
  qed (use assms(2) in simp)
qed

text \<open>A rule for each construct of the fault monad: what holds of every result.\<close>

definition yields :: "'a option \<Rightarrow> ('a \<Rightarrow> bool) \<Rightarrow> bool" where
  "yields r P \<longleftrightarrow> (\<forall>x. r = Some x \<longrightarrow> P x)"

named_theorems yields_intro

lemma yields_rules [yields_intro]:
  "P x \<Longrightarrow> yields (Some x) P" "yields None P" "yields a P \<Longrightarrow> yields b P \<Longrightarrow> yields (if c then a else b) P"
  "yields (f v) P \<Longrightarrow> yields (let y = v in f y) P" "(\<And>a b. z = (a, b) \<Longrightarrow> yields (g a b) P) \<Longrightarrow> yields (case z of (a, b) \<Rightarrow> g a b) P"
  "yields a P \<Longrightarrow> (\<And>x. yields (h x) P) \<Longrightarrow> yields (case o' of None \<Rightarrow> a | Some x \<Rightarrow> h x) P"
  by (auto simp: yields_def split: option.splits prod.splits)

lemma yields_bind_any: "(\<And>x. yields (f x) P) \<Longrightarrow> yields (m \<bind> f) P"
  by (cases m) (auto simp: yields_def)

definition same_receiver :: "crypto_options \<Rightarrow> crypto_options \<Rightarrow> bool" where
  "same_receiver opt' opt \<longleftrightarrow> opt' = opt \<or> (\<exists>s. opt' = packet_id_of opt s)"

lemma same_receiver_simps [simp]: "same_receiver opt opt" "same_receiver (packet_id_of opt s) opt"
  by (auto simp: same_receiver_def)

text \<open>A step that returns new options.\<close>

lemma yields_bind_opt:
  fixes m :: "(crypto_options \<times> 'b) option"
  shows "yields m (\<lambda>r. same_receiver (fst r) opt) \<Longrightarrow> (\<And>x. same_receiver (fst x) opt \<Longrightarrow> yields (f x) P) \<Longrightarrow> yields (m \<bind> f) P"
  by (cases m) (auto simp: yields_def)

lemma encrypt_v1_yields: "yields (openvpn_encrypt_v1 prng ts ctx opt buf work) (\<lambda>r. same_receiver (fst r) opt)"
  unfolding openvpn_encrypt_v1_def
  by (rule yields_bind_opt [where opt = opt] yields_rules yields_bind_any | (simp; fail))+

lemma encrypt_aead_yields: "yields (openvpn_encrypt_aead ts ctx opt buf work) (\<lambda>r. same_receiver (fst r) opt)"
  unfolding openvpn_encrypt_aead_def
  by (rule yields_bind_opt [where opt = opt] yields_rules yields_bind_any | (simp; fail))+

lemma crypt_wrap_yields: "yields (tls_crypt_wrap ts ctx opt src dst) (\<lambda>r. same_receiver (fst r) opt)"
  unfolding tls_crypt_wrap_def
  by (rule yields_bind_opt [where opt = opt] yields_rules yields_bind_any | (simp; fail))+

subsection \<open>Buffers and reliability layers stay well formed\<close>

text \<open>These say nothing of success: whatever an operation returns is well formed.\<close>

lemma store_at_keeps:
  "store_at b p bs = Some b' \<Longrightarrow> buf_ok b \<Longrightarrow> buf_ok b' \<and> b_capacity b' = b_capacity b \<and> b_offset b' = b_offset b \<and> b_len b' = b_len b \<and>
     p + int (length bs) \<le> b_capacity b \<and> 0 \<le> p"
  by (auto simp: store_at_def buf_ok_def mem_write_def split: bind_splits if_splits option.splits)

lemma buf_bptr_offset: "buf_bptr b = Some p \<Longrightarrow> p = b_offset b"
  by (auto simp: buf_bptr_def split: if_splits)

lemma buf_prepend_keeps:
  assumes "buf_prepend b n = (b', r)" "buf_ok b"
  shows "buf_ok b' \<and> b_capacity b' = b_capacity b"
proof (cases "\<not> buf_valid b \<or> n < 0 \<or> n > b_offset b")
  case False
  then have b': "b' = b\<lparr>b_offset := b_offset b - n, b_len := b_len b + n\<rparr>" using assms(1) by (simp add: buf_prepend_def Let_def)
  obtain m where "b_data b = Some m" using assms(2) by (auto simp: buf_ok_def split: option.splits)
  then show ?thesis using assms(2) False b' by (simp add: buf_ok_def)
qed (use assms in \<open>simp add: buf_prepend_def\<close>)

lemma buf_write_prepend_keeps:
  assumes "buf_write_prepend b bs = Some (b', ok)" "buf_ok b"
  shows "buf_ok b' \<and> b_capacity b' = b_capacity b"
proof -
  obtain b1 r where p: "buf_prepend b (int (length bs)) = (b1, r)" by fastforce
  note k = buf_prepend_keeps [OF p assms(2)]
  show ?thesis
  proof (cases r)
    case None
    then show ?thesis using assms(1) p k by (simp add: buf_write_prepend_def)
  next
    case (Some cp)
    then have "store_at b1 cp bs = Some b'" using assms(1) p by (auto simp: buf_write_prepend_def)
    then show ?thesis using store_at_keeps k by metis
  qed
qed

lemma bio_read_keeps:
  assumes "bio_read bio b n = Some (b', st)" "buf_ok b"
  shows "buf_ok b' \<and> b_capacity b' = b_capacity b"
proof -
  have "b' = b \<or> b' = b\<lparr>b_len := 0\<rparr> \<or> (\<exists>bs b1. store_at b (b_offset b) bs = Some b1 \<and> b' = b1\<lparr>b_len := int (length bs)\<rparr>)"
    using assms(1) unfolding bio_read_def Let_def
    by (auto split: bind_splits if_splits bio_result.splits dest: buf_bptr_offset)
  then show ?thesis
  proof (elim disjE exE conjE)
    fix bs b1 assume "store_at b (b_offset b) bs = Some b1" "b' = b1\<lparr>b_len := int (length bs)\<rparr>"
    with store_at_keeps [OF this(1) assms(2)] show ?thesis by (auto simp: buf_ok_def split: option.splits)
  qed (use assms(2) empty_ok in auto)
qed

lemma key_state_read_keeps: "key_state_read rd s b n = Some (s', b', st) \<Longrightarrow> buf_ok b \<Longrightarrow> buf_ok b' \<and> b_capacity b' = b_capacity b"
  by (auto simp: key_state_read_def split: bind_splits dest: bio_read_keeps)

lemma key_state_write_keeps:
  assumes "key_state_write wr s b = Some (s', b', st)" "buf_ok b"
  shows "buf_ok b' \<and> b_capacity b' = b_capacity b"
proof -
  have "bio_write_post st b = Some b'" using assms(1) by (auto simp: key_state_write_def split: bind_splits prod.splits)
  then show ?thesis
    using assms(2) empty_ok by (auto simp: bio_write_post_def split: if_splits bind_splits dest: store_at_keeps)
qed

lemma mark_outgoing_keeps:
  assumes "reliable_mark_active_outgoing S j op = Some S'" "rel_wf cap S"
  shows "rel_wf cap S'"
proof -
  obtain b where j: "j < length (rel_entries S)" and b: "buf_write_prepend (e_buf (r_array S ! j)) (be32 (r_packet_id S)) = Some (b, True)"
    and S': "S' = rel_upd (S\<lparr>r_packet_id := r_packet_id S + 1\<rparr>) j (\<lambda>e. e\<lparr>e_packet_id := r_packet_id S, e_buf := b, e_active := True, e_opcode := op,
           e_next_try := 0, e_timeout := r_initial_timeout S\<rparr>)"
    using assms(1) unfolding reliable_mark_active_outgoing_def Let_def by (auto split: bind_splits)
  note e = rel_wf_entry [OF assms(2) j]
  show ?thesis unfolding S' by (rule rel_wf_upd) (use assms(2) j e buf_write_prepend_keeps [OF b] in simp_all)
qed

lemma mark_deleted_keeps:
  assumes "reliable_mark_deleted R j inc = Some R'" "rel_wf cap R"
  shows "rel_wf cap R'"
proof -
  have j: "j < length (rel_entries R)" and R': "\<exists>q. R' = (rel_upd R j (\<lambda>e. e\<lparr>e_active := False\<rparr>))\<lparr>r_packet_id := q\<rparr> \<or> R' = rel_upd R j (\<lambda>e. e\<lparr>e_active := False\<rparr>)"
    using assms(1) by (auto simp: reliable_mark_deleted_def Let_def split: bind_splits if_splits)
  have "rel_wf cap (rel_upd R j (\<lambda>e. e\<lparr>e_active := False\<rparr>))"
    using rel_wf_upd [OF assms(2) j] rel_wf_entry [OF assms(2) j] by simp
  then show ?thesis using R' by auto
qed

lemma send_keeps: "reliable_send ts S = (S', r) \<Longrightarrow> r \<noteq> None \<Longrightarrow> rel_wf cap S \<Longrightarrow> rel_wf cap S'"
  using reliable_send_same same_packets_wf by fast

lemma output_sequenced_keeps:
  assumes "reliable_get_buf_output_sequenced S = Some (S', r)" "rel_wf cap S"
  shows "rel_wf cap S'"
proof -
  consider "S' = S" | "reliable_get_buf S = Some (S', r)" using assms(1) by (auto simp: reliable_get_buf_output_sequenced_def Let_def split: if_splits)
  then show ?thesis
  proof cases
    case 2
    show ?thesis
    proof (cases rule: reliable_get_buf_wf [OF assms(2)])
      case full: 1
      then show ?thesis using 2 assms(2) by simp
    next
      case (2 i b)
      then show ?thesis using \<open>reliable_get_buf S = Some (S', r)\<close> rel_wf_upd [OF assms(2) 2(2), of "\<lambda>e. e\<lparr>e_buf := b\<rparr>"] by simp
    qed
  qed (use assms(2) in simp)
qed

lemma entry_buf_keeps:
  "rel_wf cap S \<Longrightarrow> j < length (rel_entries S) \<Longrightarrow> buf_ok b \<and> b_capacity b = b_capacity (e_buf (r_array S ! j)) \<Longrightarrow>
   rel_wf cap (rel_upd S j (\<lambda>e. e\<lparr>e_buf := b\<rparr>))"
  using rel_wf_entry [of cap S j] by (intro rel_wf_upd) simp_all

lemma receiver_kept: "same_receiver opt' opt \<Longrightarrow> replay_ok opt' = replay_ok opt \<and> co_flags opt' = co_flags opt"
  by (auto simp: same_receiver_def packet_id_of_def replay_ok_def)

lemma yieldsD: "yields r P \<Longrightarrow> r = Some x \<Longrightarrow> P x" by (simp add: yields_def)

lemma encrypt_receiver:
  "openvpn_encrypt prng ts ctx opt buf work = Some (opt', b) \<Longrightarrow> same_receiver opt' opt"
  using encrypt_v1_yields [of prng ts ctx opt buf work] encrypt_aead_yields [of ts ctx opt buf work]
  by (auto simp: openvpn_encrypt_def yields_def split: if_splits)

lemma wrap_reads_update:
  "wrap_reads w \<Longrightarrow> same_receiver opt (tw_opt w) \<Longrightarrow> wrap_reads (w\<lparr>tw_opt := opt\<rparr>) \<and> wrap_reads (w\<lparr>tw_opt := opt, tw_work := wk\<rparr>)"
  using receiver_kept [of opt "tw_opt w"] by (simp add: wrap_reads_def)

lemma write_control_keeps:
  assumes "write_control_auth ts ses ks buf op n pre = Some (w, ack', b, a)" "wrap_reads (ts_tls_wrap ses)" "ks_rec_ack ks = Some ack" "ack_ok ack"
  shows "wrap_reads w \<and> ack_ok ack'"
proof -
  obtain b1 ok where ack: "reliable_ack_write ack buf (ks_session_id_remote ks) n pre = Some (ack', b1, ok)"
    using assms(1,3) unfolding write_control_auth_def Let_def
    by (auto split: bind_splits if_splits tls_wrap_mode.splits prod.splits)
  have "w = ts_tls_wrap ses \<or> (\<exists>opt wk. same_receiver opt (tw_opt (ts_tls_wrap ses)) \<and>
      (w = (ts_tls_wrap ses)\<lparr>tw_opt := opt\<rparr> \<or> w = (ts_tls_wrap ses)\<lparr>tw_opt := opt, tw_work := wk\<rparr>))"
  proof (cases "tw_mode (ts_tls_wrap ses)")
    case TLS_WRAP_NONE
    then show ?thesis using assms(1) unfolding write_control_auth_def Let_def by (auto split: bind_splits)
  next
    case TLS_WRAP_AUTH
    then obtain b2 wk opt b3 where "openvpn_encrypt [] ts (kb_encrypt (tw_keys (ts_tls_wrap ses))) (tw_opt (ts_tls_wrap ses)) b2 wk = Some (opt, b3)"
      "w = (ts_tls_wrap ses)\<lparr>tw_opt := opt\<rparr>"
      using assms(1) unfolding write_control_auth_def Let_def by (auto split: bind_splits)
    then show ?thesis using encrypt_receiver by blast
  next
    case TLS_WRAP_CRYPT
    obtain b2 wk opt wk' ok where "tls_crypt_wrap ts (kb_encrypt (tw_keys (ts_tls_wrap ses))) (tw_opt (ts_tls_wrap ses)) b2 wk = Some (opt, wk', ok)"
      "w = (ts_tls_wrap ses)\<lparr>tw_opt := opt, tw_work := wk'\<rparr>"
      using assms(1) TLS_WRAP_CRYPT unfolding write_control_auth_def Let_def by (auto split: bind_splits prod.splits if_splits)
    then show ?thesis using yieldsD [OF crypt_wrap_yields] by fastforce
  qed
  then show ?thesis using ack_write_ok [OF ack assms(4)] assms(2) wrap_reads_update by blast
qed

subsection \<open>What a step keeps\<close>

definition ses_fit :: "'s tls_session \<Rightarrow> bool" where
  "ses_fit ses \<longleftrightarrow> session_id_defined (ts_session_id ses) \<and> wrap_reads (ts_tls_wrap ses) \<and>
     (\<exists>cap S. ks_send_reliable (ts_primary ses) = Some S \<and> rel_wf cap S) \<and> (\<exists>cap R. ks_rec_reliable (ts_primary ses) = Some R \<and> rel_wf cap R) \<and>
     (\<exists>A. ks_rec_ack (ts_primary ses) = Some A \<and> ack_ok A) \<and>
     (session_id_defined (ks_session_id_remote (ts_primary ses)) \<longrightarrow> addr_ok (ks_remote_addr (ts_primary ses)))"

lemma session_ready_iff: "session_ready ses \<longleftrightarrow> ses_fit ses \<and> ks_state (ts_primary ses) \<noteq> S_UNDEF \<and> ks_state (ts_primary ses) \<noteq> S_ERROR"
  by (auto simp: session_ready_def key_ready_def ses_fit_def)

lemma ses_fit_core: "core_ses ses' = core_ses ses \<Longrightarrow> ses_fit ses' = ses_fit ses"
  by (simp add: core_ses_def core_key_def ses_fit_def)

definition keeps :: "nat \<Rightarrow> 's tls_multi \<Rightarrow> 's tls_multi \<Rightarrow> bool" where
  "keeps i m m' \<longleftrightarrow> length (tm_session m') = length (tm_session m) \<and> core_opt (tm_opt m') = core_opt (tm_opt m) \<and>
     (\<forall>j < length (tm_session m). j \<noteq> i \<longrightarrow> core_ses (ses_at m' j) = core_ses (ses_at m j)) \<and>
     (ses_fit (ses_at m i) \<longrightarrow> ses_fit (ses_at m' i))"

lemma keeps_refl [simp]: "keeps i m m" by (simp add: keeps_def)

lemma keeps_trans: "keeps i m m1 \<Longrightarrow> keeps i m1 m2 \<Longrightarrow> keeps i m m2" by (simp add: keeps_def)

lemma same_core_ses: "same_core m' m \<Longrightarrow> j < length (tm_session m) \<Longrightarrow> core_ses (ses_at m' j) = core_ses (ses_at m j)"
  unfolding same_core_def by (metis length_map nth_map)

lemma keeps_core: "same_core m' m \<Longrightarrow> i < length (tm_session m) \<Longrightarrow> keeps i m m'"
  using same_core_ses [of m' m] ses_fit_core by (auto simp: keeps_def core_keyD)

lemma keeps_ses: "i < length (tm_session m) \<Longrightarrow> (ses_fit (ses_at m i) \<Longrightarrow> ses_fit (f (ses_at m i))) \<Longrightarrow> keeps i m (upd_ses i f m)"
  by (simp add: keeps_def upd_ses_def)

lemma keeps_key:
  "i < length (tm_session (tp_multi p)) \<Longrightarrow>
   (ses_fit (ses_at (tp_multi p) i) \<Longrightarrow> ses_fit ((ses_at (tp_multi p) i)\<lparr>ts_primary := f (proc_key i p)\<rparr>)) \<Longrightarrow>
   keeps i (tp_multi p) (tp_multi (upd_key i f p))"
  using keeps_ses [of i "tp_multi p" "\<lambda>ses. ses\<lparr>ts_primary := f (ts_primary ses)\<rparr>"] by (simp add: upd_key_def upd_prim_def)

definition keeps_step :: "nat \<Rightarrow> ('s tls_proc \<Rightarrow> 's outcome) \<Rightarrow> bool" where
  "keeps_step i f \<longleftrightarrow> (\<forall>p p' fl. i < length (tm_session (tp_multi p)) \<longrightarrow> f p = Some (p', fl) \<longrightarrow> keeps i (tp_multi p) (tp_multi p'))"

lemma keeps_run_steps:
  assumes "\<forall>f \<in> set fs. keeps_step i f" "i < length (tm_session (tp_multi p))" "run_steps fs p = Some (p', fl)"
  shows "keeps i (tp_multi p) (tp_multi p')"
  using assms
proof (induction fs arbitrary: p)
  case (Cons f fs)
  obtain p1 fl1 where p1: "f p = Some (p1, fl1)" using Cons.prems(3) by (auto split: bind_splits)
  have ok: "keeps i (tp_multi p) (tp_multi p1)" using Cons.prems(1,2) p1 by (auto simp: keeps_step_def)
  show ?case
  proof (cases "fl1 = Go")
    case True
    have "i < length (tm_session (tp_multi p1))" using ok Cons.prems(2) by (simp add: keeps_def)
    moreover have "run_steps fs p1 = Some (p', fl)" using Cons.prems(3) p1 True by simp
    ultimately have "keeps i (tp_multi p1) (tp_multi p')" using Cons.IH Cons.prems(1) by simp
    then show ?thesis using keeps_trans ok by blast
  next
    case False
    then show ?thesis using Cons.prems(3) p1 ok by auto
  qed
qed simp

subsection \<open>Each step keeps them\<close>

lemma keeps_upd:
  assumes "i < length (tm_session (tp_multi p))" "same_core m (tp_multi p)"
    "ses_fit (ses_at m i) \<Longrightarrow> ses_fit ((ses_at m i)\<lparr>ts_primary := f (prim_at m i)\<rparr>)"
  shows "keeps i (tp_multi p) (tp_multi (upd_key i f (p\<lparr>tp_multi := m\<rparr>)))"
proof -
  have "keeps i m (tp_multi (upd_key i f (p\<lparr>tp_multi := m\<rparr>)))"
    using keeps_key [of i "p\<lparr>tp_multi := m\<rparr>" f] assms core_keyD(1) [OF assms(2,1)] by simp
  then show ?thesis using keeps_trans [OF keeps_core [OF assms(2,1)]] by blast
qed

lemma fit_send:
  "ses_fit ses \<Longrightarrow> ks_send_reliable (ts_primary ses) = Some S \<Longrightarrow> (\<And>cap. rel_wf cap S \<Longrightarrow> rel_wf cap S') \<Longrightarrow>
   ks_send_reliable ks' = Some S' \<Longrightarrow> ks_rec_reliable ks' = ks_rec_reliable (ts_primary ses) \<Longrightarrow> ks_rec_ack ks' = ks_rec_ack (ts_primary ses) \<Longrightarrow>
   ks_session_id_remote ks' = ks_session_id_remote (ts_primary ses) \<Longrightarrow> ks_remote_addr ks' = ks_remote_addr (ts_primary ses) \<Longrightarrow>
   ses_fit (ses\<lparr>ts_primary := ks'\<rparr>)"
  by (auto simp: ses_fit_def)

lemma fit_rec:
  "ses_fit ses \<Longrightarrow> ks_rec_reliable (ts_primary ses) = Some R \<Longrightarrow> (\<And>cap. rel_wf cap R \<Longrightarrow> rel_wf cap R') \<Longrightarrow>
   ks_rec_reliable ks' = Some R' \<Longrightarrow> ks_send_reliable ks' = ks_send_reliable (ts_primary ses) \<Longrightarrow> ks_rec_ack ks' = ks_rec_ack (ts_primary ses) \<Longrightarrow>
   ks_session_id_remote ks' = ks_session_id_remote (ts_primary ses) \<Longrightarrow> ks_remote_addr ks' = ks_remote_addr (ts_primary ses) \<Longrightarrow>
   ses_fit (ses\<lparr>ts_primary := ks'\<rparr>)"
  by (auto simp: ses_fit_def)

lemma fit_same:
  "ses_fit ses \<Longrightarrow> ks_send_reliable ks' = ks_send_reliable (ts_primary ses) \<Longrightarrow> ks_rec_reliable ks' = ks_rec_reliable (ts_primary ses) \<Longrightarrow>
   ks_rec_ack ks' = ks_rec_ack (ts_primary ses) \<Longrightarrow>
   ks_session_id_remote ks' = ks_session_id_remote (ts_primary ses) \<Longrightarrow> ks_remote_addr ks' = ks_remote_addr (ts_primary ses) \<Longrightarrow>
   ses_fit (ses\<lparr>ts_primary := ks'\<rparr>)"
  by (auto simp: ses_fit_def)

lemma step_initial_keeps: "keeps_step i (step_initial ts i)"
unfolding keeps_step_def
proof (intro allI impI)
  fix p p' :: "'a tls_proc" and fl
  assume l: "i < length (tm_session (tp_multi p))" and run: "step_initial ts i p = Some (p', fl)"
  show "keeps i (tp_multi p) (tp_multi p')"
  proof (cases "proc_state i p = S_INITIAL")
    case False
    then show ?thesis using run by (simp add: step_initial_def)
  next
    case True
    then obtain S S1 r where S: "ks_send_reliable (proc_key i p) = Some S" "reliable_get_buf_output_sequenced S = Some (S1, r)"
      using run by (auto simp: step_initial_def split: bind_splits)
    obtain S2 f where S2: "\<And>cap. rel_wf cap S1 \<Longrightarrow> rel_wf cap S2" "tp_multi p' = tp_multi (upd_key i f p)"
      "\<And>ks. ks_send_reliable (f ks) = Some S2 \<and> ks_rec_reliable (f ks) = ks_rec_reliable ks \<and> ks_rec_ack (f ks) = ks_rec_ack ks \<and>
        ks_session_id_remote (f ks) = ks_session_id_remote ks \<and> ks_remote_addr (f ks) = ks_remote_addr ks"
    proof (cases r)
      case None
      then show thesis using run True S by (intro that [of S1 "\<lambda>ks. ks\<lparr>ks_send_reliable := Some S1\<rparr>"]) (simp_all add: step_initial_def)
    next
      case (Some j)
      then obtain S2 where "reliable_mark_active_outgoing S1 j (ks_initial_opcode (proc_key i p)) = Some S2"
        using run True S by (auto simp: step_initial_def split: bind_splits)
      with mark_outgoing_keeps Some run True S show thesis
        by (intro that [of S2 "\<lambda>ks. ks\<lparr>ks_send_reliable := Some S2,
        ks_must_negotiate := ts + to_handshake_window (tm_opt (tp_multi p)),
        ks_auth_deferred_expire := ts + auth_deferred_expire_window (tm_opt (tp_multi p)), ks_state := S_PRE_START\<rparr>"]) (auto simp: step_initial_def)
    qed
    show ?thesis unfolding S2(2) by (rule keeps_key [OF l]) (rule fit_send, assumption, rule S(1), rule S2(1) [OF output_sequenced_keeps [OF S(2)]], simp_all add: S2(3))
  qed
qed

lemma step_timeout_keeps: "keeps_step i (step_timeout ts i)"
unfolding keeps_step_def
proof (intro allI impI)
  fix p p' :: "'a tls_proc" and fl
  assume l: "i < length (tm_session (tp_multi p))" and run: "step_timeout ts i p = Some (p', fl)"
  have "p' = p \<or> p' = upd_key i (\<lambda>ks. ks\<lparr>ks_state := S_NORMAL_OP, ks_must_negotiate := 0\<rparr>) p" using run by (auto simp: step_timeout_def split: if_splits)
  moreover have "keeps i (tp_multi p) (tp_multi (upd_key i (\<lambda>ks. ks\<lparr>ks_state := S_NORMAL_OP, ks_must_negotiate := 0\<rparr>) p))"
    by (rule keeps_key [OF l]) (rule fit_same, simp_all)
  ultimately show "keeps i (tp_multi p) (tp_multi p')" by auto
qed

lemma step_start_keeps: "keeps_step i (step_start i)"
unfolding keeps_step_def
proof (intro allI impI)
  fix p p' :: "'a tls_proc" and fl
  assume l: "i < length (tm_session (tp_multi p))" and run: "step_start i p = Some (p', fl)"
  have "p' = p \<or> p' = changed (upd_key i (\<lambda>ks. ks\<lparr>ks_state := S_START\<rparr>) p)" using run by (auto simp: step_start_def split: if_splits bind_splits)
  moreover have "keeps i (tp_multi p) (tp_multi (upd_key i (\<lambda>ks. ks\<lparr>ks_state := S_START\<rparr>) p))"
    by (rule keeps_key [OF l]) (rule fit_same, simp_all)
  ultimately show "keeps i (tp_multi p) (tp_multi p')" by auto
qed

lemma step_active_keeps: "keeps_step i (step_active lib ts i)"
unfolding keeps_step_def
proof (intro allI impI)
  fix p p' :: "'a tls_proc" and fl
  assume l: "i < length (tm_session (tp_multi p))" and run: "step_active lib ts i p = Some (p', fl)"
  define p1 where "p1 = upd_key i (\<lambda>ks. ks\<lparr>ks_established := ts, ks_state := S_ACTIVE\<rparr>) p"
  have "p' = p \<or> (\<exists>bs. flush_payload_buffer lib i bs (tp_multi p1) = Some (tp_multi p'))"
    using run unfolding step_active_def Let_def p1_def by (auto split: if_splits bind_splits)
  moreover have "keeps i (tp_multi p) (tp_multi p1)" unfolding p1_def
    by (rule keeps_key [OF l]) (rule fit_same, simp_all)
  moreover have "keeps i (tp_multi p1) (tp_multi p')" if "flush_payload_buffer lib i bs (tp_multi p1) = Some (tp_multi p')" for bs
    using keeps_core [OF core_flush [OF that same_core_refl]] l by (simp add: p1_def)
  ultimately show "keeps i (tp_multi p) (tp_multi p')" using keeps_refl keeps_trans by metis
qed

lemma link_packet_keeps:
  assumes "i < length (tm_session (tp_multi p))" "write_control_auth ts (ses_at (tp_multi p) i) (proc_key i p) buf op n pre = Some r"
  shows "keeps i (tp_multi p) (tp_multi (link_packet i r p))"
proof -
  obtain w ack' b a where r: "r = (w, ack', b, a)" by (cases r) auto
  have "keeps i (tp_multi p) (upd_ses i (\<lambda>ses. ses\<lparr>ts_tls_wrap := w, ts_primary := (ts_primary ses)\<lparr>ks_rec_ack := Some ack'\<rparr>\<rparr>) (tp_multi p))"
    by (rule keeps_ses [OF assms(1)]) (use write_control_keeps [OF assms(2) [unfolded r]] in \<open>auto simp: ses_fit_def\<close>)
  then show ?thesis by (simp add: link_packet_def r)
qed

lemma step_send_keeps: "keeps_step i (step_send ts i)"
unfolding keeps_step_def
proof (intro allI impI)
  fix p p' :: "'a tls_proc" and fl
  assume l: "i < length (tm_session (tp_multi p))" and run: "step_send ts i p = Some (p', fl)"
  show "keeps i (tp_multi p) (tp_multi p')"
  proof (cases "b_len (tp_to_link p) = 0 \<and> (\<exists>S. ks_send_reliable (proc_key i p) = Some S \<and> reliable_can_send ts S)")
    case False
    then show ?thesis using run by (auto simp: step_send_def split: bind_splits if_splits)
  next
    case True
    then obtain S where S: "b_len (tp_to_link p) = 0" "ks_send_reliable (proc_key i p) = Some S" "reliable_can_send ts S" by blast
    obtain S1 j opcode where S1: "reliable_send ts S = (S1, Some (j, opcode))"
      using run S by (cases "reliable_send ts S") (auto simp: step_send_def split: option.splits)
    define p1 where "p1 = upd_key i (\<lambda>ks. ks\<lparr>ks_send_reliable := Some S1\<rparr>) p"
    obtain r buf where r: "p' = changed (link_packet i r p1)"
      "write_control_auth ts (ses_at (tp_multi p1) i) (proc_key i p1) buf opcode CONTROL_SEND_ACK_MAX True = Some r"
      using run S S1 by (auto simp: step_send_def p1_def Let_def split: bind_splits)
    have "keeps i (tp_multi p) (tp_multi p1)" unfolding p1_def
      by (rule keeps_key [OF l]) (rule fit_send, assumption, rule S(2), rule send_keeps [OF S1], simp_all)
    then show ?thesis using link_packet_keeps [OF _ r(2)] l keeps_trans by (auto simp: r(1) p1_def)
  qed
qed

lemma step_incoming_keeps: "keeps_step i (step_incoming lib i)"
unfolding keeps_step_def
proof (intro allI impI)
  fix p p' :: "'a tls_proc" and fl
  assume l: "i < length (tm_session (tp_multi p))" and run: "step_incoming lib i p = Some (p', fl)"
  obtain R where R: "ks_rec_reliable (proc_key i p) = Some R" using run by (auto simp: step_incoming_def split: bind_splits)
  show "keeps i (tp_multi p) (tp_multi p')"
  proof (cases "reliable_get_buf_sequenced R")
    case None
    then show ?thesis using run R by (simp add: step_incoming_def)
  next
    case (Some j)
    note j = sequenced_active [OF Some]
    obtain s buf status where w: "(if b_len (e_buf (r_array R ! j)) \<noteq> 0 then do {
               s \<leftarrow> ks_ssl (proc_key i p);
               key_state_write_ciphertext lib s (e_buf (r_array R ! j))
             } else Some (None, e_buf (r_array R ! j), 1)) = Some (s, buf, status)"
      using run R Some by (auto simp: step_incoming_def split: bind_splits)
    define R1 where "R1 = rel_upd R j (\<lambda>e. e\<lparr>e_buf := buf\<rparr>)"
    have R1: "rel_wf cap R1" if "rel_wf cap R" for cap
      unfolding R1_def using that w rel_wf_entry [OF that] j
      by (intro entry_buf_keeps) (auto simp: key_state_write_ciphertext_def dest: key_state_write_keeps split: if_splits bind_splits)
    obtain R2 p1 where p1: "p1 = upd_key i (\<lambda>ks. ks\<lparr>ks_rec_reliable := Some R1\<rparr>) (p\<lparr>tp_multi := set_ssl lib i s (tp_multi p)\<rparr>)"
      "p' = p1 \<or> p' = changed (upd_key i (\<lambda>ks. ks\<lparr>ks_rec_reliable := Some R2\<rparr>) p1) \<and> reliable_mark_deleted R1 j True = Some R2"
      using run unfolding step_incoming_def R Some Option.bind.bind_lunit option.case w prod.case Let_def R1_def [symmetric]
      by (auto split: if_splits bind_splits)
    have k1: "keeps i (tp_multi p) (tp_multi p1)" unfolding p1(1)
      by (rule keeps_upd [OF l set_ssl_core]) (rule fit_rec, assumption, unfold set_ssl_key [OF l], rule R, rule R1, simp_all add: set_ssl_key [OF l])
    have l1: "i < length (tm_session (tp_multi p1))" "ks_rec_reliable (proc_key i p1) = Some R1" using l by (simp_all add: p1(1))
    have "keeps i (tp_multi p1) (tp_multi (upd_key i (\<lambda>ks. ks\<lparr>ks_rec_reliable := Some R2\<rparr>) p1))" if "reliable_mark_deleted R1 j True = Some R2"
      by (rule keeps_key [OF l1(1)]) (rule fit_rec, assumption, rule l1(2), rule mark_deleted_keeps [OF that], simp_all)
    then show ?thesis using k1 p1(2) keeps_trans by auto
  qed
qed

lemma step_read_plaintext_keeps: "keeps_step i (step_read_plaintext lib i)"
unfolding keeps_step_def
proof (intro allI impI)
  fix p p' :: "'a tls_proc" and fl
  assume l: "i < length (tm_session (tp_multi p))" and run: "step_read_plaintext lib i p = Some (p', fl)"
  show "keeps i (tp_multi p) (tp_multi p')"
  proof (cases "p' = p")
    case False
    then obtain s b2 where p': "tp_multi p' = tp_multi (upd_key i (\<lambda>ks. ks\<lparr>ks_plaintext_read_buf := b2\<rparr>) (p\<lparr>tp_multi := set_ssl lib i s (tp_multi p)\<rparr>))"
      using run unfolding step_read_plaintext_def Let_def by (auto split: if_splits bind_splits prod.splits simp: upd_key_def)
    show ?thesis unfolding p' by (rule keeps_upd [OF l set_ssl_core]) (rule fit_same, simp_all)
  qed simp
qed

lemma step_write_plaintext_keeps: "keeps_step i (step_write_plaintext lib i)"
unfolding keeps_step_def
proof (intro allI impI)
  fix p p' :: "'a tls_proc" and fl
  assume l: "i < length (tm_session (tp_multi p))" and run: "step_write_plaintext lib i p = Some (p', fl)"
  show "keeps i (tp_multi p) (tp_multi p')"
  proof (cases "p' = p")
    case False
    then obtain s b2 where p': "tp_multi p' = tp_multi (upd_key i (\<lambda>ks. ks\<lparr>ks_plaintext_write_buf := b2\<rparr>) (p\<lparr>tp_multi := set_ssl lib i s (tp_multi p)\<rparr>))"
      using run unfolding step_write_plaintext_def Let_def by (auto split: if_splits bind_splits prod.splits simp: upd_key_def)
    show ?thesis unfolding p' by (rule keeps_upd [OF l set_ssl_core]) (rule fit_same, simp_all)
  qed simp
qed

lemma key_exchange_keeps:
  fixes p :: "'s tls_proc"
  assumes "i < length (tm_session (tp_multi p))" "same_core m (tp_multi p)"
    "\<And>ks. ks_send_reliable (f ks) = ks_send_reliable ks \<and> ks_rec_reliable (f ks) = ks_rec_reliable ks \<and> ks_rec_ack (f ks) = ks_rec_ack ks \<and>
       ks_session_id_remote (f ks) = ks_session_id_remote ks \<and> ks_remote_addr (f ks) = ks_remote_addr ks"
  shows "keeps i (tp_multi p) (upd_prim i f m)"
proof -
  have "keeps i (tp_multi p) (tp_multi (upd_key i f (p\<lparr>tp_multi := m\<rparr>)))"
    by (rule keeps_upd [OF assms(1,2)]) (rule fit_same, simp_all add: assms(3))
  then show ?thesis by (simp add: upd_key_def)
qed

lemma step_send_key_keeps: "keeps_step i (step_send_key km i)"
unfolding keeps_step_def
proof (intro allI impI)
  fix p p' :: "'a tls_proc" and fl
  assume l: "i < length (tm_session (tp_multi p))" and run: "step_send_key km i p = Some (p', fl)"
  show "keeps i (tp_multi p) (tp_multi p')"
  proof (cases "p' = p")
    case False
    then obtain m buf ok f where m: "(if to_key_method (tm_opt (tp_multi p)) = 1 then key_method_1_write km (ks_plaintext_write_buf (proc_key i p)) (tp_multi p) i
      else if to_key_method (tm_opt (tp_multi p)) = 2 then key_method_2_write km (ks_plaintext_write_buf (proc_key i p)) (tp_multi p) i
      else None) = Some (m, buf, ok)"
      "p' = upd_key i (\<lambda>ks. ks\<lparr>ks_plaintext_write_buf := buf\<rparr>) (p\<lparr>tp_multi := m\<rparr>) \<or>
       p' = changed (upd_key i (\<lambda>ks. ks\<lparr>ks_state := S_SENT_KEY\<rparr>) (upd_key i (\<lambda>ks. ks\<lparr>ks_plaintext_write_buf := buf\<rparr>) (p\<lparr>tp_multi := m\<rparr>)))"
      using run unfolding step_send_key_def Let_def by (auto split: if_splits bind_splits)
    have c: "same_core m (tp_multi p)" using m(1) core_key1_write core_key2_write by (auto split: if_splits)
    have lm: "i < length (tm_session m)" using core_keyD(1) [OF c l] l by simp
    have p': "tp_multi p' = upd_prim i (\<lambda>ks. ks\<lparr>ks_plaintext_write_buf := buf\<rparr>) m \<or>
        tp_multi p' = upd_prim i (\<lambda>ks. ks\<lparr>ks_plaintext_write_buf := buf, ks_state := S_SENT_KEY\<rparr>) m"
      using m(2) lm by (auto simp: upd_key_def upd_prim_def upd_ses_def)
    show ?thesis
      using p'
    proof
      assume e: "tp_multi p' = upd_prim i (\<lambda>ks. ks\<lparr>ks_plaintext_write_buf := buf\<rparr>) m"
      show ?thesis unfolding e by (rule key_exchange_keeps [OF l c]) simp
    next
      assume e: "tp_multi p' = upd_prim i (\<lambda>ks. ks\<lparr>ks_plaintext_write_buf := buf, ks_state := S_SENT_KEY\<rparr>) m"
      show ?thesis unfolding e by (rule key_exchange_keeps [OF l c]) simp
    qed
  qed simp
qed

lemma step_receive_key_keeps: "keeps_step i (step_receive_key km ts i)"
unfolding keeps_step_def
proof (intro allI impI)
  fix p p' :: "'a tls_proc" and fl
  assume l: "i < length (tm_session (tp_multi p))" and run: "step_receive_key km ts i p = Some (p', fl)"
  show "keeps i (tp_multi p) (tp_multi p')"
  proof (cases "p' = p")
    case False
    then obtain m buf ok where m: "(if to_key_method (tm_opt (tp_multi p)) = 1 then key_method_1_read (ks_plaintext_read_buf (proc_key i p)) (tp_multi p) i
      else if to_key_method (tm_opt (tp_multi p)) = 2 then key_method_2_read km ts (ks_plaintext_read_buf (proc_key i p)) (tp_multi p) i
      else None) = Some (m, buf, ok)"
      "p' = upd_key i (\<lambda>ks. ks\<lparr>ks_plaintext_read_buf := buf\<rparr>) (p\<lparr>tp_multi := m\<rparr>) \<or>
       p' = changed (upd_key i (\<lambda>ks. ks\<lparr>ks_state := S_GOT_KEY\<rparr>) (upd_key i (\<lambda>ks. ks\<lparr>ks_plaintext_read_buf := buf\<rparr>) (p\<lparr>tp_multi := m\<rparr>)))"
      using run unfolding step_receive_key_def Let_def by (auto split: if_splits bind_splits)
    have c: "same_core m (tp_multi p)" using m(1) by (auto split: if_splits dest: core_key1_read core_key2_read)
    have lm: "i < length (tm_session m)" using core_keyD(1) [OF c l] l by simp
    have p': "tp_multi p' = upd_prim i (\<lambda>ks. ks\<lparr>ks_plaintext_read_buf := buf\<rparr>) m \<or>
        tp_multi p' = upd_prim i (\<lambda>ks. ks\<lparr>ks_plaintext_read_buf := buf, ks_state := S_GOT_KEY\<rparr>) m"
      using m(2) lm by (auto simp: upd_key_def upd_prim_def upd_ses_def)
    show ?thesis
      using p'
    proof
      assume e: "tp_multi p' = upd_prim i (\<lambda>ks. ks\<lparr>ks_plaintext_read_buf := buf\<rparr>) m"
      show ?thesis unfolding e by (rule key_exchange_keeps [OF l c]) simp
    next
      assume e: "tp_multi p' = upd_prim i (\<lambda>ks. ks\<lparr>ks_plaintext_read_buf := buf, ks_state := S_GOT_KEY\<rparr>) m"
      show ?thesis unfolding e by (rule key_exchange_keeps [OF l c]) simp
    qed
  qed simp
qed

lemma step_outgoing_keeps: "keeps_step i (step_outgoing lib i)"
unfolding keeps_step_def
proof (intro allI impI)
  fix p p' :: "'a tls_proc" and fl
  assume l: "i < length (tm_session (tp_multi p))" and run: "step_outgoing lib i p = Some (p', fl)"
  show "keeps i (tp_multi p) (tp_multi p')"
  proof (cases "proc_state i p \<ge> S_START")
    case False
    then show ?thesis using run by (simp add: step_outgoing_def)
  next
    case True
    obtain S S1 r where S: "ks_send_reliable (proc_key i p) = Some S" "reliable_get_buf_output_sequenced S = Some (S1, r)"
      using run True by (auto simp: step_outgoing_def split: bind_splits)
    have S1: "rel_wf cap S1" if "rel_wf cap S" for cap using output_sequenced_keeps [OF S(2) that] .
    show ?thesis
    proof (cases r)
      case None
      then have p': "p' = upd_key i (\<lambda>ks. ks\<lparr>ks_send_reliable := Some S1\<rparr>) p" using run True S by (simp add: step_outgoing_def)
      show ?thesis unfolding p' by (rule keeps_key [OF l]) (rule fit_send, assumption, rule S(1), rule S1, simp_all)
    next
      case (Some j)
      then have j: "j < length (rel_entries S1)" using output_sequenced_counts [OF S(2)] by auto
      obtain s0 s buf status where rd: "ks_ssl (proc_key i p) = Some s0"
        "key_state_read_ciphertext lib s0 (e_buf (r_array S1 ! j)) (PAYLOAD_SIZE_DYNAMIC (to_frame (tm_opt (tp_multi p)))) = Some (s, buf, status)"
        using run True S Some by (auto simp: step_outgoing_def split: bind_splits)
      define S2 where "S2 = rel_upd S1 j (\<lambda>e. e\<lparr>e_buf := buf\<rparr>)"
      have S2: "rel_wf cap S2" if "rel_wf cap S" for cap
        unfolding S2_def using rel_wf_entry [OF S1 [OF that] j] key_state_read_keeps [OF rd(2) [unfolded key_state_read_ciphertext_def]]
        by (intro entry_buf_keeps S1 that j) simp
      define p1 where "p1 = upd_key i (\<lambda>ks. ks\<lparr>ks_send_reliable := Some S2\<rparr>) (p\<lparr>tp_multi := set_ssl lib i s (tp_multi p)\<rparr>)"
      have "(if status = -1 then Some (p1, Failed)
             else if status = 1 then do {
               snd \<leftarrow> reliable_mark_active_outgoing S2 j P_CONTROL_V1;
               Some (changed (upd_key i (\<lambda>ks. ks\<lparr>ks_send_reliable := Some snd\<rparr>) p1), Go)
             } else Some (p1, Go)) = Some (p', fl)"
        using run True rd unfolding step_outgoing_def S Some Option.bind.bind_lunit option.case prod.case Let_def by (auto simp: S2_def p1_def split: if_splits)
      then obtain S3 where S3: "p' = p1 \<or> p' = changed (upd_key i (\<lambda>ks. ks\<lparr>ks_send_reliable := Some S3\<rparr>) p1) \<and> reliable_mark_active_outgoing S2 j P_CONTROL_V1 = Some S3"
        by (auto split: if_splits bind_splits)
      have k1: "keeps i (tp_multi p) (tp_multi p1)" unfolding p1_def
        by (rule keeps_upd [OF l set_ssl_core]) (rule fit_send, assumption, unfold set_ssl_key [OF l], rule S(1), rule S2, simp_all add: set_ssl_key [OF l])
      have l1: "i < length (tm_session (tp_multi p1))" "ks_send_reliable (proc_key i p1) = Some S2" using l by (simp_all add: p1_def)
      have "keeps i (tp_multi p1) (tp_multi (upd_key i (\<lambda>ks. ks\<lparr>ks_send_reliable := Some S3\<rparr>) p1))"
        if "reliable_mark_active_outgoing S2 j P_CONTROL_V1 = Some S3"
        by (rule keeps_key [OF l1(1)]) (rule fit_send, assumption, rule l1(2), rule mark_outgoing_keeps [OF that], simp_all)
      then show ?thesis using k1 S3 keeps_trans by auto
    qed
  qed
qed

subsection \<open>The whole routine keeps them\<close>

lemma tls_round_keeps:
  assumes "i < length (tm_session (tp_multi p))" "tls_round env n i p = Some (p', fl)"
  shows "keeps i (tp_multi p) (tp_multi p')"
proof -
  have "keeps i (tp_multi (p\<lparr>tp_change := False\<rparr>)) (tp_multi p')"
    using assms(2) unfolding tls_round_def round_steps_def Let_def
    by (rule keeps_run_steps [rotated 2]) (use assms(1) in \<open>simp_all add: step_initial_keeps step_timeout_keeps step_start_keeps step_active_keeps
      step_send_keeps step_incoming_keeps step_read_plaintext_keeps step_send_key_keeps step_receive_key_keeps step_write_plaintext_keeps step_outgoing_keeps\<close>)
  then show ?thesis by simp
qed

lemma tls_loop_keeps:
  assumes "tls_loop k env n i p = Done (p', n', failed)" "i < length (tm_session (tp_multi p))"
  shows "keeps i (tp_multi p) (tp_multi p')"
  using assms
proof (induction k arbitrary: n p)
  case (Suc k)
  obtain p1 fl where r: "tls_round env n i p = Some (p1, fl)" using Suc.prems(1) by (auto split: option.splits)
  have k: "keeps i (tp_multi p) (tp_multi p1)" using tls_round_keeps [OF Suc.prems(2) r] .
  then have "keeps i (tp_multi p1) (tp_multi p')" if "tls_loop k env (n + 1) i p1 = Done (p', n', failed)"
    using Suc.IH [OF that] Suc.prems(2) by (simp add: keeps_def)
  then show ?case using Suc.prems(1) r k keeps_trans by (auto split: flow.splits if_splits)
qed simp

end
