(* ===== verification/Tls_Multi_Process.thy ===== *)
theory Tls_Multi_Process
  imports Tls_Process_Inv
begin

text \<open>
  ssl.c: \<open>tls_multi_process\<close> drives the sessions of a tunnel, replaces those that failed, and promotes a new session once the peer has
  authenticated. \<open>tls_send_payload\<close> and \<open>tls_rec_payload\<close> are the way of the rest of the program to the control channel.
  The arguments: what each call of \<open>tls_process\<close> gets, the session ids that \<open>session_id_random\<close> draws (index 3 is the promotion), the
  authentication of users and the clock at the end. The debug option \<open>--gremlin\<close> is off.
\<close>

definition TLSMP_INACTIVE :: int where "TLSMP_INACTIVE = 0"
definition TLSMP_ACTIVE :: int where "TLSMP_ACTIVE = 1"
definition TLSMP_KILL :: int where "TLSMP_KILL = 2"
definition TLS_MULTI_AUTH_STATUS_INTERVAL :: int where "TLS_MULTI_AUTH_STATUS_INTERVAL = 10"

record 's multi_env =
  me_lib :: "'s ssl_lib"
  me_km :: "nat \<Rightarrow> km_env"
  me_clock :: "nat \<Rightarrow> nat \<Rightarrow> time_t"
  me_sid :: "nat \<Rightarrow> session_id"
  me_verify :: verify_env
  me_files :: "nat \<Rightarrow> int option"
  me_now :: time_t

definition process_env :: "'s multi_env \<Rightarrow> nat \<Rightarrow> 's tls_env" where
  "process_env env i = \<lparr>te_lib = me_lib env, te_km = me_km env i, te_clock = me_clock env i\<rparr>"

text \<open>The variables of the routine; \<open>mp_addr\<close> is what \<open>to_link_addr\<close> points to.\<close>

record 's multi_proc =
  mp_proc :: "'s tls_proc"
  mp_addr :: "sockaddr option"
  mp_active :: bool
  mp_error :: bool

text \<open>A session that failed is replaced; an unexpired retiring key of the active session is preserved.\<close>

definition session_failed :: "'s multi_env \<Rightarrow> nat \<Rightarrow> 's tls_multi \<Rightarrow> 's tls_multi option" where
  "session_failed env i m =
     (let m = soft_error m in
      if i = TM_ACTIVE \<and> ks_state (ts_lame (ses_at m i)) \<ge> S_ACTIVE \<and> \<not> to_single_session (tm_opt m)
      then move_session (me_lib env) (me_sid env i) m TM_LAME_DUCK TM_ACTIVE True
      else reset_session (me_lib env) (me_sid env i) m i)"

definition set_initial_addr :: "sockaddr \<Rightarrow> nat \<Rightarrow> 's tls_multi \<Rightarrow> 's tls_multi" where
  "set_initial_addr lsa i m =
     (if i = TM_ACTIVE \<and> ks_state (prim_at m i) = S_INITIAL \<and> link_socket_actual_defined lsa
      then upd_prim i (\<lambda>ks. ks\<lparr>ks_remote_addr := lsa\<rparr>) m else m)"

definition multi_session :: "'s multi_env \<Rightarrow> sockaddr \<Rightarrow> nat \<Rightarrow> 's multi_proc \<Rightarrow> 's multi_proc run" where
  "multi_session env lsa i st =
     (let p = (mp_proc st)\<lparr>tp_multi := set_initial_addr lsa i (tp_multi (mp_proc st))\<rparr> in
      if proc_state i p \<ge> S_INITIAL \<and> link_socket_actual_defined (ks_remote_addr (proc_key i p)) then
        run_bind (tls_process (process_env env i) i (p\<lparr>tp_to_link_addr := None\<rparr>)) (\<lambda>(p, active).
          let p = (case tp_to_link_addr p of None \<Rightarrow> p | Some a \<Rightarrow> p\<lparr>tp_multi := (tp_multi p)\<lparr>tm_to_link_addr := a\<rparr>\<rparr>);
              st = st\<lparr>mp_proc := p, mp_addr := (case tp_to_link_addr p of None \<Rightarrow> mp_addr st | Some a \<Rightarrow> Some a),
                      mp_active := mp_active st \<or> active\<rparr> in
          if proc_state i p = S_ERROR then
            run_bind (run_of (session_failed env i (tp_multi p))) (\<lambda>m.
              Done (st\<lparr>mp_proc := p\<lparr>tp_multi := m\<rparr>, mp_error := mp_error st \<or> i = TM_ACTIVE\<rparr>))
          else Done st)
      else Done (st\<lparr>mp_proc := p\<rparr>))"

definition kill_lame_session :: "bool \<Rightarrow> 's tls_multi \<Rightarrow> 's tls_multi" where
  "kill_lame_session die m = (if die then upd_ses TM_LAME_DUCK (\<lambda>ses. tls_session_free ses True) m else m)"

definition promote_session :: "'s multi_env \<Rightarrow> 's tls_multi \<Rightarrow> 's tls_multi option" where
  "promote_session env m =
     (if DECRYPT_KEY_ENABLED m (prim_at m TM_UNTRUSTED)
      then move_session (me_lib env) (me_sid env 3) m TM_ACTIVE TM_UNTRUSTED True else Some m)"

definition count_hard_error :: "bool \<Rightarrow> 's tls_multi \<Rightarrow> 's tls_multi" where
  "count_hard_error err m =
     (if err \<and> \<not> list_ex (\<lambda>j. ks_state (scan_key m j) \<ge> S_ACTIVE) [0, 1, 2]
      then m\<lparr>tm_n_hard_errors := tm_n_hard_errors m + 1\<rparr> else m)"

definition multi_finish :: "'s multi_env \<Rightarrow> 's multi_proc \<Rightarrow> ('s multi_proc \<times> int) option" where
  "multi_finish env st = do {
     (m, tas) \<leftarrow> tls_authentication_status (me_verify env) (me_now env) (me_files env) (tp_multi (mp_proc st)) TLS_MULTI_AUTH_STATUS_INTERVAL;
     (wakeup, die) \<leftarrow> lame_duck_must_die (me_now env) (ses_at m TM_LAME_DUCK) (tp_wakeup (mp_proc st));
     m \<leftarrow> promote_session env (kill_lame_session die m);
     let st = st\<lparr>mp_proc := (mp_proc st)\<lparr>tp_multi := count_hard_error (mp_error st) m, tp_wakeup := wakeup\<rparr>\<rparr>;
     Some (st, if tas = TLS_AUTHENTICATION_FAILED then TLSMP_KILL else if mp_active st then TLSMP_ACTIVE else TLSMP_INACTIVE)
   }"

definition tls_multi_process :: "'s multi_env \<Rightarrow> sockaddr \<Rightarrow> 's tls_proc \<Rightarrow> ('s multi_proc \<times> int) run" where
  "tls_multi_process env lsa p =
     run_bind (multi_session env lsa TM_ACTIVE \<lparr>mp_proc = p, mp_addr = None, mp_active = False, mp_error = False\<rparr>) (\<lambda>st.
     run_bind (multi_session env lsa TM_UNTRUSTED st) (\<lambda>st.
     run_bind (multi_session env lsa TM_LAME_DUCK st) (\<lambda>st. run_of (multi_finish env st))))"

subsection \<open>Payload of the control channel\<close>

text \<open>Until the key is active the data waits in \<open>paybuf\<close>.\<close>

definition tls_send_payload :: "'s ssl_lib \<Rightarrow> 's tls_multi \<Rightarrow> byte list \<Rightarrow> ('s tls_multi \<times> bool) option" where
  "tls_send_payload lib m data =
     (if ks_state (prim_at m TM_ACTIVE) \<ge> S_ACTIVE then do {
        s \<leftarrow> ks_ssl (prim_at m TM_ACTIVE);
        let (s, status) = key_state_write_plaintext_const lib s data;
        Some (set_ssl lib TM_ACTIVE s m, status = 1)
      } else Some (upd_prim TM_ACTIVE (\<lambda>ks. ks\<lparr>ks_paybuf := ks_paybuf ks @ [data]\<rparr>) m, True))"

definition tls_rec_payload :: "'s tls_multi \<Rightarrow> buffer \<Rightarrow> ('s tls_multi \<times> buffer \<times> bool) option" where
  "tls_rec_payload m buf =
     (let ks = prim_at m TM_ACTIVE in
      if ks_state ks \<ge> S_ACTIVE \<and> buf_len (ks_plaintext_read_buf ks) \<noteq> 0 then do {
        (buf, ret) \<leftarrow> buf_copy buf (ks_plaintext_read_buf ks);
        Some (upd_prim TM_ACTIVE (\<lambda>ks. ks\<lparr>ks_plaintext_read_buf := (ks_plaintext_read_buf ks)\<lparr>b_len := 0\<rparr>\<rparr>) m, buf, ret)
      } else Some (m, buf, False))"

subsection \<open>Sessions stay ready\<close>

text \<open>Options with which \<open>tls_session_init\<close> succeeds.\<close>

definition start_ok :: "tls_options \<Rightarrow> bool" where
  "start_ok opt \<longleftrightarrow> options_ok opt \<and> 1 \<le> to_key_method opt \<and> packet_id_init (to_replay_window opt) (to_replay_time opt) \<noteq> None \<and>
     wrap_keys_ok (to_tls_wrap opt) \<and> co_flags (tw_opt (to_tls_wrap opt)) AND CO_IGNORE_PACKET_ID = 0"

lemma core_opt_same:
  assumes "core_opt a = core_opt b"
  shows "start_ok a = start_ok b" "to_single_session a = to_single_session b" "to_server a = to_server b" "options_ok a = options_ok b"
proof -
  have "start_ok (core_opt c) = start_ok c" "to_single_session (core_opt c) = to_single_session c" "to_server (core_opt c) = to_server c"
    "options_ok (core_opt c) = options_ok c" for c
    by (simp_all add: core_opt_def start_ok_def options_ok_def)
  then show "start_ok a = start_ok b" "to_single_session a = to_single_session b" "to_server a = to_server b" "options_ok a = options_ok b"
    using assms by metis+
qed

lemma start_ready:
  assumes "start_ok opt" "tls_session_init lib opt sid = Some ses" "session_id_defined sid"
  shows "session_ready ses"
  using assms session_init_ready [of opt _ sid lib] by (fastforce simp: start_ok_def)

lemma ses_fit_small: "ses_fit ses \<Longrightarrow> small_key (ts_primary ses)"
  by (auto simp: ses_fit_def small_key_def rel_wf_def)

lemma core_session:
  assumes "core_ses ses' = core_ses ses"
  shows "session_ready ses' = session_ready ses" "ses_fit ses' = ses_fit ses"
    "ks_state (ts_primary ses') = ks_state (ts_primary ses)"
    "ks_session_id_remote (ts_primary ses') = ks_session_id_remote (ts_primary ses)"
  using assms by (simp_all add: core_ses_def core_key_def session_ready_def key_ready_def ses_fit_def)

lemma process_start_keeps:
  assumes "i < length (tm_session (tp_multi p))" "options_ok (tm_opt (tp_multi p))" "process_start env i p = Some p'"
  shows "keeps i (tp_multi p) (tp_multi p') \<and> control_ready (ses_at (tp_multi p) i)"
proof -
  define opt where "opt = tm_opt (tp_multi p)"
  define ses where "ses = ses_at (tp_multi p) i"
  have c: "control_ready ses" using assms(3) unfolding process_start_def Let_def ses_def by (auto split: bind_splits)
  obtain ses1 where ses1: "(if wants_soft_reset opt (te_clock env 0) (ts_primary ses)
      then key_state_soft_reset (te_lib env) opt (te_clock env 0) ses else Some ses) = Some ses1"
    using assms(3) unfolding process_start_def Let_def opt_def ses_def by (auto split: bind_splits)
  obtain ses2 w where p': "tp_multi p' = upd_ses i (\<lambda>_. ses2) (tp_multi p)" "core_ses ses2 = core_ses ses1"
    using assms(3) ses1 unfolding process_start_def Let_def opt_def ses_def by (auto split: bind_splits prod.splits simp: core_ses_def)
  have "ses_fit ses1" if "ses_fit ses"
  proof (cases "wants_soft_reset opt (te_clock env 0) (ts_primary ses)")
    case True
    have "key_ready (ts_primary ses)" using that c by (simp add: ses_fit_def key_ready_def control_ready_def)
    then obtain ses' where "key_state_soft_reset (te_lib env) opt (te_clock env 0) ses = Some ses'" "key_ready (ts_primary ses')"
      "ts_session_id ses' = ts_session_id ses" "ts_tls_wrap ses' = ts_tls_wrap ses"
      using soft_reset_total assms(2) unfolding opt_def by blast
    then show ?thesis using ses1 True that by (auto simp: ses_fit_def key_ready_def)
  qed (use ses1 that in simp)
  then have "ses_fit ses \<Longrightarrow> ses_fit ses2" using ses_fit_core [OF p'(2)] by simp
  then show ?thesis using c unfolding p'(1) by (intro conjI keeps_ses [OF assms(1)]) (simp_all add: ses_def)
qed

lemma process_end_keeps:
  assumes "i < length (tm_session (tp_multi p))" "process_end ts i p = Some p'"
  shows "keeps i (tp_multi p) (tp_multi p')"
proof -
  obtain p1 where p1: "send_ack ts i p = Some p1" "tp_multi p' = tp_multi p1"
    using assms(2) by (auto simp: process_end_def split: bind_splits)
  show ?thesis
  proof (cases "p1 = p")
    case False
    then obtain r buf where "p1 = link_packet i r p"
      "write_control_auth ts (ses_at (tp_multi p) i) (proc_key i p) buf P_ACK_V1 RELIABLE_ACK_SIZE False = Some r"
      using p1(1) by (auto simp: send_ack_def split: bind_splits prod.splits if_splits)
    then show ?thesis using link_packet_keeps [OF assms(1)] p1(2) by simp
  qed (use p1 in simp)
qed

lemma tls_process_keeps:
  assumes "i < length (tm_session (tp_multi p))" "options_ok (tm_opt (tp_multi p))" "tls_process env i p = Done (p', active)"
  shows "keeps i (tp_multi p) (tp_multi p') \<and> control_ready (ses_at (tp_multi p) i)"
proof -
  obtain p1 where p1: "process_start env i p = Some p1"
    using assms(3) by (cases "process_start env i p") (simp_all add: tls_process_def run_of_def)
  note s = process_start_keeps [OF assms(1,2) p1]
  have l1: "i < length (tm_session (tp_multi p1))" using s assms(1) by (simp add: keeps_def)
  obtain p2 n failed where p2: "tls_loop TLS_ROUNDS env 0 i p1 = Done (p2, n, failed)"
    using assms(3) p1 by (cases "tls_loop TLS_ROUNDS env 0 i p1") (auto simp: tls_process_def run_of_def)
  note k2 = keeps_trans [OF _ tls_loop_keeps [OF p2 l1]]
  have l2: "i < length (tm_session (tp_multi p2))" using tls_loop_keeps [OF p2 l1] l1 by (simp add: keeps_def)
  have "keeps i (tp_multi p2) (tp_multi p')"
  proof (cases failed)
    case True
    then have p': "p' = upd_key i (\<lambda>ks. ks\<lparr>ks_state := S_ERROR\<rparr>) p2" using assms(3) p1 p2 by (simp add: tls_process_def run_of_def)
    show ?thesis unfolding p' by (rule keeps_key [OF l2]) (rule fit_same, simp_all)
  next
    case False
    then have "process_end (te_clock env (2 * n + 3)) i p2 = Some p'"
      using assms(3) p1 p2 by (cases "process_end (te_clock env (2 * n + 3)) i p2") (auto simp: tls_process_def run_of_def)
    then show ?thesis using process_end_keeps [OF l2] by blast
  qed
  then show ?thesis using k2 s keeps_trans by blast
qed

lemma hs_path_state:
  assumes "hs_path server s s'" "s \<noteq> S_UNDEF" "s \<noteq> S_ERROR"
  shows "s' \<noteq> S_UNDEF \<and> s' \<noteq> S_ERROR"
  using assms by (induction rule: rtranclp_induct) (auto elim!: hs_step.cases simp: S_defs S_NORMAL_OP_def)

text \<open>A session that was ready is ready again, unless its key is in the error state.\<close>

lemma tls_process_ready:
  assumes "i < length (tm_session (tp_multi p))" "options_ok (tm_opt (tp_multi p))" "small_key (proc_key i p)"
    "tls_process env i p = Done (p', active)"
  shows "keeps i (tp_multi p) (tp_multi p') \<and> (proc_state i p' \<noteq> S_ERROR \<and> ses_fit (ses_at (tp_multi p) i) \<longrightarrow> session_ready (ses_at (tp_multi p') i))"
proof -
  note k = tls_process_keeps [OF assms(1,2,4)]
  have "proc_state i p' \<noteq> S_UNDEF" if "proc_state i p' \<noteq> S_ERROR"
  proof -
    from tls_process_run [OF assms(1,3), of env] assms(4)
    have "run_ok env i p p' \<or> (\<exists>p2. run_ok env i p p2 \<and> p' = upd_key i (\<lambda>ks. ks\<lparr>ks_state := S_ERROR\<rparr>) p2)" by blast
    then have "run_ok env i p p'" using that assms(1) by (auto simp: run_ok_def)
    then have "hs_path (to_server (tm_opt (tp_multi p))) (hs_begin env i p) (proc_state i p')" by (simp add: run_ok_def)
    moreover have "hs_begin env i p \<noteq> S_UNDEF" "hs_begin env i p \<noteq> S_ERROR"
      using k by (auto simp: hs_begin_def control_ready_def S_defs)
    ultimately show ?thesis using hs_path_state by blast
  qed
  then show ?thesis using k by (auto simp: session_ready_iff keeps_def)
qed

subsection \<open>The tunnel stays ready\<close>

text \<open>The retiring session is idle or was active once.\<close>

definition lame_ok :: "'s tls_session \<Rightarrow> bool" where
  "lame_ok ses \<longleftrightarrow> ses_fit ses \<or> ks_state (ts_primary ses) = S_UNDEF"

definition multi_ok :: "'s tls_multi \<Rightarrow> bool" where
  "multi_ok m \<longleftrightarrow> tunnel_ready m \<and> start_ok (tm_opt m) \<and> lame_ok (ses_at m TM_LAME_DUCK)"

lemma multi_ok_length: "multi_ok m \<Longrightarrow> length (tm_session m) = 3" by (simp add: multi_ok_def tunnel_ready_def TM_defs)

text \<open>It depends only on the sessions and the options that matter.\<close>

lemma multi_ok_frame:
  assumes "multi_ok m" "length (tm_session m') = length (tm_session m)" "core_opt (tm_opt m') = core_opt (tm_opt m)"
    "\<And>j. j < 3 \<Longrightarrow> j \<noteq> i \<Longrightarrow> core_ses (ses_at m' j) = core_ses (ses_at m j)"
    "i = TM_ACTIVE \<or> i = TM_UNTRUSTED \<Longrightarrow> session_ready (ses_at m i) \<Longrightarrow> session_ready (ses_at m' i)"
    "i = TM_UNTRUSTED \<Longrightarrow> session_ready (ses_at m i)" "i = TM_LAME_DUCK \<Longrightarrow> lame_ok (ses_at m' i)"
  shows "multi_ok m'"
proof -
  note o = core_opt_same [OF assms(3)]
  have other: "session_ready (ses_at m' j) = session_ready (ses_at m j)" "lame_ok (ses_at m' j) = lame_ok (ses_at m j)"
    "ks_state (prim_at m' j) = ks_state (prim_at m j)" "ks_session_id_remote (prim_at m' j) = ks_session_id_remote (prim_at m j)" if "j < 3" "j \<noteq> i" for j
    using core_session [OF assms(4) [OF that]] by (simp_all add: lame_ok_def)
  have len: "length (tm_session m') = TM_SIZE" and opt: "options_ok (tm_opt m')" "start_ok (tm_opt m')"
    using assms(1,2) o by (simp_all add: multi_ok_def tunnel_ready_def)
  have 0: "session_ready (ses_at m' TM_ACTIVE)"
    using assms(1,5) other(1) [of TM_ACTIVE] by (cases "i = TM_ACTIVE") (auto simp: multi_ok_def tunnel_ready_def TM_defs)
  have 1: "session_ready (ses_at m' TM_UNTRUSTED) \<or> to_single_session (tm_opt m') \<and> ks_state (prim_at m' TM_UNTRUSTED) = S_UNDEF \<and>
      \<not> session_id_defined (ks_session_id_remote (prim_at m' TM_UNTRUSTED))"
  proof (cases "i = TM_UNTRUSTED")
    case False
    then show ?thesis using assms(1) o other [of TM_UNTRUSTED] by (auto simp: multi_ok_def tunnel_ready_def TM_defs)
  qed (use assms(5,6) in simp)
  have 2: "lame_ok (ses_at m' TM_LAME_DUCK)"
    using assms(1,7) other(2) [of TM_LAME_DUCK] by (cases "i = TM_LAME_DUCK") (auto simp: multi_ok_def TM_defs)
  show ?thesis unfolding multi_ok_def tunnel_ready_def using len opt 0 1 2 by blast
qed

lemma multi_ok_core:
  assumes "multi_ok m" "same_core m' m"
  shows "multi_ok m'"
proof (rule multi_ok_frame [OF assms(1), of _ 3])
  have l: "length (tm_session m) = 3" using multi_ok_length [OF assms(1)] .
  show "length (tm_session m') = length (tm_session m)" "core_opt (tm_opt m') = core_opt (tm_opt m)"
    using core_keyD(1,2) [OF assms(2), of 0] l by simp_all
  show "core_ses (ses_at m' j) = core_ses (ses_at m j)" if "j < 3" for j using same_core_ses [OF assms(2)] that l by simp
qed (simp_all add: TM_defs)

lemma ready_small: "session_ready ses \<Longrightarrow> small_key (ts_primary ses)"
  by (simp add: session_ready_iff ses_fit_small)

lemma ready_lame: "session_ready ses \<Longrightarrow> lame_ok ses"
  by (simp add: session_ready_iff lame_ok_def)

lemma multi_ok_set:
  assumes "multi_ok m" "session_ready ses" "i < 3"
  shows "multi_ok (m\<lparr>tm_session := (tm_session m)[i := ses]\<rparr>)"
  using assms ready_lame [of ses] by (auto simp: multi_ok_def tunnel_ready_def TM_defs nth_list_update less_Suc_eq numeral_3_eq_3)

lemma multi_ok_move:
  assumes "multi_ok m" "move_session lib sid m dest src True = Some m'" "session_id_defined sid"
    "dest = TM_LAME_DUCK \<and> src = TM_ACTIVE \<and> ses_fit (ses_at m src) \<or> dest = TM_ACTIVE \<and> src = TM_UNTRUSTED \<and> session_ready (ses_at m src)"
  shows "multi_ok m'"
proof -
  obtain ses where ses: "tls_session_init lib (tm_opt m) sid = Some ses"
    "m' = m\<lparr>tm_session := (tm_session m)[dest := ses_at m src, src := ses]\<rparr>"
    using assms(2) by (auto simp: move_session_def Let_def split: bind_splits)
  have "session_ready ses" using start_ready [OF _ ses(1) assms(3)] assms(1) by (simp add: multi_ok_def)
  then show ?thesis
    using assms(1,4) ses(2) lame_ok_def [of "ses_at m src"] by (auto simp: multi_ok_def tunnel_ready_def TM_defs)
qed

lemma session_failed_ok:
  assumes m0: "multi_ok m0" and k: "keeps i m0 m" and i: "i < 3" "i = TM_UNTRUSTED \<Longrightarrow> session_ready (ses_at m0 i)"
    and sid: "session_id_defined (me_sid env i)" and run: "session_failed env i m = Some m'"
  shows "multi_ok m'"
proof -
  have l: "length (tm_session m0) = 3" "length (tm_session m) = 3" using multi_ok_length [OF m0] k by (simp_all add: keeps_def)
  have opt: "core_opt (tm_opt m) = core_opt (tm_opt m0)" using k by (simp add: keeps_def)
  obtain ses where ses: "tls_session_init (me_lib env) (tm_opt m) (me_sid env i) = Some ses"
    "m' = (soft_error m)\<lparr>tm_session := (tm_session m)[i := ses]\<rparr> \<or>
     i = TM_ACTIVE \<and> m' = (soft_error m)\<lparr>tm_session := (tm_session m)[TM_LAME_DUCK := ses_at m i, i := ses]\<rparr>"
    using run by (auto simp: session_failed_def Let_def move_session_def reset_session_def soft_error_def split: if_splits bind_splits)
  have "start_ok (tm_opt m)" using core_opt_same [OF opt] m0 by (simp add: multi_ok_def)
  then have r: "session_ready ses" using start_ready ses(1) sid by blast
  define m1 where "m1 = (soft_error m)\<lparr>tm_session := (tm_session m)[i := ses]\<rparr>"
  have m1: "multi_ok m1"
    by (rule multi_ok_frame [OF m0, of _ i])
      (use l opt k i r ready_lame [OF r] in \<open>simp_all add: m1_def soft_error_def keeps_def\<close>)
  from ses(2) show ?thesis
  proof
    assume "i = TM_ACTIVE \<and> m' = (soft_error m)\<lparr>tm_session := (tm_session m)[TM_LAME_DUCK := ses_at m i, i := ses]\<rparr>"
    then have i0: "i = TM_ACTIVE" and m': "m' = m1\<lparr>tm_session := (tm_session m1)[TM_LAME_DUCK := ses_at m i]\<rparr>"
      by (simp_all add: m1_def soft_error_def TM_defs list_update_swap)
    have "ses_fit (ses_at m i)" using k i0 m0 by (auto simp: keeps_def multi_ok_def tunnel_ready_def session_ready_iff)
    then have small: "lame_ok (ses_at m i)" by (simp add: lame_ok_def)
    show ?thesis unfolding m' by (rule multi_ok_frame [OF m1, of _ TM_LAME_DUCK]) (use l small in \<open>simp_all add: m1_def TM_defs\<close>)
  qed (use m1 m1_def in simp)
qed

lemma set_initial_addr_ok:
  assumes "multi_ok m" "addr_ok lsa"
  shows "multi_ok (set_initial_addr lsa i m)" "tm_opt (set_initial_addr lsa i m) = tm_opt m" 
    "ks_state (prim_at (set_initial_addr lsa i m) j) = ks_state (prim_at m j)"
proof -
  have l: "length (tm_session m) = 3" using multi_ok_length [OF assms(1)] .
  show "tm_opt (set_initial_addr lsa i m) = tm_opt m" by (simp add: set_initial_addr_def)
  show "ks_state (prim_at (set_initial_addr lsa i m) j) = ks_state (prim_at m j)"
    using l by (cases "i = j") (auto simp: set_initial_addr_def upd_prim_def upd_ses_def TM_defs)
  show "multi_ok (set_initial_addr lsa i m)"
  proof (cases "i = TM_ACTIVE \<and> ks_state (prim_at m i) = S_INITIAL \<and> link_socket_actual_defined lsa")
    case True
    show ?thesis
      by (rule multi_ok_frame [OF assms(1), of _ i])
        (use True l assms(2) in \<open>auto simp: set_initial_addr_def upd_prim_def upd_ses_def TM_defs session_ready_def key_ready_def\<close>)
  next
    case False
    show ?thesis unfolding set_initial_addr_def if_not_P [OF False] by (rule assms(1))
  qed
qed

text \<open>The routine for one session.\<close>

lemma multi_session_ok:
  assumes m: "multi_ok (tp_multi (mp_proc st))" and a: "addr_ok lsa" and i: "i < 3" and sid: "session_id_defined (me_sid env i)"
  shows "multi_session env lsa i st \<noteq> Out_of_rounds \<and> (\<forall>st'. multi_session env lsa i st = Done st' \<longrightarrow> multi_ok (tp_multi (mp_proc st')))"
proof -
  define m0 where "m0 = set_initial_addr lsa i (tp_multi (mp_proc st))"
  define p where "p = (mp_proc st)\<lparr>tp_multi := m0\<rparr>"
  have m0: "multi_ok m0" using set_initial_addr_ok(1) [OF m a] by (simp add: m0_def)
  have l: "i < length (tm_session m0)" using multi_ok_length [OF m0] i by simp
  show ?thesis
  proof (cases "proc_state i p \<ge> S_INITIAL \<and> link_socket_actual_defined (ks_remote_addr (proc_key i p))")
    case False
    then have "multi_session env lsa i st = Done (st\<lparr>mp_proc := p\<rparr>)"
      unfolding multi_session_def Let_def m0_def [symmetric] p_def [symmetric] by (simp only: if_False)
    then show ?thesis using m0 by (simp add: p_def)
  next
    case True
    define q where "q = p\<lparr>tp_to_link_addr := None\<rparr>"
    have q: "tp_multi q = m0" by (simp add: q_def p_def)
    have cases: "i = TM_ACTIVE \<or> i = TM_UNTRUSTED \<or> i = TM_LAME_DUCK" using i by (auto simp: TM_defs)
    have unt: "session_ready (ses_at m0 i)" if "i = TM_UNTRUSTED"
      using True m0 that by (auto simp: p_def multi_ok_def tunnel_ready_def S_defs)
    have fit: "ses_fit (ses_at m0 i)"
      using True cases m0 unt by (auto simp: p_def multi_ok_def tunnel_ready_def lame_ok_def session_ready_iff S_defs)
    have small: "small_key (proc_key i q)" unfolding q using ses_fit_small [OF fit] .
    have opt: "options_ok (tm_opt m0)" using m0 by (simp add: multi_ok_def tunnel_ready_def)
    show ?thesis
    proof (cases "tls_process (process_env env i) i q")
      case (Done r)
      obtain p1 active where r: "r = (p1, active)" by (cases r) auto
      note k = tls_process_ready [OF _ _ small Done [unfolded r], unfolded q, OF l opt]
      define p2 where "p2 = (case tp_to_link_addr p1 of None \<Rightarrow> p1 | Some a \<Rightarrow> p1\<lparr>tp_multi := (tp_multi p1)\<lparr>tm_to_link_addr := a\<rparr>\<rparr>)"
      have p2: "tm_session (tp_multi p2) = tm_session (tp_multi p1)" "tm_opt (tp_multi p2) = tm_opt (tp_multi p1)"
        by (simp_all add: p2_def split: option.splits)
      have k2: "keeps i m0 (tp_multi p2)" using k p2 by (simp add: keeps_def)
      show ?thesis
      proof (cases "proc_state i p2 = S_ERROR")
        case err: True
        have "multi_session env lsa i st \<noteq> Out_of_rounds \<and>
          (\<forall>st'. multi_session env lsa i st = Done st' \<longrightarrow> session_failed env i (tp_multi p2) = Some (tp_multi (mp_proc st')))"
          using True Done r err unfolding multi_session_def Let_def m0_def [symmetric] p_def [symmetric] q_def [symmetric]
          by (cases "session_failed env i (tp_multi p2)") (auto simp: p2_def [symmetric] run_of_def)
        then show ?thesis using session_failed_ok [OF m0 k2 i unt sid] by blast
      next
        case False
        then have "\<exists>st'. multi_session env lsa i st = Done st' \<and> mp_proc st' = p2"
          using True Done r unfolding multi_session_def Let_def m0_def [symmetric] p_def [symmetric] q_def [symmetric]
          by (auto simp: p2_def [symmetric])
        moreover have "multi_ok (tp_multi p2)"
        proof (rule multi_ok_frame [OF m0, of _ i])
          show "session_ready (ses_at (tp_multi p2) i)" if "session_ready (ses_at m0 i)"
            using that k False p2 by (simp add: session_ready_iff)
          have "ses_fit (ses_at (tp_multi p2) i)" using fit k2 by (simp add: keeps_def)
          then show "lame_ok (ses_at (tp_multi p2) i)" by (simp add: lame_ok_def)
        qed (use k2 i unt multi_ok_length [OF m0] in \<open>auto simp: keeps_def\<close>)
        ultimately show ?thesis by auto
      qed
    next
      case Out_of_rounds
      then show ?thesis using tls_process_run [OF _ small, of "process_env env i"] l q by simp
    next
      case Fault
      then show ?thesis using True unfolding multi_session_def Let_def m0_def [symmetric] p_def [symmetric] q_def [symmetric] by simp
    qed
  qed
qed

lemma core_scan_update:
  assumes "same_core m' m" "core_key (f (scan_key m' j)) = core_key (scan_key m' j)"
  shows "same_core (scan_update j f m') m"
proof -
  have upd: "same_core (m'\<lparr>tm_session := (tm_session m')[k := ses]\<rparr>) m" if "core_ses ses = core_ses (ses_at m' k)" for k ses
  proof -
    have "map core_ses ((tm_session m')[k := ses]) = map core_ses (tm_session m')"
      using list_update_id [of "map core_ses (tm_session m')" k] that
      by (cases "k < length (tm_session m')") (simp_all add: map_update list_update_beyond)
    then show ?thesis using assms(1) by (simp add: same_core_def)
  qed
  show ?thesis unfolding scan_update_def Let_def
    by (rule upd) (use assms(2) in \<open>auto simp: core_ses_def scan_key_def\<close>)
qed

lemma key_auth_core: "key_auth_status env ts c ks = Some (ks', a, b) \<Longrightarrow> core_key ks' = core_key ks"
  by (auto simp: key_auth_status_def key_state_test_auth_control_file_def Let_def core_key_def split: bind_splits if_splits option.splits)

lemma auth_scan_core:
  "auth_scan env ts files js m1 a s d = Some (m', r) \<Longrightarrow> same_core m1 m \<Longrightarrow> same_core m' m"
proof (induction js arbitrary: m1 a s d)
  case (Cons j js)
  show ?case
  proof (cases "DECRYPT_KEY_ENABLED m1 (scan_key m1 j)")
    case True
    then obtain ks s1 d1 where k: "key_auth_status env ts (files j) (scan_key m1 j) = Some (ks, s1, d1)"
      "auth_scan env ts files js (scan_update j (\<lambda>_. ks) m1) True (s \<or> s1) (d \<or> d1) = Some (m', r)"
      using Cons.prems(1) by (auto split: bind_splits)
    have "same_core (scan_update j (\<lambda>_. ks) m1) m" by (rule core_scan_update [OF Cons.prems(2)]) (rule key_auth_core [OF k(1)])
    then show ?thesis using Cons.IH [OF k(2)] by blast
  next
    case False
    then show ?thesis using Cons by simp
  qed
qed simp

lemma auth_status_core:
  assumes "tls_authentication_status env ts files m n = Some (m', tas)"
  shows "same_core m' m"
proof (cases "m' = m")
  case False
  then obtain r where r: "auth_scan env ts files [0, 1, 2] (m\<lparr>tm_tas_last := ts\<rparr>) False False False = Some (m', r)"
    using assms unfolding tls_authentication_status_def by (auto split: if_splits bind_splits simp del: auth_scan.simps)
  show ?thesis by (rule auth_scan_core [OF r]) (simp add: same_core_def)
qed (simp add: same_core_refl)

lemma multi_finish_ok:
  assumes m: "multi_ok (tp_multi (mp_proc st))" and sid: "session_id_defined (me_sid env 3)" and run: "multi_finish env st = Some (st', r)"
  shows "multi_ok (tp_multi (mp_proc st'))"
proof -
  obtain m1 tas die m2 where as: "tls_authentication_status (me_verify env) (me_now env) (me_files env) (tp_multi (mp_proc st)) TLS_MULTI_AUTH_STATUS_INTERVAL = Some (m1, tas)"
    and m2: "promote_session env (kill_lame_session die m1) = Some m2"
    "tp_multi (mp_proc st') = count_hard_error (mp_error st) m2"
    using run unfolding multi_finish_def Let_def by (auto split: bind_splits)
  have ok1: "multi_ok m1" using multi_ok_core [OF m auth_status_core [OF as]] .
  define m3 where "m3 = kill_lame_session die m1"
  have ok3: "multi_ok m3"
  proof (cases die)
    case True
    show ?thesis unfolding m3_def
      by (rule multi_ok_frame [OF ok1, of _ TM_LAME_DUCK])
        (use True multi_ok_length [OF ok1] in \<open>auto simp: kill_lame_session_def upd_ses_def tls_session_free_def lame_ok_def TM_defs zero_session_def zero_key_state_def\<close>)
  qed (use ok1 in \<open>simp add: m3_def kill_lame_session_def\<close>)
  have "multi_ok m2"
  proof (cases "DECRYPT_KEY_ENABLED m3 (prim_at m3 TM_UNTRUSTED)")
    case True
    then have "session_ready (ses_at m3 TM_UNTRUSTED)"
      using ok3 by (auto simp: multi_ok_def tunnel_ready_def DECRYPT_KEY_ENABLED_def S_defs split: if_splits)
    then show ?thesis using multi_ok_move [OF ok3 _ sid, of "me_lib env" TM_ACTIVE TM_UNTRUSTED] m2(1) True by (auto simp: promote_session_def m3_def)
  qed (use ok3 m2(1) in \<open>simp add: promote_session_def m3_def\<close>)
  then show ?thesis using m2(2) by (simp add: count_hard_error_def multi_ok_def tunnel_ready_def)
qed

text \<open>Sessions fail, are reset, promoted and retired on the way; an assertion can fail in the exchange of keys.\<close>

lemma tls_multi_process_ready:
  assumes "multi_ok (tp_multi p)" "addr_ok lsa" "\<forall>i < 4. session_id_defined (me_sid env i)"
  shows "tls_multi_process env lsa p \<noteq> Out_of_rounds \<and>
    (\<forall>st ret. tls_multi_process env lsa p = Done (st, ret) \<longrightarrow> multi_ok (tp_multi (mp_proc st)))"
proof -
  define st0 where "st0 = \<lparr>mp_proc = p, mp_addr = None, mp_active = False, mp_error = False\<rparr>"
  have s: "session_id_defined (me_sid env TM_ACTIVE)" "session_id_defined (me_sid env TM_UNTRUSTED)" "session_id_defined (me_sid env TM_LAME_DUCK)"
    "session_id_defined (me_sid env 3)" "TM_ACTIVE < 3" "TM_UNTRUSTED < 3" "TM_LAME_DUCK < 3" using assms(3) by (simp_all add: TM_defs)
  have ok0: "multi_ok (tp_multi (mp_proc st0))" using assms(1) by (simp add: st0_def)
  show ?thesis
  proof (cases "multi_session env lsa TM_ACTIVE st0")
    case (Done st1)
    then have ok1: "multi_ok (tp_multi (mp_proc st1))" using multi_session_ok [OF ok0 assms(2) s(5,1)] by blast
    show ?thesis
    proof (cases "multi_session env lsa TM_UNTRUSTED st1")
      case 2: (Done st2)
      then have ok2: "multi_ok (tp_multi (mp_proc st2))" using multi_session_ok [OF ok1 assms(2) s(6,2)] by blast
      show ?thesis
      proof (cases "multi_session env lsa TM_LAME_DUCK st2")
        case 3: (Done st3)
        then have ok3: "multi_ok (tp_multi (mp_proc st3))" using multi_session_ok [OF ok2 assms(2) s(7,3)] by blast
        show ?thesis
          using Done 2 3 multi_finish_ok [OF ok3 s(4)] unfolding tls_multi_process_def st0_def [symmetric]
          by (cases "multi_finish env st3") (auto simp: run_of_def)
      qed (use Done 2 multi_session_ok [OF ok2 assms(2) s(7,3)] in \<open>simp_all add: tls_multi_process_def st0_def [symmetric]\<close>)
    qed (use Done multi_session_ok [OF ok1 assms(2) s(6,2)] in \<open>simp_all add: tls_multi_process_def st0_def [symmetric]\<close>)
  qed (use multi_session_ok [OF ok0 assms(2) s(5,1)] in \<open>simp_all add: tls_multi_process_def st0_def [symmetric]\<close>)
qed

subsection \<open>The first call on a client\<close>

definition toy_client_options :: tls_options where
  "toy_client_options = toy_tls_options\<lparr>to_server := False, to_single_session := True\<rparr>"

definition toy_client_proc :: "unit tls_proc" where
  "toy_client_proc = toy_proc\<lparr>tp_multi := toy_client\<lparr>tm_opt := toy_client_options\<rparr>\<rparr>"

definition toy_multi_env :: "unit multi_env" where
  "toy_multi_env = \<lparr>me_lib = toy_lib, me_km = \<lambda>_. toy_km_env 1, me_clock = \<lambda>i n. 100 + int n, me_sid = \<lambda>i. toy_sid (word_of_nat (i + 1)),
     me_verify = toy_env, me_files = \<lambda>_. None, me_now = 200\<rparr>"

definition multi_summary :: "('s multi_proc \<times> int) run \<Rightarrow> (int \<times> int list \<times> byte list option) option" where
  "multi_summary r = (case r of Done (st, ret) \<Rightarrow>
     Some (ret, map (\<lambda>ses. ks_state (ts_primary ses)) (tm_session (tp_multi (mp_proc st))), buf_bytes (tp_to_link (mp_proc st))) | _ \<Rightarrow> None)"

lemma toy_client_ok: "multi_ok (tp_multi toy_client_proc)"
proof -
  have rel: "\<exists>S. reliable_init 40 20 n False = Some S \<and> rel_wf 40 S" if "n = 4 \<or> n = 8" for n
    using reliable_init_total [of n 20 40 False] that by (auto simp: BUF_SIZE_MAX_def)
  obtain S R where S: "reliable_init 40 20 4 False = Some S" "rel_wf 40 S" and R: "reliable_init 40 20 8 False = Some R" "rel_wf 40 R"
    using rel by blast
  have sid: "session_id_defined (toy_sid 1)" "\<not> session_id_defined (ks_session_id_remote zero_key_state)" by code_simp+
  have "map_option (\<lambda>_. True) (packet_id_init 4 15) = Some True" by code_simp
  moreover have "4 \<le> FRAME_HEADROOM sample_frame \<and> FRAME_HEADROOM sample_frame \<le> BUF_SIZE sample_frame \<and> BUF_SIZE sample_frame < BUF_SIZE_MAX"
    by code_simp
  ultimately have opt: "options_ok toy_client_options" "start_ok toy_client_options"
    by (auto simp: start_ok_def options_ok_def toy_client_options_def toy_tls_options_def wrap_keys_ok_def zero_tls_wrap_def zero_crypto_options_def)
  have ses: "session_ready (zero_session\<lparr>ts_session_id := toy_sid 1, ts_primary := toy_start\<rparr>)"
    using S R sid by (auto simp: session_ready_def key_ready_def toy_start_def S_defs wrap_reads_def zero_session_def zero_tls_wrap_def zero_key_state_def
        ack_empty_def ack_ok_def RELIABLE_ACK_SIZE_def addr_ok_def)
  show ?thesis
    using opt ses sid
    by (simp add: multi_ok_def tunnel_ready_def toy_client_proc_def toy_client_def TM_defs lame_ok_def toy_client_options_def zero_session_def)
      (simp add: zero_key_state_def)
qed

lemma tls_multi_process_first_call:
  "\<exists>st. tls_multi_process toy_multi_env (zero_sockaddr\<lparr>sa_family := AF_INET\<rparr>) toy_client_proc = Done (st, TLSMP_ACTIVE) \<and>
    multi_ok (tp_multi (mp_proc st)) \<and> proc_state TM_ACTIVE (mp_proc st) = S_PRE_START"
proof -
  have "addr_ok (zero_sockaddr\<lparr>sa_family := AF_INET\<rparr>)" by (simp add: addr_ok_def)
  moreover have "list_all (\<lambda>i. session_id_defined (me_sid toy_multi_env i)) [0, 1, 2, 3]" by code_simp
  then have "\<forall>i < 4. session_id_defined (me_sid toy_multi_env i)" by (auto simp: less_Suc_eq numeral_eq_Suc)
  moreover have "multi_summary (tls_multi_process toy_multi_env (zero_sockaddr\<lparr>sa_family := AF_INET\<rparr>) toy_client_proc) =
    Some (TLSMP_ACTIVE, [S_PRE_START, 0, 0], Some [56, 1, 1, 1, 1, 1, 1, 1, 1, 0, 0, 0, 0, 0])" by code_simp
  then obtain st where "tls_multi_process toy_multi_env (zero_sockaddr\<lparr>sa_family := AF_INET\<rparr>) toy_client_proc = Done (st, TLSMP_ACTIVE)"
    "map (\<lambda>ses. ks_state (ts_primary ses)) (tm_session (tp_multi (mp_proc st))) = [S_PRE_START, 0, 0]"
    by (auto simp: multi_summary_def split: run.splits)
  moreover from this(2) have "proc_state TM_ACTIVE (mp_proc st) = S_PRE_START" by (auto simp: TM_defs map_eq_Cons_conv)
  ultimately show ?thesis
    using tls_multi_process_ready [OF toy_client_ok, of "zero_sockaddr\<lparr>sa_family := AF_INET\<rparr>" toy_multi_env] by blast
qed

end
