(* ===== verification/Tunnel_Life.thy ===== *)
theory Tunnel_Life
  imports Tls_Multi_Process
begin

text \<open>
  The life of a tunnel, across the theories that model its operations: it is set up, takes in packets, is driven, and carries payload for the rest of
  the program, in any order. Whatever happens it stays of the type that every operation relies on.
\<close>

subsection \<open>What a packet leaves alone\<close>

definition quiet :: "'s tls_multi \<Rightarrow> 's tls_multi \<Rightarrow> bool" where
  "quiet m m' \<longleftrightarrow> tm_opt m' = tm_opt m \<and> core_ses (ses_at m' TM_LAME_DUCK) = core_ses (ses_at m TM_LAME_DUCK)"

lemma quiet_refl [simp]: "quiet m m" by (simp add: quiet_def)

lemma quiet_trans: "quiet m m1 \<Longrightarrow> quiet m1 m2 \<Longrightarrow> quiet m m2" by (simp add: quiet_def)

lemma quiet_upd: "quiet m m' \<Longrightarrow> k \<noteq> TM_LAME_DUCK \<Longrightarrow> quiet m (upd_ses k f m')"
  by (simp add: quiet_def upd_ses_def)

lemma quiet_counts [simp]: "quiet m (soft_error m') = quiet m m'" "quiet m (m'\<lparr>tm_n_sessions := n\<rparr>) = quiet m m'"
  by (simp_all add: quiet_def soft_error_def)

lemma read_at_quiet:
  assumes "read_at ts m k b = Some (m', b', ok)" "k \<noteq> TM_LAME_DUCK"
  shows "quiet m m'"
  using assms quiet_upd [OF quiet_refl assms(2)] by (auto simp: read_at_def split: bind_splits)

lemma route_quiet:
  assumes "route_packet lib ts m a b op i nl = Some (m', b', r)"
  shows "quiet m m' \<and> (\<forall>k nl db. r = Some (k, nl, db) \<longrightarrow> k \<noteq> TM_LAME_DUCK)"
proof (cases "i = None \<and> is_hard_reset op 0")
  case True
  then show ?thesis
    using assms quiet_upd [of m _ TM_UNTRUSTED] read_at_quiet [of ts m TM_UNTRUSTED b]
    by (auto simp: route_packet_def TM_defs split: if_splits bind_splits)
next
  case new: False
  show ?thesis
  proof (cases i)
    case None
    then show ?thesis using assms new by (auto simp: route_packet_def)
  next
    case (Some k)
    show ?thesis
    proof (cases "k \<noteq> TM_ACTIVE \<and> k \<noteq> TM_UNTRUSTED")
      case True
      then show ?thesis using assms Some by (simp add: route_packet_def)
    next
      case False
      then have k: "k \<noteq> TM_LAME_DUCK" by (auto simp: TM_defs)
      then show ?thesis
        using assms Some False
        by (auto simp: route_packet_def split: if_splits bind_splits dest!: read_at_quiet intro: quiet_upd)
    qed
  qed
qed

lemma accept_quiet:
  assumes "accept_packet ts m a b op kid sid (k, nl, db) = Some (m', b', ok)" "k \<noteq> TM_LAME_DUCK"
  shows "quiet m m'"
proof -
  define m1 where "m1 = (if nl then (upd_prim k (\<lambda>ks. ks\<lparr>ks_session_id_remote := sid, ks_remote_addr := a\<rparr>) m)\<lparr>tm_n_sessions := tm_n_sessions m + 1\<rparr> else m)"
  have m1: "quiet m m1" using assms(2) by (simp add: m1_def upd_prim_def quiet_upd)
  have "m' = m1 \<or> (\<exists>f. m' = upd_ses k f m1)"
    using assms(1) unfolding accept_packet_def prod.case Let_def m1_def [symmetric] by (auto split: if_splits bind_splits)
  then show ?thesis using m1 quiet_upd [OF m1 assms(2)] by auto
qed

lemma data_quiet:
  assumes "pre_decrypt_data m a b floated op kid = Some (m', b', r)"
  shows "quiet m m'"
proof -
  have scan: "quiet m (scan_update j (\<lambda>ks. ks\<lparr>ks_n_packets := n ks, ks_n_bytes := k ks\<rparr>) m)" for j n k
    by (cases "TM_LAME_DUCK < length (tm_session m)") (auto simp: quiet_def scan_update_def Let_def core_ses_def core_key_def TM_defs nth_list_update list_update_beyond not_less)
  obtain j where "find_data_key m a floated kid [0, 1, 2] = Some j" using assms unfolding pre_decrypt_data_def by (cases "find_data_key m a floated kid [0, 1, 2]") simp_all
  then show ?thesis using assms unfolding pre_decrypt_data_def Let_def by (auto split: bind_splits option.splits if_splits prod.splits intro: scan)
qed

lemma initial_quiet: "initial_packet m a op i = (m1, r) \<Longrightarrow> quiet m m1"
  by (auto simp: initial_packet_def TM_defs split: if_splits intro!: quiet_upd)

lemma control_quiet:
  assumes "pre_decrypt_control lib ts m a b op kid = Some (m', b', ret)"
  shows "quiet m m'"
  using assms unfolding pre_decrypt_control_def Let_def
  by (auto split: if_splits bind_splits prod.splits option.splits dest!: initial_quiet route_quiet accept_quiet intro: quiet_trans)

subsection \<open>Each operation keeps the tunnel ready\<close>

lemma packet_step:
  assumes m: "multi_ok m" and buf: "buf_ok buf" and a: "addr_ok a" and ts: "1 < ts"
  shows "\<exists>m' b' opt ret. tls_pre_decrypt lib ts m a buf floated = Some (m', b', opt, ret) \<and> multi_ok m'"
proof (cases "content buf = []")
  case True
  then have "\<not> b_len buf > 0" using buf_ok_len [OF buf] by simp
  then show ?thesis using m by (auto simp: tls_pre_decrypt_def)
next
  case False
  then obtain c cs where c: "content buf = [c] @ cs" by (cases "content buf") auto
  note run = tls_pre_decrypt_run [OF buf c, of lib ts m a floated]
  have ready: "tunnel_ready m" using m by (simp add: multi_ok_def)
  have keep: "multi_ok m'" if "quiet m m'" "tunnel_ready m'" for m'
    using that m core_session [of "ses_at m' TM_LAME_DUCK" "ses_at m TM_LAME_DUCK"] by (simp add: multi_ok_def quiet_def lame_ok_def)
  obtain m' b' opt where d: "pre_decrypt_data m a buf floated (packet_op c) (packet_key_id c) = Some (m', b', opt)" "tunnel_ready m'"
    using pre_decrypt_data_total [OF ready buf False a, of floated "packet_op c" "packet_key_id c"] by blast
  obtain m2 b2 ret where e: "pre_decrypt_control lib ts m a buf (packet_op c) (packet_key_id c) = Some (m2, b2, ret)" "tunnel_ready m2"
    using pre_decrypt_control_total [OF ready buf False ts a, of lib "packet_op c" "packet_key_id c"] by blast
  show ?thesis unfolding run using keep [OF data_quiet [OF d(1)] d(2)] keep [OF control_quiet [OF e(1)] e(2)] d(1) e(1) by auto
qed

lemma init_step:
  fixes lib :: "'s ssl_lib"
  assumes "tls_init_control_channel_frame_parameters data_frame (to_frame opt) = Some f" "start_ok (opt\<lparr>to_frame := f\<rparr>)"
    "session_id_defined sid1" "session_id_defined sid2" "tls_multi_init_finalize lib sid1 sid2 (tls_multi_init opt) data_frame = Some m"
  shows "multi_ok m"
proof -
  obtain s1 where s1: "tls_session_init lib (opt\<lparr>to_frame := f\<rparr>) sid1 = Some s1" "session_ready s1"
    using assms(1-3,5) start_ready [OF assms(2) _ assms(3)]
    by (auto simp: tls_multi_init_finalize_def tls_multi_init_def reset_session_def Let_def split: bind_splits)
  define m1 where "m1 = (tls_multi_init opt)\<lparr>tm_opt := opt\<lparr>to_frame := f\<rparr>, tm_session := [s1, zero_session, zero_session]\<rparr>"
  have zero: "lame_ok (zero_session :: 's tls_session)" "ks_state (ts_primary (zero_session :: 's tls_session)) = S_UNDEF"
    "\<not> session_id_defined (ks_session_id_remote (ts_primary (zero_session :: 's tls_session)))"
    by (simp_all add: lame_ok_def zero_session_def zero_key_state_def session_id_defined_def)
  show ?thesis
  proof (cases "to_single_session opt")
    case True
    then have "m = m1" using assms(1,5) s1(1)
      by (simp add: tls_multi_init_finalize_def tls_multi_init_def reset_session_def m1_def TM_defs numeral_3_eq_3)
    then show ?thesis using True s1(2) zero assms(2) by (simp add: m1_def multi_ok_def tunnel_ready_def start_ok_def TM_defs)
  next
    case False
    then obtain s2 where s2: "tls_session_init lib (opt\<lparr>to_frame := f\<rparr>) sid2 = Some s2" "m = m1\<lparr>tm_session := [s1, s2, zero_session]\<rparr>"
      using assms(1,5) s1(1)
      by (auto simp: tls_multi_init_finalize_def tls_multi_init_def reset_session_def m1_def TM_defs numeral_3_eq_3 split: bind_splits)
    then show ?thesis using s1(2) start_ready [OF assms(2) s2(1) assms(4)] zero(1) assms(2)
      by (simp add: m1_def multi_ok_def tunnel_ready_def start_ok_def TM_defs)
  qed
qed

lemma send_payload_step: "tls_send_payload lib m data = Some (m', ok) \<Longrightarrow> multi_ok m \<Longrightarrow> multi_ok m'"
proof -
  assume run: "tls_send_payload lib m data = Some (m', ok)" and m: "multi_ok m"
  have "same_core (set_ssl lib TM_ACTIVE s m) m" "same_core (upd_prim TM_ACTIVE (\<lambda>ks. ks\<lparr>ks_paybuf := ks_paybuf ks @ [data]\<rparr>) m) m" for s
    by (intro core; simp add: core_key_def)+
  then have "same_core m' m" using run by (auto simp: tls_send_payload_def split: if_splits bind_splits prod.splits)
  then show "multi_ok m'" using multi_ok_core m by blast
qed

lemma rec_payload_step: "tls_rec_payload m buf = Some (m', buf', ok) \<Longrightarrow> multi_ok m \<Longrightarrow> multi_ok m'"
proof -
  assume run: "tls_rec_payload m buf = Some (m', buf', ok)" and m: "multi_ok m"
  define f where "f = (\<lambda>ks :: 'a key_state. ks\<lparr>ks_plaintext_read_buf := (ks_plaintext_read_buf ks)\<lparr>b_len := 0\<rparr>\<rparr>)"
  have "m' = m \<or> m' = upd_prim TM_ACTIVE f m"
    using run unfolding tls_rec_payload_def Let_def f_def by (auto split: if_splits bind_splits)
  moreover have "multi_ok (upd_prim TM_ACTIVE f m)"
    by (rule multi_ok_frame [OF m, of _ TM_ACTIVE])
      (use multi_ok_length [OF m] in \<open>auto simp: upd_prim_def upd_ses_def f_def session_ready_def key_ready_def TM_defs\<close>)
  ultimately show "multi_ok m'" using m by auto
qed

subsection \<open>The life of a tunnel\<close>

text \<open>
  All the sessions of a process point at one \<open>pid_persist\<close> record (init.c), which the replay checks of any of them write and
  from which a session that starts takes its replay state. The wrapping in the options of the tunnel holds that record; it is
  free to change between the operations.
\<close>

definition set_persist :: "packet_id_persist option \<Rightarrow> 's tls_multi \<Rightarrow> 's tls_multi" where
  "set_persist pp m = m\<lparr>tm_opt := (tm_opt m)\<lparr>to_tls_wrap := (to_tls_wrap (tm_opt m))\<lparr>tw_opt :=
     (tw_opt (to_tls_wrap (tm_opt m)))\<lparr>co_pid_persist := pp\<rparr>\<rparr>\<rparr>\<rparr>"

lemma persist_step: "multi_ok m \<Longrightarrow> multi_ok (set_persist pp m)"
  by (simp add: multi_ok_def set_persist_def tunnel_ready_def start_ok_def options_ok_def wrap_keys_ok_def)

inductive tunnel_life :: "'s ssl_lib \<Rightarrow> 's tls_multi \<Rightarrow> bool" for lib where
  life_start: "\<lbrakk>tls_init_control_channel_frame_parameters data_frame (to_frame opt) = Some f; start_ok (opt\<lparr>to_frame := f\<rparr>);
     session_id_defined sid1; session_id_defined sid2;
     tls_multi_init_finalize lib sid1 sid2 (tls_multi_init opt) data_frame = Some m\<rbrakk> \<Longrightarrow> tunnel_life lib m"
| life_packet: "\<lbrakk>tunnel_life lib m; buf_ok buf; addr_ok from_addr; 1 < local_now;
     tls_pre_decrypt lib local_now m from_addr buf floated = Some (m', buf', key, ret)\<rbrakk> \<Longrightarrow> tunnel_life lib m'"
| life_process: "\<lbrakk>tunnel_life lib (tp_multi p); addr_ok lsa; me_lib env = lib; \<forall>i < 4. session_id_defined (me_sid env i);
     tls_multi_process env lsa p = Done (st, ret)\<rbrakk> \<Longrightarrow> tunnel_life lib (tp_multi (mp_proc st))"
| life_send: "\<lbrakk>tunnel_life lib m; tls_send_payload lib m data = Some (m', ok)\<rbrakk> \<Longrightarrow> tunnel_life lib m'"
| life_receive: "\<lbrakk>tunnel_life lib m; tls_rec_payload m buf = Some (m', buf', ok)\<rbrakk> \<Longrightarrow> tunnel_life lib m'"
| life_status: "\<lbrakk>tunnel_life lib m; tls_authentication_status env local_now files m latency = Some (m', status)\<rbrakk> \<Longrightarrow> tunnel_life lib m'"
| life_persist: "tunnel_life lib m \<Longrightarrow> tunnel_life lib (set_persist pp m)"

lemma tunnel_life_ok: "tunnel_life lib m \<Longrightarrow> multi_ok m"
proof (induction rule: tunnel_life.induct)
  case (life_start data_frame opt f sid1 sid2 m)
  then show ?case by (rule init_step)
next
  case (life_packet m buf from_addr local_now floated m' buf' key ret)
  then show ?case using packet_step [of m buf from_addr local_now lib floated] by simp
next
  case (life_process p lsa env st ret)
  then show ?case using tls_multi_process_ready [of p lsa env] by blast
next
  case (life_send m data m' ok)
  then show ?case using send_payload_step by blast
next
  case (life_receive m buf m' buf' ok)
  then show ?case using rec_payload_step by blast
next
  case (life_status m env local_now files latency m' status)
  then show ?case using multi_ok_core auth_status_core by blast
next
  case (life_persist m pp)
  then show ?case using persist_step by blast
qed

text \<open>
  C8. A tunnel stays of one type for its whole life. It is set up by \<open>tls_multi_init_finalize\<close>, without outer wrapping, with tls-auth or with
  tls-crypt, and then with the replay state of an earlier session or without it; then packets arrive, the driver runs, payload is
  sent and received and the authentication status is asked for, in any order, with any peer, any answers of the TLS library and any clock
  after the first second of 1970; the shared record of the replay state may change in between. At every
  point the active session has an id, wrapping that can read, a key that is neither unused nor in error and well-formed buffers for both directions, the second
  session is like that or is switched off, and the retiring one is idle or can be driven. Therefore the next packet, whatever it
  is, is processed without a failed assertion, and the next call of \<open>tls_multi_process\<close> comes to an end.
\<close>

theorem tunnel_stays_ready:
  assumes "tunnel_life lib m" "buf_ok buf" "addr_ok from_addr" "1 < local_now" "\<forall>i < 4. session_id_defined (me_sid env i)"
  shows "tunnel_ready m \<and> tls_pre_decrypt lib local_now m from_addr buf floated \<noteq> None \<and>
    tls_multi_process env from_addr (p\<lparr>tp_multi := m\<rparr>) \<noteq> Out_of_rounds"
proof -
  have m: "multi_ok m" using tunnel_life_ok [OF assms(1)] .
  then have "multi_ok (tp_multi (p\<lparr>tp_multi := m\<rparr>))" by simp
  then show ?thesis using m packet_step [OF m assms(2-4), of lib floated] tls_multi_process_ready [OF _ assms(3,5)]
    by (auto simp: multi_ok_def)
qed

text \<open>A server with tls-crypt, set up with the replay state of an earlier session, that got four bytes that look like the start of a hard reset.\<close>

lemma tunnel_stays_ready_witness:
  "\<exists>m m1 buf1 key ret.
    tls_multi_init_finalize toy_lib (toy_sid 1) (toy_sid 2) (tls_multi_init toy_guarded_options) sample_frame = Some m \<and>
    tls_pre_decrypt toy_lib 9 m (zero_sockaddr\<lparr>sa_family := AF_INET\<rparr>) (packet_buf [56, 1, 2, 3]) False = Some (m1, buf1, key, ret) \<and>
    tunnel_ready m1 \<and> tls_pre_decrypt toy_lib 10 m1 (zero_sockaddr\<lparr>sa_family := AF_INET\<rparr>) (packet_buf [56, 1, 2, 3]) False \<noteq> None \<and>
    tls_multi_process toy_multi_env (zero_sockaddr\<lparr>sa_family := AF_INET\<rparr>) (toy_client_proc\<lparr>tp_multi := m1\<rparr>) \<noteq> Out_of_rounds"
proof -
  let ?a = "zero_sockaddr\<lparr>sa_family := AF_INET\<rparr>" and ?b = "packet_buf [56, 1, 2, 3]"
  obtain f pid where f: "tls_init_control_channel_frame_parameters sample_frame (to_frame toy_guarded_options) = Some f"
    and opt: "options_ok (toy_guarded_options\<lparr>to_frame := f\<rparr>)" "1 \<le> to_key_method toy_guarded_options" "\<not> to_single_session toy_guarded_options"
    and pid: "packet_id_init (to_replay_window toy_guarded_options) (to_replay_time toy_guarded_options) = Some pid"
    and w: "wrap_keys_ok (to_tls_wrap toy_guarded_options)" "co_flags (tw_opt (to_tls_wrap toy_guarded_options)) AND CO_IGNORE_PACKET_ID = 0"
      "co_pid_persist (tw_opt (to_tls_wrap toy_guarded_options)) \<noteq> None" 
    and sid: "session_id_defined (toy_sid 1)" "session_id_defined (toy_sid 2)"
    by (rule toy_guarded_facts)
  obtain m where m: "tls_multi_init_finalize toy_lib (toy_sid 1) (toy_sid 2) (tls_multi_init toy_guarded_options) sample_frame = Some m"
    using multi_init_ready [OF f opt(1,2) pid w(1,2) sid opt(3), of toy_lib] by blast
  have start: "start_ok (toy_guarded_options\<lparr>to_frame := f\<rparr>)" using opt(1,2) pid w(1,2) by (simp add: start_ok_def)
  have l: "tunnel_life toy_lib m" using life_start [OF f start sid m] .
  have b: "buf_ok ?b" using packet_buf_ok [of "[56, 1, 2, 3]"] by (simp add: BUF_SIZE_MAX_def)
  have a: "addr_ok ?a" by (simp add: addr_ok_def)
  obtain m1 buf1 key ret where r: "tls_pre_decrypt toy_lib 9 m ?a ?b False = Some (m1, buf1, key, ret)"
    using packet_step [OF tunnel_life_ok [OF l] b a, of 9 toy_lib False] by auto
  have l1: "tunnel_life toy_lib m1" by (rule life_packet [OF l b a _ r]) simp
  have "list_all (\<lambda>i. session_id_defined (me_sid toy_multi_env i)) [0, 1, 2, 3]" by code_simp
  then have e: "\<forall>i < 4. session_id_defined (me_sid toy_multi_env i)" by (auto simp: less_Suc_eq numeral_eq_Suc)
  show ?thesis using m r tunnel_stays_ready [OF l1 b a _ e, of 10 False toy_client_proc] by auto
qed

end
