(* ===== verification/Spec2Isabelle.thy ===== *)
theory Spec2Isabelle
  imports Replay_Refinement Reliable_Channel Pool List_Hash Base64 Otime Wakeup Data_Channel TLS_Crypt Key_Material Tls_State Control_Auth Buffer_Text Ssl_Verify Key_Method Control_Firewall Tls_Pre_Decrypt Tls_Process Tls_Multi_Process Tls_Process_Inv Tunnel_Life
begin

text \<open>
The OpenVPN core of the Android VPN client.

  The application is a Java user interface around a VPN client written in C. The C client is OpenVPN 2.5, in
  \<open>src/app/src/main/cpp/openvpn/src/openvpn\<close>; file names below are relative to that directory. This development models the
  parts of it that decide something: which packets are accepted, in which order they are delivered, which key protects them,
  which address a client gets, when a timer fires. It leaves aside what only calls the operating system or a library.

  How the program works. A tunnel has two channels over one UDP or TCP link. The control channel (ssl.c) runs TLS
  over a reliability layer of its own (reliable.c); its packets carry an opcode, a session id, acknowledgements and, if
  configured, an HMAC or the encryption of tls-crypt (tls_crypt.c). When the TLS handshake is done, the two ends exchange
  key material and derive the keys of the data channel (ssl.c, crypto.c). The data channel carries IP packets: they are
  fragmented to the MTU (fragment.c, mtu.c), encrypted and numbered (crypto.c), and the receiver checks the number against
  a sliding window (packet_id.c). All of them work on one kind of packet buffer (buffer.h). A server keeps its clients in
  hash tables (list.c), gives them addresses from a pool (pool.c), and finds out which of them to serve next from a treap of
  wakeup times (schedule.c, multi.c); timers and rate limits rest on otime.c, interval.c and shaper.c. The management
  interface transports binary data in base64 (base64.c).

  Conventions. A C \<open>struct\<close> is a \<open>record\<close> with the members' names (prefixed where records share a name). \<open>int\<close> is modelled
  on \<open>int\<close> where the values stay far from its limits, and cut to 32 bits where they do not; packet ids, addresses, flags
  and \<open>size_t\<close> loops are words, with their wrap-around. An operation that can fail an \<open>ASSERT\<close>, raise a fatal error, follow
  a null pointer or touch memory outside a block returns an \<open>option\<close>, and \<open>None\<close> is that fault (theory Prelude);
  so a theorem that the result is \<open>Some\<close> says that no fault occurs. An error that the code reports
  to its caller is a boolean or an \<open>option\<close> inside the result. Globals (the clock \<open>now\<close>) are arguments. Logging is left out.

  Theories, from the bottom up.
  Prelude: machine types, the fault monad, network byte order, generic facts.
  Integer_Util: integer.h.
  Buffer: \<open>struct buffer\<close> and its operations (buffer.h, buffer.c). \<open>content\<close>, \<open>headroom\<close> and \<open>tailroom\<close> are the abstract
  view; the locale \<open>byte_window\<close> is the contract (push and get at both ends), interpreted as \<open>buf\<close> on the code's operations.
  Buffer_Text: the strings and the buffer lists of buffer.c and the comparison of option strings in options.c.
  Circ_List: the macros of circ_list.h, with the locale \<open>bounded_memory\<close>.
  Packet_Id: packet_id.h, packet_id.c and \<open>crypto_check_replay\<close>. Replay_Protection and Replay_Refinement: the locale
  \<open>replay_filter\<close>, interpreted on the windows of UDP and TCP; the window refines a filter over lists of accepted and expired ids (the expiry of
  \<open>packet_id_reap\<close> included); no id is accepted twice; a sender never reuses an id; what a session that resumes a persisted replay
  state rejects; the wire form of an id, in front of a packet and behind it.
  Session_Id, Reliable, Reliable_Ack, Reliable_Inv, Reliable_Channel: session_id.h, reliable.h, reliable.c and the places where
  ssl.c uses them; acknowledgement records survive the wire; a transition system of a sender and a receiver over a network that
  loses, duplicates and reorders, with in-order exactly-once delivery, no loss, progress, and no fault of any operation in a reachable state.
  Mtu: mtu.h and mtu.c. Reassembly, Fragment, Fragmentation: fragment.h and fragment.c; reassembly in any order, safety
  against any packet.
  Crypto: encryption and decryption of data packets (crypto.c). Data_Channel: at-most-once delivery of an AEAD data channel.
  TLS_Crypt: tls_crypt.c; only authentic packets are accepted, and the two ends agree.
  Key_Material: keys, key directions and the key derivation of crypto.c and ssl.c; both ends derive mirrored keys; the
  pseudo-random function is the one of RFC 2246.
  Tls_State: the records of ssl_common.h and the life cycle of key states and sessions in ssl.c.
  Key_Method: the exchange of key method 1 and 2 (\<open>key_method_1_write\<close> to \<open>key_method_2_read\<close> in ssl.c); what two ends that authenticate
  each other agree on, and the assertion that fails where a client refuses its peer.
  Ssl_Verify: ssl_verify.c without the certificates: locks, user names and passwords, tokens, and exact conditions
  for the authentication of a key after the final checks and for the status of a tunnel.
  Control_Auth: the outer layer of control packets (\<open>write_control_auth\<close>, \<open>read_control_auth\<close>, \<open>swap_hmac\<close> in ssl.c).
  Control_Firewall, Tls_Pre_Decrypt: what any packet of the link can do (\<open>tls_pre_decrypt\<close>, \<open>tls_pre_decrypt_lite\<close> in ssl.c): nothing fails, data
  packets meet only usable keys, unauthenticated control packets change nothing that matters; the keys and opcodes of outgoing packets.
  Tls_Process: the driver of the control channel (\<open>tls_process\<close> in ssl.c, with the calls of ssl_openssl.c); it ends, and each of
  the steps of a round (\<open>round_steps\<close>) leaves the state of the key or makes one move of the negotiation of its role. Tls_Process_Inv, Tls_Multi_Process: what the driver keeps, and \<open>tls_multi_process\<close>, which resets,
  promotes and retires sessions. Tunnel_Life: a tunnel that is set up the way init.c does it (without
  wrapping, with tls-auth or with tls-crypt, with the persisted replay state or without), under all these operations, in any order,
  stays of one type.
  Pool: pool.c and \<open>add_in6_addr\<close>, with the locale \<open>allocator\<close>: no IPv4 or IPv6 address is leased twice. List_Hash: list.c, with the locale \<open>keyed_table\<close>.
  Base64: base64.c. Otime: otime.c, interval.c and the integer part of shaper.c.
  Schedule, Schedule_Ops, Wakeup: schedule.c on a heap of nodes with parent pointers, and the use multi.c makes of it; the locale
  \<open>wakeup_queue\<close> is its contract.

  Parameters. Ciphers, digests and the TLS library are not part of the program. A cipher context and a digest are records of
  functions; what the code relies on is stated where it is used (\<open>aead_correct\<close>, \<open>stream_cipher\<close>, \<open>digest_ok\<close>). Random numbers
  are arguments. The hash and comparison functions of a table are arguments with the law \<open>key_law\<close>.

  Bounds and fuel. Loops over arrays are structural recursion. A loop whose end is not evident is a \<open>partial_function\<close> or a
  \<open>function\<close> with a measure, and that it ends is proved: \<open>schedule_add_ends\<close> (under a random source that is fair),
  \<open>hash_remove_by_value_ends\<close>, \<open>tls1_P_hash_is_rfc\<close>. Three functions carry fuel: \<open>frag_drain\<close> stops after 32 steps, as many as a
  datagram has fragments, and \<open>adjust_power_of_2\<close> after 64, the width of \<open>size_t\<close>. The loop of \<open>tls_process\<close> gets 34 rounds;
  \<open>tls_process_ends\<close> shows with the measure \<open>work_left\<close> that it needs no more: each round but the last takes a step of the negotiation, a packet or
  a piece of text, and the negotiation and the arrays of eight packets bound their number.

  Not modelled. Option parsing and start-up (options.c, init.c), the management interface (manage.c), devices, routes and sockets
  (tun.c, route.c, socket.c), proxies, plug-ins, certificates (in ssl_verify.c) and the back ends of the TLS libraries, which consist of
  calls into the operating system and into libraries; OpenSSL, mbed TLS, LZO, LZ4, asio and openvpn3, which are third-party code
  in the tree; the Java application. Printing, statistics and memory management (arenas, \<open>free\<close>) inside the modelled files.
\<close>

end
